(* ===== verification/Afb_Prelude.thy ===== *)
theory Afb_Prelude
  imports Main "HOL-Library.Word" "HOL-Library.Monad_Syntax"
begin

text \<open>
  Shared vocabulary of the development.

  \<^item> The library collections \<open>crash_free\<close> (facts that an operation of the model does not
    abort), \<open>frame\<close> (what an operation leaves unchanged) and \<open>keeps_inv\<close> (preservation
    of a component invariant).
  \<^item> Pointers: an address is a natural number, \<open>NULL\<close> is \<open>0\<close>. A failed
    \<open>assert\<close>, a call to \<open>exit\<close> and an access through a dangling or out of range pointer
    are the value \<open>None\<close> of an option type; errors that the C code reports to its caller
    (a negative return, \<open>NULL\<close> with \<open>errno\<close>) are ordinary values.
  \<^item> Loops over an index range are \<open>ofold\<close>, the fold of the option monad, with one rule for
    invariants and one for totality.
  \<^item> Two interface locales used by several components: \<open>kv_store\<close> (keyed get/set) and
    \<open>refcounted\<close> (addref/unref).
\<close>

named_theorems crash_free
named_theorems frame
named_theorems keeps_inv

type_synonym ptr = nat
type_synonym addr = nat
type_synonym byte = "8 word"

abbreviation (input) NULL :: nat where "NULL \<equiv> 0"

datatype errno = ENOMEM | EINVAL | EEXIST | ENOENT | EPIPE | EAGAIN | EINTR | ENOTDIR | EIO

section \<open>Folding in the option monad\<close>

fun ofold :: "('x \<Rightarrow> 's \<Rightarrow> 's option) \<Rightarrow> 'x list \<Rightarrow> 's \<Rightarrow> 's option" where
  "ofold f [] s = Some s"
| "ofold f (x # xs) s = (case f x s of None \<Rightarrow> None | Some s' \<Rightarrow> ofold f xs s')"

lemma ofold_append:
  "ofold f (xs @ ys) s = (case ofold f xs s of None \<Rightarrow> None | Some s' \<Rightarrow> ofold f ys s')"
  by (induction xs arbitrary: s) (auto split: option.splits)

lemma ofold_total:
  assumes "P s"
    and "\<And>x s. x \<in> set xs \<Longrightarrow> P s \<Longrightarrow> \<exists>s'. f x s = Some s' \<and> P s'"
  shows "\<exists>s'. ofold f xs s = Some s' \<and> P s'"
  using assms
proof (induction xs arbitrary: s)
  case Nil
  then show ?case by simp
next
  case (Cons x xs)
  from Cons.prems obtain s1 where "f x s = Some s1" "P s1" by (meson list.set_intros(1))
  with Cons show ?case by auto
qed

lemma ofold_invariant:
  assumes "ofold f xs s = Some s'" and "P s"
    and "\<And>x s s'. x \<in> set xs \<Longrightarrow> P s \<Longrightarrow> f x s = Some s' \<Longrightarrow> P s'"
  shows "P s'"
  using assms
proof (induction xs arbitrary: s)
  case Nil
  then show ?case by simp
next
  case (Cons x xs)
  then obtain s1 where s1: "f x s = Some s1" "ofold f xs s1 = Some s'"
    by (auto split: option.splits)
  moreover from Cons.prems s1 have "P s1" by (meson list.set_intros(1))
  ultimately show ?case using Cons.IH Cons.prems(3) by (meson list.set_intros(2))
qed

section \<open>Writing into a buffer\<close>

text \<open>\<open>None\<close> when the elements do not fit.\<close>

definition memcpy :: "'a list \<Rightarrow> nat \<Rightarrow> 'a list \<Rightarrow> 'a list option" where
  "memcpy buf off bytes =
     (if off + length bytes \<le> length buf then Some (take off buf @ bytes @ drop (off + length bytes) buf) else None)"

lemma memcpy_Some: "memcpy buf off bytes = Some buf' \<Longrightarrow> length buf' = length buf \<and> take (off + length bytes) buf' = take off buf @ bytes"
  by (clarsimp simp: memcpy_def min_absorb2 split: if_splits)

section \<open>First index satisfying a predicate\<close>

text \<open>The search loops \<open>for (idx = 0; idx < n; idx++) if (p(a[idx])) goto found\<close>.\<close>

fun first_index :: "('a \<Rightarrow> bool) \<Rightarrow> 'a list \<Rightarrow> nat option" where
  "first_index p [] = None"
| "first_index p (x # xs) = (if p x then Some 0 else map_option Suc (first_index p xs))"

lemma first_index_None: "first_index p xs = None \<longleftrightarrow> (\<forall>x \<in> set xs. \<not> p x)"
  by (induction xs) auto

lemma first_index_Some:
  "first_index p xs = Some i \<Longrightarrow> i < length xs \<and> p (xs ! i) \<and> (\<forall>j < i. \<not> p (xs ! j))"
proof (induction xs arbitrary: i)
  case Nil
  then show ?case by simp
next
  case (Cons x xs)
  show ?case
  proof (cases "p x")
    case True
    with Cons.prems show ?thesis by auto
  next
    case False
    with Cons.prems obtain k where k: "first_index p xs = Some k" "i = Suc k" by auto
    from Cons.IH [OF k(1)] show ?thesis
      using False k(2) by (auto simp: nth_Cons split: nat.splits)
  qed
qed

lemma first_index_exists: "x \<in> set xs \<Longrightarrow> p x \<Longrightarrow> \<exists>i. first_index p xs = Some i"
  by (cases "first_index p xs") (auto simp: first_index_None)

lemma first_index_update:
  "i < length xs \<Longrightarrow> p y = p (xs ! i) \<Longrightarrow> first_index p (xs[i := y]) = first_index p xs"
  by (induction xs arbitrary: i) (auto split: nat.splits)

lemma first_index_cong: "(\<And>x. x \<in> set xs \<Longrightarrow> p x = q x) \<Longrightarrow> first_index p xs = first_index q xs"
  by (induction xs) auto

lemma first_index_filter: "first_index p xs = Some i \<Longrightarrow> \<exists>ys. filter p xs = xs ! i # ys"
  by (induction xs arbitrary: i) (auto split: if_splits)

text \<open>Among more values than there are used ones, one is free within as many tries as there are used ones.\<close>

lemma free_within:
  assumes "inj_on f {..<N}" "finite S" "card S < N"
  shows "\<exists>k \<le> card S. f k \<notin> S"
proof (rule ccontr)
  assume "\<not> ?thesis"
  then have "f ` {..card S} \<subseteq> S" by auto
  then have "card (f ` {..card S}) \<le> card S" by (rule card_mono [OF assms(2)])
  moreover have "inj_on f {..card S}" by (rule inj_on_subset [OF assms(1)]) (use assms(3) in auto)
  then have "card (f ` {..card S}) = Suc (card S)" by (simp add: card_image)
  ultimately show False by simp
qed

lemma map_remove1_distinct: "distinct (map f xs) \<Longrightarrow> x \<in> set xs \<Longrightarrow> map f (remove1 x xs) = remove1 (f x) (map f xs)"
  by (induction xs) (auto, metis imageI)

lemma first_index_unique:
  assumes "i < length xs" "p (xs ! i)" "\<And>j. j < length xs \<Longrightarrow> p (xs ! j) \<Longrightarrow> j = i"
  shows "first_index p xs = Some i"
proof -
  obtain k where k: "first_index p xs = Some k"
    using first_index_exists [of "xs ! i" xs p, OF nth_mem [OF assms(1)] assms(2)] by blast
  with first_index_Some [OF k] assms(3) [of k] show ?thesis by blast
qed

section \<open>The occupied slots of a table of pointers\<close>

definition somes :: "'a option list \<Rightarrow> 'a list" where
  "somes xs = map the (filter (\<lambda>x. x \<noteq> None) xs)"

lemma somes_simps [simp]:
  "somes [] = []" "somes (None # xs) = somes xs" "somes (Some a # xs) = a # somes xs"
  "somes (xs @ ys) = somes xs @ somes ys"
  by (simp_all add: somes_def)

lemma set_somes [simp]: "set (somes xs) = {a. Some a \<in> set xs}"
  by (force simp: somes_def image_iff)

lemma length_somes_le: "length (somes xs) \<le> length xs"
  by (simp add: somes_def)

lemma length_somes_full: "length (somes xs) = length xs \<longleftrightarrow> None \<notin> set xs"
proof (induction xs)
  case (Cons x xs)
  with length_somes_le [of xs] show ?case by (cases x) auto
qed simp

lemma somes_all_None: "(\<forall>x \<in> set xs. x = None) \<Longrightarrow> somes xs = []"
  by (induction xs) auto

lemma somes_update:
  assumes "i < length xs"
  shows "somes (xs[i := v]) = somes (take i xs) @ somes [v] @ somes (drop (Suc i) xs)"
proof -
  have "somes (take i xs @ [v] @ drop (Suc i) xs)
    = somes (take i xs) @ somes [v] @ somes (drop (Suc i) xs)"
    by (simp only: somes_simps(4))
  then show ?thesis using assms by (simp add: upd_conv_take_nth_drop)
qed

lemma somes_split:
  "i < length xs \<Longrightarrow> somes xs = somes (take i xs) @ somes [xs ! i] @ somes (drop (Suc i) xs)"
  using somes_update [of i xs "xs ! i"] by simp

lemma length_somes_fill:
  "i < length xs \<Longrightarrow> xs ! i = None \<Longrightarrow> length (somes (xs[i := Some a])) = Suc (length (somes xs))"
  using somes_update [of i xs "Some a"] somes_split [of i xs] by simp

lemma length_somes_clear:
  "i < length xs \<Longrightarrow> xs ! i = Some a \<Longrightarrow> Suc (length (somes (xs[i := None]))) = length (somes xs)"
  using somes_update [of i xs None] somes_split [of i xs] by simp

lemma distinct_somes_fill:
  "i < length xs \<Longrightarrow> xs ! i = None \<Longrightarrow> distinct (somes xs) \<Longrightarrow> Some a \<notin> set xs
    \<Longrightarrow> distinct (somes (xs[i := Some a]))"
  using somes_update [of i xs "Some a"] somes_split [of i xs]
  by (auto dest: in_set_takeD in_set_dropD)

lemma distinct_somes_clear:
  "i < length xs \<Longrightarrow> distinct (somes xs) \<Longrightarrow> distinct (somes (xs[i := None]))"
  using somes_update [of i xs None] somes_split [of i xs] by (cases "xs ! i") auto

lemma set_somes_fill:
  "i < length xs \<Longrightarrow> xs ! i = None \<Longrightarrow> {b. Some b \<in> set (xs[i := Some a])} = insert a {b. Some b \<in> set xs}"
  using somes_update [of i xs "Some a"] somes_split [of i xs] by (simp flip: set_somes)

lemma set_somes_clear:
  assumes "i < length xs" "xs ! i = Some a" "distinct (somes xs)"
  shows "{b. Some b \<in> set (xs[i := None])} = {b. Some b \<in> set xs} - {a}"
proof -
  let ?l = "somes (take i xs)" and ?r = "somes (drop (Suc i) xs)"
  have "set (somes (xs[i := None])) = set ?l \<union> set ?r" "set (somes xs) = insert a (set ?l \<union> set ?r)"
    using somes_update [OF assms(1), of None] somes_split [OF assms(1)] assms(2) by (simp_all del: set_somes)
  moreover have "a \<notin> set ?l \<union> set ?r"
    using assms somes_split [OF assms(1)] by (simp del: set_somes)
  ultimately show ?thesis by (simp flip: set_somes)
qed

section \<open>Interface: keyed storage\<close>

text \<open>
  \<open>get\<close> after \<open>set\<close>; \<open>ok k\<close> are the keys the store accepts and \<open>inv\<close> what it relies on.
\<close>

locale kv_store =
  fixes inv :: "'s \<Rightarrow> bool"
    and ok :: "'s \<Rightarrow> 'k \<Rightarrow> bool"
    and get :: "'s \<Rightarrow> 'k \<Rightarrow> 'v option"
    and put :: "'s \<Rightarrow> 'k \<Rightarrow> 'v \<Rightarrow> 's option"
  assumes put_total: "inv s \<Longrightarrow> ok s k \<Longrightarrow> \<exists>s'. put s k v = Some s'"
    and put_inv: "inv s \<Longrightarrow> put s k v = Some s' \<Longrightarrow> inv s'"
    and put_ok: "inv s \<Longrightarrow> put s k v = Some s' \<Longrightarrow> ok s' j = ok s j"
    and get_same: "inv s \<Longrightarrow> put s k v = Some s' \<Longrightarrow> get s' k = Some v"
    and get_other: "inv s \<Longrightarrow> put s k v = Some s' \<Longrightarrow> j \<noteq> k \<Longrightarrow> get s' j = get s j"
begin

fun set_all :: "'s \<Rightarrow> ('k \<times> 'v) list \<Rightarrow> 's option" where
  "set_all s [] = Some s"
| "set_all s (kv # kvs) = (case put s (fst kv) (snd kv) of None \<Rightarrow> None | Some s' \<Rightarrow> set_all s' kvs)"

lemma last_write_wins:
  assumes "inv s" "\<forall>kv \<in> set kvs. ok s (fst kv)"
  shows "\<exists>s'. set_all s kvs = Some s' \<and> inv s'
    \<and> (\<forall>k. get s' k = (case map_of (rev kvs) k of None \<Rightarrow> get s k | Some v \<Rightarrow> Some v))"
  using assms
proof (induction kvs arbitrary: s)
  case Nil
  then show ?case by simp
next
  case (Cons kv kvs)
  obtain s1 where s1: "put s (fst kv) (snd kv) = Some s1" "inv s1"
    using Cons.prems put_total put_inv by (meson list.set_intros(1))
  with Cons.prems have "\<forall>kv \<in> set kvs. ok s1 (fst kv)" by (simp add: put_ok)
  from Cons.IH [OF s1(2) this] obtain s' where s': "set_all s1 kvs = Some s'" "inv s'"
    "\<And>k. get s' k = (case map_of (rev kvs) k of None \<Rightarrow> get s1 k | Some v \<Rightarrow> Some v)" by blast
  have "get s' k = (case map_of (rev (kv # kvs)) k of None \<Rightarrow> get s k | Some v \<Rightarrow> Some v)" for k
    using s'(3) [of k] get_same [OF Cons.prems(1) s1(1)] get_other [OF Cons.prems(1) s1(1), of k]
    by (cases "k = fst kv") (auto simp: map_add_def split: option.splits)
  with s1 s' show ?case by auto
qed

end

section \<open>Interface: reference counted objects\<close>

text \<open>
  \<open>cnt x\<close> reads the count; \<open>addref\<close> takes a reference; \<open>unref\<close> drops one and returns the
  object when it survives, \<open>None\<close> when the last reference has gone and it is released.
\<close>

locale refcounted =
  fixes cnt :: "'o \<Rightarrow> int"
    and addref :: "'o \<Rightarrow> 'o"
    and unref :: "'o \<Rightarrow> 'o option"
  assumes cnt_addref: "cnt (addref x) = cnt x + 1"
    and unref_last: "cnt x = 1 \<Longrightarrow> unref x = None"
    and unref_addref: "0 < cnt x \<Longrightarrow> unref (addref x) = Some x"
begin

fun unrefs :: "nat \<Rightarrow> 'o \<Rightarrow> 'o option" where
  "unrefs 0 x = Some x"
| "unrefs (Suc n) x = (case unref x of None \<Rightarrow> None | Some y \<Rightarrow> unrefs n y)"

lemma cnt_addrefs: "cnt ((addref ^^ n) x) = cnt x + int n"
  by (induction n) (auto simp: cnt_addref)

lemma balanced:
  assumes "0 < cnt x"
  shows "unrefs n ((addref ^^ n) x) = Some x"
proof (induction n)
  case 0
  then show ?case by simp
next
  case (Suc n)
  have "unref (addref ((addref ^^ n) x)) = Some ((addref ^^ n) x)"
    using assms by (intro unref_addref) (simp add: cnt_addrefs)
  with Suc show ?case by simp
qed

lemma unrefs_Suc_end: "unrefs (Suc n) x = (case unrefs n x of None \<Rightarrow> None | Some y \<Rightarrow> unref y)"
proof (induction n arbitrary: x)
  case 0
  then show ?case by (simp split: option.split)
next
  case (Suc n)
  show ?case
    by (cases "unref x") (use Suc in simp_all)
qed

text \<open>The object survives every balanced unref and is released by exactly one more.\<close>

lemma released_exactly_once:
  assumes "cnt x = 1"
  shows "m \<le> n \<Longrightarrow> unrefs m ((addref ^^ n) x) = Some ((addref ^^ (n - m)) x)"
    and "unrefs (Suc n) ((addref ^^ n) x) = None"
proof -
  show "m \<le> n \<Longrightarrow> unrefs m ((addref ^^ n) x) = Some ((addref ^^ (n - m)) x)"
  proof (induction m arbitrary: n)
    case 0
    then show ?case by simp
  next
    case (Suc m)
    then obtain k where n: "n = Suc k" by (cases n) auto
    have "unref (addref ((addref ^^ k) x)) = Some ((addref ^^ k) x)"
      using assms by (intro unref_addref) (simp add: cnt_addrefs)
    with Suc n show ?case by simp
  qed
  show "unrefs (Suc n) ((addref ^^ n) x) = None"
    using assms by (simp add: unrefs_Suc_end balanced unref_last del: unrefs.simps)
qed

end

end
