(* ===== verification/Session.thy ===== *)
theory Session
  imports Afb_Prelude
begin

text \<open>
  The session store of \<^verbatim>\<open>src/src/session.c\<close>.

  Client contexts live on a heap (a map from addresses); the table \<open>sessions.store\<close> holds their
  addresses. The environment of a call is explicit: the result of \<open>calloc\<close> (\<open>None\<close> for
  \<open>NULL\<close>), the text produced by libuuid and the current time. Releasing a stored value with
  its \<open>free_value\<close> function appends the pair (function, value) to \<open>ss_freed\<close>. Locking is not
  modelled: the operations are the critical sections, run one after the other.

  The invariant \<open>session_inv\<close> says that the table and the heap agree, that no two sessions share
  a uuid, and that a closed context is kept only while referenced; every operation keeps it and
  does not abort (\<open>session_step_inv\<close>).
\<close>

section \<open>Data\<close>

record client_value =
  cv_value :: ptr
  cv_free_value :: ptr

record cookie =
  ck_key :: ptr
  ck_value :: ptr
  ck_free_value :: ptr

record AFB_clientCtx =
  cx_refcount :: nat
  cx_loa :: "32 word"
  cx_timeout :: int
  cx_expiration :: int
  cx_access :: int
  cx_uuid :: string
  cx_token :: string
  cx_values :: "client_value list"
  cx_cookies :: "cookie list"

record sessions =
  ss_heap :: "addr \<rightharpoonup> AFB_clientCtx"
  ss_store :: "addr option list"
  ss_count :: int
  ss_max :: nat
  ss_timeout :: int
  ss_apicount :: nat
  ss_initok :: string
  ss_freed :: "(ptr \<times> ptr) list"

abbreviation null_value :: client_value where
  "null_value \<equiv> \<lparr>cv_value = NULL, cv_free_value = NULL\<rparr>"

definition put_ctx :: "sessions \<Rightarrow> addr \<Rightarrow> AFB_clientCtx \<Rightarrow> sessions" where
  "put_ctx s a c = s\<lparr>ss_heap := (ss_heap s)(a \<mapsto> c)\<rparr>"

definition call_free :: "sessions \<Rightarrow> ptr \<Rightarrow> ptr \<Rightarrow> sessions" where
  "call_free s f v = s\<lparr>ss_freed := ss_freed s @ [(f, v)]\<rparr>"

section \<open>Operations\<close>

text \<open>\<open>uuid[37]\<close> holds at most 36 characters and the final NUL.\<close>

definition token_size :: nat where "token_size = 37"

definition ctxStoreInit :: "nat \<Rightarrow> int \<Rightarrow> string option \<Rightarrow> nat \<Rightarrow> string \<Rightarrow> sessions option" where
  "ctxStoreInit max_session_count timeout initok context_count newuuid =
     (let s = \<lparr>ss_heap = Map.empty, ss_store = replicate (1 + max_session_count) None, ss_count = 0,
               ss_max = max_session_count, ss_timeout = timeout, ss_apicount = context_count,
               ss_initok = '''', ss_freed = []\<rparr>
      in case initok of
           None \<Rightarrow> Some (s\<lparr>ss_initok := newuuid\<rparr>)
         | Some t \<Rightarrow> if length t < token_size then Some (s\<lparr>ss_initok := t\<rparr>) else None)"

fun search_slots :: "(addr \<rightharpoonup> AFB_clientCtx) \<Rightarrow> addr option list \<Rightarrow> string \<Rightarrow> addr option option" where
  "search_slots h [] uuid = Some None"
| "search_slots h (None # xs) uuid = search_slots h xs uuid"
| "search_slots h (Some a # xs) uuid =
     do { c \<leftarrow> h a; if uuid = cx_uuid c then Some (Some a) else search_slots h xs uuid }"

definition ctxStoreSearch :: "sessions \<Rightarrow> string \<Rightarrow> addr option option" where
  "ctxStoreSearch s uuid = search_slots (ss_heap s) (take (ss_max s) (ss_store s)) uuid"

definition ctxStoreDel :: "sessions \<Rightarrow> addr \<Rightarrow> sessions \<times> bool" where
  "ctxStoreDel s a =
     (case first_index (\<lambda>x. x = Some a) (take (ss_max s) (ss_store s)) of
        Some i \<Rightarrow> (s\<lparr>ss_store := (ss_store s)[i := None], ss_count := ss_count s - 1\<rparr>, True)
      | None \<Rightarrow> (s, False))"

definition ctxStoreAdd :: "sessions \<Rightarrow> addr \<Rightarrow> sessions \<times> bool" where
  "ctxStoreAdd s a =
     (case first_index (\<lambda>x. x = None) (take (ss_max s) (ss_store s)) of
        Some i \<Rightarrow> (s\<lparr>ss_store := (ss_store s)[i := Some a], ss_count := ss_count s + 1\<rparr>, True)
      | None \<Rightarrow> (s, False))"

definition ctxStoreTooOld :: "AFB_clientCtx \<Rightarrow> int \<Rightarrow> bool" where
  "ctxStoreTooOld c now \<longleftrightarrow> cx_expiration c < now"

definition ctxIsActive :: "AFB_clientCtx \<Rightarrow> int \<Rightarrow> bool" where
  "ctxIsActive c now \<longleftrightarrow> cx_uuid c \<noteq> '''' \<and> cx_expiration c \<ge> now"

definition ctxClientValueGet :: "sessions \<Rightarrow> addr \<Rightarrow> int \<Rightarrow> ptr option" where
  "ctxClientValueGet s a index =
     do { c \<leftarrow> ss_heap s a;
          if 0 \<le> index \<and> index < int (ss_apicount s) \<and> nat index < length (cx_values c)
          then Some (cv_value (cx_values c ! nat index)) else None }"

definition ctxClientValueSet :: "sessions \<Rightarrow> addr \<Rightarrow> int \<Rightarrow> ptr \<Rightarrow> ptr \<Rightarrow> sessions option" where
  "ctxClientValueSet s a index value free_value =
     do { c \<leftarrow> ss_heap s a;
          if 0 \<le> index \<and> index < int (ss_apicount s) \<and> nat index < length (cx_values c)
          then
            let prev = cx_values c ! nat index;
                s' = put_ctx s a (c\<lparr>cx_values := (cx_values c)[nat index :=
                       \<lparr>cv_value = value, cv_free_value = free_value\<rparr>]\<rparr>)
            in Some (if cv_value prev \<noteq> NULL \<and> cv_value prev \<noteq> value \<and> cv_free_value prev \<noteq> NULL
                     then call_free s' (cv_free_value prev) (cv_value prev) else s')
          else None }"

fun free_cookies :: "sessions \<Rightarrow> addr \<Rightarrow> cookie list \<Rightarrow> sessions option" where
  "free_cookies s a [] = Some s"
| "free_cookies s a (k # ks) =
     do { c \<leftarrow> ss_heap s a;
          let s1 = put_ctx s a (c\<lparr>cx_cookies := ks\<rparr>);
          let s2 = (if ck_value k \<noteq> NULL \<and> ck_free_value k \<noteq> NULL
                    then call_free s1 (ck_free_value k) (ck_value k) else s1);
          free_cookies s2 a ks }"

definition ctxUuidFreeCB :: "sessions \<Rightarrow> addr \<Rightarrow> sessions option" where
  "ctxUuidFreeCB s a =
     do { s1 \<leftarrow> ofold (\<lambda>idx s. ctxClientValueSet s a (int idx) NULL NULL) [0..<ss_apicount s] s;
          c \<leftarrow> ss_heap s1 a;
          free_cookies s1 a (cx_cookies c) }"

definition free_ctx :: "sessions \<Rightarrow> addr \<Rightarrow> sessions" where
  "free_ctx s a = s\<lparr>ss_heap := (ss_heap s)(a := None)\<rparr>"

definition ctxClientAddRef :: "sessions \<Rightarrow> addr option \<Rightarrow> sessions option" where
  "ctxClientAddRef s p =
     (case p of None \<Rightarrow> Some s
      | Some a \<Rightarrow> do { c \<leftarrow> ss_heap s a; Some (put_ctx s a (c\<lparr>cx_refcount := cx_refcount c + 1\<rparr>)) })"

definition ctxClientUnref :: "sessions \<Rightarrow> addr option \<Rightarrow> sessions option" where
  "ctxClientUnref s p =
     (case p of None \<Rightarrow> Some s
      | Some a \<Rightarrow> do {
          c \<leftarrow> ss_heap s a;
          if cx_refcount c = 0 then None
          else let c' = c\<lparr>cx_refcount := cx_refcount c - 1\<rparr>; s' = put_ctx s a c'
               in Some (if cx_refcount c' = 0 \<and> cx_uuid c' = ''''
                        then free_ctx (fst (ctxStoreDel s' a)) a else s') })"

definition ctxClientClose :: "sessions \<Rightarrow> addr \<Rightarrow> sessions option" where
  "ctxClientClose s a =
     do { c \<leftarrow> ss_heap s a;
          if cx_uuid c = '''' then Some s
          else do {
            s1 \<leftarrow> ctxUuidFreeCB (put_ctx s a (c\<lparr>cx_uuid := ''''\<rparr>)) a;
            c1 \<leftarrow> ss_heap s1 a;
            Some (if cx_refcount c1 = 0 then free_ctx (fst (ctxStoreDel s1 a)) a else s1) } }"

definition cleanup_slot :: "int \<Rightarrow> nat \<Rightarrow> sessions \<Rightarrow> sessions option" where
  "cleanup_slot now idx s =
     (if idx < length (ss_store s) then
        case ss_store s ! idx of
          None \<Rightarrow> Some s
        | Some a \<Rightarrow> do { c \<leftarrow> ss_heap s a; if ctxStoreTooOld c now then ctxClientClose s a else Some s }
      else None)"

definition ctxStoreCleanUp :: "sessions \<Rightarrow> int \<Rightarrow> sessions option" where
  "ctxStoreCleanUp s now = ofold (cleanup_slot now) [0..<ss_max s] s"

text \<open>\<open>(time_t)(~(time_t)0)\<close> shifted right as unsigned: the largest 64 bit signed time.\<close>

definition time_max :: int where "time_max = 2 ^ 63 - 1"

definition init_context_fields :: "sessions \<Rightarrow> string \<Rightarrow> int \<Rightarrow> int \<Rightarrow> AFB_clientCtx" where
  "init_context_fields s u timeout now =
     \<lparr>cx_refcount = 0, cx_loa = 0, cx_timeout = timeout,
      cx_expiration = (if timeout \<noteq> 0 then now + timeout else time_max),
      cx_access = 0, cx_uuid = u, cx_token = ss_initok s,
      cx_values = replicate (ss_apicount s) null_value, cx_cookies = []\<rparr>"

definition add_context ::
  "sessions \<Rightarrow> string \<Rightarrow> int \<Rightarrow> int \<Rightarrow> addr \<Rightarrow> sessions \<times> (errno + addr)" where
  "add_context s u timeout now a =
     (let c = init_context_fields s u timeout now in
      case ctxStoreAdd (put_ctx s a c) a of
        (s', False) \<Rightarrow> (free_ctx s' a, Inl ENOMEM)
      | (s', True) \<Rightarrow> (put_ctx s' a (c\<lparr>cx_access := now, cx_refcount := 1\<rparr>), Inr a))"

definition new_context ::
  "sessions \<Rightarrow> string option \<Rightarrow> int \<Rightarrow> int \<Rightarrow> addr option \<Rightarrow> string \<Rightarrow> sessions \<times> (errno + addr)" where
  "new_context s uuid timeout now calloc newuuid =
     (case calloc of None \<Rightarrow> (s, Inl ENOMEM)
      | Some a \<Rightarrow>
        (case uuid of
           None \<Rightarrow> add_context s newuuid timeout now a
         | Some u \<Rightarrow> if length u \<ge> token_size then (s, Inl EINVAL) else add_context s u timeout now a))"

definition ctxClientCreate ::
  "sessions \<Rightarrow> string option \<Rightarrow> int \<Rightarrow> int \<Rightarrow> addr option \<Rightarrow> string \<Rightarrow> (sessions \<times> (errno + addr)) option" where
  "ctxClientCreate s uuid timeout now calloc newuuid =
     do { s1 \<leftarrow> ctxStoreCleanUp s now;
          found \<leftarrow> (case uuid of None \<Rightarrow> Some None | Some u \<Rightarrow> ctxStoreSearch s1 u);
          Some (if found \<noteq> None then (s1, Inl EEXIST)
                else new_context s1 uuid timeout now calloc newuuid) }"

text \<open>The result is the session (or the error) and the flag \<open>*created\<close>.\<close>

definition ctxClientGetSession ::
  "sessions \<Rightarrow> string option \<Rightarrow> int \<Rightarrow> addr option \<Rightarrow> string \<Rightarrow> (sessions \<times> (errno + addr) \<times> bool) option" where
  "ctxClientGetSession s uuid now calloc newuuid =
     do { s1 \<leftarrow> ctxStoreCleanUp s now;
          found \<leftarrow> (case uuid of None \<Rightarrow> Some None | Some u \<Rightarrow> ctxStoreSearch s1 u);
          case found of
            Some a \<Rightarrow> do {
              c \<leftarrow> ss_heap s1 a;
              Some (put_ctx s1 a (c\<lparr>cx_access := now, cx_refcount := cx_refcount c + 1\<rparr>), Inr a, False) }
          | None \<Rightarrow>
              let (s2, r) = new_context s1 uuid (ss_timeout s1) now calloc newuuid
              in Some (s2, r, True) }"

definition ctxTokenCheck :: "sessions \<Rightarrow> addr \<Rightarrow> string \<Rightarrow> int \<Rightarrow> bool option" where
  "ctxTokenCheck s a token now =
     do { c \<leftarrow> ss_heap s a;
          Some (if \<not> ctxIsActive c now then False
                else if cx_token c \<noteq> '''' \<and> token \<noteq> cx_token c then False
                else True) }"

definition ctxTokenNew :: "sessions \<Rightarrow> addr \<Rightarrow> int \<Rightarrow> string \<Rightarrow> sessions option" where
  "ctxTokenNew s a now newuuid =
     do { c \<leftarrow> ss_heap s a;
          let c1 = c\<lparr>cx_token := newuuid\<rparr>;
          Some (put_ctx s a (if cx_timeout c1 \<noteq> 0 then c1\<lparr>cx_expiration := now + cx_timeout c1\<rparr> else c1)) }"

definition ctxClientGetUuid :: "sessions \<Rightarrow> addr \<Rightarrow> string option" where
  "ctxClientGetUuid s a = map_option cx_uuid (ss_heap s a)"

definition ctxClientGetToken :: "sessions \<Rightarrow> addr \<Rightarrow> string option" where
  "ctxClientGetToken s a = map_option cx_token (ss_heap s a)"

definition ctxClientGetLOA :: "sessions \<Rightarrow> addr \<Rightarrow> 32 word option" where
  "ctxClientGetLOA s a = map_option cx_loa (ss_heap s a)"

definition ctxClientSetLOA :: "sessions \<Rightarrow> addr \<Rightarrow> 32 word \<Rightarrow> sessions option" where
  "ctxClientSetLOA s a loa = do { c \<leftarrow> ss_heap s a; Some (put_ctx s a (c\<lparr>cx_loa := loa\<rparr>)) }"

fun cookie_get :: "cookie list \<Rightarrow> ptr \<Rightarrow> ptr" where
  "cookie_get [] key = NULL"
| "cookie_get (k # ks) key = (if ck_key k = key then ck_value k else cookie_get ks key)"

definition ctxClientCookieGet :: "sessions \<Rightarrow> addr \<Rightarrow> ptr \<Rightarrow> ptr option" where
  "ctxClientCookieGet s a key = do { c \<leftarrow> ss_heap s a; Some (cookie_get (cx_cookies c) key) }"

definition ctxClientCookieSet ::
  "sessions \<Rightarrow> addr \<Rightarrow> ptr \<Rightarrow> ptr \<Rightarrow> ptr \<Rightarrow> bool \<Rightarrow> (sessions \<times> errno option) option" where
  "ctxClientCookieSet s a key value free_value malloc_ok =
     do { c \<leftarrow> ss_heap s a;
          let ks = cx_cookies c;
          Some (case first_index (\<lambda>k. ck_key k = key) ks of
             Some i \<Rightarrow>
               let k = ks ! i;
                   s1 = (if ck_value k \<noteq> NULL \<and> ck_value k \<noteq> value \<and> ck_free_value k \<noteq> NULL
                         then call_free s (ck_free_value k) (ck_value k) else s)
               in (put_ctx s1 a (c\<lparr>cx_cookies := ks[i := k\<lparr>ck_value := value, ck_free_value := free_value\<rparr>]\<rparr>), None)
           | None \<Rightarrow>
               if \<not> malloc_ok then (s, Some ENOMEM)
               else (put_ctx s a (c\<lparr>cx_cookies :=
                       \<lparr>ck_key = key, ck_value = value, ck_free_value = free_value\<rparr> # ks\<rparr>), None)) }"

section \<open>The invariant\<close>

definition ctx_ok :: "nat \<Rightarrow> AFB_clientCtx \<Rightarrow> bool" where
  "ctx_ok n c \<longleftrightarrow> length (cx_values c) = n \<and> length (cx_uuid c) < token_size
     \<and> length (cx_token c) < token_size \<and> distinct (map ck_key (cx_cookies c))"

definition table_ok :: "sessions \<Rightarrow> bool" where
  "table_ok s \<longleftrightarrow> length (ss_store s) = Suc (ss_max s) \<and> ss_store s ! ss_max s = None
     \<and> distinct (somes (ss_store s)) \<and> dom (ss_heap s) = set (somes (ss_store s))
     \<and> ss_count s = int (length (somes (ss_store s))) \<and> length (ss_initok s) < token_size"

definition uuids_distinct :: "(addr \<rightharpoonup> AFB_clientCtx) \<Rightarrow> bool" where
  "uuids_distinct h \<longleftrightarrow> (\<forall>a b c d. h a = Some c \<longrightarrow> h b = Some d \<longrightarrow> cx_uuid c = cx_uuid d
     \<longrightarrow> cx_uuid c \<noteq> '''' \<longrightarrow> a = b)"

text \<open>A closed context (empty uuid) is still referenced: the last unref releases it.\<close>

definition session_inv :: "sessions \<Rightarrow> bool" where
  "session_inv s \<longleftrightarrow> table_ok s \<and> uuids_distinct (ss_heap s)
     \<and> (\<forall>a c. ss_heap s a = Some c \<longrightarrow>
          ctx_ok (ss_apicount s) c \<and> (cx_uuid c = '''' \<longrightarrow> 0 < cx_refcount c))"

lemma session_invD:
  assumes "session_inv s"
  shows "table_ok s" "uuids_distinct (ss_heap s)"
    "ss_heap s a = Some c \<Longrightarrow> ctx_ok (ss_apicount s) c"
    "ss_heap s a = Some c \<Longrightarrow> cx_uuid c = '''' \<Longrightarrow> 0 < cx_refcount c"
  using assms by (auto simp: session_inv_def)

section \<open>Updating one context\<close>

text \<open>Every operation on one context has the form \<open>upd_ctx\<close>: a new context and released values.\<close>

definition upd_ctx :: "sessions \<Rightarrow> addr \<Rightarrow> AFB_clientCtx \<Rightarrow> (ptr \<times> ptr) list \<Rightarrow> sessions" where
  "upd_ctx s a c l = s\<lparr>ss_heap := (ss_heap s)(a \<mapsto> c), ss_freed := ss_freed s @ l\<rparr>"

lemma upd_ctx_sel [simp]:
  "ss_heap (upd_ctx s a c l) = (ss_heap s)(a \<mapsto> c)" "ss_store (upd_ctx s a c l) = ss_store s"
  "ss_count (upd_ctx s a c l) = ss_count s" "ss_max (upd_ctx s a c l) = ss_max s"
  "ss_apicount (upd_ctx s a c l) = ss_apicount s" "ss_initok (upd_ctx s a c l) = ss_initok s"
  "ss_timeout (upd_ctx s a c l) = ss_timeout s" "ss_freed (upd_ctx s a c l) = ss_freed s @ l"
  by (simp_all add: upd_ctx_def)

lemma put_ctx_upd: "put_ctx s a c = upd_ctx s a c []"
  by (simp add: put_ctx_def upd_ctx_def)

lemma call_free_upd: "call_free (upd_ctx s a c l) f v = upd_ctx s a c (l @ [(f, v)])"
  by (simp add: call_free_def upd_ctx_def)

lemma upd_ctx_twice [simp]: "upd_ctx (upd_ctx s a c l) a d m = upd_ctx s a d (l @ m)"
  by (simp add: upd_ctx_def)

lemma upd_ctx_same: "ss_heap s a = Some c \<Longrightarrow> upd_ctx s a c [] = s"
  by (simp add: upd_ctx_def fun_upd_idem)

lemma call_free_then_upd: "upd_ctx (call_free s f v) a c [] = upd_ctx s a c [(f, v)]"
  by (simp add: call_free_def upd_ctx_def)

lemmas upd_ctx_norm = put_ctx_upd call_free_upd call_free_then_upd upd_ctx_same

lemma table_ok_upd: "table_ok s \<Longrightarrow> ss_heap s a = Some c \<Longrightarrow> table_ok (upd_ctx s a d l)"
  by (auto simp: table_ok_def)

lemma uuids_distinct_upd:
  assumes "uuids_distinct h" "h a = Some c" "cx_uuid d = cx_uuid c \<or> cx_uuid d = ''''"
  shows "uuids_distinct (h(a \<mapsto> d))"
  using assms unfolding uuids_distinct_def by (auto split: if_splits) metis+

lemma session_inv_upd [keeps_inv]:
  assumes "session_inv s" "ss_heap s a = Some c"
    and "ctx_ok (ss_apicount s) d" "cx_uuid d = '''' \<longrightarrow> 0 < cx_refcount d"
    and "cx_uuid d = cx_uuid c \<or> cx_uuid d = ''''"
  shows "session_inv (upd_ctx s a d l)"
  using assms table_ok_upd uuids_distinct_upd unfolding session_inv_def by simp

section \<open>Releasing the content of a context\<close>

definition value_release :: "client_value \<Rightarrow> ptr \<Rightarrow> (ptr \<times> ptr) list" where
  "value_release p v = (if cv_value p \<noteq> NULL \<and> cv_value p \<noteq> v \<and> cv_free_value p \<noteq> NULL
     then [(cv_free_value p, cv_value p)] else [])"

definition cookie_release :: "cookie \<Rightarrow> (ptr \<times> ptr) list" where
  "cookie_release k = (if ck_value k \<noteq> NULL \<and> ck_free_value k \<noteq> NULL
     then [(ck_free_value k, ck_value k)] else [])"

definition ctx_release :: "AFB_clientCtx \<Rightarrow> (ptr \<times> ptr) list" where
  "ctx_release c = concat (map (\<lambda>p. value_release p NULL) (cx_values c))
     @ concat (map cookie_release (cx_cookies c))"

lemma ctxClientValueSet_eq:
  assumes "ss_heap s a = Some c" "length (cx_values c) = ss_apicount s" "i < ss_apicount s"
  shows "ctxClientValueSet s a (int i) v f = Some (upd_ctx s a
    (c\<lparr>cx_values := (cx_values c)[i := \<lparr>cv_value = v, cv_free_value = f\<rparr>]\<rparr>)
    (value_release (cx_values c ! i) v))"
  using assms by (simp add: ctxClientValueSet_def value_release_def Let_def upd_ctx_norm)

lemma clear_values_prefix:
  assumes "ss_heap s a = Some c" "length (cx_values c) = ss_apicount s" "k \<le> ss_apicount s"
  shows "ofold (\<lambda>idx s. ctxClientValueSet s a (int idx) NULL NULL) [0..<k] s = Some (upd_ctx s a
    (c\<lparr>cx_values := replicate k null_value @ drop k (cx_values c)\<rparr>)
    (concat (map (\<lambda>p. value_release p NULL) (take k (cx_values c)))))"
  using assms(3)
proof (induction k)
  case 0
  with assms show ?case by (simp add: upd_ctx_norm)
next
  case (Suc k)
  let ?vs = "cx_values c"
  let ?t = "upd_ctx s a (c\<lparr>cx_values := replicate k null_value @ drop k ?vs\<rparr>)
    (concat (map (\<lambda>p. value_release p NULL) (take k ?vs)))"
  have k: "k < length ?vs" using Suc.prems assms(2) by simp
  then have "(replicate k null_value @ drop k ?vs)[k := null_value]
    = replicate (Suc k) null_value @ drop (Suc k) ?vs"
    by (simp add: list_update_append replicate_append_same flip: Cons_nth_drop_Suc)
  moreover have "(replicate k null_value @ drop k ?vs) ! k = ?vs ! k"
    using k by (simp add: nth_append)
  ultimately have "ctxClientValueSet ?t a (int k) NULL NULL = Some (upd_ctx s a
    (c\<lparr>cx_values := replicate (Suc k) null_value @ drop (Suc k) ?vs\<rparr>)
    (concat (map (\<lambda>p. value_release p NULL) (take (Suc k) ?vs))))"
    using k assms(2) Suc.prems
    by (subst ctxClientValueSet_eq [where c = "c\<lparr>cx_values := replicate k null_value @ drop k ?vs\<rparr>"])
       (simp_all add: take_Suc_conv_app_nth)
  with Suc show ?case by (simp add: ofold_append)
qed

lemma free_cookies_eq:
  "ss_heap s a = Some c \<Longrightarrow> cx_cookies c = ks \<Longrightarrow>
    free_cookies s a ks = Some (upd_ctx s a (c\<lparr>cx_cookies := []\<rparr>) (concat (map cookie_release ks)))"
proof (induction ks arbitrary: s c)
  case Nil
  then show ?case by (simp add: upd_ctx_norm)
next
  case (Cons k ks)
  then show ?case
    by (simp add: cookie_release_def Let_def upd_ctx_norm)
qed

definition released :: "nat \<Rightarrow> AFB_clientCtx \<Rightarrow> AFB_clientCtx" where
  "released n c = c\<lparr>cx_values := replicate n null_value, cx_cookies := []\<rparr>"

lemma ctxUuidFreeCB_eq:
  assumes "ss_heap s a = Some c" "length (cx_values c) = ss_apicount s"
  shows "ctxUuidFreeCB s a = Some (upd_ctx s a (released (ss_apicount s) c) (ctx_release c))"
proof -
  let ?s1 = "upd_ctx s a (c\<lparr>cx_values := replicate (ss_apicount s) null_value\<rparr>)
    (concat (map (\<lambda>p. value_release p NULL) (cx_values c)))"
  have "ofold (\<lambda>idx s. ctxClientValueSet s a (int idx) NULL NULL) [0..<ss_apicount s] s = Some ?s1"
    using clear_values_prefix [OF assms order.refl] assms(2) by simp
  moreover have "free_cookies ?s1 a (cx_cookies c) = Some (upd_ctx s a (released (ss_apicount s) c) (ctx_release c))"
    by (subst free_cookies_eq) (simp_all add: released_def ctx_release_def)
  ultimately show ?thesis by (simp add: ctxUuidFreeCB_def)
qed

section \<open>Removing a context from the table\<close>

lemma slot_of:
  assumes "table_ok s" "ss_heap s a = Some c"
  obtains i where "i < ss_max s" "ss_store s ! i = Some a"
    "first_index (\<lambda>x. x = Some a) (take (ss_max s) (ss_store s)) = Some i"
proof -
  have "Some a \<in> set (ss_store s)" using assms by (auto simp: table_ok_def)
  then obtain j where "j < length (ss_store s)" "ss_store s ! j = Some a" by (auto simp: in_set_conv_nth)
  with assms(1) have "j < ss_max s" by (cases "j = ss_max s") (auto simp: table_ok_def)
  then have "Some a \<in> set (take (ss_max s) (ss_store s))"
    using \<open>ss_store s ! j = Some a\<close> \<open>j < length (ss_store s)\<close> by (auto simp: in_set_conv_nth)
  then obtain i where i: "first_index (\<lambda>x. x = Some a) (take (ss_max s) (ss_store s)) = Some i"
    using first_index_exists [where p = "\<lambda>x. x = Some a"] by blast
  from first_index_Some [OF i] have "i < ss_max s" "ss_store s ! i = Some a" by auto
  with i that show thesis by blast
qed

definition remove_ctx :: "sessions \<Rightarrow> addr \<Rightarrow> sessions" where
  "remove_ctx s a = free_ctx (fst (ctxStoreDel s a)) a"

lemma remove_ctx_sel [simp]:
  "ss_heap (remove_ctx s a) = (ss_heap s)(a := None)" "ss_max (remove_ctx s a) = ss_max s"
  "ss_apicount (remove_ctx s a) = ss_apicount s" "ss_initok (remove_ctx s a) = ss_initok s"
  "ss_freed (remove_ctx s a) = ss_freed s" "ss_timeout (remove_ctx s a) = ss_timeout s"
  by (simp_all add: remove_ctx_def free_ctx_def ctxStoreDel_def split: option.splits)

lemma remove_ctx_store:
  assumes "table_ok s" "ss_heap s a = Some c" "i < ss_max s" "ss_store s ! i = Some a"
  shows "ss_store (remove_ctx s a) = (ss_store s)[i := None]"
    and "ss_count (remove_ctx s a) = ss_count s - 1"
proof -
  obtain j where j: "j < ss_max s" "ss_store s ! j = Some a"
    "first_index (\<lambda>x. x = Some a) (take (ss_max s) (ss_store s)) = Some j"
    by (rule slot_of [OF assms(1,2)])
  have "j = i"
  proof (rule ccontr)
    assume "j \<noteq> i"
    have i: "i < length (ss_store s)" using assms(1,3) by (simp add: table_ok_def)
    have "{b. Some b \<in> set ((ss_store s)[i := None])} = {b. Some b \<in> set (ss_store s)} - {a}"
      using assms(1,4) i by (intro set_somes_clear) (auto simp: table_ok_def)
    moreover have "Some a \<in> set ((ss_store s)[i := None])"
      using j \<open>j \<noteq> i\<close> assms(1) by (metis less_SucI length_list_update nth_list_update_neq nth_mem table_ok_def)
    ultimately show False by blast
  qed
  with j show "ss_store (remove_ctx s a) = (ss_store s)[i := None]"
    "ss_count (remove_ctx s a) = ss_count s - 1"
    by (simp_all add: remove_ctx_def free_ctx_def ctxStoreDel_def)
qed

lemma table_ok_remove:
  assumes "table_ok s" "ss_heap s a = Some c"
  shows "table_ok (remove_ctx s a)"
proof -
  obtain i where i: "i < ss_max s" "ss_store s ! i = Some a" by (rule slot_of [OF assms])
  note r = remove_ctx_store [OF assms i]
  have l: "i < length (ss_store s)" using assms(1) i by (simp add: table_ok_def)
  have "Suc (length (somes ((ss_store s)[i := None]))) = length (somes (ss_store s))"
    by (rule length_somes_clear [OF l i(2)])
  moreover have "set (somes ((ss_store s)[i := None])) = set (somes (ss_store s)) - {a}"
    using set_somes_clear [OF l i(2)] assms(1) by (simp add: table_ok_def)
  ultimately show ?thesis
    using assms(1) i l unfolding table_ok_def r
    by (auto simp: distinct_somes_clear simp del: set_somes)
qed

lemma session_inv_remove:
  assumes "table_ok s" "ss_heap s a = Some c" "uuids_distinct (ss_heap s)"
    and "\<And>b d. b \<noteq> a \<Longrightarrow> ss_heap s b = Some d \<Longrightarrow>
      ctx_ok (ss_apicount s) d \<and> (cx_uuid d = '''' \<longrightarrow> 0 < cx_refcount d)"
  shows "session_inv (remove_ctx s a)"
proof -
  have "uuids_distinct (ss_heap (remove_ctx s a))"
    using assms(3) unfolding uuids_distinct_def remove_ctx_sel by (auto split: if_splits)
  with assms table_ok_remove [OF assms(1,2)] show ?thesis
    by (auto simp: session_inv_def split: if_splits)
qed

section \<open>Closing and dropping contexts\<close>

definition closed :: "nat \<Rightarrow> AFB_clientCtx \<Rightarrow> AFB_clientCtx" where
  "closed n c = released n (c\<lparr>cx_uuid := ''''\<rparr>)"

lemma closed_sel [simp]:
  "cx_uuid (closed n c) = ''''" "cx_refcount (closed n c) = cx_refcount c"
  "cx_expiration (closed n c) = cx_expiration c"
  "length (cx_values (closed n c)) = n" "cx_cookies (closed n c) = []" "cx_token (closed n c) = cx_token c"
  by (simp_all add: closed_def released_def)

lemma ctxClientClose_eq:
  assumes "ss_heap s a = Some c" "length (cx_values c) = ss_apicount s"
  shows "ctxClientClose s a = Some (
    if cx_uuid c = '''' then s
    else let s1 = upd_ctx s a (closed (ss_apicount s) c) (ctx_release c)
         in if cx_refcount c = 0 then remove_ctx s1 a else s1)"
proof -
  have "ctxUuidFreeCB (upd_ctx s a (c\<lparr>cx_uuid := ''''\<rparr>) []) a
    = Some (upd_ctx s a (closed (ss_apicount s) c) (ctx_release c))"
    using assms by (subst ctxUuidFreeCB_eq [where c = "c\<lparr>cx_uuid := ''''\<rparr>"])
      (simp_all add: closed_def released_def ctx_release_def)
  with assms(1) show ?thesis
    by (simp add: ctxClientClose_def upd_ctx_norm remove_ctx_def Let_def)
qed

lemma ctx_ok_closed: "ctx_ok n c \<Longrightarrow> ctx_ok n (closed n c)"
  by (simp add: ctx_ok_def token_size_def)

lemma session_inv_close:
  assumes "session_inv s" "ss_heap s a = Some c" "ctxClientClose s a = Some s'"
  shows "session_inv s'"
proof -
  let ?d = "closed (ss_apicount s) c"
  have ok: "ctx_ok (ss_apicount s) c" using assms session_invD by blast
  have eq: "s' = (if cx_uuid c = '''' then s
    else let s1 = upd_ctx s a ?d (ctx_release c) in if cx_refcount c = 0 then remove_ctx s1 a else s1)"
    using ctxClientClose_eq [OF assms(2)] assms(3) ok by (simp add: ctx_ok_def)
  have u: "uuids_distinct ((ss_heap s)(a \<mapsto> ?d))"
    by (rule uuids_distinct_upd) (use assms session_invD in auto)
  show ?thesis
  proof (cases "cx_uuid c = '''' \<or> cx_refcount c \<noteq> 0")
    case True
    then show ?thesis
      using assms eq ok by (auto simp: Let_def ctx_ok_closed intro!: session_inv_upd)
  next
    case False
    then have "s' = remove_ctx (upd_ctx s a ?d (ctx_release c)) a" using eq by (simp add: Let_def)
    also have "session_inv \<dots>"
      by (rule session_inv_remove [where c = ?d])
         (use assms u session_invD table_ok_upd in \<open>auto split: if_splits\<close>)
    finally show ?thesis .
  qed
qed

lemma ctxClientUnref_eq:
  assumes "ss_heap s a = Some c" "cx_refcount c \<noteq> 0"
  shows "ctxClientUnref s (Some a) = Some (let s1 = upd_ctx s a (c\<lparr>cx_refcount := cx_refcount c - 1\<rparr>) []
    in if cx_refcount c = 1 \<and> cx_uuid c = '''' then remove_ctx s1 a else s1)"
  using assms by (simp add: ctxClientUnref_def Let_def upd_ctx_norm remove_ctx_def)

lemma session_inv_unref:
  assumes "session_inv s" "ss_heap s a = Some c" "ctxClientUnref s (Some a) = Some s'"
  shows "session_inv s'"
proof -
  let ?d = "c\<lparr>cx_refcount := cx_refcount c - 1\<rparr>"
  have nz: "cx_refcount c \<noteq> 0" using assms(2,3) by (auto simp: ctxClientUnref_def split: if_splits)
  have eq: "s' = (let s1 = upd_ctx s a ?d [] in
      if cx_refcount c = 1 \<and> cx_uuid c = '''' then remove_ctx s1 a else s1)"
    using ctxClientUnref_eq [OF assms(2) nz] assms(3) by simp
  have u: "uuids_distinct ((ss_heap s)(a \<mapsto> ?d))"
    by (rule uuids_distinct_upd) (use assms session_invD in auto)
  have ok: "ctx_ok (ss_apicount s) ?d" using assms session_invD(3) [OF assms(1,2)] by (simp add: ctx_ok_def)
  show ?thesis
  proof (cases "cx_refcount c = 1 \<and> cx_uuid c = ''''")
    case False
    with nz have "cx_uuid c = '''' \<longrightarrow> 0 < cx_refcount c - 1" by linarith
    with False show ?thesis using assms eq ok by (auto simp: Let_def intro!: session_inv_upd)
  next
    case True
    then have "s' = remove_ctx (upd_ctx s a ?d []) a" using eq by (simp add: Let_def)
    also have "session_inv \<dots>"
      by (rule session_inv_remove [where c = ?d])
         (use assms u session_invD table_ok_upd in \<open>auto split: if_splits\<close>)
    finally show ?thesis .
  qed
qed

section \<open>The cleanup sweep\<close>

text \<open>What the sweep does to one context: an expired open context is closed, and released when
  nobody holds a reference.\<close>

definition sweep :: "nat \<Rightarrow> int \<Rightarrow> AFB_clientCtx \<Rightarrow> AFB_clientCtx option" where
  "sweep n now c = (if ctxStoreTooOld c now \<and> cx_uuid c \<noteq> ''''
     then if cx_refcount c = 0 then None else Some (closed n c)
     else Some c)"

text \<open>The loop has handled the first \<open>k\<close> slots.\<close>

definition swept_upto :: "int \<Rightarrow> sessions \<Rightarrow> nat \<Rightarrow> sessions \<Rightarrow> bool" where
  "swept_upto now s k t \<longleftrightarrow> session_inv t \<and> ss_max t = ss_max s \<and> ss_apicount t = ss_apicount s
     \<and> ss_timeout t = ss_timeout s \<and> ss_initok t = ss_initok s
     \<and> (\<forall>i. k \<le> i \<longrightarrow> i < ss_max s \<longrightarrow> ss_store t ! i = ss_store s ! i)
     \<and> (\<forall>a. ss_heap t a = (if \<exists>i < k. ss_store s ! i = Some a
          then Option.bind (ss_heap s a) (sweep (ss_apicount s) now) else ss_heap s a))"

lemma distinct_slots:
  assumes "table_ok s" "i < ss_max s" "j < ss_max s" "ss_store s ! i = Some a" "ss_store s ! j = Some a"
  shows "i = j"
proof (rule ccontr)
  assume "i \<noteq> j"
  have l: "i < length (ss_store s)" "j < length (ss_store s)" using assms by (auto simp: table_ok_def)
  then have "Some a \<in> set ((ss_store s)[i := None])"
    using assms(5) \<open>i \<noteq> j\<close> by (metis length_list_update nth_list_update_neq nth_mem)
  with set_somes_clear [OF l(1) assms(4)] assms(1) show False by (auto simp: table_ok_def)
qed

lemma close_heap_store:
  assumes inv: "session_inv t" and c: "ss_heap t a = Some c" and old: "ctxStoreTooOld c now"
    and slot: "k < ss_max t" "ss_store t ! k = Some a"
  shows "\<exists>t'. ctxClientClose t a = Some t' \<and> session_inv t' \<and> ss_max t' = ss_max t
    \<and> ss_apicount t' = ss_apicount t \<and> ss_timeout t' = ss_timeout t \<and> ss_initok t' = ss_initok t
    \<and> (\<forall>i. i \<noteq> k \<longrightarrow> ss_store t' ! i = ss_store t ! i)
    \<and> ss_heap t' = (ss_heap t)(a := sweep (ss_apicount t) now c)"
proof -
  let ?t1 = "upd_ctx t a (closed (ss_apicount t) c) (ctx_release c)"
  have ok: "length (cx_values c) = ss_apicount t" using session_invD(3) [OF inv c] by (simp add: ctx_ok_def)
  note eq = ctxClientClose_eq [OF c ok]
  have inv': "\<And>t'. ctxClientClose t a = Some t' \<Longrightarrow> session_inv t'"
    using session_inv_close [OF inv c] by blast
  have st: "ss_store (remove_ctx ?t1 a) = (ss_store t)[k := None]"
    using remove_ctx_store(1) [of ?t1 a "closed (ss_apicount t) c" k] slot inv c
    by (simp add: table_ok_upd session_invD(1))
  show ?thesis
    using eq inv' old c st by (cases "cx_uuid c = ''''"; cases "cx_refcount c = 0")
      (auto simp: sweep_def Let_def fun_upd_idem)
qed

lemma cleanup_slot_swept:
  assumes s: "session_inv s" and t: "swept_upto now s k t" and k: "k < ss_max s"
  shows "\<exists>t'. cleanup_slot now k t = Some t' \<and> swept_upto now s (Suc k) t'"
proof -
  have inv: "session_inv t" and kt: "k < ss_max t" and l: "k < length (ss_store t)"
    using t k session_invD(1) [of t] by (auto simp: swept_upto_def table_ok_def)
  have sk: "ss_store t ! k = ss_store s ! k" using t k by (auto simp: swept_upto_def)
  have new: "(\<exists>i < Suc k. ss_store s ! i = Some a) \<longleftrightarrow> (\<exists>i < k. ss_store s ! i = Some a) \<or> ss_store s ! k = Some a" for a
    by (auto simp: less_Suc_eq)
  show ?thesis
  proof (cases "ss_store s ! k")
    case None
    then have "cleanup_slot now k t = Some t" using sk l by (simp add: cleanup_slot_def)
    moreover have "swept_upto now s (Suc k) t" using t None by (auto simp: swept_upto_def new)
    ultimately show ?thesis by blast
  next
    case (Some a)
    have not_before: "\<not> (\<exists>i < k. ss_store s ! i = Some a)"
      using distinct_slots [OF session_invD(1) [OF s]] k Some by (metis less_imp_neq order_less_trans)
    have ha: "ss_heap t a = ss_heap s a" using t not_before by (auto simp: swept_upto_def)
    have "a \<in> dom (ss_heap t)"
      using inv sk Some l by (metis mem_Collect_eq nth_mem session_invD(1) set_somes table_ok_def)
    then obtain c where c: "ss_heap t a = Some c" by blast
    show ?thesis
    proof (cases "ctxStoreTooOld c now")
      case True
      obtain t' where t': "ctxClientClose t a = Some t'" "session_inv t'" "ss_max t' = ss_max t"
        "ss_apicount t' = ss_apicount t" "ss_timeout t' = ss_timeout t" "ss_initok t' = ss_initok t"
        "\<And>i. i \<noteq> k \<Longrightarrow> ss_store t' ! i = ss_store t ! i"
        "ss_heap t' = (ss_heap t)(a := sweep (ss_apicount t) now c)"
        using close_heap_store [OF inv c True kt] sk Some by auto
      have "swept_upto now s (Suc k) t'"
        using t t' ha c not_before Some by (auto simp: swept_upto_def new)
      moreover have "cleanup_slot now k t = Some t'"
        using t'(1) sk Some c True l by (simp add: cleanup_slot_def)
      ultimately show ?thesis by blast
    next
      case False
      then have "cleanup_slot now k t = Some t" using sk Some c l by (simp add: cleanup_slot_def)
      moreover have "swept_upto now s (Suc k) t"
        using t False c ha Some not_before by (auto simp: swept_upto_def new sweep_def)
      ultimately show ?thesis by blast
    qed
  qed
qed

lemma cleanup_swept:
  assumes "session_inv s"
  shows "\<exists>t. ctxStoreCleanUp s now = Some t \<and> swept_upto now s (ss_max s) t"
proof -
  have "k \<le> ss_max s \<Longrightarrow> \<exists>t. ofold (cleanup_slot now) [0..<k] s = Some t \<and> swept_upto now s k t" for k
  proof (induction k)
    case 0
    then show ?case using assms by (simp add: swept_upto_def)
  next
    case (Suc k)
    then obtain t where "ofold (cleanup_slot now) [0..<k] s = Some t" "swept_upto now s k t" by auto
    with cleanup_slot_swept [OF assms this(2)] Suc.prems show ?case by (auto simp: ofold_append)
  qed
  then show ?thesis by (simp add: ctxStoreCleanUp_def)
qed

lemma cleanup_heap [crash_free]:
  assumes "session_inv s"
  shows "\<exists>t. ctxStoreCleanUp s now = Some t \<and> session_inv t \<and> ss_apicount t = ss_apicount s
    \<and> ss_timeout t = ss_timeout s \<and> ss_max t = ss_max s \<and> ss_initok t = ss_initok s
    \<and> ss_heap t = (\<lambda>a. Option.bind (ss_heap s a) (sweep (ss_apicount s) now))"
proof -
  obtain t where t: "ctxStoreCleanUp s now = Some t" "swept_upto now s (ss_max s) t"
    using cleanup_swept [OF assms] by blast
  have "(\<exists>i < ss_max s. ss_store s ! i = Some a) \<longleftrightarrow> ss_heap s a \<noteq> None" for a
  proof
    assume "\<exists>i < ss_max s. ss_store s ! i = Some a"
    then have "Some a \<in> set (ss_store s)"
      using session_invD(1) [OF assms] by (metis less_SucI nth_mem table_ok_def)
    then show "ss_heap s a \<noteq> None" using session_invD(1) [OF assms] by (auto simp: table_ok_def)
  next
    assume "ss_heap s a \<noteq> None"
    then show "\<exists>i < ss_max s. ss_store s ! i = Some a"
      using slot_of [OF session_invD(1) [OF assms]] by blast
  qed
  with t show ?thesis by (auto simp: swept_upto_def fun_eq_iff)
qed

section \<open>Searching and adding\<close>

lemma search_slots_spec:
  assumes "\<forall>a. Some a \<in> set xs \<longrightarrow> h a \<noteq> None"
  shows "\<exists>r. search_slots h xs u = Some r
    \<and> (\<forall>a. r = Some a \<longrightarrow> Some a \<in> set xs \<and> (\<exists>c. h a = Some c \<and> cx_uuid c = u))
    \<and> (r = None \<longrightarrow> (\<forall>a c. Some a \<in> set xs \<longrightarrow> h a = Some c \<longrightarrow> cx_uuid c \<noteq> u))"
  using assms
proof (induction xs)
  case Nil
  then show ?case by simp
next
  case (Cons x xs)
  then obtain r where r: "search_slots h xs u = Some r"
    "\<forall>a. r = Some a \<longrightarrow> Some a \<in> set xs \<and> (\<exists>c. h a = Some c \<and> cx_uuid c = u)"
    "r = None \<longrightarrow> (\<forall>a c. Some a \<in> set xs \<longrightarrow> h a = Some c \<longrightarrow> cx_uuid c \<noteq> u)" by auto
  show ?case
  proof (cases x)
    case None
    with r show ?thesis by auto
  next
    case (Some a)
    with Cons.prems obtain c where "h a = Some c" by auto
    with r Some show ?thesis by auto
  qed
qed

lemma store_split:
  assumes "table_ok s"
  shows "ss_store s = take (ss_max s) (ss_store s) @ [None]"
  using assms by (metis lessI order.refl table_ok_def take_Suc_conv_app_nth take_all)

lemma somes_store:
  assumes "table_ok s"
  shows "somes (ss_store s) = somes (take (ss_max s) (ss_store s))"
  by (subst store_split [OF assms]) simp

lemma live_slots:
  assumes "table_ok s"
  shows "{a. Some a \<in> set (take (ss_max s) (ss_store s))} = dom (ss_heap s)"
  using assms somes_store [OF assms] by (metis set_somes table_ok_def)

lemma ctxStoreSearch_spec:
  assumes "session_inv s"
  obtains r where "ctxStoreSearch s u = Some r"
    "\<And>a. r = Some a \<Longrightarrow> \<exists>c. ss_heap s a = Some c \<and> cx_uuid c = u"
    "\<And>a c. r = None \<Longrightarrow> ss_heap s a = Some c \<Longrightarrow> cx_uuid c \<noteq> u"
proof -
  have live: "\<And>a. Some a \<in> set (take (ss_max s) (ss_store s)) \<longleftrightarrow> a \<in> dom (ss_heap s)"
    using live_slots [OF session_invD(1) [OF assms]] by blast
  then have "\<forall>a. Some a \<in> set (take (ss_max s) (ss_store s)) \<longrightarrow> ss_heap s a \<noteq> None" by auto
  from search_slots_spec [OF this, of u] show thesis
    using that live unfolding ctxStoreSearch_def by (metis domI)
qed

lemma ss_count_eq:
  assumes "table_ok s"
  shows "ss_count s = int (length (somes (take (ss_max s) (ss_store s))))"
    and "length (take (ss_max s) (ss_store s)) = ss_max s"
  using assms unfolding somes_store [OF assms, symmetric] by (simp_all add: table_ok_def)

lemma store_full_iff:
  assumes "table_ok s"
  shows "first_index (\<lambda>x. x = None) (take (ss_max s) (ss_store s)) = None \<longleftrightarrow> ss_count s = int (ss_max s)"
proof -
  let ?ts = "take (ss_max s) (ss_store s)"
  have "first_index (\<lambda>x. x = None) ?ts = None \<longleftrightarrow> None \<notin> set ?ts"
    unfolding first_index_None by metis
  also have "\<dots> \<longleftrightarrow> length (somes ?ts) = ss_max s"
    using length_somes_full [of ?ts] ss_count_eq(2) [OF assms] by metis
  finally show ?thesis using ss_count_eq(1) [OF assms] by simp
qed

lemma count_bounds:
  assumes "table_ok s"
  shows "0 \<le> ss_count s \<and> ss_count s \<le> int (ss_max s)"
  using length_somes_le [of "take (ss_max s) (ss_store s)"] unfolding ss_count_eq [OF assms] by simp

lemma add_context_spec:
  fixes timeout now :: int
  assumes inv: "session_inv s" and fresh: "ss_heap s a = None"
    and u: "length u < token_size" "\<And>b c. ss_heap s b = Some c \<Longrightarrow> cx_uuid c = u \<Longrightarrow> u = ''''"
  defines "c \<equiv> (init_context_fields s u timeout now)\<lparr>cx_access := now, cx_refcount := 1\<rparr>"
  shows "if ss_count s = int (ss_max s) then add_context s u timeout now a = (s, Inl ENOMEM)
    else \<exists>s'. add_context s u timeout now a = (s', Inr a) \<and> session_inv s'
      \<and> ss_heap s' = (ss_heap s)(a \<mapsto> c) \<and> ss_count s' = ss_count s + 1 \<and> ss_max s' = ss_max s
      \<and> ss_apicount s' = ss_apicount s \<and> ss_timeout s' = ss_timeout s \<and> ss_freed s' = ss_freed s"
proof (cases "first_index (\<lambda>x. x = None) (take (ss_max s) (ss_store s))")
  case None
  then have "ss_count s = int (ss_max s)" using store_full_iff [OF session_invD(1) [OF inv]] by simp
  with None fresh show ?thesis
    by (simp add: add_context_def ctxStoreAdd_def put_ctx_def free_ctx_def Let_def fun_upd_idem)
next
  case (Some i)
  have t: "table_ok s" by (rule session_invD(1) [OF inv])
  have nfull: "ss_count s \<noteq> int (ss_max s)" using store_full_iff [OF t] Some by simp
  have i: "i < ss_max s" "i < length (ss_store s)" "ss_store s ! i = None"
    using first_index_Some [OF Some] t by (auto simp: table_ok_def)
  have na: "Some a \<notin> set (ss_store s)" using fresh t by (auto simp: table_ok_def)
  let ?s' = "s\<lparr>ss_heap := (ss_heap s)(a \<mapsto> c), ss_store := (ss_store s)[i := Some a], ss_count := ss_count s + 1\<rparr>"
  have eq: "add_context s u timeout now a = (?s', Inr a)"
    using Some by (simp add: add_context_def ctxStoreAdd_def put_ctx_def Let_def c_def)
  have c: "cx_uuid c = u" "cx_refcount c = 1" "ctx_ok (ss_apicount s) c"
    using u(1) t by (simp_all add: c_def init_context_fields_def ctx_ok_def table_ok_def)
  have "uuids_distinct ((ss_heap s)(a \<mapsto> c))"
    using session_invD(2) [OF inv] u(2) c(1) unfolding uuids_distinct_def by (auto split: if_splits)
  moreover have "table_ok ?s'"
    using t i na set_somes_fill [OF i(2,3), of a] length_somes_fill [OF i(2,3), of a]
    by (auto simp: table_ok_def distinct_somes_fill)
  ultimately have "session_inv ?s'"
    using c inv by (auto simp: session_inv_def)
  with eq nfull show ?thesis by auto
qed

section \<open>What the environment provides\<close>

text \<open>
  \<open>calloc\<close> returns memory that is not in use; \<open>uuid_generate\<close> with \<open>uuid_unparse_lower\<close>
  writes a text of 36 characters that no session has.
\<close>

definition alloc_ok :: "sessions \<Rightarrow> addr option \<Rightarrow> bool" where
  "alloc_ok s p \<longleftrightarrow> (case p of None \<Rightarrow> True | Some a \<Rightarrow> ss_heap s a = None)"

definition uuid_ok :: "sessions \<Rightarrow> string \<Rightarrow> bool" where
  "uuid_ok s u \<longleftrightarrow> length u = 36 \<and> (\<forall>c \<in> ran (ss_heap s). cx_uuid c \<noteq> u)"

definition uuid_arg_ok :: "sessions \<Rightarrow> string option \<Rightarrow> bool" where
  "uuid_arg_ok s uuid \<longleftrightarrow> (case uuid of None \<Rightarrow> True
     | Some u \<Rightarrow> \<forall>c \<in> ran (ss_heap s). cx_uuid c = u \<longrightarrow> u = '''')"

lemma new_context_inv:
  assumes "session_inv s" "alloc_ok s p" "uuid_ok s nu" "uuid_arg_ok s uuid"
    and "new_context s uuid timeout now p nu = (s', r)"
  shows "session_inv s'"
proof -
  have add: "session_inv (fst (add_context s u timeout now a))"
    if "ss_heap s a = None" "length u < token_size" "\<forall>c \<in> ran (ss_heap s). cx_uuid c = u \<longrightarrow> u = ''''" for u a
    using add_context_spec [OF assms(1) that(1,2), of timeout now] that(3) assms(1)
    by (fastforce simp: ran_def split: if_splits)
  show ?thesis
    using assms add by (fastforce simp: new_context_def alloc_ok_def uuid_ok_def uuid_arg_ok_def
        token_size_def split: option.splits if_splits dest: arg_cong [where f = fst])
qed

lemma new_context_Inr:
  assumes "session_inv s" "alloc_ok s p" "uuid_ok s nu" "uuid_arg_ok s uuid"
    and "new_context s uuid timeout now p nu = (s', Inr a)"
  shows "ss_heap s' = (ss_heap s)(a \<mapsto> (init_context_fields s (case uuid of None \<Rightarrow> nu | Some u \<Rightarrow> u) timeout now)
      \<lparr>cx_access := now, cx_refcount := 1\<rparr>)" and "ss_heap s a = None" and "p = Some a"
    and "ss_max s' = ss_max s" "ss_apicount s' = ss_apicount s" "ss_timeout s' = ss_timeout s"
proof -
  have *: "length u < token_size \<Longrightarrow> (\<forall>c \<in> ran (ss_heap s). cx_uuid c = u \<longrightarrow> u = '''') \<Longrightarrow> ss_heap s b = None \<Longrightarrow>
      add_context s u timeout now b = (s', Inr a) \<Longrightarrow> b = a \<and> ss_max s' = ss_max s \<and>
      ss_apicount s' = ss_apicount s \<and> ss_timeout s' = ss_timeout s \<and>
      ss_heap s' = (ss_heap s)(a \<mapsto> (init_context_fields s u timeout now)\<lparr>cx_access := now, cx_refcount := 1\<rparr>)" for u b
    using add_context_spec [OF assms(1), of b u timeout now] by (fastforce simp: ran_def split: if_splits)
  obtain b where b: "p = Some b" "ss_heap s b = None"
    using assms(2,5) by (auto simp: new_context_def alloc_ok_def split: option.splits)
  show "ss_heap s' = (ss_heap s)(a \<mapsto> (init_context_fields s (case uuid of None \<Rightarrow> nu | Some u \<Rightarrow> u) timeout now)
      \<lparr>cx_access := now, cx_refcount := 1\<rparr>)" "ss_heap s a = None" "p = Some a"
    "ss_max s' = ss_max s" "ss_apicount s' = ss_apicount s" "ss_timeout s' = ss_timeout s"
    using * [of nu b] * [of "the uuid" b] assms b
    by (auto simp: new_context_def uuid_ok_def uuid_arg_ok_def token_size_def split: option.splits if_splits)
qed

lemma sweep_uuid:
  "sweep n now c = Some d \<Longrightarrow> cx_uuid d = cx_uuid c \<or> cx_uuid d = ''''"
  by (auto simp: sweep_def split: if_splits)

lemma swept_env_ok:
  assumes "ss_heap t = (\<lambda>a. Option.bind (ss_heap s a) (sweep (ss_apicount s) now))"
  shows "alloc_ok s p \<Longrightarrow> alloc_ok t p" and "uuid_ok s u \<Longrightarrow> uuid_ok t u"
  using assms sweep_uuid [of "ss_apicount s" now]
  by (fastforce simp: alloc_ok_def uuid_ok_def ran_def bind_eq_Some_conv split: option.splits)+

lemma search_None_arg_ok:
  assumes "\<And>a c. ss_heap s a = Some c \<Longrightarrow> cx_uuid c \<noteq> u"
  shows "uuid_arg_ok s (Some u)"
  using assms by (auto simp: uuid_arg_ok_def ran_def)

text \<open>The outcome of \<open>ctxClientGetSession\<close>: after the sweep, either the session found, referenced
  once more, or the attempt to make a new one.\<close>

lemma get_session_cases:
  assumes inv: "session_inv s" and env: "alloc_ok s p" "uuid_ok s nu"
  obtains t where "ctxStoreCleanUp s now = Some t" "session_inv t" "alloc_ok t p" "uuid_ok t nu"
    "ss_heap t = (\<lambda>a. Option.bind (ss_heap s a) (sweep (ss_apicount s) now))"
    "(\<exists>a c u. uuid = Some u \<and> ss_heap t a = Some c \<and> cx_uuid c = u
       \<and> ctxClientGetSession s uuid now p nu =
          Some (upd_ctx t a (c\<lparr>cx_access := now, cx_refcount := cx_refcount c + 1\<rparr>) [], Inr a, False))
     \<or> (uuid_arg_ok t uuid \<and> ctxClientGetSession s uuid now p nu =
          (case new_context t uuid (ss_timeout t) now p nu of (s2, r) \<Rightarrow> Some (s2, r, True)))"
proof -
  obtain t where t: "ctxStoreCleanUp s now = Some t" "session_inv t"
    "ss_heap t = (\<lambda>a. Option.bind (ss_heap s a) (sweep (ss_apicount s) now))"
    using cleanup_heap [OF inv] by blast
  note th = that [OF t(1,2) swept_env_ok(1) [OF t(3) env(1)] swept_env_ok(2) [OF t(3) env(2)] t(3)]
  show thesis
  proof (cases uuid)
    case None
    with t(1) show thesis
      by (intro th disjI2) (auto simp: ctxClientGetSession_def uuid_arg_ok_def split: prod.splits)
  next
    case (Some u)
    obtain r where r: "ctxStoreSearch t u = Some r"
      "\<And>a. r = Some a \<Longrightarrow> \<exists>c. ss_heap t a = Some c \<and> cx_uuid c = u"
      "\<And>a c. r = None \<Longrightarrow> ss_heap t a = Some c \<Longrightarrow> cx_uuid c \<noteq> u"
      by (rule ctxStoreSearch_spec [OF t(2), where u = u]) blast
    show thesis
    proof (cases r)
      case None
      then have "uuid_arg_ok t uuid" using r(3) Some search_None_arg_ok by blast
      with t(1) Some None r(1) show thesis
        by (intro th disjI2) (auto simp: ctxClientGetSession_def split: prod.splits)
    next
      case (Some a)
      with r(2) obtain c where c: "ss_heap t a = Some c" "cx_uuid c = u" by blast
      then have "ctxClientGetSession s uuid now p nu =
          Some (upd_ctx t a (c\<lparr>cx_access := now, cx_refcount := cx_refcount c + 1\<rparr>) [], Inr a, False)"
        using t(1) Some \<open>uuid = Some u\<close> r(1) by (simp add: ctxClientGetSession_def put_ctx_upd)
      with c \<open>uuid = Some u\<close> show thesis by (intro th) blast
    qed
  qed
qed

lemma create_cases:
  assumes inv: "session_inv s" and env: "alloc_ok s p" "uuid_ok s nu"
  obtains t where "session_inv t" "alloc_ok t p" "uuid_ok t nu"
    "ctxClientCreate s uuid timeout now p nu = Some (t, Inl EEXIST)
     \<or> (uuid_arg_ok t uuid \<and> ctxClientCreate s uuid timeout now p nu = Some (new_context t uuid timeout now p nu))"
proof -
  obtain t where t: "ctxStoreCleanUp s now = Some t" "session_inv t"
    "ss_heap t = (\<lambda>a. Option.bind (ss_heap s a) (sweep (ss_apicount s) now))"
    using cleanup_heap [OF inv] by blast
  note env' = swept_env_ok [OF t(3)]
  have "ctxClientCreate s uuid timeout now p nu = Some (t, Inl EEXIST)
     \<or> (uuid_arg_ok t uuid \<and> ctxClientCreate s uuid timeout now p nu = Some (new_context t uuid timeout now p nu))"
  proof (cases uuid)
    case None
    with t show ?thesis by (simp add: ctxClientCreate_def uuid_arg_ok_def)
  next
    case (Some u)
    obtain r where "ctxStoreSearch t u = Some r" "\<And>a c. r = None \<Longrightarrow> ss_heap t a = Some c \<Longrightarrow> cx_uuid c \<noteq> u"
      by (rule ctxStoreSearch_spec [OF t(2), where u = u]) blast
    with t(1) Some search_None_arg_ok [of t u] show ?thesis by (cases r) (auto simp: ctxClientCreate_def)
  qed
  with t env env' that show thesis by blast
qed

section \<open>Cookies and values as keyed storage\<close>

lemma cookie_get_update:
  assumes "first_index (\<lambda>k. ck_key k = key) ks = Some i"
  shows "cookie_get (ks[i := (ks ! i)\<lparr>ck_value := v, ck_free_value := f\<rparr>]) j
    = (if j = key then v else cookie_get ks j)"
  using assms
proof (induction ks arbitrary: i)
  case (Cons k ks)
  then show ?case by (cases i) (auto split: if_splits)
qed simp

lemma map_key_update:
  "i < length ks \<Longrightarrow> map ck_key (ks[i := (ks ! i)\<lparr>ck_value := v, ck_free_value := f\<rparr>]) = map ck_key ks"
  by (simp add: map_update list_update_same_conv)

lemma cookie_set_eq:
  assumes "ss_heap s a = Some c"
  shows "\<exists>ks l. ctxClientCookieSet s a key v f True = Some (upd_ctx s a (c\<lparr>cx_cookies := ks\<rparr>) l, None)
    \<and> (\<forall>j. cookie_get ks j = (if j = key then v else cookie_get (cx_cookies c) j))
    \<and> (distinct (map ck_key (cx_cookies c)) \<longrightarrow> distinct (map ck_key ks))"
proof (cases "first_index (\<lambda>k. ck_key k = key) (cx_cookies c)")
  case None
  let ?ks = "\<lparr>ck_key = key, ck_value = v, ck_free_value = f\<rparr> # cx_cookies c"
  have "ctxClientCookieSet s a key v f True = Some (upd_ctx s a (c\<lparr>cx_cookies := ?ks\<rparr>) [], None)"
    using assms None by (simp add: ctxClientCookieSet_def Let_def put_ctx_upd)
  moreover have "key \<notin> ck_key ` set (cx_cookies c)" using None by (auto simp: first_index_None)
  ultimately show ?thesis by fastforce
next
  case (Some i)
  let ?ks = "(cx_cookies c)[i := (cx_cookies c ! i)\<lparr>ck_value := v, ck_free_value := f\<rparr>]"
  have "\<exists>l. ctxClientCookieSet s a key v f True = Some (upd_ctx s a (c\<lparr>cx_cookies := ?ks\<rparr>) l, None)"
    using assms Some by (auto simp: ctxClientCookieSet_def Let_def upd_ctx_norm)
  moreover have "distinct (map ck_key ?ks)" if "distinct (map ck_key (cx_cookies c))"
    using that first_index_Some [OF Some] by (simp add: map_key_update del: map_update)
  ultimately show ?thesis using cookie_get_update [OF Some] by blast
qed

text \<open>\<open>(session, address)\<close> pairs with a live context; a cookie is read back by its key.\<close>

definition cookie_read :: "addr \<Rightarrow> sessions \<Rightarrow> ptr \<Rightarrow> ptr option" where
  "cookie_read a s key = ctxClientCookieGet s a key"

definition cookie_write :: "addr \<Rightarrow> ptr \<Rightarrow> sessions \<Rightarrow> ptr \<Rightarrow> ptr \<Rightarrow> sessions option" where
  "cookie_write a f s key v = map_option fst (ctxClientCookieSet s a key v f True)"

lemma cookie_write_cases:
  assumes "cookie_write a f s key v = Some s'"
  shows "\<exists>c ks l. ss_heap s a = Some c \<and> s' = upd_ctx s a (c\<lparr>cx_cookies := ks\<rparr>) l
    \<and> (\<forall>j. cookie_get ks j = (if j = key then v else cookie_get (cx_cookies c) j))
    \<and> (distinct (map ck_key (cx_cookies c)) \<longrightarrow> distinct (map ck_key ks))"
proof -
  obtain c where c: "ss_heap s a = Some c"
    using assms by (auto simp: cookie_write_def ctxClientCookieSet_def bind_eq_Some_conv)
  obtain ks l where k: "ctxClientCookieSet s a key v f True = Some (upd_ctx s a (c\<lparr>cx_cookies := ks\<rparr>) l, None)"
    "\<forall>j. cookie_get ks j = (if j = key then v else cookie_get (cx_cookies c) j)"
    "distinct (map ck_key (cx_cookies c)) \<longrightarrow> distinct (map ck_key ks)"
    using cookie_set_eq [OF c, of key v f] by blast
  then have "s' = upd_ctx s a (c\<lparr>cx_cookies := ks\<rparr>) l" using assms by (simp add: cookie_write_def)
  with c k show ?thesis by blast
qed

interpretation cookies: kv_store
  "\<lambda>s. session_inv s \<and> ss_heap s a \<noteq> None" "\<lambda>s key. True" "cookie_read a" "cookie_write a f" for a f
proof (unfold_locales, goal_cases)
  case (1 s k v)
  then show ?case using cookie_set_eq [of s a] by (fastforce simp: cookie_write_def)
next
  case (2 s k v s')
  then obtain c ks l where c: "ss_heap s a = Some c" and s': "s' = upd_ctx s a (c\<lparr>cx_cookies := ks\<rparr>) l"
    and d: "distinct (map ck_key (cx_cookies c)) \<longrightarrow> distinct (map ck_key ks)"
    using cookie_write_cases by blast
  have "session_inv s'"
    unfolding s' by (rule session_inv_upd [OF _ c])
      (use 2 c d session_invD(3,4) [of s a c] in \<open>auto simp: ctx_ok_def\<close>)
  then show ?case by (simp add: s')
qed (auto dest!: cookie_write_cases simp: cookie_read_def ctxClientCookieGet_def)

definition value_write :: "addr \<Rightarrow> ptr \<Rightarrow> sessions \<Rightarrow> int \<Rightarrow> ptr \<Rightarrow> sessions option" where
  "value_write a f s i v = ctxClientValueSet s a i v f"

lemma value_write_cases:
  assumes "value_write a f s i v = Some s'" "session_inv s"
  shows "\<exists>c n. ss_heap s a = Some c \<and> i = int n \<and> n < ss_apicount s \<and> length (cx_values c) = ss_apicount s
    \<and> s' = upd_ctx s a (c\<lparr>cx_values := (cx_values c)[n := \<lparr>cv_value = v, cv_free_value = f\<rparr>]\<rparr>)
      (value_release (cx_values c ! n) v)"
proof -
  obtain c where c: "ss_heap s a = Some c" "0 \<le> i" "i < int (ss_apicount s)"
    using assms(1) by (auto simp: value_write_def ctxClientValueSet_def bind_eq_Some_conv split: if_splits)
  then have l: "length (cx_values c) = ss_apicount s"
    using session_invD(3) [OF assms(2) c(1)] by (simp add: ctx_ok_def)
  obtain n where n: "i = int n" "n < ss_apicount s" using c by (metis nat_eq_iff2 nat_less_iff)
  show ?thesis
    using ctxClientValueSet_eq [OF c(1) l n(2), of v f] assms(1) c(1) l n
    by (auto simp: value_write_def)
qed

interpretation ctxvals: kv_store
  "\<lambda>s. session_inv s \<and> ss_heap s a \<noteq> None" "\<lambda>s i. 0 \<le> i \<and> i < int (ss_apicount s)"
  "\<lambda>s i. ctxClientValueGet s a i" "value_write a f" for a f
proof (unfold_locales, goal_cases)
  case (1 s i v)
  then obtain c where c: "ss_heap s a = Some c" by auto
  with 1 session_invD(3) [of s a c] have "length (cx_values c) = ss_apicount s" by (simp add: ctx_ok_def)
  with c 1 show ?case by (simp add: value_write_def ctxClientValueSet_def Let_def nat_less_iff)
next
  case (2 s i v s')
  then obtain c n where c: "ss_heap s a = Some c" and s': "s' = upd_ctx s a
      (c\<lparr>cx_values := (cx_values c)[n := \<lparr>cv_value = v, cv_free_value = f\<rparr>]\<rparr>) (value_release (cx_values c ! n) v)"
    using value_write_cases by blast
  have "session_inv s'"
    unfolding s' by (rule session_inv_upd [OF _ c])
      (use 2 c session_invD(3,4) [of s a c] in \<open>auto simp: ctx_ok_def\<close>)
  then show ?case by (simp add: s')
next
  case (3 s i v s' j)
  then show ?case using value_write_cases by fastforce
next
  case (4 s i v s')
  then show ?case using value_write_cases [of a f s i v s'] by (auto simp: ctxClientValueGet_def)
next
  case (5 s i v s' j)
  then obtain c n where c: "ss_heap s a = Some c" "i = int n" and s': "s' = upd_ctx s a
      (c\<lparr>cx_values := (cx_values c)[n := \<lparr>cv_value = v, cv_free_value = f\<rparr>]\<rparr>) (value_release (cx_values c ! n) v)"
    using value_write_cases by blast
  have "0 \<le> j \<Longrightarrow> nat j \<noteq> n" using 5 c by auto
  with c s' show ?case by (auto simp: ctxClientValueGet_def)
qed

section \<open>Runs of the store\<close>

text \<open>One call of the session interface, with what the environment supplies to it.\<close>

datatype session_op =
    OpCreate "string option" int int "addr option" string
  | OpGetSession "string option" int "addr option" string
  | OpAddRef addr
  | OpUnref addr
  | OpClose addr
  | OpTokenNew addr int string
  | OpSetLOA addr "32 word"
  | OpValueSet addr int ptr ptr
  | OpCookieSet addr ptr ptr ptr

fun session_exec :: "sessions \<Rightarrow> session_op \<Rightarrow> sessions option" where
  "session_exec s (OpCreate uuid timeout now p nu) = map_option fst (ctxClientCreate s uuid timeout now p nu)"
| "session_exec s (OpGetSession uuid now p nu) = map_option fst (ctxClientGetSession s uuid now p nu)"
| "session_exec s (OpAddRef a) = ctxClientAddRef s (Some a)"
| "session_exec s (OpUnref a) = ctxClientUnref s (Some a)"
| "session_exec s (OpClose a) = ctxClientClose s a"
| "session_exec s (OpTokenNew a now nu) = ctxTokenNew s a now nu"
| "session_exec s (OpSetLOA a l) = ctxClientSetLOA s a l"
| "session_exec s (OpValueSet a i v f) = value_write a f s i v"
| "session_exec s (OpCookieSet a k v f) = cookie_write a f s k v"

text \<open>The caller passes sessions it holds and indexes in range.\<close>

fun op_ok :: "sessions \<Rightarrow> session_op \<Rightarrow> bool" where
  "op_ok s (OpCreate uuid timeout now p nu) \<longleftrightarrow> alloc_ok s p \<and> uuid_ok s nu"
| "op_ok s (OpGetSession uuid now p nu) \<longleftrightarrow> alloc_ok s p \<and> uuid_ok s nu"
| "op_ok s (OpUnref a) \<longleftrightarrow> (case ss_heap s a of None \<Rightarrow> False | Some c \<Rightarrow> 0 < cx_refcount c)"
| "op_ok s (OpTokenNew a now nu) \<longleftrightarrow> ss_heap s a \<noteq> None \<and> length nu = 36"
| "op_ok s (OpValueSet a i v f) \<longleftrightarrow> ss_heap s a \<noteq> None \<and> 0 \<le> i \<and> i < int (ss_apicount s)"
| "op_ok s (OpAddRef a) \<longleftrightarrow> ss_heap s a \<noteq> None"
| "op_ok s (OpClose a) \<longleftrightarrow> ss_heap s a \<noteq> None"
| "op_ok s (OpSetLOA a l) \<longleftrightarrow> ss_heap s a \<noteq> None"
| "op_ok s (OpCookieSet a k v f) \<longleftrightarrow> ss_heap s a \<noteq> None"

lemma in_place_inv:
  assumes "session_inv s" "ss_heap s a = Some c" "cx_uuid d = cx_uuid c" "cx_values d = cx_values c"
    "cx_cookies d = cx_cookies c" "length (cx_token d) < token_size" "cx_refcount c \<le> cx_refcount d"
  shows "session_inv (upd_ctx s a d l)"
  by (rule session_inv_upd [OF assms(1,2)])
     (use assms session_invD(3,4) [OF assms(1,2)] in \<open>auto simp: ctx_ok_def\<close>)

lemma token_length: "session_inv s \<Longrightarrow> ss_heap s a = Some c \<Longrightarrow> length (cx_token c) < token_size"
  using session_invD(3) by (fastforce simp: ctx_ok_def)

lemma get_session_inv [crash_free]:
  assumes "session_inv s" "alloc_ok s p" "uuid_ok s nu"
  shows "\<exists>s' r. ctxClientGetSession s uuid now p nu = Some (s', r) \<and> session_inv s'"
proof -
  obtain t where t: "session_inv t" "alloc_ok t p" "uuid_ok t nu" and
    or: "(\<exists>a c u. uuid = Some u \<and> ss_heap t a = Some c \<and> cx_uuid c = u
       \<and> ctxClientGetSession s uuid now p nu =
          Some (upd_ctx t a (c\<lparr>cx_access := now, cx_refcount := cx_refcount c + 1\<rparr>) [], Inr a, False))
     \<or> (uuid_arg_ok t uuid \<and> ctxClientGetSession s uuid now p nu =
          (case new_context t uuid (ss_timeout t) now p nu of (s2, r) \<Rightarrow> Some (s2, r, True)))"
    by (rule get_session_cases [OF assms])
  from or show ?thesis
  proof (elim disjE exE conjE)
    fix a c u
    assume "ss_heap t a = Some c" "ctxClientGetSession s uuid now p nu =
      Some (upd_ctx t a (c\<lparr>cx_access := now, cx_refcount := cx_refcount c + 1\<rparr>) [], Inr a, False)"
    then show ?thesis using t(1) token_length [of t a c] by (auto intro!: in_place_inv)
  next
    assume "uuid_arg_ok t uuid" "ctxClientGetSession s uuid now p nu =
      (case new_context t uuid (ss_timeout t) now p nu of (s2, r) \<Rightarrow> Some (s2, r, True))"
    then show ?thesis using new_context_inv [OF t] by (auto split: prod.splits)
  qed
qed

lemma create_inv [crash_free]:
  assumes "session_inv s" "alloc_ok s p" "uuid_ok s nu"
  shows "\<exists>s' r. ctxClientCreate s uuid timeout now p nu = Some (s', r) \<and> session_inv s'"
  by (rule create_cases [OF assms, of uuid timeout now]) (metis new_context_inv surj_pair)

lemma unref_total:
  "ss_heap s a = Some c \<Longrightarrow> 0 < cx_refcount c \<Longrightarrow> \<exists>s'. ctxClientUnref s (Some a) = Some s'"
  by (simp add: ctxClientUnref_eq)

lemma close_total:
  "session_inv s \<Longrightarrow> ss_heap s a = Some c \<Longrightarrow> \<exists>s'. ctxClientClose s a = Some s'"
  using ctxClientClose_eq session_invD(3) by (metis ctx_ok_def)

lemma session_exec_inv [keeps_inv]:
  assumes "session_inv s" "op_ok s op"
  shows "\<exists>s'. session_exec s op = Some s' \<and> session_inv s'"
proof (cases op)
  case (OpCreate uuid timeout now p nu)
  with assms create_inv [of s p nu uuid timeout now] show ?thesis by auto
next
  case (OpGetSession uuid now p nu)
  with assms get_session_inv [of s p nu uuid now] show ?thesis by auto
next
  case (OpAddRef a)
  with assms obtain c where c: "ss_heap s a = Some c" by auto
  have "session_inv (upd_ctx s a (c\<lparr>cx_refcount := cx_refcount c + 1\<rparr>) [])"
    by (rule in_place_inv [OF assms(1) c]) (simp_all add: token_length [OF assms(1) c])
  with OpAddRef c show ?thesis by (simp add: ctxClientAddRef_def put_ctx_upd)
next
  case (OpUnref a)
  with assms obtain c where "ss_heap s a = Some c" "0 < cx_refcount c" by (auto split: option.splits)
  with unref_total [OF this] session_inv_unref assms(1) OpUnref show ?thesis by auto
next
  case (OpClose a)
  with assms obtain c where "ss_heap s a = Some c" by auto
  with close_total [OF assms(1) this] session_inv_close assms(1) OpClose show ?thesis by auto
next
  case (OpTokenNew a now nu)
  with assms obtain c where c: "ss_heap s a = Some c" by auto
  let ?d = "if cx_timeout c \<noteq> 0 then c\<lparr>cx_token := nu, cx_expiration := now + cx_timeout c\<rparr> else c\<lparr>cx_token := nu\<rparr>"
  have "session_exec s op = Some (upd_ctx s a ?d [])"
    using c OpTokenNew by (simp add: ctxTokenNew_def Let_def put_ctx_upd)
  moreover have "session_inv (upd_ctx s a ?d [])"
    by (rule in_place_inv [OF assms(1) c]) (use OpTokenNew assms(2) in \<open>auto simp: token_size_def\<close>)
  ultimately show ?thesis by blast
next
  case (OpSetLOA a l)
  with assms obtain c where c: "ss_heap s a = Some c" by auto
  have "session_inv (upd_ctx s a (c\<lparr>cx_loa := l\<rparr>) [])"
    by (rule in_place_inv [OF assms(1) c]) (simp_all add: token_length [OF assms(1) c])
  with OpSetLOA c show ?thesis by (simp add: ctxClientSetLOA_def put_ctx_upd)
next
  case (OpValueSet a i v f)
  with assms have "session_inv s \<and> ss_heap s a \<noteq> None" "0 \<le> i \<and> i < int (ss_apicount s)" by simp_all
  from ctxvals.put_total [OF this] ctxvals.put_inv [OF this(1)] OpValueSet show ?thesis
    by (metis session_exec.simps(8))
next
  case (OpCookieSet a k v f)
  with assms have "session_inv s \<and> ss_heap s a \<noteq> None" by simp
  from cookies.put_total [OF this TrueI] cookies.put_inv [OF this] OpCookieSet show ?thesis
    by (metis session_exec.simps(9))
qed

inductive session_reach :: "sessions \<Rightarrow> bool" where
  reach_init: "ctxStoreInit n timeout initok apis nu = Some s \<Longrightarrow> length nu = 36 \<Longrightarrow> session_reach s"
| reach_step: "session_reach s \<Longrightarrow> op_ok s op \<Longrightarrow> session_exec s op = Some s' \<Longrightarrow> session_reach s'"

lemma session_inv_init:
  assumes "ctxStoreInit n timeout initok apis nu = Some s" "length nu = 36"
  shows "session_inv s"
proof -
  have "somes (replicate (Suc n) None) = ([] :: addr list)" by (intro somes_all_None) auto
  with assms show ?thesis
    by (auto simp: ctxStoreInit_def Let_def session_inv_def table_ok_def uuids_distinct_def token_size_def
        nth_append split: option.splits if_splits simp flip: replicate_append_same)
qed

lemma session_reach_inv: "session_reach s \<Longrightarrow> session_inv s"
proof (induction rule: session_reach.induct)
  case (reach_init n timeout initok apis nu s)
  then show ?case by (rule session_inv_init)
next
  case (reach_step s op s')
  with session_exec_inv [of s op] show ?case by auto
qed

text \<open>C2. In every state the daemon's session interface can reach, each further call made with live
  sessions, fresh memory and a fresh uuid returns normally (no failed assertion, no access to freed
  memory); the table and the heap agree, no two open sessions share a uuid, a closed session survives
  only while it is referenced, and the number of sessions stays within the configured maximum.\<close>

theorem session_store_safe:
  assumes "session_reach s" "op_ok s op"
  shows "\<exists>s'. session_exec s op = Some s' \<and> session_reach s' \<and> session_inv s'
    \<and> 0 \<le> ss_count s' \<and> ss_count s' \<le> int (ss_max s')"
proof -
  obtain s' where s': "session_exec s op = Some s'" "session_inv s'"
    using session_exec_inv [OF session_reach_inv [OF assms(1)] assms(2)] by blast
  then show ?thesis
    using session_reach.reach_step [OF assms s'(1)] count_bounds [OF session_invD(1) [OF s'(2)]] by blast
qed

theorem session_store_safe_witness:
  "let s = the (ctxStoreInit 2 3600 (Some ''tok'') 1 (replicate 36 CHR ''b''));
       op = OpGetSession None 100 (Some 7) (replicate 36 CHR ''a'')
   in session_reach s \<and> op_ok s op
     \<and> (\<exists>s'. session_exec s op = Some s' \<and> session_reach s' \<and> session_inv s'
          \<and> 0 \<le> ss_count s' \<and> ss_count s' \<le> int (ss_max s'))"
proof -
  let ?s = "the (ctxStoreInit 2 3600 (Some ''tok'') 1 (replicate 36 CHR ''b''))"
    and ?op = "OpGetSession None 100 (Some 7) (replicate 36 CHR ''a'')"
  have 1: "session_reach ?s"
    by (rule reach_init [where n = 2 and timeout = 3600 and initok = "Some ''tok''" and apis = 1
          and nu = "replicate 36 CHR ''b''"]) (simp_all add: ctxStoreInit_def Let_def token_size_def)
  have 2: "op_ok ?s ?op"
    by (simp add: ctxStoreInit_def alloc_ok_def uuid_ok_def Let_def token_size_def)
  show ?thesis unfolding Let_def using session_store_safe [OF 1 2] 1 2 by blast
qed

text \<open>C13. The cleanup that starts every session lookup closes exactly the open contexts whose
  expiration is past, releases the memory of those nobody references, and leaves every other
  context untouched.\<close>

theorem cleanup_closes_exactly_expired:
  assumes "session_reach s"
  shows "\<exists>t. ctxStoreCleanUp s now = Some t \<and> session_inv t
    \<and> (\<forall>a c. ss_heap s a = Some c \<longrightarrow> ss_heap t a =
        (if cx_expiration c < now \<and> cx_uuid c \<noteq> ''''
         then if cx_refcount c = 0 then None
              else Some (c\<lparr>cx_uuid := '''', cx_values := replicate (ss_apicount s) null_value, cx_cookies := []\<rparr>)
         else Some c))
    \<and> (\<forall>a. ss_heap s a = None \<longrightarrow> ss_heap t a = None)"
  using cleanup_heap [OF session_reach_inv [OF assms], of now]
  by (auto simp: sweep_def ctxStoreTooOld_def closed_def released_def)

theorem cleanup_closes_exactly_expired_witness:
  "let s = the (ctxStoreInit 2 3600 None 0 (replicate 36 CHR ''b''))
   in session_reach s \<and> (\<exists>t. ctxStoreCleanUp s 5 = Some t \<and> session_inv t)"
proof -
  let ?s = "the (ctxStoreInit 2 3600 None 0 (replicate 36 CHR ''b''))"
  have 1: "session_reach ?s"
    by (rule reach_init [where n = 2 and timeout = 3600 and initok = None and apis = 0
          and nu = "replicate 36 CHR ''b''"]) (simp_all add: ctxStoreInit_def Let_def)
  show ?thesis unfolding Let_def using cleanup_closes_exactly_expired [OF 1, of 5] 1 by blast
qed

text \<open>Asking for a session by a non-empty uuid returns, when it succeeds, a context that carries
  this uuid and is referenced: either the one of the table, which has not expired, with one more
  reference, or a new one with one reference, the initial token and the configured lifetime.\<close>

lemma get_session_by_uuid:
  assumes "session_reach s" "alloc_ok s p" "uuid_ok s nu" "u \<noteq> ''''"
    and "ctxClientGetSession s (Some u) now p nu = Some (s', Inr a, created)"
  shows "\<exists>c. ss_heap s' a = Some c \<and> cx_uuid c = u \<and> cx_access c = now
    \<and> (if created then p = Some a \<and> cx_refcount c = 1 \<and> cx_loa c = 0 \<and> cx_cookies c = []
         \<and> cx_expiration c = (if ss_timeout s = 0 then time_max else now + ss_timeout s)
       else (\<exists>c0. ss_heap s a = Some c0 \<and> cx_uuid c0 = u \<and> now \<le> cx_expiration c0
         \<and> c = c0\<lparr>cx_access := now, cx_refcount := cx_refcount c0 + 1\<rparr>))"
proof -
  note inv = session_reach_inv [OF assms(1)]
  obtain t where t: "ctxStoreCleanUp s now = Some t" "session_inv t" "alloc_ok t p" "uuid_ok t nu"
    and h: "ss_heap t = (\<lambda>a. Option.bind (ss_heap s a) (sweep (ss_apicount s) now))"
    and or: "(\<exists>a c u'. Some u = Some u' \<and> ss_heap t a = Some c \<and> cx_uuid c = u'
       \<and> ctxClientGetSession s (Some u) now p nu =
          Some (upd_ctx t a (c\<lparr>cx_access := now, cx_refcount := cx_refcount c + 1\<rparr>) [], Inr a, False))
     \<or> (uuid_arg_ok t (Some u) \<and> ctxClientGetSession s (Some u) now p nu =
          (case new_context t (Some u) (ss_timeout t) now p nu of (s2, r) \<Rightarrow> Some (s2, r, True)))"
    by (rule get_session_cases [OF inv assms(2,3)])
  from or show ?thesis
  proof (elim disjE exE conjE)
    fix b c u'
    assume *: "Some u = Some u'" "ss_heap t b = Some c" "cx_uuid c = u'" "ctxClientGetSession s (Some u) now p nu =
      Some (upd_ctx t b (c\<lparr>cx_access := now, cx_refcount := cx_refcount c + 1\<rparr>) [], Inr b, False)"
    from *(2) obtain c0 where c0: "ss_heap s b = Some c0" "sweep (ss_apicount s) now c0 = Some c"
      by (auto simp: h bind_eq_Some_conv)
    from c0(2) *(1,3) assms(4) have "c0 = c" "now \<le> cx_expiration c0"
      by (auto simp: sweep_def ctxStoreTooOld_def split: if_splits)
    with * c0(1) assms(5) show ?thesis by auto
  next
    assume *: "uuid_arg_ok t (Some u)" "ctxClientGetSession s (Some u) now p nu =
      (case new_context t (Some u) (ss_timeout t) now p nu of (s2, r) \<Rightarrow> Some (s2, r, True))"
    then have n: "new_context t (Some u) (ss_timeout t) now p nu = (s', Inr a)" "created"
      using assms(5) by (auto split: prod.splits)
    have "ss_timeout t = ss_timeout s" using cleanup_heap [OF inv, of now] t(1) by auto
    with new_context_Inr(1,3) [OF t(2-4) *(1) n(1)] n(2) show ?thesis
      by (auto simp: init_context_fields_def)
  qed
qed

text \<open>After \<open>ctxTokenNew\<close> the session accepts exactly the new token, up to the renewed
  expiration, and a closed session accepts none.\<close>

lemma token_renewal:
  assumes "ss_heap s a = Some c" "nu \<noteq> ''''" "ctxTokenNew s a now nu = Some s'"
  shows "ctxTokenCheck s' a tok later = Some (cx_uuid c \<noteq> '''' \<and> tok = nu
    \<and> later \<le> (if cx_timeout c = 0 then cx_expiration c else now + cx_timeout c))"
  using assms by (auto simp: ctxTokenNew_def ctxTokenCheck_def ctxIsActive_def put_ctx_def Let_def)

text \<open>Closing a session hands every stored value and every cookie that has a release function to
  that function exactly once, in order, and leaves nothing behind; closing it again does nothing.\<close>

lemma close_releases_once:
  assumes "session_reach s" "ss_heap s a = Some c" "cx_uuid c \<noteq> ''''" "ctxClientClose s a = Some s'"
  shows "ss_freed s' = ss_freed s
      @ [(cv_free_value p, cv_value p). p \<leftarrow> cx_values c, cv_value p \<noteq> NULL \<and> cv_free_value p \<noteq> NULL]
      @ [(ck_free_value k, ck_value k). k \<leftarrow> cx_cookies c, ck_value k \<noteq> NULL \<and> ck_free_value k \<noteq> NULL]
    \<and> (if cx_refcount c = 0 then ss_heap s' a = None
       else ctxClientClose s' a = Some s' \<and> (\<forall>k. ctxClientCookieGet s' a k = Some NULL))"
proof -
  note inv = session_reach_inv [OF assms(1)]
  have ok: "length (cx_values c) = ss_apicount s" using session_invD(3) [OF inv assms(2)] by (simp add: ctx_ok_def)
  let ?s1 = "upd_ctx s a (closed (ss_apicount s) c) (ctx_release c)"
  have s': "s' = (if cx_refcount c = 0 then remove_ctx ?s1 a else ?s1)"
    using ctxClientClose_eq [OF assms(2) ok] assms(3,4) by (simp add: Let_def)
  have "ctx_release c = [(cv_free_value p, cv_value p). p \<leftarrow> cx_values c, cv_value p \<noteq> NULL \<and> cv_free_value p \<noteq> NULL]
      @ [(ck_free_value k, ck_value k). k \<leftarrow> cx_cookies c, ck_value k \<noteq> NULL \<and> ck_free_value k \<noteq> NULL]"
    by (auto simp: ctx_release_def value_release_def cookie_release_def intro!: arg_cong [where f = concat] map_cong)
  with s' show ?thesis by (simp add: ctxClientClose_def ctxClientCookieGet_def)
qed

text \<open>A reachable state with one referenced session, used by the witnesses below.\<close>

definition demo_uuid :: string where "demo_uuid = replicate 36 CHR ''a''"

definition demo_store :: sessions where
  "demo_store = the (ctxStoreInit 2 3600 (Some ''tok'') 1 (replicate 36 CHR ''b''))"

definition demo_ctx :: AFB_clientCtx where
  "demo_ctx = \<lparr>cx_refcount = 1, cx_loa = 0, cx_timeout = 3600, cx_expiration = 3605, cx_access = 5, cx_uuid = demo_uuid,
     cx_token = ''tok'', cx_values = [null_value], cx_cookies = []\<rparr>"

definition demo_session :: sessions where
  "demo_session = demo_store\<lparr>ss_heap := [7 \<mapsto> demo_ctx], ss_store := [Some 7, None, None], ss_count := 1\<rparr>"

lemmas session_defs = ctxClientGetSession_def ctxStoreCleanUp_def cleanup_slot_def ctxStoreSearch_def new_context_def
  add_context_def ctxStoreAdd_def put_ctx_def init_context_fields_def token_size_def

lemma demo_store_eq: "demo_store = \<lparr>ss_heap = Map.empty, ss_store = [None, None, None], ss_count = 0, ss_max = 2,
    ss_timeout = 3600, ss_apicount = 1, ss_initok = ''tok'', ss_freed = []\<rparr>"
  by (simp add: demo_store_def ctxStoreInit_def Let_def token_size_def numeral_3_eq_3)

lemma demo_store_reach: "session_reach demo_store"
  by (rule reach_init [where n = 2 and timeout = 3600 and initok = "Some ''tok''" and apis = 1
        and nu = "replicate 36 CHR ''b''"]) (simp_all add: demo_store_def ctxStoreInit_def Let_def token_size_def)

lemma demo_session_reach: "session_reach demo_session"
proof (rule reach_step [OF demo_store_reach])
  show "op_ok demo_store (OpGetSession None 5 (Some 7) demo_uuid)"
    by (simp add: demo_store_eq alloc_ok_def uuid_ok_def demo_uuid_def)
  show "session_exec demo_store (OpGetSession None 5 (Some 7) demo_uuid) = Some demo_session"
    by (simp add: demo_session_def demo_ctx_def demo_store_eq session_defs Let_def upt_rec)
qed

text \<open>A closed session that somebody still references stays in the table with an empty uuid, and
  a request that presents an empty uuid is given such a closed session instead of a new one.\<close>

lemma empty_uuid_gets_closed_session:
  assumes "session_reach s" "ss_heap s a = Some c" "cx_uuid c = ''''"
  shows "\<exists>s' b d. ctxClientGetSession s (Some '''') now p nu = Some (s', Inr b, False)
    \<and> ss_heap s' b = Some d \<and> cx_uuid d = '''' \<and> (\<forall>tok. ctxTokenCheck s' b tok now = Some False)"
proof -
  note inv = session_reach_inv [OF assms(1)]
  obtain t where t: "ctxStoreCleanUp s now = Some t" "session_inv t"
    "ss_heap t = (\<lambda>a. Option.bind (ss_heap s a) (sweep (ss_apicount s) now))"
    using cleanup_heap [OF inv] by blast
  have a: "ss_heap t a = Some c" using assms(2,3) by (simp add: t(3) sweep_def)
  obtain r where r: "ctxStoreSearch t '''' = Some r" "\<And>a. r = Some a \<Longrightarrow> \<exists>c. ss_heap t a = Some c \<and> cx_uuid c = ''''"
    "\<And>a c. r = None \<Longrightarrow> ss_heap t a = Some c \<Longrightarrow> cx_uuid c \<noteq> ''''"
    by (rule ctxStoreSearch_spec [OF t(2), where u = "''''"]) blast
  obtain b d where b: "r = Some b" "ss_heap t b = Some d" "cx_uuid d = ''''"
    using r(2) r(3) [OF _ a] assms(3) by (cases r) auto
  have "ctxClientGetSession s (Some '''') now p nu =
      Some (put_ctx t b (d\<lparr>cx_access := now, cx_refcount := cx_refcount d + 1\<rparr>), Inr b, False)"
    using t(1) r(1) b by (simp add: ctxClientGetSession_def)
  with b show ?thesis by (simp add: put_ctx_def ctxTokenCheck_def ctxIsActive_def)
qed

lemma demo_closed_reach:
  "\<exists>s c. session_exec demo_session (OpClose 7) = Some s \<and> session_reach s \<and> ss_heap s 7 = Some c \<and> cx_uuid c = ''''"
proof -
  let ?s = "upd_ctx demo_session 7 (closed 1 demo_ctx) []"
  have "length (cx_values demo_ctx) = ss_apicount demo_session" "ss_heap demo_session 7 = Some demo_ctx"
    by (simp_all add: demo_session_def demo_ctx_def demo_store_eq)
  then have e: "session_exec demo_session (OpClose 7) = Some ?s"
    using ctxClientClose_eq [of demo_session 7 demo_ctx]
    by (simp add: demo_ctx_def demo_session_def demo_store_eq demo_uuid_def ctx_release_def value_release_def Let_def)
  moreover have "session_reach ?s"
    by (rule reach_step [OF demo_session_reach _ e]) (simp add: demo_session_def)
  ultimately show ?thesis by auto
qed

text \<open>Cookies of a live session are keyed storage: after any sequence of writes, a read returns the
  last value written under its key, and the previous value for keys not written.\<close>

lemma cookies_last_write_wins:
  assumes "session_reach s" "ss_heap s a = Some c"
  shows "\<exists>s'. kv_store.set_all (cookie_write a f) s kvs = Some s' \<and> session_inv s'
    \<and> (\<forall>k. ctxClientCookieGet s' a k = (case map_of (rev kvs) k of
          None \<Rightarrow> ctxClientCookieGet s a k | Some v \<Rightarrow> Some v))"
proof -
  have "session_inv s \<and> ss_heap s a \<noteq> None" using session_reach_inv assms by auto
  from cookies.last_write_wins [OF this, of kvs f, unfolded cookie_read_def] show ?thesis by auto
qed

end
