(* ===== verification/Context.thy ===== *)
theory Context
  imports Session
begin

text \<open>
  Request contexts, \<^verbatim>\<open>src/src/afb-context.c\<close> and \<^verbatim>\<open>src/src/afb-context.h\<close>.

  The bit fields of \<open>struct afb_context\<close> are record fields: one-bit fields are booleans, the two
  three-bit levels of assurance are \<open>3 word\<close>. An operation takes the session store and the
  context and returns both; \<open>None\<close> is a failed assertion or an access to a released session.
  The interface \<open>session_holder\<close> is what a holder of a reference relies on; it is interpreted on
  the session store and gives that disconnecting is always possible and drops one reference.
\<close>

record afb_context =
  ac_session :: "addr option"
  ac_created :: bool
  ac_validated :: bool
  ac_invalidated :: bool
  ac_refreshing :: bool
  ac_refreshed :: bool
  ac_closing :: bool
  ac_closed :: bool
  ac_loa_in :: "3 word"
  ac_loa_out :: "3 word"
  ac_loa_changing :: bool
  ac_loa_changed :: bool
  ac_api_index :: int

section \<open>Operations\<close>

definition init_context :: "sessions \<Rightarrow> addr option \<Rightarrow> string option \<Rightarrow> int \<Rightarrow> afb_context option" where
  "init_context s session token now =
     do { a \<leftarrow> session;
          l \<leftarrow> ctxClientGetLOA s a;
          let x = \<lparr>ac_session = Some a, ac_created = False, ac_validated = False, ac_invalidated = False,
                   ac_refreshing = False, ac_refreshed = False, ac_closing = False, ac_closed = False,
                   ac_loa_in = ucast (and l 7), ac_loa_out = 0, ac_loa_changing = False,
                   ac_loa_changed = False, ac_api_index = -1\<rparr>;
          case token of
            None \<Rightarrow> Some x
          | Some t \<Rightarrow> do { ok \<leftarrow> ctxTokenCheck s a t now;
                          Some (if ok then x\<lparr>ac_validated := True\<rparr> else x\<lparr>ac_invalidated := True\<rparr>) } }"

definition afb_context_init ::
  "sessions \<Rightarrow> addr option \<Rightarrow> string option \<Rightarrow> int \<Rightarrow> (sessions \<times> afb_context) option" where
  "afb_context_init s session token now =
     do { s1 \<leftarrow> ctxClientAddRef s session; x \<leftarrow> init_context s1 session token now; Some (s1, x) }"

text \<open>The second component is \<open>Inl\<close> when \<open>ctxClientGetSession\<close> fails and the C function
  returns \<open>-1\<close>.\<close>

definition afb_context_connect ::
  "sessions \<Rightarrow> string option \<Rightarrow> string option \<Rightarrow> int \<Rightarrow> addr option \<Rightarrow> string
     \<Rightarrow> (sessions \<times> (errno + afb_context)) option" where
  "afb_context_connect s uuid token now calloc newuuid =
     do { (s1, r, created) \<leftarrow> ctxClientGetSession s uuid now calloc newuuid;
          case r of
            Inl e \<Rightarrow> Some (s1, Inl e)
          | Inr a \<Rightarrow> do { x \<leftarrow> init_context s1 (Some a) token now;
                         Some (s1, Inr (if created then x\<lparr>ac_created := True\<rparr> else x)) } }"

definition afb_context_disconnect ::
  "sessions \<Rightarrow> afb_context \<Rightarrow> int \<Rightarrow> string \<Rightarrow> (sessions \<times> afb_context) option" where
  "afb_context_disconnect s x now newuuid =
     (case ac_session x of
        None \<Rightarrow> Some (s, x)
      | Some a \<Rightarrow> do {
          (s1, x1) \<leftarrow> (if ac_refreshing x \<and> \<not> ac_refreshed x
             then do { t \<leftarrow> ctxTokenNew s a now newuuid; Some (t, x\<lparr>ac_refreshed := True\<rparr>) } else Some (s, x));
          (s2, x2) \<leftarrow> (if ac_loa_changing x1 \<and> \<not> ac_loa_changed x1
             then do { t \<leftarrow> ctxClientSetLOA s1 a (ucast (ac_loa_out x1)); Some (t, x1\<lparr>ac_loa_changed := True\<rparr>) }
             else Some (s1, x1));
          (s3, x3) \<leftarrow> (if ac_closing x2 \<and> \<not> ac_closed x2
             then do { t \<leftarrow> ctxClientClose s2 a; Some (t, x2\<lparr>ac_closed := True\<rparr>) } else Some (s2, x2));
          s4 \<leftarrow> ctxClientUnref s3 (Some a);
          Some (s4, x3\<lparr>ac_session := None\<rparr>) })"

definition afb_context_sent_token ::
  "sessions \<Rightarrow> afb_context \<Rightarrow> int \<Rightarrow> string \<Rightarrow> (sessions \<times> afb_context \<times> string option) option" where
  "afb_context_sent_token s x now newuuid =
     (case ac_session x of
        None \<Rightarrow> Some (s, x, None)
      | Some a \<Rightarrow>
          if ac_closing x then Some (s, x, None)
          else if \<not> ac_refreshing x then Some (s, x, None)
          else do {
            (s1, x1) \<leftarrow> (if \<not> ac_refreshed x
               then do { t \<leftarrow> ctxTokenNew s a now newuuid; Some (t, x\<lparr>ac_refreshed := True\<rparr>) } else Some (s, x));
            tok \<leftarrow> ctxClientGetToken s1 a;
            Some (s1, x1, Some tok) })"

definition afb_context_sent_uuid :: "sessions \<Rightarrow> afb_context \<Rightarrow> string option option" where
  "afb_context_sent_uuid s x =
     (case ac_session x of
        None \<Rightarrow> Some None
      | Some a \<Rightarrow> if ac_closing x then Some None
                  else if \<not> ac_created x then Some None
                  else map_option Some (ctxClientGetUuid s a))"

definition afb_context_get :: "sessions \<Rightarrow> afb_context \<Rightarrow> ptr option" where
  "afb_context_get s x = do { a \<leftarrow> ac_session x; ctxClientValueGet s a (ac_api_index x) }"

definition afb_context_set :: "sessions \<Rightarrow> afb_context \<Rightarrow> ptr \<Rightarrow> ptr \<Rightarrow> sessions option" where
  "afb_context_set s x value free_value =
     do { a \<leftarrow> ac_session x; ctxClientValueSet s a (ac_api_index x) value free_value }"

definition afb_context_close :: "afb_context \<Rightarrow> afb_context" where
  "afb_context_close x = x\<lparr>ac_closing := True\<rparr>"

definition afb_context_refresh :: "afb_context \<Rightarrow> afb_context option" where
  "afb_context_refresh x = (if ac_validated x then Some (x\<lparr>ac_refreshing := True\<rparr>) else None)"

definition afb_context_check :: "afb_context \<Rightarrow> bool" where
  "afb_context_check x = ac_validated x"

definition afb_context_check_loa :: "afb_context \<Rightarrow> 32 word \<Rightarrow> bool" where
  "afb_context_check_loa x loa \<longleftrightarrow> ucast (ac_loa_in x) \<ge> loa"

definition afb_context_change_loa :: "afb_context \<Rightarrow> 32 word \<Rightarrow> afb_context \<times> bool" where
  "afb_context_change_loa x loa =
     (if \<not> ac_validated x \<or> loa > 7 then (x, False)
      else (if loa = ucast (ac_loa_in x) \<and> \<not> ac_loa_changed x then x\<lparr>ac_loa_changing := False\<rparr>
            else x\<lparr>ac_loa_out := ucast (and loa 7), ac_loa_changing := True, ac_loa_changed := False\<rparr>, True))"

section \<open>Interface: holding a session\<close>

text \<open>
  What a component that owns a reference relies on: updates through the reference keep it, and
  dropping it is possible exactly as often as it was taken.
\<close>

locale session_holder =
  fixes inv :: "'s \<Rightarrow> bool"
    and refs :: "'s \<Rightarrow> addr \<Rightarrow> nat"
    and ok :: "'u \<Rightarrow> bool"
    and upd :: "'u \<Rightarrow> 's \<Rightarrow> addr \<Rightarrow> 's option"
    and unref :: "'s \<Rightarrow> addr \<Rightarrow> 's option"
  assumes upd_safe: "inv s \<Longrightarrow> 0 < refs s a \<Longrightarrow> ok u \<Longrightarrow>
      \<exists>s'. upd u s a = Some s' \<and> inv s' \<and> refs s' = refs s"
    and unref_safe: "inv s \<Longrightarrow> 0 < refs s a \<Longrightarrow>
      \<exists>s'. unref s a = Some s' \<and> inv s' \<and> refs s' = (refs s)(a := refs s a - 1)"
begin

fun updates :: "'u list \<Rightarrow> 's \<Rightarrow> addr \<Rightarrow> 's option" where
  "updates [] s a = Some s"
| "updates (u # us) s a = Option.bind (upd u s a) (\<lambda>s'. updates us s' a)"

lemma updates_safe:
  "inv s \<Longrightarrow> 0 < refs s a \<Longrightarrow> list_all ok us \<Longrightarrow>
    \<exists>s'. updates us s a = Some s' \<and> inv s' \<and> refs s' = refs s"
proof (induction us arbitrary: s)
  case (Cons u us)
  from Cons.prems obtain s1 where "upd u s a = Some s1" "inv s1" "refs s1 = refs s"
    using upd_safe [of s a u] by auto
  with Cons.IH [of s1] Cons.prems show ?case by simp
qed simp

lemma release_safe:
  assumes "inv s" "0 < refs s a" "list_all ok us"
  shows "\<exists>s'. Option.bind (updates us s a) (\<lambda>t. unref t a) = Some s' \<and> inv s'
    \<and> refs s' = (refs s)(a := refs s a - 1)"
  using updates_safe [OF assms] unref_safe assms(2) by fastforce

end

datatype holder_upd = HTokenNew int string | HSetLOA "32 word" | HClose

fun hupd :: "holder_upd \<Rightarrow> sessions \<Rightarrow> addr \<Rightarrow> sessions option" where
  "hupd (HTokenNew now nu) s a = ctxTokenNew s a now nu"
| "hupd (HSetLOA l) s a = ctxClientSetLOA s a l"
| "hupd HClose s a = ctxClientClose s a"

fun hupd_ok :: "holder_upd \<Rightarrow> bool" where
  "hupd_ok (HTokenNew now nu) \<longleftrightarrow> length nu = 36"
| "hupd_ok _ \<longleftrightarrow> True"

definition session_refs :: "sessions \<Rightarrow> addr \<Rightarrow> nat" where
  "session_refs s a = (case ss_heap s a of None \<Rightarrow> 0 | Some c \<Rightarrow> cx_refcount c)"

lemma session_refs_upd: "session_refs (upd_ctx s a c l) = (session_refs s)(a := cx_refcount c)"
  by (auto simp: session_refs_def fun_eq_iff)

lemma session_refs_remove: "session_refs (remove_ctx s a) = (session_refs s)(a := 0)"
  by (auto simp: session_refs_def fun_eq_iff)

lemma session_refs_pos: "0 < session_refs s a \<Longrightarrow> \<exists>c. ss_heap s a = Some c \<and> session_refs s a = cx_refcount c"
  by (auto simp: session_refs_def split: option.splits)

lemma hupd_op: "hupd u s a = session_exec s (case u of HTokenNew now nu \<Rightarrow> OpTokenNew a now nu
    | HSetLOA l \<Rightarrow> OpSetLOA a l | HClose \<Rightarrow> OpClose a)"
  by (cases u) simp_all

lemma hupd_safe:
  assumes "session_inv s" "0 < session_refs s a" "hupd_ok u"
  shows "\<exists>s'. hupd u s a = Some s' \<and> session_inv s' \<and> session_refs s' = session_refs s"
proof -
  obtain c where c: "ss_heap s a = Some c" "session_refs s a = cx_refcount c" "0 < cx_refcount c"
    using session_refs_pos [OF assms(2)] assms(2) by auto
  have len: "length (cx_values c) = ss_apicount s"
    using session_invD(3) [OF assms(1) c(1)] by (simp add: ctx_ok_def)
  obtain s' where s': "hupd u s a = Some s'" "session_inv s'"
    using session_exec_inv [OF assms(1), of "case u of HTokenNew now nu \<Rightarrow> OpTokenNew a now nu
      | HSetLOA l \<Rightarrow> OpSetLOA a l | HClose \<Rightarrow> OpClose a"] assms(3) c(1)
    by (cases u) auto
  moreover have "session_refs s' = session_refs s"
    using s'(1) c ctxClientClose_eq [OF c(1) len]
    by (cases u) (auto simp: ctxTokenNew_def ctxClientSetLOA_def put_ctx_upd Let_def session_refs_upd
        fun_upd_idem split: if_splits)
  ultimately show ?thesis by blast
qed

lemma unref_refs:
  assumes "session_inv s" "0 < session_refs s a"
  shows "\<exists>s'. ctxClientUnref s (Some a) = Some s' \<and> session_inv s'
    \<and> session_refs s' = (session_refs s)(a := session_refs s a - 1)"
proof -
  obtain c where c: "ss_heap s a = Some c" "session_refs s a = cx_refcount c" "cx_refcount c \<noteq> 0"
    using session_refs_pos [OF assms(2)] assms(2) by auto
  from ctxClientUnref_eq [OF c(1,3)] session_inv_unref [OF assms(1) c(1)] c(2,3) show ?thesis
    by (auto simp: Let_def session_refs_upd session_refs_remove)
qed

lemma addref_refs:
  assumes "session_inv s" "0 < session_refs s a"
  shows "\<exists>s'. ctxClientAddRef s (Some a) = Some s' \<and> session_inv s' \<and> session_refs s' = (session_refs s)(a := session_refs s a + 1)"
proof -
  obtain c where c: "ss_heap s a = Some c" "session_refs s a = cx_refcount c" using session_refs_pos [OF assms(2)] by blast
  then have "ctxClientAddRef s (Some a) = Some (upd_ctx s a (c\<lparr>cx_refcount := cx_refcount c + 1\<rparr>) [])" by (simp add: ctxClientAddRef_def put_ctx_upd)
  with session_exec_inv [OF assms(1), of "OpAddRef a"] c show ?thesis by (auto simp: session_refs_upd)
qed

interpretation holder: session_holder session_inv session_refs hupd_ok hupd "\<lambda>s a. ctxClientUnref s (Some a)"
  by unfold_locales (rule hupd_safe unref_refs; assumption)+

section \<open>Disconnecting\<close>

definition pending :: "afb_context \<Rightarrow> int \<Rightarrow> string \<Rightarrow> holder_upd list" where
  "pending x now nu = (if ac_refreshing x \<and> \<not> ac_refreshed x then [HTokenNew now nu] else [])
     @ (if ac_loa_changing x \<and> \<not> ac_loa_changed x then [HSetLOA (ucast (ac_loa_out x))] else [])
     @ (if ac_closing x \<and> \<not> ac_closed x then [HClose] else [])"

lemma disconnect_run:
  assumes "ac_session x = Some a"
  shows "map_option fst (afb_context_disconnect s x now nu)
      = Option.bind (holder.updates (pending x now nu) s a) (\<lambda>t. ctxClientUnref t (Some a))"
    and "afb_context_disconnect s x now nu = Some (s', x') \<Longrightarrow> ac_session x' = None"
proof -
  show "map_option fst (afb_context_disconnect s x now nu)
      = Option.bind (holder.updates (pending x now nu) s a) (\<lambda>t. ctxClientUnref t (Some a))"
    by (cases "ac_refreshing x"; cases "ac_refreshed x"; cases "ac_loa_changing x"; cases "ac_loa_changed x";
        cases "ac_closing x"; cases "ac_closed x")
       (simp_all add: afb_context_disconnect_def pending_def assms map_option_bind o_def cong: if_cong)
  show "afb_context_disconnect s x now nu = Some (s', x') \<Longrightarrow> ac_session x' = None"
    using assms by (auto simp: afb_context_disconnect_def bind_eq_Some_conv)
qed

lemma disconnect_safe:
  assumes "session_inv s" "ac_session x = Some a" "0 < session_refs s a" "length nu = 36"
  shows "\<exists>s' x'. afb_context_disconnect s x now nu = Some (s', x') \<and> session_inv s' \<and> ac_session x' = None
    \<and> session_refs s' = (session_refs s)(a := session_refs s a - 1)"
proof -
  have "list_all hupd_ok (pending x now nu)" using assms(4) by (simp add: pending_def)
  from holder.release_safe [OF assms(1,3) this] obtain s' where
    "map_option fst (afb_context_disconnect s x now nu) = Some s'" "session_inv s'"
    "session_refs s' = (session_refs s)(a := session_refs s a - 1)"
    using disconnect_run(1) [OF assms(2)] by metis
  with disconnect_run(2) [OF assms(2)] show ?thesis by fastforce
qed

section \<open>Connecting takes one reference\<close>

lemma sweep_refs:
  assumes "ss_heap t = (\<lambda>a. Option.bind (ss_heap s a) (sweep (ss_apicount s) now))"
  shows "session_refs t = session_refs s"
  by (auto simp: session_refs_def fun_eq_iff assms sweep_def split: option.split)

lemma get_session_refs:
  assumes "session_inv s" "alloc_ok s p" "uuid_ok s nu"
    and "ctxClientGetSession s uuid now p nu = Some (s1, Inr a, created)"
  shows "session_refs s1 = (session_refs s)(a := session_refs s a + 1)"
proof -
  obtain t where t: "session_inv t" "alloc_ok t p" "uuid_ok t nu"
    and h: "ss_heap t = (\<lambda>a. Option.bind (ss_heap s a) (sweep (ss_apicount s) now))"
    and or: "(\<exists>a c u. uuid = Some u \<and> ss_heap t a = Some c \<and> cx_uuid c = u
       \<and> ctxClientGetSession s uuid now p nu =
          Some (upd_ctx t a (c\<lparr>cx_access := now, cx_refcount := cx_refcount c + 1\<rparr>) [], Inr a, False))
     \<or> (uuid_arg_ok t uuid \<and> ctxClientGetSession s uuid now p nu =
          (case new_context t uuid (ss_timeout t) now p nu of (s2, r) \<Rightarrow> Some (s2, r, True)))"
    by (rule get_session_cases [OF assms(1-3)])
  note refs = sweep_refs [OF h]
  from or show ?thesis
  proof (elim disjE exE conjE)
    fix b c u
    assume "ss_heap t b = Some c" "ctxClientGetSession s uuid now p nu =
      Some (upd_ctx t b (c\<lparr>cx_access := now, cx_refcount := cx_refcount c + 1\<rparr>) [], Inr b, False)"
    moreover from this(1) have "session_refs t b = cx_refcount c" by (simp add: session_refs_def)
    ultimately show ?thesis using assms(4) by (auto simp: session_refs_upd simp flip: refs)
  next
    assume *: "uuid_arg_ok t uuid" "ctxClientGetSession s uuid now p nu =
      (case new_context t uuid (ss_timeout t) now p nu of (s2, r) \<Rightarrow> Some (s2, r, True))"
    then have "new_context t uuid (ss_timeout t) now p nu = (s1, Inr a)"
      using assms(4) by (auto split: prod.splits)
    note n = new_context_Inr [OF t *(1) this]
    show ?thesis unfolding refs [symmetric] by (auto simp: session_refs_def fun_eq_iff n(1,2))
  qed
qed

lemma init_context_session: "init_context s (Some a) token now = Some x \<Longrightarrow> ac_session x = Some a"
  by (auto simp: init_context_def bind_eq_Some_conv Let_def split: option.splits if_splits)

lemma init_context_total: "ss_heap s a = Some c \<Longrightarrow> \<exists>x. init_context s (Some a) token now = Some x"
  by (auto simp: init_context_def ctxClientGetLOA_def ctxTokenCheck_def Let_def split: option.splits)

lemma connect_Inr:
  assumes "afb_context_connect s uuid token now p nu = Some (s1, Inr x)"
  obtains a created where "ctxClientGetSession s uuid now p nu = Some (s1, Inr a, created)" "ac_session x = Some a"
proof -
  obtain t r created where g: "ctxClientGetSession s uuid now p nu = Some (t, r, created)"
    using assms by (auto simp: afb_context_connect_def bind_eq_Some_conv)
  show thesis
  proof (cases r)
    case (Inr a)
    with g assms that init_context_session [of s1 a token now] show thesis
      by (auto simp: afb_context_connect_def bind_eq_Some_conv split: if_splits)
  qed (use g assms in \<open>simp add: afb_context_connect_def\<close>)
qed

text \<open>C12. A request takes one reference on its session when it connects and gives it back when it
  disconnects, whatever was asked in between (new token, change of level, close): the connection
  never aborts on the way, and afterwards every session has the references it had before.\<close>

theorem connect_disconnect_balanced:
  assumes "session_reach s" "alloc_ok s p" "uuid_ok s nu" "length nu' = 36"
    and "afb_context_connect s uuid token now p nu = Some (s1, Inr x)"
    and "ac_session y = ac_session x"
  shows "\<exists>s2 y'. afb_context_disconnect s1 y now' nu' = Some (s2, y') \<and> session_inv s2
    \<and> ac_session y' = None \<and> session_refs s2 = session_refs s"
proof -
  note inv = session_reach_inv [OF assms(1)]
  obtain a created where g: "ctxClientGetSession s uuid now p nu = Some (s1, Inr a, created)"
    and x: "ac_session x = Some a"
    by (rule connect_Inr [OF assms(5)])
  have "session_inv s1" using get_session_inv [OF inv assms(2,3), of uuid now] g by auto
  moreover note refs = get_session_refs [OF inv assms(2,3) g]
  moreover have "ac_session y = Some a" using x assms(6) by simp
  ultimately show ?thesis
    using disconnect_safe [of s1 y a nu' now'] assms(4) by (auto simp: fun_eq_iff)
qed

lemma demo_env: "alloc_ok demo_session (Some 8)" "uuid_ok demo_session (replicate 36 CHR ''c'')"
  by (auto simp: demo_session_def demo_store_eq alloc_ok_def uuid_ok_def demo_ctx_def demo_uuid_def ran_def
      numeral_eq_Suc)

lemma demo_connect:
  "\<exists>s1 x. afb_context_connect demo_session (Some demo_uuid) (Some ''tok'') 10 (Some 8) (replicate 36 CHR ''c'') = Some (s1, Inr x) \<and> ac_validated x"
proof -
  have "ctxStoreCleanUp demo_session 10 = Some demo_session"
    by (simp add: ctxStoreCleanUp_def cleanup_slot_def demo_session_def demo_store_eq demo_ctx_def ctxStoreTooOld_def upt_rec)
  then show ?thesis
    by (auto simp: afb_context_connect_def ctxClientGetSession_def ctxStoreSearch_def demo_session_def demo_store_eq
        demo_ctx_def put_ctx_def init_context_def ctxClientGetLOA_def ctxTokenCheck_def ctxIsActive_def demo_uuid_def)
qed

theorem connect_disconnect_balanced_witness:
  "\<exists>s1 x s2 x'. afb_context_connect demo_session (Some demo_uuid) (Some ''tok'') 10 (Some 8) (replicate 36 CHR ''c'')
      = Some (s1, Inr x) \<and> ac_validated x
    \<and> afb_context_disconnect s1 (x\<lparr>ac_closing := True\<rparr>) 11 (replicate 36 CHR ''d'') = Some (s2, x')
    \<and> session_refs s2 = session_refs demo_session"
proof -
  let ?nu = "replicate 36 CHR ''c''" and ?nu' = "replicate 36 CHR ''d''"
  obtain s1 x where 1: "afb_context_connect demo_session (Some demo_uuid) (Some ''tok'') 10 (Some 8) ?nu = Some (s1, Inr x)"
    "ac_validated x" using demo_connect by blast
  from connect_disconnect_balanced [OF demo_session_reach demo_env _ 1(1), of ?nu' "x\<lparr>ac_closing := True\<rparr>" 11] 1
  show ?thesis by auto
qed

section \<open>Level of assurance and token\<close>

definition change_loas :: "afb_context \<Rightarrow> 32 word list \<Rightarrow> afb_context" where
  "change_loas x ls = foldl (\<lambda>x l. fst (afb_context_change_loa x l)) x ls"

lemma loa_three_bits:
  fixes l :: "32 word"
  assumes "l \<le> 7"
  shows "ucast (ucast (and l 7) :: 3 word) = l"
proof -
  have "unat l < 8" using assms by (simp add: word_le_nat_alt)
  then have "unat l \<in> {0, 1, 2, 3, 4, 5, 6, 7}" by auto
  then have "l \<in> {0, 1, 2, 3, 4, 5, 6, 7}"
    by (auto simp: word_unat_eq_iff)
  then show ?thesis by auto
qed

definition accepted :: "32 word list \<Rightarrow> 32 word list" where
  "accepted ls = filter (\<lambda>l. l \<le> 7) ls"

lemma change_loas_frame [frame]:
  "ac_session (change_loas x ls) = ac_session x" "ac_validated (change_loas x ls) = ac_validated x"
  "ac_loa_in (change_loas x ls) = ac_loa_in x" "ac_refreshing (change_loas x ls) = ac_refreshing x"
  "ac_closing (change_loas x ls) = ac_closing x"
  by (induction ls rule: rev_induct) (simp_all add: change_loas_def afb_context_change_loa_def)

lemma change_loas_unvalidated: "\<not> ac_validated x \<Longrightarrow> change_loas x ls = x"
  by (induction ls rule: rev_induct) (simp_all add: change_loas_def afb_context_change_loa_def)

lemma change_loas_pending:
  assumes "ac_validated x" "\<not> ac_loa_changed x" "\<not> ac_loa_changing x"
  shows "\<not> ac_loa_changed (change_loas x ls)
    \<and> (if accepted ls = [] \<or> last (accepted ls) = ucast (ac_loa_in x) then \<not> ac_loa_changing (change_loas x ls)
       else ac_loa_changing (change_loas x ls) \<and> ucast (ac_loa_out (change_loas x ls)) = last (accepted ls))"
proof (induction ls rule: rev_induct)
  case Nil
  with assms show ?case by (simp add: change_loas_def accepted_def)
next
  case (snoc l ls)
  have *: "change_loas x (ls @ [l]) = fst (afb_context_change_loa (change_loas x ls) l)"
    by (simp add: change_loas_def)
  show ?case
  proof (cases "l \<le> 7")
    case True
    then show ?thesis
      using snoc assms unfolding *
      by (auto simp: afb_context_change_loa_def accepted_def frame loa_three_bits not_less)
  next
    case False
    then have "afb_context_change_loa (change_loas x ls) l = (change_loas x ls, False)"
      by (simp add: afb_context_change_loa_def not_le)
    with snoc False show ?thesis unfolding * by (simp add: accepted_def)
  qed
qed


text \<open>However often a reply asks for the token to send, a context renews the session token at
  most once: the second request returns the same text and changes nothing.\<close>

lemma sent_token_renews_once:
  assumes "afb_context_sent_token s x now nu = Some (s1, x1, tok)"
  shows "afb_context_sent_token s1 x1 now' nu' = Some (s1, x1, tok)
    \<and> (tok = None \<or> ac_refreshed x \<or> tok = Some nu)"
  using assms by (auto simp: afb_context_sent_token_def ctxTokenNew_def ctxClientGetToken_def put_ctx_def Let_def
      bind_eq_Some_conv split: option.splits if_splits)

definition demo_shared :: sessions where
  "demo_shared = upd_ctx demo_session 7 (demo_ctx\<lparr>cx_refcount := 2\<rparr>) []"

lemma demo_shared_reach: "session_reach demo_shared"
  by (rule reach_step [OF demo_session_reach, of "OpAddRef 7"])
     (simp_all add: demo_shared_def demo_session_def demo_ctx_def ctxClientAddRef_def put_ctx_upd numeral_2_eq_2)


section \<open>Interface: counted requests that hold a session\<close>

text \<open>
  The requests over HTTP, over a remote websocket and over D-Bus are counted objects with a context. \<open>unref\<close> gives the sessions and the request, when it is still there; the last reference disconnects the
  context.
\<close>

locale request_holder =
  fixes cnt :: "'r \<Rightarrow> int"
    and ctx :: "'r \<Rightarrow> afb_context"
    and addref :: "'r \<Rightarrow> 'r"
    and unref :: "int \<Rightarrow> string \<Rightarrow> sessions \<Rightarrow> 'r \<Rightarrow> (sessions \<times> 'r option) option"
  assumes cnt_addref: "cnt (addref r) = cnt r + 1"
    and ctx_addref: "ctx (addref r) = ctx r"
    and unref_keeps: "0 < cnt r \<Longrightarrow> unref now nu s (addref r) = Some (s, Some r)"
    and unref_disconnects: "cnt r = 1 \<Longrightarrow> unref now nu s r = map_option (\<lambda>(s', x). (s', None)) (afb_context_disconnect s (ctx r) now nu)"

sublocale request_holder \<subseteq> counted: refcounted cnt addref "\<lambda>r. Option.bind (unref now nu s r) snd" for now nu s
  by unfold_locales (auto simp: cnt_addref unref_keeps unref_disconnects map_option_case split: option.splits)

context request_holder
begin

fun drops :: "nat \<Rightarrow> int \<Rightarrow> string \<Rightarrow> sessions \<Rightarrow> 'r option \<Rightarrow> (sessions \<times> 'r option) option" where
  "drops 0 now nu s q = Some (s, q)"
| "drops (Suc n) now nu s None = None"
| "drops (Suc n) now nu s (Some r) = Option.bind (unref now nu s r) (\<lambda>(s', q). drops n now nu s' q)"

lemma ctx_addrefs: "ctx ((addref ^^ n) r) = ctx r"
  by (induction n) (simp_all add: ctx_addref)

lemma drops_balanced:
  assumes "0 < cnt r"
  shows "drops (n + k) now nu s (Some ((addref ^^ n) r)) = drops k now nu s (Some r)"
proof (induction n)
  case (Suc n)
  have "unref now nu s (addref ((addref ^^ n) r)) = Some (s, Some ((addref ^^ n) r))"
    using assms by (intro unref_keeps) (simp add: counted.cnt_addrefs)
  with Suc show ?case by simp
qed simp

text \<open>The references that were taken change nothing when they are dropped; one more gives the session back, once.\<close>

lemma session_given_back_once:
  assumes "cnt r = 1" "session_inv s" "ac_session (ctx r) = Some a" "0 < session_refs s a" "length nu = 36"
  shows "drops n now nu s (Some ((addref ^^ n) r)) = Some (s, Some r)"
    and "\<exists>s'. drops (Suc n) now nu s (Some ((addref ^^ n) r)) = Some (s', None) \<and> session_inv s'
      \<and> session_refs s' = (session_refs s)(a := session_refs s a - 1)"
proof -
  show "drops n now nu s (Some ((addref ^^ n) r)) = Some (s, Some r)"
    using drops_balanced [of r n 0] assms(1) by simp
  obtain s' x where s': "afb_context_disconnect s (ctx r) now nu = Some (s', x)" "session_inv s'"
    "session_refs s' = (session_refs s)(a := session_refs s a - 1)"
    using disconnect_safe [OF assms(2,3,4,5)] by blast
  have "drops (Suc n) now nu s (Some ((addref ^^ n) r)) = drops 1 now nu s (Some r)"
    using drops_balanced [of r n 1] assms(1) by simp
  with s' show "\<exists>s'. drops (Suc n) now nu s (Some ((addref ^^ n) r)) = Some (s', None) \<and> session_inv s'
      \<and> session_refs s' = (session_refs s)(a := session_refs s a - 1)"
    by (simp add: unref_disconnects assms(1))
qed

end

end
