(* ===== verification/C_Strings.thy ===== *)
theory C_Strings
  imports Afb_Prelude "HOL-Library.List_Lexorder"
begin

text \<open>
  C strings and the functions of \<open>string.h\<close> and \<open>strings.h\<close> the program calls. A C string is the
  list of its characters before the final NUL; reading at its length gives the NUL (\<open>cat\<close>).
  Comparison is on bytes, case-insensitive comparison in the C locale.
\<close>

definition NUL :: char where "NUL = CHR 0x00"

definition cat :: "string \<Rightarrow> nat \<Rightarrow> char" where
  "cat s i = (if i < length s then s ! i else NUL)"

definition is_cstring :: "string \<Rightarrow> bool" where
  "is_cstring s \<longleftrightarrow> NUL \<notin> set s"

lemma cat_simps [simp]: "cat [] i = NUL" "cat (c # s) 0 = c" "cat (c # s) (Suc i) = cat s i"
  by (simp_all add: cat_def)

lemma cat_append: "cat (s @ t) i = (if i < length s then s ! i else cat t (i - length s))"
  by (auto simp: cat_def nth_append)

lemma cat_eq_NUL: "is_cstring s \<Longrightarrow> cat s i = NUL \<longleftrightarrow> length s \<le> i"
  by (auto simp: cat_def is_cstring_def not_le dest: nth_mem)

definition byte_of :: "char \<Rightarrow> nat" where "byte_of c = of_char c"

lemma byte_of_eq [simp]: "byte_of c = byte_of d \<longleftrightarrow> c = d"
  by (simp add: byte_of_def)

lemma byte_of_less: "byte_of c < 256"
  by (simp add: byte_of_def of_char_def horner_sum_of_bool_2_less [where ?bs = "[_,_,_,_,_,_,_,_]", simplified])

definition to_lower :: "char \<Rightarrow> char" where
  "to_lower c = (if 65 \<le> byte_of c \<and> byte_of c \<le> 90 then char_of (byte_of c + 32) else c)"

section \<open>Case-insensitive comparison\<close>

fun strcasecmp :: "string \<Rightarrow> string \<Rightarrow> int" where
  "strcasecmp [] [] = 0"
| "strcasecmp [] (d # t) = - int (byte_of (to_lower d))"
| "strcasecmp (c # s) [] = int (byte_of (to_lower c))"
| "strcasecmp (c # s) (d # t) =
     (if to_lower c = to_lower d then strcasecmp s t
      else int (byte_of (to_lower c)) - int (byte_of (to_lower d)))"

definition strncasecmp :: "string \<Rightarrow> string \<Rightarrow> nat \<Rightarrow> int" where
  "strncasecmp s t n = strcasecmp (take n s) (take n t)"

definition casekey :: "string \<Rightarrow> nat list" where
  "casekey s = map (\<lambda>c. byte_of (to_lower c)) s"

lemma length_casekey [simp]: "length (casekey s) = length s"
  by (simp add: casekey_def)

lemma take_casekey: "casekey (take n s) = take n (casekey s)"
  by (simp add: casekey_def take_map)

lemma to_lower_NUL: "to_lower c = NUL \<Longrightarrow> c = NUL"
  by (cases "65 \<le> byte_of c \<and> byte_of c \<le> 90")
     (auto simp: to_lower_def NUL_def byte_of_def dest: arg_cong [where f = "of_char :: char \<Rightarrow> nat"])

lemma byte_of_NUL [simp]: "byte_of NUL = 0"
  by (simp add: NUL_def byte_of_def)

lemma lower_pos: "c \<noteq> NUL \<Longrightarrow> 0 < byte_of (to_lower c)"
  using to_lower_NUL [of c] byte_of_eq [of "to_lower c" NUL] by auto

lemma is_cstring_Cons [simp]: "is_cstring (c # s) \<longleftrightarrow> c \<noteq> NUL \<and> is_cstring s"
  by (auto simp: is_cstring_def)

lemma is_cstring_Nil [simp]: "is_cstring []"
  by (simp add: is_cstring_def)

lemma is_cstring_append [simp]: "is_cstring (s @ t) \<longleftrightarrow> is_cstring s \<and> is_cstring t"
  by (auto simp: is_cstring_def)

lemma is_cstring_take: "is_cstring s \<Longrightarrow> is_cstring (take n s)"
  by (auto simp: is_cstring_def dest: in_set_takeD)

lemma is_cstring_drop: "is_cstring s \<Longrightarrow> is_cstring (drop n s)"
  by (auto simp: is_cstring_def dest: in_set_dropD)

lemma is_cstring_dropWhile: "is_cstring s \<Longrightarrow> is_cstring (dropWhile p s)"
  by (auto simp: is_cstring_def dest: set_dropWhileD)

lemma strcasecmp_order:
  "is_cstring s \<Longrightarrow> is_cstring t \<Longrightarrow>
    (strcasecmp s t = 0 \<longleftrightarrow> casekey s = casekey t) \<and> (strcasecmp s t < 0 \<longleftrightarrow> casekey s < casekey t)"
  by (induction s t rule: strcasecmp.induct) (auto simp: casekey_def dest: lower_pos)

lemma strcasecmp_eq_0: "is_cstring s \<Longrightarrow> is_cstring t \<Longrightarrow> strcasecmp s t = 0 \<longleftrightarrow> casekey s = casekey t"
  using strcasecmp_order by blast

lemma strcasecmp_less_0: "is_cstring s \<Longrightarrow> is_cstring t \<Longrightarrow> strcasecmp s t < 0 \<longleftrightarrow> casekey s < casekey t"
  using strcasecmp_order by blast

lemma strcasecmp_le_0: "is_cstring s \<Longrightarrow> is_cstring t \<Longrightarrow> strcasecmp s t \<le> 0 \<longleftrightarrow> casekey s \<le> casekey t"
  using strcasecmp_order [of s t] by (auto simp: le_less)

lemma strncasecmp_eq_0:
  "is_cstring s \<Longrightarrow> is_cstring t \<Longrightarrow> strncasecmp s t n = 0 \<longleftrightarrow> take n (casekey s) = take n (casekey t)"
  by (simp add: strncasecmp_def strcasecmp_eq_0 is_cstring_take take_casekey)

lemma strncasecmp_less_0:
  "is_cstring s \<Longrightarrow> is_cstring t \<Longrightarrow> strncasecmp s t n < 0 \<longleftrightarrow> take n (casekey s) < take n (casekey t)"
  by (simp add: strncasecmp_def strcasecmp_less_0 is_cstring_take take_casekey)

lemma casekey_inj_length: "casekey s = casekey t \<Longrightarrow> length s = length t"
  by (metis length_casekey)

section \<open>Scanning\<close>

text \<open>\<open>strspn\<close> and \<open>strcspn\<close> for a one-character set.\<close>

definition strspn1 :: "char \<Rightarrow> string \<Rightarrow> nat" where
  "strspn1 c s = length (takeWhile (\<lambda>x. x = c) s)"

definition strcspn1 :: "char \<Rightarrow> string \<Rightarrow> nat" where
  "strcspn1 c s = length (takeWhile (\<lambda>x. x \<noteq> c) s)"

section \<open>Decimal numbers\<close>

text \<open>\<open>%d\<close> for a number that is not negative.\<close>

fun dec :: "nat \<Rightarrow> string" where
  "dec n = (if n < 10 then [char_of (48 + n)] else dec (n div 10) @ [char_of (48 + n mod 10)])"

declare dec.simps [simp del]

definition dec_int :: "int \<Rightarrow> string" where
  "dec_int i = (if i < 0 then CHR ''-'' # dec (nat (- i)) else dec (nat i))"

fun undec :: "string \<Rightarrow> nat" where
  "undec s = foldl (\<lambda>n c. 10 * n + (of_char c - 48)) 0 s"

lemma undec_dec: "undec (dec n) = n"
proof (induction n rule: dec.induct)
  case (1 n)
  have d: "of_char (char_of (48 + k :: nat)) = 48 + k" if "k < 10" for k :: nat
    using that by (simp add: of_char_of)
  show ?case
  proof (cases "n < 10")
    case True
    with d [of n] show ?thesis by (simp add: dec.simps [of n])
  next
    case False
    with 1 d [of "n mod 10"] show ?thesis by (simp add: dec.simps [of n])
  qed
qed

lemma dec_inject: "dec m = dec n \<longleftrightarrow> m = n"
  using undec_dec by metis

lemma length_dec: "0 < k \<Longrightarrow> n < 10 ^ k \<Longrightarrow> length (dec n) \<le> k"
proof (induction n arbitrary: k rule: dec.induct)
  case (1 n)
  show ?case
  proof (cases "n < 10")
    case True
    with 1 show ?thesis by (simp add: dec.simps [of n])
  next
    case False
    then obtain k' where k: "k = Suc k'" "0 < k'" using 1 by (cases k; cases "k - 1") auto
    have "n div 10 < 10 ^ k'" using 1(3) k(1) by (simp add: less_mult_imp_div_less mult.commute)
    from 1(1) [OF False k(2) this] k(1) False show ?thesis by (simp add: dec.simps [of n])
  qed
qed

end
