(* ===== verification/Apis.thy ===== *)
theory Apis
  imports C_Strings
begin

text \<open>
  The table of APIs of the daemon, \<^verbatim>\<open>src/src/afb-apis.c\<close>.

  The callbacks of an API (\<open>call\<close>, \<open>service_start\<close>) belong to bindings; they are parameters.
  A call is described by the table entry it reaches and the index stored in the context.
\<close>

record 'api api_desc =
  ad_api :: 'api
  ad_name :: string
  ad_namelen :: nat

type_synonym 'api apis = "'api api_desc list"

definition afb_apis_count :: "'api apis \<Rightarrow> nat" where
  "afb_apis_count apis = length apis"

text \<open>The \<open>switch\<close> of the validity check: the default label leaves it for \<open>c > ' '\<close> and falls
  into the refused characters otherwise.\<close>

definition api_char_ok :: "char \<Rightarrow> bool" where
  "api_char_ok c =
     (if byte_of c < 128 then
        (if c \<in> set [CHR 0x22, CHR ''#'', CHR ''%'', CHR ''&'', CHR 0x27, CHR ''/'', CHR ''?'', CHR 0x60, CHR 0x5C, CHR 0x7F]
         then False else byte_of c > 32)
      else True)"

fun api_chars_ok :: "string \<Rightarrow> bool" where
  "api_chars_ok [] \<longleftrightarrow> True"
| "api_chars_ok (c # s) \<longleftrightarrow> (if api_char_ok c then api_chars_ok s else False)"

definition afb_apis_is_valid_api_name :: "string \<Rightarrow> bool" where
  "afb_apis_is_valid_api_name name = (if name = [] then False else api_chars_ok name)"

definition afb_apis_add :: "'api apis \<Rightarrow> string \<Rightarrow> 'api \<Rightarrow> bool \<Rightarrow> 'api apis \<times> int" where
  "afb_apis_add apis name api realloc_ok =
     (if \<not> afb_apis_is_valid_api_name name then (apis, -1)
      else if \<exists>d \<in> set apis. strcasecmp (ad_name d) name = 0 then (apis, -1)
      else if \<not> realloc_ok then (apis, -1)
      else (apis @ [\<lparr>ad_api = api, ad_name = name, ad_namelen = length name\<rparr>], 0))"

definition api_matches :: "string \<Rightarrow> nat \<Rightarrow> 'api api_desc \<Rightarrow> bool" where
  "api_matches api lenapi d \<longleftrightarrow> ad_namelen d = lenapi \<and> strncasecmp (ad_name d) api lenapi = 0"

text \<open>\<open>Some (i, a)\<close>: \<open>context->api_index = i\<close> and the \<open>call\<close> of \<open>a\<close> is made; \<open>None\<close>: the request
  fails with \<open>api not found\<close>.\<close>

definition afb_apis_call :: "'api apis \<Rightarrow> string \<Rightarrow> nat \<Rightarrow> (nat \<times> 'api) option" where
  "afb_apis_call apis api lenapi =
     map_option (\<lambda>i. (i, ad_api (apis ! i))) (first_index (api_matches api lenapi) apis)"

definition afb_apis_call_full :: "'api apis \<Rightarrow> string \<Rightarrow> (nat \<times> 'api) option" where
  "afb_apis_call_full apis api = afb_apis_call apis api (length api)"

definition afb_apis_start_service ::
  "('api \<Rightarrow> int \<Rightarrow> int \<Rightarrow> int) \<Rightarrow> 'api apis \<Rightarrow> string \<Rightarrow> int \<Rightarrow> int \<Rightarrow> int" where
  "afb_apis_start_service service_start apis api share_session onneed =
     (case first_index (\<lambda>d. strcasecmp (ad_name d) api = 0) apis of
        Some i \<Rightarrow> service_start (ad_api (apis ! i)) share_session onneed
      | None \<Rightarrow> -1)"

text \<open>The list returned with the status is the calls made, in order.\<close>

fun afb_apis_start_all_services ::
  "('api \<Rightarrow> int \<Rightarrow> int \<Rightarrow> int) \<Rightarrow> 'api apis \<Rightarrow> int \<Rightarrow> 'api list \<times> int" where
  "afb_apis_start_all_services service_start [] share_session = ([], 0)"
| "afb_apis_start_all_services service_start (d # ds) share_session =
     (let rc = service_start (ad_api d) share_session 1
      in if rc < 0 then ([ad_api d], rc)
         else let (calls, r) = afb_apis_start_all_services service_start ds share_session
              in (ad_api d # calls, r))"

section \<open>The table invariant\<close>

definition api_keys :: "'api apis \<Rightarrow> nat list list" where
  "api_keys apis = map (\<lambda>d. casekey (ad_name d)) apis"

definition apis_inv :: "'api apis \<Rightarrow> bool" where
  "apis_inv apis \<longleftrightarrow> (\<forall>d \<in> set apis. afb_apis_is_valid_api_name (ad_name d) \<and> is_cstring (ad_name d)
       \<and> ad_namelen d = length (ad_name d))
     \<and> distinct (api_keys apis)"

lemma apis_inv_Nil [simp]: "apis_inv []"
  by (simp add: apis_inv_def api_keys_def)

lemma in_api_keys: "k \<in> set (api_keys apis) \<longleftrightarrow> (\<exists>d \<in> set apis. casekey (ad_name d) = k)"
  by (auto simp: api_keys_def)

lemma api_keys_append [simp]: "api_keys (s @ t) = api_keys s @ api_keys t"
  by (simp add: api_keys_def)

lemma api_chars_ok_iff: "api_chars_ok s \<longleftrightarrow> list_all api_char_ok s"
  by (induction s) auto

lemma valid_is_cstring: "afb_apis_is_valid_api_name s \<Longrightarrow> is_cstring s"
proof -
  have "\<not> api_char_ok NUL" by (simp add: api_char_ok_def)
  then show "afb_apis_is_valid_api_name s \<Longrightarrow> is_cstring s"
    unfolding afb_apis_is_valid_api_name_def api_chars_ok_iff is_cstring_def list_all_iff by metis
qed

lemma apis_add_cases:
  assumes "apis_inv apis" "is_cstring name"
  shows "afb_apis_add apis name api ok =
    (if afb_apis_is_valid_api_name name \<and> casekey name \<notin> set (api_keys apis) \<and> ok
     then (apis @ [\<lparr>ad_api = api, ad_name = name, ad_namelen = length name\<rparr>], 0) else (apis, -1))"
proof -
  have "(\<exists>d \<in> set apis. strcasecmp (ad_name d) name = 0) \<longleftrightarrow> casekey name \<in> set (api_keys apis)"
    using assms by (simp add: in_api_keys apis_inv_def strcasecmp_eq_0)
  then show ?thesis by (simp add: afb_apis_add_def)
qed

lemma apis_inv_add [keeps_inv]:
  "apis_inv apis \<Longrightarrow> is_cstring name \<Longrightarrow> apis_inv (fst (afb_apis_add apis name api ok))"
  by (simp add: apis_add_cases) (auto simp: apis_inv_def api_keys_def)

lemma api_matches_iff:
  assumes "apis_inv apis" "d \<in> set apis" "is_cstring api" "n \<le> length api"
  shows "api_matches api n d \<longleftrightarrow> casekey (ad_name d) = casekey (take n api)"
proof -
  have d: "ad_namelen d = length (ad_name d)" "is_cstring (ad_name d)" using assms by (auto simp: apis_inv_def)
  show ?thesis
  proof (cases "length (ad_name d) = n")
    case True
    with d assms show ?thesis by (auto simp: api_matches_def strncasecmp_eq_0 take_casekey)
  next
    case False
    with d assms(4) casekey_inj_length [of "ad_name d" "take n api"] show ?thesis
      by (auto simp: api_matches_def)
  qed
qed

text \<open>The entry found is the only one with that name.\<close>

lemma apis_call_iff:
  assumes "apis_inv apis" "is_cstring api" "n \<le> length api"
  shows "afb_apis_call apis api n = Some (i, a) \<longleftrightarrow>
    i < length apis \<and> a = ad_api (apis ! i) \<and> api_keys apis ! i = casekey (take n api)"
proof
  have m: "api_matches api n (apis ! j) \<longleftrightarrow> api_keys apis ! j = casekey (take n api)" if "j < length apis" for j
    using api_matches_iff [OF assms(1) nth_mem [OF that] assms(2,3)] that by (simp add: api_keys_def)
  show "i < length apis \<and> a = ad_api (apis ! i) \<and> api_keys apis ! i = casekey (take n api)"
    if "afb_apis_call apis api n = Some (i, a)"
  proof -
    have f: "first_index (api_matches api n) apis = Some i" and a: "a = ad_api (apis ! i)"
      using that by (auto simp: afb_apis_call_def)
    from first_index_Some [OF f] m [of i] a show ?thesis by blast
  qed
  show "afb_apis_call apis api n = Some (i, a)"
    if "i < length apis \<and> a = ad_api (apis ! i) \<and> api_keys apis ! i = casekey (take n api)"
  proof -
    have d: "distinct (api_keys apis)" "length (api_keys apis) = length apis"
      using assms(1) by (simp_all add: apis_inv_def api_keys_def)
    have "first_index (api_matches api n) apis = Some i"
    proof (rule first_index_unique)
      fix j assume "j < length apis" "api_matches api n (apis ! j)"
      with m [of j] d that show "j = i" using nth_eq_iff_index_eq [OF d(1), of j i] by simp
    qed (use that m in simp_all)
    with that show ?thesis by (simp add: afb_apis_call_def)
  qed
qed

section \<open>Registrations in sequence\<close>

definition register :: "'api apis \<Rightarrow> string \<times> 'api \<times> bool \<Rightarrow> 'api apis" where
  "register t r = fst (afb_apis_add t (fst r) (fst (snd r)) (snd (snd r)))"

definition register_all :: "'api apis \<Rightarrow> (string \<times> 'api \<times> bool) list \<Rightarrow> 'api apis" where
  "register_all t rs = foldl register t rs"

lemma register_all_inv:
  "apis_inv t \<Longrightarrow> \<forall>r \<in> set rs. is_cstring (fst r) \<Longrightarrow> apis_inv (register_all t rs)"
  by (induction rs arbitrary: t) (auto simp: register_all_def register_def apis_inv_add)

lemma register_all_prefix: "\<exists>more. register_all t rs = t @ more"
proof (induction rs rule: rev_induct)
  case (snoc r rs)
  then show ?case by (auto simp: register_all_def register_def afb_apis_add_def)
qed (simp add: register_all_def)

text \<open>C24. Once an API is registered, a call that names it in any mix of cases reaches exactly this API,
  under the index it was given at registration, whatever is registered (or refused) before and after;
  the index is what selects the binding's slot in the session.\<close>

theorem api_dispatch_stable:
  assumes "\<forall>r \<in> set before. is_cstring (fst r)" "\<forall>r \<in> set after. is_cstring (fst r)"
    and "afb_apis_add (register_all [] before) name api ok = (t, 0)" "is_cstring name"
    and "is_cstring q" "n \<le> length q" "casekey (take n q) = casekey name"
  shows "afb_apis_call (register_all t after) q n = Some (afb_apis_count (register_all [] before), api)"
proof -
  let ?b = "register_all [] before"
  have b: "apis_inv ?b" by (rule register_all_inv) (use assms in auto)
  have t: "t = ?b @ [\<lparr>ad_api = api, ad_name = name, ad_namelen = length name\<rparr>]"
    using assms(3) apis_add_cases [OF b assms(4), of api ok] by (auto split: if_splits)
  have "apis_inv t" using apis_inv_add [OF b assms(4), of api ok] assms(3) by simp
  then have inv: "apis_inv (register_all t after)" by (rule register_all_inv [OF _ assms(2)])
  obtain more where "register_all t after = t @ more" using register_all_prefix by blast
  with apis_call_iff [OF inv assms(5,6)] t assms(7) show ?thesis
    by (simp add: afb_apis_count_def nth_append api_keys_def)
qed

theorem api_dispatch_stable_witness:
  "let before = [(''hello'', 1::nat, True), (''bad name'', 2, True)]; after = [(''HELLO'', 4, True), (''x'', 5, True)];
       t = fst (afb_apis_add (register_all [] before) ''Auth'' 3 True)
   in afb_apis_call (register_all t after) ''AUTH/login'' 4 = Some (1, 3)"
proof -
  let ?before = "[(''hello'', 1::nat, True), (''bad name'', 2, True)]" and ?after = "[(''HELLO'', 4::nat, True), (''x'', 5, True)]"
  let ?t = "fst (afb_apis_add (register_all [] ?before) ''Auth'' 3 True)"
  have b: "register_all [] ?before = [\<lparr>ad_api = 1, ad_name = ''hello'', ad_namelen = 5\<rparr>]"
    by (simp add: register_all_def register_def afb_apis_add_def afb_apis_is_valid_api_name_def api_char_ok_def byte_of_def
        to_lower_def)
  have 1: "\<forall>r \<in> set ?before. is_cstring (fst r)" "\<forall>r \<in> set ?after. is_cstring (fst r)"
    "is_cstring ''Auth''" "is_cstring ''AUTH/login''" "4 \<le> length ''AUTH/login''"
    "casekey (take 4 ''AUTH/login'') = casekey ''Auth''"
    by (simp_all add: NUL_def casekey_def to_lower_def byte_of_def)
  have 2: "afb_apis_add (register_all [] ?before) ''Auth'' 3 True = (?t, 0)"
    unfolding b by (simp add: afb_apis_add_def afb_apis_is_valid_api_name_def api_char_ok_def byte_of_def to_lower_def)
  show ?thesis
    unfolding Let_def using api_dispatch_stable [OF 1(1,2) 2 1(3-6)] unfolding b by (simp add: afb_apis_count_def)
qed

text \<open>A call that names no registered API is refused, and two registered APIs never share a name up
  to case: the second registration is refused and the table is unchanged.\<close>

lemma api_names_unique:
  assumes "\<forall>r \<in> set rs. is_cstring (fst r)" "is_cstring q" "n \<le> length q"
  shows "distinct (api_keys (register_all [] rs))
    \<and> (afb_apis_call (register_all [] rs) q n = None
         \<longleftrightarrow> casekey (take n q) \<notin> set (api_keys (register_all [] rs)))
    \<and> (casekey q \<in> set (api_keys (register_all [] rs))
         \<longrightarrow> afb_apis_add (register_all [] rs) q api ok = (register_all [] rs, -1))"
proof -
  let ?t = "register_all [] rs"
  have inv: "apis_inv ?t" by (rule register_all_inv) (use assms in auto)
  have "afb_apis_call ?t q n = None \<longleftrightarrow> (\<forall>i a. afb_apis_call ?t q n \<noteq> Some (i, a))"
    by (cases "afb_apis_call ?t q n") auto
  also have "\<dots> \<longleftrightarrow> casekey (take n q) \<notin> set (api_keys ?t)"
    unfolding apis_call_iff [OF inv assms(2,3)] in_set_conv_nth by (metis api_keys_def length_map)
  finally show ?thesis using inv apis_add_cases [OF inv assms(2), of api ok] by (simp add: apis_inv_def)
qed

text \<open>Starting all services calls them in table order up to and including the first that fails.\<close>

lemma start_all_services_spec:
  "afb_apis_start_all_services f apis share =
    (let ds = map ad_api apis; good = takeWhile (\<lambda>a. \<not> f a share 1 < 0) ds; rest = dropWhile (\<lambda>a. \<not> f a share 1 < 0) ds
     in (good @ take 1 rest, case rest of [] \<Rightarrow> 0 | a # _ \<Rightarrow> f a share 1))"
  by (induction apis) (auto simp: Let_def split: prod.splits list.splits)

end
