(* ===== verification/Locale_Path.thy ===== *)
theory Locale_Path
  imports C_Strings
begin

text \<open>
  Path validation: \<open>validsubpath\<close> and \<open>normalsubpath\<close> of \<^verbatim>\<open>src/src/locale-root.c\<close> and the copy of
  \<open>validsubpath\<close> in \<^verbatim>\<open>src/src/afb-hreq.c\<close>. The scanners read the C string from left to right; the
  remaining suffix and the level \<open>l\<close> are the state of the loop. Both are proved to accept exactly the
  paths none of whose prefixes climbs above the starting directory (\<open>stays_inside\<close>).
\<close>

abbreviation slash :: char where "slash \<equiv> CHR ''/''"
abbreviation dot :: char where "dot \<equiv> CHR ''.''"

section \<open>The scanner of locale-root.c\<close>

text \<open>\<open>rest\<close> is the suffix at \<open>subpath + i\<close>. The label \<open>default\<close>, which the case of a dot also falls
  into, skips to the next slash or the end and enters one directory.\<close>

function validsubpath_loop :: "string \<Rightarrow> int \<Rightarrow> int" where
  "validsubpath_loop [] l = l"
| "validsubpath_loop (c # rest) l =
     (if c = dot then
        (case rest of
           [] \<Rightarrow> validsubpath_loop [] l
         | d # rest1 \<Rightarrow>
             if d = slash then validsubpath_loop rest1 l
             else if d = dot then
               (case rest1 of
                  [] \<Rightarrow> validsubpath_loop [] (l - 1)
                | e # rest2 \<Rightarrow>
                    if e = slash then validsubpath_loop rest2 (l - 1)
                    else validsubpath_loop (dropWhile (\<lambda>x. x \<noteq> slash) rest2) (if l \<ge> 0 then l + 1 else l))
             else validsubpath_loop (dropWhile (\<lambda>x. x \<noteq> slash) rest1) (if l \<ge> 0 then l + 1 else l))
      else if c = slash then validsubpath_loop rest l
      else validsubpath_loop (dropWhile (\<lambda>x. x \<noteq> slash) rest) (if l \<ge> 0 then l + 1 else l))"
  by pat_completeness auto
termination
  by (relation "measure (\<lambda>(s, l). length s)") (auto simp: less_Suc_eq_le intro: order.trans [OF length_dropWhile_le])

definition validsubpath :: "string \<Rightarrow> bool" where
  "validsubpath subpath = (if cat subpath 0 = slash then False else validsubpath_loop subpath 0 \<ge> 0)"

definition normalsubpath :: "string \<Rightarrow> string option" where
  "normalsubpath subpath =
     (let s = dropWhile (\<lambda>c. c = slash) subpath in if validsubpath s then Some s else None)"

section \<open>The scanner of afb-hreq.c\<close>

function hreq_validsubpath_loop :: "string \<Rightarrow> int \<Rightarrow> bool" where
  "hreq_validsubpath_loop [] l = True"
| "hreq_validsubpath_loop (c # rest) l =
     (if c = dot then
        (case rest of
           [] \<Rightarrow> hreq_validsubpath_loop [] l
         | d # rest1 \<Rightarrow>
             if d = slash then hreq_validsubpath_loop rest1 l
             else if d = dot then
               (case rest1 of
                  [] \<Rightarrow> if l - 1 < 0 then False else hreq_validsubpath_loop [] (l - 1)
                | e # rest2 \<Rightarrow>
                    if e = slash then if l - 1 < 0 then False else hreq_validsubpath_loop rest2 (l - 1)
                    else hreq_validsubpath_loop (dropWhile (\<lambda>x. x \<noteq> slash) rest2) (l + 1))
             else hreq_validsubpath_loop (dropWhile (\<lambda>x. x \<noteq> slash) rest1) (l + 1))
      else if c = slash then hreq_validsubpath_loop rest l
      else hreq_validsubpath_loop (dropWhile (\<lambda>x. x \<noteq> slash) rest) (l + 1))"
  by pat_completeness auto
termination
  by (relation "measure (\<lambda>(s, l). length s)") (auto simp: less_Suc_eq_le intro: order.trans [OF length_dropWhile_le])

definition hreq_validsubpath :: "string \<Rightarrow> bool" where
  "hreq_validsubpath subpath = hreq_validsubpath_loop subpath 0"

declare validsubpath_loop.simps(2) [simp del] hreq_validsubpath_loop.simps(2) [simp del]

section \<open>The specification: walking the components\<close>

fun components :: "string \<Rightarrow> string list" where
  "components [] = [[]]"
| "components (c # s) = (if c = slash then [] # components s
     else (c # hd (components s)) # tl (components s))"

definition comp_step :: "string \<Rightarrow> int \<Rightarrow> int" where
  "comp_step w l = (if w = [] \<or> w = [dot] then l else if w = [dot, dot] then l - 1 else l + 1)"

fun stays_inside :: "string list \<Rightarrow> int \<Rightarrow> bool" where
  "stays_inside [] l \<longleftrightarrow> 0 \<le> l"
| "stays_inside (w # ws) l \<longleftrightarrow> 0 \<le> l \<and> stays_inside ws (comp_step w l)"

lemma components_nonempty [simp]: "components s \<noteq> []"
  by (induction s) auto

lemma components_noslash: "slash \<notin> set s \<Longrightarrow> components s = [s]"
  by (induction s) auto

lemma components_app: "slash \<notin> set w \<Longrightarrow> components (w @ slash # s) = w # components s"
  by (induction w) auto

text \<open>One component at a time: the word up to the next slash, and what follows.\<close>

lemma components_cases:
  obtains (last) "components s = [s]" "slash \<notin> set s"
  | (more) w t where "s = w @ slash # t" "slash \<notin> set w" "components s = w # components t"
proof (cases "slash \<in> set s")
  case True
  then obtain w t where "s = w @ slash # t" "slash \<notin> set w" by (meson split_list_first)
  with components_app more show thesis by blast
qed (use components_noslash last in blast)

lemma dropWhile_noslash [simp]: "slash \<notin> set w \<Longrightarrow> dropWhile (\<lambda>x. x \<noteq> slash) (w @ slash # t) = slash # t"
  by (induction w) auto

lemma dropWhile_noslash_all [simp]: "slash \<notin> set w \<Longrightarrow> dropWhile (\<lambda>x. x \<noteq> slash) w = []"
  by (induction w) auto

text \<open>What the scanner does over one component followed by a slash, and over the last one.\<close>

lemma scan_component:
  assumes "slash \<notin> set w" "l \<ge> 0"
  shows "validsubpath_loop (w @ slash # t) l = validsubpath_loop t (comp_step w l)"
    and "validsubpath_loop w l = comp_step w l"
  using assms by (cases w; cases "tl w"; cases "tl (tl w)";
      force simp: validsubpath_loop.simps(2) comp_step_def)+

lemma scan_negative: "l < 0 \<Longrightarrow> validsubpath_loop s l < 0"
proof (induction s l rule: validsubpath_loop.induct)
  case (2 c rest l)
  then show ?case by (subst validsubpath_loop.simps(2)) (auto split: list.splits)
qed simp

lemma scan_spec: "l \<ge> 0 \<Longrightarrow> validsubpath_loop s l \<ge> 0 \<longleftrightarrow> stays_inside (components s) l"
proof (induction "length s" arbitrary: s l rule: less_induct)
  case less
  show ?case
  proof (cases s rule: components_cases)
    case last
    then show ?thesis using scan_component(2) [OF _ less.prems] less.prems by auto
  next
    case (more w t)
    have eq: "validsubpath_loop s l = validsubpath_loop t (comp_step w l)"
      using more scan_component(1) [OF _ less.prems] by simp
    show ?thesis
    proof (cases "comp_step w l \<ge> 0")
      case True
      with less.hyps [of t] more eq less.prems show ?thesis by simp
    next
      case False
      have "\<not> stays_inside ws (comp_step w l)" for ws using False by (cases ws) auto
      with eq scan_negative [of "comp_step w l" t] False more less.prems show ?thesis by auto
    qed
  qed
qed

lemma hreq_scan_component:
  assumes "slash \<notin> set w" "l \<ge> 0"
  shows "hreq_validsubpath_loop (w @ slash # t) l \<longleftrightarrow> comp_step w l \<ge> 0 \<and> hreq_validsubpath_loop t (comp_step w l)"
    and "hreq_validsubpath_loop w l \<longleftrightarrow> comp_step w l \<ge> 0"
  using assms by (cases w; cases "tl w"; cases "tl (tl w)";
      force simp: hreq_validsubpath_loop.simps(2) comp_step_def)+

lemma hreq_scan_spec: "l \<ge> 0 \<Longrightarrow> hreq_validsubpath_loop s l \<longleftrightarrow> stays_inside (components s) l"
proof (induction "length s" arbitrary: s l rule: less_induct)
  case less
  show ?case
  proof (cases s rule: components_cases)
    case last
    then show ?thesis using hreq_scan_component(2) [OF _ less.prems] less.prems by auto
  next
    case (more w t)
    have eq: "hreq_validsubpath_loop s l \<longleftrightarrow> comp_step w l \<ge> 0 \<and> hreq_validsubpath_loop t (comp_step w l)"
      using more hreq_scan_component(1) [OF _ less.prems] by simp
    have neg: "comp_step w l < 0 \<Longrightarrow> \<not> stays_inside (components t) (comp_step w l)"
      by (cases "components t") auto
    show ?thesis
      using less.hyps [of t "comp_step w l"] more eq less.prems neg by (cases "comp_step w l \<ge> 0") auto
  qed
qed

text \<open>The level reached after some components: directories entered minus \<open>..\<close> taken.\<close>

definition is_name :: "string \<Rightarrow> bool" where
  "is_name w \<longleftrightarrow> w \<noteq> '''' \<and> w \<noteq> ''.'' \<and> w \<noteq> ''..''"

definition path_level :: "string list \<Rightarrow> int" where
  "path_level ws = int (length (filter is_name ws)) - int (length (filter (\<lambda>w. w = ''..'') ws))"

lemma comp_step_level: "comp_step w l = l + path_level [w]"
  by (auto simp: comp_step_def path_level_def is_name_def)

lemma path_level_Cons: "path_level (w # ws) = path_level [w] + path_level ws"
  by (simp add: path_level_def)

lemma stays_inside_level: "stays_inside ws l \<longleftrightarrow> (\<forall>n. 0 \<le> l + path_level (take n ws))"
proof (induction ws arbitrary: l)
  case Nil
  then show ?case by (simp add: path_level_def)
next
  case (Cons w ws)
  have "(\<forall>n. 0 \<le> l + path_level (take n (w # ws)))
      \<longleftrightarrow> 0 \<le> l + path_level [] \<and> (\<forall>n. 0 \<le> l + path_level (take (Suc n) (w # ws)))"
    by (metis not0_implies_Suc take0)
  also have "\<dots> \<longleftrightarrow> 0 \<le> l \<and> (\<forall>n. 0 \<le> (l + path_level [w]) + path_level (take n ws))"
  proof -
    have "path_level (w # take n ws) = path_level [w] + path_level (take n ws)" for n by (rule path_level_Cons)
    moreover have "path_level [] = 0" by (simp add: path_level_def)
    ultimately show ?thesis by (simp only: take_Suc_Cons add.assoc add_0_right)
  qed
  finally show ?case by (simp add: Cons.IH comp_step_level)
qed

text \<open>C25. The path check of the localisation layer accepts a path exactly when it is relative and no
  prefix of its components takes more \<open>..\<close> than it entered directories, so an accepted path never
  leaves the directory it is resolved in; the check of the HTTP layer accepts the same component
  sequences, and normalisation returns the path without its leading slashes when it is accepted.\<close>

theorem path_checks_stay_inside:
  "(validsubpath s \<longleftrightarrow> cat s 0 \<noteq> slash \<and> (\<forall>n. 0 \<le> path_level (take n (components s))))
   \<and> (hreq_validsubpath s \<longleftrightarrow> (\<forall>n. 0 \<le> path_level (take n (components s))))
   \<and> (normalsubpath s = (if \<forall>n. 0 \<le> path_level (take n (components (dropWhile (\<lambda>c. c = slash) s)))
        then Some (dropWhile (\<lambda>c. c = slash) s) else None))"
proof -
  have v: "validsubpath t \<longleftrightarrow> cat t 0 \<noteq> slash \<and> (\<forall>n. 0 \<le> path_level (take n (components t)))" for t
    using scan_spec [of 0 t] by (simp add: validsubpath_def stays_inside_level)
  have "cat (dropWhile (\<lambda>c. c = slash) s) 0 \<noteq> slash"
    by (induction s) (simp_all add: NUL_def)
  with v show ?thesis
    using hreq_scan_spec [of 0 s] unfolding hreq_validsubpath_def normalsubpath_def Let_def stays_inside_level by simp
qed

lemma validsubpath_inside: "validsubpath s \<Longrightarrow> stays_inside (components s) 0"
  using scan_spec [of 0 s] by (simp add: validsubpath_def split: if_splits)

lemma normalsubpath_valid: "normalsubpath s = Some t \<Longrightarrow> validsubpath t"
  by (auto simp: normalsubpath_def Let_def split: if_splits)

text \<open>Prefixing a directory keeps an accepted path below it.\<close>

lemma stays_inside_mono: "stays_inside ws l \<Longrightarrow> l \<le> m \<Longrightarrow> stays_inside ws m"
proof (induction ws arbitrary: l m)
  case (Cons w ws)
  then show ?case by (auto simp: comp_step_def split: if_splits)
qed simp

lemma components_append_dir: "slash \<notin> set w \<Longrightarrow> components (w @ ''/'' @ s) = w # components s"
  using components_app by simp

end
