(* ===== verification/Locale_Container.thy ===== *)
theory Locale_Container
  imports Locale_Path
begin

text \<open>
  The sorted table of localisation folders of \<^verbatim>\<open>src/src/locale-root.c\<close>: reading the directory
  \<open>locales/\<close>, sorting, binary search and the links to parent folders. A folder is identified by its
  index in the table. The directory is a parameter: the outcome of opening it and its entries. The
  binary search is proved to find a folder exactly when one has the name, up to case.
\<close>

record locale_folder =
  lf_parent :: "nat option"
  lf_length :: nat
  lf_name :: string

record locale_container =
  lc_maxlength :: nat
  lc_folders :: "locale_folder list"

definition clear_container :: "locale_container \<Rightarrow> locale_container" where
  "clear_container c = c\<lparr>lc_folders := []\<rparr>"

text \<open>\<open>realloc_ok\<close> and \<open>malloc_ok\<close> say whether the two allocations succeed.\<close>

definition add_folder :: "locale_container \<Rightarrow> string \<Rightarrow> bool \<Rightarrow> bool \<Rightarrow> locale_container \<times> int" where
  "add_folder c name realloc_ok malloc_ok =
     (if realloc_ok \<and> malloc_ok
      then (c\<lparr>lc_folders := lc_folders c @ [\<lparr>lf_parent = None, lf_length = length name, lf_name = name\<rparr>],
              lc_maxlength := (if length name > lc_maxlength c then length name else lc_maxlength c)\<rparr>, 0)
      else (clear_container c, -1))"

definition compare_folders_for_qsort :: "locale_folder \<Rightarrow> locale_folder \<Rightarrow> int" where
  "compare_folders_for_qsort a b = strcasecmp (lf_name a) (lf_name b)"

text \<open>\<open>qsort\<close> with that comparison, by insertion.\<close>

fun insert_folder :: "locale_folder \<Rightarrow> locale_folder list \<Rightarrow> locale_folder list" where
  "insert_folder f [] = [f]"
| "insert_folder f (g # gs) = (if compare_folders_for_qsort f g \<le> 0 then f # g # gs else g # insert_folder f gs)"

definition qsort_folders :: "locale_folder list \<Rightarrow> locale_folder list" where
  "qsort_folders fs = foldr insert_folder fs []"

text \<open>\<open>name\<close> is the C string whose first \<open>len\<close> characters are looked for.\<close>

function search_folder_loop :: "locale_folder list \<Rightarrow> string \<Rightarrow> nat \<Rightarrow> nat \<Rightarrow> nat \<Rightarrow> nat option" where
  "search_folder_loop fs name len low high =
     (if low < high then
        let mid = (low + high) div 2; f = fs ! mid; c = strncasecmp (lf_name f) name len
        in if c = 0 \<and> cat (lf_name f) len = NUL then Some mid
           else if c \<ge> 0 then search_folder_loop fs name len low mid
           else search_folder_loop fs name len (mid + 1) high
      else None)"
  by pat_completeness auto
termination
  by (relation "measure (\<lambda>(fs, name, len, low, high). high - low)") auto

declare search_folder_loop.simps [simp del]

definition search_folder :: "locale_folder list \<Rightarrow> string \<Rightarrow> nat \<Rightarrow> nat option" where
  "search_folder fs name len = search_folder_loop fs name len 0 (length fs)"

text \<open>The inner loop of the parent links: \<open>j\<close> runs down the name, and at each dash the part before it
  is looked for, until a folder is found.\<close>

fun find_parent :: "locale_folder list \<Rightarrow> string \<Rightarrow> nat \<Rightarrow> nat option" where
  "find_parent fs name 0 = None"
| "find_parent fs name (Suc j) =
     (if cat name j = CHR ''-''
      then (case search_folder fs name j of None \<Rightarrow> find_parent fs name j | Some p \<Rightarrow> Some p)
      else find_parent fs name j)"

definition link_parents :: "locale_folder list \<Rightarrow> locale_folder list" where
  "link_parents fs = map (\<lambda>f. f\<lparr>lf_parent := find_parent fs (lf_name f) (length (lf_name f))\<rparr>) fs"

text \<open>
  The directory: \<open>Inl e\<close> when it cannot be opened, else its entries with whether each is a directory,
  and the status of the last \<open>readdir_r\<close>. \<open>alloc i\<close> tells whether the memory for the \<open>i\<close>-th
  directory entry is available.
\<close>

fun scan_entries :: "locale_container \<Rightarrow> (string \<times> bool) list \<Rightarrow> bool list \<Rightarrow> locale_container \<times> int" where
  "scan_entries c [] alloc = (c, 0)"
| "scan_entries c ((name, isdir) # es) alloc =
     (if isdir \<and> \<not> (name = ''.'' \<or> name = ''..'')
      then (case add_folder c name True (hd (alloc @ [True])) of
              (c', rc) \<Rightarrow> if rc < 0 then (c', rc) else scan_entries c' es (tl alloc))
      else scan_entries c es alloc)"

definition init_container ::
  "errno + (string \<times> bool) list \<times> int \<Rightarrow> bool list \<Rightarrow> locale_container \<times> int" where
  "init_container dir alloc =
     (let c0 = \<lparr>lc_maxlength = 0, lc_folders = []\<rparr> in
      case dir of
        Inl e \<Rightarrow> (c0, (if e = ENOENT then 1 else 0) - 1)
      | Inr (entries, rc) \<Rightarrow>
          (case scan_entries c0 entries alloc of
             (c1, r1) \<Rightarrow>
               if r1 < 0 then (c1, r1)
               else if rc < 0 then (c1, rc)
               else (c1\<lparr>lc_folders := link_parents (qsort_folders (lc_folders c1))\<rparr>, rc)))"

section \<open>Sorting\<close>

definition folders_sorted :: "locale_folder list \<Rightarrow> bool" where
  "folders_sorted fs \<longleftrightarrow> sorted (map (\<lambda>f. casekey (lf_name f)) fs) \<and> (\<forall>f \<in> set fs. is_cstring (lf_name f))"

lemma compare_folders_le:
  "is_cstring (lf_name f) \<Longrightarrow> is_cstring (lf_name g) \<Longrightarrow>
    compare_folders_for_qsort f g \<le> 0 \<longleftrightarrow> casekey (lf_name f) \<le> casekey (lf_name g)"
  by (simp add: compare_folders_for_qsort_def strcasecmp_le_0)

lemma set_insert_folder [simp]: "set (insert_folder f fs) = insert f (set fs)"
  by (induction fs) auto

lemma folders_sorted_insert:
  "folders_sorted fs \<Longrightarrow> is_cstring (lf_name f) \<Longrightarrow> folders_sorted (insert_folder f fs)"
  by (induction fs) (auto simp: folders_sorted_def compare_folders_le)

lemma set_qsort_folders [simp]: "set (qsort_folders fs) = set fs"
  by (induction fs) (auto simp: qsort_folders_def)

lemma length_insert_folder [simp]: "length (insert_folder f fs) = Suc (length fs)"
  by (induction fs) auto

lemma length_qsort_folders [simp]: "length (qsort_folders fs) = length fs"
  by (induction fs) (auto simp: qsort_folders_def)

lemma folders_sorted_qsort: "\<forall>f \<in> set fs. is_cstring (lf_name f) \<Longrightarrow> folders_sorted (qsort_folders fs)"
proof (induction fs)
  case (Cons f fs)
  then show ?case by (simp add: qsort_folders_def folders_sorted_insert)
qed (simp add: qsort_folders_def folders_sorted_def)

section \<open>Binary search\<close>

lemma name_match_iff:
  assumes "is_cstring (lf_name f)" "is_cstring name" "len \<le> length name"
  shows "strncasecmp (lf_name f) name len = 0 \<and> cat (lf_name f) len = NUL
    \<longleftrightarrow> casekey (lf_name f) = casekey (take len name)"
proof
  assume "strncasecmp (lf_name f) name len = 0 \<and> cat (lf_name f) len = NUL"
  then show "casekey (lf_name f) = casekey (take len name)"
    using assms by (auto simp: strncasecmp_eq_0 cat_eq_NUL take_casekey)
next
  assume *: "casekey (lf_name f) = casekey (take len name)"
  then have "length (lf_name f) = len" using casekey_inj_length [OF *] assms(3) by simp
  with * assms show "strncasecmp (lf_name f) name len = 0 \<and> cat (lf_name f) len = NUL"
    by (simp add: strncasecmp_eq_0 cat_eq_NUL take_casekey)
qed

text \<open>A comparison of the first \<open>len\<close> characters decides on which side an equal name lies.\<close>

lemma take_le_self: "take n xs \<le> (xs :: nat list)"
proof (induction n arbitrary: xs)
  case (Suc n)
  then show ?case by (cases xs) auto
qed simp

lemma take_less_imp: "take n xs < ys \<Longrightarrow> length ys \<le> n \<Longrightarrow> xs < (ys :: nat list)"
proof (induction n arbitrary: xs ys)
  case (Suc n)
  then show ?case by (cases xs; cases ys) auto
qed simp

abbreviation folder_key :: "locale_folder list \<Rightarrow> nat \<Rightarrow> nat list" where
  "folder_key fs i \<equiv> casekey (lf_name (fs ! i))"

lemma folder_key_mono: "folders_sorted fs \<Longrightarrow> i \<le> j \<Longrightarrow> j < length fs \<Longrightarrow> folder_key fs i \<le> folder_key fs j"
  using sorted_nth_mono [of "map (\<lambda>f. casekey (lf_name f)) fs" i j] by (simp add: folders_sorted_def)

lemma probe_side:
  assumes "is_cstring (lf_name f)" "is_cstring name" "len \<le> length name"
  shows "strncasecmp (lf_name f) name len < 0 \<Longrightarrow> casekey (lf_name f) < casekey (take len name)"
    and "\<not> strncasecmp (lf_name f) name len < 0 \<Longrightarrow> casekey (take len name) \<le> casekey (lf_name f)"
proof -
  have l: "length (casekey (take len name)) \<le> len" by simp
  show "strncasecmp (lf_name f) name len < 0 \<Longrightarrow> casekey (lf_name f) < casekey (take len name)"
    using assms take_less_imp [OF _ l, of "casekey (lf_name f)"] by (simp add: strncasecmp_less_0 take_casekey)
  show "\<not> strncasecmp (lf_name f) name len < 0 \<Longrightarrow> casekey (take len name) \<le> casekey (lf_name f)"
    using assms order.trans [OF _ take_le_self, of "casekey (take len name)" len "casekey (lf_name f)"]
    by (simp add: strncasecmp_less_0 take_casekey not_less)
qed

lemma search_folder_loop_spec:
  assumes "folders_sorted fs" "is_cstring name" "len \<le> length name" "high \<le> length fs"
    and "\<And>i. i < low \<Longrightarrow> i < length fs \<Longrightarrow> folder_key fs i < casekey (take len name)"
    and "\<And>i. high \<le> i \<Longrightarrow> i < length fs \<Longrightarrow> casekey (take len name) < folder_key fs i"
  shows "case search_folder_loop fs name len low high of
      Some m \<Rightarrow> m < length fs \<and> folder_key fs m = casekey (take len name)
    | None \<Rightarrow> \<forall>i < length fs. folder_key fs i \<noteq> casekey (take len name)"
  using assms
proof (induction fs name len low high rule: search_folder_loop.induct)
  case (1 fs name len low high)
  let ?K = "casekey (take len name)" and ?mid = "(low + high) div 2"
  let ?c = "strncasecmp (lf_name (fs ! ?mid)) name len"
  show ?case
  proof (cases "low < high")
    case False
    have "folder_key fs i \<noteq> ?K" if "i < length fs" for i
      using "1.prems"(5) [of i] "1.prems"(6) [of i] that False by (cases "i < low") auto
    then show ?thesis using False by (simp add: search_folder_loop.simps [of fs name len low high])
  next
    case True
    then have mid: "low \<le> ?mid" "?mid < high" "?mid < length fs" using "1.prems"(4) by auto
    then have cs: "is_cstring (lf_name (fs ! ?mid))" using "1.prems"(1) by (simp add: folders_sorted_def)
    note match = name_match_iff [OF cs "1.prems"(2,3)] and side = probe_side [OF cs "1.prems"(2,3)]
    show ?thesis
    proof (cases "?c = 0 \<and> cat (lf_name (fs ! ?mid)) len = NUL")
      case hit: True
      with True match mid show ?thesis
        by (simp add: search_folder_loop.simps [of fs name len low high] Let_def)
    next
      case miss: False
      then have ne: "folder_key fs ?mid \<noteq> ?K" using match by blast
      show ?thesis
      proof (cases "?c \<ge> 0")
        case ge: True
        then have lt: "?K < folder_key fs ?mid" using side(2) ne by (simp add: less_le)
        have "?K < folder_key fs i" if "?mid \<le> i" "i < length fs" for i
          using folder_key_mono [OF "1.prems"(1) that] lt by (rule order.strict_trans2 [rotated])
        moreover have "search_folder_loop fs name len low high = search_folder_loop fs name len low ?mid"
          using True miss ge by (subst search_folder_loop.simps) (auto simp: Let_def)
        ultimately show ?thesis using "1.IH"(1) [OF True refl refl refl miss ge] "1.prems" mid by simp
      next
        case lt: False
        then have "folder_key fs ?mid < ?K" using side(1) by simp
        then have "folder_key fs i < ?K" if "i < ?mid + 1" for i
          using folder_key_mono [OF "1.prems"(1), of i ?mid] that mid(3) by (auto simp: less_Suc_eq_le)
        moreover have "search_folder_loop fs name len low high = search_folder_loop fs name len (?mid + 1) high"
          using True miss lt by (subst search_folder_loop.simps) (auto simp: Let_def)
        ultimately show ?thesis using "1.IH"(2) [OF True refl refl refl miss lt] "1.prems" mid by simp
      qed
    qed
  qed
qed

lemma search_folder_spec:
  assumes "folders_sorted fs" "is_cstring name" "len \<le> length name"
  shows "case search_folder fs name len of
      Some m \<Rightarrow> m < length fs \<and> folder_key fs m = casekey (take len name)
    | None \<Rightarrow> \<forall>i < length fs. folder_key fs i \<noteq> casekey (take len name)"
  using search_folder_loop_spec [OF assms, of "length fs" 0] by (simp add: search_folder_def)

text \<open>The binary search of the folder table is a lookup by name up to case: on a sorted table it
  returns a folder with the requested name, and it returns none only when no folder has that name.\<close>

lemma search_folder_correct:
  assumes "folders_sorted fs" "is_cstring name" "len \<le> length name"
  shows "case search_folder fs name len of
      Some m \<Rightarrow> m < length fs \<and> casekey (lf_name (fs ! m)) = casekey (take len name)
    | None \<Rightarrow> (\<forall>f \<in> set fs. casekey (lf_name f) \<noteq> casekey (take len name))"
  using search_folder_spec [OF assms] by (auto simp: in_set_conv_nth split: option.splits)

end
