(* ===== verification/Locale_Root.thy ===== *)
theory Locale_Root
  imports Locale_Container
begin

text \<open>
  The searches and the root of \<^verbatim>\<open>src/src/locale-root.c\<close>: building the list of folders of a language
  definition, the cache of the three last searches, the reference counts of searches and root, and the
  opening and resolution of files through a search.

  A root is one record that also holds the searches allocated for it: \<open>lr_searches\<close> maps the address
  of a live search to its structure and \<open>lr_live\<close> tells whether the root itself is still allocated, so
  an access to a freed object is the value \<open>None\<close>. The list \<open>ls_head\<close> is the chain of nodes, each the
  index of its folder in the table. Memory is a parameter: the address of the new search (\<open>None\<close> on
  failure) and the number of nodes that can be allocated. \<open>openat\<close> and \<open>faccessat\<close> are functions of the
  path; the paths they are called with are returned.
\<close>

record locale_search =
  ls_head :: "nat list"
  ls_refcount :: int
  ls_definition :: string

record locale_root =
  lr_refcount :: int
  lr_intcount :: int
  lr_rootfd :: int
  lr_container :: locale_container
  lr_lru :: "addr option list"
  lr_default_search :: "addr option"
  lr_searches :: "addr \<rightharpoonup> locale_search"
  lr_live :: bool

definition LRU_COUNT :: nat where "LRU_COUNT = 3"

section \<open>Building a search\<close>

text \<open>The nodes and the number of further nodes that can be allocated; \<open>None\<close> is \<open>ENOMEM\<close>.\<close>

definition search_append_folder :: "nat list \<times> nat \<Rightarrow> nat \<Rightarrow> (nat list \<times> nat) option" where
  "search_append_folder st folder =
     (case st of (nodes, mem) \<Rightarrow>
        if folder \<in> set nodes then Some (nodes, mem)
        else if mem = 0 then None
        else Some (nodes @ [folder], mem - 1))"

text \<open>\<open>while (stop < length && p(definition[stop])) stop++\<close>\<close>

function skip_while :: "(char \<Rightarrow> bool) \<Rightarrow> string \<Rightarrow> nat \<Rightarrow> nat \<Rightarrow> nat" where
  "skip_while p d len stop = (if stop < len \<and> p (cat d stop) then skip_while p d len (Suc stop) else stop)"
  by pat_completeness auto
termination
  by (relation "measure (\<lambda>(p, d, len, stop). len - stop)") auto

declare skip_while.simps [simp del]

definition is_blank :: "char \<Rightarrow> bool" where
  "is_blank c \<longleftrightarrow> c = CHR '' '' \<or> c = CHR 0x09"

definition is_sep :: "char \<Rightarrow> bool" where
  "is_sep c \<longleftrightarrow> c = CHR '','' \<or> is_blank c"

fun trim_back :: "string \<Rightarrow> nat \<Rightarrow> nat" where
  "trim_back d 0 = 0"
| "trim_back d (Suc b) = (if is_blank (cat d (Suc b)) then trim_back d b else Suc b)"

fun to_dash :: "string \<Rightarrow> nat \<Rightarrow> nat" where
  "to_dash d 0 = 0"
| "to_dash d (Suc b) = (if cat d b \<noteq> CHR ''-'' then to_dash d b else b)"

fun skip_dashes :: "string \<Rightarrow> nat \<Rightarrow> nat" where
  "skip_dashes d 0 = 0"
| "skip_dashes d (Suc b) = (if cat d (Suc b) = CHR ''-'' \<and> cat d b = CHR ''-'' then skip_dashes d b else Suc b)"

lemma trim_back_le: "trim_back d b \<le> b"
  by (induction b) auto

lemma to_dash_le: "to_dash d b \<le> b - 1"
  by (induction b) (auto intro: le_trans)

lemma skip_dashes_le: "skip_dashes d b \<le> b"
  by (induction b) auto

lemma downgrade_less: "0 < b \<Longrightarrow> skip_dashes d (to_dash d b) < b"
  using skip_dashes_le [of d "to_dash d b"] to_dash_le [of d b] by linarith

text \<open>The loop on \<open>bk\<close>: the language tag is looked for, then shortened at its last dash.\<close>

function add_language :: "locale_folder list \<Rightarrow> string \<Rightarrow> bool \<Rightarrow> nat \<Rightarrow> nat list \<times> nat \<Rightarrow> (nat list \<times> nat) option" where
  "add_language fs d immediate bk st =
     (if bk = 0 then Some st
      else case search_folder fs d bk of
        Some folder \<Rightarrow>
          (case search_append_folder st folder of
             None \<Rightarrow> None
           | Some st' \<Rightarrow>
               if \<not> immediate then Some st'
               else add_language fs d immediate (skip_dashes d (to_dash d bk)) st')
      | None \<Rightarrow> add_language fs d immediate (skip_dashes d (to_dash d bk)) st)"
  by pat_completeness auto
termination
  by (relation "measure (\<lambda>(fs, d, immediate, bk, st). bk)") (auto simp: downgrade_less)

declare add_language.simps [simp del]

definition stop_at_semi :: "string \<Rightarrow> nat \<Rightarrow> nat" where
  "stop_at_semi d len = skip_while (\<lambda>c. c \<noteq> CHR '','' \<and> c \<noteq> CHR '';'') d len 0"

definition next_language :: "string \<Rightarrow> nat \<Rightarrow> nat" where
  "next_language d len =
     skip_while is_sep d len (skip_while (\<lambda>c. c \<noteq> CHR '','') d len (stop_at_semi d len))"

lemma skip_while_ge: "stop \<le> skip_while p d len stop"
proof (induction p d len stop rule: skip_while.induct)
  case (1 p d len stop)
  then show ?case by (subst skip_while.simps) auto
qed

lemma skip_while_le: "stop \<le> len \<Longrightarrow> skip_while p d len stop \<le> len"
proof (induction p d len stop rule: skip_while.induct)
  case (1 p d len stop)
  then show ?case by (subst skip_while.simps) auto
qed

lemma skip_while_end: "skip_while p d len stop < len \<Longrightarrow> \<not> p (cat d (skip_while p d len stop))"
proof (induction p d len stop rule: skip_while.induct)
  case (1 p d len stop)
  then show ?case by (cases "stop < len \<and> p (cat d stop)") (auto simp: skip_while.simps [of p d len stop])
qed

lemma next_language_progress: "0 < len \<Longrightarrow> 0 < next_language d len"
proof -
  assume l: "0 < len"
  let ?s = "skip_while (\<lambda>c. c \<noteq> CHR '','') d len (stop_at_semi d len)"
  have "0 < skip_while is_sep d len ?s"
  proof (cases "?s = 0")
    case True
    with l skip_while_end [of "\<lambda>c. c \<noteq> CHR '',''" d len "stop_at_semi d len"]
    have "is_sep (cat d 0)" by (simp add: is_sep_def)
    with True l skip_while_ge [of "Suc 0" is_sep d len] show ?thesis by (simp add: skip_while.simps [of is_sep d len 0])
  qed (use skip_while_ge [of ?s is_sep d len] in linarith)
  then show ?thesis by (simp add: next_language_def)
qed

function build_search :: "locale_folder list \<Rightarrow> bool \<Rightarrow> string \<Rightarrow> nat \<Rightarrow> nat list \<times> nat \<Rightarrow> (nat list \<times> nat) option" where
  "build_search fs immediate d len st =
     (if len = 0 then Some st
      else case add_language fs d immediate (trim_back d (stop_at_semi d len)) st of
        None \<Rightarrow> None
      | Some st' \<Rightarrow> build_search fs immediate (drop (next_language d len) d) (len - next_language d len) st')"
  by pat_completeness auto
termination
  by (relation "measure (\<lambda>(fs, immediate, d, len, st). len)") (auto simp: next_language_progress)

declare build_search.simps [simp del]

text \<open>
  The completion of a search with the parents of its folders, a worklist that grows while it is read.
  The outer \<open>None\<close> is running out of fuel.
\<close>

fun fulfill_search :: "nat \<Rightarrow> locale_folder list \<Rightarrow> nat \<Rightarrow> nat list \<times> nat \<Rightarrow> (nat list \<times> nat) option option" where
  "fulfill_search 0 fs i st = None"
| "fulfill_search (Suc fuel) fs i st =
     (if i < length (fst st) then
        (case lf_parent (fs ! (fst st ! i)) of
           None \<Rightarrow> fulfill_search fuel fs (Suc i) st
         | Some folder \<Rightarrow>
             (case search_append_folder st folder of
                None \<Rightarrow> Some None
              | Some st' \<Rightarrow> fulfill_search fuel fs (Suc i) st'))
      else Some (Some st))"

definition search_fuel :: "locale_folder list \<Rightarrow> nat" where
  "search_fuel fs = Suc (length fs)"

section \<open>Reference counts\<close>

definition internal_unref :: "locale_root \<Rightarrow> locale_root option" where
  "internal_unref r =
     (if \<not> lr_live r then None
      else let r' = r\<lparr>lr_intcount := lr_intcount r - 1\<rparr> in
        if lr_intcount r' = 0
        then Some (r'\<lparr>lr_container := clear_container (lr_container r'), lr_live := False\<rparr>)
        else Some r')"

definition locale_search_addref :: "addr \<Rightarrow> locale_root \<Rightarrow> locale_root option" where
  "locale_search_addref a r =
     (case lr_searches r a of
        None \<Rightarrow> None
      | Some s \<Rightarrow> Some (r\<lparr>lr_searches := (lr_searches r)(a \<mapsto> s\<lparr>ls_refcount := ls_refcount s + 1\<rparr>)\<rparr>))"

definition locale_search_unref :: "addr option \<Rightarrow> locale_root \<Rightarrow> locale_root option" where
  "locale_search_unref p r =
     (case p of
        None \<Rightarrow> Some r
      | Some a \<Rightarrow>
          (case lr_searches r a of
             None \<Rightarrow> None
           | Some s \<Rightarrow>
               if ls_refcount s - 1 \<noteq> 0
               then Some (r\<lparr>lr_searches := (lr_searches r)(a \<mapsto> s\<lparr>ls_refcount := ls_refcount s - 1\<rparr>)\<rparr>)
               else internal_unref (r\<lparr>lr_searches := (lr_searches r)(a := None)\<rparr>)))"

text \<open>\<open>env\<close> is the result of opening the directory; the descriptor stays open.\<close>

definition locale_root_create :: "int \<Rightarrow> bool \<Rightarrow> errno + (string \<times> bool) list \<times> int \<Rightarrow> bool list \<Rightarrow> locale_root option" where
  "locale_root_create dirfd calloc_ok dir alloc =
     (if \<not> calloc_ok then None
      else case init_container dir alloc of
        (c, rc) \<Rightarrow>
          if rc = 0
          then Some \<lparr>lr_refcount = 1, lr_intcount = 1, lr_rootfd = dirfd, lr_container = c,
                     lr_lru = replicate LRU_COUNT None, lr_default_search = None,
                     lr_searches = Map.empty, lr_live = True\<rparr>
          else None)"

text \<open>The second result tells whether the descriptor opened for the path has been closed.\<close>

definition locale_root_create_at ::
  "int \<Rightarrow> bool \<Rightarrow> errno + (string \<times> bool) list \<times> int \<Rightarrow> bool list \<Rightarrow> locale_root option \<times> bool" where
  "locale_root_create_at fd calloc_ok dir alloc =
     (if fd < 0 then (None, False)
      else case locale_root_create fd calloc_ok dir alloc of
        None \<Rightarrow> (None, True)
      | Some root \<Rightarrow> (Some root, False))"

definition locale_root_addref :: "locale_root \<Rightarrow> locale_root option" where
  "locale_root_addref r = (if lr_live r then Some (r\<lparr>lr_refcount := lr_refcount r + 1\<rparr>) else None)"

definition locale_root_unref :: "locale_root \<Rightarrow> locale_root option" where
  "locale_root_unref r =
     (if \<not> lr_live r then None
      else let r' = r\<lparr>lr_refcount := lr_refcount r - 1\<rparr> in
        if lr_refcount r' \<noteq> 0 then Some r'
        else ofold locale_search_unref (lr_lru r') r' \<bind> internal_unref)"

section \<open>Getting a search\<close>

text \<open>The second component is the search, \<open>None\<close> when memory is lacking.\<close>

definition create_search ::
  "locale_root \<Rightarrow> string \<Rightarrow> nat \<Rightarrow> bool \<Rightarrow> addr option \<Rightarrow> nat \<Rightarrow> (locale_root \<times> addr option) option" where
  "create_search r d len immediate alloc mem =
     (case alloc of
        None \<Rightarrow> Some (r, None)
      | Some a \<Rightarrow>
          let fs = lc_folders (lr_container r);
              s0 = \<lparr>ls_head = [], ls_refcount = 1, ls_definition = take len d\<rparr>;
              r0 = r\<lparr>lr_intcount := lr_intcount r + 1, lr_searches := (lr_searches r)(a \<mapsto> s0)\<rparr>
          in case build_search fs immediate d len ([], mem) of
               None \<Rightarrow> map_option (\<lambda>r'. (r', None)) (locale_search_unref (Some a) r0)
             | Some st \<Rightarrow>
                 (case fulfill_search (search_fuel fs) fs 0 st of
                    None \<Rightarrow> None
                  | Some None \<Rightarrow> map_option (\<lambda>r'. (r', None)) (locale_search_unref (Some a) r0)
                  | Some (Some (nodes, _)) \<Rightarrow>
                      Some (r0\<lparr>lr_searches := (lr_searches r)(a \<mapsto> s0\<lparr>ls_head := nodes\<rparr>)\<rparr>, Some a)))"

definition search_matches :: "locale_root \<Rightarrow> addr option \<Rightarrow> string \<Rightarrow> nat \<Rightarrow> bool" where
  "search_matches r p d len =
     (case p of
        None \<Rightarrow> False
      | Some a \<Rightarrow>
          (case lr_searches r a of
             None \<Rightarrow> False
           | Some s \<Rightarrow> strncasecmp (ls_definition s) d len = 0 \<and> cat (ls_definition s) len = NUL))"

text \<open>The trimmed definition: where it starts and its length.\<close>

fun trim_end :: "string \<Rightarrow> nat \<Rightarrow> nat" where
  "trim_end d 0 = 0"
| "trim_end d (Suc n) = (if is_sep (cat d n) then trim_end d n else Suc n)"

definition normal_definition :: "string option \<Rightarrow> string \<times> nat" where
  "normal_definition definition =
     (case definition of
        None \<Rightarrow> ([], 0)
      | Some d \<Rightarrow> let d' = dropWhile is_sep d in (d', trim_end d' (length d')))"

fun lru_shift :: "'a list \<Rightarrow> nat \<Rightarrow> 'a list" where
  "lru_shift lru 0 = lru"
| "lru_shift lru (Suc i) = lru_shift (lru[Suc i := lru ! i]) i"

definition locale_root_search ::
  "locale_root \<Rightarrow> string option \<Rightarrow> bool \<Rightarrow> addr option \<Rightarrow> nat \<Rightarrow> (locale_root \<times> addr option) option" where
  "locale_root_search r definition immediate alloc mem =
     (case normal_definition definition of
        (d, len) \<Rightarrow>
          let found = (\<lambda>r' a i. map_option (\<lambda>r''. (r'', Some a))
                (locale_search_addref a (r'\<lparr>lr_lru := (lru_shift (lr_lru r') i)[0 := Some a]\<rparr>)))
          in case first_index (\<lambda>p. search_matches r p d len) (lr_lru r) of
               Some i \<Rightarrow> (case lr_lru r ! i of None \<Rightarrow> None | Some a \<Rightarrow> found r a i)
             | None \<Rightarrow>
                 (case create_search r d len immediate alloc mem of
                    None \<Rightarrow> None
                  | Some (r1, None) \<Rightarrow> Some (r1, None)
                  | Some (r1, Some a) \<Rightarrow>
                      locale_search_unref (lr_lru r1 ! (LRU_COUNT - 1)) r1 \<bind> (\<lambda>r2. found r2 a (LRU_COUNT - 1))))"

definition locale_root_set_default_search :: "locale_root \<Rightarrow> addr option \<Rightarrow> locale_root option" where
  "locale_root_set_default_search r search =
     (let older = lr_default_search r in
      (case search of
         None \<Rightarrow> Some (r\<lparr>lr_default_search := None\<rparr>)
       | Some a \<Rightarrow> map_option (\<lambda>r'. r'\<lparr>lr_default_search := Some a\<rparr>) (locale_search_addref a r))
      \<bind> locale_search_unref older)"

section \<open>Opening and resolving\<close>

definition PATH_MAX :: nat where "PATH_MAX = 4096"

definition locales_dir :: string where "locales_dir = ''locales/''"

text \<open>The C string at an offset of a buffer.\<close>

definition cstr_at :: "string \<Rightarrow> nat \<Rightarrow> string" where
  "cstr_at buf off = takeWhile (\<lambda>c. c \<noteq> NUL) (drop off buf)"

text \<open>The stack buffer with the file name at its end; \<open>junk\<close> is what the memory held before.\<close>

definition init_buffer :: "(nat \<Rightarrow> char) \<Rightarrow> nat \<Rightarrow> string \<Rightarrow> string option" where
  "init_buffer junk maxlength filename =
     memcpy (map junk [0 ..< length filename + maxlength + (length locales_dir + 1) + 1])
       (maxlength + (length locales_dir + 1) - 1) ''/''
     \<bind> (\<lambda>b. memcpy b ((length locales_dir + 1) + maxlength) (filename @ [NUL]))"

definition folder_path :: "string \<Rightarrow> nat \<Rightarrow> locale_folder \<Rightarrow> (string \<times> string) option" where
  "folder_path buf maxlength folder =
     (if maxlength < lf_length folder then None
      else let p = maxlength - lf_length folder in
        memcpy buf p locales_dir
        \<bind> (\<lambda>b. memcpy b (p + length locales_dir) (take (lf_length folder) (lf_name folder)))
        \<bind> (\<lambda>b. Some (b, cstr_at b p)))"

text \<open>
  The walk over the nodes. \<open>attempt\<close> is the system call: it gives a result when it succeeds. The first
  component of the result lists the paths that were tried.
\<close>

fun walk_nodes :: "(string \<Rightarrow> 'a option) \<Rightarrow> locale_folder list \<Rightarrow> nat \<Rightarrow> string \<Rightarrow> nat list
    \<Rightarrow> (string list \<times> string \<times> 'a option) option" where
  "walk_nodes attempt fs maxlength buf [] = Some ([], buf, None)"
| "walk_nodes attempt fs maxlength buf (n # ns) =
     (case folder_path buf maxlength (fs ! n) of
        None \<Rightarrow> None
      | Some (buf', p) \<Rightarrow>
          (case attempt p of
             Some x \<Rightarrow> Some ([p], buf', Some x)
           | None \<Rightarrow> map_option (\<lambda>(ps, res). (p # ps, res)) (walk_nodes attempt fs maxlength buf' ns)))"

definition search_head :: "locale_root \<Rightarrow> addr option \<Rightarrow> nat list option" where
  "search_head r search =
     (case search of None \<Rightarrow> Some [] | Some a \<Rightarrow> map_option ls_head (lr_searches r a))"

text \<open>\<open>Inl EINVAL\<close> for the label \<open>inval\<close>; \<open>Inr None\<close> when no folder holds the file.\<close>

definition walk_search ::
  "(string \<Rightarrow> 'a option) \<Rightarrow> (nat \<Rightarrow> char) \<Rightarrow> locale_root \<Rightarrow> addr option \<Rightarrow> string
    \<Rightarrow> (string list \<times> (errno + 'a option)) option" where
  "walk_search attempt junk r search filename =
     search_head r search \<bind> (\<lambda>nodes.
     if nodes = [] then Some ([], Inr None)
     else if length filename > PATH_MAX then Some ([], Inl EINVAL)
     else let fs = lc_folders (lr_container r); maxlength = lc_maxlength (lr_container r) in
       init_buffer junk maxlength filename \<bind> (\<lambda>buf.
       case walk_nodes attempt fs maxlength buf nodes of
         None \<Rightarrow> None
       | Some (ps, buf', Some x) \<Rightarrow> Some (ps, Inr (Some x))
       | Some (ps, buf', None) \<Rightarrow>
           if search \<noteq> lr_default_search r
           then search_head r (lr_default_search r) \<bind> (\<lambda>more.
             case walk_nodes attempt fs maxlength buf' more of
               None \<Rightarrow> None
             | Some (qs, _, res) \<Rightarrow> Some (ps @ qs, Inr res))
           else Some (ps, Inr None)))"

definition do_open ::
  "(string \<Rightarrow> int) \<Rightarrow> (nat \<Rightarrow> char) \<Rightarrow> locale_root \<Rightarrow> addr option \<Rightarrow> string \<Rightarrow> bool \<Rightarrow> (string list \<times> (errno + int)) option" where
  "do_open openat junk r search filename o_creat =
     (case normalsubpath filename of
        None \<Rightarrow> Some ([], Inl EINVAL)
      | Some name \<Rightarrow>
          if o_creat then Some ([], Inl EINVAL)
          else case walk_search (\<lambda>p. if openat p \<ge> 0 then Some (openat p) else None) junk r search name of
            None \<Rightarrow> None
          | Some (ps, Inl e) \<Rightarrow> Some (ps, Inl e)
          | Some (ps, Inr (Some fd)) \<Rightarrow> Some (ps, Inr fd)
          | Some (ps, Inr None) \<Rightarrow> Some (ps @ [name], Inr (openat name)))"

definition do_resolve ::
  "(string \<Rightarrow> bool) \<Rightarrow> (nat \<Rightarrow> char) \<Rightarrow> bool \<Rightarrow> locale_root \<Rightarrow> addr option \<Rightarrow> string \<Rightarrow> (string list \<times> (errno + string)) option" where
  "do_resolve access junk strdup_ok r search filename =
     (case normalsubpath filename of
        None \<Rightarrow> Some ([], Inl EINVAL)
      | Some name \<Rightarrow>
          let dup = (\<lambda>s. if strdup_ok then Inr s else Inl ENOMEM) in
          case walk_search (\<lambda>p. if access p then Some p else None) junk r search name of
            None \<Rightarrow> None
          | Some (ps, Inl e) \<Rightarrow> Some (ps, Inl e)
          | Some (ps, Inr (Some p)) \<Rightarrow> Some (ps, dup p)
          | Some (ps, Inr None) \<Rightarrow> Some (ps @ [name], if access name then dup name else Inl ENOENT))"

definition locale_search_open where
  "locale_search_open openat junk r a filename o_creat =
     (if lr_searches r a = None then None else do_open openat junk r (Some a) filename o_creat)"

definition locale_search_resolve where
  "locale_search_resolve access junk strdup_ok r a filename =
     (if lr_searches r a = None then None else do_resolve access junk strdup_ok r (Some a) filename)"

text \<open>The search of the requested locale, the default one when there is none.\<close>

definition with_locale ::
  "locale_root \<Rightarrow> string option \<Rightarrow> addr option \<Rightarrow> nat \<Rightarrow> (locale_root \<Rightarrow> addr option \<Rightarrow> 'a option) \<Rightarrow> (locale_root \<times> 'a) option" where
  "with_locale r locale alloc mem f =
     (case locale of None \<Rightarrow> Some (r, None) | Some l \<Rightarrow> locale_root_search r (Some l) False alloc mem)
     \<bind> (\<lambda>(r1, search). f r1 (case search of None \<Rightarrow> lr_default_search r1 | Some a \<Rightarrow> Some a)
     \<bind> (\<lambda>res. map_option (\<lambda>r2. (r2, res)) (locale_search_unref search r1)))"

definition locale_root_open where
  "locale_root_open openat junk r filename o_creat locale alloc mem =
     with_locale r locale alloc mem (\<lambda>r1 search. do_open openat junk r1 search filename o_creat)"

definition locale_root_resolve where
  "locale_root_resolve access junk strdup_ok r filename locale alloc mem =
     with_locale r locale alloc mem (\<lambda>r1 search. do_resolve access junk strdup_ok r1 search filename)"

section \<open>The nodes of a search\<close>

text \<open>The container: parents are in the table, lengths and names agree.\<close>

definition container_ok :: "locale_container \<Rightarrow> bool" where
  "container_ok c \<longleftrightarrow> folders_sorted (lc_folders c)
     \<and> (\<forall>f \<in> set (lc_folders c). lf_length f = length (lf_name f) \<and> lf_length f \<le> lc_maxlength c
          \<and> slash \<notin> set (lf_name f) \<and> is_name (lf_name f)
          \<and> (\<forall>p. lf_parent f = Some p \<longrightarrow> p < length (lc_folders c)))"

lemma search_folder_bound:
  "folders_sorted fs \<Longrightarrow> is_cstring d \<Longrightarrow> bk \<le> length d \<Longrightarrow> search_folder fs d bk = Some m \<Longrightarrow> m < length fs"
  using search_folder_spec [of fs d bk] by auto

definition nodes_ok :: "locale_folder list \<Rightarrow> nat list \<times> nat \<Rightarrow> bool" where
  "nodes_ok fs st \<longleftrightarrow> distinct (fst st) \<and> set (fst st) \<subseteq> {..< length fs}"

lemma search_append_folder_ok:
  "search_append_folder st f = Some st' \<Longrightarrow> nodes_ok fs st \<Longrightarrow> f < length fs \<Longrightarrow>
    nodes_ok fs st' \<and> f \<in> set (fst st') \<and> (\<exists>zs. fst st' = fst st @ zs)"
  by (auto simp: search_append_folder_def nodes_ok_def split: prod.splits if_splits)

lemma add_language_ok:
  assumes "add_language fs d imm bk st = Some st'" "nodes_ok fs st" "folders_sorted fs" "is_cstring d" "bk \<le> length d"
  shows "nodes_ok fs st'"
  using assms
proof (induction fs d imm bk st rule: add_language.induct)
  case (1 fs d imm bk st)
  have le: "skip_dashes d (to_dash d bk) \<le> length d"
    using "1.prems"(5) downgrade_less [of bk d] skip_dashes_le [of d 0] by (cases "bk = 0") auto
  show ?case
  proof (cases "bk = 0")
    case True
    with "1.prems" add_language.simps [of fs d imm bk st] show ?thesis by simp
  next
    case pos: False
    show ?thesis
    proof (cases "search_folder fs d bk")
      case None
      with "1.prems"(1) pos have "add_language fs d imm (skip_dashes d (to_dash d bk)) st = Some st'"
        by (simp add: add_language.simps [of fs d imm bk st])
      with "1.IH"(1) [OF pos None] "1.prems" le show ?thesis by blast
    next
      case (Some f)
      with search_folder_bound "1.prems" have f: "f < length fs" by blast
      have eq: "(case search_append_folder st f of None \<Rightarrow> None
         | Some st' \<Rightarrow> if \<not> imm then Some st' else add_language fs d imm (skip_dashes d (to_dash d bk)) st') = Some st'"
        using "1.prems"(1) pos Some by (simp add: add_language.simps [of fs d imm bk st])
      then obtain st1 where st1: "search_append_folder st f = Some st1"
        "imm \<Longrightarrow> add_language fs d imm (skip_dashes d (to_dash d bk)) st1 = Some st'" "\<not> imm \<Longrightarrow> st' = st1"
        by (cases "search_append_folder st f"; cases imm) simp_all
      then have "nodes_ok fs st1" using search_append_folder_ok f "1.prems"(2) by blast
      with "1.IH"(2) [OF pos Some st1(1)] "1.prems" st1 le show ?thesis by (cases imm) auto
    qed
  qed
qed

lemma build_search_ok:
  assumes "build_search fs imm d len st = Some st'" "nodes_ok fs st" "folders_sorted fs" "is_cstring d" "len \<le> length d"
  shows "nodes_ok fs st'"
  using assms
proof (induction fs imm d len st rule: build_search.induct)
  case (1 fs imm d len st)
  show ?case
  proof (cases "len = 0")
    case True
    with "1.prems" build_search.simps [of fs imm d len st] show ?thesis by simp
  next
    case pos: False
    from "1.prems"(1) pos obtain st1 where st1: "add_language fs d imm (trim_back d (stop_at_semi d len)) st = Some st1"
      "build_search fs imm (drop (next_language d len) d) (len - next_language d len) st1 = Some st'"
      by (auto simp: build_search.simps [of fs imm d len st] split: option.splits)
    have "trim_back d (stop_at_semi d len) \<le> length d"
      using trim_back_le [of d "stop_at_semi d len"] skip_while_le [of 0 len _ d] "1.prems"(5)
      by (simp add: stop_at_semi_def) (meson le_trans)
    with add_language_ok [OF st1(1)] "1.prems" have "nodes_ok fs st1" by blast
    with "1.IH" [OF pos st1(1) st1(2)] "1.prems" show ?thesis by (simp add: is_cstring_drop)
  qed
qed

text \<open>The folders reached before position \<open>i\<close> have their parents in the list.\<close>

definition parents_done :: "locale_folder list \<Rightarrow> nat \<Rightarrow> nat list \<Rightarrow> bool" where
  "parents_done fs i nodes \<longleftrightarrow> (\<forall>j < min i (length nodes). \<forall>p. lf_parent (fs ! (nodes ! j)) = Some p \<longrightarrow> p \<in> set nodes)"

lemma parents_done_step:
  assumes "parents_done fs i nodes" "i < length nodes"
    and "\<forall>p. lf_parent (fs ! (nodes ! i)) = Some p \<longrightarrow> p \<in> set (nodes @ zs)"
  shows "parents_done fs (Suc i) (nodes @ zs)"
  unfolding parents_done_def
proof (intro allI impI)
  fix j p assume j: "j < min (Suc i) (length (nodes @ zs))" "lf_parent (fs ! ((nodes @ zs) ! j)) = Some p"
  then have jl: "j < length nodes" using assms(2) by auto
  show "p \<in> set (nodes @ zs)"
  proof (cases "j = i")
    case True
    with j(2) jl assms(3) show ?thesis by (simp add: nth_append)
  next
    case False
    with j jl assms(1,2) have "j < i" "lf_parent (fs ! (nodes ! j)) = Some p" by (simp_all add: nth_append)
    with assms(1,2) have "p \<in> set nodes" by (simp add: parents_done_def)
    then show ?thesis by simp
  qed
qed

lemma nodes_ok_length: "nodes_ok fs st \<Longrightarrow> length (fst st) \<le> length fs"
  using card_mono [of "{..< length fs}" "set (fst st)"] by (auto simp: nodes_ok_def distinct_card)

text \<open>Enough fuel: the worklist is read at most once per folder of the table.\<close>

lemma fulfill_search_total:
  assumes "nodes_ok fs st" "\<forall>f \<in> set fs. \<forall>p. lf_parent f = Some p \<longrightarrow> p < length fs"
    and "parents_done fs i (fst st)" "i \<le> length (fst st)" "length fs < fuel + i"
  shows "case fulfill_search fuel fs i st of
      None \<Rightarrow> False
    | Some None \<Rightarrow> True
    | Some (Some st') \<Rightarrow> nodes_ok fs st' \<and> parents_done fs (length (fst st')) (fst st') \<and> (\<exists>zs. fst st' = fst st @ zs)"
  using assms
proof (induction fuel arbitrary: i st)
  case 0
  with nodes_ok_length [OF 0(1)] show ?case by simp
next
  case (Suc fuel)
  show ?case
  proof (cases "i < length (fst st)")
    case False
    with Suc.prems show ?thesis by simp
  next
    case True
    then have n: "fst st ! i < length fs" using Suc.prems(1) nth_mem unfolding nodes_ok_def by blast
    show ?thesis
    proof (cases "lf_parent (fs ! (fst st ! i))")
      case None
      with True Suc.IH [of st "Suc i"] Suc.prems parents_done_step [OF Suc.prems(3) True, of "[]"] show ?thesis by simp
    next
      case (Some p)
      with Suc.prems(2) nth_mem [OF n] have p: "p < length fs" by blast
      show ?thesis
      proof (cases "search_append_folder st p")
        case None
        with Some True show ?thesis by simp
      next
        case st1: (Some st1)
        obtain zs where zs: "nodes_ok fs st1" "p \<in> set (fst st1)" "fst st1 = fst st @ zs"
          using search_append_folder_ok [OF st1 Suc.prems(1) p] by blast
        have pd: "parents_done fs (Suc i) (fst st1)"
          using parents_done_step [OF Suc.prems(3) True, of zs] zs Some by auto
        have "Suc i \<le> length (fst st1)" "length fs < fuel + Suc i" using zs(3) True Suc.prems(5) by auto
        from Suc.IH [OF zs(1) Suc.prems(2) pd this] Some st1 True zs(3) show ?thesis
          by (auto split: option.splits)
      qed
    qed
  qed
qed

section \<open>Heap invariant\<close>

definition search_ok :: "locale_folder list \<Rightarrow> nat list \<Rightarrow> bool" where
  "search_ok fs nodes \<longleftrightarrow> distinct nodes \<and> set nodes \<subseteq> {..< length fs}
     \<and> (\<forall>n \<in> set nodes. \<forall>p. lf_parent (fs ! n) = Some p \<longrightarrow> p \<in> set nodes)"

definition ind :: "addr option \<Rightarrow> addr \<Rightarrow> int" where
  "ind p a = (if p = Some a then 1 else 0)"

text \<open>\<open>X a\<close> counts the references to search \<open>a\<close>, \<open>e\<close> the references to the root other than those of
  the searches.\<close>

fun slot_ok :: "locale_folder list \<Rightarrow> locale_search option \<Rightarrow> int \<Rightarrow> bool" where
  "slot_ok fs None x \<longleftrightarrow> x = 0"
| "slot_ok fs (Some s) x \<longleftrightarrow> ls_refcount s = x \<and> 0 < x \<and> search_ok fs (ls_head s)"

definition heap_ok :: "locale_root \<Rightarrow> int \<Rightarrow> (addr \<Rightarrow> int) \<Rightarrow> bool" where
  "heap_ok r e X \<longleftrightarrow> finite (dom (lr_searches r)) \<and> lr_intcount r = int (card (dom (lr_searches r))) + e
     \<and> (lr_live r \<longleftrightarrow> 0 < lr_intcount r) \<and> container_ok (lr_container r)
     \<and> (\<forall>a. slot_ok (lc_folders (lr_container r)) (lr_searches r a) (X a))"

definition same_root :: "locale_root \<Rightarrow> locale_root \<Rightarrow> bool" where
  "same_root r r' \<longleftrightarrow> lr_refcount r' = lr_refcount r \<and> lr_rootfd r' = lr_rootfd r \<and> lr_lru r' = lr_lru r
     \<and> lr_default_search r' = lr_default_search r \<and> (lr_live r' \<longrightarrow> lr_live r \<and> lr_container r' = lr_container r)"

lemma heap_ok_slot: "heap_ok r e X \<Longrightarrow> slot_ok (lc_folders (lr_container r)) (lr_searches r a) (X a)"
  by (simp add: heap_ok_def)

lemma heap_ok_Some: "heap_ok r e X \<Longrightarrow> 0 < X a \<Longrightarrow> \<exists>s. lr_searches r a = Some s \<and> ls_refcount s = X a"
  using heap_ok_slot [of r e X a] by (cases "lr_searches r a") auto

lemma heap_ok_nonneg: "heap_ok r e X \<Longrightarrow> 0 \<le> X a"
  using heap_ok_slot [of r e X a] by (cases "lr_searches r a") auto

lemma heap_ok_live: "heap_ok r e X \<Longrightarrow> 0 \<le> e \<Longrightarrow> 0 < X a \<Longrightarrow> lr_live r"
proof -
  assume h: "heap_ok r e X" and e: "0 \<le> e" "0 < X a"
  from heap_ok_Some [OF h e(2)] have "a \<in> dom (lr_searches r)" by auto
  with h have "0 < card (dom (lr_searches r))" by (auto simp: heap_ok_def card_gt_0_iff)
  with h e show ?thesis by (simp add: heap_ok_def)
qed

lemma container_ok_clear: "container_ok (clear_container c)"
  by (simp add: container_ok_def clear_container_def folders_sorted_def)

lemma internal_unref_ok:
  assumes "heap_ok r (e + 1) X" "0 \<le> e"
  shows "\<exists>r'. internal_unref r = Some r' \<and> heap_ok r' e X \<and> same_root r r'"
proof -
  have live: "lr_live r" and ic: "lr_intcount r = int (card (dom (lr_searches r))) + e + 1"
    using assms by (auto simp: heap_ok_def)
  show ?thesis
  proof (cases "lr_intcount r - 1 = 0")
    case True
    with ic assms(2) have "card (dom (lr_searches r)) = 0" by linarith
    with assms(1) have "dom (lr_searches r) = {}" by (auto simp: heap_ok_def)
    with True live assms show ?thesis
      by (auto simp: internal_unref_def Let_def heap_ok_def same_root_def container_ok_clear)
  next
    case False
    with live ic assms show ?thesis
      by (simp add: internal_unref_def Let_def heap_ok_def same_root_def)
  qed
qed

lemma locale_search_addref_ok:
  assumes "heap_ok r e X" "0 < X a"
  shows "\<exists>r'. locale_search_addref a r = Some r' \<and> heap_ok r' e (\<lambda>b. X b + ind (Some a) b) \<and> same_root r r'"
proof -
  obtain s where s: "lr_searches r a = Some s" using heap_ok_Some [OF assms] by blast
  with assms heap_ok_slot [OF assms(1), of a] show ?thesis
    by (auto simp: locale_search_addref_def heap_ok_def same_root_def insert_absorb domI ind_def)
qed

lemma heap_ok_remove:
  assumes "heap_ok r e X" "X a = 1"
  shows "heap_ok (r\<lparr>lr_searches := (lr_searches r)(a := None)\<rparr>) (e + 1) (\<lambda>b. X b - ind (Some a) b)"
proof -
  obtain s where "lr_searches r a = Some s" using heap_ok_Some [OF assms(1), of a] assms(2) by auto
  then have "a \<in> dom (lr_searches r)" by auto
  then have c: "int (card (dom (lr_searches r))) = int (card (dom (lr_searches r) - {a})) + 1"
    using assms(1) card.remove [of "dom (lr_searches r)" a] by (simp add: heap_ok_def)
  with assms show ?thesis by (auto simp: heap_ok_def ind_def)
qed

lemma locale_search_unref_ok:
  assumes "heap_ok r e X" "0 \<le> e" "\<forall>a. p = Some a \<longrightarrow> 0 < X a"
  shows "\<exists>r'. locale_search_unref p r = Some r' \<and> heap_ok r' e (\<lambda>b. X b - ind p b) \<and> same_root r r'"
proof (cases p)
  case None
  with assms show ?thesis by (simp add: locale_search_unref_def ind_def same_root_def)
next
  case (Some a)
  with assms(3) have pos: "0 < X a" by simp
  obtain s where s: "lr_searches r a = Some s" "ls_refcount s = X a" using heap_ok_Some [OF assms(1) pos] by blast
  show ?thesis
  proof (cases "X a = 1")
    case True
    from internal_unref_ok [OF heap_ok_remove [OF assms(1) True] assms(2)] s True Some show ?thesis
      by (auto simp: locale_search_unref_def same_root_def)
  next
    case False
    with assms(1) s pos Some heap_ok_slot [OF assms(1), of a] show ?thesis
      by (auto simp: locale_search_unref_def heap_ok_def same_root_def insert_absorb domI ind_def)
  qed
qed

lemma unref_all_ok:
  assumes "heap_ok r e (\<lambda>a. Y a + int (count_list ps (Some a)))" "0 \<le> e" "\<forall>a. 0 \<le> Y a"
  shows "\<exists>r'. ofold locale_search_unref ps r = Some r' \<and> heap_ok r' e Y \<and> same_root r r'"
  using assms(1)
proof (induction ps arbitrary: r)
  case Nil
  then show ?case by (simp add: same_root_def)
next
  case (Cons p ps)
  let ?X = "\<lambda>a. Y a + int (count_list (p # ps) (Some a))"
  have "\<forall>a. p = Some a \<longrightarrow> 0 < ?X a" using assms(3) by (auto simp: add_nonneg_pos)
  then obtain r1 where r1: "locale_search_unref p r = Some r1" "heap_ok r1 e (\<lambda>b. ?X b - ind p b)" "same_root r r1"
    using locale_search_unref_ok [OF Cons.prems assms(2)] by blast
  have "(\<lambda>b. ?X b - ind p b) = (\<lambda>a. Y a + int (count_list ps (Some a)))" by (auto simp: ind_def)
  with r1(2) Cons.IH [of r1] obtain r2 where "ofold locale_search_unref ps r1 = Some r2" "heap_ok r2 e Y" "same_root r1 r2"
    by auto
  with r1 show ?case by (auto simp: same_root_def)
qed

section \<open>Creation\<close>

lemma find_parent_bound:
  "folders_sorted fs \<Longrightarrow> is_cstring name \<Longrightarrow> j \<le> length name \<Longrightarrow> find_parent fs name j = Some p \<Longrightarrow> p < length fs"
proof (induction j)
  case (Suc j)
  then show ?case using search_folder_bound [of fs name j] by (auto split: if_splits option.splits)
qed simp

text \<open>A folder as read from the directory.\<close>

definition raw_folder_ok :: "nat \<Rightarrow> locale_folder \<Rightarrow> bool" where
  "raw_folder_ok maxlength f \<longleftrightarrow> is_cstring (lf_name f) \<and> lf_length f = length (lf_name f)
     \<and> lf_length f \<le> maxlength \<and> slash \<notin> set (lf_name f) \<and> is_name (lf_name f)"

lemma raw_folder_ok_mono: "raw_folder_ok m f \<Longrightarrow> m \<le> n \<Longrightarrow> raw_folder_ok n f"
  by (simp add: raw_folder_ok_def)

lemma add_folder_ok:
  assumes "add_folder c name True True = (c1, r1)" "raw_folder_ok (length name) \<lparr>lf_parent = None, lf_length = length name, lf_name = name\<rparr>"
    and "\<forall>f \<in> set (lc_folders c). raw_folder_ok (lc_maxlength c) f"
  shows "\<forall>f \<in> set (lc_folders c1). raw_folder_ok (lc_maxlength c1) f"
proof -
  let ?m = "if length name > lc_maxlength c then length name else lc_maxlength c"
  have "\<forall>f \<in> set (lc_folders c). raw_folder_ok ?m f" using assms(3) raw_folder_ok_mono [of "lc_maxlength c" _ ?m] by simp
  moreover have "raw_folder_ok ?m \<lparr>lf_parent = None, lf_length = length name, lf_name = name\<rparr>"
    by (rule raw_folder_ok_mono [OF assms(2)]) simp
  moreover have "c1 = c\<lparr>lc_folders := lc_folders c @ [\<lparr>lf_parent = None, lf_length = length name, lf_name = name\<rparr>], lc_maxlength := ?m\<rparr>"
    using assms(1) by (simp add: add_folder_def)
  ultimately show ?thesis by simp
qed

lemma scan_entries_folders:
  assumes "scan_entries c entries alloc = (c', rc)" "\<not> rc < 0"
    and "\<forall>(n, isdir) \<in> set entries. is_cstring n \<and> slash \<notin> set n \<and> n \<noteq> ''''"
    and "\<forall>f \<in> set (lc_folders c). raw_folder_ok (lc_maxlength c) f"
  shows "\<forall>f \<in> set (lc_folders c'). raw_folder_ok (lc_maxlength c') f"
  using assms
proof (induction c entries alloc arbitrary: c' rc rule: scan_entries.induct)
  case (2 c name isdir es alloc)
  show ?case
  proof (cases "isdir \<and> \<not> (name = ''.'' \<or> name = ''..'')")
    case False
    have "scan_entries c es alloc = (c', rc)" using "2.prems"(1) False by (simp split: if_splits)
    then show ?thesis using "2.IH"(2) [OF False] "2.prems"(2-4) by simp
  next
    case True
    have sc: "(case add_folder c name True (hd (alloc @ [True])) of (c', rc) \<Rightarrow> if rc < 0 then (c', rc) else scan_entries c' es (tl alloc)) = (c', rc)"
      using "2.prems"(1) True by simp
    obtain c1 r1 where c1: "add_folder c name True (hd (alloc @ [True])) = (c1, r1)" by fastforce
    with sc "2.prems"(2) have r1: "\<not> r1 < 0" "scan_entries c1 es (tl alloc) = (c', rc)" by (auto split: if_splits)
    then have hd: "hd (alloc @ [True])" using c1 by (auto simp: add_folder_def split: if_splits)
    have "\<forall>f \<in> set (lc_folders c1). raw_folder_ok (lc_maxlength c1) f"
      using c1 hd "2.prems"(3,4) True by (intro add_folder_ok [of c name c1 r1]) (auto simp: is_name_def raw_folder_ok_def)
    then show ?thesis using "2.IH"(1) [OF True c1 [symmetric] r1] "2.prems"(2,3) by simp
  qed
qed simp

lemma folders_sorted_link: "folders_sorted fs \<Longrightarrow> folders_sorted (link_parents fs)"
  by (auto simp: folders_sorted_def link_parents_def o_def)

definition dir_ok :: "errno + (string \<times> bool) list \<times> int \<Rightarrow> bool" where
  "dir_ok dir \<longleftrightarrow> (\<forall>entries rc. dir = Inr (entries, rc) \<longrightarrow> (\<forall>(n, isdir) \<in> set entries. is_cstring n \<and> slash \<notin> set n \<and> n \<noteq> ''''))"

lemma init_container_ok:
  assumes "init_container dir alloc = (c, rc)" "rc = 0" "dir_ok dir"
  shows "container_ok c"
proof (cases dir)
  case (Inl e)
  with assms show ?thesis by (auto simp: init_container_def container_ok_def folders_sorted_def Let_def)
next
  case (Inr p)
  obtain entries rc0 where p: "p = (entries, rc0)" by fastforce
  let ?c0 = "\<lparr>lc_maxlength = 0, lc_folders = []\<rparr>"
  obtain c1 r1 where c1: "scan_entries ?c0 entries alloc = (c1, r1)" by fastforce
  have r: "\<not> r1 < 0" and c: "c = c1\<lparr>lc_folders := link_parents (qsort_folders (lc_folders c1))\<rparr>"
    using assms(1,2) Inr p c1 by (auto simp: init_container_def Let_def split: if_splits)
  have ok: "\<forall>f \<in> set (lc_folders c1). raw_folder_ok (lc_maxlength c1) f"
    by (rule scan_entries_folders [OF c1 r]) (use assms(3) Inr p in \<open>auto simp: dir_ok_def\<close>)
  then have s: "folders_sorted (qsort_folders (lc_folders c1))"
    by (intro folders_sorted_qsort) (auto simp: raw_folder_ok_def)
  have "find_parent (qsort_folders (lc_folders c1)) (lf_name f) (length (lf_name f)) = Some q
      \<Longrightarrow> q < length (lc_folders c1)" if "f \<in> set (lc_folders c1)" for f q
    using find_parent_bound [OF s, of "lf_name f"] ok that by (fastforce simp: raw_folder_ok_def)
  with ok folders_sorted_link [OF s] show ?thesis
    by (auto simp: c container_ok_def link_parents_def raw_folder_ok_def)
qed

lemma parents_done_all:
  "parents_done fs (length nodes) nodes \<longleftrightarrow> (\<forall>n \<in> set nodes. \<forall>p. lf_parent (fs ! n) = Some p \<longrightarrow> p \<in> set nodes)"
  by (simp add: parents_done_def all_set_conv_all_nth)

lemma create_search_nodes:
  assumes "container_ok c" "is_cstring d" "len \<le> length d"
    and "build_search (lc_folders c) imm d len ([], mem) = Some st"
  shows "case fulfill_search (search_fuel (lc_folders c)) (lc_folders c) 0 st of
      None \<Rightarrow> False | Some None \<Rightarrow> True | Some (Some st') \<Rightarrow> search_ok (lc_folders c) (fst st')"
proof -
  let ?fs = "lc_folders c"
  have n: "nodes_ok ?fs st"
    using build_search_ok [OF assms(4)] assms(1-3) by (simp add: nodes_ok_def container_ok_def)
  have "case fulfill_search (search_fuel ?fs) ?fs 0 st of
      None \<Rightarrow> False
    | Some None \<Rightarrow> True
    | Some (Some st') \<Rightarrow> nodes_ok ?fs st' \<and> parents_done ?fs (length (fst st')) (fst st') \<and> (\<exists>zs. fst st' = fst st @ zs)"
    using assms(1) by (intro fulfill_search_total n) (auto simp: container_ok_def parents_done_def search_fuel_def)
  then show ?thesis
    by (auto simp: nodes_ok_def search_ok_def parents_done_all simp del: split_paired_All split_paired_Ex split: option.splits)
qed

lemma create_search_ok:
  assumes "heap_ok r 1 X" "is_cstring d" "len \<le> length d"
    and "\<forall>a. alloc = Some a \<longrightarrow> lr_searches r a = None"
  shows "\<exists>r' p. create_search r d len imm alloc mem = Some (r', p)
    \<and> heap_ok r' 1 (\<lambda>b. X b + ind p b) \<and> same_root r r' \<and> lr_live r' \<and> (p = None \<or> p = alloc)"
proof (cases alloc)
  case None
  with assms(1) show ?thesis by (auto simp: create_search_def ind_def same_root_def heap_ok_def)
next
  case (Some a)
  let ?fs = "lc_folders (lr_container r)"
  let ?s = "\<lambda>nodes. \<lparr>ls_head = nodes, ls_refcount = 1, ls_definition = take len d\<rparr>"
  let ?r = "\<lambda>nodes. r\<lparr>lr_intcount := lr_intcount r + 1, lr_searches := (lr_searches r)(a \<mapsto> ?s nodes)\<rparr>"
  have fresh: "lr_searches r a = None" using assms(4) Some by blast
  then have X: "X a = 0" using heap_ok_slot [OF assms(1), of a] by simp
  have r0: "heap_ok (?r nodes) 1 (\<lambda>b. X b + ind (Some a) b)" if "search_ok ?fs nodes" for nodes
  proof -
    have "a \<notin> dom (lr_searches r)" using fresh by auto
    with assms(1) X that show ?thesis by (auto simp: heap_ok_def ind_def)
  qed
  have sr: "same_root r (?r nodes)" and live: "lr_live (?r nodes)" for nodes
    using assms(1) by (auto simp: same_root_def heap_ok_def)
  have empty: "search_ok ?fs []" by (simp add: search_ok_def)
  have fail: "\<exists>r'. locale_search_unref (Some a) (?r []) = Some r' \<and> heap_ok r' 1 X \<and> same_root r r' \<and> lr_live r'"
  proof -
    obtain r' where r': "locale_search_unref (Some a) (?r []) = Some r'"
      "heap_ok r' 1 (\<lambda>b. X b + ind (Some a) b - ind (Some a) b)" "same_root (?r []) r'"
      using locale_search_unref_ok [OF r0 [OF empty], of "Some a"] X by (auto simp: ind_def)
    moreover have "lr_live r'" using r'(2) by (simp add: heap_ok_def)
    ultimately show ?thesis using sr [of "[]"] by (auto simp: same_root_def)
  qed
  show ?thesis
  proof (cases "build_search ?fs imm d len ([], mem)")
    case None
    with fail Some show ?thesis by (auto simp: create_search_def Let_def ind_def)
  next
    case st: (Some st)
    have c: "container_ok (lr_container r)" using assms(1) by (simp add: heap_ok_def)
    from create_search_nodes [OF c assms(2,3) st] consider
      (nomem) "fulfill_search (search_fuel ?fs) ?fs 0 st = Some None"
      | (finished) nodes m where "fulfill_search (search_fuel ?fs) ?fs 0 st = Some (Some (nodes, m))" "search_ok ?fs nodes"
      by (force split: option.splits)
    then show ?thesis
    proof cases
      case nomem
      with fail Some st show ?thesis by (auto simp: create_search_def Let_def ind_def)
    next
      case finished
      with r0 [OF finished(2)] sr [of nodes] live [of nodes] Some st show ?thesis
        by (simp add: create_search_def Let_def)
    qed
  qed
qed

lemma lru_shift_spec:
  "i < length lru \<Longrightarrow> (lru_shift lru i)[0 := p] = p # take i lru @ drop (Suc i) lru"
proof (induction i arbitrary: lru)
  case 0
  then show ?case by (cases lru) auto
next
  case (Suc i)
  then have "(lru_shift lru (Suc i))[0 := p] = p # take i lru @ drop (Suc i) (lru[Suc i := lru ! i])"
    using Suc.IH [of "lru[Suc i := lru ! i]"] by simp
  also have "drop (Suc i) (lru[Suc i := lru ! i]) = lru ! i # drop (Suc (Suc i)) lru"
    using Suc.prems by (simp add: Cons_nth_drop_Suc [symmetric])
  finally show ?case using Suc.prems by (simp add: take_Suc_conv_app_nth)
qed

lemma count_list_move:
  assumes "i < length lru"
  shows "count_list (p # take i lru @ drop (Suc i) lru) x + (if lru ! i = x then 1 else 0)
    = count_list lru x + (if p = x then 1 else 0)"
proof -
  have "lru = take i lru @ lru ! i # drop (Suc i) lru" using assms by (rule id_take_nth_drop)
  then have "count_list lru x = count_list (take i lru @ lru ! i # drop (Suc i) lru) x" by simp
  then show ?thesis by (simp add: count_list_append)
qed

section \<open>The invariant of a root and its preservation\<close>

definition refs :: "locale_root \<Rightarrow> (addr \<Rightarrow> nat) \<Rightarrow> addr \<Rightarrow> int" where
  "refs r held a = int (held a) + (if 0 < lr_refcount r then int (count_list (lr_lru r) (Some a)) else 0)
     + ind (lr_default_search r) a"

definition root_inv :: "locale_root \<Rightarrow> (addr \<Rightarrow> nat) \<Rightarrow> bool" where
  "root_inv r held \<longleftrightarrow> 0 \<le> lr_refcount r \<and> length (lr_lru r) = LRU_COUNT
     \<and> heap_ok r (if 0 < lr_refcount r then 1 else 0) (refs r held)"

lemma same_root_inv:
  "root_inv r held \<Longrightarrow> same_root r r' \<Longrightarrow> heap_ok r' (if 0 < lr_refcount r then 1 else 0) Y
    \<Longrightarrow> (\<And>a. Y a = refs r held' a) \<Longrightarrow> root_inv r' held'"
proof -
  assume "root_inv r held" "same_root r r'" "heap_ok r' (if 0 < lr_refcount r then 1 else 0) Y" "\<And>a. Y a = refs r held' a"
  moreover from this have "Y = refs r' held'" by (auto simp: refs_def same_root_def)
  ultimately show ?thesis by (simp add: root_inv_def same_root_def)
qed

lemma root_inv_heap: "root_inv r held \<Longrightarrow> heap_ok r (if 0 < lr_refcount r then 1 else 0) (refs r held)"
  by (simp add: root_inv_def)

lemma root_share_nonneg: "0 \<le> (if 0 < lr_refcount r then 1 else (0::int))"
  by simp

lemma refs_held: "0 < held a \<Longrightarrow> 0 < refs r held a"
  by (simp add: refs_def ind_def)

lemma refs_lru: "0 < lr_refcount r \<Longrightarrow> Some a \<in> set (lr_lru r) \<Longrightarrow> 0 < refs r held a"
  using count_list_0_iff [of "lr_lru r" "Some a"] by (auto simp: refs_def ind_def)

lemma refs_default: "lr_default_search r = Some a \<Longrightarrow> 0 < refs r held a"
  by (simp add: refs_def ind_def)

lemma search_addref_inv [keeps_inv]:
  assumes "root_inv r held" "0 < held a"
  shows "\<exists>r'. locale_search_addref a r = Some r' \<and> root_inv r' (held(a := held a + 1))"
proof -
  obtain r' where "locale_search_addref a r = Some r'"
    "heap_ok r' (if 0 < lr_refcount r then 1 else 0) (\<lambda>b. refs r held b + ind (Some a) b)" "same_root r r'"
    using locale_search_addref_ok [OF root_inv_heap [OF assms(1)] refs_held [of held a r, OF assms(2)]] by blast
  with same_root_inv [OF assms(1), of r' _ "held(a := held a + 1)"] show ?thesis by (auto simp: refs_def ind_def)
qed

lemma search_unref_inv [keeps_inv]:
  assumes "root_inv r held" "0 < held a"
  shows "\<exists>r'. locale_search_unref (Some a) r = Some r' \<and> root_inv r' (held(a := held a - 1))"
proof -
  obtain r' where r': "locale_search_unref (Some a) r = Some r'"
    "heap_ok r' (if 0 < lr_refcount r then 1 else 0) (\<lambda>b. refs r held b - ind (Some a) b)" "same_root r r'"
    using locale_search_unref_ok [OF root_inv_heap [OF assms(1)] root_share_nonneg, of "Some a"] refs_held [of held a r, OF assms(2)] by auto
  have "int (held a - 1) = int (held a) - 1" using assms(2) by simp
  with r' same_root_inv [OF assms(1) r'(3,2), of "held(a := held a - 1)"] show ?thesis by (auto simp: refs_def ind_def)
qed

lemma root_addref_inv [keeps_inv]:
  assumes "root_inv r held" "0 < lr_refcount r"
  shows "\<exists>r'. locale_root_addref r = Some r' \<and> root_inv r' held"
proof -
  have "lr_live r" using assms by (simp add: root_inv_def heap_ok_def)
  with assms show ?thesis
    by (simp add: locale_root_addref_def root_inv_def heap_ok_def refs_def)
qed

lemma root_unref_inv [keeps_inv]:
  assumes "root_inv r held" "0 < lr_refcount r"
  shows "\<exists>r'. locale_root_unref r = Some r' \<and> root_inv r' held"
proof -
  have live: "lr_live r" using assms by (simp add: root_inv_def heap_ok_def)
  let ?r = "r\<lparr>lr_refcount := lr_refcount r - 1\<rparr>"
  show ?thesis
  proof (cases "lr_refcount r = 1")
    case False
    with assms live show ?thesis
      by (simp add: locale_root_unref_def Let_def root_inv_def heap_ok_def refs_def)
  next
    case True
    let ?Y = "\<lambda>a. int (held a) + ind (lr_default_search r) a"
    have "refs r held = (\<lambda>a. ?Y a + int (count_list (lr_lru ?r) (Some a)))" using assms(2) by (auto simp: refs_def)
    with assms have "heap_ok ?r 1 (\<lambda>a. ?Y a + int (count_list (lr_lru ?r) (Some a)))"
      by (simp add: root_inv_def heap_ok_def)
    then obtain r1 where r1: "ofold locale_search_unref (lr_lru ?r) ?r = Some r1" "heap_ok r1 1 ?Y" "same_root ?r r1"
      using unref_all_ok [of ?r 1 ?Y "lr_lru ?r"] by (auto simp: ind_def)
    from internal_unref_ok [of r1 0 ?Y] r1(2) obtain r2 where r2: "internal_unref r1 = Some r2" "heap_ok r2 0 ?Y" "same_root r1 r2"
      by auto
    have "refs r2 held = ?Y" using r1(3) r2(3) True by (auto simp: refs_def same_root_def)
    with r1 r2 True assms live show ?thesis by (auto simp: locale_root_unref_def Let_def root_inv_def same_root_def)
  qed
qed

lemma set_default_inv [keeps_inv]:
  assumes "root_inv r held" "\<forall>a. p = Some a \<longrightarrow> 0 < held a"
  shows "\<exists>r'. locale_root_set_default_search r p = Some r' \<and> root_inv r' held"
proof -
  let ?e = "if 0 < lr_refcount r then 1 else (0::int)" and ?older = "lr_default_search r"
  let ?X = "\<lambda>b. refs r held b + ind p b"
  obtain r1 where r1: "(case p of None \<Rightarrow> Some (r\<lparr>lr_default_search := None\<rparr>)
       | Some a \<Rightarrow> map_option (\<lambda>r'. r'\<lparr>lr_default_search := Some a\<rparr>) (locale_search_addref a r)) = Some r1"
    "heap_ok r1 ?e ?X" "same_root r (r1\<lparr>lr_default_search := ?older\<rparr>)" "lr_default_search r1 = p"
  proof (cases p)
    case None
    with assms(1) that [of "r\<lparr>lr_default_search := None\<rparr>"] show ?thesis
      by (simp add: root_inv_def heap_ok_def ind_def same_root_def)
  next
    case (Some a)
    with locale_search_addref_ok [OF root_inv_heap [OF assms(1)] refs_held, of a] assms(2) obtain r' where
      "locale_search_addref a r = Some r'" "heap_ok r' ?e ?X" "same_root r r'" by auto
    with Some that [of "r'\<lparr>lr_default_search := Some a\<rparr>"] show ?thesis by (simp add: heap_ok_def same_root_def)
  qed
  have "\<forall>a. ?older = Some a \<longrightarrow> 0 < ?X a" using refs_default by (fastforce simp: ind_def add_pos_nonneg)
  then obtain r2 where r2: "locale_search_unref ?older r1 = Some r2" "heap_ok r2 ?e (\<lambda>b. ?X b - ind ?older b)" "same_root r1 r2"
    using locale_search_unref_ok [OF r1(2) root_share_nonneg \<open>\<forall>a. ?older = Some a \<longrightarrow> 0 < ?X a\<close>] by auto
  have "(\<lambda>b. ?X b - ind ?older b) = refs r2 held" using r1(3,4) r2(3) by (auto simp: refs_def same_root_def)
  with r1 r2 assms(1) show ?thesis
    by (simp add: locale_root_set_default_search_def Let_def root_inv_def same_root_def)
qed

lemma trim_end_le: "trim_end d n \<le> n"
  by (induction n) (auto intro: le_SucI)

lemma normal_definition_ok:
  "normal_definition def = (d, len) \<Longrightarrow> (\<forall>s. def = Some s \<longrightarrow> is_cstring s) \<Longrightarrow> is_cstring d \<and> len \<le> length d"
  by (auto simp: normal_definition_def Let_def trim_end_le is_cstring_dropWhile is_cstring_def [of "[]"] split: option.splits)

text \<open>Moving an entry of the cache to the front, and taking a reference on it.\<close>

lemma lru_front_ok:
  assumes "heap_ok r 1 X" "0 < lr_refcount r" "length (lr_lru r) = LRU_COUNT" "i < LRU_COUNT" "0 < X a"
    and "\<And>b. X b = refs r held b - ind (lr_lru r ! i) b + ind (Some a) b"
  shows "\<exists>r'. locale_search_addref a (r\<lparr>lr_lru := (lru_shift (lr_lru r) i)[0 := Some a]\<rparr>) = Some r'
    \<and> root_inv r' (held(a := held a + 1)) \<and> lr_refcount r' = lr_refcount r \<and> lr_live r'"
proof -
  let ?r = "r\<lparr>lr_lru := (lru_shift (lr_lru r) i)[0 := Some a]\<rparr>"
  have "heap_ok ?r 1 X" using assms(1) by (simp add: heap_ok_def)
  then obtain r' where r': "locale_search_addref a ?r = Some r'" "heap_ok r' 1 (\<lambda>b. X b + ind (Some a) b)" "same_root ?r r'"
    using locale_search_addref_ok assms(5) by blast
  have i: "i < length (lr_lru r)" using assms(3,4) by simp
  have cnt: "int (count_list (lr_lru r') (Some b)) = int (count_list (lr_lru r) (Some b)) + ind (Some a) b - ind (lr_lru r ! i) b" for b
    using r'(3) count_list_move [OF i, of "Some a" "Some b"] lru_shift_spec [OF i, of "Some a"]
    by (simp add: same_root_def ind_def split: if_splits)
  have "X b + ind (Some a) b = refs r' (held(a := held a + 1)) b" for b
    using assms(2) assms(6) [of b] cnt [of b] r'(3) by (auto simp: refs_def same_root_def ind_def)
  then have "heap_ok r' 1 (refs r' (held(a := held a + 1)))" using r'(2) by simp
  moreover have "length (lr_lru r') = LRU_COUNT"
    using r'(3) i assms(3,4) lru_shift_spec [OF i, of "Some a"] by (simp add: same_root_def)
  ultimately show ?thesis using r' assms(1,2) by (simp add: root_inv_def same_root_def heap_ok_def)
qed

definition hold :: "addr option \<Rightarrow> (addr \<Rightarrow> nat) \<Rightarrow> addr \<Rightarrow> nat" where
  "hold p held = (case p of None \<Rightarrow> held | Some a \<Rightarrow> held(a := held a + 1))"

lemma root_search_inv [keeps_inv]:
  assumes "root_inv r held" "0 < lr_refcount r" "\<forall>s. def = Some s \<longrightarrow> is_cstring s"
    and "\<forall>a. alloc = Some a \<longrightarrow> lr_searches r a = None"
  shows "\<exists>r' p. locale_root_search r def imm alloc mem = Some (r', p)
    \<and> root_inv r' (hold p held) \<and> lr_refcount r' = lr_refcount r \<and> lr_live r'"
proof -
  obtain d len where nd: "normal_definition def = (d, len)" by fastforce
  have h: "heap_ok r 1 (refs r held)" and len: "length (lr_lru r) = LRU_COUNT" using assms(1,2) by (auto simp: root_inv_def)
  show ?thesis
  proof (cases "first_index (\<lambda>p. search_matches r p d len) (lr_lru r)")
    case (Some i)
    from first_index_Some [OF this] have i: "i < length (lr_lru r)" "search_matches r (lr_lru r ! i) d len" by auto
    then obtain a where a: "lr_lru r ! i = Some a" by (auto simp: search_matches_def split: option.splits)
    have "0 < refs r held a" using refs_lru [OF assms(2)] i(1) a by (metis nth_mem)
    with lru_front_ok [OF h assms(2) len, of i a held] i(1) len a nd Some show ?thesis
      by (auto simp: locale_root_search_def Let_def hold_def)
  next
    case None
    obtain r1 p where r1: "create_search r d len imm alloc mem = Some (r1, p)" "heap_ok r1 1 (\<lambda>b. refs r held b + ind p b)"
      "same_root r r1" "lr_live r1"
      using create_search_ok [OF h _ _ assms(4)] normal_definition_ok [OF nd assms(3)] by blast
    have eq: "refs r1 h b = refs r h b" for b h using r1(3) by (simp add: refs_def same_root_def)
    show ?thesis
    proof (cases p)
      case p: None
      with r1 nd None same_root_inv [OF assms(1) r1(3), of _ held] assms(2) show ?thesis
        by (auto simp: locale_root_search_def Let_def hold_def ind_def same_root_def)
    next
      case (Some a)
      let ?old = "lr_lru r1 ! (LRU_COUNT - 1)" and ?X = "\<lambda>b. refs r held b + ind p b"
      have "lr_lru r1 = lr_lru r" using r1(3) by (simp add: same_root_def)
      then have "?old \<in> set (lr_lru r)" using len by (simp add: LRU_COUNT_def)
      then have "\<forall>c. ?old = Some c \<longrightarrow> 0 < ?X c"
        using refs_lru [OF assms(2), of _ held] heap_ok_nonneg [OF h] by (auto simp: ind_def)
      then obtain r2 where r2: "locale_search_unref ?old r1 = Some r2" "heap_ok r2 1 (\<lambda>b. ?X b - ind ?old b)" "same_root r1 r2"
        using locale_search_unref_ok [OF r1(2), of ?old] by auto
      have lru: "lr_lru r2 = lr_lru r" "lr_refcount r2 = lr_refcount r" "length (lr_lru r2) = LRU_COUNT"
        "\<And>h b. refs r2 h b = refs r h b"
        using r1(3) r2(3) len by (auto simp: same_root_def refs_def)
      have a0: "0 < ?X a - ind ?old a"
      proof -
        have "refs r held a = 0"
          using create_search_ok [OF h _ _ assms(4), of d len imm mem] normal_definition_ok [OF nd assms(3)] r1(1) Some
            assms(4) heap_ok_slot [OF h, of a] by force
        moreover from this have "?old \<noteq> Some a" using \<open>?old \<in> set (lr_lru r)\<close> refs_lru [OF assms(2), of a held] by auto
        ultimately show ?thesis using Some by (simp add: ind_def)
      qed
      have "\<exists>r'. locale_search_addref a (r2\<lparr>lr_lru := (lru_shift (lr_lru r2) (LRU_COUNT - 1))[0 := Some a]\<rparr>) = Some r'
        \<and> root_inv r' (held(a := held a + 1)) \<and> lr_refcount r' = lr_refcount r2 \<and> lr_live r'"
        by (rule lru_front_ok [OF r2(2)]) (use a0 lru assms(2) Some r1(3) in \<open>auto simp: LRU_COUNT_def same_root_def\<close>)
      with r1(1) r2(1) nd None Some lru(2) show ?thesis
        by (auto simp: locale_root_search_def Let_def hold_def)
    qed
  qed
qed

section \<open>The paths that are tried\<close>

definition localized_path :: "locale_folder \<Rightarrow> string \<Rightarrow> string" where
  "localized_path f name = locales_dir @ lf_name f @ ''/'' @ name"

definition buffer_ok :: "string \<Rightarrow> nat \<Rightarrow> string \<Rightarrow> bool" where
  "buffer_ok buf maxlength name \<longleftrightarrow> length buf = length name + maxlength + length locales_dir + 2
     \<and> drop (maxlength + length locales_dir) buf = ''/'' @ name @ [NUL]"

lemma init_buffer_ok: "\<exists>buf. init_buffer junk maxlength name = Some buf \<and> buffer_ok buf maxlength name"
proof -
  let ?L = "length locales_dir" and ?n = "length name + maxlength + (length locales_dir + 1) + 1"
  let ?j = "map junk [0 ..< ?n]"
  let ?b = "take (maxlength + ?L) ?j @ ''/'' @ drop (maxlength + ?L + 1) ?j"
  have len: "length ?j = ?n" by (simp only: length_map length_upt diff_zero)
  have 1: "memcpy ?j (maxlength + (?L + 1) - 1) ''/'' = Some ?b"
    unfolding memcpy_def using len by (simp del: upt_Suc)
  have "length ?b = ?n" "take (?L + 1 + maxlength) ?b = take (maxlength + ?L) ?j @ ''/''"
    using len by (simp_all del: upt_Suc add: min_def)
  then have 2: "memcpy ?b (?L + 1 + maxlength) (name @ [NUL]) = Some (take (maxlength + ?L) ?j @ ''/'' @ name @ [NUL])"
    unfolding memcpy_def by (simp del: upt_Suc)
  have "length (take (maxlength + ?L) ?j) = maxlength + ?L" using len by (simp del: upt_Suc)
  then have "buffer_ok (take (maxlength + ?L) ?j @ ''/'' @ name @ [NUL]) maxlength name"
    unfolding buffer_ok_def by (simp del: upt_Suc length_take)
  with 1 2 show ?thesis unfolding init_buffer_def by (simp del: upt_Suc)
qed

lemma takeWhile_NUL: "is_cstring s \<Longrightarrow> takeWhile (\<lambda>c. c \<noteq> NUL) (s @ NUL # t) = s"
  unfolding is_cstring_def by (induction s) auto

lemma folder_path_ok:
  assumes "buffer_ok buf maxlength name" "lf_length f = length (lf_name f)" "lf_length f \<le> maxlength"
    and "is_cstring (lf_name f)" "is_cstring name"
  shows "\<exists>buf'. folder_path buf maxlength f = Some (buf', localized_path f name) \<and> buffer_ok buf' maxlength name"
proof -
  let ?p = "maxlength - lf_length f" and ?L = "length locales_dir"
  let ?b = "take ?p buf @ locales_dir @ lf_name f @ ''/'' @ name @ [NUL]"
  have l: "length buf = length name + maxlength + ?L + 2" and d: "drop (maxlength + ?L) buf = ''/'' @ name @ [NUL]"
    using assms(1) by (auto simp: buffer_ok_def)
  have 1: "memcpy buf ?p locales_dir = Some (take ?p buf @ locales_dir @ drop (?p + ?L) buf)"
    using l by (simp add: memcpy_def)
  have "drop (lf_length f) (drop (?p + ?L) buf) = ''/'' @ name @ [NUL]"
    using d assms(3) by (simp add: algebra_simps)
  then have 2: "memcpy (take ?p buf @ locales_dir @ drop (?p + ?L) buf) (?p + ?L) (lf_name f) = Some ?b"
    using l assms(2,3) by (simp add: memcpy_def)
  have "is_cstring (localized_path f name)"
    using assms(4,5) by (auto simp: is_cstring_def localized_path_def locales_dir_def NUL_def)
  then have 3: "cstr_at ?b ?p = localized_path f name"
    using l takeWhile_NUL [of "localized_path f name" "[]"] by (simp add: cstr_at_def localized_path_def)
  have "buffer_ok ?b maxlength name" using l assms(2,3) by (simp add: buffer_ok_def)
  with 1 2 3 assms(2,3) show ?thesis by (simp add: folder_path_def Let_def)
qed

text \<open>The attempts up to and including the first that succeeds.\<close>

fun attempts :: "(string \<Rightarrow> 'a option) \<Rightarrow> string list \<Rightarrow> string list" where
  "attempts f [] = []"
| "attempts f (p # ps) = p # (if f p = None then attempts f ps else [])"

fun first_success :: "(string \<Rightarrow> 'a option) \<Rightarrow> string list \<Rightarrow> 'a option" where
  "first_success f [] = None"
| "first_success f (p # ps) = (case f p of None \<Rightarrow> first_success f ps | Some x \<Rightarrow> Some x)"

lemma attempts_append: "attempts f (ps @ qs) = attempts f ps @ (if first_success f ps = None then attempts f qs else [])"
  by (induction ps) (auto split: option.splits)

lemma first_success_append: "first_success f (ps @ qs) = (case first_success f ps of None \<Rightarrow> first_success f qs | Some x \<Rightarrow> Some x)"
  by (induction ps) (auto split: option.splits)

lemma set_attempts: "set (attempts f ps) \<subseteq> set ps"
  by (induction ps) auto

abbreviation node_paths :: "locale_root \<Rightarrow> string \<Rightarrow> nat list \<Rightarrow> string list" where
  "node_paths r name ns \<equiv> map (\<lambda>n. localized_path (lc_folders (lr_container r) ! n) name) ns"

lemma walk_nodes_ok:
  assumes "container_ok c" "is_cstring name" "buffer_ok buf (lc_maxlength c) name" "set ns \<subseteq> {..< length (lc_folders c)}"
  shows "\<exists>buf'. walk_nodes f (lc_folders c) (lc_maxlength c) buf ns
      = Some (attempts f (map (\<lambda>n. localized_path (lc_folders c ! n) name) ns), buf',
          first_success f (map (\<lambda>n. localized_path (lc_folders c ! n) name) ns))
    \<and> buffer_ok buf' (lc_maxlength c) name"
  using assms(3,4)
proof (induction ns arbitrary: buf)
  case (Cons n ns)
  let ?f = "lc_folders c ! n"
  have "?f \<in> set (lc_folders c)" using Cons.prems(2) by simp
  then have "lf_length ?f = length (lf_name ?f)" "lf_length ?f \<le> lc_maxlength c" "is_cstring (lf_name ?f)"
    using assms(1) by (auto simp: container_ok_def folders_sorted_def)
  from folder_path_ok [OF Cons.prems(1) this assms(2)] obtain buf1 where
    1: "folder_path buf (lc_maxlength c) ?f = Some (buf1, localized_path ?f name)" "buffer_ok buf1 (lc_maxlength c) name" by blast
  from Cons.IH [OF 1(2)] Cons.prems(2) show ?case
    using 1 by (cases "f (localized_path ?f name)") auto
qed simp

text \<open>What the search finds first, in the order of its folders, then of those of the default search.\<close>

definition candidates :: "locale_root \<Rightarrow> addr option \<Rightarrow> string \<Rightarrow> string list" where
  "candidates r search name =
     (let nodes = (\<lambda>p. case p of None \<Rightarrow> [] | Some a \<Rightarrow> ls_head (the (lr_searches r a))) in
      if nodes search = [] then []
      else node_paths r name (nodes search @ (if search = lr_default_search r then [] else nodes (lr_default_search r))))"

lemma search_head_ok:
  assumes "heap_ok r e X" "\<forall>a. p = Some a \<longrightarrow> 0 < X a"
  shows "\<exists>ns. search_head r p = Some ns \<and> set ns \<subseteq> {..< length (lc_folders (lr_container r))}
    \<and> ns = (case p of None \<Rightarrow> [] | Some a \<Rightarrow> ls_head (the (lr_searches r a)))"
proof (cases p)
  case (Some a)
  with heap_ok_Some [OF assms(1), of a] assms(2) obtain s where "lr_searches r a = Some s" by blast
  with heap_ok_slot [OF assms(1), of a] Some show ?thesis by (auto simp: search_head_def search_ok_def)
qed (simp add: search_head_def)

lemma walk_search_ok:
  assumes "heap_ok r e X" "\<forall>a. search = Some a \<longrightarrow> 0 < X a" "\<forall>a. lr_default_search r = Some a \<longrightarrow> 0 < X a"
    and "is_cstring name"
  shows "walk_search f junk r search name =
    (if candidates r search name \<noteq> [] \<and> length name > PATH_MAX then Some ([], Inl EINVAL)
     else Some (attempts f (candidates r search name), Inr (first_success f (candidates r search name))))"
proof -
  let ?c = "lr_container r"
  have c: "container_ok ?c" using assms(1) by (simp add: heap_ok_def)
  obtain ns where ns: "search_head r search = Some ns" "set ns \<subseteq> {..< length (lc_folders ?c)}"
    "ns = (case search of None \<Rightarrow> [] | Some a \<Rightarrow> ls_head (the (lr_searches r a)))" using search_head_ok [OF assms(1,2)] by blast
  obtain ds where ds: "search_head r (lr_default_search r) = Some ds" "set ds \<subseteq> {..< length (lc_folders ?c)}"
    "ds = (case lr_default_search r of None \<Rightarrow> [] | Some a \<Rightarrow> ls_head (the (lr_searches r a)))"
    using search_head_ok [OF assms(1,3)] by blast
  have cand: "candidates r search name = (if ns = [] then []
      else node_paths r name ns @ (if search = lr_default_search r then [] else node_paths r name ds))"
    by (simp add: candidates_def Let_def ns(3) ds(3))
  obtain buf where buf: "init_buffer junk (lc_maxlength ?c) name = Some buf" "buffer_ok buf (lc_maxlength ?c) name"
    using init_buffer_ok by blast
  obtain buf1 where w1: "walk_nodes f (lc_folders ?c) (lc_maxlength ?c) buf ns
      = Some (attempts f (node_paths r name ns), buf1, first_success f (node_paths r name ns))" "buffer_ok buf1 (lc_maxlength ?c) name"
    using walk_nodes_ok [OF c assms(4) buf(2) ns(2)] by blast
  obtain buf2 where w2: "walk_nodes f (lc_folders ?c) (lc_maxlength ?c) buf1 ds
      = Some (attempts f (node_paths r name ds), buf2, first_success f (node_paths r name ds))"
    using walk_nodes_ok [OF c assms(4) w1(2) ds(2)] by blast
  show ?thesis
    using ns(1) ds(1) buf(1) w1(1) w2 cand
    by (cases "first_success f (node_paths r name ns)")
       (auto simp: walk_search_def Let_def attempts_append first_success_append split: option.splits)
qed

lemma do_open_ok:
  assumes "heap_ok r e X" "\<forall>a. search = Some a \<longrightarrow> 0 < X a" "\<forall>a. lr_default_search r = Some a \<longrightarrow> 0 < X a"
    and "is_cstring filename"
  shows "do_open openat junk r search filename o_creat =
    (case normalsubpath filename of
       None \<Rightarrow> Some ([], Inl EINVAL)
     | Some name \<Rightarrow>
         let cs = candidates r search name; fd = (\<lambda>p. if openat p \<ge> 0 then Some (openat p) else None) in
         if o_creat \<or> (cs \<noteq> [] \<and> length name > PATH_MAX) then Some ([], Inl EINVAL)
         else Some (attempts fd (cs @ [name]), Inr (openat (last (attempts fd (cs @ [name]))))))"
proof (cases "normalsubpath filename")
  case (Some name)
  let ?fd = "\<lambda>p. if openat p \<ge> 0 then Some (openat p) else None"
  have n: "is_cstring name" using Some assms(4) by (auto simp: normalsubpath_def Let_def is_cstring_dropWhile split: if_splits)
  have last: "first_success ?fd ps = Some x \<Longrightarrow> ps \<noteq> [] \<and> attempts ?fd ps \<noteq> [] \<and> x = openat (last (attempts ?fd ps))" for ps x
    by (induction ps) (auto split: if_splits)
  show ?thesis
    using walk_search_ok [OF assms(1-3) n, of ?fd junk] Some last [of "candidates r search name"]
    by (cases "first_success ?fd (candidates r search name)") (auto simp: do_open_def Let_def attempts_append)
qed (simp add: do_open_def)

lemma candidates_inside:
  assumes "container_ok (lr_container r)" "stays_inside (components name) 0"
    and "\<And>a s. lr_searches r a = Some s \<Longrightarrow> set (ls_head s) \<subseteq> {..< length (lc_folders (lr_container r))}"
    and "\<forall>a. search = Some a \<longrightarrow> lr_searches r a \<noteq> None" "\<forall>a. lr_default_search r = Some a \<longrightarrow> lr_searches r a \<noteq> None"
    and "p \<in> set (candidates r search name @ [name])"
  shows "stays_inside (components p) 0"
proof (cases "p = name")
  case False
  then obtain n where n: "p = localized_path (lc_folders (lr_container r) ! n) name" "n < length (lc_folders (lr_container r))"
    using assms(3-6) by (auto simp: candidates_def Let_def split: option.splits if_splits)
  let ?f = "lc_folders (lr_container r) ! n"
  have f: "slash \<notin> set (lf_name ?f)" "is_name (lf_name ?f)" using assms(1) n(2) by (auto simp: container_ok_def)
  have "components p = ''locales'' # lf_name ?f # components name"
    using components_append_dir [of "''locales''" "lf_name ?f @ ''/'' @ name"] components_append_dir [OF f(1), of name] n(1)
    by (simp add: localized_path_def locales_dir_def)
  moreover have "comp_step ''locales'' 0 = 1" "comp_step (lf_name ?f) 1 = 2" using f(2) by (auto simp: comp_step_def is_name_def)
  ultimately show ?thesis using stays_inside_mono [OF assms(2), of 2] by simp
qed (use assms(2) in simp)

section \<open>The life of a root\<close>

text \<open>
  The calls of the programming interface. Besides the root the state has the number of references to
  each search that callers hold. A caller only uses a root it has a reference to, and a search it
  holds; memory comes from addresses that are not in use; strings are C strings.
\<close>

datatype locale_op =
    L_search "string option" bool "addr option" nat
  | L_search_addref addr
  | L_search_unref addr
  | L_set_default "addr option"
  | L_root_addref
  | L_root_unref
  | L_search_open addr string bool
  | L_root_open string bool "string option" "addr option" nat

fun locale_op_ok :: "locale_op \<Rightarrow> locale_root \<times> (addr \<Rightarrow> nat) \<Rightarrow> bool" where
  "locale_op_ok (L_search def _ alloc _) (r, held) \<longleftrightarrow> 0 < lr_refcount r
     \<and> (\<forall>s. def = Some s \<longrightarrow> is_cstring s) \<and> (\<forall>a. alloc = Some a \<longrightarrow> lr_searches r a = None)"
| "locale_op_ok (L_search_addref a) (r, held) \<longleftrightarrow> 0 < held a"
| "locale_op_ok (L_search_unref a) (r, held) \<longleftrightarrow> 0 < held a"
| "locale_op_ok (L_set_default p) (r, held) \<longleftrightarrow> 0 < lr_refcount r \<and> (\<forall>a. p = Some a \<longrightarrow> 0 < held a)"
| "locale_op_ok L_root_addref (r, held) \<longleftrightarrow> 0 < lr_refcount r"
| "locale_op_ok L_root_unref (r, held) \<longleftrightarrow> 0 < lr_refcount r"
| "locale_op_ok (L_search_open a name _) (r, held) \<longleftrightarrow> 0 < held a \<and> is_cstring name"
| "locale_op_ok (L_root_open name _ loc alloc _) (r, held) \<longleftrightarrow> 0 < lr_refcount r \<and> is_cstring name
     \<and> (\<forall>s. loc = Some s \<longrightarrow> is_cstring s) \<and> (\<forall>a. alloc = Some a \<longrightarrow> lr_searches r a = None)"

fun locale_exec :: "(string \<Rightarrow> int) \<Rightarrow> (nat \<Rightarrow> char) \<Rightarrow> locale_op \<Rightarrow> locale_root \<times> (addr \<Rightarrow> nat)
    \<Rightarrow> (locale_root \<times> (addr \<Rightarrow> nat)) option" where
  "locale_exec openat junk (L_search def imm alloc mem) (r, held) =
     map_option (\<lambda>(r', p). (r', hold p held)) (locale_root_search r def imm alloc mem)"
| "locale_exec openat junk (L_search_addref a) (r, held) =
     map_option (\<lambda>r'. (r', held(a := held a + 1))) (locale_search_addref a r)"
| "locale_exec openat junk (L_search_unref a) (r, held) =
     map_option (\<lambda>r'. (r', held(a := held a - 1))) (locale_search_unref (Some a) r)"
| "locale_exec openat junk (L_set_default p) (r, held) =
     map_option (\<lambda>r'. (r', held)) (locale_root_set_default_search r p)"
| "locale_exec openat junk L_root_addref (r, held) = map_option (\<lambda>r'. (r', held)) (locale_root_addref r)"
| "locale_exec openat junk L_root_unref (r, held) = map_option (\<lambda>r'. (r', held)) (locale_root_unref r)"
| "locale_exec openat junk (L_search_open a name creat) (r, held) =
     map_option (\<lambda>_. (r, held)) (locale_search_open openat junk r a name creat)"
| "locale_exec openat junk (L_root_open name creat loc alloc mem) (r, held) =
     map_option (\<lambda>(r', _). (r', held)) (locale_root_open openat junk r name creat loc alloc mem)"

inductive locale_reach :: "(string \<Rightarrow> int) \<Rightarrow> (nat \<Rightarrow> char) \<Rightarrow> locale_root \<times> (addr \<Rightarrow> nat) \<Rightarrow> bool"
  for openat junk where
  create: "locale_root_create dirfd calloc_ok dir alloc = Some r \<Longrightarrow> dir_ok dir \<Longrightarrow> locale_reach openat junk (r, \<lambda>_. 0)"
| step: "locale_reach openat junk st \<Longrightarrow> locale_op_ok op st \<Longrightarrow> locale_exec openat junk op st = Some st'
    \<Longrightarrow> locale_reach openat junk st'"

lemma locale_root_create_inv:
  assumes "locale_root_create dirfd calloc_ok dir alloc = Some r" "dir_ok dir"
  shows "root_inv r (\<lambda>_. 0)"
proof -
  obtain c rc where c: "init_container dir alloc = (c, rc)" by fastforce
  with assms have "rc = 0" by (auto simp: locale_root_create_def split: if_splits)
  with init_container_ok [OF c this assms(2)] assms(1) c show ?thesis
    by (auto simp: locale_root_create_def root_inv_def heap_ok_def refs_def ind_def LRU_COUNT_def split: if_splits)
qed

lemma root_inv_refs: "root_inv r held \<Longrightarrow> p = Some a \<Longrightarrow> p = lr_default_search r \<or> 0 < held a \<Longrightarrow> 0 < refs r held a"
  using refs_held [of held a r] refs_default [of r a held] by auto

lemma do_open_total:
  assumes "root_inv r held" "\<forall>a. p = Some a \<longrightarrow> 0 < refs r held a" "is_cstring name"
  shows "\<exists>res. do_open openat junk r p name creat = Some res"
  using do_open_ok [OF root_inv_heap [OF assms(1)] assms(2) _ assms(3)] refs_default
  by (auto simp: Let_def split: option.splits)

lemma root_open_inv [keeps_inv]:
  assumes "root_inv r held" "locale_op_ok (L_root_open name creat loc alloc mem) (r, held)"
  shows "\<exists>r' res. locale_root_open openat junk r name creat loc alloc mem = Some (r', res) \<and> root_inv r' held"
proof -
  have name: "is_cstring name" using assms(2) by simp
  obtain r1 p where r1: "(case loc of None \<Rightarrow> Some (r, None) | Some l \<Rightarrow> locale_root_search r (Some l) False alloc mem) = Some (r1, p)"
    "root_inv r1 (hold p held)"
  proof (cases loc)
    case None
    with assms(1) that show ?thesis by (simp add: hold_def)
  next
    case (Some l)
    with root_search_inv [OF assms(1), of "Some l"] assms(2) that show ?thesis by (simp del: split_paired_Ex) blast
  qed
  let ?s = "case p of None \<Rightarrow> lr_default_search r1 | Some a \<Rightarrow> Some a"
  have "\<forall>a. ?s = Some a \<longrightarrow> 0 < refs r1 (hold p held) a"
    using refs_held [of "hold p held"] refs_default [of r1] by (auto simp: hold_def split: option.splits)
  with do_open_total [OF r1(2) _ name] obtain res where res: "do_open openat junk r1 ?s name creat = Some res" by blast
  have "\<exists>r2. locale_search_unref p r1 = Some r2 \<and> root_inv r2 held"
  proof (cases p)
    case None
    with r1 show ?thesis by (simp add: locale_search_unref_def hold_def)
  next
    case (Some a)
    with search_unref_inv [OF r1(2), of a] show ?thesis by (simp add: hold_def)
  qed
  with r1(1) res show ?thesis by (auto simp: locale_root_open_def with_locale_def)
qed

lemma locale_exec_inv:
  assumes "root_inv r held" "locale_op_ok op (r, held)"
  shows "\<exists>r' held'. locale_exec openat junk op (r, held) = Some (r', held') \<and> root_inv r' held'"
proof (cases op)
  case (L_search def imm alloc mem)
  with root_search_inv [OF assms(1), of def alloc imm mem] assms(2) show ?thesis by auto
next
  case (L_search_open a name creat)
  with assms do_open_total [OF assms(1), of "Some a" name] refs_held [of held a r]
    heap_ok_Some [OF root_inv_heap [OF assms(1)], of a] show ?thesis
    by (auto simp: locale_search_open_def)
next
  case (L_root_open name creat loc alloc mem)
  with root_open_inv [OF assms(1), of name creat loc alloc mem] assms(2) show ?thesis by fastforce
qed (use assms search_addref_inv search_unref_inv set_default_inv root_addref_inv root_unref_inv in fastforce)+

lemma locale_reach_inv: "locale_reach openat junk st \<Longrightarrow> root_inv (fst st) (snd st)"
proof (induction rule: locale_reach.induct)
  case (create dirfd calloc_ok dir alloc r)
  then show ?case using locale_root_create_inv by simp
next
  case (step st op st')
  then show ?case using locale_exec_inv [of "fst st" "snd st" op openat junk] by auto
qed

lemma root_live_iff:
  assumes "root_inv r held"
  shows "lr_live r \<longleftrightarrow> 0 < lr_refcount r \<or> lr_default_search r \<noteq> None \<or> (\<exists>a. 0 < held a)"
proof
  note h = root_inv_heap [OF assms]
  assume live: "lr_live r"
  show "0 < lr_refcount r \<or> lr_default_search r \<noteq> None \<or> (\<exists>a. 0 < held a)"
  proof (rule ccontr)
    assume no: "\<not> (0 < lr_refcount r \<or> lr_default_search r \<noteq> None \<or> (\<exists>a. 0 < held a))"
    then have "refs r held a = 0" for a by (auto simp: refs_def ind_def)
    then have "lr_searches r a = None" for a using heap_ok_slot [OF h, of a] by (cases "lr_searches r a") auto
    then have "dom (lr_searches r) = {}" by auto
    with h live no show False by (simp add: heap_ok_def)
  qed
next
  note h = root_inv_heap [OF assms]
  assume "0 < lr_refcount r \<or> lr_default_search r \<noteq> None \<or> (\<exists>a. 0 < held a)"
  then consider "0 < lr_refcount r" | a where "0 < refs r held a"
    using refs_default [of r _ held] refs_held [of held _ r] by blast
  then show "lr_live r"
    by cases (use h heap_ok_live [OF h root_share_nonneg] in \<open>auto simp: heap_ok_def\<close>)
qed

text \<open>C20. Localisation roots and searches are memory safe: whatever sequence of calls a client makes
  with references it holds, no call touches a freed search or root, every call returns, every search
  in memory has a duplicate-free list of existing folders that is closed under the parent links, and
  the root is in memory exactly while a root reference, a held search or a default search exists.\<close>

theorem locale_refs_safe:
  assumes "locale_reach openat junk (r, held)"
  shows "(\<forall>op. locale_op_ok op (r, held) \<longrightarrow> locale_exec openat junk op (r, held) \<noteq> None)
    \<and> (lr_live r \<longleftrightarrow> 0 < lr_refcount r \<or> lr_default_search r \<noteq> None \<or> (\<exists>a. 0 < held a))
    \<and> (\<forall>a s. lr_searches r a = Some s \<longrightarrow> 0 < ls_refcount s \<and> search_ok (lc_folders (lr_container r)) (ls_head s))"
proof -
  have inv: "root_inv r held" using locale_reach_inv [OF assms] by simp
  have "slot_ok (lc_folders (lr_container r)) (lr_searches r a) (refs r held a)" for a
    by (rule heap_ok_slot [OF root_inv_heap [OF inv]])
  then have "\<forall>a s. lr_searches r a = Some s \<longrightarrow> 0 < ls_refcount s \<and> search_ok (lc_folders (lr_container r)) (ls_head s)"
    by (metis slot_ok.simps(2))
  moreover have "\<forall>op. locale_op_ok op (r, held) \<longrightarrow> locale_exec openat junk op (r, held) \<noteq> None"
    using locale_exec_inv [OF inv] by fastforce
  ultimately show ?thesis using root_live_iff [OF inv] by blast
qed

definition demo_dir :: "errno + (string \<times> bool) list \<times> int" where
  "demo_dir = Inr ([(''.'', True), (''fr'', True), (''en'', True), (''README'', False)], 0)"

definition demo_root :: locale_root where
  "demo_root = \<lparr>lr_refcount = 1, lr_intcount = 1, lr_rootfd = 7,
     lr_container = \<lparr>lc_maxlength = 2, lc_folders =
       [\<lparr>lf_parent = None, lf_length = 2, lf_name = ''en''\<rparr>, \<lparr>lf_parent = None, lf_length = 2, lf_name = ''fr''\<rparr>]\<rparr>,
     lr_lru = [None, None, None], lr_default_search = None, lr_searches = Map.empty, lr_live = True\<rparr>"

lemma demo_dir_ok: "dir_ok demo_dir"
  by (simp add: dir_ok_def demo_dir_def is_cstring_def NUL_def)

lemma demo_root_create: "locale_root_create 7 True demo_dir [] = Some demo_root"
  by (simp add: locale_root_create_def demo_dir_def demo_root_def init_container_def add_folder_def
      link_parents_def qsort_folders_def compare_folders_for_qsort_def to_lower_def byte_of_def LRU_COUNT_def numeral_3_eq_3 numeral_2_eq_2)

lemma demo_root_reach: "locale_reach openat junk (demo_root, \<lambda>_. 0)"
  using demo_root_create demo_dir_ok by (rule locale_reach.create)

theorem locale_refs_safe_witness:
  "let op = L_search (Some ''fr'') False (Some 100) 5 in
   locale_op_ok op (demo_root, \<lambda>_. 0) \<and> locale_exec (\<lambda>_. 3) (\<lambda>_. NUL) op (demo_root, \<lambda>_. 0) \<noteq> None"
proof -
  have "locale_op_ok (L_search (Some ''fr'') False (Some 100) 5) (demo_root, \<lambda>_. 0)"
    by (simp add: demo_root_def is_cstring_def NUL_def)
  with locale_refs_safe [OF demo_root_reach [of "\<lambda>_. 3" "\<lambda>_. NUL"]] show ?thesis unfolding Let_def by blast
qed

lemma do_resolve_ok:
  assumes "heap_ok r e X" "\<forall>a. search = Some a \<longrightarrow> 0 < X a" "\<forall>a. lr_default_search r = Some a \<longrightarrow> 0 < X a"
    and "is_cstring filename" "normalsubpath filename = Some name" "length name \<le> PATH_MAX"
  shows "\<exists>tried. do_resolve access junk True r search filename =
    Some (tried, case first_success (\<lambda>p. if access p then Some p else None) (candidates r search name @ [name]) of
      None \<Rightarrow> Inl ENOENT | Some p \<Rightarrow> Inr p)"
proof -
  let ?f = "\<lambda>p. if access p then Some p else None"
  have n: "is_cstring name" using assms(4,5) by (auto simp: normalsubpath_def Let_def is_cstring_dropWhile split: if_splits)
  show ?thesis
    using walk_search_ok [OF assms(1-3) n, of ?f junk] assms(5,6)
    by (cases "first_success ?f (candidates r search name)") (auto simp: do_resolve_def Let_def first_success_append)
qed


lemma demo_search: "locale_root_search demo_root (Some ''fr'') False (Some 100) 5 =
   Some (demo_root\<lparr>lr_intcount := 2, lr_lru := [Some 100, None, None],
       lr_searches := [100 \<mapsto> \<lparr>ls_head = [1], ls_refcount = 2, ls_definition = ''fr''\<rparr>]\<rparr>, Some 100)"
  by (simp add: demo_root_def locale_root_search_def normal_definition_def Let_def is_sep_def is_blank_def create_search_def
      build_search.simps stop_at_semi_def next_language_def skip_while.simps add_language.simps search_folder_def
      search_folder_loop.simps strncasecmp_def to_lower_def byte_of_def NUL_def numeral_3_eq_3 numeral_2_eq_2
      search_append_folder_def search_fuel_def search_matches_def LRU_COUNT_def locale_search_unref_def locale_search_addref_def)


lemma search_unref_frame [frame]:
  "locale_search_unref p r = Some r' \<Longrightarrow> lr_default_search r' = lr_default_search r \<and> lr_refcount r' = lr_refcount r \<and> lr_lru r' = lr_lru r"
  by (auto simp: locale_search_unref_def internal_unref_def Let_def split: option.splits if_splits)

lemma unref_all_frame [frame]:
  "ofold locale_search_unref ps r = Some r' \<Longrightarrow> lr_default_search r' = lr_default_search r \<and> lr_refcount r' = lr_refcount r"
proof (induction ps arbitrary: r)
  case (Cons p ps)
  then obtain r1 where "locale_search_unref p r = Some r1" "ofold locale_search_unref ps r1 = Some r'" by (auto split: option.splits)
  with Cons.IH search_unref_frame show ?case by metis
qed simp

text \<open>A root that is dropped by its last user while a default search is set stays in memory, with no
  user reference left to release it: \<open>locale_root_unref\<close> releases the cached searches but not the
  default one, which holds a reference to the root.\<close>

lemma default_search_keeps_root:
  assumes "locale_reach openat junk (r, held)" "lr_refcount r = 1" "lr_default_search r = Some a" "\<forall>b. held b = 0"
  shows "\<exists>r'. locale_exec openat junk L_root_unref (r, held) = Some (r', held) \<and> lr_live r'
    \<and> (\<forall>op. \<not> locale_op_ok op (r', held))"
proof -
  have inv: "root_inv r held" using locale_reach_inv [OF assms(1)] by simp
  with root_unref_inv [OF inv] assms(2) obtain r' where r': "locale_root_unref r = Some r'" "root_inv r' held" by auto
  have "lr_default_search r' = Some a \<and> lr_refcount r' = 0"
    using r'(1) assms(2,3)
    by (auto simp: locale_root_unref_def internal_unref_def Let_def bind_eq_Some_conv dest!: unref_all_frame split: if_splits)
  moreover from this have "lr_live r'" using root_live_iff [OF r'(2)] by auto
  moreover have "\<not> locale_op_ok op (r', held)" for op using assms(4) calculation(1) by (cases op) auto
  ultimately show ?thesis using r'(1) by auto
qed

lemma addref_result:
  "locale_search_addref a r = Some r' \<Longrightarrow> lr_lru r' = lr_lru r
    \<and> (\<exists>s s'. lr_searches r a = Some s \<and> lr_searches r' a = Some s' \<and> ls_definition s' = ls_definition s)"
  by (auto simp: locale_search_addref_def split: option.splits)

lemma unref_definition:
  "locale_search_unref p r = Some r' \<Longrightarrow> lr_searches r' a = Some s' \<Longrightarrow>
    \<exists>s. lr_searches r a = Some s \<and> ls_definition s' = ls_definition s"
  by (auto simp: locale_search_unref_def internal_unref_def Let_def split: option.splits if_splits)

lemma create_search_definition:
  "create_search r d len imm alloc mem = Some (r', Some a) \<Longrightarrow>
    lr_lru r' = lr_lru r \<and> (\<exists>s. lr_searches r' a = Some s \<and> ls_definition s = take len d)"
  by (auto simp: create_search_def Let_def split: option.splits)

lemma search_matches_cong:
  "lr_searches r a = Some s \<Longrightarrow> lr_searches r' a = Some s' \<Longrightarrow> ls_definition s' = ls_definition s
    \<Longrightarrow> search_matches r (Some a) d len \<Longrightarrow> search_matches r' (Some a) d len"
  by (simp add: search_matches_def)

lemma strcasecmp_refl: "strcasecmp s s = 0"
  by (induction s) auto

lemma search_matches_self: "lr_searches r a = Some s \<Longrightarrow> ls_definition s = take len d \<Longrightarrow> search_matches r (Some a) d len"
  by (simp add: search_matches_def strncasecmp_def strcasecmp_refl cat_def)

lemma root_search_front:
  assumes "length (lr_lru r) = LRU_COUNT" "normal_definition def = (d, len)"
    and "locale_root_search r def imm alloc mem = Some (r1, Some a)"
  shows "\<exists>rest s. lr_lru r1 = Some a # rest \<and> lr_searches r1 a = Some s \<and> search_matches r1 (Some a) d len"
proof (cases "first_index (\<lambda>p. search_matches r p d len) (lr_lru r)")
  case (Some i)
  from first_index_Some [OF this] have i: "i < length (lr_lru r)" "search_matches r (lr_lru r ! i) d len" by auto
  with assms(2,3) Some have a: "lr_lru r ! i = Some a"
    "locale_search_addref a (r\<lparr>lr_lru := (lru_shift (lr_lru r) i)[0 := Some a]\<rparr>) = Some r1"
    by (auto simp: locale_root_search_def Let_def split: option.splits)
  from addref_result [OF a(2)] i a(1) lru_shift_spec [OF i(1), of "Some a"] show ?thesis
    by (auto intro: search_matches_cong)
next
  case None
  let ?i = "LRU_COUNT - 1"
  from assms(2,3) None obtain rc r2 where rc: "create_search r d len imm alloc mem = Some (rc, Some a)"
    "locale_search_unref (lr_lru rc ! ?i) rc = Some r2"
    "locale_search_addref a (r2\<lparr>lr_lru := (lru_shift (lr_lru r2) ?i)[0 := Some a]\<rparr>) = Some r1"
    by (auto simp: locale_root_search_def Let_def bind_eq_Some_conv split: option.splits)
  have lru: "lr_lru r2 = lr_lru r" using create_search_definition [OF rc(1)] search_unref_frame [OF rc(2)] by simp
  then have i: "?i < length (lr_lru r2)" using assms(1) by (simp add: LRU_COUNT_def)
  obtain s s' where s: "lr_searches r2 a = Some s" "lr_searches r1 a = Some s'" "ls_definition s' = ls_definition s"
    using addref_result [OF rc(3)] by auto
  have "ls_definition s = take len d"
    using unref_definition [OF rc(2) s(1)] create_search_definition [OF rc(1)] by auto
  then have "search_matches r1 (Some a) d len" using s by (intro search_matches_self [of _ _ s']) auto
  with s(2) addref_result [OF rc(3)] lru_shift_spec [OF i, of "Some a"] show ?thesis by simp
qed

text \<open>The cache: searching the same definition again gives the search of the first call, with no
  allocation, and whatever the flag \<open>immediate\<close> of the second call is, so the flag of a repeated
  definition has no effect.\<close>

lemma search_is_cached:
  assumes "length (lr_lru r) = LRU_COUNT" "locale_root_search r def imm alloc mem = Some (r1, Some a)"
  shows "\<exists>r2. locale_root_search r1 def imm' None mem' = Some (r2, Some a)
    \<and> dom (lr_searches r2) = dom (lr_searches r1) \<and> lr_lru r2 = lr_lru r1"
proof -
  obtain d len where nd: "normal_definition def = (d, len)" by fastforce
  from root_search_front [OF assms(1) nd assms(2)] obtain rest s where
    1: "lr_lru r1 = Some a # rest" "lr_searches r1 a = Some s" "search_matches r1 (Some a) d len" by blast
  then have "first_index (\<lambda>p. search_matches r1 p d len) (lr_lru r1) = Some 0" by simp
  with 1 nd show ?thesis
    by (auto simp: locale_root_search_def Let_def locale_search_addref_def insert_absorb domI)
qed

text \<open>Blanks around the separators of a definition: the loop that should drop the blanks that end a
  language tag looks at the character after the tag. With the folders en and fr, the definition
  \<open>en ,fr\<close> loses en, and the definition \<open>en\<close> followed by a blank finds no folder, where \<open>en,fr\<close> finds both.\<close>

lemma blank_before_comma_loses_language:
  "let nodes = (\<lambda>def. map_option (\<lambda>(r, p). map_option (\<lambda>a. map_option ls_head (lr_searches r a)) p)
         (locale_root_search demo_root (Some def) False (Some 100) 9)) in
   nodes ''en,fr'' = Some (Some (Some [0, 1])) \<and> nodes ''en ,fr'' = Some (Some (Some [1]))
   \<and> nodes ''en'' = Some (Some (Some [0])) \<and> nodes ''en '' = Some (Some (Some []))"
  unfolding Let_def
  by (intro conjI; simp add: demo_root_def locale_root_search_def normal_definition_def Let_def is_sep_def is_blank_def create_search_def
      build_search.simps stop_at_semi_def next_language_def skip_while.simps add_language.simps search_folder_def
      search_folder_loop.simps strncasecmp_def to_lower_def byte_of_def NUL_def numeral_3_eq_3 numeral_2_eq_2
      search_append_folder_def search_fuel_def search_matches_def LRU_COUNT_def locale_search_unref_def locale_search_addref_def)

end
