(* ===== verification/Evt.thy ===== *)
theory Evt
  imports Afb_Prelude
begin

text \<open>
  Events, listeners and watches, \<^verbatim>\<open>src/src/afb-evt.c\<close>. The state holds the three heaps of structures and
  the two global chains. A chain of the code is the list of the addresses on it: \<open>ev_watchs\<close> is the
  chain through \<open>next_by_event\<close>, \<open>el_watchs\<close> the chain through \<open>next_by_listener\<close>. Calls of the listener
  interface are appended to \<open>es_calls\<close>; a function pointer of the interface that may be NULL is a
  boolean. Dereferencing a freed structure, a failed \<open>assert\<close> and walking off a chain are \<open>None\<close>.
  What a callback does to the event store while it runs is not modelled, nor the reference count of
  the JSON objects.
\<close>

record evt_itf =
  ei_addr :: addr
  ei_push :: bool
  ei_broadcast :: bool
  ei_add :: bool
  ei_remove :: bool

record afb_evt_listener =
  el_itf :: evt_itf
  el_closure :: nat
  el_watchs :: "addr list"
  el_refcount :: int

record afb_evt_event =
  ev_watchs :: "addr list"
  ev_id :: int
  ev_name :: string

record afb_evt_watch =
  ew_event :: addr
  ew_listener :: addr
  ew_activity :: "32 word"

text \<open>\<open>ae_itf\<close> tells whether the interface of the event is the one of this component.\<close>

record afb_event =
  ae_itf :: bool
  ae_closure :: addr

datatype evt_call =
    Call_push nat string int
  | Call_broadcast nat string
  | Call_add nat string int
  | Call_remove nat string int

record evt_state =
  es_listeners :: "addr list"
  es_events :: "addr list"
  es_L :: "addr \<rightharpoonup> afb_evt_listener"
  es_E :: "addr \<rightharpoonup> afb_evt_event"
  es_W :: "addr \<rightharpoonup> afb_evt_watch"
  es_counter :: int
  es_wrapped :: bool
  es_calls :: "evt_call list"

definition evt_init :: evt_state where
  "evt_init = \<lparr>es_listeners = [], es_events = [], es_L = Map.empty, es_E = Map.empty, es_W = Map.empty,
     es_counter = 0, es_wrapped = False, es_calls = []\<rparr>"

section \<open>Sending\<close>

fun broadcast_loop :: "(addr \<rightharpoonup> afb_evt_listener) \<Rightarrow> string \<Rightarrow> addr list \<Rightarrow> (evt_call list \<times> nat) option" where
  "broadcast_loop L event [] = Some ([], 0)"
| "broadcast_loop L event (l # ls) =
     (case L l of
        None \<Rightarrow> None
      | Some listener \<Rightarrow>
          map_option (\<lambda>(calls, result).
            if ei_broadcast (el_itf listener) then (Call_broadcast (el_closure listener) event # calls, Suc result)
            else (calls, result)) (broadcast_loop L event ls))"

definition afb_evt_broadcast :: "string \<Rightarrow> evt_state \<Rightarrow> (evt_state \<times> nat) option" where
  "afb_evt_broadcast event s =
     map_option (\<lambda>(calls, result). (s\<lparr>es_calls := es_calls s @ calls\<rparr>, result))
       (broadcast_loop (es_L s) event (es_listeners s))"

definition evt_broadcast :: "addr \<Rightarrow> evt_state \<Rightarrow> (evt_state \<times> nat) option" where
  "evt_broadcast e s = (case es_E s e of None \<Rightarrow> None | Some evt \<Rightarrow> afb_evt_broadcast (ev_name evt) s)"

fun push_loop :: "evt_state \<Rightarrow> afb_evt_event \<Rightarrow> addr list \<Rightarrow> (evt_call list \<times> nat) option" where
  "push_loop s evt [] = Some ([], 0)"
| "push_loop s evt (w # ws) =
     (case es_W s w of
        None \<Rightarrow> None
      | Some watch \<Rightarrow>
          (case es_L s (ew_listener watch) of
             None \<Rightarrow> None
           | Some listener \<Rightarrow>
               if \<not> ei_push (el_itf listener) then None
               else map_option (\<lambda>(calls, result).
                 (if ew_activity watch \<noteq> 0 then Call_push (el_closure listener) (ev_name evt) (ev_id evt) # calls else calls,
                  Suc result)) (push_loop s evt ws)))"

definition evt_push :: "addr \<Rightarrow> evt_state \<Rightarrow> (evt_state \<times> nat) option" where
  "evt_push e s =
     (case es_E s e of
        None \<Rightarrow> None
      | Some evt \<Rightarrow>
          map_option (\<lambda>(calls, result). (s\<lparr>es_calls := es_calls s @ calls\<rparr>, result)) (push_loop s evt (ev_watchs evt)))"

section \<open>Removing watches and events\<close>

text \<open>\<open>while (*prv != x) prv = &(*prv)->next; *prv = x->next\<close>\<close>

definition unlink :: "addr \<Rightarrow> addr list \<Rightarrow> addr list option" where
  "unlink x xs = (if x \<in> set xs then Some (remove1 x xs) else None)"

definition remove_watch :: "addr \<Rightarrow> evt_state \<Rightarrow> evt_state option" where
  "remove_watch w s =
     (case es_W s w of
        None \<Rightarrow> None
      | Some watch \<Rightarrow>
          (case (es_E s (ew_event watch), es_L s (ew_listener watch)) of
             (Some evt, Some listener) \<Rightarrow>
               unlink w (ev_watchs evt) \<bind> (\<lambda>ews.
               unlink w (el_watchs listener) \<bind> (\<lambda>lws.
               Some (s\<lparr>es_calls := es_calls s @ (if ew_activity watch \<noteq> 0 \<and> ei_remove (el_itf listener)
                         then [Call_remove (el_closure listener) (ev_name evt) (ev_id evt)] else []),
                       es_E := (es_E s)(ew_event watch \<mapsto> evt\<lparr>ev_watchs := ews\<rparr>),
                       es_L := (es_L s)(ew_listener watch \<mapsto> listener\<lparr>el_watchs := lws\<rparr>),
                       es_W := (es_W s)(w := None)\<rparr>)))
           | _ \<Rightarrow> None))"

text \<open>\<open>while (evt->watchs != NULL) remove_watch(evt->watchs)\<close>, the chain being read again each time.
  The first argument bounds the number of rounds.\<close>

fun remove_event_watches :: "nat \<Rightarrow> addr \<Rightarrow> evt_state \<Rightarrow> evt_state option" where
  "remove_event_watches n e s =
     (case es_E s e of
        None \<Rightarrow> None
      | Some evt \<Rightarrow>
          (case ev_watchs evt of
             [] \<Rightarrow> Some s
           | w # _ \<Rightarrow> (case n of 0 \<Rightarrow> None | Suc m \<Rightarrow> remove_watch w s \<bind> remove_event_watches m e)))"

fun remove_listener_watches :: "nat \<Rightarrow> addr \<Rightarrow> evt_state \<Rightarrow> evt_state option" where
  "remove_listener_watches n l s =
     (case es_L s l of
        None \<Rightarrow> None
      | Some listener \<Rightarrow>
          (case el_watchs listener of
             [] \<Rightarrow> Some s
           | w # _ \<Rightarrow> (case n of 0 \<Rightarrow> None | Suc m \<Rightarrow> remove_watch w s \<bind> remove_listener_watches m l)))"

declare remove_event_watches.simps [simp del] remove_listener_watches.simps [simp del]

text \<open>An address that is not on the chain of events is ignored: the code never dereferences it.\<close>

definition evt_destroy :: "addr \<Rightarrow> evt_state \<Rightarrow> evt_state option" where
  "evt_destroy e s =
     (if e \<in> set (es_events s) then
        (case es_E s e of
           None \<Rightarrow> None
         | Some evt \<Rightarrow>
             remove_event_watches (length (ev_watchs evt)) e (s\<lparr>es_events := remove1 e (es_events s)\<rparr>)
             \<bind> (\<lambda>s'. Some (s'\<lparr>es_E := (es_E s')(e := None)\<rparr>)))
      else Some s)"

section \<open>Creating events\<close>

text \<open>The increment of a 32 bit signed integer, wrapping.\<close>

definition incr32 :: "int \<Rightarrow> int" where
  "incr32 c = (if c + 1 = 2 ^ 31 then - (2 ^ 31) else c + 1)"

definition next_counter :: "int \<times> bool \<Rightarrow> int \<times> bool" where
  "next_counter cw = (let c = incr32 (fst cw) in if c < 0 then (1024, True) else (c, snd cw))"

text \<open>The loop that allocates the identifier; \<open>ids\<close> are those of the chain of events.\<close>

fun alloc_id :: "nat \<Rightarrow> int list \<Rightarrow> int \<times> bool \<Rightarrow> (int \<times> bool) option" where
  "alloc_id 0 ids cw = None"
| "alloc_id (Suc n) ids cw =
     (let cw' = next_counter cw in
      if \<not> snd cw' then Some cw'
      else if fst cw' \<in> set ids then alloc_id n ids cw'
      else Some cw')"

definition event_ids :: "evt_state \<Rightarrow> int list" where
  "event_ids s = map (\<lambda>e. ev_id (the (es_E s e))) (es_events s)"

definition afb_evt_create_event :: "string \<Rightarrow> addr option \<Rightarrow> evt_state \<Rightarrow> (evt_state \<times> afb_event) option" where
  "afb_evt_create_event name alloc s =
     alloc_id (Suc (length (es_events s))) (event_ids s) (es_counter s, es_wrapped s) \<bind> (\<lambda>(c, wr).
     let s1 = s\<lparr>es_counter := c, es_wrapped := wr\<rparr> in
     case alloc of
       None \<Rightarrow> Some (s1, \<lparr>ae_itf = False, ae_closure = NULL\<rparr>)
     | Some e \<Rightarrow>
         if \<not> c > 0 then None
         else Some (s1\<lparr>es_E := (es_E s)(e \<mapsto> \<lparr>ev_watchs = [], ev_id = c, ev_name = name\<rparr>),
                       es_events := e # es_events s\<rparr>, \<lparr>ae_itf = True, ae_closure = e\<rparr>))"

definition afb_evt_event_name :: "afb_event \<Rightarrow> evt_state \<Rightarrow> string option option" where
  "afb_evt_event_name event s =
     (if \<not> ae_itf event then Some None else map_option (\<lambda>e. Some (ev_name e)) (es_E s (ae_closure event)))"

definition afb_evt_event_id :: "afb_event \<Rightarrow> evt_state \<Rightarrow> int option" where
  "afb_evt_event_id event s = (if \<not> ae_itf event then Some 0 else map_option ev_id (es_E s (ae_closure event)))"

section \<open>Listeners\<close>

definition listener_ref :: "afb_evt_listener \<Rightarrow> afb_evt_listener" where
  "listener_ref l = l\<lparr>el_refcount := el_refcount l + 1\<rparr>"

text \<open>\<open>None\<close> when the count becomes zero.\<close>

definition listener_deref :: "afb_evt_listener \<Rightarrow> afb_evt_listener option" where
  "listener_deref l = (if el_refcount l - 1 = 0 then None else Some (l\<lparr>el_refcount := el_refcount l - 1\<rparr>))"

definition afb_evt_listener_addref :: "addr \<Rightarrow> evt_state \<Rightarrow> evt_state option" where
  "afb_evt_listener_addref l s =
     (case es_L s l of None \<Rightarrow> None | Some listener \<Rightarrow> Some (s\<lparr>es_L := (es_L s)(l \<mapsto> listener_ref listener)\<rparr>))"

definition afb_evt_listener_create :: "evt_itf \<Rightarrow> nat \<Rightarrow> addr option \<Rightarrow> evt_state \<Rightarrow> (evt_state \<times> addr option) option" where
  "afb_evt_listener_create itf closure alloc s =
     (case List.find (\<lambda>l. el_itf (the (es_L s l)) = itf \<and> el_closure (the (es_L s l)) = closure) (es_listeners s) of
        Some l \<Rightarrow> map_option (\<lambda>s'. (s', Some l)) (afb_evt_listener_addref l s)
      | None \<Rightarrow>
          (case alloc of
             None \<Rightarrow> Some (s, None)
           | Some l \<Rightarrow> Some (s\<lparr>es_listeners := l # es_listeners s,
               es_L := (es_L s)(l \<mapsto> \<lparr>el_itf = itf, el_closure = closure, el_watchs = [], el_refcount = 1\<rparr>)\<rparr>, Some l)))"

definition afb_evt_listener_unref :: "addr \<Rightarrow> evt_state \<Rightarrow> evt_state option" where
  "afb_evt_listener_unref l s =
     (case es_L s l of
        None \<Rightarrow> None
      | Some listener \<Rightarrow>
          (case listener_deref listener of
             Some listener' \<Rightarrow> Some (s\<lparr>es_L := (es_L s)(l \<mapsto> listener')\<rparr>)
           | None \<Rightarrow>
               remove_listener_watches (length (el_watchs listener)) l
                 (s\<lparr>es_L := (es_L s)(l \<mapsto> listener\<lparr>el_refcount := 0\<rparr>)\<rparr>) \<bind> (\<lambda>s'.
               unlink l (es_listeners s') \<bind> (\<lambda>ls.
               Some (s'\<lparr>es_listeners := ls, es_L := (es_L s')(l := None)\<rparr>)))))"

section \<open>Watching\<close>

text \<open>The search through \<open>next_by_listener\<close>.\<close>

definition find_watch :: "evt_state \<Rightarrow> addr list \<Rightarrow> addr \<Rightarrow> addr option" where
  "find_watch s ws e = List.find (\<lambda>w. ew_event (the (es_W s w)) = e) ws"

definition activate :: "addr \<Rightarrow> evt_state \<Rightarrow> evt_state option" where
  "activate w s =
     (case es_W s w of
        None \<Rightarrow> None
      | Some watch \<Rightarrow>
          (case (es_E s (ew_event watch), es_L s (ew_listener watch)) of
             (Some evt, Some listener) \<Rightarrow>
               Some (s\<lparr>es_calls := es_calls s @ (if ew_activity watch = 0 \<and> ei_add (el_itf listener)
                         then [Call_add (el_closure listener) (ev_name evt) (ev_id evt)] else []),
                       es_W := (es_W s)(w \<mapsto> watch\<lparr>ew_activity := ew_activity watch + 1\<rparr>)\<rparr>)
           | _ \<Rightarrow> None))"

definition afb_evt_add_watch :: "addr \<Rightarrow> afb_event \<Rightarrow> addr option \<Rightarrow> evt_state \<Rightarrow> (evt_state \<times> errno option) option" where
  "afb_evt_add_watch l event alloc s =
     (case es_L s l of
        None \<Rightarrow> None
      | Some listener \<Rightarrow>
          if \<not> ae_itf event \<or> \<not> ei_push (el_itf listener) then Some (s, Some EINVAL)
          else let e = ae_closure event in
            case find_watch s (el_watchs listener) e of
              Some w \<Rightarrow> map_option (\<lambda>s'. (s', None)) (activate w s)
            | None \<Rightarrow>
                (case alloc of
                   None \<Rightarrow> Some (s, Some ENOMEM)
                 | Some w \<Rightarrow>
                     (case es_E s e of
                        None \<Rightarrow> None
                      | Some evt \<Rightarrow>
                          map_option (\<lambda>s'. (s', None)) (activate w
                            (s\<lparr>es_W := (es_W s)(w \<mapsto> \<lparr>ew_event = e, ew_listener = l, ew_activity = 0\<rparr>),
                               es_E := (es_E s)(e \<mapsto> evt\<lparr>ev_watchs := w # ev_watchs evt\<rparr>),
                               es_L := (es_L s)(l \<mapsto> listener\<lparr>el_watchs := w # el_watchs listener\<rparr>)\<rparr>)))))"

definition afb_evt_remove_watch :: "addr \<Rightarrow> afb_event \<Rightarrow> evt_state \<Rightarrow> (evt_state \<times> errno option) option" where
  "afb_evt_remove_watch l event s =
     (if \<not> ae_itf event then Some (s, Some EINVAL)
      else let e = ae_closure event in
        case es_L s l of
          None \<Rightarrow> None
        | Some listener \<Rightarrow>
            (case find_watch s (el_watchs listener) e of
               None \<Rightarrow> Some (s, Some ENOENT)
             | Some w \<Rightarrow>
                 (case (es_W s w, es_E s e) of
                    (Some watch, Some evt) \<Rightarrow>
                      if ew_activity watch \<noteq> 0 then
                        Some (s\<lparr>es_W := (es_W s)(w \<mapsto> watch\<lparr>ew_activity := ew_activity watch - 1\<rparr>),
                                es_calls := es_calls s @ (if ew_activity watch - 1 = 0 \<and> ei_remove (el_itf listener)
                                  then [Call_remove (el_closure listener) (ev_name evt) (ev_id evt)] else [])\<rparr>, None)
                      else Some (s, None)
                  | _ \<Rightarrow> None)))"

section \<open>Listeners as reference counted objects\<close>

interpretation listener_rc: refcounted el_refcount listener_ref listener_deref
  by unfold_locales (auto simp: listener_ref_def listener_deref_def)

section \<open>The watch structure\<close>

definition listener_ok :: "(addr \<rightharpoonup> afb_evt_watch) \<Rightarrow> addr \<Rightarrow> afb_evt_listener \<Rightarrow> bool" where
  "listener_ok W l x \<longleftrightarrow> distinct (el_watchs x)
     \<and> set (el_watchs x) = {w. \<exists>wt. W w = Some wt \<and> ew_listener wt = l} \<and> (el_watchs x \<noteq> [] \<longrightarrow> ei_push (el_itf x))"

definition event_ok :: "(addr \<rightharpoonup> afb_evt_watch) \<Rightarrow> addr \<Rightarrow> afb_evt_event \<Rightarrow> bool" where
  "event_ok W e x \<longleftrightarrow> distinct (ev_watchs x) \<and> set (ev_watchs x) = {w. \<exists>wt. W w = Some wt \<and> ew_event wt = e}"

definition watches_ok :: "(addr \<rightharpoonup> afb_evt_watch) \<Rightarrow> addr set \<Rightarrow> addr set \<Rightarrow> bool" where
  "watches_ok W ls es \<longleftrightarrow> (\<forall>w wt. W w = Some wt \<longrightarrow> ew_event wt \<in> es \<and> ew_listener wt \<in> ls)
     \<and> (\<forall>w wt v vt. W w = Some wt \<and> W v = Some vt \<and> ew_event wt = ew_event vt \<and> ew_listener wt = ew_listener vt \<longrightarrow> w = v)"

definition watch_inv :: "evt_state \<Rightarrow> bool" where
  "watch_inv s \<longleftrightarrow> (\<forall>l x. es_L s l = Some x \<longrightarrow> listener_ok (es_W s) l x)
     \<and> (\<forall>e x. es_E s e = Some x \<longrightarrow> event_ok (es_W s) e x)
     \<and> watches_ok (es_W s) (dom (es_L s)) (dom (es_E s))"

lemma watch_inv_cong: "watch_inv s \<Longrightarrow> es_L s' = es_L s \<Longrightarrow> es_E s' = es_E s \<Longrightarrow> es_W s' = es_W s \<Longrightarrow> watch_inv s'"
  by (simp add: watch_inv_def)

lemma watch_inv_L:
  assumes "watch_inv s" "es_L s l = Some x"
  shows "distinct (el_watchs x)" "w \<in> set (el_watchs x) \<longleftrightarrow> (\<exists>wt. es_W s w = Some wt \<and> ew_listener wt = l)"
    "el_watchs x \<noteq> [] \<Longrightarrow> ei_push (el_itf x)"
proof -
  have "listener_ok (es_W s) l x" using assms by (simp add: watch_inv_def)
  then show "distinct (el_watchs x)" "w \<in> set (el_watchs x) \<longleftrightarrow> (\<exists>wt. es_W s w = Some wt \<and> ew_listener wt = l)"
    "el_watchs x \<noteq> [] \<Longrightarrow> ei_push (el_itf x)" by (simp_all add: listener_ok_def)
qed

lemma watch_inv_E:
  assumes "watch_inv s" "es_E s e = Some x"
  shows "distinct (ev_watchs x)" "w \<in> set (ev_watchs x) \<longleftrightarrow> (\<exists>wt. es_W s w = Some wt \<and> ew_event wt = e)"
proof -
  have "event_ok (es_W s) e x" using assms by (simp add: watch_inv_def)
  then show "distinct (ev_watchs x)" "w \<in> set (ev_watchs x) \<longleftrightarrow> (\<exists>wt. es_W s w = Some wt \<and> ew_event wt = e)"
    by (simp_all add: event_ok_def)
qed

lemma watch_inv_W:
  assumes "watch_inv s" "es_W s w = Some wt"
  shows "\<exists>x. es_E s (ew_event wt) = Some x" "\<exists>x. es_L s (ew_listener wt) = Some x"
  using assms unfolding watch_inv_def watches_ok_def by blast+

lemma watch_inv_unique:
  "watch_inv s \<Longrightarrow> es_W s w = Some wt \<Longrightarrow> es_W s v = Some vt \<Longrightarrow> ew_event wt = ew_event vt
    \<Longrightarrow> ew_listener wt = ew_listener vt \<Longrightarrow> w = v"
  unfolding watch_inv_def watches_ok_def by blast

lemma watches_ok_mono: "watches_ok W ls es \<Longrightarrow> (\<And>w wt. W w = Some wt \<Longrightarrow> ew_event wt \<in> es' \<and> ew_listener wt \<in> ls') \<Longrightarrow> watches_ok W ls' es'"
  unfolding watches_ok_def by blast

lemma watches_ok_sub: "watches_ok W ls es \<Longrightarrow> (\<And>w wt. W' w = Some wt \<Longrightarrow> W w = Some wt) \<Longrightarrow> watches_ok W' ls es"
  unfolding watches_ok_def by blast

text \<open>Releasing an event or a listener that no watch refers to.\<close>

lemma watch_inv_drop_event:
  assumes "watch_inv s" "\<And>w wt. es_W s w = Some wt \<Longrightarrow> ew_event wt \<noteq> e"
  shows "watch_inv (s\<lparr>es_E := (es_E s)(e := None)\<rparr>)"
proof -
  have "watches_ok (es_W s) (dom (es_L s)) (dom (es_E s) - {e})"
    by (rule watches_ok_mono [of _ "dom (es_L s)" "dom (es_E s)"]) (use assms watch_inv_W [OF assms(1)] in \<open>auto simp: watch_inv_def\<close>)
  with assms(1) show ?thesis by (simp add: watch_inv_def)
qed

lemma watch_inv_drop_listener:
  assumes "watch_inv s" "\<And>w wt. es_W s w = Some wt \<Longrightarrow> ew_listener wt \<noteq> l"
  shows "watch_inv (s\<lparr>es_L := (es_L s)(l := None)\<rparr>)"
proof -
  have "watches_ok (es_W s) (dom (es_L s) - {l}) (dom (es_E s))"
    by (rule watches_ok_mono [of _ "dom (es_L s)" "dom (es_E s)"]) (use assms watch_inv_W [OF assms(1)] in \<open>auto simp: watch_inv_def\<close>)
  with assms(1) show ?thesis by (simp add: watch_inv_def)
qed

text \<open>Removing a set of watches from everywhere.\<close>

definition prune :: "addr set \<Rightarrow> evt_call list \<Rightarrow> evt_state \<Rightarrow> evt_state" where
  "prune S calls s = s\<lparr>
     es_calls := es_calls s @ calls,
     es_E := (\<lambda>e. map_option (\<lambda>x. x\<lparr>ev_watchs := filter (\<lambda>w. w \<notin> S) (ev_watchs x)\<rparr>) (es_E s e)),
     es_L := (\<lambda>l. map_option (\<lambda>x. x\<lparr>el_watchs := filter (\<lambda>w. w \<notin> S) (el_watchs x)\<rparr>) (es_L s l)),
     es_W := (\<lambda>w. if w \<in> S then None else es_W s w)\<rparr>"

lemma prune_simps [simp]:
  "es_calls (prune S c s) = es_calls s @ c" "es_events (prune S c s) = es_events s" "es_listeners (prune S c s) = es_listeners s"
  "es_counter (prune S c s) = es_counter s" "es_wrapped (prune S c s) = es_wrapped s"
  "es_W (prune S c s) w = (if w \<in> S then None else es_W s w)"
  "es_E (prune S c s) e = map_option (\<lambda>x. x\<lparr>ev_watchs := filter (\<lambda>w. w \<notin> S) (ev_watchs x)\<rparr>) (es_E s e)"
  "es_L (prune S c s) l = map_option (\<lambda>x. x\<lparr>el_watchs := filter (\<lambda>w. w \<notin> S) (el_watchs x)\<rparr>) (es_L s l)"
  by (simp_all add: prune_def)

lemma prune_empty: "prune {} [] s = s"
  by (simp add: prune_def map_option.id [unfolded id_def])

lemma prune_prune: "prune S c (prune T d s) = prune (S \<union> T) (d @ c) s"
  by (rule evt_state.equality) (auto simp: prune_def option.map_comp comp_def conj_commute intro!: ext)

lemma watch_inv_prune:
  assumes "watch_inv s"
  shows "watch_inv (prune S c s)"
proof -
  let ?W = "\<lambda>w. if w \<in> S then None else es_W s w"
  have "listener_ok ?W l (x\<lparr>el_watchs := filter (\<lambda>w. w \<notin> S) (el_watchs x)\<rparr>)" if "es_L s l = Some x" for l x
  proof -
    note I = watch_inv_L [OF assms that]
    have "set (filter (\<lambda>w. w \<notin> S) (el_watchs x)) = {w. \<exists>wt. ?W w = Some wt \<and> ew_listener wt = l}" using I(2) by auto
    moreover have "filter (\<lambda>w. w \<notin> S) (el_watchs x) \<noteq> [] \<Longrightarrow> el_watchs x \<noteq> []" by auto
    ultimately show ?thesis using I(1,3) by (simp add: listener_ok_def)
  qed
  moreover have "event_ok ?W e (x\<lparr>ev_watchs := filter (\<lambda>w. w \<notin> S) (ev_watchs x)\<rparr>)" if "es_E s e = Some x" for e x
    using watch_inv_E [OF assms that] by (auto simp: event_ok_def)
  moreover have "watches_ok ?W (dom (es_L s)) (dom (es_E s))"
    using assms by (auto simp: watch_inv_def elim!: watches_ok_sub split: if_splits)
  ultimately show ?thesis by (auto simp: watch_inv_def prune_def dom_def)
qed

text \<open>What the removal of a watch tells the listener.\<close>

definition removal_call :: "evt_state \<Rightarrow> addr \<Rightarrow> evt_call list" where
  "removal_call s w = (let wt = the (es_W s w); evt = the (es_E s (ew_event wt)); listener = the (es_L s (ew_listener wt)) in
     if ew_activity wt \<noteq> 0 \<and> ei_remove (el_itf listener)
     then [Call_remove (el_closure listener) (ev_name evt) (ev_id evt)] else [])"

lemma removal_call_prune:
  "watch_inv s \<Longrightarrow> es_W s w = Some wt \<Longrightarrow> w \<notin> S \<Longrightarrow> removal_call (prune S c s) w = removal_call s w"
  using watch_inv_W [of s w wt] by (auto simp: removal_call_def Let_def)

lemma filter_other: "w \<notin> set xs \<Longrightarrow> filter (\<lambda>v. v \<noteq> w) xs = xs"
  by (induction xs) auto

lemma remove_watch_prune:
  assumes "watch_inv s" "es_W s w = Some wt"
  shows "remove_watch w s = Some (prune {w} (removal_call s w) s)"
proof -
  obtain evt listener where x: "es_E s (ew_event wt) = Some evt" "es_L s (ew_listener wt) = Some listener"
    using watch_inv_W [OF assms] by blast
  have in_e: "w \<in> set (ev_watchs evt)" and in_l: "w \<in> set (el_watchs listener)"
    using watch_inv_E(2) [OF assms(1) x(1)] watch_inv_L(2) [OF assms(1) x(2)] assms(2) by auto
  have re: "remove1 w (ev_watchs evt) = filter (\<lambda>v. v \<noteq> w) (ev_watchs evt)"
    and rl: "remove1 w (el_watchs listener) = filter (\<lambda>v. v \<noteq> w) (el_watchs listener)"
    using watch_inv_E(1) [OF assms(1) x(1)] watch_inv_L(1) [OF assms(1) x(2)]
    by (simp_all add: distinct_remove1_removeAll removeAll_filter_not_eq neq_commute)
  have "es_E (prune {w} c s) e = ((es_E s)(ew_event wt \<mapsto> evt\<lparr>ev_watchs := remove1 w (ev_watchs evt)\<rparr>)) e" for c e
  proof (cases "e = ew_event wt")
    case False
    then have "w \<notin> set (ev_watchs y)" if "es_E s e = Some y" for y
      using watch_inv_E(2) [OF assms(1) that, of w] assms(2) by auto
    with False show ?thesis by (cases "es_E s e") (auto simp: filter_other)
  qed (use x re in simp)
  moreover have "es_L (prune {w} c s) l = ((es_L s)(ew_listener wt \<mapsto> listener\<lparr>el_watchs := remove1 w (el_watchs listener)\<rparr>)) l" for c l
  proof (cases "l = ew_listener wt")
    case False
    then have "w \<notin> set (el_watchs y)" if "es_L s l = Some y" for y
      using watch_inv_L(2) [OF assms(1) that, of w] assms(2) by auto
    with False show ?thesis by (cases "es_L s l") (auto simp: filter_other)
  qed (use x rl in simp)
  moreover have "es_W (prune {w} c s) v = ((es_W s)(w := None)) v" for c v by simp
  ultimately have "es_E (prune {w} c s) = (es_E s)(ew_event wt \<mapsto> evt\<lparr>ev_watchs := remove1 w (ev_watchs evt)\<rparr>)"
    "es_L (prune {w} c s) = (es_L s)(ew_listener wt \<mapsto> listener\<lparr>el_watchs := remove1 w (el_watchs listener)\<rparr>)"
    "es_W (prune {w} c s) = (es_W s)(w := None)" for c by blast+
  with assms(2) x in_e in_l show ?thesis
    by (auto simp: remove_watch_def unlink_def removal_call_def Let_def intro!: evt_state.equality)
qed

definition removal_calls :: "evt_state \<Rightarrow> addr list \<Rightarrow> evt_call list" where
  "removal_calls s ws = concat (map (removal_call s) ws)"

lemma removal_calls_prune:
  assumes "watch_inv s" "\<forall>w \<in> set ws. es_W s w \<noteq> None \<and> w \<notin> S"
  shows "removal_calls (prune S c s) ws = removal_calls s ws"
proof -
  have "removal_call (prune S c s) w = removal_call s w" if "w \<in> set ws" for w
    using removal_call_prune [OF assms(1)] assms(2) that by blast
  then show ?thesis by (simp add: removal_calls_def cong: map_cong)
qed

lemma remove_event_watches_prune:
  assumes "watch_inv s" "es_E s e = Some evt"
  shows "remove_event_watches (length (ev_watchs evt)) e s = Some (prune (set (ev_watchs evt)) (removal_calls s (ev_watchs evt)) s)"
  using assms
proof (induction "ev_watchs evt" arbitrary: s evt)
  case Nil
  then show ?case by (simp add: remove_event_watches.simps removal_calls_def prune_empty)
next
  case (Cons w ws)
  have ws: "ev_watchs evt = w # ws" using Cons.hyps(2) by simp
  have d: "w \<notin> set ws" using watch_inv_E(1) [OF Cons.prems] ws by auto
  have live: "\<forall>v \<in> set (w # ws). es_W s v \<noteq> None" using watch_inv_E(2) [OF Cons.prems] ws by auto
  then obtain wt where wt: "es_W s w = Some wt" by auto
  let ?s = "prune {w} (removal_call s w) s" and ?evt = "evt\<lparr>ev_watchs := ws\<rparr>"
  have e1: "es_E ?s e = Some ?evt" using Cons.prems(2) ws d by (simp add: filter_other)
  have "remove_event_watches (length (ev_watchs ?evt)) e ?s = Some (prune (set (ev_watchs ?evt)) (removal_calls ?s (ev_watchs ?evt)) ?s)"
    by (rule Cons.hyps(1) [OF _ watch_inv_prune [OF Cons.prems(1)] e1]) simp
  moreover have "removal_calls ?s ws = removal_calls s ws"
    by (rule removal_calls_prune [OF Cons.prems(1)]) (use live d in auto)
  ultimately show ?case
    using remove_watch_prune [OF Cons.prems(1) wt] Cons.prems(2)
    by (subst remove_event_watches.simps) (simp add: ws prune_prune removal_calls_def)
qed

lemma remove_listener_watches_prune:
  assumes "watch_inv s" "es_L s l = Some x"
  shows "remove_listener_watches (length (el_watchs x)) l s = Some (prune (set (el_watchs x)) (removal_calls s (el_watchs x)) s)"
  using assms
proof (induction "el_watchs x" arbitrary: s x)
  case Nil
  then show ?case by (simp add: remove_listener_watches.simps removal_calls_def prune_empty)
next
  case (Cons w ws)
  have ws: "el_watchs x = w # ws" using Cons.hyps(2) by simp
  have d: "w \<notin> set ws" using watch_inv_L(1) [OF Cons.prems] ws by auto
  have live: "\<forall>v \<in> set (w # ws). es_W s v \<noteq> None" using watch_inv_L(2) [OF Cons.prems] ws by auto
  then obtain wt where wt: "es_W s w = Some wt" by auto
  let ?s = "prune {w} (removal_call s w) s" and ?x = "x\<lparr>el_watchs := ws\<rparr>"
  have e1: "es_L ?s l = Some ?x" using Cons.prems(2) ws d by (simp add: filter_other)
  have "remove_listener_watches (length (el_watchs ?x)) l ?s = Some (prune (set (el_watchs ?x)) (removal_calls ?s (el_watchs ?x)) ?s)"
    by (rule Cons.hyps(1) [OF _ watch_inv_prune [OF Cons.prems(1)] e1]) simp
  moreover have "removal_calls ?s ws = removal_calls s ws"
    by (rule removal_calls_prune [OF Cons.prems(1)]) (use live d in auto)
  ultimately show ?case
    using remove_watch_prune [OF Cons.prems(1) wt] Cons.prems(2)
    by (subst remove_listener_watches.simps) (simp add: ws prune_prune removal_calls_def)
qed

section \<open>Identifiers\<close>

definition id_span :: int where "id_span = 2 ^ 31 - 1024"

definition nth_id :: "int \<Rightarrow> nat \<Rightarrow> int" where
  "nth_id c k = 1024 + (c - 1024 + int k) mod id_span"

lemma next_counter_wrapped:
  assumes "1024 \<le> c" "c < 2 ^ 31"
  shows "next_counter (c, True) = (nth_id c 1, True)"
proof (cases "c + 1 = 2 ^ 31")
  case True
  then have "c - 1024 + 1 = id_span" by (simp add: id_span_def)
  with True show ?thesis by (simp add: next_counter_def incr32_def nth_id_def)
next
  case False
  with assms have "(c - 1024 + 1) mod id_span = c - 1024 + 1" by (intro mod_pos_pos_trivial) (auto simp: id_span_def)
  with False assms show ?thesis by (simp add: next_counter_def incr32_def nth_id_def)
qed

lemma nth_id_range: "1024 \<le> nth_id c k" "nth_id c k < 2 ^ 31"
proof -
  have "0 \<le> (c - 1024 + int k) mod id_span" "(c - 1024 + int k) mod id_span < id_span" by (simp_all add: id_span_def)
  then show "1024 \<le> nth_id c k" "nth_id c k < 2 ^ 31" by (simp_all add: nth_id_def id_span_def)
qed

lemma nth_id_add: "nth_id (nth_id c 1) k = nth_id c (Suc k)"
  by (simp add: nth_id_def mod_simps algebra_simps)

lemma nth_id_inj:
  assumes "nth_id c j = nth_id c k" "int j < int k + id_span" "int k < int j + id_span"
  shows "j = k"
proof -
  from assms(1) have "id_span dvd int j - int k" by (simp add: nth_id_def mod_eq_dvd_iff algebra_simps)
  moreover have "\<bar>int j - int k\<bar> < \<bar>id_span\<bar>" using assms(2,3) by (simp add: id_span_def)
  ultimately show ?thesis using dvd_imp_le_int [of "int j - int k" id_span] by fastforce
qed

text \<open>When the loop does not end, the identifiers it has tried are all in use.\<close>

lemma alloc_id_None:
  "alloc_id n ids (c, True) = None \<Longrightarrow> 1024 \<le> c \<Longrightarrow> c < 2 ^ 31 \<Longrightarrow> k < n \<Longrightarrow> nth_id c (Suc k) \<in> set ids"
proof (induction n arbitrary: c k)
  case (Suc n)
  from Suc.prems have 1: "nth_id c 1 \<in> set ids" "alloc_id n ids (nth_id c 1, True) = None"
    by (simp_all add: next_counter_wrapped Let_def split: if_splits)
  show ?case
  proof (cases k)
    case 0
    with 1 show ?thesis by simp
  next
    case (Suc m)
    with Suc.prems have "nth_id (nth_id c 1) (Suc m) \<in> set ids" by (intro Suc.IH [OF 1(2) nth_id_range]) simp
    with Suc show ?thesis by (simp only: nth_id_add)
  qed
qed simp

lemma alloc_id_wrapped:
  assumes "1024 \<le> c" "c < 2 ^ 31" "int (length ids) < id_span"
  shows "alloc_id (Suc (length ids)) ids (c, True) \<noteq> None"
proof
  assume *: "alloc_id (Suc (length ids)) ids (c, True) = None"
  let ?f = "\<lambda>k. nth_id c (Suc k)" and ?n = "Suc (length ids)"
  have "inj_on ?f {..< ?n}"
    by (rule inj_onI) (drule nth_id_inj; use assms(3) in auto)
  then have "card (?f ` {..< ?n}) = ?n" by (simp add: card_image)
  moreover have "?f ` {..< ?n} \<subseteq> set ids" using alloc_id_None [OF * assms(1,2)] by blast
  ultimately have "?n \<le> card (set ids)" by (metis card_mono finite_set)
  then show False using card_length [of ids] by linarith
qed

text \<open>The identifiers in use: positive, and below the counter until it has wrapped.\<close>

definition counter_ok :: "int \<times> bool \<Rightarrow> int list \<Rightarrow> bool" where
  "counter_ok cw ids \<longleftrightarrow> 0 \<le> fst cw \<and> fst cw < 2 ^ 31 \<and> (snd cw \<longrightarrow> 1024 \<le> fst cw)
     \<and> (\<not> snd cw \<longrightarrow> (\<forall>i \<in> set ids. i \<le> fst cw))"

lemma next_counter_ok: "counter_ok cw ids \<Longrightarrow> counter_ok (next_counter cw) ids"
  by (force simp: counter_ok_def next_counter_def incr32_def Let_def)

lemma alloc_id_fresh:
  "alloc_id n ids cw = Some cw' \<Longrightarrow> counter_ok cw ids \<Longrightarrow> counter_ok cw' ids \<and> fst cw' \<notin> set ids \<and> 0 < fst cw'"
proof (induction n arbitrary: cw)
  case (Suc n)
  note ok = next_counter_ok [OF Suc.prems(2)]
  show ?case
  proof (cases "snd (next_counter cw)")
    case True
    with Suc.prems Suc.IH [OF _ ok] ok show ?thesis by (auto simp: Let_def counter_ok_def split: if_splits)
  next
    case False
    then have n: "next_counter cw = (fst cw + 1, False)" "\<not> snd cw" using Suc.prems(2)
      by (auto simp: next_counter_def incr32_def Let_def split: if_splits)
    then have "\<forall>i \<in> set ids. i \<le> fst cw" "0 \<le> fst cw" using Suc.prems(2) by (simp_all add: counter_ok_def)
    then have "fst cw + 1 \<notin> set ids" "0 < fst cw + 1" by force+
    moreover have "cw' = (fst cw + 1, False)" using Suc.prems(1) n by simp
    ultimately show ?thesis using ok n by simp
  qed
qed simp

lemma alloc_id_total:
  assumes "counter_ok cw ids" "int (length ids) < id_span"
  shows "alloc_id (Suc (length ids)) ids cw \<noteq> None"
proof (cases "snd (next_counter cw)")
  case True
  obtain c w where cw: "cw = (c, w)" by fastforce
  have "next_counter (c, w) = next_counter (c, True) \<and> (1024 \<le> c \<and> c < 2 ^ 31)"
    using True assms(1) cw by (auto simp: next_counter_def incr32_def counter_ok_def Let_def split: if_splits)
  with alloc_id_wrapped [of c ids] assms(2) cw show ?thesis by (simp add: Let_def del: Let_def)
qed (simp add: Let_def)

section \<open>The invariant\<close>

definition chains_inv :: "evt_state \<Rightarrow> bool" where
  "chains_inv s \<longleftrightarrow> distinct (es_listeners s) \<and> set (es_listeners s) = dom (es_L s)
     \<and> distinct (es_events s) \<and> set (es_events s) = dom (es_E s)"

definition listeners_inv :: "(addr \<rightharpoonup> afb_evt_listener) \<Rightarrow> bool" where
  "listeners_inv L \<longleftrightarrow> (\<forall>l x. L l = Some x \<longrightarrow> 0 < el_refcount x)
     \<and> (\<forall>l m x y. L l = Some x \<and> L m = Some y \<and> el_itf x = el_itf y \<and> el_closure x = el_closure y \<longrightarrow> l = m)"

definition ids_inv :: "evt_state \<Rightarrow> bool" where
  "ids_inv s \<longleftrightarrow> counter_ok (es_counter s, es_wrapped s) (event_ids s) \<and> distinct (event_ids s) \<and> (\<forall>i \<in> set (event_ids s). 0 < i)"

definition evt_inv :: "evt_state \<Rightarrow> bool" where
  "evt_inv s \<longleftrightarrow> watch_inv s \<and> chains_inv s \<and> listeners_inv (es_L s) \<and> ids_inv s"

lemma evt_inv_init: "evt_inv evt_init"
  by (simp add: evt_inv_def evt_init_def watch_inv_def watches_ok_def chains_inv_def listeners_inv_def ids_inv_def counter_ok_def event_ids_def)

lemma event_ids_cong:
  "es_events s' = es_events s \<Longrightarrow> (\<And>e. map_option ev_id (es_E s' e) = map_option ev_id (es_E s e))
    \<Longrightarrow> set (es_events s) \<subseteq> dom (es_E s) \<Longrightarrow> event_ids s' = event_ids s"
proof -
  assume a: "es_events s' = es_events s" "\<And>e. map_option ev_id (es_E s' e) = map_option ev_id (es_E s e)" "set (es_events s) \<subseteq> dom (es_E s)"
  have "ev_id (the (es_E s' e)) = ev_id (the (es_E s e))" if "e \<in> set (es_events s)" for e
    using a(2) [of e] a(3) that by (cases "es_E s' e"; cases "es_E s e") auto
  with a(1) show ?thesis by (simp add: event_ids_def)
qed

lemma ids_inv_cong:
  "ids_inv s \<Longrightarrow> event_ids s' = event_ids s \<Longrightarrow> es_counter s' = es_counter s \<Longrightarrow> es_wrapped s' = es_wrapped s \<Longrightarrow> ids_inv s'"
  by (simp add: ids_inv_def)

lemma listeners_inv_pos: "listeners_inv L \<Longrightarrow> L l = Some x \<Longrightarrow> 0 < el_refcount x"
  unfolding listeners_inv_def by blast

lemma listeners_inv_unique:
  "listeners_inv L \<Longrightarrow> L l = Some x \<Longrightarrow> L m = Some y \<Longrightarrow> el_itf x = el_itf y \<Longrightarrow> el_closure x = el_closure y \<Longrightarrow> l = m"
  unfolding listeners_inv_def by blast

text \<open>Changing a listener without touching what identifies it.\<close>

lemma listeners_inv_cong:
  assumes "listeners_inv L" "\<And>l x'. L' l = Some x' \<Longrightarrow>
    \<exists>x. L l = Some x \<and> el_itf x' = el_itf x \<and> el_closure x' = el_closure x \<and> 0 < el_refcount x'"
  shows "listeners_inv L'"
  unfolding listeners_inv_def
proof (intro conjI allI impI)
  show "0 < el_refcount x" if "L' l = Some x" for l x using assms(2) [OF that] by blast
next
  fix l m x y assume "L' l = Some x \<and> L' m = Some y \<and> el_itf x = el_itf y \<and> el_closure x = el_closure y"
  then show "l = m" using assms(1) assms(2) [of l x] assms(2) [of m y] unfolding listeners_inv_def by metis
qed

lemma listeners_inv_insert:
  assumes "listeners_inv L" "\<And>m y. L m = Some y \<Longrightarrow> el_itf y \<noteq> el_itf x \<or> el_closure y \<noteq> el_closure x" "0 < el_refcount x"
  shows "listeners_inv (L(l \<mapsto> x))"
  unfolding listeners_inv_def
proof (intro conjI allI impI)
  show "0 < el_refcount y" if "(L(l \<mapsto> x)) m = Some y" for m y
    using that assms(3) listeners_inv_pos [OF assms(1)] by (cases "m = l") auto
next
  fix i j y z assume "(L(l \<mapsto> x)) i = Some y \<and> (L(l \<mapsto> x)) j = Some z \<and> el_itf y = el_itf z \<and> el_closure y = el_closure z"
  then show "i = j" using assms(2) [of i y] assms(2) [of j z] listeners_inv_unique [OF assms(1), of i y j z]
    by (cases "i = l"; cases "j = l") auto
qed

lemma evt_inv_prune:
  assumes "evt_inv s"
  shows "evt_inv (prune S c s)"
proof -
  have d: "dom (es_L (prune S c s)) = dom (es_L s)" "dom (es_E (prune S c s)) = dom (es_E s)" by (simp_all add: dom_def)
  have sub: "set (es_events s) \<subseteq> dom (es_E s)" using assms by (simp add: evt_inv_def chains_inv_def)
  have "event_ids (prune S c s) = event_ids s"
    by (rule event_ids_cong [OF _ _ sub]) (simp_all add: option.map_comp comp_def)
  then have "ids_inv (prune S c s)" using assms ids_inv_cong [of s "prune S c s"] by (simp add: evt_inv_def)
  moreover have "chains_inv (prune S c s)" using assms unfolding evt_inv_def chains_inv_def d by simp
  moreover have "listeners_inv (es_L (prune S c s))"
    by (rule listeners_inv_cong [of "es_L s"]) (use assms listeners_inv_pos [of "es_L s"] in \<open>auto simp: evt_inv_def\<close>)
  ultimately show ?thesis using assms watch_inv_prune [of s S c] unfolding evt_inv_def by blast
qed

section \<open>Every operation keeps the invariant and does not abort\<close>

lemma evt_destroy_ok [keeps_inv]:
  assumes "evt_inv s"
  shows "\<exists>s'. evt_destroy e s = Some s' \<and> evt_inv s'
    \<and> (\<forall>evt. es_E s e = Some evt \<longrightarrow> es_E s' e = None \<and> es_W s' = es_W (prune (set (ev_watchs evt)) [] s)
         \<and> es_calls s' = es_calls s @ removal_calls s (ev_watchs evt))"
proof (cases "es_E s e")
  case None
  then have "e \<notin> set (es_events s)" using assms by (auto simp: evt_inv_def chains_inv_def)
  with None assms show ?thesis by (simp add: evt_destroy_def)
next
  case (Some evt)
  let ?S = "set (ev_watchs evt)" and ?c = "removal_calls s (ev_watchs evt)"
  let ?s0 = "s\<lparr>es_events := remove1 e (es_events s)\<rparr>"
  have w: "watch_inv s" and ch: "chains_inv s" using assms by (auto simp: evt_inv_def)
  have "watch_inv ?s0" using w by (rule watch_inv_cong) simp_all
  moreover have "removal_calls ?s0 ws = removal_calls s ws" for ws
    by (simp add: removal_calls_def removal_call_def [abs_def])
  ultimately have r: "remove_event_watches (length (ev_watchs evt)) e ?s0 = Some (prune ?S ?c ?s0)"
    using remove_event_watches_prune [of ?s0 e evt] Some by simp
  let ?s1 = "(prune ?S ?c ?s0)\<lparr>es_E := (es_E (prune ?S ?c ?s0))(e := None)\<rparr>"
  have e: "e \<in> set (es_events s)" using Some ch by (auto simp: chains_inv_def)
  have inv: "evt_inv (prune ?S ?c s)" by (rule evt_inv_prune [OF assms])
  have "\<And>w wt. es_W (prune ?S ?c s) w = Some wt \<Longrightarrow> ew_event wt \<noteq> e"
    using watch_inv_E(2) [OF w Some] by (auto split: if_splits)
  then have "watch_inv ((prune ?S ?c s)\<lparr>es_E := (es_E (prune ?S ?c s))(e := None)\<rparr>)"
    by (rule watch_inv_drop_event [OF watch_inv_prune [OF w]])
  then have "watch_inv ?s1" by (rule watch_inv_cong) (auto simp: prune_def)
  moreover have "chains_inv ?s1" using ch by (auto simp: chains_inv_def dom_def)
  moreover have "listeners_inv (es_L ?s1)" using inv by (simp add: evt_inv_def prune_def)
  moreover have "ids_inv ?s1"
  proof -
    have e1: "event_ids ?s1 = map (\<lambda>e. ev_id (the (es_E s e))) (remove1 e (es_events s))"
      using ch by (auto simp: event_ids_def chains_inv_def)
    have "distinct (map (\<lambda>e. ev_id (the (es_E s e))) (es_events s))" using assms by (simp add: evt_inv_def ids_inv_def event_ids_def)
    then have "distinct (event_ids ?s1)"
      unfolding e1 distinct_map by (auto intro: inj_on_subset)
    moreover have "set (event_ids ?s1) \<subseteq> set (event_ids s)" unfolding e1
      using set_remove1_subset [of e "es_events s"] by (auto simp: event_ids_def)
    ultimately show ?thesis using assms by (auto simp: evt_inv_def ids_inv_def counter_ok_def)
  qed
  ultimately have "evt_inv ?s1" by (simp add: evt_inv_def)
  then show ?thesis using Some e r by (auto simp: evt_destroy_def)
qed

lemma create_event_ok [keeps_inv]:
  assumes "evt_inv s" "int (length (es_events s)) < id_span" "\<forall>e. alloc = Some e \<longrightarrow> es_E s e = None"
  shows "\<exists>s' c wr ev. afb_evt_create_event name alloc s = Some (s', ev) \<and> evt_inv s'
    \<and> c \<notin> set (event_ids s) \<and> 0 < c \<and> es_W s' = es_W s \<and> es_L s' = es_L s
    \<and> (case alloc of None \<Rightarrow> \<not> ae_itf ev \<and> es_E s' = es_E s
        | Some e \<Rightarrow> ev = \<lparr>ae_itf = True, ae_closure = e\<rparr> \<and> es_E s' = (es_E s)(e \<mapsto> \<lparr>ev_watchs = [], ev_id = c, ev_name = name\<rparr>))"
proof -
  have inv: "watch_inv s" "chains_inv s" "listeners_inv (es_L s)" "ids_inv s" using assms(1) by (auto simp: evt_inv_def)
  have ok: "counter_ok (es_counter s, es_wrapped s) (event_ids s)" using inv(4) by (simp add: ids_inv_def)
  have len: "length (event_ids s) = length (es_events s)" by (simp add: event_ids_def)
  obtain c wr where cw: "alloc_id (Suc (length (es_events s))) (event_ids s) (es_counter s, es_wrapped s) = Some (c, wr)"
    using alloc_id_total [OF ok] assms(2) len by auto
  from alloc_id_fresh [OF cw ok] have c: "counter_ok (c, wr) (event_ids s)" "c \<notin> set (event_ids s)" "0 < c" by auto
  show ?thesis
  proof (cases alloc)
    case None
    let ?s = "s\<lparr>es_counter := c, es_wrapped := wr\<rparr>"
    have "watch_inv ?s" using inv(1) by (rule watch_inv_cong) simp_all
    then have "evt_inv ?s" using inv c by (simp add: evt_inv_def chains_inv_def ids_inv_def event_ids_def)
    with None cw c show ?thesis by (auto simp: afb_evt_create_event_def simp del: alloc_id.simps)
  next
    case (Some e)
    then have fresh: "es_E s e = None" using assms(3) by simp
    let ?evt = "\<lparr>ev_watchs = [], ev_id = c, ev_name = name\<rparr>"
    let ?s = "s\<lparr>es_counter := c, es_wrapped := wr, es_E := (es_E s)(e \<mapsto> ?evt), es_events := e # es_events s\<rparr>"
    have e: "e \<notin> set (es_events s)" using fresh inv(2) by (auto simp: chains_inv_def)
    have "es_W s w = Some wt \<Longrightarrow> ew_event wt \<noteq> e" for w wt using watch_inv_W(1) [OF inv(1)] fresh by fastforce
    then have "event_ok (es_W s) e ?evt" by (auto simp: event_ok_def)
    moreover have "watches_ok (es_W s) (dom (es_L s)) (insert e (dom (es_E s)))"
      by (rule watches_ok_mono [of _ "dom (es_L s)" "dom (es_E s)"]) (use inv(1) watch_inv_W [OF inv(1)] in \<open>auto simp: watch_inv_def\<close>)
    ultimately have "watch_inv ?s" using inv(1) by (simp add: watch_inv_def)
    moreover have "event_ids ?s = c # event_ids s" using e by (auto simp: event_ids_def)
    then have "ids_inv ?s" using inv(4) c by (auto simp: ids_inv_def counter_ok_def)
    moreover have "chains_inv ?s" using inv(2) e by (simp add: chains_inv_def)
    ultimately have "evt_inv ?s" using inv by (simp add: evt_inv_def)
    with Some cw c show ?thesis by (auto simp: afb_evt_create_event_def simp del: alloc_id.simps)
  qed
qed

text \<open>A listener changed in its count only.\<close>

lemma listener_count_inv:
  assumes "evt_inv s" "es_L s l = Some x" "x' = x\<lparr>el_refcount := n\<rparr>"
  shows "watch_inv (s\<lparr>es_L := (es_L s)(l \<mapsto> x')\<rparr>)" "0 < n \<Longrightarrow> evt_inv (s\<lparr>es_L := (es_L s)(l \<mapsto> x')\<rparr>)"
proof -
  have inv: "watch_inv s" "chains_inv s" "listeners_inv (es_L s)" "ids_inv s" using assms(1) by (auto simp: evt_inv_def)
  have "listener_ok (es_W s) l x'" using inv(1) assms(2,3) by (simp add: watch_inv_def listener_ok_def)
  with inv(1) assms(2) show w: "watch_inv (s\<lparr>es_L := (es_L s)(l \<mapsto> x')\<rparr>)"
    by (simp add: watch_inv_def insert_absorb domI)
  assume n: "0 < n"
  have "listeners_inv ((es_L s)(l \<mapsto> x'))"
    by (rule listeners_inv_cong [OF inv(3)]) (use assms(2,3) n listeners_inv_pos [OF inv(3)] in \<open>auto split: if_splits\<close>)
  moreover have "ids_inv (s\<lparr>es_L := (es_L s)(l \<mapsto> x')\<rparr>)" using inv(4) by (simp add: ids_inv_def event_ids_def)
  ultimately show "evt_inv (s\<lparr>es_L := (es_L s)(l \<mapsto> x')\<rparr>)"
    using w inv(2) assms(2) by (simp add: evt_inv_def chains_inv_def insert_absorb domI)
qed

lemma listener_addref_ok [keeps_inv]:
  assumes "evt_inv s" "es_L s l = Some x"
  shows "\<exists>s'. afb_evt_listener_addref l s = Some s' \<and> evt_inv s'"
proof -
  have "0 < el_refcount x + 1" using assms listeners_inv_pos [of "es_L s" l x] by (auto simp: evt_inv_def)
  then have "evt_inv (s\<lparr>es_L := (es_L s)(l \<mapsto> listener_ref x)\<rparr>)"
    by (intro listener_count_inv(2) [OF assms]) (auto simp: listener_ref_def)
  with assms show ?thesis by (simp add: afb_evt_listener_addref_def)
qed

lemma listener_create_ok [keeps_inv]:
  assumes "evt_inv s" "\<forall>l. alloc = Some l \<longrightarrow> es_L s l = None"
  shows "\<exists>s' p. afb_evt_listener_create itf closure alloc s = Some (s', p) \<and> evt_inv s'"
proof (cases "List.find (\<lambda>l. el_itf (the (es_L s l)) = itf \<and> el_closure (the (es_L s l)) = closure) (es_listeners s)")
  case (Some l)
  then have "l \<in> set (es_listeners s)" by (auto simp: find_Some_iff)
  then obtain x where "es_L s l = Some x" using assms(1) by (auto simp: evt_inv_def chains_inv_def)
  with listener_addref_ok [OF assms(1) this] Some show ?thesis by (auto simp: afb_evt_listener_create_def)
next
  case None
  show ?thesis
  proof (cases alloc)
    case (Some l)
    have inv: "watch_inv s" "chains_inv s" "listeners_inv (es_L s)" "ids_inv s" using assms(1) by (auto simp: evt_inv_def)
    have fresh: "es_L s l = None" using assms(2) Some by blast
    let ?x = "\<lparr>el_itf = itf, el_closure = closure, el_watchs = [], el_refcount = 1\<rparr>"
    let ?s = "s\<lparr>es_listeners := l # es_listeners s, es_L := (es_L s)(l \<mapsto> ?x)\<rparr>"
    have "es_W s w = Some wt \<Longrightarrow> ew_listener wt \<noteq> l" for w wt using watch_inv_W(2) [OF inv(1)] fresh by fastforce
    then have "listener_ok (es_W s) l ?x" by (auto simp: listener_ok_def)
    moreover have "watches_ok (es_W s) (insert l (dom (es_L s))) (dom (es_E s))"
      by (rule watches_ok_mono [of _ "dom (es_L s)" "dom (es_E s)"]) (use inv(1) watch_inv_W [OF inv(1)] in \<open>auto simp: watch_inv_def\<close>)
    ultimately have "watch_inv ?s" using inv(1) by (simp add: watch_inv_def)
    moreover have "chains_inv ?s" using inv(2) fresh by (auto simp: chains_inv_def)
    moreover have "el_itf y \<noteq> itf \<or> el_closure y \<noteq> closure" if "es_L s m = Some y" for m y
    proof -
      have "m \<in> set (es_listeners s)" using that inv(2) by (auto simp: chains_inv_def)
      with None that show ?thesis by (auto simp: find_None_iff dest: spec [of _ m])
    qed
    then have "listeners_inv ((es_L s)(l \<mapsto> ?x))"
      by (intro listeners_inv_insert [OF inv(3)]) auto
    moreover have "ids_inv ?s" using inv(4) by (simp add: ids_inv_def event_ids_def)
    ultimately show ?thesis using None Some by (simp add: afb_evt_listener_create_def evt_inv_def)
  qed (use None assms(1) in \<open>simp add: afb_evt_listener_create_def\<close>)
qed

lemma listener_unref_ok [keeps_inv]:
  assumes "evt_inv s" "es_L s l = Some x"
  shows "\<exists>s'. afb_evt_listener_unref l s = Some s' \<and> evt_inv s'
    \<and> (el_refcount x = 1 \<longrightarrow> es_L s' l = None \<and> es_W s' = es_W (prune (set (el_watchs x)) [] s)
         \<and> es_calls s' = es_calls s @ removal_calls s (el_watchs x))
    \<and> (el_refcount x \<noteq> 1 \<longrightarrow> es_L s' l \<noteq> None \<and> es_W s' = es_W s \<and> es_calls s' = es_calls s)"
proof -
  have inv: "watch_inv s" "chains_inv s" "listeners_inv (es_L s)" "ids_inv s" using assms(1) by (auto simp: evt_inv_def)
  have pos: "0 < el_refcount x" by (rule listeners_inv_pos [OF inv(3) assms(2)])
  show ?thesis
  proof (cases "el_refcount x = 1")
    case False
    with pos have "evt_inv (s\<lparr>es_L := (es_L s)(l \<mapsto> x\<lparr>el_refcount := el_refcount x - 1\<rparr>)\<rparr>)"
      by (intro listener_count_inv(2) [OF assms refl]) simp
    with False assms(2) show ?thesis by (simp add: afb_evt_listener_unref_def listener_deref_def)
  next
    case True
    let ?x = "x\<lparr>el_refcount := 0\<rparr>" and ?S = "set (el_watchs x)" and ?c = "removal_calls s (el_watchs x)"
    let ?s0 = "s\<lparr>es_L := (es_L s)(l \<mapsto> ?x)\<rparr>"
    have w0: "watch_inv ?s0" by (rule listener_count_inv(1) [OF assms refl])
    have "removal_call ?s0 w = removal_call s w" for w
      using assms(2) by (simp add: removal_call_def Let_def)
    then have "removal_call ?s0 = removal_call s" by (rule ext)
    then have rc: "removal_calls ?s0 ws = removal_calls s ws" for ws by (simp add: removal_calls_def)
    have r: "remove_listener_watches (length (el_watchs x)) l ?s0 = Some (prune ?S ?c ?s0)"
      using remove_listener_watches_prune [OF w0, of l ?x] rc by simp
    let ?p = "prune ?S ?c ?s0"
    let ?s1 = "?p\<lparr>es_listeners := remove1 l (es_listeners s), es_L := (es_L ?p)(l := None)\<rparr>"
    have "\<And>w wt. es_W ?p w = Some wt \<Longrightarrow> ew_listener wt \<noteq> l"
      using watch_inv_L(2) [OF inv(1) assms(2)] by (auto split: if_splits)
    then have "watch_inv (?p\<lparr>es_L := (es_L ?p)(l := None)\<rparr>)" by (rule watch_inv_drop_listener [OF watch_inv_prune [OF w0]])
    then have "watch_inv ?s1" by (rule watch_inv_cong) simp_all
    moreover have "l \<in> set (es_listeners s)" using assms(2) inv(2) by (auto simp: chains_inv_def)
    moreover have "chains_inv ?s1" using inv(2) by (auto simp: chains_inv_def dom_def)
    moreover have "listeners_inv (es_L ?s1)"
      by (rule listeners_inv_cong [OF inv(3)]) (use listeners_inv_pos [OF inv(3)] in \<open>auto split: if_splits\<close>)
    moreover have "event_ids ?s1 = event_ids s"
      by (rule event_ids_cong) (use inv(2) in \<open>auto simp: chains_inv_def option.map_comp comp_def\<close>)
    then have "ids_inv ?s1" using ids_inv_cong [OF inv(4)] by simp
    ultimately show ?thesis
      using True assms(2) r by (auto simp: afb_evt_listener_unref_def listener_deref_def unlink_def evt_inv_def)
  qed
qed

section \<open>Subscriptions\<close>

text \<open>The abstract view: how many times a listener has subscribed to an event.\<close>

definition activity :: "evt_state \<Rightarrow> addr \<Rightarrow> addr \<Rightarrow> nat" where
  "activity s e l =
     (case es_L s l of
        None \<Rightarrow> 0
      | Some x \<Rightarrow> (case find_watch s (el_watchs x) e of None \<Rightarrow> 0 | Some w \<Rightarrow> unat (ew_activity (the (es_W s w)))))"

lemma find_watch_Some:
  assumes "watch_inv s" "es_L s l = Some x"
  shows "find_watch s (el_watchs x) e = Some w \<longleftrightarrow> (\<exists>wt. es_W s w = Some wt \<and> ew_event wt = e \<and> ew_listener wt = l)"
proof
  assume "find_watch s (el_watchs x) e = Some w"
  then have "w \<in> set (el_watchs x)" "ew_event (the (es_W s w)) = e"
    unfolding find_watch_def find_Some_iff by auto
  with watch_inv_L(2) [OF assms] show "\<exists>wt. es_W s w = Some wt \<and> ew_event wt = e \<and> ew_listener wt = l" by auto
next
  assume "\<exists>wt. es_W s w = Some wt \<and> ew_event wt = e \<and> ew_listener wt = l"
  then obtain wt where wt: "es_W s w = Some wt" "ew_event wt = e" "ew_listener wt = l" by blast
  then have "w \<in> set (el_watchs x)" using watch_inv_L(2) [OF assms] by auto
  then obtain v where v: "find_watch s (el_watchs x) e = Some v"
    using wt unfolding find_watch_def by (cases "List.find (\<lambda>w. ew_event (the (es_W s w)) = e) (el_watchs x)") (auto simp: find_None_iff)
  then have "v \<in> set (el_watchs x)" "ew_event (the (es_W s v)) = e" unfolding find_watch_def find_Some_iff by auto
  then obtain vt where "es_W s v = Some vt" "ew_listener vt = l" "ew_event vt = e" using watch_inv_L(2) [OF assms, of v] by auto
  with watch_inv_unique [OF assms(1), of v vt w wt] wt v show "find_watch s (el_watchs x) e = Some w" by simp
qed

lemma find_watch_None:
  assumes "watch_inv s" "es_L s l = Some x"
  shows "find_watch s (el_watchs x) e = None \<longleftrightarrow> (\<forall>w wt. es_W s w = Some wt \<longrightarrow> \<not> (ew_event wt = e \<and> ew_listener wt = l))"
  using find_watch_Some [OF assms, of e] by (metis not_None_eq)

lemma activity_watch:
  assumes "watch_inv s" "es_W s w = Some wt"
  shows "activity s (ew_event wt) (ew_listener wt) = unat (ew_activity wt)"
proof -
  obtain x where x: "es_L s (ew_listener wt) = Some x" using watch_inv_W(2) [OF assms] by blast
  with find_watch_Some [OF assms(1) x, of "ew_event wt" w] assms(2) show ?thesis by (simp add: activity_def)
qed

lemma activity_none:
  assumes "watch_inv s" "\<And>w wt. es_W s w = Some wt \<Longrightarrow> \<not> (ew_event wt = e \<and> ew_listener wt = l)"
  shows "activity s e l = 0"
proof (cases "es_L s l")
  case (Some x)
  have "find_watch s (el_watchs x) e = None" using find_watch_None [OF assms(1) Some, of e] assms(2) by blast
  with Some show ?thesis by (simp add: activity_def)
qed (simp add: activity_def)

text \<open>The activity only depends on the watches.\<close>

lemma activity_cong:
  assumes "watch_inv s" "watch_inv s'"
    and "\<And>w wt. es_W s w = Some wt \<Longrightarrow> ew_event wt = e \<Longrightarrow> ew_listener wt = l \<Longrightarrow> es_W s' w = Some wt"
    and "\<And>w wt. es_W s' w = Some wt \<Longrightarrow> ew_event wt = e \<Longrightarrow> ew_listener wt = l \<Longrightarrow> es_W s w = Some wt"
  shows "activity s' e l = activity s e l"
proof (cases "\<exists>w wt. es_W s w = Some wt \<and> ew_event wt = e \<and> ew_listener wt = l")
  case True
  then obtain w wt where wt: "es_W s w = Some wt" "ew_event wt = e" "ew_listener wt = l" by blast
  with activity_watch [OF assms(1) wt(1)] activity_watch [OF assms(2) assms(3) [OF wt]] show ?thesis by simp
next
  case False
  then have "activity s e l = 0" by (intro activity_none [OF assms(1)]) blast
  moreover have "activity s' e l = 0" using False assms(4) by (intro activity_none [OF assms(2)]) blast
  ultimately show ?thesis by simp
qed

text \<open>Changing the activity of a watch.\<close>

lemma watch_inv_set_activity:
  assumes "watch_inv s" "es_W s w = Some wt"
  shows "watch_inv (s\<lparr>es_W := (es_W s)(w \<mapsto> wt\<lparr>ew_activity := n\<rparr>), es_calls := c\<rparr>)"
proof -
  let ?W = "(es_W s)(w \<mapsto> wt\<lparr>ew_activity := n\<rparr>)"
  have "{v. \<exists>vt. ?W v = Some vt \<and> ew_listener vt = l} = {v. \<exists>vt. es_W s v = Some vt \<and> ew_listener vt = l}"
    "{v. \<exists>vt. ?W v = Some vt \<and> ew_event vt = l} = {v. \<exists>vt. es_W s v = Some vt \<and> ew_event vt = l}" for l
    using assms(2) by auto
  then have "listener_ok ?W = listener_ok (es_W s)" "event_ok ?W = event_ok (es_W s)"
    by (auto simp: listener_ok_def event_ok_def fun_eq_iff)
  moreover have "watches_ok ?W ls es" if "watches_ok (es_W s) ls es" for ls es
  proof -
    have k: "\<exists>ut. es_W s v = Some ut \<and> ew_event vt = ew_event ut \<and> ew_listener vt = ew_listener ut" if "?W v = Some vt" for v vt
      using that assms(2) by (auto split: if_splits)
    show ?thesis using that k unfolding watches_ok_def by metis
  qed
  ultimately show ?thesis using assms(1) by (simp add: watch_inv_def)
qed

lemma evt_inv_watches:
  assumes "evt_inv s" "watch_inv (s\<lparr>es_W := W, es_calls := c\<rparr>)"
  shows "evt_inv (s\<lparr>es_W := W, es_calls := c\<rparr>)"
  using assms by (simp add: evt_inv_def chains_inv_def ids_inv_def event_ids_def)

lemma activity_set:
  assumes "watch_inv s" "es_W s w = Some wt"
  shows "activity (s\<lparr>es_W := (es_W s)(w \<mapsto> wt\<lparr>ew_activity := n\<rparr>), es_calls := c\<rparr>) e l =
    (if e = ew_event wt \<and> l = ew_listener wt then unat n else activity s e l)"
proof -
  let ?s = "s\<lparr>es_W := (es_W s)(w \<mapsto> wt\<lparr>ew_activity := n\<rparr>), es_calls := c\<rparr>"
  note w = watch_inv_set_activity [OF assms, where n = n and c = c]
  show ?thesis
  proof (cases "e = ew_event wt \<and> l = ew_listener wt")
    case True
    with activity_watch [OF w, of w "wt\<lparr>ew_activity := n\<rparr>"] show ?thesis by simp
  next
    case False
    then have "activity ?s e l = activity s e l"
      by (intro activity_cong [OF assms(1) w]) (use assms(2) in \<open>auto split: if_splits\<close>)
    with False show ?thesis by auto
  qed
qed

text \<open>Linking a new watch.\<close>

lemma add_new_watch_inv:
  assumes "evt_inv s" "es_W s w = None" "es_E s e = Some evt" "es_L s l = Some x" "ei_push (el_itf x)"
    and new: "\<And>v vt. es_W s v = Some vt \<Longrightarrow> \<not> (ew_event vt = e \<and> ew_listener vt = l)"
  shows "evt_inv (s\<lparr>es_W := (es_W s)(w \<mapsto> \<lparr>ew_event = e, ew_listener = l, ew_activity = 0\<rparr>),
     es_E := (es_E s)(e \<mapsto> evt\<lparr>ev_watchs := w # ev_watchs evt\<rparr>),
     es_L := (es_L s)(l \<mapsto> x\<lparr>el_watchs := w # el_watchs x\<rparr>)\<rparr>)" (is "evt_inv ?s")
proof -
  have inv: "watch_inv s" "chains_inv s" "listeners_inv (es_L s)" "ids_inv s" using assms(1) by (auto simp: evt_inv_def)
  let ?wt = "\<lparr>ew_event = e, ew_listener = l, ew_activity = 0\<rparr>"
  let ?W = "(es_W s)(w \<mapsto> ?wt)"
  have fresh: "w \<notin> set (el_watchs y)" if "es_L s m = Some y" for m y using watch_inv_L(2) [OF inv(1) that] assms(2) by simp
  have fresh': "w \<notin> set (ev_watchs y)" if "es_E s m = Some y" for m y using watch_inv_E(2) [OF inv(1) that] assms(2) by simp
  have "listener_ok ?W l (x\<lparr>el_watchs := w # el_watchs x\<rparr>)"
    using watch_inv_L [OF inv(1) assms(4)] fresh [OF assms(4)] assms(2,5) by (auto simp: listener_ok_def)
  moreover have "listener_ok ?W m y" if "es_L s m = Some y" "m \<noteq> l" for m y
    using watch_inv_L [OF inv(1) that(1)] fresh [OF that(1)] assms(2) that(2) by (auto simp: listener_ok_def)
  moreover have "event_ok ?W e (evt\<lparr>ev_watchs := w # ev_watchs evt\<rparr>)"
    using watch_inv_E [OF inv(1) assms(3)] fresh' [OF assms(3)] assms(2) by (auto simp: event_ok_def)
  moreover have "event_ok ?W m y" if "es_E s m = Some y" "m \<noteq> e" for m y
    using watch_inv_E [OF inv(1) that(1)] fresh' [OF that(1)] assms(2) that(2) by (auto simp: event_ok_def)
  moreover have "watches_ok ?W (dom (es_L s)) (dom (es_E s))"
  proof -
    have "watches_ok (es_W s) (dom (es_L s)) (dom (es_E s))" using inv(1) by (simp add: watch_inv_def)
    with new assms(2-4) show ?thesis unfolding watches_ok_def fun_upd_apply
      by (smt (verit) afb_evt_watch.select_convs(1,2) domI option.inject)
  qed
  ultimately have "watch_inv ?s" using assms(3,4) by (simp add: watch_inv_def insert_absorb domI)
  moreover have "chains_inv ?s" using inv(2) assms(3,4) by (simp add: chains_inv_def insert_absorb domI)
  moreover have "listeners_inv (es_L ?s)"
    by (rule listeners_inv_cong [OF inv(3)]) (use assms(4) listeners_inv_pos [OF inv(3)] in \<open>auto split: if_splits\<close>)
  moreover have "event_ids ?s = event_ids s"
    by (rule event_ids_cong) (use inv(2) assms(3) in \<open>auto simp: chains_inv_def\<close>)
  then have "ids_inv ?s" using ids_inv_cong [OF inv(4)] by simp
  ultimately show ?thesis by (simp add: evt_inv_def)
qed

lemma activate_ok:
  assumes "evt_inv s" "es_W s w = Some wt" "es_E s (ew_event wt) = Some evt" "es_L s (ew_listener wt) = Some x"
  shows "activate w s = Some (s\<lparr>es_W := (es_W s)(w \<mapsto> wt\<lparr>ew_activity := ew_activity wt + 1\<rparr>),
    es_calls := es_calls s @ (if ew_activity wt = 0 \<and> ei_add (el_itf x) then [Call_add (el_closure x) (ev_name evt) (ev_id evt)] else [])\<rparr>)"
  using assms by (simp add: activate_def)

lemma activity_link:
  assumes "evt_inv s" "evt_inv s'" "es_W s w = None"
    and "es_W s' = (es_W s)(w \<mapsto> \<lparr>ew_event = e, ew_listener = l, ew_activity = 0\<rparr>)"
    and new: "\<And>v vt. es_W s v = Some vt \<Longrightarrow> \<not> (ew_event vt = e \<and> ew_listener vt = l)"
  shows "activity s' e' l' = activity s e' l'"
proof (cases "e' = e \<and> l' = l")
  case True
  have w: "watch_inv s" "watch_inv s'" using assms(1,2) by (auto simp: evt_inv_def)
  have "activity s e l = 0" using new by (intro activity_none [OF w(1)]) blast
  with True activity_watch [OF w(2), of w "\<lparr>ew_event = e, ew_listener = l, ew_activity = 0\<rparr>"] assms(4) show ?thesis by simp
next
  case False
  show ?thesis
    by (rule activity_cong) (use False assms in \<open>auto simp: evt_inv_def split: if_splits\<close>)
qed

lemma add_watch_ok [keeps_inv]:
  assumes "evt_inv s" "es_L s l = Some x" "es_E s e = Some evt" "\<forall>w. alloc = Some w \<longrightarrow> es_W s w = None"
    and "activity s e l + 1 < 2 ^ 32"
  shows "\<exists>s' err. afb_evt_add_watch l \<lparr>ae_itf = True, ae_closure = e\<rparr> alloc s = Some (s', err) \<and> evt_inv s'
    \<and> (\<forall>e' l'. activity s' e' l' = activity s e' l' + (if e' = e \<and> l' = l \<and> err = None then 1 else 0))
    \<and> (err = None \<longrightarrow> es_calls s' = es_calls s @ (if activity s e l = 0 \<and> ei_add (el_itf x)
          then [Call_add (el_closure x) (ev_name evt) (ev_id evt)] else []))
    \<and> (err \<noteq> None \<longrightarrow> s' = s) \<and> (err = Some EINVAL \<longleftrightarrow> \<not> ei_push (el_itf x))
    \<and> (ei_push (el_itf x) \<and> alloc \<noteq> None \<longrightarrow> err = None)"
proof (cases "ei_push (el_itf x)")
  case False
  with assms(1,2) show ?thesis by (simp add: afb_evt_add_watch_def)
next
  case push: True
  have w: "watch_inv s" using assms(1) by (simp add: evt_inv_def)
  have act: "\<exists>s'. activate v t = Some s' \<and> evt_inv s'
      \<and> (\<forall>e' l'. activity s' e' l' = activity t e' l' + (if e' = e \<and> l' = l then 1 else 0))
      \<and> es_calls s' = es_calls t @ (if activity t e l = 0 \<and> ei_add (el_itf y) then [Call_add (el_closure y) (ev_name z) (ev_id z)] else [])"
    if t: "evt_inv t" "es_W t v = Some vt" "ew_event vt = e" "ew_listener vt = l" "activity t e l + 1 < 2 ^ 32"
      "es_E t e = Some z" "es_L t l = Some y" for t v vt y z
  proof -
    have wt: "watch_inv t" using t(1) by (simp add: evt_inv_def)
    have u0: "unat (ew_activity vt) = activity t e l" using activity_watch [OF wt t(2)] t(3,4) by simp
    then have u: "unat (ew_activity vt + 1) = activity t e l + 1"
      using t(5) by (simp add: unat_word_ariths)
    have z: "ew_activity vt = 0 \<longleftrightarrow> activity t e l = 0" using u0 by (metis unat_eq_zero)
    have "activate v t = Some (t\<lparr>es_W := (es_W t)(v \<mapsto> vt\<lparr>ew_activity := ew_activity vt + 1\<rparr>),
        es_calls := es_calls t @ (if activity t e l = 0 \<and> ei_add (el_itf y) then [Call_add (el_closure y) (ev_name z) (ev_id z)] else [])\<rparr>)"
      using activate_ok [OF t(1,2), of z y] t(3,4,6,7) z by simp
    with evt_inv_watches [OF t(1) watch_inv_set_activity [OF wt t(2)]] activity_set [OF wt t(2)] u t(3,4) show ?thesis by auto
  qed
  show ?thesis
  proof (cases "find_watch s (el_watchs x) e")
    case (Some v)
    with find_watch_Some [OF w assms(2)] obtain vt where "es_W s v = Some vt" "ew_event vt = e" "ew_listener vt = l" by blast
    with act [OF assms(1) this assms(5,3,2)] Some push assms(2) show ?thesis by (auto simp: afb_evt_add_watch_def Let_def)
  next
    case None
    show ?thesis
    proof (cases alloc)
      case alloc: None
      with None push assms(1,2) show ?thesis by (simp add: afb_evt_add_watch_def Let_def)
    next
      case (Some v)
      let ?vt = "\<lparr>ew_event = e, ew_listener = l, ew_activity = 0 :: 32 word\<rparr>"
      let ?t = "s\<lparr>es_W := (es_W s)(v \<mapsto> ?vt), es_E := (es_E s)(e \<mapsto> evt\<lparr>ev_watchs := v # ev_watchs evt\<rparr>),
         es_L := (es_L s)(l \<mapsto> x\<lparr>el_watchs := v # el_watchs x\<rparr>)\<rparr>"
      have new: "\<And>u ut. es_W s u = Some ut \<Longrightarrow> \<not> (ew_event ut = e \<and> ew_listener ut = l)"
        using find_watch_None [OF w assms(2), of e] None by blast
      have fresh: "es_W s v = None" using assms(4) Some by simp
      have t: "evt_inv ?t" by (rule add_new_watch_inv [OF assms(1) fresh assms(3,2) push new])
      have a: "activity ?t e' l' = activity s e' l'" for e' l'
        by (rule activity_link [OF assms(1) t fresh _ new]) simp_all
      have "\<exists>s'. activate v ?t = Some s' \<and> evt_inv s'
        \<and> (\<forall>e' l'. activity s' e' l' = activity s e' l' + (if e' = e \<and> l' = l then 1 else 0))
        \<and> es_calls s' = es_calls s @ (if activity s e l = 0 \<and> ei_add (el_itf x) then [Call_add (el_closure x) (ev_name evt) (ev_id evt)] else [])"
        using act [OF t, where v = v and vt = ?vt and z = "evt\<lparr>ev_watchs := v # ev_watchs evt\<rparr>" and y = "x\<lparr>el_watchs := v # el_watchs x\<rparr>"]
          a assms(5) by (simp split del: if_split cong: if_cong)
      with None Some push assms(2,3) show ?thesis by (auto simp: afb_evt_add_watch_def Let_def)
    qed
  qed
qed

lemma remove_watch_ok [keeps_inv]:
  assumes "evt_inv s" "es_L s l = Some x"
  shows "\<exists>s' err. afb_evt_remove_watch l \<lparr>ae_itf = True, ae_closure = e\<rparr> s = Some (s', err) \<and> evt_inv s'
    \<and> (\<forall>e' l'. activity s' e' l' = activity s e' l' - (if e' = e \<and> l' = l then 1 else 0))
    \<and> (\<forall>evt. es_E s e = Some evt \<longrightarrow> es_calls s' = es_calls s @ (if activity s e l = 1 \<and> ei_remove (el_itf x)
          then [Call_remove (el_closure x) (ev_name evt) (ev_id evt)] else []))
    \<and> (err = None \<longleftrightarrow> (\<exists>w wt. es_W s w = Some wt \<and> ew_event wt = e \<and> ew_listener wt = l))
    \<and> (err = None \<or> err = Some ENOENT)"
proof -
  have w: "watch_inv s" using assms(1) by (simp add: evt_inv_def)
  show ?thesis
  proof (cases "find_watch s (el_watchs x) e")
    case None
    then have none: "\<And>v vt. es_W s v = Some vt \<Longrightarrow> \<not> (ew_event vt = e \<and> ew_listener vt = l)"
      using find_watch_None [OF w assms(2), of e] by blast
    then have "activity s e l = 0" by (rule activity_none [OF w])
    with None assms none show ?thesis by (auto simp: afb_evt_remove_watch_def Let_def)
  next
    case (Some v)
    with find_watch_Some [OF w assms(2)] obtain vt where vt: "es_W s v = Some vt" "ew_event vt = e" "ew_listener vt = l" by blast
    obtain evt where evt: "es_E s e = Some evt" using watch_inv_W(1) [OF w vt(1)] vt(2) by blast
    have a: "activity s e l = unat (ew_activity vt)" using activity_watch [OF w vt(1)] vt(2,3) by simp
    show ?thesis
    proof (cases "ew_activity vt = 0")
      case True
      with a Some assms vt evt show ?thesis by (auto simp: afb_evt_remove_watch_def Let_def)
    next
      case False
      then have u: "unat (ew_activity vt - 1) = unat (ew_activity vt) - 1" by (simp add: unat_minus_one)
      have "ew_activity vt = 1 \<longleftrightarrow> activity s e l = 1" using a by (simp add: word_unat_eq_iff)
      then have "afb_evt_remove_watch l \<lparr>ae_itf = True, ae_closure = e\<rparr> s =
          Some (s\<lparr>es_W := (es_W s)(v \<mapsto> vt\<lparr>ew_activity := ew_activity vt - 1\<rparr>),
            es_calls := es_calls s @ (if activity s e l = 1 \<and> ei_remove (el_itf x)
              then [Call_remove (el_closure x) (ev_name evt) (ev_id evt)] else [])\<rparr>, None)"
        using False Some assms vt evt by (simp add: afb_evt_remove_watch_def Let_def)
      with evt_inv_watches [OF assms(1) watch_inv_set_activity [OF w vt(1)]] activity_set [OF w vt(1)] u vt a evt show ?thesis by auto
    qed
  qed
qed

section \<open>Delivery\<close>

lemma push_loop_ok:
  assumes "watch_inv s" "\<forall>w \<in> set ws. es_W s w \<noteq> None"
  shows "push_loop s evt ws = Some (map (\<lambda>w. Call_push (el_closure (the (es_L s (ew_listener (the (es_W s w)))))) (ev_name evt) (ev_id evt))
      (filter (\<lambda>w. ew_activity (the (es_W s w)) \<noteq> 0) ws), length ws)"
  using assms(2)
proof (induction ws)
  case (Cons w ws)
  then obtain wt where wt: "es_W s w = Some wt" by auto
  obtain x where x: "es_L s (ew_listener wt) = Some x" using watch_inv_W(2) [OF assms(1) wt] by blast
  have "w \<in> set (el_watchs x)" using watch_inv_L(2) [OF assms(1) x] wt by auto
  then have "ei_push (el_itf x)" using watch_inv_L(3) [OF assms(1) x] by (cases "el_watchs x") auto
  with Cons wt x show ?case by simp
qed simp

lemma broadcast_loop_ok:
  assumes "\<forall>l \<in> set ls. L l \<noteq> None"
  shows "broadcast_loop L event ls = Some
     (map (\<lambda>l. Call_broadcast (el_closure (the (L l))) event) (filter (\<lambda>l. ei_broadcast (el_itf (the (L l)))) ls),
      length (filter (\<lambda>l. ei_broadcast (el_itf (the (L l)))) ls))"
  using assms by (induction ls) auto

text \<open>The listeners that watch an event, in the order of its chain.\<close>

definition watchers :: "evt_state \<Rightarrow> addr \<Rightarrow> addr list" where
  "watchers s e = map (\<lambda>w. ew_listener (the (es_W s w))) (ev_watchs (the (es_E s e)))"

lemma watchers_active:
  assumes "watch_inv s" "es_E s e = Some evt"
  shows "distinct (watchers s e)" "\<And>l. 0 < activity s e l \<Longrightarrow> l \<in> set (watchers s e)"
    "filter (\<lambda>l. 0 < activity s e l) (watchers s e) =
      map (\<lambda>w. ew_listener (the (es_W s w))) (filter (\<lambda>w. ew_activity (the (es_W s w)) \<noteq> 0) (ev_watchs evt))"
proof -
  have w: "\<exists>wt. es_W s w = Some wt \<and> ew_event wt = e" if "w \<in> set (ev_watchs evt)" for w
    using watch_inv_E(2) [OF assms] that by blast
  have "inj_on (\<lambda>w. ew_listener (the (es_W s w))) (set (ev_watchs evt))"
  proof (rule inj_onI)
    fix u v assume uv: "u \<in> set (ev_watchs evt)" "v \<in> set (ev_watchs evt)"
      "ew_listener (the (es_W s u)) = ew_listener (the (es_W s v))"
    then obtain ut vt where "es_W s u = Some ut" "ew_event ut = e" "es_W s v = Some vt" "ew_event vt = e" using w by blast
    with uv(3) watch_inv_unique [OF assms(1), of u ut v vt] show "u = v" by simp
  qed
  then show "distinct (watchers s e)" using watch_inv_E(1) [OF assms] assms(2) by (simp add: watchers_def distinct_map)
  show "l \<in> set (watchers s e)" if "0 < activity s e l" for l
  proof -
    from activity_none [OF assms(1), of e l] that obtain v vt where
      v: "es_W s v = Some vt" "ew_event vt = e" "ew_listener vt = l" by fastforce
    then have "v \<in> set (ev_watchs evt)" using watch_inv_E(2) [OF assms] by blast
    with v assms(2) show ?thesis by (auto simp: watchers_def intro!: image_eqI [of _ _ v])
  qed
  have "0 < activity s e (ew_listener (the (es_W s w))) \<longleftrightarrow> ew_activity (the (es_W s w)) \<noteq> 0" if "w \<in> set (ev_watchs evt)" for w
  proof -
    obtain wt where wt: "es_W s w = Some wt" "ew_event wt = e" using w [OF \<open>w \<in> set (ev_watchs evt)\<close>] by blast
    with activity_watch [OF assms(1) wt(1)] show ?thesis by (simp add: unat_gt_0)
  qed
  then show "filter (\<lambda>l. 0 < activity s e l) (watchers s e) =
      map (\<lambda>w. ew_listener (the (es_W s w))) (filter (\<lambda>w. ew_activity (the (es_W s w)) \<noteq> 0) (ev_watchs evt))"
    using assms(2) by (simp add: watchers_def filter_map comp_def cong: filter_cong)
qed

lemma evt_push_ok:
  assumes "evt_inv s" "es_E s e = Some evt"
  shows "evt_push e s = Some (s\<lparr>es_calls := es_calls s @
      map (\<lambda>l. Call_push (el_closure (the (es_L s l))) (ev_name evt) (ev_id evt)) (filter (\<lambda>l. 0 < activity s e l) (watchers s e))\<rparr>,
      length (watchers s e))"
proof -
  have w: "watch_inv s" using assms(1) by (simp add: evt_inv_def)
  have "\<forall>v \<in> set (ev_watchs evt). es_W s v \<noteq> None" using watch_inv_E(2) [OF w assms(2)] by auto
  from push_loop_ok [OF w this] watchers_active(3) [OF w assms(2)] assms(2) show ?thesis
    by (simp add: evt_push_def watchers_def comp_def)
qed

lemma evt_inv_calls: "evt_inv s \<Longrightarrow> evt_inv (s\<lparr>es_calls := c\<rparr>)"
  by (simp add: evt_inv_def watch_inv_def chains_inv_def ids_inv_def event_ids_def)

lemma broadcast_ok [keeps_inv]:
  assumes "evt_inv s"
  shows "\<exists>s' n. afb_evt_broadcast name s = Some (s', n) \<and> evt_inv s'"
proof -
  have "\<forall>l \<in> set (es_listeners s). es_L s l \<noteq> None" using assms by (auto simp: evt_inv_def chains_inv_def)
  from broadcast_loop_ok [OF this] evt_inv_calls [OF assms] show ?thesis by (auto simp: afb_evt_broadcast_def)
qed

section \<open>Sequences of calls\<close>

text \<open>A caller uses listeners that exist and events that have not been dropped; dropping is allowed for
  any address. The identifiers must not all be in use and a subscription count must not overflow.\<close>

datatype evt_op =
    E_create string "addr option"
  | E_drop addr
  | E_push addr
  | E_broadcast addr
  | E_listener evt_itf nat "addr option"
  | E_addref addr
  | E_unref addr
  | E_add addr addr "addr option"
  | E_remove addr addr

fun evt_op_ok :: "evt_op \<Rightarrow> evt_state \<Rightarrow> bool" where
  "evt_op_ok (E_create name alloc) s \<longleftrightarrow> int (length (es_events s)) < id_span \<and> (\<forall>e. alloc = Some e \<longrightarrow> es_E s e = None)"
| "evt_op_ok (E_drop e) s \<longleftrightarrow> True"
| "evt_op_ok (E_push e) s \<longleftrightarrow> es_E s e \<noteq> None"
| "evt_op_ok (E_broadcast e) s \<longleftrightarrow> es_E s e \<noteq> None"
| "evt_op_ok (E_listener itf closure alloc) s \<longleftrightarrow> (\<forall>l. alloc = Some l \<longrightarrow> es_L s l = None)"
| "evt_op_ok (E_addref l) s \<longleftrightarrow> es_L s l \<noteq> None"
| "evt_op_ok (E_unref l) s \<longleftrightarrow> es_L s l \<noteq> None"
| "evt_op_ok (E_add l e alloc) s \<longleftrightarrow> es_L s l \<noteq> None \<and> es_E s e \<noteq> None \<and> activity s e l + 1 < 2 ^ 32
     \<and> (\<forall>w. alloc = Some w \<longrightarrow> es_W s w = None)"
| "evt_op_ok (E_remove l e) s \<longleftrightarrow> es_L s l \<noteq> None"

fun evt_exec :: "evt_op \<Rightarrow> evt_state \<Rightarrow> evt_state option" where
  "evt_exec (E_create name alloc) s = map_option fst (afb_evt_create_event name alloc s)"
| "evt_exec (E_drop e) s = evt_destroy e s"
| "evt_exec (E_push e) s = map_option fst (evt_push e s)"
| "evt_exec (E_broadcast e) s = map_option fst (evt_broadcast e s)"
| "evt_exec (E_listener itf closure alloc) s = map_option fst (afb_evt_listener_create itf closure alloc s)"
| "evt_exec (E_addref l) s = afb_evt_listener_addref l s"
| "evt_exec (E_unref l) s = afb_evt_listener_unref l s"
| "evt_exec (E_add l e alloc) s = map_option fst (afb_evt_add_watch l \<lparr>ae_itf = True, ae_closure = e\<rparr> alloc s)"
| "evt_exec (E_remove l e) s = map_option fst (afb_evt_remove_watch l \<lparr>ae_itf = True, ae_closure = e\<rparr> s)"

inductive evt_reach :: "evt_state \<Rightarrow> bool" where
  init: "evt_reach evt_init"
| step: "evt_reach s \<Longrightarrow> evt_op_ok op s \<Longrightarrow> evt_exec op s = Some s' \<Longrightarrow> evt_reach s'"

inductive_cases evt_reach_stepE: "evt_reach s"

lemma evt_exec_ok:
  assumes "evt_inv s" "evt_op_ok op s"
  shows "\<exists>s'. evt_exec op s = Some s' \<and> evt_inv s'"
proof (cases op)
  case (E_create name alloc)
  with create_event_ok [OF assms(1), of alloc name] assms(2) show ?thesis by auto
next
  case (E_drop e)
  with evt_destroy_ok [OF assms(1), of e] show ?thesis by auto
next
  case (E_push e)
  with assms obtain evt where "es_E s e = Some evt" by auto
  from evt_push_ok [OF assms(1) this] evt_inv_calls [OF assms(1)] E_push show ?thesis by simp
next
  case (E_broadcast e)
  with assms obtain evt where evt: "es_E s e = Some evt" by auto
  obtain s' n where "afb_evt_broadcast (ev_name evt) s = Some (s', n)" "evt_inv s'" using broadcast_ok [OF assms(1)] by blast
  with evt E_broadcast show ?thesis by (simp add: evt_broadcast_def)
next
  case (E_listener itf closure alloc)
  with listener_create_ok [OF assms(1), of alloc itf closure] assms(2) show ?thesis by auto
next
  case (E_addref l)
  with assms listener_addref_ok [OF assms(1)] show ?thesis by auto
next
  case (E_unref l)
  with assms obtain x where "es_L s l = Some x" by auto
  from listener_unref_ok [OF assms(1) this] E_unref show ?thesis by auto
next
  case (E_add l e alloc)
  with assms obtain x evt where x: "es_L s l = Some x" "es_E s e = Some evt" by auto
  have "\<forall>w. alloc = Some w \<longrightarrow> es_W s w = None" "activity s e l + 1 < 2 ^ 32" using E_add assms(2) by auto
  from add_watch_ok [OF assms(1) x this] obtain s' err where
    "afb_evt_add_watch l \<lparr>ae_itf = True, ae_closure = e\<rparr> alloc s = Some (s', err)" "evt_inv s'" by blast
  with E_add show ?thesis by simp
next
  case (E_remove l e)
  with assms obtain x where x: "es_L s l = Some x" by auto
  from remove_watch_ok [OF assms(1) x] obtain s' err where
    "afb_evt_remove_watch l \<lparr>ae_itf = True, ae_closure = e\<rparr> s = Some (s', err)" "evt_inv s'" by blast
  with E_remove show ?thesis by simp
qed

lemma evt_reach_inv: "evt_reach s \<Longrightarrow> evt_inv s"
proof (induction rule: evt_reach.induct)
  case (step s op s')
  then show ?case using evt_exec_ok [of s op] by auto
qed (rule evt_inv_init)

lemma activity_prune:
  assumes "watch_inv s" "watch_inv s'" "es_W s' = es_W (prune S [] s)"
    and "\<And>w wt. es_W s w = Some wt \<Longrightarrow> w \<in> S \<longleftrightarrow> P (ew_event wt) (ew_listener wt)"
  shows "activity s' e l = (if P e l then 0 else activity s e l)"
proof (cases "P e l")
  case True
  have "activity s' e l = 0"
    by (rule activity_none [OF assms(2)]) (use True assms(3,4) in \<open>auto split: if_splits\<close>)
  with True show ?thesis by simp
next
  case False
  have "activity s' e l = activity s e l"
    by (rule activity_cong [OF assms(1,2)]) (use False assms(3,4) in \<open>auto split: if_splits\<close>)
  with False show ?thesis by simp
qed

text \<open>A reachable state with one event, one listener and one subscription.\<close>

definition demo_itf :: evt_itf where
  "demo_itf = \<lparr>ei_addr = 1, ei_push = True, ei_broadcast = True, ei_add = True, ei_remove = True\<rparr>"

definition demo_evt :: evt_state where
  "demo_evt = \<lparr>es_listeners = [10], es_events = [20],
     es_L = [10 \<mapsto> \<lparr>el_itf = demo_itf, el_closure = 7, el_watchs = [30], el_refcount = 1\<rparr>],
     es_E = [20 \<mapsto> \<lparr>ev_watchs = [30], ev_id = 1, ev_name = ''ev''\<rparr>],
     es_W = [30 \<mapsto> \<lparr>ew_event = 20, ew_listener = 10, ew_activity = 1\<rparr>],
     es_counter = 1, es_wrapped = False, es_calls = [Call_add 7 ''ev'' 1]\<rparr>"

lemma demo_evt_reach: "evt_reach demo_evt"
proof -
  let ?L = "\<lambda>ws. [10 \<mapsto> \<lparr>el_itf = demo_itf, el_closure = 7, el_watchs = ws, el_refcount = 1\<rparr>]"
  have 1: "evt_reach (evt_init\<lparr>es_listeners := [10], es_L := ?L []\<rparr>)"
    by (rule evt_reach.step [OF evt_reach.init, of "E_listener demo_itf 7 (Some 10)"])
       (simp_all add: evt_init_def afb_evt_listener_create_def)
  have 2: "evt_reach (evt_init\<lparr>es_listeners := [10], es_L := ?L [], es_counter := 1,
      es_E := [20 \<mapsto> \<lparr>ev_watchs = [], ev_id = 1, ev_name = ''ev''\<rparr>], es_events := [20]\<rparr>)"
    by (rule evt_reach.step [OF 1, of "E_create ''ev'' (Some 20)"])
       (simp_all add: evt_init_def afb_evt_create_event_def event_ids_def next_counter_def incr32_def Let_def id_span_def)
  show ?thesis
    by (rule evt_reach.step [OF 2, of "E_add 10 20 (Some 30)"])
       (simp_all add: evt_init_def afb_evt_add_watch_def find_watch_def activate_def demo_evt_def demo_itf_def activity_def)
qed

text \<open>C11. The event store is memory safe: whatever sequence of creations, subscriptions, emissions and
  releases has run, an allowed call neither follows a dangling pointer nor walks off a chain nor fails
  an assertion, its loops end, and the chains of events and listeners hold exactly the allocated ones,
  each once.\<close>

theorem evt_store_safe:
  assumes "evt_reach s"
  shows "(\<forall>op. evt_op_ok op s \<longrightarrow> evt_exec op s \<noteq> None)
    \<and> distinct (es_events s) \<and> set (es_events s) = dom (es_E s)
    \<and> distinct (es_listeners s) \<and> set (es_listeners s) = dom (es_L s)
    \<and> (\<forall>e evt. es_E s e = Some evt \<longrightarrow> distinct (ev_watchs evt)
          \<and> (\<forall>w. w \<in> set (ev_watchs evt) \<longleftrightarrow> (\<exists>wt. es_W s w = Some wt \<and> ew_event wt = e)))
    \<and> (\<forall>l x. es_L s l = Some x \<longrightarrow> 0 < el_refcount x \<and> distinct (el_watchs x)
          \<and> (\<forall>w. w \<in> set (el_watchs x) \<longleftrightarrow> (\<exists>wt. es_W s w = Some wt \<and> ew_listener wt = l)))"
proof -
  have inv: "evt_inv s" using assms by (rule evt_reach_inv)
  then have w: "watch_inv s" and ch: "chains_inv s" and l: "listeners_inv (es_L s)" by (auto simp: evt_inv_def)
  have "\<forall>op. evt_op_ok op s \<longrightarrow> evt_exec op s \<noteq> None" using evt_exec_ok [OF inv] by fastforce
  with ch watch_inv_E [OF w] watch_inv_L [OF w] listeners_inv_pos [OF l] show ?thesis
    unfolding chains_inv_def by blast
qed

theorem evt_store_safe_witness: "evt_op_ok (E_unref 10) demo_evt \<and> evt_exec (E_unref 10) demo_evt \<noteq> None"
proof -
  have "evt_op_ok (E_unref 10) demo_evt" by (simp add: demo_evt_def)
  with evt_store_safe [OF demo_evt_reach] show ?thesis by blast
qed

text \<open>C27. Pushing an event calls the push function of every listener with at least one subscription to it,
  exactly once and of no other, with the name and the identifier of the event. The returned count is the
  number of watches, which also counts listeners that have unsubscribed and received nothing.\<close>

theorem push_reaches_subscribers:
  assumes "evt_reach s" "es_E s e = Some evt"
  shows "\<exists>ls. distinct ls \<and> set ls = {l. 0 < activity s e l}
    \<and> evt_push e s = Some (s\<lparr>es_calls := es_calls s @
        map (\<lambda>l. Call_push (el_closure (the (es_L s l))) (ev_name evt) (ev_id evt)) ls\<rparr>, length (ev_watchs evt))"
proof -
  have inv: "evt_inv s" "watch_inv s" using evt_reach_inv [OF assms(1)] by (auto simp: evt_inv_def)
  note a = watchers_active [OF inv(2) assms(2)]
  let ?ls = "filter (\<lambda>l. 0 < activity s e l) (watchers s e)"
  have "distinct ?ls" "set ?ls = {l. 0 < activity s e l}" using a(1,2) by auto
  moreover have "length (watchers s e) = length (ev_watchs evt)" using assms(2) by (simp add: watchers_def)
  ultimately show ?thesis using evt_push_ok [OF inv(1) assms(2)] by metis
qed

theorem push_reaches_subscribers_witness:
  "\<exists>s. evt_push 20 demo_evt = Some (s, 1) \<and> es_calls s = [Call_add 7 ''ev'' 1, Call_push 7 ''ev'' 1]"
proof -
  have e: "es_E demo_evt 20 = Some \<lparr>ev_watchs = [30], ev_id = 1, ev_name = ''ev''\<rparr>" by (simp add: demo_evt_def)
  from push_reaches_subscribers [OF demo_evt_reach e] obtain ls where
    "distinct ls" and ls: "set ls = {l. 0 < activity demo_evt 20 l}" and
    p: "evt_push 20 demo_evt = Some (demo_evt\<lparr>es_calls := es_calls demo_evt @
        map (\<lambda>l. Call_push (el_closure (the (es_L demo_evt l))) ''ev'' 1) ls\<rparr>, 1)" by auto
  have "set ls = {10}" using ls by (auto simp: demo_evt_def activity_def find_watch_def split: if_splits)
  with \<open>distinct ls\<close> have "ls = [10]" by (metis distinct_singleton the_elem_eq distinct.simps(2) empty_iff empty_set insert_iff list.set_cases list.simps(15) neq_Nil_conv set_ConsD)
  with p show ?thesis by (simp add: demo_evt_def)
qed



text \<open>C28. The identifier given to a new event is positive and not in use by any live event, also after
  the 32 bit counter has wrapped around, and the search for it ends as long as fewer than
  2147482624 events exist.\<close>

theorem event_ids_are_unique:
  assumes "evt_reach s" "length (es_events s) < 2147482624" "es_E s e = None"
  shows "\<exists>s' id. afb_evt_create_event name (Some e) s = Some (s', \<lparr>ae_itf = True, ae_closure = e\<rparr>)
    \<and> 0 < id \<and> es_E s' = (es_E s)(e \<mapsto> \<lparr>ev_watchs = [], ev_id = id, ev_name = name\<rparr>)
    \<and> (\<forall>e' evt. es_E s e' = Some evt \<longrightarrow> ev_id evt \<noteq> id)"
proof -
  have inv: "evt_inv s" using assms(1) by (rule evt_reach_inv)
  have len: "int (length (es_events s)) < id_span" using assms(2) by (simp add: id_span_def)
  have "\<forall>d. Some e = Some d \<longrightarrow> es_E s d = None" using assms(3) by simp
  from create_event_ok [OF inv len this, of name] obtain s' c where
    1: "afb_evt_create_event name (Some e) s = Some (s', \<lparr>ae_itf = True, ae_closure = e\<rparr>)"
    "c \<notin> set (event_ids s)" "0 < c" "es_E s' = (es_E s)(e \<mapsto> \<lparr>ev_watchs = [], ev_id = c, ev_name = name\<rparr>)" by auto
  have "ev_id evt \<noteq> c" if "es_E s e' = Some evt" for e' evt
  proof -
    have "e' \<in> set (es_events s)" using that inv by (auto simp: evt_inv_def chains_inv_def)
    with 1(2) that show ?thesis by (auto simp: event_ids_def image_iff dest: bspec [of _ _ e'])
  qed
  with 1 show ?thesis by blast
qed

theorem event_ids_are_unique_witness:
  "\<exists>s' id. afb_evt_create_event ''other'' (Some 21) demo_evt = Some (s', \<lparr>ae_itf = True, ae_closure = 21\<rparr>) \<and> id \<noteq> 1
    \<and> es_E s' 21 = Some \<lparr>ev_watchs = [], ev_id = id, ev_name = ''other''\<rparr>"
proof -
  have "length (es_events demo_evt) < 2147482624" "es_E demo_evt 21 = None" by (simp_all add: demo_evt_def)
  from event_ids_are_unique [OF demo_evt_reach this, of "''other''"] obtain s' id where
    1: "afb_evt_create_event ''other'' (Some 21) demo_evt = Some (s', \<lparr>ae_itf = True, ae_closure = 21\<rparr>)"
    "es_E s' = (es_E demo_evt)(21 \<mapsto> \<lparr>ev_watchs = [], ev_id = id, ev_name = ''other''\<rparr>)"
    "\<forall>e' evt. es_E demo_evt e' = Some evt \<longrightarrow> ev_id evt \<noteq> id" by blast
  have "es_E demo_evt 20 = Some \<lparr>ev_watchs = [30], ev_id = 1, ev_name = ''ev''\<rparr>" by (simp add: demo_evt_def)
  with 1(3) have "id \<noteq> 1" by (auto dest: spec [of _ 20])
  with 1(1,2) show ?thesis by auto
qed

text \<open>Releasing the last reference of a listener ends all its subscriptions and no others, and dropping
  an event ends all the subscriptions to it and no others; in both cases the listeners concerned are told
  of each active subscription that ends.\<close>

lemma release_ends_subscriptions:
  assumes "evt_reach s" "es_L s l = Some x" "el_refcount x = 1" "es_E s e = Some evt"
  shows "(\<exists>s'. afb_evt_listener_unref l s = Some s' \<and> es_L s' l = None
      \<and> (\<forall>e' l'. activity s' e' l' = (if l' = l then 0 else activity s e' l'))
      \<and> es_calls s' = es_calls s @ removal_calls s (el_watchs x))
    \<and> (\<exists>s'. evt_destroy e s = Some s' \<and> es_E s' e = None
      \<and> (\<forall>e' l'. activity s' e' l' = (if e' = e then 0 else activity s e' l'))
      \<and> es_calls s' = es_calls s @ removal_calls s (ev_watchs evt))"
proof
  have inv: "evt_inv s" "watch_inv s" using evt_reach_inv [OF assms(1)] by (auto simp: evt_inv_def)
  from listener_unref_ok [OF inv(1) assms(2)] assms(3) obtain s' where
    1: "afb_evt_listener_unref l s = Some s'" "evt_inv s'" "es_L s' l = None" "es_W s' = es_W (prune (set (el_watchs x)) [] s)"
      "es_calls s' = es_calls s @ removal_calls s (el_watchs x)" by auto
  have "activity s' e' l' = (if l' = l then 0 else activity s e' l')" for e' l'
    by (rule activity_prune [OF inv(2) _ 1(4)]) (use 1(2) watch_inv_L(2) [OF inv(2) assms(2)] in \<open>auto simp: evt_inv_def\<close>)
  with 1 show "\<exists>s'. afb_evt_listener_unref l s = Some s' \<and> es_L s' l = None
      \<and> (\<forall>e' l'. activity s' e' l' = (if l' = l then 0 else activity s e' l'))
      \<and> es_calls s' = es_calls s @ removal_calls s (el_watchs x)" by blast
  from evt_destroy_ok [OF inv(1), of e] assms(4) obtain t where
    2: "evt_destroy e s = Some t" "evt_inv t" "es_E t e = None" "es_W t = es_W (prune (set (ev_watchs evt)) [] s)"
      "es_calls t = es_calls s @ removal_calls s (ev_watchs evt)" by blast
  have "activity t e' l' = (if e' = e then 0 else activity s e' l')" for e' l'
    by (rule activity_prune [OF inv(2) _ 2(4)]) (use 2(2) watch_inv_E(2) [OF inv(2) assms(4)] in \<open>auto simp: evt_inv_def\<close>)
  with 2 show "\<exists>s'. evt_destroy e s = Some s' \<and> es_E s' e = None
      \<and> (\<forall>e' l'. activity s' e' l' = (if e' = e then 0 else activity s e' l'))
      \<and> es_calls s' = es_calls s @ removal_calls s (ev_watchs evt)" by blast
qed

end
