(* ===== verification/Websock.thy ===== *)
theory Websock
  imports Afb_Prelude
begin

unbundle bit_operations_syntax

text \<open>
  WebSocket framing, \<^verbatim>\<open>src/src/websock.c\<close>: building frames, the state machine that reads them, unmasking.

  Bytes are \<open>8 word\<close>, the payload length is a \<open>64 word\<close>; the 32 bit mask is the list of its four bytes in
  memory order, which is how the code reads it in. The connection is the record \<open>ws_io\<close>: the chunks that
  successive calls of \<open>readv\<close> will deliver, whether the peer has gone (then reading fails once the chunks
  are consumed, else it gives 0 bytes), whether \<open>writev\<close> fails, and what has been written. The callbacks of
  \<open>struct websock_itf\<close> are a parameter: a function from the event to the new state of socket, connection
  and client.
\<close>

section \<open>Header bits\<close>

definition FRAME_GET_FIN :: "byte \<Rightarrow> byte" where "FRAME_GET_FIN b = drop_bit 7 b AND 1"
definition FRAME_GET_RSV1 :: "byte \<Rightarrow> byte" where "FRAME_GET_RSV1 b = drop_bit 6 b AND 1"
definition FRAME_GET_RSV2 :: "byte \<Rightarrow> byte" where "FRAME_GET_RSV2 b = drop_bit 5 b AND 1"
definition FRAME_GET_RSV3 :: "byte \<Rightarrow> byte" where "FRAME_GET_RSV3 b = drop_bit 4 b AND 1"
definition FRAME_GET_OPCODE :: "byte \<Rightarrow> byte" where "FRAME_GET_OPCODE b = b AND 0x0F"
definition FRAME_GET_MASK :: "byte \<Rightarrow> byte" where "FRAME_GET_MASK b = drop_bit 7 b AND 1"
definition FRAME_GET_PAYLOAD_LEN :: "byte \<Rightarrow> byte" where "FRAME_GET_PAYLOAD_LEN b = b AND 0x7F"

definition FRAME_SET_FIN :: "byte \<Rightarrow> byte" where "FRAME_SET_FIN b = push_bit 7 (b AND 1)"
definition FRAME_SET_RSV1 :: "byte \<Rightarrow> byte" where "FRAME_SET_RSV1 b = push_bit 6 (b AND 1)"
definition FRAME_SET_OPCODE :: "byte \<Rightarrow> byte" where "FRAME_SET_OPCODE b = b AND 0x0F"
definition FRAME_SET_MASK :: "byte \<Rightarrow> byte" where "FRAME_SET_MASK b = push_bit 7 (b AND 1)"
definition FRAME_SET_LENGTH :: "64 word \<Rightarrow> nat \<Rightarrow> byte" where
  "FRAME_SET_LENGTH x idx = ucast (drop_bit (idx * 8) x AND 0xFF)"

definition OPCODE_CONTINUATION :: byte where "OPCODE_CONTINUATION = 0"
definition OPCODE_TEXT :: byte where "OPCODE_TEXT = 1"
definition OPCODE_BINARY :: byte where "OPCODE_BINARY = 2"
definition OPCODE_CLOSE :: byte where "OPCODE_CLOSE = 8"
definition OPCODE_PING :: byte where "OPCODE_PING = 9"
definition OPCODE_PONG :: byte where "OPCODE_PONG = 10"

definition WEBSOCKET_CODE_PROTOCOL_ERROR :: "16 word" where "WEBSOCKET_CODE_PROTOCOL_ERROR = 1002"
definition WEBSOCKET_CODE_NOT_SET :: "16 word" where "WEBSOCKET_CODE_NOT_SET = 1005"
definition WEBSOCKET_CODE_MESSAGE_TOO_LARGE :: "16 word" where "WEBSOCKET_CODE_MESSAGE_TOO_LARGE = 1009"

lemmas frame_defs = FRAME_GET_FIN_def FRAME_GET_RSV1_def FRAME_GET_RSV2_def FRAME_GET_RSV3_def FRAME_GET_OPCODE_def
  FRAME_GET_MASK_def FRAME_GET_PAYLOAD_LEN_def FRAME_SET_FIN_def FRAME_SET_RSV1_def FRAME_SET_OPCODE_def FRAME_SET_MASK_def
lemmas opcode_defs = OPCODE_CONTINUATION_def OPCODE_TEXT_def OPCODE_BINARY_def OPCODE_CLOSE_def OPCODE_PING_def OPCODE_PONG_def

section \<open>State\<close>

datatype ws_state = STATE_INIT | STATE_START | STATE_LENGTH | STATE_DATA

record websock =
  ws_st :: ws_state
  ws_maxlength :: "64 word"
  ws_lenhead :: nat
  ws_szhead :: nat
  ws_length :: "64 word"
  ws_mask :: "byte list"
  ws_header :: "byte list"

record ws_io =
  io_chunks :: "byte list list"
  io_closed :: bool
  io_wfail :: bool
  io_out :: "byte list"

definition websock_create_v13 :: websock where
  "websock_create_v13 = \<lparr>ws_st = STATE_INIT, ws_maxlength = 65000, ws_lenhead = 0, ws_szhead = 0, ws_length = 0,
     ws_mask = replicate 4 0, ws_header = replicate 14 0\<rparr>"

text \<open>The interface: which optional callbacks are present.\<close>

record websock_itf =
  has_ping :: bool
  has_pong :: bool
  has_extension :: bool
  has_error :: bool

datatype ws_event =
    On_continue bool "64 word"
  | On_text bool "64 word"
  | On_binary bool "64 word"
  | On_close "16 word" "64 word"
  | On_ping "64 word"
  | On_pong "64 word"
  | On_extension bool byte byte byte byte "64 word"
  | On_error "16 word" "byte list"

section \<open>Writing frames\<close>

text \<open>\<open>ws_writev\<close>: the result is the number of bytes or a negative value.\<close>

definition ws_writev :: "byte list list \<Rightarrow> ws_io \<Rightarrow> ws_io \<times> int" where
  "ws_writev iov io = (if io_wfail io then (io, -1) else (io\<lparr>io_out := io_out io @ concat iov\<rparr>, int (length (concat iov))))"

definition make_header :: "byte \<Rightarrow> 64 word \<Rightarrow> byte list" where
  "make_header first sz =
     (if sz < 126 then [first, FRAME_SET_MASK 0 OR FRAME_SET_LENGTH sz 0]
      else (if sz < 65536 then [first, FRAME_SET_MASK 0 OR 126]
            else [first, FRAME_SET_MASK 0 OR 127,
                  FRAME_SET_LENGTH sz 7, FRAME_SET_LENGTH sz 6, FRAME_SET_LENGTH sz 5,
                  FRAME_SET_LENGTH sz 4, FRAME_SET_LENGTH sz 3, FRAME_SET_LENGTH sz 2])
           @ [FRAME_SET_LENGTH sz 1, FRAME_SET_LENGTH sz 0])"

definition websock_send_internal_v :: "byte \<Rightarrow> byte list list \<Rightarrow> ws_io \<Rightarrow> ws_io \<times> (errno + int)" where
  "websock_send_internal_v first iovec io =
     (if length iovec + 1 > 32 then (io, Inl EINVAL)
      else let iov = filter (\<lambda>b. b \<noteq> []) iovec;
               sz = of_nat (sum_list (map length iov));
               (io', rc) = ws_writev (make_header first sz # iov) io
           in (io', Inr (if rc < 0 then -1 else 0)))"

definition websock_send_internal :: "byte \<Rightarrow> byte list \<Rightarrow> ws_io \<Rightarrow> ws_io \<times> (errno + int)" where
  "websock_send_internal first buffer io = websock_send_internal_v first [buffer] io"

text \<open>The macro for the first reserved bit is used for all three.\<close>

definition first_byte :: "byte \<Rightarrow> byte \<Rightarrow> byte \<Rightarrow> byte \<Rightarrow> byte \<Rightarrow> byte" where
  "first_byte lst rsv1 rsv2 rsv3 opcode =
     FRAME_SET_FIN lst OR FRAME_SET_RSV1 rsv1 OR FRAME_SET_RSV1 rsv2 OR FRAME_SET_RSV1 rsv3 OR FRAME_SET_OPCODE opcode"

definition websock_send_v where
  "websock_send_v lst rsv1 rsv2 rsv3 opcode iovec io =
     websock_send_internal_v (first_byte lst rsv1 rsv2 rsv3 opcode) iovec io"

definition websock_send where
  "websock_send lst rsv1 rsv2 rsv3 opcode buffer io =
     websock_send_internal (first_byte lst rsv1 rsv2 rsv3 opcode) buffer io"

definition websock_close :: "16 word \<Rightarrow> byte list \<Rightarrow> ws_io \<Rightarrow> ws_io \<times> (errno + int)" where
  "websock_close code data io =
     (if code = WEBSOCKET_CODE_NOT_SET \<and> length data = 0 then websock_send 1 0 0 0 OPCODE_CLOSE [] io
      else if length data > 123 then (io, Inl EINVAL)
      else websock_send_v 1 0 0 0 OPCODE_CLOSE
             [[ucast (drop_bit 8 code AND 0xFF), ucast (code AND 0xFF)], data] io)"

definition websock_close_empty where
  "websock_close_empty io = websock_close WEBSOCKET_CODE_NOT_SET [] io"

definition websock_ping where
  "websock_ping data io = (if length data > 125 then (io, Inl EINVAL) else websock_send 1 0 0 0 OPCODE_PING data io)"

definition websock_pong where
  "websock_pong data io = (if length data > 125 then (io, Inl EINVAL) else websock_send 1 0 0 0 OPCODE_PONG data io)"

definition websock_text where "websock_text lst text io = websock_send lst 0 0 0 OPCODE_TEXT text io"
definition websock_text_v where "websock_text_v lst iovec io = websock_send_v lst 0 0 0 OPCODE_TEXT iovec io"
definition websock_binary where "websock_binary lst data io = websock_send lst 0 0 0 OPCODE_BINARY data io"
definition websock_binary_v where "websock_binary_v lst iovec io = websock_send_v lst 0 0 0 OPCODE_BINARY iovec io"
definition websock_continue where "websock_continue lst data io = websock_send lst 0 0 0 OPCODE_CONTINUATION data io"
definition websock_continue_v where "websock_continue_v lst iovec io = websock_send_v lst 0 0 0 OPCODE_CONTINUATION iovec io"

section \<open>Reading\<close>

text \<open>\<open>None\<close> is a negative result.\<close>

fun ws_read :: "nat \<Rightarrow> ws_io \<Rightarrow> ws_io \<times> byte list option" where
  "ws_read n io =
     (case io_chunks io of
        [] \<Rightarrow> (io, if io_closed io then None else Some [])
      | c # cs \<Rightarrow> (io\<lparr>io_chunks := (if drop n c = [] then cs else drop n c # cs)\<rparr>, Some (take n c)))"

declare ws_read.simps [simp del]

text \<open>The outer \<open>None\<close> is a write outside of the header array.\<close>

definition read_header :: "websock \<Rightarrow> ws_io \<Rightarrow> (websock \<times> ws_io \<times> bool) option" where
  "read_header ws io =
     (if ws_lenhead ws < ws_szhead ws then
        (case ws_read (ws_szhead ws - ws_lenhead ws) io of
           (io', None) \<Rightarrow> Some (ws, io', False)
         | (io', Some bs) \<Rightarrow>
             map_option (\<lambda>h. (ws\<lparr>ws_header := h, ws_lenhead := ws_lenhead ws + length bs\<rparr>, io', True))
               (memcpy (ws_header ws) (ws_lenhead ws) bs))
      else Some (ws, io, True))"

definition check_control_header :: "websock \<Rightarrow> bool" where
  "check_control_header ws =
     (let h0 = ws_header ws ! 0; h1 = ws_header ws ! 1 in
      if FRAME_GET_RSV1 h0 \<noteq> 0 then False
      else if FRAME_GET_RSV2 h0 \<noteq> 0 then False
      else if FRAME_GET_RSV3 h0 \<noteq> 0 then False
      else if FRAME_GET_PAYLOAD_LEN h1 > 125 then False
      else if FRAME_GET_OPCODE h0 = OPCODE_CLOSE then FRAME_GET_PAYLOAD_LEN h1 \<noteq> 1
      else True)"

section \<open>Unmasking\<close>

text \<open>\<open>msk\<close> rotates by one byte with every byte that is processed singly.\<close>

fun unmask_bytes :: "byte list \<Rightarrow> byte list \<Rightarrow> byte list \<times> byte list" where
  "unmask_bytes msk [] = (msk, [])"
| "unmask_bytes msk (b # bs) =
     (let m = msk ! 0; msk' = [msk ! 1, msk ! 2, msk ! 3, m]
      in map_prod id (Cons (b XOR m)) (unmask_bytes msk' bs))"

fun unmask_words :: "byte list \<Rightarrow> byte list \<Rightarrow> byte list \<times> byte list" where
  "unmask_words msk (a # b # c # d # bs) =
     map_prod (\<lambda>out. [a XOR msk ! 0, b XOR msk ! 1, c XOR msk ! 2, d XOR msk ! 3] @ out) id (unmask_words msk bs)"
| "unmask_words msk bs = ([], bs)"

text \<open>\<open>align\<close> is the number of bytes before the next address that is a multiple of four.\<close>

definition unmask :: "nat \<Rightarrow> byte list \<Rightarrow> byte list \<Rightarrow> byte list \<times> byte list" where
  "unmask align msk buffer =
     (case unmask_bytes msk (take align buffer) of
        (mask1, out1) \<Rightarrow>
          (case unmask_words mask1 (drop align buffer) of
             (out2, rest) \<Rightarrow>
               (case unmask_bytes mask1 rest of (mask2, out3) \<Rightarrow> (mask2, out1 @ out2 @ out3))))"

text \<open>\<open>align\<close> describes the address of the buffer.\<close>

definition websock_read :: "nat \<Rightarrow> nat \<Rightarrow> websock \<Rightarrow> ws_io \<Rightarrow> websock \<times> ws_io \<times> byte list option" where
  "websock_read align sz ws io =
     (if ws_st ws \<noteq> STATE_DATA then (ws, io, Some [])
      else let sz' = (if of_nat sz > ws_length ws then unat (ws_length ws) else sz) in
        case ws_read sz' io of
          (io', None) \<Rightarrow> (ws, io', None)
        | (io', Some bs) \<Rightarrow>
            if bs = [] then (ws, io', Some [])
            else let ws1 = ws\<lparr>ws_length := ws_length ws - of_nat (length bs)\<rparr> in
              if ws_mask ws \<noteq> replicate 4 0
              then (case unmask align (ws_mask ws) bs of (msk', out) \<Rightarrow> (ws1\<lparr>ws_mask := msk'\<rparr>, io', Some out))
              else (ws1, io', Some bs))"

text \<open>The loop spins while nothing arrives: the outer \<open>None\<close> is running out of fuel.\<close>

fun websock_drop :: "nat \<Rightarrow> websock \<Rightarrow> ws_io \<Rightarrow> (websock \<times> ws_io \<times> int) option" where
  "websock_drop fuel ws io =
     (if ws_length ws = 0 then Some (ws, io, 0)
      else case fuel of
        0 \<Rightarrow> None
      | Suc n \<Rightarrow>
          (case websock_read 0 8000 ws io of
             (ws', io', None) \<Rightarrow> Some (ws', io', -1)
           | (ws', io', Some _) \<Rightarrow> websock_drop n ws' io'))"

declare websock_drop.simps [simp del]

section \<open>The state machine\<close>

type_synonym 'c ws_conf = "websock \<times> ws_io \<times> 'c"
type_synonym 'c ws_handler = "ws_event \<Rightarrow> 'c ws_conf \<Rightarrow> 'c ws_conf"

definition websock_error :: "websock_itf \<Rightarrow> 'c ws_handler \<Rightarrow> 16 word \<Rightarrow> byte list \<Rightarrow> 'c ws_conf \<Rightarrow> 'c ws_conf \<times> (errno + int)" where
  "websock_error itf h code data conf =
     (case conf of (ws, io, c) \<Rightarrow>
        case websock_close code data io of
          (io', rc) \<Rightarrow> (if has_error itf then h (On_error code data) (ws, io', c) else (ws, io', c), rc))"

text \<open>What a pass does next: leave with a status, or go on at \<open>loop\<close>.\<close>

datatype 'c ws_next = Return int "'c ws_conf" | Loop "'c ws_conf"

definition protocol_error where
  "protocol_error itf h conf = Return 0 (fst (websock_error itf h WEBSOCKET_CODE_PROTOCOL_ERROR [] conf))"

definition too_long_error where
  "too_long_error itf h conf = Return 0 (fst (websock_error itf h WEBSOCKET_CODE_MESSAGE_TOO_LARGE [] conf))"

definition head_length :: "byte list \<Rightarrow> 64 word" where
  "head_length h =
     (let l = FRAME_GET_PAYLOAD_LEN (h ! 1) in
      if l = 127 then
        push_bit 56 (ucast (h ! 2)) OR push_bit 48 (ucast (h ! 3)) OR push_bit 40 (ucast (h ! 4)) OR push_bit 32 (ucast (h ! 5))
        OR push_bit 24 (ucast (h ! 6)) OR push_bit 16 (ucast (h ! 7)) OR push_bit 8 (ucast (h ! 8)) OR ucast (h ! 9)
      else if l = 126 then push_bit 8 (ucast (h ! 2)) OR ucast (h ! 3)
      else ucast l)"

definition head_extra :: "byte list \<Rightarrow> nat" where
  "head_extra h =
     (let l = FRAME_GET_PAYLOAD_LEN (h ! 1) in
      (if l = 127 then 6 + 2 else if l = 126 then 2 else 0) + 4 * unat (FRAME_GET_MASK (h ! 1)))"

definition close_code :: "byte list \<Rightarrow> nat \<Rightarrow> 16 word" where
  "close_code h szhead = push_bit 8 (ucast (h ! (szhead - 2) AND 0xFF)) OR ucast (h ! (szhead - 1) AND 0xFF)"

text \<open>The end of \<open>STATE_LENGTH\<close>: all heading fields are known. \<open>ext\<close> is what \<open>on_extension\<close> answers.\<close>

definition handle_frame :: "nat \<Rightarrow> websock_itf \<Rightarrow> (ws_event \<Rightarrow> bool) \<Rightarrow> 'c ws_handler \<Rightarrow> 'c ws_conf \<Rightarrow> 'c ws_next option" where
  "handle_frame fuel itf ext h conf =
     (case conf of (ws, io, c) \<Rightarrow>
      let h0 = ws_header ws ! 0; fin = (FRAME_GET_FIN h0 \<noteq> 0); op = FRAME_GET_OPCODE h0; len = ws_length ws;
          ev = On_extension fin (FRAME_GET_RSV1 h0) (FRAME_GET_RSV2 h0) (FRAME_GET_RSV3 h0) op len
      in if has_extension itf \<and> ext ev then Some (Return 0 (h ev conf))
         else let conf' = (if has_extension itf then h ev conf else conf) in
         if FRAME_GET_RSV1 h0 \<noteq> 0 then Some (protocol_error itf h conf')
         else if FRAME_GET_RSV2 h0 \<noteq> 0 then Some (protocol_error itf h conf')
         else if FRAME_GET_RSV3 h0 \<noteq> 0 then Some (protocol_error itf h conf')
         else if op = OPCODE_CONTINUATION then Some (Loop (h (On_continue fin len) conf'))
         else if op = OPCODE_TEXT then Some (Loop (h (On_text fin len) conf'))
         else if op = OPCODE_BINARY then Some (Loop (h (On_binary fin len) conf'))
         else if op = OPCODE_CLOSE then
           Some (Return 0 (h (On_close (if len = 0 then WEBSOCKET_CODE_NOT_SET else close_code (ws_header ws) (ws_szhead ws)) len) conf'))
         else if op = OPCODE_PING then
           (if has_ping itf then
              (case h (On_ping len) conf' of (ws1, io1, c1) \<Rightarrow> Some (Loop (ws1\<lparr>ws_st := STATE_INIT\<rparr>, io1, c1)))
            else (case conf' of (ws1, io1, c1) \<Rightarrow>
              (case websock_drop fuel ws1 io1 of
                 None \<Rightarrow> None
               | Some (ws2, io2, _) \<Rightarrow> Some (Loop (ws2\<lparr>ws_st := STATE_INIT\<rparr>, fst (websock_pong [] io2), c1)))))
         else if op = OPCODE_PONG then
           (if has_pong itf then
              (case h (On_pong len) conf' of (ws1, io1, c1) \<Rightarrow> Some (Loop (ws1\<lparr>ws_st := STATE_INIT\<rparr>, io1, c1)))
            else (case conf' of (ws1, io1, c1) \<Rightarrow>
              (case websock_drop fuel ws1 io1 of
                 None \<Rightarrow> None
               | Some (ws2, io2, _) \<Rightarrow> Some (Loop (ws2\<lparr>ws_st := STATE_INIT\<rparr>, io2, c1)))))
         else Some (protocol_error itf h conf'))"

definition set_mask :: "websock \<Rightarrow> websock" where
  "set_mask ws =
     (let hd = ws_header ws; sz = ws_szhead ws in
      if FRAME_GET_MASK (hd ! 1) \<noteq> 0
      then ws\<lparr>ws_mask := [hd ! (sz - 4), hd ! (sz - 3), hd ! (sz - 2), hd ! (sz - 1)]\<rparr>
      else ws\<lparr>ws_mask := replicate 4 0\<rparr>)"

definition state_length :: "nat \<Rightarrow> websock_itf \<Rightarrow> (ws_event \<Rightarrow> bool) \<Rightarrow> 'c ws_handler \<Rightarrow> 'c ws_conf \<Rightarrow> 'c ws_next option" where
  "state_length fuel itf ext h conf =
     (case conf of (ws, io, c) \<Rightarrow>
        (case read_header ws io of
           None \<Rightarrow> None
         | Some (ws1, io1, False) \<Rightarrow> Some (Return (-1) (ws1, io1, c))
         | Some (ws1, io1, True) \<Rightarrow>
             if ws_lenhead ws1 < ws_szhead ws1 then Some (Return 0 (ws1, io1, c))
             else let hd = ws_header ws1; l0 = head_length hd;
                      l1 = (if FRAME_GET_OPCODE (hd ! 0) = OPCODE_CLOSE \<and> l0 \<noteq> 0 then l0 - 2 else l0);
                      ws2 = ws1\<lparr>ws_length := l1\<rparr>
               in if l1 > ws_maxlength ws2 then Some (too_long_error itf h (ws2, io1, c))
                  else handle_frame fuel itf ext h ((set_mask ws2)\<lparr>ws_st := STATE_DATA\<rparr>, io1, c)))"

definition state_start :: "nat \<Rightarrow> websock_itf \<Rightarrow> (ws_event \<Rightarrow> bool) \<Rightarrow> 'c ws_handler \<Rightarrow> 'c ws_conf \<Rightarrow> 'c ws_next option" where
  "state_start fuel itf ext h conf =
     (case conf of (ws, io, c) \<Rightarrow>
        (case read_header ws io of
           None \<Rightarrow> None
         | Some (ws1, io1, False) \<Rightarrow> Some (Return (-1) (ws1, io1, c))
         | Some (ws1, io1, True) \<Rightarrow>
             if ws_lenhead ws1 < ws_szhead ws1 then Some (Return 0 (ws1, io1, c))
             else let hd = ws_header ws1; op = FRAME_GET_OPCODE (hd ! 0) in
               if (op = OPCODE_CLOSE \<or> op = OPCODE_PING \<or> op = OPCODE_PONG) \<and> \<not> check_control_header ws1
               then Some (protocol_error itf h (ws1, io1, c))
               else let sz = ws_szhead ws1
                        + (if op = OPCODE_CLOSE \<and> FRAME_GET_PAYLOAD_LEN (hd ! 1) \<noteq> 0 then 2 else 0) + head_extra hd
                    in state_length fuel itf ext h (ws1\<lparr>ws_szhead := sz, ws_st := STATE_LENGTH\<rparr>, io1, c)))"

definition dispatch_pass :: "nat \<Rightarrow> websock_itf \<Rightarrow> (ws_event \<Rightarrow> bool) \<Rightarrow> 'c ws_handler \<Rightarrow> 'c ws_conf \<Rightarrow> 'c ws_next option" where
  "dispatch_pass fuel itf ext h conf =
     (case conf of (ws, io, c) \<Rightarrow>
        (case ws_st ws of
           STATE_INIT \<Rightarrow> state_start fuel itf ext h (ws\<lparr>ws_lenhead := 0, ws_szhead := 2, ws_st := STATE_START\<rparr>, io, c)
         | STATE_START \<Rightarrow> state_start fuel itf ext h conf
         | STATE_LENGTH \<Rightarrow> state_length fuel itf ext h conf
         | STATE_DATA \<Rightarrow>
             if ws_length ws \<noteq> 0 then Some (Return 0 conf)
             else Some (Loop (ws\<lparr>ws_st := STATE_INIT\<rparr>, io, c))))"

text \<open>\<open>None\<close>: out of fuel, or a write outside of the header.\<close>

fun websock_dispatch :: "nat \<Rightarrow> websock_itf \<Rightarrow> (ws_event \<Rightarrow> bool) \<Rightarrow> 'c ws_handler \<Rightarrow> 'c ws_conf \<Rightarrow> (int \<times> 'c ws_conf) option" where
  "websock_dispatch 0 itf ext h conf = None"
| "websock_dispatch (Suc fuel) itf ext h conf =
     (case dispatch_pass fuel itf ext h conf of
        None \<Rightarrow> None
      | Some (Return rc conf') \<Rightarrow> Some (rc, conf')
      | Some (Loop conf') \<Rightarrow> websock_dispatch fuel itf ext h conf')"

section \<open>Unmasking is the cyclic exclusive or\<close>

fun xor_cycle :: "byte list \<Rightarrow> byte list \<Rightarrow> byte list" where
  "xor_cycle m [] = []"
| "xor_cycle m (b # bs) = (b XOR hd m) # xor_cycle (rotate1 m) bs"

lemma length_xor_cycle [simp]: "length (xor_cycle m bs) = length bs"
  by (induction m bs rule: xor_cycle.induct) auto

lemma rotate_Suc_swap: "rotate (Suc n) m = rotate n (rotate1 m)"
  by (simp only: rotate_Suc rotate1_rotate_swap)

lemma xor_cycle_append: "xor_cycle m (xs @ ys) = xor_cycle m xs @ xor_cycle (rotate (length xs) m) ys"
proof (induction xs arbitrary: m)
  case (Cons x xs)
  have "rotate (length (x # xs)) m = rotate (length xs) (rotate1 m)" by (simp only: list.size(4) add_Suc_right add_0_right rotate_Suc_swap)
  then show ?case by (simp only: append_Cons xor_cycle.simps Cons.IH)
qed simp

lemma xor_cycle_nth:
  "m \<noteq> [] \<Longrightarrow> i < length bs \<Longrightarrow> xor_cycle m bs ! i = bs ! i XOR m ! (i mod length m)"
proof (induction m bs arbitrary: i rule: xor_cycle.induct)
  case (2 m b bs)
  show ?case
  proof (cases i)
    case 0
    with 2 show ?thesis by (simp add: hd_conv_nth)
  next
    case (Suc j)
    have "rotate1 m ! (j mod length m) = m ! (Suc (j mod length m) mod length m)"
      using "2.prems" by (simp add: nth_rotate1)
    then have "rotate1 m ! (j mod length m) = m ! (i mod length m)" using Suc by (simp add: mod_Suc_eq)
    with Suc 2 show ?thesis by simp
  qed
qed simp

lemma xor_cycle_involution: "xor_cycle m (xor_cycle m bs) = bs"
  by (induction m bs rule: xor_cycle.induct) (auto simp: xor.assoc)

lemma unmask_bytes_eq: "length m = 4 \<Longrightarrow> unmask_bytes m bs = (rotate (length bs) m, xor_cycle m bs)"
proof (induction m bs rule: unmask_bytes.induct)
  case (2 m b bs)
  from "2.prems" obtain p q r s where m: "m = [p, q, r, s]" by (auto simp: length_Suc_conv numeral_eq_Suc)
  with "2.IH" [OF refl refl] show ?case by (simp add: Let_def rotate_Suc_swap del: rotate_Suc)
qed simp

lemma unmask_words_eq:
  "length m = 4 \<Longrightarrow> unmask_words m bs = (out, rest) \<Longrightarrow>
    \<exists>ws. bs = ws @ rest \<and> out = xor_cycle m ws \<and> rotate (length ws) m = m"
proof (induction m bs arbitrary: out rule: unmask_words.induct)
  case (1 m a b c d bs)
  from "1.prems"(1) obtain p q r s where m: "m = [p, q, r, s]" by (auto simp: length_Suc_conv numeral_eq_Suc)
  obtain o1 r1 where o1: "unmask_words m bs = (o1, r1)" by fastforce
  with "1.prems"(2) have r: "r1 = rest" "out = [a XOR p, b XOR q, c XOR r, d XOR s] @ o1" by (auto simp: m)
  with "1.IH" [OF "1.prems"(1)] o1 obtain ws where ws: "bs = ws @ rest" "o1 = xor_cycle m ws" "rotate (length ws) m = m" by blast
  have "rotate (length (a # b # c # d # ws)) m = m"
    using ws(3) by (simp add: m rotate_Suc_swap del: rotate_Suc)
  with ws r show ?case by (intro exI [of _ "a # b # c # d # ws"]) (simp add: m)
qed auto

lemma unmask_eq:
  assumes "length m = 4"
  shows "unmask align m buf = (rotate (length buf) m, xor_cycle m buf)"
proof -
  let ?m1 = "rotate (length (take align buf)) m"
  obtain out rest where w: "unmask_words ?m1 (drop align buf) = (out, rest)" by fastforce
  have l: "length ?m1 = 4" using assms by simp
  from unmask_words_eq [OF l w] obtain ws where ws: "drop align buf = ws @ rest" "out = xor_cycle ?m1 ws" "rotate (length ws) ?m1 = ?m1" by blast
  have buf: "buf = take align buf @ ws @ rest" using append_take_drop_id [of align buf] ws(1) by simp
  have "xor_cycle m buf = xor_cycle m (take align buf) @ out @ xor_cycle ?m1 rest"
    by (subst buf) (simp only: xor_cycle_append ws(2,3))
  moreover have "rotate (length buf) m = rotate (length rest) ?m1"
  proof -
    have "rotate (length rest) ?m1 = rotate (length rest) (rotate (length ws) ?m1)" using ws(3) by simp
    also have "\<dots> = rotate (length (take align buf @ ws @ rest)) m" by (simp add: rotate_rotate add.commute add.left_commute del: length_take)
    finally show ?thesis using buf by simp
  qed
  ultimately show ?thesis using w unmask_bytes_eq [OF assms] unmask_bytes_eq [OF l] by (simp add: unmask_def)
qed

text \<open>C29. Unmasking a buffer is the exclusive or of its bytes with the four mask bytes taken cyclically,
  whatever the alignment of the buffer: the byte steps and the 32 bit steps agree. The mask it leaves
  continues the cycle, so a payload that is received in pieces is unmasked as if received at once, and
  masking twice gives the data back.\<close>

theorem unmask_is_cyclic_xor:
  assumes "length m = 4"
  shows "(\<forall>i < length buf. snd (unmask align m buf) ! i = buf ! i XOR m ! (i mod 4))
    \<and> length (snd (unmask align m buf)) = length buf
    \<and> snd (unmask align m (xs @ ys)) = snd (unmask align1 m xs) @ snd (unmask align2 (fst (unmask align1 m xs)) ys)
    \<and> snd (unmask align m (snd (unmask align1 m buf))) = buf"
proof -
  have "length (rotate (length xs) m) = 4" "m \<noteq> []" using assms by auto
  then show ?thesis
    using assms by (simp add: unmask_eq xor_cycle_append xor_cycle_involution xor_cycle_nth)
qed

theorem unmask_is_cyclic_xor_witness:
  "snd (unmask 1 [1, 2, 3, 4] (snd (unmask 3 [1, 2, 3, 4] [10, 20, 30, 40, 50, 60, 70]))) = [10, 20, 30, 40, 50, 60, 70]"
  using unmask_is_cyclic_xor [of "[1, 2, 3, 4]" "[10, 20, 30, 40, 50, 60, 70]" 1 "[]" "[]" 3 0] by simp

section \<open>Frame headers\<close>

lemma byte_15: "(0x0F :: byte) = mask 4" and byte_127: "(0x7F :: byte) = mask 7" and word_255: "(0xFF :: 64 word) = mask 8"
  by (simp_all add: mask_eq_exp_minus_1)

lemma first_byte_bits:
  "FRAME_GET_FIN (first_byte l 0 0 0 op) = l AND 1" "FRAME_GET_OPCODE (first_byte l 0 0 0 op) = op AND 15"
  "FRAME_GET_RSV1 (first_byte l 0 0 0 op) = 0" "FRAME_GET_RSV2 (first_byte l 0 0 0 op) = 0" "FRAME_GET_RSV3 (first_byte l 0 0 0 op) = 0"
  unfolding first_byte_def frame_defs byte_15
  by (rule bit_word_eqI; auto simp: bit_simps)+

lemma bit_set_length: "bit (FRAME_SET_LENGTH x i) n \<longleftrightarrow> n < 8 \<and> bit x (i * 8 + n)"
  unfolding FRAME_SET_LENGTH_def word_255 by (auto simp: bit_simps)

lemma length_byte_0: "ucast (FRAME_SET_LENGTH x 0) = take_bit 8 (x :: 64 word)"
  by (rule bit_word_eqI) (auto simp: bit_simps bit_set_length)

lemma length_byte_step:
  "push_bit (8 * k) (ucast (FRAME_SET_LENGTH x k)) OR take_bit (8 * k) x = take_bit (8 * k + 8) (x :: 64 word)"
  by (rule bit_word_eqI) (auto simp: bit_simps bit_set_length mult.commute)

lemma length_bytes_2: "push_bit 8 (ucast (FRAME_SET_LENGTH x 1)) OR ucast (FRAME_SET_LENGTH x 0) = take_bit 16 (x :: 64 word)"
  using length_byte_step [of 1 x] by (simp add: length_byte_0)

lemma length_bytes_8:
  "push_bit 56 (ucast (FRAME_SET_LENGTH x 7)) OR push_bit 48 (ucast (FRAME_SET_LENGTH x 6)) OR push_bit 40 (ucast (FRAME_SET_LENGTH x 5))
   OR push_bit 32 (ucast (FRAME_SET_LENGTH x 4)) OR push_bit 24 (ucast (FRAME_SET_LENGTH x 3)) OR push_bit 16 (ucast (FRAME_SET_LENGTH x 2))
   OR push_bit 8 (ucast (FRAME_SET_LENGTH x 1)) OR ucast (FRAME_SET_LENGTH x 0) = (x :: 64 word)"
proof -
  have 1: "push_bit 16 (ucast (FRAME_SET_LENGTH x 2)) OR take_bit 16 x = take_bit 24 x"
    "push_bit 24 (ucast (FRAME_SET_LENGTH x 3)) OR take_bit 24 x = take_bit 32 x"
    "push_bit 32 (ucast (FRAME_SET_LENGTH x 4)) OR take_bit 32 x = take_bit 40 x"
    "push_bit 40 (ucast (FRAME_SET_LENGTH x 5)) OR take_bit 40 x = take_bit 48 x"
    "push_bit 48 (ucast (FRAME_SET_LENGTH x 6)) OR take_bit 48 x = take_bit 56 x"
    "push_bit 56 (ucast (FRAME_SET_LENGTH x 7)) OR take_bit 56 x = take_bit 64 x"
    using length_byte_step [of 2 x] length_byte_step [of 3 x] length_byte_step [of 4 x] length_byte_step [of 5 x]
      length_byte_step [of 6 x] length_byte_step [of 7 x] by simp_all
  have "take_bit 64 x = x" by (simp add: take_bit_word_eq_self)
  then show ?thesis by (simp only: length_bytes_2 1)
qed

lemma take_bit_self: "unat n < 2 ^ k \<Longrightarrow> take_bit k n = (n :: 64 word)"
  by (simp add: word_unat_eq_iff unsigned_take_bit_eq take_bit_nat_eq_self)

lemma small_length:
  assumes "n < (126 :: 64 word)"
  shows "ucast (FRAME_GET_PAYLOAD_LEN (FRAME_SET_LENGTH n 0)) = n" "FRAME_GET_MASK (FRAME_SET_LENGTH n 0) = 0"
proof -
  have "unat n < 2 ^ 7" using assms by (simp add: word_less_nat_alt)
  then have t: "take_bit 7 n = n" by (rule take_bit_self)
  have "ucast (FRAME_GET_PAYLOAD_LEN (FRAME_SET_LENGTH n 0)) = take_bit 7 n"
    unfolding frame_defs byte_127 by (rule bit_word_eqI) (auto simp: bit_simps bit_set_length)
  then show "ucast (FRAME_GET_PAYLOAD_LEN (FRAME_SET_LENGTH n 0)) = n" using t by simp
  have "\<not> bit n 7" using arg_cong [OF t, of "\<lambda>x. bit x 7"] by (simp add: bit_take_bit_iff)
  then show "FRAME_GET_MASK (FRAME_SET_LENGTH n 0) = 0"
    unfolding frame_defs by (intro bit_word_eqI) (auto simp: bit_simps bit_set_length intro: gr0I)
qed

lemma set_mask_0: "FRAME_SET_MASK 0 = 0"
  by (simp add: FRAME_SET_MASK_def)

lemma make_header_decode:
  assumes "take (length (make_header first n)) h = make_header first n"
  shows "head_length h = n" "FRAME_GET_MASK (h ! 1) = 0" "h ! 0 = first"
    "length (make_header first n) = 2 + head_extra h"
proof -
  have nth: "h ! i = make_header first n ! i" if "i < length (make_header first n)" for i
    using nth_take [OF that, of h] assms by simp
  consider (small) "n < 126" | (medium) "\<not> n < 126" "n < 65536" | (large) "\<not> n < 126" "\<not> n < 65536" by blast
  then have "head_length h = n \<and> FRAME_GET_MASK (h ! 1) = 0 \<and> h ! 0 = first \<and> length (make_header first n) = 2 + head_extra h"
  proof cases
    case small
    then have m: "make_header first n = [first, FRAME_SET_LENGTH n 0]" by (simp add: make_header_def set_mask_0)
    then have h: "h ! 0 = first" "h ! 1 = FRAME_SET_LENGTH n 0" using nth [of 0] nth [of 1] by auto
    note sl = small_length [OF small]
    have "FRAME_GET_PAYLOAD_LEN (FRAME_SET_LENGTH n 0) \<noteq> 127" "FRAME_GET_PAYLOAD_LEN (FRAME_SET_LENGTH n 0) \<noteq> 126"
      using sl(1) small by auto
    with h m sl show ?thesis by (simp add: head_length_def head_extra_def Let_def)
  next
    case medium
    then have m: "make_header first n = [first, 126, FRAME_SET_LENGTH n 1, FRAME_SET_LENGTH n 0]"
      by (simp add: make_header_def set_mask_0)
    then have h: "h ! 0 = first" "h ! 1 = 126" "h ! 2 = FRAME_SET_LENGTH n 1" "h ! 3 = FRAME_SET_LENGTH n 0"
      using nth [of 0] nth [of 1] nth [of 2] nth [of 3] by auto
    have "take_bit 16 n = n" using medium(2) by (intro take_bit_self) (simp add: word_less_nat_alt)
    then have "push_bit 8 (ucast (h ! 2)) OR ucast (h ! 3) = n" using length_bytes_2 [of n] h by simp
    with h m show ?thesis by (simp add: head_length_def head_extra_def Let_def FRAME_GET_PAYLOAD_LEN_def FRAME_GET_MASK_def)
  next
    case large
    then have m: "make_header first n = [first, 127, FRAME_SET_LENGTH n 7, FRAME_SET_LENGTH n 6, FRAME_SET_LENGTH n 5, FRAME_SET_LENGTH n 4,
        FRAME_SET_LENGTH n 3, FRAME_SET_LENGTH n 2, FRAME_SET_LENGTH n 1, FRAME_SET_LENGTH n 0]"
      by (simp add: make_header_def set_mask_0)
    then have "h ! 0 = first" "h ! 1 = 127" "h ! 2 = FRAME_SET_LENGTH n 7" "h ! 3 = FRAME_SET_LENGTH n 6" "h ! 4 = FRAME_SET_LENGTH n 5"
      "h ! 5 = FRAME_SET_LENGTH n 4" "h ! 6 = FRAME_SET_LENGTH n 3" "h ! 7 = FRAME_SET_LENGTH n 2" "h ! 8 = FRAME_SET_LENGTH n 1" "h ! 9 = FRAME_SET_LENGTH n 0"
      using nth [of 0] nth [of 1] nth [of 2] nth [of 3] nth [of 4] nth [of 5] nth [of 6] nth [of 7] nth [of 8] nth [of 9] by auto
    with m length_bytes_8 [of n] show ?thesis
      by (simp add: head_length_def head_extra_def Let_def FRAME_GET_PAYLOAD_LEN_def FRAME_GET_MASK_def)
  qed
  then show "head_length h = n" "FRAME_GET_MASK (h ! 1) = 0" "h ! 0 = first" "length (make_header first n) = 2 + head_extra h" by auto
qed

section \<open>Receiving what was sent\<close>

definition chunk_list :: "byte list \<Rightarrow> byte list list" where
  "chunk_list c = (if c = [] then [] else [c])"

lemma read_header_chunk:
  assumes "ws_lenhead ws \<le> ws_szhead ws" "ws_szhead ws \<le> length (ws_header ws)"
    and "io_chunks io = chunk_list c" "ws_szhead ws - ws_lenhead ws \<le> length c"
  shows "\<exists>h. read_header ws io = Some (ws\<lparr>ws_header := h, ws_lenhead := ws_szhead ws\<rparr>,
      io\<lparr>io_chunks := chunk_list (drop (ws_szhead ws - ws_lenhead ws) c)\<rparr>, True)
    \<and> length h = length (ws_header ws)
    \<and> take (ws_szhead ws) h = take (ws_lenhead ws) (ws_header ws) @ take (ws_szhead ws - ws_lenhead ws) c"
proof (cases "ws_lenhead ws < ws_szhead ws")
  case True
  let ?k = "ws_szhead ws - ws_lenhead ws"
  have c: "c \<noteq> []" "length (take ?k c) = ?k" using True assms(4) by auto
  obtain h where h: "memcpy (ws_header ws) (ws_lenhead ws) (take ?k c) = Some h"
    using assms(1,2) c(2) by (simp add: memcpy_def)
  from memcpy_Some [OF h] c(2) assms(1) have "length h = length (ws_header ws)"
    "take (ws_szhead ws) h = take (ws_lenhead ws) (ws_header ws) @ take ?k c" by auto
  with True c h assms(1,3) show ?thesis by (intro exI [of _ h]) (simp add: read_header_def ws_read.simps chunk_list_def)
next
  case False
  with assms show ?thesis by (intro exI [of _ "ws_header ws"]) (simp add: read_header_def)
qed

lemma head_extra_cong: "h ! 1 = h' ! 1 \<Longrightarrow> head_extra h = head_extra h'"
  by (simp add: head_extra_def)

lemma nth_of_take: "take n xs = take n ys \<Longrightarrow> i < n \<Longrightarrow> n \<le> length xs \<Longrightarrow> n \<le> length ys \<Longrightarrow> xs ! i = ys ! i"
  by (metis nth_take)

definition data_event :: "byte \<Rightarrow> bool \<Rightarrow> 64 word \<Rightarrow> ws_event" where
  "data_event op fin n = (if op = OPCODE_CONTINUATION then On_continue fin n else if op = OPCODE_TEXT then On_text fin n else On_binary fin n)"

definition data_opcode :: "byte \<Rightarrow> bool" where
  "data_opcode op \<longleftrightarrow> op = OPCODE_CONTINUATION \<or> op = OPCODE_TEXT \<or> op = OPCODE_BINARY"

lemma opcode_distinct: "data_opcode op \<Longrightarrow> op \<noteq> OPCODE_CLOSE \<and> op \<noteq> OPCODE_PING \<and> op \<noteq> OPCODE_PONG \<and> op AND 15 = op"
  by (auto simp: data_opcode_def opcode_defs)

lemma handle_data_frame:
  assumes "data_opcode op" "ws_header ws ! 0 = first_byte l 0 0 0 op" "\<not> has_extension itf"
  shows "handle_frame fuel itf ext h (ws, io, c) = Some (Loop (h (data_event op (l AND 1 \<noteq> 0) (ws_length ws)) (ws, io, c)))"
  using assms opcode_distinct [OF assms(1)]
  by (auto simp: handle_frame_def Let_def first_byte_bits data_event_def data_opcode_def)

lemma length_make_header: "length (make_header first n) = 2 \<or> length (make_header first n) = 4 \<or> length (make_header first n) = 10"
  by (simp add: make_header_def)

lemma receive_data_frame:
  assumes "data_opcode op" "ws_st ws = STATE_INIT" "length (ws_header ws) = 14" "n \<le> ws_maxlength ws" "\<not> has_extension itf"
    and "io_chunks io = chunk_list (make_header (first_byte l 0 0 0 op) n @ data)"
  shows "\<exists>ws'. dispatch_pass fuel itf ext h (ws, io, c) =
      Some (Loop (h (data_event op (l AND 1 \<noteq> 0) n) (ws', io\<lparr>io_chunks := chunk_list data\<rparr>, c)))
    \<and> ws_st ws' = STATE_DATA \<and> ws_length ws' = n \<and> ws_mask ws' = replicate 4 0 \<and> ws_maxlength ws' = ws_maxlength ws
    \<and> length (ws_header ws') = 14"
proof -
  let ?mh = "make_header (first_byte l 0 0 0 op) n" and ?F = "make_header (first_byte l 0 0 0 op) n @ data"
  let ?ws0 = "ws\<lparr>ws_lenhead := 0, ws_szhead := 2, ws_st := STATE_START\<rparr>"
  have lm: "2 \<le> length ?mh" "length ?mh \<le> 10" using length_make_header [of "first_byte l 0 0 0 op" n] by auto
  from read_header_chunk [of ?ws0 io ?F] assms(3,6) lm obtain h1 where
    r1: "read_header ?ws0 io = Some (?ws0\<lparr>ws_header := h1, ws_lenhead := 2\<rparr>, io\<lparr>io_chunks := chunk_list (drop 2 ?F)\<rparr>, True)"
      "length h1 = 14" "take 2 h1 = take 2 ?F" by auto
  let ?io1 = "io\<lparr>io_chunks := chunk_list (drop 2 ?F)\<rparr>"
  have F: "take (length ?mh) ?F = ?mh" by simp
  note dF = make_header_decode [OF F]
  have b: "h1 ! 0 = ?F ! 0" "h1 ! 1 = ?F ! 1"
    by (rule nth_of_take [OF r1(3)]; use r1(2) lm in simp)+
  have h10: "h1 ! 0 = first_byte l 0 0 0 op" using b dF(3) by simp
  have op: "FRAME_GET_OPCODE (h1 ! 0) = op" using h10 first_byte_bits(2) opcode_distinct [OF assms(1)] by simp
  have ex: "2 + head_extra h1 = length ?mh" using dF(4) head_extra_cong [OF b(2)] by simp
  let ?ws1 = "?ws0\<lparr>ws_header := h1, ws_lenhead := 2, ws_szhead := length ?mh, ws_st := STATE_LENGTH\<rparr>"
  have "length ?mh - 2 \<le> length (drop 2 ?F)" by (simp add: diff_le_mono)
  with read_header_chunk [of ?ws1 ?io1 "drop 2 ?F"] r1(2) lm obtain h2 where
    r2: "read_header ?ws1 ?io1 = Some (?ws1\<lparr>ws_header := h2, ws_lenhead := length ?mh\<rparr>, ?io1\<lparr>io_chunks := chunk_list (drop (length ?mh - 2) (drop 2 ?F))\<rparr>, True)"
      "length h2 = 14" "take (length ?mh) h2 = take 2 h1 @ take (length ?mh - 2) (drop 2 ?F)" by auto
  have "take (length ?mh) h2 = take (length ?mh) ?F"
    using r2(3) r1(3) lm by (metis append_take_drop_id le_add_diff_inverse take_add)
  then have h2: "take (length ?mh) h2 = ?mh" using F by simp
  note d2 = make_header_decode [OF h2]
  have rest: "drop (length ?mh - 2) (drop 2 ?F) = data" using lm by (simp add: drop_drop)
  have op2: "FRAME_GET_OPCODE (h2 ! 0) = op" using d2(3) first_byte_bits(2) opcode_distinct [OF assms(1)] by simp
  let ?ws2 = "(set_mask (?ws1\<lparr>ws_header := h2, ws_lenhead := length ?mh, ws_length := n\<rparr>))\<lparr>ws_st := STATE_DATA\<rparr>"
  have m: "ws_header ?ws2 = h2" "ws_length ?ws2 = n" "ws_mask ?ws2 = replicate 4 0" "ws_maxlength ?ws2 = ws_maxlength ws" "ws_st ?ws2 = STATE_DATA"
    using d2(2) by (simp_all add: set_mask_def Let_def)
  have "state_length fuel itf ext h (?ws1, ?io1, c) = handle_frame fuel itf ext h (?ws2, io\<lparr>io_chunks := chunk_list data\<rparr>, c)"
    using r2(1) d2(1) op2 opcode_distinct [OF assms(1)] leD [OF assms(4)] rest by (simp add: state_length_def Let_def)
  also have "\<dots> = Some (Loop (h (data_event op (l AND 1 \<noteq> 0) n) (?ws2, io\<lparr>io_chunks := chunk_list data\<rparr>, c)))"
    using handle_data_frame [OF assms(1) _ assms(5), of ?ws2 l] m d2(3) by simp
  finally have sl: "state_length fuel itf ext h (?ws1, ?io1, c) = Some (Loop (h (data_event op (l AND 1 \<noteq> 0) n) (?ws2, io\<lparr>io_chunks := chunk_list data\<rparr>, c)))" .
  have "state_start fuel itf ext h (?ws0, io, c) =
      state_length fuel itf ext h (?ws0\<lparr>ws_header := h1, ws_lenhead := 2, ws_szhead := 2 + head_extra h1, ws_st := STATE_LENGTH\<rparr>, ?io1, c)"
    using r1(1) op opcode_distinct [OF assms(1)] by (simp add: state_start_def Let_def)
  also have "\<dots> = state_length fuel itf ext h (?ws1, ?io1, c)" unfolding ex ..
  finally have "dispatch_pass fuel itf ext h (ws, io, c) = state_length fuel itf ext h (?ws1, ?io1, c)"
    using assms(2) by (simp add: dispatch_pass_def)
  with sl have dp: "dispatch_pass fuel itf ext h (ws, io, c) = Some (Loop (h (data_event op (l AND 1 \<noteq> 0) n) (?ws2, io\<lparr>io_chunks := chunk_list data\<rparr>, c)))"
    by (rule trans [rotated])
  have hl: "length (ws_header ?ws2) = 14" using m(1) r2(2) by simp
  show ?thesis by (rule exI [of _ ?ws2]) (intro conjI dp m hl)
qed

lemma websock_send_out:
  assumes "\<not> io_wfail io"
  shows "websock_send l r1 r2 r3 op data io =
    (io\<lparr>io_out := io_out io @ make_header (first_byte l r1 r2 r3 op) (of_nat (length data)) @ data\<rparr>, Inr 0)"
  using assms by (auto simp: websock_send_def websock_send_internal_def websock_send_internal_v_def ws_writev_def Let_def)

lemma websock_read_all:
  assumes "ws_st ws = STATE_DATA" "ws_mask ws = replicate 4 0" "ws_length ws = of_nat (length data)" "length data < 2 ^ 64"
    and "io_chunks io = chunk_list data" "\<not> io_closed io" "length data \<le> m" "m < 2 ^ 64"
  shows "\<exists>io'. websock_read align m ws io = (ws\<lparr>ws_length := 0\<rparr>, io', Some data)"
proof -
  have u: "unat (of_nat (length data) :: 64 word) = length data" "unat (of_nat m :: 64 word) = m"
    using assms(4,8) by (simp_all add: unat_of_nat)
  let ?n = "if of_nat m > ws_length ws then unat (ws_length ws) else m"
  have n: "?n = length data" using assms(3,7) u by (auto simp: word_less_nat_alt)
  show ?thesis
  proof (cases "data = []")
    case True
    with assms n show ?thesis by (simp add: websock_read_def Let_def ws_read.simps chunk_list_def)
  next
    case False
    have "ws_read ?n io = (io\<lparr>io_chunks := []\<rparr>, Some data)"
      unfolding n using assms(5) False by (simp add: ws_read.simps chunk_list_def)
    with False assms(1-3) show ?thesis by (simp add: websock_read_def Let_def)
  qed
qed


definition plain_itf :: websock_itf where
  "plain_itf = \<lparr>has_ping = False, has_pong = False, has_extension = False, has_error = True\<rparr>"

text \<open>A client that only records the events.\<close>

definition record_handler :: "ws_event list ws_handler" where
  "record_handler ev conf = (case conf of (ws, io, c) \<Rightarrow> (ws, io, c @ [ev]))"

definition empty_io :: ws_io where
  "empty_io = \<lparr>io_chunks = [], io_closed = False, io_wfail = False, io_out = []\<rparr>"


section \<open>Bounds of the header and of reads\<close>

definition ws_ok :: "websock \<Rightarrow> bool" where
  "ws_ok ws \<longleftrightarrow> length (ws_header ws) = 14 \<and> length (ws_mask ws) = 4
     \<and> (ws_st ws = STATE_START \<longrightarrow> ws_lenhead ws \<le> ws_szhead ws \<and> ws_szhead ws = 2)
     \<and> (ws_st ws = STATE_LENGTH \<longrightarrow> ws_lenhead ws \<le> ws_szhead ws \<and> ws_szhead ws \<le> 14)"

lemma read_header_ok:
  assumes "ws_lenhead ws \<le> ws_szhead ws" "ws_szhead ws \<le> length (ws_header ws)"
  shows "\<exists>h l io' ok. read_header ws io = Some (ws\<lparr>ws_header := h, ws_lenhead := l\<rparr>, io', ok)
    \<and> length h = length (ws_header ws) \<and> l \<le> ws_szhead ws"
proof (cases "ws_lenhead ws < ws_szhead ws")
  case True
  let ?k = "ws_szhead ws - ws_lenhead ws"
  obtain io' r where r: "ws_read ?k io = (io', r)" by fastforce
  show ?thesis
  proof (cases r)
    case None
    with True r assms show ?thesis
      by (intro exI [of _ "ws_header ws"] exI [of _ "ws_lenhead ws"] exI [of _ io'] exI [of _ False]) (simp add: read_header_def)
  next
    case (Some bs)
    have l: "length bs \<le> ?k" using r Some by (auto simp: ws_read.simps split: list.splits if_splits)
    then have "ws_lenhead ws + length bs \<le> length (ws_header ws)" using assms by linarith
    then obtain h where h: "memcpy (ws_header ws) (ws_lenhead ws) bs = Some h" by (simp add: memcpy_def)
    with memcpy_Some [OF h] True r Some l assms show ?thesis
      by (intro exI [of _ h] exI [of _ "ws_lenhead ws + length bs"] exI [of _ io'] exI [of _ True]) (auto simp: read_header_def)
  qed
next
  case False
  with assms show ?thesis
    by (intro exI [of _ "ws_header ws"] exI [of _ "ws_lenhead ws"] exI [of _ io] exI [of _ True]) (simp add: read_header_def)
qed

lemma mask_bit_le: "unat (FRAME_GET_MASK b) \<le> 1"
  unfolding FRAME_GET_MASK_def by (simp add: and_one_eq mod_2_eq_odd)

lemma head_extra_le: "head_extra h \<le> 12"
  using mask_bit_le [of "h ! 1"] by (auto simp: head_extra_def Let_def)

lemma head_extra_control: "FRAME_GET_PAYLOAD_LEN (h ! 1) \<le> 125 \<Longrightarrow> head_extra h \<le> 4"
  using mask_bit_le [of "h ! 1"] by (auto simp: head_extra_def Let_def)

definition next_conf :: "'c ws_next \<Rightarrow> 'c ws_conf" where
  "next_conf n = (case n of Return _ conf \<Rightarrow> conf | Loop conf \<Rightarrow> conf)"

definition keeps_ok :: "'c ws_handler \<Rightarrow> bool" where
  "keeps_ok h \<longleftrightarrow> (\<forall>ev ws io c. ws_ok ws \<longrightarrow> ws_ok (fst (h ev (ws, io, c))))"

lemma keeps_okD: "keeps_ok h \<Longrightarrow> ws_ok (fst conf) \<Longrightarrow> ws_ok (fst (h ev conf))"
  by (cases conf) (auto simp: keeps_ok_def)

lemma websock_error_ok: "keeps_ok h \<Longrightarrow> ws_ok (fst conf) \<Longrightarrow> ws_ok (fst (fst (websock_error itf h code data conf)))"
  by (cases conf) (auto simp: websock_error_def keeps_ok_def split: prod.splits)

lemma errors_ok:
  "keeps_ok h \<Longrightarrow> ws_ok (fst conf) \<Longrightarrow> ws_ok (fst (next_conf (protocol_error itf h conf)))"
  "keeps_ok h \<Longrightarrow> ws_ok (fst conf) \<Longrightarrow> ws_ok (fst (next_conf (too_long_error itf h conf)))"
  by (simp_all add: protocol_error_def too_long_error_def next_conf_def websock_error_ok)

lemma ws_ok_init: "ws_ok ws \<Longrightarrow> ws_ok (ws\<lparr>ws_st := STATE_INIT\<rparr>)"
  by (simp add: ws_ok_def)

lemma websock_read_keeps: "ws_ok ws \<Longrightarrow> websock_read a n ws io = (ws', io', r) \<Longrightarrow> ws_ok ws'"
  by (auto simp: websock_read_def ws_ok_def Let_def unmask_eq split: if_splits prod.splits option.splits)

lemma websock_drop_ok: "websock_drop fuel ws io = Some (ws', io', rc) \<Longrightarrow> ws_ok ws \<Longrightarrow> ws_ok ws'"
proof (induction fuel arbitrary: ws io)
  case 0
  then show ?case by (simp add: websock_drop.simps split: if_splits)
next
  case (Suc n)
  show ?case
  proof (cases "ws_length ws = 0")
    case True
    with Suc.prems show ?thesis by (simp add: websock_drop.simps)
  next
    case False
    obtain ws1 io1 r where r: "websock_read 0 8000 ws io = (ws1, io1, r)" by (metis prod_cases3)
    with Suc.prems(2) websock_read_keeps have "ws_ok ws1" by blast
    with Suc.IH [of ws1 io1] Suc.prems(1) False r show ?thesis
      by (cases r) (simp_all add: websock_drop.simps [of "Suc n"])
  qed
qed

text \<open>What is shown of every outcome of a pass.\<close>

definition pass_ok :: "websock_itf \<Rightarrow> 'c ws_next option \<Rightarrow> bool" where
  "pass_ok itf r \<longleftrightarrow> (case r of None \<Rightarrow> \<not> (has_ping itf \<and> has_pong itf) | Some n \<Rightarrow> ws_ok (fst (next_conf n)))"

lemma pass_ok_if: "(P \<Longrightarrow> pass_ok itf a) \<Longrightarrow> (\<not> P \<Longrightarrow> pass_ok itf b) \<Longrightarrow> pass_ok itf (if P then a else b)"
  by simp

lemma pass_ok_simps:
  "pass_ok itf (Some (Return rc conf)) \<longleftrightarrow> ws_ok (fst conf)" "pass_ok itf (Some (Loop conf)) \<longleftrightarrow> ws_ok (fst conf)"
  by (simp_all add: pass_ok_def next_conf_def)

lemma pass_ok_errors:
  "keeps_ok h \<Longrightarrow> ws_ok (fst conf) \<Longrightarrow> pass_ok itf (Some (protocol_error itf h conf))"
  "keeps_ok h \<Longrightarrow> ws_ok (fst conf) \<Longrightarrow> pass_ok itf (Some (too_long_error itf h conf))"
  by (simp_all add: pass_ok_def errors_ok)

lemma pass_ok_callback:
  assumes "keeps_ok h" "ws_ok (fst conf)"
  shows "pass_ok itf (case h ev conf of (ws1, io1, c1) \<Rightarrow> Some (Loop (ws1\<lparr>ws_st := STATE_INIT\<rparr>, io1, c1)))"
  using keeps_okD [OF assms, of ev] by (auto simp: pass_ok_simps ws_ok_init split: prod.splits)

lemma pass_ok_drop:
  assumes "ws_ok (fst conf)" "\<not> (has_ping itf \<and> has_pong itf)"
  shows "pass_ok itf (case conf of (ws1, io1, c1) \<Rightarrow>
      (case websock_drop fuel ws1 io1 of
         None \<Rightarrow> None | Some (ws2, io2, _) \<Rightarrow> Some (Loop (ws2\<lparr>ws_st := STATE_INIT\<rparr>, f io2, c1))))"
proof -
  obtain ws io c where conf: "conf = (ws, io, c)" by (metis prod_cases3)
  show ?thesis
  proof (cases "websock_drop fuel ws io")
    case None
    with conf assms(2) show ?thesis by (simp add: pass_ok_def)
  next
    case (Some r)
    obtain ws2 io2 rc where r: "r = (ws2, io2, rc)" by (metis prod_cases3)
    have "ws_ok ws2" by (rule websock_drop_ok [OF Some [unfolded r]]) (use assms(1) conf in simp)
    with conf Some r show ?thesis by (simp add: pass_ok_simps ws_ok_init)
  qed
qed

lemma handle_frame_ok:
  assumes "ws_ok (fst conf)" "keeps_ok h"
  shows "pass_ok itf (handle_frame fuel itf ext h conf)"
proof -
  obtain ws io c where conf: "conf = (ws, io, c)" by (metis prod_cases3)
  have e: "ws_ok (fst (h ev conf1))" if "ws_ok (fst conf1)" for ev conf1 using keeps_okD [OF assms(2) that] .
  have x: "ws_ok (fst (if b then h ev (ws, io, c) else (ws, io, c)))" for b ev using e assms(1) conf by simp
  show ?thesis
    unfolding handle_frame_def conf prod.case Let_def
    by (intro pass_ok_if pass_ok_errors(1) pass_ok_callback pass_ok_drop [where f = "\<lambda>x. x"] pass_ok_drop assms(2) x)
       (use e x assms(1) conf in \<open>auto simp: pass_ok_simps\<close>)
qed

lemma state_length_ok:
  assumes "ws_ok ws" "ws_st ws = STATE_LENGTH" "keeps_ok h"
  shows "pass_ok itf (state_length fuel itf ext h (ws, io, c))"
proof -
  have b: "ws_lenhead ws \<le> ws_szhead ws" "ws_szhead ws \<le> length (ws_header ws)" using assms(1,2) by (auto simp: ws_ok_def)
  obtain hd l io' ok where r: "read_header ws io = Some (ws\<lparr>ws_header := hd, ws_lenhead := l\<rparr>, io', ok)"
    "length hd = length (ws_header ws)" "l \<le> ws_szhead ws" using read_header_ok [OF b] by blast
  have w: "ws_ok (ws\<lparr>ws_header := hd, ws_lenhead := l\<rparr>)" "ws_ok (ws\<lparr>ws_header := hd, ws_lenhead := l, ws_length := x\<rparr>)" for x
    using assms(1,2) r(2,3) by (auto simp: ws_ok_def)
  have "ws_ok ((set_mask (ws\<lparr>ws_header := hd, ws_lenhead := l, ws_length := x\<rparr>))\<lparr>ws_st := STATE_DATA\<rparr>)" for x
    using w(2) [of x] by (simp add: ws_ok_def set_mask_def Let_def)
  then have hf: "pass_ok itf (handle_frame fuel itf ext h ((set_mask (ws\<lparr>ws_header := hd, ws_lenhead := l, ws_length := x\<rparr>))\<lparr>ws_st := STATE_DATA\<rparr>, io', c))" for x
    by (intro handle_frame_ok assms(3)) simp
  have tl: "pass_ok itf (Some (too_long_error itf h (ws\<lparr>ws_header := hd, ws_lenhead := l, ws_length := x\<rparr>, io', c)))" for x
    using w(2) [of x] by (intro pass_ok_errors(2) assms(3)) simp
  show ?thesis
    using r(1) w(1) hf tl by (cases ok) (simp_all add: state_length_def Let_def pass_ok_simps)
qed

lemma check_control_header_len: "check_control_header ws \<Longrightarrow> FRAME_GET_PAYLOAD_LEN (ws_header ws ! 1) \<le> 125"
  by (auto simp: check_control_header_def Let_def not_less split: if_splits)

lemma state_start_ok:
  assumes "ws_ok ws" "ws_st ws = STATE_START" "keeps_ok h"
  shows "pass_ok itf (state_start fuel itf ext h (ws, io, c))"
proof -
  have b: "ws_lenhead ws \<le> ws_szhead ws" "ws_szhead ws \<le> length (ws_header ws)" "ws_szhead ws = 2" using assms(1,2) by (auto simp: ws_ok_def)
  obtain hd l io' ok where r: "read_header ws io = Some (ws\<lparr>ws_header := hd, ws_lenhead := l\<rparr>, io', ok)"
    "length hd = length (ws_header ws)" "l \<le> ws_szhead ws" using read_header_ok [OF b(1,2)] by blast
  let ?w = "ws\<lparr>ws_header := hd, ws_lenhead := l\<rparr>"
  have w: "ws_ok ?w" using assms(1,2) r(2,3) by (auto simp: ws_ok_def)
  let ?op = "FRAME_GET_OPCODE (hd ! 0)"
  let ?sz = "2 + (if ?op = OPCODE_CLOSE \<and> FRAME_GET_PAYLOAD_LEN (hd ! 1) \<noteq> 0 then 2 else 0) + head_extra hd"
  let ?bad = "(?op = OPCODE_CLOSE \<or> ?op = OPCODE_PING \<or> ?op = OPCODE_PONG) \<and> \<not> check_control_header ?w"
  have sz: "?sz \<le> 14" if "\<not> ?bad"
    using that check_control_header_len [of ?w] head_extra_control [of hd] head_extra_le [of hd] by auto
  have w2: "ws_ok (?w\<lparr>ws_szhead := ?sz, ws_st := STATE_LENGTH\<rparr>)" if "\<not> ?bad"
    using w sz [OF that] r(3) b(3) by (auto simp: ws_ok_def)
  show ?thesis
  proof (cases "ok \<and> \<not> l < 2 \<and> \<not> ?bad")
    case True
    then have "state_start fuel itf ext h (ws, io, c) = state_length fuel itf ext h (?w\<lparr>ws_szhead := ?sz, ws_st := STATE_LENGTH\<rparr>, io', c)"
      using r(1) b(3) by (auto simp: state_start_def Let_def)
    with state_length_ok [OF w2 _ assms(3)] True show ?thesis by simp
  next
    case False
    with r(1) b(3) w pass_ok_errors(1) [OF assms(3), of "(?w, io', c)" itf] show ?thesis
      by (cases ok) (auto simp: state_start_def Let_def pass_ok_simps)
  qed
qed



section \<open>Reading a payload\<close>

lemma ws_read_length: "ws_read n io = (io', Some bs) \<Longrightarrow> length bs \<le> n"
  by (auto simp: ws_read.simps split: list.splits if_splits)

lemma websock_read_spec:
  assumes "ws_ok ws" "n < 2 ^ 64" "websock_read align n ws io = (ws', io', Some out)"
  shows "length out \<le> n \<and> unat (ws_length ws') = unat (ws_length ws) - length out
    \<and> (ws_st ws = STATE_DATA \<longrightarrow> length out \<le> unat (ws_length ws)
        \<and> (\<exists>raw. ws_read (min n (unat (ws_length ws))) io = (io', Some raw)
             \<and> out = (if ws_mask ws = replicate 4 0 then raw else xor_cycle (ws_mask ws) raw)
             \<and> ws_mask ws' = (if ws_mask ws = replicate 4 0 then ws_mask ws else rotate (length raw) (ws_mask ws))))
    \<and> (ws_st ws \<noteq> STATE_DATA \<longrightarrow> ws' = ws \<and> io' = io \<and> out = [])"
proof (cases "ws_st ws = STATE_DATA")
  case False
  with assms(3) show ?thesis by (simp add: websock_read_def)
next
  case True
  let ?k = "if of_nat n > ws_length ws then unat (ws_length ws) else n"
  have k: "?k = min n (unat (ws_length ws))"
    using assms(2) by (simp add: word_less_nat_alt unat_of_nat)
  obtain raw where r: "ws_read ?k io = (io', Some raw)"
    using assms(3) True by (auto simp: websock_read_def Let_def split: prod.splits option.splits if_splits)
  have l: "length raw \<le> ?k" by (rule ws_read_length [OF r])
  have m: "length (ws_mask ws) = 4" using assms(1) by (simp add: ws_ok_def)
  have out: "out = (if ws_mask ws = replicate 4 0 then raw else xor_cycle (ws_mask ws) raw)"
    "ws_length ws' = ws_length ws - of_nat (length raw)"
    "ws_mask ws' = (if ws_mask ws = replicate 4 0 then ws_mask ws else rotate (length raw) (ws_mask ws))"
    using assms(3) True r by (auto simp: websock_read_def Let_def unmask_eq [OF m] split: if_splits)
  have lo: "length out = length raw" using out(1) by simp
  have le: "length raw \<le> unat (ws_length ws)" using l k by simp
  then have "unat (of_nat (length raw) :: 64 word) = length raw"
    using unsigned_less [of "ws_length ws", where 'a = nat] by (simp add: unat_of_nat)
  then have "unat (ws_length ws') = unat (ws_length ws) - length raw"
    using out(2) le by (simp add: unat_sub word_le_nat_alt)
  with True r out lo l le k show ?thesis by auto
qed

text \<open>Reading a payload never gives more bytes than asked for nor more than the frame still holds,
  lowers the remaining length by what it gives, and gives the received bytes unmasked, so successive reads
  deliver the unmasked payload piece by piece; outside of a payload nothing is read.\<close>

lemma read_bounded_by_frame:
  assumes "ws_ok ws" "n < 2 ^ 64" "websock_read align n ws io = (ws', io', Some out)"
  shows "length out \<le> n \<and> unat (ws_length ws') = unat (ws_length ws) - length out
    \<and> (ws_st ws = STATE_DATA \<longrightarrow> length out \<le> unat (ws_length ws)
        \<and> (\<exists>raw. ws_read (min n (unat (ws_length ws))) io = (io', Some raw)
             \<and> out = (if ws_mask ws = replicate 4 0 then raw else xor_cycle (ws_mask ws) raw)
             \<and> ws_mask ws' = (if ws_mask ws = replicate 4 0 then ws_mask ws else rotate (length raw) (ws_mask ws))))
    \<and> (ws_st ws \<noteq> STATE_DATA \<longrightarrow> ws' = ws \<and> io' = io \<and> out = [])"
  by (rule websock_read_spec [OF assms])

section \<open>Dropping a payload\<close>

lemma websock_read_progress:
  assumes "ws_st ws = STATE_DATA" "ws_ok ws" "io_chunks io = ch # cs" "ws_length ws \<noteq> 0"
  shows "\<exists>ws' io' out. websock_read 0 8000 ws io = (ws', io', Some out) \<and> ws_st ws' = STATE_DATA \<and> ws_ok ws' \<and> io_closed io' = io_closed io
    \<and> unat (ws_length ws') + length (io_chunks io') < unat (ws_length ws) + length (io_chunks io)
    \<and> (unat (ws_length ws) \<le> length (concat (io_chunks io)) \<longrightarrow> unat (ws_length ws') \<le> length (concat (io_chunks io')))"
proof -
  let ?k = "min 8000 (unat (ws_length ws))"
  obtain ws' io' r where r0: "websock_read 0 8000 ws io = (ws', io', r)" by (metis prod_cases3)
  obtain out where r: "websock_read 0 8000 ws io = (ws', io', Some out)"
    using r0 assms(1,3) by (cases r) (auto simp: websock_read_def Let_def ws_read.simps split: if_splits prod.splits)
  from websock_read_spec [OF assms(2) _ r] assms(1) obtain raw where
    raw: "ws_read ?k io = (io', Some raw)" "length out = length raw" "unat (ws_length ws') = unat (ws_length ws) - length raw"
    by (auto split: if_splits)
  have k: "0 < ?k" using assms(4) by (simp add: unat_gt_0)
  have io': "io' = io\<lparr>io_chunks := (if drop ?k ch = [] then cs else drop ?k ch # cs)\<rparr>" "raw = take ?k ch"
    using raw(1) assms(3) by (auto simp: ws_read.simps)
  have "unat (ws_length ws') + length (io_chunks io') < unat (ws_length ws) + length (io_chunks io)"
    using raw(3) io' assms(3) k by (auto simp: min_def split: if_splits)
  moreover have "unat (ws_length ws) \<le> length (concat (io_chunks io)) \<longrightarrow> unat (ws_length ws') \<le> length (concat (io_chunks io'))"
    using raw(3) io' assms(3) by (auto simp: min_def split: if_splits)
  moreover have "ws_st ws' = STATE_DATA"
    using r assms(1) by (auto simp: websock_read_def Let_def split: if_splits prod.splits option.splits)
  ultimately show ?thesis using r websock_read_keeps [OF assms(2) r] io'(1) by simp
qed

lemma websock_drop_total:
  assumes "ws_st ws = STATE_DATA" "ws_ok ws" "io_closed io \<or> unat (ws_length ws) \<le> length (concat (io_chunks io))"
    and "unat (ws_length ws) + length (io_chunks io) < fuel"
  shows "\<exists>ws' io' rc. websock_drop fuel ws io = Some (ws', io', rc) \<and> (rc = 0 \<longrightarrow> ws_length ws' = 0) \<and> (rc = 0 \<or> io_closed io)"
  using assms
proof (induction fuel arbitrary: ws io)
  case (Suc n)
  show ?case
  proof (cases "ws_length ws = 0")
    case True
    then show ?thesis by (simp add: websock_drop.simps)
  next
    case False
    show ?thesis
    proof (cases "io_chunks io")
      case Nil
      with False Suc.prems have "io_closed io" by (simp add: unat_gt_0 [symmetric] del: unat_gt_0)
      with Nil False Suc.prems(1) show ?thesis
        by (simp add: websock_drop.simps websock_read_def Let_def ws_read.simps)
    next
      case (Cons ch cs)
      from websock_read_progress [OF Suc.prems(1,2) Cons False] obtain ws' io' out where
        r: "websock_read 0 8000 ws io = (ws', io', Some out)" "ws_st ws' = STATE_DATA" "ws_ok ws'" "io_closed io' = io_closed io"
          "unat (ws_length ws') + length (io_chunks io') < unat (ws_length ws) + length (io_chunks io)"
          "unat (ws_length ws) \<le> length (concat (io_chunks io)) \<longrightarrow> unat (ws_length ws') \<le> length (concat (io_chunks io'))" by blast
      have "io_closed io' \<or> unat (ws_length ws') \<le> length (concat (io_chunks io'))"
        "unat (ws_length ws') + length (io_chunks io') < n" using r(4-6) Suc.prems(3,4) by auto
      from Suc.IH [OF r(2,3) this] r(4) have
        "\<exists>ws'' io'' rc. websock_drop n ws' io' = Some (ws'', io'', rc) \<and> (rc = 0 \<longrightarrow> ws_length ws'' = 0) \<and> (rc = 0 \<or> io_closed io)" by simp
      with False r(1) show ?thesis by (subst websock_drop.simps) simp
    qed
  qed
qed simp

lemma websock_drop_spins:
  assumes "ws_length ws \<noteq> 0" "io_chunks io = []" "\<not> io_closed io"
  shows "websock_drop fuel ws io = None"
proof (induction fuel)
  case (Suc n)
  have "websock_read 0 8000 ws io = (ws, io, Some [])"
    using assms(2,3) by (simp add: websock_read_def Let_def ws_read.simps)
  with Suc assms(1) show ?case by (subst websock_drop.simps) simp
qed (use assms(1) in \<open>simp add: websock_drop.simps\<close>)

text \<open>Dropping the rest of a payload ends when the bytes of the payload arrive or the peer has gone, with
  nothing left to read or an error; while nothing arrives it does not end, since a read that gives no byte is
  tried again at once.\<close>

lemma drop_ends_or_spins:
  shows "(ws_st ws = STATE_DATA \<and> ws_ok ws \<and> (io_closed io \<or> unat (ws_length ws) \<le> length (concat (io_chunks io)))
      \<and> unat (ws_length ws) + length (io_chunks io) < fuel \<longrightarrow>
      (\<exists>ws' io' rc. websock_drop fuel ws io = Some (ws', io', rc) \<and> (rc = 0 \<longrightarrow> ws_length ws' = 0) \<and> (rc = 0 \<or> io_closed io)))
    \<and> (ws_length ws \<noteq> 0 \<and> io_chunks io = [] \<and> \<not> io_closed io \<longrightarrow> websock_drop fuel ws io = None)"
  using websock_drop_total [of ws io fuel] websock_drop_spins [of ws io fuel] by blast

section \<open>Control frames\<close>

lemma websock_send_v_out:
  assumes "\<not> io_wfail io" "length iov + 1 \<le> 32"
  shows "websock_send_v l r1 r2 r3 op iov io =
    (io\<lparr>io_out := io_out io @ make_header (first_byte l r1 r2 r3 op) (of_nat (length (concat iov))) @ concat iov\<rparr>, Inr 0)"
proof -
  have "concat (filter (\<lambda>b. b \<noteq> []) xs) = concat xs" "sum_list (map length (filter (\<lambda>b. b \<noteq> []) xs)) = length (concat xs)"
    for xs :: "byte list list" by (induction xs) auto
  with assms show ?thesis
    by (simp add: websock_send_v_def websock_send_internal_v_def ws_writev_def Let_def)
qed

lemma control_header_accepted:
  assumes "op = OPCODE_CLOSE \<or> op = OPCODE_PING \<or> op = OPCODE_PONG" "n \<le> 125" "op = OPCODE_CLOSE \<longrightarrow> n \<noteq> 1"
    and "take 2 (ws_header ws) = take 2 (make_header (first_byte 1 0 0 0 op) (of_nat n) @ data)" "2 \<le> length (ws_header ws)"
  shows "check_control_header ws"
proof -
  have small: "(of_nat n :: 64 word) < 126" using assms(2) by (simp add: word_less_nat_alt unat_of_nat)
  let ?F = "make_header (first_byte 1 0 0 0 op) (of_nat n)"
  have F: "?F = [first_byte 1 0 0 0 op, FRAME_SET_LENGTH (of_nat n) 0]" using small by (simp add: make_header_def set_mask_0)
  have h: "ws_header ws ! 0 = first_byte 1 0 0 0 op" "ws_header ws ! 1 = FRAME_SET_LENGTH (of_nat n) 0"
    using nth_of_take [OF assms(4), of 0] nth_of_take [OF assms(4), of 1] F assms(5) by auto
  let ?p = "FRAME_GET_PAYLOAD_LEN (FRAME_SET_LENGTH (of_nat n) 0)"
  have "unat (ucast ?p :: 64 word) = n" using small_length(1) [OF small] assms(2) by (simp add: unat_of_nat)
  moreover have "unat ?p < 2 ^ 64" using unsigned_less [of ?p, where 'a = nat] by simp
  ultimately have p: "unat ?p = n" by (simp add: unsigned_ucast_eq take_bit_nat_eq_self)
  have "op AND 15 = op" using assms(1) by (auto simp: opcode_defs)
  moreover have "\<not> ?p > 125" using p assms(2) by (simp add: word_less_nat_alt)
  moreover have "op = OPCODE_CLOSE \<longrightarrow> ?p \<noteq> 1" using p assms(3) by auto
  ultimately show ?thesis by (simp add: check_control_header_def Let_def h first_byte_bits del: One_nat_def)
qed

definition accepted_control :: "byte list \<Rightarrow> bool" where
  "accepted_control f \<longleftrightarrow> check_control_header (websock_create_v13\<lparr>ws_header := take 2 f @ replicate 12 0\<rparr>) \<and> length f \<le> 127"

lemma accepted_control_frame:
  assumes "op = OPCODE_CLOSE \<or> op = OPCODE_PING \<or> op = OPCODE_PONG" "length data \<le> 125" "op = OPCODE_CLOSE \<longrightarrow> length data \<noteq> 1"
  shows "accepted_control (make_header (first_byte 1 0 0 0 op) (of_nat (length data)) @ data)"
proof -
  let ?F = "make_header (first_byte 1 0 0 0 op) (of_nat (length data))"
  have l: "length ?F = 2" using assms(2) by (simp add: make_header_def word_less_nat_alt unat_of_nat)
  have "check_control_header (websock_create_v13\<lparr>ws_header := take 2 (?F @ data) @ replicate 12 0\<rparr>)"
    by (rule control_header_accepted [OF assms, of _ data]) (use l in simp_all)
  with l assms(2) show ?thesis by (simp add: accepted_control_def)
qed

text \<open>Control frames respect the limit of the protocol: a ping or pong with more than 125 bytes and a close
  with a reason of more than 123 bytes are refused with \<open>EINVAL\<close> and nothing is written; otherwise one
  frame is written that carries the data and whose header the receiving side accepts as a control header.\<close>

lemma control_frames_bounded:
  assumes "\<not> io_wfail io" "io_out io = []"
  shows "(if length data > 125 then websock_ping data io = (io, Inl EINVAL) \<and> websock_pong data io = (io, Inl EINVAL)
      else \<exists>f g. websock_ping data io = (io\<lparr>io_out := f\<rparr>, Inr 0) \<and> accepted_control f \<and> drop 2 f = data
         \<and> websock_pong data io = (io\<lparr>io_out := g\<rparr>, Inr 0) \<and> accepted_control g \<and> drop 2 g = data)
    \<and> (if length data > 123 then websock_close code data io = (io, Inl EINVAL)
       else \<exists>f. websock_close code data io = (io\<lparr>io_out := f\<rparr>, Inr 0) \<and> accepted_control f)"
proof
  let ?mh = "\<lambda>op n. make_header (first_byte 1 0 0 0 op) (of_nat n)"
  have l: "length (?mh op n) = 2" if "n \<le> 125" for op n using that by (simp add: make_header_def word_less_nat_alt unat_of_nat)
  show "if length data > 125 then websock_ping data io = (io, Inl EINVAL) \<and> websock_pong data io = (io, Inl EINVAL)
      else \<exists>f g. websock_ping data io = (io\<lparr>io_out := f\<rparr>, Inr 0) \<and> accepted_control f \<and> drop 2 f = data
         \<and> websock_pong data io = (io\<lparr>io_out := g\<rparr>, Inr 0) \<and> accepted_control g \<and> drop 2 g = data"
  proof (cases "length data > 125")
    case False
    then have "websock_ping data io = (io\<lparr>io_out := ?mh OPCODE_PING (length data) @ data\<rparr>, Inr 0)"
      "websock_pong data io = (io\<lparr>io_out := ?mh OPCODE_PONG (length data) @ data\<rparr>, Inr 0)"
      using assms by (simp_all add: websock_ping_def websock_pong_def websock_send_out)
    moreover have "accepted_control (?mh OPCODE_PING (length data) @ data)" "accepted_control (?mh OPCODE_PONG (length data) @ data)"
      by (rule accepted_control_frame; use False in \<open>simp add: opcode_defs\<close>)+
    moreover have "drop 2 (?mh op (length data) @ data) = data" for op using l [of "length data"] False by simp
    ultimately have "\<exists>f g. websock_ping data io = (io\<lparr>io_out := f\<rparr>, Inr 0) \<and> accepted_control f \<and> drop 2 f = data
         \<and> websock_pong data io = (io\<lparr>io_out := g\<rparr>, Inr 0) \<and> accepted_control g \<and> drop 2 g = data" by blast
    with False show ?thesis by simp
  qed (simp add: websock_ping_def websock_pong_def)
  show "if length data > 123 then websock_close code data io = (io, Inl EINVAL)
       else \<exists>f. websock_close code data io = (io\<lparr>io_out := f\<rparr>, Inr 0) \<and> accepted_control f"
  proof (cases "length data > 123")
    case False
    let ?r = "[ucast (drop_bit 8 code AND 0xFF), ucast (code AND 0xFF)] @ data"
    show ?thesis
    proof (cases "code = WEBSOCKET_CODE_NOT_SET \<and> length data = 0")
      case True
      then have "websock_close code data io = (io\<lparr>io_out := ?mh OPCODE_CLOSE (length ([] :: byte list)) @ []\<rparr>, Inr 0)"
        using assms by (simp add: websock_close_def websock_send_out)
      with accepted_control_frame [of OPCODE_CLOSE "[]"] False show ?thesis by auto
    next
      case other: False
      then have "websock_close code data io = (io\<lparr>io_out := ?mh OPCODE_CLOSE (length ?r) @ ?r\<rparr>, Inr 0)"
        using assms False by (auto simp: websock_close_def websock_send_v_out)
      with accepted_control_frame [of OPCODE_CLOSE ?r] False show ?thesis by auto
    qed
  qed (auto simp: websock_close_def)
qed

text \<open>A close frame sent by a client, which is masked, is decoded at the wrong offsets: the two bytes of
  the code are counted as part of the header before the mask, so the code reported to the application is
  still masked, the mask kept for the reason is made of the end of the mask and of the code, and a close
  frame that carries a code and no reason is reported as carrying no code.\<close>

lemma masked_close_is_garbled:
  "(\<exists>ws io. dispatch_pass fuel plain_itf ext record_handler (websock_create_v13,
       empty_io\<lparr>io_chunks := [[0x88, 0x85, m0, m1, m2, m3, c0 XOR m0, c1 XOR m1, r0, r1, r2]]\<rparr>, [])
     = Some (Return 0 (ws, io, [On_close (push_bit 8 (ucast (c0 XOR m0)) OR ucast (c1 XOR m1)) 3]))
     \<and> ws_mask ws = [m2, m3, c0 XOR m0, c1 XOR m1])
   \<and> (\<exists>ws io. dispatch_pass fuel plain_itf ext record_handler (websock_create_v13,
       empty_io\<lparr>io_chunks := [[0x88, 0x82, m0, m1, m2, m3, c0 XOR m0, c1 XOR m1]]\<rparr>, [])
     = Some (Return 0 (ws, io, [On_close WEBSOCKET_CODE_NOT_SET 0])))"
proof -
  have m8: "(255 :: byte) = mask 8" by (simp add: mask_eq_exp_minus_1)
  have ff: "(x :: byte) AND 255 = x" for x unfolding m8 by (rule bit_word_eqI) (simp add: bit_simps)
  have r14: "replicate 14 (0 :: byte) = [0, 0, 0, 0, 0, 0, 0, 0, 0, 0, 0, 0, 0, 0]" by (simp add: numeral_eq_Suc)
  have b: "FRAME_GET_OPCODE 0x88 = OPCODE_CLOSE" "FRAME_GET_RSV1 0x88 = 0" "FRAME_GET_RSV2 0x88 = 0" "FRAME_GET_RSV3 0x88 = 0"
    "FRAME_GET_PAYLOAD_LEN 0x85 = 5" "FRAME_GET_PAYLOAD_LEN 0x82 = 2" "FRAME_GET_MASK 0x85 = 1" "FRAME_GET_MASK 0x82 = 1"
    by (simp_all add: frame_defs opcode_defs)
  have o: "OPCODE_CLOSE \<noteq> OPCODE_CONTINUATION" "OPCODE_CLOSE \<noteq> OPCODE_TEXT" "OPCODE_CLOSE \<noteq> OPCODE_BINARY" by (simp_all add: opcode_defs)
  note defs = dispatch_pass_def state_start_def state_length_def handle_frame_def read_header_def ws_read.simps memcpy_def
    websock_create_v13_def empty_io_def plain_itf_def record_handler_def Let_def check_control_header_def
    head_extra_def head_length_def set_mask_def close_code_def
  show ?thesis by (intro conjI) (simp_all add: defs b o ff r14)
qed

end
