(* ===== verification/Ws.thy ===== *)
theory Ws
  imports Websock
begin

text \<open>
  Messages over a WebSocket, \<^verbatim>\<open>src/src/afb-ws.c\<close>: the socket with its buffer, the sending functions, and the
  callbacks given to \<^verbatim>\<open>websock.c\<close> that put the fragments of a message together.

  The state of a socket is the record \<open>afb_ws\<close>; \<open>aws_ws\<close> tells that the pointer to the \<open>websock\<close> is not \<open>NULL\<close>.
  The buffer is the allocated memory with the number of bytes used. The file descriptor is the \<open>ws_io\<close> of
  the framing layer plus what arrives later: \<open>aws_arrivals\<close> are the chunks that come with the successive calls
  of \<open>poll\<close>, \<open>aws_eof\<close> tells whether the peer closes after that. As \<open>aws_readv\<close> never returns 0, reading fails
  when no chunk is there, so \<open>io_closed\<close> is set on these connections, and \<open>aws_errno\<close> gives the reason. The callbacks
  of the client are a parameter: a function from the call to the new state of everything.

  What C leaves undefined is an explicit \<open>aws_fault\<close>; so is running out of the fuel of a loop.
\<close>

section \<open>State\<close>

datatype aws_fault = Null_deref | Use_after_free | Out_of_bounds | Assert_failed | Spinning

datatype aws_st = waiting | reading_text | reading_binary

record buf =
  buf_mem :: "byte list option"
  buf_size :: nat

definition no_buf :: buf where "no_buf = \<lparr>buf_mem = None, buf_size = 0\<rparr>"

record afb_ws_itf =
  itf_on_close :: bool
  itf_on_text :: bool
  itf_on_binary :: bool
  itf_on_error :: bool
  itf_on_hangup :: bool

record afb_ws =
  aws_fd :: int
  aws_state :: aws_st
  aws_ws :: bool
  aws_evsrc :: bool
  aws_buffer :: buf
  aws_arrivals :: "byte list list list"
  aws_eof :: bool
  aws_oom :: bool
  aws_failed :: "aws_fault option"
  aws_freed :: bool

text \<open>The calls of the client's callbacks.\<close>

datatype cli_event =
    Cli_close "16 word" "byte list option"
  | Cli_text "byte list"
  | Cli_binary "byte list"
  | Cli_error "16 word" "byte list"
  | Cli_hangup

type_synonym 'k aws_conf = "websock \<times> ws_io \<times> afb_ws \<times> 'k"
type_synonym 'k aws_cb = "cli_event \<Rightarrow> 'k aws_conf \<Rightarrow> 'k aws_conf"

definition WEBSOCKET_CODE_CANT_ACCEPT :: "16 word" where "WEBSOCKET_CODE_CANT_ACCEPT = 1003"
definition WEBSOCKET_CODE_ABNORMAL :: "16 word" where "WEBSOCKET_CODE_ABNORMAL = 1006"

text \<open>The interface given to \<^verbatim>\<open>websock.c\<close>.\<close>

definition aws_itf :: websock_itf where
  "aws_itf = \<lparr>has_ping = False, has_pong = False, has_extension = False, has_error = True\<rparr>"

definition aws_pick_buffer :: "afb_ws \<Rightarrow> afb_ws \<times> buf" where
  "aws_pick_buffer a = (a\<lparr>aws_buffer := no_buf\<rparr>, aws_buffer a)"

section \<open>Connection\<close>

definition aws_disconnect :: "afb_ws_itf \<Rightarrow> 'k aws_cb \<Rightarrow> bool \<Rightarrow> 'k aws_conf \<Rightarrow> 'k aws_conf" where
  "aws_disconnect itf cb call_on_hangup conf =
     (case conf of (ws, io, a, k) \<Rightarrow>
        if aws_ws a then
          let a1 = a\<lparr>aws_ws := False, aws_evsrc := False\<rparr>;
              a2 = (fst (aws_pick_buffer a1))\<lparr>aws_state := waiting\<rparr>
          in if call_on_hangup \<and> itf_on_hangup itf then cb Cli_hangup (ws, io, a2, k) else (ws, io, a2, k)
        else conf)"

text \<open>\<open>malloc_ok\<close>, \<open>ws_ok'\<close> and \<open>add_io_ok\<close>: whether the two allocations and \<open>sd_event_add_io\<close> succeed.\<close>

definition afb_ws_create :: "int \<Rightarrow> bool \<Rightarrow> bool \<Rightarrow> bool \<Rightarrow> byte list list list \<Rightarrow> bool \<Rightarrow> aws_fault + (websock \<times> afb_ws) option" where
  "afb_ws_create fd malloc_ok ws_ok' add_io_ok arrivals eof =
     (if fd < 0 then Inl Assert_failed
      else if \<not> malloc_ok then Inr None
      else if \<not> ws_ok' then Inr None
      else if \<not> add_io_ok then Inr None
      else Inr (Some (websock_create_v13,
             \<lparr>aws_fd = fd, aws_state = waiting, aws_ws = True, aws_evsrc = True, aws_buffer = no_buf,
              aws_arrivals = arrivals, aws_eof = eof, aws_oom = False, aws_failed = None, aws_freed = False\<rparr>)))"

text \<open>\<open>aws_freed\<close> records that the structure has been freed.\<close>

definition afb_ws_destroy :: "afb_ws_itf \<Rightarrow> 'k aws_cb \<Rightarrow> 'k aws_conf \<Rightarrow> 'k aws_conf" where
  "afb_ws_destroy itf cb conf = (case aws_disconnect itf cb False conf of (ws, io, a, k) \<Rightarrow> (ws, io, a\<lparr>aws_freed := True\<rparr>, k))"

definition afb_ws_hangup :: "afb_ws_itf \<Rightarrow> 'k aws_cb \<Rightarrow> 'k aws_conf \<Rightarrow> 'k aws_conf" where
  "afb_ws_hangup itf cb conf = aws_disconnect itf cb True conf"

definition afb_ws_is_connected :: "afb_ws \<Rightarrow> bool" where
  "afb_ws_is_connected a = aws_ws a"

section \<open>Sending\<close>

definition afb_ws_close :: "16 word \<Rightarrow> byte list option \<Rightarrow> 'k aws_conf \<Rightarrow> 'k aws_conf \<times> (errno + int)" where
  "afb_ws_close code reason conf =
     (case conf of (ws, io, a, k) \<Rightarrow>
        if \<not> aws_ws a then (conf, Inl EPIPE)
        else case websock_close code (case reason of None \<Rightarrow> [] | Some r \<Rightarrow> r) io of (io', rc) \<Rightarrow> ((ws, io', a, k), rc))"

definition afb_ws_text :: "byte list \<Rightarrow> 'k aws_conf \<Rightarrow> 'k aws_conf \<times> (errno + int)" where
  "afb_ws_text text conf =
     (case conf of (ws, io, a, k) \<Rightarrow>
        if \<not> aws_ws a then (conf, Inl EPIPE)
        else case websock_text 1 text io of (io', rc) \<Rightarrow> ((ws, io', a, k), rc))"

text \<open>The table of fragments of \<open>afb_ws_texts\<close> has 32 entries.\<close>

fun collect_texts :: "byte list list \<Rightarrow> byte list list \<Rightarrow> byte list list option" where
  "collect_texts ios [] = Some ios"
| "collect_texts ios (s # ss) = (if length ios = 32 then None else collect_texts (ios @ [s]) ss)"

definition afb_ws_texts :: "byte list list \<Rightarrow> 'k aws_conf \<Rightarrow> 'k aws_conf \<times> (errno + int)" where
  "afb_ws_texts args conf =
     (case conf of (ws, io, a, k) \<Rightarrow>
        if \<not> aws_ws a then (conf, Inl EPIPE)
        else case collect_texts [] args of
          None \<Rightarrow> (conf, Inl EINVAL)
        | Some ios \<Rightarrow> (case websock_text_v 1 ios io of (io', rc) \<Rightarrow> ((ws, io', a, k), rc)))"

definition afb_ws_text_v :: "byte list list \<Rightarrow> 'k aws_conf \<Rightarrow> 'k aws_conf \<times> (errno + int)" where
  "afb_ws_text_v iovec conf =
     (case conf of (ws, io, a, k) \<Rightarrow>
        if \<not> aws_ws a then (conf, Inl EPIPE)
        else case websock_text_v 1 iovec io of (io', rc) \<Rightarrow> ((ws, io', a, k), rc))"

definition afb_ws_binary :: "byte list \<Rightarrow> 'k aws_conf \<Rightarrow> 'k aws_conf \<times> (errno + int)" where
  "afb_ws_binary data conf =
     (case conf of (ws, io, a, k) \<Rightarrow>
        if \<not> aws_ws a then (conf, Inl EPIPE)
        else case websock_binary 1 data io of (io', rc) \<Rightarrow> ((ws, io', a, k), rc))"

definition afb_ws_binary_v :: "byte list list \<Rightarrow> 'k aws_conf \<Rightarrow> 'k aws_conf \<times> (errno + int)" where
  "afb_ws_binary_v iovec conf =
     (case conf of (ws, io, a, k) \<Rightarrow>
        if \<not> aws_ws a then (conf, Inl EPIPE)
        else case websock_binary_v 1 iovec io of (io', rc) \<Rightarrow> ((ws, io', a, k), rc))"

section \<open>The system calls\<close>

text \<open>The results that successive calls of \<open>readv\<close> and \<open>writev\<close> give; \<open>None\<close> when the list is consumed.\<close>

fun aws_writev :: "(errno + nat) list \<Rightarrow> ((errno + nat) \<times> (errno + nat) list) option" where
  "aws_writev [] = None"
| "aws_writev (Inl EINTR # rs) = aws_writev rs"
| "aws_writev (Inl EAGAIN # rs) = aws_writev rs"
| "aws_writev (r # rs) = Some (r, rs)"

fun aws_readv :: "(errno + nat) list \<Rightarrow> ((errno + nat) \<times> (errno + nat) list) option" where
  "aws_readv [] = None"
| "aws_readv (Inl EINTR # rs) = aws_readv rs"
| "aws_readv (r # rs) = Some (if r = Inr 0 then Inl EPIPE else r, rs)"

lemma aws_readv_result: "aws_readv rs = Some (r, rs') \<Longrightarrow> r \<noteq> Inr 0 \<and> r \<noteq> Inl EINTR"
  by (induction rs rule: aws_readv.induct) (auto split: if_splits)

lemma aws_writev_result: "aws_writev rs = Some (r, rs') \<Longrightarrow> r \<noteq> Inl EAGAIN \<and> r \<noteq> Inl EINTR"
  by (induction rs rule: aws_writev.induct) auto

text \<open>Why reading has failed: the peer has gone, or nothing has arrived yet.\<close>

definition aws_errno :: "afb_ws \<Rightarrow> errno" where
  "aws_errno a = (if aws_eof a \<and> aws_arrivals a = [] then EPIPE else EAGAIN)"

definition aws_poll :: "ws_io \<Rightarrow> afb_ws \<Rightarrow> ws_io \<times> afb_ws" where
  "aws_poll io a =
     (case aws_arrivals a of
        [] \<Rightarrow> (io, a)
      | c # cs \<Rightarrow> (io\<lparr>io_chunks := io_chunks io @ c\<rparr>, a\<lparr>aws_arrivals := cs\<rparr>))"

section \<open>Reading a payload into the buffer\<close>

text \<open>\<open>malloc\<close> gives memory at a multiple of four, so the alignment follows from the offset. Memory that
  \<open>realloc\<close> adds is shown as zeros; it is overwritten before it is used.\<close>

definition aws_realloc :: "byte list option \<Rightarrow> nat \<Rightarrow> byte list" where
  "aws_realloc m n = (let old = (case m of None \<Rightarrow> [] | Some xs \<Rightarrow> xs) in take n old @ replicate (n - length old) 0)"

fun aws_read_loop :: "nat \<Rightarrow> nat \<Rightarrow> byte list \<Rightarrow> 'k aws_conf \<Rightarrow> aws_fault + ('k aws_conf \<times> bool)" where
  "aws_read_loop 0 n mem conf = Inl Spinning"
| "aws_read_loop (Suc fuel) n mem (ws, io, a, k) =
     (let used = buf_size (aws_buffer a) in
      case websock_read ((4 - used mod 4) mod 4) n ws io of
        (ws', io', None) \<Rightarrow>
          if aws_errno a \<noteq> EAGAIN then Inr ((ws', io', a, k), False)
          else (case aws_poll io' a of (io2, a2) \<Rightarrow> aws_read_loop fuel n mem (ws', io2, a2, k))
      | (ws', io', Some bs) \<Rightarrow>
          (case memcpy mem used bs of
             None \<Rightarrow> Inl Out_of_bounds
           | Some mem' \<Rightarrow>
               let a' = a\<lparr>aws_buffer := \<lparr>buf_mem = Some mem', buf_size = used + length bs\<rparr>\<rparr>; n' = n - length bs
               in if n' = 0 then Inr ((ws', io', a', k), True) else aws_read_loop fuel n' mem' (ws', io', a', k)))"

definition aws_read :: "nat \<Rightarrow> nat \<Rightarrow> 'k aws_conf \<Rightarrow> aws_fault + ('k aws_conf \<times> bool)" where
  "aws_read fuel n conf =
     (case conf of (ws, io, a, k) \<Rightarrow>
        if n \<noteq> 0 then
          if aws_oom a then Inr (conf, False)
          else let mem = aws_realloc (buf_mem (aws_buffer a)) (buf_size (aws_buffer a) + n + 1)
               in aws_read_loop fuel n mem (ws, io, a\<lparr>aws_buffer := (aws_buffer a)\<lparr>buf_mem := Some mem\<rparr>\<rparr>, k)
        else Inr (conf, True))"

section \<open>The callbacks of the framing layer\<close>

definition aws_reset :: "afb_ws \<Rightarrow> afb_ws" where
  "aws_reset a = fst (aws_pick_buffer (a\<lparr>aws_state := waiting\<rparr>))"

text \<open>The bytes that are handed over with a buffer.\<close>

definition buf_bytes :: "buf \<Rightarrow> byte list option" where
  "buf_bytes b = map_option (take (buf_size b)) (buf_mem b)"

definition aws_on_close :: "nat \<Rightarrow> afb_ws_itf \<Rightarrow> 'k aws_cb \<Rightarrow> 16 word \<Rightarrow> nat \<Rightarrow> 'k aws_conf \<Rightarrow> aws_fault + 'k aws_conf" where
  "aws_on_close fuel itf cb code n conf =
     (case conf of (ws, io, a, k) \<Rightarrow>
        let a1 = aws_reset a in
        if \<not> itf_on_close itf then
          (case websock_drop fuel ws io of
             None \<Rightarrow> Inl Spinning
           | Some (ws', io', _) \<Rightarrow> Inr (afb_ws_hangup itf cb (ws', io', a1, k)))
        else (case aws_read fuel n (ws, io, a1, k) of
             Inl f \<Rightarrow> Inl f
           | Inr (conf', False) \<Rightarrow> Inr (cb (Cli_close code None) conf')
           | Inr ((ws', io', a', k'), True) \<Rightarrow>
               (case aws_pick_buffer a' of (a2, b) \<Rightarrow> Inr (cb (Cli_close code (buf_bytes b)) (ws', io', a2, k')))))"

definition aws_on_error :: "afb_ws_itf \<Rightarrow> 'k aws_cb \<Rightarrow> 16 word \<Rightarrow> byte list \<Rightarrow> 'k aws_conf \<Rightarrow> 'k aws_conf" where
  "aws_on_error itf cb code data conf =
     (if itf_on_error itf then cb (Cli_error code data) conf else afb_ws_hangup itf cb conf)"

text \<open>\<open>websock_error\<close> with \<open>aws_on_error\<close> as its only callback.\<close>

definition aws_error_handler :: "afb_ws_itf \<Rightarrow> 'k aws_cb \<Rightarrow> (afb_ws \<times> 'k) ws_handler" where
  "aws_error_handler itf cb ev conf = (case ev of On_error code data \<Rightarrow> aws_on_error itf cb code data conf | _ \<Rightarrow> conf)"

definition afb_ws_error :: "afb_ws_itf \<Rightarrow> 'k aws_cb \<Rightarrow> 16 word \<Rightarrow> byte list option \<Rightarrow> 'k aws_conf \<Rightarrow> 'k aws_conf \<times> (errno + int)" where
  "afb_ws_error itf cb code reason conf =
     (case conf of (ws, io, a, k) \<Rightarrow>
        if \<not> aws_ws a then (conf, Inl EPIPE)
        else websock_error aws_itf (aws_error_handler itf cb) code (case reason of None \<Rightarrow> [] | Some r \<Rightarrow> r) conf)"

definition aws_drop_error :: "nat \<Rightarrow> afb_ws_itf \<Rightarrow> 'k aws_cb \<Rightarrow> 16 word \<Rightarrow> 'k aws_conf \<Rightarrow> aws_fault + 'k aws_conf" where
  "aws_drop_error fuel itf cb code conf =
     (case conf of (ws, io, a, k) \<Rightarrow>
        (case websock_drop fuel ws io of
           None \<Rightarrow> Inl Spinning
         | Some (ws', io', _) \<Rightarrow>
             Inr (fst (websock_error aws_itf (aws_error_handler itf cb) code [] (ws', io', aws_reset a, k)))))"

definition aws_continue :: "nat \<Rightarrow> afb_ws_itf \<Rightarrow> 'k aws_cb \<Rightarrow> bool \<Rightarrow> nat \<Rightarrow> 'k aws_conf \<Rightarrow> aws_fault + 'k aws_conf" where
  "aws_continue fuel itf cb lst n conf =
     (case aws_read fuel n conf of
        Inl f \<Rightarrow> Inl f
      | Inr (conf', False) \<Rightarrow> aws_drop_error fuel itf cb WEBSOCKET_CODE_ABNORMAL conf'
      | Inr ((ws, io, a, k), True) \<Rightarrow>
          if lst then
            let istxt = (aws_state a = reading_text) in
            (case aws_pick_buffer (a\<lparr>aws_state := waiting\<rparr>) of
               (a2, b) \<Rightarrow>
                 (case buf_mem b of
                    None \<Rightarrow> Inl Null_deref
                  | Some mem \<Rightarrow>
                      if buf_size b < length mem then
                        let text = take (buf_size b) (mem[buf_size b := 0]) in
                        if (if istxt then itf_on_text itf else itf_on_binary itf)
                        then Inr (cb (if istxt then Cli_text text else Cli_binary text) (ws, io, a2, k))
                        else Inl Null_deref
                      else Inl Out_of_bounds))
          else Inr (ws, io, a, k))"

definition aws_on_text :: "nat \<Rightarrow> afb_ws_itf \<Rightarrow> 'k aws_cb \<Rightarrow> bool \<Rightarrow> nat \<Rightarrow> 'k aws_conf \<Rightarrow> aws_fault + 'k aws_conf" where
  "aws_on_text fuel itf cb lst n conf =
     (case conf of (ws, io, a, k) \<Rightarrow>
        if aws_state a \<noteq> waiting then aws_drop_error fuel itf cb WEBSOCKET_CODE_PROTOCOL_ERROR conf
        else if \<not> itf_on_text itf then aws_drop_error fuel itf cb WEBSOCKET_CODE_CANT_ACCEPT conf
        else aws_continue fuel itf cb lst n (ws, io, a\<lparr>aws_state := reading_text\<rparr>, k))"

definition aws_on_binary :: "nat \<Rightarrow> afb_ws_itf \<Rightarrow> 'k aws_cb \<Rightarrow> bool \<Rightarrow> nat \<Rightarrow> 'k aws_conf \<Rightarrow> aws_fault + 'k aws_conf" where
  "aws_on_binary fuel itf cb lst n conf =
     (case conf of (ws, io, a, k) \<Rightarrow>
        if aws_state a \<noteq> waiting then aws_drop_error fuel itf cb WEBSOCKET_CODE_PROTOCOL_ERROR conf
        else if \<not> itf_on_binary itf then aws_drop_error fuel itf cb WEBSOCKET_CODE_CANT_ACCEPT conf
        else aws_continue fuel itf cb lst n (ws, io, a\<lparr>aws_state := reading_binary\<rparr>, k))"

definition aws_on_continue :: "nat \<Rightarrow> afb_ws_itf \<Rightarrow> 'k aws_cb \<Rightarrow> bool \<Rightarrow> nat \<Rightarrow> 'k aws_conf \<Rightarrow> aws_fault + 'k aws_conf" where
  "aws_on_continue fuel itf cb lst n conf =
     (case conf of (ws, io, a, k) \<Rightarrow>
        if aws_state a = waiting then aws_drop_error fuel itf cb WEBSOCKET_CODE_PROTOCOL_ERROR conf
        else aws_continue fuel itf cb lst n conf)"

text \<open>The table \<open>aws_itf\<close> of callbacks, with a fault kept in the state.\<close>

definition aws_event :: "nat \<Rightarrow> afb_ws_itf \<Rightarrow> 'k aws_cb \<Rightarrow> ws_event \<Rightarrow> 'k aws_conf \<Rightarrow> aws_fault + 'k aws_conf" where
  "aws_event fuel itf cb ev conf =
     (case ev of
        On_text lst n \<Rightarrow> aws_on_text fuel itf cb lst (unat n) conf
      | On_binary lst n \<Rightarrow> aws_on_binary fuel itf cb lst (unat n) conf
      | On_continue lst n \<Rightarrow> aws_on_continue fuel itf cb lst (unat n) conf
      | On_close code n \<Rightarrow> aws_on_close fuel itf cb code (unat n) conf
      | On_error code data \<Rightarrow> Inr (aws_on_error itf cb code data conf)
      | _ \<Rightarrow> Inr conf)"

definition aws_handler :: "nat \<Rightarrow> afb_ws_itf \<Rightarrow> 'k aws_cb \<Rightarrow> (afb_ws \<times> 'k) ws_handler" where
  "aws_handler fuel itf cb ev conf =
     (case aws_event fuel itf cb ev conf of
        Inr conf' \<Rightarrow> conf'
      | Inl f \<Rightarrow> (case conf of (ws, io, a, k) \<Rightarrow> (ws, io, a\<lparr>aws_failed := Some f\<rparr>, k)))"

text \<open>The loop of \<open>websock_dispatch\<close>, which goes on with the \<open>websock\<close> it was given: that is freed memory when a
  callback has disconnected the socket.\<close>

fun aws_dispatch :: "nat \<Rightarrow> afb_ws_itf \<Rightarrow> 'k aws_cb \<Rightarrow> 'k aws_conf \<Rightarrow> aws_fault + (int \<times> 'k aws_conf)" where
  "aws_dispatch 0 itf cb conf = Inl Spinning"
| "aws_dispatch (Suc fuel) itf cb conf =
     (case dispatch_pass fuel aws_itf (\<lambda>_. False) (aws_handler fuel itf cb) conf of
        None \<Rightarrow> Inl Spinning
      | Some (Return rc (ws, io, a, k)) \<Rightarrow>
          (case aws_failed a of Some f \<Rightarrow> Inl f | None \<Rightarrow> Inr (rc, (ws, io, a, k)))
      | Some (Loop (ws, io, a, k)) \<Rightarrow>
          (case aws_failed a of
             Some f \<Rightarrow> Inl f
           | None \<Rightarrow> if \<not> aws_ws a then Inl Use_after_free else aws_dispatch fuel itf cb (ws, io, a, k)))"

declare aws_dispatch.simps(2) [simp del]

definition aws_on_readable :: "nat \<Rightarrow> afb_ws_itf \<Rightarrow> 'k aws_cb \<Rightarrow> 'k aws_conf \<Rightarrow> aws_fault + 'k aws_conf" where
  "aws_on_readable fuel itf cb conf =
     (case conf of (ws, io, a, k) \<Rightarrow>
        if \<not> aws_ws a then Inl Assert_failed
        else case aws_dispatch fuel itf cb conf of
          Inl f \<Rightarrow> Inl f
        | Inr (rc, (ws', io', a', k')) \<Rightarrow>
            if rc < 0 \<and> aws_errno a' = EPIPE then Inr (afb_ws_hangup itf cb (ws', io', a', k'))
            else Inr (ws', io', a', k'))"

definition io_event_callback :: "nat \<Rightarrow> afb_ws_itf \<Rightarrow> 'k aws_cb \<Rightarrow> bool \<Rightarrow> bool \<Rightarrow> 'k aws_conf \<Rightarrow> aws_fault + 'k aws_conf" where
  "io_event_callback fuel itf cb epollin epollhup conf =
     (case (if epollin then aws_on_readable fuel itf cb conf else Inr conf) of
        Inl f \<Rightarrow> Inl f
      | Inr conf' \<Rightarrow> Inr (if epollhup then afb_ws_hangup itf cb conf' else conf'))"

section \<open>A payload is read whatever the chunks\<close>

lemma four_zeros: "replicate 4 (0 :: byte) = [0, 0, 0, 0]"
  by (simp add: eval_nat_numeral)

lemma xor_cycle_zero: "xor_cycle (replicate 4 0) bs = bs"
  unfolding four_zeros by (induction bs) simp_all

lemma rotate_zero: "rotate n (replicate 4 (0 :: byte)) = replicate 4 0"
  unfolding four_zeros by (induction n) simp_all

lemma unat_length_less: "unat (w :: 64 word) < 2 ^ 64"
  using unsigned_less [of w, where 'a = nat] by simp

lemma websock_read_chunk:
  assumes "ws_st ws = STATE_DATA" "ws_ok ws" "io_chunks io = c # cs" "c \<noteq> []" "0 < n" "n \<le> unat (ws_length ws)"
  shows "websock_read align n ws io =
    (ws\<lparr>ws_length := ws_length ws - of_nat (length (take n c)), ws_mask := rotate (length (take n c)) (ws_mask ws)\<rparr>,
     io\<lparr>io_chunks := (if drop n c = [] then cs else drop n c # cs)\<rparr>, Some (xor_cycle (ws_mask ws) (take n c)))"
proof -
  have "\<not> of_nat n > ws_length ws"
    using assms(6) unat_length_less [of "ws_length ws"] by (simp add: word_less_nat_alt unat_of_nat)
  moreover have "ws_read n io = (io\<lparr>io_chunks := (if drop n c = [] then cs else drop n c # cs)\<rparr>, Some (take n c))"
    using assms(3) by (simp add: ws_read.simps)
  moreover have "length (ws_mask ws) = 4" using assms(2) by (simp add: ws_ok_def)
  moreover have "take n c \<noteq> []" using assms(4,5) by simp
  ultimately show ?thesis
    using assms(1) by (auto simp: websock_read_def Let_def unmask_eq xor_cycle_zero rotate_zero)
qed

lemma websock_read_empty:
  assumes "ws_st ws = STATE_DATA" "io_chunks io = []" "io_closed io"
  shows "websock_read align n ws io = (ws, io, None)"
  using assms by (simp add: websock_read_def Let_def ws_read.simps)

text \<open>Everything that is still to be read from the descriptor.\<close>

definition aws_stream :: "ws_io \<Rightarrow> afb_ws \<Rightarrow> byte list" where
  "aws_stream io a = concat (io_chunks io) @ concat (concat (aws_arrivals a))"

definition aws_chunks_ok :: "ws_io \<Rightarrow> afb_ws \<Rightarrow> bool" where
  "aws_chunks_ok io a \<longleftrightarrow> io_closed io \<and> [] \<notin> set (io_chunks io) \<and> [] \<notin> set (concat (aws_arrivals a))"

lemma aws_poll_stream: "aws_poll io a = (io', a') \<Longrightarrow> aws_stream io' a' = aws_stream io a"
  by (auto simp: aws_poll_def aws_stream_def split: list.splits)

lemma aws_poll_ok: "aws_poll io a = (io', a') \<Longrightarrow> aws_chunks_ok io a \<Longrightarrow> aws_chunks_ok io' a'"
  by (auto simp: aws_poll_def aws_chunks_ok_def split: list.splits)

lemma ws_ok_step: "ws_ok ws \<Longrightarrow> ws_ok (ws\<lparr>ws_length := l, ws_mask := rotate j (ws_mask ws)\<rparr>)"
  by (auto simp: ws_ok_def)

definition read_done :: "nat \<Rightarrow> byte list \<Rightarrow> 'k aws_conf \<Rightarrow> aws_fault + ('k aws_conf \<times> bool) \<Rightarrow> bool" where
  "read_done n mem conf r \<longleftrightarrow>
     (case conf of (ws, io, a, k) \<Rightarrow>
        \<exists>ws' io' arr mem'.
          r = Inr ((ws', io', a\<lparr>aws_buffer := \<lparr>buf_mem = Some mem', buf_size = buf_size (aws_buffer a) + n\<rparr>, aws_arrivals := arr\<rparr>, k), True)
          \<and> ws_st ws' = STATE_DATA \<and> ws_ok ws' \<and> ws_length ws' = 0
          \<and> aws_chunks_ok io' (a\<lparr>aws_arrivals := arr\<rparr>) \<and> aws_stream io' (a\<lparr>aws_arrivals := arr\<rparr>) = drop n (aws_stream io a)
          \<and> length mem' = length mem
          \<and> take (buf_size (aws_buffer a) + n) mem'
             = take (buf_size (aws_buffer a)) mem @ xor_cycle (ws_mask ws) (take n (aws_stream io a)))"

lemma aws_read_loop_done:
  assumes "ws_st ws = STATE_DATA" "ws_ok ws" "n = unat (ws_length ws)" "0 < n" "n \<le> length (aws_stream io a)" "aws_chunks_ok io a"
    and "buf_size (aws_buffer a) + n < length mem" "n + length (aws_arrivals a) < fuel"
  shows "read_done n mem (ws, io, a, k) (aws_read_loop fuel n mem (ws, io, a, k))"
  using assms
proof (induction fuel arbitrary: n mem ws io a)
  case 0
  then show ?case by simp
next
  case (Suc fuel)
  let ?u = "buf_size (aws_buffer a)"
  show ?case
  proof (cases "io_chunks io")
    case Nil
    have r: "websock_read al n ws io = (ws, io, None)" for al
      using Suc.prems(1,6) Nil by (simp add: websock_read_empty aws_chunks_ok_def)
    from Suc.prems(4,5) Nil have ne: "aws_arrivals a \<noteq> []" by (auto simp: aws_stream_def)
    then obtain ar arr where ar: "aws_arrivals a = ar # arr" by (cases "aws_arrivals a") auto
    let ?io = "io\<lparr>io_chunks := io_chunks io @ ar\<rparr>" and ?a = "a\<lparr>aws_arrivals := arr\<rparr>"
    have p: "aws_poll io a = (?io, ?a)" using ar by (simp add: aws_poll_def)
    have st: "aws_stream ?io ?a = aws_stream io a" by (rule aws_poll_stream [OF p])
    have "read_done n mem (ws, ?io, ?a, k) (aws_read_loop fuel n mem (ws, ?io, ?a, k))"
      by (rule Suc.IH) (use Suc.prems st ar aws_poll_ok [OF p] in simp_all)
    moreover have "aws_read_loop (Suc fuel) n mem (ws, io, a, k) = aws_read_loop fuel n mem (ws, ?io, ?a, k)"
      using r p ne by (simp add: Let_def aws_errno_def)
    ultimately show ?thesis unfolding read_done_def using st by simp
  next
    case (Cons c cs)
    let ?t = "take n c" and ?io = "io\<lparr>io_chunks := (if drop n c = [] then cs else drop n c # cs)\<rparr>"
    let ?ws = "ws\<lparr>ws_length := ws_length ws - of_nat (length ?t), ws_mask := rotate (length ?t) (ws_mask ws)\<rparr>"
    let ?out = "xor_cycle (ws_mask ws) ?t" and ?l = "length (take n c)"
    have c: "c \<noteq> []" using Suc.prems(6) Cons by (auto simp: aws_chunks_ok_def)
    have r: "websock_read al n ws io = (?ws, ?io, Some ?out)" for al
      by (rule websock_read_chunk [OF Suc.prems(1,2) Cons c Suc.prems(4)]) (use Suc.prems(3) in simp)
    have "?u + length ?out \<le> length mem" using Suc.prems(7) by simp
    then obtain mem' where m: "memcpy mem ?u ?out = Some mem'" unfolding memcpy_def by (simp only: if_True)
    from memcpy_Some [OF m] have m': "length mem' = length mem" "take (?u + ?l) mem' = take ?u mem @ ?out" by simp_all
    let ?a = "a\<lparr>aws_buffer := \<lparr>buf_mem = Some mem', buf_size = ?u + ?l\<rparr>\<rparr>"
    have l: "?l \<le> n" "0 < ?l" using c Suc.prems(4) by simp_all
    have st: "aws_stream io a = ?t @ aws_stream ?io a"
      using Cons append_take_drop_id [of n c] by (simp add: aws_stream_def del: append_take_drop_id)
    have ok: "aws_chunks_ok ?io a" using Suc.prems(6) Cons by (auto simp: aws_chunks_ok_def)
    have wl: "unat (ws_length ?ws) = n - ?l"
      using Suc.prems(3) l(1) unat_length_less [of "ws_length ws"] by (simp add: unat_sub word_le_nat_alt unat_of_nat)
    have wok: "ws_ok ?ws" by (rule ws_ok_step [OF Suc.prems(2)])
    have dr: "drop n (aws_stream io a) = drop (n - ?l) (aws_stream ?io a)"
      and tk: "take n (aws_stream io a) = ?t @ take (n - ?l) (aws_stream ?io a)"
      unfolding st using l(1) by (simp_all only: take_append drop_append) simp_all
    show ?thesis
    proof (cases "n - ?l = 0")
      case True
      then have e: "?l = n" using l(1) by simp
      have "aws_read_loop (Suc fuel) n mem (ws, io, a, k) = Inr ((?ws, ?io, ?a, k), True)"
        using r m True by (simp only: aws_read_loop.simps Let_def prod.case option.case) simp
      moreover have "ws_length ?ws = 0" using wl True by (metis unat_eq_0)
      moreover have "take (?u + n) mem' = take ?u mem @ xor_cycle (ws_mask ws) (take n (aws_stream io a))"
        using m'(2) tk e by simp
      ultimately show ?thesis
        unfolding read_done_def prod.case
        by (intro exI [of _ ?ws] exI [of _ ?io] exI [of _ "aws_arrivals a"] exI [of _ mem'])
          (use Suc.prems(1) wok ok dr m'(1) e in simp)
    next
      case False
      have IH: "read_done (n - ?l) mem' (?ws, ?io, ?a, k) (aws_read_loop fuel (n - ?l) mem' (?ws, ?io, ?a, k))"
      proof (rule Suc.IH)
        show "n - ?l \<le> length (aws_stream ?io ?a)" using Suc.prems(5) st by (simp add: aws_stream_def)
        show "aws_chunks_ok ?io ?a" using ok by (simp add: aws_chunks_ok_def)
        have "length (aws_arrivals ?a) = length (aws_arrivals a)" by simp
        then show "n - ?l + length (aws_arrivals ?a) < fuel" using Suc.prems(8) l False by linarith
      qed (use Suc.prems wok wl False l m'(1) in simp_all)
      have eq: "aws_read_loop (Suc fuel) n mem (ws, io, a, k) = aws_read_loop fuel (n - ?l) mem' (?ws, ?io, ?a, k)"
        using r m False by (simp only: aws_read_loop.simps Let_def prod.case option.case) simp
      have sa: "aws_stream ?io ?a = aws_stream ?io a" "\<And>io' arr. aws_stream io' (?a\<lparr>aws_arrivals := arr\<rparr>) = aws_stream io' (a\<lparr>aws_arrivals := arr\<rparr>)"
        "\<And>io' arr. aws_chunks_ok io' (?a\<lparr>aws_arrivals := arr\<rparr>) = aws_chunks_ok io' (a\<lparr>aws_arrivals := arr\<rparr>)"
        by (simp_all add: aws_stream_def aws_chunks_ok_def)
      have x: "xor_cycle (ws_mask ws) (take n (aws_stream io a)) =
          ?out @ xor_cycle (ws_mask ?ws) (take (n - ?l) (aws_stream ?io a))"
        unfolding tk xor_cycle_append by simp
      have u: "buf_size (aws_buffer ?a) = ?u + ?l" "?u + ?l + (n - ?l) = ?u + n" using l(1) by simp_all
      show ?thesis
        unfolding read_done_def prod.case eq dr x m'(1) [symmetric]
        using IH [unfolded read_done_def prod.case sa u m'(2)] by (simp only: append_assoc) simp
    qed
  qed
qed

text \<open>The memory is large enough for the used part and a final zero.\<close>

definition buf_ok :: "buf \<Rightarrow> bool" where
  "buf_ok b \<longleftrightarrow> (case buf_mem b of None \<Rightarrow> buf_size b = 0 | Some m \<Rightarrow> buf_size b < length m)"

definition buf_data :: "buf \<Rightarrow> byte list" where
  "buf_data b = (case buf_mem b of None \<Rightarrow> [] | Some m \<Rightarrow> take (buf_size b) m)"

lemma aws_realloc_length [simp]: "length (aws_realloc m n) = n"
  by (simp add: aws_realloc_def Let_def)

lemma aws_realloc_data: "buf_ok b \<Longrightarrow> take (buf_size b) (aws_realloc (buf_mem b) (buf_size b + n)) = buf_data b"
  by (auto simp: buf_ok_def buf_data_def aws_realloc_def Let_def min_absorb1 split: option.splits)

lemma aws_read_done:
  assumes "ws_st ws = STATE_DATA" "ws_ok ws" "n = unat (ws_length ws)" "0 < n" "n \<le> length (aws_stream io a)" "aws_chunks_ok io a"
    and "\<not> aws_oom a" "n + length (aws_arrivals a) < fuel" "buf_ok (aws_buffer a)"
  shows "\<exists>ws' io' arr mem.
    aws_read fuel n (ws, io, a, k) =
      Inr ((ws', io', a\<lparr>aws_buffer := \<lparr>buf_mem = Some mem, buf_size = buf_size (aws_buffer a) + n\<rparr>, aws_arrivals := arr\<rparr>, k), True)
    \<and> ws_st ws' = STATE_DATA \<and> ws_ok ws' \<and> ws_length ws' = 0
    \<and> aws_chunks_ok io' (a\<lparr>aws_arrivals := arr\<rparr>) \<and> aws_stream io' (a\<lparr>aws_arrivals := arr\<rparr>) = drop n (aws_stream io a)
    \<and> length mem = buf_size (aws_buffer a) + n + 1
    \<and> take (buf_size (aws_buffer a) + n) mem = buf_data (aws_buffer a) @ xor_cycle (ws_mask ws) (take n (aws_stream io a))"
proof -
  let ?u = "buf_size (aws_buffer a)"
  let ?mem = "aws_realloc (buf_mem (aws_buffer a)) (?u + n + 1)"
  let ?a = "a\<lparr>aws_buffer := (aws_buffer a)\<lparr>buf_mem := Some ?mem\<rparr>\<rparr>"
  have tm: "take ?u ?mem = buf_data (aws_buffer a)" using aws_realloc_data [OF assms(9), of "n + 1"] by (simp add: add.assoc)
  have s: "aws_stream io ?a = aws_stream io a" "\<And>io' arr. aws_stream io' (?a\<lparr>aws_arrivals := arr\<rparr>) = aws_stream io' (a\<lparr>aws_arrivals := arr\<rparr>)"
    "\<And>io' arr. aws_chunks_ok io' (?a\<lparr>aws_arrivals := arr\<rparr>) = aws_chunks_ok io' (a\<lparr>aws_arrivals := arr\<rparr>)"
    by (simp_all add: aws_stream_def aws_chunks_ok_def)
  have "read_done n ?mem (ws, io, ?a, k) (aws_read_loop fuel n ?mem (ws, io, ?a, k))"
    by (rule aws_read_loop_done) (use assms s(1) in \<open>simp_all add: aws_chunks_ok_def\<close>)
  moreover have "aws_read fuel n (ws, io, a, k) = aws_read_loop fuel n ?mem (ws, io, ?a, k)"
    using assms(4,7) by (simp add: aws_read_def Let_def)
  ultimately show ?thesis
    using tm unfolding read_done_def prod.case s by simp
qed

text \<open>Reading a payload: when the whole payload of the current frame arrives, cut into chunks in any way
  and spread over any number of polls, \<open>aws_read\<close> succeeds after at most as many rounds as bytes and polls,
  and appends to the buffer of the socket exactly the unmasked payload, keeping what earlier fragments left there,
  in memory that is large enough for the final zero; the rest of the stream is left to be read.\<close>

lemma payload_read_whatever_chunks:
  assumes "ws_st ws = STATE_DATA" "ws_ok ws" "n = unat (ws_length ws)" "n \<le> length (aws_stream io a)" "aws_chunks_ok io a"
    and "\<not> aws_oom a" "n + length (aws_arrivals a) < fuel" "buf_ok (aws_buffer a)"
  shows "\<exists>ws' io' a'. aws_read fuel n (ws, io, a, k) = Inr ((ws', io', a', k), True)
    \<and> ws_length ws' = 0 \<and> aws_stream io' a' = drop n (aws_stream io a)
    \<and> buf_data (aws_buffer a') = buf_data (aws_buffer a) @ xor_cycle (ws_mask ws) (take n (aws_stream io a))
    \<and> buf_ok (aws_buffer a')"
proof (cases "n = 0")
  case True
  with assms(3) have "ws_length ws = 0" by (simp add: unat_eq_0)
  with True assms(8) show ?thesis by (simp add: aws_read_def)
next
  case False
  from aws_read_done [OF assms(1-3) _ assms(4-8), of k] False obtain ws' io' arr mem where
    "aws_read fuel n (ws, io, a, k) =
      Inr ((ws', io', a\<lparr>aws_buffer := \<lparr>buf_mem = Some mem, buf_size = buf_size (aws_buffer a) + n\<rparr>, aws_arrivals := arr\<rparr>, k), True)"
    "ws_length ws' = 0" "aws_stream io' (a\<lparr>aws_arrivals := arr\<rparr>) = drop n (aws_stream io a)"
    "length mem = buf_size (aws_buffer a) + n + 1"
    "take (buf_size (aws_buffer a) + n) mem = buf_data (aws_buffer a) @ xor_cycle (ws_mask ws) (take n (aws_stream io a))"
    by blast
  then show ?thesis by (auto simp: buf_data_def buf_ok_def aws_stream_def)
qed

section \<open>A fragmented message is delivered once, put together\<close>

lemma aws_read_one:
  assumes "ws_st ws = STATE_DATA" "ws_ok ws" "ws_mask ws = replicate 4 0" "length f = unat (ws_length ws)"
    and "io_chunks io = chunk_list (f @ rest)" "\<not> aws_oom a" "buf_ok (aws_buffer a)"
  shows "\<exists>ws' b. aws_read (Suc fuel) (length f) (ws, io, a, k) =
      Inr ((ws', io\<lparr>io_chunks := chunk_list rest\<rparr>, a\<lparr>aws_buffer := b\<rparr>, k), True)
    \<and> ws_st ws' = STATE_DATA \<and> ws_ok ws' \<and> ws_length ws' = 0 \<and> ws_maxlength ws' = ws_maxlength ws
    \<and> buf_ok b \<and> buf_data b = buf_data (aws_buffer a) @ f"
proof (cases "f = []")
  case True
  with assms have "ws_length ws = 0" "io\<lparr>io_chunks := chunk_list rest\<rparr> = io" by (simp_all add: unat_eq_0)
  with True assms show ?thesis
    by (intro exI [of _ ws] exI [of _ "aws_buffer a"]) (simp add: aws_read_def)
next
  case False
  let ?u = "buf_size (aws_buffer a)"
  let ?mem = "aws_realloc (buf_mem (aws_buffer a)) (?u + length f + 1)"
  let ?ws = "ws\<lparr>ws_length := ws_length ws - of_nat (length f), ws_mask := rotate (length f) (ws_mask ws)\<rparr>"
  have ch: "io_chunks io = [f @ rest]" using assms(5) False by (simp add: chunk_list_def)
  have r: "websock_read al (length f) ws io = (?ws, io\<lparr>io_chunks := chunk_list rest\<rparr>, Some f)" for al
    using websock_read_chunk [OF assms(1,2) ch _ _ eq_refl [OF assms(4)], of al] False assms(3)
    by (simp add: chunk_list_def xor_cycle_zero)
  have "?u + length f \<le> length ?mem" by simp
  then obtain mem where m: "memcpy ?mem ?u f = Some mem" unfolding memcpy_def by (simp only: if_True)
  from memcpy_Some [OF m] aws_realloc_data [OF assms(7), of "length f + 1"]
  have m': "length mem = ?u + length f + 1" "take (?u + length f) mem = buf_data (aws_buffer a) @ f"
    by (simp_all add: add.assoc)
  have z: "ws_length ?ws = 0" using assms(4) by simp
  have "aws_read (Suc fuel) (length f) (ws, io, a, k) =
      Inr ((?ws, io\<lparr>io_chunks := chunk_list rest\<rparr>, a\<lparr>aws_buffer := \<lparr>buf_mem = Some mem, buf_size = ?u + length f\<rparr>\<rparr>, k), True)"
    using False assms(6) r m by (simp add: aws_read_def Let_def)
  then show ?thesis
    by (intro exI [of _ ?ws] exI [of _ "\<lparr>buf_mem = Some mem, buf_size = ?u + length f\<rparr>"])
      (use assms(1) z ws_ok_step [OF assms(2)] m' in \<open>simp add: buf_ok_def buf_data_def\<close>)
qed

text \<open>The state that a data frame leads to, when it is accepted.\<close>

definition enter_state :: "afb_ws_itf \<Rightarrow> byte \<Rightarrow> aws_st \<Rightarrow> aws_st option" where
  "enter_state itf op st =
     (if op = OPCODE_CONTINUATION then (if st = waiting then None else Some st)
      else if st \<noteq> waiting then None
      else if op = OPCODE_TEXT then (if itf_on_text itf then Some reading_text else None)
      else if itf_on_binary itf then Some reading_binary else None)"

definition delivery :: "aws_st \<Rightarrow> byte list \<Rightarrow> cli_event" where
  "delivery st bs = (if st = reading_text then Cli_text bs else Cli_binary bs)"

definition st_accepted :: "afb_ws_itf \<Rightarrow> aws_st \<Rightarrow> bool" where
  "st_accepted itf st \<longleftrightarrow> st = reading_text \<and> itf_on_text itf \<or> st = reading_binary \<and> itf_on_binary itf"

lemma aws_event_data:
  assumes "data_opcode op" "enter_state itf op (aws_state a) = Some st"
  shows "aws_event fuel itf cb (data_event op lst n) (ws, io, a, k) = aws_continue fuel itf cb lst (unat n) (ws, io, a\<lparr>aws_state := st\<rparr>, k)"
  using assms by (auto simp: data_opcode_def opcode_defs enter_state_def data_event_def aws_event_def aws_on_text_def
      aws_on_binary_def aws_on_continue_def split: if_splits)

definition frame_bytes :: "byte \<Rightarrow> byte \<Rightarrow> byte list \<Rightarrow> byte list" where
  "frame_bytes lst op f = make_header (first_byte lst 0 0 0 op) (of_nat (length f)) @ f"

text \<open>A connected socket with an unmasked frame at the start of the stream.\<close>

definition at_frame :: "byte list \<Rightarrow> 'k aws_conf \<Rightarrow> bool" where
  "at_frame stream conf \<longleftrightarrow>
     (case conf of (ws, io, a, k) \<Rightarrow>
        ws_st ws = STATE_INIT \<and> ws_ok ws \<and> ws_maxlength ws = 65000
        \<and> io_chunks io = chunk_list stream \<and> io_closed io
        \<and> aws_ws a \<and> aws_failed a = None \<and> \<not> aws_oom a \<and> aws_arrivals a = [] \<and> \<not> aws_eof a \<and> buf_ok (aws_buffer a))"

lemma dispatch_data_frame:
  assumes "at_frame (frame_bytes lst op f @ rest) (ws, io, a, k)" "data_opcode op" "length f \<le> 65000"
    and "enter_state itf op (aws_state a) = Some st"
  shows "\<exists>ws1 io1 ws' b. dispatch_pass n aws_itf ext (aws_handler (Suc fuel) itf cb) (ws, io, a, k) =
      Some (Loop (aws_handler (Suc fuel) itf cb (data_event op (lst AND 1 \<noteq> 0) (of_nat (length f))) (ws1, io1, a, k)))
    \<and> aws_read (Suc fuel) (length f) (ws1, io1, a\<lparr>aws_state := st\<rparr>, k) =
       Inr ((ws', io\<lparr>io_chunks := chunk_list rest\<rparr>, a\<lparr>aws_state := st, aws_buffer := b\<rparr>, k), True)
    \<and> ws_st ws' = STATE_DATA \<and> ws_ok ws' \<and> ws_length ws' = 0 \<and> ws_maxlength ws' = 65000
    \<and> buf_ok b \<and> buf_data b = buf_data (aws_buffer a) @ f"
proof -
  let ?n = "of_nat (length f) :: 64 word"
  have u: "unat ?n = length f" using assms(3) by (simp add: unat_of_nat)
  have c: "ws_st ws = STATE_INIT" "length (ws_header ws) = 14" "ws_maxlength ws = 65000" "\<not> aws_oom a" "buf_ok (aws_buffer a)"
    "io_chunks io = chunk_list (make_header (first_byte lst 0 0 0 op) ?n @ f @ rest)"
    using assms(1) by (simp_all add: at_frame_def ws_ok_def frame_bytes_def)
  have le: "?n \<le> ws_maxlength ws" using assms(3) u c(3) by (simp add: word_le_nat_alt)
  have ne: "\<not> has_extension aws_itf" by (simp add: aws_itf_def)
  let ?io = "io\<lparr>io_chunks := chunk_list (f @ rest)\<rparr>"
  from receive_data_frame [OF assms(2) c(1,2) le ne c(6), of n ext "aws_handler (Suc fuel) itf cb" "(a, k)"]
  obtain ws1 where p: "dispatch_pass n aws_itf ext (aws_handler (Suc fuel) itf cb) (ws, io, a, k) =
      Some (Loop (aws_handler (Suc fuel) itf cb (data_event op (lst AND 1 \<noteq> 0) ?n) (ws1, ?io, a, k)))"
    "ws_st ws1 = STATE_DATA" "ws_length ws1 = ?n" "ws_mask ws1 = replicate 4 0" "ws_maxlength ws1 = ws_maxlength ws" "length (ws_header ws1) = 14"
    by blast
  have ok1: "ws_ok ws1" using p by (simp add: ws_ok_def)
  have "length f = unat (ws_length ws1)" using p(3) u by simp
  from aws_read_one [OF p(2) ok1 p(4) this, of ?io rest "a\<lparr>aws_state := st\<rparr>" fuel k] c(4,5)
  obtain ws' b where "aws_read (Suc fuel) (length f) (ws1, ?io, a\<lparr>aws_state := st\<rparr>, k) =
      Inr ((ws', io\<lparr>io_chunks := chunk_list rest\<rparr>, a\<lparr>aws_state := st, aws_buffer := b\<rparr>, k), True)"
    "ws_st ws' = STATE_DATA" "ws_ok ws'" "ws_length ws' = 0" "ws_maxlength ws' = ws_maxlength ws1"
    "buf_ok b" "buf_data b = buf_data (aws_buffer a) @ f" by auto
  with p(1,5) c(3) show ?thesis by auto
qed

lemma aws_handler_data:
  assumes "data_opcode op" "enter_state itf op (aws_state a) = Some st" "length f \<le> 65000"
    and "aws_read fuel (length f) (ws, io, a\<lparr>aws_state := st\<rparr>, k) = Inr ((ws', io', a', k'), True)"
  shows "aws_handler fuel itf cb (data_event op False (of_nat (length f))) (ws, io, a, k) = (ws', io', a', k')"
    and "aws_state a' = st \<Longrightarrow> st_accepted itf st \<Longrightarrow> buf_ok (aws_buffer a') \<Longrightarrow> buf_data (aws_buffer a') = bs \<Longrightarrow> bs \<noteq> [] \<Longrightarrow>
      aws_handler fuel itf cb (data_event op True (of_nat (length f))) (ws, io, a, k) =
        cb (delivery st bs) (ws', io', a'\<lparr>aws_state := waiting, aws_buffer := no_buf\<rparr>, k')"
proof -
  have u: "unat (of_nat (length f) :: 64 word) = length f" using assms(3) by (simp add: unat_of_nat)
  note e = aws_event_data [OF assms(1,2), of fuel cb _ "of_nat (length f)" ws io k, unfolded u]
  show "aws_handler fuel itf cb (data_event op False (of_nat (length f))) (ws, io, a, k) = (ws', io', a', k')"
    using assms(4) by (simp add: aws_handler_def e aws_continue_def)
  assume h: "aws_state a' = st" "st_accepted itf st" "buf_ok (aws_buffer a')" "buf_data (aws_buffer a') = bs" "bs \<noteq> []"
  from h(3-5) obtain mem where mem: "buf_mem (aws_buffer a') = Some mem" "buf_size (aws_buffer a') < length mem" "take (buf_size (aws_buffer a')) mem = bs"
    by (auto simp: buf_ok_def buf_data_def split: option.splits)
  show "aws_handler fuel itf cb (data_event op True (of_nat (length f))) (ws, io, a, k) =
      cb (delivery st bs) (ws', io', a'\<lparr>aws_state := waiting, aws_buffer := no_buf\<rparr>, k')"
    using assms(4) h(1,2) mem
    by (auto simp: aws_handler_def e aws_continue_def aws_pick_buffer_def st_accepted_def delivery_def Let_def)
qed

text \<open>The frames of a message, as the sending functions write them: the first with the opcode of the message, the
  others as continuations, the last one marked final.\<close>

fun send_fragments :: "byte \<Rightarrow> byte list list \<Rightarrow> ws_io \<Rightarrow> ws_io" where
  "send_fragments op [] io = io"
| "send_fragments op [f] io = fst (websock_send 1 0 0 0 op f io)"
| "send_fragments op (f # fs) io = send_fragments OPCODE_CONTINUATION fs (fst (websock_send 0 0 0 0 op f io))"

fun wire :: "byte \<Rightarrow> byte list list \<Rightarrow> byte list" where
  "wire op [] = []"
| "wire op [f] = frame_bytes 1 op f"
| "wire op (f # fs) = frame_bytes 0 op f @ wire OPCODE_CONTINUATION fs"

lemma send_fragments_out:
  "\<not> io_wfail io \<Longrightarrow> io_out (send_fragments op fs io) = io_out io @ wire op fs"
  by (induction op fs io rule: send_fragments.induct) (simp_all add: websock_send_out frame_bytes_def)

text \<open>A client whose callbacks do not use the socket.\<close>

definition observing :: "(cli_event \<Rightarrow> 'k \<Rightarrow> 'k) \<Rightarrow> 'k aws_cb" where
  "observing g ev conf = (case conf of (ws, io, a, k) \<Rightarrow> (ws, io, a, g ev k))"

lemma dispatch_after_data:
  assumes "ws_st ws = STATE_DATA" "ws_length ws = 0" "aws_failed a = None" "aws_ws a"
  shows "aws_dispatch (Suc fuel) itf cb (ws, io, a, k) = aws_dispatch fuel itf cb (ws\<lparr>ws_st := STATE_INIT\<rparr>, io, a, k)"
  using assms by (simp add: aws_dispatch.simps dispatch_pass_def)

lemma dispatch_idle:
  assumes "ws_st ws = STATE_INIT" "ws_ok ws" "io_chunks io = []" "io_closed io" "aws_failed a = None"
  shows "\<exists>ws'. aws_dispatch (Suc fuel) itf cb (ws, io, a, k) = Inr (-1, (ws', io, a, k))"
  using assms by (auto simp: aws_dispatch.simps dispatch_pass_def state_start_def read_header_def ws_read.simps)

lemma dispatch_fragments:
  assumes "at_frame (wire op fs) (ws, io, a, k)" "data_opcode op" "\<forall>f \<in> set fs. length f \<le> 65000" "fs \<noteq> []"
    and "enter_state itf op (aws_state a) = Some st" "st_accepted itf st"
    and "buf_data (aws_buffer a) @ concat fs \<noteq> []" "2 * length fs + 1 < fuel"
    and "\<And>ws' io'. cb (delivery st (buf_data (aws_buffer a) @ concat fs)) (ws', io', a\<lparr>aws_state := waiting, aws_buffer := no_buf\<rparr>, k) =
      (ws', io', a\<lparr>aws_state := waiting, aws_buffer := no_buf\<rparr>, k')"
  shows "\<exists>ws' io'. aws_dispatch fuel itf cb (ws, io, a, k) =
      Inr (-1, (ws', io', a\<lparr>aws_state := waiting, aws_buffer := no_buf\<rparr>, k'))"
  using assms
proof (induction op fs arbitrary: ws io a fuel rule: wire.induct)
  case (1 op)
  then show ?case by simp
next
  case (2 op f)
  from "2.prems"(8) obtain n where fuel: "fuel = Suc (Suc (Suc (Suc n)))"
    by (auto simp: less_iff_Suc_add)
  let ?bs = "buf_data (aws_buffer a) @ f"
  have af: "at_frame (frame_bytes 1 op f @ []) (ws, io, a, k)" "length f \<le> 65000" "?bs \<noteq> []" using "2.prems" by simp_all
  from dispatch_data_frame [OF af(1) "2.prems"(2) af(2) "2.prems"(5), of "Suc (Suc (Suc n))" "\<lambda>_. False" "Suc (Suc n)" cb]
  obtain ws1 io1 ws' b where p: "dispatch_pass (Suc (Suc (Suc n))) aws_itf (\<lambda>_. False) (aws_handler (Suc (Suc (Suc n))) itf cb) (ws, io, a, k) =
      Some (Loop (aws_handler (Suc (Suc (Suc n))) itf cb (data_event op (1 AND 1 \<noteq> (0 :: byte)) (of_nat (length f))) (ws1, io1, a, k)))"
    "aws_read (Suc (Suc (Suc n))) (length f) (ws1, io1, a\<lparr>aws_state := st\<rparr>, k) =
       Inr ((ws', io\<lparr>io_chunks := chunk_list []\<rparr>, a\<lparr>aws_state := st, aws_buffer := b\<rparr>, k), True)"
    "ws_st ws' = STATE_DATA" "ws_ok ws'" "ws_length ws' = 0" "buf_ok b" "buf_data b = ?bs" by blast
  let ?a = "a\<lparr>aws_state := waiting, aws_buffer := no_buf\<rparr>" and ?io = "io\<lparr>io_chunks := []\<rparr>"
  have h: "aws_handler (Suc (Suc (Suc n))) itf cb (data_event op True (of_nat (length f))) (ws1, io1, a, k) =
      (ws', ?io, ?a, k')"
    using aws_handler_data(2) [OF "2.prems"(2,5) af(2) p(2), of ?bs] "2.prems"(6) p(6,7) af(3)
    using "2.prems"(9) by (simp add: chunk_list_def)
  have ok: "aws_failed ?a = None" "aws_ws ?a" "io_chunks ?io = []" "io_closed ?io" using "2.prems"(1) by (simp_all add: at_frame_def)
  have "aws_dispatch fuel itf cb (ws, io, a, k) =
      aws_dispatch (Suc (Suc n)) itf cb (ws'\<lparr>ws_st := STATE_INIT\<rparr>, ?io, ?a, k')"
    unfolding fuel using p(1) h ok dispatch_after_data [OF p(3,5) ok(1,2)] by (simp add: aws_dispatch.simps(2) [of "Suc (Suc (Suc n))"])
  moreover have "\<exists>ws''. aws_dispatch (Suc (Suc n)) itf cb (ws'\<lparr>ws_st := STATE_INIT\<rparr>, ?io, ?a, k') =
      Inr (-1, (ws'', ?io, ?a, k'))"
    by (rule dispatch_idle) (use ok ws_ok_init [OF p(4)] in simp_all)
  ultimately show ?case by auto
next
  case (3 op f f' fs)
  let ?fs = "f' # fs"
  from "3.prems"(8) obtain n where fuel: "fuel = Suc (Suc (Suc n))" "2 * length ?fs + 1 < Suc n"
    by (auto simp: less_iff_Suc_add)
  have af: "at_frame (frame_bytes 0 op f @ wire OPCODE_CONTINUATION ?fs) (ws, io, a, k)" "length f \<le> 65000" using "3.prems" by simp_all
  from dispatch_data_frame [OF af(1) "3.prems"(2) af(2) "3.prems"(5), of "Suc (Suc n)" "\<lambda>_. False" "Suc n" cb]
  obtain ws1 io1 ws' b where p: "dispatch_pass (Suc (Suc n)) aws_itf (\<lambda>_. False) (aws_handler (Suc (Suc n)) itf cb) (ws, io, a, k) =
      Some (Loop (aws_handler (Suc (Suc n)) itf cb (data_event op (0 AND 1 \<noteq> (0 :: byte)) (of_nat (length f))) (ws1, io1, a, k)))"
    "aws_read (Suc (Suc n)) (length f) (ws1, io1, a\<lparr>aws_state := st\<rparr>, k) =
       Inr ((ws', io\<lparr>io_chunks := chunk_list (wire OPCODE_CONTINUATION ?fs)\<rparr>, a\<lparr>aws_state := st, aws_buffer := b\<rparr>, k), True)"
    "ws_st ws' = STATE_DATA" "ws_ok ws'" "ws_length ws' = 0" "buf_ok b" "buf_data b = buf_data (aws_buffer a) @ f" "ws_maxlength ws' = 65000"
    by blast
  let ?a = "a\<lparr>aws_state := st, aws_buffer := b\<rparr>" and ?io = "io\<lparr>io_chunks := chunk_list (wire OPCODE_CONTINUATION ?fs)\<rparr>"
  have h: "aws_handler (Suc (Suc n)) itf cb (data_event op False (of_nat (length f))) (ws1, io1, a, k) = (ws', ?io, ?a, k)"
    by (rule aws_handler_data(1) [OF "3.prems"(2,5) af(2) p(2)])
  have ok: "aws_failed ?a = None" "aws_ws ?a" using "3.prems"(1) by (simp_all add: at_frame_def)
  have "aws_dispatch fuel itf cb (ws, io, a, k) =
      aws_dispatch (Suc n) itf cb (ws'\<lparr>ws_st := STATE_INIT\<rparr>, ?io, ?a, k)"
    unfolding fuel using p(1) h ok dispatch_after_data [OF p(3,5) ok] by (simp add: aws_dispatch.simps(2) [of "Suc (Suc n)"])
  moreover have "\<exists>ws'' io''. aws_dispatch (Suc n) itf cb (ws'\<lparr>ws_st := STATE_INIT\<rparr>, ?io, ?a, k) =
      Inr (-1, (ws'', io'', ?a\<lparr>aws_state := waiting, aws_buffer := no_buf\<rparr>, k'))"
  proof (rule "3.IH")
    show "at_frame (wire OPCODE_CONTINUATION ?fs) (ws'\<lparr>ws_st := STATE_INIT\<rparr>, ?io, ?a, k)"
      using "3.prems"(1) p ws_ok_init [OF p(4)] by (simp add: at_frame_def)
    show "enter_state itf OPCODE_CONTINUATION (aws_state ?a) = Some st"
      using "3.prems"(6) by (auto simp: enter_state_def st_accepted_def)
    show "buf_data (aws_buffer ?a) @ concat ?fs \<noteq> []" using "3.prems"(7) p(7) by simp
    show "cb (delivery st (buf_data (aws_buffer ?a) @ concat ?fs)) (ws', io', ?a\<lparr>aws_state := waiting, aws_buffer := no_buf\<rparr>, k) =
      (ws', io', ?a\<lparr>aws_state := waiting, aws_buffer := no_buf\<rparr>, k')" for ws' io' using "3.prems"(9) p(7) by simp
  qed (use "3.prems" fuel in \<open>simp_all add: data_opcode_def\<close>)
  ultimately show ?case using p(7) by auto
qed

lemma fragments_delivered:
  assumes "afb_ws_create fd True True True [] False = Inr (Some (ws, a))" "\<not> io_wfail out" "io_out out = []"
    and "op = OPCODE_TEXT \<and> itf_on_text itf \<or> op = OPCODE_BINARY \<and> itf_on_binary itf"
    and "\<forall>f \<in> set fs. length f \<le> 65000" "concat fs \<noteq> []" "2 * length fs + 1 < fuel"
    and "io_closed io" "io_chunks io = chunk_list (io_out (send_fragments op fs out))"
  shows "\<exists>ws' io' a'. aws_on_readable fuel itf (observing g) (ws, io, a, k) =
      Inr (ws', io', a', g (if op = OPCODE_TEXT then Cli_text (concat fs) else Cli_binary (concat fs)) k)
    \<and> aws_ws a' \<and> aws_state a' = waiting \<and> aws_buffer a' = no_buf"
proof -
  let ?st = "if op = OPCODE_TEXT then reading_text else reading_binary"
  have a: "ws = websock_create_v13" "aws_ws a" "aws_state a = waiting" "aws_buffer a = no_buf" "aws_failed a = None"
    "aws_arrivals a = []" "\<not> aws_eof a" "\<not> aws_oom a" using assms(1) by (auto simp: afb_ws_create_def split: if_splits)
  have af: "at_frame (wire op fs) (ws, io, a, k)"
    using assms(2,3,8,9) a by (simp add: at_frame_def send_fragments_out ws_ok_def websock_create_v13_def buf_ok_def no_buf_def)
  have op: "data_opcode op" "enter_state itf op (aws_state a) = Some ?st" "st_accepted itf ?st"
    using assms(4) a(3) by (auto simp: data_opcode_def enter_state_def st_accepted_def opcode_defs)
  have bd: "buf_data (aws_buffer a) = []" using a(4) by (simp add: buf_data_def no_buf_def)
  have "fs \<noteq> []" using assms(6) by auto
  from dispatch_fragments [OF af op(1) assms(5) this op(2,3) _ assms(7), of "observing g" "g (delivery ?st (concat fs)) k"] bd assms(6)
  obtain ws' io' where
    "aws_dispatch fuel itf (observing g) (ws, io, a, k) =
      Inr (-1, (ws', io', a\<lparr>aws_state := waiting, aws_buffer := no_buf\<rparr>, g (delivery ?st (concat fs)) k))"
    by (auto simp: observing_def)
  then show ?thesis using a by (simp add: aws_on_readable_def aws_errno_def delivery_def)
qed


definition text_itf :: afb_ws_itf where
  "text_itf = \<lparr>itf_on_close = False, itf_on_text = True, itf_on_binary = False, itf_on_error = False, itf_on_hangup = True\<rparr>"

definition fresh_aws :: afb_ws where
  "fresh_aws = \<lparr>aws_fd = 3, aws_state = waiting, aws_ws = True, aws_evsrc = True, aws_buffer = no_buf,
     aws_arrivals = [], aws_eof = False, aws_oom = False, aws_failed = None, aws_freed = False\<rparr>"

lemma fresh_aws_created: "afb_ws_create 3 True True True [] False = Inr (Some (websock_create_v13, fresh_aws))"
  by (simp add: afb_ws_create_def fresh_aws_def)


section \<open>Memory faults\<close>

definition cb_keeps :: "'k aws_cb \<Rightarrow> bool" where
  "cb_keeps cb \<longleftrightarrow> (\<forall>ev ws io a k. ws_ok ws \<and> buf_ok (aws_buffer a) \<longrightarrow>
     (case cb ev (ws, io, a, k) of (ws', io', a', k') \<Rightarrow> ws_ok ws' \<and> buf_ok (aws_buffer a')))"

definition aws_good :: "'k aws_conf \<Rightarrow> bool" where
  "aws_good conf \<longleftrightarrow> ws_ok (fst conf) \<and> buf_ok (aws_buffer (fst (snd (snd conf))))"

definition good_result :: "aws_fault + 'k aws_conf \<Rightarrow> bool" where
  "good_result r \<longleftrightarrow> (case r of Inl f \<Rightarrow> f \<noteq> Out_of_bounds | Inr conf \<Rightarrow> aws_good conf)"

lemma cb_keepsD:
  assumes "cb_keeps cb" "aws_good conf"
  shows "aws_good (cb ev conf)"
proof -
  obtain ws io a k where c: "conf = (ws, io, a, k)" by (rule prod_cases4)
  have "case cb ev (ws, io, a, k) of (ws', io', a', k') \<Rightarrow> ws_ok ws' \<and> buf_ok (aws_buffer a')"
    using assms unfolding cb_keeps_def c aws_good_def by simp
  then show ?thesis unfolding c aws_good_def by (auto split: prod.splits)
qed

lemma buf_ok_no_buf [simp]: "buf_ok no_buf"
  by (simp add: buf_ok_def no_buf_def)

lemma aws_good_hangup:
  assumes "cb_keeps cb" "aws_good conf"
  shows "aws_good (afb_ws_hangup itf cb conf)"
proof -
  obtain ws io a k where c: "conf = (ws, io, a, k)" by (rule prod_cases4)
  let ?a = "(fst (aws_pick_buffer (a\<lparr>aws_ws := False, aws_evsrc := False\<rparr>)))\<lparr>aws_state := waiting\<rparr>"
  have "aws_good (ws, io, ?a, k)" using assms(2) c by (simp add: aws_good_def aws_pick_buffer_def)
  with cb_keepsD [OF assms(1) this, of Cli_hangup] assms(2) show ?thesis
    by (simp add: c afb_ws_hangup_def aws_disconnect_def Let_def)
qed

lemma aws_read_loop_good:
  assumes "ws_ok ws" "n < 2 ^ 64" "buf_size (aws_buffer a) + n < length mem" "buf_mem (aws_buffer a) = Some mem"
  shows "case aws_read_loop fuel n mem (ws, io, a, k) of Inl f \<Rightarrow> f \<noteq> Out_of_bounds | Inr (conf', ok) \<Rightarrow> aws_good conf'"
  using assms
proof (induction fuel arbitrary: n mem ws io a)
  case (Suc fuel)
  let ?u = "buf_size (aws_buffer a)"
  obtain ws' io' r where r: "websock_read ((4 - ?u mod 4) mod 4) n ws io = (ws', io', r)" by (metis prod_cases3)
  have wok: "ws_ok ws'" by (rule websock_read_keeps [OF Suc.prems(1) r])
  show ?case
  proof (cases r)
    case None
    obtain io2 a2 where p: "aws_poll io' a = (io2, a2)" by fastforce
    then have "aws_buffer a2 = aws_buffer a" by (auto simp: aws_poll_def split: list.splits)
    with Suc.IH [of ws' n a2 mem io2] wok Suc.prems None r p show ?thesis
      by (auto simp: Let_def aws_good_def buf_ok_def)
  next
    case (Some bs)
    have l: "length bs \<le> n" using websock_read_spec [OF Suc.prems(1,2) r [unfolded Some]] by simp
    then have "?u + length bs \<le> length mem" using Suc.prems(3) by simp
    then obtain mem' where m: "memcpy mem ?u bs = Some mem'" unfolding memcpy_def by (simp only: if_True)
    let ?a = "a\<lparr>aws_buffer := \<lparr>buf_mem = Some mem', buf_size = ?u + length bs\<rparr>\<rparr>"
    from memcpy_Some [OF m] have lm: "length mem' = length mem" by simp
    have "case aws_read_loop fuel (n - length bs) mem' (ws', io', ?a, k) of Inl f \<Rightarrow> f \<noteq> Out_of_bounds | Inr (conf', ok) \<Rightarrow> aws_good conf'"
      by (rule Suc.IH) (use wok Suc.prems l lm in simp_all)
    with wok r Some m lm l Suc.prems(3) show ?thesis by (auto simp: Let_def aws_good_def buf_ok_def)
  qed
qed simp

lemma aws_read_good:
  assumes "aws_good conf" "n < 2 ^ 64"
  shows "case aws_read fuel n conf of Inl f \<Rightarrow> f \<noteq> Out_of_bounds | Inr (conf', ok) \<Rightarrow> aws_good conf'"
proof -
  obtain ws io a k where c: "conf = (ws, io, a, k)" by (metis prod_cases4)
  let ?mem = "aws_realloc (buf_mem (aws_buffer a)) (buf_size (aws_buffer a) + n + 1)"
  from aws_read_loop_good [of ws n "a\<lparr>aws_buffer := (aws_buffer a)\<lparr>buf_mem := Some ?mem\<rparr>\<rparr>" ?mem fuel io k] assms c
  show ?thesis by (auto simp: aws_read_def Let_def aws_good_def)
qed

lemma aws_good_reset: "aws_good (ws, io, a, k) \<Longrightarrow> aws_good (ws, io, aws_reset a, k)"
  by (simp add: aws_good_def aws_reset_def aws_pick_buffer_def)

lemma aws_good_on_error: "cb_keeps cb \<Longrightarrow> aws_good conf \<Longrightarrow> aws_good (aws_on_error itf cb code data conf)"
  by (simp add: aws_on_error_def cb_keepsD aws_good_hangup)

lemma aws_good_io: "aws_good (ws, io, a, k) \<Longrightarrow> aws_good (ws, io', a, k)"
  by (simp add: aws_good_def)

lemma drop_error_good:
  assumes "cb_keeps cb" "aws_good conf"
  shows "good_result (aws_drop_error fuel itf cb code conf)"
proof -
  obtain ws io a k where c: "conf = (ws, io, a, k)" by (rule prod_cases4)
  show ?thesis
  proof (cases "websock_drop fuel ws io")
    case None
    with c show ?thesis by (simp add: aws_drop_error_def good_result_def)
  next
    case (Some r)
    obtain ws' io' rc where r: "r = (ws', io', rc)" by (rule prod_cases3)
    have "ws_ok ws'" using websock_drop_ok [OF Some [unfolded r]] assms(2) c by (simp add: aws_good_def)
    then have "aws_good (ws', io2, aws_reset a, k)" for io2 using assms(2) c by (simp add: aws_good_def aws_reset_def aws_pick_buffer_def)
    then have "aws_good (aws_on_error itf cb code [] (ws', io2, aws_reset a, k))" for io2 using assms(1) by (rule aws_good_on_error [rotated])
    then show ?thesis
      by (auto simp: c aws_drop_error_def good_result_def Some r websock_error_def aws_error_handler_def aws_itf_def split: prod.splits)
  qed
qed

lemma continue_good:
  assumes "cb_keeps cb" "aws_good conf" "n < 2 ^ 64"
  shows "good_result (aws_continue fuel itf cb lst n conf)"
proof (cases "aws_read fuel n conf")
  case (Inl f)
  with aws_read_good [OF assms(2,3), of fuel] show ?thesis by (simp add: aws_continue_def good_result_def)
next
  case (Inr r)
  obtain ws io a k ok where r: "r = ((ws, io, a, k), ok)" by (metis prod.exhaust)
  have g: "aws_good (ws, io, a, k)" using aws_read_good [OF assms(2,3), of fuel] Inr r by simp
  then have g2: "aws_good (ws, io, a\<lparr>aws_state := waiting, aws_buffer := no_buf\<rparr>, k)" by (simp add: aws_good_def)
  have b: "buf_ok (aws_buffer a)" using g by (simp add: aws_good_def)
  show ?thesis
  proof (cases ok)
    case False
    with Inr r drop_error_good [OF assms(1) g] show ?thesis by (simp add: aws_continue_def)
  next
    case True
    with Inr r g b cb_keepsD [OF assms(1) g2] show ?thesis
      by (auto simp: aws_continue_def aws_pick_buffer_def good_result_def buf_ok_def Let_def split: option.splits)
  qed
qed

lemma on_close_good:
  assumes "cb_keeps cb" "aws_good conf" "n < 2 ^ 64"
  shows "good_result (aws_on_close fuel itf cb code n conf)"
proof -
  obtain ws io a k where c: "conf = (ws, io, a, k)" by (rule prod_cases4)
  have g: "aws_good (ws, io, aws_reset a, k)" using assms(2) c by (simp add: aws_good_reset)
  show ?thesis
  proof (cases "itf_on_close itf")
    case False
    have "ws_ok ws' \<Longrightarrow> aws_good (afb_ws_hangup itf cb (ws', io', aws_reset a, k))" for ws' io'
      by (rule aws_good_hangup [OF assms(1)]) (use g in \<open>simp add: aws_good_def\<close>)
    moreover have "ws_ok ws" using g by (simp add: aws_good_def)
    ultimately show ?thesis using False c
      by (auto simp: aws_on_close_def Let_def good_result_def split: option.splits dest: websock_drop_ok)
  next
    case True
    show ?thesis
    proof (cases "aws_read fuel n (ws, io, aws_reset a, k)")
      case (Inl f)
      with True c aws_read_good [OF g assms(3), of fuel] show ?thesis by (simp add: aws_on_close_def Let_def good_result_def)
    next
      case (Inr r)
      obtain ws' io' a' k' ok where r: "r = ((ws', io', a', k'), ok)" by (metis prod.exhaust)
      have g1: "aws_good (ws', io', a', k')" using aws_read_good [OF g assms(3), of fuel] Inr r by simp
      then have g2: "aws_good (ws', io', a'\<lparr>aws_buffer := no_buf\<rparr>, k')" by (simp add: aws_good_def)
      show ?thesis
        using True c Inr r cb_keepsD [OF assms(1) g1, of "Cli_close code None"]
          cb_keepsD [OF assms(1) g2, of "Cli_close code (buf_bytes (aws_buffer a'))"]
        by (cases ok) (simp_all add: aws_on_close_def Let_def good_result_def aws_pick_buffer_def)
    qed
  qed
qed



text \<open>An empty text message crashes the receiver: on a socket that waits, with no buffer, a final text frame
  without payload reaches the write of the final zero with a null buffer.\<close>

lemma empty_message_dereferences_null:
  assumes "at_frame (frame_bytes 1 OPCODE_TEXT [] @ rest) (ws, io, a, k)" "aws_state a = waiting" "aws_buffer a = no_buf" "itf_on_text itf"
  shows "aws_on_readable (Suc (Suc fuel)) itf cb (ws, io, a, k) = Inl Null_deref"
proof -
  have op: "data_opcode OPCODE_TEXT" "enter_state itf OPCODE_TEXT (aws_state a) = Some reading_text"
    using assms(2,4) by (simp_all add: data_opcode_def enter_state_def opcode_defs)
  from dispatch_data_frame [OF assms(1) op(1) _ op(2), of "Suc fuel" "\<lambda>_. False" fuel cb] obtain ws1 io1 where
    p: "dispatch_pass (Suc fuel) aws_itf (\<lambda>_. False) (aws_handler (Suc fuel) itf cb) (ws, io, a, k) =
      Some (Loop (aws_handler (Suc fuel) itf cb (data_event OPCODE_TEXT True 0) (ws1, io1, a, k)))" by auto
  have "aws_event (Suc fuel) itf cb (data_event OPCODE_TEXT True 0) (ws1, io1, a, k) = Inl Null_deref"
    using assms(3) by (simp add: aws_event_data [OF op] aws_continue_def aws_read_def aws_pick_buffer_def no_buf_def)
  then have "aws_handler (Suc fuel) itf cb (data_event OPCODE_TEXT True 0) (ws1, io1, a, k) = (ws1, io1, a\<lparr>aws_failed := Some Null_deref\<rparr>, k)"
    by (simp add: aws_handler_def)
  with p assms(1) show ?thesis by (simp add: aws_on_readable_def aws_dispatch.simps at_frame_def)
qed

lemma drop_error_hangs_up:
  assumes "ws_st ws = STATE_DATA" "ws_ok ws" "io_closed io" "unat (ws_length ws) + length (io_chunks io) < fuel" "aws_ws a" "\<not> itf_on_error itf"
  shows "\<exists>ws' io'. aws_drop_error fuel itf (observing g) code (ws, io, a, k) =
    Inr (ws', io', (aws_reset a)\<lparr>aws_ws := False, aws_evsrc := False\<rparr>, if itf_on_hangup itf then g Cli_hangup k else k)"
proof -
  from websock_drop_total [OF assms(1,2) _ assms(4)] assms(3) obtain ws' io' rc where d: "websock_drop fuel ws io = Some (ws', io', rc)" by blast
  obtain io2 rc2 where cl: "websock_close code [] io' = (io2, rc2)" by fastforce
  show ?thesis
    using d cl assms(5,6)
    by (auto simp: aws_drop_error_def websock_error_def aws_itf_def aws_error_handler_def aws_on_error_def afb_ws_hangup_def
        aws_disconnect_def aws_reset_def aws_pick_buffer_def observing_def Let_def)
qed

text \<open>A message that the client does not accept is a use of freed memory: when the client has neither a
  callback for binary messages nor one for errors, which is the case of the JSON protocol of the binder, a
  binary frame makes the socket hang up inside of the dispatch loop, and the loop goes on with the
  destroyed \<open>websock\<close>.\<close>

lemma refused_message_uses_freed_socket:
  assumes "at_frame (frame_bytes lst OPCODE_BINARY f @ rest) (ws, io, a, k)" "aws_state a = waiting" "length f \<le> 65000"
    and "\<not> itf_on_binary itf" "\<not> itf_on_error itf" "length f + 2 < fuel"
  shows "aws_on_readable fuel itf (observing g) (ws, io, a, k) = Inl Use_after_free"
proof -
  from assms(6) obtain n where n: "fuel = Suc n" "length f + 1 < n" by (cases fuel) auto
  let ?n = "of_nat (length f) :: 64 word" and ?cb = "observing g" and ?op = OPCODE_BINARY
  have u: "unat ?n = length f" using assms(3) by (simp add: unat_of_nat)
  have op: "data_opcode ?op" by (simp add: data_opcode_def)
  have c: "ws_st ws = STATE_INIT" "length (ws_header ws) = 14" "ws_maxlength ws = 65000" "io_closed io" "aws_ws a" "aws_failed a = None"
    "io_chunks io = chunk_list (make_header (first_byte lst 0 0 0 ?op) ?n @ f @ rest)"
    using assms(1) by (simp_all add: at_frame_def ws_ok_def frame_bytes_def)
  have le: "?n \<le> ws_maxlength ws" using assms(3) u c(3) by (simp add: word_le_nat_alt)
  have ne: "\<not> has_extension aws_itf" by (simp add: aws_itf_def)
  let ?io = "io\<lparr>io_chunks := chunk_list (f @ rest)\<rparr>"
  from receive_data_frame [OF op c(1,2) le ne c(7), of n "\<lambda>_. False" "aws_handler n itf ?cb" "(a, k)"]
  obtain ws1 where p: "dispatch_pass n aws_itf (\<lambda>_. False) (aws_handler n itf ?cb) (ws, io, a, k) =
      Some (Loop (aws_handler n itf ?cb (data_event ?op (lst AND 1 \<noteq> 0) ?n) (ws1, ?io, a, k)))"
    "ws_st ws1 = STATE_DATA" "ws_length ws1 = ?n" "ws_mask ws1 = replicate 4 0" "length (ws_header ws1) = 14" by blast
  have ok1: "ws_ok ws1" using p by (simp add: ws_ok_def)
  have "unat (ws_length ws1) + length (io_chunks ?io) < n" using u n(2) p(3) by (simp add: chunk_list_def)
  from drop_error_hangs_up [OF p(2) ok1 _ this c(5) assms(5), of g WEBSOCKET_CODE_CANT_ACCEPT k] c(4) obtain ws' io' where
    d: "aws_drop_error n itf ?cb WEBSOCKET_CODE_CANT_ACCEPT (ws1, ?io, a, k) =
      Inr (ws', io', (aws_reset a)\<lparr>aws_ws := False, aws_evsrc := False\<rparr>, if itf_on_hangup itf then g Cli_hangup k else k)" by auto
  then have "aws_handler n itf ?cb (data_event ?op (lst AND 1 \<noteq> 0) ?n) (ws1, ?io, a, k) =
      (ws', io', (aws_reset a)\<lparr>aws_ws := False, aws_evsrc := False\<rparr>, if itf_on_hangup itf then g Cli_hangup k else k)"
    using assms(2,4) by (simp add: aws_handler_def aws_event_def data_event_def opcode_defs aws_on_binary_def)
  with p(1) c(5,6) show ?thesis
    by (simp add: n(1) aws_on_readable_def aws_dispatch.simps aws_reset_def aws_pick_buffer_def)
qed

section \<open>One message, with any client\<close>

lemma collect_texts_all: "length ios + length args \<le> 32 \<Longrightarrow> collect_texts ios args = Some (ios @ args)"
  by (induction ios args rule: collect_texts.induct) auto

lemma afb_ws_texts_out:
  assumes "aws_ws a" "\<not> io_wfail io" "length args \<le> 31"
  shows "afb_ws_texts args (ws, io, a, k) = ((ws, io\<lparr>io_out := io_out io @ frame_bytes 1 OPCODE_TEXT (concat args)\<rparr>, a, k), Inr 0)"
  using assms by (simp add: afb_ws_texts_def collect_texts_all websock_text_v_def websock_send_v_out frame_bytes_def)

lemma message_delivered:
  assumes "at_frame (frame_bytes 1 OPCODE_TEXT f) (ws, io, a, k)" "aws_state a = waiting" "aws_buffer a = no_buf" "itf_on_text itf"
    and "length f \<le> 65000" "f \<noteq> []" "3 < fuel" "\<And>ws' io'. cb (Cli_text f) (ws', io', a, k) = (ws', io', a, k')"
  shows "\<exists>ws' io'. aws_on_readable fuel itf cb (ws, io, a, k) = Inr (ws', io', a, k')"
proof -
  have a: "a\<lparr>aws_state := waiting, aws_buffer := no_buf\<rparr> = a" using assms(2,3) by simp
  have op: "data_opcode OPCODE_TEXT" "enter_state itf OPCODE_TEXT (aws_state a) = Some reading_text" "st_accepted itf reading_text"
    using assms(2,4) by (simp_all add: data_opcode_def enter_state_def st_accepted_def opcode_defs)
  have "at_frame (wire OPCODE_TEXT [f]) (ws, io, a, k)" using assms(1) by simp
  moreover have bd: "buf_data (aws_buffer a) = []" using assms(3) by (simp add: buf_data_def no_buf_def)
  ultimately obtain ws' io' where "aws_dispatch fuel itf cb (ws, io, a, k) = Inr (-1, (ws', io', a, k'))"
    using dispatch_fragments [OF _ op(1) _ _ op(2,3), of "[f]" ws io k fuel cb k', unfolded a bd] assms(5-8)
    by (auto simp: delivery_def)
  then show ?thesis using assms(1) by (simp add: aws_on_readable_def aws_errno_def at_frame_def)
qed

end
