(* ===== verification/Wsj1.thy ===== *)
theory Wsj1
  imports Ws C_Strings
begin

text \<open>
  The JSON protocol of the binder over a WebSocket, \<^verbatim>\<open>src/src/afb-wsj1.c\<close>: calls, replies and events as JSON arrays.

  A received text is a list of characters with its final zero; the strings of a message are offsets into it, because
  the code cuts the text in place by writing zeros. The messages are a heap of records that the code links in
  both directions; the pending calls are the list that the code links in one direction. The state of the layer
  is the client state of the socket of \<open>Ws\<close>; the callbacks of its own client are a parameter. The JSON library is a
  parameter too: \<open>parse\<close>, \<open>new_string\<close> and \<open>to_str\<close>.
\<close>

section \<open>Bytes and characters\<close>

definition bytes_of :: "string \<Rightarrow> byte list" where
  "bytes_of s = map (\<lambda>c. of_nat (of_char c)) s"

definition chars_of :: "byte list \<Rightarrow> string" where
  "chars_of bs = map (\<lambda>b. char_of (unat b)) bs"

lemma chars_of_bytes_of [simp]: "chars_of (bytes_of s) = s"
proof -
  have "unat (of_nat (of_char c) :: byte) = of_char c" for c :: char
    using byte_of_less [of c] by (simp add: unat_of_nat byte_of_def)
  then show ?thesis by (simp add: chars_of_def bytes_of_def comp_def)
qed

lemma bytes_of_append: "bytes_of (s @ t) = bytes_of s @ bytes_of t"
  by (simp add: bytes_of_def)

lemma bytes_of_concat: "concat (map bytes_of ss) = bytes_of (concat ss)"
  by (induction ss) (simp_all add: bytes_of_def)

section \<open>State\<close>

definition CALL :: nat where "CALL = 2"
definition RETOK :: nat where "RETOK = 3"
definition RETERR :: nat where "RETERR = 4"
definition EVENT :: nat where "EVENT = 5"

text \<open>The callback and its closure are one number.\<close>

record wsj1_call =
  call_callback :: nat
  call_id :: string

record 'j afb_wsj1_msg =
  m_refcount :: int
  m_next :: addr
  m_previous :: addr
  m_text :: string
  m_code :: nat
  m_id :: "nat option"
  m_api :: "nat option"
  m_verb :: "nat option"
  m_event :: "nat option"
  m_object_s :: "nat option"
  m_object_s_length :: nat
  m_token :: "nat option"
  m_object_j :: "'j option"

record 'j afb_wsj1 =
  w_refcount :: int
  w_genid :: int
  w_messages :: addr
  w_heap :: "addr \<Rightarrow> 'j afb_wsj1_msg option"
  w_calls :: "wsj1_call list"
  w_fresh :: addr
  w_oom :: bool
  w_freed :: bool

text \<open>The calls of the client: its callbacks, with the address of the message.\<close>

datatype wsj1_event =
    W_hangup
  | W_call string string addr
  | W_reply nat addr
  | W_event string addr

type_synonym ('j, 'u) wsj1_conf = "('j afb_wsj1 \<times> 'u) aws_conf"
type_synonym ('j, 'u) wsj1_user = "wsj1_event \<Rightarrow> ('j, 'u) wsj1_conf \<Rightarrow> ('j, 'u) wsj1_conf"

definition wsj1_itf :: afb_ws_itf where
  "wsj1_itf = \<lparr>itf_on_close = False, itf_on_text = True, itf_on_binary = False, itf_on_error = False, itf_on_hangup = True\<rparr>"

text \<open>The interface of the client: which of its callbacks are there.\<close>

record afb_wsj1_itf =
  has_on_hangup :: bool
  has_on_call :: bool
  has_on_event :: bool

text \<open>The flags tell which allocations succeed.\<close>

definition afb_wsj1_create :: "int \<Rightarrow> bool \<Rightarrow> bool \<Rightarrow> bool \<Rightarrow> bool \<Rightarrow> bool \<Rightarrow> aws_fault + (websock \<times> afb_ws \<times> 'j afb_wsj1) option" where
  "afb_wsj1_create fd calloc_ok tokener_ok malloc_ok ws_ok' add_io_ok =
     (if fd < 0 then Inl Assert_failed
      else if \<not> calloc_ok then Inr None
      else if \<not> tokener_ok then Inr None
      else case afb_ws_create fd malloc_ok ws_ok' add_io_ok [] False of
        Inl f \<Rightarrow> Inl f
      | Inr None \<Rightarrow> Inr None
      | Inr (Some (ws, a)) \<Rightarrow>
          Inr (Some (ws, a, \<lparr>w_refcount = 1, w_genid = 0, w_messages = NULL, w_heap = Map.empty, w_calls = [], w_fresh = 1, w_oom = False, w_freed = False\<rparr>)))"

definition afb_wsj1_addref :: "'j afb_wsj1 \<Rightarrow> 'j afb_wsj1" where
  "afb_wsj1_addref w = w\<lparr>w_refcount := w_refcount w + 1\<rparr>"

text \<open>Destroying the socket calls no callback.\<close>

definition afb_wsj1_unref :: "('j, 'u) wsj1_conf \<Rightarrow> ('j, 'u) wsj1_conf" where
  "afb_wsj1_unref conf =
     (case conf of (ws, io, a, w, u) \<Rightarrow>
        let w1 = w\<lparr>w_refcount := w_refcount w - 1\<rparr> in
        if w_refcount w1 = 0
        then (case afb_ws_destroy wsj1_itf (\<lambda>_ c. c) (ws, io, a, w1, u) of (ws', io', a', w', u') \<Rightarrow> (ws', io', a', w'\<lparr>w_freed := True\<rparr>, u'))
        else (ws, io, a, w1, u))"

definition wsj1_on_hangup :: "afb_wsj1_itf \<Rightarrow> ('j, 'u) wsj1_user \<Rightarrow> ('j, 'u) wsj1_conf \<Rightarrow> ('j, 'u) wsj1_conf" where
  "wsj1_on_hangup itf user conf = (if has_on_hangup itf then user W_hangup conf else conf)"

section \<open>Pending calls\<close>

fun wsj1_call_search :: "wsj1_call list \<Rightarrow> string \<Rightarrow> bool \<Rightarrow> wsj1_call list \<times> wsj1_call option" where
  "wsj1_call_search [] i rmv = ([], None)"
| "wsj1_call_search (r # rs) i rmv =
     (if call_id r = i then (if rmv then rs else r # rs, Some r)
      else case wsj1_call_search rs i rmv of (rs', res) \<Rightarrow> (r # rs', res))"

definition next_id :: "int \<Rightarrow> string \<times> int" where
  "next_id genid = (let g = (if genid = 0 then 999999 else genid) in (dec (nat g), g - 1))"

text \<open>The loop that looks for an identifier that no pending call has.\<close>

fun gen_id :: "nat \<Rightarrow> wsj1_call list \<Rightarrow> int \<Rightarrow> (string \<times> int) option" where
  "gen_id 0 calls genid = None"
| "gen_id (Suc fuel) calls genid =
     (case next_id genid of (i, g) \<Rightarrow>
        if snd (wsj1_call_search calls i False) \<noteq> None then gen_id fuel calls g else Some (i, g))"

text \<open>The outer \<open>None\<close> is the loop not ending, the inner one a failed allocation.\<close>

definition wsj1_call_create :: "nat \<Rightarrow> 'j afb_wsj1 \<Rightarrow> ('j afb_wsj1 \<times> wsj1_call option) option" where
  "wsj1_call_create on_reply w =
     (if w_oom w then Some (w, None)
      else case gen_id (Suc (length (w_calls w))) (w_calls w) (w_genid w) of
        None \<Rightarrow> None
      | Some (i, g) \<Rightarrow>
          let call = \<lparr>call_callback = on_reply, call_id = i\<rparr>
          in Some (w\<lparr>w_genid := g, w_calls := call # w_calls w\<rparr>, Some call))"

section \<open>Scanning\<close>

text \<open>The characters before the final zero; the end of the list is reading it.\<close>

definition cstr :: "string \<Rightarrow> string" where
  "cstr t = takeWhile (\<lambda>c. c \<noteq> NUL) t"

definition skip_spaces :: "string \<Rightarrow> string" where
  "skip_spaces s = dropWhile (\<lambda>c. c = CHR '' '') s"

text \<open>After the opening quote: what follows the closing one.\<close>

fun scan_string :: "string \<Rightarrow> string option" where
  "scan_string [] = None"
| "scan_string (c # cs) =
     (if c = CHR 0x5C then (case cs of [] \<Rightarrow> None | _ # r \<Rightarrow> scan_string r)
      else if c = CHR 0x22 then Some cs
      else scan_string cs)"

lemma scan_string_shorter: "scan_string s = Some r \<Longrightarrow> length r < length s"
  by (induction s arbitrary: r rule: scan_string.induct) (fastforce split: if_splits list.splits)+

text \<open>One item: up to the comma or bracket that ends it, which is left.\<close>

function scan_item :: "nat \<Rightarrow> string \<Rightarrow> string option" where
  "scan_item aux [] = None"
| "scan_item aux (c # cs) =
     (if aux = 0 \<and> (c = CHR '','' \<or> c = CHR '']'') then Some (c # cs)
      else if c = CHR ''{'' \<or> c = CHR ''['' then scan_item (Suc aux) cs
      else if c = CHR ''}'' \<or> c = CHR '']'' then (if aux = 0 then None else scan_item (aux - 1) cs)
      else if c = CHR 0x22 then (case scan_string cs of None \<Rightarrow> None | Some r \<Rightarrow> scan_item aux r)
      else scan_item aux cs)"
  by pat_completeness auto
termination by (relation "measure (length \<circ> snd)") (auto dest: scan_string_shorter)

fun trim_spaces :: "string \<Rightarrow> string" where
  "trim_spaces s = rev (skip_spaces (rev s))"

text \<open>Offset and length of each item, at most as many as \<open>room\<close>, and what follows, which starts with the bracket.\<close>

fun scan_items :: "nat \<Rightarrow> nat \<Rightarrow> string \<Rightarrow> ((nat \<times> nat) list \<times> string) option" where
  "scan_items 0 whole cs = None"
| "scan_items (Suc room) whole cs =
     (case scan_item 0 cs of
        None \<Rightarrow> None
      | Some r \<Rightarrow>
          let item = (whole - length cs, length (trim_spaces (take (length cs - length r) cs))) in
          if hd r = CHR '']'' then Some ([item], r)
          else map_option (\<lambda>(is, r'). (item # is, r')) (scan_items room whole (skip_spaces (tl r))))"

definition wsj1_msg_scan :: "string \<Rightarrow> (nat \<times> nat) list option" where
  "wsj1_msg_scan text =
     (let s = cstr text in
      case skip_spaces s of
        [] \<Rightarrow> None
      | c # s1 \<Rightarrow>
          if c \<noteq> CHR ''['' then None
          else case (let s2 = skip_spaces s1 in
                     if s2 \<noteq> [] \<and> hd s2 = CHR '']'' then Some ([], s2) else scan_items 10 (length s) s2) of
            None \<Rightarrow> None
          | Some (is, r) \<Rightarrow> if skip_spaces (tl r) = [] then Some is else None)"

section \<open>Receiving\<close>

text \<open>Both cut the text in place and give the offset of the string.\<close>

definition wsj1_msg_parse_extract :: "string \<Rightarrow> nat \<Rightarrow> nat \<Rightarrow> string \<times> nat" where
  "wsj1_msg_parse_extract text off sz = (text[off + sz := NUL], off)"

definition wsj1_msg_parse_string :: "string \<Rightarrow> nat \<Rightarrow> nat \<Rightarrow> string \<times> nat" where
  "wsj1_msg_parse_string text off sz =
     (if sz > 1 \<and> text ! off = CHR 0x22 then wsj1_msg_parse_extract text (off + 1) (sz - 2)
      else wsj1_msg_parse_extract text off sz)"

definition str_at :: "string \<Rightarrow> nat \<Rightarrow> string" where
  "str_at text p = cstr (drop p text)"

definition empty_msg :: "'j afb_wsj1_msg" where
  "empty_msg = \<lparr>m_refcount = 0, m_next = NULL, m_previous = NULL, m_text = [], m_code = 0, m_id = None, m_api = None, m_verb = None,
     m_event = None, m_object_s = None, m_object_s_length = 0, m_token = None, m_object_j = None\<rparr>"

text \<open>What follows the identification of the code: the call that a reply answers is removed from the list even when
  nothing else uses it. \<open>None\<close> is \<open>bad_header\<close>.\<close>

definition parse_call :: "string \<Rightarrow> (nat \<times> nat) list \<Rightarrow> 'j afb_wsj1_msg option" where
  "parse_call text items =
     (let n = length items in
      if n \<noteq> 4 \<and> n \<noteq> 5 then None
      else case wsj1_msg_parse_string text (fst (items ! 1)) (snd (items ! 1)) of (t1, i) \<Rightarrow>
           case wsj1_msg_parse_string t1 (fst (items ! 2)) (snd (items ! 2)) of (t2, ap) \<Rightarrow>
           if CHR ''/'' \<notin> set (str_at t2 ap) then None
           else let v = ap + length (takeWhile (\<lambda>c. c \<noteq> CHR ''/'') (str_at t2 ap)); t3 = t2[v := NUL] in
           case wsj1_msg_parse_extract t3 (fst (items ! 3)) (snd (items ! 3)) of (t4, ob) \<Rightarrow>
           case (if n = 5 then map_prod id Some (wsj1_msg_parse_string t4 (fst (items ! 4)) (snd (items ! 4))) else (t4, None)) of (t5, tok) \<Rightarrow>
           Some (empty_msg\<lparr>m_code := CALL, m_id := Some i, m_api := Some ap, m_verb := Some (v + 1), m_object_s := Some ob,
             m_object_s_length := snd (items ! 3), m_token := tok, m_text := t5\<rparr>))"

definition parse_reply :: "nat \<Rightarrow> string \<Rightarrow> (nat \<times> nat) list \<Rightarrow> wsj1_call list \<Rightarrow> (wsj1_call list \<times> (wsj1_call \<times> 'j afb_wsj1_msg)) option" where
  "parse_reply code text items calls =
     (let n = length items in
      if n \<noteq> 3 \<and> n \<noteq> 4 then None
      else case wsj1_msg_parse_string text (fst (items ! 1)) (snd (items ! 1)) of (t1, i) \<Rightarrow>
           case wsj1_call_search calls (str_at t1 i) True of
             (_, None) \<Rightarrow> None
           | (calls', Some call) \<Rightarrow>
           case wsj1_msg_parse_extract t1 (fst (items ! 2)) (snd (items ! 2)) of (t2, ob) \<Rightarrow>
           case (if n = 5 then map_prod id Some (wsj1_msg_parse_string t2 (fst (items ! 3)) (snd (items ! 3))) else (t2, None)) of (t3, tok) \<Rightarrow>
           Some (calls', call, empty_msg\<lparr>m_code := code, m_id := Some i, m_object_s := Some ob,
             m_object_s_length := snd (items ! 2), m_token := tok, m_text := t3\<rparr>))"

definition parse_event :: "string \<Rightarrow> (nat \<times> nat) list \<Rightarrow> 'j afb_wsj1_msg option" where
  "parse_event text items =
     (if length items \<noteq> 3 then None
      else case wsj1_msg_parse_string text (fst (items ! 1)) (snd (items ! 1)) of (t1, ev) \<Rightarrow>
           case wsj1_msg_parse_extract t1 (fst (items ! 2)) (snd (items ! 2)) of (t2, ob) \<Rightarrow>
           Some (empty_msg\<lparr>m_code := EVENT, m_event := Some ev, m_object_s := Some ob, m_object_s_length := snd (items ! 2), m_text := t2\<rparr>))"

text \<open>The code of a message: the outer \<open>None\<close> is reading an item that was not scanned.\<close>

definition scan_code :: "string \<Rightarrow> (nat \<times> nat) list \<Rightarrow> nat option option" where
  "scan_code text items =
     (if items = [] then None
      else if snd (items ! 0) \<noteq> 1 then Some None
      else let c = text ! fst (items ! 0) in
        Some (if c = CHR ''2'' then Some CALL else if c = CHR ''3'' then Some RETOK
              else if c = CHR ''4'' then Some RETERR else if c = CHR ''5'' then Some EVENT else None))"

text \<open>What the scanned text asks for, with the calls that are still pending.\<close>

datatype 'j wsj1_parsed = Bad_header | Uninitialised | Parsed "'j afb_wsj1_msg" "wsj1_call option"

definition parse_msg :: "string \<Rightarrow> wsj1_call list \<Rightarrow> wsj1_call list \<times> 'j wsj1_parsed" where
  "parse_msg text calls =
     (case wsj1_msg_scan text of
        None \<Rightarrow> (calls, Bad_header)
      | Some items \<Rightarrow>
          (case scan_code text items of
             None \<Rightarrow> (calls, Uninitialised)
           | Some None \<Rightarrow> (calls, Bad_header)
           | Some (Some code) \<Rightarrow>
               if code = CALL then (calls, case parse_call text items of None \<Rightarrow> Bad_header | Some m \<Rightarrow> Parsed m None)
               else if code = EVENT then (calls, case parse_event text items of None \<Rightarrow> Bad_header | Some m \<Rightarrow> Parsed m None)
               else (case parse_reply code text items calls of
                       None \<Rightarrow> (calls, Bad_header)
                     | Some (calls', call, m) \<Rightarrow> (calls', Parsed m (Some call)))))"

text \<open>Recording a message at a free address.\<close>

definition link_msg :: "addr \<Rightarrow> 'j afb_wsj1_msg \<Rightarrow> 'j afb_wsj1 \<Rightarrow> 'j afb_wsj1 option" where
  "link_msg p m w =
     (let m1 = m\<lparr>m_refcount := 1, m_next := w_messages w\<rparr> in
      if w_messages w \<noteq> NULL then
        (case w_heap w (w_messages w) of
           None \<Rightarrow> None
         | Some mn \<Rightarrow> Some (w\<lparr>w_heap := (w_heap w)(w_messages w \<mapsto> mn\<lparr>m_previous := p\<rparr>, p \<mapsto> m1), w_messages := p\<rparr>))
      else Some (w\<lparr>w_heap := (w_heap w)(p \<mapsto> m1), w_messages := p\<rparr>))"

definition unlink_msg :: "addr \<Rightarrow> 'j afb_wsj1_msg \<Rightarrow> 'j afb_wsj1 \<Rightarrow> 'j afb_wsj1 option" where
  "unlink_msg p m w =
     (let h0 = w_heap w;
          h1 = (if m_next m \<noteq> NULL then map_option (\<lambda>mn. h0(m_next m \<mapsto> mn\<lparr>m_previous := m_previous m\<rparr>)) (h0 (m_next m)) else Some h0)
      in case h1 of
           None \<Rightarrow> None
         | Some h \<Rightarrow>
             if m_previous m = NULL then Some (w\<lparr>w_heap := h(p := None), w_messages := m_next m\<rparr>)
             else map_option (\<lambda>mp. w\<lparr>w_heap := (h(m_previous m \<mapsto> mp\<lparr>m_next := m_next m\<rparr>))(p := None)\<rparr>) (h (m_previous m)))"

definition afb_wsj1_msg_addref :: "addr \<Rightarrow> 'j afb_wsj1 \<Rightarrow> 'j afb_wsj1 option" where
  "afb_wsj1_msg_addref p w =
     (if p = NULL then Some w
      else map_option (\<lambda>m. w\<lparr>w_heap := (w_heap w)(p \<mapsto> m\<lparr>m_refcount := m_refcount m + 1\<rparr>)\<rparr>) (w_heap w p))"

definition afb_wsj1_msg_unref :: "addr \<Rightarrow> ('j, 'u) wsj1_conf \<Rightarrow> ('j, 'u) wsj1_conf option" where
  "afb_wsj1_msg_unref p conf =
     (if p = NULL then Some conf
      else case conf of (ws, io, a, w, u) \<Rightarrow>
        (case w_heap w p of
           None \<Rightarrow> None
         | Some m \<Rightarrow>
             let m1 = m\<lparr>m_refcount := m_refcount m - 1\<rparr> in
             if m_refcount m1 = 0
             then map_option (\<lambda>w'. afb_wsj1_unref (ws, io, a, w', u)) (unlink_msg p m1 w)
             else Some (ws, io, a, w\<lparr>w_heap := (w_heap w)(p \<mapsto> m1)\<rparr>, u)))"

text \<open>The message gets an address that was never used. \<open>None\<close> is a fault: a text whose list is empty makes
  the code read an uninitialised item, and a callback that is missing is called all the same.\<close>

definition wsj1_on_text :: "afb_wsj1_itf \<Rightarrow> ('j, 'u) wsj1_user \<Rightarrow> string \<Rightarrow> ('j, 'u) wsj1_conf \<Rightarrow> ('j, 'u) wsj1_conf option" where
  "wsj1_on_text itf user text conf =
     (case conf of (ws, io, a, w, u) \<Rightarrow>
        if w_oom w then Some (fst (afb_ws_close 1008 None conf))
        else case parse_msg (text @ [NUL]) (w_calls w) of
          (calls, Uninitialised) \<Rightarrow> None
        | (calls, Bad_header) \<Rightarrow> Some (fst (afb_ws_close 1008 None conf))
        | (calls, Parsed m call) \<Rightarrow>
            let p = w_fresh w; w1 = (afb_wsj1_addref w)\<lparr>w_calls := calls, w_fresh := p + 1\<rparr> in
            (case link_msg p m w1 of
               None \<Rightarrow> None
             | Some w2 \<Rightarrow>
                 let str = (\<lambda>q. case q of None \<Rightarrow> [] | Some o' \<Rightarrow> str_at (m_text m) o');
                     ev = (case call of Some c \<Rightarrow> W_reply (call_callback c) p
                           | None \<Rightarrow> if m_code m = CALL then W_call (str (m_api m)) (str (m_verb m)) p else W_event (str (m_event m)) p)
                 in if (case ev of W_call _ _ _ \<Rightarrow> has_on_call itf | W_event _ _ \<Rightarrow> has_on_event itf | _ \<Rightarrow> True)
                    then afb_wsj1_msg_unref p (user ev (ws, io, a, w2, u)) else None))"

text \<open>The callbacks given to the socket. A fault of this layer is kept in the socket's state.\<close>

definition wsj1_cb :: "afb_wsj1_itf \<Rightarrow> ('j, 'u) wsj1_user \<Rightarrow> ('j afb_wsj1 \<times> 'u) aws_cb" where
  "wsj1_cb itf user ev conf =
     (case ev of
        Cli_hangup \<Rightarrow> wsj1_on_hangup itf user conf
      | Cli_text bs \<Rightarrow>
          (case wsj1_on_text itf user (chars_of bs) conf of
             Some conf' \<Rightarrow> conf'
           | None \<Rightarrow> (case conf of (ws, io, a, k) \<Rightarrow> (ws, io, a\<lparr>aws_failed := Some Null_deref\<rparr>, k)))
      | _ \<Rightarrow> conf)"

section \<open>Reading a message\<close>

definition afb_wsj1_msg_object_s :: "'j afb_wsj1_msg \<Rightarrow> string option" where
  "afb_wsj1_msg_object_s m = map_option (str_at (m_text m)) (m_object_s m)"

definition afb_wsj1_msg_object_j :: "(string \<Rightarrow> 'j option) \<Rightarrow> (string \<Rightarrow> 'j) \<Rightarrow> 'j afb_wsj1_msg \<Rightarrow> 'j afb_wsj1_msg \<times> 'j option" where
  "afb_wsj1_msg_object_j parse new_string m =
     (case m_object_j m of
        Some obj \<Rightarrow> (m, Some obj)
      | None \<Rightarrow>
          (case m_object_s m of
             None \<Rightarrow> (m, None)
           | Some o' \<Rightarrow>
               let s = take (m_object_s_length m) (drop o' (m_text m));
                   obj = (case parse s of Some j \<Rightarrow> j | None \<Rightarrow> new_string s)
               in (m\<lparr>m_object_j := Some obj\<rparr>, Some obj)))"

definition afb_wsj1_msg_is_call :: "'j afb_wsj1_msg \<Rightarrow> bool" where "afb_wsj1_msg_is_call m = (m_code m = CALL)"
definition afb_wsj1_msg_is_reply :: "'j afb_wsj1_msg \<Rightarrow> bool" where "afb_wsj1_msg_is_reply m = (m_code m = RETOK \<or> m_code m = RETERR)"
definition afb_wsj1_msg_is_reply_ok :: "'j afb_wsj1_msg \<Rightarrow> bool" where "afb_wsj1_msg_is_reply_ok m = (m_code m = RETOK)"
definition afb_wsj1_msg_is_reply_error :: "'j afb_wsj1_msg \<Rightarrow> bool" where "afb_wsj1_msg_is_reply_error m = (m_code m = RETERR)"
definition afb_wsj1_msg_is_event :: "'j afb_wsj1_msg \<Rightarrow> bool" where "afb_wsj1_msg_is_event m = (m_code m = EVENT)"
definition afb_wsj1_msg_api :: "'j afb_wsj1_msg \<Rightarrow> string option" where "afb_wsj1_msg_api m = map_option (str_at (m_text m)) (m_api m)"
definition afb_wsj1_msg_verb :: "'j afb_wsj1_msg \<Rightarrow> string option" where "afb_wsj1_msg_verb m = map_option (str_at (m_text m)) (m_verb m)"
definition afb_wsj1_msg_event :: "'j afb_wsj1_msg \<Rightarrow> string option" where "afb_wsj1_msg_event m = map_option (str_at (m_text m)) (m_event m)"
definition afb_wsj1_msg_token :: "'j afb_wsj1_msg \<Rightarrow> string option" where "afb_wsj1_msg_token m = map_option (str_at (m_text m)) (m_token m)"

section \<open>Sending\<close>

definition afb_wsj1_close :: "16 word \<Rightarrow> string option \<Rightarrow> ('j, 'u) wsj1_conf \<Rightarrow> ('j, 'u) wsj1_conf \<times> (errno + int)" where
  "afb_wsj1_close code text conf = afb_ws_close code (map_option bytes_of text) conf"

definition or_null :: "string option \<Rightarrow> string" where
  "or_null s = (case s of None \<Rightarrow> ''null'' | Some s \<Rightarrow> s)"

definition end_token :: "string option \<Rightarrow> string list" where
  "end_token t = (case t of None \<Rightarrow> ['']''] | Some t \<Rightarrow> ['','' @ [CHR 0x22], t, [CHR 0x22] @ '']''])"

definition isot_texts :: "nat \<Rightarrow> string \<Rightarrow> string option \<Rightarrow> string option \<Rightarrow> string list" where
  "isot_texts i1 s1 o1 t1 =
     [''['', [char_of (48 + i1)], '','' @ [CHR 0x22], s1, [CHR 0x22] @ '','', or_null o1] @ end_token t1"

definition wsj1_send_isot :: "nat \<Rightarrow> string \<Rightarrow> string option \<Rightarrow> string option \<Rightarrow> ('j, 'u) wsj1_conf \<Rightarrow> ('j, 'u) wsj1_conf \<times> (errno + int)" where
  "wsj1_send_isot i1 s1 o1 t1 conf = afb_ws_texts (map bytes_of (isot_texts i1 s1 o1 t1)) conf"

definition issot_texts :: "nat \<Rightarrow> string \<Rightarrow> string \<Rightarrow> string option \<Rightarrow> string option \<Rightarrow> string list" where
  "issot_texts i1 s1 s2 o1 t1 =
     [''['', [char_of (48 + i1)], '','' @ [CHR 0x22], s1, [CHR 0x22] @ '','' @ [CHR 0x22], s2, [CHR 0x22] @ '','', or_null o1] @ end_token t1"

definition wsj1_send_issot :: "nat \<Rightarrow> string \<Rightarrow> string \<Rightarrow> string option \<Rightarrow> string option \<Rightarrow> ('j, 'u) wsj1_conf \<Rightarrow> ('j, 'u) wsj1_conf \<times> (errno + int)" where
  "wsj1_send_issot i1 s1 s2 o1 t1 conf = afb_ws_texts (map bytes_of (issot_texts i1 s1 s2 o1 t1)) conf"

definition afb_wsj1_send_event_s :: "string \<Rightarrow> string option \<Rightarrow> ('j, 'u) wsj1_conf \<Rightarrow> ('j, 'u) wsj1_conf \<times> (errno + int)" where
  "afb_wsj1_send_event_s event obj conf = wsj1_send_isot EVENT event obj None conf"

definition afb_wsj1_send_event_j :: "('j \<Rightarrow> string) \<Rightarrow> string \<Rightarrow> 'j \<Rightarrow> ('j, 'u) wsj1_conf \<Rightarrow> ('j, 'u) wsj1_conf \<times> (errno + int)" where
  "afb_wsj1_send_event_j to_str event obj conf = afb_wsj1_send_event_s event (Some (to_str obj)) conf"

definition is_failure :: "errno + int \<Rightarrow> bool" where
  "is_failure rc = (case rc of Inl _ \<Rightarrow> True | Inr n \<Rightarrow> n < 0)"

text \<open>\<open>None\<close>: no identifier is left.\<close>

definition afb_wsj1_call_s ::
  "string \<Rightarrow> string \<Rightarrow> string option \<Rightarrow> nat \<Rightarrow> ('j, 'u) wsj1_conf \<Rightarrow> (('j, 'u) wsj1_conf \<times> (errno + int)) option" where
  "afb_wsj1_call_s api verb obj on_reply conf =
     (case conf of (ws, io, a, w, u) \<Rightarrow>
        (case wsj1_call_create on_reply w of
           None \<Rightarrow> None
         | Some (w', None) \<Rightarrow> Some ((ws, io, a, w', u), Inl ENOMEM)
         | Some (w', Some call) \<Rightarrow>
             (case wsj1_send_issot CALL (call_id call) (api @ ''/'' @ verb) obj None (ws, io, a, w', u) of
                ((ws2, io2, a2, w2, u2), rc) \<Rightarrow>
                  Some (if is_failure rc
                        then ((ws2, io2, a2, w2\<lparr>w_calls := fst (wsj1_call_search (w_calls w2) (call_id call) True)\<rparr>, u2), rc)
                        else ((ws2, io2, a2, w2, u2), rc)))))"

definition afb_wsj1_call_j ::
  "('j \<Rightarrow> string) \<Rightarrow> string \<Rightarrow> string \<Rightarrow> 'j \<Rightarrow> nat \<Rightarrow> ('j, 'u) wsj1_conf \<Rightarrow> (('j, 'u) wsj1_conf \<times> (errno + int)) option" where
  "afb_wsj1_call_j to_str api verb obj on_reply conf = afb_wsj1_call_s api verb (Some (to_str obj)) on_reply conf"

text \<open>\<open>None\<close>: the message is not in memory.\<close>

definition afb_wsj1_reply_s :: "addr \<Rightarrow> string option \<Rightarrow> string option \<Rightarrow> bool \<Rightarrow> ('j, 'u) wsj1_conf \<Rightarrow> (('j, 'u) wsj1_conf \<times> (errno + int)) option" where
  "afb_wsj1_reply_s p obj tok iserror conf =
     (case conf of (ws, io, a, w, u) \<Rightarrow>
        (case w_heap w p of
           None \<Rightarrow> None
         | Some m \<Rightarrow>
             (case m_id m of
                None \<Rightarrow> None
              | Some i \<Rightarrow> Some (wsj1_send_isot (if iserror then RETERR else RETOK) (str_at (m_text m) i) obj tok conf))))"

definition afb_wsj1_reply_j :: "('j \<Rightarrow> string) \<Rightarrow> addr \<Rightarrow> 'j \<Rightarrow> string option \<Rightarrow> bool \<Rightarrow> ('j, 'u) wsj1_conf \<Rightarrow> (('j, 'u) wsj1_conf \<times> (errno + int)) option" where
  "afb_wsj1_reply_j to_str p obj tok iserror conf = afb_wsj1_reply_s p (Some (to_str obj)) tok iserror conf"

section \<open>Scanning what was printed\<close>

lemma scan_string_local:
  "scan_string (s @ [c]) = Some r \<Longrightarrow> r \<noteq> [] \<Longrightarrow> \<exists>s'. r = s' @ [c] \<and> (\<forall>t. scan_string (s @ t) = Some (s' @ t))"
proof (induction s rule: scan_string.induct)
  case 1
  then show ?case by (auto split: if_splits)
next
  case (2 x xs)
  show ?case
  proof (cases "x = CHR 0x5C")
    case True
    show ?thesis
    proof (cases xs)
      case Nil
      with True "2.prems" show ?thesis by auto
    next
      case (Cons y ys)
      with True "2.prems" have "scan_string (ys @ [c]) = Some r" by simp
      from "2.IH"(1) [OF True Cons this "2.prems"(2)] True Cons show ?thesis by auto
    qed
  next
    case False
    with "2.prems" "2.IH"(2) show ?thesis by (auto split: if_splits)
  qed
qed

definition item_end :: "char \<Rightarrow> bool" where "item_end c \<longleftrightarrow> c = CHR '','' \<or> c = CHR '']''"

lemma scan_item_end: "scan_item aux [c] = Some [c] \<Longrightarrow> item_end c \<Longrightarrow> aux = 0"
  by (auto simp: item_end_def split: if_splits)

declare scan_item.simps(2) [simp del]

lemma scan_item_cons:
  "scan_item aux (x # xs) =
     (if aux = 0 \<and> item_end x then Some (x # xs)
      else if x = CHR 0x22 then Option.bind (scan_string xs) (scan_item aux)
      else if x = CHR ''{'' \<or> x = CHR ''['' then scan_item (Suc aux) xs
      else if x = CHR ''}'' \<or> x = CHR '']'' then (if aux = 0 then None else scan_item (aux - 1) xs)
      else scan_item aux xs)"
  by (cases "scan_string xs") (auto simp: scan_item.simps(2) item_end_def)

lemma scan_item_local:
  assumes "scan_item aux (s @ [c]) = Some [c]" "item_end c" "item_end d"
  shows "scan_item aux (s @ d # t) = Some (d # t)"
  using assms(1)
proof (induction "length s" arbitrary: s aux rule: less_induct)
  case less
  show ?case
  proof (cases s)
    case Nil
    then have "aux = 0" using less.prems scan_item_end [OF _ assms(2), of aux] by simp
    with Nil assms(3) show ?thesis by (simp add: scan_item_cons)
  next
    case (Cons x xs)
    have IH: "scan_item aux' (xs @ d # t) = Some (d # t)" if "scan_item aux' (xs @ [c]) = Some [c]" for aux'
      by (rule less.hyps) (use Cons that in simp_all)
    have ns: "\<not> (aux = 0 \<and> item_end x)" using less.prems Cons by (auto simp: scan_item_cons)
    show ?thesis
    proof (cases "x = CHR 0x22")
      case True
      then obtain r where r: "scan_string (xs @ [c]) = Some r" "scan_item aux r = Some [c]"
        using less.prems Cons ns by (auto simp: scan_item_cons bind_eq_Some_conv)
      then have "r \<noteq> []" by auto
      from scan_string_local [OF r(1) this] obtain s' where s': "r = s' @ [c]" "\<And>t. scan_string (xs @ t) = Some (s' @ t)" by blast
      have "length s' < length s" using scan_string_shorter [OF r(1)] s'(1) Cons by simp
      from less.hyps [OF this] r(2) s'(1) have "scan_item aux (s' @ d # t) = Some (d # t)" by simp
      with s'(2) [of "d # t"] True Cons ns show ?thesis by (simp add: scan_item_cons)
    next
      case False
      then have "(\<exists>k. \<forall>ys. scan_item aux (x # ys) = scan_item k ys) \<or> (\<forall>ys. scan_item aux (x # ys) = None)"
        using ns by (cases "x = CHR ''{'' \<or> x = CHR ''[''"; cases "x = CHR ''}'' \<or> x = CHR '']''"; cases "aux = 0")
          (simp_all only: scan_item_cons if_False if_True simp_thms, (rule disjI1, rule exI, rule allI, rule refl)+)
      with less.prems Cons obtain k where "\<forall>ys. scan_item aux (x # ys) = scan_item k ys" by auto
      with less.prems Cons IH [of k] show ?thesis by simp
    qed
  qed
qed

text \<open>Strings that need no escape, and texts that the scanner takes as one item.\<close>

definition plain :: "string \<Rightarrow> bool" where
  "plain s \<longleftrightarrow> CHR 0x22 \<notin> set s \<and> CHR 0x5C \<notin> set s \<and> NUL \<notin> set s"

definition item_ok :: "string \<Rightarrow> bool" where
  "item_ok s \<longleftrightarrow> s \<noteq> [] \<and> hd s \<noteq> CHR '' '' \<and> last s \<noteq> CHR '' '' \<and> NUL \<notin> set s \<and> hd s \<noteq> CHR '']'' \<and> scan_item 0 (s @ '','') = Some '','' "

definition quoted :: "string \<Rightarrow> string" where
  "quoted s = CHR 0x22 # s @ [CHR 0x22]"

lemma scan_string_plain: "plain s \<Longrightarrow> scan_string (s @ CHR 0x22 # r) = Some r"
  by (induction s) (auto simp: plain_def)

lemma item_ok_quoted: "plain s \<Longrightarrow> item_ok (quoted s)"
  by (auto simp: item_ok_def quoted_def plain_def scan_item_cons item_end_def scan_string_plain [unfolded plain_def] NUL_def)

lemma item_ok_digit: "item_ok [c]" if "c = CHR ''2'' \<or> c = CHR ''3'' \<or> c = CHR ''4'' \<or> c = CHR ''5''"
  using that by (auto simp: item_ok_def scan_item_cons item_end_def NUL_def)

lemma item_ok_scan: "item_ok s \<Longrightarrow> item_end d \<Longrightarrow> scan_item 0 (s @ d # t) = Some (d # t)"
  by (rule scan_item_local [of 0 s "CHR '',''"]) (simp_all add: item_ok_def item_end_def)

fun joinc :: "string list \<Rightarrow> string" where
  "joinc [] = []"
| "joinc [x] = x"
| "joinc (x # xs) = x @ CHR '','' # joinc xs"

fun layout :: "nat \<Rightarrow> string list \<Rightarrow> (nat \<times> nat) list" where
  "layout off [] = []"
| "layout off (x # xs) = (off, length x) # layout (off + length x + 1) xs"

lemma skip_spaces_id: "s \<noteq> [] \<Longrightarrow> hd s \<noteq> CHR '' '' \<Longrightarrow> skip_spaces s = s"
  by (cases s) (auto simp: skip_spaces_def)

lemma trim_spaces_id: "item_ok s \<Longrightarrow> trim_spaces s = s"
  by (simp add: item_ok_def skip_spaces_id hd_rev)

lemma hd_joinc: "xs \<noteq> [] \<Longrightarrow> \<forall>x \<in> set xs. item_ok x \<Longrightarrow> joinc xs \<noteq> [] \<and> hd (joinc xs) \<noteq> CHR '' '' \<and> hd (joinc xs) \<noteq> CHR '']''"
  by (cases xs rule: joinc.cases) (auto simp: item_ok_def)

lemma scan_items_joinc:
  assumes "xs \<noteq> []" "\<forall>x \<in> set xs. item_ok x" "length xs \<le> room" "whole = off + length (joinc xs) + 1"
  shows "scan_items room whole (joinc xs @ '']'') = Some (layout off xs, '']'')"
  using assms
proof (induction xs arbitrary: room off rule: joinc.induct)
  case (2 x)
  then obtain r where r: "room = Suc r" by (cases room) auto
  have ok: "item_ok x" using 2 by simp
  show ?case using 2 r by (simp add: item_ok_scan [OF ok] item_end_def trim_spaces_id [OF ok] del: trim_spaces.simps)
next
  case (3 x y ys)
  then obtain r where r: "room = Suc r" by (cases room) auto
  let ?rest = "joinc (y # ys)"
  have ok: "item_ok x" using 3 by simp
  have s: "scan_item 0 (x @ CHR '','' # ?rest @ '']'') = Some (CHR '','' # ?rest @ '']'')"
    by (rule item_ok_scan [OF ok]) (simp add: item_end_def)
  have "?rest \<noteq> []" "hd ?rest \<noteq> CHR '' ''" using hd_joinc [of "y # ys"] 3 by simp_all
  then have sk: "skip_spaces (?rest @ '']'') = ?rest @ '']''" by (simp add: skip_spaces_id)
  have IH: "scan_items r whole (?rest @ '']'') = Some (layout (off + length x + 1) (y # ys), '']'')"
    by (rule "3.IH") (use "3.prems" r in simp_all)
  show ?case
    unfolding r joinc.simps(3) append_assoc append_Cons scan_items.simps s option.case Let_def
    using sk IH trim_spaces_id [OF ok] "3.prems"(4) by (simp del: trim_spaces.simps joinc.simps add: joinc.simps(3))
qed simp

lemma cstr_append_NUL: "NUL \<notin> set s \<Longrightarrow> cstr (s @ NUL # t) = s"
  by (induction s) (auto simp: cstr_def)

lemma NUL_joinc: "\<forall>x \<in> set xs. item_ok x \<Longrightarrow> NUL \<notin> set (joinc xs)"
  by (induction xs rule: joinc.induct) (auto simp: item_ok_def NUL_def)

lemma wsj1_msg_scan_joinc:
  assumes "xs \<noteq> []" "\<forall>x \<in> set xs. item_ok x" "length xs \<le> 10"
  shows "wsj1_msg_scan (''['' @ joinc xs @ '']'' @ [NUL]) = Some (layout 1 xs)"
proof -
  let ?s = "''['' @ joinc xs @ '']''"
  have "NUL \<notin> set ?s" using NUL_joinc [OF assms(2)] by (simp add: NUL_def)
  from cstr_append_NUL [OF this, of "[]"] have c: "cstr (''['' @ joinc xs @ '']'' @ [NUL]) = ?s" by simp
  have sk: "skip_spaces (joinc xs @ '']'') = joinc xs @ '']''" "skip_spaces ?s = ?s" "hd (joinc xs @ '']'') \<noteq> CHR '']''"
    using hd_joinc [OF assms(1,2)] by (simp_all add: skip_spaces_id)
  have "scan_items 10 (length ?s) (joinc xs @ '']'') = Some (layout 1 xs, '']'')"
    by (rule scan_items_joinc [OF assms]) simp
  with c sk show ?thesis by (simp add: wsj1_msg_scan_def Let_def skip_spaces_def)
qed

section \<open>Parsing what was printed\<close>

lemma parse_extract_at:
  "length pre = off \<Longrightarrow> wsj1_msg_parse_extract (pre @ s @ c # post) off (length s) = (pre @ s @ NUL # post, off)"
  by (auto simp: wsj1_msg_parse_extract_def list_update_append)

lemma parse_string_at:
  assumes "length pre = off"
  shows "wsj1_msg_parse_string (pre @ quoted s @ post) off (length (quoted s)) = (pre @ CHR 0x22 # s @ NUL # post, off + 1)"
  using parse_extract_at [of "pre @ [CHR 0x22]" "off + 1" s "CHR 0x22" post] assms
  by (auto simp: wsj1_msg_parse_string_def quoted_def nth_append)

lemma str_at_at: "length pre = p \<Longrightarrow> NUL \<notin> set s \<Longrightarrow> str_at (pre @ s @ NUL # post) p = s"
  by (auto simp: str_at_def cstr_append_NUL)

lemma isot_joinc:
  "concat (isot_texts i s1 o1 t1) = ''['' @ joinc ([[char_of (48 + i)], quoted s1, or_null o1] @ (case t1 of None \<Rightarrow> [] | Some t \<Rightarrow> [quoted t])) @ '']''"
  by (cases t1) (simp_all add: isot_texts_def end_token_def quoted_def)

lemma issot_joinc:
  "concat (issot_texts i s1 s2 o1 t1) =
     ''['' @ joinc ([[char_of (48 + i)], quoted s1, quoted s2, or_null o1] @ (case t1 of None \<Rightarrow> [] | Some t \<Rightarrow> [quoted t])) @ '']''"
  by (cases t1) (simp_all add: issot_texts_def end_token_def quoted_def)

lemma code_char: "char_of (48 + CALL) = CHR ''2''" "char_of (48 + RETOK) = CHR ''3''" "char_of (48 + RETERR) = CHR ''4''" "char_of (48 + EVENT) = CHR ''5''"
  by (code_simp, code_simp, code_simp, code_simp)

lemmas code_defs = CALL_def RETOK_def RETERR_def EVENT_def

lemma plainD: "plain s \<Longrightarrow> NUL \<notin> set s" by (simp add: plain_def)

lemma plain_tag: "plain api \<Longrightarrow> plain verb \<Longrightarrow> plain (api @ CHR ''/'' # verb)"
  by (auto simp: plain_def NUL_def)

text \<open>The strings of a message.\<close>

definition msg_strings :: "'j afb_wsj1_msg \<Rightarrow> string option \<times> string option \<times> string option \<times> string option \<times> string option \<times> string option" where
  "msg_strings m = (map_option (str_at (m_text m)) (m_id m), afb_wsj1_msg_api m, afb_wsj1_msg_verb m, afb_wsj1_msg_event m,
     afb_wsj1_msg_object_s m, afb_wsj1_msg_token m)"

lemmas msg_getters = msg_strings_def afb_wsj1_msg_api_def afb_wsj1_msg_verb_def afb_wsj1_msg_event_def afb_wsj1_msg_object_s_def afb_wsj1_msg_token_def

lemma parse_call_text:
  assumes "plain i" "plain api" "CHR ''/'' \<notin> set api" "plain verb" "item_ok obj"
  shows "\<exists>m. parse_msg (concat (issot_texts CALL i (api @ ''/'' @ verb) (Some obj) None) @ [NUL]) calls = (calls, Parsed m None)
    \<and> m_code m = CALL \<and> msg_strings m = (Some i, Some api, Some verb, None, Some obj, None)"
proof -
  let ?tag = "api @ CHR ''/'' # verb"
  let ?xs = "[''2'', quoted i, quoted ?tag, obj]"
  let ?t0 = "''['' @ joinc ?xs @ '']'' @ [NUL]"
  have t0: "concat (issot_texts CALL i (api @ ''/'' @ verb) (Some obj) None) @ [NUL] = ?t0"
    unfolding issot_joinc by (simp add: code_char or_null_def)
  have tp: "plain ?tag" by (rule plain_tag [OF assms(2,4)])
  have "wsj1_msg_scan ?t0 = Some (layout 1 ?xs)"
    by (rule wsj1_msg_scan_joinc) (use assms(1,5) tp in \<open>auto simp: item_ok_quoted item_ok_digit\<close>)
  moreover have "layout 1 ?xs = [(1, 1), (3, length (quoted i)), (4 + length (quoted i), length (quoted ?tag)),
      (5 + length (quoted i) + length (quoted ?tag), length obj)]" (is "_ = ?l") by simp
  ultimately have scan: "wsj1_msg_scan ?t0 = Some ?l" by (simp only:)
  have code: "scan_code ?t0 ?l = Some (Some CALL)" by (simp add: scan_code_def)
  let ?r1 = "'','' @ quoted ?tag @ '','' @ obj @ '']'' @ [NUL]"
  let ?t1 = "''[2,'' @ CHR 0x22 # i @ NUL # ?r1"
  have p1: "wsj1_msg_parse_string ?t0 3 (length (quoted i)) = (?t1, 4)"
    using parse_string_at [of "''[2,''" 3 i ?r1] by simp
  let ?pre2 = "''[2,'' @ CHR 0x22 # i @ NUL # '',''" and ?r2 = "'','' @ obj @ '']'' @ [NUL]"
  let ?t2 = "?pre2 @ CHR 0x22 # ?tag @ NUL # ?r2" and ?o2 = "5 + length (quoted i)"
  have p2: "wsj1_msg_parse_string ?t1 (4 + length (quoted i)) (length (quoted ?tag)) = (?t2, ?o2)"
    using parse_string_at [of ?pre2 "4 + length (quoted i)" ?tag ?r2] by (simp add: quoted_def)
  have s2: "str_at ?t2 ?o2 = ?tag"
    using str_at_at [of "?pre2 @ [CHR 0x22]" ?o2 ?tag ?r2] plainD [OF tp] by (simp add: quoted_def)
  have sl: "CHR ''/'' \<in> set ?tag" "takeWhile (\<lambda>c. c \<noteq> CHR ''/'') ?tag = api" using assms(3) by (auto simp: takeWhile_append)
  let ?v = "?o2 + length api" and ?t3 = "?pre2 @ CHR 0x22 # api @ NUL # verb @ NUL # ?r2"
  have v: "?v = length (?pre2 @ CHR 0x22 # api)" by (simp add: quoted_def)
  have p3: "?t2[?v := NUL] = ?t3"
    unfolding v using list_update_length [of "?pre2 @ CHR 0x22 # api" "CHR ''/''" "verb @ NUL # ?r2" NUL] by (simp only: append_assoc append_Cons)
  let ?pre4 = "?pre2 @ CHR 0x22 # api @ NUL # verb @ NUL # '',''" and ?o4 = "5 + length (quoted i) + length (quoted ?tag)"
  let ?t4 = "?pre4 @ obj @ NUL # [NUL]"
  have p4: "wsj1_msg_parse_extract ?t3 ?o4 (length obj) = (?t4, ?o4)"
    using parse_extract_at [of ?pre4 ?o4 obj "CHR '']''" "[NUL]"] by (simp add: quoted_def)
  let ?m = "empty_msg\<lparr>m_code := CALL, m_id := Some 4, m_api := Some ?o2, m_verb := Some (?v + 1), m_object_s := Some ?o4,
     m_object_s_length := length obj, m_token := None, m_text := ?t4\<rparr> :: 'a afb_wsj1_msg"
  have pc: "parse_call ?t0 ?l = Some ?m"
    unfolding parse_call_def Let_def
    using p1 p2 s2 sl p3 p4 by simp
  have "str_at ?t4 4 = i" "str_at ?t4 ?o2 = api" "str_at ?t4 (?v + 1) = verb" "str_at ?t4 ?o4 = obj"
    using str_at_at [of "''[2,'' @ [CHR 0x22]" 4 i] str_at_at [of "?pre2 @ [CHR 0x22]" ?o2 api]
      str_at_at [of "?pre2 @ CHR 0x22 # api @ [NUL]" "?v + 1" verb] str_at_at [of ?pre4 ?o4 obj]
      assms(5) plainD [OF assms(1)] plainD [OF assms(2)] plainD [OF assms(4)]
    by (simp_all add: quoted_def item_ok_def)
  then have "msg_strings ?m = (Some i, Some api, Some verb, None, Some obj, None)" by (simp add: msg_getters empty_msg_def)
  moreover have "parse_msg ?t0 calls = (calls, Parsed ?m None)" using scan code pc by (simp add: parse_msg_def)
  ultimately show ?thesis unfolding t0 by (intro exI [of _ ?m]) simp
qed

text \<open>The texts of replies and of events have the same shape.\<close>

lemma isot_parsed:
  assumes "plain s" "item_ok obj" "\<And>t. tok = Some t \<Longrightarrow> plain t"
    and "d = CHR ''2'' \<or> d = CHR ''3'' \<or> d = CHR ''4'' \<or> d = CHR ''5''" "char_of (48 + code) = d"
  obtains c post where
    "wsj1_msg_scan (concat (isot_texts code s (Some obj) tok) @ [NUL]) =
       Some (layout 1 ([[d], quoted s, obj] @ (case tok of None \<Rightarrow> [] | Some t \<Rightarrow> [quoted t])))"
    "wsj1_msg_parse_string (concat (isot_texts code s (Some obj) tok) @ [NUL]) 3 (length (quoted s)) =
       (CHR ''['' # d # '','' @ CHR 0x22 # s @ NUL # '','' @ obj @ c # post, 4)"
    "wsj1_msg_parse_extract (CHR ''['' # d # '','' @ CHR 0x22 # s @ NUL # '','' @ obj @ c # post) (4 + length (quoted s)) (length obj) =
       (CHR ''['' # d # '','' @ CHR 0x22 # s @ NUL # '','' @ obj @ NUL # post, 4 + length (quoted s))"
    "str_at (CHR ''['' # d # '','' @ CHR 0x22 # s @ NUL # '','' @ obj @ c # post) 4 = s"
    "str_at (CHR ''['' # d # '','' @ CHR 0x22 # s @ NUL # '','' @ obj @ NUL # post) 4 = s"
    "str_at (CHR ''['' # d # '','' @ CHR 0x22 # s @ NUL # '','' @ obj @ NUL # post) (4 + length (quoted s)) = obj"
    "(concat (isot_texts code s (Some obj) tok) @ [NUL]) ! 1 = d"
proof -
  let ?xs = "[[d], quoted s, obj] @ (case tok of None \<Rightarrow> [] | Some t \<Rightarrow> [quoted t])"
  let ?tail = "case tok of None \<Rightarrow> '']'' | Some t \<Rightarrow> '','' @ quoted t @ '']''"
  obtain c p where cp: "?tail = c # p" by (cases tok) auto
  let ?post = "p @ [NUL]"
  have t0: "concat (isot_texts code s (Some obj) tok) @ [NUL] = ''['' @ joinc ?xs @ '']'' @ [NUL]"
    unfolding isot_joinc assms(5) by (simp add: or_null_def)
  have t1: "''['' @ joinc ?xs @ '']'' @ [NUL] = (CHR ''['' # d # '','') @ quoted s @ '','' @ obj @ c # ?post"
    using cp by (cases tok) auto
  note pos = parse_string_at [of "CHR ''['' # d # '',''" 3 s "'','' @ obj @ c # ?post"]
  have "\<forall>x \<in> set ?xs. item_ok x"
    using item_ok_digit [OF assms(4)] assms(2) item_ok_quoted [OF assms(1)] item_ok_quoted [OF assms(3)]
    by (cases tok) simp_all
  then have "wsj1_msg_scan (''['' @ joinc ?xs @ '']'' @ [NUL]) = Some (layout 1 ?xs)"
    by (rule wsj1_msg_scan_joinc [rotated]) (cases tok; simp)+
  moreover have "wsj1_msg_parse_string (''['' @ joinc ?xs @ '']'' @ [NUL]) 3 (length (quoted s)) =
      (CHR ''['' # d # '','' @ CHR 0x22 # s @ NUL # '','' @ obj @ c # ?post, 4)"
    unfolding t1 using pos by simp
  moreover have "wsj1_msg_parse_extract (CHR ''['' # d # '','' @ CHR 0x22 # s @ NUL # '','' @ obj @ c # ?post) (4 + length (quoted s)) (length obj) =
      (CHR ''['' # d # '','' @ CHR 0x22 # s @ NUL # '','' @ obj @ NUL # ?post, 4 + length (quoted s))"
    using parse_extract_at [of "CHR ''['' # d # '','' @ CHR 0x22 # s @ NUL # '',''" "4 + length (quoted s)" obj c ?post] by (simp add: quoted_def)
  moreover have "str_at (CHR ''['' # d # '','' @ CHR 0x22 # s @ NUL # '','' @ obj @ c # ?post) 4 = s"
    "str_at (CHR ''['' # d # '','' @ CHR 0x22 # s @ NUL # '','' @ obj @ NUL # ?post) 4 = s"
    "str_at (CHR ''['' # d # '','' @ CHR 0x22 # s @ NUL # '','' @ obj @ NUL # ?post) (4 + length (quoted s)) = obj"
    using str_at_at [of "CHR ''['' # d # '','' @ [CHR 0x22]" 4 s] plainD [OF assms(1)] assms(2)
      str_at_at [of "CHR ''['' # d # '','' @ CHR 0x22 # s @ NUL # '',''" "4 + length (quoted s)" obj ?post]
    by (simp_all add: quoted_def item_ok_def)
  moreover have "(''['' @ joinc ?xs @ '']'' @ [NUL]) ! 1 = d" unfolding t1 by simp
  ultimately show ?thesis using that [of c ?post] unfolding t0 by blast
qed

lemma parse_reply_text:
  assumes "plain i" "item_ok obj" "\<And>t. tok = Some t \<Longrightarrow> plain t" "code = RETOK \<or> code = RETERR"
  shows "\<exists>m. (\<forall>calls. parse_msg (concat (isot_texts code i (Some obj) tok) @ [NUL]) calls =
      (case wsj1_call_search calls i True of (_, None) \<Rightarrow> (calls, Bad_header) | (calls', Some call) \<Rightarrow> (calls', Parsed m (Some call))))
    \<and> m_code m = code \<and> msg_strings m = (Some i, None, None, None, Some obj, None)"
proof -
  let ?d = "if code = RETOK then CHR ''3'' else CHR ''4''"
  have d: "?d = CHR ''2'' \<or> ?d = CHR ''3'' \<or> ?d = CHR ''4'' \<or> ?d = CHR ''5''" "char_of (48 + code) = ?d"
    using assms(4) code_char by auto
  let ?t0 = "concat (isot_texts code i (Some obj) tok) @ [NUL]"
  let ?l = "layout 1 ([[?d], quoted i, obj] @ (case tok of None \<Rightarrow> [] | Some t \<Rightarrow> [quoted t]))"
  from isot_parsed [OF assms(1,2) assms(3) d] obtain c post where
    p: "wsj1_msg_scan ?t0 = Some ?l"
      "wsj1_msg_parse_string ?t0 3 (length (quoted i)) = (CHR ''['' # ?d # '','' @ CHR 0x22 # i @ NUL # '','' @ obj @ c # post, 4)"
      "wsj1_msg_parse_extract (CHR ''['' # ?d # '','' @ CHR 0x22 # i @ NUL # '','' @ obj @ c # post) (4 + length (quoted i)) (length obj) =
         (CHR ''['' # ?d # '','' @ CHR 0x22 # i @ NUL # '','' @ obj @ NUL # post, 4 + length (quoted i))"
      "str_at (CHR ''['' # ?d # '','' @ CHR 0x22 # i @ NUL # '','' @ obj @ c # post) 4 = i"
      "str_at (CHR ''['' # ?d # '','' @ CHR 0x22 # i @ NUL # '','' @ obj @ NUL # post) 4 = i"
      "str_at (CHR ''['' # ?d # '','' @ CHR 0x22 # i @ NUL # '','' @ obj @ NUL # post) (4 + length (quoted i)) = obj"
      "?t0 ! 1 = ?d" by blast
  let ?t2 = "CHR ''['' # ?d # '','' @ CHR 0x22 # i @ NUL # '','' @ obj @ NUL # post"
  let ?m = "empty_msg\<lparr>m_code := code, m_id := Some 4, m_object_s := Some (4 + length (quoted i)),
     m_object_s_length := length obj, m_token := None, m_text := ?t2\<rparr> :: 'a afb_wsj1_msg"
  have l: "?l ! 0 = (1, 1)" "?l ! 1 = (3, length (quoted i))" "?l ! 2 = (4 + length (quoted i), length obj)" "?l \<noteq> []"
    "length ?l = 3 \<or> length ?l = 4" "length ?l \<noteq> 5" by (simp_all add: numeral_2_eq_2 split: option.splits)
  have "scan_code ?t0 ?l = Some (Some code)"
    using l(1,4) p(7) assms(4) by (auto simp: scan_code_def code_defs)
  moreover have "parse_reply code ?t0 ?l calls =
      (case wsj1_call_search calls i True of (_, None) \<Rightarrow> None | (calls', Some call) \<Rightarrow> Some (calls', call, ?m))" for calls
    unfolding parse_reply_def Let_def l fst_conv snd_conv
    using l(5,6) p(2,3,4) by (auto split: prod.splits option.splits)
  ultimately have "parse_msg ?t0 calls =
      (case wsj1_call_search calls i True of (_, None) \<Rightarrow> (calls, Bad_header) | (calls', Some call) \<Rightarrow> (calls', Parsed ?m (Some call)))" for calls
    using p(1) assms(4) by (auto simp: parse_msg_def code_defs split: prod.splits option.splits)
  then show ?thesis using p(5,6) by (intro exI [of _ ?m]) (simp add: msg_getters empty_msg_def)
qed

lemma parse_event_text:
  assumes "plain ev" "item_ok obj"
  shows "\<exists>m. parse_msg (concat (isot_texts EVENT ev (Some obj) None) @ [NUL]) calls = (calls, Parsed m None)
    \<and> m_code m = EVENT \<and> msg_strings m = (None, None, None, Some ev, Some obj, None)"
proof -
  let ?d = "CHR ''5''" and ?t0 = "concat (isot_texts EVENT ev (Some obj) None) @ [NUL]"
  let ?l = "layout 1 ([[CHR ''5''], quoted ev, obj] @ (case None of None \<Rightarrow> [] | Some t \<Rightarrow> [quoted t]))"
  have d: "?d = CHR ''2'' \<or> ?d = CHR ''3'' \<or> ?d = CHR ''4'' \<or> ?d = CHR ''5''" "char_of (48 + EVENT) = ?d" using code_char by auto
  have nt: "\<And>t. None = Some t \<Longrightarrow> plain t" by simp
  from isot_parsed [OF assms nt d] obtain c post where
    p: "wsj1_msg_scan ?t0 = Some ?l"
      "wsj1_msg_parse_string ?t0 3 (length (quoted ev)) = (CHR ''['' # ?d # '','' @ CHR 0x22 # ev @ NUL # '','' @ obj @ c # post, 4)"
      "wsj1_msg_parse_extract (CHR ''['' # ?d # '','' @ CHR 0x22 # ev @ NUL # '','' @ obj @ c # post) (4 + length (quoted ev)) (length obj) =
         (CHR ''['' # ?d # '','' @ CHR 0x22 # ev @ NUL # '','' @ obj @ NUL # post, 4 + length (quoted ev))"
      "str_at (CHR ''['' # ?d # '','' @ CHR 0x22 # ev @ NUL # '','' @ obj @ NUL # post) 4 = ev"
      "str_at (CHR ''['' # ?d # '','' @ CHR 0x22 # ev @ NUL # '','' @ obj @ NUL # post) (4 + length (quoted ev)) = obj"
      "?t0 ! 1 = ?d" by blast
  let ?t2 = "CHR ''['' # ?d # '','' @ CHR 0x22 # ev @ NUL # '','' @ obj @ NUL # post"
  let ?m = "empty_msg\<lparr>m_code := EVENT, m_event := Some 4, m_object_s := Some (4 + length (quoted ev)),
     m_object_s_length := length obj, m_text := ?t2\<rparr> :: 'a afb_wsj1_msg"
  have l: "?l = [(1, 1), (3, length (quoted ev)), (4 + length (quoted ev), length obj)]" by simp
  have "scan_code ?t0 ?l = Some (Some EVENT)" using p(6) by (auto simp: scan_code_def l code_defs)
  moreover have "parse_event ?t0 ?l = Some ?m"
    unfolding parse_event_def l using p(2,3) by simp
  ultimately have "parse_msg ?t0 calls = (calls, Parsed ?m None)" using p(1) by (simp add: parse_msg_def code_defs)
  then show ?thesis using p(4,5) by (intro exI [of _ ?m]) (simp add: msg_getters empty_msg_def)
qed

section \<open>Identifiers of calls\<close>

lemma plain_dec: "plain (dec n)"
proof (induction n rule: dec.induct)
  case (1 n)
  have d: "plain [char_of (48 + k :: nat)]" if "k < 10" for k :: nat
  proof -
    have "of_char (char_of (48 + k)) = 48 + k" using that by (simp add: of_char_of)
    then have "char_of (48 + k) \<noteq> CHR 0x22" "char_of (48 + k) \<noteq> CHR 0x5C" "char_of (48 + k) \<noteq> NUL"
      using that by (auto simp: NUL_def dest!: arg_cong [where f = "of_char :: char \<Rightarrow> nat"])
    then show ?thesis by (simp add: plain_def)
  qed
  show ?case
  proof (cases "n < 10")
    case True
    with d [of n] show ?thesis by (simp add: dec.simps [of n])
  next
    case False
    with 1 d [of "n mod 10"] show ?thesis by (simp add: dec.simps [of n] plain_def)
  qed
qed

lemma wsj1_call_search_None: "snd (wsj1_call_search calls i rmv) = None \<longleftrightarrow> i \<notin> call_id ` set calls"
  by (induction calls) (auto split: prod.splits)

lemma wsj1_call_search_found:
  assumes "distinct (map call_id calls)" "call \<in> set calls"
  shows "wsj1_call_search calls (call_id call) True = (remove1 call calls, Some call)"
  using assms
proof (induction calls)
  case (Cons c cs)
  show ?case
  proof (cases "c = call")
    case False
    then have "call \<in> set cs" "call_id c \<noteq> call_id call" using Cons.prems by auto
    with False Cons show ?thesis by simp
  qed simp
qed simp

text \<open>The identifiers that the generator tries, one after the other.\<close>

definition id_at :: "int \<Rightarrow> nat \<Rightarrow> string" where
  "id_at genid k = dec (nat ((genid - 1 - int k) mod 999999 + 1))"

lemma id_at_inj: "inj_on (id_at g) {..<999999}"
proof (rule inj_onI)
  fix j k :: nat
  assume jk: "j \<in> {..<999999}" "k \<in> {..<999999}" "id_at g j = id_at g k"
  have "0 \<le> (g - 1 - int j) mod 999999" "0 \<le> (g - 1 - int k) mod 999999" by simp_all
  with jk(3) have "(g - 1 - int j) mod 999999 = (g - 1 - int k) mod 999999" by (simp add: id_at_def dec_inject nat_eq_iff)
  then have "(999999 :: int) dvd int k - int j" by (simp add: mod_eq_dvd_iff)
  then obtain q where q: "int k - int j = 999999 * q" by (elim dvdE)
  then have "- 999999 < 999999 * q" "999999 * q < 999999" using jk(1,2) by auto
  then have "q = 0" by linarith
  with q show "j = k" by simp
qed

lemma next_id_at:
  assumes "0 \<le> g" "g \<le> 999999" "next_id g = (i, g')"
  shows "i = id_at g 0 \<and> 0 \<le> g' \<and> g' \<le> 999999 \<and> (\<forall>k. id_at g' k = id_at g (Suc k))"
proof (cases "g = 0")
  case True
  with assms(3) have g': "g' = 999998" "i = dec 999999" by (simp_all add: next_id_def)
  have "(999998 - 1 - int k) mod 999999 = (0 - 1 - int (Suc k)) mod 999999" for k
  proof -
    have "999998 - 1 - int k = (0 - 1 - int (Suc k)) + 999999" by simp
    then show ?thesis by (simp only: mod_add_self2)
  qed
  with True g' show ?thesis by (simp add: id_at_def)
next
  case False
  with assms have g': "g' = g - 1" "i = dec (nat g)" by (simp_all add: next_id_def Let_def)
  have "g - 1 - 1 - int k = g - 1 - int (Suc k)" for k by simp
  with assms(1,2) False g' show ?thesis by (simp only: id_at_def g') (simp add: mod_pos_pos_trivial)
qed

lemma gen_id_None:
  assumes "gen_id fuel calls g = None" "0 \<le> g" "g \<le> 999999" "k < fuel"
  shows "id_at g k \<in> call_id ` set calls"
  using assms
proof (induction fuel arbitrary: g k)
  case (Suc fuel)
  obtain i g' where n: "next_id g = (i, g')" by fastforce
  note f = next_id_at [OF Suc.prems(2,3) n]
  have h: "i \<in> call_id ` set calls" "gen_id fuel calls g' = None"
    using Suc.prems(1) n by (auto simp: wsj1_call_search_None split: if_splits)
  show ?case
  proof (cases k)
    case 0
    with h(1) f show ?thesis by simp
  next
    case (Suc k')
    with Suc.IH [OF h(2), of k'] f Suc.prems(4) show ?thesis by simp
  qed
qed simp

lemma gen_id_Some:
  assumes "gen_id fuel calls g = Some (i, g')" "0 \<le> g" "g \<le> 999999"
  shows "i \<notin> call_id ` set calls \<and> plain i \<and> length i \<le> 6 \<and> 0 \<le> g' \<and> g' \<le> 999999"
  using assms
proof (induction fuel arbitrary: g)
  case (Suc fuel)
  obtain i1 g1 where n: "next_id g = (i1, g1)" by fastforce
  note f = next_id_at [OF Suc.prems(2,3) n]
  have "plain i1" using f by (simp add: id_at_def plain_dec)
  moreover have "nat ((g - 1 - int 0) mod 999999 + 1) < 10 ^ 6" using pos_mod_bound [of 999999 "g - 1 - int 0"] by simp
  from length_dec [OF _ this] have "length i1 \<le> 6" using f unfolding id_at_def by simp
  ultimately show ?case using Suc n f by (cases "i1 \<in> call_id ` set calls") (auto simp: wsj1_call_search_None)
qed simp

lemma gen_id_total:
  assumes "0 \<le> g" "g \<le> 999999" "length calls < 999999"
  shows "\<exists>i g'. gen_id (Suc (length calls)) calls g = Some (i, g')"
proof (rule ccontr)
  assume "\<not> ?thesis"
  then have n: "gen_id (Suc (length calls)) calls g = None" by (metis option.exhaust prod.exhaust)
  let ?K = "{..<Suc (length calls)}"
  have "id_at g ` ?K \<subseteq> call_id ` set calls" using gen_id_None [OF n assms(1,2)] by blast
  then have "card (id_at g ` ?K) \<le> card (call_id ` set calls)" by (intro card_mono) simp_all
  also have "\<dots> \<le> length calls" using card_image_le [of "set calls" call_id] card_length [of calls] by simp
  finally have "card (id_at g ` ?K) \<le> length calls" .
  moreover have "card (id_at g ` ?K) = Suc (length calls)"
    using assms(3) inj_on_subset [OF id_at_inj, of ?K g] by (simp add: card_image subset_iff)
  ultimately show False by simp
qed

text \<open>The calls that wait for their reply.\<close>

definition calls_ok :: "'j afb_wsj1 \<Rightarrow> bool" where
  "calls_ok w \<longleftrightarrow> 0 \<le> w_genid w \<and> w_genid w \<le> 999999 \<and> distinct (map call_id (w_calls w)) \<and> (\<forall>c \<in> set (w_calls w). plain (call_id c))"

lemma call_create_ok:
  assumes "calls_ok w" "length (w_calls w) < 999999" "\<not> w_oom w"
  shows "\<exists>w' call. wsj1_call_create cb w = Some (w', Some call) \<and> call_callback call = cb \<and> call_id call \<notin> call_id ` set (w_calls w)
    \<and> w_calls w' = call # w_calls w \<and> calls_ok w' \<and> plain (call_id call) \<and> length (call_id call) \<le> 6"
proof -
  have g: "0 \<le> w_genid w" "w_genid w \<le> 999999" using assms(1) by (simp_all add: calls_ok_def)
  from gen_id_total [OF g assms(2)] obtain i g' where i: "gen_id (Suc (length (w_calls w))) (w_calls w) (w_genid w) = Some (i, g')" by blast
  from gen_id_Some [OF i g] assms(1,3) i show ?thesis
    by (auto simp: wsj1_call_create_def Let_def calls_ok_def)
qed

text \<open>A call always gets an identifier of its own: as long as fewer than 999999 calls wait for their reply the
  search for a free identifier ends after at most one more try than there are pending calls, the new call has
  an identifier that no pending call has, and that property is kept.\<close>

lemma call_ids_are_unique:
  assumes "calls_ok w" "length (w_calls w) < 999999" "\<not> w_oom w"
  shows "\<exists>w' call. wsj1_call_create cb w = Some (w', Some call) \<and> call_callback call = cb \<and> call_id call \<notin> call_id ` set (w_calls w)
    \<and> w_calls w' = call # w_calls w \<and> calls_ok w'"
  using call_create_ok [OF assms] by blast

definition demo_wsj1 :: "unit afb_wsj1" where
  "demo_wsj1 = \<lparr>w_refcount = 1, w_genid = 1, w_messages = NULL, w_heap = Map.empty,
     w_calls = [\<lparr>call_callback = 7, call_id = ''999999''\<rparr>], w_fresh = 1, w_oom = False, w_freed = False\<rparr>"

section \<open>The list of messages\<close>

text \<open>The links that a list of addresses stands for: the neighbour on one side.\<close>

fun nxt :: "addr list \<Rightarrow> addr \<Rightarrow> addr" where
  "nxt [] q = NULL"
| "nxt (x # xs) q = (if x = q then (case xs of [] \<Rightarrow> NULL | y # _ \<Rightarrow> y) else nxt xs q)"

definition prv :: "addr list \<Rightarrow> addr \<Rightarrow> addr" where
  "prv ps q = nxt (rev ps) q"

lemma nxt_split: "p \<notin> set xs \<Longrightarrow> nxt (xs @ p # ys) p = (case ys of [] \<Rightarrow> NULL | y # _ \<Rightarrow> y)"
  by (induction xs) auto

lemma nxt_remove:
  "distinct (xs @ p # ys) \<Longrightarrow> q \<in> set (xs @ ys) \<Longrightarrow>
    nxt (xs @ ys) q = (if xs \<noteq> [] \<and> q = last xs then nxt (xs @ p # ys) p else nxt (xs @ p # ys) q)"
proof (induction xs)
  case (Cons x xs)
  show ?case
  proof (cases "xs = []")
    case True
    with Cons.prems show ?thesis by (cases ys) auto
  next
    case False
    then obtain z zs where z: "xs = z # zs" by (cases xs) auto
    show ?thesis
    proof (cases "x = q")
      case True
      with Cons.prems z have "q \<noteq> last xs" "q \<notin> set xs" by auto
      with True z show ?thesis by auto
    next
      case False
      with Cons z show ?thesis by auto
    qed
  qed
qed auto

lemma prv_split: "p \<notin> set ys \<Longrightarrow> prv (xs @ p # ys) p = (if xs = [] then NULL else last xs)"
  by (auto simp: prv_def nxt_split split: list.splits)

lemma prv_remove:
  assumes "distinct (xs @ p # ys)" "q \<in> set (xs @ ys)"
  shows "prv (xs @ ys) q = (if ys \<noteq> [] \<and> q = hd ys then prv (xs @ p # ys) p else prv (xs @ p # ys) q)"
proof -
  have "distinct (rev ys @ p # rev xs)" "q \<in> set (rev ys @ rev xs)" using assms by auto
  from nxt_remove [OF this] show ?thesis by (simp add: prv_def last_rev)
qed

lemma nxt_Cons: "p \<notin> set ps \<Longrightarrow> q \<in> set ps \<Longrightarrow> nxt (p # ps) q = nxt ps q" by auto

lemma prv_Cons:
  assumes "p \<notin> set ps" "distinct ps" "q \<in> set ps"
  shows "prv (p # ps) q = (if q = hd ps then p else prv ps q)"
proof -
  obtain xs ys where ps: "ps = xs @ q # ys" using assms(3) by (auto simp: in_set_conv_decomp)
  with assms(2) have "q \<notin> set ys" "q \<notin> set xs" by auto
  with prv_split [of q ys "p # xs"] prv_split [of q ys xs] ps show ?thesis by (cases xs) auto
qed

definition msgs_ok :: "'j afb_wsj1 \<Rightarrow> addr list \<Rightarrow> bool" where
  "msgs_ok w ps \<longleftrightarrow>
     distinct ps \<and> NULL \<notin> set ps \<and> dom (w_heap w) = set ps \<and> w_messages w = (case ps of [] \<Rightarrow> NULL | p # _ \<Rightarrow> p)
     \<and> (\<forall>p \<in> set ps. p < w_fresh w) \<and> 0 < w_fresh w
     \<and> (\<forall>p \<in> set ps. \<forall>m. w_heap w p = Some m \<longrightarrow> m_next m = nxt ps p \<and> m_previous m = prv ps p)"

lemma msgs_okD:
  assumes "msgs_ok w ps"
  shows "distinct ps" "NULL \<notin> set ps" "dom (w_heap w) = set ps" "w_messages w = (case ps of [] \<Rightarrow> NULL | p # _ \<Rightarrow> p)"
    "p \<in> set ps \<Longrightarrow> p < w_fresh w" "0 < w_fresh w"
    "w_heap w p = Some m \<Longrightarrow> m_next m = nxt ps p \<and> m_previous m = prv ps p"
  using assms unfolding msgs_ok_def by blast+

lemma link_msg_ok:
  assumes "msgs_ok w ps" "p = w_fresh w" "m_previous m = NULL"
    and "w_heap w1 = w_heap w" "w_messages w1 = w_messages w" "w_fresh w1 = Suc p"
  shows "\<exists>w2. link_msg p m w1 = Some w2 \<and> msgs_ok w2 (p # ps) \<and> w_heap w2 p = Some (m\<lparr>m_refcount := 1, m_next := w_messages w\<rparr>)
    \<and> w2 = w1\<lparr>w_heap := w_heap w2, w_messages := p\<rparr>"
proof -
  note ok = msgs_okD [OF assms(1)]
  have fresh: "p \<notin> set ps" "p \<noteq> NULL" using ok(5) [of p] ok(6) assms(2) by auto
  show ?thesis
  proof (cases ps)
    case Nil
    with ok(4) assms(5) have e: "w_messages w = NULL" "w_messages w1 = NULL" by simp_all
    let ?w = "w1\<lparr>w_heap := (w_heap w)(p \<mapsto> m\<lparr>m_refcount := 1, m_next := NULL\<rparr>), w_messages := p\<rparr>"
    have "link_msg p m w1 = Some ?w" using e assms(4) by (simp add: link_msg_def)
    moreover have "msgs_ok ?w [p]"
      using Nil ok(3) assms(3,6) fresh by (simp add: msgs_ok_def prv_def)
    ultimately show ?thesis using Nil e by (intro exI [of _ ?w]) simp
  next
    case (Cons q qs)
    with ok(4) assms(5) have e: "w_messages w = q" "w_messages w1 = q" "q \<noteq> NULL" using ok(2) by auto
    from ok(3) Cons obtain mn where mn: "w_heap w q = Some mn" by (metis domD list.set_intros(1))
    let ?w = "w1\<lparr>w_heap := (w_heap w)(q \<mapsto> mn\<lparr>m_previous := p\<rparr>, p \<mapsto> m\<lparr>m_refcount := 1, m_next := q\<rparr>), w_messages := p\<rparr>"
    have "link_msg p m w1 = Some ?w" using e mn assms(4) by (simp add: link_msg_def)
    moreover have "msgs_ok ?w (p # ps)"
      unfolding msgs_ok_def
    proof (intro conjI ballI allI impI)
      show "dom (w_heap ?w) = set (p # ps)" using ok(3) Cons by auto
      show "r < w_fresh ?w" if "r \<in> set (p # ps)" for r using that ok(5) [of r] assms(2,6) by auto
      fix r m' assume r: "r \<in> set (p # ps)" and m': "w_heap ?w r = Some m'"
      have pq: "q \<noteq> p" using Cons fresh(1) by auto
      have links: "m_next mn = nxt ps q" "\<And>x mx. w_heap w x = Some mx \<Longrightarrow> m_next mx = nxt ps x \<and> m_previous mx = prv ps x"
        using ok(7) mn by blast+
      show "m_next m' = nxt (p # ps) r"
        using r m' links fresh(1) Cons pq by (auto split: if_splits)
      show "m_previous m' = prv (p # ps) r"
      proof (cases "r = p")
        case True
        with m' have "m' = m\<lparr>m_refcount := 1, m_next := q\<rparr>" by simp
        then have "m_previous m' = NULL" using assms(3) by simp
        with True prv_split [of p ps "[]"] fresh(1) show ?thesis by simp
      next
        case False
        with r have rs: "r \<in> set ps" by simp
        show ?thesis
          using prv_Cons [OF fresh(1) ok(1) rs] m' links(2) [of r] False Cons pq by (auto split: if_splits)
      qed
    qed (use ok(1,2) fresh assms(6) in simp_all)
    ultimately show ?thesis using e by (intro exI [of _ ?w]) simp
  qed
qed

lemma unlink_msg_ok:
  assumes "msgs_ok w (xs @ p # ys)" "w_heap w p = Some m0" "m_next m = m_next m0" "m_previous m = m_previous m0"
  shows "\<exists>w'. unlink_msg p m w = Some w' \<and> msgs_ok w' (xs @ ys) \<and> w' = w\<lparr>w_heap := w_heap w', w_messages := w_messages w'\<rparr>"
proof -
  note ok = msgs_okD [OF assms(1)]
  let ?h = "w_heap w" and ?nx = "m_next m" and ?pv = "m_previous m"
  have d: "p \<notin> set xs" "p \<notin> set ys" "distinct xs" "distinct ys" "set xs \<inter> set ys = {}" using ok(1) by auto
  have nx: "?nx = (case ys of [] \<Rightarrow> NULL | y # _ \<Rightarrow> y)" using ok(7) [OF assms(2)] assms(3) nxt_split [OF d(1), of ys] by simp
  have pv: "?pv = (if xs = [] then NULL else last xs)" using ok(7) [OF assms(2)] assms(4) prv_split [OF d(2), of xs] by simp
  have nz: "x \<noteq> NULL" if "x \<in> set xs \<or> x \<in> set ys" for x
    by (rule notI) (use ok(2) that in auto)
  have al: "\<exists>mx. ?h x = Some mx" if "x \<in> set xs \<or> x \<in> set ys" for x using ok(3) that by (metis Un_iff domD in_set_conv_decomp insertCI list.set(2) set_append)
  let ?h1 = "\<lambda>mn. if ys = [] then ?h else ?h(hd ys \<mapsto> mn\<lparr>m_previous := ?pv\<rparr>)"
  obtain mn where mn: "ys \<noteq> [] \<Longrightarrow> ?h (hd ys) = Some mn" using al [of "hd ys"] by (cases ys) auto
  obtain mp where mp: "xs \<noteq> [] \<Longrightarrow> ?h (last xs) = Some mp" using al [of "last xs"] by (cases "xs = []") auto
  let ?h2 = "if xs = [] then ?h1 mn else (?h1 mn)(last xs \<mapsto> mp\<lparr>m_next := ?nx\<rparr>)"
  let ?w = "w\<lparr>w_heap := ?h2(p := None), w_messages := (if xs = [] then ?nx else w_messages w)\<rparr>"
  have ne: "xs \<noteq> [] \<Longrightarrow> ys \<noteq> [] \<Longrightarrow> last xs \<noteq> hd ys" using d(5) by (metis disjoint_iff hd_in_set last_in_set)
  have h1: "(if ?nx \<noteq> NULL then map_option (\<lambda>mn. ?h(?nx \<mapsto> mn\<lparr>m_previous := ?pv\<rparr>)) (?h ?nx) else Some ?h) = Some (?h1 mn)"
    using nx mn nz [of "hd ys"] by (cases ys) auto
  have lp: "xs \<noteq> [] \<Longrightarrow> ?h1 mn (last xs) = Some mp" using mp ne by auto
  have lz: "xs \<noteq> [] \<Longrightarrow> last xs \<noteq> NULL" using nz [of "last xs"] by simp
  have "unlink_msg p m w = Some ?w"
    unfolding unlink_msg_def Let_def h1 option.case using pv lp lz by (cases "xs = []") simp_all
  moreover have "msgs_ok ?w (xs @ ys)"
    unfolding msgs_ok_def
  proof (intro conjI ballI allI impI)
    show "dom (w_heap ?w) = set (xs @ ys)" using ok(3) d by (auto split: if_splits)
    show "w_messages ?w = (case xs @ ys of [] \<Rightarrow> NULL | p # _ \<Rightarrow> p)" using ok(4) nx by (cases xs) (auto split: list.splits)
    fix q m' assume q: "q \<in> set (xs @ ys)" and m': "w_heap ?w q = Some m'"
    have qp: "q \<noteq> p" using q d by auto
    obtain mq where mq: "?h q = Some mq" using al q by auto
    have lq: "m_next mq = nxt (xs @ p # ys) q" "m_previous mq = prv (xs @ p # ys) q" using ok(7) [OF mq] by auto
    have lp: "?nx = nxt (xs @ p # ys) p" "?pv = prv (xs @ p # ys) p" using ok(7) [OF assms(2)] assms(3,4) by auto
    have e: "m_next m' = (if xs \<noteq> [] \<and> q = last xs then ?nx else m_next mq)"
      "m_previous m' = (if ys \<noteq> [] \<and> q = hd ys then ?pv else m_previous mq)"
      using m' qp mq mn mp ne by (auto split: if_splits)
    show "m_next m' = nxt (xs @ ys) q" unfolding e(1) using nxt_remove [OF ok(1) q] lq lp by simp
    show "m_previous m' = prv (xs @ ys) q" unfolding e(2) using prv_remove [OF ok(1) q] lq lp by simp
  qed (use ok d in auto)
  ultimately show ?thesis by (intro exI [of _ ?w]) simp
qed

lemma msg_unref_last:
  assumes "msgs_ok w ps" "w_heap w p = Some m" "m_refcount m = 1"
  shows "\<exists>w'. (\<forall>ws io a u. afb_wsj1_msg_unref p (ws, io, a, w, u) = Some (afb_wsj1_unref (ws, io, a, w', u)))
    \<and> msgs_ok w' (remove1 p ps) \<and> w' = w\<lparr>w_heap := w_heap w', w_messages := w_messages w'\<rparr>"
proof -
  note ok = msgs_okD [OF assms(1)]
  have "p \<in> set ps" using ok(3) assms(2) by blast
  then obtain xs ys where ps: "ps = xs @ p # ys" "p \<notin> set xs" using split_list_first by metis
  then have "p \<noteq> NULL" using ok(2) by auto
  from unlink_msg_ok [OF assms(1) [unfolded ps(1)] assms(2), of "m\<lparr>m_refcount := m_refcount m - 1\<rparr>"] obtain w' where
    "unlink_msg p (m\<lparr>m_refcount := m_refcount m - 1\<rparr>) w = Some w'" "msgs_ok w' (xs @ ys)"
    "w' = w\<lparr>w_heap := w_heap w', w_messages := w_messages w'\<rparr>" by auto
  moreover have "remove1 p ps = xs @ ys" using ps by (simp add: remove1_append)
  ultimately show ?thesis using \<open>p \<noteq> NULL\<close> assms(2,3) by (auto simp: afb_wsj1_msg_unref_def Let_def)
qed

text \<open>The two way linked list of messages is a list: dropping the last reference of any message of the list
  takes exactly this message out, whether it is at an end or in the middle, keeps the order and the links of
  the others, gives the reference to the connection back, and no other memory is touched.\<close>

lemma message_list_unref:
  assumes "msgs_ok w ps" "w_heap w p = Some m" "m_refcount m = 1"
  shows "\<exists>w'. afb_wsj1_msg_unref p (ws, io, a, w, u :: 'u) = Some (afb_wsj1_unref (ws, io, a, w', u))
    \<and> msgs_ok w' (remove1 p ps) \<and> w' = w\<lparr>w_heap := w_heap w', w_messages := w_messages w'\<rparr>"
proof -
  from msg_unref_last [OF assms] obtain w' where
    w': "\<forall>ws io a u. afb_wsj1_msg_unref p (ws, io, a, w, u :: 'u) = Some (afb_wsj1_unref (ws, io, a, w', u))"
      "msgs_ok w' (remove1 p ps)" "w' = w\<lparr>w_heap := w_heap w', w_messages := w_messages w'\<rparr>" by (elim exE conjE) (rule that)
  show ?thesis by (rule exI [of _ w'], intro conjI, rule w'(1) [rule_format], rule w'(2), rule w'(3))
qed

definition demo_msgs :: "unit afb_wsj1" where
  "demo_msgs = demo_wsj1\<lparr>w_messages := 3, w_fresh := 4, w_refcount := 4,
     w_heap := [3 \<mapsto> empty_msg\<lparr>m_refcount := 1, m_next := 2\<rparr>, 2 \<mapsto> empty_msg\<lparr>m_refcount := 1, m_next := 1, m_previous := 3\<rparr>,
                1 \<mapsto> empty_msg\<lparr>m_refcount := 1, m_previous := 2\<rparr>]\<rparr>"

lemma demo_msgs_ok: "msgs_ok demo_msgs [3, 2, 1]"
  by (auto simp: msgs_ok_def demo_msgs_def empty_msg_def prv_def split: if_splits)

section \<open>Received messages\<close>

lemma wsj1_on_text_parsed:
  assumes "msgs_ok w ps" "\<not> w_oom w" "parse_msg (text @ [NUL]) (w_calls w) = (calls, Parsed m call)" "m_previous m = NULL"
    and "ev = (case call of Some c \<Rightarrow> W_reply (call_callback c) (w_fresh w)
           | None \<Rightarrow> if m_code m = CALL then W_call (the (afb_wsj1_msg_api m)) (the (afb_wsj1_msg_verb m)) (w_fresh w)
             else W_event (the (afb_wsj1_msg_event m)) (w_fresh w))"
    and "call = None \<Longrightarrow> m_code m = CALL \<Longrightarrow> m_api m \<noteq> None \<and> m_verb m \<noteq> None \<and> has_on_call itf"
    and "call = None \<Longrightarrow> m_code m \<noteq> CALL \<Longrightarrow> m_event m \<noteq> None \<and> has_on_event itf"
  shows "\<exists>w2. (\<forall>ws io a u. wsj1_on_text itf user text (ws, io, a, w, u) = afb_wsj1_msg_unref (w_fresh w) (user ev (ws, io, a, w2, u)))
    \<and> msgs_ok w2 (w_fresh w # ps) \<and> w_heap w2 (w_fresh w) = Some (m\<lparr>m_refcount := 1, m_next := w_messages w\<rparr>)
    \<and> w_calls w2 = calls \<and> w_refcount w2 = w_refcount w + 1 \<and> w_genid w2 = w_genid w"
proof -
  let ?w1 = "(afb_wsj1_addref w)\<lparr>w_calls := calls, w_fresh := w_fresh w + 1\<rparr>"
  from link_msg_ok [OF assms(1) refl assms(4), of ?w1] obtain w2 where
    w2: "link_msg (w_fresh w) m ?w1 = Some w2" "msgs_ok w2 (w_fresh w # ps)"
      "w_heap w2 (w_fresh w) = Some (m\<lparr>m_refcount := 1, m_next := w_messages w\<rparr>)" "w2 = ?w1\<lparr>w_heap := w_heap w2, w_messages := w_fresh w\<rparr>"
    by (auto simp: afb_wsj1_addref_def)
  have f: "w_calls w2 = calls" "w_refcount w2 = w_refcount w + 1" "w_genid w2 = w_genid w"
    by (subst w2(4); simp add: afb_wsj1_addref_def)+
  have "wsj1_on_text itf user text (ws, io, a, w, u) = afb_wsj1_msg_unref (w_fresh w) (user ev (ws, io, a, w2, u))" for ws io a u
    using assms(2,3,5,6,7) w2(1)
    by (cases call) (auto simp: wsj1_on_text_def Let_def afb_wsj1_msg_api_def afb_wsj1_msg_verb_def afb_wsj1_msg_event_def)
  with w2 f show ?thesis by blast
qed

lemma parse_call_previous: "parse_call text items = Some m \<Longrightarrow> m_previous m = NULL"
  by (auto simp: parse_call_def Let_def empty_msg_def split: if_splits prod.splits)

lemma parse_reply_previous: "parse_reply code text items calls = Some (calls', c, m) \<Longrightarrow> m_previous m = NULL"
  by (auto simp: parse_reply_def Let_def empty_msg_def split: if_splits prod.splits option.splits)

lemma parse_event_previous: "parse_event text items = Some m \<Longrightarrow> m_previous m = NULL"
  by (auto simp: parse_event_def Let_def empty_msg_def split: if_splits prod.splits)

lemma parse_msg_previous: "parse_msg text calls = (calls', Parsed m call) \<Longrightarrow> m_previous m = NULL"
  by (auto simp: parse_msg_def split: option.splits if_splits
      dest: parse_call_previous parse_reply_previous parse_event_previous)

lemma calls_ok_remove:
  "calls_ok w \<Longrightarrow> w_calls w' = remove1 call (w_calls w) \<Longrightarrow> w_genid w' = w_genid w \<Longrightarrow> calls_ok w'"
  by (auto simp: calls_ok_def distinct_map inj_on_def dest: notin_set_remove1 [OF iffD1] set_remove1_subset [THEN subsetD])

text \<open>C21. A reply answers its call, once: when the reply sent by the other end for a pending call arrives, the
  callback of this very call is called, with a message that has the code and the object of the reply; the call is
  no longer pending, the other calls are, and a second reply to it is refused as a bad message. The
  token that a reply may carry is never given to the client.\<close>

theorem reply_answers_its_call:
  assumes "msgs_ok (w :: 'j afb_wsj1) ps" "calls_ok w" "\<not> w_oom w" "call \<in> set (w_calls w)"
    and "item_ok obj" "case tok of None \<Rightarrow> True | Some t \<Rightarrow> plain t" "code = RETOK \<or> code = RETERR"
  shows "\<exists>w2 m. wsj1_on_text itf user (concat (isot_texts code (call_id call) (Some obj) tok)) (ws, io, a, w, u) =
        afb_wsj1_msg_unref (w_fresh w) (user (W_reply (call_callback call) (w_fresh w)) (ws, io, a, w2, u))
    \<and> w_heap w2 (w_fresh w) = Some m \<and> m_code m = code \<and> afb_wsj1_msg_object_s m = Some obj \<and> afb_wsj1_msg_token m = None
    \<and> w_calls w2 = remove1 call (w_calls w) \<and> calls_ok w2 \<and> msgs_ok w2 (w_fresh w # ps)
    \<and> snd (parse_msg (concat (isot_texts code (call_id call) (Some obj) tok) @ [NUL]) (w_calls w2)) = (Bad_header :: 'j wsj1_parsed)"
proof -
  let ?t = "concat (isot_texts code (call_id call) (Some obj) tok)" and ?p = "w_fresh w"
  have pl: "plain (call_id call)" and d: "distinct (map call_id (w_calls w))" using assms(2,4) by (auto simp: calls_ok_def)
  have tk: "\<And>t. tok = Some t \<Longrightarrow> plain t" using assms(6) by simp
  from parse_reply_text [OF pl assms(5) tk assms(7)] obtain m :: "'j afb_wsj1_msg" where
    m: "\<And>calls. parse_msg (?t @ [NUL]) calls = (case wsj1_call_search calls (call_id call) True of
          (_, None) \<Rightarrow> (calls, Bad_header) | (calls', Some call) \<Rightarrow> (calls', Parsed m (Some call)))"
      "m_code m = code" "msg_strings m = (Some (call_id call), None, None, None, Some obj, None)" by blast
  have pm: "parse_msg (?t @ [NUL]) (w_calls w) = (remove1 call (w_calls w), Parsed m (Some call))"
    using m(1) [of "w_calls w"] wsj1_call_search_found [OF d assms(4)] by simp
  from wsj1_on_text_parsed [OF assms(1,3) pm parse_msg_previous [OF pm] refl, of itf user] obtain w2 where
    w2: "wsj1_on_text itf user ?t (ws, io, a, w, u) = afb_wsj1_msg_unref ?p (user (W_reply (call_callback call) ?p) (ws, io, a, w2, u))"
      "msgs_ok w2 (?p # ps)" "w_heap w2 ?p = Some (m\<lparr>m_refcount := 1, m_next := w_messages w\<rparr>)"
      "w_calls w2 = remove1 call (w_calls w)" "w_genid w2 = w_genid w" by auto
  let ?m = "m\<lparr>m_refcount := 1, m_next := w_messages w\<rparr>"
  have "call_id call \<notin> call_id ` set (w_calls w2)"
    using d assms(4) w2(4) by (auto simp: distinct_map inj_on_def distinct_remove1 set_remove1_eq)
  then have "parse_msg (?t @ [NUL]) (w_calls w2) = (w_calls w2, Bad_header :: 'j wsj1_parsed)"
    using m(1) [of "w_calls w2"] wsj1_call_search_None [of "w_calls w2" "call_id call" True]
    by (cases "wsj1_call_search (w_calls w2) (call_id call) True") auto
  moreover have "calls_ok w2" by (rule calls_ok_remove [OF assms(2) w2(4,5)])
  moreover have "m_code ?m = code" "afb_wsj1_msg_object_s ?m = Some obj" "afb_wsj1_msg_token ?m = None"
    using m(2,3) by (simp_all add: msg_getters)
  ultimately show ?thesis using w2 by (intro exI [of _ w2] exI [of _ ?m]) simp
qed

lemma demo_wsj1_ok: "msgs_ok demo_wsj1 []" "calls_ok demo_wsj1" "\<not> w_oom demo_wsj1"
  by (simp_all add: msgs_ok_def calls_ok_def demo_wsj1_def plain_def NUL_def)

theorem reply_answers_its_call_witness:
  "\<exists>w2 m. wsj1_on_text \<lparr>has_on_hangup = True, has_on_call = True, has_on_event = False\<rparr> (\<lambda>ev c. c)
        (concat (isot_texts RETOK ''999999'' (Some ''true'') (Some ''abc''))) (websock_create_v13, empty_io, fresh_aws, demo_wsj1, ()) =
        afb_wsj1_msg_unref 1 (websock_create_v13, empty_io, fresh_aws, w2, ())
    \<and> w_heap w2 1 = Some m \<and> m_code m = RETOK \<and> afb_wsj1_msg_object_s m = Some ''true'' \<and> afb_wsj1_msg_token m = None \<and> w_calls w2 = []"
proof -
  let ?c = "\<lparr>call_callback = 7, call_id = ''999999''\<rparr>" and ?itf = "\<lparr>has_on_hangup = True, has_on_call = True, has_on_event = False\<rparr>"
  have c: "?c \<in> set (w_calls demo_wsj1)" by (simp add: demo_wsj1_def)
  have o: "item_ok ''true''" by (simp add: item_ok_def scan_item_cons item_end_def NUL_def)
  have t: "case Some ''abc'' of None \<Rightarrow> True | Some t \<Rightarrow> plain t" by (simp add: plain_def NUL_def)
  have r: "RETOK = RETOK \<or> RETOK = RETERR" by simp
  from reply_answers_its_call [OF demo_wsj1_ok c o t r, where itf = ?itf and user = "\<lambda>ev c. c"
      and ws = websock_create_v13 and io = empty_io and a = fresh_aws and u = "()"]
  show ?thesis by (auto simp: demo_wsj1_def)
qed

text \<open>An event sent to a client without a callback for events calls through a null pointer: the layer does not test
  whether the callback is there before it calls it. The server side of the binder is such a client.\<close>

lemma event_without_callback_is_fatal:
  assumes "msgs_ok (w :: 'j afb_wsj1) ps" "\<not> w_oom w" "plain ev" "item_ok obj" "\<not> has_on_event itf"
  shows "wsj1_on_text itf user (concat (isot_texts EVENT ev (Some obj) None)) (ws, io, a, w, u) = None"
proof -
  from parse_event_text [OF assms(3,4), of "w_calls w"] obtain m :: "'j afb_wsj1_msg" where
    m: "parse_msg (concat (isot_texts EVENT ev (Some obj) None) @ [NUL]) (w_calls w) = (w_calls w, Parsed m None)" "m_code m = EVENT"
    by blast
  let ?w1 = "(afb_wsj1_addref w)\<lparr>w_calls := w_calls w, w_fresh := w_fresh w + 1\<rparr>"
  from link_msg_ok [OF assms(1) refl parse_msg_previous [OF m(1)], of ?w1] obtain w2 where "link_msg (w_fresh w) m ?w1 = Some w2"
    by (auto simp: afb_wsj1_addref_def)
  with m assms(2,5) show ?thesis by (simp add: wsj1_on_text_def Let_def code_defs)
qed

end
