(* ===== verification/Msg_Json.thy ===== *)
theory Msg_Json
  imports Context
begin

text \<open>
  The JSON messages of the binder, \<^verbatim>\<open>src/src/afb-msg-json.c\<close>.

  The JSON library is not modelled: a \<open>jval\<close> is what the code asks the library to build, an object with the additions
  in the order in which they are made. Values that the code is given are of any type.
\<close>

datatype 'j jval = J_given 'j | J_string string | J_object "(string \<times> 'j jval) list"

definition opt_add :: "string \<Rightarrow> string option \<Rightarrow> (string \<times> 'j jval) list" where
  "opt_add k v = (case v of None \<Rightarrow> [] | Some s \<Rightarrow> [(k, J_string s)])"

text \<open>\<open>None\<close> is the access to a released session. The context, when there is one, gives the token and the uuid.\<close>

definition afb_msg_json_reply ::
  "string \<Rightarrow> string option \<Rightarrow> 'j option \<Rightarrow> (sessions \<times> afb_context) option \<Rightarrow> string option \<Rightarrow> int \<Rightarrow> string
     \<Rightarrow> ('j jval \<times> (sessions \<times> afb_context) option) option" where
  "afb_msg_json_reply status info resp ctx reqid now newuuid =
     do { (ctx', tok, uuid) \<leftarrow>
            (case ctx of
               None \<Rightarrow> Some (None, None, None)
             | Some (s, x) \<Rightarrow>
                 do { (s1, x1, tok) \<leftarrow> afb_context_sent_token s x now newuuid;
                      uuid \<leftarrow> afb_context_sent_uuid s1 x1;
                      Some (Some (s1, x1), tok, uuid) });
          let request = [(''status'', J_string status)] @ opt_add ''info'' info @ opt_add ''reqid'' reqid
                @ opt_add ''token'' tok @ opt_add ''uuid'' uuid;
          Some (J_object ((case resp of None \<Rightarrow> [] | Some r \<Rightarrow> [(''response'', J_given r)])
              @ [(''jtype'', J_string ''afb-reply''), (''request'', J_object request)]), ctx') }"

definition afb_msg_json_reply_ok where
  "afb_msg_json_reply_ok info resp ctx reqid now newuuid = afb_msg_json_reply ''success'' info resp ctx reqid now newuuid"

definition afb_msg_json_reply_error where
  "afb_msg_json_reply_error status info ctx reqid now newuuid = afb_msg_json_reply status info None ctx reqid now newuuid"

definition afb_msg_json_event :: "string \<Rightarrow> 'j option \<Rightarrow> 'j jval" where
  "afb_msg_json_event event obj =
     J_object ([(''event'', J_string event)] @ (case obj of None \<Rightarrow> [] | Some d \<Rightarrow> [(''data'', J_given d)]) @ [(''jtype'', J_string ''afb-event'')])"

record afb_arg =
  arg_name :: "string option"
  arg_value :: "string option"
  arg_path :: "string option"

text \<open>\<open>field\<close> and \<open>to_str\<close> are \<open>json_object_object_get_ex\<close> and \<open>json_object_get_string\<close>.\<close>

definition afb_msg_json_get_arg :: "('j \<Rightarrow> string \<Rightarrow> 'j option) \<Rightarrow> ('j \<Rightarrow> string option) \<Rightarrow> 'j \<Rightarrow> string \<Rightarrow> afb_arg" where
  "afb_msg_json_get_arg field to_str obj name =
     (case field obj name of
        Some v \<Rightarrow> \<lparr>arg_name = Some name, arg_value = to_str v, arg_path = None\<rparr>
      | None \<Rightarrow> \<lparr>arg_name = None, arg_value = None, arg_path = None\<rparr>)"

section \<open>What a reply tells\<close>

fun jfield :: "string \<Rightarrow> 'j jval \<Rightarrow> 'j jval option" where
  "jfield k (J_object kvs) = map_of (rev kvs) k"
| "jfield k _ = None"

lemma reply_without_context:
  "\<exists>j. afb_msg_json_reply status info resp None reqid now newuuid = Some (j, None)
    \<and> (\<exists>r. jfield ''request'' j = Some r \<and> jfield ''status'' r = Some (J_string status) \<and> jfield ''token'' r = None \<and> jfield ''uuid'' r = None)
    \<and> jfield ''response'' j = map_option J_given resp"
  by (cases resp; cases info; cases reqid) (simp_all add: afb_msg_json_reply_def opt_add_def Let_def)

end
