(* ===== verification/Hquery.thy ===== *)
theory Hquery
  imports C_Strings Afb_Prelude
begin

text \<open>
  The query part that a redirection repeats, \<^verbatim>\<open>_mkq_*\<close> and \<^verbatim>\<open>url_with_query\<close> of \<^verbatim>\<open>src/src/afb-hreq.c\<close>.

  The buffer is explicit memory with the number of characters used; a write outside of it is the outer \<open>None\<close>. The
  parameter \<open>ok\<close> tells for which sizes \<open>malloc\<close> and \<open>realloc\<close> succeed; without memory the text is \<open>None\<close>. The
  arguments of the request are the list that \<open>MHD_get_connection_values\<close> enumerates. The reference is decoding:
  splitting the query and undoing the escapes, as a server does with a form encoded query.
\<close>

record mkq =
  q_count :: nat
  q_length :: nat
  q_alloc :: nat
  q_text :: "string option"

definition mkq_add :: "(nat \<Rightarrow> bool) \<Rightarrow> char \<Rightarrow> mkq \<Rightarrow> mkq option" where
  "mkq_add ok v q =
     (case q_text q of
        None \<Rightarrow> Some q
      | Some text \<Rightarrow>
          let q1 = (if q_length q = q_alloc q then q\<lparr>q_alloc := q_alloc q + 100\<rparr> else q);
              mem = (if q_length q = q_alloc q then (if ok (q_alloc q + 100) then Some (text @ replicate 100 NUL) else None) else Some text)
          in case mem of
               None \<Rightarrow> Some (q1\<lparr>q_text := None\<rparr>)
             | Some t \<Rightarrow> if q_length q1 < length t
                         then Some (q1\<lparr>q_text := Some (t[q_length q1 := v]), q_length := q_length q1 + 1\<rparr>) else None)"

definition mkq_add_hex :: "(nat \<Rightarrow> bool) \<Rightarrow> nat \<Rightarrow> mkq \<Rightarrow> mkq option" where
  "mkq_add_hex ok v q = mkq_add ok (char_of (if v < 10 then v + 48 else v + 65 - 10)) q"

text \<open>The type \<open>char\<close> is signed.\<close>

definition schar :: "char \<Rightarrow> int" where
  "schar c = (if byte_of c < 128 then int (byte_of c) else int (byte_of c) - 256)"

definition mkq_add_esc :: "(nat \<Rightarrow> bool) \<Rightarrow> char \<Rightarrow> mkq \<Rightarrow> mkq option" where
  "mkq_add_esc ok c q =
     do { q1 \<leftarrow> mkq_add ok (CHR ''%'') q;
          q2 \<leftarrow> mkq_add_hex ok (nat (schar c div 16 mod 16)) q1;
          mkq_add_hex ok (nat (schar c mod 16)) q2 }"

definition mkq_add_char :: "(nat \<Rightarrow> bool) \<Rightarrow> char \<Rightarrow> mkq \<Rightarrow> mkq option" where
  "mkq_add_char ok c q =
     (if schar c \<le> 32 \<or> schar c \<ge> 127 then mkq_add_esc ok c q
      else if c = CHR ''='' \<or> c = CHR ''&'' \<or> c = CHR ''%'' then mkq_add_esc ok c q
      else mkq_add ok c q)"

definition mkq_append :: "(nat \<Rightarrow> bool) \<Rightarrow> string \<Rightarrow> mkq \<Rightarrow> mkq option" where
  "mkq_append ok s q = ofold (mkq_add_char ok) s q"

definition mkquery :: "(nat \<Rightarrow> bool) \<Rightarrow> string \<times> string option \<Rightarrow> mkq \<Rightarrow> mkq option" where
  "mkquery ok kv q =
     do { q1 \<leftarrow> mkq_add ok (if q_count q \<noteq> 0 then CHR ''&'' else CHR ''?'') (q\<lparr>q_count := q_count q + 1\<rparr>);
          q2 \<leftarrow> mkq_append ok (fst kv) q1;
          (case snd kv of
             None \<Rightarrow> Some q2
           | Some v \<Rightarrow> do { q3 \<leftarrow> mkq_add ok (CHR ''='') q2; mkq_append ok v q3 }) }"

text \<open>The result is the text up to its final zero.\<close>

definition url_with_query :: "(nat \<Rightarrow> bool) \<Rightarrow> (string \<times> string option) list \<Rightarrow> string \<Rightarrow> string option option" where
  "url_with_query ok args url =
     (let n = length url; alloc = n + 1000 in
      if \<not> ok alloc then Some None
      else do { q1 \<leftarrow> ofold (mkquery ok) args \<lparr>q_count = 0, q_length = n, q_alloc = alloc, q_text = Some (url @ replicate 1000 NUL)\<rparr>;
                q2 \<leftarrow> mkq_add ok NUL q1;
                Some (map_option (\<lambda>t. take (q_length q2 - 1) t) (q_text q2)) })"

section \<open>The text that is built\<close>

definition hex :: "nat \<Rightarrow> char" where
  "hex v = char_of (if v < 10 then v + 48 else v + 65 - 10)"

definition escape_char :: "char \<Rightarrow> string" where
  "escape_char c =
     (if schar c \<le> 32 \<or> schar c \<ge> 127 \<or> c = CHR ''='' \<or> c = CHR ''&'' \<or> c = CHR ''%''
      then [CHR ''%'', hex (byte_of c div 16), hex (byte_of c mod 16)] else [c])"

definition escape :: "string \<Rightarrow> string" where
  "escape s = concat (map escape_char s)"

definition pair_text :: "string \<times> string option \<Rightarrow> string" where
  "pair_text kv = escape (fst kv) @ (case snd kv of None \<Rightarrow> [] | Some v \<Rightarrow> CHR ''='' # escape v)"

fun pairs_text :: "bool \<Rightarrow> (string \<times> string option) list \<Rightarrow> string" where
  "pairs_text cont [] = []"
| "pairs_text cont (kv # kvs) = (if cont then CHR ''&'' else CHR ''?'') # pair_text kv @ pairs_text True kvs"

lemma schar_nibbles: "nat (schar c div 16 mod 16) = byte_of c div 16" "nat (schar c mod 16) = byte_of c mod 16"
proof -
  let ?b = "int (byte_of c)"
  have "(?b - 256) div 16 = - 16 + ?b div 16"
    using div_mult_self1 [of "16 :: int" ?b "- 16"] by simp
  then have f1: "(?b - 256) div 16 mod 16 = ?b div 16 mod 16"
    using mod_add_self1 [of 16 "- 16 + ?b div 16"] by (simp del: mod_add_self1)
  have f2: "(?b - 256) mod 16 = ?b mod 16"
    using mod_mult_self1 [of ?b "- 16" "16 :: int"] by (simp del: mod_mult_self1)
  have "?b div 16 < 16" using byte_of_less [of c] by simp
  then have f3: "?b div 16 mod 16 = ?b div 16" by (intro mod_pos_pos_trivial) simp_all
  have "schar c div 16 mod 16 = ?b div 16" "schar c mod 16 = ?b mod 16"
    by (cases "byte_of c < 128"; simp only: schar_def if_True if_False f1 f2 f3)+
  then show "nat (schar c div 16 mod 16) = byte_of c div 16" "nat (schar c mod 16) = byte_of c mod 16"
    by (simp_all only: nat_div_distrib nat_mod_distrib of_nat_0_le_iff nat_int nat_numeral)
qed

text \<open>The buffer holds a text: there is memory for it, or there is none any more.\<close>

definition mkq_holds :: "string \<Rightarrow> mkq \<Rightarrow> bool" where
  "mkq_holds s q \<longleftrightarrow> (case q_text q of None \<Rightarrow> True
     | Some t \<Rightarrow> length t = q_alloc q \<and> q_length q = length s \<and> length s \<le> q_alloc q \<and> take (length s) t = s)"

definition mkq_step :: "(mkq \<Rightarrow> mkq option) \<Rightarrow> string \<Rightarrow> (nat \<Rightarrow> bool) \<Rightarrow> bool" where
  "mkq_step f add ok \<longleftrightarrow> (\<forall>s q. mkq_holds s q \<longrightarrow> (\<exists>q'. f q = Some q' \<and> mkq_holds (s @ add) q' \<and> q_count q' = q_count q
     \<and> ((\<forall>n. ok n) \<longrightarrow> q_text q \<noteq> None \<longrightarrow> q_text q' \<noteq> None)))"

lemma take_Suc_update: "n < length t \<Longrightarrow> take (Suc n) (t[n := v]) = take n t @ [v]"
  by (simp add: take_Suc_conv_app_nth)

lemma mkq_add_step: "mkq_step (mkq_add ok v) [v] ok"
proof (unfold mkq_step_def, intro allI impI)
  fix s q assume h: "mkq_holds s q"
  show "\<exists>q'. mkq_add ok v q = Some q' \<and> mkq_holds (s @ [v]) q' \<and> q_count q' = q_count q \<and> ((\<forall>n. ok n) \<longrightarrow> q_text q \<noteq> None \<longrightarrow> q_text q' \<noteq> None)"
  proof (cases "q_text q")
    case None
    then show ?thesis by (simp add: mkq_add_def mkq_holds_def)
  next
    case (Some t)
    with h have t: "length t = q_alloc q" "q_length q = length s" "length s \<le> q_alloc q" "take (length s) t = s"
      by (simp_all add: mkq_holds_def)
    show ?thesis
    proof (cases "q_length q = q_alloc q")
      case True
      then have lt: "length s < length (t @ replicate 100 NUL)" "take (length s) (t @ replicate 100 NUL) = s" using t by simp_all
      show ?thesis using Some t True take_Suc_update [OF lt(1), of v] lt(2)
        by (auto simp: mkq_add_def mkq_holds_def Let_def)
    next
      case False
      then have "length s < length t" using t by simp
      with take_Suc_update [OF this, of v] Some t False show ?thesis by (auto simp: mkq_add_def mkq_holds_def Let_def)
    qed
  qed
qed

lemma mkq_step_bind:
  assumes "mkq_step f a ok" "mkq_step g b ok"
  shows "mkq_step (\<lambda>q. Option.bind (f q) g) (a @ b) ok"
  using assms unfolding mkq_step_def by (metis append_assoc bind.bind_lunit)

lemma mkq_step_Some: "mkq_step Some [] ok"
  by (simp add: mkq_step_def)

lemma mkq_add_hex_step: "mkq_step (mkq_add_hex ok v) [hex v] ok"
  unfolding mkq_add_hex_def hex_def by (rule mkq_add_step)

lemma mkq_add_char_step: "mkq_step (mkq_add_char ok c) (escape_char c) ok"
proof -
  have "mkq_step (mkq_add_esc ok c) ([CHR ''%''] @ [hex (byte_of c div 16)] @ [hex (byte_of c mod 16)]) ok"
    unfolding mkq_add_esc_def schar_nibbles
    by (intro mkq_step_bind mkq_add_step mkq_add_hex_step)
  then show ?thesis using mkq_add_step [of ok c] by (auto simp: mkq_add_char_def escape_char_def [abs_def] mkq_step_def)
qed

lemma mkq_append_step: "mkq_step (mkq_append ok s) (escape s) ok"
proof (induction s)
  case Nil
  show ?case using mkq_step_Some by (simp add: mkq_append_def [abs_def] escape_def mkq_step_def)
next
  case (Cons c s)
  have "mkq_append ok (c # s) = (\<lambda>q. Option.bind (mkq_add_char ok c q) (mkq_append ok s))"
    by (auto simp: mkq_append_def fun_eq_iff split: option.split)
  with mkq_step_bind [OF mkq_add_char_step [of ok c] Cons] show ?case by (simp add: escape_def)
qed

lemma mkquery_step:
  "mkq_holds s q \<Longrightarrow> \<exists>q'. mkquery ok kv q = Some q' \<and> mkq_holds (s @ (if q_count q \<noteq> 0 then CHR ''&'' else CHR ''?'') # pair_text kv) q'
    \<and> q_count q' = Suc (q_count q) \<and> ((\<forall>n. ok n) \<longrightarrow> q_text q \<noteq> None \<longrightarrow> q_text q' \<noteq> None)"
proof -
  assume h: "mkq_holds s q"
  let ?c = "if q_count q \<noteq> 0 then CHR ''&'' else CHR ''?''"
  let ?tail = "\<lambda>q. (case snd kv of None \<Rightarrow> Some q | Some v \<Rightarrow> Option.bind (mkq_add ok (CHR ''='') q) (mkq_append ok v))"
  have "mkq_step ?tail (case snd kv of None \<Rightarrow> [] | Some v \<Rightarrow> [CHR ''=''] @ escape v) ok"
    using mkq_step_Some mkq_step_bind [OF mkq_add_step [of ok "CHR ''=''"] mkq_append_step] by (cases "snd kv") auto
  from mkq_step_bind [OF mkq_add_step [of ok ?c] mkq_step_bind [OF mkq_append_step [of ok "fst kv"] this]]
  have st: "mkq_step (\<lambda>q. Option.bind (mkq_add ok ?c q) (\<lambda>q. Option.bind (mkq_append ok (fst kv) q) ?tail)) (?c # pair_text kv) ok"
    by (cases "snd kv") (simp_all add: pair_text_def)
  have "mkq_holds s (q\<lparr>q_count := q_count q + 1\<rparr>)" using h by (simp add: mkq_holds_def split: option.splits)
  with st show ?thesis unfolding mkq_step_def mkquery_def by fastforce
qed

lemma mkqueries_step:
  "mkq_holds s q \<Longrightarrow> \<exists>q'. ofold (mkquery ok) kvs q = Some q' \<and> mkq_holds (s @ pairs_text (q_count q \<noteq> 0) kvs) q'
    \<and> ((\<forall>n. ok n) \<longrightarrow> q_text q \<noteq> None \<longrightarrow> q_text q' \<noteq> None)"
proof (induction kvs arbitrary: s q)
  case (Cons kv kvs)
  from mkquery_step [OF Cons.prems, of ok kv] obtain q1 where
    q1: "mkquery ok kv q = Some q1" "mkq_holds (s @ (if q_count q \<noteq> 0 then CHR ''&'' else CHR ''?'') # pair_text kv) q1"
      "q_count q1 = Suc (q_count q)" "(\<forall>n. ok n) \<longrightarrow> q_text q \<noteq> None \<longrightarrow> q_text q1 \<noteq> None" by blast
  from Cons.IH [OF q1(2)] q1 show ?case by auto
qed simp

lemma url_with_query_text:
  "\<exists>r. url_with_query ok args url = Some r \<and> (\<forall>t. r = Some t \<longrightarrow> t = url @ pairs_text False args) \<and> ((\<forall>n. ok n) \<longrightarrow> r \<noteq> None)"
proof (cases "ok (length url + 1000)")
  case False
  then show ?thesis by (auto simp: url_with_query_def)
next
  case True
  let ?q = "\<lparr>q_count = 0, q_length = length url, q_alloc = length url + 1000, q_text = Some (url @ replicate 1000 NUL)\<rparr>"
  have "mkq_holds url ?q" by (simp add: mkq_holds_def)
  from mkqueries_step [OF this, of ok args] obtain q1 where
    q1: "ofold (mkquery ok) args ?q = Some q1" "mkq_holds (url @ pairs_text False args) q1" "(\<forall>n. ok n) \<longrightarrow> q_text q1 \<noteq> None" by auto
  from mkq_add_step [of ok NUL] q1(2) obtain q2 where
    q2: "mkq_add ok NUL q1 = Some q2" "mkq_holds ((url @ pairs_text False args) @ [NUL]) q2"
      "(\<forall>n. ok n) \<longrightarrow> q_text q1 \<noteq> None \<longrightarrow> q_text q2 \<noteq> None" unfolding mkq_step_def by blast
  have "t = url @ pairs_text False args" if "map_option (take (q_length q2 - 1)) (q_text q2) = Some t" for t
  proof -
    from that obtain m where m: "q_text q2 = Some m" "t = take (q_length q2 - 1) m" by auto
    let ?s = "url @ pairs_text False args"
    have "q_length q2 = Suc (length ?s)" "take (Suc (length ?s)) m = ?s @ [NUL]" using q2(2) m(1) by (simp_all add: mkq_holds_def)
    moreover have "take (length ?s) m = take (length ?s) (take (Suc (length ?s)) m)" by simp
    ultimately show ?thesis using m(2) by (metis append_eq_conv_conj diff_Suc_1)
  qed
  with True q1 q2 show ?thesis by (auto simp: url_with_query_def Let_def)
qed

section \<open>Decoding\<close>

definition hexval :: "char \<Rightarrow> nat" where
  "hexval c = (let b = byte_of c in if b < 58 then b - 48 else b - 55)"

fun unescape :: "string \<Rightarrow> string" where
  "unescape (c # a # b # r) =
     (if c = CHR ''%'' then char_of (16 * hexval a + hexval b) # unescape r
      else (if c = CHR ''+'' then CHR '' '' else c) # unescape (a # b # r))"
| "unescape (c # r) = (if c = CHR ''+'' then CHR '' '' else c) # unescape r"
| "unescape [] = []"

fun split_at :: "char \<Rightarrow> string \<Rightarrow> string list" where
  "split_at d [] = [[]]"
| "split_at d (c # s) = (if c = d then [] # split_at d s else (c # hd (split_at d s)) # tl (split_at d s))"

definition decode_pair :: "string \<Rightarrow> string \<times> string option" where
  "decode_pair s =
     (let k = takeWhile (\<lambda>c. c \<noteq> CHR ''='') s; r = drop (length k) s
      in (unescape k, if r = [] then None else Some (unescape (tl r))))"

text \<open>The query of a location: from the first question mark to a fragment.\<close>

definition query_of :: "string \<Rightarrow> string option" where
  "query_of u =
     (let v = takeWhile (\<lambda>c. c \<noteq> CHR ''#'') u; r = dropWhile (\<lambda>c. c \<noteq> CHR ''?'') v
      in if r = [] then None else Some (tl r))"

definition decode_args :: "string \<Rightarrow> (string \<times> string option) list" where
  "decode_args u = (case query_of u of None \<Rightarrow> [] | Some q \<Rightarrow> map decode_pair (split_at (CHR ''&'') q))"

lemma hexval_hex: "v < 16 \<Longrightarrow> hexval (hex v) = v"
  by (auto simp: hexval_def hex_def byte_of_def Let_def of_char_of)

lemma hex_plain: "v < 16 \<Longrightarrow> hex v \<noteq> CHR ''&'' \<and> hex v \<noteq> CHR ''='' \<and> hex v \<noteq> CHR ''#''"
  by (auto simp: hex_def of_char_of dest!: arg_cong [where f = byte_of] simp: byte_of_def)

lemma unescape_step: "c \<noteq> CHR ''%'' \<Longrightarrow> c \<noteq> CHR ''+'' \<Longrightarrow> unescape (c # r) = c # unescape r"
  by (cases r rule: unescape.cases) auto

lemma unescape_escape: "CHR ''+'' \<notin> set s \<Longrightarrow> unescape (escape s @ r) = s @ unescape r"
proof (induction s)
  case (Cons c s)
  have b: "byte_of c < 256" by (rule byte_of_less)
  then have n: "byte_of c div 16 < 16" by simp
  have "16 * (byte_of c div 16) + byte_of c mod 16 = byte_of c" by simp
  then have cc: "char_of (16 * hexval (hex (byte_of c div 16)) + hexval (hex (byte_of c mod 16))) = c"
    using n by (simp add: hexval_hex) (simp add: byte_of_def)
  show ?case
  proof (cases "escape_char c = [c]")
    case True
    then have "c \<noteq> CHR ''%''" "c \<noteq> CHR ''+''" using Cons.prems by (auto simp: escape_char_def)
    with True Cons show ?thesis by (simp add: escape_def unescape_step)
  next
    case False
    then have "escape_char c = [CHR ''%'', hex (byte_of c div 16), hex (byte_of c mod 16)]" by (auto simp: escape_char_def split: if_splits)
    with Cons cc show ?thesis by (simp add: escape_def)
  qed
qed (simp add: escape_def)

lemma escape_char_plain: "x \<in> set (escape_char c) \<Longrightarrow> x \<noteq> CHR ''&'' \<and> x \<noteq> CHR ''='' \<and> (x = CHR ''#'' \<longrightarrow> c = CHR ''#'')"
proof -
  assume x: "x \<in> set (escape_char c)"
  have "byte_of c div 16 < 16" "byte_of c mod 16 < 16" using byte_of_less [of c] by simp_all
  from hex_plain [OF this(1)] hex_plain [OF this(2)] x show ?thesis
    by (auto simp: escape_char_def split: if_splits)
qed

lemma escape_plain: "CHR ''&'' \<notin> set (escape s)" "CHR ''='' \<notin> set (escape s)" "CHR ''#'' \<notin> set s \<Longrightarrow> CHR ''#'' \<notin> set (escape s)"
  by (auto simp: escape_def dest: escape_char_plain)

text \<open>The characters that the escaping forgets.\<close>

definition arg_ok :: "string \<times> string option \<Rightarrow> bool" where
  "arg_ok kv \<longleftrightarrow> (\<forall>c \<in> {CHR ''+'', CHR ''#''}. c \<notin> set (fst kv) \<and> (case snd kv of None \<Rightarrow> True | Some v \<Rightarrow> c \<notin> set v))"

lemma decode_pair_text: "arg_ok kv \<Longrightarrow> decode_pair (pair_text kv) = kv"
proof -
  assume ok: "arg_ok kv"
  obtain k v where kv: "kv = (k, v)" by (cases kv)
  have tw: "takeWhile (\<lambda>c. c \<noteq> CHR ''='') (escape k @ r) = escape k @ takeWhile (\<lambda>c. c \<noteq> CHR ''='') r" for r
    using escape_plain(2) [of k] by (auto intro!: takeWhile_append2)
  have uk: "unescape (escape k) = k" using unescape_escape [of k "[]"] ok kv by (simp add: arg_ok_def)
  show ?thesis
  proof (cases v)
    case None
    have "takeWhile (\<lambda>c. c \<noteq> CHR ''='') (escape k) = escape k" using tw [of "[]"] by (simp only: append_Nil2 takeWhile.simps)
    with None uk kv show ?thesis by (simp only: decode_pair_def pair_text_def Let_def prod.sel option.case append_Nil2) simp
  next
    case (Some w)
    have "unescape (escape w) = w" using unescape_escape [of w "[]"] ok kv Some by (simp add: arg_ok_def)
    with tw [of "CHR ''='' # escape w"] uk kv Some show ?thesis by (simp add: decode_pair_def pair_text_def Let_def)
  qed
qed

lemma pair_text_plain: "CHR ''&'' \<notin> set (pair_text kv)" "arg_ok kv \<Longrightarrow> CHR ''#'' \<notin> set (pair_text kv)"
  using escape_plain by (auto simp: pair_text_def arg_ok_def split: option.splits)

lemma split_at_append: "d \<notin> set s \<Longrightarrow> split_at d (s @ d # t) = s # split_at d t"
  by (induction s) auto

lemma split_at_id: "d \<notin> set s \<Longrightarrow> split_at d s = [s]"
  by (induction s) auto

lemma split_pairs:
  "split_at (CHR ''&'') (pair_text kv @ pairs_text True kvs) = map pair_text (kv # kvs)"
proof (induction kvs arbitrary: kv)
  case Nil
  show ?case by (simp add: split_at_id pair_text_plain)
next
  case (Cons kv' kvs)
  then show ?case by (simp add: split_at_append pair_text_plain)
qed

lemma pairs_text_plain: "\<forall>kv \<in> set kvs. arg_ok kv \<Longrightarrow> CHR ''#'' \<notin> set (pairs_text b kvs)"
  by (induction kvs arbitrary: b) (auto simp: pair_text_plain)

lemma decode_built:
  assumes "CHR ''?'' \<notin> set url" "CHR ''#'' \<notin> set url" "\<forall>kv \<in> set args. arg_ok kv"
  shows "decode_args (url @ pairs_text False args) = args"
proof (cases args)
  case Nil
  have "dropWhile (\<lambda>c. c \<noteq> CHR ''?'') (takeWhile (\<lambda>c. c \<noteq> CHR ''#'') url) = []"
    using assms(1) by (auto simp: dropWhile_eq_Nil_conv dest: set_takeWhileD)
  with Nil show ?thesis by (simp add: decode_args_def query_of_def Let_def)
next
  case (Cons kv kvs)
  let ?u = "url @ pairs_text False args"
  have "CHR ''#'' \<notin> set ?u" using assms(2) pairs_text_plain [OF assms(3)] by simp
  then have "takeWhile (\<lambda>c. c \<noteq> CHR ''#'') ?u = ?u" by (auto simp: takeWhile_eq_all_conv)
  moreover have "dropWhile (\<lambda>c. c \<noteq> CHR ''?'') ?u = pairs_text False args"
    using assms(1) Cons by (subst dropWhile_append2) auto
  ultimately have "query_of ?u = Some (pair_text kv @ pairs_text True kvs)"
    unfolding query_of_def Let_def using Cons by (simp only: pairs_text.simps) simp
  moreover have "map decode_pair (map pair_text (kv # kvs)) = args" using assms(3) Cons by (auto simp: decode_pair_text intro: map_idI)
  ultimately show ?thesis by (simp add: decode_args_def split_pairs del: pairs_text.simps split_at.simps)
qed

text \<open>The query of a redirection is the query of the request: the buffer is never written outside of its memory,
  whatever its length, and whenever there is memory the built location, decoded like a form encoded query, gives
  the arguments of the request back, in order, with their values or without, whatever bytes they hold; except
  that the characters plus and hash are not escaped, so that the arguments must not contain them.\<close>

lemma redirect_keeps_arguments:
  assumes "CHR ''?'' \<notin> set url" "CHR ''#'' \<notin> set url" "\<forall>kv \<in> set args. arg_ok kv"
  shows "\<exists>r. url_with_query ok args url = Some r \<and> ((\<forall>n. ok n) \<longrightarrow> r \<noteq> None)
    \<and> (\<forall>t. r = Some t \<longrightarrow> take (length url) t = url \<and> decode_args t = args)"
proof -
  from url_with_query_text [of ok args url] obtain r where
    r: "url_with_query ok args url = Some r" "\<forall>t. r = Some t \<longrightarrow> t = url @ pairs_text False args" "(\<forall>n. ok n) \<longrightarrow> r \<noteq> None" by blast
  have "take (length url) t = url \<and> decode_args t = args" if "r = Some t" for t
    using r(2) that decode_built [OF assms] by simp
  with r show ?thesis by blast
qed

text \<open>The two characters: a plus comes back as a space, and everything from a hash on is lost.\<close>

lemma plus_becomes_space: "decode_args (''/x/'' @ pairs_text False [(''q'', Some ''a+b'')]) = [(''q'', Some ''a b'')]"
  by code_simp

lemma hash_cuts_arguments: "decode_args (''/x/'' @ pairs_text False [(''q'', Some ''a#b''), (''r'', Some ''1'')]) = [(''q'', Some ''a'')]"
  by code_simp

end
