(* ===== verification/Hreq.thy ===== *)
theory Hreq
  imports Msg_Json Hquery Locale_Root
begin

unbundle bit_operations_syntax

text \<open>
  HTTP requests, \<^verbatim>\<open>src/src/afb-hreq.c\<close> and \<^verbatim>\<open>src/src/afb-method.c\<close>: replying, serving files, posted data, arguments,
  the connection of a request to its session.

  The HTTP library is not modelled: \<open>conn\<close> is what it tells of a connection (headers, cookies, arguments), a
  \<open>response\<close> is what it is given to send. \<open>hq_sent\<close> collects the queued responses. The file system is the record
  \<open>fsys\<close>. \<open>hq_open\<close> counts the file descriptors that the request holds: a response made from a descriptor gives it
  to the library when it is queued. The strings of a request keep their length with them, so the fields
  \<open>lenurl\<close> and \<open>lentail\<close> are the lengths of \<open>hq_url\<close> and \<open>hq_tail\<close>.
\<close>

section \<open>Methods\<close>

definition afb_method_none :: nat where "afb_method_none = 0"
definition afb_method_get :: nat where "afb_method_get = 1"
definition afb_method_post :: nat where "afb_method_post = 2"
definition afb_method_head :: nat where "afb_method_head = 4"
definition afb_method_connect :: nat where "afb_method_connect = 8"
definition afb_method_delete :: nat where "afb_method_delete = 16"
definition afb_method_options :: nat where "afb_method_options = 32"
definition afb_method_patch :: nat where "afb_method_patch = 64"
definition afb_method_put :: nat where "afb_method_put = 128"
definition afb_method_trace :: nat where "afb_method_trace = 256"

lemmas method_defs = afb_method_none_def afb_method_get_def afb_method_post_def afb_method_head_def afb_method_connect_def
  afb_method_delete_def afb_method_options_def afb_method_patch_def afb_method_put_def afb_method_trace_def

text \<open>\<open>c & ~' '\<close>: without the bit that distinguishes the letter cases.\<close>

definition upcase :: "char \<Rightarrow> char" where
  "upcase c = char_of (if bit (byte_of c) 5 then byte_of c - 32 else byte_of c)"

definition get_method :: "string \<Rightarrow> nat" where
  "get_method m =
     (let c = upcase (cat m 0); d = upcase (cat m 1) in
      if c = CHR ''C'' then afb_method_connect else if c = CHR ''D'' then afb_method_delete
      else if c = CHR ''G'' then afb_method_get else if c = CHR ''H'' then afb_method_head
      else if c = CHR ''O'' then afb_method_options
      else if c = CHR ''P'' then
        (if d = CHR ''A'' then afb_method_patch else if d = CHR ''O'' then afb_method_post
         else if d = CHR ''U'' then afb_method_put else afb_method_none)
      else if c = CHR ''T'' then afb_method_trace else afb_method_none)"

definition get_method_name :: "nat \<Rightarrow> string option" where
  "get_method_name m =
     (if m = afb_method_get then Some ''GET'' else if m = afb_method_post then Some ''POST''
      else if m = afb_method_head then Some ''HEAD'' else if m = afb_method_connect then Some ''CONNECT''
      else if m = afb_method_delete then Some ''DELETE'' else if m = afb_method_options then Some ''OPTIONS''
      else if m = afb_method_patch then Some ''PATCH'' else if m = afb_method_put then Some ''PUT''
      else if m = afb_method_trace then Some ''TRACE'' else None)"

lemma upcase_values: "upcase (CHR ''C'') = CHR ''C''" "upcase (CHR ''D'') = CHR ''D''" "upcase (CHR ''G'') = CHR ''G''" "upcase (CHR ''H'') = CHR ''H''"
  "upcase (CHR ''O'') = CHR ''O''" "upcase (CHR ''P'') = CHR ''P''" "upcase (CHR ''T'') = CHR ''T''" "upcase (CHR ''A'') = CHR ''A''" "upcase (CHR ''U'') = CHR ''U''"
  by code_simp+

lemma get_method_values: "get_method ''GET'' = afb_method_get" "get_method ''POST'' = afb_method_post" "get_method ''HEAD'' = afb_method_head"
  "get_method ''CONNECT'' = afb_method_connect" "get_method ''DELETE'' = afb_method_delete" "get_method ''OPTIONS'' = afb_method_options"
  "get_method ''PATCH'' = afb_method_patch" "get_method ''PUT'' = afb_method_put" "get_method ''TRACE'' = afb_method_trace"
  by (simp_all add: get_method_def upcase_values cat_def Let_def)

lemma get_method_name_inverse: "get_method_name m = Some n \<Longrightarrow> get_method n = m"
  by (simp only: get_method_name_def split: if_split_asm) (simp_all add: get_method_values [symmetric])

section \<open>State\<close>

record hreq_data =
  d_key :: string
  d_length :: nat
  d_value :: "string option"
  d_path :: "string option"

record conn =
  cn_header :: "string \<Rightarrow> string option"
  cn_cookie :: "string \<Rightarrow> string option"
  cn_arg :: "string \<Rightarrow> string option"
  cn_args :: "(string \<times> string option) list"

datatype 'j body = Body_buffer string | Body_fd int nat | Body_json "'j jval"

record 'j response =
  rsp_status :: nat
  rsp_headers :: "(string \<times> string) list"
  rsp_body :: "'j body"

record 'j afb_hreq =
  hq_context :: afb_context
  hq_refcount :: int
  hq_cacheTimeout :: "string option"
  hq_conn :: conn
  hq_method :: nat
  hq_reqid :: int
  hq_scanned :: bool
  hq_suspended :: bool
  hq_replied :: bool
  hq_version :: string
  hq_lang :: "string option"
  hq_url :: string
  hq_tail :: string
  hq_postform :: bool
  hq_data :: "hreq_data list"
  hq_files :: "string \<Rightarrow> string option"
  hq_json :: "'j jval option"
  hq_upgrade :: bool
  hq_sent :: "'j response list"
  hq_resumed :: nat
  hq_open :: int
  hq_freed :: bool

text \<open>The cookie: its name, and the format that \<open>asprintf\<close> is given to set it.\<close>

record hreq_globals =
  g_cookie_name :: "string option"
  g_cookie_setter :: "string option"
  g_tmp_pattern :: "string option"

definition MHD_HTTP_OK :: nat where "MHD_HTTP_OK = 200"
definition MHD_HTTP_MOVED_PERMANENTLY :: nat where "MHD_HTTP_MOVED_PERMANENTLY = 301"
definition MHD_HTTP_NOT_MODIFIED :: nat where "MHD_HTTP_NOT_MODIFIED = 304"
definition MHD_HTTP_UNAUTHORIZED :: nat where "MHD_HTTP_UNAUTHORIZED = 401"
definition MHD_HTTP_FORBIDDEN :: nat where "MHD_HTTP_FORBIDDEN = 403"
definition MHD_HTTP_NOT_FOUND :: nat where "MHD_HTTP_NOT_FOUND = 404"
definition MHD_HTTP_METHOD_NOT_ALLOWED :: nat where "MHD_HTTP_METHOD_NOT_ALLOWED = 405"
definition MHD_HTTP_INTERNAL_SERVER_ERROR :: nat where "MHD_HTTP_INTERNAL_SERVER_ERROR = 500"

definition long_key_for_uuid :: string where "long_key_for_uuid = ''x-afb-uuid''"
definition short_key_for_uuid :: string where "short_key_for_uuid = ''uuid''"
definition long_key_for_token :: string where "long_key_for_token = ''x-afb-token''"
definition short_key_for_token :: string where "short_key_for_token = ''token''"
definition long_key_for_reqid :: string where "long_key_for_reqid = ''x-afb-reqid''"
definition short_key_for_reqid :: string where "short_key_for_reqid = ''reqid''"

section \<open>Replying\<close>

text \<open>\<open>asprintf\<close> with one string argument; \<open>None\<close>: a conversion that takes another argument.\<close>

fun format1 :: "string \<Rightarrow> string option \<Rightarrow> string option" where
  "format1 [] v = Some []"
| "format1 (c # d # s) v =
     (if c = CHR ''%'' then
        (if d = CHR ''%'' then map_option (Cons (CHR ''%'')) (format1 s v)
         else if d = CHR ''s'' then (case v of None \<Rightarrow> None | Some x \<Rightarrow> map_option (append x) (format1 s None))
         else None)
      else map_option (Cons c) (format1 (d # s) v))"
| "format1 [c] v = (if c = CHR ''%'' then None else Some [c])"

text \<open>\<open>None\<close> is a fault: a released session or a bad format.\<close>

definition afb_hreq_reply_v ::
  "hreq_globals \<Rightarrow> sessions \<Rightarrow> nat \<Rightarrow> 'j body \<Rightarrow> (string \<times> string) list \<Rightarrow> 'j afb_hreq \<Rightarrow> 'j afb_hreq option" where
  "afb_hreq_reply_v g s status body args h =
     (if hq_replied h then Some h
      else do {
        v \<leftarrow> afb_context_sent_uuid s (hq_context h);
        cookie \<leftarrow> (case v of
             None \<Rightarrow> Some []
           | Some u \<Rightarrow> do { fmt \<leftarrow> g_cookie_setter g; c \<leftarrow> format1 fmt (Some u); Some (if c = [] then [] else [(''Set-Cookie'', c)]) });
        let h1 = h\<lparr>hq_sent := hq_sent h @ [\<lparr>rsp_status = status, rsp_headers = args @ cookie, rsp_body = body\<rparr>],
                   hq_open := (case body of Body_fd _ _ \<Rightarrow> hq_open h - 1 | _ \<Rightarrow> hq_open h), hq_replied := True\<rparr>;
        Some (if hq_suspended h1 then h1\<lparr>hq_suspended := False, hq_resumed := hq_resumed h1 + 1\<rparr> else h1) })"

definition afb_hreq_reply where
  "afb_hreq_reply g s status body args h = afb_hreq_reply_v g s status body args h"

definition afb_hreq_reply_empty where
  "afb_hreq_reply_empty g s status args h = afb_hreq_reply_v g s status (Body_buffer []) args h"

definition afb_hreq_reply_static where
  "afb_hreq_reply_static g s status buffer args h = afb_hreq_reply_v g s status (Body_buffer buffer) args h"

definition afb_hreq_reply_copy where
  "afb_hreq_reply_copy g s status buffer args h = afb_hreq_reply_v g s status (Body_buffer buffer) args h"

definition afb_hreq_reply_free where
  "afb_hreq_reply_free g s status buffer args h = afb_hreq_reply_v g s status (Body_buffer buffer) args h"

definition afb_hreq_reply_error where
  "afb_hreq_reply_error g s status h = afb_hreq_reply_empty g s status [] h"

text \<open>\<open>ok\<close> tells which allocations succeed.\<close>

definition afb_hreq_redirect_to where
  "afb_hreq_redirect_to ok g s url add_query_part h =
     do { wqp \<leftarrow> (if add_query_part then url_with_query ok (cn_args (hq_conn h)) url else Some None);
          afb_hreq_reply_static g s MHD_HTTP_MOVED_PERMANENTLY [] [(''Location'', case wqp of None \<Rightarrow> url | Some t \<Rightarrow> t)] h }"

text \<open>\<open>None\<close> also for an empty url, whose last character is read.\<close>

definition afb_hreq_redirect_to_ending_slash_if_needed where
  "afb_hreq_redirect_to_ending_slash_if_needed ok g s h =
     (if hq_url h = [] then None
      else if last (hq_url h) = slash then Some (h, False)
      else map_option (\<lambda>h'. (h', True)) (afb_hreq_redirect_to ok g s (hq_url h @ [slash]) True h))"

section \<open>Serving files\<close>

datatype file_kind = Dir | Reg | Special

record file_stat =
  st_kind :: file_kind
  st_sec :: int
  st_nsec :: int
  st_size :: nat

record fsys =
  fs_openat :: "int \<Rightarrow> string \<Rightarrow> errno + int"
  fs_dup :: "int \<Rightarrow> int option"
  fs_stat :: "int \<Rightarrow> file_stat option"
  fs_access :: "int \<Rightarrow> string \<Rightarrow> bool"
  fs_magic :: "int \<Rightarrow> string option"

text \<open>\<open>%08X\<close> of a 32 bit integer.\<close>

definition hex8 :: "32 word \<Rightarrow> string" where
  "hex8 w = map (\<lambda>i. hex (unat (drop_bit (4 * i) w AND 15))) [7, 6, 5, 4, 3, 2, 1, 0]"

definition etag_of :: "file_stat \<Rightarrow> string" where
  "etag_of st = hex8 (of_int (st_sec st) XOR of_int (st_nsec st)) @ hex8 (of_nat (st_size st))"

lemma length_etag: "length (etag_of st) = 16"
  by (simp add: etag_of_def hex8_def)

definition known_types :: "(string \<times> string) list" where
  "known_types = [(''.js'', ''text/javascript''), (''.html'', ''text/html''), (''.css'', ''text/css'')]"

text \<open>\<open>strrchr(filename, '.')\<close>.\<close>

definition extension :: "string \<Rightarrow> string option" where
  "extension f = (if dot \<in> set f then Some (dot # rev (takeWhile (\<lambda>c. c \<noteq> dot) (rev f))) else None)"

definition mimetype_fd_name :: "fsys \<Rightarrow> int \<Rightarrow> string \<Rightarrow> string option" where
  "mimetype_fd_name fs fd filename =
     (case (case extension filename of
              None \<Rightarrow> None
            | Some e \<Rightarrow> map_option (\<lambda>i. snd (known_types ! i)) (first_index (\<lambda>(k, _). strcasecmp e k = 0) known_types)) of
        Some t \<Rightarrow> Some t
      | None \<Rightarrow> fs_magic fs fd)"

text \<open>The common end of both functions: a descriptor of a regular file or of something else. The size always fits
  its 64 bit type; the library adds no header without a value.\<close>

definition serve_fd :: "fsys \<Rightarrow> hreq_globals \<Rightarrow> sessions \<Rightarrow> int \<Rightarrow> file_stat \<Rightarrow> string \<Rightarrow> 'j afb_hreq \<Rightarrow> ('j afb_hreq \<times> bool) option" where
  "serve_fd fs g s fd st filename h =
     (let closed = h\<lparr>hq_open := hq_open h - 1\<rparr> in
      if st_kind st \<noteq> Reg then map_option (\<lambda>h. (h, True)) (afb_hreq_reply_error g s MHD_HTTP_FORBIDDEN closed)
      else if hq_method h AND (afb_method_get OR afb_method_head) = 0
      then map_option (\<lambda>h. (h, True)) (afb_hreq_reply_error g s MHD_HTTP_METHOD_NOT_ALLOWED closed)
      else let etag = etag_of st; fin = (case hq_cacheTimeout h of None \<Rightarrow> [] | Some c \<Rightarrow> [(''Cache-Control'', c)]) @ [(''ETag'', etag)] in
        map_option (\<lambda>h. (h, True))
          (if cn_header (hq_conn h) ''If-None-Match'' = Some etag
           then afb_hreq_reply g s MHD_HTTP_NOT_MODIFIED (Body_buffer []) fin closed
           else afb_hreq_reply g s MHD_HTTP_OK (Body_fd fd (st_size st))
                  ((case mimetype_fd_name fs fd filename of None \<Rightarrow> [] | Some t \<Rightarrow> [(''Content-Type'', t)]) @ fin) h))"

text \<open>A directory is served through its index, which may be a directory again: \<open>fuel\<close> bounds the depth. The
  boolean is the result of the function.\<close>

fun afb_hreq_reply_file_if_exist ::
  "nat \<Rightarrow> (nat \<Rightarrow> bool) \<Rightarrow> fsys \<Rightarrow> hreq_globals \<Rightarrow> sessions \<Rightarrow> int \<Rightarrow> string \<Rightarrow> 'j afb_hreq \<Rightarrow> ('j afb_hreq \<times> bool) option" where
  "afb_hreq_reply_file_if_exist 0 ok fs g s dirfd filename h = None"
| "afb_hreq_reply_file_if_exist (Suc fuel) ok fs g s dirfd filename h =
     (let err = (\<lambda>st h. map_option (\<lambda>h. (h, True)) (afb_hreq_reply_error g s st h)) in
      case (if filename \<noteq> [] then fs_openat fs dirfd filename
            else (case fs_dup fs dirfd of None \<Rightarrow> Inl EIO | Some fd \<Rightarrow> Inr fd)) of
        Inl e \<Rightarrow> if filename \<noteq> [] \<and> e = ENOENT then Some (h, False)
                 else err (if filename \<noteq> [] then MHD_HTTP_FORBIDDEN else MHD_HTTP_INTERNAL_SERVER_ERROR) h
      | Inr fd \<Rightarrow>
          let h1 = h\<lparr>hq_open := hq_open h + 1\<rparr> in
          (case fs_stat fs fd of
             None \<Rightarrow> err MHD_HTTP_INTERNAL_SERVER_ERROR h
           | Some st \<Rightarrow>
               if st_kind st = Dir then
                 (case afb_hreq_redirect_to_ending_slash_if_needed ok g s h1 of
                    None \<Rightarrow> None
                  | Some (h2, rc) \<Rightarrow>
                      map_option (\<lambda>(h3, rc'). (h3\<lparr>hq_open := hq_open h3 - 1\<rparr>, rc'))
                        (if \<not> rc \<and> fs_access fs fd ''index.html''
                         then afb_hreq_reply_file_if_exist fuel ok fs g s fd ''index.html'' h2
                         else Some (h2, rc)))
               else serve_fd fs g s fd st filename h1))"

definition afb_hreq_reply_file where
  "afb_hreq_reply_file fuel ok fs g s dirfd filename h =
     (case afb_hreq_reply_file_if_exist fuel ok fs g s dirfd filename h of
        None \<Rightarrow> None
      | Some (h', rc) \<Rightarrow> map_option (\<lambda>h. (h, True)) (if rc then Some h' else afb_hreq_reply_error g s MHD_HTTP_NOT_FOUND h'))"

text \<open>\<open>open_at\<close> is \<open>locale_search_open\<close> on the search of the request; its result is a descriptor or an error.\<close>

definition index_name :: "string \<Rightarrow> string" where
  "index_name filename = (if filename \<noteq> [] \<and> last filename \<noteq> slash then filename @ [slash] else filename) @ ''index.html''"

fun afb_hreq_reply_locale_file_if_exist ::
  "nat \<Rightarrow> (nat \<Rightarrow> bool) \<Rightarrow> fsys \<Rightarrow> hreq_globals \<Rightarrow> sessions \<Rightarrow> (string \<Rightarrow> (errno + int) option) \<Rightarrow> string \<Rightarrow> 'j afb_hreq \<Rightarrow> ('j afb_hreq \<times> bool) option" where
  "afb_hreq_reply_locale_file_if_exist 0 ok fs g s open_at filename h = None"
| "afb_hreq_reply_locale_file_if_exist (Suc fuel) ok fs g s open_at filename h =
     (let err = (\<lambda>st h. map_option (\<lambda>h. (h, True)) (afb_hreq_reply_error g s st h)) in
      case open_at (if filename \<noteq> [] then filename else ''.'') of
        None \<Rightarrow> None
      | Some (Inl e) \<Rightarrow> if e = ENOENT then Some (h, False) else err MHD_HTTP_FORBIDDEN h
      | Some (Inr fd) \<Rightarrow>
          let h1 = h\<lparr>hq_open := hq_open h + 1\<rparr> in
          (case fs_stat fs fd of
             None \<Rightarrow> err MHD_HTTP_INTERNAL_SERVER_ERROR h
           | Some st \<Rightarrow>
               if st_kind st = Dir then
                 (case afb_hreq_redirect_to_ending_slash_if_needed ok g s h1 of
                    None \<Rightarrow> None
                  | Some (h2, rc) \<Rightarrow>
                      map_option (\<lambda>(h3, rc'). (h3\<lparr>hq_open := hq_open h3 - 1\<rparr>, rc'))
                        (if \<not> rc then afb_hreq_reply_locale_file_if_exist fuel ok fs g s open_at (index_name filename) h2
                         else Some (h2, rc)))
               else serve_fd fs g s fd st filename h1))"

definition afb_hreq_reply_locale_file where
  "afb_hreq_reply_locale_file fuel ok fs g s open_at filename h =
     (case afb_hreq_reply_locale_file_if_exist fuel ok fs g s open_at filename h of
        None \<Rightarrow> None
      | Some (h', rc) \<Rightarrow> map_option (\<lambda>h. (h, True)) (if rc then Some h' else afb_hreq_reply_error g s MHD_HTTP_NOT_FOUND h'))"

section \<open>References\<close>

definition afb_hreq_addref :: "'j afb_hreq \<Rightarrow> 'j afb_hreq" where
  "afb_hreq_addref h = h\<lparr>hq_refcount := hq_refcount h + 1\<rparr>"

text \<open>The files saved by the request are removed.\<close>

definition unlink_files :: "hreq_data list \<Rightarrow> (string \<Rightarrow> string option) \<Rightarrow> string \<Rightarrow> string option" where
  "unlink_files ds files = foldl (\<lambda>f d. case d_path d of None \<Rightarrow> f | Some p \<Rightarrow> f(p := None)) files ds"

definition afb_hreq_unref :: "sessions \<Rightarrow> int \<Rightarrow> string \<Rightarrow> 'j afb_hreq \<Rightarrow> (sessions \<times> 'j afb_hreq) option" where
  "afb_hreq_unref s now newuuid h =
     (let h1 = h\<lparr>hq_refcount := hq_refcount h - 1\<rparr> in
      if hq_refcount h1 \<noteq> 0 then Some (s, h1)
      else do {
        (s', x) \<leftarrow> afb_context_disconnect s (hq_context h1) now newuuid;
        Some (s', h1\<lparr>hq_postform := False, hq_files := unlink_files (hq_data h1) (hq_files h1), hq_data := [], hq_context := x, hq_json := None, hq_freed := True\<rparr>) })"

section \<open>The path of a request\<close>

fun skip_slashes :: "string \<Rightarrow> string" where
  "skip_slashes (c # d # t) = (if d = slash then skip_slashes (d # t) else c # d # t)"
| "skip_slashes s = s"

text \<open>The loop removes a character while the one after the next position is a slash.\<close>

definition afb_hreq_unprefix :: "string \<Rightarrow> nat \<Rightarrow> 'j afb_hreq \<Rightarrow> 'j afb_hreq \<times> bool" where
  "afb_hreq_unprefix prefix len h =
     (let tail = hq_tail h in
      if len > length tail \<or> (cat tail len \<noteq> NUL \<and> cat tail len \<noteq> slash) \<or> strncasecmp prefix tail len \<noteq> 0 then (h, False)
      else (h\<lparr>hq_tail := skip_slashes (drop len tail)\<rparr>, True))"

definition afb_hreq_valid_tail :: "'j afb_hreq \<Rightarrow> bool" where
  "afb_hreq_valid_tail h = hreq_validsubpath (hq_tail h)"

section \<open>Posted data and arguments\<close>

text \<open>The index of the data of a key, which is put in front when it is new. \<open>aok\<close>: the allocations succeed.\<close>

definition get_data :: "'j afb_hreq \<Rightarrow> string \<Rightarrow> bool \<Rightarrow> bool \<Rightarrow> 'j afb_hreq \<times> nat option" where
  "get_data h key create aok =
     (case first_index (\<lambda>d. strcasecmp (d_key d) key = 0) (hq_data h) of
        Some i \<Rightarrow> (h, Some i)
      | None \<Rightarrow> if create \<and> aok
                then (h\<lparr>hq_data := \<lparr>d_key = key, d_length = 0, d_value = None, d_path = None\<rparr> # hq_data h\<rparr>, Some 0)
                else (h, None))"

definition set_data :: "nat \<Rightarrow> hreq_data \<Rightarrow> 'j afb_hreq \<Rightarrow> 'j afb_hreq" where
  "set_data i d h = h\<lparr>hq_data := (hq_data h)[i := d]\<rparr>"

definition afb_hreq_get_cookie :: "'j afb_hreq \<Rightarrow> string \<Rightarrow> string option" where
  "afb_hreq_get_cookie h name = cn_cookie (hq_conn h) name"

definition afb_hreq_get_header :: "'j afb_hreq \<Rightarrow> string \<Rightarrow> string option" where
  "afb_hreq_get_header h name = cn_header (hq_conn h) name"

definition afb_hreq_get_argument :: "'j afb_hreq \<Rightarrow> string \<Rightarrow> string option" where
  "afb_hreq_get_argument h name =
     (case get_data h name False True of
        (_, Some i) \<Rightarrow> d_value (hq_data h ! i)
      | (_, None) \<Rightarrow> cn_arg (hq_conn h) name)"

text \<open>\<open>None\<close>: the missing data of a failed allocation is used.\<close>

definition afb_hreq_post_add :: "bool \<Rightarrow> bool \<Rightarrow> string \<Rightarrow> string \<Rightarrow> 'j afb_hreq \<Rightarrow> ('j afb_hreq \<times> bool) option" where
  "afb_hreq_post_add aok rok key data h =
     (case get_data h key True aok of
        (_, None) \<Rightarrow> None
      | (h1, Some i) \<Rightarrow>
          let d = hq_data h1 ! i in
          if d_path d \<noteq> None then Some (h1, False)
          else if \<not> rok then Some (h1, False)
          else Some (set_data i (d\<lparr>d_value := Some (take (d_length d) (case d_value d of None \<Rightarrow> [] | Some v \<Rightarrow> v) @ data),
                      d_length := d_length d + length data\<rparr>) h1, True))"

text \<open>\<open>acc\<close> is the access check, \<open>st\<close> the kind of the directory if it can be told.\<close>

definition afb_hreq_init_download_path :: "(string \<Rightarrow> bool) \<Rightarrow> (string \<Rightarrow> file_kind option) \<Rightarrow> bool \<Rightarrow> string \<Rightarrow> hreq_globals \<Rightarrow> hreq_globals \<times> int" where
  "afb_hreq_init_download_path acc st malloc_ok directory g =
     (if \<not> acc directory then (g, -1)
      else case st directory of
        None \<Rightarrow> (g, -1)
      | Some k \<Rightarrow>
          if k \<noteq> Dir then (g, -1)
          else if \<not> malloc_ok then (g, -1)
          else let b = rev (dropWhile (\<lambda>c. c = slash) (rev directory)); base = (if b = [] then take 1 directory else b)
            in (g\<lparr>g_tmp_pattern := Some (base @ ''/XXXXXX'')\<rparr>, 0))"

text \<open>\<open>temp\<close>: the name that \<open>mkostemp\<close> makes of the pattern, if it can.\<close>

definition opentempfile :: "(string \<Rightarrow> string option) \<Rightarrow> bool \<Rightarrow> hreq_globals \<Rightarrow> string option" where
  "opentempfile temp strdup_ok g =
     (if \<not> strdup_ok then None else temp (case g_tmp_pattern g of None \<Rightarrow> ''XXXXXX'' | Some p \<Rightarrow> p))"

text \<open>The loop that writes: \<open>outs\<close> are the results of \<open>write\<close>, a list that ends where
  the last call blocks. The result is what was written and what is left.\<close>

fun write_loop :: "(errno + nat) list \<Rightarrow> string \<Rightarrow> string \<times> string" where
  "write_loop outs [] = ([], [])"
| "write_loop [] data = ([], data)"
| "write_loop (Inl e # outs) data = (if e = EINTR then write_loop outs data else ([], data))"
| "write_loop (Inr n # outs) data = (case write_loop outs (drop n data) of (w, r) \<Rightarrow> (take n data @ w, r))"

text \<open>The file of a key is created with its first part; \<open>open_ok\<close>: it can be opened again.\<close>

definition afb_hreq_post_add_file ::
  "(string \<Rightarrow> string option) \<Rightarrow> bool \<Rightarrow> bool \<Rightarrow> bool \<Rightarrow> bool \<Rightarrow> (errno + nat) list \<Rightarrow> hreq_globals \<Rightarrow> string \<Rightarrow> string \<Rightarrow> string
     \<Rightarrow> 'j afb_hreq \<Rightarrow> ('j afb_hreq \<times> bool) option" where
  "afb_hreq_post_add_file temp aok strdup_ok strdup2_ok open_ok outs g key file data h =
     (case get_data h key True aok of
        (_, None) \<Rightarrow> None
      | (h1, Some i) \<Rightarrow>
          let d = hq_data h1 ! i;
              finish = (\<lambda>p d h. case write_loop outs data of
                 (w, r) \<Rightarrow> ((set_data i (d\<lparr>d_length := d_length d + length w\<rparr>) h)
                     \<lparr>hq_files := (hq_files h)(p \<mapsto> (case hq_files h p of None \<Rightarrow> [] | Some c \<Rightarrow> c) @ w)\<rparr>, r = []))
          in (case d_value d of
                None \<Rightarrow>
                  if \<not> strdup_ok then Some (h1, False)
                  else (case opentempfile temp strdup2_ok g of
                          None \<Rightarrow> Some (set_data i (d\<lparr>d_value := Some file\<rparr>) h1, False)
                        | Some p \<Rightarrow> Some (finish p (d\<lparr>d_value := Some file, d_path := Some p\<rparr>) h1))
              | Some v \<Rightarrow>
                  if v \<noteq> file \<or> d_path d = None then Some (h1, False)
                  else if \<not> open_ok then Some (h1, False)
                  else Some (finish (the (d_path d)) d h1)))"

definition req_get :: "'j afb_hreq \<Rightarrow> string \<Rightarrow> afb_arg" where
  "req_get h name =
     (case get_data h name False True of
        (_, Some i) \<Rightarrow> let d = hq_data h ! i in \<lparr>arg_name = Some (d_key d), arg_value = d_value d, arg_path = d_path d\<rparr>
      | (_, None) \<Rightarrow>
          let v = cn_arg (hq_conn h) name in \<lparr>arg_name = (if v = None then None else Some name), arg_value = v, arg_path = None\<rparr>)"

text \<open>A missing value is the JSON null, \<open>null\<close>.\<close>

definition iterarg :: "'j \<Rightarrow> string \<times> string option \<Rightarrow> string \<times> 'j jval" where
  "iterarg null kv = (fst kv, case snd kv of None \<Rightarrow> J_given null | Some v \<Rightarrow> J_string v)"

definition req_json :: "'j \<Rightarrow> 'j afb_hreq \<Rightarrow> 'j afb_hreq \<times> 'j jval" where
  "req_json null h =
     (case hq_json h of
        Some obj \<Rightarrow> (h, obj)
      | None \<Rightarrow>
          let val = (\<lambda>d. case d_path d of
                 None \<Rightarrow> (case d_value d of None \<Rightarrow> J_given null | Some v \<Rightarrow> J_string v)
               | Some p \<Rightarrow> J_object [(''file'', J_string (case d_value d of None \<Rightarrow> [] | Some v \<Rightarrow> v)), (''path'', J_string p)]);
              obj = J_object (map (iterarg null) (cn_args (hq_conn h)) @ map (\<lambda>d. (d_key d, val d)) (hq_data h))
          in (h\<lparr>hq_json := Some obj\<rparr>, obj))"

definition req_raw :: "('j jval \<Rightarrow> string option) \<Rightarrow> 'j \<Rightarrow> 'j afb_hreq \<Rightarrow> 'j afb_hreq \<times> string option \<times> nat" where
  "req_raw to_str null h =
     (case req_json null h of (h', obj) \<Rightarrow> (h', to_str obj, case to_str obj of None \<Rightarrow> 0 | Some s \<Rightarrow> length s))"

definition req_send where
  "req_send g s buffer h = afb_hreq_reply_copy g s MHD_HTTP_OK buffer [] h"

text \<open>One part of a body; \<open>None\<close> is the end of the stream.\<close>

definition send_json_cb :: "string \<Rightarrow> nat \<Rightarrow> nat \<Rightarrow> string option" where
  "send_json_cb text pos maxi = (let part = take maxi (drop pos text) in if part = [] then None else Some part)"

definition req_reply where
  "req_reply now newuuid g s status info resp h =
     do { let reqid = (case afb_hreq_get_argument h long_key_for_reqid of
                 Some r \<Rightarrow> Some r | None \<Rightarrow> afb_hreq_get_argument h short_key_for_reqid);
          (reply, c) \<leftarrow> afb_msg_json_reply status info resp (Some (s, hq_context h)) reqid now newuuid;
          (s1, x1) \<leftarrow> c;
          h' \<leftarrow> afb_hreq_reply g s1 MHD_HTTP_OK (Body_json reply) [] (h\<lparr>hq_context := x1\<rparr>);
          Some (s1, h') }"

definition req_fail where
  "req_fail now newuuid g s status info h = req_reply now newuuid g s status info None h"

definition req_success where
  "req_success now newuuid g s obj info h = req_reply now newuuid g s ''success'' info (Some obj) h"

definition req_subscribe_unsubscribe_error :: "errno + int" where
  "req_subscribe_unsubscribe_error = Inl EINVAL"

section \<open>Sessions of requests\<close>

text \<open>The first of the places that tells the value.\<close>

fun first_of :: "string option list \<Rightarrow> string option" where
  "first_of [] = None"
| "first_of (v # vs) = (case v of None \<Rightarrow> first_of vs | Some s \<Rightarrow> Some s)"

text \<open>The integer is the result: negative when there is no session. \<open>None\<close>: a fault, also when the cookie has no name yet.\<close>

definition afb_hreq_init_context ::
  "hreq_globals \<Rightarrow> sessions \<Rightarrow> int \<Rightarrow> addr option \<Rightarrow> string \<Rightarrow> 'j afb_hreq \<Rightarrow> (sessions \<times> 'j afb_hreq \<times> int) option" where
  "afb_hreq_init_context g s now calloc newuuid h =
     (if ac_session (hq_context h) \<noteq> None then Some (s, h, 0)
      else do {
        cookie \<leftarrow> g_cookie_name g;
        let uuid = first_of [afb_hreq_get_header h long_key_for_uuid, afb_hreq_get_argument h long_key_for_uuid,
                             afb_hreq_get_cookie h cookie, afb_hreq_get_argument h short_key_for_uuid];
        let token = first_of [afb_hreq_get_header h long_key_for_token, afb_hreq_get_argument h long_key_for_token,
                              afb_hreq_get_argument h short_key_for_token];
        (s1, r) \<leftarrow> afb_context_connect s uuid token now calloc newuuid;
        Some (case r of Inl _ \<Rightarrow> (s1, h, -1) | Inr x \<Rightarrow> (s1, h\<lparr>hq_context := x\<rparr>, 0)) })"

text \<open>The flags tell whether \<open>asprintf\<close> succeeds.\<close>

definition afb_hreq_init_cookie :: "bool \<Rightarrow> bool \<Rightarrow> int \<Rightarrow> string option \<Rightarrow> int \<Rightarrow> hreq_globals \<Rightarrow> hreq_globals \<times> bool" where
  "afb_hreq_init_cookie ok1 ok2 port path maxage g =
     (let g0 = g\<lparr>g_cookie_name := None, g_cookie_setter := None\<rparr>;
          p = (case path of None \<Rightarrow> ''/'' | Some p \<Rightarrow> p);
          name = long_key_for_uuid @ ''-'' @ dec_int port;
          g1 = g0\<lparr>g_cookie_name := Some name\<rparr>
      in if \<not> ok1 then (g0, False)
         else if \<not> ok2 then (g1, False)
         else (g1\<lparr>g_cookie_setter := Some (name @ ''=%s; Path='' @ p @ ''; Max-Age='' @ dec_int maxage @ ''; HttpOnly'')\<rparr>, True))"

section \<open>What a reply does\<close>

text \<open>A reply can be made: the session of the request is there, and the cookie format has one conversion.\<close>

definition reply_ready :: "hreq_globals \<Rightarrow> sessions \<Rightarrow> 'j afb_hreq \<Rightarrow> bool" where
  "reply_ready g s h \<longleftrightarrow>
     (case afb_context_sent_uuid s (hq_context h) of
        None \<Rightarrow> False
      | Some None \<Rightarrow> True
      | Some (Some u) \<Rightarrow> \<exists>fmt c. g_cookie_setter g = Some fmt \<and> format1 fmt (Some u) = Some c)"

text \<open>The request answered by one more response, all its descriptors but one for the body given back.\<close>

definition answers :: "nat \<Rightarrow> 'j body \<Rightarrow> (string \<times> string) list \<Rightarrow> 'j afb_hreq \<Rightarrow> 'j afb_hreq \<Rightarrow> bool" where
  "answers status body args h h' \<longleftrightarrow>
     hq_replied h' \<and> \<not> hq_suspended h'
     \<and> (\<exists>cookie. hq_sent h' = hq_sent h @ [\<lparr>rsp_status = status, rsp_headers = args @ cookie, rsp_body = body\<rparr>] \<and> (\<forall>c \<in> set cookie. fst c = ''Set-Cookie''))
     \<and> hq_open h' = (case body of Body_fd _ _ \<Rightarrow> hq_open h - 1 | _ \<Rightarrow> hq_open h)
     \<and> hq_resumed h' = hq_resumed h + (if hq_suspended h then 1 else 0)"

lemma reply_v_answers:
  assumes "reply_ready g s h" "\<not> hq_replied h"
  shows "\<exists>h'. afb_hreq_reply_v g s status body args h = Some h' \<and> answers status body args h h'"
proof -
  from assms(1) obtain v where v: "afb_context_sent_uuid s (hq_context h) = Some v"
    by (auto simp: reply_ready_def split: option.splits)
  with assms obtain cookie where
    "(case v of None \<Rightarrow> Some [] | Some u \<Rightarrow> do { fmt \<leftarrow> g_cookie_setter g; c \<leftarrow> format1 fmt (Some u); Some (if c = [] then [] else [(''Set-Cookie'', c)]) }) = Some cookie"
    "\<forall>c \<in> set cookie. fst c = ''Set-Cookie''"
    by (auto simp: reply_ready_def split: option.splits if_splits)
  with v assms(2) show ?thesis
    by (cases "hq_suspended h") (auto simp: afb_hreq_reply_v_def answers_def Let_def)
qed

lemmas reply_defs = afb_hreq_reply_def afb_hreq_reply_empty_def afb_hreq_reply_static_def afb_hreq_reply_copy_def afb_hreq_reply_free_def afb_hreq_reply_error_def

lemma reply_ready_cong: "hq_context h' = hq_context h \<Longrightarrow> reply_ready g s h' = reply_ready g s h"
  by (simp add: reply_ready_def)

text \<open>A request that is answered keeps its answer: later replies change nothing.\<close>

lemma replied_once: "hq_replied h \<Longrightarrow> afb_hreq_reply_v g s status body args h = Some h"
  by (simp add: afb_hreq_reply_v_def)

text \<open>The exact outcome: one response, and as many descriptors open as before.\<close>

definition answered_once :: "'j afb_hreq \<Rightarrow> 'j afb_hreq \<Rightarrow> bool" where
  "answered_once h h' \<longleftrightarrow> hq_replied h' \<and> (\<exists>r. hq_sent h' = hq_sent h @ [r]) \<and> hq_open h' = hq_open h"

lemma error_answered:
  assumes "reply_ready g s h" "\<not> hq_replied h"
  shows "\<exists>h'. afb_hreq_reply_error g s status h = Some h' \<and> answered_once h h'"
  using reply_v_answers [OF assms] by (fastforce simp: reply_defs answers_def answered_once_def)

lemma redirect_to_answered:
  assumes "reply_ready g s h" "\<not> hq_replied h"
  shows "\<exists>h'. afb_hreq_redirect_to ok g s url q h = Some h' \<and> answered_once h h'"
proof -
  obtain w' where "url_with_query ok (cn_args (hq_conn h)) url = Some w'"
    using url_with_query_text [of ok "cn_args (hq_conn h)" url] by blast
  then obtain w where w: "(if q then url_with_query ok (cn_args (hq_conn h)) url else Some None) = Some w" by (cases q) simp_all
  let ?a = "[(''Location'', case w of None \<Rightarrow> url | Some t \<Rightarrow> t)]"
  from reply_v_answers [OF assms, of MHD_HTTP_MOVED_PERMANENTLY "Body_buffer []" ?a] obtain h' where
    h': "afb_hreq_reply_v g s MHD_HTTP_MOVED_PERMANENTLY (Body_buffer []) ?a h = Some h'"
      "answers MHD_HTTP_MOVED_PERMANENTLY (Body_buffer []) ?a h h'" by blast
  have "afb_hreq_redirect_to ok g s url q h = Some h'"
    unfolding afb_hreq_redirect_to_def reply_defs w using h'(1) by simp
  with h'(2) show ?thesis by (auto simp: answers_def answered_once_def)
qed

lemma ending_slash_outcome:
  assumes "reply_ready g s h" "\<not> hq_replied h" "hq_url h \<noteq> []"
  shows "(afb_hreq_redirect_to_ending_slash_if_needed ok g s h = Some (h, False))
    \<or> (\<exists>h'. afb_hreq_redirect_to_ending_slash_if_needed ok g s h = Some (h', True) \<and> answered_once h h')"
  using redirect_to_answered [OF assms(1,2)] assms(3) by (fastforce simp: afb_hreq_redirect_to_ending_slash_if_needed_def)

lemma serve_fd_answered:
  assumes "reply_ready g s h" "\<not> hq_replied h"
  shows "\<exists>h'. serve_fd fs g s fd st f (h\<lparr>hq_open := hq_open h + 1\<rparr>) = Some (h', True) \<and> answered_once h h'"
proof -
  let ?h = "h\<lparr>hq_open := hq_open h + 1\<rparr>"
  let ?c = "?h\<lparr>hq_open := hq_open ?h - 1\<rparr>"
  have c: "?c = h" by simp
  have o: "\<not> hq_replied ?h" "reply_ready g s ?h" using assms reply_ready_cong [of ?h h] by simp_all
  from reply_v_answers [OF o(2,1)] reply_v_answers [OF assms] error_answered [OF assms] show ?thesis
    unfolding serve_fd_def c Let_def by (fastforce simp: reply_defs answers_def answered_once_def)
qed

text \<open>The descriptor that is reached after \<open>k\<close> indexes: the recursion ends where there is none.\<close>

definition open_first :: "fsys \<Rightarrow> int \<Rightarrow> string \<Rightarrow> int option" where
  "open_first fs dirfd filename =
     (if filename \<noteq> [] then (case fs_openat fs dirfd filename of Inl _ \<Rightarrow> None | Inr fd \<Rightarrow> Some fd) else fs_dup fs dirfd)"

fun index_fd :: "fsys \<Rightarrow> int \<Rightarrow> string \<Rightarrow> nat \<Rightarrow> int option" where
  "index_fd fs dirfd filename 0 = open_first fs dirfd filename"
| "index_fd fs dirfd filename (Suc k) =
     (case open_first fs dirfd filename of None \<Rightarrow> None | Some fd \<Rightarrow> index_fd fs fd ''index.html'' k)"

definition file_outcome :: "'j afb_hreq \<Rightarrow> ('j afb_hreq \<times> bool) option \<Rightarrow> bool" where
  "file_outcome h res \<longleftrightarrow> (case res of None \<Rightarrow> False | Some (h', rc) \<Rightarrow> if rc then answered_once h h' else h' = h)"

lemma file_outcome_directory:
  assumes "reply_ready g s h" "\<not> hq_replied h" "hq_url h \<noteq> []"
    and sub: "file_outcome (h\<lparr>hq_open := hq_open h + 1\<rparr>) (go (h\<lparr>hq_open := hq_open h + 1\<rparr>))"
  shows "file_outcome h
    (case afb_hreq_redirect_to_ending_slash_if_needed ok g s (h\<lparr>hq_open := hq_open h + 1\<rparr>) of
       None \<Rightarrow> None
     | Some (h2, rc) \<Rightarrow> map_option (\<lambda>(h3, rc'). (h3\<lparr>hq_open := hq_open h3 - 1\<rparr>, rc')) (if \<not> rc \<and> b then go h2 else Some (h2, rc)))"
proof -
  let ?h = "h\<lparr>hq_open := hq_open h + 1\<rparr>"
  have o: "reply_ready g s ?h" "\<not> hq_replied ?h" "hq_url ?h \<noteq> []" using assms(1-3) reply_ready_cong [of ?h h] by simp_all
  have close: "answered_once ?h h' \<Longrightarrow> answered_once h (h'\<lparr>hq_open := hq_open h' - 1\<rparr>)" for h'
    by (auto simp: answered_once_def)
  have again: "?h\<lparr>hq_open := hq_open ?h - 1\<rparr> = h" by simp
  from sub obtain h3 rc3 where n: "go ?h = Some (h3, rc3)" "if rc3 then answered_once ?h h3 else h3 = ?h" by (auto simp: file_outcome_def split: option.splits)
  from ending_slash_outcome [OF o, of ok] n show ?thesis
  proof (elim disjE exE conjE)
    assume r: "afb_hreq_redirect_to_ending_slash_if_needed ok g s ?h = Some (?h, False)"
    show ?thesis using n close [of h3] unfolding r file_outcome_def by (cases b; cases rc3) (simp_all add: again)
  next
    fix h' assume r: "afb_hreq_redirect_to_ending_slash_if_needed ok g s ?h = Some (h', True)" "answered_once ?h h'"
    show ?thesis using close [OF r(2)] unfolding r(1) file_outcome_def by simp
  qed
qed

lemma error_outcome:
  assumes "reply_ready g s h" "\<not> hq_replied h"
  shows "file_outcome h (map_option (\<lambda>h. (h, True)) (afb_hreq_reply_error g s status h))"
  using error_answered [OF assms, of status] by (auto simp: file_outcome_def)

lemma serve_fd_outcome:
  assumes "reply_ready g s h" "\<not> hq_replied h"
  shows "file_outcome h (serve_fd fs g s fd st f (h\<lparr>hq_open := hq_open h + 1\<rparr>))"
  using serve_fd_answered [OF assms, of fs fd st f] by (auto simp: file_outcome_def)

lemma reply_file_if_exist_outcome:
  assumes "reply_ready g s h" "\<not> hq_replied h" "hq_url h \<noteq> []" "index_fd fs dirfd filename n = None"
  shows "file_outcome h (afb_hreq_reply_file_if_exist (Suc n) ok fs g s dirfd filename h)"
  using assms
proof (induction n arbitrary: dirfd filename h)
  case 0
  have "file_outcome h (Some (h, False))" by (auto simp: file_outcome_def)
  then show ?case using error_outcome [OF 0(1,2)] 0(4)
    by (auto simp: open_first_def split: if_splits option.splits sum.splits)
next
  case (Suc n)
  let ?h = "h\<lparr>hq_open := hq_open h + 1\<rparr>"
  have o: "reply_ready g s ?h" "\<not> hq_replied ?h" "hq_url ?h \<noteq> []" using Suc.prems(1-3) reply_ready_cong [of ?h h] by simp_all
  have skip: "file_outcome h (Some (h, False))" by (auto simp: file_outcome_def)
  note facts = error_outcome [OF Suc.prems(1,2)] serve_fd_outcome [OF Suc.prems(1,2)]
  show ?case
  proof (cases "open_first fs dirfd filename")
    case None
    then show ?thesis using facts(1) skip
      by (subst afb_hreq_reply_file_if_exist.simps) (auto simp: Let_def open_first_def split: if_splits option.splits sum.splits)
  next
    case (Some fd)
    with Suc.prems(4) have "index_fd fs fd ''index.html'' n = None" by simp
    from Suc.IH [OF o this] have dir: "file_outcome ?h (afb_hreq_reply_file_if_exist (Suc n) ok fs g s fd ''index.html'' ?h)" .
    have fd: "(if filename \<noteq> [] then fs_openat fs dirfd filename else (case fs_dup fs dirfd of None \<Rightarrow> Inl EIO | Some fd \<Rightarrow> Inr fd)) = Inr fd"
      using Some by (auto simp: open_first_def split: if_splits sum.splits)
    show ?thesis
      unfolding afb_hreq_reply_file_if_exist.simps(2) [of "Suc n"] Let_def fd sum.case
      using facts file_outcome_directory [where go = "afb_hreq_reply_file_if_exist (Suc n) ok fs g s fd ''index.html''", OF Suc.prems(1-3) dir, where ok = ok] by (simp split: option.split)
  qed
qed

lemma reply_file_from:
  assumes "reply_ready g s h" "\<not> hq_replied h" "file_outcome h res"
  shows "\<exists>h'. (case res of None \<Rightarrow> None
      | Some (h', rc) \<Rightarrow> map_option (\<lambda>h. (h, True)) (if rc then Some h' else afb_hreq_reply_error g s MHD_HTTP_NOT_FOUND h')) = Some (h', True)
    \<and> answered_once h h'"
  using assms(3) error_answered [OF assms(1,2), of MHD_HTTP_NOT_FOUND] by (auto simp: file_outcome_def split: if_splits option.splits)

text \<open>The same for files found through the localisation, whose indexes are named by the path.\<close>

fun locale_fd :: "(string \<Rightarrow> (errno + int) option) \<Rightarrow> string \<Rightarrow> nat \<Rightarrow> int option" where
  "locale_fd open_at filename 0 = (case open_at (if filename \<noteq> [] then filename else ''.'') of Some (Inr fd) \<Rightarrow> Some fd | _ \<Rightarrow> None)"
| "locale_fd open_at filename (Suc k) =
     (case open_at (if filename \<noteq> [] then filename else ''.'') of Some (Inr fd) \<Rightarrow> locale_fd open_at (index_name filename) k | _ \<Rightarrow> None)"

lemma reply_locale_file_if_exist_outcome:
  assumes "reply_ready g s h" "\<not> hq_replied h" "hq_url h \<noteq> []" "\<And>f. is_cstring f \<Longrightarrow> open_at f \<noteq> None" "locale_fd open_at filename n = None"
    and "is_cstring filename"
  shows "file_outcome h (afb_hreq_reply_locale_file_if_exist (Suc n) ok fs g s open_at filename h)"
  using assms(1-3,5,6)
proof (induction n arbitrary: filename h)
  case 0
  have "file_outcome h (Some (h, False))" by (auto simp: file_outcome_def)
  then show ?case using error_outcome [OF 0(1,2)] 0(4) assms(4) [of filename, OF 0(5)] assms(4) [of "''.''"]
    by (auto simp: NUL_def split: if_splits option.splits sum.splits)
next
  case (Suc n)
  let ?h = "h\<lparr>hq_open := hq_open h + 1\<rparr>" and ?f = "if filename \<noteq> [] then filename else ''.''"
  have o: "reply_ready g s ?h" "\<not> hq_replied ?h" "hq_url ?h \<noteq> []" using Suc.prems(1-3) reply_ready_cong [of ?h h] by simp_all
  have skip: "file_outcome h (Some (h, False))" by (auto simp: file_outcome_def)
  note facts = error_outcome [OF Suc.prems(1,2)] serve_fd_outcome [OF Suc.prems(1,2)]
  have "is_cstring ?f" using Suc.prems(5) by (simp add: NUL_def)
  then obtain r where r: "open_at ?f = Some r" using assms(4) by blast
  have i: "is_cstring (index_name filename)" using Suc.prems(5) by (simp add: index_name_def NUL_def)
  show ?case
  proof (cases r)
    case (Inl e)
    then show ?thesis unfolding afb_hreq_reply_locale_file_if_exist.simps(2) [of "Suc n"] Let_def r option.case using facts(1) skip by simp
  next
    case (Inr fd)
    with Suc.prems(4) r have "locale_fd open_at (index_name filename) n = None" by simp
    from Suc.IH [OF o this i] have dir: "file_outcome ?h (afb_hreq_reply_locale_file_if_exist (Suc n) ok fs g s open_at (index_name filename) ?h)" .
    show ?thesis
      unfolding afb_hreq_reply_locale_file_if_exist.simps(2) [of "Suc n"] Let_def r Inr option.case sum.case
      using facts file_outcome_directory [where go = "afb_hreq_reply_locale_file_if_exist (Suc n) ok fs g s open_at (index_name filename)" and b = True,
        OF Suc.prems(1-3) dir, where ok = ok, unfolded simp_thms] by (cases "fs_stat fs fd") (simp_all del: afb_hreq_reply_locale_file_if_exist.simps)
  qed
qed

text \<open>C23. A request for a file is answered, and once: when the files named \<open>index.html\<close> do not nest deeper than
  \<open>n\<close>, \<open>afb_hreq_reply_file\<close> ends with exactly one response queued (the file, a redirection or an error) and
  with no descriptor left open, whatever the file system answers.\<close>

theorem file_request_answered_once:
  assumes "reply_ready g s h" "\<not> hq_replied h" "hq_url h \<noteq> []" "index_fd fs dirfd filename n = None"
  shows "\<exists>h'. afb_hreq_reply_file (Suc n) ok fs g s dirfd filename h = Some (h', True) \<and> answered_once h h'"
  unfolding afb_hreq_reply_file_def
  by (rule reply_file_from [OF assms(1,2) reply_file_if_exist_outcome [OF assms]])

text \<open>The context of a request that has none yet: memory that is all zero.\<close>

definition zero_context :: afb_context where
  "zero_context = \<lparr>ac_session = None, ac_created = False, ac_validated = False, ac_invalidated = False, ac_refreshing = False, ac_refreshed = False,
     ac_closing = False, ac_closed = False, ac_loa_in = 0, ac_loa_out = 0, ac_loa_changing = False, ac_loa_changed = False, ac_api_index = 0\<rparr>"

definition demo_conn :: conn where
  "demo_conn = \<lparr>cn_header = Map.empty, cn_cookie = Map.empty, cn_arg = Map.empty, cn_args = []\<rparr>"

definition demo_hreq :: "string \<Rightarrow> 'j afb_hreq" where
  "demo_hreq url = \<lparr>hq_context = zero_context, hq_refcount = 1, hq_cacheTimeout = Some ''100'', hq_conn = demo_conn, hq_method = afb_method_get,
     hq_reqid = 1, hq_scanned = False, hq_suspended = False, hq_replied = False, hq_version = ''HTTP/1.1'', hq_lang = None, hq_url = url, hq_tail = url,
     hq_postform = False, hq_data = [], hq_files = Map.empty, hq_json = None, hq_upgrade = False, hq_sent = [], hq_resumed = 0, hq_open = 0, hq_freed = False\<rparr>"

definition demo_fs :: fsys where
  "demo_fs = \<lparr>fs_openat = (\<lambda>d f. if f = ''d'' then Inr 4 else if f = ''index.html'' \<and> d = 4 then Inr 5 else Inl ENOENT), fs_dup = Some,
     fs_stat = (\<lambda>fd. Some \<lparr>st_kind = (if fd = 4 then Dir else Reg), st_sec = 7, st_nsec = 8, st_size = 9\<rparr>), fs_access = (\<lambda>d f. True), fs_magic = Map.empty\<rparr>"

definition demo_globals :: hreq_globals where
  "demo_globals = fst (afb_hreq_init_cookie True True 1234 None 3600 \<lparr>g_cookie_name = None, g_cookie_setter = None, g_tmp_pattern = None\<rparr>)"

lemma demo_ready: "reply_ready demo_globals demo_session (demo_hreq url)"
  by (simp add: reply_ready_def demo_hreq_def afb_context_sent_uuid_def zero_context_def)

theorem file_request_answered_once_witness:
  "\<exists>h'. afb_hreq_reply_file 3 (\<lambda>_. True) demo_fs demo_globals demo_session 3 ''d'' (demo_hreq ''/d/'' :: unit afb_hreq) = Some (h', True)
    \<and> answered_once (demo_hreq ''/d/'') h'"
proof -
  have "index_fd demo_fs 3 ''d'' 2 = None" by (simp add: numeral_2_eq_2 open_first_def demo_fs_def)
  with file_request_answered_once [OF demo_ready, of "''/d/''" demo_fs 3 "''d''" 2 "\<lambda>_. True"]
  show ?thesis by (simp add: demo_hreq_def numeral_3_eq_3)
qed

section \<open>Revalidation\<close>

lemma hex8_inject: "hex8 v = hex8 w \<longleftrightarrow> v = w"
proof
  assume e: "hex8 v = hex8 w"
  have b: "unat (drop_bit k u AND 15) < 16" for k and u :: "32 word"
  proof -
    have "drop_bit k u AND 15 \<le> 15" by (rule word_and_le1)
    then have "unat (drop_bit k u AND 15) \<le> unat (15 :: 32 word)" by (rule word_le_nat_alt [THEN iffD1])
    then show ?thesis by simp
  qed
  have h: "a < 16 \<Longrightarrow> c < 16 \<Longrightarrow> hex a = hex c \<Longrightarrow> a = c" for a c using hexval_hex by metis
  have n: "drop_bit (4 * i) v AND 15 = drop_bit (4 * i) w AND 15" if "i < 8" for i
  proof -
    have "i \<in> set [7, 6, 5, 4, 3, 2, 1, 0]" using that by auto
    with e have "hex (unat (drop_bit (4 * i) v AND 15)) = hex (unat (drop_bit (4 * i) w AND 15))" unfolding hex8_def map_eq_conv by (rule bspec)
    with b h have "unat (drop_bit (4 * i) v AND 15) = unat (drop_bit (4 * i) w AND 15)" by blast
    then show ?thesis by (rule word_unat_eq_iff [THEN iffD2])
  qed
  show "v = w"
  proof (rule bit_word_eqI)
    fix k assume "k < LENGTH(32)"
    then have k: "k = 4 * (k div 4) + k mod 4" "k div 4 < 8" by simp_all
    have d: "bit u k = bit (drop_bit (4 * (k div 4)) u AND 15) (k mod 4)" for u :: "32 word"
    proof -
      have "(15 :: 32 word) = mask 4" by (simp add: mask_eq_exp_minus_1)
      moreover have "k mod 4 < 32" by (rule order.strict_trans [of _ 4]) simp_all
      ultimately show ?thesis using k(1) by (simp only: bit_and_iff bit_drop_bit_eq bit_mask_iff o_def) simp
    qed
    show "bit v k = bit w k" using n [OF k(2)] d by metis
  qed
qed simp

lemma etag_eq_iff: "etag_of a = etag_of b \<longleftrightarrow>
    (of_int (st_sec a) XOR of_int (st_nsec a) :: 32 word) = of_int (st_sec b) XOR of_int (st_nsec b) \<and> (of_nat (st_size a) :: 32 word) = of_nat (st_size b)"
proof -
  have "length (hex8 v) = 8" for v by (simp add: hex8_def)
  then show ?thesis by (simp add: etag_of_def hex8_inject)
qed

text \<open>Conditional requests: a regular file asked for with the tag of an earlier version is not sent again, only
  confirmed, exactly when the low 32 bits of its size and of the exclusive or of the seconds and nanoseconds of its modification
  time are as they were; otherwise the response carries the descriptor of the file, its size, and the new tag.\<close>

lemma etag_revalidation:
  assumes "reply_ready g s h" "\<not> hq_replied h" "filename \<noteq> []" "fs_openat fs dirfd filename = Inr fd" "fs_stat fs fd = Some st" "st_kind st = Reg"
    and "hq_method h = afb_method_get" "cn_header (hq_conn h) ''If-None-Match'' = Some (etag_of old)" "hq_cacheTimeout h = Some t"
  shows "\<exists>h' ty. afb_hreq_reply_file (Suc n) ok fs g s dirfd filename h = Some (h', True)
    \<and> (if (of_int (st_sec st) XOR of_int (st_nsec st) :: 32 word) = of_int (st_sec old) XOR of_int (st_nsec old) \<and> (of_nat (st_size st) :: 32 word) = of_nat (st_size old)
       then answers MHD_HTTP_NOT_MODIFIED (Body_buffer []) [(''Cache-Control'', t), (''ETag'', etag_of old)] h h'
       else answers MHD_HTTP_OK (Body_fd fd (st_size st)) (ty @ [(''Cache-Control'', t), (''ETag'', etag_of st)]) (h\<lparr>hq_open := hq_open h + 1\<rparr>) h')"
proof -
  let ?h = "h\<lparr>hq_open := hq_open h + 1\<rparr>" and ?ty = "case mimetype_fd_name fs fd filename of None \<Rightarrow> [] | Some t \<Rightarrow> [(''Content-Type'', t)]"
  have o: "\<not> hq_replied ?h" "reply_ready g s ?h" using assms(1,2) reply_ready_cong [of ?h h] by simp_all
  have m: "hq_method h AND (afb_method_get OR afb_method_head) \<noteq> 0" using assms(7) by (simp add: method_defs)
  have r: "afb_hreq_reply_file (Suc n) ok fs g s dirfd filename h = (case serve_fd fs g s fd st filename ?h of None \<Rightarrow> None
      | Some (h', rc) \<Rightarrow> map_option (\<lambda>h. (h, True)) (if rc then Some h' else afb_hreq_reply_error g s MHD_HTTP_NOT_FOUND h'))"
    using assms(3-6) by (simp add: afb_hreq_reply_file_def Let_def)
  have s: "serve_fd fs g s fd st filename ?h = map_option (\<lambda>h. (h, True))
      (if etag_of st = etag_of old then afb_hreq_reply_v g s MHD_HTTP_NOT_MODIFIED (Body_buffer []) [(''Cache-Control'', t), (''ETag'', etag_of old)] h
       else afb_hreq_reply_v g s MHD_HTTP_OK (Body_fd fd (st_size st)) (?ty @ [(''Cache-Control'', t), (''ETag'', etag_of st)]) ?h)"
    using assms(6,8,9) m by (auto simp: serve_fd_def Let_def reply_defs)
  show ?thesis
  proof (cases "etag_of st = etag_of old")
    case True
    from reply_v_answers [OF assms(1,2), of MHD_HTTP_NOT_MODIFIED "Body_buffer []" "[(''Cache-Control'', t), (''ETag'', etag_of old)]"] True
    show ?thesis unfolding r s by (auto simp: etag_eq_iff)
  next
    case False
    from reply_v_answers [OF o(2,1), of MHD_HTTP_OK "Body_fd fd (st_size st)" "?ty @ [(''Cache-Control'', t), (''ETag'', etag_of st)]"] obtain h' where
      "afb_hreq_reply_v g s MHD_HTTP_OK (Body_fd fd (st_size st)) (?ty @ [(''Cache-Control'', t), (''ETag'', etag_of st)]) ?h = Some h'"
      "answers MHD_HTTP_OK (Body_fd fd (st_size st)) (?ty @ [(''Cache-Control'', t), (''ETag'', etag_of st)]) ?h h'" by blast
    with False have "afb_hreq_reply_file (Suc n) ok fs g s dirfd filename h = Some (h', True)" unfolding r s by simp
    then show ?thesis using \<open>answers _ _ _ _ h'\<close> False unfolding etag_eq_iff by (intro exI [of _ h'] exI [of _ ?ty]) auto
  qed
qed

section \<open>Replies of verbs\<close>

lemma format1_plain: "CHR ''%'' \<notin> set s \<Longrightarrow> format1 s v = Some s"
  by (induction s v rule: format1.induct) auto

lemma format1_append: "CHR ''%'' \<notin> set s \<Longrightarrow> t \<noteq> [] \<Longrightarrow> format1 (s @ t) v = map_option (append s) (format1 t v)"
proof (induction s)
  case (Cons c s)
  have "format1 (c # s @ t) v = map_option (Cons c) (format1 (s @ t) v)"
    using Cons.prems by (cases "s @ t") auto
  with Cons show ?case by (cases "format1 t v") simp_all
qed (cases "format1 t v"; simp)

lemma format1_one: "CHR ''%'' \<notin> set s \<Longrightarrow> CHR ''%'' \<notin> set t \<Longrightarrow> format1 (s @ ''%s'' @ t) (Some u) = Some (s @ u @ t)"
  by (simp add: format1_append format1_plain)

lemma char_of_digit: "k < 10 \<Longrightarrow> char_of (48 + k :: nat) \<noteq> CHR ''%''"
proof
  assume k: "k < 10" and "char_of (48 + k :: nat) = CHR ''%''"
  then have "(of_char (char_of (48 + k :: nat) :: char) :: nat) = of_char (CHR ''%'')" by simp
  with k show False by (simp add: of_char_of)
qed

lemma dec_plain: "CHR ''%'' \<notin> set (dec n)"
proof (induction n rule: dec.induct)
  case (1 n)
  have "CHR ''%'' \<noteq> char_of (48 + n mod 10)" "n < 10 \<Longrightarrow> CHR ''%'' \<noteq> char_of (48 + n)" using char_of_digit by (metis mod_less_divisor zero_less_numeral)+
  with 1 show ?case unfolding dec.simps [of n] by (cases "n < 10") (simp_all only: if_True if_False set_append Un_iff list.set insert_iff empty_iff simp_thms)
qed

lemma dec_int_plain: "CHR ''%'' \<notin> set (dec_int i)"
  using dec_plain by (simp add: dec_int_def)

text \<open>The cookie that \<open>afb_hreq_init_cookie\<close> prepares can always be set, when its path has no percent sign.\<close>

lemma cookie_format:
  assumes "afb_hreq_init_cookie True True port path maxage g0 = (g, True)" "\<And>p. path = Some p \<Longrightarrow> CHR ''%'' \<notin> set p"
  shows "\<exists>fmt c. g_cookie_setter g = Some fmt \<and> format1 fmt (Some u) = Some c"
proof -
  let ?pre = "long_key_for_uuid @ ''-'' @ dec_int port @ ''=''"
    and ?post = "''; Path='' @ (case path of None \<Rightarrow> ''/'' | Some p \<Rightarrow> p) @ ''; Max-Age='' @ dec_int maxage @ ''; HttpOnly''"
  have pre: "CHR ''%'' \<notin> set ?pre" using dec_int_plain [of port] by (simp add: long_key_for_uuid_def)
  have "CHR ''%'' \<notin> set (case path of None \<Rightarrow> ''/'' | Some p \<Rightarrow> p)" using assms(2) by (cases path) simp_all
  then have post: "CHR ''%'' \<notin> set ?post" using dec_int_plain [of maxage] by simp
  have "g_cookie_setter g = Some (?pre @ ''%s'' @ ?post)" using assms(1) by (auto simp: afb_hreq_init_cookie_def Let_def)
  with format1_one [OF pre post, of u] show ?thesis by blast
qed

text \<open>The session of the request, when it has one, is in the store.\<close>

definition context_alive :: "sessions \<Rightarrow> afb_context \<Rightarrow> bool" where
  "context_alive s x \<longleftrightarrow> (\<forall>a. ac_session x = Some a \<longrightarrow> ss_heap s a \<noteq> None)"

lemma ready_alive:
  assumes "afb_hreq_init_cookie True True port path maxage g0 = (g, True)" "\<And>p. path = Some p \<Longrightarrow> CHR ''%'' \<notin> set p" "context_alive s (hq_context h)"
  shows "reply_ready g s h"
  using cookie_format [OF assms(1,2)] assms(3)
  by (auto simp: reply_ready_def afb_context_sent_uuid_def context_alive_def ctxClientGetUuid_def split: option.splits)

lemma sent_token_alive:
  assumes "context_alive s x"
  shows "\<exists>s1 x1 tok. afb_context_sent_token s x now newuuid = Some (s1, x1, tok) \<and> context_alive s1 x1"
proof (cases "ac_session x")
  case None
  then show ?thesis by (simp add: afb_context_sent_token_def context_alive_def)
next
  case (Some a)
  with assms obtain c where c: "ss_heap s a = Some c" by (auto simp: context_alive_def)
  from c Some assms show ?thesis
    by (cases "ac_refreshed x"; cases "ac_refreshing x"; cases "ac_closing x")
       (simp_all add: afb_context_sent_token_def ctxTokenNew_def ctxClientGetToken_def put_ctx_def context_alive_def Let_def)
qed

lemma sent_uuid_alive: "context_alive s x \<Longrightarrow> \<exists>u. afb_context_sent_uuid s x = Some u"
  by (auto simp: afb_context_sent_uuid_def context_alive_def ctxClientGetUuid_def split: option.splits)

lemma json_reply_alive:
  assumes "context_alive s x"
  shows "\<exists>j s1 x1. afb_msg_json_reply status info resp (Some (s, x)) reqid now newuuid = Some (j, Some (s1, x1)) \<and> context_alive s1 x1
    \<and> jfield ''response'' j = map_option J_given resp \<and> (\<exists>r. jfield ''request'' j = Some r \<and> jfield ''status'' r = Some (J_string status))"
proof -
  from sent_token_alive [OF assms] obtain s1 x1 tok where
    1: "afb_context_sent_token s x now newuuid = Some (s1, x1, tok)" "context_alive s1 x1" by blast
  from sent_uuid_alive [OF 1(2)] obtain u where u: "afb_context_sent_uuid s1 x1 = Some u" by blast
  from 1 u show ?thesis
    by (cases resp; cases info; cases reqid; cases tok; cases u) (simp_all add: afb_msg_json_reply_def opt_add_def Let_def)
qed

text \<open>The library asks for the parts of a body until the stream ends; \<open>room p\<close> is the size of its buffer at position \<open>p\<close>.\<close>

fun stream :: "(nat \<Rightarrow> nat) \<Rightarrow> string \<Rightarrow> nat \<Rightarrow> nat \<Rightarrow> string option" where
  "stream room text 0 pos = None"
| "stream room text (Suc fuel) pos =
     (case send_json_cb text pos (room pos) of
        None \<Rightarrow> Some []
      | Some part \<Rightarrow> map_option (append part) (stream room text fuel (pos + length part)))"

lemma stream_rest:
  assumes "\<And>p. 0 < room p"
  shows "pos \<le> length text \<Longrightarrow> length text - pos < fuel \<Longrightarrow> stream room text fuel pos = Some (drop pos text)"
proof (induction fuel arbitrary: pos)
  case (Suc fuel)
  let ?part = "take (room pos) (drop pos text)"
  show ?case
  proof (cases "pos = length text")
    case False
    with Suc.prems assms [of pos] have p: "?part \<noteq> []" "pos + length ?part \<le> length text" "length text - (pos + length ?part) < fuel" by auto
    have "drop (pos + length ?part) text = drop (room pos) (drop pos text)" using Suc.prems by (simp add: min_def add.commute)
    then have "?part @ drop (pos + length ?part) text = drop pos text" by (simp only: append_take_drop_id)
    with Suc.IH [OF p(2,3)] p(1) show ?thesis by (simp only: stream.simps send_json_cb_def Let_def if_False option.case option.map)
  qed (simp add: send_json_cb_def Let_def)
qed simp

text \<open>A verb that succeeds has its reply delivered: as long as the session of the request is alive and the cookie was
  initialised with a path that has no percent sign, \<open>req_success\<close> queues one response, of status 200, whose JSON
  text carries the object and the status \<open>success\<close>; it resumes the connection if it was suspended; and however small the
  buffers of the library are, the callback gives the whole text in finitely many calls, in order, and then ends the stream.\<close>

lemma reply_reaches_client:
  assumes "afb_hreq_init_cookie True True port path maxage g0 = (g, True)" "\<And>p. path = Some p \<Longrightarrow> CHR ''%'' \<notin> set p"
    and "context_alive s (hq_context h)" "\<not> hq_replied h" "\<And>p. 0 < room p"
  shows "\<exists>s' h' j. req_success now newuuid g s obj info h = Some (s', h') \<and> answers MHD_HTTP_OK (Body_json j) [] h h'
    \<and> jfield ''response'' j = Some (J_given obj) \<and> (\<exists>r. jfield ''request'' j = Some r \<and> jfield ''status'' r = Some (J_string ''success''))
    \<and> stream room (to_str j) (Suc (length (to_str j))) 0 = Some (to_str j)"
proof -
  let ?reqid = "case afb_hreq_get_argument h long_key_for_reqid of Some r \<Rightarrow> Some r | None \<Rightarrow> afb_hreq_get_argument h short_key_for_reqid"
  from json_reply_alive [OF assms(3), of "''success''" info "Some obj" ?reqid now newuuid] obtain j s1 x1 where
    j: "afb_msg_json_reply ''success'' info (Some obj) (Some (s, hq_context h)) ?reqid now newuuid = Some (j, Some (s1, x1))" "context_alive s1 x1"
      "jfield ''response'' j = Some (J_given obj)" "\<exists>r. jfield ''request'' j = Some r \<and> jfield ''status'' r = Some (J_string ''success'')" by auto
  let ?h = "h\<lparr>hq_context := x1\<rparr>"
  have "reply_ready g s1 ?h" by (rule ready_alive [OF assms(1,2)]) (use j(2) in simp_all)
  from reply_v_answers [OF this, of MHD_HTTP_OK "Body_json j" "[]"] assms(4) obtain h' where
    h': "afb_hreq_reply_v g s1 MHD_HTTP_OK (Body_json j) [] ?h = Some h'" "answers MHD_HTTP_OK (Body_json j) [] ?h h'" by auto
  have "req_success now newuuid g s obj info h = Some (s1, h')"
    using j(1) h'(1) by (simp add: req_success_def req_reply_def reply_defs Let_def)
  moreover have "answers MHD_HTTP_OK (Body_json j) [] h h'" using h'(2) by (simp add: answers_def)
  moreover have "stream room (to_str j) (Suc (length (to_str j))) 0 = Some (to_str j)"
    using stream_rest [of room 0 "to_str j", OF assms(5)] by (simp del: stream.simps)
  ultimately show ?thesis using j(3,4) by blast
qed

section \<open>Posted data\<close>

definition post_all :: "(string \<times> string) list \<Rightarrow> 'j afb_hreq \<Rightarrow> 'j afb_hreq option" where
  "post_all = ofold (\<lambda>(k, c) h. case afb_hreq_post_add True True k c h of Some (h', True) \<Rightarrow> Some h' | _ \<Rightarrow> None)"

definition chunks_of :: "string \<Rightarrow> (string \<times> string) list \<Rightarrow> string list" where
  "chunks_of k cs = map snd (filter (\<lambda>(k', _). casekey k' = casekey k) cs)"

definition find_data :: "hreq_data list \<Rightarrow> string \<Rightarrow> hreq_data option" where
  "find_data ds k = map_option ((!) ds) (first_index (\<lambda>d. strcasecmp (d_key d) k = 0) ds)"

text \<open>The entry of a key holds its chunks.\<close>

definition chunk_entry :: "(string \<times> string) list \<Rightarrow> string \<Rightarrow> hreq_data option \<Rightarrow> bool" where
  "chunk_entry cs k e \<longleftrightarrow>
     (case e of
        None \<Rightarrow> chunks_of k cs = []
      | Some d \<Rightarrow> chunks_of k cs \<noteq> [] \<and> casekey (d_key d) = casekey k \<and> d_path d = None
          \<and> d_value d = Some (concat (chunks_of k cs)) \<and> d_length d = length (concat (chunks_of k cs)))"

definition holds_chunks :: "(string \<times> string) list \<Rightarrow> hreq_data list \<Rightarrow> bool" where
  "holds_chunks cs ds \<longleftrightarrow> (\<forall>d \<in> set ds. is_cstring (d_key d)) \<and> (\<forall>k. is_cstring k \<longrightarrow> chunk_entry cs k (find_data ds k))"

lemma chunks_of_snoc: "chunks_of k (cs @ [(k', c)]) = chunks_of k cs @ (if casekey k' = casekey k then [c] else [])"
  by (simp add: chunks_of_def)

lemma chunks_of_case: "casekey k' = casekey k \<Longrightarrow> chunks_of k' cs = chunks_of k cs"
  by (simp add: chunks_of_def)

lemma chunk_entry_other: "casekey k' \<noteq> casekey k \<Longrightarrow> chunk_entry (cs @ [(k, c)]) k' e = chunk_entry cs k' e"
  by (auto simp: chunk_entry_def chunks_of_snoc split: option.splits)

lemma find_data_update:
  assumes "first_index (\<lambda>d. strcasecmp (d_key d) k = 0) ds = Some i" "d_key d = d_key (ds ! i)" "is_cstring k" "is_cstring k'" "\<forall>d \<in> set ds. is_cstring (d_key d)"
  shows "find_data (ds[i := d]) k' = (if casekey k' = casekey k then Some d else find_data ds k')"
proof -
  from first_index_Some [OF assms(1)] have i: "i < length ds" "strcasecmp (d_key (ds ! i)) k = 0" by auto
  have k: "casekey (d_key (ds ! i)) = casekey k" using i assms(3,5) by (simp add: strcasecmp_eq_0)
  have e: "strcasecmp (d_key (ds ! j)) k' = 0 \<longleftrightarrow> casekey (d_key (ds ! j)) = casekey k'" if "j < length ds" for j
    using that assms(4,5) by (simp add: strcasecmp_eq_0)
  have u: "first_index (\<lambda>d. strcasecmp (d_key d) k' = 0) (ds[i := d]) = first_index (\<lambda>d. strcasecmp (d_key d) k' = 0) ds"
    by (rule first_index_update) (use i assms(2) in auto)
  show ?thesis
  proof (cases "casekey k' = casekey k")
    case True
    have "first_index (\<lambda>d. strcasecmp (d_key d) k' = 0) ds = first_index (\<lambda>d. strcasecmp (d_key d) k = 0) ds"
      by (rule first_index_cong) (use True assms(3,4,5) in \<open>simp add: strcasecmp_eq_0\<close>)
    with assms(1) i(1) u True show ?thesis by (simp add: find_data_def)
  next
    case False
    have "j \<noteq> i" if "first_index (\<lambda>d. strcasecmp (d_key d) k' = 0) ds = Some j" for j
      using first_index_Some [OF that] e [of j] k False by auto
    with u False show ?thesis by (cases "first_index (\<lambda>d. strcasecmp (d_key d) k' = 0) ds") (simp_all add: find_data_def)
  qed
qed

lemma find_data_new:
  assumes "find_data ds k = None" "is_cstring k" "is_cstring k'" "\<forall>d \<in> set ds. is_cstring (d_key d)" "d_key d = k"
  shows "find_data (d # ds) k' = (if casekey k' = casekey k then Some d else find_data ds k')"
  using assms by (auto simp: find_data_def strcasecmp_eq_0 option.map_comp comp_def)

lemma post_add_step:
  assumes "holds_chunks cs (hq_data h)" "is_cstring k"
  shows "\<exists>ds. afb_hreq_post_add True True k c h = Some (h\<lparr>hq_data := ds\<rparr>, True) \<and> holds_chunks (cs @ [(k, c)]) ds"
proof (cases "first_index (\<lambda>d. strcasecmp (d_key d) k = 0) (hq_data h)")
  case None
  let ?d = "\<lparr>d_key = k, d_length = length c, d_value = Some c, d_path = None\<rparr>"
  have n: "find_data (hq_data h) k = None" using None by (simp add: find_data_def)
  have "afb_hreq_post_add True True k c h = Some (h\<lparr>hq_data := ?d # hq_data h\<rparr>, True)"
    using None by (simp add: afb_hreq_post_add_def get_data_def set_data_def Let_def)
  moreover have "holds_chunks (cs @ [(k, c)]) (?d # hq_data h)"
  proof -
    have e: "chunks_of k cs = []" using assms n by (auto simp: holds_chunks_def chunk_entry_def dest!: spec [of _ k])
    have "chunk_entry (cs @ [(k, c)]) k' (find_data (?d # hq_data h) k')" if "is_cstring k'" for k'
      using find_data_new [OF n assms(2) that, of ?d] assms(1) that e chunks_of_case [of k' k cs]
      by (cases "casekey k' = casekey k") (simp_all add: holds_chunks_def chunk_entry_other, simp add: chunk_entry_def chunks_of_snoc)
    then show ?thesis using assms by (simp add: holds_chunks_def)
  qed
  ultimately show ?thesis by blast
next
  case (Some i)
  let ?d = "hq_data h ! i"
  let ?d' = "?d\<lparr>d_value := Some (take (d_length ?d) (case d_value ?d of None \<Rightarrow> [] | Some v \<Rightarrow> v) @ c), d_length := d_length ?d + length c\<rparr>"
  have f: "find_data (hq_data h) k = Some ?d" using Some by (simp add: find_data_def)
  with assms have d: "chunks_of k cs \<noteq> []" "casekey (d_key ?d) = casekey k" "d_path ?d = None" "d_value ?d = Some (concat (chunks_of k cs))" "d_length ?d = length (concat (chunks_of k cs))"
    by (auto simp: holds_chunks_def chunk_entry_def dest!: spec [of _ k])
  have "afb_hreq_post_add True True k c h = Some (h\<lparr>hq_data := (hq_data h)[i := ?d']\<rparr>, True)"
    using Some d(3) by (simp add: afb_hreq_post_add_def get_data_def set_data_def Let_def)
  moreover have "holds_chunks (cs @ [(k, c)]) ((hq_data h)[i := ?d'])"
  proof -
    have i: "i < length (hq_data h)" using first_index_Some [OF Some] by simp
    have c: "\<forall>d \<in> set (hq_data h). is_cstring (d_key d)" using assms by (simp add: holds_chunks_def)
    then have c': "\<forall>d \<in> set ((hq_data h)[i := ?d']). is_cstring (d_key d)" using i by (auto dest!: set_update_subset_insert [THEN subsetD])
    have u: "find_data ((hq_data h)[i := ?d']) k' = (if casekey k' = casekey k then Some ?d' else find_data (hq_data h) k')" if "is_cstring k'" for k'
      by (rule find_data_update [OF Some _ assms(2) that c]) simp
    have "chunk_entry (cs @ [(k, c)]) k' (find_data ((hq_data h)[i := ?d']) k')" if "is_cstring k'" for k'
      using u [OF that] assms(1) that d chunks_of_case [of k' k cs]
      by (cases "casekey k' = casekey k") (simp_all add: holds_chunks_def chunk_entry_other, simp add: chunk_entry_def chunks_of_snoc)
    then show ?thesis using c' by (simp add: holds_chunks_def)
  qed
  ultimately show ?thesis by blast
qed

lemma post_all_holds:
  "\<forall>(k, c) \<in> set cs. is_cstring k \<Longrightarrow> holds_chunks cs0 (hq_data h) \<Longrightarrow>
     \<exists>ds. post_all cs h = Some (h\<lparr>hq_data := ds\<rparr>) \<and> holds_chunks (cs0 @ cs) ds"
proof (induction cs arbitrary: cs0 h)
  case Nil
  then show ?case by (intro exI [of _ "hq_data h"]) (simp add: post_all_def)
next
  case (Cons kc cs)
  obtain k c where kc: "kc = (k, c)" by (cases kc)
  with Cons.prems post_add_step [of cs0 h k c] obtain ds where
    1: "afb_hreq_post_add True True k c h = Some (h\<lparr>hq_data := ds\<rparr>, True)" "holds_chunks (cs0 @ [(k, c)]) ds" by auto
  from Cons.IH [of "cs0 @ [(k, c)]" "h\<lparr>hq_data := ds\<rparr>"] Cons.prems 1(2) obtain ds' where
    "post_all cs (h\<lparr>hq_data := ds\<rparr>) = Some (h\<lparr>hq_data := ds'\<rparr>)" "holds_chunks (cs0 @ [(k, c)] @ cs) ds'" by auto
  with 1(1) kc show ?case by (intro exI [of _ ds']) (simp add: post_all_def)
qed

lemma get_argument_find:
  "afb_hreq_get_argument h name = (case find_data (hq_data h) name of None \<Rightarrow> cn_arg (hq_conn h) name | Some d \<Rightarrow> d_value d)"
  by (auto simp: afb_hreq_get_argument_def get_data_def find_data_def split: option.splits)

text \<open>Data posted in pieces is put together: after any sequence of chunks, of any keys in any order, every argument
  is the concatenation of the chunks of its key in the order of their arrival, keys being compared without case, and an
  argument with no chunk is the one of the query; nothing is cut at the boundaries, whatever the chunk sizes are.\<close>

lemma posted_chunks_concatenate:
  assumes "hq_data h = []" "\<forall>(k, c) \<in> set cs. is_cstring k" "is_cstring name"
  shows "\<exists>h'. post_all cs h = Some h' \<and> afb_hreq_get_argument h' name =
    (if chunks_of name cs = [] then cn_arg (hq_conn h) name else Some (concat (chunks_of name cs)))"
proof -
  have "holds_chunks [] (hq_data h)" using assms(1) by (simp add: holds_chunks_def chunk_entry_def find_data_def chunks_of_def)
  from post_all_holds [OF assms(2) this] obtain ds where ds: "post_all cs h = Some (h\<lparr>hq_data := ds\<rparr>)" "holds_chunks cs ds" by auto
  from ds(2) assms(3) have "chunk_entry cs name (find_data ds name)" by (simp add: holds_chunks_def)
  then have "afb_hreq_get_argument (h\<lparr>hq_data := ds\<rparr>) name = (if chunks_of name cs = [] then cn_arg (hq_conn h) name else Some (concat (chunks_of name cs)))"
    by (auto simp: get_argument_find chunk_entry_def split: option.splits)
  with ds(1) show ?thesis by blast
qed

section \<open>Prefixes\<close>

lemma skip_slashes_slash: "skip_slashes (slash # t) = slash # dropWhile (\<lambda>c. c = slash) t"
  by (induction t) (simp_all split: list.splits)

lemma unprefix_outcome:
  assumes "is_cstring (hq_tail h)" "is_cstring prefix"
  shows "afb_hreq_unprefix prefix len h =
    (let r = drop len (hq_tail h) in
     if len \<le> length (hq_tail h) \<and> (r = [] \<or> hd r = slash) \<and> take len (casekey prefix) = take len (casekey (hq_tail h))
     then (h\<lparr>hq_tail := if r = [] then [] else slash # dropWhile (\<lambda>c. c = slash) (tl r)\<rparr>, True) else (h, False))"
proof (cases "len < length (hq_tail h)")
  case True
  then have r: "drop len (hq_tail h) = hq_tail h ! len # drop (Suc len) (hq_tail h)" by (rule Cons_nth_drop_Suc [symmetric])
  have n: "cat (hq_tail h) len = hq_tail h ! len" "hq_tail h ! len \<noteq> NUL"
    using True assms(1) by (simp add: cat_def) (metis True assms(1) is_cstring_def nth_mem)
  show ?thesis using True n strncasecmp_eq_0 [OF assms(2,1), of len]
    unfolding afb_hreq_unprefix_def Let_def r by (auto simp: skip_slashes_slash)
next
  case False
  then have "cat (hq_tail h) len = NUL" by (simp add: cat_def)
  with False strncasecmp_eq_0 [OF assms(2,1), of len] show ?thesis by (auto simp: afb_hreq_unprefix_def Let_def)
qed

section \<open>The session of a request\<close>

text \<open>\<open>afb_hreq_unref\<close>, with nothing for a request that is released.\<close>

definition hreq_drop :: "int \<Rightarrow> string \<Rightarrow> sessions \<Rightarrow> 'j afb_hreq \<Rightarrow> (sessions \<times> 'j afb_hreq option) option" where
  "hreq_drop now newuuid s h = map_option (\<lambda>(s', h'). (s', if hq_refcount h' = 0 then None else Some h')) (afb_hreq_unref s now newuuid h)"

interpretation hreq_holder: request_holder hq_refcount hq_context afb_hreq_addref hreq_drop
  by unfold_locales (auto simp: hreq_drop_def afb_hreq_addref_def afb_hreq_unref_def map_option_case Let_def split: option.splits)

lemma hreq_session_given_back_once:
  assumes "hq_refcount h = 1" "session_inv s" "ac_session (hq_context h) = Some a" "0 < session_refs s a" "length nu = 36"
  shows "\<exists>s'. hreq_holder.drops (Suc n) now nu s (Some ((afb_hreq_addref ^^ n) h)) = Some (s', None) \<and> session_inv s'
    \<and> session_refs s' = (session_refs s)(a := session_refs s a - 1)"
  by (rule hreq_holder.session_given_back_once [OF assms])

end
