(* ===== verification/Upgrade.thy ===== *)
theory Upgrade
  imports Hreq
begin

unbundle bit_operations_syntax

text \<open>
  The upgrade of a request to a websocket, \<^verbatim>\<open>src/src/afb-websock.c\<close>.

  The digest function and the creation of the websocket are parameters. The responses are queued without
  the help of \<open>afb_hreq_reply\<close>, hence without a cookie. The tokens of a header and the base64 encoding have reference
  definitions, to which the loops and the bit operations of the code are proved equal.
\<close>

definition websocket_s :: string where "websocket_s = ''websocket''"
definition sec_websocket_key_s :: string where "sec_websocket_key_s = ''Sec-WebSocket-Key''"
definition sec_websocket_version_s :: string where "sec_websocket_version_s = ''Sec-WebSocket-Version''"
definition sec_websocket_accept_s :: string where "sec_websocket_accept_s = ''Sec-WebSocket-Accept''"
definition sec_websocket_protocol_s :: string where "sec_websocket_protocol_s = ''Sec-WebSocket-Protocol''"
definition websocket_guid :: string where "websocket_guid = ''258EAFA5-E914-47DA-95CA-C5AB0DC85B11''"

definition MHD_HTTP_SWITCHING_PROTOCOLS :: nat where "MHD_HTTP_SWITCHING_PROTOCOLS = 101"
definition MHD_HTTP_PRECONDITION_FAILED :: nat where "MHD_HTTP_PRECONDITION_FAILED = 412"
definition MHD_HTTP_UPGRADE_REQUIRED :: nat where "MHD_HTTP_UPGRADE_REQUIRED = 426"

section \<open>The accept value\<close>

definition tob64 :: string where
  "tob64 = ''ABCDEFGHIJKLMNOPQRSTUVWXYZ'' @ ''abcdefghijklmnopqrstuvwxyz'' @ ''0123456789+/''"

text \<open>Three bytes, promoted to integers.\<close>

definition enc64 :: "nat \<Rightarrow> nat \<Rightarrow> nat \<Rightarrow> string" where
  "enc64 a b c =
     [tob64 ! drop_bit 2 a,
      tob64 ! (push_bit 4 (a AND 3) OR drop_bit 4 (b AND 240)),
      tob64 ! (push_bit 2 (b AND 15) OR drop_bit 6 (c AND 192)),
      tob64 ! (c AND 63)]"

text \<open>The digest is followed by a zero byte; the last character of the last group is replaced.\<close>

definition make_accept_value :: "(string \<Rightarrow> nat list) \<Rightarrow> string \<Rightarrow> string" where
  "make_accept_value SHA1 key =
     (let md = SHA1 (key @ websocket_guid) @ [0];
          result = concat (map (\<lambda>i. enc64 (md ! i) (md ! (i + 1)) (md ! (i + 2))) [0, 3, 6, 9, 12, 15, 18])
      in result[27 := CHR ''=''])"

text \<open>The encoding as it is specified: each group of three bytes is a number of 24 bits, written in base 64; an incomplete
  group is completed with zeros, and only the digits that carry bits of it are kept.\<close>

definition digits64 :: "nat \<Rightarrow> string" where
  "digits64 n = map (\<lambda>k. tob64 ! (n div 64 ^ k mod 64)) [3, 2, 1, 0]"

fun base64 :: "nat list \<Rightarrow> string" where
  "base64 (a # b # c # r) = digits64 (65536 * a + 256 * b + c) @ base64 r"
| "base64 [a, b] = take 3 (digits64 (65536 * a + 256 * b)) @ ''=''"
| "base64 [a] = take 2 (digits64 (65536 * a)) @ ''==''"
| "base64 [] = []"

lemma or_small: "x < 4 \<Longrightarrow> y < 16 \<Longrightarrow> push_bit 4 x OR y = 16 * x + (y :: nat)"
proof -
  have "\<forall>x \<in> set [0..<4]. \<forall>y \<in> set [0..<16]. push_bit 4 x OR y = 16 * x + (y :: nat)" by code_simp
  then show "x < 4 \<Longrightarrow> y < 16 \<Longrightarrow> push_bit 4 x OR y = 16 * x + y" by simp
qed

lemma or_small2: "x < 16 \<Longrightarrow> y < 4 \<Longrightarrow> push_bit 2 x OR y = 4 * x + (y :: nat)"
proof -
  have "\<forall>x \<in> set [0..<16]. \<forall>y \<in> set [0..<4]. push_bit 2 x OR y = 4 * x + (y :: nat)" by code_simp
  then show "x < 16 \<Longrightarrow> y < 4 \<Longrightarrow> push_bit 2 x OR y = 4 * x + y" by simp
qed

lemma and_mask: "(n :: nat) AND mask k = n mod 2 ^ k"
  by (simp only: take_bit_eq_mask [symmetric] take_bit_eq_mod)

lemma and_low: "(n :: nat) AND 3 = n mod 4" "n AND 15 = n mod 16" "n AND 63 = n mod 64"
  using and_mask [of n 2] and_mask [of n 4] and_mask [of n 6] by (simp_all add: mask_eq_exp_minus_1)

lemma and_high:
  assumes "(n :: nat) < 256"
  shows "drop_bit 4 (n AND 240) = n div 16" "drop_bit 6 (n AND 192) = n div 64"
proof -
  have p: "(2 :: nat) ^ 4 = 16" "(2 :: nat) ^ 6 = 64" by simp_all
  have d: "drop_bit 4 (240 :: nat) = 15" "drop_bit 6 (192 :: nat) = 3" by (simp_all add: drop_bit_eq_div p)
  have "drop_bit 4 (n AND 240) = n div 16 mod 16" "drop_bit 6 (n AND 192) = n div 64 mod 4"
    unfolding drop_bit_and d and_low unfolding drop_bit_eq_div p by (rule refl)+
  then show "drop_bit 4 (n AND 240) = n div 16" "drop_bit 6 (n AND 192) = n div 64" using assms by simp_all
qed

lemma div_mod_split: "n = m * q + r \<Longrightarrow> r < m \<Longrightarrow> n div m = q \<and> n mod m = (r :: nat)"
  by simp

lemma enc64_digits:
  assumes "a < 256" "b < 256" "c < 256"
  shows "enc64 a b c = digits64 (65536 * a + 256 * b + c)"
proof -
  let ?n = "65536 * a + 256 * b + c"
  obtain a1 a0 where a: "a = 4 * a1 + a0" "a0 < 4" using div_mult_mod_eq [of a 4] by (metis mod_less_divisor mult.commute zero_less_numeral)
  obtain b1 b0 where b: "b = 16 * b1 + b0" "b0 < 16" using div_mult_mod_eq [of b 16] by (metis mod_less_divisor mult.commute zero_less_numeral)
  obtain c1 c0 where c: "c = 64 * c1 + c0" "c0 < 64" using div_mult_mod_eq [of c 64] by (metis mod_less_divisor mult.commute zero_less_numeral)
  have l: "a1 < 64" "b1 < 16" "c1 < 4" using assms a b c by linarith+
  have s: "a div 4 = a1" "a mod 4 = a0" "b div 16 = b1" "b mod 16 = b0" "c div 64 = c1" "c mod 64 = c0"
    using div_mod_split [OF a] div_mod_split [OF b] div_mod_split [OF c] by simp_all
  have d: "?n div 64 = 1024 * a + 4 * b + c div 64 \<and> ?n mod 64 = c mod 64" by (rule div_mod_split; unfold s) (use c in simp_all)
  have g: "(1024 * a + 4 * b + c div 64) div 64 = 16 * a + b div 16 \<and> (1024 * a + 4 * b + c div 64) mod 64 = 4 * (b mod 16) + c div 64"
    by (rule div_mod_split; unfold s) (use b l in simp_all)
  have h: "(16 * a + b div 16) div 64 = a div 4 \<and> (16 * a + b div 16) mod 64 = 16 * (a mod 4) + b div 16"
    by (rule div_mod_split; unfold s) (use a l in simp_all)
  have k: "?n div 64 ^ 2 = ?n div 64 div 64" "?n div 64 ^ 3 = ?n div 64 div 64 div 64" "a div 4 mod 64 = a div 4"
    using l s by (simp_all add: div_mult2_eq [symmetric])
  have "push_bit 4 (a AND 3) OR drop_bit 4 (b AND 240) = 16 * (a mod 4) + b div 16"
    unfolding and_low and_high [OF assms(2)] by (rule or_small) (use l s in simp_all)
  moreover have "push_bit 2 (b AND 15) OR drop_bit 6 (c AND 192) = 4 * (b mod 16) + c div 64"
    unfolding and_low and_high [OF assms(3)] by (rule or_small2) (use l s in simp_all)
  ultimately show ?thesis
    unfolding enc64_def digits64_def list.map k by (simp add: d g h k(3) and_low drop_bit_eq_div)
qed

lemma length_20: "length (xs :: 'a list) = 20 \<Longrightarrow>
    \<exists>a b c d e f g h i j k l m n p q r s t u. xs = [a, b, c, d, e, f, g, h, i, j, k, l, m, n, p, q, r, s, t, u]"
  by (auto simp: eval_nat_numeral length_Suc_conv)

lemma accept_value_base64:
  assumes "length (SHA1 (key @ websocket_guid)) = 20" "\<forall>b \<in> set (SHA1 (key @ websocket_guid)). b < 256"
  shows "make_accept_value SHA1 key = base64 (SHA1 (key @ websocket_guid))"
proof -
  from length_20 [OF assms(1)] obtain a b c d e f g h i j k l m n p q r s t u where
    x: "SHA1 (key @ websocket_guid) = [a, b, c, d, e, f, g, h, i, j, k, l, m, n, p, q, r, s, t, u]" by (elim exE)
  have lt: "a < 256" "b < 256" "c < 256" "d < 256" "e < 256" "f < 256" "g < 256" "h < 256" "i < 256" "j < 256" "k < 256" "l < 256" "m < 256" "n < 256"
    "p < 256" "q < 256" "r < 256" "s < 256" "t < 256" "u < 256" using assms(2) unfolding x by simp_all
  have four: "length (digits64 y) = 4" for y by (simp add: digits64_def)
  have last: "(w @ digits64 y)[27 := CHR ''=''] = w @ take 3 (digits64 y) @ ''=''" if "length w = 24" for w y
    using that by (simp add: digits64_def list_update_append)
  have "make_accept_value SHA1 key =
    ((digits64 (65536 * a + 256 * b + c) @ digits64 (65536 * d + 256 * e + f) @ digits64 (65536 * g + 256 * h + i) @ digits64 (65536 * j + 256 * k + l)
     @ digits64 (65536 * m + 256 * n + p) @ digits64 (65536 * q + 256 * r + s)) @ digits64 (65536 * t + 256 * u + 0))[27 := CHR ''='']"
    unfolding make_accept_value_def Let_def x using lt by (simp add: enc64_digits)
  also have "\<dots> = base64 (SHA1 (key @ websocket_guid))"
    by (subst last) (simp_all add: four x)
  finally show ?thesis .
qed

section \<open>Tokens of headers\<close>

definition vsep :: "char \<Rightarrow> bool" where
  "vsep c \<longleftrightarrow> c \<in> {CHR '' '', CHR 0x09, CHR '',''}"

lemma vsep_progress: "h = dropWhile vsep header \<Longrightarrow> h \<noteq> [] \<Longrightarrow> length (drop (length (takeWhile (\<lambda>c. \<not> vsep c) h)) h) < length header"
proof -
  assume h: "h = dropWhile vsep header" "h \<noteq> []"
  then have "\<not> vsep (hd h)" using hd_dropWhile [of vsep header] by simp
  with h(2) obtain c t where "h = c # t" "\<not> vsep c" by (cases h) simp_all
  then have "length (drop (length (takeWhile (\<lambda>c. \<not> vsep c) h)) h) < length h" by simp
  also have "length h \<le> length header" using h length_dropWhile_le by blast
  finally show ?thesis .
qed

function headerhas :: "string \<Rightarrow> string \<Rightarrow> bool" where
  "headerhas header needle =
     (let h = dropWhile vsep header in
      if h = [] then False
      else let len = length (takeWhile (\<lambda>c. \<not> vsep c) h) in
        if length needle = len \<and> strncasecmp needle h (length needle) = 0 then True
        else headerhas (drop len h) needle)"
  by pat_completeness auto

termination
  by (relation "measure (length \<circ> fst)") (use vsep_progress in auto)

declare headerhas.simps [simp del]

record 'w protodef =
  pd_name :: string
  pd_create :: "sessions \<Rightarrow> afb_context \<Rightarrow> int \<Rightarrow> sessions \<times> 'w option"

definition proto_matches :: "string \<Rightarrow> nat \<Rightarrow> 'w protodef \<Rightarrow> bool" where
  "proto_matches protocols len d \<longleftrightarrow> strncasecmp (pd_name d) protocols len = 0 \<and> cat (pd_name d) len = NUL"

function search_protocols :: "'w protodef list \<Rightarrow> string \<Rightarrow> 'w protodef option" where
  "search_protocols protodefs protocols =
     (let h = dropWhile vsep protocols in
      if h = [] then None
      else let len = length (takeWhile (\<lambda>c. \<not> vsep c) h) in
        case first_index (proto_matches h len) protodefs of
          Some i \<Rightarrow> Some (protodefs ! i)
        | None \<Rightarrow> search_protocols protodefs (drop len h))"
  by pat_completeness auto

termination
  by (relation "measure (length \<circ> snd)") (use vsep_progress in auto)

declare search_protocols.simps [simp del]

definition search_proto :: "'w protodef list \<Rightarrow> string option \<Rightarrow> 'w protodef option" where
  "search_proto protodefs protocols =
     (case protocols of
        None \<Rightarrow> if protodefs \<noteq> [] then Some (hd protodefs) else None
      | Some p \<Rightarrow> search_protocols protodefs p)"

text \<open>The tokens of a header: what is between separators.\<close>

fun tokens_from :: "string \<Rightarrow> string \<Rightarrow> string list" where
  "tokens_from acc [] = (if acc = [] then [] else [rev acc])"
| "tokens_from acc (c # s) = (if vsep c then (if acc = [] then [] else [rev acc]) @ tokens_from [] s else tokens_from (c # acc) s)"

definition tokens :: "string \<Rightarrow> string list" where
  "tokens s = tokens_from [] s"

lemma tokens_from_word: "\<forall>c \<in> set t. \<not> vsep c \<Longrightarrow> tokens_from acc (t @ s) = tokens_from (rev t @ acc) s"
  by (induction t arbitrary: acc) auto

lemma tokens_from_skip: "tokens_from [] (dropWhile vsep s) = tokens_from [] s"
  by (induction s) auto

lemma tokens_from_end: "acc \<noteq> [] \<Longrightarrow> s = [] \<or> vsep (hd s) \<Longrightarrow> tokens_from acc s = rev acc # tokens_from [] s"
  by (cases s) auto

lemma tokens_unfold:
  "tokens s = (let h = dropWhile vsep s in
     if h = [] then [] else takeWhile (\<lambda>c. \<not> vsep c) h # tokens (drop (length (takeWhile (\<lambda>c. \<not> vsep c) h)) h))"
proof -
  let ?h = "dropWhile vsep s"
  let ?t = "takeWhile (\<lambda>c. \<not> vsep c) ?h" and ?r = "dropWhile (\<lambda>c. \<not> vsep c) ?h"
  have r: "drop (length ?t) ?h = ?r" by (simp add: dropWhile_eq_drop)
  show ?thesis
  proof (cases "?h = []")
    case True
    with tokens_from_skip [of s] show ?thesis by (simp add: tokens_def)
  next
    case False
    then have "?t \<noteq> []" using hd_dropWhile [of vsep s] by (cases ?h) auto
    moreover have "?r = [] \<or> vsep (hd ?r)" using hd_dropWhile [of "\<lambda>c. \<not> vsep c" ?h] by auto
    moreover have "\<forall>c \<in> set ?t. \<not> vsep c" by (auto dest: set_takeWhileD)
    ultimately have "tokens_from [] (?t @ ?r) = ?t # tokens_from [] ?r"
      using tokens_from_word [of ?t "[]" ?r] tokens_from_end [of "rev ?t" ?r] by (simp only: append_Nil2 rev_is_Nil_conv rev_rev_ident) blast
    then have "tokens_from [] s = ?t # tokens_from [] ?r" by (simp only: takeWhile_dropWhile_id tokens_from_skip)
    with False show ?thesis unfolding tokens_def Let_def r by (simp only: if_False)
  qed
qed

lemma headerhas_tokens:
  assumes "is_cstring needle"
  shows "is_cstring header \<Longrightarrow> headerhas header needle \<longleftrightarrow> (\<exists>t \<in> set (tokens header). casekey t = casekey needle)"
  using assms
proof (induction header needle rule: headerhas.induct)
  case (1 header needle)
  let ?h = "dropWhile vsep header"
  let ?t = "takeWhile (\<lambda>c. \<not> vsep c) ?h"
  let ?m = "length needle = length ?t \<and> strncasecmp needle ?h (length needle) = 0"
  have ch: "is_cstring ?h" using 1(2) by (rule is_cstring_dropWhile)
  have m: "?m \<longleftrightarrow> casekey ?t = casekey needle"
  proof -
    have "take (length ?t) ?h = ?t" by (metis takeWhile_eq_take)
    then have "take (length ?t) (casekey ?h) = casekey ?t" by (metis take_casekey)
    then show ?thesis using strncasecmp_eq_0 [OF 1(3) ch] casekey_inj_length [of ?t needle]
      by (metis length_casekey order_refl take_all_iff)
  qed
  show ?case
  proof (cases "?h = [] \<or> ?m")
    case True
    then show ?thesis using m unfolding headerhas.simps [of header needle] tokens_unfold [of header] Let_def by auto
  next
    case False
    with 1(1) [OF refl _ refl] ch 1(3) have "headerhas (drop (length ?t) ?h) needle \<longleftrightarrow> (\<exists>t \<in> set (tokens (drop (length ?t) ?h)). casekey t = casekey needle)"
      by (simp add: is_cstring_drop)
    with False m show ?thesis unfolding headerhas.simps [of header needle] tokens_unfold [of header] Let_def by auto
  qed
qed

fun first_match :: "'w protodef list \<Rightarrow> string list \<Rightarrow> 'w protodef option" where
  "first_match defs [] = None"
| "first_match defs (t # ts) =
     (case first_index (\<lambda>d. casekey (pd_name d) = casekey t) defs of Some i \<Rightarrow> Some (defs ! i) | None \<Rightarrow> first_match defs ts)"

lemma proto_matches_iff:
  assumes "is_cstring (pd_name d)" "is_cstring h" "len \<le> length h"
  shows "proto_matches h len d \<longleftrightarrow> casekey (pd_name d) = casekey (take len h)"
proof
  assume m: "proto_matches h len d"
  then have e: "take len (casekey (pd_name d)) = take len (casekey h)" using strncasecmp_eq_0 [OF assms(1,2)] by (simp add: proto_matches_def)
  have "length (pd_name d) \<le> len"
  proof (rule ccontr)
    assume l: "\<not> length (pd_name d) \<le> len"
    then have "pd_name d ! len = NUL" using m by (simp add: proto_matches_def cat_def)
    moreover have "pd_name d ! len \<in> set (pd_name d)" using l by simp
    ultimately show False using assms(1) by (simp add: is_cstring_def)
  qed
  with e show "casekey (pd_name d) = casekey (take len h)" by (simp add: take_casekey)
next
  assume e: "casekey (pd_name d) = casekey (take len h)"
  then have "length (pd_name d) = len" using casekey_inj_length [OF e] assms(3) by simp
  with e show "proto_matches h len d" using strncasecmp_eq_0 [OF assms(1,2), of len] by (simp add: proto_matches_def cat_def take_casekey)
qed

lemma search_protocols_tokens:
  "is_cstring protocols \<Longrightarrow> \<forall>d \<in> set defs. is_cstring (pd_name d) \<Longrightarrow> search_protocols defs protocols = first_match defs (tokens protocols)"
proof (induction defs protocols rule: search_protocols.induct)
  case (1 defs protocols)
  let ?h = "dropWhile vsep protocols"
  let ?t = "takeWhile (\<lambda>c. \<not> vsep c) ?h"
  have ch: "is_cstring ?h" using 1(2) by (rule is_cstring_dropWhile)
  have t: "take (length ?t) ?h = ?t" by (metis takeWhile_eq_take)
  have f: "first_index (proto_matches ?h (length ?t)) defs = first_index (\<lambda>d. casekey (pd_name d) = casekey ?t) defs"
  proof (rule first_index_cong)
    fix d assume "d \<in> set defs"
    with 1(3) have "is_cstring (pd_name d)" by blast
    from proto_matches_iff [OF this ch length_takeWhile_le] t show "proto_matches ?h (length ?t) d = (casekey (pd_name d) = casekey ?t)" by simp
  qed
  show ?case
  proof (cases "?h = []")
    case True
    then show ?thesis unfolding search_protocols.simps [of defs protocols] tokens_unfold [of protocols] Let_def by simp
  next
    case False
    have "search_protocols defs (drop (length ?t) ?h) = first_match defs (tokens (drop (length ?t) ?h))"
      if "first_index (proto_matches ?h (length ?t)) defs = None"
      using 1(1) [OF refl False refl that] ch 1(3) by (simp add: is_cstring_drop)
    with False f show ?thesis unfolding search_protocols.simps [of defs protocols] tokens_unfold [of protocols] Let_def by (auto split: option.split)
  qed
qed

section \<open>The upgrade\<close>

definition is_space :: "char \<Rightarrow> bool" where
  "is_space c \<longleftrightarrow> c \<in> {CHR '' '', CHR 0x09, CHR 0x0A, CHR 0x0B, CHR 0x0C, CHR 0x0D}"

definition is_digit :: "char \<Rightarrow> bool" where
  "is_digit c \<longleftrightarrow> 48 \<le> byte_of c \<and> byte_of c \<le> 57"

definition atoi :: "string \<Rightarrow> int" where
  "atoi s =
     (let t = dropWhile is_space s; neg = (t \<noteq> [] \<and> hd t = CHR ''-'');
          u = (if t \<noteq> [] \<and> (hd t = CHR ''-'' \<or> hd t = CHR ''+'') then tl t else t);
          v = int (undec (takeWhile is_digit u))
      in if neg then - v else v)"

text \<open>\<open>info\<close> is the descriptor of the connection, if the library gives it. The results: the sessions, the responses queued,
  the returned value and the websocket.\<close>

definition no_body :: "nat \<Rightarrow> (string \<times> string) list \<Rightarrow> 'j response" where
  "no_body status headers = \<lparr>rsp_status = status, rsp_headers = headers, rsp_body = Body_buffer []\<rparr>"

definition check_websocket_upgrade ::
  "(string \<Rightarrow> nat list) \<Rightarrow> int option \<Rightarrow> conn \<Rightarrow> 'w protodef list \<Rightarrow> afb_context \<Rightarrow> sessions
     \<Rightarrow> sessions \<times> 'j response list \<times> bool \<times> 'w option" where
  "check_websocket_upgrade SHA1 info con protodefs x s =
     (case cn_header con ''Upgrade'' of
        None \<Rightarrow> (s, [], False, None)
      | Some upgrade \<Rightarrow>
          if strcasecmp upgrade websocket_s \<noteq> 0 then (s, [], False, None)
          else (case cn_header con ''Connection'' of
             None \<Rightarrow> (s, [], False, None)
           | Some connection \<Rightarrow>
               if \<not> headerhas connection ''Upgrade'' then (s, [], False, None)
               else (case (cn_header con sec_websocket_key_s, cn_header con sec_websocket_version_s) of
                  (Some key, Some version) \<Rightarrow>
                    if atoi version \<noteq> 13 then (s, [no_body MHD_HTTP_UPGRADE_REQUIRED [(sec_websocket_version_s, ''13'')]], True, None)
                    else (case search_proto protodefs (cn_header con sec_websocket_protocol_s) of
                       None \<Rightarrow> (s, [no_body MHD_HTTP_PRECONDITION_FAILED []], True, None)
                     | Some proto \<Rightarrow>
                         (case info of
                            None \<Rightarrow> (s, [no_body MHD_HTTP_INTERNAL_SERVER_ERROR []], True, None)
                          | Some fd \<Rightarrow>
                              (case pd_create proto s x fd of
                                 (s1, None) \<Rightarrow> (s1, [no_body MHD_HTTP_INTERNAL_SERVER_ERROR []], True, None)
                               | (s1, Some ws) \<Rightarrow>
                                   (s1, [no_body MHD_HTTP_SWITCHING_PROTOCOLS
                                      [(sec_websocket_accept_s, make_accept_value SHA1 key), (sec_websocket_protocol_s, pd_name proto),
                                       (''Connection'', ''Upgrade''), (''Upgrade'', websocket_s)]], True, Some ws))))
                | _ \<Rightarrow> (s, [], False, None))))"

definition protodefs :: "(sessions \<Rightarrow> afb_context \<Rightarrow> int \<Rightarrow> sessions \<times> 'w option) \<Rightarrow> 'w protodef list" where
  "protodefs afb_ws_json1_create = [\<lparr>pd_name = ''x-afb-ws-json1'', pd_create = afb_ws_json1_create\<rparr>]"

definition afb_websock_check_upgrade ::
  "(string \<Rightarrow> nat list) \<Rightarrow> (sessions \<Rightarrow> afb_context \<Rightarrow> int \<Rightarrow> sessions \<times> 'w option) \<Rightarrow> int option \<Rightarrow> sessions \<Rightarrow> 'j afb_hreq
     \<Rightarrow> sessions \<times> 'j afb_hreq \<times> bool \<times> 'w option" where
  "afb_websock_check_upgrade SHA1 create info s h =
     (if hq_method h \<noteq> afb_method_get \<or> strcasecmp (hq_version h) ''HTTP/1.1'' \<noteq> 0 then (s, h, False, None)
      else case check_websocket_upgrade SHA1 info (hq_conn h) (protodefs create) (hq_context h) s of
        (s1, rs, rc, ws) \<Rightarrow>
          (s1, if rc then h\<lparr>hq_sent := hq_sent h @ rs, hq_replied := True, hq_upgrade := hq_upgrade h \<or> ws \<noteq> None\<rparr> else h, rc, ws))"

text \<open>What a handshake must have.\<close>

definition handshake :: "'j afb_hreq \<Rightarrow> bool" where
  "handshake h \<longleftrightarrow> hq_method h = afb_method_get \<and> casekey (hq_version h) = casekey ''HTTP/1.1''
     \<and> (\<exists>u. cn_header (hq_conn h) ''Upgrade'' = Some u \<and> casekey u = casekey websocket_s)
     \<and> (\<exists>c. cn_header (hq_conn h) ''Connection'' = Some c \<and> (\<exists>t \<in> set (tokens c). casekey t = casekey ''Upgrade''))
     \<and> (\<exists>k. cn_header (hq_conn h) sec_websocket_key_s = Some k)
     \<and> (\<exists>v. cn_header (hq_conn h) sec_websocket_version_s = Some v \<and> atoi v = 13)
     \<and> (\<forall>p. cn_header (hq_conn h) sec_websocket_protocol_s = Some p \<longrightarrow> (\<exists>t \<in> set (tokens p). casekey t = casekey ''x-afb-ws-json1''))"

definition clean_headers :: "'j afb_hreq \<Rightarrow> bool" where
  "clean_headers h \<longleftrightarrow> is_cstring (hq_version h) \<and> (\<forall>n v. cn_header (hq_conn h) n = Some v \<longrightarrow> is_cstring v)"

lemma first_match_single: "first_match [d] ts \<noteq> None \<longleftrightarrow> (\<exists>t \<in> set ts. casekey t = casekey (pd_name d))"
  "first_match [d] ts = Some e \<Longrightarrow> e = d"
  by (induction ts) (auto split: if_splits)

lemma search_single:
  assumes "\<And>p. po = Some p \<Longrightarrow> is_cstring p" "is_cstring (pd_name d)"
  shows "search_proto [d] po = (if \<forall>p. po = Some p \<longrightarrow> (\<exists>t \<in> set (tokens p). casekey t = casekey (pd_name d)) then Some d else None)"
proof (cases po)
  case (Some p)
  have "search_proto [d] po = first_match [d] (tokens p)" using Some assms search_protocols_tokens [of p "[d]"] by (simp add: search_proto_def)
  with Some first_match_single [of d "tokens p"] show ?thesis by (cases "first_match [d] (tokens p)") auto
qed (simp add: search_proto_def)

lemma literals: "is_cstring ''HTTP/1.1''" "is_cstring ''websocket''" "is_cstring ''Upgrade''" "is_cstring ''x-afb-ws-json1''"
  by (simp_all add: NUL_def)

lemmas handshake_tests = strcasecmp_eq_0 [OF _ literals(1)] strcasecmp_eq_0 [OF _ literals(2), folded websocket_s_def]
  headerhas_tokens [OF literals(3)]

lemma upgrade_granted:
  assumes "clean_headers h" "handshake h" "create s (hq_context h) fd = (s1, w)"
  shows "\<exists>key. cn_header (hq_conn h) sec_websocket_key_s = Some key \<and>
    afb_websock_check_upgrade SHA1 create (Some fd) s h =
      (s1, h\<lparr>hq_sent := hq_sent h @ [case w of None \<Rightarrow> no_body MHD_HTTP_INTERNAL_SERVER_ERROR []
              | Some _ \<Rightarrow> no_body MHD_HTTP_SWITCHING_PROTOCOLS [(sec_websocket_accept_s, make_accept_value SHA1 key), (sec_websocket_protocol_s, ''x-afb-ws-json1''),
                  (''Connection'', ''Upgrade''), (''Upgrade'', websocket_s)]],
            hq_replied := True, hq_upgrade := hq_upgrade h \<or> w \<noteq> None\<rparr>, True, w)"
proof -
  from assms(2) obtain u c k v where
    u: "cn_header (hq_conn h) ''Upgrade'' = Some u" "casekey u = casekey websocket_s" and
    c: "cn_header (hq_conn h) ''Connection'' = Some c" "\<exists>t \<in> set (tokens c). casekey t = casekey ''Upgrade''" and
    k: "cn_header (hq_conn h) sec_websocket_key_s = Some k" and
    v: "cn_header (hq_conn h) sec_websocket_version_s = Some v" "atoi v = 13" and
    m: "hq_method h = afb_method_get" "casekey (hq_version h) = casekey ''HTTP/1.1''" and
    p: "\<forall>p. cn_header (hq_conn h) sec_websocket_protocol_s = Some p \<longrightarrow> (\<exists>t \<in> set (tokens p). casekey t = casekey ''x-afb-ws-json1'')"
    unfolding handshake_def by (elim exE conjE) (rule that)
  from assms(1) u(1) c(1) have cs: "is_cstring (hq_version h)" "is_cstring u" "is_cstring c"
    "\<And>p. cn_header (hq_conn h) sec_websocket_protocol_s = Some p \<Longrightarrow> is_cstring p"
    unfolding clean_headers_def by blast+
  have 1: "strcasecmp (hq_version h) ''HTTP/1.1'' = 0" "strcasecmp u websocket_s = 0" "headerhas c ''Upgrade''"
    using m(2) u(2) c(2) unfolding handshake_tests(1) [OF cs(1)] handshake_tests(2) [OF cs(2)] handshake_tests(3) [OF cs(3)] by blast+
  have 2: "search_proto (protodefs create) (cn_header (hq_conn h) sec_websocket_protocol_s) = Some \<lparr>pd_name = ''x-afb-ws-json1'', pd_create = create\<rparr>"
    unfolding protodefs_def using p by (subst search_single) (use cs(4) literals(4) in simp_all)
  have 3: "check_websocket_upgrade SHA1 (Some fd) (hq_conn h) (protodefs create) (hq_context h) s =
    (s1, [case w of None \<Rightarrow> no_body MHD_HTTP_INTERNAL_SERVER_ERROR []
              | Some _ \<Rightarrow> no_body MHD_HTTP_SWITCHING_PROTOCOLS [(sec_websocket_accept_s, make_accept_value SHA1 k), (sec_websocket_protocol_s, ''x-afb-ws-json1''),
                  (''Connection'', ''Upgrade''), (''Upgrade'', websocket_s)]], True, w)"
    unfolding check_websocket_upgrade_def u(1) c(1) k v(1) option.case prod.case 2 1(2) v(2) protodef.select_convs assms(3)
    using 1(3) by (cases w) (simp_all only: simp_thms if_True if_False option.case)
  show ?thesis
    unfolding afb_websock_check_upgrade_def 3 m(1) 1(1) k prod.case by (intro exI [of _ k]) (simp only: simp_thms if_False if_True)
qed

lemma upgrade_refused:
  assumes "clean_headers h" "\<not> handshake h"
  shows "\<exists>h' rc. afb_websock_check_upgrade SHA1 create (Some fd) s h = (s, h', rc, None) \<and> hq_upgrade h' = hq_upgrade h
    \<and> (if rc then hq_replied h' \<and> (\<exists>r. hq_sent h' = hq_sent h @ [r] \<and> rsp_status r \<in> {MHD_HTTP_UPGRADE_REQUIRED, MHD_HTTP_PRECONDITION_FAILED}) else h' = h)"
proof (cases "hq_method h = afb_method_get \<and> casekey (hq_version h) = casekey ''HTTP/1.1''")
  case False
  moreover have "is_cstring (hq_version h)" using assms(1) by (simp add: clean_headers_def)
  ultimately show ?thesis using handshake_tests(1) by (auto simp: afb_websock_check_upgrade_def)
next
  case True
  have v: "strcasecmp (hq_version h) ''HTTP/1.1'' = 0" using True assms(1) handshake_tests(1) by (simp add: clean_headers_def)
  have cs: "cn_header (hq_conn h) n = Some t \<Longrightarrow> is_cstring t" for n t using assms(1) unfolding clean_headers_def by blast
  let ?r = "check_websocket_upgrade SHA1 (Some fd) (hq_conn h) (protodefs create) (hq_context h) s :: sessions \<times> 'a response list \<times> bool \<times> 'b option"
  have sp: "search_proto (protodefs create) (cn_header (hq_conn h) sec_websocket_protocol_s) =
    (if \<forall>p. cn_header (hq_conn h) sec_websocket_protocol_s = Some p \<longrightarrow> (\<exists>t \<in> set (tokens p). casekey t = casekey ''x-afb-ws-json1'')
     then Some \<lparr>pd_name = ''x-afb-ws-json1'', pd_create = create\<rparr> else None)"
    unfolding protodefs_def using literals(4) by (subst search_single) (use cs in \<open>simp_all del: is_cstring_Cons\<close>)
  have "?r = (s, [], False, None) \<or> (\<exists>x. ?r = (s, [x], True, None) \<and> rsp_status x \<in> {MHD_HTTP_UPGRADE_REQUIRED, MHD_HTTP_PRECONDITION_FAILED})"
  proof (cases "(\<exists>u. cn_header (hq_conn h) ''Upgrade'' = Some u \<and> casekey u = casekey websocket_s)
      \<and> (\<exists>c. cn_header (hq_conn h) ''Connection'' = Some c \<and> (\<exists>t \<in> set (tokens c). casekey t = casekey ''Upgrade''))")
    case False
    have "cn_header (hq_conn h) ''Upgrade'' = Some u \<Longrightarrow> strcasecmp u websocket_s = 0 \<longleftrightarrow> casekey u = casekey websocket_s" for u
      using handshake_tests(2) cs by blast
    moreover have "cn_header (hq_conn h) ''Connection'' = Some c \<Longrightarrow> headerhas c ''Upgrade'' \<longleftrightarrow> (\<exists>t \<in> set (tokens c). casekey t = casekey ''Upgrade'')" for c
      using handshake_tests(3) cs by blast
    ultimately have "?r = (s, [], False, None)" using False unfolding check_websocket_upgrade_def by (simp split: option.split) blast
    then show ?thesis by blast
  next
    case h: True
    then obtain u c where u: "cn_header (hq_conn h) ''Upgrade'' = Some u" "strcasecmp u websocket_s = 0"
      and c: "cn_header (hq_conn h) ''Connection'' = Some c" "headerhas c ''Upgrade''" using handshake_tests(2,3) cs by metis
    let ?k = "cn_header (hq_conn h) sec_websocket_key_s" and ?v = "cn_header (hq_conn h) sec_websocket_version_s"
    let ?p = "\<forall>p. cn_header (hq_conn h) sec_websocket_protocol_s = Some p \<longrightarrow> (\<exists>t \<in> set (tokens p). casekey t = casekey ''x-afb-ws-json1'')"
    have r: "?r = (case (?k, ?v) of
        (Some key, Some version) \<Rightarrow>
          if atoi version \<noteq> 13 then (s, [no_body MHD_HTTP_UPGRADE_REQUIRED [(sec_websocket_version_s, ''13'')]], True, None)
          else (case search_proto (protodefs create) (cn_header (hq_conn h) sec_websocket_protocol_s) of
             None \<Rightarrow> (s, [no_body MHD_HTTP_PRECONDITION_FAILED []], True, None)
           | Some proto \<Rightarrow> (case pd_create proto s (hq_context h) fd of
                 (s1, None) \<Rightarrow> (s1, [no_body MHD_HTTP_INTERNAL_SERVER_ERROR []], True, None)
               | (s1, Some ws) \<Rightarrow> (s1, [no_body MHD_HTTP_SWITCHING_PROTOCOLS
                    [(sec_websocket_accept_s, make_accept_value SHA1 key), (sec_websocket_protocol_s, pd_name proto),
                     (''Connection'', ''Upgrade''), (''Upgrade'', websocket_s)]], True, Some ws)))
      | _ \<Rightarrow> (s, [], False, None))"
      unfolding check_websocket_upgrade_def u(1) c(1) option.case u(2) using c(2) by (simp only: simp_thms if_True if_False)
    have n: "\<not> ((\<exists>k. ?k = Some k) \<and> (\<exists>v. ?v = Some v \<and> atoi v = 13) \<and> ?p)" using assms(2) True h unfolding handshake_def by blast
    show ?thesis
    proof (cases ?k)
      case (Some k)
      show ?thesis
      proof (cases ?v)
        case v: (Some v)
        show ?thesis
        proof (cases "atoi v = 13")
          case e: True
          then have "\<not> ?p" using n Some v by blast
          then have "search_proto (protodefs create) (cn_header (hq_conn h) sec_websocket_protocol_s) = None" unfolding sp by (rule if_not_P)
          with e show ?thesis unfolding r Some v option.case prod.case by (simp add: no_body_def)
        next
          case False
          then show ?thesis unfolding r Some v option.case prod.case by (simp add: no_body_def)
        qed
      qed (simp add: r Some)
    qed (simp add: r)
  qed
  then show ?thesis
  proof (elim disjE exE conjE)
    assume "?r = (s, [], False, None)"
    then show ?thesis using True v by (intro exI [of _ h] exI [of _ False]) (simp add: afb_websock_check_upgrade_def)
  next
    fix x assume "?r = (s, [x], True, None)" "rsp_status x \<in> {MHD_HTTP_UPGRADE_REQUIRED, MHD_HTTP_PRECONDITION_FAILED}"
    then show ?thesis using True v by (intro exI [of _ "h\<lparr>hq_sent := hq_sent h @ [x], hq_replied := True\<rparr>"] exI [of _ True]) (simp add: afb_websock_check_upgrade_def)
  qed
qed

text \<open>The value that accepts a websocket is what the protocol asks for: the base64 encoding, by the standard's definition on
  numbers of 24 bits, of the digest of the key followed by the fixed identifier; the shifts and masks of the code, the zero byte
  that completes the digest and the padding that overwrites the last character come to the same text, of 28 characters.\<close>

lemma accept_value_is_base64:
  assumes "length (SHA1 (key @ websocket_guid)) = 20" "\<forall>b \<in> set (SHA1 (key @ websocket_guid)). b < 256"
  shows "make_accept_value SHA1 key = base64 (SHA1 (key @ websocket_guid)) \<and> length (make_accept_value SHA1 key) = 28"
proof
  show e: "make_accept_value SHA1 key = base64 (SHA1 (key @ websocket_guid))" by (rule accept_value_base64) (rule assms)+
  have "length (digits64 n) = 4" for n by (simp add: digits64_def)
  then show "length (make_accept_value SHA1 key) = 28" unfolding e using length_20 [OF assms(1)] by (elim exE) (simp only: base64.simps, simp)
qed

definition demo_digest :: "string \<Rightarrow> nat list" where
  "demo_digest m = map (\<lambda>i. (length m + 77 * i) mod 256) [0..<20]"

text \<open>C31. The upgrade of a request to a websocket: exactly for a well formed handshake (a GET of HTTP/1.1 with the headers of the protocol,
  version 13, and a protocol list that is absent or names the one of the binder, compared as tokens without case) is the websocket
  created, once, and the request answered by the status 101 with the accept value; any other request is left to the next
  handler or answered by the status that tells what is missing, with the sessions unchanged and no websocket.\<close>

theorem upgrade_iff_handshake:
  assumes "clean_headers h" "afb_websock_check_upgrade SHA1 create (Some fd) s h = (s', h', rc, ws)"
    and "create s (hq_context h) fd = (s1, Some w)"
  shows "if handshake h
    then s' = s1 \<and> ws = Some w \<and> rc \<and> hq_replied h' \<and> hq_upgrade h'
      \<and> (\<exists>key r. cn_header (hq_conn h) sec_websocket_key_s = Some key \<and> hq_sent h' = hq_sent h @ [r]
          \<and> rsp_status r = MHD_HTTP_SWITCHING_PROTOCOLS \<and> (sec_websocket_accept_s, make_accept_value SHA1 key) \<in> set (rsp_headers r))
    else s' = s \<and> ws = None \<and> hq_upgrade h' = hq_upgrade h
      \<and> (if rc then hq_replied h' \<and> (\<exists>r. hq_sent h' = hq_sent h @ [r] \<and> rsp_status r \<in> {MHD_HTTP_UPGRADE_REQUIRED, MHD_HTTP_PRECONDITION_FAILED}) else h' = h)"
proof (cases "handshake h")
  case True
  from upgrade_granted [of h create s fd s1 "Some w" SHA1, OF assms(1) True assms(3)] assms(2) True show ?thesis by (auto simp: no_body_def)
next
  case False
  from upgrade_refused [OF assms(1) False, of SHA1 create fd s] assms(2) False show ?thesis by auto
qed

definition demo_upgrade :: "unit afb_hreq" where
  "demo_upgrade = demo_hreq ''/ws'' \<lparr>hq_conn := demo_conn\<lparr>cn_header := [''Upgrade'' \<mapsto> ''websocket'', ''Connection'' \<mapsto> ''keep-alive, Upgrade'',
     sec_websocket_key_s \<mapsto> ''k'', sec_websocket_version_s \<mapsto> ''13'']\<rparr>\<rparr>"

lemma demo_upgrade_facts: "clean_headers demo_upgrade" "handshake demo_upgrade"
proof -
  have k: "sec_websocket_key_s = ''Sec-WebSocket-Key''" "sec_websocket_version_s = ''Sec-WebSocket-Version''" "sec_websocket_protocol_s = ''Sec-WebSocket-Protocol''"
    by (simp_all add: sec_websocket_key_s_def sec_websocket_version_s_def sec_websocket_protocol_s_def)
  show "clean_headers demo_upgrade"
    by (simp add: clean_headers_def demo_upgrade_def demo_hreq_def demo_conn_def k NUL_def)
  have "''Upgrade'' \<in> set (tokens ''keep-alive, Upgrade'')" by (simp add: tokens_def vsep_def)
  moreover have "atoi ''13'' = 13" by (simp add: atoi_def is_space_def is_digit_def byte_of_def Let_def)
  ultimately show "handshake demo_upgrade"
    by (auto simp: handshake_def demo_upgrade_def demo_hreq_def demo_conn_def k websocket_s_def)
qed

theorem upgrade_iff_handshake_witness:
  "\<exists>s' h' rc ws. afb_websock_check_upgrade demo_digest (\<lambda>s x fd. (s, Some fd)) (Some 5) demo_session demo_upgrade = (s', h', rc, ws)
     \<and> ws = Some 5 \<and> hq_upgrade h'"
proof -
  obtain s' h' rc ws where r: "afb_websock_check_upgrade demo_digest (\<lambda>s x fd. (s, Some fd)) (Some 5) demo_session demo_upgrade = (s', h', rc, ws)"
    by (rule prod_cases4)
  from upgrade_iff_handshake [OF demo_upgrade_facts(1) r] demo_upgrade_facts(2) r show ?thesis by auto
qed

text \<open>Where a websocket comes from, whatever the headers are.\<close>

lemma search_protocols_mem: "search_protocols ds p = Some d \<Longrightarrow> d \<in> set ds"
proof (induction ds p rule: search_protocols.induct)
  case (1 ds p)
  from 1(2) show ?case unfolding search_protocols.simps [of ds p] Let_def
    using 1(1) [OF refl _ refl] first_index_Some by (force split: if_splits option.splits)
qed

lemma search_proto_create: "search_proto (protodefs create) p = Some d \<Longrightarrow> pd_create d = create"
  by (cases p) (auto simp: search_proto_def protodefs_def dest!: search_protocols_mem)

lemma upgrade_creates:
  fixes h :: "'j afb_hreq"
  assumes "afb_websock_check_upgrade SHA1 create info s h = (s', h', rc, Some w)"
  shows "\<exists>fd. info = Some fd \<and> create s (hq_context h) fd = (s', Some w)"
proof -
  from assms obtain rs :: "'j response list" where c: "check_websocket_upgrade SHA1 info (hq_conn h) (protodefs create) (hq_context h) s = (s', rs, rc, Some w)"
    by (auto simp: afb_websock_check_upgrade_def split: if_splits prod.splits)
  then obtain d fd where "search_proto (protodefs create) (cn_header (hq_conn h) sec_websocket_protocol_s) = Some d" "info = Some fd" "pd_create d s (hq_context h) fd = (s', Some w)"
    unfolding check_websocket_upgrade_def by (simp split: option.splits if_splits prod.splits)
  with search_proto_create show ?thesis by blast
qed

end
