(* ===== verification/Hswitch.thy ===== *)
theory Hswitch
  imports Upgrade Apis
begin

text \<open>
  The switches that handle requests, \<^verbatim>\<open>src/src/afb-hswitch.c\<close>: calls of APIs, the redirection of one page applications, the switch to
  a websocket. The boolean of a result tells whether the request is handled; \<open>None\<close> is a fault.
\<close>

section \<open>Definitions\<close>

text \<open>What an API does when it is called is the parameter \<open>call\<close>; it is given the verb, which is not ended at its length, and the length.\<close>

definition afb_hswitch_apis ::
  "('api \<Rightarrow> string \<Rightarrow> nat \<Rightarrow> sessions \<times> 'j afb_hreq \<Rightarrow> (sessions \<times> 'j afb_hreq) option) \<Rightarrow> 'api apis \<Rightarrow> hreq_globals \<Rightarrow> int \<Rightarrow> addr option \<Rightarrow> string
     \<Rightarrow> sessions \<Rightarrow> 'j afb_hreq \<Rightarrow> (sessions \<times> 'j afb_hreq \<times> bool) option" where
  "afb_hswitch_apis call apis g now calloc newuuid s h =
     (let api = drop (strspn1 slash (hq_tail h)) (hq_tail h); lenapi = strcspn1 slash api;
          v = drop lenapi api; verb = drop (strspn1 slash v) v; lenverb = strcspn1 slash verb
      in if \<not> (api \<noteq> [] \<and> verb \<noteq> [] \<and> lenapi \<noteq> 0 \<and> lenverb \<noteq> 0) then Some (s, h, False)
         else do {
           (s1, h1, rc) \<leftarrow> afb_hreq_init_context g s now calloc newuuid h;
           (s2, h2) \<leftarrow> (if rc < 0 then map_option (\<lambda>h. (s1, h)) (afb_hreq_reply_error g s1 MHD_HTTP_INTERNAL_SERVER_ERROR h1)
              else (case afb_apis_call apis api lenapi of
                      None \<Rightarrow> req_fail now newuuid g s1 ''fail'' (Some ''api not found'') h1
                    | Some (i, a) \<Rightarrow> call a verb lenverb (s1, h1\<lparr>hq_context := (hq_context h1)\<lparr>ac_api_index := int i\<rparr>\<rparr>)));
           Some (s2, h2, True) })"

text \<open>The buffer of the new location; \<open>tail[1]\<close> is read up to \<open>lentail\<close> bytes, the last of which is the final zero.\<close>

definition one_page_url :: "string \<Rightarrow> string \<Rightarrow> string option" where
  "one_page_url url tail =
     (let plen = length url - length tail + 1; b0 = replicate (length url + 3) NUL in
      do { b1 \<leftarrow> memcpy b0 0 (take plen (url @ [NUL]));
           b2 \<leftarrow> memcpy b1 plen ''#!'';
           b3 \<leftarrow> memcpy b2 (plen + 2) (take (length tail) (drop 1 (tail @ [NUL])));
           Some (takeWhile (\<lambda>c. c \<noteq> NUL) b3) })"

definition afb_hswitch_one_page_api_redirect ::
  "(nat \<Rightarrow> bool) \<Rightarrow> hreq_globals \<Rightarrow> sessions \<Rightarrow> 'j afb_hreq \<Rightarrow> ('j afb_hreq \<times> bool) option" where
  "afb_hswitch_one_page_api_redirect ok g s h =
     (if length (hq_tail h) \<ge> 2 \<and> hq_tail h ! 1 = CHR ''#'' then Some (h, False)
      else do { url \<leftarrow> one_page_url (hq_url h) (hq_tail h);
                h' \<leftarrow> afb_hreq_redirect_to ok g s url True h;
                Some (h', True) })"

definition afb_hswitch_websocket_switch ::
  "(string \<Rightarrow> nat list) \<Rightarrow> (sessions \<Rightarrow> afb_context \<Rightarrow> int \<Rightarrow> sessions \<times> 'w option) \<Rightarrow> int option \<Rightarrow> hreq_globals \<Rightarrow> int \<Rightarrow> addr option \<Rightarrow> string
     \<Rightarrow> sessions \<Rightarrow> 'j afb_hreq \<Rightarrow> (sessions \<times> 'j afb_hreq \<times> bool \<times> 'w option) option" where
  "afb_hswitch_websocket_switch SHA1 create info g now calloc newuuid s h =
     (if length (hq_tail h) \<noteq> 0 then Some (s, h, False, None)
      else do {
        (s1, h1, rc) \<leftarrow> afb_hreq_init_context g s now calloc newuuid h;
        if rc < 0 then do { h2 \<leftarrow> afb_hreq_reply_error g s1 MHD_HTTP_INTERNAL_SERVER_ERROR h1; Some (s1, h2, True, None) }
        else if \<not> ac_validated (hq_context h1) then do { h2 \<leftarrow> afb_hreq_reply_error g s1 MHD_HTTP_UNAUTHORIZED h1; Some (s1, h2, True, None) }
        else Some (afb_websock_check_upgrade SHA1 create info s1 h1) })"

section \<open>Calls\<close>

lemma drop_spn: "drop (strspn1 c s) s = dropWhile (\<lambda>x. x = c) s"
  by (simp add: strspn1_def dropWhile_eq_drop)

lemma drop_cspn: "drop (strcspn1 c s) s = dropWhile (\<lambda>x. x \<noteq> c) s"
  by (simp add: strcspn1_def dropWhile_eq_drop)

lemma dropWhile_replicate: "dropWhile (\<lambda>x. x = c) (replicate n c @ s) = dropWhile (\<lambda>x. x = c) s"
  by (induction n) auto

text \<open>How a path is cut: slashes, the api, slashes, the verb, and the rest.\<close>

lemma path_split:
  assumes "slash \<notin> set api" "api \<noteq> []" "slash \<notin> set verb" "verb \<noteq> []" "0 < m" "rest = [] \<or> hd rest = slash"
    and "tail = replicate n slash @ api @ replicate m slash @ verb @ rest"
  shows "drop (strspn1 slash tail) tail = api @ replicate m slash @ verb @ rest"
    "strcspn1 slash (api @ replicate m slash @ verb @ rest) = length api"
    "let v = replicate m slash @ verb @ rest in drop (strspn1 slash v) v = verb @ rest"
    "strcspn1 slash (verb @ rest) = length verb"
proof -
  obtain m' where m: "m = Suc m'" using assms(5) by (cases m) auto
  have first: "dropWhile (\<lambda>x. x = slash) (w @ t) = w @ t" if "slash \<notin> set w" "w \<noteq> []" for w t using that by (cases w) auto
  have w: "takeWhile (\<lambda>x. x \<noteq> slash) (w @ t) = w" if "slash \<notin> set w" "t = [] \<or> hd t = slash" for w t
  proof -
    have "takeWhile (\<lambda>x. x \<noteq> slash) t = []" using that(2) by (cases t) auto
    then show ?thesis using that(1) by (subst takeWhile_append2) auto
  qed
  show "drop (strspn1 slash tail) tail = api @ replicate m slash @ verb @ rest"
    unfolding assms(7) drop_spn dropWhile_replicate by (rule first [OF assms(1,2)])
  show "strcspn1 slash (api @ replicate m slash @ verb @ rest) = length api"
    unfolding strcspn1_def m by (subst w) (use assms(1) in auto)
  show "let v = replicate m slash @ verb @ rest in drop (strspn1 slash v) v = verb @ rest"
    unfolding Let_def drop_spn dropWhile_replicate by (rule first [OF assms(3,4)])
  show "strcspn1 slash (verb @ rest) = length verb"
    unfolding strcspn1_def by (subst w [OF assms(3,6)]) (rule refl)
qed
text \<open>A request for an API: a path of slashes, a name, slashes, a verb and possibly more connects the request to its session and
  calls the API registered under that name up to case, with the verb and its length and with its index in the context; a name that is not
  registered is answered by the failure \<open>api not found\<close>.\<close>

lemma api_path_dispatch:
  assumes "hq_tail h = replicate n slash @ api @ replicate m slash @ verb @ rest" "0 < m" "rest = [] \<or> hd rest = slash"
    and "slash \<notin> set api" "api \<noteq> []" "slash \<notin> set verb" "verb \<noteq> []"
    and "apis_inv apis" "is_cstring (hq_tail h)" "afb_hreq_init_context g s now calloc newuuid h = Some (s1, h1, 0)"
  shows "afb_hswitch_apis call apis g now calloc newuuid s h = map_option (\<lambda>(s2, h2). (s2, h2, True))
    (case first_index (\<lambda>d. casekey (ad_name d) = casekey api) apis of
       None \<Rightarrow> req_fail now newuuid g s1 ''fail'' (Some ''api not found'') h1
     | Some i \<Rightarrow> call (ad_api (apis ! i)) (verb @ rest) (length verb) (s1, h1\<lparr>hq_context := (hq_context h1)\<lparr>ac_api_index := int i\<rparr>\<rparr>))"
proof -
  note p = path_split [OF assms(4,5,6,7,2,3,1)]
  let ?a = "api @ replicate m slash @ verb @ rest"
  have "is_cstring ?a" using assms(9) unfolding assms(1) by simp
  then have "api_matches ?a (length api) d \<longleftrightarrow> casekey (ad_name d) = casekey api" if "d \<in> set apis" for d
    using api_matches_iff [OF assms(8) that, of ?a "length api"] by simp
  then have f: "first_index (api_matches ?a (length api)) apis = first_index (\<lambda>d. casekey (ad_name d) = casekey api) apis"
    by (rule first_index_cong)
  have d: "drop (length api) ?a = replicate m slash @ verb @ rest" by simp
  have c: "(?a \<noteq> [] \<and> verb @ rest \<noteq> [] \<and> length api \<noteq> 0 \<and> length verb \<noteq> 0) = True" using assms(5,7) by simp
  have z: "(0 :: int) < 0 \<longleftrightarrow> False" by simp
  show ?thesis
    unfolding afb_hswitch_apis_def Let_def p(1,2) d p(3) [unfolded Let_def] p(4) c afb_apis_call_def f assms(10) bind.bind_lunit prod.case z
    by (cases "first_index (\<lambda>d. casekey (ad_name d) = casekey api) apis")
       (simp_all add: map_conv_bind_option case_prod_unfold comp_def)
qed

section \<open>Redirections of one page applications\<close>

lemma one_page_url_text:
  assumes "is_cstring url" "url = pre @ tail"
  shows "one_page_url url tail = Some (case tail of [] \<Rightarrow> url | c # t \<Rightarrow> pre @ c # ''#!'' @ t)"
proof (cases tail)
  case Nil
  have u: "takeWhile (\<lambda>c. c \<noteq> NUL) (url @ NUL # t) = url" for t using assms(1) by (subst takeWhile_append2) (auto simp: is_cstring_def)
  have r: "replicate (length url + 3) NUL = replicate (length url) NUL @ [NUL, NUL, NUL]" by (simp only: replicate_add) (simp add: numeral_3_eq_3)
  show ?thesis unfolding one_page_url_def Let_def Nil r by (simp add: memcpy_def u)
next
  case (Cons c t)
  let ?p = "pre @ [c]" and ?u = "pre @ c # ''#!'' @ t"
  have n: "length url + 3 = Suc (length pre) + (2 + Suc (length t))" unfolding assms(2) Cons by simp
  have r: "replicate (length url + 3) NUL = replicate (Suc (length pre)) NUL @ [NUL, NUL] @ replicate (Suc (length t)) NUL"
    unfolding n replicate_add by (simp only: numeral_2_eq_2 replicate.simps append.simps)
  have m1: "memcpy (replicate (length url + 3) NUL) 0 (take (length url - length tail + 1) (url @ [NUL])) = Some (?p @ [NUL, NUL] @ replicate (Suc (length t)) NUL)"
    unfolding r unfolding assms(2) Cons by (simp add: memcpy_def)
  have l: "length url - length tail + 1 = length ?p" unfolding assms(2) by simp
  have m2: "memcpy (?p @ [NUL, NUL] @ replicate (Suc (length t)) NUL) (length ?p) ''#!'' = Some (?p @ ''#!'' @ replicate (Suc (length t)) NUL)"
    by (simp add: memcpy_def)
  have m3: "memcpy (?p @ ''#!'' @ replicate (Suc (length t)) NUL) (length ?p + 2) (take (length tail) (drop 1 (tail @ [NUL]))) = Some (?p @ ''#!'' @ t @ [NUL])"
    unfolding Cons by (simp add: memcpy_def)
  have "takeWhile (\<lambda>c. c \<noteq> NUL) (?u @ [NUL]) = ?u" using assms by (subst takeWhile_append2) (auto simp: is_cstring_def Cons NUL_def)
  with m1 m2 m3 show ?thesis unfolding one_page_url_def Let_def l by (simp add: Cons)
qed

text \<open>The redirection of a one page application stays inside of its buffer, and moves what follows the prefix of the handler behind
  \<open>#!\<close>: \<open>/pre/dir/page\<close> becomes \<open>/pre/#!dir/page\<close>, with the arguments of the request; but a request for the bare prefix, with
  nothing behind it, is redirected to the very location that it asked for.\<close>

lemma one_page_redirect:
  assumes "reply_ready g s h" "\<not> hq_replied h" "is_cstring (hq_url h)" "hq_url h = pre @ hq_tail h" "cn_args (hq_conn h) = []"
    and "\<not> (length (hq_tail h) \<ge> 2 \<and> hq_tail h ! 1 = CHR ''#'')"
  shows "\<exists>h'. afb_hswitch_one_page_api_redirect ok g s h = Some (h', True)
    \<and> answers MHD_HTTP_MOVED_PERMANENTLY (Body_buffer [])
        [(''Location'', case hq_tail h of [] \<Rightarrow> hq_url h | c # t \<Rightarrow> pre @ c # ''#!'' @ t)] h h'"
proof -
  let ?u = "case hq_tail h of [] \<Rightarrow> hq_url h | c # t \<Rightarrow> pre @ c # ''#!'' @ t"
  obtain w where w: "url_with_query ok [] ?u = Some w" "\<forall>t. w = Some t \<longrightarrow> t = ?u @ pairs_text False []"
    using url_with_query_text [of ok "[]" ?u] by blast
  then have "(case w of None \<Rightarrow> ?u | Some t \<Rightarrow> t) = ?u" by (cases w) simp_all
  with w(1) have "afb_hreq_redirect_to ok g s ?u True h =
      afb_hreq_reply_v g s MHD_HTTP_MOVED_PERMANENTLY (Body_buffer []) [(''Location'', ?u)] h"
    using assms(5) by (simp add: afb_hreq_redirect_to_def reply_defs)
  with reply_v_answers [OF assms(1,2), of MHD_HTTP_MOVED_PERMANENTLY "Body_buffer []" "[(''Location'', ?u)]"] obtain h' where
    h': "afb_hreq_redirect_to ok g s ?u True h = Some h'"
      "answers MHD_HTTP_MOVED_PERMANENTLY (Body_buffer []) [(''Location'', ?u)] h h'" by (elim exE conjE) simp
  have "afb_hswitch_one_page_api_redirect ok g s h = Some (h', True)"
    unfolding afb_hswitch_one_page_api_redirect_def if_not_P [OF assms(6)] one_page_url_text [OF assms(3,4)] by (simp add: h'(1))
  with h'(2) show ?thesis by blast
qed

section \<open>The switch to a websocket\<close>

lemma connect_validated:
  assumes "afb_context_connect s uuid token now calloc newuuid = Some (s1, Inr x)" "ac_validated x"
  shows "\<exists>a t. ac_session x = Some a \<and> token = Some t \<and> ctxTokenCheck s1 a t now = Some True"
proof -
  obtain t r created where g: "ctxClientGetSession s uuid now calloc newuuid = Some (t, r, created)"
    using assms(1) by (auto simp: afb_context_connect_def bind_eq_Some_conv)
  obtain a where r: "r = Inr a" using g assms(1) by (cases r) (auto simp: afb_context_connect_def)
  obtain y where "init_context s1 (Some a) token now = Some y" "ac_validated y" "ac_session x = ac_session y"
    using assms g r by (auto simp: afb_context_connect_def bind_eq_Some_conv split: if_splits)
  then show ?thesis by (auto simp: init_context_def bind_eq_Some_conv Let_def split: option.splits if_splits)
qed

text \<open>The token that a request carries.\<close>

definition request_token :: "'j afb_hreq \<Rightarrow> string option" where
  "request_token h = first_of [afb_hreq_get_header h long_key_for_token, afb_hreq_get_argument h long_key_for_token, afb_hreq_get_argument h short_key_for_token]"

lemma init_context_connects:
  assumes "afb_hreq_init_context g s now calloc newuuid h = Some (s1, h1, rc)" "ac_session (hq_context h) = None"
  shows "\<exists>uuid r. afb_context_connect s uuid (request_token h) now calloc newuuid = Some (s1, r)
    \<and> (case r of Inl _ \<Rightarrow> h1 = h \<and> rc = -1 | Inr x \<Rightarrow> h1 = h\<lparr>hq_context := x\<rparr> \<and> rc = 0)"
proof -
  from assms obtain cookie where c: "g_cookie_name g = Some cookie" by (auto simp: afb_hreq_init_context_def bind_eq_Some_conv)
  let ?u = "first_of [afb_hreq_get_header h long_key_for_uuid, afb_hreq_get_argument h long_key_for_uuid,
                      afb_hreq_get_cookie h cookie, afb_hreq_get_argument h short_key_for_uuid]"
  obtain t r where r: "afb_context_connect s ?u (request_token h) now calloc newuuid = Some (t, r)"
    using assms c by (cases "afb_context_connect s ?u (request_token h) now calloc newuuid") (auto simp: afb_hreq_init_context_def request_token_def Let_def)
  with assms c show ?thesis
    by (intro exI [of _ ?u] exI [of _ r]) (cases r, auto simp: afb_hreq_init_context_def request_token_def Let_def)
qed

lemma check_upgrade_context: "afb_websock_check_upgrade SHA1 create info s h = (s', h', rc, ws) \<Longrightarrow> hq_context h' = hq_context h"
  by (auto simp: afb_websock_check_upgrade_def split: if_splits prod.splits)

text \<open>C5. A websocket is only given to a client that proved its token: when the switch of a request with no session yet creates one, then the
  request carries a token, in its headers or arguments, that the store accepts for the session that it is connected to: the session has not
  expired, is not closed, and the token is the current one, or none was given out yet.\<close>

theorem websocket_needs_token:
  assumes "afb_hswitch_websocket_switch SHA1 create info g now calloc newuuid s h = Some (s', h', rc, Some w)" "ac_session (hq_context h) = None"
  shows "\<exists>t a c s1. request_token h = Some t \<and> ac_session (hq_context h') = Some a \<and> ss_heap s1 a = Some c
    \<and> cx_uuid c \<noteq> [] \<and> now \<le> cx_expiration c \<and> (cx_token c = [] \<or> cx_token c = t)
    \<and> (\<exists>fd. info = Some fd \<and> create s1 (hq_context h') fd = (s', Some w))"
proof -
  from assms(1) obtain s1 h1 n where i: "afb_hreq_init_context g s now calloc newuuid h = Some (s1, h1, n)" "\<not> n < 0"
    and v: "ac_validated (hq_context h1)" and u: "afb_websock_check_upgrade SHA1 create info s1 h1 = (s', h', rc, Some w)"
    by (auto simp: afb_hswitch_websocket_switch_def bind_eq_Some_conv split: if_splits)
  from init_context_connects [OF i(1) assms(2)] obtain r uuid where
    r: "afb_context_connect s uuid (request_token h) now calloc newuuid = Some (s1, r)"
      "case r of Inl _ \<Rightarrow> h1 = h \<and> n = -1 | Inr x \<Rightarrow> h1 = h\<lparr>hq_context := x\<rparr> \<and> n = 0" by blast
  then obtain x where x: "afb_context_connect s uuid (request_token h) now calloc newuuid = Some (s1, Inr x)" "h1 = h\<lparr>hq_context := x\<rparr>"
    using i(2) by (cases r) simp_all
  from connect_validated [OF x(1)] v x(2) obtain a t where a: "ac_session x = Some a" "request_token h = Some t" "ctxTokenCheck s1 a t now = Some True" by auto
  from a(3) obtain c where c: "ss_heap s1 a = Some c" "cx_uuid c \<noteq> []" "now \<le> cx_expiration c" "cx_token c = [] \<or> cx_token c = t"
    by (auto simp: ctxTokenCheck_def ctxIsActive_def bind_eq_Some_conv split: if_splits)
  have hx: "hq_context h' = x" using check_upgrade_context [OF u] x(2) by simp
  from upgrade_creates [OF u] x(2) have "\<exists>fd. info = Some fd \<and> create s1 x fd = (s', Some w)" by simp
  with a c hx show ?thesis by blast
qed

definition demo_ws_request :: "string \<Rightarrow> unit afb_hreq" where
  "demo_ws_request tail = demo_upgrade\<lparr>hq_tail := tail, hq_conn := (hq_conn demo_upgrade)\<lparr>cn_arg := [''token'' \<mapsto> ''tok'', ''uuid'' \<mapsto> demo_uuid]\<rparr>\<rparr>"

lemma demo_ws_request_facts:
  "clean_headers (demo_ws_request tail)" "handshake (demo_ws_request tail)" "request_token (demo_ws_request tail) = Some ''tok''"
  "\<exists>s1 x. afb_hreq_init_context demo_globals demo_session 10 (Some 8) (replicate 36 CHR ''c'') (demo_ws_request tail)
     = Some (s1, (demo_ws_request tail)\<lparr>hq_context := x\<rparr>, 0) \<and> ac_validated x"
proof -
  have same: "cn_header (hq_conn (demo_ws_request tail)) = cn_header (hq_conn demo_upgrade)" "hq_version (demo_ws_request tail) = hq_version demo_upgrade"
    "hq_method (demo_ws_request tail) = hq_method demo_upgrade" by (simp_all add: demo_ws_request_def)
  show "clean_headers (demo_ws_request tail)" "handshake (demo_ws_request tail)"
    using demo_upgrade_facts unfolding clean_headers_def handshake_def same .
  have keys: "afb_hreq_get_header (demo_ws_request tail) long_key_for_token = None" "afb_hreq_get_argument (demo_ws_request tail) long_key_for_token = None"
    "afb_hreq_get_argument (demo_ws_request tail) short_key_for_token = Some ''tok''" "afb_hreq_get_header (demo_ws_request tail) long_key_for_uuid = None"
    "afb_hreq_get_argument (demo_ws_request tail) long_key_for_uuid = None" "afb_hreq_get_argument (demo_ws_request tail) short_key_for_uuid = Some demo_uuid"
    "afb_hreq_get_cookie (demo_ws_request tail) c = None" for c
    by (simp_all add: afb_hreq_get_header_def afb_hreq_get_argument_def afb_hreq_get_cookie_def get_data_def demo_ws_request_def demo_upgrade_def demo_hreq_def demo_conn_def
        long_key_for_token_def short_key_for_token_def long_key_for_uuid_def short_key_for_uuid_def sec_websocket_key_s_def sec_websocket_version_s_def)
  show "request_token (demo_ws_request tail) = Some ''tok''" by (simp add: request_token_def keys)
  obtain cookie where g: "g_cookie_name demo_globals = Some cookie" by (simp add: demo_globals_def afb_hreq_init_cookie_def Let_def)
  have n: "ac_session (hq_context (demo_ws_request tail)) = None" by (simp add: demo_ws_request_def demo_upgrade_def demo_hreq_def zero_context_def)
  from demo_connect show "\<exists>s1 x. afb_hreq_init_context demo_globals demo_session 10 (Some 8) (replicate 36 CHR ''c'') (demo_ws_request tail)
     = Some (s1, (demo_ws_request tail)\<lparr>hq_context := x\<rparr>, 0) \<and> ac_validated x"
    by (auto simp: afb_hreq_init_context_def n g keys Let_def)
qed

theorem websocket_needs_token_witness:
  "\<exists>t s' h'. afb_hswitch_websocket_switch demo_digest (\<lambda>s x fd. (s, Some fd)) (Some 5) demo_globals 10 (Some 8) (replicate 36 CHR ''c'') demo_session (demo_ws_request [])
       = Some (s', h', True, Some 5) \<and> request_token (demo_ws_request []) = Some t"
proof -
  from demo_ws_request_facts(4) obtain s1 x where
    i: "afb_hreq_init_context demo_globals demo_session 10 (Some 8) (replicate 36 CHR ''c'') (demo_ws_request []) = Some (s1, (demo_ws_request [])\<lparr>hq_context := x\<rparr>, 0)"
      "ac_validated x" by blast
  let ?h = "(demo_ws_request [])\<lparr>hq_context := x\<rparr>"
  have "clean_headers ?h" "handshake ?h" using demo_ws_request_facts(1,2) by (simp_all add: clean_headers_def handshake_def)
  from upgrade_granted [OF this, of "\<lambda>s x fd. (s, Some fd)" s1 5 s1 "Some 5" demo_digest] obtain h' where
    u: "afb_websock_check_upgrade demo_digest (\<lambda>s x fd. (s, Some fd)) (Some 5) s1 ?h = (s1, h', True, Some 5)" by auto
  have t: "length (hq_tail (demo_ws_request [])) = 0" "ac_session (hq_context (demo_ws_request [])) = None"
    by (simp_all add: demo_ws_request_def demo_upgrade_def demo_hreq_def zero_context_def)
  have r: "afb_hswitch_websocket_switch demo_digest (\<lambda>s x fd. (s, Some fd)) (Some 5) demo_globals 10 (Some 8) (replicate 36 CHR ''c'') demo_session (demo_ws_request [])
      = Some (s1, h', True, Some 5)"
    unfolding afb_hswitch_websocket_switch_def t(1) i(1) using i(2) u by simp
  from websocket_needs_token [OF r t(2)] r show ?thesis by blast
qed

end
