(* ===== verification/Hsrv.thy ===== *)
theory Hsrv
  imports Hswitch "HOL-Library.Multiset" "HOL-Library.Product_Lexorder"
begin

text \<open>
  The HTTP server, \<^verbatim>\<open>src/src/afb-hsrv.c\<close>: the ordered list of handlers, the life of a request from its first to its last callback,
  aliases of directories, the loop that runs the HTTP library.

  The library calls \<open>access_handler\<close> when the headers of a request are there, for each piece of its body and when it is complete, and
  \<open>end_handler\<close> when it is over. The record \<open>hsrv_env\<close> holds what handlers share: the sessions and the roots of the
  aliases. A handler with its data is a function on the environment and the request. The list of the server is the chain of the source.
\<close>

section \<open>State\<close>

record hsrv_env =
  he_sessions :: sessions
  he_roots :: "addr \<rightharpoonup> locale_root"

type_synonym 'j handler = "hsrv_env \<times> 'j afb_hreq \<Rightarrow> (hsrv_env \<times> 'j afb_hreq \<times> bool) option"

record 'j hsrv_handler =
  hh_prefix :: string
  hh_length :: nat
  hh_handler :: "'j handler"
  hh_priority :: int

text \<open>\<open>sv_events\<close>: the event source waits for input.\<close>

record 'j afb_hsrv =
  sv_refcount :: nat
  sv_handlers :: "'j hsrv_handler list"
  sv_httpd :: bool
  sv_evsrc :: bool
  sv_events :: bool
  sv_in_run :: nat
  sv_cache_to :: "string option"
  sv_freed :: bool

definition MHD_HTTP_BAD_REQUEST :: nat where "MHD_HTTP_BAD_REQUEST = 400"
definition MHD_HTTP_UNSUPPORTED_MEDIA_TYPE :: nat where "MHD_HTTP_UNSUPPORTED_MEDIA_TYPE = 415"
definition JSON_CONTENT :: string where "JSON_CONTENT = ''application/json''"
definition FORM_CONTENT :: string where "FORM_CONTENT = ''multipart/form-data''"

section \<open>Posted forms\<close>

text \<open>What the system answers while a piece is stored.\<close>

record post_io =
  po_temp :: "string \<Rightarrow> string option"
  po_alloc :: bool
  po_realloc :: bool
  po_strdup :: bool
  po_strdup_path :: bool
  po_open :: bool
  po_writes :: "(errno + nat) list"

type_synonym piece = "post_io \<times> string \<times> string option \<times> string"

definition postproc :: "hreq_globals \<Rightarrow> piece \<Rightarrow> 'j afb_hreq \<Rightarrow> ('j afb_hreq \<times> bool) option" where
  "postproc g p h =
     (case p of (io, key, filename, data) \<Rightarrow>
        (case filename of
           Some f \<Rightarrow> afb_hreq_post_add_file (po_temp io) (po_alloc io) (po_strdup io) (po_strdup_path io) (po_open io) (po_writes io) g key f data h
         | None \<Rightarrow> afb_hreq_post_add (po_alloc io) (po_realloc io) key data h))"

text \<open>The library hands the pieces of a part of the body over until one is refused; \<open>wellformed\<close> is its own judgement.\<close>

fun post_process :: "hreq_globals \<Rightarrow> piece list \<Rightarrow> bool \<Rightarrow> 'j afb_hreq \<Rightarrow> ('j afb_hreq \<times> bool) option" where
  "post_process g [] wellformed h = Some (h, wellformed)"
| "post_process g (p # ps) wellformed h =
     (case postproc g p h of
        None \<Rightarrow> None
      | Some (h', True) \<Rightarrow> post_process g ps wellformed h'
      | Some (h', False) \<Rightarrow> Some (h', False))"

section \<open>Requests\<close>

text \<open>\<open>strcasestr(s, t) != NULL\<close>.\<close>

definition strcasestr :: "string \<Rightarrow> string \<Rightarrow> bool" where
  "strcasestr s t \<longleftrightarrow> list_ex (\<lambda>n. length t \<le> length (drop n s) \<and> strncasecmp (drop n s) t (length t) = 0) [0..<Suc (length s)]"

text \<open>A call of \<open>access_handler\<close>: the connection, the strings of the request, the part of the body, what the library makes of that part,
  and what allocations give.\<close>

record access_call =
  al_conn :: conn
  al_url :: string
  al_method :: string
  al_version :: string
  al_upload :: string
  al_pieces :: "piece list"
  al_wellformed :: bool
  al_calloc :: bool
  al_postform :: bool
  al_end_ok :: bool
  al_add_alloc :: bool
  al_add_realloc :: bool

definition new_request :: "'j afb_hsrv \<Rightarrow> access_call \<Rightarrow> nat \<Rightarrow> int \<Rightarrow> 'j afb_hreq" where
  "new_request sv al mth reqid =
     \<lparr>hq_context = zero_context, hq_refcount = 1, hq_cacheTimeout = sv_cache_to sv, hq_conn = al_conn al, hq_method = mth, hq_reqid = reqid,
      hq_scanned = False, hq_suspended = False, hq_replied = False, hq_version = al_version al, hq_lang = cn_header (al_conn al) ''Accept-Language'',
      hq_url = al_url al, hq_tail = al_url al, hq_postform = False, hq_data = [], hq_files = Map.empty, hq_json = None, hq_upgrade = False,
      hq_sent = [], hq_resumed = 0, hq_open = 0, hq_freed = False\<rparr>"

definition suspend_if_needed :: "'j afb_hreq \<Rightarrow> 'j afb_hreq" where
  "suspend_if_needed h = (if \<not> hq_replied h \<and> \<not> hq_suspended h then h\<lparr>hq_suspended := True\<rparr> else h)"

fun scan_handlers :: "'j hsrv_handler list \<Rightarrow> hsrv_env \<Rightarrow> 'j afb_hreq \<Rightarrow> (hsrv_env \<times> 'j afb_hreq \<times> bool) option" where
  "scan_handlers [] e h = Some (e, h, False)"
| "scan_handlers (x # xs) e h =
     (case afb_hreq_unprefix (hh_prefix x) (hh_length x) h of
        (h1, False) \<Rightarrow> scan_handlers xs e h1
      | (h1, True) \<Rightarrow>
          (case hh_handler x (e, h1) of
             None \<Rightarrow> None
           | Some (e2, h2, rc) \<Rightarrow>
               if rc then Some (e2, suspend_if_needed h2, True)
               else scan_handlers xs e2 (h2\<lparr>hq_tail := hq_url h2\<rparr>)))"

text \<open>The request after the headers: the boolean tells that the callback returns at once.\<close>

definition start_request :: "hreq_globals \<Rightarrow> 'j afb_hsrv \<Rightarrow> access_call \<Rightarrow> hsrv_env \<Rightarrow> nat \<Rightarrow> int \<Rightarrow> ('j afb_hreq \<times> bool) option" where
  "start_request g sv al e mth reqid =
     (let h = new_request sv al mth reqid; err = (\<lambda>st. map_option (\<lambda>h. (h, True)) (afb_hreq_reply_error g (he_sessions e) st h)) in
      if mth = afb_method_post then
        (case afb_hreq_get_header h ''Content-Type'' of
           None \<Rightarrow> Some (h\<lparr>hq_method := afb_method_get\<rparr>, False)
         | Some type \<Rightarrow>
             if strcasestr type FORM_CONTENT then
               (if al_postform al then Some (h\<lparr>hq_postform := True\<rparr>, True) else err MHD_HTTP_INTERNAL_SERVER_ERROR)
             else if strcasestr type JSON_CONTENT then Some (h, True)
             else err MHD_HTTP_UNSUPPORTED_MEDIA_TYPE)
      else Some (h, False))"

text \<open>A part of the body.\<close>

definition upload_request :: "hreq_globals \<Rightarrow> access_call \<Rightarrow> hsrv_env \<Rightarrow> 'j afb_hreq \<Rightarrow> 'j afb_hreq option" where
  "upload_request g al e h =
     (case (if hq_postform h then post_process g (al_pieces al) (al_wellformed al) h
            else afb_hreq_post_add (al_add_alloc al) (al_add_realloc al) '''' (al_upload al) h) of
        None \<Rightarrow> None
      | Some (h', rc) \<Rightarrow> if rc then Some h' else afb_hreq_reply_error g (he_sessions e) MHD_HTTP_INTERNAL_SERVER_ERROR h')"

text \<open>The end of the body: the form is flushed and the handlers are searched, once.\<close>

definition finish_request :: "hreq_globals \<Rightarrow> 'j afb_hsrv \<Rightarrow> access_call \<Rightarrow> hsrv_env \<Rightarrow> 'j afb_hreq \<Rightarrow> (hsrv_env \<times> 'j afb_hreq) option" where
  "finish_request g sv al e h =
     (let h1 = h\<lparr>hq_postform := False\<rparr> in
      if hq_postform h \<and> \<not> al_end_ok al then map_option (Pair e) (afb_hreq_reply_error g (he_sessions e) MHD_HTTP_BAD_REQUEST h1)
      else if hq_scanned h1 then Some (e, suspend_if_needed h1)
      else (case scan_handlers (sv_handlers sv) e (h1\<lparr>hq_scanned := True\<rparr>) of
              None \<Rightarrow> None
            | Some (e2, h2, True) \<Rightarrow> Some (e2, h2)
            | Some (e2, h2, False) \<Rightarrow> map_option (Pair e2) (afb_hreq_reply_error g (he_sessions e2) MHD_HTTP_NOT_FOUND h2)))"

text \<open>The results: the environment, the counter of requests, the request recorded for the connection, and the status of an answer given without
  a request.\<close>

definition access_handler ::
  "hreq_globals \<Rightarrow> 'j afb_hsrv \<Rightarrow> access_call \<Rightarrow> hsrv_env \<Rightarrow> int \<Rightarrow> 'j afb_hreq option
     \<Rightarrow> (hsrv_env \<times> int \<times> 'j afb_hreq option \<times> nat option) option" where
  "access_handler g sv al e reqids record =
     (let continue = (\<lambda>n h. if al_upload al \<noteq> [] then map_option (\<lambda>h'. (e, n, Some h', None)) (upload_request g al e h)
                           else map_option (\<lambda>(e', h'). (e', n, Some h', None)) (finish_request g sv al e h)) in
      case record of
        Some h \<Rightarrow> continue reqids h
      | None \<Rightarrow>
          let mth = get_method (al_method al) AND (afb_method_get OR afb_method_post) in
          if mth = afb_method_none then Some (e, reqids, None, Some MHD_HTTP_BAD_REQUEST)
          else if \<not> al_calloc al then Some (e, reqids, None, Some MHD_HTTP_INTERNAL_SERVER_ERROR)
          else (case start_request g sv al e mth (reqids + 1) of
                  None \<Rightarrow> None
                | Some (h, True) \<Rightarrow> Some (e, reqids + 1, Some h, None)
                | Some (h, False) \<Rightarrow> continue (reqids + 1) h))"

text \<open>\<open>None\<close> when no request was recorded: the null pointer is read.\<close>

definition end_handler :: "hsrv_env \<Rightarrow> int \<Rightarrow> string \<Rightarrow> 'j afb_hreq option \<Rightarrow> (hsrv_env \<times> 'j afb_hreq) option" where
  "end_handler e now newuuid record =
     do { h \<leftarrow> record;
          let h1 = (if hq_upgrade h then h\<lparr>hq_suspended := True\<rparr> else h);
          (s', h2) \<leftarrow> afb_hreq_unref (he_sessions e) now newuuid h1;
          Some (e\<lparr>he_sessions := s'\<rparr>, h2) }"

section \<open>Running the library\<close>

text \<open>\<open>nested\<close> tells for each run of the library whether a reply made in it asks for a run again; the fuel bounds the runs. The
  number of runs is counted.\<close>

fun run_loop :: "nat \<Rightarrow> (nat \<Rightarrow> bool) \<Rightarrow> nat \<Rightarrow> 'j afb_hsrv \<Rightarrow> ('j afb_hsrv \<times> nat) option" where
  "run_loop 0 nested k sv = None"
| "run_loop (Suc fuel) nested k sv =
     (let sv1 = sv\<lparr>sv_in_run := 1\<rparr>; sv2 = (if nested k then sv1\<lparr>sv_in_run := 2\<rparr> else sv1)
      in if sv_in_run sv2 = 2 then run_loop fuel nested (Suc k) sv2 else Some (sv2, Suc k))"

definition run_micro_httpd :: "nat \<Rightarrow> (nat \<Rightarrow> bool) \<Rightarrow> 'j afb_hsrv \<Rightarrow> ('j afb_hsrv \<times> nat) option" where
  "run_micro_httpd fuel nested sv =
     (if sv_in_run sv \<noteq> 0 then Some (sv\<lparr>sv_in_run := 2\<rparr>, 0)
      else map_option (\<lambda>(sv', n). (sv'\<lparr>sv_in_run := 0, sv_events := True\<rparr>, n)) (run_loop fuel nested 0 (sv\<lparr>sv_events := False\<rparr>)))"

definition io_event_callback_http :: "nat \<Rightarrow> (nat \<Rightarrow> bool) \<Rightarrow> 'j afb_hsrv \<Rightarrow> ('j afb_hsrv \<times> int) option" where
  "io_event_callback_http fuel nested sv = map_option (\<lambda>(sv', _). (sv', 0)) (run_micro_httpd fuel nested sv)"

section \<open>Handlers\<close>

definition trimmed_length :: "string \<Rightarrow> nat" where
  "trimmed_length prefix = length (dropWhile (\<lambda>c. c = slash) (rev prefix))"

text \<open>The loop that finds the place of a new link.\<close>

fun insert_handler :: "'j hsrv_handler \<Rightarrow> 'j hsrv_handler list \<Rightarrow> 'j hsrv_handler list" where
  "insert_handler l [] = [l]"
| "insert_handler l (x # xs) =
     (if hh_priority l < hh_priority x \<or> (hh_priority l = hh_priority x \<and> hh_length l \<le> hh_length x) then x # insert_handler l xs
      else l # x # xs)"

definition new_handler :: "bool \<Rightarrow> 'j hsrv_handler list \<Rightarrow> string \<Rightarrow> 'j handler \<Rightarrow> int \<Rightarrow> 'j hsrv_handler list option" where
  "new_handler malloc_ok head prefix handler priority =
     (if \<not> malloc_ok then None
      else Some (insert_handler \<lparr>hh_prefix = prefix, hh_length = trimmed_length prefix, hh_handler = handler, hh_priority = priority\<rparr> head))"

definition afb_hsrv_add_handler :: "bool \<Rightarrow> string \<Rightarrow> 'j handler \<Rightarrow> int \<Rightarrow> 'j afb_hsrv \<Rightarrow> 'j afb_hsrv \<times> bool" where
  "afb_hsrv_add_handler malloc_ok prefix handler priority sv =
     (case new_handler malloc_ok (sv_handlers sv) prefix handler priority of
        None \<Rightarrow> (sv, False)
      | Some head \<Rightarrow> (sv\<lparr>sv_handlers := head\<rparr>, True))"

section \<open>Aliases\<close>

text \<open>What the system and the allocator do for a file request: the fuel of nested indexes, \<open>openat\<close> in the root of the alias with the error of a failure, the
  memory for the search.\<close>

record alias_io =
  ai_fuel :: nat
  ai_ok :: "nat \<Rightarrow> bool"
  ai_fs :: fsys
  ai_openat :: "string \<Rightarrow> int"
  ai_errno :: "string \<Rightarrow> errno"
  ai_junk :: "nat \<Rightarrow> char"
  ai_alloc :: "addr option"
  ai_mem :: nat

definition alias_open :: "alias_io \<Rightarrow> locale_root \<Rightarrow> addr \<Rightarrow> string \<Rightarrow> (errno + int) option" where
  "alias_open io r a filename =
     map_option (\<lambda>(_, x). case x of Inl e \<Rightarrow> Inl e | Inr fd \<Rightarrow> if fd < 0 then Inl (ai_errno io filename) else Inr fd)
       (locale_search_open (ai_openat io) (ai_junk io) r a filename False)"

text \<open>\<open>None\<close> also for an empty tail, where the name is read behind the end of the string, and for a lacking search.\<close>

definition handle_alias :: "hreq_globals \<Rightarrow> alias_io \<Rightarrow> addr \<Rightarrow> bool \<Rightarrow> 'j handler" where
  "handle_alias g io root relax eh =
     (case eh of (e, h) \<Rightarrow>
        if hq_method h \<noteq> afb_method_get then
          (if relax then Some (e, h, False)
           else map_option (\<lambda>h'. (e, h', True)) (afb_hreq_reply_error g (he_sessions e) MHD_HTTP_METHOD_NOT_ALLOWED h))
        else do {
          r \<leftarrow> he_roots e root;
          (r1, search) \<leftarrow> locale_root_search r (hq_lang h) False (ai_alloc io) (ai_mem io);
          a \<leftarrow> search;
          name \<leftarrow> (if hq_tail h = [] then None else Some (tl (hq_tail h)));
          (h1, rc) \<leftarrow> afb_hreq_reply_locale_file_if_exist (ai_fuel io) (ai_ok io) (ai_fs io) g (he_sessions e) (alias_open io r1 a) name h;
          r2 \<leftarrow> locale_search_unref (Some a) r1;
          let e1 = e\<lparr>he_roots := (he_roots e)(root \<mapsto> r2)\<rparr>;
          if rc then Some (e1, h1, True)
          else if relax then Some (e1, h1, False)
          else map_option (\<lambda>h'. (e1, h', True)) (afb_hreq_reply_error g (he_sessions e1) MHD_HTTP_NOT_FOUND h1) })"

definition afb_hsrv_add_alias_root ::
  "hreq_globals \<Rightarrow> alias_io \<Rightarrow> bool \<Rightarrow> bool \<Rightarrow> string \<Rightarrow> addr \<Rightarrow> int \<Rightarrow> bool \<Rightarrow> 'j afb_hsrv \<Rightarrow> hsrv_env \<Rightarrow> ('j afb_hsrv \<times> hsrv_env \<times> bool) option" where
  "afb_hsrv_add_alias_root g io malloc_ok link_ok prefix root priority relax sv e =
     (if \<not> malloc_ok then Some (sv, e, False)
      else case afb_hsrv_add_handler link_ok prefix (handle_alias g io root relax) priority sv of
        (sv', False) \<Rightarrow> Some (sv', e, False)
      | (sv', True) \<Rightarrow>
          do { r \<leftarrow> he_roots e root; r' \<leftarrow> locale_root_addref r; Some (sv', e\<lparr>he_roots := (he_roots e)(root \<mapsto> r')\<rparr>, True) })"

text \<open>\<open>created\<close> is what \<open>locale_root_create_at\<close> gives, to be stored at the address \<open>root\<close>.\<close>

definition afb_hsrv_add_alias ::
  "hreq_globals \<Rightarrow> alias_io \<Rightarrow> bool \<Rightarrow> bool \<Rightarrow> string \<Rightarrow> addr \<Rightarrow> locale_root option \<Rightarrow> int \<Rightarrow> bool \<Rightarrow> 'j afb_hsrv \<Rightarrow> hsrv_env \<Rightarrow> ('j afb_hsrv \<times> hsrv_env \<times> bool) option" where
  "afb_hsrv_add_alias g io malloc_ok link_ok prefix root created priority relax sv e =
     (case created of
        None \<Rightarrow> Some (sv, e, False)
      | Some r \<Rightarrow>
          do { (sv1, e1, rc) \<leftarrow> afb_hsrv_add_alias_root g io malloc_ok link_ok prefix root priority relax sv (e\<lparr>he_roots := (he_roots e)(root \<mapsto> r)\<rparr>);
               r1 \<leftarrow> he_roots e1 root;
               r2 \<leftarrow> locale_root_unref r1;
               Some (sv1, e1\<lparr>he_roots := (he_roots e1)(root := if lr_live r2 then Some r2 else None)\<rparr>, rc) })"

section \<open>Servers\<close>

definition afb_hsrv_set_cache_timeout :: "bool \<Rightarrow> int \<Rightarrow> 'j afb_hsrv \<Rightarrow> 'j afb_hsrv \<times> bool" where
  "afb_hsrv_set_cache_timeout asprintf_ok duration sv =
     (if \<not> asprintf_ok then (sv, False) else (sv\<lparr>sv_cache_to := Some (dec_int duration)\<rparr>, True))"

text \<open>The daemon starts, its descriptor is told, the event source is added.\<close>

definition afb_hsrv_start :: "bool \<Rightarrow> bool \<Rightarrow> bool \<Rightarrow> 'j afb_hsrv \<Rightarrow> 'j afb_hsrv \<times> bool" where
  "afb_hsrv_start daemon_ok info_ok io_ok sv =
     (if \<not> daemon_ok then (sv, False)
      else if \<not> info_ok then (sv, False)
      else if \<not> io_ok then (sv, False)
      else (sv\<lparr>sv_httpd := True, sv_evsrc := True, sv_events := True\<rparr>, True))"

definition afb_hsrv_stop :: "'j afb_hsrv \<Rightarrow> 'j afb_hsrv" where
  "afb_hsrv_stop sv = (if sv_evsrc sv then sv\<lparr>sv_evsrc := False, sv_events := False\<rparr> else sv)\<lparr>sv_httpd := False\<rparr>"

definition afb_hsrv_create :: "bool \<Rightarrow> 'j afb_hsrv option" where
  "afb_hsrv_create calloc_ok =
     (if calloc_ok then Some \<lparr>sv_refcount = 1, sv_handlers = [], sv_httpd = False, sv_evsrc = False, sv_events = False, sv_in_run = 0, sv_cache_to = None, sv_freed = False\<rparr>
      else None)"

text \<open>\<open>None\<close>: the assertion fails.\<close>

definition afb_hsrv_put :: "'j afb_hsrv \<Rightarrow> 'j afb_hsrv option" where
  "afb_hsrv_put sv =
     (if sv_refcount sv = 0 then None
      else let sv1 = sv\<lparr>sv_refcount := sv_refcount sv - 1\<rparr> in
        Some (if sv_refcount sv1 = 0 then (afb_hsrv_stop sv1)\<lparr>sv_freed := True\<rparr> else sv1))"

section \<open>The order of handlers\<close>

definition handler_key :: "'j hsrv_handler \<Rightarrow> int \<times> int" where
  "handler_key x = (- hh_priority x, - int (hh_length x))"

lemma handler_after: "(hh_priority l < hh_priority x \<or> (hh_priority l = hh_priority x \<and> hh_length l \<le> hh_length x)) \<longleftrightarrow> handler_key x \<le> handler_key l"
  by (auto simp: handler_key_def)

lemma mset_insert_handler: "mset (insert_handler l xs) = add_mset l (mset xs)"
  by (induction xs) auto

lemma set_insert_handler: "set (insert_handler l xs) = insert l (set xs)"
  by (induction xs) auto

lemma sorted_insert_handler: "sorted (map handler_key xs) \<Longrightarrow> sorted (map handler_key (insert_handler l xs))"
proof (induction xs)
  case (Cons x xs)
  then show ?case unfolding insert_handler.simps handler_after by (auto simp: set_insert_handler)
qed simp

text \<open>Among handlers of the same priority and length the newest is the last.\<close>

lemma filter_insert_handler:
  "sorted (map handler_key xs) \<Longrightarrow>
    filter (\<lambda>x. k = handler_key x) (insert_handler l xs) = filter (\<lambda>x. k = handler_key x) xs @ (if k = handler_key l then [l] else [])"
proof (induction xs)
  case (Cons x xs)
  show ?case
  proof (cases "handler_key x \<le> handler_key l")
    case True
    with Cons show ?thesis unfolding insert_handler.simps handler_after by auto
  next
    case False
    with Cons.prems have "filter (\<lambda>y. handler_key l = handler_key y) (x # xs) = []" by (auto simp: filter_empty_conv)
    with False show ?thesis unfolding insert_handler.simps handler_after by auto
  qed
qed simp

lemma insert_handler_sort: "insert_handler l (sort_key handler_key xs) = sort_key handler_key (xs @ [l])"
proof (rule properties_for_sort_key [symmetric])
  have s: "sorted (map handler_key (sort_key handler_key xs))" by simp
  show "mset (insert_handler l (sort_key handler_key xs)) = mset (xs @ [l])" by (simp add: mset_insert_handler)
  show "sorted (map handler_key (insert_handler l (sort_key handler_key xs)))" by (rule sorted_insert_handler [OF s])
  show "filter (\<lambda>x. handler_key k = handler_key x) (insert_handler l (sort_key handler_key xs)) = filter (\<lambda>x. handler_key k = handler_key x) (xs @ [l])" for k
  proof -
    have "filter (\<lambda>x. handler_key k = handler_key x) (sort_key handler_key xs) = filter (\<lambda>x. handler_key k = handler_key x) xs"
      using sort_key_stable [of handler_key "handler_key k" xs] by (simp add: eq_commute)
    then show ?thesis by (simp add: filter_insert_handler [OF s])
  qed
qed

definition handler_of :: "string \<times> 'j handler \<times> int \<Rightarrow> 'j hsrv_handler" where
  "handler_of r = (case r of (prefix, handler, priority) \<Rightarrow>
     \<lparr>hh_prefix = prefix, hh_length = trimmed_length prefix, hh_handler = handler, hh_priority = priority\<rparr>)"

definition add_all :: "(string \<times> 'j handler \<times> int) list \<Rightarrow> 'j afb_hsrv \<Rightarrow> 'j afb_hsrv" where
  "add_all rs sv = foldl (\<lambda>sv (prefix, handler, priority). fst (afb_hsrv_add_handler True prefix handler priority sv)) sv rs"

lemma add_all_sorts:
  "sv_handlers sv = sort_key handler_key xs \<Longrightarrow> sv_handlers (add_all rs sv) = sort_key handler_key (xs @ map handler_of rs)"
proof (induction rs arbitrary: sv xs)
  case (Cons r rs)
  obtain p f n where r: "r = (p, f, n)" by (rule prod_cases3)
  have "sv_handlers (fst (afb_hsrv_add_handler True p f n sv)) = sort_key handler_key (xs @ [handler_of r])"
    unfolding r by (simp add: afb_hsrv_add_handler_def new_handler_def handler_of_def Cons.prems insert_handler_sort)
  from Cons.IH [OF this] show ?case by (simp add: add_all_def r)
qed (simp add: add_all_def)

section \<open>Dispatching\<close>

text \<open>The prefix of a handler, up to case, is followed by the end of the url or by a slash.\<close>

definition handler_matches :: "string \<Rightarrow> 'j hsrv_handler \<Rightarrow> bool" where
  "handler_matches url x \<longleftrightarrow> hh_length x \<le> length url \<and> (drop (hh_length x) url = [] \<or> hd (drop (hh_length x) url) = slash)
     \<and> take (hh_length x) (casekey (hh_prefix x)) = take (hh_length x) (casekey url)"

definition tail_of :: "string \<Rightarrow> 'j hsrv_handler \<Rightarrow> string" where
  "tail_of url x = (let r = drop (hh_length x) url in if r = [] then [] else slash # dropWhile (\<lambda>c. c = slash) (tl r))"

text \<open>The matching handlers one after the other, each with the rest of the url.\<close>

fun try_handlers :: "'j hsrv_handler list \<Rightarrow> hsrv_env \<Rightarrow> 'j afb_hreq \<Rightarrow> (hsrv_env \<times> 'j afb_hreq \<times> bool) option" where
  "try_handlers [] e h = Some (e, h, False)"
| "try_handlers (x # xs) e h =
     (case hh_handler x (e, h\<lparr>hq_tail := tail_of (hq_url h) x\<rparr>) of
        None \<Rightarrow> None
      | Some (e2, h2, rc) \<Rightarrow> if rc then Some (e2, suspend_if_needed h2, True) else try_handlers xs e2 (h2\<lparr>hq_tail := hq_url h2\<rparr>))"

definition keeps_url :: "'j hsrv_handler \<Rightarrow> bool" where
  "keeps_url x \<longleftrightarrow> (\<forall>e h e2 h2. hh_handler x (e, h) = Some (e2, h2, False) \<longrightarrow> hq_url h2 = hq_url h)"

lemma scan_tries:
  assumes "is_cstring url"
  shows "hq_url h = url \<Longrightarrow> hq_tail h = url \<Longrightarrow> \<forall>x \<in> set hs. is_cstring (hh_prefix x) \<and> keeps_url x \<Longrightarrow>
    scan_handlers hs e h = try_handlers (filter (handler_matches url) hs) e h"
proof (induction hs arbitrary: e h)
  case (Cons x hs)
  note IH = Cons.IH [OF _ _ ballI]
  have u: "afb_hreq_unprefix (hh_prefix x) (hh_length x) h = (if handler_matches url x then (h\<lparr>hq_tail := tail_of url x\<rparr>, True) else (h, False))"
  proof -
    have "is_cstring (hq_tail h)" "is_cstring (hh_prefix x)" using assms Cons.prems by simp_all
    from unprefix_outcome [OF this, of "hh_length x"] show ?thesis unfolding Cons.prems(2) handler_matches_def tail_of_def Let_def .
  qed
  show ?case
  proof (cases "handler_matches url x")
    case True
    have "hq_url h2 = url" if "hh_handler x (e, h\<lparr>hq_tail := tail_of url x\<rparr>) = Some (e2, h2, False)" for e2 h2
    proof -
      have "keeps_url x" using Cons.prems by simp
      with that have "hq_url h2 = hq_url (h\<lparr>hq_tail := tail_of url x\<rparr>)" unfolding keeps_url_def by blast
      then show ?thesis using Cons.prems by simp
    qed
    then have "scan_handlers hs e2 (h2\<lparr>hq_tail := hq_url h2\<rparr>) = try_handlers (filter (handler_matches url) hs) e2 (h2\<lparr>hq_tail := hq_url h2\<rparr>)"
      if "hh_handler x (e, h\<lparr>hq_tail := tail_of url x\<rparr>) = Some (e2, h2, False)" for e2 h2
      using Cons.IH [of "h2\<lparr>hq_tail := hq_url h2\<rparr>" e2] that Cons.prems(3) by simp
    with True u Cons.prems(1) show ?thesis by (auto split: option.splits)
  next
    case False
    with u Cons show ?thesis by simp
  qed
qed simp

text \<open>Requests are dispatched by priority: whatever the order in which handlers are added, a GET request is given to the handlers
  whose prefix matches its url, in the order of the stable sort by decreasing priority and then decreasing length of the prefix, each
  with the rest of the url as tail, until one handles it; when none does, the answer is the status 404.\<close>

lemma requests_dispatched_by_priority:
  assumes "sv_handlers sv = []" "get_method (al_method al) = afb_method_get" "al_calloc al" "al_upload al = []" "is_cstring (al_url al)"
    and "\<forall>r \<in> set rs. is_cstring (fst r) \<and> keeps_url (handler_of r)"
  shows "access_handler g (add_all rs sv) al e n None =
    (case try_handlers (filter (handler_matches (al_url al)) (sort_key handler_key (map handler_of rs))) e
        ((new_request (add_all rs sv) al afb_method_get (n + 1))\<lparr>hq_scanned := True\<rparr>) of
       None \<Rightarrow> None
     | Some (e2, h2, rc) \<Rightarrow> map_option (\<lambda>h'. (e2, n + 1, Some h', None))
         (if rc then Some h2 else afb_hreq_reply_error g (he_sessions e2) MHD_HTTP_NOT_FOUND h2))"
proof -
  let ?sv = "add_all rs sv"
  let ?h = "(new_request ?sv al afb_method_get (n + 1))\<lparr>hq_scanned := True\<rparr>"
  have sv: "sv_handlers ?sv = sort_key handler_key (map handler_of rs)" using add_all_sorts [of sv "[]" rs] assms(1) by simp
  have "\<forall>x \<in> set (sv_handlers ?sv). is_cstring (hh_prefix x) \<and> keeps_url x"
    unfolding sv using assms(6) by (auto simp: handler_of_def)
  then have scan: "scan_handlers (sv_handlers ?sv) e ?h = try_handlers (filter (handler_matches (al_url al)) (sv_handlers ?sv)) e ?h"
    by (intro scan_tries [OF assms(5)]) (simp_all add: new_request_def)
  have m: "afb_method_get AND (afb_method_get OR afb_method_post) = afb_method_get" "afb_method_get \<noteq> afb_method_none" "afb_method_get \<noteq> afb_method_post"
    by (simp_all add: method_defs)
  have f: "(new_request ?sv al afb_method_get (n + 1))\<lparr>hq_postform := False\<rparr> = new_request ?sv al afb_method_get (n + 1)" by (simp add: new_request_def)
  have p: "\<not> hq_postform (new_request ?sv al afb_method_get (n + 1))" "\<not> hq_scanned (new_request ?sv al afb_method_get (n + 1))" by (simp_all add: new_request_def)
  have "access_handler g ?sv al e n None =
      map_option (\<lambda>(e', h'). (e', n + 1, Some h', None)) (finish_request g ?sv al e (new_request ?sv al afb_method_get (n + 1)))"
    using assms(3,4) m by (simp add: access_handler_def assms(2) start_request_def Let_def)
  also have "finish_request g ?sv al e (new_request ?sv al afb_method_get (n + 1)) =
      (case scan_handlers (sv_handlers ?sv) e ?h of
         None \<Rightarrow> None
       | Some (e2, h2, rc) \<Rightarrow> map_option (Pair e2) (if rc then Some h2 else afb_hreq_reply_error g (he_sessions e2) MHD_HTTP_NOT_FOUND h2))"
    using p by (simp add: finish_request_def f Let_def split: option.split bool.split)
  finally show ?thesis
    unfolding scan unfolding sv by (auto simp: option.map_comp comp_def split: option.splits)
qed

section \<open>No request is left alone\<close>

definition handler_total :: "hreq_globals \<Rightarrow> 'j hsrv_handler \<Rightarrow> bool" where
  "handler_total g x \<longleftrightarrow> (\<forall>e h. reply_ready g (he_sessions e) h \<longrightarrow>
     (\<exists>e2 h2 rc. hh_handler x (e, h) = Some (e2, h2, rc) \<and> reply_ready g (he_sessions e2) h2))"

definition taken_care :: "'j afb_hreq \<Rightarrow> bool" where
  "taken_care h \<longleftrightarrow> hq_replied h \<or> hq_suspended h"

lemma suspend_taken_care: "taken_care (suspend_if_needed h)"
  by (simp add: taken_care_def suspend_if_needed_def)

lemma error_taken_care:
  assumes "reply_ready g s h"
  shows "\<exists>h'. afb_hreq_reply_error g s status h = Some h' \<and> taken_care h'"
proof (cases "hq_replied h")
  case True
  then show ?thesis by (simp add: reply_defs replied_once taken_care_def)
next
  case False
  from error_answered [OF assms False] show ?thesis by (auto simp: answered_once_def taken_care_def)
qed

lemma scan_total:
  "\<forall>x \<in> set hs. handler_total g x \<Longrightarrow> reply_ready g (he_sessions e) h \<Longrightarrow>
    \<exists>e2 h2 rc. scan_handlers hs e h = Some (e2, h2, rc) \<and> (if rc then taken_care h2 else reply_ready g (he_sessions e2) h2)"
proof (induction hs arbitrary: e h)
  case (Cons x hs)
  obtain h1 b where u: "afb_hreq_unprefix (hh_prefix x) (hh_length x) h = (h1, b)" by (rule prod.exhaust)
  then have "hq_context h1 = hq_context h" by (auto simp: afb_hreq_unprefix_def Let_def split: if_splits)
  then have r1: "reply_ready g (he_sessions e) h1" using Cons.prems reply_ready_cong by blast
  show ?case
  proof (cases b)
    case True
    from Cons.prems r1 obtain e2 h2 rc where x: "hh_handler x (e, h1) = Some (e2, h2, rc)" "reply_ready g (he_sessions e2) h2"
      unfolding handler_total_def by (meson list.set_intros(1))
    have "reply_ready g (he_sessions e2) (h2\<lparr>hq_tail := hq_url h2\<rparr>)" using x(2) by (simp add: reply_ready_def)
    with Cons.IH [of e2 "h2\<lparr>hq_tail := hq_url h2\<rparr>"] Cons.prems(1) u True x(1) suspend_taken_care [of h2] show ?thesis by (cases rc) auto
  next
    case False
    with Cons.IH [of e h1] Cons.prems(1) r1 u show ?thesis by auto
  qed
qed auto


section \<open>The end of a request\<close>

text \<open>A method that is neither GET nor POST stops the server: the request is refused with the status 400 before it is recorded, and
  when the library then tells that it is over, \<open>end_handler\<close> reads the record that is not there.\<close>

lemma refused_method_faults:
  assumes "get_method (al_method al) \<notin> {afb_method_get, afb_method_post}"
  shows "access_handler g sv al e n None = Some (e, n, None, Some MHD_HTTP_BAD_REQUEST)
    \<and> end_handler e now newuuid (None :: 'j afb_hreq option) = None"
proof -
  have "get_method m \<in> {0, 1, 2, 4, 8, 16, 32, 64, 128, 256}" for m by (simp add: get_method_def method_defs Let_def)
  from this [of "al_method al"] assms have "get_method (al_method al) AND (afb_method_get OR afb_method_post) = afb_method_none"
    by (auto simp: method_defs)
  then show ?thesis by (simp add: access_handler_def end_handler_def Let_def)
qed

lemma run_loop_runs: "(\<And>j. k \<le> j \<Longrightarrow> j < k + d \<Longrightarrow> nested j) \<Longrightarrow> \<not> nested (k + d) \<Longrightarrow>
    run_loop (Suc d) nested k sv = Some (sv\<lparr>sv_in_run := 1\<rparr>, Suc (k + d))"
proof (induction d arbitrary: k sv)
  case (Suc d)
  have "nested k" using Suc.prems(1) by simp
  moreover have "run_loop (Suc d) nested (Suc k) (sv\<lparr>sv_in_run := 2\<rparr>) = Some (sv\<lparr>sv_in_run := 1\<rparr>, Suc (Suc k + d))"
    using Suc.IH [of "Suc k" "sv\<lparr>sv_in_run := 2\<rparr>"] Suc.prems by simp
  ultimately show ?case by (subst run_loop.simps) (simp add: Let_def del: run_loop.simps)
qed (simp add: Let_def)

text \<open>A run asked for while the library runs is never lost: the library runs once more after each run in which one was asked for, and the
  server then waits for input again.\<close>

lemma run_micro_httpd_runs:
  assumes "sv_in_run sv = 0" "\<And>j. j < d \<Longrightarrow> nested j" "\<not> nested d"
  shows "run_micro_httpd (Suc d) nested sv = Some (sv\<lparr>sv_events := True\<rparr>, Suc d)"
  using run_loop_runs [of 0 d nested "sv\<lparr>sv_events := False\<rparr>"] assms by (simp add: run_micro_httpd_def del: run_loop.simps)

section \<open>Aliases serve localized files\<close>

lemma alias_open_total:
  assumes "locale_reach (ai_openat io) (ai_junk io) (r, held)" "0 < held a" "is_cstring f"
  shows "alias_open io r a f \<noteq> None"
proof -
  have "root_inv r held" using locale_reach_inv [OF assms(1)] by simp
  from locale_exec_inv [OF this, of "L_search_open a f False" "ai_openat io" "ai_junk io"] assms(2,3)
  show ?thesis by (auto simp: alias_open_def)
qed


text \<open>The prefix of an alias asked for with nothing behind it.\<close>

lemma alias_bare_prefix_faults:
  "hq_tail h = [] \<Longrightarrow> hq_method h = afb_method_get \<Longrightarrow> handle_alias g io root relax (e, h) = None"
  by (simp add: handle_alias_def Option.bind_eq_None_conv split: prod.splits)

lemma bare_alias_request_faults:
  assumes "sv_handlers sv = insert_handler \<lparr>hh_prefix = ''/icons'', hh_length = 6, hh_handler = handle_alias g io root relax, hh_priority = 0\<rparr> []"
    and "hq_url h = ''/icons''" "hq_tail h = ''/icons''" "hq_method h = afb_method_get" "\<not> hq_scanned h" "\<not> hq_postform h" "al_upload al = []"
  shows "access_handler g sv al e n (Some h) = None"
proof -
  have "afb_hreq_unprefix ''/icons'' 6 (h\<lparr>hq_postform := False, hq_scanned := True\<rparr>) = (h\<lparr>hq_postform := False, hq_scanned := True, hq_tail := []\<rparr>, True)"
    using assms(3) by (subst unprefix_outcome) (simp_all add: NUL_def Let_def)
  then show ?thesis using assms alias_bare_prefix_faults [of "h\<lparr>hq_postform := False, hq_scanned := True, hq_tail := []\<rparr>" g io root relax e]
    by (simp add: access_handler_def finish_request_def Let_def)
qed

section \<open>Examples\<close>

definition demo_hsrv :: "unit afb_hsrv" where
  "demo_hsrv = the (afb_hsrv_create True)"

definition demo_call :: "string \<Rightarrow> string \<Rightarrow> access_call" where
  "demo_call mth url = \<lparr>al_conn = demo_conn, al_url = url, al_method = mth, al_version = ''HTTP/1.1'', al_upload = [], al_pieces = [], al_wellformed = True,
     al_calloc = True, al_postform = True, al_end_ok = True, al_add_alloc = True, al_add_realloc = True\<rparr>"

definition demo_env_http :: "locale_root \<Rightarrow> hsrv_env" where
  "demo_env_http r = \<lparr>he_sessions = demo_session, he_roots = [1 \<mapsto> r]\<rparr>"

lemma demo_hsrv_eq: "sv_handlers demo_hsrv = []"
  by (simp add: demo_hsrv_def afb_hsrv_create_def)


definition demo_alias_io :: alias_io where
  "demo_alias_io = \<lparr>ai_fuel = 1, ai_ok = (\<lambda>_. True), ai_fs = demo_fs, ai_openat = (\<lambda>_. -1), ai_errno = (\<lambda>_. ENOENT), ai_junk = (\<lambda>_. NUL), ai_alloc = Some 100, ai_mem = 5\<rparr>"


end
