(* ===== verification/Jobs.thy ===== *)
theory Jobs
  imports Afb_Prelude "HOL-Library.Multiset"
begin

text \<open>
  The threads that run the verbs of bindings, \<^verbatim>\<open>src/src/afb-thread.c\<close>.

  Each critical section of the code is one step on the shared state; a callback that runs is a worker that holds its job.
  A signal of the condition variable is sent outside of the critical section, so it is pending until it is delivered; it wakes any waiting
  worker, if there is one. Workers may also wake without a signal. A request is a number; \<open>'r\<close> is what a job calls.
\<close>

section \<open>State\<close>

record 'r job =
  j_req :: 'r
  j_timeout :: int
  j_blocked :: bool
  j_group :: "nat option"

datatype 'r worker = Ready | Waiting | Working "'r job" | Ended

record 'r threads =
  th_queue :: "'r job list"
  th_workers :: "'r worker list"
  th_allowed :: nat
  th_remains :: int
  th_stop :: bool
  th_signals :: nat
  th_done :: "'r list"
  th_failed :: "('r \<times> string) list"

definition th_started :: "'r threads \<Rightarrow> nat" where
  "th_started s = length (th_workers s)"

fun is_working :: "'r worker \<Rightarrow> bool" where
  "is_working (Working _) \<longleftrightarrow> True"
| "is_working _ \<longleftrightarrow> False"

definition th_running :: "'r threads \<Rightarrow> nat" where
  "th_running s = length (filter is_working (th_workers s))"

section \<open>Timers\<close>

text \<open>The timer of a thread: whether it is set. \<open>timer_create\<close> is ignored when it fails, and the result is always 0.\<close>

definition afb_thread_timer_create :: "bool \<Rightarrow> bool \<Rightarrow> bool \<times> int" where
  "afb_thread_timer_create create_ok isset = (if isset then (isset, 0) else (create_ok, 0))"

definition afb_thread_timer_arm :: "bool \<Rightarrow> int \<Rightarrow> bool \<Rightarrow> bool \<times> int" where
  "afb_thread_timer_arm create_ok settime_rc isset =
     (case afb_thread_timer_create create_ok isset of (isset1, rc) \<Rightarrow> (isset1, if rc = 0 then settime_rc else rc))"

definition afb_thread_timer_disarm :: "bool \<Rightarrow> int \<Rightarrow> bool \<Rightarrow> bool" where
  "afb_thread_timer_disarm create_ok settime_rc isset = (if isset then fst (afb_thread_timer_arm create_ok settime_rc isset) else isset)"

definition afb_thread_timer_delete :: "bool \<Rightarrow> bool" where
  "afb_thread_timer_delete isset = False"

section \<open>The queue\<close>

text \<open>A job without a group is in a group of its own.\<close>

definition same_group :: "'r job \<Rightarrow> 'r job \<Rightarrow> bool" where
  "same_group i j \<longleftrightarrow> j_group j \<noteq> None \<and> j_group i = j_group j"

definition job_add :: "'r job \<Rightarrow> 'r job list \<Rightarrow> 'r job list" where
  "job_add j q = q @ [if \<exists>i \<in> set q. same_group i j then j\<lparr>j_blocked := True\<rparr> else j]"

fun job_get :: "'r job list \<Rightarrow> ('r job \<times> 'r job list) option" where
  "job_get [] = None"
| "job_get (j # q) = (if j_blocked j then map_option (\<lambda>(i, q'). (i, j # q')) (job_get q) else Some (j, q))"

fun job_unblock :: "nat \<Rightarrow> 'r job list \<Rightarrow> 'r job list" where
  "job_unblock g [] = []"
| "job_unblock g (j # q) = (if j_group j = Some g then j\<lparr>j_blocked := False\<rparr> # q else j # job_unblock g q)"

section \<open>Operations\<close>

text \<open>One turn of the loop of a worker.\<close>

definition worker_turn :: "nat \<Rightarrow> 'r threads \<Rightarrow> 'r threads" where
  "worker_turn i s =
     (if th_stop s then s\<lparr>th_workers := (th_workers s)[i := Ended]\<rparr>
      else case job_get (th_queue s) of
        Some (j, q) \<Rightarrow> s\<lparr>th_queue := q, th_remains := th_remains s + 1, th_workers := (th_workers s)[i := Working j]\<rparr>
      | None \<Rightarrow>
          if th_queue s \<noteq> [] \<and> th_running s = 0
          then s\<lparr>th_queue := tl (th_queue s), th_workers := (th_workers s)[i := Working (hd (th_queue s))]\<rparr>
          else s\<lparr>th_workers := (th_workers s)[i := Waiting]\<rparr>)"

text \<open>The callback of the job has returned.\<close>

definition worker_finish :: "nat \<Rightarrow> 'r job \<Rightarrow> 'r threads \<Rightarrow> 'r threads" where
  "worker_finish i j s =
     s\<lparr>th_queue := (case j_group j of None \<Rightarrow> th_queue s | Some g \<Rightarrow> job_unblock g (th_queue s)),
       th_workers := (th_workers s)[i := Ready], th_done := th_done s @ [j_req j]\<rparr>"

text \<open>The boolean tells that the thread was started; \<open>None\<close> is the failed assertion.\<close>

definition start_one_thread :: "bool \<Rightarrow> 'r threads \<Rightarrow> ('r threads \<times> bool) option" where
  "start_one_thread create_ok s =
     (if \<not> th_started s < th_allowed s then None
      else if create_ok then Some (s\<lparr>th_workers := th_workers s @ [Ready]\<rparr>, True) else Some (s, False))"

definition thread_error :: "'r \<Rightarrow> string \<Rightarrow> 'r threads \<Rightarrow> 'r threads" where
  "thread_error r info s = s\<lparr>th_failed := th_failed s @ [(r, info)]\<rparr>"

definition afb_thread_call :: "bool \<Rightarrow> bool \<Rightarrow> 'r \<Rightarrow> int \<Rightarrow> nat option \<Rightarrow> 'r threads \<Rightarrow> 'r threads option" where
  "afb_thread_call malloc_ok create_ok req timeout grp s =
     (if \<not> malloc_ok then Some (thread_error req ''out of memory'' s)
      else if th_remains s = 0 then Some (thread_error req ''too many jobs'' s)
      else do {
        (s1, ok) \<leftarrow> (if th_started s = th_running s \<and> th_started s < th_allowed s then start_one_thread create_ok s else Some (s, True));
        if \<not> ok \<and> th_started s1 = 0 then Some (thread_error req ''can't start thread'' s1)
        else Some (s1\<lparr>th_queue := job_add \<lparr>j_req = req, j_timeout = timeout, j_blocked = False, j_group = grp\<rparr> (th_queue s1),
                      th_remains := th_remains s1 - 1, th_signals := th_signals s1 + 1\<rparr>) })"

text \<open>The threads that can be created among the first ones to start.\<close>

fun start_threads :: "bool list \<Rightarrow> 'r threads \<Rightarrow> 'r threads option" where
  "start_threads [] s = Some s"
| "start_threads (ok # oks) s =
     (case start_one_thread ok s of
        None \<Rightarrow> None
      | Some (s', True) \<Rightarrow> start_threads oks s'
      | Some (s', False) \<Rightarrow> Some s')"

definition afb_thread_init :: "bool \<Rightarrow> nat \<Rightarrow> bool list \<Rightarrow> nat \<Rightarrow> ('r threads \<times> int) option" where
  "afb_thread_init calloc_ok allowed_count create_oks waiter_count =
     (let s0 = \<lparr>th_queue = [], th_workers = [], th_allowed = allowed_count, th_remains = int waiter_count, th_stop = False, th_signals = 0,
                th_done = [], th_failed = []\<rparr> in
      if \<not> calloc_ok then Some (s0\<lparr>th_allowed := 0, th_remains := 0\<rparr>, -1)
      else map_option (\<lambda>s. (s, if th_started s = length create_oks then 0 else -1)) (start_threads create_oks s0))"

text \<open>The request to stop, and, once every worker has ended, the cancelling of the pending jobs; \<open>None\<close> is the loop that still waits for a worker.\<close>

definition terminate_begin :: "'r threads \<Rightarrow> 'r threads" where
  "terminate_begin s = s\<lparr>th_allowed := 0, th_stop := True, th_workers := map (\<lambda>w. case w of Waiting \<Rightarrow> Ready | _ \<Rightarrow> w) (th_workers s)\<rparr>"

definition terminate_end :: "'r threads \<Rightarrow> 'r threads option" where
  "terminate_end s =
     (if \<exists>w \<in> set (th_workers s). (case w of Ended \<Rightarrow> False | _ \<Rightarrow> True) then None
      else Some (s\<lparr>th_workers := [], th_queue := [], th_failed := th_failed s @ map (\<lambda>j. (j_req j, ''termination of threading'')) (th_queue s)\<rparr>))"

section \<open>Steps\<close>

text \<open>The steps of the threads alone, with no new call and no wake up without a signal.\<close>

inductive th_internal :: "'r threads \<Rightarrow> 'r threads \<Rightarrow> bool" where
  turn: "i < length (th_workers s) \<Longrightarrow> th_workers s ! i = Ready \<Longrightarrow> th_internal s (worker_turn i s)"
| finish: "i < length (th_workers s) \<Longrightarrow> th_workers s ! i = Working j \<Longrightarrow> th_internal s (worker_finish i j s)"
| signal: "0 < th_signals s \<Longrightarrow> i < length (th_workers s) \<Longrightarrow> th_workers s ! i = Waiting \<Longrightarrow>
    th_internal s (s\<lparr>th_signals := th_signals s - 1, th_workers := (th_workers s)[i := Ready]\<rparr>)"
| signal_none: "0 < th_signals s \<Longrightarrow> Waiting \<notin> set (th_workers s) \<Longrightarrow> th_internal s (s\<lparr>th_signals := th_signals s - 1\<rparr>)"

inductive th_step :: "'r threads \<Rightarrow> 'r threads \<Rightarrow> bool" where
  internal: "th_internal s s' \<Longrightarrow> th_step s s'"
| call: "afb_thread_call malloc_ok create_ok req timeout grp s = Some s' \<Longrightarrow> th_step s s'"
| wake: "i < length (th_workers s) \<Longrightarrow> th_workers s ! i = Waiting \<Longrightarrow> th_step s (s\<lparr>th_workers := (th_workers s)[i := Ready]\<rparr>)"

inductive th_reach :: "nat \<Rightarrow> nat \<Rightarrow> 'r threads \<Rightarrow> bool" for allowed waiters where
  init: "afb_thread_init True allowed oks waiters = Some (s, rc) \<Longrightarrow> th_reach allowed waiters s"
| step: "th_reach allowed waiters s \<Longrightarrow> th_step s s' \<Longrightarrow> th_reach allowed waiters s'"

inductive_cases th_internal_cases: "th_internal s s'"
inductive_cases th_step_cases: "th_step s s'"

section \<open>Groups\<close>

text \<open>Of the queued jobs of a group only the first may be free, and it is only blocked while a job of the group runs.\<close>

definition group_ok :: "'r worker list \<Rightarrow> 'r job list \<Rightarrow> nat \<Rightarrow> bool" where
  "group_ok ws q g \<longleftrightarrow>
     (case filter (\<lambda>j. j_group j = Some g) q of
        [] \<Rightarrow> True
      | j # js \<Rightarrow> (\<forall>i \<in> set js. j_blocked i) \<and> (j_blocked j \<longrightarrow> (\<exists>i. Working i \<in> set ws \<and> j_group i = Some g)))"

definition queue_ok :: "'r worker list \<Rightarrow> 'r job list \<Rightarrow> bool" where
  "queue_ok ws q \<longleftrightarrow> (\<forall>g. group_ok ws q g) \<and> (\<forall>j \<in> set q. j_group j = None \<longrightarrow> \<not> j_blocked j)"

lemma job_get_Some: "job_get q = Some (j, q') \<Longrightarrow> \<exists>a b. q = a @ j # b \<and> q' = a @ b \<and> \<not> j_blocked j \<and> (\<forall>i \<in> set a. j_blocked i)"
proof (induction q arbitrary: q')
  case (Cons x q)
  show ?case
  proof (cases "j_blocked x")
    case True
    with Cons.prems obtain q1 where "job_get q = Some (j, q1)" "q' = x # q1" by auto
    with Cons.IH obtain a b where "q = a @ j # b" "q1 = a @ b" "\<not> j_blocked j" "\<forall>i \<in> set a. j_blocked i" by blast
    with True \<open>q' = x # q1\<close> show ?thesis by (intro exI [of _ "x # a"] exI [of _ b]) simp
  next
    case False
    with Cons.prems show ?thesis by (intro exI [of _ "[]"] exI [of _ q]) simp
  qed
qed simp

lemma job_get_None: "job_get q = None \<longleftrightarrow> (\<forall>j \<in> set q. j_blocked j)"
  by (induction q) auto

lemma filter_job_unblock:
  "filter (\<lambda>j. j_group j = Some g) (job_unblock h q) =
     (if g = h then (case filter (\<lambda>j. j_group j = Some g) q of [] \<Rightarrow> [] | j # js \<Rightarrow> j\<lparr>j_blocked := False\<rparr> # js)
      else filter (\<lambda>j. j_group j = Some g) q)"
  by (induction q) auto

lemma set_job_unblock: "j \<in> set (job_unblock g q) \<Longrightarrow> \<exists>i \<in> set q. j_group j = j_group i \<and> (j_blocked j \<longrightarrow> j_blocked i)"
  by (induction q) (auto split: if_splits)

lemma length_job_unblock [simp]: "length (job_unblock g q) = length q"
  by (induction q) auto

lemma mset_job_unblock: "image_mset j_req (mset (job_unblock g q)) = image_mset j_req (mset q)"
  by (induction q) auto

lemma queue_ok_add:
  assumes "queue_ok ws q" "\<not> j_blocked j"
  shows "queue_ok ws (job_add j q)"
proof -
  have "group_ok ws (job_add j q) g" for g
  proof (cases "j_group j = Some g")
    case True
    have ex: "(\<exists>i \<in> set q. same_group i j) \<longleftrightarrow> filter (\<lambda>j. j_group j = Some g) q \<noteq> []" using True by (auto simp: same_group_def filter_empty_conv)
    from assms have "group_ok ws q g" by (simp add: queue_ok_def)
    with True ex assms(2) show ?thesis
      by (cases "filter (\<lambda>j. j_group j = Some g) q") (auto simp: group_ok_def job_add_def)
  next
    case False
    with assms show ?thesis by (auto simp: queue_ok_def group_ok_def job_add_def)
  qed
  moreover have "\<not> j_blocked i" if "i \<in> set (job_add j q)" "j_group i = None" for i
    using that assms by (auto simp: queue_ok_def job_add_def same_group_def split: if_splits)
  ultimately show ?thesis by (simp add: queue_ok_def)
qed

lemma queue_ok_mono:
  assumes "queue_ok ws q" "\<And>i. Working i \<in> set ws \<Longrightarrow> Working i \<in> set ws'"
  shows "queue_ok ws' q"
  using assms by (fastforce simp: queue_ok_def group_ok_def split: list.splits)

lemma queue_ok_get:
  assumes "queue_ok ws q" "job_get q = Some (j, q')" "Working j \<in> set ws'" "\<And>i. Working i \<in> set ws \<Longrightarrow> Working i \<in> set ws'"
  shows "queue_ok ws' q'"
proof -
  from job_get_Some [OF assms(2)] obtain a b where q: "q = a @ j # b" "q' = a @ b" "\<not> j_blocked j" "\<forall>i \<in> set a. j_blocked i" by blast
  have "group_ok ws' q' g" for g
  proof (cases "j_group j = Some g")
    case True
    let ?f = "filter (\<lambda>j. j_group j = Some g)"
    from assms(1) have ok: "group_ok ws q g" by (simp add: queue_ok_def)
    have blocked: "\<forall>i \<in> set (?f a) \<union> set (?f b). j_blocked i"
    proof (cases "?f a")
      case Nil
      with ok q True show ?thesis by (simp add: group_ok_def)
    next
      case (Cons i js)
      with ok q True show ?thesis by (auto simp: group_ok_def)
    qed
    then have "\<forall>i \<in> set (?f q'). j_blocked i" using q(2) by auto
    with True assms(3) show ?thesis by (cases "?f q'") (auto simp: group_ok_def)
  next
    case False
    let ?f = "filter (\<lambda>j. j_group j = Some g)"
    have "?f q' = ?f q" using False q(1,2) by simp
    moreover have "group_ok ws q g" using assms(1) by (simp add: queue_ok_def)
    ultimately show ?thesis using assms(4) by (cases "?f q") (auto simp: group_ok_def)
  qed
  with assms(1) q show ?thesis by (auto simp: queue_ok_def)
qed

lemma queue_ok_finish:
  assumes "queue_ok ws q" "\<And>i. Working i \<in> set ws \<Longrightarrow> Working i \<in> set ws' \<or> i = j"
  shows "queue_ok ws' (case j_group j of None \<Rightarrow> q | Some h \<Rightarrow> job_unblock h q)"
proof (cases "j_group j")
  case None
  have "group_ok ws' q g" for g
  proof -
    have "group_ok ws q g" using assms(1) by (simp add: queue_ok_def)
    then show ?thesis using assms(2) None unfolding group_ok_def by (fastforce split: list.splits)
  qed
  with assms(1) None show ?thesis by (simp add: queue_ok_def)
next
  case (Some h)
  have "group_ok ws' (job_unblock h q) g" for g
  proof -
    have "group_ok ws q g" using assms(1) by (simp add: queue_ok_def)
    then show ?thesis using assms(2) Some unfolding group_ok_def filter_job_unblock
      by (cases "filter (\<lambda>j. j_group j = Some g) q") (auto, metis option.inject)
  qed
  moreover have "\<not> j_blocked i" if "i \<in> set (job_unblock h q)" "j_group i = None" for i
    using set_job_unblock [OF that(1)] that(2) assms(1) by (auto simp: queue_ok_def)
  ultimately show ?thesis using Some by (simp add: queue_ok_def)
qed

text \<open>The code's case of blocked threads: it cannot happen.\<close>

lemma queue_ok_get_possible:
  assumes "queue_ok ws q" "q \<noteq> []" "\<forall>i. Working i \<notin> set ws"
  shows "job_get q \<noteq> None"
proof -
  obtain j r where q: "q = j # r" using assms(2) by (cases q) auto
  have "\<not> j_blocked j"
  proof (cases "j_group j")
    case None
    then show ?thesis using assms(1) q by (simp add: queue_ok_def)
  next
    case (Some g)
    have "group_ok ws q g" using assms(1) by (simp add: queue_ok_def)
    then show ?thesis using Some q assms(3) by (simp add: group_ok_def)
  qed
  with q show ?thesis by simp
qed

section \<open>The invariant\<close>

definition th_inv :: "nat \<Rightarrow> nat \<Rightarrow> 'r threads \<Rightarrow> bool" where
  "th_inv allowed waiters s \<longleftrightarrow> queue_ok (th_workers s) (th_queue s) \<and> th_remains s + int (length (th_queue s)) = int waiters \<and> 0 \<le> th_remains s
     \<and> length (th_workers s) \<le> allowed \<and> th_allowed s = allowed \<and> \<not> th_stop s \<and> Ended \<notin> set (th_workers s)
     \<and> (th_queue s \<noteq> [] \<longrightarrow> 0 < length (th_workers s) \<or> allowed = 0)
     \<and> (job_get (th_queue s) \<noteq> None \<longrightarrow> 0 < th_signals s \<or> (\<exists>w \<in> set (th_workers s). w \<noteq> Waiting) \<or> th_workers s = [])"

lemma update_others: "i < length xs \<Longrightarrow> xs ! i = y \<Longrightarrow> w \<in> set xs \<Longrightarrow> w \<noteq> y \<Longrightarrow> w \<in> set (xs[i := x])"
  by (metis in_set_conv_nth length_list_update nth_list_update_neq)

lemma set_update_cases: "w \<in> set (xs[i := x]) \<Longrightarrow> w = x \<or> w \<in> set xs"
  using set_update_subset_insert by fastforce

lemma running_zero: "th_running s = 0 \<longleftrightarrow> (\<forall>j. Working j \<notin> set (th_workers s))"
proof -
  have "is_working w \<longleftrightarrow> (\<exists>j. w = Working j)" for w :: "'a worker" by (cases w) auto
  then show ?thesis by (auto simp: th_running_def filter_empty_conv)
qed

lemma turn_inv:
  assumes "th_inv allowed waiters s" "i < length (th_workers s)" "th_workers s ! i = Ready"
  shows "th_inv allowed waiters (worker_turn i s)"
    and "job_get (th_queue s) = None \<Longrightarrow> worker_turn i s = s\<lparr>th_workers := (th_workers s)[i := Waiting]\<rparr>"
proof -
  note inv = assms(1) [unfolded th_inv_def]
  have keep: "Working k \<in> set ((th_workers s)[i := w])" if "Working k \<in> set (th_workers s)" for k w
    using update_others [OF assms(2,3) that] by simp
  have sad: "\<not> (th_queue s \<noteq> [] \<and> th_running s = 0)" if "job_get (th_queue s) = None"
    using queue_ok_get_possible [of "th_workers s" "th_queue s"] inv that by (auto simp: running_zero)
  show none: "worker_turn i s = s\<lparr>th_workers := (th_workers s)[i := Waiting]\<rparr>" if "job_get (th_queue s) = None"
    using that sad [OF that] inv by (auto simp: worker_turn_def)
  have mem: "w \<in> set ((th_workers s)[i := w])" for w using assms(2) by (simp add: set_update_memI)
  show "th_inv allowed waiters (worker_turn i s)"
  proof (cases "job_get (th_queue s)")
    case None
    from inv keep queue_ok_mono [of "th_workers s" "th_queue s" "(th_workers s)[i := Waiting]"] None show ?thesis
      unfolding none [OF None] th_inv_def by (auto dest: set_update_cases)
  next
    case (Some jq)
    obtain j q where jq: "jq = (j, q)" by (cases jq)
    have g: "job_get (th_queue s) = Some (j, q)" using Some jq by simp
    from job_get_Some [OF g] have l: "length (th_queue s) = Suc (length q)" by auto
    have t: "worker_turn i s = s\<lparr>th_queue := q, th_remains := th_remains s + 1, th_workers := (th_workers s)[i := Working j]\<rparr>"
      using g inv by (simp add: worker_turn_def)
    have "queue_ok ((th_workers s)[i := Working j]) q"
      by (rule queue_ok_get [of "th_workers s", OF _ g mem]) (use inv keep in auto)
    with inv l mem [of "Working j"] assms(2) show ?thesis unfolding t th_inv_def by (auto dest: set_update_cases)
  qed
qed

lemma finish_inv:
  assumes "th_inv allowed waiters s" "i < length (th_workers s)" "th_workers s ! i = Working j"
  shows "th_inv allowed waiters (worker_finish i j s)"
proof -
  note inv = assms(1) [unfolded th_inv_def]
  have "Working k \<in> set ((th_workers s)[i := Ready]) \<or> k = j" if "Working k \<in> set (th_workers s)" for k
    using update_others [OF assms(2,3) that] by auto
  with queue_ok_finish [of "th_workers s" "th_queue s" "(th_workers s)[i := Ready]" j] inv
  have q: "queue_ok ((th_workers s)[i := Ready]) (case j_group j of None \<Rightarrow> th_queue s | Some h \<Rightarrow> job_unblock h (th_queue s))" by blast
  have l: "length (case j_group j of None \<Rightarrow> th_queue s | Some h \<Rightarrow> job_unblock h (th_queue s)) = length (th_queue s)" by (simp split: option.split)
  have "Ready \<in> set ((th_workers s)[i := Ready])" using assms(2) by (simp add: set_update_memI)
  moreover have "Ended \<notin> set ((th_workers s)[i := Ready])" using inv by (auto dest: set_update_cases)
  ultimately show ?thesis using inv q l assms(2) unfolding th_inv_def worker_finish_def by auto
qed

lemma ready_inv:
  assumes "th_inv allowed waiters s" "i < length (th_workers s)" "th_workers s ! i = Waiting"
  shows "th_inv allowed waiters (s\<lparr>th_signals := n, th_workers := (th_workers s)[i := Ready]\<rparr>)"
proof -
  note inv = assms(1) [unfolded th_inv_def]
  have "queue_ok ((th_workers s)[i := Ready]) (th_queue s)"
    by (rule queue_ok_mono [of "th_workers s"]) (use inv update_others [OF assms(2,3)] in auto)
  moreover have "Ready \<in> set ((th_workers s)[i := Ready])" using assms(2) by (simp add: set_update_memI)
  ultimately show ?thesis using inv assms(2) by (auto simp: th_inv_def dest: set_update_cases)
qed

lemma job_get_add: "job_get (job_add j q) \<noteq> None \<Longrightarrow> \<not> j_blocked j \<Longrightarrow> job_get q \<noteq> None \<or> (\<forall>i \<in> set q. \<not> same_group i j)"
  by (auto simp: job_get_None job_add_def split: if_splits)

lemma call_inv:
  assumes "th_inv allowed waiters s"
  shows "\<exists>s'. afb_thread_call m c r t g s = Some s' \<and> th_inv allowed waiters s'"
proof -
  note inv = assms(1) [unfolded th_inv_def]
  have err: "th_inv allowed waiters (thread_error r info u)" if "th_inv allowed waiters u" for info u
    using that by (simp add: th_inv_def thread_error_def)
  show ?thesis
  proof (cases "m \<and> th_remains s \<noteq> 0")
    case False
    with err [OF assms] show ?thesis by (auto simp: afb_thread_call_def)
  next
    case True
    let ?st = "if th_started s = th_running s \<and> th_started s < th_allowed s then start_one_thread c s else Some (s, True)"
    have "\<exists>s1 ok. ?st = Some (s1, ok) \<and> th_inv allowed waiters s1 \<and> th_remains s1 = th_remains s \<and> (th_workers s1 = [] \<longrightarrow> \<not> ok \<or> allowed = 0)"
    proof (cases "th_started s = th_running s \<and> th_started s < th_allowed s")
      case start: True
      have "queue_ok (th_workers s @ [Ready]) (th_queue s)" by (rule queue_ok_mono [of "th_workers s"]) (use inv in auto)
      with inv start show ?thesis by (auto simp: start_one_thread_def th_inv_def th_started_def)
    next
      case False
      have "th_workers s = [] \<longrightarrow> allowed = 0" using False inv by (auto simp: th_started_def th_running_def)
      with False assms show ?thesis by auto
    qed
    then obtain s1 ok where s1: "?st = Some (s1, ok)" "th_inv allowed waiters s1" "th_remains s1 = th_remains s" "th_workers s1 = [] \<longrightarrow> \<not> ok \<or> allowed = 0" by blast
    let ?j = "\<lparr>j_req = r, j_timeout = t, j_blocked = False, j_group = g\<rparr>"
    let ?s2 = "s1\<lparr>th_queue := job_add ?j (th_queue s1), th_remains := th_remains s1 - 1, th_signals := th_signals s1 + 1\<rparr>"
    have c: "afb_thread_call m c r t g s = Some (if \<not> ok \<and> th_started s1 = 0 then thread_error r ''can't start thread'' s1 else ?s2)"
      using True s1(1) by (simp add: afb_thread_call_def)
    have "th_inv allowed waiters ?s2" if "\<not> (\<not> ok \<and> th_started s1 = 0)"
    proof -
      note i1 = s1(2) [unfolded th_inv_def]
      have "queue_ok (th_workers s1) (job_add ?j (th_queue s1))" by (rule queue_ok_add) (use i1 in auto)
      moreover have "length (job_add ?j (th_queue s1)) = Suc (length (th_queue s1))" by (simp add: job_add_def)
      moreover have "0 < length (th_workers s1) \<or> allowed = 0" using s1(4) that by (auto simp: th_started_def)
      ultimately show ?thesis using i1 True s1(3) inv by (auto simp: th_inv_def)
    qed
    with c err [OF s1(2)] show ?thesis by auto
  qed
qed

lemma step_inv:
  assumes "th_inv allowed waiters s" "th_step s s'"
  shows "th_inv allowed waiters s'"
  using assms(2)
proof (rule th_step_cases)
  assume "th_internal s s'"
  then show ?thesis
  proof (rule th_internal_cases)
    fix i assume "s' = worker_turn i s" "i < length (th_workers s)" "th_workers s ! i = Ready"
    then show ?thesis using turn_inv(1) [OF assms(1)] by simp
  next
    fix i j assume "s' = worker_finish i j s" "i < length (th_workers s)" "th_workers s ! i = Working j"
    then show ?thesis using finish_inv [OF assms(1)] by simp
  next
    fix i assume "s' = s\<lparr>th_signals := th_signals s - Suc 0, th_workers := (th_workers s)[i := Ready]\<rparr>" "0 < th_signals s" "i < length (th_workers s)" "th_workers s ! i = Waiting"
    then show ?thesis using ready_inv [OF assms(1)] by simp
  next
    assume "s' = s\<lparr>th_signals := th_signals s - Suc 0\<rparr>" "0 < th_signals s" "Waiting \<notin> set (th_workers s)"
    then show ?thesis using assms(1) by (cases "th_workers s") (auto simp: th_inv_def)
  qed
next
  fix m c r t g assume "afb_thread_call m c r t g s = Some s'"
  then show ?thesis using call_inv [OF assms(1), of m c r t g] by simp
next
  fix i assume "s' = s\<lparr>th_workers := (th_workers s)[i := Ready]\<rparr>" "i < length (th_workers s)" "th_workers s ! i = Waiting"
  then show ?thesis using ready_inv [OF assms(1), of i "th_signals s"] by simp
qed

lemma start_threads_inv:
  "th_inv allowed waiters s \<Longrightarrow> start_threads oks s = Some s' \<Longrightarrow> th_queue s = [] \<Longrightarrow> th_inv allowed waiters s'"
proof (induction oks arbitrary: s)
  case (Cons ok oks)
  from Cons.prems obtain s1 b where s1: "start_one_thread ok s = Some (s1, b)" by (auto split: option.splits)
  have "queue_ok (th_workers s @ [Ready]) (th_queue s)" by (rule queue_ok_mono [of "th_workers s"]) (use Cons.prems in \<open>auto simp: th_inv_def\<close>)
  then have "th_inv allowed waiters s1" "th_queue s1 = []"
    using s1 Cons.prems by (auto simp: start_one_thread_def th_inv_def th_started_def split: if_splits)
  with Cons s1 show ?case by (cases b) auto
qed simp

lemma reach_inv: "th_reach allowed waiters s \<Longrightarrow> th_inv allowed waiters s"
proof (induction rule: th_reach.induct)
  case (init oks s rc)
  let ?s0 = "\<lparr>th_queue = [], th_workers = [], th_allowed = allowed, th_remains = int waiters, th_stop = False, th_signals = 0, th_done = [], th_failed = []\<rparr> :: 'a threads"
  have "th_inv allowed waiters ?s0" by (simp add: th_inv_def queue_ok_def group_ok_def)
  with init start_threads_inv [of allowed waiters ?s0 oks s] show ?case by (auto simp: afb_thread_init_def Let_def)
next
  case (step s s')
  then show ?case using step_inv by blast
qed

section \<open>No request is lost\<close>

fun worker_reqs :: "'r worker \<Rightarrow> 'r multiset" where
  "worker_reqs (Working j) = {#j_req j#}"
| "worker_reqs _ = {#}"

text \<open>The requests accepted so far: served, queued or in the hands of a worker.\<close>

definition th_accepted :: "'r threads \<Rightarrow> 'r multiset" where
  "th_accepted s = mset (th_done s) + image_mset j_req (mset (th_queue s)) + sum_list (map worker_reqs (th_workers s))"

fun worker_weight :: "'r worker \<Rightarrow> nat" where
  "worker_weight (Working _) = 3"
| "worker_weight Ready = 1"
| "worker_weight _ = 0"

definition th_work :: "'r threads \<Rightarrow> nat" where
  "th_work s = 5 * length (th_queue s) + sum_list (map worker_weight (th_workers s)) + 2 * th_signals s"

lemma sum_list_update:
  fixes f :: "'a \<Rightarrow> 'b::comm_monoid_add"
  shows "i < length xs \<Longrightarrow> sum_list (map f (xs[i := x])) + f (xs ! i) = sum_list (map f xs) + f x"
proof (induction xs arbitrary: i)
  case (Cons y ys)
  show ?case
  proof (cases i)
    case 0
    then show ?thesis by (simp add: ac_simps)
  next
    case (Suc k)
    with Cons have "sum_list (map f (ys[k := x])) + f (ys ! k) = sum_list (map f ys) + f x" by simp
    then show ?thesis using Suc by (simp add: add.assoc)
  qed
qed simp

lemma job_get_counts:
  assumes "job_get q = Some (j, q')"
  shows "length q = Suc (length q')" "mset q = add_mset j (mset q')"
  using job_get_Some [OF assms] by auto

lemma accepted_ready:
  assumes "i < length ws" "worker_reqs (ws ! i) = {#}"
  shows "sum_list (map worker_reqs (ws[i := w])) = sum_list (map worker_reqs ws) + worker_reqs w"
  using sum_list_update [OF assms(1), of worker_reqs w] assms(2) by simp

lemma turn_accepted:
  assumes "th_inv allowed waiters s" "i < length (th_workers s)" "th_workers s ! i = Ready"
  shows "th_accepted (worker_turn i s) = th_accepted s" "th_work (worker_turn i s) < th_work s"
proof -
  note inv = assms(1) [unfolded th_inv_def]
  note req = accepted_ready [OF assms(2)] and weight = sum_list_update [OF assms(2), of worker_weight]
  have "th_accepted (worker_turn i s) = th_accepted s \<and> th_work (worker_turn i s) < th_work s"
  proof (cases "job_get (th_queue s)")
    case None
    show ?thesis unfolding turn_inv(2) [OF assms None] using req [of Waiting] weight [of Waiting] assms(3)
      by (simp add: th_accepted_def th_work_def)
  next
    case (Some jq)
    obtain j q where g: "job_get (th_queue s) = Some (j, q)" using Some by (cases jq) auto
    then have "worker_turn i s = s\<lparr>th_queue := q, th_remains := th_remains s + 1, th_workers := (th_workers s)[i := Working j]\<rparr>"
      using inv by (simp add: worker_turn_def)
    then show ?thesis using req [of "Working j"] weight [of "Working j"] assms(3) job_get_counts [OF g]
      by (simp add: th_accepted_def th_work_def)
  qed
  then show "th_accepted (worker_turn i s) = th_accepted s" "th_work (worker_turn i s) < th_work s" by simp_all
qed

lemma finish_accepted:
  assumes "i < length (th_workers s)" "th_workers s ! i = Working j"
  shows "th_accepted (worker_finish i j s) = th_accepted s" "th_work (worker_finish i j s) < th_work s"
proof -
  have q: "image_mset j_req (mset (case j_group j of None \<Rightarrow> th_queue s | Some g \<Rightarrow> job_unblock g (th_queue s))) = image_mset j_req (mset (th_queue s))"
    "length (case j_group j of None \<Rightarrow> th_queue s | Some g \<Rightarrow> job_unblock g (th_queue s)) = length (th_queue s)"
    by (simp_all add: mset_job_unblock split: option.split)
  show "th_accepted (worker_finish i j s) = th_accepted s"
    using sum_list_update [OF assms(1), of worker_reqs Ready] assms(2) q(1) by (simp add: th_accepted_def worker_finish_def)
  show "th_work (worker_finish i j s) < th_work s"
    using sum_list_update [OF assms(1), of worker_weight Ready] assms(2) q(2) by (simp add: th_work_def worker_finish_def)
qed

lemma internal_accepted:
  assumes "th_inv allowed waiters s" "th_internal s s'"
  shows "th_accepted s' = th_accepted s \<and> th_failed s' = th_failed s \<and> th_work s' < th_work s"
  using assms(2)
proof (cases rule: th_internal.cases)
  case (turn i)
  have "th_failed (worker_turn i s) = th_failed s" by (simp add: worker_turn_def split: option.split)
  then show ?thesis using turn turn_accepted [OF assms(1)] by simp
next
  case (finish i j)
  moreover have "th_failed (worker_finish i j s) = th_failed s" by (simp add: worker_finish_def)
  ultimately show ?thesis using finish_accepted [of i s j] by simp
next
  case (signal i)
  then show ?thesis using accepted_ready [of i "th_workers s" Ready] sum_list_update [of i "th_workers s" worker_weight Ready]
    by (simp add: th_accepted_def th_work_def)
next
  case signal_none
  then show ?thesis by (simp add: th_accepted_def th_work_def)
qed

lemma internal_workers: "th_internal s s' \<Longrightarrow> length (th_workers s') = length (th_workers s)"
  by (erule th_internal_cases) (simp_all add: worker_turn_def worker_finish_def split: option.split)

lemma internal_run:
  assumes "th_inv allowed waiters s"
  shows "(th_internal ^^ n) s s' \<Longrightarrow> th_inv allowed waiters s' \<and> th_accepted s' = th_accepted s \<and> th_failed s' = th_failed s \<and> n + th_work s' \<le> th_work s
    \<and> length (th_workers s') = length (th_workers s)"
proof (induction n arbitrary: s')
  case (Suc n)
  from Suc.prems obtain u where u: "(th_internal ^^ n) s u" "th_internal u s'" by auto
  from Suc.IH [OF u(1)] internal_accepted [of allowed waiters u, OF _ u(2)] step_inv [of allowed waiters u s'] internal_workers [OF u(2)] u(2) show ?case
    by (fastforce intro: th_step.internal)
qed (use assms in simp)

text \<open>A worker that is neither waiting nor ended can make a step, and one that waits can when a signal is pending.\<close>

lemma internal_quiet:
  assumes "th_inv allowed waiters s" "\<nexists>s'. th_internal s s'" "th_workers s \<noteq> []"
  shows "th_queue s = [] \<and> sum_list (map worker_reqs (th_workers s)) = {#}"
proof -
  note inv = assms(1) [unfolded th_inv_def]
  have wait: "w = Waiting" if "w \<in> set (th_workers s)" for w
  proof -
    from that obtain i where "i < length (th_workers s)" "th_workers s ! i = w" by (auto simp: in_set_conv_nth)
    then show ?thesis using assms(2) inv that by (cases w) (auto intro: th_internal.turn th_internal.finish)
  qed
  obtain i where i: "i < length (th_workers s)" using assms(3) by (cases "th_workers s") auto
  then have "th_workers s ! i = Waiting" using wait by simp
  with assms(2) i have "th_signals s = 0" using th_internal.signal [of s i] by auto
  with inv wait assms(3) have "job_get (th_queue s) = None" by (metis less_irrefl)
  moreover have "\<forall>j. Working j \<notin> set (th_workers s)" using wait by auto
  ultimately have "th_queue s = []" using queue_ok_get_possible [of "th_workers s" "th_queue s"] inv by auto
  moreover have "\<forall>w \<in> set ws. worker_reqs w = {#} \<Longrightarrow> sum_list (map worker_reqs ws) = {#}" for ws :: "'a worker list"
    by (induction ws) auto
  moreover have "\<forall>w \<in> set (th_workers s). worker_reqs w = {#}" using wait by fastforce
  ultimately show ?thesis by blast
qed

section \<open>Properties\<close>

text \<open>The number of requests a call adds: one, accepted or refused with an error.\<close>

lemma call_accounts:
  assumes "th_inv allowed waiters s" "afb_thread_call m c r t g s = Some s'"
  shows "(th_accepted s' = add_mset r (th_accepted s) \<and> th_failed s' = th_failed s) \<or> (th_accepted s' = th_accepted s \<and> (\<exists>info. th_failed s' = th_failed s @ [(r, info)]))"
proof -
  have start: "th_accepted s1 = th_accepted s \<and> th_failed s1 = th_failed s" if "start_one_thread c s = Some (s1, ok)" for s1 ok
    using that by (auto simp: start_one_thread_def th_accepted_def split: if_splits)
  have enqueue: "th_accepted (u\<lparr>th_queue := job_add \<lparr>j_req = r, j_timeout = t, j_blocked = False, j_group = g\<rparr> (th_queue u), th_remains := x, th_signals := y\<rparr>)
      = add_mset r (th_accepted u)" for u :: "'a threads" and x y
    by (simp add: th_accepted_def job_add_def)
  have err: "th_accepted (thread_error r info u) = th_accepted u \<and> th_failed (thread_error r info u) = th_failed u @ [(r, info)]" for info u
    by (simp add: th_accepted_def thread_error_def)
  show ?thesis
  proof (cases "m \<and> th_remains s \<noteq> 0")
    case False
    then show ?thesis using assms(2) err by (auto simp: afb_thread_call_def split: if_splits)
  next
    case True
    let ?st = "if th_started s = th_running s \<and> th_started s < th_allowed s then start_one_thread c s else Some (s, True)"
    obtain s1 ok where s1: "?st = Some (s1, ok)" using assms(2) True by (auto simp: afb_thread_call_def bind_eq_Some_conv)
    then have "th_accepted s1 = th_accepted s \<and> th_failed s1 = th_failed s" using start by (auto split: if_splits)
    then show ?thesis using assms(2) True s1 err enqueue by (auto simp: afb_thread_call_def split: if_splits)
  qed
qed

lemma call_queues:
  assumes "afb_thread_call m c r t g s = Some s'"
  shows "(\<exists>b q. th_queue s' = q @ [\<lparr>j_req = r, j_timeout = t, j_blocked = b, j_group = g\<rparr>]) \<or> (\<exists>info. th_failed s' = th_failed s @ [(r, info)])"
  using assms by (auto simp: afb_thread_call_def thread_error_def job_add_def start_one_thread_def bind_eq_Some_conv split: if_splits)

text \<open>C15. Whatever the interleaving of calls and workers, the case the code logs as ''threads are blocked'' does not happen: in a reachable state,
  when jobs are queued and no job runs, a job that is not blocked is found; also the queue never holds more than the jobs allowed to wait and no more
  threads are started than allowed.\<close>

theorem threads_never_blocked:
  assumes "th_reach allowed waiters s"
  shows "(th_queue s \<noteq> [] \<and> th_running s = 0 \<longrightarrow> job_get (th_queue s) \<noteq> None)
    \<and> th_remains s = int waiters - int (length (th_queue s)) \<and> length (th_queue s) \<le> waiters \<and> th_started s \<le> allowed"
  using reach_inv [OF assms] queue_ok_get_possible [of "th_workers s" "th_queue s"]
  by (auto simp: th_inv_def running_zero th_started_def)

definition demo_threads :: "nat threads" where
  "demo_threads = \<lparr>th_queue = [], th_workers = [Ready], th_allowed = 2, th_remains = 3, th_stop = False, th_signals = 0, th_done = [], th_failed = []\<rparr>"

definition demo_queued :: "nat threads" where
  "demo_queued = demo_threads\<lparr>th_queue := [\<lparr>j_req = 7, j_timeout = 10, j_blocked = False, j_group = Some 1\<rparr>], th_remains := 2, th_signals := 1\<rparr>"

lemma demo_threads_reach: "th_reach 2 3 demo_threads"
  by (rule th_reach.init [of 2 "[True]" 3 _ 0])
    (simp add: afb_thread_init_def demo_threads_def Let_def start_one_thread_def th_started_def)

lemma demo_queued_reach: "th_reach 2 3 demo_queued"
proof (rule th_reach.step [OF demo_threads_reach])
  have "afb_thread_call True True 7 10 (Some 1) demo_threads = Some demo_queued"
    by (simp add: afb_thread_call_def demo_threads_def demo_queued_def th_started_def th_running_def job_add_def)
  then show "th_step demo_threads demo_queued" by (rule th_step.call)
qed

theorem threads_never_blocked_witness: "th_queue demo_queued \<noteq> [] \<and> th_running demo_queued = 0 \<and> job_get (th_queue demo_queued) \<noteq> None"
  using threads_never_blocked [OF demo_queued_reach] by (simp add: demo_queued_def demo_threads_def th_running_def)

text \<open>C14. Every accepted job is run once: from a reachable state with at least one thread, when no more calls come and no call hangs, the workers make
  only finitely many steps (at most \<open>th_work\<close>), and when they stop the queue is empty and the requests served are exactly the ones that were served,
  queued or running before.\<close>

theorem every_job_runs:
  assumes "th_reach allowed waiters s" "th_workers s \<noteq> []"
  shows "((th_internal ^^ n) s s' \<longrightarrow> n \<le> th_work s)
    \<and> (th_internal\<^sup>*\<^sup>* s s' \<and> (\<nexists>u. th_internal s' u) \<longrightarrow>
        th_queue s' = [] \<and> th_failed s' = th_failed s \<and>
        mset (th_done s') = mset (th_done s) + image_mset j_req (mset (th_queue s)) + sum_list (map worker_reqs (th_workers s)))"
proof (intro conjI impI)
  note inv = reach_inv [OF assms(1)]
  show "n \<le> th_work s" if "(th_internal ^^ n) s s'" using internal_run [OF inv that] by simp
  assume "th_internal\<^sup>*\<^sup>* s s' \<and> (\<nexists>u. th_internal s' u)"
  then obtain k where k: "(th_internal ^^ k) s s'" "\<nexists>u. th_internal s' u" by (auto dest: rtranclp_imp_relpowp)
  note run = internal_run [OF inv k(1)]
  with assms(2) have "th_workers s' \<noteq> []" by auto
  with internal_quiet [of allowed waiters s'] k(2) run have quiet: "th_queue s' = []" "sum_list (map worker_reqs (th_workers s')) = {#}" by auto
  then show "th_queue s' = []" "th_failed s' = th_failed s" using run by auto
  show "mset (th_done s') = mset (th_done s) + image_mset j_req (mset (th_queue s)) + sum_list (map worker_reqs (th_workers s))"
    using run quiet by (simp add: th_accepted_def)
qed

definition demo_served :: "nat threads" where
  "demo_served = demo_threads\<lparr>th_workers := [Waiting], th_done := [7]\<rparr>"

lemma demo_served_run: "th_internal\<^sup>*\<^sup>* demo_queued demo_served"
proof -
  let ?j = "\<lparr>j_req = 7, j_timeout = 10, j_blocked = False, j_group = Some 1\<rparr> :: nat job"
  have "th_internal demo_queued (worker_turn 0 demo_queued)" by (rule th_internal.turn) (simp_all add: demo_queued_def demo_threads_def)
  also have "worker_turn 0 demo_queued = demo_threads\<lparr>th_signals := 1, th_workers := [Working ?j]\<rparr>"
    by (simp add: worker_turn_def demo_queued_def demo_threads_def)
  finally have 1: "th_internal demo_queued (demo_threads\<lparr>th_signals := 1, th_workers := [Working ?j]\<rparr>)" .
  have "th_internal (demo_threads\<lparr>th_signals := 1, th_workers := [Working ?j]\<rparr>) ((demo_threads\<lparr>th_signals := 1, th_workers := [Working ?j]\<rparr>)\<lparr>th_signals := 0\<rparr>)"
    using th_internal.signal_none [of "demo_threads\<lparr>th_signals := 1, th_workers := [Working ?j]\<rparr>"] by simp
  then have 2: "th_internal (demo_threads\<lparr>th_signals := 1, th_workers := [Working ?j]\<rparr>) (demo_threads\<lparr>th_workers := [Working ?j]\<rparr>)"
    by (simp add: demo_threads_def)
  have 3: "th_internal (demo_threads\<lparr>th_workers := [Working ?j]\<rparr>) (demo_threads\<lparr>th_done := [7]\<rparr>)"
    using th_internal.finish [of 0 "demo_threads\<lparr>th_workers := [Working ?j]\<rparr>" ?j] by (simp add: worker_finish_def demo_threads_def)
  have 4: "th_internal (demo_threads\<lparr>th_done := [7]\<rparr>) demo_served"
    using th_internal.turn [of 0 "demo_threads\<lparr>th_done := [7]\<rparr>"] by (simp add: worker_turn_def demo_threads_def demo_served_def)
  from 1 2 3 4 show ?thesis by (meson converse_rtranclp_into_rtranclp r_into_rtranclp)
qed

lemma demo_served_quiet: "\<not> th_internal demo_served u"
  by (auto elim!: th_internal_cases simp: demo_served_def demo_threads_def less_Suc_eq)

theorem every_job_runs_witness: "th_queue demo_served = [] \<and> mset (th_done demo_served) = {#7#}"
proof -
  have "th_workers demo_queued \<noteq> []" by (simp add: demo_queued_def demo_threads_def)
  from every_job_runs [OF demo_queued_reach this] demo_served_run demo_served_quiet show ?thesis
    by (simp add: demo_queued_def demo_threads_def)
qed

text \<open>The jobs of a group are not exclusive: \<^verbatim>\<open>job_add\<close> compares the group with the queued jobs only, and a running job has left the queue. From
  two calls of the same group, two workers run them at the same time.\<close>

lemma group_not_exclusive:
  "\<exists>s :: nat threads. th_reach 2 3 s \<and>
     (\<exists>i j. th_workers s = [Working i, Working j] \<and> j_group i = Some 1 \<and> j_group j = Some 1)"
proof -
  let ?i = "\<lparr>j_req = 7, j_timeout = 10, j_blocked = False, j_group = Some 1\<rparr> :: nat job"
  let ?j = "\<lparr>j_req = 8, j_timeout = 10, j_blocked = False, j_group = Some 1\<rparr> :: nat job"
  let ?a = "demo_threads\<lparr>th_signals := 1, th_workers := [Working ?i]\<rparr>"
  let ?b = "demo_threads\<lparr>th_signals := 2, th_workers := [Working ?i, Ready], th_queue := [?j], th_remains := 2\<rparr>"
  let ?c = "demo_threads\<lparr>th_signals := 2, th_workers := [Working ?i, Working ?j]\<rparr>"
  have "th_internal demo_queued ?a"
    using th_internal.turn [of 0 demo_queued] by (simp add: worker_turn_def demo_queued_def demo_threads_def)
  then have a: "th_reach 2 3 ?a" using demo_queued_reach th_step.internal th_reach.step by blast
  have "afb_thread_call True True 8 10 (Some 1) ?a = Some ?b"
    by (simp add: afb_thread_call_def demo_threads_def start_one_thread_def th_started_def th_running_def job_add_def)
  then have b: "th_reach 2 3 ?b" by (rule th_reach.step [OF a th_step.call])
  have "th_internal ?b ?c" using th_internal.turn [of 1 ?b] by (simp add: worker_turn_def demo_threads_def)
  then have "th_reach 2 3 ?c" using b th_step.internal th_reach.step by blast
  then show ?thesis by (intro exI [of _ ?c] exI [of _ ?i] exI [of _ ?j] conjI) (simp_all add: demo_threads_def)
qed

section \<open>Termination\<close>

definition stopping :: "'r threads \<Rightarrow> bool" where
  "stopping s \<longleftrightarrow> th_stop s \<and> Waiting \<notin> set (th_workers s)"

lemma stopping_internal:
  assumes "stopping s" "th_internal s s'"
  shows "stopping s' \<and> th_accepted s' = th_accepted s \<and> th_failed s' = th_failed s \<and> th_work s' < th_work s"
  using assms(2)
proof (cases rule: th_internal.cases)
  case (turn i)
  have t: "s' = s\<lparr>th_workers := (th_workers s)[i := Ended]\<rparr>" using turn assms(1) by (simp add: worker_turn_def stopping_def)
  have "Waiting \<notin> set ((th_workers s)[i := Ended])" using assms(1) set_update_subset_insert [of "th_workers s" i Ended] by (auto simp: stopping_def)
  then show ?thesis unfolding t using turn(2,3) assms(1) accepted_ready [of i "th_workers s" Ended] sum_list_update [of i "th_workers s" worker_weight Ended]
    by (simp add: stopping_def th_accepted_def th_work_def)
next
  case (finish i j)
  moreover have "th_failed (worker_finish i j s) = th_failed s" "th_stop (worker_finish i j s) = th_stop s"
    "th_workers (worker_finish i j s) = (th_workers s)[i := Ready]" by (simp_all add: worker_finish_def)
  moreover have "Waiting \<notin> set ((th_workers s)[i := Ready])" using assms(1) set_update_subset_insert [of "th_workers s" i Ready] by (auto simp: stopping_def)
  ultimately show ?thesis using finish_accepted [of i s j] assms(1) by (simp add: stopping_def)
next
  case (signal i)
  then have "Waiting \<in> set (th_workers s)" by (metis nth_mem)
  then show ?thesis using assms(1) by (simp add: stopping_def)
next
  case signal_none
  then show ?thesis using assms(1) by (simp add: stopping_def th_accepted_def th_work_def)
qed

lemma stopping_run:
  assumes "stopping s"
  shows "(th_internal ^^ n) s s' \<Longrightarrow> stopping s' \<and> th_accepted s' = th_accepted s \<and> th_failed s' = th_failed s \<and> n + th_work s' \<le> th_work s"
proof (induction n arbitrary: s')
  case (Suc n)
  from Suc.prems obtain u where u: "(th_internal ^^ n) s u" "th_internal u s'" by auto
  from Suc.IH [OF u(1)] stopping_internal [of u s'] u(2) show ?case by fastforce
qed (use assms in simp)

lemma stopping_begin: "stopping (terminate_begin s)" "th_accepted (terminate_begin s) = th_accepted s" "th_failed (terminate_begin s) = th_failed s"
proof -
  have "sum_list (map worker_reqs (map (\<lambda>w. case w of Waiting \<Rightarrow> Ready | _ \<Rightarrow> w) ws)) = sum_list (map worker_reqs ws)" for ws :: "'a worker list"
    by (induction ws) (auto split: worker.split)
  then show "th_accepted (terminate_begin s) = th_accepted s" by (simp add: th_accepted_def terminate_begin_def)
qed (auto simp: stopping_def terminate_begin_def split: worker.splits)

text \<open>The threads can always be terminated, and no request is forgotten: after the request to stop the workers make finitely many steps, when no call
  hangs, and when they make no more they have all ended, so that the waiting is over; of the requests that had been accepted the served ones are in the list of
  served requests and every other one is told that it was aborted, once.\<close>

lemma termination_aborts_the_rest:
  assumes "th_internal\<^sup>*\<^sup>* (terminate_begin s) s'" "\<nexists>u. th_internal s' u"
  shows "\<exists>t aborted. terminate_end s' = Some t \<and> th_queue t = [] \<and> th_failed t = th_failed s @ map (\<lambda>r. (r, ''termination of threading'')) aborted
    \<and> mset (th_done t) + mset aborted = th_accepted s"
proof -
  obtain k where "(th_internal ^^ k) (terminate_begin s) s'" using assms(1) by (auto dest: rtranclp_imp_relpowp)
  note run = stopping_run [OF stopping_begin(1) this]
  have ended: "w = Ended" if w: "w \<in> set (th_workers s')" for w
  proof -
    from w obtain i where "i < length (th_workers s')" "th_workers s' ! i = w" by (auto simp: in_set_conv_nth)
    then show ?thesis using assms(2) run w by (cases w) (auto simp: stopping_def intro: th_internal.turn th_internal.finish)
  qed
  have "\<forall>w \<in> set ws. w = Ended \<Longrightarrow> sum_list (map worker_reqs ws) = {#}" for ws :: "'a worker list"
    by (induction ws) auto
  with ended have "sum_list (map worker_reqs (th_workers s')) = {#}" by blast
  then have "mset (th_done s') + mset (map j_req (th_queue s')) = th_accepted s" using run stopping_begin(2) [of s] by (simp add: th_accepted_def)
  moreover have "\<not> (\<exists>w \<in> set (th_workers s'). (case w of Ended \<Rightarrow> False | _ \<Rightarrow> True))" using ended by fastforce
  ultimately show ?thesis using run stopping_begin(3) [of s]
    by (intro exI [of _ "the (terminate_end s')"] exI [of _ "map j_req (th_queue s')"]) (simp add: terminate_end_def comp_def)
qed

end
