(* ===== verification/Api_So.thy ===== *)
theory Api_So
  imports Context Apis Jobs
begin

text \<open>
  Bindings loaded from shared objects, \<^verbatim>\<open>src/src/afb-api-so.c\<close>, with the session requirements of verbs of
  \<^verbatim>\<open>src/include/afb/afb-binding.h\<close>.

  What a loadable file holds (\<open>library\<close>) and the tree of the file system are parameters. The callback of a verb is a value of \<open>'cb\<close>; calling
  it is queueing it to the threads. A description of a binding is known by its index in \<open>so_descs\<close>; its prefix and its verbs are the
  ones of the binding that were found not to be null.
\<close>

section \<open>Verbs and their session requirements\<close>

abbreviation (input) AFB_SESSION_CREATE :: "32 word" where "AFB_SESSION_CREATE \<equiv> 1"
abbreviation (input) AFB_SESSION_CLOSE :: "32 word" where "AFB_SESSION_CLOSE \<equiv> 2"
abbreviation (input) AFB_SESSION_RENEW :: "32 word" where "AFB_SESSION_RENEW \<equiv> 4"
abbreviation (input) AFB_SESSION_CHECK :: "32 word" where "AFB_SESSION_CHECK \<equiv> 8"
abbreviation (input) AFB_SESSION_LOA_GE :: "32 word" where "AFB_SESSION_LOA_GE \<equiv> 16"
abbreviation (input) AFB_SESSION_LOA_LE :: "32 word" where "AFB_SESSION_LOA_LE \<equiv> 32"
abbreviation (input) AFB_SESSION_LOA_EQ :: "32 word" where "AFB_SESSION_LOA_EQ \<equiv> 48"
abbreviation (input) AFB_SESSION_LOA_SHIFT :: nat where "AFB_SESSION_LOA_SHIFT \<equiv> 6"
abbreviation (input) AFB_SESSION_LOA_MASK :: "32 word" where "AFB_SESSION_LOA_MASK \<equiv> 7"

record 'cb afb_verb_desc_v1 =
  vb_name :: string
  vb_session :: "32 word"
  vb_callback :: 'cb

record 'cb afb_binding =
  bd_type :: int
  bd_info :: "string option"
  bd_prefix :: "string option"
  bd_verbs :: "'cb afb_verb_desc_v1 list option"

abbreviation (input) AFB_BINDING_VERSION_1 :: int where "AFB_BINDING_VERSION_1 \<equiv> 123456789"

text \<open>The level of assurance in the flags of a verb.\<close>

definition stag_loa :: "32 word \<Rightarrow> 32 word" where
  "stag_loa stag = and (drop_bit AFB_SESSION_LOA_SHIFT stag) AFB_SESSION_LOA_MASK"

definition has_flag :: "32 word \<Rightarrow> 32 word \<Rightarrow> bool" where
  "has_flag stag f \<longleftrightarrow> and stag f \<noteq> 0"

text \<open>The outer \<open>None\<close> is a failed assertion; the second component is the failure sent to the request, when the check refuses it.\<close>

definition call_check :: "afb_context \<Rightarrow> 32 word \<Rightarrow> (afb_context \<times> (string \<times> string) option) option" where
  "call_check x0 stag =
     (if has_flag stag (or (or (or (or AFB_SESSION_CREATE AFB_SESSION_CLOSE) AFB_SESSION_RENEW) AFB_SESSION_CHECK) AFB_SESSION_LOA_EQ)
         \<and> \<not> afb_context_check x0
      then Some (afb_context_close x0, Some (''failed'', ''invalid token's identity''))
      else if has_flag stag AFB_SESSION_CREATE \<and> afb_context_check_loa x0 1 then Some (x0, Some (''failed'', ''invalid creation state''))
      else do {
        x1 \<leftarrow> (if has_flag stag AFB_SESSION_CREATE then afb_context_refresh (fst (afb_context_change_loa x0 1)) else Some x0);
        x2 \<leftarrow> (if has_flag stag (or AFB_SESSION_CREATE AFB_SESSION_RENEW) then afb_context_refresh x1 else Some x1);
        let x3 = (if has_flag stag AFB_SESSION_CLOSE then afb_context_close (fst (afb_context_change_loa x2 0)) else x2);
        if has_flag stag AFB_SESSION_LOA_GE \<and> \<not> afb_context_check_loa x3 (stag_loa stag) then Some (x3, Some (''failed'', ''invalid LOA''))
        else if has_flag stag AFB_SESSION_LOA_LE \<and> afb_context_check_loa x3 (stag_loa stag + 1) then Some (x3, Some (''failed'', ''invalid LOA''))
        else Some (x3, None) })"

section \<open>Descriptions of bindings\<close>

text \<open>What a shared object gives: its register function, when it has one, with what it returns, and whether it has the functions of a service.\<close>

record 'cb library =
  lb_register :: "'cb afb_binding option option"
  lb_init :: bool
  lb_event :: bool

record 'cb api_so_desc =
  sd_binding :: "'cb afb_binding"
  sd_prefix :: string
  sd_verbs :: "'cb afb_verb_desc_v1 list"
  sd_apilength :: nat
  sd_handle :: "string \<times> 'cb library"
  sd_service :: "nat option"

record 'cb so_state =
  so_descs :: "'cb api_so_desc list"
  so_apis :: "nat apis"
  so_handles :: "(string \<times> 'cb library) list"
  so_dirs :: nat
  so_timeout :: int

record 'cb so_env =
  se_dlopen :: "string \<Rightarrow> 'cb library option"
  se_calloc :: "string \<Rightarrow> bool"
  se_realloc :: "string \<Rightarrow> bool"

definition afb_api_so_set_timeout :: "int \<Rightarrow> 'cb so_state \<Rightarrow> 'cb so_state" where
  "afb_api_so_set_timeout t s = s\<lparr>so_timeout := t\<rparr>"

section \<open>The interface given to bindings\<close>

definition event_name :: "'cb api_so_desc \<Rightarrow> string \<Rightarrow> string" where
  "event_name desc name = take (sd_apilength desc) (sd_prefix desc) @ ''/'' @ name"

definition afb_api_so_event_make_cb :: "(string \<Rightarrow> 'e \<Rightarrow> 'r) \<Rightarrow> 'cb api_so_desc \<Rightarrow> string \<Rightarrow> 'e \<Rightarrow> 'r" where
  "afb_api_so_event_make_cb create desc name e = create (event_name desc name) e"

definition afb_api_so_event_broadcast_cb :: "(string \<Rightarrow> 'j \<Rightarrow> 'e \<Rightarrow> 'r) \<Rightarrow> 'cb api_so_desc \<Rightarrow> string \<Rightarrow> 'j \<Rightarrow> 'e \<Rightarrow> 'r" where
  "afb_api_so_event_broadcast_cb broadcast desc name obj e = broadcast (event_name desc name) obj e"

section \<open>Calls\<close>

definition verb_matches :: "string \<Rightarrow> nat \<Rightarrow> 'cb afb_verb_desc_v1 \<Rightarrow> bool" where
  "verb_matches strverb lenverb v \<longleftrightarrow> strncasecmp (vb_name v) strverb lenverb = 0 \<and> cat (vb_name v) lenverb = NUL"

text \<open>The threads run pairs of a request and a callback; the group of a job is the description of its binding. The last component is the failure
  that the request gets before any job is made.\<close>

definition call_cb ::
  "bool \<Rightarrow> bool \<Rightarrow> int \<Rightarrow> nat \<Rightarrow> 'cb api_so_desc \<Rightarrow> 'q \<Rightarrow> afb_context \<Rightarrow> string \<Rightarrow> nat \<Rightarrow> ('q \<times> 'cb) threads
     \<Rightarrow> (afb_context \<times> ('q \<times> 'cb) threads \<times> (string \<times> string) option) option" where
  "call_cb malloc_ok create_ok api_timeout self desc req x strverb lenverb th =
     (case first_index (verb_matches strverb lenverb) (sd_verbs desc) of
        None \<Rightarrow> Some (x, th, Some (''unknown-verb'', ''verb '' @ take lenverb strverb @ '' unknown within api '' @ sd_prefix desc))
      | Some i \<Rightarrow> do {
          let verb = sd_verbs desc ! i;
          (x1, refused) \<leftarrow> call_check x (vb_session verb);
          case refused of
            Some f \<Rightarrow> Some (x1, th, Some f)
          | None \<Rightarrow> do { th1 \<leftarrow> afb_thread_call malloc_ok create_ok (req, vb_callback verb) api_timeout (Some self) th; Some (x1, th1, None) } })"

section \<open>Services\<close>

text \<open>\<open>svc_create\<close> is the creation of a service with the functions of the library: it gives the service, or nothing.\<close>

definition service_start_cb ::
  "('cb library \<Rightarrow> bool \<Rightarrow> nat option) \<Rightarrow> 'cb api_so_desc \<Rightarrow> bool \<Rightarrow> bool \<Rightarrow> 'cb api_so_desc \<times> int" where
  "service_start_cb svc_create desc share_session onneed =
     (if sd_service desc \<noteq> None then (desc, if onneed then 0 else -1)
      else if \<not> lb_init (snd (sd_handle desc)) then (desc, if onneed then 0 else -1)
      else case svc_create (snd (sd_handle desc)) share_session of
        None \<Rightarrow> (desc\<lparr>sd_service := None\<rparr>, -1)
      | Some svc \<Rightarrow> (desc\<lparr>sd_service := Some svc\<rparr>, 0))"

section \<open>Loading\<close>

definition binding_error :: "'cb so_state \<Rightarrow> 'cb so_state" where
  "binding_error s = s\<lparr>so_handles := tl (so_handles s)\<rparr>"

definition afb_api_so_add_binding :: "'cb so_env \<Rightarrow> string \<Rightarrow> 'cb so_state \<Rightarrow> 'cb so_state \<times> int" where
  "afb_api_so_add_binding env path s =
     (case se_dlopen env path of
        None \<Rightarrow> (s, 0)
      | Some lib \<Rightarrow>
          (let s1 = s\<lparr>so_handles := (path, lib) # so_handles s\<rparr> in
           case lb_register lib of
             None \<Rightarrow> (binding_error s1, 0)
           | Some registered \<Rightarrow>
               if \<not> se_calloc env path then (binding_error s1, -1)
               else case registered of
                 None \<Rightarrow> (binding_error s1, -1)
               | Some b \<Rightarrow>
                   if bd_type b \<noteq> AFB_BINDING_VERSION_1 then (binding_error s1, -1)
                   else case bd_prefix b of
                     None \<Rightarrow> (binding_error s1, -1)
                   | Some prefix \<Rightarrow>
                       if prefix = [] then (binding_error s1, -1)
                       else if \<not> afb_apis_is_valid_api_name prefix then (binding_error s1, -1)
                       else if bd_info b = None \<or> bd_info b = Some [] then (binding_error s1, -1)
                       else case bd_verbs b of
                         None \<Rightarrow> (binding_error s1, -1)
                       | Some verbs \<Rightarrow>
                           (case afb_apis_add (so_apis s1) prefix (length (so_descs s1)) (se_realloc env path) of
                              (apis, rc) \<Rightarrow>
                                if rc < 0 then (binding_error s1, -1)
                                else (s1\<lparr>so_apis := apis,
                                         so_descs := so_descs s1 @ [\<lparr>sd_binding = b, sd_prefix = prefix, sd_verbs = verbs,
                                           sd_apilength = length prefix, sd_handle = (path, lib), sd_service = None\<rparr>]\<rparr>, 0))))"

text \<open>The content of a directory as it is read, \<open>.\<close> and \<open>..\<close> included; \<open>None\<close> is a directory that cannot be opened.\<close>

datatype dirent = DT_DIR string "dirent list option" | DT_REG string | DT_OTHER string

abbreviation PATH_MAX :: nat where "PATH_MAX \<equiv> 4096"

text \<open>The text that a buffer of \<open>PATH_MAX\<close> bytes holds.\<close>

definition buffer_text :: "string \<Rightarrow> string" where
  "buffer_text buf = takeWhile (\<lambda>c. c \<noteq> NUL) buf"

definition is_dot_name :: "string \<Rightarrow> bool" where
  "is_dot_name name \<longleftrightarrow> cat name 0 = CHR ''.'' \<and> (length name = 1 \<or> (cat name 1 = CHR ''.'' \<and> length name = 2))"

fun dirent_name :: "dirent \<Rightarrow> string" where
  "dirent_name (DT_DIR n _) = n"
| "dirent_name (DT_REG n) = n"
| "dirent_name (DT_OTHER n) = n"

definition contains :: "string \<Rightarrow> string \<Rightarrow> bool" where
  "contains s t \<longleftrightarrow> (\<exists>i \<in> set [0..<Suc (length s)]. take (length t) (drop i s) = t)"

text \<open>The loop on the entries of a directory with the rest of \<^verbatim>\<open>adddirs\<close> for the directories among them. The result has the buffer, the
  state and the returned value; \<open>None\<close> is a write out of the buffer.\<close>

fun adddirs_entries :: "'cb so_env \<Rightarrow> dirent list \<Rightarrow> string \<Rightarrow> nat \<Rightarrow> 'cb so_state \<Rightarrow> (string \<times> 'cb so_state \<times> int) option" where
  "adddirs_entries env [] buf end s = Some (buf, s\<lparr>so_dirs := so_dirs s - 1\<rparr>, 0)"
| "adddirs_entries env (d # ds) buf end s =
     (let name = dirent_name d; len = length name in
      if len + end \<ge> PATH_MAX then adddirs_entries env ds buf end s
      else do {
        buf1 \<leftarrow> memcpy buf end (name @ [NUL]);
        case d of
          DT_DIR n sub \<Rightarrow>
            if is_dot_name n then adddirs_entries env ds buf1 end s
            else (case sub of
                None \<Rightarrow> adddirs_entries env ds buf1 end s
              | Some es \<Rightarrow> do {
                  buf2 \<leftarrow> (if end + len \<noteq> 0 then memcpy buf1 (end + len) ''/'' else Some buf1);
                  (buf3, s1, rc) \<leftarrow> adddirs_entries env es buf2 (if end + len \<noteq> 0 then end + len + 1 else 0) (s\<lparr>so_dirs := so_dirs s + 1\<rparr>);
                  adddirs_entries env ds buf3 end s1 })
        | DT_REG n \<Rightarrow>
            if \<not> contains n ''.so'' then adddirs_entries env ds buf1 end s
            else (case afb_api_so_add_binding env (buffer_text buf1) s of
                (s1, rc) \<Rightarrow> if rc < 0 then Some (buf1, s1, -1) else adddirs_entries env ds buf1 end s1)
        | DT_OTHER n \<Rightarrow> adddirs_entries env ds buf1 end s })"

definition adddirs :: "'cb so_env \<Rightarrow> dirent list option \<Rightarrow> string \<Rightarrow> nat \<Rightarrow> 'cb so_state \<Rightarrow> (string \<times> 'cb so_state \<times> int) option" where
  "adddirs env dir buf end s =
     (case dir of
        None \<Rightarrow> Some (buf, s, -1)
      | Some es \<Rightarrow> do {
          buf1 \<leftarrow> (if end \<noteq> 0 then memcpy buf end ''/'' else Some buf);
          adddirs_entries env es buf1 (if end \<noteq> 0 then end + 1 else 0) (s\<lparr>so_dirs := so_dirs s + 1\<rparr>) })"

definition afb_api_so_add_directory :: "'cb so_env \<Rightarrow> (string \<Rightarrow> dirent list option) \<Rightarrow> string \<Rightarrow> 'cb so_state \<Rightarrow> ('cb so_state \<times> int) option" where
  "afb_api_so_add_directory env opendir path s =
     (if length path \<ge> PATH_MAX then Some (s, -1)
      else do {
        buf \<leftarrow> memcpy (replicate PATH_MAX (CHR ''?'')) 0 (path @ [NUL]);
        (_, s1, rc) \<leftarrow> adddirs env (opendir (buffer_text buf)) buf (length path) s;
        Some (s1, rc) })"

text \<open>\<open>stat\<close> tells that a path is a directory, or is not, or that it is not there.\<close>

definition afb_api_so_add_path ::
  "'cb so_env \<Rightarrow> (string \<Rightarrow> bool option) \<Rightarrow> (string \<Rightarrow> dirent list option) \<Rightarrow> string \<Rightarrow> 'cb so_state \<Rightarrow> ('cb so_state \<times> int) option" where
  "afb_api_so_add_path env stat opendir path s =
     (case stat path of
        None \<Rightarrow> Some (s, -1)
      | Some True \<Rightarrow> afb_api_so_add_directory env opendir path s
      | Some False \<Rightarrow> if contains path ''.so'' then Some (afb_api_so_add_binding env path s) else Some (s, 0))"

text \<open>\<^verbatim>\<open>strsep\<close>: the text up to the separator and what follows it, if there is one.\<close>

definition strsep :: "char \<Rightarrow> string \<Rightarrow> string \<times> string option" where
  "strsep c s = (takeWhile (\<lambda>d. d \<noteq> c) s, case dropWhile (\<lambda>d. d \<noteq> c) s of [] \<Rightarrow> None | _ # t \<Rightarrow> Some t)"

lemma strsep_shorter: "strsep c s = (p, Some t) \<Longrightarrow> length t < length s"
proof -
  assume "strsep c s = (p, Some t)"
  then have "dropWhile (\<lambda>d. d \<noteq> c) s = hd (dropWhile (\<lambda>d. d \<noteq> c) s) # t" by (auto simp: strsep_def split: list.splits)
  then have "Suc (length t) \<le> length (dropWhile (\<lambda>d. d \<noteq> c) s)" by (metis length_Cons order_refl)
  also have "\<dots> \<le> length s" by (rule length_dropWhile_le)
  finally show ?thesis by simp
qed

function afb_api_so_add_pathset ::
  "'cb so_env \<Rightarrow> (string \<Rightarrow> bool option) \<Rightarrow> (string \<Rightarrow> dirent list option) \<Rightarrow> string \<Rightarrow> 'cb so_state \<Rightarrow> ('cb so_state \<times> int) option" where
  "afb_api_so_add_pathset env stat opendir ps s =
     (case strsep (CHR '':'') ps of
        (p, rest) \<Rightarrow>
          (case afb_api_so_add_path env stat opendir p s of
             None \<Rightarrow> None
           | Some (s1, rc) \<Rightarrow>
               if rc < 0 then Some (s1, -1)
               else (case rest of None \<Rightarrow> Some (s1, 0) | Some ps' \<Rightarrow> afb_api_so_add_pathset env stat opendir ps' s1)))"
  by pat_completeness auto
termination
  by (relation "measure (\<lambda>(env, stat, opendir, ps, s). length ps)") (auto dest!: strsep_shorter [OF sym])

section \<open>What the checks allow\<close>

lemmas call_check_simps = call_check_def afb_context_check_def afb_context_close_def afb_context_refresh_def afb_context_check_loa_def
  afb_context_change_loa_def Let_def

definition needs_token :: "32 word \<Rightarrow> bool" where
  "needs_token stag \<longleftrightarrow> (\<exists>f \<in> {AFB_SESSION_CREATE, AFB_SESSION_CLOSE, AFB_SESSION_RENEW, AFB_SESSION_CHECK, AFB_SESSION_LOA_GE, AFB_SESSION_LOA_LE}. has_flag stag f)"

definition verb_allowed :: "32 word \<Rightarrow> bool \<Rightarrow> 32 word \<Rightarrow> bool" where
  "verb_allowed stag validated loa \<longleftrightarrow> (needs_token stag \<longrightarrow> validated)
     \<and> (has_flag stag AFB_SESSION_CREATE \<longrightarrow> loa = 0)
     \<and> (has_flag stag AFB_SESSION_LOA_GE \<longrightarrow> stag_loa stag \<le> loa)
     \<and> (has_flag stag AFB_SESSION_LOA_LE \<longrightarrow> loa \<le> stag_loa stag)"

lemma has_flag_or: "has_flag stag (or f g) \<longleftrightarrow> has_flag stag f \<or> has_flag stag g"
  by (auto simp: has_flag_def bit_eq_iff bit_simps)

lemma has_flag_eq: "has_flag stag AFB_SESSION_LOA_EQ \<longleftrightarrow> has_flag stag AFB_SESSION_LOA_GE \<or> has_flag stag AFB_SESSION_LOA_LE"
  using has_flag_or [of stag AFB_SESSION_LOA_GE AFB_SESSION_LOA_LE] by simp

lemma needs_token_test:
  "has_flag stag 63 \<longleftrightarrow> needs_token stag" "has_flag stag 5 \<longleftrightarrow> has_flag stag AFB_SESSION_CREATE \<or> has_flag stag AFB_SESSION_RENEW"
proof -
  have "has_flag stag (or (or (or (or AFB_SESSION_CREATE AFB_SESSION_CLOSE) AFB_SESSION_RENEW) AFB_SESSION_CHECK) AFB_SESSION_LOA_EQ) \<longleftrightarrow> needs_token stag"
    by (simp only: has_flag_or has_flag_eq) (auto simp: needs_token_def)
  then show "has_flag stag 63 \<longleftrightarrow> needs_token stag" by simp
  show "has_flag stag 5 \<longleftrightarrow> has_flag stag AFB_SESSION_CREATE \<or> has_flag stag AFB_SESSION_RENEW"
    using has_flag_or [of stag AFB_SESSION_CREATE AFB_SESSION_RENEW] by simp
qed

lemma level_at_most:
  "stag_loa stag + 1 \<noteq> 0" "stag_loa stag + 1 \<le> loa \<longleftrightarrow> stag_loa stag < loa"
proof -
  have "unat (stag_loa stag) \<le> 7" using word_and_le1 [of "drop_bit 6 stag" 7] by (simp add: stag_loa_def word_le_nat_alt)
  then have u: "unat (stag_loa stag + 1) = Suc (unat (stag_loa stag))" by (simp add: unat_word_ariths)
  then show "stag_loa stag + 1 \<noteq> 0" by (metis nat.distinct(1) unat_0)
  show "stag_loa stag + 1 \<le> loa \<longleftrightarrow> stag_loa stag < loa" unfolding word_le_nat_alt word_less_nat_alt u by linarith
qed

text \<open>The context after a check, as one record: which changes are pending at the end of the request.\<close>

lemma call_check_spec:
  assumes "\<not> ac_closing x" "\<not> ac_refreshing x" "\<not> ac_loa_changing x" "\<not> ac_loa_changed x"
  shows "\<exists>y r. call_check x stag = Some (y, r) \<and> ac_session y = ac_session x \<and> ac_loa_in y = ac_loa_in x
    \<and> ac_refreshed y = ac_refreshed x \<and> ac_closed y = ac_closed x \<and> ac_validated y = ac_validated x
    \<and> (r = None \<longleftrightarrow> verb_allowed stag (ac_validated x) (ucast (ac_loa_in x)))
    \<and> (r = None \<longrightarrow> (ac_closing y \<longleftrightarrow> has_flag stag AFB_SESSION_CLOSE)
        \<and> (ac_refreshing y \<longleftrightarrow> has_flag stag AFB_SESSION_CREATE \<or> has_flag stag AFB_SESSION_RENEW)
        \<and> \<not> ac_loa_changed y
        \<and> (\<not> has_flag stag AFB_SESSION_CLOSE \<longrightarrow> (ac_loa_changing y \<longleftrightarrow> has_flag stag AFB_SESSION_CREATE)
            \<and> (has_flag stag AFB_SESSION_CREATE \<longrightarrow> ac_loa_out y = 1)))
    \<and> (needs_token stag \<and> \<not> ac_validated x \<longrightarrow> ac_closing y)"
proof -
  have zero: "(1 :: 32 word) \<le> ucast (ac_loa_in x) \<longleftrightarrow> ucast (ac_loa_in x) \<noteq> (0 :: 32 word)"
    using word_less_1 [of "ucast (ac_loa_in x) :: 32 word"] by (simp add: linorder_not_less [symmetric])
  show ?thesis
  proof (cases "needs_token stag \<longrightarrow> ac_validated x")
    case False
    then show ?thesis using assms by (simp add: call_check_simps needs_token_test verb_allowed_def)
  next
    case True
    have valid: "ac_validated x" if "has_flag stag AFB_SESSION_CREATE \<or> has_flag stag AFB_SESSION_CLOSE \<or> has_flag stag AFB_SESSION_RENEW"
      using True that by (auto simp: needs_token_def)
    note simps = call_check_simps needs_token_test verb_allowed_def zero level_at_most
    show ?thesis
      by (cases "has_flag stag AFB_SESSION_CREATE"; cases "has_flag stag AFB_SESSION_CLOSE"; cases "has_flag stag AFB_SESSION_RENEW")
        (use True valid assms in \<open>auto simp: simps\<close>)
  qed
qed

text \<open>What the end of a request makes of the session that it holds with others.\<close>

lemma disconnect_effect:
  assumes "session_inv s" "ss_heap s a = Some c" "1 < cx_refcount c" "ac_session y = Some a" "\<not> ac_refreshed y" "\<not> ac_loa_changed y" "\<not> ac_closed y"
  shows "\<exists>s' y' c'. afb_context_disconnect s y now nu = Some (s', y') \<and> ss_heap s' a = Some c'
    \<and> (if ac_closing y then cx_uuid c' = []
       else cx_uuid c' = cx_uuid c \<and> cx_loa c' = (if ac_loa_changing y then ucast (ac_loa_out y) else cx_loa c)
         \<and> cx_token c' = (if ac_refreshing y then nu else cx_token c))"
proof -
  have len: "length (cx_values c) = ss_apicount s" using session_invD(3) [OF assms(1,2)] by (simp add: ctx_ok_def)
  define s1 where "s1 = (if ac_refreshing y then the (ctxTokenNew s a now nu) else s)"
  define s2 where "s2 = (if ac_loa_changing y then the (ctxClientSetLOA s1 a (ucast (ac_loa_out y))) else s1)"
  obtain c1 where c1: "ss_heap s1 a = Some c1" "cx_refcount c1 = cx_refcount c" "cx_values c1 = cx_values c" "cx_uuid c1 = cx_uuid c" "cx_loa c1 = cx_loa c"
    "cx_token c1 = (if ac_refreshing y then nu else cx_token c)" "ss_apicount s1 = ss_apicount s" "ac_refreshing y \<Longrightarrow> ctxTokenNew s a now nu = Some s1"
    using assms(2) by (cases "ac_refreshing y") (auto simp: s1_def ctxTokenNew_def put_ctx_def Let_def)
  obtain c2 where c2: "ss_heap s2 a = Some c2" "cx_refcount c2 = cx_refcount c" "cx_values c2 = cx_values c" "cx_uuid c2 = cx_uuid c"
    "cx_loa c2 = (if ac_loa_changing y then ucast (ac_loa_out y) else cx_loa c)" "cx_token c2 = cx_token c1" "ss_apicount s2 = ss_apicount s"
    "ac_loa_changing y \<Longrightarrow> ctxClientSetLOA s1 a (ucast (ac_loa_out y)) = Some s2"
    using c1 by (cases "ac_loa_changing y") (auto simp: s2_def ctxClientSetLOA_def put_ctx_def)
  have close: "ctxClientClose s2 a = Some (if cx_uuid c2 = [] then s2 else upd_ctx s2 a (closed (ss_apicount s) c2) (ctx_release c2))"
    using ctxClientClose_eq [OF c2(1)] c2 len assms(3) by (simp add: Let_def)
  define s3 where "s3 = (if ac_closing y then the (ctxClientClose s2 a) else s2)"
  obtain c3 where c3: "ss_heap s3 a = Some c3" "cx_refcount c3 = cx_refcount c" "if ac_closing y then cx_uuid c3 = [] else c3 = c2"
    "ac_closing y \<Longrightarrow> ctxClientClose s2 a = Some s3"
    using close c2(1,2) by (cases "ac_closing y"; cases "cx_uuid c2 = []") (auto simp: s3_def)
  have "ctxClientUnref s3 (Some a) = Some (upd_ctx s3 a (c3\<lparr>cx_refcount := cx_refcount c3 - 1\<rparr>) [])"
    using ctxClientUnref_eq [OF c3(1)] c3(2) assms(3) by (simp add: Let_def)
  moreover have "map_option fst (afb_context_disconnect s y now nu) = ctxClientUnref s3 (Some a)"
  proof -
    have "\<not> ac_refreshing y \<Longrightarrow> s1 = s" "\<not> ac_loa_changing y \<Longrightarrow> s2 = s1" "\<not> ac_closing y \<Longrightarrow> s3 = s2" by (simp_all add: s1_def s2_def s3_def)
    then show ?thesis unfolding disconnect_run(1) [OF assms(4)] pending_def using c1(8) c2(8) c3(4) assms(5-7)
      by (cases "ac_refreshing y"; cases "ac_loa_changing y"; cases "ac_closing y") simp_all
  qed
  ultimately show ?thesis using c1 c2 c3 by (auto split: if_splits)
qed



text \<open>A refused call can close the session all the same: the flag is obeyed before the level is checked.\<close>

lemma refused_call_closes:
  assumes "ac_validated x" "ac_loa_in x = 0"
  shows "\<exists>y. call_check x (or AFB_SESSION_CLOSE (or AFB_SESSION_LOA_GE 128)) = Some (y, Some (''failed'', ''invalid LOA'')) \<and> ac_closing y"
  using assms by (simp add: call_check_simps has_flag_def stag_loa_def)

section \<open>Calls reach a verb\<close>

lemma verb_matches_iff:
  assumes "is_cstring (vb_name v)" "is_cstring strverb" "n \<le> length strverb"
  shows "verb_matches strverb n v \<longleftrightarrow> casekey (vb_name v) = casekey (take n strverb)"
proof -
  have "strncasecmp (vb_name v) strverb n = 0 \<longleftrightarrow> casekey (take n (vb_name v)) = casekey (take n strverb)"
    using assms by (simp add: strncasecmp_def strcasecmp_eq_0 is_cstring_take)
  moreover have "cat (vb_name v) n = NUL \<longleftrightarrow> length (vb_name v) \<le> n" using assms(1) by (rule cat_eq_NUL)
  moreover have "length (vb_name v) = n" if "casekey (vb_name v) = casekey (take n strverb)"
    using arg_cong [OF that, of length] assms(3) by simp
  moreover have "take n (vb_name v) = vb_name v" if "length (vb_name v) \<le> n" using that by simp
  ultimately show ?thesis unfolding verb_matches_def by (metis order_refl)
qed

text \<open>Every call to a binding ends in one way: it names no verb of the binding, up to case, and fails as unknown; or the first such verb does not
  allow it and it fails, and in both cases no job is made; or the verb allows it and its callback is queued as one job in the group of the binding, with the
  configured timeout, or refused by the threads with an error to this request. Nothing else changes in the threads.\<close>

lemma call_has_one_outcome:
  assumes "th_reach allowed waiters th" "\<forall>v \<in> set (sd_verbs desc). is_cstring (vb_name v)" "is_cstring strverb" "n \<le> length strverb"
    and "\<not> ac_closing x" "\<not> ac_refreshing x" "\<not> ac_loa_changing x" "\<not> ac_loa_changed x"
  shows "\<exists>y th' f. call_cb m c to self desc req x strverb n th = Some (y, th', f) \<and>
    (case filter (\<lambda>v. casekey (vb_name v) = casekey (take n strverb)) (sd_verbs desc) of
       [] \<Rightarrow> y = x \<and> th' = th \<and> f = Some (''unknown-verb'', ''verb '' @ take n strverb @ '' unknown within api '' @ sd_prefix desc)
     | v # _ \<Rightarrow>
         if \<not> verb_allowed (vb_session v) (ac_validated x) (ucast (ac_loa_in x)) then th' = th \<and> f \<noteq> None
         else f = None \<and> ((th_accepted th' = add_mset (req, vb_callback v) (th_accepted th) \<and> th_failed th' = th_failed th
                            \<and> (\<exists>b q. th_queue th' = q @ [\<lparr>j_req = (req, vb_callback v), j_timeout = to, j_blocked = b, j_group = Some self\<rparr>]))
              \<or> (th_accepted th' = th_accepted th \<and> (\<exists>info. th_failed th' = th_failed th @ [((req, vb_callback v), info)]))))"
proof -
  let ?p = "\<lambda>v. casekey (vb_name v) = casekey (take n strverb)"
  have idx: "first_index (verb_matches strverb n) (sd_verbs desc) = first_index ?p (sd_verbs desc)"
    by (rule first_index_cong) (use verb_matches_iff assms(2-4) in blast)
  show ?thesis
  proof (cases "first_index ?p (sd_verbs desc)")
    case None
    then have "filter ?p (sd_verbs desc) = []" by (simp add: first_index_None filter_empty_conv)
    with None idx show ?thesis by (simp add: call_cb_def)
  next
    case (Some i)
    let ?v = "sd_verbs desc ! i"
    from first_index_filter [OF Some] obtain vs where vs: "filter ?p (sd_verbs desc) = ?v # vs" by blast
    obtain y r where y: "call_check x (vb_session ?v) = Some (y, r)" "r = None \<longleftrightarrow> verb_allowed (vb_session ?v) (ac_validated x) (ucast (ac_loa_in x))"
      using call_check_spec [of x "vb_session ?v"] assms(5-8) by blast
    obtain th' where th: "afb_thread_call m c (req, vb_callback ?v) to (Some self) th = Some th'"
      using call_inv [OF reach_inv [OF assms(1)]] by blast
    note acc = call_accounts [OF reach_inv [OF assms(1)] th] and last = call_queues [OF th]
    show ?thesis
    proof (cases r)
      case None
      with idx Some y th have "call_cb m c to self desc req x strverb n th = Some (y, th', None)" by (simp add: call_cb_def Let_def)
      with vs y(2) None acc last show ?thesis by auto
    next
      case (Some f)
      with idx \<open>first_index ?p (sd_verbs desc) = Some i\<close> y have "call_cb m c to self desc req x strverb n th = Some (y, th, Some f)"
        by (simp add: call_cb_def Let_def)
      with vs y(2) Some show ?thesis by auto
    qed
  qed
qed

definition demo_desc :: "nat api_so_desc" where
  "demo_desc = \<lparr>sd_binding = \<lparr>bd_type = AFB_BINDING_VERSION_1, bd_info = Some ''demo'', bd_prefix = Some ''demo'', bd_verbs = Some []\<rparr>, sd_prefix = ''demo'',
     sd_verbs = [\<lparr>vb_name = ''ping'', vb_session = 0, vb_callback = 5\<rparr>], sd_apilength = 4,
     sd_handle = (''/lib/demo.so'', \<lparr>lb_register = None, lb_init = False, lb_event = False\<rparr>), sd_service = None\<rparr>"

definition demo_context :: afb_context where
  "demo_context = \<lparr>ac_session = None, ac_created = False, ac_validated = False, ac_invalidated = False, ac_refreshing = False, ac_refreshed = False,
     ac_closing = False, ac_closed = False, ac_loa_in = 0, ac_loa_out = 0, ac_loa_changing = False, ac_loa_changed = False, ac_api_index = 0\<rparr>"

definition demo_pool :: "(nat \<times> nat) threads" where
  "demo_pool = \<lparr>th_queue = [], th_workers = [Ready], th_allowed = 2, th_remains = 3, th_stop = False, th_signals = 0, th_done = [], th_failed = []\<rparr>"

lemma demo_pool_reach: "th_reach 2 3 demo_pool"
  by (rule th_reach.init [of 2 "[True]" 3 _ 0]) (simp add: afb_thread_init_def demo_pool_def Let_def start_one_thread_def th_started_def)

section \<open>Loading directories\<close>

text \<open>The loading on the paths themselves, without the shared buffer: the shared objects below a directory, in the order of their reading; the first
  that fails ends the directory it is in, not the ones above.\<close>

fun load_entries :: "'cb so_env \<Rightarrow> string \<Rightarrow> dirent list \<Rightarrow> 'cb so_state \<Rightarrow> 'cb so_state \<times> int" where
  "load_entries env p [] s = (s, 0)"
| "load_entries env p (d # ds) s =
     (if PATH_MAX \<le> length (p @ dirent_name d) then load_entries env p ds s
      else case d of
        DT_DIR n (Some es) \<Rightarrow>
          if is_dot_name n then load_entries env p ds s
          else load_entries env p ds (fst (load_entries env (if p @ n = [] then [] else p @ n @ ''/'') es s))
      | DT_REG n \<Rightarrow>
          if contains n ''.so''
          then (case afb_api_so_add_binding env (p @ n) s of (s1, rc) \<Rightarrow> if rc < 0 then (s1, -1) else load_entries env p ds s1)
          else load_entries env p ds s
      | _ \<Rightarrow> load_entries env p ds s)"

fun dirent_ok :: "dirent \<Rightarrow> bool" where
  "dirent_ok (DT_DIR n None) \<longleftrightarrow> is_cstring n"
| "dirent_ok (DT_DIR n (Some es)) \<longleftrightarrow> is_cstring n \<and> list_all dirent_ok es"
| "dirent_ok (DT_REG n) \<longleftrightarrow> is_cstring n"
| "dirent_ok (DT_OTHER n) \<longleftrightarrow> is_cstring n"

text \<open>The state without the count of open directories.\<close>

definition no_dirs :: "'cb so_state \<Rightarrow> 'cb so_state" where
  "no_dirs s = s\<lparr>so_dirs := 0\<rparr>"

lemma no_dirs_simps [simp]: "no_dirs (s\<lparr>so_dirs := n\<rparr>) = no_dirs s" "no_dirs (no_dirs s) = no_dirs s"
  by (simp_all add: no_dirs_def)

lemma add_binding_no_dirs:
  "afb_api_so_add_binding env path (no_dirs s) = (case afb_api_so_add_binding env path s of (s1, rc) \<Rightarrow> (no_dirs s1, rc))"
  by (auto simp add: afb_api_so_add_binding_def no_dirs_def binding_error_def Let_def split: option.splits prod.splits)

lemma buffer_text_written:
  assumes "length p + length n < length buf" "take (length p) buf = p" "is_cstring p" "is_cstring n"
  shows "\<exists>buf1. memcpy buf (length p) (n @ [NUL]) = Some buf1 \<and> length buf1 = length buf \<and> take (length p + length n) buf1 = p @ n
    \<and> buffer_text buf1 = p @ n"
proof -
  let ?buf1 = "take (length p) buf @ (n @ [NUL]) @ drop (length p + length (n @ [NUL])) buf"
  have m: "memcpy buf (length p) (n @ [NUL]) = Some ?buf1" using assms(1) by (simp add: memcpy_def)
  have "buffer_text ?buf1 = p @ n"
    unfolding buffer_text_def assms(2) using assms(3,4) by (auto simp: is_cstring_def takeWhile_append)
  then show ?thesis using m assms(1,2) by simp
qed

lemma dirent_ok_name: "dirent_ok d \<Longrightarrow> is_cstring (dirent_name d)"
  by (cases d rule: dirent_ok.cases) auto

text \<open>The entries of a directory, read with its path in the buffer up to \<open>end\<close>.\<close>

definition entries_ok :: "'cb so_env \<Rightarrow> string \<Rightarrow> dirent list \<Rightarrow> bool" where
  "entries_ok env p es \<longleftrightarrow> (\<forall>buf s. length buf = PATH_MAX \<and> take (length p) buf = p \<longrightarrow>
     (\<exists>buf' s'. adddirs_entries env es buf (length p) s = Some (buf', s', snd (load_entries env p es (no_dirs s)))
        \<and> no_dirs s' = fst (load_entries env p es (no_dirs s)) \<and> length buf' = PATH_MAX \<and> take (length p) buf' = p))"

lemma take_prefix_eq: "take (length p + k) xs = p @ q \<Longrightarrow> take (length p) xs = p"
  by (metis append_eq_conv_conj take_take min.absorb1 le_add1)

lemma entries_okD:
  assumes "entries_ok env p es" "length buf = PATH_MAX" "take (length p) buf = p"
  obtains buf' s' where "adddirs_entries env es buf (length p) s = Some (buf', s', snd (load_entries env p es (no_dirs s)))"
    "no_dirs s' = fst (load_entries env p es (no_dirs s))" "length buf' = PATH_MAX" "take (length p) buf' = p"
  using assms unfolding entries_ok_def by blast

text \<open>A directory among the entries: its path gets a slash, its entries are read, and the buffer starts with the path of the parent again.\<close>

lemma subdirectory_eq:
  assumes "entries_ok env (if p @ n = [] then [] else p @ n @ ''/'') es" "length buf1 = PATH_MAX" "take (length p + length n) buf1 = p @ n"
    "length p + length n < PATH_MAX"
  shows "\<exists>buf2 buf3 s1 rc. (if length p + length n \<noteq> 0 then memcpy buf1 (length p + length n) ''/'' else Some buf1) = Some buf2
    \<and> adddirs_entries env es buf2 (if length p + length n \<noteq> 0 then length p + length n + 1 else 0) s = Some (buf3, s1, rc)
    \<and> no_dirs s1 = fst (load_entries env (if p @ n = [] then [] else p @ n @ ''/'') es (no_dirs s))
    \<and> rc = snd (load_entries env (if p @ n = [] then [] else p @ n @ ''/'') es (no_dirs s)) \<and> length buf3 = PATH_MAX \<and> take (length p) buf3 = p"
proof (cases "p @ n = []")
  case True
  with assms(1) have "entries_ok env [] es" by simp
  from entries_okD [OF this, of buf1 s] assms(2) obtain buf3 s1 where
    "adddirs_entries env es buf1 0 s = Some (buf3, s1, snd (load_entries env [] es (no_dirs s)))"
    "no_dirs s1 = fst (load_entries env [] es (no_dirs s))" "length buf3 = PATH_MAX" by auto
  with True show ?thesis by auto
next
  case False
  let ?q = "p @ n @ ''/''"
  let ?buf2 = "take (length p + length n) buf1 @ ''/'' @ drop (length p + length n + 1) buf1"
  have m: "memcpy buf1 (length p + length n) ''/'' = Some ?buf2" using assms(2,4) by (simp add: memcpy_def)
  have l: "length ?buf2 = PATH_MAX" "take (length ?q) ?buf2 = ?q" using assms(2-4) by simp_all
  have e: "entries_ok env ?q es" using assms(1) False by auto
  obtain buf3 s1 where
    r: "adddirs_entries env es ?buf2 (length ?q) s = Some (buf3, s1, snd (load_entries env ?q es (no_dirs s)))"
      "no_dirs s1 = fst (load_entries env ?q es (no_dirs s))" "length buf3 = PATH_MAX" "take (length ?q) buf3 = ?q"
    by (rule entries_okD [OF e l])
  have "take (length p) buf3 = p" using take_prefix_eq [of p "length (n @ ''/'')" buf3 "n @ ''/''"] r(4) by simp
  with m r False show ?thesis by auto
qed

lemma adddirs_entries_eq:
  "is_cstring p \<Longrightarrow> length p \<le> PATH_MAX \<Longrightarrow> list_all dirent_ok es \<Longrightarrow> entries_ok env p es"
proof (induction es arbitrary: p rule: measure_induct_rule [of "size_list size"])
  case (less es)
  show ?case
  proof (cases es)
    case Nil
    then show ?thesis by (simp add: entries_ok_def)
  next
    case (Cons d ds)
    let ?n = "dirent_name d"
    have ok: "is_cstring ?n" "dirent_ok d" "list_all dirent_ok ds" using less.prems Cons dirent_ok_name by auto
    have ds: "entries_ok env p ds" using less.IH [of ds p] less.prems Cons ok by simp
    show ?thesis unfolding entries_ok_def
    proof (intro allI impI, elim conjE)
      fix buf and s :: "'a so_state"
      assume buf: "length buf = PATH_MAX" "take (length p) buf = p"
      let ?goal = "\<lambda>s0 es buf s. \<exists>buf' s'. adddirs_entries env es buf (length p) s = Some (buf', s', snd (load_entries env p es s0))
        \<and> no_dirs s' = fst (load_entries env p es s0) \<and> length buf' = PATH_MAX \<and> take (length p) buf' = p"
      have rest: "?goal (no_dirs u) ds b u" if "length b = PATH_MAX" "take (length p) b = p" for b u
        using entries_okD [OF ds that, of u] by blast
      show "?goal (no_dirs s) es buf s"
      proof (cases "PATH_MAX \<le> length (p @ ?n)")
        case True
        then show ?thesis using rest [OF buf, of s] Cons by (simp add: add.commute Let_def)
      next
        case False
        from buffer_text_written [of p ?n buf] buf less.prems(1) ok(1) False obtain buf1 where
          w: "memcpy buf (length p) (?n @ [NUL]) = Some buf1" "length buf1 = PATH_MAX" "take (length p + length ?n) buf1 = p @ ?n" "buffer_text buf1 = p @ ?n"
          by auto
        have p1: "take (length p) buf1 = p" by (rule take_prefix_eq [OF w(3)])
        show ?thesis
        proof (cases d rule: dirent_ok.cases)
          case (1 n)
          then show ?thesis using rest [OF w(2) p1, of s] w(1) False Cons by (simp add: add.commute Let_def)
        next
          case (2 n sub)
          show ?thesis
          proof (cases "is_dot_name n")
            case True
            then show ?thesis using rest [OF w(2) p1, of s] w(1) False Cons 2 by (simp add: add.commute Let_def)
          next
            case dir: False
            have "entries_ok env (if p @ n = [] then [] else p @ n @ ''/'') sub"
              by (rule less.IH) (use Cons 2 less.prems ok False in \<open>auto simp: NUL_def\<close>)
            from subdirectory_eq [OF this w(2), of "s\<lparr>so_dirs := so_dirs s + 1\<rparr>"] w(3) 2 False obtain buf2 buf3 s1 rc where
              sub: "(if length p + length n \<noteq> 0 then memcpy buf1 (length p + length n) ''/'' else Some buf1) = Some buf2"
                "adddirs_entries env sub buf2 (if length p + length n \<noteq> 0 then length p + length n + 1 else 0) (s\<lparr>so_dirs := so_dirs s + 1\<rparr>) = Some (buf3, s1, rc)"
                "no_dirs s1 = fst (load_entries env (if p @ n = [] then [] else p @ n @ ''/'') sub (no_dirs s))" "length buf3 = PATH_MAX" "take (length p) buf3 = p"
              by auto
            then show ?thesis using rest [OF sub(4,5), of s1] w(1) False Cons 2 dir by (simp add: add.commute Let_def cong: if_cong)
          qed
        next
          case (3 n)
          show ?thesis
          proof (cases "contains n ''.so''")
            case so: True
            obtain s1 rc where r: "afb_api_so_add_binding env (p @ n) s = (s1, rc)" by (cases "afb_api_so_add_binding env (p @ n) s")
            with add_binding_no_dirs [of env "p @ n" s] have "afb_api_so_add_binding env (p @ n) (no_dirs s) = (no_dirs s1, rc)" by simp
            then show ?thesis using rest [OF w(2) p1, of s1] w p1 False Cons 3 so r by (simp add: add.commute Let_def)
          next
            case no: False
            then show ?thesis using rest [OF w(2) p1, of s] w(1) False Cons 3 by (simp add: add.commute Let_def)
          qed
        next
          case (4 n)
          then show ?thesis using rest [OF w(2) p1, of s] w(1) False Cons by (simp add: add.commute Let_def)
        qed
      qed
    qed
  qed
qed

section \<open>The paths of bindings\<close>

definition load_directory :: "'cb so_env \<Rightarrow> (string \<Rightarrow> dirent list option) \<Rightarrow> string \<Rightarrow> 'cb so_state \<Rightarrow> 'cb so_state \<times> int" where
  "load_directory env opendir path s =
     (if PATH_MAX \<le> length path then (s, -1)
      else case opendir path of None \<Rightarrow> (s, -1) | Some es \<Rightarrow> load_entries env (if path = [] then [] else path @ ''/'') es s)"

definition load_path :: "'cb so_env \<Rightarrow> (string \<Rightarrow> bool option) \<Rightarrow> (string \<Rightarrow> dirent list option) \<Rightarrow> string \<Rightarrow> 'cb so_state \<Rightarrow> 'cb so_state \<times> int" where
  "load_path env stat opendir path s =
     (case stat path of
        None \<Rightarrow> (s, -1)
      | Some True \<Rightarrow> load_directory env opendir path s
      | Some False \<Rightarrow> if contains path ''.so'' then afb_api_so_add_binding env path s else (s, 0))"

fun load_paths :: "'cb so_env \<Rightarrow> (string \<Rightarrow> bool option) \<Rightarrow> (string \<Rightarrow> dirent list option) \<Rightarrow> string list \<Rightarrow> 'cb so_state \<Rightarrow> 'cb so_state \<times> int" where
  "load_paths env stat opendir [] s = (s, 0)"
| "load_paths env stat opendir (p # ps) s =
     (case load_path env stat opendir p s of (s1, rc) \<Rightarrow> if rc < 0 then (s1, -1) else load_paths env stat opendir ps s1)"

fun join_paths :: "string list \<Rightarrow> string" where
  "join_paths [] = []"
| "join_paths [p] = p"
| "join_paths (p # ps) = p @ '':'' @ join_paths ps"

lemma add_directory_eq:
  assumes "is_cstring path" "\<And>p es. opendir p = Some es \<Longrightarrow> list_all dirent_ok es"
  shows "\<exists>s'. afb_api_so_add_directory env opendir path s = Some (s', snd (load_directory env opendir path (no_dirs s)))
    \<and> no_dirs s' = fst (load_directory env opendir path (no_dirs s))"
proof (cases "PATH_MAX \<le> length path")
  case True
  then show ?thesis by (simp add: afb_api_so_add_directory_def load_directory_def)
next
  case False
  let ?buf0 = "replicate PATH_MAX (CHR ''?'')"
  from buffer_text_written [of "[]" path ?buf0] False assms(1) obtain buf where
    w: "memcpy ?buf0 0 (path @ [NUL]) = Some buf" "length buf = PATH_MAX" "take (length path) buf = path" "buffer_text buf = path" by auto
  show ?thesis
  proof (cases "opendir path")
    case None
    with w False show ?thesis by (simp add: afb_api_so_add_directory_def load_directory_def adddirs_def)
  next
    case (Some es)
    have "entries_ok env (if path @ [] = [] then [] else path @ [] @ ''/'') es"
      by (rule adddirs_entries_eq) (use assms False Some in \<open>auto simp: NUL_def\<close>)
    from subdirectory_eq [OF this w(2), of "s\<lparr>so_dirs := so_dirs s + 1\<rparr>"] w(3) False obtain buf2 buf3 s1 rc where
      "(if length path \<noteq> 0 then memcpy buf (length path) ''/'' else Some buf) = Some buf2"
      "adddirs_entries env es buf2 (if length path \<noteq> 0 then length path + 1 else 0) (s\<lparr>so_dirs := so_dirs s + 1\<rparr>) = Some (buf3, s1, rc)"
      "no_dirs s1 = fst (load_entries env (if path = [] then [] else path @ ''/'') es (no_dirs s))"
      "rc = snd (load_entries env (if path = [] then [] else path @ ''/'') es (no_dirs s))"
      by (auto cong: if_cong)
    with w False Some show ?thesis by (auto simp: afb_api_so_add_directory_def load_directory_def adddirs_def)
  qed
qed

lemma add_path_eq:
  assumes "is_cstring path" "\<And>p es. opendir p = Some es \<Longrightarrow> list_all dirent_ok es"
  shows "\<exists>s'. afb_api_so_add_path env stat opendir path s = Some (s', snd (load_path env stat opendir path (no_dirs s)))
    \<and> no_dirs s' = fst (load_path env stat opendir path (no_dirs s))"
  using add_directory_eq [where env = env and s = s, OF assms] add_binding_no_dirs [of env path s]
  by (auto simp: afb_api_so_add_path_def load_path_def split: option.splits bool.splits prod.splits)

lemma strsep_join:
  assumes "CHR '':'' \<notin> set p"
  shows "strsep (CHR '':'') (join_paths (p # ps)) = (p, if ps = [] then None else Some (join_paths ps))"
proof -
  have nil: "dropWhile (\<lambda>d. d \<noteq> CHR '':'') p = []" "takeWhile (\<lambda>d. d \<noteq> CHR '':'') p = p"
    using assms by (auto simp: dropWhile_eq_Nil_conv takeWhile_eq_all_conv)
  have cons: "takeWhile (\<lambda>d. d \<noteq> CHR '':'') (p @ '':'' @ t) = p" "dropWhile (\<lambda>d. d \<noteq> CHR '':'') (p @ '':'' @ t) = '':'' @ t" for t
    using assms by (subst takeWhile_append2, auto) (subst dropWhile_append2, auto)
  show ?thesis
  proof (cases ps)
    case Nil
    show ?thesis unfolding Nil join_paths.simps strsep_def nil by simp
  next
    case (Cons q qs)
    show ?thesis unfolding Cons join_paths.simps strsep_def cons by simp
  qed
qed

text \<open>The path set of the bindings: for any list of paths with no colon, joined by colons, the loading ends, never writes out of its path buffer however
  deep the directories and however long the names are, and loads what a walk on the paths themselves loads: the files whose name holds .so, in the order of the
  reading of the directories, directories inside of directories included and entries whose path does not fit in the buffer left out; the first binding that fails
  ends its directory, and the loading when it is at the top.\<close>

lemma pathset_loads_bindings:
  assumes "\<forall>p es. opendir p = Some es \<longrightarrow> list_all dirent_ok es" "paths \<noteq> []" "\<forall>p \<in> set paths. is_cstring p \<and> CHR '':'' \<notin> set p"
  shows "\<exists>s'. afb_api_so_add_pathset env stat opendir (join_paths paths) s = Some (s', snd (load_paths env stat opendir paths (no_dirs s)))
    \<and> no_dirs s' = fst (load_paths env stat opendir paths (no_dirs s))"
  using assms(2,3)
proof (induction paths arbitrary: s)
  case (Cons p ps)
  have "\<exists>s1. afb_api_so_add_path env stat opendir p s = Some (s1, snd (load_path env stat opendir p (no_dirs s)))
    \<and> no_dirs s1 = fst (load_path env stat opendir p (no_dirs s))"
    by (rule add_path_eq) (use Cons.prems assms(1) in auto)
  then obtain s1 rc where p: "afb_api_so_add_path env stat opendir p s = Some (s1, rc)" "load_path env stat opendir p (no_dirs s) = (no_dirs s1, rc)"
    by (metis prod.collapse)
  have sep: "strsep (CHR '':'') (join_paths (p # ps)) = (p, if ps = [] then None else Some (join_paths ps))"
    by (rule strsep_join) (use Cons.prems in simp)
  show ?case
  proof (cases "rc < 0 \<or> ps = []")
    case True
    then show ?thesis by (subst (1) afb_api_so_add_pathset.simps, unfold sep) (use p in auto)
  next
    case False
    with Cons have "\<exists>s'. afb_api_so_add_pathset env stat opendir (join_paths ps) s1 = Some (s', snd (load_paths env stat opendir ps (no_dirs s1)))
      \<and> no_dirs s' = fst (load_paths env stat opendir ps (no_dirs s1))" by simp
    with False p show ?thesis by (subst (1) afb_api_so_add_pathset.simps, unfold sep) auto
  qed
qed simp

definition demo_binding :: "nat afb_binding" where
  "demo_binding = \<lparr>bd_type = AFB_BINDING_VERSION_1, bd_info = Some ''demo'', bd_prefix = Some ''demo'', bd_verbs = Some []\<rparr>"

definition demo_so_env :: "nat so_env" where
  "demo_so_env = \<lparr>se_dlopen = (\<lambda>p. Some \<lparr>lb_register = (if p = ''/lib/bad.so'' then Some None else Some (Some demo_binding)), lb_init = False, lb_event = False\<rparr>),
     se_calloc = (\<lambda>_. True), se_realloc = (\<lambda>_. True)\<rparr>"

definition demo_so_state :: "nat so_state" where
  "demo_so_state = \<lparr>so_descs = [], so_apis = [], so_handles = [], so_dirs = 0, so_timeout = 15\<rparr>"

definition demo_opendir :: "string \<Rightarrow> dirent list option" where
  "demo_opendir p = (if p = ''/lib'' then Some [DT_DIR ''.'' None, DT_REG ''readme'', DT_REG ''a.so'', DT_REG ''bad.so''] else None)"

text \<open>A directory whose binding fails stays open.\<close>

lemma failed_binding_leaks_directory:
  assumes "afb_api_so_add_binding env (p @ n) (s\<lparr>so_dirs := so_dirs s + 1\<rparr>) = (s1, rc)" "rc < 0" "contains n ''.so''" "is_cstring p" "is_cstring n"
    "length p + length n < PATH_MAX" "length buf = PATH_MAX" "take (length p) buf = p"
  shows "\<exists>buf'. adddirs_entries env [DT_REG n] buf (length p) (s\<lparr>so_dirs := so_dirs s + 1\<rparr>) = Some (buf', s1, -1) \<and> so_dirs s1 = so_dirs s + 1"
proof -
  from buffer_text_written [of p n buf] assms obtain buf1 where
    w: "memcpy buf (length p) (n @ [NUL]) = Some buf1" "buffer_text buf1 = p @ n" by auto
  have "so_dirs s1 = so_dirs s + 1"
    using assms(1) by (auto simp: afb_api_so_add_binding_def binding_error_def Let_def split: option.splits if_splits prod.splits)
  then show ?thesis using w assms by (simp add: Let_def add.commute)
qed

text \<open>A binding that cannot be used leaves nothing behind: no api, no description, and its library is closed again.\<close>

lemma add_binding_undone:
  assumes "afb_api_so_add_binding env path s = (s', rc)"
  shows "s' = s \<or> (rc = 0 \<and> (\<exists>d. so_descs s' = so_descs s @ [d] \<and> so_handles s' = sd_handle d # so_handles s \<and> fst (sd_handle d) = path
    \<and> afb_apis_count (so_apis s') = afb_apis_count (so_apis s) + 1 \<and> afb_apis_is_valid_api_name (sd_prefix d)))"
  using assms by (auto simp: afb_api_so_add_binding_def binding_error_def afb_apis_add_def afb_apis_count_def Let_def split: option.splits if_splits prod.splits)

end
