(* ===== verification/Ws_Proto.thy ===== *)
theory Ws_Proto
  imports Context Wsj1
begin

text \<open>
  The serialisation of the protocol between binders, the first part of \<^verbatim>\<open>src/src/afb-api-ws.c\<close>, with the flags of a context as one number, as
  \<^verbatim>\<open>src/src/afb-context.h\<close> lays them out.

  A reader works on the bytes of one received message; \<open>None\<close> is an access outside of them. A reader returns the buffer and, when it succeeds, what it read;
  strings are given as the characters between the length and the final zero. A write buffer is the list of its vectors.
\<close>

unbundle bit_operations_syntax

section \<open>Flags of a context\<close>

definition context_flags :: "afb_context \<Rightarrow> 32 word" where
  "context_flags x = horner_sum of_bool 2
     [ac_created x, ac_validated x, ac_invalidated x, ac_refreshing x, ac_refreshed x, ac_closing x, ac_closed x,
      bit (ac_loa_in x) 0, bit (ac_loa_in x) 1, bit (ac_loa_in x) 2, bit (ac_loa_out x) 0, bit (ac_loa_out x) 1, bit (ac_loa_out x) 2,
      ac_loa_changing x, ac_loa_changed x]"

definition set_context_flags :: "32 word \<Rightarrow> afb_context \<Rightarrow> afb_context" where
  "set_context_flags w x = x\<lparr>ac_created := bit w 0, ac_validated := bit w 1, ac_invalidated := bit w 2, ac_refreshing := bit w 3, ac_refreshed := bit w 4,
     ac_closing := bit w 5, ac_closed := bit w 6, ac_loa_in := ucast (drop_bit 7 w), ac_loa_out := ucast (drop_bit 10 w),
     ac_loa_changing := bit w 13, ac_loa_changed := bit w 14\<rparr>"

section \<open>Reading\<close>

record readbuf =
  rb_data :: "byte list"
  rb_head :: nat

type_synonym 'a reader = "readbuf \<Rightarrow> (readbuf \<times> 'a option) option"

definition rd_bind :: "'a reader \<Rightarrow> ('a \<Rightarrow> 'b reader) \<Rightarrow> 'b reader" where
  "rd_bind f g rb =
     (case f rb of None \<Rightarrow> None | Some (rb', None) \<Rightarrow> Some (rb', None) | Some (rb', Some a) \<Rightarrow> g a rb')"

definition rd_return :: "'a \<Rightarrow> 'a reader" where
  "rd_return a rb = Some (rb, Some a)"

definition rd_fail :: "'a reader" where
  "rd_fail rb = Some (rb, None)"

definition rb_read :: "readbuf \<Rightarrow> nat \<Rightarrow> nat \<Rightarrow> byte list option" where
  "rb_read rb i n = (if i + n \<le> length (rb_data rb) then Some (take n (drop i (rb_data rb))) else None)"

text \<open>The returned pointer is the position in the data.\<close>

definition api_ws_read_get :: "nat \<Rightarrow> nat reader" where
  "api_ws_read_get len rb =
     (if rb_head rb + len > length (rb_data rb) then Some (rb, None) else Some (rb\<lparr>rb_head := rb_head rb + len\<rparr>, Some (rb_head rb)))"

definition le32 :: "32 word \<Rightarrow> byte list" where
  "le32 v = map (\<lambda>i. ucast (drop_bit (8 * i) v)) [0..<4]"

definition le32toh :: "byte list \<Rightarrow> 32 word" where
  "le32toh bs = foldr (\<lambda>b v. or (ucast b) (push_bit 8 v)) bs 0"

definition api_ws_read_uint32 :: "32 word reader" where
  "api_ws_read_uint32 rb =
     (if rb_head rb + 4 > length (rb_data rb) then Some (rb, None)
      else do { bs \<leftarrow> rb_read rb (rb_head rb) 4; Some (rb\<lparr>rb_head := rb_head rb + 4\<rparr>, Some (le32toh bs)) })"

definition api_ws_read_string :: "string reader" where
  "api_ws_read_string =
     rd_bind api_ws_read_uint32 (\<lambda>len.
       if len = 0 then rd_fail
       else rd_bind (api_ws_read_get (unat len)) (\<lambda>value rb.
         do { z \<leftarrow> rb_read rb (rb_head rb - 1) 1;
              if hd z = 0 then do { s \<leftarrow> rb_read rb value (unat len - 1); Some (rb, Some (chars_of s)) } else Some (rb, None) }))"

text \<open>\<open>parse\<close> is \<open>json_tokener_parse\<close>; \<open>None\<close> is the null pointer, which is also what the text null gives.\<close>

definition api_ws_read_object :: "(string \<Rightarrow> 'j option) \<Rightarrow> 'j option reader" where
  "api_ws_read_object parse =
     rd_bind api_ws_read_string (\<lambda>s. let obj = parse (cstr s) in
       if (obj \<noteq> None) = (cstr s \<noteq> ''null'') then rd_return obj else rd_fail)"

section \<open>Writing\<close>

definition WRITEBUF_COUNT_MAX :: nat where "WRITEBUF_COUNT_MAX = 32"

type_synonym writebuf = "byte list list"

definition api_ws_write_put :: "byte list \<Rightarrow> writebuf \<Rightarrow> writebuf option" where
  "api_ws_write_put value wb = (if length wb = WRITEBUF_COUNT_MAX then None else Some (wb @ [value]))"

definition api_ws_write_char :: "char \<Rightarrow> writebuf \<Rightarrow> writebuf option" where
  "api_ws_write_char c wb = (if length wb = WRITEBUF_COUNT_MAX then None else Some (wb @ [bytes_of [c]]))"

definition api_ws_write_uint32 :: "32 word \<Rightarrow> writebuf \<Rightarrow> writebuf option" where
  "api_ws_write_uint32 v wb = (if length wb = WRITEBUF_COUNT_MAX then None else Some (wb @ [le32 v]))"

text \<open>The memory at \<open>value\<close> is the given text; as many characters as the length are read, and one more for a text that is ended by a zero.\<close>

definition api_ws_write_string_nz :: "string \<Rightarrow> nat \<Rightarrow> writebuf \<Rightarrow> writebuf option" where
  "api_ws_write_string_nz value n wb =
     (let len = of_nat n :: 32 word in
      if unat len = n \<and> len + 1 \<noteq> 0
      then do { wb1 \<leftarrow> api_ws_write_uint32 (len + 1) wb; wb2 \<leftarrow> api_ws_write_put (bytes_of (take n value)) wb1; api_ws_write_char NUL wb2 }
      else None)"

definition api_ws_write_string_length :: "string \<Rightarrow> nat \<Rightarrow> writebuf \<Rightarrow> writebuf option" where
  "api_ws_write_string_length value n wb =
     (let len = of_nat (n + 1) :: 32 word in
      if unat len = n + 1 \<and> len \<noteq> 0
      then do { wb1 \<leftarrow> api_ws_write_uint32 len wb; api_ws_write_put (bytes_of (take (n + 1) value)) wb1 }
      else None)"

definition api_ws_write_string :: "string \<Rightarrow> writebuf \<Rightarrow> writebuf option" where
  "api_ws_write_string value wb = api_ws_write_string_length (value @ [NUL]) (length value) wb"

text \<open>\<open>print\<close> is \<open>json_object_to_json_string_ext\<close>; it gives a text for the null pointer too.\<close>

definition api_ws_write_object :: "('j option \<Rightarrow> string option) \<Rightarrow> 'j option \<Rightarrow> writebuf \<Rightarrow> writebuf option" where
  "api_ws_write_object print obj wb = (case print obj of None \<Rightarrow> None | Some s \<Rightarrow> api_ws_write_string s wb)"

section \<open>Flags come back\<close>

lemma bit_context_flags:
  "bit (context_flags x) n \<longleftrightarrow> n < 15 \<and>
     [ac_created x, ac_validated x, ac_invalidated x, ac_refreshing x, ac_refreshed x, ac_closing x, ac_closed x,
      bit (ac_loa_in x) 0, bit (ac_loa_in x) 1, bit (ac_loa_in x) 2, bit (ac_loa_out x) 0, bit (ac_loa_out x) 1, bit (ac_loa_out x) 2,
      ac_loa_changing x, ac_loa_changed x] ! n"
  unfolding context_flags_def bit_horner_sum_bit_iff by (auto simp: possible_bit_def)

lemma three_bits: "n < 3 \<Longrightarrow> n = 0 \<or> n = 1 \<or> n = (2 :: nat)"
  by auto

lemma flags_levels: "ucast (drop_bit 7 (context_flags x)) = ac_loa_in x" "ucast (drop_bit 10 (context_flags x)) = ac_loa_out x"
  by (rule bit_word_eqI; auto simp: bit_simps bit_context_flags dest!: three_bits)+

lemma set_context_flags_of:
  "set_context_flags (context_flags y) x = y\<lparr>ac_session := ac_session x, ac_api_index := ac_api_index x\<rparr>"
  by (cases y) (simp add: set_context_flags_def bit_context_flags flags_levels [of "\<lparr>ac_session = _, ac_created = _, ac_validated = _, ac_invalidated = _,
      ac_refreshing = _, ac_refreshed = _, ac_closing = _, ac_closed = _, ac_loa_in = _, ac_loa_out = _, ac_loa_changing = _, ac_loa_changed = _, ac_api_index = _\<rparr>"])

section \<open>What is written is read\<close>

lemma length_le32 [simp]: "length (le32 v) = 4"
  by (simp add: le32_def)

lemma le32toh_le32: "le32toh (le32 v) = v"
proof -
  have "le32 v = [ucast v, ucast (drop_bit 8 v), ucast (drop_bit 16 v), ucast (drop_bit 24 v)]" by (simp add: le32_def upt_rec)
  then have *: "le32toh (le32 v) = or (ucast (ucast v :: byte)) (push_bit 8 (or (ucast (ucast (drop_bit 8 v) :: byte))
      (push_bit 8 (or (ucast (ucast (drop_bit 16 v) :: byte)) (push_bit 8 (or (ucast (ucast (drop_bit 24 v) :: byte)) (push_bit 8 0)))))))"
    by (simp add: le32toh_def)
  show ?thesis
  proof (rule bit_word_eqI)
    fix n
    assume "n < LENGTH(32)"
    then show "bit (le32toh (le32 v)) n = bit v n" unfolding *
      by (cases "24 \<le> n"; cases "16 \<le> n"; cases "8 \<le> n") (auto simp: bit_simps not_less)
  qed
qed

text \<open>A reader that takes exactly the given bytes, wherever they are in a message, and gives the value.\<close>

definition consumes :: "'a reader \<Rightarrow> byte list \<Rightarrow> 'a \<Rightarrow> bool" where
  "consumes r bs v \<longleftrightarrow> (\<forall>pre post. r \<lparr>rb_data = pre @ bs @ post, rb_head = length pre\<rparr> =
     Some (\<lparr>rb_data = pre @ bs @ post, rb_head = length pre + length bs\<rparr>, Some v))"

lemma consumes_return: "consumes (rd_return v) [] v"
  by (simp add: consumes_def rd_return_def)

lemma consumes_bind:
  assumes "consumes f bs a" "consumes (g a) cs b"
  shows "consumes (rd_bind f g) (bs @ cs) b"
  unfolding consumes_def
proof (intro allI)
  fix pre post
  have "f \<lparr>rb_data = pre @ bs @ cs @ post, rb_head = length pre\<rparr> = Some (\<lparr>rb_data = pre @ bs @ cs @ post, rb_head = length pre + length bs\<rparr>, Some a)"
    using assms(1) unfolding consumes_def by blast
  moreover have "g a \<lparr>rb_data = (pre @ bs) @ cs @ post, rb_head = length (pre @ bs)\<rparr> =
      Some (\<lparr>rb_data = (pre @ bs) @ cs @ post, rb_head = length (pre @ bs) + length cs\<rparr>, Some b)"
    using assms(2) unfolding consumes_def by blast
  ultimately show "rd_bind f g \<lparr>rb_data = pre @ (bs @ cs) @ post, rb_head = length pre\<rparr> =
      Some (\<lparr>rb_data = pre @ (bs @ cs) @ post, rb_head = length pre + length (bs @ cs)\<rparr>, Some b)"
    by (simp add: rd_bind_def add.assoc)
qed

lemma consumes_uint32: "consumes api_ws_read_uint32 (le32 v) v"
  by (simp add: consumes_def api_ws_read_uint32_def rb_read_def le32toh_le32)

text \<open>A string on the wire.\<close>

definition wire_string :: "string \<Rightarrow> byte list" where
  "wire_string s = le32 (of_nat (Suc (length s))) @ bytes_of s @ [0]"

lemma unat_of_nat_32: "n < 2 ^ 32 \<Longrightarrow> unat (of_nat n :: 32 word) = n"
  by (simp add: unsigned_of_nat take_bit_nat_eq_self)

lemma length_bytes_of [simp]: "length (bytes_of s) = length s"
  by (simp add: bytes_of_def)

lemma consumes_string:
  assumes "length s + 1 < 2 ^ 32"
  shows "consumes api_ws_read_string (wire_string s) s"
proof -
  let ?len = "of_nat (Suc (length s)) :: 32 word"
  have len: "unat ?len = Suc (length s)" using assms by (simp add: unat_of_nat_32 del: of_nat_Suc)
  then have "?len \<noteq> 0" by (metis nat.distinct(1) unat_0)
  have "consumes (rd_bind (api_ws_read_get (unat ?len)) (\<lambda>value rb.
         do { z \<leftarrow> rb_read rb (rb_head rb - 1) 1;
              if hd z = 0 then do { s \<leftarrow> rb_read rb value (unat ?len - 1); Some (rb, Some (chars_of s)) } else Some (rb, None) })) (bytes_of s @ [0]) s"
    unfolding len consumes_def rd_bind_def api_ws_read_get_def rb_read_def by simp
  with \<open>?len \<noteq> 0\<close> show ?thesis
    unfolding api_ws_read_string_def wire_string_def by (intro consumes_bind [OF consumes_uint32]) simp
qed

lemma consumes_object:
  assumes "print obj = Some s" "length s + 1 < 2 ^ 32" "is_cstring s" "parse s = obj" "(obj \<noteq> None) = (s \<noteq> ''null'')"
  shows "consumes (api_ws_read_object parse) (wire_string s) obj"
proof -
  have "cstr s = s" using assms(3) by (simp add: cstr_def is_cstring_def takeWhile_eq_all_conv) metis
  then have c: "consumes ((\<lambda>s. let obj = parse (cstr s) in if (obj \<noteq> None) = (cstr s \<noteq> ''null'') then rd_return obj else rd_fail) s) [] obj"
    unfolding Let_def using assms(4,5) consumes_return [of obj] by (simp del: not_None_eq)
  show ?thesis
    using consumes_bind [where g = "\<lambda>s. let obj = parse (cstr s) in if (obj \<noteq> None) = (cstr s \<noteq> ''null'') then rd_return obj else rd_fail",
        OF consumes_string [OF assms(2)] c]
    unfolding api_ws_read_object_def append_Nil2 .
qed

section \<open>What is written\<close>

lemma write_char_Some: "length wb < 32 \<Longrightarrow> api_ws_write_char c wb = Some (wb @ [bytes_of [c]])"
  by (simp add: api_ws_write_char_def WRITEBUF_COUNT_MAX_def)

lemma write_uint32_Some: "length wb < 32 \<Longrightarrow> api_ws_write_uint32 v wb = Some (wb @ [le32 v])"
  by (simp add: api_ws_write_uint32_def WRITEBUF_COUNT_MAX_def)

lemma write_string_length_Some:
  assumes "length wb < 31" "n + 1 < 2 ^ 32" "n < length value" "value ! n = NUL"
  shows "\<exists>wb'. api_ws_write_string_length value n wb = Some wb' \<and> concat wb' = concat wb @ wire_string (take n value) \<and> length wb' = length wb + 2"
proof -
  let ?len = "of_nat (n + 1) :: 32 word"
  have len: "unat ?len = n + 1" using assms(2) by (simp add: unat_of_nat_32 del: of_nat_Suc of_nat_add)
  then have "?len \<noteq> 0" by (metis add_is_0 one_neq_zero unat_0)
  moreover have "bytes_of (take (n + 1) value) = bytes_of (take n value) @ [0]"
    using assms(3,4) by (simp add: take_Suc_conv_app_nth bytes_of_def NUL_def)
  ultimately show ?thesis using assms len
    by (simp add: api_ws_write_string_length_def write_uint32_Some api_ws_write_put_def WRITEBUF_COUNT_MAX_def wire_string_def Let_def)
qed

lemma write_string_Some:
  assumes "length wb < 31" "length value + 1 < 2 ^ 32"
  shows "\<exists>wb'. api_ws_write_string value wb = Some wb' \<and> concat wb' = concat wb @ wire_string value \<and> length wb' = length wb + 2"
  using write_string_length_Some [of wb "length value" "value @ [NUL]"] assms by (simp add: api_ws_write_string_def)

lemma write_string_nz_Some:
  assumes "length wb < 30" "n + 1 < 2 ^ 32" "n \<le> length value"
  shows "\<exists>wb'. api_ws_write_string_nz value n wb = Some wb' \<and> concat wb' = concat wb @ wire_string (take n value) \<and> length wb' = length wb + 3"
proof -
  let ?len = "of_nat n :: 32 word"
  have len: "unat ?len = n" using assms(2) by (simp add: unat_of_nat_32)
  have len1: "?len + 1 = of_nat (Suc n)" by simp
  have "unat (of_nat (Suc n) :: 32 word) = Suc n" using assms(2) by (simp add: unat_of_nat_32 del: of_nat_Suc)
  then have "?len + 1 \<noteq> 0" unfolding len1 by (metis nat.distinct(1) unat_0)
  then show ?thesis using assms len
    by (simp add: api_ws_write_string_nz_def write_uint32_Some write_char_Some api_ws_write_put_def WRITEBUF_COUNT_MAX_def wire_string_def Let_def
        bytes_of_def NUL_def min_def add.commute)
qed

section \<open>Readers stay in the message\<close>

definition stays_in :: "'a reader \<Rightarrow> bool" where
  "stays_in r \<longleftrightarrow> (\<forall>rb. rb_head rb \<le> length (rb_data rb) \<longrightarrow>
     (\<exists>rb' v. r rb = Some (rb', v) \<and> rb_data rb' = rb_data rb \<and> rb_head rb \<le> rb_head rb' \<and> rb_head rb' \<le> length (rb_data rb)))"

lemma stays_inD:
  assumes "stays_in r" "rb_head rb \<le> length (rb_data rb)"
  obtains rb' v where "r rb = Some (rb', v)" "rb_data rb' = rb_data rb" "rb_head rb \<le> rb_head rb'" "rb_head rb' \<le> length (rb_data rb)"
  using assms unfolding stays_in_def by blast

lemma stays_in_bind:
  assumes "stays_in f" "\<And>a. stays_in (g a)"
  shows "stays_in (rd_bind f g)"
  unfolding stays_in_def
proof (intro allI impI)
  fix rb :: readbuf
  assume rb: "rb_head rb \<le> length (rb_data rb)"
  from stays_inD [OF assms(1) rb] obtain rb1 v where
    1: "f rb = Some (rb1, v)" "rb_data rb1 = rb_data rb" "rb_head rb \<le> rb_head rb1" "rb_head rb1 \<le> length (rb_data rb)" .
  show "\<exists>rb' v. rd_bind f g rb = Some (rb', v) \<and> rb_data rb' = rb_data rb \<and> rb_head rb \<le> rb_head rb' \<and> rb_head rb' \<le> length (rb_data rb)"
  proof (cases v)
    case None
    with 1 show ?thesis by (simp add: rd_bind_def)
  next
    case (Some a)
    from 1 have "rb_head rb1 \<le> length (rb_data rb1)" by simp
    from stays_inD [OF assms(2) [of a] this] obtain rb2 w where
      "g a rb1 = Some (rb2, w)" "rb_data rb2 = rb_data rb1" "rb_head rb1 \<le> rb_head rb2" "rb_head rb2 \<le> length (rb_data rb1)" .
    with 1 Some show ?thesis by (auto simp: rd_bind_def)
  qed
qed

lemma stays_in_base: "stays_in (rd_return v)" "stays_in rd_fail" "stays_in api_ws_read_uint32"
  by (auto simp: stays_in_def rd_return_def rd_fail_def api_ws_read_uint32_def rb_read_def)

lemma stays_in_string: "stays_in api_ws_read_string"
proof -
  have "stays_in (rd_bind (api_ws_read_get n) (\<lambda>value rb.
         do { z \<leftarrow> rb_read rb (rb_head rb - 1) 1;
              if hd z = 0 then do { s \<leftarrow> rb_read rb value (n - 1); Some (rb, Some (chars_of s)) } else Some (rb, None) }))" if "0 < n" for n
    using that by (auto simp: stays_in_def rd_bind_def api_ws_read_get_def rb_read_def)
  then show ?thesis unfolding api_ws_read_string_def
    by (intro stays_in_bind) (auto simp: stays_in_base unat_gt_0)
qed

lemma stays_in_object: "stays_in (api_ws_read_object parse)"
  unfolding api_ws_read_object_def by (intro stays_in_bind stays_in_string) (auto simp: stays_in_base Let_def)

lemmas readers_stay_in = stays_in_bind stays_in_base stays_in_string stays_in_object

end
