(* ===== verification/Api_Ws.thy ===== *)
theory Api_Ws
  imports Ws_Proto Apis Msg_Json
begin

text \<open>
  APIs of other binders, \<^verbatim>\<open>src/src/afb-api-ws.c\<close> after its serialisation part: the client that forwards calls to a remote binder and the server that
  receives them.

  What the code does to requests and events of other parts is recorded in order as \<open>aw_action\<close>s; messages are the vectors given to
  \<open>afb_ws_binary_v\<close>, whose result is the parameter \<open>send\<close>. A request \<open>'q\<close> and an event \<open>'e\<close> are what the code holds a pointer to.
\<close>

section \<open>Names and sockets\<close>

text \<open>The part behind the last occurrence of a character, as \<^verbatim>\<open>strrchr\<close> finds it, and the position.\<close>

definition strrchr :: "char \<Rightarrow> string \<Rightarrow> nat option" where
  "strrchr c s = (if c \<in> set s then Some (length s - 1 - length (takeWhile (\<lambda>d. d \<noteq> c) (rev s))) else None)"

definition api_ws_make :: "bool \<Rightarrow> string \<Rightarrow> errno + (string \<times> string)" where
  "api_ws_make calloc_ok path =
     (if \<not> calloc_ok then Inl ENOMEM
      else case strrchr (CHR ''/'') path of
        None \<Rightarrow> Inl EINVAL
      | Some i \<Rightarrow> if afb_apis_is_valid_api_name (drop (i + 1) path) then Inr (path, drop (i + 1) path) else Inl EINVAL)"

text \<open>The system calls on sockets: the descriptor that \<open>socket\<close> gives, and the results of \<open>bind\<close> and \<open>connect\<close>; for names of hosts the list of
  addresses, each with its descriptor and its results. The result has the descriptor, the descriptors closed on the way and the names removed.\<close>

record net =
  nt_socket :: int
  nt_bind :: "string \<Rightarrow> int"
  nt_connect :: "string \<Rightarrow> int"
  nt_getaddrinfo :: "string \<Rightarrow> string \<Rightarrow> (int \<times> int \<times> int) list option"

definition api_ws_socket_unix :: "net \<Rightarrow> string \<Rightarrow> bool \<Rightarrow> int \<times> int list \<times> string list" where
  "api_ws_socket_unix net path server =
     (if length path \<ge> 108 then (-1, [], [])
      else let un = (if server then [path] else []); fd = nt_socket net in
        if fd < 0 then (fd, [], un)
        else let rc = (if server then nt_bind net path else nt_connect net path) in
          if rc < 0 then (rc, [fd], un) else (fd, [], un))"

fun try_addresses :: "bool \<Rightarrow> (int \<times> int \<times> int) list \<Rightarrow> int list \<Rightarrow> int \<times> int list" where
  "try_addresses server [] shut = (-1, shut)"
| "try_addresses server ((fd, bind_rc, connect_rc) # as) shut =
     (if fd \<ge> 0 then
        if (if server then bind_rc else connect_rc) = 0 then (fd, shut) else try_addresses server as (shut @ [fd])
      else try_addresses server as shut)"

definition api_ws_socket_inet :: "net \<Rightarrow> string \<Rightarrow> bool \<Rightarrow> int \<times> int list \<times> string list" where
  "api_ws_socket_inet net path server =
     (case (strrchr (CHR ''/'') path, strrchr (CHR '':'') path) of
        (Some api, Some service) \<Rightarrow>
          if api < service then (-1, [], [])
          else (case nt_getaddrinfo net (take service path) (take (api - (service + 1)) (drop (service + 1) path)) of
              None \<Rightarrow> (-1, [], [])
            | Some as \<Rightarrow> (case try_addresses server as [] of (fd, shut) \<Rightarrow> (fd, shut, [])))
      | _ \<Rightarrow> (-1, [], []))"

text \<open>The result of \<open>listen\<close> is not used.\<close>

definition api_ws_socket :: "net \<Rightarrow> string \<Rightarrow> bool \<Rightarrow> int \<times> int list \<times> string list" where
  "api_ws_socket net path server =
     (if take 5 path = ''unix:'' then api_ws_socket_unix net (drop 5 path) server else api_ws_socket_inet net path server)"

section \<open>The client\<close>

record 'q api_ws_memo =
  mm_req :: 'q
  mm_msgid :: "32 word"

record 'e api_ws_event =
  ae_event :: 'e
  ae_eventid :: "32 word"
  ae_refcount :: int

datatype ('q, 'e, 'j) aw_action =
    Req_addref 'q
  | Req_unref 'q
  | Set_flags 'q "32 word"
  | Req_success 'q "'j option" "string option"
  | Req_fail 'q string "string option"
  | Req_send 'q string nat
  | Req_subscribe 'q 'e
  | Req_unsubscribe 'q 'e
  | Evt_broadcast string "'j option"
  | Evt_push 'e "'j option"
  | Evt_drop 'e
  | Sent writebuf

record ('q, 'e, 'j) api_ws =
  aw_path :: string
  aw_api :: string
  aw_fd :: int
  aw_ws :: bool
  aw_id :: "32 word"
  aw_memos :: "'q api_ws_memo list"
  aw_events :: "'e api_ws_event list"
  aw_log :: "('q, 'e, 'j) aw_action list"

definition emit :: "('q, 'e, 'j) aw_action list \<Rightarrow> ('q, 'e, 'j) api_ws \<Rightarrow> ('q, 'e, 'j) api_ws" where
  "emit acts w = w\<lparr>aw_log := aw_log w @ acts\<rparr>"

definition api_ws_client_memo_search :: "32 word \<Rightarrow> ('q, 'e, 'j) api_ws \<Rightarrow> 'q api_ws_memo option" where
  "api_ws_client_memo_search msgid w = find (\<lambda>m. mm_msgid m = msgid) (aw_memos w)"

definition api_ws_client_event_search :: "('e \<Rightarrow> string) \<Rightarrow> 32 word \<Rightarrow> string \<Rightarrow> ('q, 'e, 'j) api_ws \<Rightarrow> nat option" where
  "api_ws_client_event_search evname eventid name w =
     first_index (\<lambda>ev. ae_eventid ev = eventid \<and> evname (ae_event ev) = name) (aw_events w)"

text \<open>The loop on the identifiers; \<open>None\<close> when the fuel is spent. One try more than there are memos is enough, as there are more identifiers.\<close>

fun next_msgid :: "nat \<Rightarrow> 32 word \<Rightarrow> ('q, 'e, 'j) api_ws \<Rightarrow> 32 word option" where
  "next_msgid 0 i w = None"
| "next_msgid (Suc fuel) i w = (if api_ws_client_memo_search (i + 1) w \<noteq> None then next_msgid fuel (i + 1) w else Some (i + 1))"

definition api_ws_client_memo_make ::
  "bool \<Rightarrow> 'q \<Rightarrow> ('q, 'e, 'j) api_ws \<Rightarrow> (('q, 'e, 'j) api_ws \<times> 'q api_ws_memo option) option" where
  "api_ws_client_memo_make malloc_ok req w =
     (if \<not> malloc_ok then Some (w, None)
      else do {
        i \<leftarrow> next_msgid (Suc (length (aw_memos w))) (aw_id w) w;
        let memo = \<lparr>mm_req = req, mm_msgid = i\<rparr>;
        Some (emit [Req_addref req] (w\<lparr>aw_id := i, aw_memos := memo # aw_memos w\<rparr>), Some memo) })"

definition api_ws_client_memo_destroy :: "'q api_ws_memo \<Rightarrow> ('q, 'e, 'j) api_ws \<Rightarrow> ('q, 'e, 'j) api_ws" where
  "api_ws_client_memo_destroy memo w = emit [Req_unref (mm_req memo)] (w\<lparr>aw_memos := remove1 memo (aw_memos w)\<rparr>)"

definition api_ws_client_msg_event_read :: "(32 word \<times> string) reader" where
  "api_ws_client_msg_event_read = rd_bind api_ws_read_uint32 (\<lambda>eventid. rd_bind api_ws_read_string (\<lambda>name. rd_return (eventid, cstr name)))"

definition api_ws_client_msg_event_get :: "('e \<Rightarrow> string) \<Rightarrow> ('q, 'e, 'j) api_ws \<Rightarrow> nat reader" where
  "api_ws_client_msg_event_get evname w =
     rd_bind api_ws_client_msg_event_read (\<lambda>(eventid, name).
       case api_ws_client_event_search evname eventid name w of None \<Rightarrow> rd_fail | Some i \<Rightarrow> rd_return i)"

definition api_ws_client_msg_memo_get :: "('q, 'e, 'j) api_ws \<Rightarrow> 'q api_ws_memo reader" where
  "api_ws_client_msg_memo_get w =
     rd_bind api_ws_read_uint32 (\<lambda>msgid. case api_ws_client_memo_search msgid w of None \<Rightarrow> rd_fail | Some m \<Rightarrow> rd_return m)"

definition api_ws_client_msg_subscription_get :: "('e \<Rightarrow> string) \<Rightarrow> ('q, 'e, 'j) api_ws \<Rightarrow> ('q api_ws_memo \<times> nat) reader" where
  "api_ws_client_msg_subscription_get evname w =
     rd_bind (api_ws_client_msg_memo_get w) (\<lambda>m. rd_bind (api_ws_client_msg_event_get evname w) (\<lambda>i. rd_return (m, i)))"

text \<open>What is done with the result of a reader; \<open>None\<close> is an access outside of the message.\<close>

definition on_read :: "'a reader \<Rightarrow> readbuf \<Rightarrow> ('a option \<Rightarrow> 'w) \<Rightarrow> 'w option" where
  "on_read r rb f = (case r rb of None \<Rightarrow> None | Some (_, v) \<Rightarrow> Some (f v))"

text \<open>\<open>create\<close> gives the new event, or nothing when there is no memory.\<close>

definition api_ws_client_event_create ::
  "('e \<Rightarrow> string) \<Rightarrow> bool \<Rightarrow> (string \<Rightarrow> 'e option) \<Rightarrow> ('q, 'e, 'j) api_ws \<Rightarrow> readbuf \<Rightarrow> ('q, 'e, 'j) api_ws option" where
  "api_ws_client_event_create evname malloc_ok create w rb =
     on_read api_ws_client_msg_event_read rb (\<lambda>v. case v of
       None \<Rightarrow> w
     | Some (eventid, name) \<Rightarrow>
         (case api_ws_client_event_search evname eventid name w of
            Some i \<Rightarrow> w\<lparr>aw_events := (aw_events w)[i := (aw_events w ! i)\<lparr>ae_refcount := ae_refcount (aw_events w ! i) + 1\<rparr>]\<rparr>
          | None \<Rightarrow>
              if \<not> malloc_ok then w
              else (case create name of
                  None \<Rightarrow> w
                | Some e \<Rightarrow> w\<lparr>aw_events := \<lparr>ae_event = e, ae_eventid = eventid, ae_refcount = 1\<rparr> # aw_events w\<rparr>)))"

definition api_ws_client_event_drop :: "('e \<Rightarrow> string) \<Rightarrow> ('q, 'e, 'j) api_ws \<Rightarrow> readbuf \<Rightarrow> ('q, 'e, 'j) api_ws option" where
  "api_ws_client_event_drop evname w rb =
     on_read (api_ws_client_msg_event_get evname w) rb (\<lambda>v. case v of
       None \<Rightarrow> w
     | Some i \<Rightarrow>
         (let ev = (aw_events w ! i)\<lparr>ae_refcount := ae_refcount (aw_events w ! i) - 1\<rparr> in
          if ae_refcount ev \<noteq> 0 then w\<lparr>aw_events := (aw_events w)[i := ev]\<rparr>
          else emit [Evt_drop (ae_event ev)] (w\<lparr>aw_events := take i (aw_events w) @ drop (i + 1) (aw_events w)\<rparr>)))"

definition api_ws_client_event_subscribe :: "('e \<Rightarrow> string) \<Rightarrow> ('q, 'e, 'j) api_ws \<Rightarrow> readbuf \<Rightarrow> ('q, 'e, 'j) api_ws option" where
  "api_ws_client_event_subscribe evname w rb =
     on_read (api_ws_client_msg_subscription_get evname w) rb (\<lambda>v. case v of
       None \<Rightarrow> w | Some (m, i) \<Rightarrow> emit [Req_subscribe (mm_req m) (ae_event (aw_events w ! i))] w)"

definition api_ws_client_event_unsubscribe :: "('e \<Rightarrow> string) \<Rightarrow> ('q, 'e, 'j) api_ws \<Rightarrow> readbuf \<Rightarrow> ('q, 'e, 'j) api_ws option" where
  "api_ws_client_event_unsubscribe evname w rb =
     on_read (api_ws_client_msg_subscription_get evname w) rb (\<lambda>v. case v of
       None \<Rightarrow> w | Some (m, i) \<Rightarrow> emit [Req_unsubscribe (mm_req m) (ae_event (aw_events w ! i))] w)"

definition api_ws_client_event_broadcast :: "(string \<Rightarrow> 'j option) \<Rightarrow> ('q, 'e, 'j) api_ws \<Rightarrow> readbuf \<Rightarrow> ('q, 'e, 'j) api_ws option" where
  "api_ws_client_event_broadcast parse w rb =
     on_read (rd_bind api_ws_read_string (\<lambda>event. rd_bind (api_ws_read_object parse) (\<lambda>obj. rd_return (cstr event, obj)))) rb (\<lambda>v. case v of
       None \<Rightarrow> w | Some (event, obj) \<Rightarrow> emit [Evt_broadcast event obj] w)"

definition api_ws_client_event_push :: "('e \<Rightarrow> string) \<Rightarrow> (string \<Rightarrow> 'j option) \<Rightarrow> ('q, 'e, 'j) api_ws \<Rightarrow> readbuf \<Rightarrow> ('q, 'e, 'j) api_ws option" where
  "api_ws_client_event_push evname parse w rb =
     on_read (rd_bind (api_ws_client_msg_event_get evname w) (\<lambda>i. rd_bind (api_ws_read_object parse) (\<lambda>obj. rd_return (i, obj)))) rb (\<lambda>v. case v of
       None \<Rightarrow> w | Some (i, obj) \<Rightarrow> emit [Evt_push (ae_event (aw_events w ! i)) obj] w)"

text \<open>The common part of the replies: the memo is found, the rest is read, the request is answered and the memo destroyed.\<close>

definition on_reply :: "'a reader \<Rightarrow> ('q \<Rightarrow> 'a \<Rightarrow> ('q, 'e, 'j) aw_action list) \<Rightarrow> ('q, 'e, 'j) api_ws \<Rightarrow> readbuf \<Rightarrow> ('q, 'e, 'j) api_ws option" where
  "on_reply rest answer w rb =
     (case api_ws_client_msg_memo_get w rb of
        None \<Rightarrow> None
      | Some (_, None) \<Rightarrow> Some w
      | Some (rb1, Some memo) \<Rightarrow>
          on_read rest rb1 (\<lambda>v. api_ws_client_memo_destroy memo
            (emit (case v of None \<Rightarrow> [Req_fail (mm_req memo) ''error'' (Some ''ws error'')] | Some a \<Rightarrow> answer (mm_req memo) a) w)))"

definition info_or_null :: "string \<Rightarrow> string option" where
  "info_or_null info = (if cat info 0 \<noteq> NUL then Some (cstr info) else None)"

definition api_ws_client_reply_success :: "(string \<Rightarrow> 'j option) \<Rightarrow> ('q, 'e, 'j) api_ws \<Rightarrow> readbuf \<Rightarrow> ('q, 'e, 'j) api_ws option" where
  "api_ws_client_reply_success parse =
     on_reply (rd_bind api_ws_read_uint32 (\<lambda>flags. rd_bind api_ws_read_string (\<lambda>info. rd_bind (api_ws_read_object parse) (\<lambda>obj. rd_return (flags, info, obj)))))
       (\<lambda>req (flags, info, obj). [Set_flags req flags, Req_success req obj (info_or_null info)])"

definition api_ws_client_reply_fail :: "('q, 'e, 'j) api_ws \<Rightarrow> readbuf \<Rightarrow> ('q, 'e, 'j) api_ws option" where
  "api_ws_client_reply_fail =
     on_reply (rd_bind api_ws_read_uint32 (\<lambda>flags. rd_bind api_ws_read_string (\<lambda>status. rd_bind api_ws_read_string (\<lambda>info. rd_return (flags, status, info)))))
       (\<lambda>req (flags, status, info). [Set_flags req flags, Req_fail req (cstr status) (info_or_null info)])"

definition api_ws_client_reply_send :: "('q, 'e, 'j) api_ws \<Rightarrow> readbuf \<Rightarrow> ('q, 'e, 'j) api_ws option" where
  "api_ws_client_reply_send =
     on_reply (rd_bind api_ws_read_uint32 (\<lambda>flags. rd_bind api_ws_read_string (\<lambda>data. rd_return (flags, data))))
       (\<lambda>req (flags, data). [Set_flags req flags, Req_send req data (length data)])"

record ('e, 'j) aw_env =
  ev_name :: "'e \<Rightarrow> string"
  ev_create :: "string \<Rightarrow> 'e option"
  ev_malloc :: bool
  ev_parse :: "string \<Rightarrow> 'j option"

definition api_ws_client_on_binary :: "('e, 'j) aw_env \<Rightarrow> byte list \<Rightarrow> ('q, 'e, 'j) api_ws \<Rightarrow> ('q, 'e, 'j) api_ws option" where
  "api_ws_client_on_binary env data w =
     (if data = [] then Some w
      else let rb = \<lparr>rb_data = data, rb_head = 1\<rparr>; c = hd (chars_of [hd data]) in
        if c = CHR ''T'' then api_ws_client_reply_success (ev_parse env) w rb
        else if c = CHR ''F'' then api_ws_client_reply_fail w rb
        else if c = CHR ''X'' then api_ws_client_reply_send w rb
        else if c = CHR ''*'' then api_ws_client_event_broadcast (ev_parse env) w rb
        else if c = CHR ''+'' then api_ws_client_event_create (ev_name env) (ev_malloc env) (ev_create env) w rb
        else if c = CHR ''-'' then api_ws_client_event_drop (ev_name env) w rb
        else if c = CHR ''!'' then api_ws_client_event_push (ev_name env) (ev_parse env) w rb
        else if c = CHR ''S'' then api_ws_client_event_subscribe (ev_name env) w rb
        else if c = CHR ''U'' then api_ws_client_event_unsubscribe (ev_name env) w rb
        else Some w)"

text \<open>The raw text of the request is given as the memory that holds it, with its size. \<open>send\<close> is the result of the sending; a message is recorded when
  it is handed over.\<close>

definition api_ws_client_call_cb ::
  "bool \<Rightarrow> (writebuf \<Rightarrow> int) \<Rightarrow> sessions \<Rightarrow> 'q \<Rightarrow> afb_context \<Rightarrow> (string \<times> nat) option \<Rightarrow> string \<Rightarrow> nat \<Rightarrow> ('q, 'e, 'j) api_ws
     \<Rightarrow> ('q, 'e, 'j) api_ws option" where
  "api_ws_client_call_cb malloc_ok send s req x raw verb lenverb w =
     do { (w1, memo) \<leftarrow> api_ws_client_memo_make malloc_ok req w;
          case memo of
            None \<Rightarrow> Some (emit [Req_fail req ''error'' (Some ''out of memory'')] w1)
          | Some m \<Rightarrow>
              (case raw of
                 None \<Rightarrow> Some (api_ws_client_memo_destroy m (emit [Req_fail req ''error'' (Some ''internal: raw is NULL!'')] w1))
               | Some (text, szraw) \<Rightarrow> do {
                   a \<leftarrow> ac_session x;
                   uuid \<leftarrow> ctxClientGetUuid s a;
                   case do { b1 \<leftarrow> api_ws_write_uint32 (mm_msgid m) [];
                             b2 \<leftarrow> api_ws_write_uint32 (context_flags x) b1;
                             b3 \<leftarrow> api_ws_write_string_nz verb lenverb b2;
                             b4 \<leftarrow> api_ws_write_string uuid b3;
                             api_ws_write_string_length text szraw b4 } of
                     None \<Rightarrow> Some (api_ws_client_memo_destroy m (emit [Req_fail req ''error'' (Some ''overflow: size doesn't match 32 bits!'')] w1))
                   | Some wb \<Rightarrow>
                       if send wb < 0
                       then Some (api_ws_client_memo_destroy m (emit [Req_fail req ''error'' (Some ''websocket sending error'')] w1))
                       else Some (emit [Sent wb] w1) }) }"

definition api_ws_service_start_cb :: "bool \<Rightarrow> int" where
  "api_ws_service_start_cb onneed = (if onneed then 0 else -1)"

text \<open>The list is the descriptors that are closed.\<close>

definition api_ws_client_disconnect :: "('q, 'e, 'j) api_ws \<Rightarrow> ('q, 'e, 'j) api_ws \<times> int list" where
  "api_ws_client_disconnect w = (if aw_fd w \<ge> 0 then (w\<lparr>aw_ws := False, aw_fd := -1\<rparr>, [aw_fd w]) else (w, []))"

definition api_ws_client_connect :: "net \<Rightarrow> bool \<Rightarrow> ('q, 'e, 'j) api_ws \<Rightarrow> ('q, 'e, 'j) api_ws \<times> int \<times> int list" where
  "api_ws_client_connect net create_ok w =
     (case api_ws_socket net (aw_path w) False of
        (fd, shut, _) \<Rightarrow>
          if fd \<ge> 0 then (if create_ok then (w\<lparr>aw_ws := True, aw_fd := fd\<rparr>, 0, shut) else (w, -1, shut @ [fd])) else (w, -1, shut))"

text \<open>\<open>Some\<close> is the api that stays in memory, added to the table.\<close>

definition afb_api_ws_add_client ::
  "net \<Rightarrow> bool \<Rightarrow> bool \<Rightarrow> bool \<Rightarrow> string \<Rightarrow> nat apis \<Rightarrow> nat \<Rightarrow> nat apis \<times> ('q, 'e, 'j) api_ws option \<times> int \<times> int list" where
  "afb_api_ws_add_client net calloc_ok create_ok realloc_ok path apis self =
     (case api_ws_make calloc_ok path of
        Inl _ \<Rightarrow> (apis, None, -1, [])
      | Inr (p, api) \<Rightarrow>
          (case api_ws_client_connect net create_ok
                  \<lparr>aw_path = p, aw_api = api, aw_fd = -1, aw_ws = False, aw_id = 0, aw_memos = [], aw_events = [], aw_log = []\<rparr> of
             (w, rc, shut) \<Rightarrow>
               if rc < 0 then (apis, None, -1, shut)
               else (case afb_apis_add apis api self realloc_ok of
                   (apis', rc') \<Rightarrow> if rc' < 0 then (apis, None, -1, shut @ snd (api_ws_client_disconnect w)) else (apis', Some w, 0, shut))))"

section \<open>The server\<close>

text \<open>A client of the server, with the messages sent to it, and a request of it. The descriptor and the socket of a released client are gone.\<close>

record api_ws_client =
  sc_api :: string
  sc_refcount :: int
  sc_fd :: int
  sc_ws :: bool
  sc_listener :: bool
  sc_sent :: "writebuf list"

record 'j api_ws_server_req =
  wr_context :: afb_context
  wr_json :: "'j option"
  wr_request :: string
  wr_lenreq :: nat
  wr_refcount :: int
  wr_msgid :: "32 word"
  wr_data :: bool

definition api_ws_server_client_unref :: "api_ws_client \<Rightarrow> api_ws_client" where
  "api_ws_server_client_unref c =
     (let c1 = c\<lparr>sc_refcount := sc_refcount c - 1\<rparr> in if sc_refcount c1 = 0 then c1\<lparr>sc_ws := False, sc_listener := False\<rparr> else c1)"

text \<open>A message to the client: it is sent when its parts fit and the socket takes it.\<close>

definition send_message :: "(writebuf \<Rightarrow> int) \<Rightarrow> writebuf option \<Rightarrow> api_ws_client \<Rightarrow> api_ws_client" where
  "send_message send wb c = (case wb of None \<Rightarrow> c | Some b \<Rightarrow> if send b \<ge> 0 then c\<lparr>sc_sent := sc_sent c @ [b]\<rparr> else c)"

definition api_ws_server_event_send :: "(writebuf \<Rightarrow> int) \<Rightarrow> char \<Rightarrow> string \<Rightarrow> 32 word \<Rightarrow> string option \<Rightarrow> api_ws_client \<Rightarrow> api_ws_client" where
  "api_ws_server_event_send send order event eventid data c =
     send_message send
       (do { b1 \<leftarrow> api_ws_write_char order [];
             b2 \<leftarrow> api_ws_write_uint32 eventid b1;
             b3 \<leftarrow> api_ws_write_string event b2;
             case data of None \<Rightarrow> Some b3 | Some d \<Rightarrow> api_ws_write_string d b3 }) c"

definition api_ws_server_event_add :: "(writebuf \<Rightarrow> int) \<Rightarrow> string \<Rightarrow> 32 word \<Rightarrow> api_ws_client \<Rightarrow> api_ws_client" where
  "api_ws_server_event_add send event eventid = api_ws_server_event_send send (CHR ''+'') event eventid None"

definition api_ws_server_event_remove :: "(writebuf \<Rightarrow> int) \<Rightarrow> string \<Rightarrow> 32 word \<Rightarrow> api_ws_client \<Rightarrow> api_ws_client" where
  "api_ws_server_event_remove send event eventid = api_ws_server_event_send send (CHR ''-'') event eventid None"

definition api_ws_server_event_push ::
  "('j option \<Rightarrow> string option) \<Rightarrow> (writebuf \<Rightarrow> int) \<Rightarrow> string \<Rightarrow> 32 word \<Rightarrow> 'j option \<Rightarrow> api_ws_client \<Rightarrow> api_ws_client" where
  "api_ws_server_event_push print send event eventid obj =
     api_ws_server_event_send send (CHR ''!'') event eventid (Some (case print obj of None \<Rightarrow> ''null'' | Some d \<Rightarrow> d))"

definition api_ws_server_event_broadcast ::
  "('j option \<Rightarrow> string option) \<Rightarrow> (writebuf \<Rightarrow> int) \<Rightarrow> string \<Rightarrow> 'j option \<Rightarrow> api_ws_client \<Rightarrow> api_ws_client" where
  "api_ws_server_event_broadcast print send event obj =
     send_message send (do { b1 \<leftarrow> api_ws_write_char (CHR ''*'') []; b2 \<leftarrow> api_ws_write_string event b1; api_ws_write_object print obj b2 })"

section \<open>Requests of the server\<close>

definition api_ws_server_req_addref_cb :: "'j api_ws_server_req \<Rightarrow> 'j api_ws_server_req" where
  "api_ws_server_req_addref_cb r = r\<lparr>wr_refcount := wr_refcount r + 1\<rparr>"

text \<open>\<open>None\<close> is a failure of the session layer; the released request has no data.\<close>

definition api_ws_server_req_unref ::
  "int \<Rightarrow> string \<Rightarrow> sessions \<times> api_ws_client \<times> 'j api_ws_server_req \<Rightarrow> (sessions \<times> api_ws_client \<times> 'j api_ws_server_req) option" where
  "api_ws_server_req_unref now newuuid = (\<lambda>(s, c, r).
     (let r1 = r\<lparr>wr_refcount := wr_refcount r - 1\<rparr> in
      if wr_refcount r1 \<noteq> 0 then Some (s, c, r1)
      else do { (s1, x) \<leftarrow> afb_context_disconnect s (wr_context r1) now newuuid;
                Some (s1, api_ws_server_client_unref c, r1\<lparr>wr_context := x, wr_json := None, wr_data := False\<rparr>) }))"

text \<open>\<open>new_string\<close> is \<open>json_object_new_string\<close>.\<close>

definition api_ws_server_req_json :: "(string \<Rightarrow> 'j option) \<Rightarrow> (string \<Rightarrow> 'j) \<Rightarrow> 'j api_ws_server_req \<Rightarrow> 'j api_ws_server_req \<times> 'j option" where
  "api_ws_server_req_json parse new_string r =
     (if wr_json r = None then
        (let j = parse (cstr (wr_request r));
             j' = (if j = None \<and> cstr (wr_request r) \<noteq> ''null'' then Some (new_string (cstr (wr_request r))) else j)
         in (r\<lparr>wr_json := j'\<rparr>, j'))
      else (r, wr_json r))"

definition api_ws_server_req_success_cb ::
  "('j option \<Rightarrow> string option) \<Rightarrow> (writebuf \<Rightarrow> int) \<Rightarrow> 'j api_ws_server_req \<Rightarrow> 'j option \<Rightarrow> string option \<Rightarrow> api_ws_client \<Rightarrow> api_ws_client" where
  "api_ws_server_req_success_cb print send r obj info =
     send_message send
       (do { b1 \<leftarrow> api_ws_write_char (CHR ''T'') [];
             b2 \<leftarrow> api_ws_write_uint32 (wr_msgid r) b1;
             b3 \<leftarrow> api_ws_write_uint32 (context_flags (wr_context r)) b2;
             b4 \<leftarrow> api_ws_write_string (case info of None \<Rightarrow> [] | Some i \<Rightarrow> i) b3;
             api_ws_write_object print obj b4 })"

definition api_ws_server_req_fail_cb ::
  "(writebuf \<Rightarrow> int) \<Rightarrow> 'j api_ws_server_req \<Rightarrow> string \<Rightarrow> string option \<Rightarrow> api_ws_client \<Rightarrow> api_ws_client" where
  "api_ws_server_req_fail_cb send r status info =
     send_message send
       (do { b1 \<leftarrow> api_ws_write_char (CHR ''F'') [];
             b2 \<leftarrow> api_ws_write_uint32 (wr_msgid r) b1;
             b3 \<leftarrow> api_ws_write_uint32 (context_flags (wr_context r)) b2;
             b4 \<leftarrow> api_ws_write_string status b3;
             api_ws_write_string (case info of None \<Rightarrow> [] | Some i \<Rightarrow> i) b4 })"

definition api_ws_server_req_raw_cb :: "'j api_ws_server_req \<Rightarrow> string \<times> nat" where
  "api_ws_server_req_raw_cb r = (wr_request r @ [NUL], wr_lenreq r)"

text \<open>The buffer is the memory at its address: one character more than its size is read.\<close>

definition api_ws_server_req_send_cb ::
  "(writebuf \<Rightarrow> int) \<Rightarrow> 'j api_ws_server_req \<Rightarrow> string \<Rightarrow> nat \<Rightarrow> api_ws_client \<Rightarrow> api_ws_client" where
  "api_ws_server_req_send_cb send r buffer n =
     send_message send
       (do { b1 \<leftarrow> api_ws_write_char (CHR ''X'') [];
             b2 \<leftarrow> api_ws_write_uint32 (wr_msgid r) b1;
             b3 \<leftarrow> api_ws_write_uint32 (context_flags (wr_context r)) b2;
             api_ws_write_string_length buffer n b3 })"

definition subscription_message :: "char \<Rightarrow> 'j api_ws_server_req \<Rightarrow> 32 word \<Rightarrow> string \<Rightarrow> writebuf option" where
  "subscription_message order r eventid event =
     do { b1 \<leftarrow> api_ws_write_char order [];
          b2 \<leftarrow> api_ws_write_uint32 (wr_msgid r) b1;
          b3 \<leftarrow> api_ws_write_uint32 eventid b2;
          api_ws_write_string event b3 }"

text \<open>\<open>add_watch\<close> and \<open>remove_watch\<close> are the functions of the event store for the listener of the client; they may send messages to it.\<close>

definition api_ws_server_req_subscribe_cb ::
  "(api_ws_client \<Rightarrow> api_ws_client \<times> int) \<Rightarrow> (writebuf \<Rightarrow> int) \<Rightarrow> 'j api_ws_server_req \<Rightarrow> 32 word \<Rightarrow> string \<Rightarrow> api_ws_client \<Rightarrow> api_ws_client \<times> int" where
  "api_ws_server_req_subscribe_cb add_watch send r eventid event c =
     (case add_watch c of
        (c1, rc) \<Rightarrow> if rc < 0 then (c1, rc) else (send_message send (subscription_message (CHR ''S'') r eventid event) c1, rc))"

definition api_ws_server_req_unsubscribe_cb ::
  "(api_ws_client \<Rightarrow> api_ws_client \<times> int) \<Rightarrow> (writebuf \<Rightarrow> int) \<Rightarrow> 'j api_ws_server_req \<Rightarrow> 32 word \<Rightarrow> string \<Rightarrow> api_ws_client \<Rightarrow> api_ws_client \<times> int" where
  "api_ws_server_req_unsubscribe_cb remove_watch send r eventid event c =
     remove_watch (send_message send (subscription_message (CHR ''U'') r eventid event) c)"

section \<open>Calls received\<close>

definition read_call :: "(32 word \<times> 32 word \<times> string \<times> string \<times> string) reader" where
  "read_call =
     rd_bind api_ws_read_uint32 (\<lambda>msgid. rd_bind api_ws_read_uint32 (\<lambda>flags. rd_bind api_ws_read_string (\<lambda>verb.
       rd_bind api_ws_read_string (\<lambda>uuid. rd_bind api_ws_read_string (\<lambda>request. rd_return (msgid, flags, verb, uuid, request))))))"

text \<open>\<open>call\<close> is what the api does when it is called, with the verb, the client and the request; it may keep the request by taking a reference.\<close>

definition api_ws_server_called ::
  "('api \<Rightarrow> string \<Rightarrow> sessions \<times> api_ws_client \<times> 'j api_ws_server_req \<Rightarrow> (sessions \<times> api_ws_client \<times> 'j api_ws_server_req) option)
     \<Rightarrow> 'api apis \<Rightarrow> (writebuf \<Rightarrow> int) \<Rightarrow> bool \<Rightarrow> int \<Rightarrow> addr option \<Rightarrow> string \<Rightarrow> readbuf \<Rightarrow> sessions \<times> api_ws_client
     \<Rightarrow> (sessions \<times> api_ws_client \<times> 'j api_ws_server_req option) option" where
  "api_ws_server_called call apis send calloc_ok now calloc newuuid rb = (\<lambda>(s, c).
     (let c1 = c\<lparr>sc_refcount := sc_refcount c + 1\<rparr> in
      if \<not> calloc_ok then Some (s, api_ws_server_client_unref c1, None)
      else case read_call rb of
        None \<Rightarrow> None
      | Some (_, None) \<Rightarrow> Some (s, api_ws_server_client_unref c1, None)
      | Some (_, Some (msgid, flags, verb, uuid, request)) \<Rightarrow>
          (case afb_context_connect s (Some (cstr uuid)) None now calloc newuuid of
             None \<Rightarrow> None
           | Some (s1, Inl _) \<Rightarrow> Some (s1, api_ws_server_client_unref c1, None)
           | Some (s1, Inr x) \<Rightarrow>
               (let r = \<lparr>wr_context = set_context_flags flags x, wr_json = None, wr_request = request, wr_lenreq = length request, wr_refcount = 1,
                         wr_msgid = msgid, wr_data = True\<rparr> in
                do { st \<leftarrow> (case afb_apis_call_full apis (sc_api c1) of
                             None \<Rightarrow> Some (s1, api_ws_server_req_fail_cb send r ''fail'' (Some ''api not found'') c1, r)
                           | Some (i, a) \<Rightarrow> call a (cstr verb) (s1, c1, r\<lparr>wr_context := (wr_context r)\<lparr>ac_api_index := int i\<rparr>\<rparr>));
                     (s2, c2, r2) \<leftarrow> api_ws_server_req_unref now newuuid st;
                     Some (s2, c2, Some r2) }))))"

definition api_ws_server_on_binary where
  "api_ws_server_on_binary call apis send calloc_ok now calloc newuuid data st =
     api_ws_server_called call apis send calloc_ok now calloc newuuid \<lparr>rb_data = data, rb_head = 0\<rparr> st"

definition api_ws_server_on_hangup :: "api_ws_client \<Rightarrow> api_ws_client \<times> int list" where
  "api_ws_server_on_hangup c =
     (let (c1, shut) = (if sc_fd c \<ge> 0 then (c\<lparr>sc_fd := -1\<rparr>, [sc_fd c]) else (c, [])) in (api_ws_server_client_unref c1, shut))"

text \<open>The new client, if there is one, and the descriptors that are closed. \<open>listener_ok\<close> and \<open>create_ok\<close> tell whether the listener and the socket can be
  created.\<close>

definition api_ws_server_accept :: "bool \<Rightarrow> bool \<Rightarrow> int \<Rightarrow> bool \<Rightarrow> string \<Rightarrow> api_ws_client option \<times> int list" where
  "api_ws_server_accept calloc_ok listener_ok accepted_fd create_ok api =
     (if \<not> calloc_ok then (None, [])
      else if \<not> listener_ok then (None, [])
      else if accepted_fd < 0 then (None, [])
      else if \<not> create_ok then (None, [accepted_fd])
      else (Some \<lparr>sc_api = api, sc_refcount = 1, sc_fd = accepted_fd, sc_ws = True, sc_listener = True, sc_sent = []\<rparr>, []))"

section \<open>Serving\<close>

record api_ws_server =
  sv_path :: string
  sv_api :: string
  sv_fd :: int
  sv_listensrc :: bool

definition api_ws_server_disconnect :: "api_ws_server \<Rightarrow> api_ws_server \<times> int list" where
  "api_ws_server_disconnect v = (v\<lparr>sv_listensrc := False, sv_fd := (if sv_fd v \<ge> 0 then -1 else sv_fd v)\<rparr>, if sv_fd v \<ge> 0 then [sv_fd v] else [])"

definition api_ws_server_connect :: "net \<Rightarrow> bool \<Rightarrow> api_ws_server \<Rightarrow> api_ws_server \<times> int \<times> int list" where
  "api_ws_server_connect net add_io_ok v =
     (case api_ws_server_disconnect v of
        (v1, shut) \<Rightarrow>
          (case api_ws_socket net (sv_path v) True of
             (fd, shut2, _) \<Rightarrow>
               if fd < 0 then (v1\<lparr>sv_fd := fd\<rparr>, -1, shut @ shut2)
               else if add_io_ok then (v1\<lparr>sv_fd := fd, sv_listensrc := True\<rparr>, 0, shut @ shut2)
               else (v1\<lparr>sv_fd := fd\<rparr>, -1, shut @ shut2 @ [fd])))"

definition afb_api_ws_add_server :: "net \<Rightarrow> bool \<Rightarrow> bool \<Rightarrow> string \<Rightarrow> api_ws_server option \<times> int" where
  "afb_api_ws_add_server net calloc_ok add_io_ok path =
     (case api_ws_make calloc_ok path of
        Inl _ \<Rightarrow> (None, -1)
      | Inr (p, api) \<Rightarrow>
          (case api_ws_server_connect net add_io_ok \<lparr>sv_path = p, sv_api = api, sv_fd = -1, sv_listensrc = False\<rparr> of
             (v, rc, _) \<Rightarrow> if rc < 0 then (None, -1) else (Some v, 0)))"

text \<open>What the event loop does with the listening socket: the new client, and the server after it.\<close>

definition api_ws_server_listen_callback ::
  "net \<Rightarrow> bool \<Rightarrow> (string \<Rightarrow> api_ws_client option \<times> int list) \<Rightarrow> bool \<Rightarrow> bool \<Rightarrow> api_ws_server \<Rightarrow> api_ws_client option \<times> api_ws_server" where
  "api_ws_server_listen_callback net add_io_ok accept pollin pollhup v =
     ((if pollin then fst (accept (sv_api v)) else None), (if pollhup then fst (api_ws_server_connect net add_io_ok v) else v))"

section \<open>Identifiers of calls\<close>

definition memo_ids :: "('q, 'e, 'j) api_ws \<Rightarrow> 32 word list" where
  "memo_ids w = map mm_msgid (aw_memos w)"

lemma memo_search_None: "api_ws_client_memo_search i w = None \<longleftrightarrow> i \<notin> set (memo_ids w)"
  by (auto simp: api_ws_client_memo_search_def memo_ids_def find_None_iff)

lemma memo_search_found:
  assumes "distinct (memo_ids w)" "m \<in> set (aw_memos w)"
  shows "api_ws_client_memo_search (mm_msgid m) w = Some m"
proof -
  obtain n where n: "api_ws_client_memo_search (mm_msgid m) w = Some n" using assms(2) memo_search_None [of "mm_msgid m" w] by (auto simp: memo_ids_def)
  then have "n \<in> set (aw_memos w)" "mm_msgid n = mm_msgid m" by (auto simp: api_ws_client_memo_search_def find_Some_iff)
  then show ?thesis using assms n by (auto simp: memo_ids_def distinct_map inj_on_def)
qed

lemma next_msgid_Some: "next_msgid fuel i w = Some j \<Longrightarrow> j \<notin> set (memo_ids w)"
  by (induction fuel arbitrary: i) (auto simp: memo_search_None split: if_splits)

lemma next_msgid_None: "next_msgid fuel i w = None \<Longrightarrow> k < fuel \<Longrightarrow> i + of_nat (Suc k) \<in> set (memo_ids w)"
proof (induction fuel arbitrary: i k)
  case (Suc fuel)
  from Suc.prems(1) have h: "i + 1 \<in> set (memo_ids w)" "next_msgid fuel (i + 1) w = None" by (auto simp: memo_search_None split: if_splits)
  show ?case
  proof (cases k)
    case 0
    with h(1) show ?thesis by simp
  next
    case (Suc k')
    with Suc.IH [OF h(2), of k'] Suc.prems(2) show ?thesis by (simp add: add.assoc)
  qed
qed simp

lemma word_offsets_inj: "inj_on (\<lambda>k. i + of_nat (Suc k) :: 32 word) {..<2 ^ 32}"
proof (rule inj_onI)
  fix j k :: nat
  assume jk: "j \<in> {..<2 ^ 32}" "k \<in> {..<2 ^ 32}" "i + of_nat (Suc j) = (i + of_nat (Suc k) :: 32 word)"
  then have "(of_nat j :: 32 word) = of_nat k" by simp
  then have "unat (of_nat j :: 32 word) = unat (of_nat k :: 32 word)" by simp
  with jk(1,2) show "j = k" by (simp add: unat_of_nat_32)
qed

lemma next_msgid_total:
  assumes "length (aw_memos w) < 2 ^ 32"
  shows "\<exists>j. next_msgid (Suc (length (aw_memos w))) i w = Some j"
proof (rule ccontr)
  assume "\<not> ?thesis"
  then have n: "next_msgid (Suc (length (aw_memos w))) i w = None" by simp
  have l: "card (set (memo_ids w)) \<le> length (aw_memos w)" using card_length [of "memo_ids w"] by (simp add: memo_ids_def)
  then have "card (set (memo_ids w)) < 2 ^ 32" using assms by simp
  from free_within [OF word_offsets_inj [of i] _ this] obtain k where "k \<le> card (set (memo_ids w))" "i + of_nat (Suc k) \<notin> set (memo_ids w)" by auto
  with next_msgid_None [OF n, of k] l show False by simp
qed

lemma memo_make_ok:
  assumes "length (aw_memos w) < 2 ^ 32"
  shows "\<exists>i. api_ws_client_memo_make True req w =
      Some (w\<lparr>aw_id := i, aw_memos := \<lparr>mm_req = req, mm_msgid = i\<rparr> # aw_memos w, aw_log := aw_log w @ [Req_addref req]\<rparr>, Some \<lparr>mm_req = req, mm_msgid = i\<rparr>)
    \<and> i \<notin> set (memo_ids w)"
proof -
  obtain j where j: "next_msgid (Suc (length (aw_memos w))) (aw_id w) w = Some j" using next_msgid_total [OF assms] by blast
  with next_msgid_Some [OF j] show ?thesis by (simp add: api_ws_client_memo_make_def emit_def Let_def del: next_msgid.simps)
qed

section \<open>Calls cross\<close>

lemma consumes_bind_return: "consumes f bs a \<Longrightarrow> consumes (rd_bind f (\<lambda>a. rd_return (g a))) bs (g a)"
  using consumes_bind [where g = "\<lambda>a. rd_return (g a)" and cs = "[]", OF _ consumes_return] by fastforce

lemma read_call_wire:
  assumes "length v + 1 < 2 ^ 32" "length u + 1 < 2 ^ 32" "length q + 1 < 2 ^ 32"
  shows "read_call \<lparr>rb_data = le32 i @ le32 f @ wire_string v @ wire_string u @ wire_string q, rb_head = 0\<rparr> =
    Some (\<lparr>rb_data = le32 i @ le32 f @ wire_string v @ wire_string u @ wire_string q,
      rb_head = length (le32 i @ le32 f @ wire_string v @ wire_string u @ wire_string q)\<rparr>, Some (i, f, v, u, q))"
proof -
  have c: "consumes read_call (le32 i @ le32 f @ wire_string v @ wire_string u @ wire_string q) (i, f, v, u, q)"
    unfolding read_call_def
    by (rule consumes_bind [OF consumes_uint32] consumes_bind [OF consumes_string [OF assms(1)]] consumes_bind [OF consumes_string [OF assms(2)]]
        consumes_bind_return [OF consumes_string [OF assms(3)]])+
  show ?thesis using c unfolding consumes_def by (metis append_Nil append_Nil2 list.size(3) add_0)
qed

lemma client_call_message:
  assumes "length (aw_memos w) < 2 ^ 32" "ac_session x = Some a" "ctxClientGetUuid s a = Some u" "length u + 1 < 2 ^ 32"
    and "lenverb \<le> length verb" "lenverb + 1 < 2 ^ 32" "n < length text" "text ! n = NUL" "n + 1 < 2 ^ 32" "\<forall>wb. 0 \<le> send wb"
  shows "\<exists>w' i wb. api_ws_client_call_cb True send s req x (Some (text, n)) verb lenverb w = Some w'
    \<and> aw_memos w' = \<lparr>mm_req = req, mm_msgid = i\<rparr> # aw_memos w \<and> i \<notin> set (memo_ids w) \<and> aw_log w' = aw_log w @ [Req_addref req, Sent wb]
    \<and> concat wb = le32 i @ le32 (context_flags x) @ wire_string (take lenverb verb) @ wire_string u @ wire_string (take n text)"
proof -
  from memo_make_ok [OF assms(1), of req] obtain i where
    i: "api_ws_client_memo_make True req w =
      Some (w\<lparr>aw_id := i, aw_memos := \<lparr>mm_req = req, mm_msgid = i\<rparr> # aw_memos w, aw_log := aw_log w @ [Req_addref req]\<rparr>, Some \<lparr>mm_req = req, mm_msgid = i\<rparr>)"
      "i \<notin> set (memo_ids w)" by blast
  let ?b2 = "[le32 i, le32 (context_flags x)]"
  from write_string_nz_Some [of ?b2 lenverb verb] assms(5,6) obtain b3 where
    b3: "api_ws_write_string_nz verb lenverb ?b2 = Some b3" "concat b3 = concat ?b2 @ wire_string (take lenverb verb)" "length b3 = 5" by auto
  from write_string_Some [of b3 u] assms(4) b3 obtain b4 where
    b4: "api_ws_write_string u b3 = Some b4" "concat b4 = concat b3 @ wire_string u" "length b4 = 7" by auto
  from write_string_length_Some [of b4 n "text"] assms(7-9) b4 obtain wb where
    wb: "api_ws_write_string_length text n b4 = Some wb" "concat wb = concat b4 @ wire_string (take n text)" by auto
  have "\<not> send wb < 0" using assms(10) by (simp add: not_less)
  with i b3 b4 wb assms(2,3) show ?thesis
    by (simp add: api_ws_client_call_cb_def write_uint32_Some emit_def)
qed

text \<open>C6. A call forwarded to another binder arrives as it was made: the client records the call under an identifier that no pending call has and sends one
  message; the server that receives it calls its api, once, with the verb, with the request text byte for byte, with the identifier, and with a context that has
  the flags and levels of the caller's (token checks and level of assurance included) in the session of the same uuid of the server.\<close>

theorem remote_call_roundtrip:
  assumes "length (aw_memos w) < 2 ^ 32" "ac_session x = Some a" "ctxClientGetUuid s a = Some u" "is_cstring u" "length u + 1 < 2 ^ 32"
    and "lenverb \<le> length verb" "is_cstring verb" "lenverb + 1 < 2 ^ 32" "n < length text" "text ! n = NUL" "n + 1 < 2 ^ 32" "\<forall>wb. 0 \<le> send wb"
    and "afb_context_connect t (Some u) None now p nu = Some (t1, Inr y)" "afb_apis_call_full apis (sc_api c) = Some (k, api)"
  shows "\<exists>w' i wb. api_ws_client_call_cb True send s req x (Some (text, n)) verb lenverb w = Some w'
    \<and> aw_memos w' = \<lparr>mm_req = req, mm_msgid = i\<rparr> # aw_memos w \<and> i \<notin> set (memo_ids w) \<and> aw_log w' = aw_log w @ [Req_addref req, Sent wb]
    \<and> api_ws_server_on_binary call apis rsend True now p nu (concat wb) (t, c) =
        do { st \<leftarrow> call api (take lenverb verb) (t1, c\<lparr>sc_refcount := sc_refcount c + 1\<rparr>,
               \<lparr>wr_context = x\<lparr>ac_session := ac_session y, ac_api_index := int k\<rparr>, wr_json = None, wr_request = take n text, wr_lenreq = n,
                wr_refcount = 1, wr_msgid = i, wr_data = True\<rparr>);
             (s2, c2, r2) \<leftarrow> api_ws_server_req_unref now nu st;
             Some (s2, c2, Some r2) }"
proof -
  from client_call_message [where req = req, OF assms(1-3,5,6,8-12)] obtain w' i wb where
    w: "api_ws_client_call_cb True send s req x (Some (text, n)) verb lenverb w = Some w'" "aw_memos w' = \<lparr>mm_req = req, mm_msgid = i\<rparr> # aw_memos w"
      "i \<notin> set (memo_ids w)" "aw_log w' = aw_log w @ [Req_addref req, Sent wb]"
      "concat wb = le32 i @ le32 (context_flags x) @ wire_string (take lenverb verb) @ wire_string u @ wire_string (take n text)" by blast
  have len: "length (take lenverb verb) + 1 < 2 ^ 32" "length (take n text) + 1 < 2 ^ 32" using assms(6,8,9,11) by auto
  have cs: "cstr (take lenverb verb) = take lenverb verb" "cstr u = u"
    using is_cstring_take [OF assms(7), of lenverb] assms(4) by (auto simp: cstr_def is_cstring_def takeWhile_eq_all_conv)
  have n: "min (length text) n = n" using assms(9) by simp
  have "api_ws_server_on_binary call apis rsend True now p nu (concat wb) (t, c) =
        do { st \<leftarrow> call api (take lenverb verb) (t1, c\<lparr>sc_refcount := sc_refcount c + 1\<rparr>,
               \<lparr>wr_context = x\<lparr>ac_session := ac_session y, ac_api_index := int k\<rparr>, wr_json = None, wr_request = take n text, wr_lenreq = n,
                wr_refcount = 1, wr_msgid = i, wr_data = True\<rparr>);
             (s2, c2, r2) \<leftarrow> api_ws_server_req_unref now nu st;
             Some (s2, c2, Some r2) }"
    unfolding w(5) api_ws_server_on_binary_def api_ws_server_called_def read_call_wire [OF len(1) assms(5) len(2)]
    using assms(13,14) by (simp add: Let_def cs n set_context_flags_of)
  with w(1-4) show ?thesis by blast
qed

section \<open>Replies cross\<close>

lemma first_char: "hd (chars_of [hd (bytes_of [c] @ bs)]) = c" "bytes_of [c] @ bs \<noteq> []" "length (bytes_of [c]) = 1"
  using chars_of_bytes_of [of "[c]"] by (simp_all add: bytes_of_def chars_of_def)

lemma bytes_of_eq_Nil [simp]: "bytes_of s = [] \<longleftrightarrow> s = []"
  by (simp add: bytes_of_def)

lemma on_reply_wire:
  assumes "distinct (memo_ids w)" "m \<in> set (aw_memos w)" "consumes rest bs v"
  shows "on_reply rest answer w \<lparr>rb_data = bytes_of [ch] @ le32 (mm_msgid m) @ bs, rb_head = 1\<rparr> =
    Some (api_ws_client_memo_destroy m (emit (answer (mm_req m) v) w))"
proof -
  let ?d = "bytes_of [ch] @ le32 (mm_msgid m) @ bs"
  have "consumes (api_ws_client_msg_memo_get w) (le32 (mm_msgid m) @ []) m"
    unfolding api_ws_client_msg_memo_get_def
    by (rule consumes_bind [OF consumes_uint32]) (simp add: memo_search_found [OF assms(1,2)] consumes_return)
  from this [unfolded consumes_def, rule_format, of "bytes_of [ch]" bs]
  have "api_ws_client_msg_memo_get w \<lparr>rb_data = ?d, rb_head = 1\<rparr> = Some (\<lparr>rb_data = ?d, rb_head = 5\<rparr>, Some m)" by simp
  moreover have "rest \<lparr>rb_data = ?d, rb_head = 5\<rparr> = Some (\<lparr>rb_data = ?d, rb_head = 5 + length bs\<rparr>, Some v)"
    using assms(3) [unfolded consumes_def, rule_format, of "bytes_of [ch] @ le32 (mm_msgid m)" "[]"] by simp
  ultimately show ?thesis by (simp add: on_reply_def on_read_def)
qed

text \<open>The three first parts of a reply.\<close>

lemma reply_start:
  "do { b1 \<leftarrow> api_ws_write_char ch []; b2 \<leftarrow> api_ws_write_uint32 i b1; b3 \<leftarrow> api_ws_write_uint32 f b2; k b3 } = k [bytes_of [ch], le32 i, le32 f]"
  by (simp add: write_char_Some write_uint32_Some)

definition answered :: "('q, 'e, 'j) aw_action list \<Rightarrow> 'q api_ws_memo \<Rightarrow> ('q, 'e, 'j) api_ws \<Rightarrow> ('q, 'e, 'j) api_ws" where
  "answered acts m w = w\<lparr>aw_memos := remove1 m (aw_memos w), aw_log := aw_log w @ acts @ [Req_unref (mm_req m)]\<rparr>"

lemma destroy_answered: "api_ws_client_memo_destroy m (emit acts w) = answered acts m w"
  by (simp add: api_ws_client_memo_destroy_def emit_def answered_def)

lemma info_sent: "is_cstring i \<Longrightarrow> info_or_null i = (if i = [] then None else Some i)"
  by (cases i) (auto simp: info_or_null_def cstr_def is_cstring_def takeWhile_eq_all_conv)

lemma success_crosses:
  assumes "distinct (memo_ids w)" "m \<in> set (aw_memos w)" "wr_msgid r = mm_msgid m" "\<forall>wb. 0 \<le> send wb"
    and "print obj = Some t" "ev_parse env t = obj" "(obj \<noteq> None) = (t \<noteq> ''null'')" "is_cstring t" "length t + 1 < 2 ^ 32"
    and "is_cstring (case info of None \<Rightarrow> [] | Some i \<Rightarrow> i)" "length (case info of None \<Rightarrow> [] | Some i \<Rightarrow> i) + 1 < 2 ^ 32"
  shows "\<exists>wb. sc_sent (api_ws_server_req_success_cb print send r obj info c) = sc_sent c @ [wb]
    \<and> api_ws_client_on_binary env (concat wb) w =
        Some (answered [Set_flags (mm_req m) (context_flags (wr_context r)), Req_success (mm_req m) obj (if info = Some [] then None else info)] m w)"
proof -
  let ?i = "case info of None \<Rightarrow> [] | Some i \<Rightarrow> i" and ?f = "context_flags (wr_context r)"
  let ?b3 = "[bytes_of ''T'', le32 (wr_msgid r), le32 ?f]"
  from write_string_Some [of ?b3 ?i] assms(11) obtain b4 where
    b4: "api_ws_write_string ?i ?b3 = Some b4" "concat b4 = concat ?b3 @ wire_string ?i" "length b4 = 5" by auto
  from write_string_Some [of b4 t] assms(9) b4 obtain wb where
    wb: "api_ws_write_string t b4 = Some wb" "concat wb = concat b4 @ wire_string t" by auto
  have sent: "sc_sent (api_ws_server_req_success_cb print send r obj info c) = sc_sent c @ [wb]"
    using assms(4,5) b4 wb by (simp add: api_ws_server_req_success_cb_def send_message_def reply_start api_ws_write_object_def)
  have data: "concat wb = bytes_of ''T'' @ le32 (mm_msgid m) @ le32 ?f @ wire_string ?i @ wire_string t"
    using b4(2) wb(2) assms(3) by simp
  have cons: "consumes (rd_bind api_ws_read_uint32 (\<lambda>flags. rd_bind api_ws_read_string (\<lambda>info. rd_bind (api_ws_read_object (ev_parse env)) (\<lambda>obj. rd_return (flags, info, obj)))))
      (le32 ?f @ wire_string ?i @ wire_string t) (?f, ?i, obj)"
    by (rule consumes_bind [OF consumes_uint32] consumes_bind [OF consumes_string [OF assms(11)]]
        consumes_bind_return [OF consumes_object [where print = print and obj = obj and s = t and parse = "ev_parse env", OF assms(5,9,8,6,7)]])+
  have "info_or_null ?i = (if info = Some [] then None else info)" using info_sent [OF assms(10)] by (cases info) auto
  then have "api_ws_client_on_binary env (concat wb) w =
      Some (answered [Set_flags (mm_req m) ?f, Req_success (mm_req m) obj (if info = Some [] then None else info)] m w)"
    unfolding data api_ws_client_on_binary_def Let_def first_char api_ws_client_reply_success_def on_reply_wire [OF assms(1,2) cons]
    by (simp add: first_char(2) destroy_answered)
  with sent show ?thesis by blast
qed

lemma fail_crosses:
  assumes "distinct (memo_ids w)" "m \<in> set (aw_memos w)" "wr_msgid r = mm_msgid m" "\<forall>wb. 0 \<le> send wb"
    and "is_cstring status" "length status + 1 < 2 ^ 32"
    and "is_cstring (case info of None \<Rightarrow> [] | Some i \<Rightarrow> i)" "length (case info of None \<Rightarrow> [] | Some i \<Rightarrow> i) + 1 < 2 ^ 32"
  shows "\<exists>wb. sc_sent (api_ws_server_req_fail_cb send r status info c) = sc_sent c @ [wb]
    \<and> api_ws_client_on_binary env (concat wb) w =
        Some (answered [Set_flags (mm_req m) (context_flags (wr_context r)), Req_fail (mm_req m) status (if info = Some [] then None else info)] m w)"
proof -
  let ?i = "case info of None \<Rightarrow> [] | Some i \<Rightarrow> i" and ?f = "context_flags (wr_context r)"
  let ?b3 = "[bytes_of ''F'', le32 (wr_msgid r), le32 ?f]"
  from write_string_Some [of ?b3 status] assms(6) obtain b4 where
    b4: "api_ws_write_string status ?b3 = Some b4" "concat b4 = concat ?b3 @ wire_string status" "length b4 = 5" by auto
  from write_string_Some [of b4 ?i] assms(8) b4 obtain wb where
    wb: "api_ws_write_string ?i b4 = Some wb" "concat wb = concat b4 @ wire_string ?i" by auto
  have sent: "sc_sent (api_ws_server_req_fail_cb send r status info c) = sc_sent c @ [wb]"
    using assms(4) b4 wb by (simp add: api_ws_server_req_fail_cb_def send_message_def reply_start)
  have data: "concat wb = bytes_of ''F'' @ le32 (mm_msgid m) @ le32 ?f @ wire_string status @ wire_string ?i"
    using b4(2) wb(2) assms(3) by simp
  have cons: "consumes (rd_bind api_ws_read_uint32 (\<lambda>flags. rd_bind api_ws_read_string (\<lambda>status. rd_bind api_ws_read_string (\<lambda>info. rd_return (flags, status, info)))))
      (le32 ?f @ wire_string status @ wire_string ?i) (?f, status, ?i)"
    by (rule consumes_bind [OF consumes_uint32] consumes_bind [OF consumes_string [OF assms(6)]] consumes_bind_return [OF consumes_string [OF assms(8)]])+
  have "info_or_null ?i = (if info = Some [] then None else info)" using info_sent [OF assms(7)] by (cases info) auto
  moreover have "cstr status = status" using assms(5) by (auto simp: cstr_def is_cstring_def takeWhile_eq_all_conv)
  ultimately have "api_ws_client_on_binary env (concat wb) w =
      Some (answered [Set_flags (mm_req m) ?f, Req_fail (mm_req m) status (if info = Some [] then None else info)] m w)"
    unfolding data api_ws_client_on_binary_def Let_def first_char api_ws_client_reply_fail_def on_reply_wire [OF assms(1,2) cons]
    by (simp add: destroy_answered)
  with sent show ?thesis by blast
qed

lemma send_crosses:
  assumes "distinct (memo_ids w)" "m \<in> set (aw_memos w)" "wr_msgid r = mm_msgid m" "\<forall>wb. 0 \<le> send wb"
    and "n < length buffer" "buffer ! n = NUL" "n + 1 < 2 ^ 32"
  shows "\<exists>wb. sc_sent (api_ws_server_req_send_cb send r buffer n c) = sc_sent c @ [wb]
    \<and> api_ws_client_on_binary env (concat wb) w =
        Some (answered [Set_flags (mm_req m) (context_flags (wr_context r)), Req_send (mm_req m) (take n buffer) n] m w)"
proof -
  let ?f = "context_flags (wr_context r)"
  let ?b3 = "[bytes_of ''X'', le32 (wr_msgid r), le32 ?f]"
  from write_string_length_Some [of ?b3 n buffer] assms(5-7) obtain wb where
    wb: "api_ws_write_string_length buffer n ?b3 = Some wb" "concat wb = concat ?b3 @ wire_string (take n buffer)" by auto
  have sent: "sc_sent (api_ws_server_req_send_cb send r buffer n c) = sc_sent c @ [wb]"
    using assms(4) wb by (simp add: api_ws_server_req_send_cb_def send_message_def reply_start)
  have data: "concat wb = bytes_of ''X'' @ le32 (mm_msgid m) @ le32 ?f @ wire_string (take n buffer)" using wb(2) assms(3) by simp
  have len: "length (take n buffer) + 1 < 2 ^ 32" "min (length buffer) n = n" using assms(5,7) by simp_all
  have cons: "consumes (rd_bind api_ws_read_uint32 (\<lambda>flags. rd_bind api_ws_read_string (\<lambda>data. rd_return (flags, data))))
      (le32 ?f @ wire_string (take n buffer)) (?f, take n buffer)"
    by (rule consumes_bind [OF consumes_uint32] consumes_bind_return [OF consumes_string [OF len(1)]])+
  have "api_ws_client_on_binary env (concat wb) w = Some (answered [Set_flags (mm_req m) ?f, Req_send (mm_req m) (take n buffer) n] m w)"
    unfolding data api_ws_client_on_binary_def Let_def first_char api_ws_client_reply_send_def on_reply_wire [OF assms(1,2) cons]
    by (simp add: destroy_answered len(2))
  with sent show ?thesis by blast
qed

text \<open>A reply with the identifier of no pending call is ignored.\<close>

lemma on_reply_unknown:
  assumes "i \<notin> set (memo_ids w)"
  shows "on_reply rest answer w \<lparr>rb_data = bytes_of [ch] @ le32 i @ bs, rb_head = 1\<rparr> = Some w"
proof -
  let ?d = "bytes_of [ch] @ le32 i @ bs"
  have "api_ws_read_uint32 \<lparr>rb_data = ?d, rb_head = 1\<rparr> = Some (\<lparr>rb_data = ?d, rb_head = 5\<rparr>, Some i)"
    using consumes_uint32 [of i, unfolded consumes_def, rule_format, of "bytes_of [ch]" bs] by simp
  then show ?thesis
    using assms memo_search_None [of i w] by (simp add: on_reply_def api_ws_client_msg_memo_get_def rd_bind_def rd_fail_def)
qed

lemma unknown_reply_ignored:
  assumes "i \<notin> set (memo_ids w)" "ch = CHR ''T'' \<or> ch = CHR ''F'' \<or> ch = CHR ''X''"
  shows "api_ws_client_on_binary env (bytes_of [ch] @ le32 i @ bs) w = Some w"
  using assms(2)
  unfolding api_ws_client_on_binary_def Let_def first_char api_ws_client_reply_success_def api_ws_client_reply_fail_def api_ws_client_reply_send_def
    on_reply_unknown [OF assms(1)]
  by (elim disjE) simp_all

text \<open>C33. A reply of the other binder answers the call it is for, once: for a pending call of the client, the success, the failure or the raw reply that the server
  sends for the request with its identifier sets the flags of the caller's context to the ones of the server's and then answers the request of this call, with the
  same object and text, releases it, and takes the call out of the pending ones and no other; when identifiers are unique they stay so, and any later reply with
  this identifier is ignored.\<close>

theorem remote_reply_roundtrip:
  assumes "distinct (memo_ids w)" "m \<in> set (aw_memos w)" "wr_msgid r = mm_msgid m" "\<forall>wb. 0 \<le> send wb"
    and "print obj = Some t" "ev_parse env t = obj" "(obj \<noteq> None) = (t \<noteq> ''null'')" "is_cstring t" "length t + 1 < 2 ^ 32"
    and "is_cstring info" "length info + 1 < 2 ^ 32" "is_cstring status" "length status + 1 < 2 ^ 32"
    and "n < length buffer" "buffer ! n = NUL" "n + 1 < 2 ^ 32"
  shows "(\<exists>wb. sc_sent (api_ws_server_req_success_cb print send r obj (Some info) c) = sc_sent c @ [wb] \<and> api_ws_client_on_binary env (concat wb) w =
        Some (answered [Set_flags (mm_req m) (context_flags (wr_context r)), Req_success (mm_req m) obj (if info = [] then None else Some info)] m w))
    \<and> (\<exists>wb. sc_sent (api_ws_server_req_fail_cb send r status (Some info) c) = sc_sent c @ [wb] \<and> api_ws_client_on_binary env (concat wb) w =
        Some (answered [Set_flags (mm_req m) (context_flags (wr_context r)), Req_fail (mm_req m) status (if info = [] then None else Some info)] m w))
    \<and> (\<exists>wb. sc_sent (api_ws_server_req_send_cb send r buffer n c) = sc_sent c @ [wb] \<and> api_ws_client_on_binary env (concat wb) w =
        Some (answered [Set_flags (mm_req m) (context_flags (wr_context r)), Req_send (mm_req m) (take n buffer) n] m w))
    \<and> distinct (memo_ids (answered acts m w))
    \<and> (\<forall>ch bs. ch = CHR ''T'' \<or> ch = CHR ''F'' \<or> ch = CHR ''X'' \<longrightarrow>
          api_ws_client_on_binary env (bytes_of [ch] @ le32 (mm_msgid m) @ bs) (answered acts m w) = Some (answered acts m w))"
proof (intro conjI allI impI)
  have i: "is_cstring (case Some info of None \<Rightarrow> [] | Some i \<Rightarrow> i)" "length (case Some info of None \<Rightarrow> [] | Some i \<Rightarrow> i) + 1 < 2 ^ 32" using assms(10,11) by simp_all
  show "\<exists>wb. sc_sent (api_ws_server_req_success_cb print send r obj (Some info) c) = sc_sent c @ [wb] \<and> api_ws_client_on_binary env (concat wb) w =
        Some (answered [Set_flags (mm_req m) (context_flags (wr_context r)), Req_success (mm_req m) obj (if info = [] then None else Some info)] m w)"
    using success_crosses [where info = "Some info" and print = print and obj = obj and env = env and c = c, OF assms(1-9) i] by simp
  show "\<exists>wb. sc_sent (api_ws_server_req_fail_cb send r status (Some info) c) = sc_sent c @ [wb] \<and> api_ws_client_on_binary env (concat wb) w =
        Some (answered [Set_flags (mm_req m) (context_flags (wr_context r)), Req_fail (mm_req m) status (if info = [] then None else Some info)] m w)"
    using fail_crosses [where info = "Some info" and env = env and c = c, OF assms(1-4,12,13) i] by simp
  show "\<exists>wb. sc_sent (api_ws_server_req_send_cb send r buffer n c) = sc_sent c @ [wb] \<and> api_ws_client_on_binary env (concat wb) w =
        Some (answered [Set_flags (mm_req m) (context_flags (wr_context r)), Req_send (mm_req m) (take n buffer) n] m w)"
    by (rule send_crosses [OF assms(1-4,14-16)])
  have ids: "memo_ids (answered acts m w) = remove1 (mm_msgid m) (memo_ids w)"
    using assms(1,2) map_remove1_distinct [of mm_msgid "aw_memos w" m] by (simp add: answered_def memo_ids_def)
  then show "distinct (memo_ids (answered acts m w))" using assms(1) by simp
  have "mm_msgid m \<notin> set (memo_ids (answered acts m w))" unfolding ids using assms(1) by (simp add: set_remove1_eq)
  then show "api_ws_client_on_binary env (bytes_of [ch] @ le32 (mm_msgid m) @ bs) (answered acts m w) = Some (answered acts m w)"
    if "ch = CHR ''T'' \<or> ch = CHR ''F'' \<or> ch = CHR ''X''" for ch bs using that by (rule unknown_reply_ignored)
qed

definition demo_api_ws :: "(nat, nat, nat) api_ws" where
  "demo_api_ws = \<lparr>aw_path = ''unix:/run/hello'', aw_api = ''hello'', aw_fd = 5, aw_ws = True, aw_id = 0xFFFFFFFF, aw_memos = [\<lparr>mm_req = 3, mm_msgid = 0\<rparr>],
     aw_events = [], aw_log = []\<rparr>"

definition demo_sclient :: api_ws_client where
  "demo_sclient = \<lparr>sc_api = ''hello'', sc_refcount = 1, sc_fd = 6, sc_ws = True, sc_listener = True, sc_sent = []\<rparr>"

definition demo_server_req :: "32 word \<Rightarrow> nat api_ws_server_req" where
  "demo_server_req i = \<lparr>wr_context = the (init_context demo_session (Some 7) None 10), wr_json = None, wr_request = ''{}'', wr_lenreq = 2, wr_refcount = 1,
     wr_msgid = i, wr_data = True\<rparr>"

definition demo_aw_env :: "(nat, nat) aw_env" where
  "demo_aw_env = \<lparr>ev_name = (\<lambda>_. ''hello/tick''), ev_create = (\<lambda>_. Some 0), ev_malloc = True, ev_parse = (\<lambda>s. if s = ''42'' then Some 42 else None)\<rparr>"

lemma demo_uuid_facts: "ctxClientGetUuid demo_session 7 = Some demo_uuid" "is_cstring demo_uuid" "length demo_uuid + 1 < 2 ^ 32"
  by (simp_all add: ctxClientGetUuid_def demo_session_def demo_ctx_def demo_uuid_def NUL_def is_cstring_def)

lemma demo_connect_no_token:
  "\<exists>s1 x. afb_context_connect demo_session (Some demo_uuid) None 10 (Some 8) (replicate 36 CHR ''c'') = Some (s1, Inr x)"
proof -
  have "ctxStoreCleanUp demo_session 10 = Some demo_session"
    by (simp add: ctxStoreCleanUp_def cleanup_slot_def demo_session_def demo_store_eq demo_ctx_def ctxStoreTooOld_def upt_rec)
  then show ?thesis
    by (auto simp: afb_context_connect_def ctxClientGetSession_def ctxStoreSearch_def demo_session_def demo_store_eq
        demo_ctx_def put_ctx_def init_context_def ctxClientGetLOA_def demo_uuid_def)
qed

text \<open>An api that keeps the request by a second reference and notes the verb in the name of the client.\<close>

definition noting_call ::
  "unit \<Rightarrow> string \<Rightarrow> sessions \<times> api_ws_client \<times> nat api_ws_server_req \<Rightarrow> (sessions \<times> api_ws_client \<times> nat api_ws_server_req) option" where
  "noting_call a verb = (\<lambda>(s, c, r). Some (s, c\<lparr>sc_api := verb\<rparr>, api_ws_server_req_addref_cb r))"

theorem remote_call_roundtrip_witness:
  "\<exists>x w' i wb t1 c2 r2. init_context demo_session (Some 7) None 10 = Some x
    \<and> api_ws_client_call_cb True (\<lambda>_. 0) demo_session 9 x (Some (''{}'' @ [NUL], 2)) ''ping/x'' 4 demo_api_ws = Some w'
    \<and> aw_memos w' = \<lparr>mm_req = 9, mm_msgid = i\<rparr> # aw_memos demo_api_ws \<and> i \<noteq> 0 \<and> aw_log w' = [Req_addref 9, Sent wb]
    \<and> api_ws_server_on_binary noting_call [\<lparr>ad_api = (), ad_name = ''hello'', ad_namelen = 5\<rparr>] (\<lambda>_. 0) True 10 (Some 8) (replicate 36 CHR ''c'')
        (concat wb) (demo_session, demo_sclient) = Some (t1, c2, Some r2)
    \<and> sc_api c2 = ''ping'' \<and> wr_request r2 = ''{}'' \<and> wr_msgid r2 = i"
proof -
  let ?apis = "[\<lparr>ad_api = (), ad_name = ''hello'', ad_namelen = 5\<rparr>]" and ?nu = "replicate 36 CHR ''c''"
  obtain x where x: "init_context demo_session (Some 7) None 10 = Some x" using init_context_total [of demo_session 7 demo_ctx] by (auto simp: demo_session_def)
  obtain t1 y where y: "afb_context_connect demo_session (Some demo_uuid) None 10 (Some 8) ?nu = Some (t1, Inr y)" using demo_connect_no_token by blast
  have 1: "length (aw_memos demo_api_ws) < 2 ^ 32" "4 \<le> length ''ping/x''" "is_cstring ''ping/x''" "4 + 1 < (2 :: nat) ^ 32"
    "2 < length (''{}'' @ [NUL])" "(''{}'' @ [NUL]) ! 2 = NUL" "2 + 1 < (2 :: nat) ^ 32" "\<forall>wb :: writebuf. 0 \<le> (0 :: int)"
    by (simp_all add: demo_api_ws_def NUL_def)
  have 2: "afb_apis_call_full ?apis (sc_api demo_sclient) = Some (0, ())"
    by (simp add: afb_apis_call_full_def afb_apis_call_def api_matches_def demo_sclient_def strncasecmp_def)
  from remote_call_roundtrip [OF 1(1) init_context_session [OF x] demo_uuid_facts 1(2-8) y 2, of 9 noting_call "\<lambda>_. 0"] obtain w' i wb where
    w: "api_ws_client_call_cb True (\<lambda>_. 0) demo_session 9 x (Some (''{}'' @ [NUL], 2)) ''ping/x'' 4 demo_api_ws = Some w'"
      "aw_memos w' = \<lparr>mm_req = 9, mm_msgid = i\<rparr> # aw_memos demo_api_ws" "i \<notin> set (memo_ids demo_api_ws)"
      "aw_log w' = aw_log demo_api_ws @ [Req_addref 9, Sent wb]"
      "api_ws_server_on_binary noting_call ?apis (\<lambda>_. 0) True 10 (Some 8) ?nu (concat wb) (demo_session, demo_sclient) =
        do { st \<leftarrow> noting_call () (take 4 ''ping/x'') (t1, demo_sclient\<lparr>sc_refcount := sc_refcount demo_sclient + 1\<rparr>,
               \<lparr>wr_context = x\<lparr>ac_session := ac_session y, ac_api_index := int 0\<rparr>, wr_json = None, wr_request = take 2 (''{}'' @ [NUL]), wr_lenreq = 2,
                wr_refcount = 1, wr_msgid = i, wr_data = True\<rparr>);
             (s2, c2, r2) \<leftarrow> api_ws_server_req_unref 10 ?nu st;
             Some (s2, c2, Some r2) }" by blast
  have "i \<noteq> 0" "aw_log w' = [Req_addref 9, Sent wb]" using w(3,4) by (auto simp: memo_ids_def demo_api_ws_def)
  with x w(1,2,5) show ?thesis
    by (simp add: noting_call_def api_ws_server_req_unref_def api_ws_server_req_addref_cb_def Let_def numeral_2_eq_2)
qed

theorem remote_reply_roundtrip_witness:
  "\<exists>wb. sc_sent (api_ws_server_req_success_cb (map_option (\<lambda>_. ''42'')) (\<lambda>_. 0) (demo_server_req 0) (Some 42) (Some ''done'') demo_sclient) = [wb]
    \<and> api_ws_client_on_binary demo_aw_env (concat wb) demo_api_ws =
        Some (answered [Set_flags 3 (context_flags (wr_context (demo_server_req 0))), Req_success 3 (Some 42) (Some ''done'')] \<lparr>mm_req = 3, mm_msgid = 0\<rparr> demo_api_ws)"
proof -
  let ?m = "\<lparr>mm_req = 3, mm_msgid = 0\<rparr> :: nat api_ws_memo" and ?print = "map_option (\<lambda>_. ''42'')"
  have 1: "distinct (memo_ids demo_api_ws)" "?m \<in> set (aw_memos demo_api_ws)" "wr_msgid (demo_server_req 0) = mm_msgid ?m" "\<forall>wb :: writebuf. 0 \<le> (0 :: int)"
    by (simp_all add: memo_ids_def demo_api_ws_def demo_server_req_def)
  have 2: "?print (Some 42) = Some ''42''" "ev_parse demo_aw_env ''42'' = Some 42" "(Some (42 :: nat) \<noteq> None) = (''42'' \<noteq> ''null'')" "is_cstring ''42''"
    "length ''42'' + 1 < 2 ^ 32" "is_cstring ''done''" "length ''done'' + 1 < 2 ^ 32" "is_cstring ''s''" "length ''s'' + 1 < 2 ^ 32"
    "0 < length [NUL]" "[NUL] ! 0 = NUL" "0 + 1 < (2 :: nat) ^ 32"
    by (simp_all add: demo_aw_env_def NUL_def)
  show ?thesis
    using remote_reply_roundtrip [where print = ?print and obj = "Some 42" and c = demo_sclient and acts = "[]", OF 1 2] by (simp add: demo_sclient_def)
qed

section \<open>Any message\<close>

lemma client_readers_stay_in:
  "stays_in api_ws_client_msg_event_read" "stays_in (api_ws_client_msg_event_get evname w)" "stays_in (api_ws_client_msg_memo_get w)"
  "stays_in (api_ws_client_msg_subscription_get evname w)" "stays_in read_call"
proof -
  show e: "stays_in api_ws_client_msg_event_read" unfolding api_ws_client_msg_event_read_def by (intro readers_stay_in)
  show g: "stays_in (api_ws_client_msg_event_get evname w)" unfolding api_ws_client_msg_event_get_def
    by (intro stays_in_bind e) (auto simp: stays_in_base split: option.split)
  show m: "stays_in (api_ws_client_msg_memo_get w)" unfolding api_ws_client_msg_memo_get_def
    by (intro readers_stay_in) (auto simp: stays_in_base split: option.split)
  show "stays_in (api_ws_client_msg_subscription_get evname w)" unfolding api_ws_client_msg_subscription_get_def by (intro readers_stay_in m g)
  show "stays_in read_call" unfolding read_call_def by (intro readers_stay_in)
qed

lemma on_read_total: "stays_in r \<Longrightarrow> rb_head rb \<le> length (rb_data rb) \<Longrightarrow> \<exists>v. on_read r rb f = Some (f v)"
  by (erule stays_inD, assumption) (auto simp: on_read_def)

lemma on_reply_total:
  assumes "stays_in rest" "rb_head rb \<le> length (rb_data rb)"
  shows "\<exists>w'. on_reply rest answer w rb = Some w' \<and> (w' = w \<or> (\<exists>m \<in> set (aw_memos w). aw_memos w' = remove1 m (aw_memos w)))"
proof -
  from stays_inD [OF client_readers_stay_in(3) [of w] assms(2)] obtain rb1 v where
    1: "api_ws_client_msg_memo_get w rb = Some (rb1, v)" "rb_data rb1 = rb_data rb" "rb_head rb1 \<le> length (rb_data rb)" by metis
  show ?thesis
  proof (cases v)
    case None
    with 1 show ?thesis by (simp add: on_reply_def)
  next
    case (Some m)
    then have "m \<in> set (aw_memos w)" using 1(1)
      by (auto simp: api_ws_client_msg_memo_get_def rd_bind_def rd_return_def rd_fail_def api_ws_client_memo_search_def find_Some_iff
          split: option.splits prod.splits)
    moreover from 1 have "rb_head rb1 \<le> length (rb_data rb1)" by simp
    then obtain v2 where "on_read rest rb1 (\<lambda>v. api_ws_client_memo_destroy m
            (emit (case v of None \<Rightarrow> [Req_fail (mm_req m) ''error'' (Some ''ws error'')] | Some a \<Rightarrow> answer (mm_req m) a) w)) =
        Some (api_ws_client_memo_destroy m (emit (case v2 of None \<Rightarrow> [Req_fail (mm_req m) ''error'' (Some ''ws error'')] | Some a \<Rightarrow> answer (mm_req m) a) w))"
      using on_read_total [OF assms(1)] by blast
    ultimately show ?thesis using 1(1) Some by (auto simp: on_reply_def api_ws_client_memo_destroy_def emit_def)
  qed
qed

definition harmless :: "('q, 'e, 'j) api_ws \<Rightarrow> ('q, 'e, 'j) api_ws option \<Rightarrow> bool" where
  "harmless w r \<longleftrightarrow> (\<exists>w'. r = Some w' \<and> (aw_memos w' = aw_memos w \<or> (\<exists>m \<in> set (aw_memos w). aw_memos w' = remove1 m (aw_memos w))))"

lemma harmless_reply:
  assumes "stays_in rest" "data \<noteq> []"
  shows "harmless w (on_reply rest answer w \<lparr>rb_data = data, rb_head = 1\<rparr>)"
  using on_reply_total [OF assms(1), of "\<lparr>rb_data = data, rb_head = 1\<rparr>" answer w] assms(2) by (cases data) (auto simp: harmless_def)

lemma harmless_read:
  assumes "stays_in r" "\<And>v. aw_memos (f v) = aw_memos w" "data \<noteq> []"
  shows "harmless w (on_read r \<lparr>rb_data = data, rb_head = 1\<rparr> f)"
  using on_read_total [OF assms(1), of "\<lparr>rb_data = data, rb_head = 1\<rparr>" f] assms(2,3) by (cases data) (auto simp: harmless_def)

lemma harmless_handlers:
  assumes "data \<noteq> []"
  shows "harmless w (api_ws_client_reply_success parse w \<lparr>rb_data = data, rb_head = 1\<rparr>)" "harmless w (api_ws_client_reply_fail w \<lparr>rb_data = data, rb_head = 1\<rparr>)"
    "harmless w (api_ws_client_reply_send w \<lparr>rb_data = data, rb_head = 1\<rparr>)" "harmless w (api_ws_client_event_broadcast parse w \<lparr>rb_data = data, rb_head = 1\<rparr>)"
    "harmless w (api_ws_client_event_create evname ok create w \<lparr>rb_data = data, rb_head = 1\<rparr>)"
    "harmless w (api_ws_client_event_drop evname w \<lparr>rb_data = data, rb_head = 1\<rparr>)"
    "harmless w (api_ws_client_event_push evname parse w \<lparr>rb_data = data, rb_head = 1\<rparr>)"
    "harmless w (api_ws_client_event_subscribe evname w \<lparr>rb_data = data, rb_head = 1\<rparr>)"
    "harmless w (api_ws_client_event_unsubscribe evname w \<lparr>rb_data = data, rb_head = 1\<rparr>)"
  unfolding api_ws_client_reply_success_def api_ws_client_reply_fail_def api_ws_client_reply_send_def api_ws_client_event_broadcast_def
    api_ws_client_event_create_def api_ws_client_event_drop_def api_ws_client_event_push_def api_ws_client_event_subscribe_def
    api_ws_client_event_unsubscribe_def
  by (intro harmless_reply harmless_read readers_stay_in client_readers_stay_in assms; simp add: emit_def Let_def split: option.split prod.split)+

text \<open>C18. Nothing that arrives makes a binder read outside of the message: for any bytes, the client's callback ends, and takes at most one call out of its pending
  ones; and the server reads a call or refuses the message, with its reading position inside of the message.\<close>

theorem messages_read_in_bounds:
  "(\<exists>w'. api_ws_client_on_binary env data w = Some w' \<and> (aw_memos w' = aw_memos w \<or> (\<exists>m \<in> set (aw_memos w). aw_memos w' = remove1 m (aw_memos w))))
   \<and> (\<exists>rb v. read_call \<lparr>rb_data = data, rb_head = 0\<rparr> = Some (rb, v) \<and> rb_data rb = data \<and> rb_head rb \<le> length data)"
proof
  show "\<exists>rb v. read_call \<lparr>rb_data = data, rb_head = 0\<rparr> = Some (rb, v) \<and> rb_data rb = data \<and> rb_head rb \<le> length data"
    using stays_inD [OF client_readers_stay_in(5), of "\<lparr>rb_data = data, rb_head = 0\<rparr>"] by (metis le0 readbuf.select_convs)
  have "harmless w (api_ws_client_on_binary env data w)"
  proof (cases "data = []")
    case True
    then show ?thesis by (simp add: harmless_def api_ws_client_on_binary_def)
  next
    case False
    moreover have "harmless w (Some w)" by (simp add: harmless_def)
    ultimately show ?thesis unfolding api_ws_client_on_binary_def Let_def by (simp add: harmless_handlers [unfolded One_nat_def])
  qed
  then show "\<exists>w'. api_ws_client_on_binary env data w = Some w' \<and> (aw_memos w' = aw_memos w \<or> (\<exists>m \<in> set (aw_memos w). aw_memos w' = remove1 m (aw_memos w)))"
    by (simp add: harmless_def)
qed

section \<open>Events cross\<close>

definition ev_key :: "('e \<Rightarrow> string) \<Rightarrow> 'e api_ws_event \<Rightarrow> 32 word \<times> string" where
  "ev_key evname ev = (ae_eventid ev, evname (ae_event ev))"

definition events_ok :: "('e \<Rightarrow> string) \<Rightarrow> ('q, 'e, 'j) api_ws \<Rightarrow> bool" where
  "events_ok evname w \<longleftrightarrow> distinct (map (ev_key evname) (aw_events w)) \<and> (\<forall>ev \<in> set (aw_events w). 0 < ae_refcount ev)"

definition ev_count :: "('e \<Rightarrow> string) \<Rightarrow> ('q, 'e, 'j) api_ws \<Rightarrow> 32 word \<times> string \<Rightarrow> int" where
  "ev_count evname w k = (case filter (\<lambda>ev. ev_key evname ev = k) (aw_events w) of [] \<Rightarrow> 0 | ev # _ \<Rightarrow> ae_refcount ev)"

lemma event_search_key: "api_ws_client_event_search evname i n w = first_index (\<lambda>ev. ev_key evname ev = (i, n)) (aw_events w)"
  by (simp add: api_ws_client_event_search_def ev_key_def)

lemma ev_count_cases:
  assumes "events_ok evname w"
  obtains (absent) "first_index (\<lambda>ev. ev_key evname ev = k) (aw_events w) = None" "ev_count evname w k = 0"
  | (present) j ys zs ev where "first_index (\<lambda>ev. ev_key evname ev = k) (aw_events w) = Some j" "aw_events w = ys @ ev # zs" "length ys = j"
      "ev_key evname ev = k" "\<forall>x \<in> set ys \<union> set zs. ev_key evname x \<noteq> k" "ev_count evname w k = ae_refcount ev" "0 < ae_refcount ev"
proof (cases "first_index (\<lambda>ev. ev_key evname ev = k) (aw_events w)")
  case None
  then have "filter (\<lambda>ev. ev_key evname ev = k) (aw_events w) = []" by (simp add: first_index_None filter_empty_conv)
  with None absent show thesis by (simp add: ev_count_def)
next
  case (Some j)
  let ?ev = "aw_events w ! j" and ?ys = "take j (aw_events w)" and ?zs = "drop (Suc j) (aw_events w)"
  from first_index_Some [OF Some] have j: "j < length (aw_events w)" "ev_key evname ?ev = k" by auto
  have split: "aw_events w = ?ys @ ?ev # ?zs" using j(1) by (rule id_take_nth_drop)
  have d: "distinct (map (ev_key evname) (?ys @ ?ev # ?zs))" using assms split by (metis events_ok_def)
  have other: "\<forall>x \<in> set ?ys \<union> set ?zs. ev_key evname x \<noteq> k" using d j(2) by (auto simp: image_iff)
  have "filter (\<lambda>ev. ev_key evname ev = k) (?ys @ ?ev # ?zs) = [?ev]"
    using other j(2) by (auto simp: filter_empty_conv)
  then have "ev_count evname w k = ae_refcount ?ev" unfolding ev_count_def using split by simp
  moreover have "0 < ae_refcount ?ev" using assms j(1) by (simp add: events_ok_def)
  moreover have "length ?ys = j" using j(1) by simp
  ultimately show thesis using present [OF Some split _ j(2) other] by blast
qed

text \<open>The table with the counter of one event replaced, or the event taken out.\<close>

lemma ev_count_split:
  assumes "aw_events w = ys @ evs @ zs" "\<forall>x \<in> set ys \<union> set zs. ev_key evname x \<noteq> k" "evs = [] \<or> (\<exists>ev. evs = [ev] \<and> ev_key evname ev = k)"
    and "aw_events v = ys @ evs' @ zs" "evs' = [] \<or> (\<exists>ev. evs' = [ev] \<and> ev_key evname ev = k)"
  shows "ev_count evname v = (ev_count evname w)(k := case evs' of [] \<Rightarrow> 0 | ev # _ \<Rightarrow> ae_refcount ev)"
proof
  fix l
  have k: "filter (\<lambda>ev. ev_key evname ev = k) ys = []" "filter (\<lambda>ev. ev_key evname ev = k) zs = []" using assms(2) by (auto simp: filter_empty_conv)
  show "ev_count evname v l = ((ev_count evname w)(k := case evs' of [] \<Rightarrow> 0 | ev # _ \<Rightarrow> ae_refcount ev)) l"
  proof (cases "l = k")
    case True
    then show ?thesis using assms(5) by (auto simp: ev_count_def assms(4) k)
  next
    case False
    then have "filter (\<lambda>ev. ev_key evname ev = l) evs = []" "filter (\<lambda>ev. ev_key evname ev = l) evs' = []" using assms(3,5) by auto
    with False show ?thesis by (simp add: ev_count_def assms(1,4))
  qed
qed

lemma event_message:
  assumes "\<forall>wb. 0 \<le> send wb" "length name + 1 < 2 ^ 32"
  shows "\<exists>wb. sc_sent (api_ws_server_event_send send ch name i None c) = sc_sent c @ [wb] \<and> concat wb = bytes_of [ch] @ le32 i @ wire_string name"
  using write_string_Some [of "[bytes_of [ch], le32 i]" name] assms
  by (auto simp: api_ws_server_event_send_def send_message_def write_char_Some write_uint32_Some)

lemma event_message_data:
  assumes "\<forall>wb. 0 \<le> send wb" "length name + 1 < 2 ^ 32" "length d + 1 < 2 ^ 32"
  shows "\<exists>wb. sc_sent (api_ws_server_event_send send ch name i (Some d) c) = sc_sent c @ [wb] \<and> concat wb = bytes_of [ch] @ le32 i @ wire_string name @ wire_string d"
proof -
  from write_string_Some [of "[bytes_of [ch], le32 i]" name] assms(2) obtain b3 where
    b3: "api_ws_write_string name [bytes_of [ch], le32 i] = Some b3" "concat b3 = bytes_of [ch] @ le32 i @ wire_string name" "length b3 = 4" by auto
  from write_string_Some [of b3 d] assms(3) b3 obtain wb where "api_ws_write_string d b3 = Some wb" "concat wb = concat b3 @ wire_string d" by auto
  with b3 assms(1) show ?thesis by (simp add: api_ws_server_event_send_def send_message_def write_char_Some write_uint32_Some)
qed

lemma read_event_wire:
  assumes "is_cstring name" "length name + 1 < 2 ^ 32"
  shows "consumes api_ws_client_msg_event_read (le32 i @ wire_string name) (i, name)"
proof -
  have "cstr name = name" using assms(1) by (auto simp: cstr_def is_cstring_def takeWhile_eq_all_conv)
  then show ?thesis unfolding api_ws_client_msg_event_read_def
    using consumes_bind [where g = "\<lambda>i. rd_bind api_ws_read_string (\<lambda>name. rd_return (i, cstr name))",
        OF consumes_uint32 [of i] consumes_bind_return [where g = "\<lambda>name. (i, cstr name)", OF consumes_string [OF assms(2)]]] by simp
qed

lemma on_read_wire: "consumes r bs v \<Longrightarrow> on_read r \<lparr>rb_data = bytes_of [ch] @ bs, rb_head = 1\<rparr> f = Some (f (Some v))"
  unfolding consumes_def on_read_def by (drule spec [of _ "bytes_of [ch]"], drule spec [of _ "[]"]) simp

lemma event_get_wire:
  assumes "is_cstring name" "length name + 1 < 2 ^ 32" "api_ws_client_event_search evname i name w = Some j"
  shows "consumes (api_ws_client_msg_event_get evname w) (le32 i @ wire_string name) j"
proof -
  have "consumes ((\<lambda>(eventid, name). case api_ws_client_event_search evname eventid name w of None \<Rightarrow> rd_fail | Some i \<Rightarrow> rd_return i) (i, name)) [] j"
    using assms(3) by (simp add: consumes_return)
  from consumes_bind [where g = "\<lambda>(eventid, name). case api_ws_client_event_search evname eventid name w of None \<Rightarrow> rd_fail | Some i \<Rightarrow> rd_return i",
      OF read_event_wire [OF assms(1,2)] this]
  show ?thesis by (simp add: api_ws_client_msg_event_get_def)
qed

lemma event_get_absent:
  assumes "is_cstring name" "length name + 1 < 2 ^ 32" "api_ws_client_event_search evname i name w = None"
  shows "\<exists>rb. api_ws_client_msg_event_get evname w \<lparr>rb_data = bytes_of [ch] @ le32 i @ wire_string name @ bs, rb_head = 1\<rparr> = Some (rb, None)"
  using read_event_wire [OF assms(1,2), of i, unfolded consumes_def, rule_format, of "bytes_of [ch]" bs] assms(3)
  by (simp add: api_ws_client_msg_event_get_def rd_bind_def rd_fail_def)

lemma on_binary_orders:
  "api_ws_client_on_binary env (bytes_of ''+'' @ bs) w = api_ws_client_event_create (ev_name env) (ev_malloc env) (ev_create env) w \<lparr>rb_data = bytes_of ''+'' @ bs, rb_head = 1\<rparr>"
  "api_ws_client_on_binary env (bytes_of ''-'' @ bs) w = api_ws_client_event_drop (ev_name env) w \<lparr>rb_data = bytes_of ''-'' @ bs, rb_head = 1\<rparr>"
  "api_ws_client_on_binary env (bytes_of ''!'' @ bs) w = api_ws_client_event_push (ev_name env) (ev_parse env) w \<lparr>rb_data = bytes_of ''!'' @ bs, rb_head = 1\<rparr>"
  "api_ws_client_on_binary env (bytes_of ''*'' @ bs) w = api_ws_client_event_broadcast (ev_parse env) w \<lparr>rb_data = bytes_of ''*'' @ bs, rb_head = 1\<rparr>"
  unfolding api_ws_client_on_binary_def Let_def first_char by simp_all

lemma event_added:
  assumes "events_ok (ev_name env) w" "ev_malloc env" "ev_create env name = Some e" "ev_name env e = name" "is_cstring name" "length name + 1 < 2 ^ 32"
  shows "\<exists>w'. api_ws_client_on_binary env (bytes_of ''+'' @ le32 i @ wire_string name) w = Some w' \<and> events_ok (ev_name env) w'
    \<and> ev_count (ev_name env) w' = (ev_count (ev_name env) w)((i, name) := ev_count (ev_name env) w (i, name) + 1)"
  using assms(1)
proof (cases rule: ev_count_cases [where k = "(i, name)"])
  case absent
  let ?ev = "\<lparr>ae_event = e, ae_eventid = i, ae_refcount = 1\<rparr>"
  let ?w = "w\<lparr>aw_events := ?ev # aw_events w\<rparr>"
  have k: "ev_key (ev_name env) ?ev = (i, name)" using assms(4) by (simp add: ev_key_def)
  have new: "\<forall>x \<in> set (aw_events w). ev_key (ev_name env) x \<noteq> (i, name)" using absent(1) by (simp add: first_index_None)
  have "ev_count (ev_name env) ?w = (ev_count (ev_name env) w)((i, name) := 1)"
    using ev_count_split [of w "[]" "[]" "aw_events w" "ev_name env" "(i, name)" ?w "[?ev]"] new k by simp
  moreover have "events_ok (ev_name env) ?w" using assms(1) new k by (auto simp: events_ok_def)
  ultimately show ?thesis using absent assms(2,3)
    unfolding on_binary_orders api_ws_client_event_create_def on_read_wire [OF read_event_wire [OF assms(5,6)]] by (simp add: event_search_key)
next
  case (present j ys zs ev)
  let ?ev = "ev\<lparr>ae_refcount := ae_refcount ev + 1\<rparr>"
  let ?w = "w\<lparr>aw_events := (aw_events w)[j := ?ev]\<rparr>"
  have e: "(aw_events w)[j := ?ev] = ys @ ?ev # zs" "aw_events w ! j = ev" using present(2,3) by (auto simp: list_update_append nth_append)
  have k: "ev_key (ev_name env) ?ev = (i, name)" using present(4) by (simp add: ev_key_def)
  have "ev_count (ev_name env) ?w = (ev_count (ev_name env) w)((i, name) := ae_refcount ev + 1)"
    using ev_count_split [of w ys "[ev]" zs "ev_name env" "(i, name)" ?w "[?ev]"] present k e by simp
  moreover have "events_ok (ev_name env) ?w" using assms(1) present k e by (auto simp: events_ok_def)
  ultimately show ?thesis using present e
    unfolding on_binary_orders api_ws_client_event_create_def on_read_wire [OF read_event_wire [OF assms(5,6)]] by (simp add: event_search_key)
qed

lemma event_removed:
  assumes "events_ok (ev_name env) w" "is_cstring name" "length name + 1 < 2 ^ 32"
  shows "\<exists>w'. api_ws_client_on_binary env (bytes_of ''-'' @ le32 i @ wire_string name) w = Some w' \<and> events_ok (ev_name env) w'
    \<and> ev_count (ev_name env) w' = (ev_count (ev_name env) w)((i, name) := max 0 (ev_count (ev_name env) w (i, name) - 1))
    \<and> (if ev_count (ev_name env) w (i, name) = 1 then \<exists>e. ev_name env e = name \<and> aw_log w' = aw_log w @ [Evt_drop e] else aw_log w' = aw_log w)"
  using assms(1)
proof (cases rule: ev_count_cases [where k = "(i, name)"])
  case absent
  then have "api_ws_client_event_search (ev_name env) i name w = None" by (simp add: event_search_key)
  from event_get_absent [OF assms(2,3) this, of "CHR ''-''" "[]"]
  have "api_ws_client_on_binary env (bytes_of ''-'' @ le32 i @ wire_string name) w = Some w"
    by (auto simp: on_binary_orders api_ws_client_event_drop_def on_read_def)
  with absent assms(1) show ?thesis by (auto simp: fun_upd_idem_iff)
next
  case (present j ys zs ev)
  let ?ev = "ev\<lparr>ae_refcount := ae_refcount ev - 1\<rparr>"
  have s: "api_ws_client_event_search (ev_name env) i name w = Some j" using present(1) by (simp add: event_search_key)
  have e: "(aw_events w)[j := ?ev] = ys @ ?ev # zs" "aw_events w ! j = ev" "take j (aw_events w) @ drop (Suc j) (aw_events w) = ys @ zs"
    using present(2,3) by (auto simp: list_update_append nth_append)
  have k: "ev_key (ev_name env) ?ev = (i, name)" using present(4) by (simp add: ev_key_def)
  have r: "api_ws_client_on_binary env (bytes_of ''-'' @ le32 i @ wire_string name) w =
      Some (if ae_refcount ev - 1 \<noteq> 0 then w\<lparr>aw_events := ys @ ?ev # zs\<rparr> else emit [Evt_drop (ae_event ev)] (w\<lparr>aw_events := ys @ zs\<rparr>))"
    unfolding on_binary_orders api_ws_client_event_drop_def on_read_wire [OF event_get_wire [OF assms(2,3) s]] by (simp add: Let_def e)
  show ?thesis
  proof (cases "ae_refcount ev = 1")
    case True
    let ?w = "emit [Evt_drop (ae_event ev)] (w\<lparr>aw_events := ys @ zs\<rparr>)"
    have "ev_count (ev_name env) ?w = (ev_count (ev_name env) w)((i, name) := 0)"
      using ev_count_split [of w ys "[ev]" zs "ev_name env" "(i, name)" ?w "[]"] present k by (simp add: emit_def)
    moreover have "events_ok (ev_name env) ?w" using assms(1) present(2) by (auto simp: events_ok_def emit_def)
    ultimately show ?thesis using r True present(4,6) by (auto simp: emit_def ev_key_def)
  next
    case False
    let ?w = "w\<lparr>aw_events := ys @ ?ev # zs\<rparr>"
    have "ev_count (ev_name env) ?w = (ev_count (ev_name env) w)((i, name) := ae_refcount ev - 1)"
      using ev_count_split [of w ys "[ev]" zs "ev_name env" "(i, name)" ?w "[?ev]"] present k by simp
    moreover have "events_ok (ev_name env) ?w" using assms(1) present k False by (auto simp: events_ok_def)
    ultimately show ?thesis using r False present(6,7) by auto
  qed
qed

lemma event_pushed:
  assumes "events_ok (ev_name env) w" "is_cstring name" "length name + 1 < 2 ^ 32"
    and "print obj = Some t" "ev_parse env t = obj" "(obj \<noteq> None) = (t \<noteq> ''null'')" "is_cstring t" "length t + 1 < 2 ^ 32"
  shows "\<exists>w'. api_ws_client_on_binary env (bytes_of ''!'' @ le32 i @ wire_string name @ wire_string t) w = Some w'
    \<and> (if 0 < ev_count (ev_name env) w (i, name) then \<exists>e. ev_name env e = name \<and> w' = emit [Evt_push e obj] w else w' = w)"
  using assms(1)
proof (cases rule: ev_count_cases [where k = "(i, name)"])
  case absent
  then have "api_ws_client_event_search (ev_name env) i name w = None" by (simp add: event_search_key)
  from event_get_absent [OF assms(2,3) this, of "CHR ''!''" "wire_string t"] absent show ?thesis
    by (auto simp: on_binary_orders api_ws_client_event_push_def on_read_def rd_bind_def)
next
  case (present j ys zs ev)
  have s: "api_ws_client_event_search (ev_name env) i name w = Some j" using present(1) by (simp add: event_search_key)
  have o: "consumes (api_ws_read_object (ev_parse env)) (wire_string t) obj"
    by (rule consumes_object [where print = print and obj = obj and s = t and parse = "ev_parse env", OF assms(4,8,7,5,6)])
  have c: "consumes (rd_bind (api_ws_client_msg_event_get (ev_name env) w) (\<lambda>i. rd_bind (api_ws_read_object (ev_parse env)) (\<lambda>obj. rd_return (i, obj))))
      ((le32 i @ wire_string name) @ wire_string t) (j, obj)"
    by (rule consumes_bind [OF event_get_wire [OF assms(2,3) s]]) (rule consumes_bind_return [OF o])
  have "aw_events w ! j = ev" "ev_name env (ae_event ev) = name" using present(2-4) by (auto simp: nth_append ev_key_def)
  moreover have "api_ws_client_on_binary env (bytes_of ''!'' @ le32 i @ wire_string name @ wire_string t) w = Some (emit [Evt_push (ae_event (aw_events w ! j)) obj] w)"
    unfolding on_binary_orders api_ws_client_event_push_def on_read_wire [OF c [unfolded append_assoc]] by simp
  ultimately show ?thesis using present(6,7) by auto
qed

lemma event_broadcast:
  assumes "is_cstring name" "length name + 1 < 2 ^ 32"
    and "print obj = Some t" "ev_parse env t = obj" "(obj \<noteq> None) = (t \<noteq> ''null'')" "is_cstring t" "length t + 1 < 2 ^ 32"
  shows "api_ws_client_on_binary env (bytes_of ''*'' @ wire_string name @ wire_string t) w = Some (emit [Evt_broadcast name obj] w)"
proof -
  have o: "consumes (api_ws_read_object (ev_parse env)) (wire_string t) obj"
    by (rule consumes_object [where print = print and obj = obj and s = t and parse = "ev_parse env", OF assms(3,7,6,4,5)])
  have n: "cstr name = name" using assms(1) by (auto simp: cstr_def is_cstring_def takeWhile_eq_all_conv)
  have c: "consumes (rd_bind api_ws_read_string (\<lambda>event. rd_bind (api_ws_read_object (ev_parse env)) (\<lambda>obj. rd_return (cstr event, obj))))
      (wire_string name @ wire_string t) (cstr name, obj)"
    by (rule consumes_bind [OF consumes_string [OF assms(2)]]) (rule consumes_bind_return [OF o])
  show ?thesis unfolding on_binary_orders api_ws_client_event_broadcast_def on_read_wire [OF c] by (simp add: n)
qed

text \<open>C34. Events of the other binder reach this one: the table of the client is a count of the subscriptions that the server announced. For each event, by its
  identifier and its name, the message sent when the listener of the client gets the event adds one, the one sent when it loses it takes one away, never below zero
  and drops the local event exactly when the last goes, and no other event changes; a pushed event is pushed to the local event of this name exactly when
  its count is not zero; a broadcast event is broadcast with the same name and object.\<close>

theorem remote_events_counted:
  assumes "events_ok (ev_name env) w" "\<forall>wb. 0 \<le> send wb" "ev_malloc env" "ev_create env name = Some e" "ev_name env e = name"
    and "is_cstring name" "length name + 1 < 2 ^ 32"
    and "print obj = Some t" "ev_parse env t = obj" "(obj \<noteq> None) = (t \<noteq> ''null'')" "is_cstring t" "length t + 1 < 2 ^ 32"
  shows "(\<exists>wb w'. sc_sent (api_ws_server_event_add send name i c) = sc_sent c @ [wb] \<and> api_ws_client_on_binary env (concat wb) w = Some w' \<and> events_ok (ev_name env) w'
        \<and> ev_count (ev_name env) w' = (ev_count (ev_name env) w)((i, name) := ev_count (ev_name env) w (i, name) + 1))
    \<and> (\<exists>wb w'. sc_sent (api_ws_server_event_remove send name i c) = sc_sent c @ [wb] \<and> api_ws_client_on_binary env (concat wb) w = Some w' \<and> events_ok (ev_name env) w'
        \<and> ev_count (ev_name env) w' = (ev_count (ev_name env) w)((i, name) := max 0 (ev_count (ev_name env) w (i, name) - 1))
        \<and> (if ev_count (ev_name env) w (i, name) = 1 then \<exists>e. ev_name env e = name \<and> aw_log w' = aw_log w @ [Evt_drop e] else aw_log w' = aw_log w))
    \<and> (\<exists>wb w'. sc_sent (api_ws_server_event_push print send name i obj c) = sc_sent c @ [wb] \<and> api_ws_client_on_binary env (concat wb) w = Some w'
        \<and> (if 0 < ev_count (ev_name env) w (i, name) then \<exists>e. ev_name env e = name \<and> w' = emit [Evt_push e obj] w else w' = w))
    \<and> (\<exists>wb. sc_sent (api_ws_server_event_broadcast print send name obj c) = sc_sent c @ [wb]
        \<and> api_ws_client_on_binary env (concat wb) w = Some (emit [Evt_broadcast name obj] w))"
proof (intro conjI)
  show "\<exists>wb w'. sc_sent (api_ws_server_event_add send name i c) = sc_sent c @ [wb] \<and> api_ws_client_on_binary env (concat wb) w = Some w' \<and> events_ok (ev_name env) w'
        \<and> ev_count (ev_name env) w' = (ev_count (ev_name env) w)((i, name) := ev_count (ev_name env) w (i, name) + 1)"
    using event_message [OF assms(2,7), of "CHR ''+''" i c] event_added [OF assms(1,3-7), of i] by (auto simp: api_ws_server_event_add_def)
  show "\<exists>wb w'. sc_sent (api_ws_server_event_remove send name i c) = sc_sent c @ [wb] \<and> api_ws_client_on_binary env (concat wb) w = Some w' \<and> events_ok (ev_name env) w'
        \<and> ev_count (ev_name env) w' = (ev_count (ev_name env) w)((i, name) := max 0 (ev_count (ev_name env) w (i, name) - 1))
        \<and> (if ev_count (ev_name env) w (i, name) = 1 then \<exists>e. ev_name env e = name \<and> aw_log w' = aw_log w @ [Evt_drop e] else aw_log w' = aw_log w)"
    using event_message [OF assms(2,7), of "CHR ''-''" i c] event_removed [OF assms(1,6,7), of i] unfolding api_ws_server_event_remove_def by metis
  show "\<exists>wb w'. sc_sent (api_ws_server_event_push print send name i obj c) = sc_sent c @ [wb] \<and> api_ws_client_on_binary env (concat wb) w = Some w'
        \<and> (if 0 < ev_count (ev_name env) w (i, name) then \<exists>e. ev_name env e = name \<and> w' = emit [Evt_push e obj] w else w' = w)"
    using event_message_data [OF assms(2,7,12), of "CHR ''!''" i c] event_pushed [where print = print and i = i, OF assms(1,6-12)] assms(8)
    unfolding api_ws_server_event_push_def by (metis option.simps(5))
  from write_string_Some [of "[bytes_of ''*'']" name] assms(7) obtain b2 where
    b2: "api_ws_write_string name [bytes_of ''*''] = Some b2" "concat b2 = bytes_of ''*'' @ wire_string name" "length b2 = 3" by auto
  from write_string_Some [of b2 t] assms(12) b2 obtain wb where "api_ws_write_string t b2 = Some wb" "concat wb = bytes_of ''*'' @ wire_string name @ wire_string t"
    by auto
  with b2 assms(2,8) event_broadcast [where print = print and w = w, OF assms(6-12)]
  show "\<exists>wb. sc_sent (api_ws_server_event_broadcast print send name obj c) = sc_sent c @ [wb]
        \<and> api_ws_client_on_binary env (concat wb) w = Some (emit [Evt_broadcast name obj] w)"
    by (simp add: api_ws_server_event_broadcast_def send_message_def write_char_Some api_ws_write_object_def)
qed

theorem remote_events_counted_witness:
  "\<exists>wb w'. sc_sent (api_ws_server_event_add (\<lambda>_. 0) ''hello/tick'' 7 demo_sclient) = [wb] \<and> api_ws_client_on_binary demo_aw_env (concat wb) demo_api_ws = Some w'
    \<and> ev_count (ev_name demo_aw_env) w' (7, ''hello/tick'') = 1"
proof -
  have 1: "events_ok (ev_name demo_aw_env) demo_api_ws" "\<forall>wb :: writebuf. 0 \<le> (0 :: int)" "ev_malloc demo_aw_env" "ev_create demo_aw_env ''hello/tick'' = Some 0"
    "ev_name demo_aw_env 0 = ''hello/tick''" "is_cstring ''hello/tick''" "length ''hello/tick'' + 1 < 2 ^ 32"
    by (simp_all add: events_ok_def demo_api_ws_def demo_aw_env_def NUL_def)
  have 2: "map_option (\<lambda>_. ''42'') (Some 42) = Some ''42''" "ev_parse demo_aw_env ''42'' = Some 42" "(Some (42 :: nat) \<noteq> None) = (''42'' \<noteq> ''null'')"
    "is_cstring ''42''" "length ''42'' + 1 < 2 ^ 32" by (simp_all add: demo_aw_env_def NUL_def)
  have 3: "ev_count (ev_name demo_aw_env) demo_api_ws (7, ''hello/tick'') = 0" by (simp add: ev_count_def demo_api_ws_def)
  show ?thesis
    using remote_events_counted [where print = "map_option (\<lambda>_. ''42'')" and obj = "Some 42" and c = demo_sclient and i = 7, OF 1 2] 3
    by (auto simp: demo_sclient_def)
qed

text \<open>A raw reply that is not ended by a zero cannot be read: the client answers the call with an error.\<close>

lemma read_string_unterminated:
  assumes "length b = Suc n" "b ! n \<noteq> NUL" "Suc n < 2 ^ 32"
  shows "\<exists>rb. api_ws_read_string \<lparr>rb_data = pre @ le32 (of_nat (Suc n)) @ bytes_of b, rb_head = length pre\<rparr> = Some (rb, None)"
proof -
  let ?len = "of_nat (Suc n) :: 32 word" and ?d = "pre @ le32 (of_nat (Suc n)) @ bytes_of b"
  have len: "unat ?len = Suc n" using assms(3) by (simp add: unat_of_nat_32 del: of_nat_Suc)
  then have nz: "?len \<noteq> 0" by (metis nat.distinct(1) unat_0)
  have r: "api_ws_read_uint32 \<lparr>rb_data = ?d, rb_head = length pre\<rparr> = Some (\<lparr>rb_data = ?d, rb_head = length pre + 4\<rparr>, Some ?len)"
    using consumes_uint32 [of ?len, unfolded consumes_def, rule_format, of pre "bytes_of b"] by simp
  have "chars_of [bytes_of b ! n] = [b ! n]" using chars_of_bytes_of [of "[b ! n]"] assms(1) by (simp add: bytes_of_def)
  moreover have "chars_of [0] = [NUL]" using chars_of_bytes_of [of "[NUL]"] by (simp add: bytes_of_def NUL_def)
  ultimately have last: "bytes_of b ! n \<noteq> 0" using assms(2) by (metis list.inject)
  have "take 1 (drop (length pre + 4 + Suc n - 1) ?d) = [bytes_of b ! n]"
    using assms(1) by (simp add: take_Suc_conv_app_nth numeral_eq_Suc Cons_nth_drop_Suc [symmetric])
  with r nz last len assms(1) show ?thesis
    by (simp add: api_ws_read_string_def rd_bind_def api_ws_read_get_def rb_read_def del: of_nat_Suc)
qed

section \<open>The session of a request\<close>

text \<open>The release of a request of a client, with nothing for a request that is released.\<close>

definition server_req_drop :: "api_ws_client \<Rightarrow> int \<Rightarrow> string \<Rightarrow> sessions \<Rightarrow> 'j api_ws_server_req \<Rightarrow> (sessions \<times> 'j api_ws_server_req option) option" where
  "server_req_drop c now newuuid s r =
     map_option (\<lambda>(s', c', r'). (s', if wr_refcount r' = 0 then None else Some r')) (api_ws_server_req_unref now newuuid (s, c, r))"

interpretation server_req_holder: request_holder wr_refcount wr_context api_ws_server_req_addref_cb "server_req_drop c" for c
  by unfold_locales (auto simp: server_req_drop_def api_ws_server_req_addref_cb_def api_ws_server_req_unref_def map_option_case Let_def split: option.splits)

lemma server_req_session_given_back_once:
  assumes "wr_refcount r = 1" "session_inv s" "ac_session (wr_context r) = Some a" "0 < session_refs s a" "length nu = 36"
  shows "\<exists>s'. server_req_holder.drops c (Suc n) now nu s (Some ((api_ws_server_req_addref_cb ^^ n) r)) = Some (s', None) \<and> session_inv s'
    \<and> session_refs s' = (session_refs s)(a := session_refs s a - 1)"
  by (rule server_req_holder.session_given_back_once [OF assms])

end
