(* ===== verification/Ws_Json1.thy ===== *)
theory Ws_Json1
  imports Context Apis Msg_Json Evt
begin

text \<open>
  The JSON protocol of a websocket client of the daemon, \<^verbatim>\<open>src/src/afb-ws-json1.c\<close>: the connection and the requests received on it.

  The session store is the one of \<open>Session\<close>. What the code asks of the listener, of the JSON protocol layer and of its messages is recorded in order; a message is
  known by its address and its token. A request is known by a number; a released one is no more in the table. \<open>None\<close> is a failed assertion or the use of a
  released session or request.
\<close>

datatype 'j wj_action =
    Wj_close_fd int
  | Wj_listener_unref
  | Wj_wsj1_unref
  | Wj_cleanup
  | Wj_close "16 word"
  | Wj_msg_addref nat
  | Wj_msg_unref nat
  | Wj_reply_ok nat "'j jval" "string option"
  | Wj_reply_error nat "'j jval" "string option"
  | Wj_reply_raw nat string "string option"
  | Wj_event string "'j jval"
  | Wj_call nat string nat

record 'j afb_wsreq =
  wq_context :: afb_context
  wq_refcount :: int
  wq_msgj1 :: nat

record 'j afb_ws_json1 =
  wj_refcount :: int
  wj_has_cleanup :: bool
  wj_session :: addr
  wj_listener :: addr
  wj_new_session :: bool
  wj_log :: "'j wj_action list"
  wj_reqs :: "nat \<rightharpoonup> 'j afb_wsreq"

type_synonym 'j wj_state = "sessions \<times> 'j afb_ws_json1"

definition wj_emit :: "'j wj_action list \<Rightarrow> 'j afb_ws_json1 \<Rightarrow> 'j afb_ws_json1" where
  "wj_emit acts w = w\<lparr>wj_log := wj_log w @ acts\<rparr>"

section \<open>The connection\<close>

text \<open>The creation of the protocol layer closes the descriptor itself when it fails. The last component is what was done on the way.\<close>

definition afb_ws_json1_create ::
  "bool \<Rightarrow> bool \<Rightarrow> addr option \<Rightarrow> sessions \<Rightarrow> int \<Rightarrow> afb_context \<Rightarrow> bool \<Rightarrow> (sessions \<times> 'j afb_ws_json1 option \<times> 'j wj_action list) option" where
  "afb_ws_json1_create malloc_ok wsj1_ok listener s fd x cleanup =
     (if fd < 0 then None
      else if \<not> malloc_ok then Some (s, None, [Wj_close_fd fd])
      else do {
        s1 \<leftarrow> ctxClientAddRef s (ac_session x);
        case ac_session x of
          None \<Rightarrow> Some (s1, None, [Wj_close_fd fd])
        | Some a \<Rightarrow>
            if \<not> wsj1_ok then do { s2 \<leftarrow> ctxClientUnref s1 (Some a); Some (s2, None, [Wj_close_fd fd, Wj_close_fd fd]) }
            else case listener of
              None \<Rightarrow> do { s2 \<leftarrow> ctxClientUnref s1 (Some a); Some (s2, None, [Wj_wsj1_unref, Wj_close_fd fd]) }
            | Some l \<Rightarrow>
                Some (s1, Some \<lparr>wj_refcount = 1, wj_has_cleanup = cleanup, wj_session = a, wj_listener = l, wj_new_session = ac_created x, wj_log = [], wj_reqs = Map.empty\<rparr>, []) })"

definition aws_addref :: "'j afb_ws_json1 \<Rightarrow> 'j afb_ws_json1" where
  "aws_addref w = w\<lparr>wj_refcount := wj_refcount w + 1\<rparr>"

definition aws_unref :: "'j wj_state \<Rightarrow> 'j wj_state option" where
  "aws_unref = (\<lambda>(s, w).
     (let w1 = w\<lparr>wj_refcount := wj_refcount w - 1\<rparr> in
      if wj_refcount w1 \<noteq> 0 then Some (s, w1)
      else do { s1 \<leftarrow> ctxClientUnref s (Some (wj_session w));
                Some (s1, wj_emit ([Wj_listener_unref, Wj_wsj1_unref] @ (if wj_has_cleanup w then [Wj_cleanup] else [])) w1) }))"

definition aws_on_hangup :: "'j wj_state \<Rightarrow> 'j wj_state option" where
  "aws_on_hangup = aws_unref"

definition aws_on_event :: "string \<Rightarrow> 'j option \<Rightarrow> 'j afb_ws_json1 \<Rightarrow> 'j afb_ws_json1" where
  "aws_on_event event obj = wj_emit [Wj_event event (afb_msg_json_event event obj)]"

section \<open>Requests\<close>

definition wsreq_addref :: "nat \<Rightarrow> 'j wj_state \<Rightarrow> 'j wj_state option" where
  "wsreq_addref i = (\<lambda>(s, w). do { r \<leftarrow> wj_reqs w i; Some (s, w\<lparr>wj_reqs := (wj_reqs w)(i \<mapsto> r\<lparr>wq_refcount := wq_refcount r + 1\<rparr>)\<rparr>) })"

definition wsreq_unref :: "int \<Rightarrow> string \<Rightarrow> nat \<Rightarrow> 'j wj_state \<Rightarrow> 'j wj_state option" where
  "wsreq_unref now newuuid i = (\<lambda>(s, w).
     do { r \<leftarrow> wj_reqs w i;
          let r1 = r\<lparr>wq_refcount := wq_refcount r - 1\<rparr>;
          if wq_refcount r1 \<noteq> 0 then Some (s, w\<lparr>wj_reqs := (wj_reqs w)(i \<mapsto> r1)\<rparr>)
          else do { (s1, x) \<leftarrow> afb_context_disconnect s (wq_context r1) now newuuid;
                    aws_unref (s1, wj_emit [Wj_msg_unref (wq_msgj1 r1)] (w\<lparr>wj_reqs := (wj_reqs w)(i := None)\<rparr>)) } })"

text \<open>A call received: the request is made, with the number \<open>i\<close>, and handed to the table of apis; the api that is called is recorded. What it does is the steps that
  follow, the last of which, on the side of the connection, is to give its reference back.\<close>

definition aws_on_call ::
  "bool \<Rightarrow> 'api apis \<Rightarrow> int \<Rightarrow> string \<Rightarrow> nat \<Rightarrow> string \<Rightarrow> string \<Rightarrow> nat \<Rightarrow> string option \<Rightarrow> 'j wj_state \<Rightarrow> 'j wj_state option" where
  "aws_on_call calloc_ok apis now newuuid i api verb msg token = (\<lambda>(s, w).
     (if \<not> calloc_ok then Some (s, wj_emit [Wj_close 1008] w)
      else do {
        (s1, x) \<leftarrow> afb_context_init s (Some (wj_session w)) token now;
        let x1 = (if \<not> ac_invalidated x then x\<lparr>ac_validated := True\<rparr> else x);
        let x2 = (if wj_new_session w then x1\<lparr>ac_created := True\<rparr> else x1);
        let w1 = aws_addref (wj_emit [Wj_msg_addref msg] (w\<lparr>wj_new_session := False\<rparr>));
        case afb_apis_call_full apis api of
          None \<Rightarrow> do {
            (j, c) \<leftarrow> afb_msg_json_reply_error ''fail'' (Some ''api not found'') (Some (s1, x2)) None now newuuid;
            (s2, x3) \<leftarrow> c;
            (s3, x4, tok) \<leftarrow> afb_context_sent_token s2 x3 now newuuid;
            Some (s3, wj_emit [Wj_reply_error msg j tok]
              (w1\<lparr>wj_reqs := (wj_reqs w1)(i \<mapsto> \<lparr>wq_context = x4, wq_refcount = 1, wq_msgj1 = msg\<rparr>)\<rparr>)) }
        | Some (k, a) \<Rightarrow>
            Some (s1, wj_emit [Wj_call k verb i]
              (w1\<lparr>wj_reqs := (wj_reqs w1)(i \<mapsto> \<lparr>wq_context = x2\<lparr>ac_api_index := int k\<rparr>, wq_refcount = 1, wq_msgj1 = msg\<rparr>)\<rparr>)) }))"

text \<open>A reply carries the token to send, which may renew the one of the session; the reply itself is built with the context first.\<close>

definition wsreq_reply ::
  "int \<Rightarrow> string \<Rightarrow> (sessions \<times> afb_context \<Rightarrow> ('j jval \<times> (sessions \<times> afb_context) option) option) \<Rightarrow> (nat \<Rightarrow> 'j jval \<Rightarrow> string option \<Rightarrow> 'j wj_action)
     \<Rightarrow> nat \<Rightarrow> 'j wj_state \<Rightarrow> 'j wj_state option" where
  "wsreq_reply now newuuid build act i = (\<lambda>(s, w).
     do { r \<leftarrow> wj_reqs w i;
          (j, c) \<leftarrow> build (s, wq_context r);
          (s1, x1) \<leftarrow> c;
          (s2, x2, tok) \<leftarrow> afb_context_sent_token s1 x1 now newuuid;
          Some (s2, wj_emit [act (wq_msgj1 r) j tok] (w\<lparr>wj_reqs := (wj_reqs w)(i \<mapsto> r\<lparr>wq_context := x2\<rparr>)\<rparr>)) })"

definition wsreq_fail :: "int \<Rightarrow> string \<Rightarrow> string \<Rightarrow> string option \<Rightarrow> nat \<Rightarrow> 'j wj_state \<Rightarrow> 'j wj_state option" where
  "wsreq_fail now newuuid status info =
     wsreq_reply now newuuid (\<lambda>sx. afb_msg_json_reply_error status info (Some sx) None now newuuid) Wj_reply_error"

definition wsreq_success :: "int \<Rightarrow> string \<Rightarrow> 'j option \<Rightarrow> string option \<Rightarrow> nat \<Rightarrow> 'j wj_state \<Rightarrow> 'j wj_state option" where
  "wsreq_success now newuuid obj info =
     wsreq_reply now newuuid (\<lambda>sx. afb_msg_json_reply_ok info obj (Some sx) None now newuuid) Wj_reply_ok"

definition wsreq_send :: "int \<Rightarrow> string \<Rightarrow> string \<Rightarrow> nat \<Rightarrow> 'j wj_state \<Rightarrow> 'j wj_state option" where
  "wsreq_send now newuuid buffer i = (\<lambda>(s, w).
     do { r \<leftarrow> wj_reqs w i;
          (s1, x1, tok) \<leftarrow> afb_context_sent_token s (wq_context r) now newuuid;
          Some (s1, wj_emit [Wj_reply_raw (wq_msgj1 r) buffer tok] (w\<lparr>wj_reqs := (wj_reqs w)(i \<mapsto> r\<lparr>wq_context := x1\<rparr>)\<rparr>)) })"

text \<open>\<open>object_of\<close> and \<open>text_of\<close> are the JSON object and the text of a message.\<close>

definition wsreq_json :: "(nat \<Rightarrow> 'j) \<Rightarrow> 'j afb_wsreq \<Rightarrow> 'j" where
  "wsreq_json object_of r = object_of (wq_msgj1 r)"

definition wsreq_get :: "(nat \<Rightarrow> 'j) \<Rightarrow> ('j \<Rightarrow> string \<Rightarrow> 'j option) \<Rightarrow> ('j \<Rightarrow> string option) \<Rightarrow> 'j afb_wsreq \<Rightarrow> string \<Rightarrow> afb_arg" where
  "wsreq_get object_of field to_str r name = afb_msg_json_get_arg field to_str (wsreq_json object_of r) name"

definition wsreq_raw :: "(nat \<Rightarrow> string) \<Rightarrow> 'j afb_wsreq \<Rightarrow> string \<times> nat" where
  "wsreq_raw text_of r = (text_of (wq_msgj1 r), length (text_of (wq_msgj1 r)))"

definition wsreq_subscribe :: "'j afb_ws_json1 \<Rightarrow> afb_event \<Rightarrow> addr option \<Rightarrow> evt_state \<Rightarrow> (evt_state \<times> errno option) option" where
  "wsreq_subscribe w event alloc es = afb_evt_add_watch (wj_listener w) event alloc es"

definition wsreq_unsubscribe :: "'j afb_ws_json1 \<Rightarrow> afb_event \<Rightarrow> evt_state \<Rightarrow> (evt_state \<times> errno option) option" where
  "wsreq_unsubscribe w event es = afb_evt_remove_watch (wj_listener w) event es"

text \<open>What an api may do with the context of its request: ask for its session to be closed, change the level, and what its checks do, but never the session.\<close>

definition wsreq_context :: "(afb_context \<Rightarrow> afb_context) \<Rightarrow> nat \<Rightarrow> 'j wj_state \<Rightarrow> 'j wj_state option" where
  "wsreq_context f i = (\<lambda>(s, w). do { r \<leftarrow> wj_reqs w i; Some (s, w\<lparr>wj_reqs := (wj_reqs w)(i \<mapsto> r\<lparr>wq_context := f (wq_context r)\<rparr>)\<rparr>) })"

section \<open>Steps\<close>

text \<open>A connection and its requests, in any order of the calls: those of the protocol layer until it hangs up, once, and those of the apis that hold references of a
  request. The number is the references that apis hold.\<close>

datatype 'j wj_op =
    Wj_on_call nat string string nat "string option"
  | Wj_hangup
  | Wj_addref nat
  | Wj_unref nat
  | Wj_success nat "'j option" "string option"
  | Wj_fail nat string "string option"
  | Wj_send nat string
  | Wj_context nat "afb_context \<Rightarrow> afb_context"
  | Wj_on_event string "'j option"

fun wj_exec :: "'api apis \<Rightarrow> int \<Rightarrow> string \<Rightarrow> 'j wj_op \<Rightarrow> 'j wj_state \<Rightarrow> 'j wj_state option" where
  "wj_exec apis now nu (Wj_on_call i api verb msg token) st = aws_on_call True apis now nu i api verb msg token st"
| "wj_exec apis now nu Wj_hangup st = aws_on_hangup st"
| "wj_exec apis now nu (Wj_addref i) st = wsreq_addref i st"
| "wj_exec apis now nu (Wj_unref i) st = wsreq_unref now nu i st"
| "wj_exec apis now nu (Wj_success i obj info) st = wsreq_success now nu obj info i st"
| "wj_exec apis now nu (Wj_fail i status info) st = wsreq_fail now nu status info i st"
| "wj_exec apis now nu (Wj_send i buffer) st = wsreq_send now nu buffer i st"
| "wj_exec apis now nu (Wj_context i f) st = wsreq_context f i st"
| "wj_exec apis now nu (Wj_on_event event obj) (s, w) = Some (s, aws_on_event event obj w)"

text \<open>The operations that a holder may do: on live requests, a new number for a call, and calls and events only while the protocol layer has not hung up.\<close>

fun wj_allowed :: "bool \<Rightarrow> 'j wj_op \<Rightarrow> 'j wj_state \<Rightarrow> bool" where
  "wj_allowed up (Wj_on_call i api verb msg token) (s, w) \<longleftrightarrow> up \<and> wj_reqs w i = None"
| "wj_allowed up Wj_hangup (s, w) \<longleftrightarrow> up"
| "wj_allowed up (Wj_addref i) (s, w) \<longleftrightarrow> wj_reqs w i \<noteq> None"
| "wj_allowed up (Wj_unref i) (s, w) \<longleftrightarrow> wj_reqs w i \<noteq> None"
| "wj_allowed up (Wj_success i obj info) (s, w) \<longleftrightarrow> wj_reqs w i \<noteq> None"
| "wj_allowed up (Wj_fail i status info) (s, w) \<longleftrightarrow> wj_reqs w i \<noteq> None"
| "wj_allowed up (Wj_send i buffer) (s, w) \<longleftrightarrow> wj_reqs w i \<noteq> None"
| "wj_allowed up (Wj_context i f) (s, w) \<longleftrightarrow> wj_reqs w i \<noteq> None \<and> (\<forall>x. ac_session (f x) = ac_session x)"
| "wj_allowed up (Wj_on_event event obj) (s, w) \<longleftrightarrow> up"

inductive wj_reach :: "'api apis \<Rightarrow> sessions \<Rightarrow> bool \<Rightarrow> 'j wj_state \<Rightarrow> bool" for apis s0 where
  create: "session_inv s0 \<Longrightarrow> ac_session x = Some a \<Longrightarrow> 0 < session_refs s0 a \<Longrightarrow> afb_ws_json1_create True True (Some l) s0 fd x cleanup = Some (s, Some w, acts) \<Longrightarrow>
    wj_reach apis s0 True (s, w)"
| step: "wj_reach apis s0 up st \<Longrightarrow> wj_allowed up op st \<Longrightarrow> length nu = 36 \<Longrightarrow> wj_exec apis now nu op st = Some st' \<Longrightarrow>
    wj_reach apis s0 (up \<and> op \<noteq> Wj_hangup) st'"

section \<open>The session through a request\<close>

lemma sent_token_safe:
  assumes "session_inv s" "ac_session x = Some a" "0 < session_refs s a" "length nu = 36"
  shows "\<exists>s' x' tok. afb_context_sent_token s x now nu = Some (s', x', tok) \<and> session_inv s' \<and> session_refs s' = session_refs s \<and> ac_session x' = Some a"
proof -
  obtain c where c: "ss_heap s a = Some c" using session_refs_pos [OF assms(3)] by blast
  obtain s' where n: "ctxTokenNew s a now nu = Some s'" "session_inv s'" "session_refs s' = session_refs s"
    using hupd_safe [OF assms(1,3), of "HTokenNew now nu"] assms(4) by auto
  from n(3) assms(3) obtain c' where c': "ss_heap s' a = Some c'" using session_refs_pos [of s' a] by auto
  show ?thesis using assms(1,2) c c' n by (auto simp: afb_context_sent_token_def ctxClientGetToken_def)
qed

lemma sent_uuid_safe: "ac_session x = Some a \<Longrightarrow> 0 < session_refs s a \<Longrightarrow> \<exists>u. afb_context_sent_uuid s x = Some u"
  using session_refs_pos [of s a] by (auto simp: afb_context_sent_uuid_def ctxClientGetUuid_def)

lemma json_reply_safe:
  assumes "session_inv s" "ac_session x = Some a" "0 < session_refs s a" "length nu = 36"
  shows "\<exists>j s' x'. afb_msg_json_reply status info resp (Some (s, x)) reqid now nu = Some (j, Some (s', x')) \<and> session_inv s' \<and> session_refs s' = session_refs s
    \<and> ac_session x' = Some a"
proof -
  from sent_token_safe [OF assms] obtain s1 x1 tok where
    1: "afb_context_sent_token s x now nu = Some (s1, x1, tok)" "session_inv s1" "session_refs s1 = session_refs s" "ac_session x1 = Some a" by blast
  from sent_uuid_safe [OF 1(4), of s1] 1(3) assms(3) obtain u where "afb_context_sent_uuid s1 x1 = Some u" by auto
  with 1 show ?thesis by (simp add: afb_msg_json_reply_def Let_def)
qed

lemma init_safe:
  assumes "session_inv s" "0 < session_refs s a"
  shows "\<exists>s' x. afb_context_init s (Some a) token now = Some (s', x) \<and> session_inv s' \<and> session_refs s' = (session_refs s)(a := session_refs s a + 1)
    \<and> ac_session x = Some a"
proof -
  from addref_refs [OF assms] obtain s' where
    s': "ctxClientAddRef s (Some a) = Some s'" "session_inv s'" "session_refs s' = (session_refs s)(a := session_refs s a + 1)" by blast
  then obtain c where "ss_heap s' a = Some c" using session_refs_pos [of s' a] by auto
  from init_context_total [OF this, of token now] obtain x where "init_context s' (Some a) token now = Some x" by blast
  with s' init_context_session [OF this] show ?thesis by (simp add: afb_context_init_def)
qed

section \<open>References\<close>

definition wj_inv :: "sessions \<Rightarrow> bool \<Rightarrow> 'j wj_state \<Rightarrow> bool" where
  "wj_inv s0 up = (\<lambda>(s, w).
     session_inv s \<and> finite (dom (wj_reqs w)) \<and> 0 < session_refs s0 (wj_session w)
     \<and> (\<forall>i r. wj_reqs w i = Some r \<longrightarrow> 0 < wq_refcount r \<and> ac_session (wq_context r) = Some (wj_session w))
     \<and> wj_refcount w = of_bool up + int (card (dom (wj_reqs w)))
     \<and> session_refs s = (session_refs s0)(wj_session w := session_refs s0 (wj_session w) + of_bool (wj_refcount w > 0) + card (dom (wj_reqs w)))
     \<and> count_list (wj_log w) Wj_listener_unref = of_bool (wj_refcount w = 0) \<and> count_list (wj_log w) Wj_wsj1_unref = of_bool (wj_refcount w = 0))"

lemmas wj_ops = wsreq_addref_def wsreq_unref_def wsreq_reply_def wsreq_fail_def wsreq_success_def wsreq_send_def wsreq_context_def

lemma wj_alive:
  assumes "wj_inv s0 up (s, w)" "up \<or> wj_reqs w i \<noteq> None"
  shows "0 < session_refs s (wj_session w)" "0 < wj_refcount w"
proof -
  note inv = assms(1) [unfolded wj_inv_def prod.case]
  show "0 < session_refs s (wj_session w)" using inv by (simp add: fun_eq_iff)
  have "up \<or> 0 < card (dom (wj_reqs w))" using assms(2) inv by (auto simp: card_gt_0_iff)
  then show "0 < wj_refcount w" using inv by auto
qed

text \<open>Steps that only change the context of one live request, with the session the same.\<close>

lemma wj_inv_context:
  assumes "wj_inv s0 up (s, w)" "wj_reqs w i = Some r" "session_inv s'" "session_refs s' = session_refs s" "ac_session x = Some (wj_session w)"
    and "0 < n" "Wj_listener_unref \<notin> set acts" "Wj_wsj1_unref \<notin> set acts"
  shows "wj_inv s0 up (s', wj_emit acts (w\<lparr>wj_reqs := (wj_reqs w)(i \<mapsto> r\<lparr>wq_context := x, wq_refcount := n\<rparr>)\<rparr>))"
proof -
  have "insert i (dom (wj_reqs w)) = dom (wj_reqs w)" using assms(2) by auto
  then show ?thesis using assms by (auto simp: wj_inv_def wj_emit_def count_list_append split: if_splits dest: count_notin)
qed

lemma aws_unref_ok:
  assumes "session_inv s" "0 < session_refs s (wj_session w)" "0 < wj_refcount w"
  shows "\<exists>s' w'. aws_unref (s, w) = Some (s', w') \<and> session_inv s' \<and> wj_refcount w' = wj_refcount w - 1 \<and> wj_reqs w' = wj_reqs w \<and> wj_session w' = wj_session w
    \<and> session_refs s' = (if wj_refcount w = 1 then (session_refs s)(wj_session w := session_refs s (wj_session w) - 1) else session_refs s)
    \<and> (\<exists>acts. wj_log w' = wj_log w @ acts \<and> count_list acts Wj_listener_unref = of_bool (wj_refcount w = 1) \<and> count_list acts Wj_wsj1_unref = of_bool (wj_refcount w = 1))"
proof (cases "wj_refcount w = 1")
  case True
  from unref_refs [OF assms(1,2)] obtain s' where
    "ctxClientUnref s (Some (wj_session w)) = Some s'" "session_inv s'" "session_refs s' = (session_refs s)(wj_session w := session_refs s (wj_session w) - 1)" by blast
  with True show ?thesis by (simp add: aws_unref_def Let_def wj_emit_def)
next
  case False
  with assms show ?thesis by (simp add: aws_unref_def Let_def)
qed

lemma wj_unref_connection:
  assumes "wj_inv s0 True (s, w)"
  shows "\<exists>st'. aws_unref (s, w) = Some st' \<and> wj_inv s0 False st'"
proof -
  note inv = assms [unfolded wj_inv_def prod.case] and alive = wj_alive [OF assms, of undefined]
  from aws_unref_ok [of s w] inv alive obtain s' w' acts where
    u: "aws_unref (s, w) = Some (s', w')" "session_inv s'" "wj_refcount w' = wj_refcount w - 1" "wj_reqs w' = wj_reqs w" "wj_session w' = wj_session w"
      "session_refs s' = (if wj_refcount w = 1 then (session_refs s)(wj_session w := session_refs s (wj_session w) - 1) else session_refs s)"
      "wj_log w' = wj_log w @ acts" "count_list acts Wj_listener_unref = of_bool (wj_refcount w = 1)" "count_list acts Wj_wsj1_unref = of_bool (wj_refcount w = 1)" by auto
  have "wj_inv s0 False (s', w')"
    unfolding wj_inv_def prod.case u(3,4,5,7)
    using inv u(2,6,8,9) alive(2) by (auto simp: count_list_append fun_eq_iff split: if_splits simp del: card_0_eq card_eq_0_iff)
  with u(1) show ?thesis by blast
qed

lemma wj_unref_request:
  assumes "wj_inv s0 up (s, w)" "wj_reqs w i = Some r" "length nu = 36"
  shows "\<exists>st'. wsreq_unref now nu i (s, w) = Some st' \<and> wj_inv s0 up st'"
proof (cases "wq_refcount r = 1")
  case False
  note inv = assms(1) [unfolded wj_inv_def prod.case]
  have "0 < wq_refcount r - 1" "ac_session (wq_context r) = Some (wj_session w)" using inv assms(2) False by fastforce+
  from wj_inv_context [OF assms(1,2) _ _ this(2,1), of s "[]"] inv show ?thesis
    using assms(2) False by (simp add: wsreq_unref_def wj_emit_def)
next
  case True
  note inv = assms(1) [unfolded wj_inv_def prod.case] and alive = wj_alive [OF assms(1), of i]
  let ?a = "wj_session w"
  have sess: "ac_session (wq_context r) = Some ?a" using inv assms(2) by auto
  have pos: "0 < session_refs s ?a" "0 < wj_refcount w" using alive assms(2) by auto
  from disconnect_safe [OF _ sess pos(1) assms(3), of now] inv obtain s1 x where
    d: "afb_context_disconnect s (wq_context r) now nu = Some (s1, x)" "session_inv s1" "session_refs s1 = (session_refs s)(?a := session_refs s ?a - 1)" by auto
  let ?w = "wj_emit [Wj_msg_unref (wq_msgj1 r)] (w\<lparr>wj_reqs := (wj_reqs w)(i := None)\<rparr>)"
  have refs: "session_refs s ?a = session_refs s0 ?a + 1 + card (dom (wj_reqs w))" using inv pos(2) by simp
  have "0 < session_refs s1 (wj_session ?w)" "0 < wj_refcount ?w" using refs pos(2) inv by (simp_all add: d(3) wj_emit_def)
  from aws_unref_ok [OF d(2) this] obtain s' w' acts where
    u: "aws_unref (s1, ?w) = Some (s', w')" "session_inv s'" "wj_refcount w' = wj_refcount ?w - 1" "wj_reqs w' = wj_reqs ?w" "wj_session w' = wj_session ?w"
      "session_refs s' = (if wj_refcount ?w = 1 then (session_refs s1)(wj_session ?w := session_refs s1 (wj_session ?w) - 1) else session_refs s1)"
      "wj_log w' = wj_log ?w @ acts" "count_list acts Wj_listener_unref = of_bool (wj_refcount ?w = 1)" "count_list acts Wj_wsj1_unref = of_bool (wj_refcount ?w = 1)" by blast
  have dom: "dom ((wj_reqs w)(i := None)) = dom (wj_reqs w) - {i}" by auto
  have card: "card (dom (wj_reqs w) - {i}) = card (dom (wj_reqs w)) - 1" using inv assms(2) by (simp add: card_Diff_singleton domI)
  have some: "0 < card (dom (wj_reqs w))" using inv assms(2) by (auto simp: card_gt_0_iff)
  have w: "wj_refcount ?w = wj_refcount w" "wj_session ?w = ?a" "wj_reqs ?w = (wj_reqs w)(i := None)" "wj_log ?w = wj_log w @ [Wj_msg_unref (wq_msgj1 r)]"
    by (simp_all add: wj_emit_def)
  have "wj_inv s0 up (s', w')"
    unfolding wj_inv_def prod.case u(3,4,5,7) w dom card
    using inv u(2,6,8,9) w some refs pos(2) by (auto simp: d(3) count_list_append fun_eq_iff split: if_splits simp del: card_0_eq card_eq_0_iff)
  moreover have "wsreq_unref now nu i (s, w) = Some (s', w')" using assms(2) True d(1) u(1) by (simp add: wsreq_unref_def Let_def)
  ultimately show ?thesis by blast
qed

lemma wj_reply_request:
  assumes "wj_inv s0 up (s, w)" "wj_reqs w i = Some r" "length nu = 36" "\<And>m j t. act m j t \<noteq> Wj_listener_unref \<and> act m j t \<noteq> Wj_wsj1_unref"
  shows "\<exists>st'. wsreq_reply now nu (\<lambda>sx. afb_msg_json_reply status info resp (Some sx) None now nu) act i (s, w) = Some st' \<and> wj_inv s0 up st'"
proof -
  note inv = assms(1) [unfolded wj_inv_def prod.case] and alive = wj_alive [OF assms(1), of i]
  have x: "ac_session (wq_context r) = Some (wj_session w)" "0 < wq_refcount r" "session_inv s" using inv assms(2) by auto
  have pos: "0 < session_refs s (wj_session w)" using alive assms(2) by auto
  from json_reply_safe [OF x(3,1) pos assms(3)] obtain j s1 x1 where
    1: "afb_msg_json_reply status info resp (Some (s, wq_context r)) None now nu = Some (j, Some (s1, x1))" "session_inv s1" "session_refs s1 = session_refs s"
      "ac_session x1 = Some (wj_session w)" by blast
  from sent_token_safe [OF 1(2,4) _ assms(3)] 1(3) pos obtain s2 x2 tok where
    2: "afb_context_sent_token s1 x1 now nu = Some (s2, x2, tok)" "session_inv s2" "session_refs s2 = session_refs s1" "ac_session x2 = Some (wj_session w)" by metis
  from wj_inv_context [OF assms(1,2) 2(2) _ 2(4) x(2), of "[act (wq_msgj1 r) j tok]"] 1(3) 2(3) assms(4) [of "wq_msgj1 r" j tok]
  have "wj_inv s0 up (s2, wj_emit [act (wq_msgj1 r) j tok] (w\<lparr>wj_reqs := (wj_reqs w)(i \<mapsto> r\<lparr>wq_context := x2\<rparr>)\<rparr>))" by auto
  with assms(2) 1(1) 2(1) show ?thesis by (simp add: wsreq_reply_def)
qed

lemma wj_new_request:
  assumes "wj_inv s0 True (s, w)" "wj_reqs w i = None" "session_inv s'" "ac_session x = Some (wj_session w)" "Wj_listener_unref \<notin> set acts" "Wj_wsj1_unref \<notin> set acts"
    and "session_refs s' = (session_refs s)(wj_session w := session_refs s (wj_session w) + 1)"
    and "wj_refcount w' = wj_refcount w + 1" "wj_session w' = wj_session w" "wj_log w' = wj_log w @ acts"
    and "wj_reqs w' = (wj_reqs w)(i \<mapsto> \<lparr>wq_context = x, wq_refcount = 1, wq_msgj1 = msg\<rparr>)"
  shows "wj_inv s0 True (s', w')"
proof -
  note inv = assms(1) [unfolded wj_inv_def prod.case] and alive = wj_alive [OF assms(1), of i]
  have card: "card (insert i (dom (wj_reqs w))) = card (dom (wj_reqs w)) + 1" using inv assms(2) by (simp add: card_insert_if domIff)
  have none: "count_list acts Wj_listener_unref = 0" "count_list acts Wj_wsj1_unref = 0" using assms(5,6) by (simp_all add: count_notin)
  show ?thesis
    unfolding wj_inv_def prod.case assms(8-11)
    using inv alive(2) assms(3,4,7) card none by (auto simp: count_list_append fun_eq_iff)
qed

lemma wj_call_request:
  fixes w :: "'j afb_ws_json1"
  assumes "wj_inv s0 True (s, w)" "wj_reqs w i = None" "length nu = 36"
  shows "\<exists>st'. aws_on_call True apis now nu i api verb msg token (s, w) = Some st' \<and> wj_inv s0 True st'"
proof -
  note inv = assms(1) [unfolded wj_inv_def prod.case]
  have pos: "0 < session_refs s (wj_session w)" using wj_alive [OF assms(1)] by auto
  from init_safe [OF _ pos, of token now] inv obtain s1 x where
    1: "afb_context_init s (Some (wj_session w)) token now = Some (s1, x)" "session_inv s1" "ac_session x = Some (wj_session w)"
      "session_refs s1 = (session_refs s)(wj_session w := session_refs s (wj_session w) + 1)" by auto
  define x2 where "x2 = (let x1 = (if \<not> ac_invalidated x then x\<lparr>ac_validated := True\<rparr> else x) in if wj_new_session w then x1\<lparr>ac_created := True\<rparr> else x1)"
  have x2: "ac_session x2 = Some (wj_session w)" using 1(3) by (simp add: x2_def Let_def)
  show ?thesis
  proof (cases "afb_apis_call_full apis api")
    case (Some ka)
    obtain k a where ka: "ka = (k, a)" by fastforce
    note n = wj_new_request [OF assms(1,2) 1(2) _ _ _ 1(4), where msg = msg and x = "x2\<lparr>ac_api_index := int k\<rparr>" and acts = "[Wj_msg_addref msg, Wj_call k verb i]"]
    show ?thesis
      unfolding aws_on_call_def prod.case using 1(1) Some ka x2
      by (auto simp: Let_def x2_def [unfolded Let_def, symmetric] aws_addref_def wj_emit_def intro!: n)
  next
    case None
    from json_reply_safe [OF 1(2) x2 _ assms(3)] 1(4) pos obtain j :: "'j jval" and s2 x3 where
      2: "afb_msg_json_reply ''fail'' (Some ''api not found'') None (Some (s1, x2)) None now nu = Some (j, Some (s2, x3))" "session_inv s2"
        "session_refs s2 = session_refs s1" "ac_session x3 = Some (wj_session w)" by fastforce
    from sent_token_safe [OF 2(2,4) _ assms(3)] 1(4) 2(3) pos obtain s3 x4 tok where
      3: "afb_context_sent_token s2 x3 now nu = Some (s3, x4, tok)" "session_inv s3" "session_refs s3 = session_refs s2" "ac_session x4 = Some (wj_session w)"
      by fastforce
    note n = wj_new_request [OF assms(1,2) 3(2,4), where msg = msg and acts = "[Wj_msg_addref msg, Wj_reply_error msg j tok]"]
    show ?thesis
      unfolding aws_on_call_def prod.case using 1(1,4) None 2(1,3) 3(1,3)
      by (auto simp: Let_def x2_def [unfolded Let_def, symmetric] aws_addref_def wj_emit_def afb_msg_json_reply_error_def intro!: n)
  qed
qed

lemma wj_send_request:
  assumes "wj_inv s0 up (s, w)" "wj_reqs w i = Some r" "length nu = 36"
  shows "\<exists>st'. wsreq_send now nu buffer i (s, w) = Some st' \<and> wj_inv s0 up st'"
proof -
  note inv = assms(1) [unfolded wj_inv_def prod.case]
  have x: "ac_session (wq_context r) = Some (wj_session w)" "0 < wq_refcount r" "session_inv s" using inv assms(2) by auto
  have pos: "0 < session_refs s (wj_session w)" using wj_alive [OF assms(1), of i] assms(2) by auto
  from sent_token_safe [OF x(3,1) pos assms(3)] obtain s2 x2 tok where
    2: "afb_context_sent_token s (wq_context r) now nu = Some (s2, x2, tok)" "session_inv s2" "session_refs s2 = session_refs s" "ac_session x2 = Some (wj_session w)" by metis
  from wj_inv_context [OF assms(1,2) 2(2,3,4) x(2), of "[Wj_reply_raw (wq_msgj1 r) buffer tok]"]
  show ?thesis using assms(2) 2(1) by (simp add: wsreq_send_def)
qed

lemma wj_exec_inv:
  assumes "wj_inv s0 up st" "wj_allowed up op st" "length nu = 36"
  shows "\<exists>st'. wj_exec apis now nu op st = Some st' \<and> wj_inv s0 (up \<and> op \<noteq> Wj_hangup) st'"
proof -
  obtain s w where st: "st = (s, w)" by fastforce
  note inv = assms(1) [unfolded st] and i0 = assms(1) [unfolded st wj_inv_def prod.case]
  show ?thesis
  proof (cases op)
    case (Wj_on_call i api verb msg token)
    then show ?thesis using wj_call_request [of s0 s w i nu] assms inv by (simp add: st)
  next
    case Wj_hangup
    then show ?thesis using wj_unref_connection [of s0 s w] assms inv by (simp add: st aws_on_hangup_def)
  next
    case (Wj_addref i)
    then obtain r where r: "wj_reqs w i = Some r" using assms(2) st by auto
    with i0 have "0 < wq_refcount r + 1" "ac_session (wq_context r) = Some (wj_session w)" by fastforce+
    from wj_inv_context [OF inv r _ _ this(2,1), of s "[]"] i0 r Wj_addref show ?thesis by (simp add: st wsreq_addref_def wj_emit_def)
  next
    case (Wj_unref i)
    then show ?thesis using wj_unref_request [of s0 up s w i] assms inv by (auto simp: st)
  next
    case (Wj_success i obj info)
    then show ?thesis using wj_reply_request [of s0 up s w i _ nu Wj_reply_ok] assms inv by (auto simp: st wsreq_success_def afb_msg_json_reply_ok_def)
  next
    case (Wj_fail i status info)
    then show ?thesis using wj_reply_request [of s0 up s w i _ nu Wj_reply_error] assms inv by (auto simp: st wsreq_fail_def afb_msg_json_reply_error_def)
  next
    case (Wj_send i buffer)
    then show ?thesis using wj_send_request [of s0 up s w i] assms inv by (auto simp: st)
  next
    case (Wj_context i f)
    then obtain r where r: "wj_reqs w i = Some r" using assms(2) st by auto
    with i0 Wj_context assms(2) have "0 < wq_refcount r" "ac_session (f (wq_context r)) = Some (wj_session w)" by (auto simp: st)
    from wj_inv_context [OF inv r _ _ this(2,1), of s "[]"] i0 r Wj_context show ?thesis by (simp add: st wsreq_context_def wj_emit_def)
  next
    case (Wj_on_event event obj)
    then show ?thesis using i0 by (simp add: st wj_inv_def aws_on_event_def wj_emit_def count_list_append)
  qed
qed

lemma wj_reach_inv: "wj_reach apis s0 up st \<Longrightarrow> wj_inv s0 up st"
proof (induction rule: wj_reach.induct)
  case (create x a l fd cleanup s w acts)
  from session_exec_inv [OF create(1), of "OpAddRef a"] session_refs_pos [OF create(3)] create
  show ?case
    by (auto simp: afb_ws_json1_create_def wj_inv_def ctxClientAddRef_def put_ctx_upd session_refs_upd split: if_splits bind_splits)
next
  case (step up st op nu now st')
  from wj_exec_inv [OF step(5,2,3), of apis now] step(4) show ?case by auto
qed

text \<open>C35. A websocket client of the daemon is memory safe and gives back all that it took: whatever calls and events arrive, whatever the apis do with the requests they
  hold, before the hangup or after it, every operation on a live request returns, and so does every call, event and hangup while the connection is up. The session lives
  as long as the connection or one of its requests does; once the connection has hung up and the last request is released, each session has the references it
  had before the connection, and the listener and the protocol layer have been released, exactly once; before that they have not.\<close>

theorem json_client_refs_safe:
  assumes "wj_reach apis s0 up (s, w)"
  shows "session_inv s
    \<and> (\<forall>op now nu. wj_allowed up op (s, w) \<and> length nu = 36 \<longrightarrow> wj_exec apis now nu op (s, w) \<noteq> None)
    \<and> (up \<or> wj_reqs w \<noteq> Map.empty \<longrightarrow>
        session_refs s0 (wj_session w) + 1 + card (dom (wj_reqs w)) = session_refs s (wj_session w)
        \<and> Wj_listener_unref \<notin> set (wj_log w) \<and> Wj_wsj1_unref \<notin> set (wj_log w))
    \<and> (\<not> up \<and> wj_reqs w = Map.empty \<longrightarrow>
        session_refs s = session_refs s0 \<and> count_list (wj_log w) Wj_listener_unref = 1 \<and> count_list (wj_log w) Wj_wsj1_unref = 1)"
proof -
  from wj_reach_inv [OF assms] have i: "wj_inv s0 up (s, w)" .
  note inv = i [unfolded wj_inv_def prod.case]
  have run: "wj_exec apis now nu op (s, w) \<noteq> None" if "wj_allowed up op (s, w)" "length nu = 36" for op now nu
    using wj_exec_inv [OF i that, of apis now] by auto
  have alive: "0 < wj_refcount w" if "up \<or> wj_reqs w \<noteq> Map.empty"
    using wj_alive(2) [OF i] that by (auto simp: fun_eq_iff)
  have gone: "wj_refcount w = 0" "card (dom (wj_reqs w)) = 0" if "\<not> up \<and> wj_reqs w = Map.empty" using inv that by auto
  show ?thesis
    using inv run alive gone count_list_0_iff [of "wj_log w" Wj_listener_unref] count_list_0_iff [of "wj_log w" Wj_wsj1_unref]
    by (cases "up \<or> wj_reqs w \<noteq> Map.empty") (simp_all add: fun_upd_idem)
qed

text \<open>The table of requests after a step.\<close>

lemma aws_unref_reqs: "aws_unref (s, w) = Some (s', w') \<Longrightarrow> wj_reqs w' = wj_reqs w"
  by (auto simp: aws_unref_def Let_def wj_emit_def split: if_splits bind_splits)

lemma aws_on_call_reqs:
  "aws_on_call True apis now nu i api verb msg token (s, w) = Some (s', w') \<Longrightarrow> \<exists>r. wj_reqs w' = (wj_reqs w)(i \<mapsto> r) \<and> wq_refcount r = 1"
  by (auto simp: aws_on_call_def aws_addref_def Let_def wj_emit_def split: bind_splits option.splits prod.splits)

lemma wsreq_unref_reqs:
  "wsreq_unref now nu i (s, w) = Some (s', w') \<Longrightarrow> wj_reqs w i = Some r \<Longrightarrow> wq_refcount r = 1 \<Longrightarrow> wj_reqs w' = (wj_reqs w)(i := None)"
  by (auto simp: wsreq_unref_def Let_def wj_emit_def dest!: aws_unref_reqs split: bind_splits prod.splits)

lemma demo_client: "\<exists>s (w :: unit afb_ws_json1). wj_reach ([] :: unit apis) demo_session True (s, w) \<and> wj_reqs w = Map.empty"
proof -
  have refs: "0 < session_refs demo_session 7" by (simp add: session_refs_def demo_session_def demo_ctx_def)
  obtain x :: afb_context where x: "ac_session x = Some 7" using init_context_total [of demo_session 7 demo_ctx None 0] init_context_session [of demo_session 7 None 0] by (auto simp: demo_session_def)
  obtain s and w :: "unit afb_ws_json1" where c: "afb_ws_json1_create True True (Some 9) demo_session 5 x False = Some (s, Some w, [])" "wj_reqs w = Map.empty"
    using session_refs_pos [OF refs] x by (auto simp: afb_ws_json1_create_def ctxClientAddRef_def put_ctx_upd)
  from create [OF session_reach_inv [OF demo_session_reach] x refs c(1)] c(2) show ?thesis by blast
qed

theorem json_client_refs_safe_witness:
  "\<exists>s (w :: unit afb_ws_json1) s' (w' :: unit afb_ws_json1). wj_reach ([] :: unit apis) demo_session True (s, w) \<and> dom (wj_reqs w) = {4} \<and> Wj_wsj1_unref \<notin> set (wj_log w)
    \<and> wj_reach ([] :: unit apis) demo_session False (s', w') \<and> session_refs s' = session_refs demo_session \<and> count_list (wj_log w') Wj_wsj1_unref = 1"
proof -
  let ?nu = "replicate 36 CHR ''c''" and ?call = "Wj_on_call 4 ''api'' ''verb'' 1 (Some ''tok'')"
  note ok = json_client_refs_safe [THEN conjunct2, THEN conjunct1, rule_format, OF _ conjI]
  obtain s and w :: "unit afb_ws_json1" where 0: "wj_reach ([] :: unit apis) demo_session True (s, w)" "wj_reqs w = Map.empty" using demo_client by blast
  have "wj_exec ([] :: unit apis) 10 ?nu ?call (s, w) \<noteq> None" using 0(2) by (intro ok [OF 0(1)]) simp_all
  then obtain s1 w1 where e1: "wj_exec ([] :: unit apis) 10 ?nu ?call (s, w) = Some (s1, w1)" by fastforce
  with aws_on_call_reqs [of "[] :: unit apis" 10 ?nu 4] obtain r where r: "wj_reqs w1 = (wj_reqs w)(4 \<mapsto> r)" "wq_refcount r = 1" by fastforce
  from wj_reach.step [OF 0(1) _ _ e1] 0(2) have 1: "wj_reach ([] :: unit apis) demo_session True (s1, w1)" by simp
  have "wj_exec ([] :: unit apis) 11 ?nu Wj_hangup (s1, w1) \<noteq> None" by (intro ok [OF 1]) simp_all
  then obtain s2 w2 where e2: "wj_exec ([] :: unit apis) 11 ?nu Wj_hangup (s1, w1) = Some (s2, w2)" by fastforce
  with aws_unref_reqs have r2: "wj_reqs w2 = wj_reqs w1" by (fastforce simp: aws_on_hangup_def)
  from wj_reach.step [OF 1 _ _ e2] have 2: "wj_reach ([] :: unit apis) demo_session False (s2, w2)" by simp
  have "wj_exec ([] :: unit apis) 12 ?nu (Wj_unref 4) (s2, w2) \<noteq> None" using r r2 by (intro ok [OF 2]) simp_all
  then obtain s3 w3 where e3: "wj_exec ([] :: unit apis) 12 ?nu (Wj_unref 4) (s2, w2) = Some (s3, w3)" by fastforce
  with wsreq_unref_reqs [of 12 ?nu 4 s2 w2 s3 w3 r] r r2 0(2) have r3: "wj_reqs w3 = Map.empty" by simp
  from wj_reach.step [OF 2 _ _ e3] r r2 have 3: "wj_reach ([] :: unit apis) demo_session False (s3, w3)" by simp
  from json_client_refs_safe [OF 1] json_client_refs_safe [OF 3] 1 3 r r3 0(2) show ?thesis
    by (intro exI [of _ s1] exI [of _ w1] exI [of _ s3] exI [of _ w3]) simp
qed

section \<open>Creation failures and the context of a call\<close>

text \<open>A creation that fails gives the reference of the session back, but the descriptor is closed twice when it is the protocol layer that fails: that layer has
  already closed it.\<close>

lemma json_client_create_failure:
  assumes "session_inv s" "ac_session x = Some a" "0 < session_refs s a" "0 \<le> fd" "\<not> (malloc_ok \<and> wsj1_ok \<and> listener \<noteq> None)"
  shows "\<exists>s' acts. afb_ws_json1_create malloc_ok wsj1_ok listener s fd x cleanup = Some (s', None, acts) \<and> session_inv s' \<and> session_refs s' = session_refs s
    \<and> count_list acts (Wj_close_fd fd) = (if malloc_ok \<and> \<not> wsj1_ok then 2 else 1)"
proof -
  from addref_refs [OF assms(1,3)] obtain s1 where
    1: "ctxClientAddRef s (Some a) = Some s1" "session_inv s1" "session_refs s1 = (session_refs s)(a := session_refs s a + 1)" by blast
  from unref_refs [OF 1(2), of a] 1(3) obtain s2 where
    2: "ctxClientUnref s1 (Some a) = Some s2" "session_inv s2" "session_refs s2 = (session_refs s1)(a := session_refs s1 a - 1)" by auto
  have "session_refs s2 = session_refs s" using 1(3) 2(3) by (simp add: fun_upd_idem)
  then show ?thesis using assms 1(1) 2(1,2) by (auto simp: afb_ws_json1_create_def split: option.split)
qed

text \<open>The context of a call: the websocket was validated when it was opened, so that a call without a token is as valid as one with the right token; only a wrong
  token makes it invalid. The first call of a new session, and no other, is told so.\<close>

lemma json_client_call_context:
  assumes "aws_on_call True apis now nu i api verb msg token (s, w) = Some (s', w')" "afb_apis_call_full apis api = Some (k, h)"
    and "ss_heap s (wj_session w) = Some c"
  shows "\<exists>r. wj_reqs w' i = Some r \<and> wq_msgj1 r = msg \<and> ac_session (wq_context r) = Some (wj_session w) \<and> ac_api_index (wq_context r) = int k
    \<and> ac_created (wq_context r) = wj_new_session w \<and> \<not> wj_new_session w'
    \<and> (ac_validated (wq_context r) \<longleftrightarrow> (case token of None \<Rightarrow> True | Some t \<Rightarrow> ctxTokenCheck s (wj_session w) t now = Some True))
    \<and> (\<exists>l. wj_log w' = l @ [Wj_call k verb i])"
  using assms
  by (auto simp: aws_on_call_def aws_addref_def wj_emit_def Let_def afb_context_init_def init_context_def ctxClientAddRef_def put_ctx_upd ctxTokenCheck_def
      ctxIsActive_def ctxClientGetLOA_def split: bind_splits option.splits if_splits)

end
