(* ===== verification/Subcall.thy ===== *)
theory Subcall
  imports Ws_Json1
begin

text \<open>
  Calls between apis: the services of \<^verbatim>\<open>src/src/afb-svc.c\<close>, whose calls are requests of their own, and the subcalls of \<^verbatim>\<open>src/src/afb-subcall.c\<close>, which a
  request makes to another api and which may make subcalls in turn.

  A request is known by how it came about: a request of a service by a number, a subcall by a number and the request that it is made for, which is both its field
  \<open>req\<close> and the owner of its \<open>original_context\<close>, as in all places that call \<open>afb_subcall\<close>. A request whose count is zero is no more in its table. \<open>None\<close> is a use of a
  released request or session. The arguments of a call are known by their address; what is done with them and with the callbacks is recorded in order.
\<close>

datatype reqid = Svcreq nat | Subcall nat reqid

datatype 'j sub_action =
    Sa_take nat
  | Sa_put nat
  | Sa_callback nat bool "'j jval option"
  | Sa_call nat string reqid
  | Sa_listener_unref
  | Sa_on_event string

record afb_svc =
  sv_session :: addr
  sv_listener :: "addr option"

record svc_req =
  vq_context :: afb_context
  vq_svc :: nat
  vq_refcount :: int

record afb_subcall =
  su_context :: afb_context
  su_refcount :: int
  su_args :: nat
  su_callback :: nat

record 'j sub_state =
  sb_sessions :: sessions
  sb_common :: "addr option"
  sb_svcs :: "nat \<rightharpoonup> afb_svc"
  sb_svcreqs :: "nat \<rightharpoonup> svc_req"
  sb_subcalls :: "nat \<times> reqid \<rightharpoonup> afb_subcall"
  sb_log :: "'j sub_action list"

definition sb_emit :: "'j sub_action \<Rightarrow> 'j sub_state \<Rightarrow> 'j sub_state" where
  "sb_emit a st = st\<lparr>sb_log := sb_log st @ [a]\<rparr>"

section \<open>References\<close>

definition svcreq_addref :: "nat \<Rightarrow> 'j sub_state \<Rightarrow> 'j sub_state option" where
  "svcreq_addref n st = do { q \<leftarrow> sb_svcreqs st n; Some (st\<lparr>sb_svcreqs := (sb_svcreqs st)(n \<mapsto> q\<lparr>vq_refcount := vq_refcount q + 1\<rparr>)\<rparr>) }"

definition svcreq_unref :: "int \<Rightarrow> string \<Rightarrow> nat \<Rightarrow> 'j sub_state \<Rightarrow> 'j sub_state option" where
  "svcreq_unref now newuuid n st =
     do { q \<leftarrow> sb_svcreqs st n;
          let q1 = q\<lparr>vq_refcount := vq_refcount q - 1\<rparr>;
          if vq_refcount q1 = 0
          then do { (s1, x) \<leftarrow> afb_context_disconnect (sb_sessions st) (vq_context q1) now newuuid;
                    Some (st\<lparr>sb_sessions := s1, sb_svcreqs := (sb_svcreqs st)(n := None)\<rparr>) }
          else Some (st\<lparr>sb_svcreqs := (sb_svcreqs st)(n \<mapsto> q1)\<rparr>) }"

definition subcall_addref :: "nat \<Rightarrow> reqid \<Rightarrow> 'j sub_state \<Rightarrow> 'j sub_state option" where
  "subcall_addref i p st = do { c \<leftarrow> sb_subcalls st (i, p); Some (st\<lparr>sb_subcalls := (sb_subcalls st)((i, p) \<mapsto> c\<lparr>su_refcount := su_refcount c + 1\<rparr>)\<rparr>) }"

text \<open>\<open>afb_req_addref\<close> and \<open>afb_req_unref\<close>, through the interface of the request. The last reference of a subcall gives back the reference of its request.\<close>

fun req_addref :: "reqid \<Rightarrow> 'j sub_state \<Rightarrow> 'j sub_state option" where
  "req_addref (Svcreq n) st = svcreq_addref n st"
| "req_addref (Subcall i p) st = subcall_addref i p st"

definition subcall_unref :: "('j sub_state \<Rightarrow> 'j sub_state option) \<Rightarrow> nat \<Rightarrow> reqid \<Rightarrow> 'j sub_state \<Rightarrow> 'j sub_state option" where
  "subcall_unref unref_req i p st =
     do { c \<leftarrow> sb_subcalls st (i, p);
          let c1 = c\<lparr>su_refcount := su_refcount c - 1\<rparr>;
          if 0 = su_refcount c1
          then unref_req (sb_emit (Sa_put (su_args c1)) (st\<lparr>sb_subcalls := (sb_subcalls st)((i, p) := None)\<rparr>))
          else Some (st\<lparr>sb_subcalls := (sb_subcalls st)((i, p) \<mapsto> c1)\<rparr>) }"

primrec req_unref :: "int \<Rightarrow> string \<Rightarrow> reqid \<Rightarrow> 'j sub_state \<Rightarrow> 'j sub_state option" where
  "req_unref now newuuid (Svcreq n) = svcreq_unref now newuuid n"
| "req_unref now newuuid (Subcall i p) = subcall_unref (req_unref now newuuid p) i p"

section \<open>Contexts\<close>

fun req_context :: "reqid \<Rightarrow> 'j sub_state \<Rightarrow> afb_context option" where
  "req_context (Svcreq n) st = map_option vq_context (sb_svcreqs st n)"
| "req_context (Subcall i p) st = map_option su_context (sb_subcalls st (i, p))"

fun upd_context :: "(afb_context \<Rightarrow> afb_context) \<Rightarrow> reqid \<Rightarrow> 'j sub_state \<Rightarrow> 'j sub_state option" where
  "upd_context f (Svcreq n) st =
     do { q \<leftarrow> sb_svcreqs st n; Some (st\<lparr>sb_svcreqs := (sb_svcreqs st)(n \<mapsto> q\<lparr>vq_context := f (vq_context q)\<rparr>)\<rparr>) }"
| "upd_context f (Subcall i p) st =
     do { c \<leftarrow> sb_subcalls st (i, p); Some (st\<lparr>sb_subcalls := (sb_subcalls st)((i, p) \<mapsto> c\<lparr>su_context := f (su_context c)\<rparr>)\<rparr>) }"

text \<open>The requests to close the session or to change its level go through the chain to the request of the service.\<close>

primrec subcall_session_close :: "reqid \<Rightarrow> 'j sub_state \<Rightarrow> 'j sub_state option" where
  "subcall_session_close (Svcreq n) = upd_context afb_context_close (Svcreq n)"
| "subcall_session_close (Subcall i p) = (\<lambda>st. if sb_subcalls st (i, p) = None then None else subcall_session_close p st)"

primrec subcall_session_set_LOA :: "32 word \<Rightarrow> reqid \<Rightarrow> 'j sub_state \<Rightarrow> ('j sub_state \<times> bool) option" where
  "subcall_session_set_LOA loa (Svcreq n) = (\<lambda>st.
     do { q \<leftarrow> sb_svcreqs st n;
          let (x, ok) = afb_context_change_loa (vq_context q) loa;
          Some (st\<lparr>sb_svcreqs := (sb_svcreqs st)(n \<mapsto> q\<lparr>vq_context := x\<rparr>)\<rparr>, ok) })"
| "subcall_session_set_LOA loa (Subcall i p) = (\<lambda>st. if sb_subcalls st (i, p) = None then None else subcall_session_set_LOA loa p st)"

section \<open>Replies\<close>

text \<open>The object is put after the callback; it is fresh, so that nothing remains of it.\<close>

definition subcall_emit :: "nat \<Rightarrow> reqid \<Rightarrow> bool \<Rightarrow> 'j jval option \<Rightarrow> 'j sub_state \<Rightarrow> 'j sub_state option" where
  "subcall_emit i p iserror obj st =
     do { c \<leftarrow> sb_subcalls st (i, p);
          st1 \<leftarrow> (if ac_refreshing (su_context c) then upd_context (\<lambda>x. x\<lparr>ac_refreshing := True\<rparr>) p st else Some st);
          Some (sb_emit (Sa_callback (su_callback c) iserror obj) st1) }"

definition subcall_fail :: "string \<Rightarrow> string option \<Rightarrow> nat \<Rightarrow> reqid \<Rightarrow> 'j sub_state \<Rightarrow> 'j sub_state option" where
  "subcall_fail status info i p st = do { (j, c) \<leftarrow> afb_msg_json_reply_error status info None None 0 ''''; subcall_emit i p True (Some j) st }"

definition subcall_success :: "'j option \<Rightarrow> string option \<Rightarrow> nat \<Rightarrow> reqid \<Rightarrow> 'j sub_state \<Rightarrow> 'j sub_state option" where
  "subcall_success obj info i p st = do { (j, c) \<leftarrow> afb_msg_json_reply_ok info obj None None 0 ''''; subcall_emit i p False (Some j) st }"

definition subcall_send :: "(string \<Rightarrow> 'j jval option) \<Rightarrow> string \<Rightarrow> nat \<Rightarrow> reqid \<Rightarrow> 'j sub_state \<Rightarrow> 'j sub_state option" where
  "subcall_send parse buffer i p st = subcall_emit i p False (parse buffer) st"

definition subcall_json :: "(nat \<Rightarrow> 'j) \<Rightarrow> afb_subcall \<Rightarrow> 'j" where
  "subcall_json object_at c = object_at (su_args c)"

definition subcall_get :: "(nat \<Rightarrow> 'j) \<Rightarrow> ('j \<Rightarrow> string \<Rightarrow> 'j option) \<Rightarrow> ('j \<Rightarrow> string option) \<Rightarrow> afb_subcall \<Rightarrow> string \<Rightarrow> afb_arg" where
  "subcall_get object_at field to_str c name = afb_msg_json_get_arg field to_str (subcall_json object_at c) name"

definition subcall_raw :: "(nat \<Rightarrow> 'j) \<Rightarrow> ('j \<Rightarrow> string) \<Rightarrow> afb_subcall \<Rightarrow> string \<times> nat" where
  "subcall_raw object_at to_json_string c = (let result = to_json_string (subcall_json object_at c) in (result, length result))"

section \<open>Calls\<close>

definition afb_subcall_internal_error :: "nat \<Rightarrow> 'j sub_state \<Rightarrow> 'j sub_state option" where
  "afb_subcall_internal_error cb st =
     do { (j, c) \<leftarrow> afb_msg_json_reply_error ''failed'' (Some ''internal error'') None None 0 ''''; Some (sb_emit (Sa_callback cb True (Some j)) st) }"

text \<open>A subcall made for the request \<open>p\<close>, with the number \<open>i\<close>. As for the calls of the JSON clients, what the api does is the steps that follow, with the reference
  of the function given back in one of them. The first record is that the arguments are now those of the call.\<close>

definition subcall_make :: "bool \<Rightarrow> 'api apis \<Rightarrow> nat \<Rightarrow> reqid \<Rightarrow> string \<Rightarrow> string \<Rightarrow> nat \<Rightarrow> nat \<Rightarrow> 'j sub_state \<Rightarrow> 'j sub_state option" where
  "subcall_make calloc_ok apis i p api verb args cb st0 =
     (let st = sb_emit (Sa_take args) st0 in
      if \<not> calloc_ok then afb_subcall_internal_error cb st
      else do {
        x \<leftarrow> req_context p st;
        st1 \<leftarrow> req_addref p (st\<lparr>sb_subcalls := (sb_subcalls st)((i, p) \<mapsto> \<lparr>su_context = x, su_refcount = 1, su_args = args, su_callback = cb\<rparr>)\<rparr>);
        case afb_apis_call_full apis api of
          None \<Rightarrow> subcall_fail ''fail'' (Some ''api not found'') i p st1
        | Some (k, a) \<Rightarrow> do { st2 \<leftarrow> upd_context (\<lambda>x. x\<lparr>ac_api_index := int k\<rparr>) (Subcall i p) st1; Some (sb_emit (Sa_call k verb (Subcall i p)) st2) } })"

definition svc_call :: "bool \<Rightarrow> bool \<Rightarrow> 'api apis \<Rightarrow> int \<Rightarrow> nat \<Rightarrow> nat \<Rightarrow> nat \<Rightarrow> string \<Rightarrow> string \<Rightarrow> nat \<Rightarrow> nat \<Rightarrow> 'j sub_state \<Rightarrow> 'j sub_state option" where
  "svc_call malloc_ok calloc_ok apis now v n i api verb args cb st =
     (if \<not> malloc_ok then afb_subcall_internal_error cb st
      else do {
        svc \<leftarrow> sb_svcs st v;
        (s1, x) \<leftarrow> afb_context_init (sb_sessions st) (Some (sv_session svc)) None now;
        subcall_make calloc_ok apis i (Svcreq n) api verb args cb
          (st\<lparr>sb_sessions := s1, sb_svcreqs := (sb_svcreqs st)(n \<mapsto> \<lparr>vq_context = x\<lparr>ac_validated := True\<rparr>, vq_svc = v, vq_refcount = 1\<rparr>)\<rparr>) })"

definition svc_on_event :: "string \<Rightarrow> 'j sub_state \<Rightarrow> 'j sub_state" where
  "svc_on_event event = sb_emit (Sa_on_event event)"

definition svcreq_subscribe :: "'j sub_state \<Rightarrow> svc_req \<Rightarrow> afb_event \<Rightarrow> addr option \<Rightarrow> evt_state \<Rightarrow> (evt_state \<times> int) option" where
  "svcreq_subscribe st q event alloc es =
     do { svc \<leftarrow> sb_svcs st (vq_svc q);
          case sv_listener svc of
            None \<Rightarrow> Some (es, -1)
          | Some l \<Rightarrow> map_option (\<lambda>(es', e). (es', if e = None then 0 else -1)) (afb_evt_add_watch l event alloc es) }"

definition svcreq_unsubscribe :: "'j sub_state \<Rightarrow> svc_req \<Rightarrow> afb_event \<Rightarrow> evt_state \<Rightarrow> (evt_state \<times> int) option" where
  "svcreq_unsubscribe st q event es =
     do { svc \<leftarrow> sb_svcs st (vq_svc q);
          case sv_listener svc of
            None \<Rightarrow> Some (es, -1)
          | Some l \<Rightarrow> map_option (\<lambda>(es', e). (es', if e = None then 0 else -1)) (afb_evt_remove_watch l event es) }"

primrec subcall_subscribe :: "reqid \<Rightarrow> afb_event \<Rightarrow> addr option \<Rightarrow> evt_state \<Rightarrow> 'j sub_state \<Rightarrow> (evt_state \<times> int) option" where
  "subcall_subscribe (Svcreq n) event alloc es st = do { q \<leftarrow> sb_svcreqs st n; svcreq_subscribe st q event alloc es }"
| "subcall_subscribe (Subcall i p) event alloc es st = subcall_subscribe p event alloc es st"

primrec subcall_unsubscribe :: "reqid \<Rightarrow> afb_event \<Rightarrow> evt_state \<Rightarrow> 'j sub_state \<Rightarrow> (evt_state \<times> int) option" where
  "subcall_unsubscribe (Svcreq n) event es st = do { q \<leftarrow> sb_svcreqs st n; svcreq_unsubscribe st q event es }"
| "subcall_unsubscribe (Subcall i p) event es st = subcall_unsubscribe p event es st"

section \<open>Services\<close>

text \<open>\<open>make_listener\<close> is whether \<open>on_event\<close> is given and what the creation of a listener gives for it, \<open>init\<close> the value that the function of the service returns. The
  new service has the number \<open>v\<close>.\<close>

definition svc_session :: "bool \<Rightarrow> int \<Rightarrow> addr option \<Rightarrow> string \<Rightarrow> 'j sub_state \<Rightarrow> ('j sub_state \<times> addr option) option" where
  "svc_session share_session now calloc newuuid st =
     (if share_session then
        do { (st1, common) \<leftarrow>
               (case sb_common st of
                  None \<Rightarrow> do { (s1, r) \<leftarrow> ctxClientCreate (sb_sessions st) None 0 now calloc newuuid;
                               Some (st\<lparr>sb_sessions := s1, sb_common := (case r of Inl e \<Rightarrow> None | Inr a \<Rightarrow> Some a)\<rparr>, (case r of Inl e \<Rightarrow> None | Inr a \<Rightarrow> Some a)) }
                | Some a \<Rightarrow> Some (st, Some a));
             case common of
               None \<Rightarrow> Some (st1, None)
             | Some a \<Rightarrow> do { s2 \<leftarrow> ctxClientAddRef (sb_sessions st1) (Some a); Some (st1\<lparr>sb_sessions := s2\<rparr>, Some a) } }
      else
        do { (s1, r) \<leftarrow> ctxClientCreate (sb_sessions st) None 0 now calloc newuuid;
             Some (st\<lparr>sb_sessions := s1\<rparr>, (case r of Inl e \<Rightarrow> None | Inr a \<Rightarrow> Some a)) })"

definition afb_svc_create ::
  "bool \<Rightarrow> bool \<Rightarrow> addr option option \<Rightarrow> int \<Rightarrow> int \<Rightarrow> addr option \<Rightarrow> string \<Rightarrow> nat \<Rightarrow> 'j sub_state \<Rightarrow> ('j sub_state \<times> nat option) option" where
  "afb_svc_create malloc_ok share_session make_listener init now calloc newuuid v st =
     (if \<not> malloc_ok then Some (st, None)
      else do {
        (st1, session) \<leftarrow> svc_session share_session now calloc newuuid st;
        case session of
          None \<Rightarrow> Some (st1, None)
        | Some a \<Rightarrow>
            if make_listener = Some None then do { s2 \<leftarrow> ctxClientUnref (sb_sessions st1) (Some a); Some (st1\<lparr>sb_sessions := s2\<rparr>, None) }
            else let listener = (case make_listener of None \<Rightarrow> None | Some l \<Rightarrow> l) in
              if init < 0 then
                do { s2 \<leftarrow> ctxClientUnref (sb_sessions st1) (Some a);
                     Some ((if listener \<noteq> None then sb_emit Sa_listener_unref else id) (st1\<lparr>sb_sessions := s2\<rparr>), None) }
              else Some (st1\<lparr>sb_svcs := (sb_svcs st1)(v \<mapsto> \<lparr>sv_session = a, sv_listener = listener\<rparr>)\<rparr>, Some v) })"

section \<open>Steps\<close>

datatype 'j sub_op =
    Sb_svc_call nat nat nat string string nat nat
  | Sb_subcall nat reqid string string nat nat
  | Sb_addref reqid
  | Sb_unref reqid
  | Sb_success nat reqid "'j option" "string option"
  | Sb_fail nat reqid string "string option"
  | Sb_send nat reqid string
  | Sb_close reqid
  | Sb_loa reqid "32 word"
  | Sb_context reqid "afb_context \<Rightarrow> afb_context"
  | Sb_event string

fun sub_exec :: "(string \<Rightarrow> 'j jval option) \<Rightarrow> 'api apis \<Rightarrow> int \<Rightarrow> string \<Rightarrow> 'j sub_op \<Rightarrow> 'j sub_state \<Rightarrow> 'j sub_state option" where
  "sub_exec parse apis now nu (Sb_svc_call v n i api verb args cb) st = svc_call True True apis now v n i api verb args cb st"
| "sub_exec parse apis now nu (Sb_subcall i p api verb args cb) st = subcall_make True apis i p api verb args cb st"
| "sub_exec parse apis now nu (Sb_addref r) st = req_addref r st"
| "sub_exec parse apis now nu (Sb_unref r) st = req_unref now nu r st"
| "sub_exec parse apis now nu (Sb_success i p obj info) st = subcall_success obj info i p st"
| "sub_exec parse apis now nu (Sb_fail i p status info) st = subcall_fail status info i p st"
| "sub_exec parse apis now nu (Sb_send i p buffer) st = subcall_send parse buffer i p st"
| "sub_exec parse apis now nu (Sb_close r) st = subcall_session_close r st"
| "sub_exec parse apis now nu (Sb_loa r loa) st = map_option fst (subcall_session_set_LOA loa r st)"
| "sub_exec parse apis now nu (Sb_context r f) st = upd_context f r st"
| "sub_exec parse apis now nu (Sb_event event) st = Some (svc_on_event event st)"

text \<open>\<open>hold\<close> is the number of references that the running calls and the apis hold of each request. A holder may use a request, a new call has new numbers.\<close>

fun sub_allowed :: "(reqid \<Rightarrow> nat) \<Rightarrow> 'j sub_op \<Rightarrow> 'j sub_state \<Rightarrow> bool" where
  "sub_allowed hold (Sb_svc_call v n i api verb args cb) st \<longleftrightarrow> sb_svcs st v \<noteq> None \<and> sb_svcreqs st n = None"
| "sub_allowed hold (Sb_subcall i p api verb args cb) st \<longleftrightarrow> 0 < hold p \<and> sb_subcalls st (i, p) = None"
| "sub_allowed hold (Sb_addref r) st \<longleftrightarrow> 0 < hold r"
| "sub_allowed hold (Sb_unref r) st \<longleftrightarrow> 0 < hold r"
| "sub_allowed hold (Sb_success i p obj info) st \<longleftrightarrow> 0 < hold (Subcall i p)"
| "sub_allowed hold (Sb_fail i p status info) st \<longleftrightarrow> 0 < hold (Subcall i p)"
| "sub_allowed hold (Sb_send i p buffer) st \<longleftrightarrow> 0 < hold (Subcall i p)"
| "sub_allowed hold (Sb_close r) st \<longleftrightarrow> 0 < hold r"
| "sub_allowed hold (Sb_loa r loa) st \<longleftrightarrow> 0 < hold r"
| "sub_allowed hold (Sb_context r f) st \<longleftrightarrow> 0 < hold r \<and> (\<forall>x. ac_session (f x) = ac_session x)"
| "sub_allowed hold (Sb_event event) st \<longleftrightarrow> True"

fun sub_hold :: "'j sub_op \<Rightarrow> (reqid \<Rightarrow> nat) \<Rightarrow> reqid \<Rightarrow> nat" where
  "sub_hold (Sb_svc_call v n i api verb args cb) hold = hold(Svcreq n := 1, Subcall i (Svcreq n) := 1)"
| "sub_hold (Sb_subcall i p api verb args cb) hold = hold(Subcall i p := 1)"
| "sub_hold (Sb_addref r) hold = hold(r := hold r + 1)"
| "sub_hold (Sb_unref r) hold = hold(r := hold r - 1)"
| "sub_hold _ hold = hold"

text \<open>From a state with services and no request yet.\<close>

inductive sub_reach :: "(string \<Rightarrow> 'j jval option) \<Rightarrow> 'api apis \<Rightarrow> sessions \<Rightarrow> (reqid \<Rightarrow> nat) \<Rightarrow> 'j sub_state \<Rightarrow> bool" for parse apis s0 where
  start: "session_inv s0 \<Longrightarrow> sb_sessions st = s0 \<Longrightarrow> sb_svcreqs st = Map.empty \<Longrightarrow> sb_subcalls st = Map.empty \<Longrightarrow> sb_log st = [] \<Longrightarrow>
    (\<forall>v svc. sb_svcs st v = Some svc \<longrightarrow> 0 < session_refs s0 (sv_session svc)) \<Longrightarrow> sub_reach parse apis s0 (\<lambda>_. 0) st"
| step: "sub_reach parse apis s0 hold st \<Longrightarrow> sub_allowed hold op st \<Longrightarrow> length nu = 36 \<Longrightarrow> sub_exec parse apis now nu op st = Some st' \<Longrightarrow>
    sub_reach parse apis s0 (sub_hold op hold) st'"

section \<open>References of requests\<close>

fun rq_refs :: "'j sub_state \<Rightarrow> reqid \<Rightarrow> int" where
  "rq_refs st (Svcreq n) = (case sb_svcreqs st n of None \<Rightarrow> 0 | Some q \<Rightarrow> vq_refcount q)"
| "rq_refs st (Subcall i p) = (case sb_subcalls st (i, p) of None \<Rightarrow> 0 | Some c \<Rightarrow> su_refcount c)"

definition kids :: "'j sub_state \<Rightarrow> reqid \<Rightarrow> nat set" where
  "kids st r = {i. sb_subcalls st (i, r) \<noteq> None}"

definition on_session :: "'j sub_state \<Rightarrow> addr \<Rightarrow> nat set" where
  "on_session st a = {n. \<exists>q. sb_svcreqs st n = Some q \<and> ac_session (vq_context q) = Some a}"

definition with_args :: "'j sub_state \<Rightarrow> nat \<Rightarrow> (nat \<times> reqid) set" where
  "with_args st a = {k. \<exists>c. sb_subcalls st k = Some c \<and> su_args c = a}"

definition refs_inv :: "(reqid \<Rightarrow> nat) \<Rightarrow> 'j sub_state \<Rightarrow> bool" where
  "refs_inv hold st \<longleftrightarrow> finite (dom (sb_svcreqs st)) \<and> finite (dom (sb_subcalls st))
     \<and> (\<forall>n q. sb_svcreqs st n = Some q \<longrightarrow> 0 < vq_refcount q) \<and> (\<forall>k c. sb_subcalls st k = Some c \<longrightarrow> 0 < su_refcount c)
     \<and> (\<forall>r. rq_refs st r = int (hold r) + int (card (kids st r)))"

definition sess_inv :: "sessions \<Rightarrow> 'j sub_state \<Rightarrow> bool" where
  "sess_inv s0 st \<longleftrightarrow> session_inv (sb_sessions st)
     \<and> (\<forall>v svc. sb_svcs st v = Some svc \<longrightarrow> 0 < session_refs s0 (sv_session svc))
     \<and> (\<forall>n q. sb_svcreqs st n = Some q \<longrightarrow> (\<exists>a. ac_session (vq_context q) = Some a))
     \<and> (\<forall>i p c. sb_subcalls st (i, p) = Some c \<longrightarrow> map_option ac_session (req_context p st) = Some (ac_session (su_context c)))
     \<and> session_refs (sb_sessions st) = (\<lambda>a. session_refs s0 a + card (on_session st a))"

definition args_inv :: "'j sub_state \<Rightarrow> bool" where
  "args_inv st \<longleftrightarrow> (\<forall>a. count_list (sb_log st) (Sa_take a) = count_list (sb_log st) (Sa_put a) + card (with_args st a))"

definition sub_inv :: "sessions \<Rightarrow> (reqid \<Rightarrow> nat) \<Rightarrow> 'j sub_state \<Rightarrow> bool" where
  "sub_inv s0 hold st \<longleftrightarrow> refs_inv hold st \<and> sess_inv s0 st \<and> args_inv st"

lemma subcall_neq: "p \<noteq> Subcall i p"
  by (metis add_Suc_right lessI less_irrefl reqid.size(4) add.right_neutral)

lemma kids_upd [simp]:
  "kids (st\<lparr>sb_subcalls := (sb_subcalls st)((i, p) := v)\<rparr>) r = (if r = p then if v = None then kids st r - {i} else insert i (kids st r) else kids st r)"
  by (auto simp: kids_def)

lemma kids_frame [simp]:
  "kids (st\<lparr>sb_sessions := s\<rparr>) = kids st" "kids (st\<lparr>sb_svcreqs := t\<rparr>) = kids st" "kids (sb_emit a st) = kids st"
  by (simp_all add: kids_def fun_eq_iff sb_emit_def)

lemma finite_kids: "refs_inv hold st \<Longrightarrow> finite (kids st r)"
  using finite_vimageI [of "dom (sb_subcalls st)" "\<lambda>i. (i, r)"] by (simp add: refs_inv_def kids_def vimage_def domIff inj_on_def)

lemma refs_live: "refs_inv hold st \<Longrightarrow> 0 < hold r \<or> kids st r \<noteq> {} \<Longrightarrow> 0 < rq_refs st r"
  using finite_kids [of hold st r] card_gt_0_iff [of "kids st r"] by (auto simp: refs_inv_def)

lemma live_svcreq: "0 < rq_refs st (Svcreq n) \<Longrightarrow> \<exists>q. sb_svcreqs st n = Some q \<and> rq_refs st (Svcreq n) = vq_refcount q"
  by (auto split: option.splits)

lemma live_subcall: "0 < rq_refs st (Subcall i p) \<Longrightarrow> \<exists>c. sb_subcalls st (i, p) = Some c \<and> rq_refs st (Subcall i p) = su_refcount c"
  by (auto split: option.splits)

lemma live_context: "0 < rq_refs st r \<Longrightarrow> \<exists>x. req_context r st = Some x"
  using live_svcreq live_subcall by (cases r) fastforce+

lemma subcall_parent_live: "refs_inv hold st \<Longrightarrow> sb_subcalls st (i, p) = Some c \<Longrightarrow> 0 < rq_refs st p"
  by (rule refs_live) (auto simp: kids_def)

subsection \<open>Steps on one live request\<close>

lemma sub_inv_emit:
  assumes "sub_inv s0 hold st" "\<And>n. a \<noteq> Sa_take n" "\<And>n. a \<noteq> Sa_put n"
  shows "sub_inv s0 hold (sb_emit a st)"
proof -
  have "rq_refs (sb_emit a st) r = rq_refs st r" "req_context r (sb_emit a st) = req_context r st" for r by (cases r; simp add: sb_emit_def)+
  moreover have "count_list (sb_log (sb_emit a st)) (Sa_take n) = count_list (sb_log st) (Sa_take n)"
    "count_list (sb_log (sb_emit a st)) (Sa_put n) = count_list (sb_log st) (Sa_put n)" for n
    using assms(2,3) [of n] by (simp_all add: sb_emit_def)
  ultimately show ?thesis using assms(1)
    by (simp add: sub_inv_def refs_inv_def sess_inv_def args_inv_def) (simp add: sb_emit_def on_session_def with_args_def)
qed

lemma upd_context_inv:
  assumes "sub_inv s0 hold st" "0 < rq_refs st r" "\<forall>x. ac_session (f x) = ac_session x"
  shows "\<exists>st'. upd_context f r st = Some st' \<and> sub_inv s0 hold st'"
proof (cases r)
  case (Svcreq n)
  with live_svcreq assms(2) obtain q where q: "sb_svcreqs st n = Some q" by blast
  let ?st = "st\<lparr>sb_svcreqs := (sb_svcreqs st)(n \<mapsto> q\<lparr>vq_context := f (vq_context q)\<rparr>)\<rparr>"
  have "rq_refs ?st r = rq_refs st r" "map_option ac_session (req_context r ?st) = map_option ac_session (req_context r st)" for r
    using q assms(3) by (cases r; simp)+
  moreover have "on_session ?st = on_session st" "with_args ?st = with_args st" using q assms(3) by (auto simp: on_session_def with_args_def fun_eq_iff)
  moreover have "insert n (dom (sb_svcreqs st)) = dom (sb_svcreqs st)" using q by auto
  ultimately have "sub_inv s0 hold ?st" using assms(1,3) q
    by (simp add: sub_inv_def refs_inv_def sess_inv_def args_inv_def)
  then show ?thesis using Svcreq q by simp
next
  case (Subcall i p)
  with live_subcall assms(2) obtain c where c: "sb_subcalls st (i, p) = Some c" by blast
  let ?st = "st\<lparr>sb_subcalls := (sb_subcalls st)((i, p) \<mapsto> c\<lparr>su_context := f (su_context c)\<rparr>)\<rparr>"
  have *: "rq_refs ?st r = rq_refs st r" "map_option ac_session (req_context r ?st) = map_option ac_session (req_context r st)" for r
    using c assms(3) by (cases r; simp)+
  have "on_session ?st = on_session st" "with_args ?st = with_args st" "kids ?st = kids st"
    using c by (auto simp: on_session_def with_args_def kids_def fun_eq_iff)
  moreover have "insert (i, p) (dom (sb_subcalls st)) = dom (sb_subcalls st)" using c by auto
  ultimately have "sub_inv s0 hold ?st" using assms(1,3) c *
    by (simp add: sub_inv_def refs_inv_def sess_inv_def args_inv_def)
  then show ?thesis using Subcall c by simp
qed

lemma set_refs_inv:
  assumes "sub_inv s0 hold st" "0 < rq_refs st r" "0 < int h + int (card (kids st r))" "k = int h + int (card (kids st r))"
  shows "(\<exists>n q. r = Svcreq n \<and> sb_svcreqs st n = Some q \<and> sub_inv s0 (hold(r := h)) (st\<lparr>sb_svcreqs := (sb_svcreqs st)(n \<mapsto> q\<lparr>vq_refcount := k\<rparr>)\<rparr>))
    \<or> (\<exists>i p c. r = Subcall i p \<and> sb_subcalls st (i, p) = Some c \<and> sub_inv s0 (hold(r := h)) (st\<lparr>sb_subcalls := (sb_subcalls st)((i, p) \<mapsto> c\<lparr>su_refcount := k\<rparr>)\<rparr>))"
proof (cases r)
  case (Svcreq n)
  with live_svcreq assms(2) obtain q where q: "sb_svcreqs st n = Some q" by blast
  let ?st = "st\<lparr>sb_svcreqs := (sb_svcreqs st)(n \<mapsto> q\<lparr>vq_refcount := k\<rparr>)\<rparr>"
  have "rq_refs ?st x = ((rq_refs st)(r := k)) x" for x using q Svcreq by (cases x) auto
  moreover have "req_context r ?st = req_context r st" for r using q by (cases r; simp)
  moreover have "on_session ?st = on_session st" "with_args ?st = with_args st" using q by (auto simp: on_session_def with_args_def fun_eq_iff)
  moreover have "insert n (dom (sb_svcreqs st)) = dom (sb_svcreqs st)" using q by auto
  ultimately have "sub_inv s0 (hold(r := h)) ?st" using assms q by (simp add: sub_inv_def refs_inv_def sess_inv_def args_inv_def)
  then show ?thesis using Svcreq q by blast
next
  case (Subcall i p)
  with live_subcall assms(2) obtain c where c: "sb_subcalls st (i, p) = Some c" by blast
  let ?st = "st\<lparr>sb_subcalls := (sb_subcalls st)((i, p) \<mapsto> c\<lparr>su_refcount := k\<rparr>)\<rparr>"
  have *: "rq_refs ?st x = ((rq_refs st)(r := k)) x" for x using c Subcall by (cases x) auto
  have "req_context r ?st = req_context r st" for r using c by (cases r; simp)
  moreover have "on_session ?st = on_session st" "with_args ?st = with_args st" "kids ?st = kids st"
    using c by (auto simp: on_session_def with_args_def kids_def fun_eq_iff)
  moreover have "insert (i, p) (dom (sb_subcalls st)) = dom (sb_subcalls st)" using c by auto
  ultimately have "sub_inv s0 (hold(r := h)) ?st" using assms c *
    by (simp add: sub_inv_def refs_inv_def sess_inv_def args_inv_def)
  then show ?thesis using Subcall c by blast
qed

subsection \<open>Taking and giving back references\<close>

lemma hold_refs: "sub_inv s0 hold st \<Longrightarrow> rq_refs st r = int (hold r) + int (card (kids st r))"
  by (simp add: sub_inv_def refs_inv_def)

lemma hold_live: "sub_inv s0 hold st \<Longrightarrow> 0 < hold r \<Longrightarrow> 0 < rq_refs st r"
  by (simp add: hold_refs)

lemma req_addref_inv:
  assumes "sub_inv s0 hold st" "0 < rq_refs st r"
  shows "\<exists>st'. req_addref r st = Some st' \<and> sub_inv s0 (hold(r := hold r + 1)) st'"
proof -
  note refs = hold_refs [OF assms(1), of r]
  from set_refs_inv [OF assms, of "hold r + 1" "rq_refs st r + 1"] assms(2) refs show ?thesis
    by (auto simp: svcreq_addref_def subcall_addref_def)
qed

lemma session_of_svcreq:
  assumes "sess_inv s0 st" "finite (dom (sb_svcreqs st))" "sb_svcreqs st n = Some q"
  obtains a where "ac_session (vq_context q) = Some a" "0 < session_refs (sb_sessions st) a" "finite (on_session st a)" "n \<in> on_session st a"
proof -
  obtain a where a: "ac_session (vq_context q) = Some a" using assms(1,3) unfolding sess_inv_def by blast
  have fin: "finite (on_session st a)" by (rule finite_subset [OF _ assms(2)]) (auto simp: on_session_def)
  have mem: "n \<in> on_session st a" using a assms(3) by (simp add: on_session_def)
  with fin have "0 < card (on_session st a)" by (auto simp: card_gt_0_iff)
  then have "0 < session_refs (sb_sessions st) a" using assms(1) by (simp add: sess_inv_def)
  with a fin mem that show thesis by blast
qed

lemma last_svcreq_inv:
  assumes "sub_inv s0 hold st" "sb_svcreqs st n = Some q" "hold (Svcreq n) = 1" "kids st (Svcreq n) = {}" "length nu = 36"
  shows "\<exists>s x. afb_context_disconnect (sb_sessions st) (vq_context q) now nu = Some (s, x)
    \<and> sub_inv s0 (hold(Svcreq n := 0)) (st\<lparr>sb_sessions := s, sb_svcreqs := (sb_svcreqs st)(n := None)\<rparr>)"
proof -
  have parts: "refs_inv hold st" "sess_inv s0 st" "args_inv st" using assms(1) by (simp_all add: sub_inv_def)
  obtain a where a: "ac_session (vq_context q) = Some a" "0 < session_refs (sb_sessions st) a" "finite (on_session st a)" "n \<in> on_session st a"
    using session_of_svcreq [OF parts(2) _ assms(2)] parts(1) by (auto simp: refs_inv_def)
  from disconnect_safe [OF _ a(1,2) assms(5), of now] parts(2) obtain s x where
    d: "afb_context_disconnect (sb_sessions st) (vq_context q) now nu = Some (s, x)" "session_inv s"
      "session_refs s = (session_refs (sb_sessions st))(a := session_refs (sb_sessions st) a - 1)" by (auto simp: sess_inv_def)
  let ?st = "st\<lparr>sb_sessions := s, sb_svcreqs := (sb_svcreqs st)(n := None)\<rparr>"
  have "on_session ?st = (on_session st)(a := on_session st a - {n})" using a(1) assms(2) by (auto simp: on_session_def fun_eq_iff)
  then have "session_refs s = (\<lambda>b. session_refs s0 b + card (on_session ?st b))"
    using a parts(2) card_Suc_Diff1 [OF a(3,4)] by (auto simp: d(3) sess_inv_def fun_eq_iff)
  moreover have "req_context p ?st = req_context p st" if "sb_subcalls st (i, p) = Some c" for i p c
    using assms(4) that by (cases p) (auto simp: kids_def)
  ultimately have "sess_inv s0 ?st" using parts(2) d(2) by (auto simp: sess_inv_def)
  moreover have "rq_refs ?st r = ((rq_refs st)(Svcreq n := 0)) r" for r by (cases r) auto
  then have "refs_inv (hold(Svcreq n := 0)) ?st" using parts(1) assms(4) by (simp add: refs_inv_def)
  moreover have "args_inv ?st" using parts(3) by (simp add: args_inv_def with_args_def)
  ultimately show ?thesis using d(1) by (auto simp: sub_inv_def)
qed

lemma last_subcall_inv:
  assumes "sub_inv s0 hold st" "sb_subcalls st (i, p) = Some c" "hold (Subcall i p) = 1" "kids st (Subcall i p) = {}"
  shows "sub_inv s0 (hold(Subcall i p := 0, p := hold p + 1)) (sb_emit (Sa_put (su_args c)) (st\<lparr>sb_subcalls := (sb_subcalls st)((i, p) := None)\<rparr>))"
proof -
  have parts: "refs_inv hold st" "sess_inv s0 st" "args_inv st" using assms(1) by (simp_all add: sub_inv_def)
  let ?t = "st\<lparr>sb_subcalls := (sb_subcalls st)((i, p) := None)\<rparr>" and ?st = "sb_emit (Sa_put (su_args c)) (st\<lparr>sb_subcalls := (sb_subcalls st)((i, p) := None)\<rparr>)"
  have np: "p \<noteq> Subcall i p" by (rule subcall_neq)
  have refs: "rq_refs ?st r = ((rq_refs st)(Subcall i p := 0)) r" for r by (cases r) (auto simp: sb_emit_def)
  have "card (kids st p) = card (kids st p - {i}) + 1" using finite_kids [OF parts(1), of p] card_Suc_Diff1 [of "kids st p" i] assms(2) by (simp add: kids_def)
  then have "refs_inv (hold(Subcall i p := 0, p := hold p + 1)) ?st"
    using parts(1) assms(4) np refs by (simp add: refs_inv_def) (simp add: sb_emit_def)
  moreover have "req_context r ?st = req_context r st" if "r \<noteq> Subcall i p" for r using that by (cases r) (auto simp: sb_emit_def)
  then have "req_context r ?st = req_context r st" if "sb_subcalls st (j, r) = Some d" for r j d using that assms(4) by (cases "r = Subcall i p") (auto simp: kids_def)
  then have "sess_inv s0 ?st" using parts(2) by (simp add: sess_inv_def) (simp add: sb_emit_def on_session_def)
  moreover have "with_args ?st = (with_args st)(su_args c := with_args st (su_args c) - {(i, p)})" using assms(2) by (auto simp: with_args_def sb_emit_def fun_eq_iff)
  moreover have "finite (with_args st (su_args c))" "(i, p) \<in> with_args st (su_args c)"
    using parts(1) assms(2) by (auto simp: refs_inv_def with_args_def intro: finite_subset [of _ "dom (sb_subcalls st)"])
  then have "card (with_args st (su_args c)) = card (with_args st (su_args c) - {(i, p)}) + 1" by (metis Suc_eq_plus1 card_Suc_Diff1)
  ultimately show ?thesis using parts(3) by (auto simp: sub_inv_def args_inv_def sb_emit_def)
qed

lemma req_unref_inv:
  "sub_inv s0 hold st \<Longrightarrow> 0 < hold r \<Longrightarrow> length nu = 36 \<Longrightarrow> \<exists>st'. req_unref now nu r st = Some st' \<and> sub_inv s0 (hold(r := hold r - 1)) st'"
proof (induction r arbitrary: hold st)
  case (Svcreq n)
  note refs = hold_refs [OF Svcreq(1), of "Svcreq n"] and live = hold_live [OF Svcreq(1,2)]
  from live_svcreq [OF live] obtain q where q: "sb_svcreqs st n = Some q" "rq_refs st (Svcreq n) = vq_refcount q" by blast
  have fin: "finite (kids st (Svcreq n))" using finite_kids Svcreq(1) by (auto simp: sub_inv_def)
  show ?case
  proof (cases "vq_refcount q = 1")
    case True
    then have "hold (Svcreq n) = 1" "kids st (Svcreq n) = {}" using refs q Svcreq(2) fin card_0_eq [OF fin] by linarith+
    from last_svcreq_inv [OF Svcreq(1) q(1) this Svcreq(3), of now] True q(1) this show ?thesis by (auto simp: svcreq_unref_def Let_def fun_upd_def)
  next
    case False
    have k: "vq_refcount q - 1 = int (hold (Svcreq n) - 1) + int (card (kids st (Svcreq n)))" using refs q Svcreq(2) by (simp add: of_nat_diff)
    from set_refs_inv [OF Svcreq(1) live _ k] k False q live
    have "sub_inv s0 (hold(Svcreq n := hold (Svcreq n) - 1)) (st\<lparr>sb_svcreqs := (sb_svcreqs st)(n \<mapsto> q\<lparr>vq_refcount := vq_refcount q - 1\<rparr>)\<rparr>)" by auto
    then show ?thesis using False q(1) by (simp add: svcreq_unref_def Let_def fun_upd_def)
  qed
next
  case (Subcall i p)
  note refs = hold_refs [OF Subcall(2), of "Subcall i p"] and live = hold_live [OF Subcall(2,3)]
  from live_subcall [OF live] obtain c where c: "sb_subcalls st (i, p) = Some c" "rq_refs st (Subcall i p) = su_refcount c" by blast
  have fin: "finite (kids st (Subcall i p))" using finite_kids Subcall(2) by (auto simp: sub_inv_def)
  show ?case
  proof (cases "su_refcount c = 1")
    case True
    then have *: "hold (Subcall i p) = 1" "kids st (Subcall i p) = {}" using refs c Subcall(3) fin card_0_eq [OF fin] by linarith+
    have np: "p \<noteq> Subcall i p" by (rule subcall_neq)
    let ?h = "hold(Subcall i p := 0, p := hold p + 1)"
    have eq: "?h(p := ?h p - 1) = hold(Subcall i p := hold (Subcall i p) - 1)" using np * by (auto simp: fun_eq_iff)
    from Subcall(1) [OF last_subcall_inv [OF Subcall(2) c(1) *] _ Subcall(4)] obtain st' where
      "req_unref now nu p (sb_emit (Sa_put (su_args c)) (st\<lparr>sb_subcalls := (sb_subcalls st)((i, p) := None)\<rparr>)) = Some st'" "sub_inv s0 (?h(p := ?h p - 1)) st'" by (auto simp: fun_upd_def cong: if_cong)
    then show ?thesis unfolding eq using True c(1) by (simp add: subcall_unref_def Let_def fun_upd_def)
  next
    case False
    have k: "su_refcount c - 1 = int (hold (Subcall i p) - 1) + int (card (kids st (Subcall i p)))" using refs c Subcall(3) by (simp add: of_nat_diff)
    from set_refs_inv [OF Subcall(2) live _ k] k False c live
    have "sub_inv s0 (hold(Subcall i p := hold (Subcall i p) - 1)) (st\<lparr>sb_subcalls := (sb_subcalls st)((i, p) \<mapsto> c\<lparr>su_refcount := su_refcount c - 1\<rparr>)\<rparr>)" by auto
    then show ?thesis using False c(1) by (simp add: subcall_unref_def Let_def fun_upd_def)
  qed
qed

subsection \<open>New calls\<close>

lemma fresh_request:
  assumes "sub_inv s0 hold st" "rq_refs st r = 0"
  shows "hold r = 0" "kids st r = {}"
proof -
  have "finite (kids st r)" using finite_kids assms(1) by (auto simp: sub_inv_def)
  moreover have "int (hold r) + int (card (kids st r)) = 0" using hold_refs [OF assms(1), of r] assms(2) by simp
  ultimately show "hold r = 0" "kids st r = {}" using card_0_eq [of "kids st r"] by linarith+
qed

definition add_subcall :: "nat \<Rightarrow> reqid \<Rightarrow> afb_subcall \<Rightarrow> 'j sub_state \<Rightarrow> 'j sub_state" where
  "add_subcall i p c st = sb_emit (Sa_take (su_args c)) (st\<lparr>sb_subcalls := (sb_subcalls st)((i, p) \<mapsto> c)\<rparr>)"

lemma addref_add_subcall: "req_addref p (add_subcall i p c st) = map_option (add_subcall i p c) (req_addref p st)"
proof (cases p)
  case (Subcall j r)
  with subcall_neq [of p i] have "(j, r) \<noteq> (i, p)" by auto
  then show ?thesis unfolding Subcall by (cases "sb_subcalls st (j, r)") (simp_all add: add_subcall_def sb_emit_def subcall_addref_def fun_upd_twist)
qed (auto simp: add_subcall_def sb_emit_def svcreq_addref_def map_option_bind option.map_comp split: Option.bind_split)

lemma add_subcall_inv:
  assumes "sub_inv s0 hold st" "0 < hold p" "sb_subcalls st (i, p) = None" "su_refcount c = 1"
    and "map_option ac_session (req_context p st) = Some (ac_session (su_context c))"
  shows "sub_inv s0 (hold(Subcall i p := 1, p := hold p - 1)) (add_subcall i p c st)"
proof -
  have parts: "refs_inv hold st" "sess_inv s0 st" "args_inv st" using assms(1) by (simp_all add: sub_inv_def)
  let ?st = "add_subcall i p c st"
  have np: "p \<noteq> Subcall i p" by (rule subcall_neq)
  have fresh: "hold (Subcall i p) = 0" "kids st (Subcall i p) = {}" using fresh_request [OF assms(1), of "Subcall i p"] assms(3) by auto
  have refs: "rq_refs ?st r = ((rq_refs st)(Subcall i p := 1)) r" for r using assms(4) by (cases r) (auto simp: add_subcall_def sb_emit_def)
  have kids: "kids ?st r = (if r = p then insert i (kids st r) else kids st r)" for r by (auto simp: add_subcall_def sb_emit_def kids_def)
  have "card (insert i (kids st p)) = card (kids st p) + 1" using finite_kids [OF parts(1), of p] assms(3) by (simp add: kids_def)
  then have refs_ok: "refs_inv (hold(Subcall i p := 1, p := hold p - 1)) ?st"
    using parts(1) assms(2,4) np refs kids fresh by (simp add: refs_inv_def of_nat_diff) (simp add: add_subcall_def sb_emit_def)
  have "req_context r ?st = req_context r st" if "r \<noteq> Subcall i p" for r using that by (cases r) (auto simp: add_subcall_def sb_emit_def)
  then have ctx: "req_context r ?st = req_context r st" if "r = p \<or> sb_subcalls st (j, r) = Some d" for r j d
    using that np fresh(2) by (cases "r = Subcall i p") (auto simp: kids_def)
  have "map_option ac_session (req_context r ?st) = Some (ac_session (su_context d))" if "sb_subcalls ?st (j, r) = Some d" for j r d
  proof (cases "(j, r) = (i, p)")
    case True
    then show ?thesis using that assms(5) ctx [of p] by (simp add: add_subcall_def sb_emit_def)
  next
    case False
    with that have "sb_subcalls st (j, r) = Some d" by (auto simp: add_subcall_def sb_emit_def split: if_splits)
    then show ?thesis using ctx [of r j d] parts(2) by (simp add: sess_inv_def)
  qed
  then have "sess_inv s0 ?st" using parts(2) unfolding sess_inv_def by (simp add: add_subcall_def sb_emit_def on_session_def)
  moreover have "with_args ?st = (with_args st)(su_args c := insert (i, p) (with_args st (su_args c)))"
    using assms(3) by (auto simp: with_args_def add_subcall_def sb_emit_def fun_eq_iff)
  moreover have "finite (with_args st (su_args c))" "(i, p) \<notin> with_args st (su_args c)"
    using parts(1) assms(3) by (auto simp: refs_inv_def with_args_def intro: finite_subset [of _ "dom (sb_subcalls st)"])
  then have "card (insert (i, p) (with_args st (su_args c))) = card (with_args st (su_args c)) + 1" by simp
  ultimately show ?thesis using parts(3) refs_ok by (auto simp: sub_inv_def args_inv_def) (simp_all add: add_subcall_def sb_emit_def)
qed

lemma subcall_emit_inv:
  assumes "sub_inv s0 hold st" "0 < rq_refs st (Subcall i p)"
  shows "\<exists>st'. subcall_emit i p iserror obj st = Some st' \<and> sub_inv s0 hold st'"
proof -
  from live_subcall assms(2) obtain c where c: "sb_subcalls st (i, p) = Some c" by blast
  have "0 < rq_refs st p" using subcall_parent_live [OF _ c] assms(1) by (auto simp: sub_inv_def)
  from upd_context_inv [OF assms(1) this, of "\<lambda>x. x\<lparr>ac_refreshing := True\<rparr>"] obtain st1 where
    "upd_context (\<lambda>x. x\<lparr>ac_refreshing := True\<rparr>) p st = Some st1" "sub_inv s0 hold st1" by auto
  then show ?thesis using sub_inv_emit assms(1) c by (auto simp: subcall_emit_def)
qed

lemma subcall_make_inv:
  assumes "sub_inv s0 hold st" "0 < rq_refs st p" "sb_subcalls st (i, p) = None"
  shows "\<exists>st'. subcall_make True apis i p api verb args cb st = Some st' \<and> sub_inv s0 (hold(Subcall i p := 1)) st'"
proof -
  obtain x where x: "req_context p st = Some x" using live_context [OF assms(2)] by blast
  have x': "req_context p (sb_emit (Sa_take args) st) = Some x" using x by (cases p) (simp_all add: sb_emit_def)
  let ?c = "\<lparr>su_context = x, su_refcount = 1, su_args = args, su_callback = cb\<rparr>"
  have add: "(sb_emit (Sa_take args) st)\<lparr>sb_subcalls := (sb_subcalls (sb_emit (Sa_take args) st))((i, p) \<mapsto> ?c)\<rparr> = add_subcall i p ?c st"
    by (simp add: add_subcall_def sb_emit_def)
  from req_addref_inv [OF assms(1,2)] obtain st1 where 1: "req_addref p st = Some st1" "sub_inv s0 (hold(p := hold p + 1)) st1" by blast
  have keep: "sb_subcalls st1 (i, p) = None" "map_option ac_session (req_context p st1) = Some (ac_session x)"
    using 1(1) assms(3) x subcall_neq [of p i] by (cases p; auto simp: svcreq_addref_def subcall_addref_def bind_eq_Some_conv)+
  have "hold(p := hold p + 1, Subcall i p := 1, p := (hold(p := hold p + 1)) p - 1) = hold(Subcall i p := 1)" using subcall_neq [of p i] by (auto simp: fun_eq_iff)
  with add_subcall_inv [OF 1(2) _ keep(1), of ?c] keep(2) have inv: "sub_inv s0 (hold(Subcall i p := 1)) (add_subcall i p ?c st1)" by simp
  have ref: "req_addref p (add_subcall i p ?c st) = Some (add_subcall i p ?c st1)" using addref_add_subcall [of p i ?c st] 1(1) by simp
  have live: "0 < rq_refs (add_subcall i p ?c st1) (Subcall i p)" by (simp add: add_subcall_def sb_emit_def)
  from subcall_emit_inv [OF inv live] have
    fail: "\<exists>st'. subcall_fail ''fail'' (Some ''api not found'') i p (add_subcall i p ?c st1) = Some st' \<and> sub_inv s0 (hold(Subcall i p := 1)) st'"
    by (simp add: subcall_fail_def afb_msg_json_reply_error_def afb_msg_json_reply_def)
  have ok: "\<exists>st'. upd_context (\<lambda>x. x\<lparr>ac_api_index := int k\<rparr>) (Subcall i p) (add_subcall i p ?c st1) = Some st'
      \<and> sub_inv s0 (hold(Subcall i p := 1)) (sb_emit (Sa_call k verb (Subcall i p)) st')" for k
    using upd_context_inv [OF inv live, of "\<lambda>x. x\<lparr>ac_api_index := int k\<rparr>"] sub_inv_emit by fastforce
  show ?thesis
  proof (cases "afb_apis_call_full apis api")
    case None
    then show ?thesis unfolding subcall_make_def Let_def using x' fail by (simp add: add ref)
  next
    case (Some ka)
    then show ?thesis unfolding subcall_make_def Let_def using x' ok [of "fst ka"] by (auto simp: add ref case_prod_unfold simp del: upd_context.simps)
  qed
qed

lemma svc_call_inv:
  assumes "sub_inv s0 hold st" "sb_svcs st v = Some svc" "sb_svcreqs st n = None"
  shows "\<exists>st'. svc_call True True apis now v n i api verb args cb st = Some st' \<and> sub_inv s0 (hold(Svcreq n := 1, Subcall i (Svcreq n) := 1)) st'"
proof -
  have parts: "refs_inv hold st" "sess_inv s0 st" "args_inv st" using assms(1) by (simp_all add: sub_inv_def)
  let ?a = "sv_session svc"
  have "0 < session_refs (sb_sessions st) ?a" using parts(2) assms(2) by (auto simp: sess_inv_def)
  from init_safe [OF _ this, of None now] parts(2) obtain s x where
    1: "afb_context_init (sb_sessions st) (Some ?a) None now = Some (s, x)" "session_inv s" "ac_session x = Some ?a"
      "session_refs s = (session_refs (sb_sessions st))(?a := session_refs (sb_sessions st) ?a + 1)" by (auto simp: sess_inv_def)
  let ?q = "\<lparr>vq_context = x\<lparr>ac_validated := True\<rparr>, vq_svc = v, vq_refcount = 1\<rparr>"
  let ?st = "st\<lparr>sb_sessions := s, sb_svcreqs := (sb_svcreqs st)(n \<mapsto> ?q)\<rparr>"
  have fresh: "hold (Svcreq n) = 0" "kids st (Svcreq n) = {}" using fresh_request [OF assms(1), of "Svcreq n"] assms(3) by auto
  have "on_session ?st = (on_session st)(?a := insert n (on_session st ?a))" using 1(3) assms(3) by (auto simp: on_session_def fun_eq_iff)
  moreover have "finite (on_session st ?a)" "n \<notin> on_session st ?a"
    using parts(1) assms(3) by (auto simp: refs_inv_def on_session_def intro: finite_subset [of _ "dom (sb_svcreqs st)"])
  ultimately have "session_refs s = (\<lambda>b. session_refs s0 b + card (on_session ?st b))" using parts(2) by (auto simp: 1(4) sess_inv_def fun_eq_iff)
  moreover have "req_context p ?st = req_context p st" if "sb_subcalls st (j, p) = Some c" for j p c using fresh(2) that by (cases p) (auto simp: kids_def)
  ultimately have "sess_inv s0 ?st" using parts(2) 1(2,3) by (simp add: sess_inv_def)
  moreover have "rq_refs ?st r = ((rq_refs st)(Svcreq n := 1)) r" for r by (cases r) auto
  then have "refs_inv (hold(Svcreq n := 1)) ?st" using parts(1) fresh(2) by (simp add: refs_inv_def)
  moreover have "args_inv ?st" using parts(3) by (simp add: args_inv_def with_args_def)
  ultimately have "sub_inv s0 (hold(Svcreq n := 1)) ?st" by (simp add: sub_inv_def)
  moreover have "sb_subcalls ?st (i, Svcreq n) = None" using fresh(2) by (auto simp: kids_def)
  ultimately have "\<exists>st'. subcall_make True apis i (Svcreq n) api verb args cb ?st = Some st' \<and> sub_inv s0 (hold(Svcreq n := 1, Subcall i (Svcreq n) := 1)) st'"
    by (intro subcall_make_inv) simp_all
  then show ?thesis unfolding svc_call_def using assms(2) 1(1) by simp
qed

section \<open>Requests on the session\<close>

primrec origin :: "reqid \<Rightarrow> nat" where
  "origin (Svcreq n) = n"
| "origin (Subcall i p) = origin p"

text \<open>The service's request at the origin of a chain lives as long as any of its subcalls, and it is the one whose session is closed or whose level is changed.\<close>

lemma origin_live: "refs_inv hold st \<Longrightarrow> 0 < rq_refs st r \<Longrightarrow> 0 < rq_refs st (Svcreq (origin r))"
proof (induction r)
  case (Subcall i p)
  with live_subcall [of st i p] subcall_parent_live [of hold st i p] show ?case by auto
qed simp

lemma close_at_origin:
  "refs_inv hold st \<Longrightarrow> 0 < rq_refs st r \<Longrightarrow> subcall_session_close r st = upd_context afb_context_close (Svcreq (origin r)) st"
proof (induction r)
  case (Subcall i p)
  with live_subcall [of st i p] subcall_parent_live [of hold st i p] show ?case by fastforce
qed simp

lemma set_LOA_at_origin:
  "refs_inv hold st \<Longrightarrow> 0 < rq_refs st r \<Longrightarrow> \<exists>ok. subcall_session_set_LOA loa r st
    = map_option (\<lambda>st'. (st', ok)) (upd_context (\<lambda>x. fst (afb_context_change_loa x loa)) (Svcreq (origin r)) st)"
proof (induction r)
  case (Svcreq n)
  then show ?case by (auto simp: case_prod_unfold Let_def split: Option.bind_split option.splits)
next
  case (Subcall i p)
  with live_subcall [of st i p] subcall_parent_live [of hold st i p] show ?case by fastforce
qed

section \<open>Every step\<close>

lemma sub_exec_inv:
  assumes "sub_inv s0 hold st" "sub_allowed hold op st" "length nu = 36"
  shows "\<exists>st'. sub_exec parse apis now nu op st = Some st' \<and> sub_inv s0 (sub_hold op hold) st'"
proof -
  have refs: "refs_inv hold st" and live: "\<And>r. 0 < hold r \<Longrightarrow> 0 < rq_refs st r" using assms(1) hold_live by (auto simp: sub_inv_def)
  have loa: "ac_session (fst (afb_context_change_loa x l)) = ac_session x" for x l by (simp add: afb_context_change_loa_def)
  note at_origin = upd_context_inv [OF assms(1) origin_live [OF refs]]
  show ?thesis
  proof (cases op)
    case (Sb_svc_call v n i api verb args cb)
    then show ?thesis using svc_call_inv [OF assms(1)] assms(2) by auto
  next
    case (Sb_subcall i p api verb args cb)
    then show ?thesis using subcall_make_inv [OF assms(1) live] assms(2) by auto
  next
    case (Sb_addref r)
    then show ?thesis using req_addref_inv [OF assms(1) live] assms(2) by auto
  next
    case (Sb_unref r)
    then show ?thesis using req_unref_inv [OF assms(1) _ assms(3)] assms(2) by auto
  next
    case (Sb_success i p obj info)
    then show ?thesis using subcall_emit_inv [OF assms(1) live] assms(2) by (simp add: subcall_success_def afb_msg_json_reply_ok_def afb_msg_json_reply_def)
  next
    case (Sb_fail i p status info)
    then show ?thesis using subcall_emit_inv [OF assms(1) live] assms(2) by (simp add: subcall_fail_def afb_msg_json_reply_error_def afb_msg_json_reply_def)
  next
    case (Sb_send i p buffer)
    then show ?thesis using subcall_emit_inv [OF assms(1) live] assms(2) by (simp add: subcall_send_def)
  next
    case (Sb_close r)
    then show ?thesis using close_at_origin [OF refs live] at_origin [OF live, of r afb_context_close] assms(2) by (auto simp: afb_context_close_def simp del: upd_context.simps)
  next
    case (Sb_loa r l)
    with assms(2) have r: "0 < rq_refs st r" using live by simp
    obtain ok where "subcall_session_set_LOA l r st = map_option (\<lambda>st'. (st', ok)) (upd_context (\<lambda>x. fst (afb_context_change_loa x l)) (Svcreq (origin r)) st)"
      using set_LOA_at_origin [OF refs r, of l] by blast
    with Sb_loa at_origin [OF r, of "\<lambda>x. fst (afb_context_change_loa x l)"] loa show ?thesis by (auto simp del: upd_context.simps)
  next
    case (Sb_context r f)
    then show ?thesis using upd_context_inv [OF assms(1) live, of r f] assms(2) by simp
  next
    case (Sb_event event)
    then show ?thesis using sub_inv_emit [OF assms(1)] by (simp add: svc_on_event_def)
  qed
qed

lemma sub_reach_inv: "sub_reach parse apis s0 hold st \<Longrightarrow> sub_inv s0 hold st"
proof (induction rule: sub_reach.induct)
  case (start st)
  have "rq_refs st r = 0" for r using start(3,4) by (cases r) simp_all
  with start show ?case by (simp add: sub_inv_def refs_inv_def sess_inv_def args_inv_def kids_def on_session_def with_args_def)
next
  case (step hold st op nu now st')
  from sub_exec_inv [OF step(5,2,3), of parse apis now] step(4) show ?case by auto
qed

text \<open>A subcall that nobody holds has subcalls of its own that somebody holds, or is not there: a chain of requests ends, as the requests are finitely many.\<close>

lemma no_request_left:
  assumes "refs_inv hold st" "hold = (\<lambda>_. 0)"
  shows "sb_svcreqs st = Map.empty \<and> sb_subcalls st = Map.empty"
proof -
  have fin: "finite (dom (sb_subcalls st))" using assms(1) by (simp add: refs_inv_def)
  have refs: "rq_refs st r = int (card (kids st r))" for r using assms by (simp add: refs_inv_def)
  have subs: "sb_subcalls st = Map.empty"
  proof (rule ccontr)
    assume "sb_subcalls st \<noteq> Map.empty"
    then have ne: "dom (sb_subcalls st) \<noteq> {}" by auto
    let ?f = "\<lambda>(i, p). size (Subcall i p)"
    from Max_in [of "?f ` dom (sb_subcalls st)"] fin ne obtain k where k: "k \<in> dom (sb_subcalls st)" "?f k = Max (?f ` dom (sb_subcalls st))" by fastforce
    have top: "?f j \<le> ?f k" if "j \<in> dom (sb_subcalls st)" for j using Max_ge [of "?f ` dom (sb_subcalls st)" "?f j"] fin that k(2) by simp
    obtain i p where ip: "k = (i, p)" by fastforce
    then obtain c where "sb_subcalls st (i, p) = Some c" using k(1) by auto
    then have "0 < rq_refs st (Subcall i p)" using assms(1) by (auto simp: refs_inv_def)
    then have "kids st (Subcall i p) \<noteq> {}" using refs [of "Subcall i p"] by auto
    then obtain j where "(j, Subcall i p) \<in> dom (sb_subcalls st)" by (auto simp: kids_def)
    from top [OF this] ip show False by simp
  qed
  then have "kids st r = {}" for r by (simp add: kids_def)
  then have "rq_refs st (Svcreq n) = 0" for n using refs [of "Svcreq n"] by (simp del: rq_refs.simps)
  with assms(1) have "sb_svcreqs st n = None" for n unfolding refs_inv_def by (metis live_svcreq less_irrefl not_None_eq option.simps(5) rq_refs.simps(1))
  with subs show ?thesis by auto
qed

text \<open>C16. Calls between apis are memory safe and leave nothing behind: whatever the services call, whatever subcalls the apis make for these calls, to any depth, and in
  whatever order they reply and give references back, each operation on a request by one who holds a reference of it returns. A request that is held keeps every
  request that it was made for, and the session of the service, alive. When no reference is held any more, all requests are released, every session has the
  references it had before, and the arguments of every call have been put as often as they were handed over.\<close>

theorem calls_between_apis_safe:
  assumes "sub_reach parse apis s0 hold st"
  shows "session_inv (sb_sessions st)
    \<and> (\<forall>op now nu. sub_allowed hold op st \<and> length nu = 36 \<longrightarrow> sub_exec parse apis now nu op st \<noteq> None)
    \<and> (\<forall>r. 0 < hold r \<longrightarrow> req_context r st \<noteq> None
        \<and> (\<exists>q a. sb_svcreqs st (origin r) = Some q \<and> ac_session (vq_context q) = Some a \<and> 0 < session_refs (sb_sessions st) a))
    \<and> (hold = (\<lambda>_. 0) \<longrightarrow> sb_svcreqs st = Map.empty \<and> sb_subcalls st = Map.empty \<and> session_refs (sb_sessions st) = session_refs s0
        \<and> (\<forall>a. count_list (sb_log st) (Sa_put a) = count_list (sb_log st) (Sa_take a)))"
proof -
  from sub_reach_inv [OF assms] have inv: "sub_inv s0 hold st" .
  then have parts: "refs_inv hold st" "sess_inv s0 st" "args_inv st" by (simp_all add: sub_inv_def)
  have run: "sub_exec parse apis now nu op st \<noteq> None" if "sub_allowed hold op st" "length nu = 36" for op now nu
    using sub_exec_inv [OF inv that, of parse apis now] by auto
  have held: "req_context r st \<noteq> None
      \<and> (\<exists>q a. sb_svcreqs st (origin r) = Some q \<and> ac_session (vq_context q) = Some a \<and> 0 < session_refs (sb_sessions st) a)" if "0 < hold r" for r
    using live_context [OF hold_live [OF inv that]] live_svcreq [OF origin_live [OF parts(1) hold_live [OF inv that]]]
      session_of_svcreq [OF parts(2)] parts(1) by (fastforce simp: refs_inv_def)
  have ended: "sb_svcreqs st = Map.empty \<and> sb_subcalls st = Map.empty \<and> session_refs (sb_sessions st) = session_refs s0
      \<and> (\<forall>a. count_list (sb_log st) (Sa_put a) = count_list (sb_log st) (Sa_take a))" if "hold = (\<lambda>_. 0)"
  proof -
    note none = no_request_left [OF parts(1) that]
    then show ?thesis using parts(2,3) by (simp add: sess_inv_def args_inv_def on_session_def with_args_def)
  qed
  from parts(2) run held ended show ?thesis unfolding sess_inv_def by blast
qed

theorem calls_between_apis_safe_witness:
  "\<exists>(st :: unit sub_state) (st' :: unit sub_state) hold j. sub_reach (\<lambda>_. None) ([] :: unit apis) demo_session hold st
      \<and> 0 < hold (Subcall j (Subcall 2 (Svcreq 1))) \<and> req_context (Subcall j (Subcall 2 (Svcreq 1))) st \<noteq> None
    \<and> sub_reach (\<lambda>_. None) ([] :: unit apis) demo_session (\<lambda>_. 0) st' \<and> sb_subcalls st' = Map.empty \<and> session_refs (sb_sessions st') = session_refs demo_session"
proof -
  let ?nu = "replicate 36 CHR ''c''" and ?a = "[] :: unit apis" and ?p = "\<lambda>_ :: string. None :: unit jval option" and ?c = "Subcall 2 (Svcreq 1)"
  note ok = calls_between_apis_safe [THEN conjunct2, THEN conjunct1, rule_format, OF _ conjI]
  define st :: "unit sub_state" where "st = \<lparr>sb_sessions = demo_session, sb_common = None, sb_svcs = [0 \<mapsto> \<lparr>sv_session = 7, sv_listener = None\<rparr>],
    sb_svcreqs = Map.empty, sb_subcalls = Map.empty, sb_log = []\<rparr>"
  have "0 < session_refs demo_session 7" by (simp add: session_refs_def demo_session_def demo_ctx_def)
  then have 0: "sub_reach ?p ?a demo_session (\<lambda>_. 0) st" using session_reach_inv [OF demo_session_reach] by (intro sub_reach.start) (auto simp: st_def)
  have step: "\<exists>st'. sub_reach ?p ?a demo_session (sub_hold op h) st' \<and> sub_exec ?p ?a 10 ?nu op t = Some st'"
    if "sub_reach ?p ?a demo_session h t" "sub_allowed h op t" for h op t
    using ok [OF that, of ?nu 10] sub_reach.step [OF that, of ?nu 10] by fastforce
  from step [OF 0, of "Sb_svc_call 0 1 2 ''api'' ''verb'' 5 6"] obtain s1 where
    1: "sub_reach ?p ?a demo_session ((\<lambda>_. 0)(Svcreq 1 := 1, ?c := 1)) s1" by (auto simp: st_def)
  have "finite (kids s1 ?c)" using finite_kids sub_reach_inv [OF 1] by (auto simp: sub_inv_def)
  then obtain j where j: "sb_subcalls s1 (j, ?c) = None" using ex_new_if_finite [OF infinite_UNIV_nat] by (fastforce simp: kids_def)
  let ?d = "Subcall j ?c"
  from step [OF 1, of "Sb_subcall j ?c ''api'' ''verb'' 5 6"] j obtain s2 where
    2: "sub_reach ?p ?a demo_session ((\<lambda>_. 0)(Svcreq 1 := 1, ?c := 1, ?d := 1)) s2" by auto
  from step [OF 2, of "Sb_unref ?c"] obtain s3 where 3: "sub_reach ?p ?a demo_session ((\<lambda>_. 0)(Svcreq 1 := 1, ?c := 1, ?d := 1, ?c := 0)) s3" by auto
  from step [OF 3, of "Sb_unref (Svcreq 1)"] obtain s4 where
    4: "sub_reach ?p ?a demo_session ((\<lambda>_. 0)(Svcreq 1 := 1, ?c := 1, ?d := 1, ?c := 0, Svcreq 1 := 0)) s4" by auto
  from step [OF 4, of "Sb_unref ?d"] obtain s5 where
    5: "sub_reach ?p ?a demo_session ((\<lambda>_. 0)(Svcreq 1 := 1, ?c := 1, ?d := 1, ?c := 0, Svcreq 1 := 0, ?d := 0)) s5" by auto
  have "(\<lambda>_. 0 :: nat)(Svcreq 1 := 1, ?c := 1, ?d := 1, ?c := 0, Svcreq 1 := 0, ?d := 0) = (\<lambda>_. 0)" by (auto simp: fun_eq_iff)
  with 5 have 5: "sub_reach ?p ?a demo_session (\<lambda>_. 0) s5" by simp
  have "req_context ?d s2 \<noteq> None" using calls_between_apis_safe [OF 2, THEN conjunct2, THEN conjunct2, THEN conjunct1, THEN spec, of ?d] by simp
  moreover have "sb_subcalls s5 = Map.empty" "session_refs (sb_sessions s5) = session_refs demo_session" using calls_between_apis_safe [OF 5] by simp_all
  ultimately show ?thesis using 2 5 by (intro exI [of _ s2] exI [of _ s5] exI [of _ "(\<lambda>_. 0)(Svcreq 1 := 1, ?c := 1, ?d := 1)"] exI [of _ j]) simp
qed

section \<open>Replies of subcalls\<close>

text \<open>A reply of a subcall: its callback is called once with the object, and of what the callee asked of its own copy of the context only a new token is handed to
  the request that the subcall was made for: no other field of this or of any other context is changed.\<close>

lemma subcall_reply_effect:
  assumes "sb_subcalls st (i, p) = Some c" "req_context p st = Some x" "subcall_emit i p iserror obj st = Some st'"
  shows "req_context p st' = Some (x\<lparr>ac_refreshing := ac_refreshing x \<or> ac_refreshing (su_context c)\<rparr>)
    \<and> (\<forall>r. r \<noteq> p \<longrightarrow> req_context r st' = req_context r st) \<and> sb_log st' = sb_log st @ [Sa_callback (su_callback c) iserror obj]
    \<and> sb_sessions st' = sb_sessions st"
proof -
  have emit: "req_context r (sb_emit a t) = req_context r t" "sb_log (sb_emit a t) = sb_log t @ [a]" "sb_sessions (sb_emit a t) = sb_sessions t" for r a and t :: "'a sub_state"
    by (cases r; simp add: sb_emit_def)+
  have upd: "\<exists>t. upd_context f p st = Some t \<and> req_context p t = Some (f x) \<and> (\<forall>r. r \<noteq> p \<longrightarrow> req_context r t = req_context r st)
      \<and> sb_log t = sb_log st \<and> sb_sessions t = sb_sessions st" for f
  proof (cases p)
    case (Svcreq n)
    then obtain q where q: "sb_svcreqs st n = Some q" "x = vq_context q" using assms(2) by auto
    have "req_context r (st\<lparr>sb_svcreqs := (sb_svcreqs st)(n \<mapsto> q\<lparr>vq_context := f x\<rparr>)\<rparr>) = req_context r st" if "r \<noteq> p" for r
      using that Svcreq by (cases r) auto
    then show ?thesis using q Svcreq by simp
  next
    case (Subcall j q)
    then obtain d where d: "sb_subcalls st (j, q) = Some d" "x = su_context d" using assms(2) by auto
    have "req_context r (st\<lparr>sb_subcalls := (sb_subcalls st)((j, q) \<mapsto> d\<lparr>su_context := f x\<rparr>)\<rparr>) = req_context r st" if "r \<noteq> p" for r
      using that Subcall by (cases r) auto
    then show ?thesis using d Subcall by simp
  qed
  from upd [of "\<lambda>x. x\<lparr>ac_refreshing := True\<rparr>"] assms show ?thesis
    by (cases "ac_refreshing (su_context c)") (auto simp: subcall_emit_def emit)
qed

text \<open>A subcall that cannot be made for want of memory is answered with an error, but the arguments handed over are never put.\<close>

lemma failed_subcall_leaks_args:
  "\<exists>j. subcall_make False apis i p api verb args cb st = Some (sb_emit (Sa_callback cb True (Some j)) (sb_emit (Sa_take args) st))"
  by (auto simp: subcall_make_def afb_subcall_internal_error_def afb_msg_json_reply_error_def afb_msg_json_reply_def)

section \<open>Starting a service\<close>

lemma service_session_refs:
  assumes "session_inv s" "alloc_ok s p" "uuid_ok s nu"
  obtains (failed) s1 e where "ctxClientCreate s None 0 now p nu = Some (s1, Inl e)" "session_inv s1" "session_refs s1 = session_refs s"
    | (made) s1 a where "ctxClientCreate s None 0 now p nu = Some (s1, Inr a)" "session_inv s1" "session_refs s a = 0" "session_refs s1 = (session_refs s)(a := 1)"
proof -
  obtain t where t: "ctxStoreCleanUp s now = Some t" "session_inv t"
    "ss_heap t = (\<lambda>a. Option.bind (ss_heap s a) (sweep (ss_apicount s) now))" using cleanup_heap [OF assms(1)] by blast
  note env = swept_env_ok(1) [OF t(3) assms(2)] swept_env_ok(2) [OF t(3) assms(3)] and refs = sweep_refs [OF t(3)]
  have arg: "uuid_arg_ok t None" by (simp add: uuid_arg_ok_def)
  have c: "ctxClientCreate s None 0 now p nu = Some (new_context t None 0 now p nu)" using t(1) by (simp add: ctxClientCreate_def)
  obtain s1 r where n: "new_context t None 0 now p nu = (s1, r)" by fastforce
  note inv = new_context_inv [OF t(2) env arg n]
  show thesis
  proof (cases r)
    case (Inl e)
    have "add_context t nu 0 now b = (t, Inl ENOMEM) \<or> (\<exists>s'. add_context t nu 0 now b = (s', Inr b))" if "p = Some b" for b
      using add_context_spec [OF t(2), of b nu 0 now] env that by (fastforce simp: alloc_ok_def uuid_ok_def token_size_def ran_def split: if_splits)
    then have "s1 = t" using n Inl by (auto simp: new_context_def split: option.splits)
    with c n Inl inv refs show thesis by (intro failed [of s1 e]) auto
  next
    case (Inr a)
    note i = new_context_Inr [OF t(2) env arg n [unfolded Inr]]
    have "session_refs t a = 0" "session_refs s1 = (session_refs t)(a := 1)" using i(1,2) by (auto simp: session_refs_def fun_eq_iff)
    with c n Inr inv refs show thesis by (intro made [of s1 a]) auto
  qed
qed

text \<open>A service that starts holds its session; one that does not start gives back what it took. Only the session that services share stays, once it is made.\<close>

lemma svc_create_refs:
  assumes "session_inv (sb_sessions st)" "alloc_ok (sb_sessions st) p" "uuid_ok (sb_sessions st) nu" "\<forall>a. sb_common st = Some a \<longrightarrow> 0 < session_refs (sb_sessions st) a"
  shows "\<exists>st' r. afb_svc_create malloc_ok share make_listener init now p nu v st = Some (st', r) \<and> session_inv (sb_sessions st')
    \<and> (\<forall>a. sb_common st' = Some a \<longrightarrow> 0 < session_refs (sb_sessions st') a)
    \<and> (case r of
         None \<Rightarrow> sb_svcs st' = sb_svcs st
           \<and> session_refs (sb_sessions st') = (case sb_common st' of Some a \<Rightarrow> if sb_common st = None then (session_refs (sb_sessions st))(a := 1) else session_refs (sb_sessions st)
                                               | None \<Rightarrow> session_refs (sb_sessions st))
       | Some w \<Rightarrow> w = v \<and> (\<exists>svc. sb_svcs st' = (sb_svcs st)(v \<mapsto> svc) \<and> 0 < session_refs (sb_sessions st') (sv_session svc)))"
proof -
  define given where "given st1 = (case sb_common st1 of Some a \<Rightarrow> if sb_common st = None then (session_refs (sb_sessions st))(a := 1) else session_refs (sb_sessions st)
      | None \<Rightarrow> session_refs (sb_sessions st))" for st1 :: "'a sub_state"
  have sess: "\<exists>st1 r. svc_session share now p nu st = Some (st1, r) \<and> session_inv (sb_sessions st1) \<and> sb_svcs st1 = sb_svcs st
      \<and> (\<forall>a. sb_common st1 = Some a \<longrightarrow> 0 < given st1 a)
      \<and> (case r of None \<Rightarrow> session_refs (sb_sessions st1) = given st1 | Some a \<Rightarrow> session_refs (sb_sessions st1) = (given st1)(a := given st1 a + 1))"
  proof (cases "\<not> share \<or> sb_common st = None")
    case True
    show ?thesis
    proof (cases rule: service_session_refs [OF assms(1-3), of now, case_names failed made])
      case (failed s1 e)
      then show ?thesis using True assms(4) by (cases share) (auto simp: svc_session_def given_def split: option.splits)
    next
      case (made s1 a)
      from addref_refs [OF made(2), of a] made(4) obtain s2 where "ctxClientAddRef s1 (Some a) = Some s2" "session_inv s2" "session_refs s2 = (session_refs s1)(a := 2)" by fastforce
      with made True assms(4) show ?thesis by (cases share) (auto simp: svc_session_def given_def split: option.splits)
    qed
  next
    case False
    then obtain a where a: "share" "sb_common st = Some a" by auto
    with addref_refs [OF assms(1), of a] assms(4) show ?thesis by (auto simp: svc_session_def given_def)
  qed
  then obtain st1 r where 1: "svc_session share now p nu st = Some (st1, r)" "session_inv (sb_sessions st1)" "sb_svcs st1 = sb_svcs st"
    "\<forall>a. sb_common st1 = Some a \<longrightarrow> 0 < given st1 a"
    "case r of None \<Rightarrow> session_refs (sb_sessions st1) = given st1 | Some a \<Rightarrow> session_refs (sb_sessions st1) = (given st1)(a := given st1 a + 1)" by blast
  show ?thesis
  proof (cases "malloc_ok \<and> r \<noteq> None")
    case False
    show ?thesis
    proof (cases malloc_ok)
      case True
      with False 1 show ?thesis by (simp add: afb_svc_create_def given_def)
    next
      case False
      then show ?thesis using assms(1,4) by (auto simp: afb_svc_create_def split: option.split)
    qed
  next
    case True
    then obtain a where a: "r = Some a" by auto
    from unref_refs [OF 1(2), of a] 1(5) a obtain s2 where
      2: "ctxClientUnref (sb_sessions st1) (Some a) = Some s2" "session_inv s2" "session_refs s2 = given st1" by auto
    show ?thesis
    proof (cases "make_listener \<noteq> Some None \<and> 0 \<le> init")
      case started: True
      have "\<exists>svc. (sb_svcs st)(v \<mapsto> \<lparr>sv_session = a, sv_listener = l\<rparr>) = (sb_svcs st)(v \<mapsto> svc) \<and> 0 < session_refs (sb_sessions st1) (sv_session svc)" for l
        using 1(5) a by (intro exI [of _ "\<lparr>sv_session = a, sv_listener = l\<rparr>"]) simp
      moreover have "\<forall>b. sb_common st1 = Some b \<longrightarrow> 0 < session_refs (sb_sessions st1) b" using 1(4,5) a by simp
      ultimately show ?thesis using started True a 1(1-3) by (simp add: afb_svc_create_def Let_def)
    next
      case False
      with True a 1 2 show ?thesis by (auto simp: afb_svc_create_def Let_def sb_emit_def given_def)
    qed
  qed
qed

end
