(* ===== verification/Tictactoe.thy ===== *)
theory Tictactoe
  imports Upgrade
begin

text \<open>
  The game binding, \<^verbatim>\<open>src/bindings/samples/tic-tac-toe.c\<close>: the boards, the analysis of positions and the verbs.

  A board lives at an address of a heap; \<open>all_boards\<close> is the list of the addresses in the order of the links. The pointer that a session stores for the binding is a
  table from sessions to boards; storing another pointer, and closing the session, call \<open>release_board\<close>. \<open>None\<close> is the use of memory that is not there, an index out
  of an array, or a loop that does not end. What is sent to requests and to event listeners is recorded in order.
\<close>

record board =
  bd_use_count :: int
  bd_moves :: nat
  bd_history :: "nat list"
  bd_id :: nat
  bd_level :: nat
  bd_board :: string
  bd_waiters :: "nat list"

record description =
  ds_boardid :: nat
  ds_level :: nat
  ds_board :: string
  ds_history :: "nat list"
  ds_winner :: "string option"

datatype ttt_action =
    Tt_success nat "description option" "string option"
  | Tt_fail nat string string
  | Tt_addref nat
  | Tt_unref nat
  | Tt_broadcast string description

record ttt =
  tt_heap :: "addr \<rightharpoonup> board"
  tt_all_boards :: "addr list"
  tt_context :: "nat \<rightharpoonup> addr"
  tt_log :: "ttt_action list"

definition tt_emit :: "ttt_action \<Rightarrow> ttt \<Rightarrow> ttt" where
  "tt_emit a t = t\<lparr>tt_log := tt_log t @ [a]\<rparr>"

section \<open>Positions\<close>

text \<open>The result \<open>NUL\<close> is the zero of the code: nobody wins.\<close>

definition winner :: "string \<Rightarrow> char" where
  "winner b =
     (if b ! 4 \<noteq> CHR '' '' \<and> b ! 0 = b ! 4 \<and> b ! 8 = b ! 4 then b ! 4
      else if b ! 4 \<noteq> CHR '' '' \<and> b ! 2 = b ! 4 \<and> b ! 6 = b ! 4 then b ! 4
      else case find (\<lambda>i. b ! i \<noteq> CHR '' '' \<and> b ! (i + 1) = b ! i \<and> b ! (i + 2) = b ! i) [0, 3, 6] of
        Some i \<Rightarrow> b ! i
      | None \<Rightarrow>
          (case find (\<lambda>i. b ! i \<noteq> CHR '' '' \<and> b ! (i + 3) = b ! i \<and> b ! (i + 6) = b ! i) [0, 1, 2] of
             Some i \<Rightarrow> b ! i
           | None \<Rightarrow> NUL))"

definition color :: "nat \<Rightarrow> char" where
  "color move = (if even move then CHR ''X'' else CHR ''0'')"

definition add_move :: "board \<Rightarrow> nat \<Rightarrow> board option" where
  "add_move b index =
     (let imove = bd_moves b; b1 = b\<lparr>bd_moves := imove + 1\<rparr> in
      if imove < length (bd_history b) \<and> index < length (bd_board b)
      then Some (b1\<lparr>bd_history := (bd_history b)[imove := index], bd_board := (bd_board b)[index := color imove]\<rparr>)
      else None)"

text \<open>The loop goes round the board until it finds a free place.\<close>

partial_function (option) random_move_loop :: "string \<Rightarrow> nat \<Rightarrow> nat option" where
  "random_move_loop b index = (if b ! index \<noteq> CHR '' '' then random_move_loop b ((index + 1) mod 9) else Some index)"

definition get_random_move :: "nat \<Rightarrow> string \<Rightarrow> nat option" where
  "get_random_move rand b = random_move_loop b (rand mod 9)"

text \<open>The subtraction is that of the code: \<open>'O' + 'X' - c\<close> with the letter O.\<close>

definition opponent :: "char \<Rightarrow> char" where
  "opponent c = char_of (of_char (CHR ''O'') + of_char (CHR ''X'') - of_char c :: int)"

text \<open>The loop over the replies of the opponent \<open>c\<close>, with the function that scores a reply.\<close>

fun score_moves :: "(string \<Rightarrow> int) \<Rightarrow> char \<Rightarrow> string \<Rightarrow> nat list \<Rightarrow> int \<Rightarrow> int" where
  "score_moves score c b [] r = r"
| "score_moves score c b (i # is) r =
     (if b ! i = CHR '' '' then
        (let t = score (b[i := c]) in
         if t > 0 then -1 else score_moves score c b is (if t = 0 then 0 else r))
      else score_moves score c b is r)"

text \<open>The argument is the depth of the analysis once it is decremented: \<open>score_position d\<close> is the call with the depth \<open>d + 1\<close>; the code never calls it with zero.\<close>

primrec score_position :: "nat \<Rightarrow> string \<Rightarrow> char \<Rightarrow> int" where
  "score_position 0 b c = (if winner b = c then 1 else 0)"
| "score_position (Suc d) b c =
     (if winner b = c then 1
      else score_moves (\<lambda>b'. score_position d b' (opponent c)) (opponent c) b [0..<9] 1)"

text \<open>The loop of \<open>get_move\<close>: a place that wins, or the board with the bad places marked and whether some other place is left.\<close>

fun best_move :: "(string \<Rightarrow> int) \<Rightarrow> char \<Rightarrow> string \<Rightarrow> nat list \<Rightarrow> string \<Rightarrow> bool \<Rightarrow> nat + (string \<times> bool)" where
  "best_move score c b [] marked f = Inr (marked, f)"
| "best_move score c b (i # is) marked f =
     (if b ! i = CHR '' '' then
        (let t = score (b[i := c]) in
         if t > 0 then Inl i
         else if t < 0 then best_move score c b is (marked[i := CHR ''+'']) f
         else best_move score c b is marked True)
      else best_move score c b is marked f)"

definition get_move :: "nat \<Rightarrow> board \<Rightarrow> nat option" where
  "get_move rand b =
     (let depth0 = bd_level b - 1;
          depth = (if bd_moves b + depth0 > 9 then 9 - bd_moves b else depth0)
      in if depth = 0 then get_random_move rand (bd_board b)
         else case best_move (\<lambda>b'. score_position (depth - 1) b' (color (bd_moves b))) (color (bd_moves b)) (bd_board b) [0..<9] (bd_board b) False of
           Inl index \<Rightarrow> Some index
         | Inr (marked, f) \<Rightarrow> get_random_move rand (if f then marked else bd_board b))"

definition describe :: "board \<Rightarrow> description option" where
  "describe b =
     (if bd_moves b \<le> length (bd_history b)
      then Some \<lparr>ds_boardid = bd_id b, ds_level = bd_level b, ds_board = bd_board b, ds_history = take (bd_moves b) (bd_history b),
                 ds_winner = (if winner (bd_board b) \<noteq> NUL then Some [winner (bd_board b)] else if bd_moves b = 9 then Some ''none'' else None)\<rparr>
      else None)"

section \<open>Boards\<close>

definition search_board :: "ttt \<Rightarrow> int \<Rightarrow> addr option" where
  "search_board t i = find (\<lambda>a. case tt_heap t a of None \<Rightarrow> False | Some b \<Rightarrow> int (bd_id b) = i) (tt_all_boards t)"

text \<open>The numbers are those that \<open>rand\<close> is going to return; when none of them is good the loop has not ended.\<close>

fun board_id :: "ttt \<Rightarrow> nat list \<Rightarrow> nat option" where
  "board_id t [] = None"
| "board_id t (r # rands) =
     (let i = (r div 4) mod 1000 in if i = 0 \<or> search_board t (int i) \<noteq> None then board_id t rands else Some i)"

definition get_new_board :: "addr \<Rightarrow> nat list \<Rightarrow> ttt \<Rightarrow> (ttt \<times> addr) option" where
  "get_new_board a rands t =
     do { i \<leftarrow> board_id t rands;
          let b = \<lparr>bd_use_count = 1, bd_moves = 0, bd_history = replicate 9 0, bd_id = i, bd_level = 1, bd_board = replicate 9 (CHR '' ''), bd_waiters = []\<rparr>;
          Some (t\<lparr>tt_heap := (tt_heap t)(a \<mapsto> b), tt_all_boards := a # tt_all_boards t\<rparr>, a) }"

definition release_board :: "addr \<Rightarrow> ttt \<Rightarrow> ttt option" where
  "release_board a t =
     do { b \<leftarrow> tt_heap t a;
          let b1 = b\<lparr>bd_use_count := bd_use_count b - 1\<rparr>;
          if bd_use_count b1 = 0
          then Some (t\<lparr>tt_heap := (tt_heap t)(a := None), tt_all_boards := remove1 a (tt_all_boards t)\<rparr>)
          else Some (t\<lparr>tt_heap := (tt_heap t)(a \<mapsto> b1)\<rparr>) }"

text \<open>The pointer of the session: what is stored before is released, unless it is the same.\<close>

definition req_context_set :: "nat \<Rightarrow> addr \<Rightarrow> ttt \<Rightarrow> ttt option" where
  "req_context_set s a t =
     (let t1 = t\<lparr>tt_context := (tt_context t)(s \<mapsto> a)\<rparr> in
      case tt_context t s of
        None \<Rightarrow> Some t1
      | Some old \<Rightarrow> if old = a then Some t1 else release_board old t1)"

definition board_of_req :: "addr \<Rightarrow> nat list \<Rightarrow> nat \<Rightarrow> ttt \<Rightarrow> (ttt \<times> addr) option" where
  "board_of_req alloc rands s t =
     (case tt_context t s of
        Some a \<Rightarrow> Some (t, a)
      | None \<Rightarrow> do { (t1, a) \<leftarrow> get_new_board alloc rands t; t2 \<leftarrow> req_context_set s a t1; Some (t2, a) })"

text \<open>Every waiter is answered with the description and released, in the order of the list.\<close>

definition changed :: "addr \<Rightarrow> string \<Rightarrow> ttt \<Rightarrow> ttt option" where
  "changed a reason t =
     do { b \<leftarrow> tt_heap t a;
          d \<leftarrow> describe b;
          Some (t\<lparr>tt_heap := (tt_heap t)(a \<mapsto> b\<lparr>bd_waiters := []\<rparr>),
                  tt_log := tt_log t @ concat (map (\<lambda>w. [Tt_success w (Some d) (Some reason), Tt_unref w]) (bd_waiters b)) @ [Tt_broadcast reason d]\<rparr>) }"

section \<open>Verbs\<close>

text \<open>A verb is called with the session and the number of its request; \<open>alloc\<close> and \<open>rands\<close> are the memory and the random numbers it may use.\<close>

definition with_board :: "(addr \<times> nat list) \<Rightarrow> nat \<Rightarrow> ttt \<Rightarrow> (addr \<Rightarrow> board \<Rightarrow> ttt \<Rightarrow> ttt option) \<Rightarrow> ttt option" where
  "with_board mem s t f = do { (t1, a) \<leftarrow> board_of_req (fst mem) (snd mem) s t; b \<leftarrow> tt_heap t1 a; f a b t1 }"

definition put_board :: "addr \<Rightarrow> board \<Rightarrow> ttt \<Rightarrow> ttt" where
  "put_board a b t = t\<lparr>tt_heap := (tt_heap t)(a \<mapsto> b)\<rparr>"

definition verb_new :: "(addr \<times> nat list) \<Rightarrow> nat \<Rightarrow> nat \<Rightarrow> ttt \<Rightarrow> ttt option" where
  "verb_new mem s q t = with_board mem s t (\<lambda>a b t1.
     changed a ''new'' (tt_emit (Tt_success q None None) (put_board a (b\<lparr>bd_board := replicate 9 (CHR '' ''), bd_moves := 0\<rparr>) t1)))"

definition verb_board :: "(addr \<times> nat list) \<Rightarrow> nat \<Rightarrow> nat \<Rightarrow> ttt \<Rightarrow> ttt option" where
  "verb_board mem s q t = with_board mem s t (\<lambda>a b t1. do { d \<leftarrow> describe b; Some (tt_emit (Tt_success q (Some d) None) t1) })"

definition verb_move :: "(addr \<times> nat list) \<Rightarrow> nat \<Rightarrow> nat \<Rightarrow> string option \<Rightarrow> ttt \<Rightarrow> ttt option" where
  "verb_move mem s q index t = with_board mem s t (\<lambda>a b t1.
     (let i = (case index of None \<Rightarrow> -1 | Some x \<Rightarrow> atoi x) in
      if i < 0 \<or> i > 8 then Some (tt_emit (Tt_fail q ''error'' ''bad request'') t1)
      else if winner (bd_board b) \<noteq> NUL then Some (tt_emit (Tt_fail q ''error'' ''game terminated'') t1)
      else if bd_board b ! nat i \<noteq> CHR '' '' then Some (tt_emit (Tt_fail q ''error'' ''occupied'') t1)
      else do { b1 \<leftarrow> add_move b (nat i); changed a ''move'' (tt_emit (Tt_success q None None) (put_board a b1 t1)) }))"

definition verb_level :: "(addr \<times> nat list) \<Rightarrow> nat \<Rightarrow> nat \<Rightarrow> string option \<Rightarrow> ttt \<Rightarrow> ttt option" where
  "verb_level mem s q level t = with_board mem s t (\<lambda>a b t1.
     (let l = (case level of None \<Rightarrow> -1 | Some x \<Rightarrow> atoi x) in
      if l < 1 \<or> l > 10 then Some (tt_emit (Tt_fail q ''error'' ''bad request'') t1)
      else changed a ''level'' (tt_emit (Tt_success q None None) (put_board a (b\<lparr>bd_level := nat l\<rparr>) t1))))"

text \<open>The memory and the numbers after those of \<open>board_of_req\<close> are for the board that \<open>none\<close> asks for.\<close>

definition verb_join :: "(addr \<times> nat list) \<Rightarrow> (addr \<times> nat list) \<Rightarrow> nat \<Rightarrow> nat \<Rightarrow> string option \<Rightarrow> ttt \<Rightarrow> ttt option" where
  "verb_join mem mem' s q boardid t = with_board mem s t (\<lambda>a b t1.
     case boardid of
       None \<Rightarrow> Some (tt_emit (Tt_fail q ''error'' ''bad request'') t1)
     | Some i \<Rightarrow>
         if i = ''none'' then
           do { (t2, n) \<leftarrow> get_new_board (fst mem') (snd mem') t1; t3 \<leftarrow> req_context_set s n t2; Some (tt_emit (Tt_success q None None) t3) }
         else case search_board t1 (atoi i) of
           None \<Rightarrow> Some (tt_emit (Tt_fail q ''error'' ''bad request'') t1)
         | Some n \<Rightarrow>
             do { c \<leftarrow> tt_heap t1 n;
                  let t2 = (if n \<noteq> a then put_board n (c\<lparr>bd_use_count := bd_use_count c + 1\<rparr>) t1 else t1);
                  t3 \<leftarrow> req_context_set s n t2;
                  Some (tt_emit (Tt_success q None None) t3) })"

definition verb_undo :: "(addr \<times> nat list) \<Rightarrow> nat \<Rightarrow> nat \<Rightarrow> ttt \<Rightarrow> ttt option" where
  "verb_undo mem s q t = with_board mem s t (\<lambda>a b t1.
     (if bd_moves b = 0 then Some (tt_emit (Tt_fail q ''error'' ''bad request'') t1)
      else let m = bd_moves b - 1 in
        if m < length (bd_history b) \<and> bd_history b ! m < length (bd_board b)
        then changed a ''undo'' (tt_emit (Tt_success q None None) (put_board a (b\<lparr>bd_moves := m, bd_board := (bd_board b)[bd_history b ! m := CHR '' '']\<rparr>) t1))
        else None))"

definition verb_play :: "(addr \<times> nat list) \<Rightarrow> nat \<Rightarrow> nat \<Rightarrow> nat \<Rightarrow> ttt \<Rightarrow> ttt option" where
  "verb_play mem rand s q t = with_board mem s t (\<lambda>a b t1.
     (if winner (bd_board b) \<noteq> NUL \<or> bd_moves b = 9 then Some (tt_emit (Tt_fail q ''error'' ''game terminated'') t1)
      else do { index \<leftarrow> get_move rand b;
                b1 \<leftarrow> add_move b index;
                d \<leftarrow> describe b1;
                changed a ''play'' (tt_emit (Tt_success q (Some d) None) (put_board a b1 t1)) }))"

definition verb_wait :: "(addr \<times> nat list) \<Rightarrow> nat \<Rightarrow> nat \<Rightarrow> ttt \<Rightarrow> ttt option" where
  "verb_wait mem s q t = with_board mem s t (\<lambda>a b t1. Some (put_board a (b\<lparr>bd_waiters := q # bd_waiters b\<rparr>) (tt_emit (Tt_addref q) t1)))"

text \<open>The end of a session, which releases the pointer that it stores.\<close>

definition session_end :: "nat \<Rightarrow> ttt \<Rightarrow> ttt option" where
  "session_end s t = (case tt_context t s of None \<Rightarrow> Some t | Some a \<Rightarrow> release_board a (t\<lparr>tt_context := (tt_context t)(s := None)\<rparr>))"

section \<open>Moves\<close>

definition board_ok :: "board \<Rightarrow> bool" where
  "board_ok b \<longleftrightarrow> length (bd_history b) = 9 \<and> length (bd_board b) = 9 \<and> bd_moves b \<le> 9 \<and> 1 \<le> bd_level b \<and> bd_level b \<le> 10
     \<and> distinct (take (bd_moves b) (bd_history b))
     \<and> (\<forall>k < bd_moves b. bd_history b ! k < 9 \<and> bd_board b ! (bd_history b ! k) = color k)
     \<and> (\<forall>i < 9. i \<notin> set (take (bd_moves b) (bd_history b)) \<longrightarrow> bd_board b ! i = CHR '' '')"

lemma color_not_blank [simp]: "color k \<noteq> CHR '' ''" "color k \<noteq> NUL"
  by (simp_all add: color_def NUL_def)

lemma played_cells:
  assumes "board_ok b" "i < 9"
  shows "bd_board b ! i \<noteq> CHR '' '' \<longleftrightarrow> i \<in> set (take (bd_moves b) (bd_history b))"
proof
  assume "i \<in> set (take (bd_moves b) (bd_history b))"
  then obtain k where "k < bd_moves b" "bd_history b ! k = i" by (auto simp: in_set_conv_nth)
  with assms(1) show "bd_board b ! i \<noteq> CHR '' ''" by (auto simp: board_ok_def)
qed (use assms in \<open>auto simp: board_ok_def\<close>)

lemma free_cell:
  assumes "board_ok b" "bd_moves b < 9"
  shows "\<exists>i < 9. bd_board b ! i = CHR '' ''"
proof (rule ccontr)
  assume "\<not> ?thesis"
  then have "{..<9} \<subseteq> set (take (bd_moves b) (bd_history b))" using played_cells [OF assms(1)] by auto
  then have "9 \<le> card (set (take (bd_moves b) (bd_history b)))" using card_mono [of "set (take (bd_moves b) (bd_history b))" "{..<9 :: nat}"] by simp
  moreover have "card (set (take (bd_moves b) (bd_history b))) \<le> bd_moves b" using card_length [of "take (bd_moves b) (bd_history b)"] by simp
  ultimately show False using assms(2) by simp
qed

lemma free_cell_moves:
  assumes "board_ok b" "i < 9" "bd_board b ! i = CHR '' ''"
  shows "bd_moves b < 9"
proof (rule ccontr)
  assume "\<not> bd_moves b < 9"
  with assms(1) have "bd_moves b = 9" "length (bd_history b) = 9" "distinct (bd_history b)" "set (bd_history b) \<subseteq> {..<9}"
    by (auto simp: board_ok_def in_set_conv_nth)
  then have "set (bd_history b) = {..<9}" using card_subset_eq [of "{..<9 :: nat}" "set (bd_history b)"] by (simp add: distinct_card)
  with played_cells [OF assms(1,2)] assms(2,3) \<open>bd_moves b = 9\<close> \<open>length (bd_history b) = 9\<close> show False by simp
qed

lemma add_move_ok:
  assumes "board_ok b" "i < 9" "bd_board b ! i = CHR '' ''"
  shows "\<exists>b'. add_move b i = Some b' \<and> board_ok b' \<and> bd_use_count b' = bd_use_count b \<and> bd_id b' = bd_id b \<and> bd_waiters b' = bd_waiters b
    \<and> bd_moves b' = bd_moves b + 1 \<and> bd_board b' = (bd_board b)[i := color (bd_moves b)] \<and> take (bd_moves b') (bd_history b') = take (bd_moves b) (bd_history b) @ [i]"
proof -
  note m = free_cell_moves [OF assms] and ok = assms(1) [unfolded board_ok_def]
  have h: "take (Suc (bd_moves b)) ((bd_history b)[bd_moves b := i]) = take (bd_moves b) (bd_history b) @ [i]"
    using ok m by (simp add: take_Suc_conv_app_nth take_update_cancel)
  have new: "i \<notin> set (take (bd_moves b) (bd_history b))" using played_cells [OF assms(1,2)] assms(3) by blast
  have old: "bd_history b ! k \<noteq> i" if "k < bd_moves b" for k using new that ok m by (auto simp: in_set_conv_nth)
  let ?b = "b\<lparr>bd_moves := bd_moves b + 1, bd_history := (bd_history b)[bd_moves b := i], bd_board := (bd_board b)[i := color (bd_moves b)]\<rparr>"
  have "board_ok ?b" unfolding board_ok_def using ok m h new old assms(2) by (auto simp: less_Suc_eq nth_list_update)
  moreover have "add_move b i = Some ?b" using ok m assms(2) by (simp add: add_move_def Let_def)
  ultimately show ?thesis using h by (intro exI [of _ ?b]) simp
qed

lemma undo_move_ok:
  assumes "board_ok b" "bd_moves b = Suc m"
  shows "m < 9" "bd_history b ! m < 9" "board_ok (b\<lparr>bd_moves := m, bd_board := (bd_board b)[bd_history b ! m := CHR '' '']\<rparr>)"
proof -
  note ok = assms(1) [unfolded board_ok_def assms(2)]
  show "m < 9" "bd_history b ! m < 9" using ok by auto
  have h: "take (Suc m) (bd_history b) = take m (bd_history b) @ [bd_history b ! m]" using ok by (simp add: take_Suc_conv_app_nth)
  have d: "bd_history b ! k \<noteq> bd_history b ! m" if "k < m" for k using ok that unfolding h by (auto simp: in_set_conv_nth)
  show "board_ok (b\<lparr>bd_moves := m, bd_board := (bd_board b)[bd_history b ! m := CHR '' '']\<rparr>)"
    unfolding board_ok_def using ok h d by (auto simp: nth_list_update dest: d [THEN notE])
qed

section \<open>The machine's move\<close>

lemma random_move_free:
  assumes "j < 9" "b ! j = CHR '' ''" "i < 9"
  shows "\<exists>k < 9. random_move_loop b i = Some k \<and> b ! k = CHR '' ''"
  using assms(3)
proof (induction "(j + 9 - i) mod 9" arbitrary: i)
  case 0
  then have "i = j" using assms(1) by (cases "i \<le> j") (auto simp: mod_if split: if_splits)
  then show ?case using assms(1,2) by (simp add: random_move_loop.simps)
next
  case (Suc n)
  show ?case
  proof (cases "b ! i = CHR '' ''")
    case True
    then show ?thesis using Suc(3) by (simp add: random_move_loop.simps)
  next
    case False
    have "n = (j + 9 - (i + 1) mod 9) mod 9" using Suc(2,3) assms(1) by (cases "i = 8") (auto simp: mod_if split: if_splits)
    with Suc(1) [of "(i + 1) mod 9"] False show ?thesis by (simp add: random_move_loop.simps [of b i])
  qed
qed

lemma best_move_Inl:
  "best_move score c b is marked f = Inl i \<Longrightarrow> i \<in> set is \<and> b ! i = CHR '' '' \<and> score (b[i := c]) > 0"
  by (induction "is" arbitrary: marked f) (auto simp: Let_def split: if_splits)

text \<open>The places left free by the marks are free on the board and not bad; there is one when the flag is set.\<close>

lemma best_move_Inr:
  assumes "best_move score c b is marked f = Inr (marked', f')" "distinct is" "\<forall>i \<in> set is. i < length marked \<and> marked ! i = b ! i"
  shows "length marked' = length marked \<and> (\<forall>i. i \<notin> set is \<longrightarrow> marked' ! i = marked ! i)
    \<and> (\<forall>i \<in> set is. marked' ! i = (if b ! i = CHR '' '' \<and> score (b[i := c]) < 0 then CHR ''+'' else b ! i))
    \<and> (\<forall>i \<in> set is. b ! i = CHR '' '' \<longrightarrow> score (b[i := c]) \<le> 0)
    \<and> (f' \<longleftrightarrow> f \<or> (\<exists>i \<in> set is. b ! i = CHR '' '' \<and> score (b[i := c]) = 0))"
  using assms
proof (induction "is" arbitrary: marked f)
  case (Cons i "is")
  show ?case
  proof (cases "b ! i = CHR '' ''")
    case False
    then show ?thesis using Cons.IH [of marked f] Cons.prems by auto
  next
    case True
    consider "score (b[i := c]) < 0" | "score (b[i := c]) = 0" using True Cons.prems(1) by (fastforce simp: Let_def)
    then show ?thesis
    proof cases
      case 1
      then show ?thesis using Cons.IH [of "marked[i := CHR ''+'']" f] Cons.prems True by (auto simp: Let_def nth_list_update)
    next
      case 2
      then show ?thesis using Cons.IH [of marked True] Cons.prems True by (auto simp: Let_def)
    qed
  qed
qed simp

lemma score_moves_bounds: "-1 \<le> r \<Longrightarrow> r \<le> 1 \<Longrightarrow> -1 \<le> score_moves score c b is r \<and> score_moves score c b is r \<le> 1"
  by (induction "is" arbitrary: r) (auto simp: Let_def)

lemma score_bounds: "-1 \<le> score_position d b c" "score_position d b c \<le> 1"
  using score_moves_bounds [of 1] by (cases d; simp)+

lemma random_move_ok: "j < 9 \<Longrightarrow> b ! j = CHR '' '' \<Longrightarrow> \<exists>k < 9. get_random_move rand b = Some k \<and> b ! k = CHR '' ''"
  using random_move_free [of j b "rand mod 9"] by (simp add: get_random_move_def)

text \<open>The depth of the analysis, and the score that it gives to a place for the player who is to move.\<close>

definition depth_of :: "board \<Rightarrow> nat" where
  "depth_of b = (if bd_moves b + (bd_level b - 1) > 9 then 9 - bd_moves b else bd_level b - 1)"

definition place_score :: "board \<Rightarrow> nat \<Rightarrow> int" where
  "place_score b i = score_position (depth_of b - 1) ((bd_board b)[i := color (bd_moves b)]) (color (bd_moves b))"

lemma get_move_eq:
  "get_move rand b = (if depth_of b = 0 then get_random_move rand (bd_board b)
     else case best_move (\<lambda>b'. score_position (depth_of b - 1) b' (color (bd_moves b))) (color (bd_moves b)) (bd_board b) [0..<9] (bd_board b) False of
       Inl index \<Rightarrow> Some index | Inr (marked, f) \<Rightarrow> get_random_move rand (if f then marked else bd_board b))"
  by (simp add: get_move_def depth_of_def Let_def)

lemma get_move_ok:
  assumes "board_ok b" "bd_moves b < 9"
  shows "\<exists>i < 9. get_move rand b = Some i \<and> bd_board b ! i = CHR '' ''
    \<and> (0 < depth_of b \<longrightarrow> (\<forall>j < 9. bd_board b ! j = CHR '' '' \<longrightarrow> place_score b j \<le> place_score b i))"
proof -
  obtain j where j: "j < 9" "bd_board b ! j = CHR '' ''" using free_cell [OF assms] by blast
  let ?s = "\<lambda>b'. score_position (depth_of b - 1) b' (color (bd_moves b))"
  show ?thesis
  proof (cases "depth_of b = 0")
    case True
    then show ?thesis using random_move_ok [OF j, of rand] by (auto simp: get_move_eq)
  next
    case False
    show ?thesis
    proof (cases "best_move ?s (color (bd_moves b)) (bd_board b) [0..<9] (bd_board b) False")
      case (Inl i)
      have "0 < place_score b i" using best_move_Inl [OF Inl] by (simp add: place_score_def)
      moreover have "place_score b k \<le> 1" for k unfolding place_score_def by (rule score_bounds)
      ultimately have "place_score b k \<le> place_score b i" for k by (meson order.trans zless_imp_add1_zle add_0 order_refl one_le_numeral int_one_le_iff_zero_less)
      then show ?thesis using best_move_Inl [OF Inl] Inl False by (intro exI [of _ i]) (simp add: get_move_eq)
    next
      case (Inr mf)
      obtain marked f where mf: "mf = (marked, f)" by fastforce
      have len: "length (bd_board b) = 9" using assms(1) by (simp add: board_ok_def)
      note r = best_move_Inr [OF Inr [unfolded mf] distinct_upt, unfolded atLeastLessThan_upt [symmetric], folded place_score_def]
      have all: "place_score b k \<le> 0" if "k < 9" "bd_board b ! k = CHR '' ''" for k using r len that by auto
      show ?thesis
      proof (cases f)
        case True
        then obtain k where "k < 9" "bd_board b ! k = CHR '' ''" "place_score b k = 0" using r len by auto
        then have "k < 9" "marked ! k = CHR '' ''" using r len by auto
        from random_move_ok [OF this, of rand] obtain i where i: "i < 9" "get_random_move rand marked = Some i" "marked ! i = CHR '' ''" by blast
        have "bd_board b ! i = CHR '' '' \<and> place_score b i = 0" using r len i(1,3) all [OF i(1)] by (auto split: if_splits)
        with i all True Inr mf False show ?thesis by (auto simp: get_move_eq)
      next
        case False
        from random_move_ok [OF j, of rand] obtain i where i: "i < 9" "get_random_move rand (bd_board b) = Some i" "bd_board b ! i = CHR '' ''" by blast
        have low: "-1 \<le> place_score b k" for k unfolding place_score_def by (rule score_bounds)
        have "place_score b k < 0" if "k < 9" "bd_board b ! k = CHR '' ''" for k using r len that False by (auto simp: less_le all)
        with low have "place_score b k = -1" if "k < 9" "bd_board b ! k = CHR '' ''" for k using that low [of k] by fastforce
        with i False Inr mf \<open>depth_of b \<noteq> 0\<close> show ?thesis by (auto simp: get_move_eq)
      qed
    qed
  qed
qed

section \<open>The boards of the sessions\<close>

text \<open>\<open>extra\<close> counts the references that a running verb holds besides those of the sessions.\<close>

definition board_refs :: "(addr \<Rightarrow> nat) \<Rightarrow> ttt \<Rightarrow> addr \<Rightarrow> nat" where
  "board_refs extra t a = extra a + card {s. tt_context t s = Some a}"

definition ttt_inv :: "(addr \<Rightarrow> nat) \<Rightarrow> ttt \<Rightarrow> bool" where
  "ttt_inv extra t \<longleftrightarrow> distinct (tt_all_boards t) \<and> set (tt_all_boards t) = dom (tt_heap t) \<and> finite (dom (tt_context t))
     \<and> (\<forall>s a. tt_context t s = Some a \<longrightarrow> tt_heap t a \<noteq> None)
     \<and> (\<forall>a b. tt_heap t a = Some b \<longrightarrow> board_ok b \<and> 1 \<le> bd_id b \<and> bd_id b < 1000
          \<and> bd_use_count b = int (board_refs extra t a) \<and> 0 < board_refs extra t a)
     \<and> (\<forall>a a' b b'. tt_heap t a = Some b \<longrightarrow> tt_heap t a' = Some b' \<longrightarrow> bd_id b = bd_id b' \<longrightarrow> a = a')
     \<and> (\<forall>a. tt_heap t a = None \<longrightarrow> extra a = 0)"

lemma ttt_inv_log [simp]: "ttt_inv extra (t\<lparr>tt_log := l\<rparr>) = ttt_inv extra t" "ttt_inv extra (tt_emit x t) = ttt_inv extra t"
  by (simp_all add: ttt_inv_def tt_emit_def board_refs_def)

lemma put_board_inv:
  assumes "ttt_inv extra t" "tt_heap t a = Some b" "board_ok b'" "bd_id b' = bd_id b"
    and "bd_use_count b' = int (board_refs (extra(a := h)) t a)" "0 < bd_use_count b'"
  shows "ttt_inv (extra(a := h)) (put_board a b' t)"
proof -
  have "insert a (dom (tt_heap t)) = dom (tt_heap t)" using assms(2) by auto
  moreover have "board_refs (extra(a := h)) (put_board a b' t) c = (if c = a then board_refs (extra(a := h)) t a else board_refs extra t c)" for c
    by (simp add: board_refs_def put_board_def)
  ultimately show ?thesis using assms unfolding ttt_inv_def by (auto simp: put_board_def split: if_splits)
qed

lemma put_board_same_inv:
  assumes "ttt_inv extra t" "tt_heap t a = Some b" "board_ok b'" "bd_id b' = bd_id b" "bd_use_count b' = bd_use_count b"
  shows "ttt_inv extra (put_board a b' t)"
proof -
  have "bd_use_count b = int (board_refs extra t a)" "0 < board_refs extra t a" using assms(1,2) by (auto simp: ttt_inv_def)
  with put_board_inv [OF assms(1-4), of "extra a"] assms(5) show ?thesis by simp
qed

lemma changed_inv:
  assumes "ttt_inv extra t" "tt_heap t a = Some b"
  shows "\<exists>t'. changed a reason t = Some t' \<and> ttt_inv extra t' \<and> tt_context t' = tt_context t \<and> tt_heap t' = (tt_heap t)(a \<mapsto> b\<lparr>bd_waiters := []\<rparr>)"
proof -
  have ok: "board_ok b" using assms by (auto simp: ttt_inv_def)
  then obtain d where "describe b = Some d" by (simp add: describe_def board_ok_def)
  moreover have "board_ok (b\<lparr>bd_waiters := []\<rparr>)" using ok by (simp add: board_ok_def)
  then have "ttt_inv extra (put_board a (b\<lparr>bd_waiters := []\<rparr>) t)" using put_board_same_inv [OF assms] by simp
  then have "ttt_inv extra (t\<lparr>tt_heap := (tt_heap t)(a \<mapsto> b\<lparr>bd_waiters := []\<rparr>), tt_log := l\<rparr>)" for l by (simp add: put_board_def)
  ultimately show ?thesis using assms(2) by (simp add: changed_def)
qed

lemma update_board_inv:
  assumes "ttt_inv extra t" "tt_heap t a = Some b" "board_ok b'" "bd_id b' = bd_id b" "bd_use_count b' = bd_use_count b"
  shows "\<exists>t'. changed a reason (tt_emit x (put_board a b' t)) = Some t' \<and> ttt_inv extra t'"
  using changed_inv [of extra "tt_emit x (put_board a b' t)" a b' reason] put_board_same_inv [OF assms] by (auto simp: tt_emit_def put_board_def)

lemma search_board_spec:
  assumes "ttt_inv extra t"
  shows "search_board t i = Some a \<Longrightarrow> \<exists>b. tt_heap t a = Some b \<and> int (bd_id b) = i"
    and "search_board t i = None \<Longrightarrow> tt_heap t a = Some b \<Longrightarrow> int (bd_id b) \<noteq> i"
  using assms by (auto simp: search_board_def find_Some_iff find_None_iff ttt_inv_def split: option.splits)

text \<open>The numbers that \<open>rand\<close> gives are good when they give every remainder: a number that is free is among them as long as there are fewer than 999 boards.\<close>

definition rands_ok :: "nat list \<Rightarrow> bool" where
  "rands_ok rands \<longleftrightarrow> (\<forall>i \<in> {1..<1000}. \<exists>r \<in> set rands. (r div 4) mod 1000 = i)"

lemma board_id_Some: "board_id t rands = Some i \<Longrightarrow> 1 \<le> i \<and> i < 1000 \<and> search_board t (int i) = None"
  by (induction rands) (auto simp: Let_def split: if_splits)

lemma board_id_ex: "r \<in> set rands \<Longrightarrow> (r div 4) mod 1000 \<noteq> 0 \<Longrightarrow> search_board t (int ((r div 4) mod 1000)) = None \<Longrightarrow> \<exists>i. board_id t rands = Some i"
  by (induction rands) (auto simp: Let_def)

lemma board_id_total:
  assumes "ttt_inv extra t" "length (tt_all_boards t) < 999" "rands_ok rands"
  shows "\<exists>i. board_id t rands = Some i"
proof -
  let ?ids = "(\<lambda>a. bd_id (the (tt_heap t a))) ` set (tt_all_boards t)"
  have "card ?ids < 999" using card_image_le [of "set (tt_all_boards t)"] card_length [of "tt_all_boards t"] assms(2) by (metis List.finite_set le_less_trans)
  then have "\<not> {1..<1000} \<subseteq> ?ids" using card_mono [of ?ids "{1..<1000 :: nat}"] by auto
  then obtain i where i: "i \<in> {1..<1000}" "i \<notin> ?ids" by blast
  have "search_board t (int i) = None"
  proof (rule ccontr)
    assume "search_board t (int i) \<noteq> None"
    then obtain a where s: "search_board t (int i) = Some a" by blast
    from search_board_spec(1) [OF assms(1) s] obtain b where "tt_heap t a = Some b" "bd_id b = i" by auto
    moreover from this have "a \<in> set (tt_all_boards t)" using assms(1) by (auto simp: ttt_inv_def)
    ultimately show False using i(2) by (metis (mono_tags, lifting) image_eqI option.sel)
  qed
  moreover obtain r where "r \<in> set rands" "(r div 4) mod 1000 = i" using i(1) assms(3) unfolding rands_ok_def by blast
  ultimately show ?thesis using i(1) board_id_ex [of r rands t] by simp
qed

lemma context_live: "ttt_inv extra t \<Longrightarrow> tt_context t s = Some a \<Longrightarrow> tt_heap t a \<noteq> None"
  unfolding ttt_inv_def by blast

lemma new_board_inv:
  assumes "ttt_inv extra t" "tt_heap t a = None" "length (tt_all_boards t) < 999" "rands_ok rands"
  shows "\<exists>t'. get_new_board a rands t = Some (t', a) \<and> ttt_inv (extra(a := 1)) t' \<and> tt_context t' = tt_context t \<and> tt_all_boards t' = a # tt_all_boards t
    \<and> dom (tt_heap t') = insert a (dom (tt_heap t))"
proof -
  obtain i where i: "board_id t rands = Some i" using board_id_total [OF assms(1,3,4)] by blast
  let ?b = "\<lparr>bd_use_count = 1, bd_moves = 0, bd_history = replicate 9 0, bd_id = i, bd_level = 1, bd_board = replicate 9 (CHR '' ''), bd_waiters = []\<rparr>"
  let ?t = "t\<lparr>tt_heap := (tt_heap t)(a \<mapsto> ?b), tt_all_boards := a # tt_all_boards t\<rparr>"
  have ok: "board_ok ?b" by (simp add: board_ok_def)
  have none: "{s. tt_context t s = Some a} = {}" using assms(1,2) unfolding ttt_inv_def by blast
  have refs: "board_refs (extra(a := 1)) ?t c = (if c = a then 1 else board_refs extra t c)" for c using none by (simp add: board_refs_def)
  have id: "1 \<le> i" "i < 1000" "\<And>c b. tt_heap t c = Some b \<Longrightarrow> bd_id b \<noteq> i"
    using board_id_Some [OF i] search_board_spec(2) [OF assms(1), of "int i"] by auto
  have "ttt_inv (extra(a := 1)) ?t"
    using assms(1,2) ok refs id unfolding ttt_inv_def by (auto split: if_splits)
  then show ?thesis using i by (simp add: get_new_board_def Let_def)
qed

lemma release_board_inv:
  assumes "ttt_inv extra t" "0 < extra a"
  shows "\<exists>t'. release_board a t = Some t' \<and> ttt_inv (extra(a := extra a - 1)) t' \<and> tt_context t' = tt_context t"
proof -
  obtain b where b: "tt_heap t a = Some b" using assms by (fastforce simp: ttt_inv_def)
  have c: "bd_use_count b = int (board_refs extra t a)" "board_ok b" using assms(1) b by (auto simp: ttt_inv_def)
  have less: "board_refs (extra(a := extra a - 1)) t a = board_refs extra t a - 1" using assms(2) by (simp add: board_refs_def)
  show ?thesis
  proof (cases "bd_use_count b = 1")
    case True
    let ?t = "t\<lparr>tt_heap := (tt_heap t)(a := None), tt_all_boards := remove1 a (tt_all_boards t)\<rparr>"
    have one: "extra a = 1" "card {s. tt_context t s = Some a} = 0" using True c(1) assms(2) by (auto simp: board_refs_def)
    have "finite {s. tt_context t s = Some a}" by (rule finite_subset [of _ "dom (tt_context t)"]) (use assms(1) in \<open>auto simp: ttt_inv_def\<close>)
    with one(2) have none: "tt_context t s \<noteq> Some a" for s by auto
    have "board_refs (extra(a := 0)) ?t d = board_refs extra t d" if "d \<noteq> a" for d using that by (simp add: board_refs_def)
    then have "ttt_inv (extra(a := 0)) ?t" using assms(1) none unfolding ttt_inv_def by (auto split: if_splits)
    then show ?thesis using True b one(1) by (simp add: release_board_def)
  next
    case False
    have "board_ok (b\<lparr>bd_use_count := bd_use_count b - 1\<rparr>)" using c(2) by (simp add: board_ok_def)
    moreover have "0 < board_refs extra t a" using assms(1) b by (auto simp: ttt_inv_def)
    ultimately have "ttt_inv (extra(a := extra a - 1)) (put_board a (b\<lparr>bd_use_count := bd_use_count b - 1\<rparr>) t)"
      using put_board_inv [OF assms(1) b, of "b\<lparr>bd_use_count := bd_use_count b - 1\<rparr>" "extra a - 1"] False c(1) less by (simp add: of_nat_diff)
    then show ?thesis using False b by (simp add: release_board_def put_board_def)
  qed
qed

text \<open>A session takes another board, or none: what the tables say of the references is the same when the verb takes over the one of the board that is left.\<close>

lemma context_upd_inv:
  assumes "ttt_inv extra t" "case n of None \<Rightarrow> True | Some a \<Rightarrow> 0 < extra a" "tt_context t s \<noteq> n"
  defines "e1 \<equiv> (case n of None \<Rightarrow> extra | Some a \<Rightarrow> extra(a := extra a - 1))"
  shows "ttt_inv (case tt_context t s of None \<Rightarrow> e1 | Some old \<Rightarrow> e1(old := e1 old + 1)) (t\<lparr>tt_context := (tt_context t)(s := n)\<rparr>)"
proof -
  let ?e = "case tt_context t s of None \<Rightarrow> e1 | Some old \<Rightarrow> e1(old := e1 old + 1)" and ?t = "t\<lparr>tt_context := (tt_context t)(s := n)\<rparr>"
  have fin: "finite {u. tt_context t u = Some a}" for a by (rule finite_subset [of _ "dom (tt_context t)"]) (use assms(1) in \<open>auto simp: ttt_inv_def\<close>)
  have set: "{u. ((tt_context t)(s := n)) u = Some a} = (if n = Some a then insert s {u. tt_context t u = Some a} else {u. tt_context t u = Some a} - {s})" for a by auto
  have users: "card {u. ((tt_context t)(s := n)) u = Some a}
      = (if n = Some a then card {u. tt_context t u = Some a} + 1 else card {u. tt_context t u = Some a} - of_bool (tt_context t s = Some a))" for a
    unfolding set using fin assms(3) by (auto simp: card_insert_if)
  have tc: "tt_context ?t = (tt_context t)(s := n)" by simp
  have pos: "0 < card {u. tt_context t u = Some a}" if "tt_context t s = Some a" for a using fin that by (auto simp: card_gt_0_iff)
  have refs: "board_refs ?e ?t a = board_refs extra t a" for a
    unfolding board_refs_def tc users using assms(2,3) pos [of a] by (auto simp: e1_def split: option.splits)
  have live: "tt_heap t a \<noteq> None" if "n = Some a" for a using assms(1,2) that by (auto simp: ttt_inv_def)
  have "?e a = 0" if "tt_heap t a = None" for a
    using assms(1) that live context_live [OF assms(1), of s a] by (auto simp: ttt_inv_def e1_def split: option.splits)
  moreover have "finite (dom ((tt_context t)(s := n)))" using assms(1) by (cases n) (auto simp: ttt_inv_def)
  ultimately show ?thesis using assms(1) live unfolding ttt_inv_def refs by (auto split: if_splits)
qed

lemma context_set_inv:
  assumes "ttt_inv extra t" "0 < extra a" "tt_context t s \<noteq> Some a"
  shows "\<exists>t'. req_context_set s a t = Some t' \<and> ttt_inv (extra(a := extra a - 1)) t' \<and> tt_context t' = (tt_context t)(s \<mapsto> a)"
proof (cases "tt_context t s")
  case None
  then show ?thesis using context_upd_inv [OF assms(1), of "Some a" s] assms(2,3) by (simp add: req_context_set_def Let_def)
next
  case (Some old)
  let ?e = "extra(a := extra a - 1)"
  have "ttt_inv (?e(old := ?e old + 1)) (t\<lparr>tt_context := (tt_context t)(s \<mapsto> a)\<rparr>)" using context_upd_inv [OF assms(1), of "Some a" s] assms(2,3) Some by simp
  moreover have "(?e(old := ?e old + 1))(old := (?e(old := ?e old + 1)) old - 1) = ?e" by (simp add: fun_upd_idem)
  ultimately show ?thesis using release_board_inv [of "?e(old := ?e old + 1)" "t\<lparr>tt_context := (tt_context t)(s \<mapsto> a)\<rparr>" old] Some assms(3)
    by (auto simp: req_context_set_def Let_def)
qed

lemma session_end_inv:
  assumes "ttt_inv extra t"
  shows "\<exists>t'. session_end s t = Some t' \<and> ttt_inv extra t'"
proof (cases "tt_context t s")
  case None
  then show ?thesis using assms by (simp add: session_end_def)
next
  case (Some a)
  have "ttt_inv (extra(a := extra a + 1)) (t\<lparr>tt_context := (tt_context t)(s := None)\<rparr>)" using context_upd_inv [OF assms, of None s] Some by simp
  from release_board_inv [OF this, of a] Some show ?thesis by (auto simp: session_end_def)
qed

section \<open>Every verb\<close>

datatype ttt_op =
    Tt_new
  | Tt_board
  | Tt_move "string option"
  | Tt_level "string option"
  | Tt_join "string option"
  | Tt_undo
  | Tt_play nat
  | Tt_wait

fun ttt_verb :: "(addr \<times> nat list) \<Rightarrow> (addr \<times> nat list) \<Rightarrow> nat \<Rightarrow> nat \<Rightarrow> ttt_op \<Rightarrow> ttt \<Rightarrow> ttt option" where
  "ttt_verb mem mem' s q Tt_new t = verb_new mem s q t"
| "ttt_verb mem mem' s q Tt_board t = verb_board mem s q t"
| "ttt_verb mem mem' s q (Tt_move index) t = verb_move mem s q index t"
| "ttt_verb mem mem' s q (Tt_level level) t = verb_level mem s q level t"
| "ttt_verb mem mem' s q (Tt_join boardid) t = verb_join mem mem' s q boardid t"
| "ttt_verb mem mem' s q Tt_undo t = verb_undo mem s q t"
| "ttt_verb mem mem' s q (Tt_play rand) t = verb_play mem rand s q t"
| "ttt_verb mem mem' s q Tt_wait t = verb_wait mem s q t"

text \<open>What a call may rely on: two fresh addresses, random numbers that give every remainder, and that the boards are not too many for their numbers.\<close>

definition mem_ok :: "(addr \<times> nat list) \<Rightarrow> (addr \<times> nat list) \<Rightarrow> ttt \<Rightarrow> bool" where
  "mem_ok mem mem' t \<longleftrightarrow> tt_heap t (fst mem) = None \<and> tt_heap t (fst mem') = None \<and> fst mem \<noteq> fst mem' \<and> rands_ok (snd mem) \<and> rands_ok (snd mem')
     \<and> length (tt_all_boards t) < 998"

inductive ttt_reach :: "ttt \<Rightarrow> bool" where
  "ttt_reach \<lparr>tt_heap = Map.empty, tt_all_boards = [], tt_context = Map.empty, tt_log = []\<rparr>"
| "ttt_reach t \<Longrightarrow> mem_ok mem mem' t \<Longrightarrow> ttt_verb mem mem' s q op t = Some t' \<Longrightarrow> ttt_reach t'"
| "ttt_reach t \<Longrightarrow> session_end s t = Some t' \<Longrightarrow> ttt_reach t'"

lemma board_of_req_inv:
  assumes "ttt_inv (\<lambda>_. 0) t" "mem_ok mem mem' t"
  shows "\<exists>t1 a b. board_of_req (fst mem) (snd mem) s t = Some (t1, a) \<and> tt_heap t1 a = Some b \<and> tt_context t1 s = Some a \<and> ttt_inv (\<lambda>_. 0) t1
    \<and> tt_heap t1 (fst mem') = None \<and> length (tt_all_boards t1) < 999"
proof (cases "tt_context t s")
  case (Some a)
  then show ?thesis using context_live [OF assms(1) Some] assms by (auto simp: board_of_req_def mem_ok_def)
next
  case None
  from new_board_inv [OF assms(1), of "fst mem" "snd mem"] assms(2) obtain t1 where
    1: "get_new_board (fst mem) (snd mem) t = Some (t1, fst mem)" "ttt_inv ((\<lambda>_. 0)(fst mem := 1)) t1" "tt_context t1 = tt_context t"
      "tt_all_boards t1 = fst mem # tt_all_boards t" "dom (tt_heap t1) = insert (fst mem) (dom (tt_heap t))" by (auto simp: mem_ok_def)
  from context_set_inv [OF 1(2), of "fst mem" s] None 1(3) obtain t2 where
    2: "req_context_set s (fst mem) t1 = Some t2" "ttt_inv (\<lambda>_. 0) t2" "tt_context t2 = (tt_context t1)(s \<mapsto> fst mem)" by (auto simp: fun_upd_def cong: if_cong)
  have t2: "t2 = t1\<lparr>tt_context := (tt_context t1)(s \<mapsto> fst mem)\<rparr>" using 2(1) None 1(3) by (simp add: req_context_set_def Let_def)
  have "tt_heap t2 (fst mem) \<noteq> None" using context_live [OF 2(2), of s] 2(3) by simp
  moreover have "fst mem' \<notin> dom (tt_heap t1)" unfolding 1(5) using assms(2) by (auto simp: mem_ok_def)
  then have "tt_heap t2 (fst mem') = None" using t2 by (simp add: domIff)
  ultimately show ?thesis using None 1(1,4) 2 t2 assms(2) by (auto simp: board_of_req_def mem_ok_def)
qed

text \<open>A verb: its board is found or made, and then what it does with it keeps the invariant.\<close>

lemma with_board_inv:
  assumes "ttt_inv (\<lambda>_. 0) t" "mem_ok mem mem' t"
    and "\<And>t1 a b. ttt_inv (\<lambda>_. 0) t1 \<Longrightarrow> tt_heap t1 a = Some b \<Longrightarrow> board_ok b \<Longrightarrow> tt_context t1 s = Some a \<Longrightarrow> tt_heap t1 (fst mem') = None \<Longrightarrow>
      length (tt_all_boards t1) < 999 \<Longrightarrow> \<exists>t'. f a b t1 = Some t' \<and> ttt_inv (\<lambda>_. 0) t'"
  shows "\<exists>t'. with_board mem s t f = Some t' \<and> ttt_inv (\<lambda>_. 0) t'"
proof -
  from board_of_req_inv [OF assms(1,2), of s] obtain t1 a b where
    1: "board_of_req (fst mem) (snd mem) s t = Some (t1, a)" "tt_heap t1 a = Some b" "tt_context t1 s = Some a" "ttt_inv (\<lambda>_. 0) t1" "tt_heap t1 (fst mem') = None"
      "length (tt_all_boards t1) < 999" by blast
  moreover from 1 have "board_ok b" by (auto simp: ttt_inv_def)
  ultimately show ?thesis using assms(3) [of t1 a b] by (simp add: with_board_def)
qed

lemma join_inv:
  assumes "ttt_inv (\<lambda>_. 0) t" "tt_context t s = Some a" "tt_heap t n = Some c" "n \<noteq> a"
  shows "\<exists>t'. req_context_set s n (put_board n (c\<lparr>bd_use_count := bd_use_count c + 1\<rparr>) t) = Some t' \<and> ttt_inv (\<lambda>_. 0) t'"
proof -
  have ok: "board_ok (c\<lparr>bd_use_count := bd_use_count c + 1\<rparr>)" "bd_use_count c = int (board_refs (\<lambda>_. 0) t n)" using assms(1,3) by (auto simp: ttt_inv_def board_ok_def)
  have "board_refs ((\<lambda>_. 0)(n := 1)) t n = board_refs (\<lambda>_. 0) t n + 1" by (simp add: board_refs_def)
  with ok have "ttt_inv ((\<lambda>_. 0)(n := 1)) (put_board n (c\<lparr>bd_use_count := bd_use_count c + 1\<rparr>) t)" by (intro put_board_inv [OF assms(1,3)]) simp_all
  from context_set_inv [OF this, of n s] assms(2,4) show ?thesis by (auto simp: put_board_def fun_upd_def cong: if_cong)
qed

lemma join_new_inv:
  assumes "ttt_inv (\<lambda>_. 0) t" "tt_heap t n = None" "length (tt_all_boards t) < 999" "rands_ok rands"
  shows "\<exists>t1 t'. get_new_board n rands t = Some (t1, n) \<and> req_context_set s n t1 = Some t' \<and> ttt_inv (\<lambda>_. 0) t'"
proof -
  from new_board_inv [OF assms] obtain t1 where
    1: "get_new_board n rands t = Some (t1, n)" "ttt_inv ((\<lambda>_. 0)(n := 1)) t1" "tt_context t1 = tt_context t" by blast
  have "tt_context t1 s \<noteq> Some n" using context_live [OF assms(1), of s n] assms(2) 1(3) by auto
  from context_set_inv [OF 1(2) _ this] 1(1) show ?thesis by (auto simp: fun_upd_def cong: if_cong)
qed

lemma verb_move_inv:
  assumes "ttt_inv (\<lambda>_. 0) t" "mem_ok mem mem' t"
  shows "\<exists>t'. verb_move mem s q index t = Some t' \<and> ttt_inv (\<lambda>_. 0) t'"
  unfolding verb_move_def
proof (rule with_board_inv [OF assms], goal_cases)
  case (1 t1 a b)
  let ?i = "case index of None \<Rightarrow> -1 | Some x \<Rightarrow> atoi x"
  show ?case
  proof (cases "?i < 0 \<or> ?i > 8 \<or> winner (bd_board b) \<noteq> NUL \<or> bd_board b ! nat ?i \<noteq> CHR '' ''")
    case True
    then show ?thesis using 1(1) by (auto simp: Let_def)
  next
    case False
    then have "nat ?i < 9" by (simp add: nat_less_iff)
    with False add_move_ok [OF 1(3)] obtain b1 where "add_move b (nat ?i) = Some b1" "board_ok b1" "bd_use_count b1 = bd_use_count b" "bd_id b1 = bd_id b" by blast
    with update_board_inv [OF 1(1,2), of b1] False show ?thesis by (simp add: Let_def)
  qed
qed

lemma verb_play_inv:
  assumes "ttt_inv (\<lambda>_. 0) t" "mem_ok mem mem' t"
  shows "\<exists>t'. verb_play mem rand s q t = Some t' \<and> ttt_inv (\<lambda>_. 0) t'"
  unfolding verb_play_def
proof (rule with_board_inv [OF assms], goal_cases)
  case (1 t1 a b)
  show ?case
  proof (cases "winner (bd_board b) \<noteq> NUL \<or> bd_moves b = 9")
    case True
    then show ?thesis using 1(1) by simp
  next
    case False
    with 1(3) have "bd_moves b < 9" by (simp add: board_ok_def)
    from get_move_ok [OF 1(3) this, of rand] obtain i where i: "i < 9" "get_move rand b = Some i" "bd_board b ! i = CHR '' ''" by blast
    from add_move_ok [OF 1(3) i(1,3)] obtain b1 where b1: "add_move b i = Some b1" "board_ok b1" "bd_use_count b1 = bd_use_count b" "bd_id b1 = bd_id b" by blast
    moreover obtain d where "describe b1 = Some d" using b1(2) by (simp add: describe_def board_ok_def)
    ultimately show ?thesis using update_board_inv [OF 1(1,2), of b1] False i(2) by simp
  qed
qed

lemma verb_undo_inv:
  assumes "ttt_inv (\<lambda>_. 0) t" "mem_ok mem mem' t"
  shows "\<exists>t'. verb_undo mem s q t = Some t' \<and> ttt_inv (\<lambda>_. 0) t'"
  unfolding verb_undo_def
proof (rule with_board_inv [OF assms], goal_cases)
  case (1 t1 a b)
  show ?case
  proof (cases "bd_moves b")
    case 0
    then show ?thesis using 1(1) by simp
  next
    case (Suc m)
    note u = undo_move_ok [OF 1(3) Suc]
    have "length (bd_history b) = 9" "length (bd_board b) = 9" using 1(3) by (simp_all add: board_ok_def)
    then show ?thesis using update_board_inv [OF 1(1,2) u(3)] u(1,2) Suc by (simp add: Let_def)
  qed
qed

lemma verb_join_inv:
  assumes "ttt_inv (\<lambda>_. 0) t" "mem_ok mem mem' t"
  shows "\<exists>t'. verb_join mem mem' s q boardid t = Some t' \<and> ttt_inv (\<lambda>_. 0) t'"
  unfolding verb_join_def
proof (rule with_board_inv [OF assms], goal_cases)
  case (1 t1 a b)
  have r: "rands_ok (snd mem')" using assms(2) by (simp add: mem_ok_def)
  show ?case
  proof (cases boardid)
    case None
    then show ?thesis using 1(1) by simp
  next
    case (Some i)
    show ?thesis
    proof (cases "i = ''none''")
      case True
      from join_new_inv [OF 1(1,5,6) r, of s] show ?thesis using Some True by auto
    next
      case False
      show ?thesis
      proof (cases "search_board t1 (atoi i)")
        case None
        then show ?thesis using 1(1) Some False by simp
      next
        case n: (Some n)
        from search_board_spec(1) [OF 1(1) n] obtain c where c: "tt_heap t1 n = Some c" by blast
        show ?thesis
        proof (cases "n = a")
          case True
          have "req_context_set s a t1 = Some t1" using 1(4) by (simp add: req_context_set_def Let_def fun_upd_idem)
          then show ?thesis using 1(1) n c Some False True by simp
        next
          case na: False
          from join_inv [OF 1(1,4) c na] show ?thesis using n c Some False na by auto
        qed
      qed
    qed
  qed
qed

lemma verb_inv:
  assumes "ttt_inv (\<lambda>_. 0) t" "mem_ok mem mem' t"
  shows "\<exists>t'. ttt_verb mem mem' s q op t = Some t' \<and> ttt_inv (\<lambda>_. 0) t'"
proof (cases op)
  case Tt_new
  show ?thesis unfolding Tt_new ttt_verb.simps verb_new_def
    by (rule with_board_inv [OF assms], rule update_board_inv) (assumption | simp add: board_ok_def)+
next
  case Tt_board
  show ?thesis unfolding Tt_board ttt_verb.simps verb_board_def
    by (rule with_board_inv [OF assms]) (auto simp: describe_def board_ok_def)
next
  case (Tt_level l)
  show ?thesis unfolding Tt_level ttt_verb.simps verb_level_def
  proof (rule with_board_inv [OF assms], goal_cases)
    case (1 t1 a b)
    let ?l = "case l of None \<Rightarrow> -1 | Some x \<Rightarrow> atoi x"
    have "board_ok (b\<lparr>bd_level := nat ?l\<rparr>)" if "\<not> (?l < 1 \<or> ?l > 10)" using 1(3) that by (auto simp: board_ok_def)
    then show ?case using update_board_inv [OF 1(1,2), of "b\<lparr>bd_level := nat ?l\<rparr>"] 1(1) by (simp add: Let_def)
  qed
next
  case Tt_wait
  show ?thesis unfolding Tt_wait ttt_verb.simps verb_wait_def
  proof (rule with_board_inv [OF assms], goal_cases)
    case (1 t1 a b)
    have "board_ok (b\<lparr>bd_waiters := q # bd_waiters b\<rparr>)" using 1(3) by (simp add: board_ok_def)
    then show ?case using put_board_same_inv [of "\<lambda>_. 0" "tt_emit (Tt_addref q) t1" a b] 1(1,2) by (simp add: tt_emit_def)
  qed
qed (use verb_move_inv [OF assms] verb_join_inv [OF assms] verb_undo_inv [OF assms] verb_play_inv [OF assms] in simp_all)

lemma ttt_reach_inv: "ttt_reach t \<Longrightarrow> ttt_inv (\<lambda>_. 0) t"
proof (induction rule: ttt_reach.induct)
  case 1
  show ?case by (simp add: ttt_inv_def)
next
  case (2 t mem mem' s q op t')
  with verb_inv [OF 2(4,2), of s q op] show ?case by auto
next
  case (3 t s t')
  with session_end_inv [OF 3(3), of s] show ?case by auto
qed


lemma demo_mem:
  assumes "ttt_reach t" "finite (dom (tt_heap t))" "length (tt_all_boards t) < 998"
  shows "\<exists>mem mem'. mem_ok mem mem' t"
proof -
  from ex_new_if_finite [OF infinite_UNIV_nat assms(2)] obtain a where a: "a \<notin> dom (tt_heap t)" by blast
  from ex_new_if_finite [OF infinite_UNIV_nat, of "insert a (dom (tt_heap t))"] assms(2) obtain a' where a': "a' \<notin> insert a (dom (tt_heap t))" by blast
  have "rands_ok (map (\<lambda>i. 4 * i) [0..<1000])" by (auto simp: rands_ok_def)
  with a a' assms(3) show ?thesis by (intro exI [of _ "(a, map (\<lambda>i. 4 * i) [0..<1000])"] exI [of _ "(a', map (\<lambda>i. 4 * i) [0..<1000])"]) (auto simp: mem_ok_def)
qed


text \<open>The machine plays a legal move, and the best one it sees: for a consistent board with a free place its choice ends, whatever the random number, with a free place;
  at any level above the first no other free place has a better score in its analysis, and so, at the second level, it takes a winning move when there is one.\<close>

lemma machine_plays_best_move:
  assumes "board_ok b" "bd_moves b < 9"
  shows "\<exists>i < 9. get_move rand b = Some i \<and> bd_board b ! i = CHR '' ''
    \<and> (1 < bd_level b \<longrightarrow> (\<forall>j < 9. bd_board b ! j = CHR '' '' \<longrightarrow> place_score b j \<le> place_score b i))
    \<and> (bd_level b = 2 \<and> (\<exists>j < 9. bd_board b ! j = CHR '' '' \<and> winner ((bd_board b)[j := color (bd_moves b)]) = color (bd_moves b))
        \<longrightarrow> winner ((bd_board b)[i := color (bd_moves b)]) = color (bd_moves b))"
proof -
  from get_move_ok [OF assms, of rand] obtain i where
    i: "i < 9" "get_move rand b = Some i" "bd_board b ! i = CHR '' ''" "0 < depth_of b \<longrightarrow> (\<forall>j < 9. bd_board b ! j = CHR '' '' \<longrightarrow> place_score b j \<le> place_score b i)" by (elim exE conjE)
  have deep: "0 < depth_of b" if "1 < bd_level b" using that assms(2) by (simp add: depth_of_def)
  have "depth_of b = 1" if "bd_level b = 2" using that assms(2) by (simp add: depth_of_def)
  then have two: "place_score b j = (if winner ((bd_board b)[j := color (bd_moves b)]) = color (bd_moves b) then 1 else 0)" if "bd_level b = 2" for j
    using that by (simp add: place_score_def)
  have "winner ((bd_board b)[i := color (bd_moves b)]) = color (bd_moves b)"
    if "bd_level b = 2" "j < 9" "bd_board b ! j = CHR '' ''" "winner ((bd_board b)[j := color (bd_moves b)]) = color (bd_moves b)" for j
  proof -
    have "place_score b j \<le> place_score b i" using i(4) deep that by simp
    then show ?thesis using two [OF that(1)] that(4) by (simp split: if_splits)
  qed
  with i deep show ?thesis by (intro exI [of _ i]) auto
qed

definition demo_board :: board where
  "demo_board = \<lparr>bd_use_count = 1, bd_moves = 4, bd_history = [3, 0, 4, 1, 0, 0, 0, 0, 0], bd_id = 7, bd_level = 2, bd_board = ''00 XX    '', bd_waiters = []\<rparr>"

lemma color_Suc: "color 0 = CHR ''X''" "color (Suc 0) = CHR ''0''" "color (Suc (Suc n)) = color n"
  by (simp_all add: color_def)

lemma demo_board_ok: "board_ok demo_board"
  by (simp add: demo_board_def board_ok_def color_Suc numeral_nat All_less_Suc)

section \<open>Moves undone, waiters, threats\<close>

text \<open>Undoing gives back the board before the move.\<close>

lemma move_undo_roundtrip:
  assumes "board_ok b" "i < 9" "bd_board b ! i = CHR '' ''" "add_move b i = Some b'"
  shows "bd_moves b' - 1 = bd_moves b \<and> bd_history b' ! bd_moves b = i \<and> (bd_board b')[bd_history b' ! (bd_moves b' - 1) := CHR '' ''] = bd_board b"
  using assms free_cell_moves [OF assms(1-3)]
  by (auto simp: add_move_def Let_def board_ok_def list_update_same_conv split: if_splits)

text \<open>A change of the board answers each of its waiters, once, and releases it.\<close>

lemma changed_answers_waiters:
  assumes "tt_heap t a = Some b" "board_ok b" "distinct (bd_waiters b)"
  shows "\<exists>t' d l. changed a reason t = Some t' \<and> describe b = Some d \<and> tt_log t' = tt_log t @ l
    \<and> (\<forall>w. count_list l (Tt_success w (Some d) (Some reason)) = of_bool (w \<in> set (bd_waiters b)) \<and> count_list l (Tt_unref w) = of_bool (w \<in> set (bd_waiters b)))
    \<and> tt_heap t' a = Some (b\<lparr>bd_waiters := []\<rparr>)"
proof -
  obtain d where d: "describe b = Some d" using assms(2) by (simp add: describe_def board_ok_def)
  have "distinct ws \<Longrightarrow> count_list (concat (map (\<lambda>w. [Tt_success w (Some d) (Some reason), Tt_unref w]) ws)) (Tt_success w (Some d) (Some reason)) = of_bool (w \<in> set ws)
      \<and> count_list (concat (map (\<lambda>w. [Tt_success w (Some d) (Some reason), Tt_unref w]) ws)) (Tt_unref w) = of_bool (w \<in> set ws)" for ws w
    by (induction ws) auto
  then show ?thesis using assms(1,3) d by (simp add: changed_def count_list_append)
qed

text \<open>The last session that leaves a board with waiters releases it, but nobody answers or releases the waiters.\<close>

lemma released_board_forgets_waiters:
  assumes "tt_heap t a = Some b" "bd_use_count b = 1"
  shows "\<exists>t'. release_board a t = Some t' \<and> tt_heap t' a = None \<and> tt_log t' = tt_log t"
  using assms by (simp add: release_board_def)

text \<open>The analysis switches to pieces that are not those of the opponent on the board, so that it does not see the opponent's threats: here the opponent has two in the first
  line, and a move elsewhere is not scored as lost although the opponent's next move wins; on a board with the letter O it is.\<close>

lemma opponent_pieces_differ: "opponent (color 0) \<noteq> color 1" "opponent (color 1) \<noteq> color 0"
  by (simp_all add: color_def opponent_def char_of_def bit_simps)

lemma threat_not_seen:
  "score_position 1 ''00 XX   X'' CHR ''X'' = 0" "winner ''000XX   X'' = color 1"
  "score_position 1 ''OO XX   X'' CHR ''X'' = -1"
  by code_simp+

end
