(* ===== verification/Api_Dbus.thy ===== *)
theory Api_Dbus
  imports Api_Ws
begin

text \<open>
  APIs over D-Bus, \<^verbatim>\<open>src/src/afb-api-dbus.c\<close>: the client that forwards calls to the object of another binder and the server of that object.

  The bus library is not modelled: a message is its header and the list of its arguments, with their D-Bus types, of which a read takes a beginning; what the library answers is an argument of the
  operations. What the code does to requests and events is recorded with the actions of \<open>Api_Ws\<close>; the references
  of the listeners of the event store are those of \<open>Evt\<close> and are not repeated. \<open>None\<close> is an access out of an array or to released memory.
\<close>

datatype bus_value = By "8 word" | In "32 word" | Ui "32 word" | Ut "64 word" | St string

record bus_message =
  bm_destination :: string
  bm_sender :: string
  bm_path :: string
  bm_interface :: string
  bm_member :: string
  bm_body :: "bus_value list"
  bm_cookie :: "64 word"
  bm_expect_reply :: bool

datatype bus_reply = Br_return "bus_value list" | Br_error string

abbreviation (input) "DBUS_RETOK \<equiv> 1 :: 8 word"
abbreviation (input) "DBUS_RETERR \<equiv> 2 :: 8 word"
abbreviation (input) "DBUS_RETRAW \<equiv> 3 :: 8 word"

section \<open>Names\<close>

definition DEFAULT_PATH_PREFIX :: string where
  "DEFAULT_PATH_PREFIX = ''/org/agl/afb/api/''"

text \<open>\<open>strcpy\<close> to an offset of a block of memory.\<close>

definition strcpy_at :: "nat \<Rightarrow> string \<Rightarrow> string \<Rightarrow> string option" where
  "strcpy_at off s mem = (if off + length s + 1 \<le> length mem then Some (take off mem @ s @ [NUL] @ drop (off + length s + 1) mem) else None)"

text \<open>The loop that makes the slashes dots.\<close>

function slashes_to_dots :: "string \<Rightarrow> string" where
  "slashes_to_dots s =
     (case first_index (\<lambda>c. c = CHR ''/'') s of None \<Rightarrow> s | Some i \<Rightarrow> take i s @ CHR ''.'' # slashes_to_dots (drop (i + 1) s))"
  by auto
termination by (relation "measure length") (auto dest: first_index_Some(1))

record dbus_names =
  dn_system :: bool
  dn_path :: string
  dn_name :: string
  dn_api :: string

text \<open>The path and the name are in the block behind the structure, of \<open>1 + 2 * pathlen\<close> bytes; the results are read from it.\<close>

definition make_api_dbus_3 :: "bool \<Rightarrow> bool \<Rightarrow> bool \<Rightarrow> string \<Rightarrow> nat \<Rightarrow> (errno + dbus_names) option" where
  "make_api_dbus_3 calloc_ok bus_ok system path pathlen =
     (if \<not> calloc_ok then Some (Inl ENOMEM)
      else do {
        m1 \<leftarrow> strcpy_at 0 path (replicate (1 + pathlen + pathlen) NUL);
        let p = cstr m1;
        case strrchr (CHR ''/'') p of
          None \<Rightarrow> Some (Inl EINVAL)
        | Some i \<Rightarrow>
            let api = drop (i + 1) p in
            if \<not> afb_apis_is_valid_api_name api then Some (Inl EINVAL)
            else do {
              m2 \<leftarrow> strcpy_at (pathlen + 1) (drop 1 path) m1;
              let name = slashes_to_dots (cstr (drop (pathlen + 1) m2));
              Some (if bus_ok then Inr \<lparr>dn_system = system, dn_path = cstr m2, dn_name = name, dn_api = api\<rparr> else Inl EINVAL) } })"

definition make_api_dbus_2 :: "bool \<Rightarrow> bool \<Rightarrow> bool \<Rightarrow> string \<Rightarrow> (errno + dbus_names) option" where
  "make_api_dbus_2 calloc_ok bus_ok system path =
     (if path = [] then Some (Inl EINVAL)
      else if path ! 0 = CHR ''/'' then make_api_dbus_3 calloc_ok bus_ok system path (length path)
      else make_api_dbus_3 calloc_ok bus_ok system (DEFAULT_PATH_PREFIX @ path) (length path + length DEFAULT_PATH_PREFIX))"

text \<open>The comparison is of the first \<open>preflen\<close> characters only.\<close>

definition make_api_dbus :: "bool \<Rightarrow> bool \<Rightarrow> string \<Rightarrow> (errno + dbus_names) option" where
  "make_api_dbus calloc_ok bus_ok path =
     (case first_index (\<lambda>c. c = CHR '':'') path of
        None \<Rightarrow> make_api_dbus_2 calloc_ok bus_ok False path
      | Some preflen \<Rightarrow>
          if take preflen path = take preflen ''system'' then make_api_dbus_2 calloc_ok bus_ok True (drop (preflen + 1) path)
          else if take preflen path = take preflen ''user'' then make_api_dbus_2 calloc_ok bus_ok False (drop (preflen + 1) path)
          else Some (Inl EINVAL))"

section \<open>The client\<close>

text \<open>A memo is at an address, which the bus library gets for the reply.\<close>

record 'q dbus_memo =
  dm_addr :: addr
  dm_req :: 'q
  dm_msgid :: "64 word"

record 'e dbus_event =
  de_event :: 'e
  de_id :: "32 word"
  de_refcount :: int

record ('q, 'e, 'j) api_dbus =
  ad_names :: dbus_names
  ad_memos :: "'q dbus_memo list"
  ad_events :: "'e dbus_event list"
  ad_log :: "('q, 'e, 'j) aw_action list"
  ad_sent :: "bus_message list"

definition ad_emit :: "('q, 'e, 'j) aw_action list \<Rightarrow> ('q, 'e, 'j) api_dbus \<Rightarrow> ('q, 'e, 'j) api_dbus" where
  "ad_emit acts w = w\<lparr>ad_log := ad_log w @ acts\<rparr>"

definition api_dbus_client_memo_make :: "addr option \<Rightarrow> 'q \<Rightarrow> ('q, 'e, 'j) api_dbus \<Rightarrow> ('q, 'e, 'j) api_dbus" where
  "api_dbus_client_memo_make malloc req w =
     (case malloc of None \<Rightarrow> w | Some a \<Rightarrow> ad_emit [Req_addref req] (w\<lparr>ad_memos := \<lparr>dm_addr = a, dm_req = req, dm_msgid = 0\<rparr> # ad_memos w\<rparr>))"

definition memo_at :: "addr \<Rightarrow> ('q, 'e, 'j) api_dbus \<Rightarrow> 'q dbus_memo option" where
  "memo_at a w = find (\<lambda>m. dm_addr m = a) (ad_memos w)"

definition api_dbus_client_memo_destroy :: "addr \<Rightarrow> ('q, 'e, 'j) api_dbus \<Rightarrow> ('q, 'e, 'j) api_dbus option" where
  "api_dbus_client_memo_destroy a w = do { m \<leftarrow> memo_at a w; Some (ad_emit [Req_unref (dm_req m)] (w\<lparr>ad_memos := remove1 m (ad_memos w)\<rparr>)) }"

definition api_dbus_client_memo_search :: "64 word \<Rightarrow> ('q, 'e, 'j) api_dbus \<Rightarrow> 'q dbus_memo option" where
  "api_dbus_client_memo_search msgid w = find (\<lambda>m. dm_msgid m = msgid) (ad_memos w)"

definition text_or_null :: "string \<Rightarrow> string option" where
  "text_or_null s = (if s \<noteq> [] then Some s else None)"

definition api_dbus_client_on_reply :: "(string \<Rightarrow> 'j option) \<Rightarrow> bus_value list \<Rightarrow> addr \<Rightarrow> ('q, 'e, 'j) api_dbus \<Rightarrow> ('q, 'e, 'j) api_dbus option" where
  "api_dbus_client_on_reply parse body a w =
     do { m \<leftarrow> memo_at a w;
          let req = dm_req m;
          api_dbus_client_memo_destroy a
            (ad_emit (case body of
                By type # St first # St second # Ui flags # _ \<Rightarrow>
                  [Set_flags req flags,
                   if type = DBUS_RETOK then Req_success req (parse first) (text_or_null second)
                   else if type = DBUS_RETERR then Req_fail req first (text_or_null second)
                   else if type = DBUS_RETRAW then Req_send req first (length first)
                   else Req_fail req ''error'' (Some ''dbus link broken'')]
              | _ \<Rightarrow> [Req_fail req ''error'' (Some ''dbus error'')]) w) }"

text \<open>What the library answers: whether the message can be made, filled and sent, and the cookie that it gets.\<close>

record bus_io =
  io_new :: bool
  io_append :: bool
  io_send :: bool
  io_cookie :: "64 word option"

definition api_dbus_client_call ::
  "bus_io \<Rightarrow> addr option \<Rightarrow> sessions \<Rightarrow> 'q \<Rightarrow> afb_context \<Rightarrow> string \<Rightarrow> string \<Rightarrow> nat \<Rightarrow> ('q, 'e, 'j) api_dbus \<Rightarrow> ('q, 'e, 'j) api_dbus option" where
  "api_dbus_client_call io malloc s req x raw verb lenverb w =
     (let w1 = api_dbus_client_memo_make malloc req w in
      case malloc of
        None \<Rightarrow> Some (ad_emit [Req_fail req ''error'' (Some ''out of memory'')] w1)
      | Some a \<Rightarrow>
          (let failed = (\<lambda>w. api_dbus_client_memo_destroy a (ad_emit [Req_fail req ''error'' (Some ''dbus error'')] w)) in
           if \<not> io_new io then failed w1
           else do {
             c \<leftarrow> ac_session x;
             uuid \<leftarrow> ctxClientGetUuid s c;
             let msg = \<lparr>bm_destination = dn_name (ad_names w), bm_sender = [], bm_path = dn_path (ad_names w), bm_interface = dn_name (ad_names w),
                        bm_member = cstr (take lenverb verb), bm_body = [St raw, St uuid, Ui (context_flags x)],
                        bm_cookie = (case io_cookie io of None \<Rightarrow> 0 | Some k \<Rightarrow> k), bm_expect_reply = True\<rparr>;
             if \<not> io_append io then failed w1
             else if \<not> io_send io then failed w1
             else let w2 = w1\<lparr>ad_sent := ad_sent w1 @ [msg]\<rparr> in
               case io_cookie io of
                 None \<Rightarrow> failed w2
               | Some k \<Rightarrow> Some (w2\<lparr>ad_memos := (hd (ad_memos w2))\<lparr>dm_msgid := k\<rparr> # tl (ad_memos w2)\<rparr>) }))"

definition api_dbus_service_start :: "bool \<Rightarrow> int" where
  "api_dbus_service_start onneed = (if onneed then 0 else -1)"

definition api_dbus_client_on_broadcast_event :: "(string \<Rightarrow> 'j option) \<Rightarrow> bus_value list \<Rightarrow> ('q, 'e, 'j) api_dbus \<Rightarrow> ('q, 'e, 'j) api_dbus" where
  "api_dbus_client_on_broadcast_event parse body w = (case body of St event # St data # _ \<Rightarrow> ad_emit [Evt_broadcast event (parse data)] w | _ \<Rightarrow> w)"

definition api_dbus_client_event_search :: "('e \<Rightarrow> string) \<Rightarrow> 32 word \<Rightarrow> string \<Rightarrow> ('q, 'e, 'j) api_dbus \<Rightarrow> nat option" where
  "api_dbus_client_event_search evname eid name w = first_index (\<lambda>ev. de_id ev = eid \<and> evname (de_event ev) = name) (ad_events w)"

definition api_dbus_client_event_create :: "('e, 'j) aw_env \<Rightarrow> 32 word \<Rightarrow> string \<Rightarrow> ('q, 'e, 'j) api_dbus \<Rightarrow> ('q, 'e, 'j) api_dbus" where
  "api_dbus_client_event_create env eid name w =
     (case api_dbus_client_event_search (ev_name env) eid name w of
        Some i \<Rightarrow> w\<lparr>ad_events := (ad_events w)[i := (ad_events w ! i)\<lparr>de_refcount := de_refcount (ad_events w ! i) + 1\<rparr>]\<rparr>
      | None \<Rightarrow>
          if \<not> ev_malloc env then w
          else (case ev_create env name of
              None \<Rightarrow> w
            | Some e \<Rightarrow> w\<lparr>ad_events := \<lparr>de_event = e, de_id = eid, de_refcount = 1\<rparr> # ad_events w\<rparr>))"

definition api_dbus_client_event_drop :: "('e, 'j) aw_env \<Rightarrow> 32 word \<Rightarrow> string \<Rightarrow> ('q, 'e, 'j) api_dbus \<Rightarrow> ('q, 'e, 'j) api_dbus" where
  "api_dbus_client_event_drop env eid name w =
     (case api_dbus_client_event_search (ev_name env) eid name w of
        None \<Rightarrow> w
      | Some i \<Rightarrow>
          (let ev = (ad_events w ! i)\<lparr>de_refcount := de_refcount (ad_events w ! i) - 1\<rparr> in
           if de_refcount ev \<noteq> 0 then w\<lparr>ad_events := (ad_events w)[i := ev]\<rparr>
           else ad_emit [Evt_drop (de_event ev)] (w\<lparr>ad_events := take i (ad_events w) @ drop (i + 1) (ad_events w)\<rparr>)))"

definition api_dbus_client_event_push :: "('e, 'j) aw_env \<Rightarrow> 32 word \<Rightarrow> string \<Rightarrow> string \<Rightarrow> ('q, 'e, 'j) api_dbus \<Rightarrow> ('q, 'e, 'j) api_dbus" where
  "api_dbus_client_event_push env eid name data w =
     (case api_dbus_client_event_search (ev_name env) eid name w of
        None \<Rightarrow> w | Some i \<Rightarrow> ad_emit [Evt_push (de_event (ad_events w ! i)) (ev_parse env data)] w)"

definition api_dbus_client_event_subscribe :: "('e, 'j) aw_env \<Rightarrow> 32 word \<Rightarrow> string \<Rightarrow> 64 word \<Rightarrow> ('q, 'e, 'j) api_dbus \<Rightarrow> ('q, 'e, 'j) api_dbus" where
  "api_dbus_client_event_subscribe env eid name msgid w =
     (case (api_dbus_client_event_search (ev_name env) eid name w, api_dbus_client_memo_search msgid w) of
        (Some i, Some m) \<Rightarrow> ad_emit [Req_subscribe (dm_req m) (de_event (ad_events w ! i))] w | _ \<Rightarrow> w)"

definition api_dbus_client_event_unsubscribe :: "('e, 'j) aw_env \<Rightarrow> 32 word \<Rightarrow> string \<Rightarrow> 64 word \<Rightarrow> ('q, 'e, 'j) api_dbus \<Rightarrow> ('q, 'e, 'j) api_dbus" where
  "api_dbus_client_event_unsubscribe env eid name msgid w =
     (case (api_dbus_client_event_search (ev_name env) eid name w, api_dbus_client_memo_search msgid w) of
        (Some i, Some m) \<Rightarrow> ad_emit [Req_unsubscribe (dm_req m) (de_event (ad_events w ! i))] w | _ \<Rightarrow> w)"

text \<open>The second component is the returned value: whether the message was for this api.\<close>

definition api_dbus_client_on_manage_event :: "('e, 'j) aw_env \<Rightarrow> bus_message \<Rightarrow> ('q, 'e, 'j) api_dbus \<Rightarrow> ('q, 'e, 'j) api_dbus \<times> int" where
  "api_dbus_client_on_manage_event env m w =
     (if bm_interface m \<noteq> dn_name (ad_names w) then (w, 0)
      else if bm_member m \<noteq> ''event'' then (w, 0)
      else if bm_expect_reply m then (w, 0)
      else (case bm_body m of
          By order # In eid # St name # St data # Ut msgid # _ \<Rightarrow>
            (let c = char_of (unat order) in
             if c = CHR ''+'' then api_dbus_client_event_create env eid name w
             else if c = CHR ''-'' then api_dbus_client_event_drop env eid name w
             else if c = CHR ''!'' then api_dbus_client_event_push env eid name data w
             else if c = CHR ''S'' then api_dbus_client_event_subscribe env eid name msgid w
             else if c = CHR ''U'' then api_dbus_client_event_unsubscribe env eid name msgid w
             else w)
        | _ \<Rightarrow> w, 1))"

text \<open>\<open>match_ok\<close> and \<open>object_ok\<close> are the answers of the bus. The last component tells whether the api structure stays in memory.\<close>

definition afb_api_dbus_add_client ::
  "bool \<Rightarrow> bool \<Rightarrow> bool \<Rightarrow> bool \<Rightarrow> bool \<Rightarrow> bool \<Rightarrow> string \<Rightarrow> nat apis \<Rightarrow> nat \<Rightarrow> (nat apis \<times> ('q, 'e, 'j) api_dbus option \<times> int \<times> bool) option" where
  "afb_api_dbus_add_client calloc_ok bus_ok asprintf_ok match_ok object_ok realloc_ok path apis self =
     do { r \<leftarrow> make_api_dbus calloc_ok bus_ok path;
          Some (case r of
              Inl _ \<Rightarrow> (apis, None, -1, False)
            | Inr n \<Rightarrow>
                if \<not> asprintf_ok then (apis, None, -1, True)
                else if \<not> match_ok then (apis, None, -1, True)
                else if \<not> object_ok then (apis, None, -1, True)
                else (case afb_apis_add apis (dn_api n) self realloc_ok of
                    (apis', rc) \<Rightarrow>
                      if rc < 0 then (apis', None, -1, False)
                      else (apis', Some \<lparr>ad_names = n, ad_memos = [], ad_events = [], ad_log = [], ad_sent = []\<rparr>, 0, True))) }"

section \<open>Destinations and listeners of the server\<close>

record destination =
  dt_addr :: addr
  dt_refcount :: int
  dt_name :: string

record dbus_listener =
  dl_destination :: addr
  dl_listener :: addr

text \<open>The listeners are at addresses; \<open>ds_cookies\<close> is the cookies that this api sets, by session and destination.\<close>

record dbus_server =
  ds_names :: dbus_names
  ds_sessions :: sessions
  ds_destinations :: "destination list"
  ds_listeners :: "addr \<rightharpoonup> dbus_listener"
  ds_cookies :: "addr \<times> addr \<rightharpoonup> addr"
  ds_sent :: "bus_message list"
  ds_replies :: "(64 word \<times> bus_reply) list"

definition afb_api_dbus_server_destination_get :: "addr option \<Rightarrow> string \<Rightarrow> dbus_server \<Rightarrow> dbus_server \<times> addr option" where
  "afb_api_dbus_server_destination_get malloc sender v =
     (case first_index (\<lambda>d. dt_name d = sender) (ds_destinations v) of
        Some i \<Rightarrow>
          (let d = (ds_destinations v ! i)\<lparr>dt_refcount := dt_refcount (ds_destinations v ! i) + 1\<rparr>
           in (v\<lparr>ds_destinations := (ds_destinations v)[i := d]\<rparr>, Some (dt_addr d)))
      | None \<Rightarrow>
          (case malloc of
             None \<Rightarrow> (v, None)
           | Some a \<Rightarrow> (v\<lparr>ds_destinations := \<lparr>dt_addr = a, dt_refcount = 1, dt_name = sender\<rparr> # ds_destinations v\<rparr>, Some a)))"

definition afb_api_dbus_server_destination_unref :: "addr \<Rightarrow> dbus_server \<Rightarrow> dbus_server option" where
  "afb_api_dbus_server_destination_unref a v =
     (case first_index (\<lambda>d. dt_addr d = a) (ds_destinations v) of
        None \<Rightarrow> None
      | Some i \<Rightarrow>
          (let d = (ds_destinations v ! i)\<lparr>dt_refcount := dt_refcount (ds_destinations v ! i) - 1\<rparr> in
           Some (if dt_refcount d = 0 then v\<lparr>ds_destinations := take i (ds_destinations v) @ drop (i + 1) (ds_destinations v)\<rparr>
                 else v\<lparr>ds_destinations := (ds_destinations v)[i := d]\<rparr>)))"

text \<open>The cookie of a session is freed when the session is closed.\<close>

definition afb_api_dbus_server_listener_free :: "addr \<Rightarrow> dbus_server \<Rightarrow> dbus_server option" where
  "afb_api_dbus_server_listener_free l v =
     do { li \<leftarrow> ds_listeners v l;
          v1 \<leftarrow> afb_api_dbus_server_destination_unref (dl_destination li) v;
          Some (v1\<lparr>ds_listeners := (ds_listeners v1)(l := None)\<rparr>) }"

definition cookie_free :: "addr \<Rightarrow> addr \<Rightarrow> dbus_server \<Rightarrow> dbus_server option" where
  "cookie_free session d v =
     (case ds_cookies v (session, d) of
        None \<Rightarrow> Some v
      | Some l \<Rightarrow> afb_api_dbus_server_listener_free l (v\<lparr>ds_cookies := (ds_cookies v)((session, d) := None)\<rparr>))"

text \<open>The memory for a destination and for a listener, the listener of the event store, and whether the cookie can be set.\<close>

record listener_env =
  le_destination :: "addr option"
  le_listener :: "addr option"
  le_evt :: "addr option"
  le_cookie :: bool

definition afb_api_dbus_server_listerner_get :: "listener_env \<Rightarrow> string \<Rightarrow> addr \<Rightarrow> dbus_server \<Rightarrow> (dbus_server \<times> addr option) option" where
  "afb_api_dbus_server_listerner_get env sender session v =
     (case afb_api_dbus_server_destination_get (le_destination env) sender v of
        (v1, None) \<Rightarrow> Some (v1, None)
      | (v1, Some d) \<Rightarrow>
          (case ds_cookies v1 (session, d) of
             Some l \<Rightarrow> do { v2 \<leftarrow> afb_api_dbus_server_destination_unref d v1; Some (v2, Some l) }
           | None \<Rightarrow>
               (case (le_listener env, le_evt env, le_cookie env) of
                  (Some l, Some e, True) \<Rightarrow>
                    Some (v1\<lparr>ds_listeners := (ds_listeners v1)(l \<mapsto> \<lparr>dl_destination = d, dl_listener = e\<rparr>), ds_cookies := (ds_cookies v1)((session, d) \<mapsto> l)\<rparr>, Some l)
                | _ \<Rightarrow> do { v2 \<leftarrow> afb_api_dbus_server_destination_unref d v1; Some (v2, None) })))"

section \<open>Requests of the server\<close>

record 'j dbus_req =
  dq_context :: afb_context
  dq_message :: bus_message
  dq_request :: string
  dq_json :: "'j option"
  dq_listener :: addr
  dq_refcount :: int

definition dbus_req_addref :: "'j dbus_req \<Rightarrow> 'j dbus_req" where
  "dbus_req_addref r = r\<lparr>dq_refcount := dq_refcount r + 1\<rparr>"

text \<open>The second component is whether the request is still there.\<close>

definition dbus_req_unref :: "int \<Rightarrow> string \<Rightarrow> dbus_server \<times> 'j dbus_req \<Rightarrow> (dbus_server \<times> 'j dbus_req option) option" where
  "dbus_req_unref now newuuid = (\<lambda>(v, r).
     (let r1 = r\<lparr>dq_refcount := dq_refcount r - 1\<rparr> in
      if dq_refcount r1 \<noteq> 0 then Some (v, Some r1)
      else do { (s1, x) \<leftarrow> afb_context_disconnect (ds_sessions v) (dq_context r1) now newuuid; Some (v\<lparr>ds_sessions := s1\<rparr>, None) }))"

definition dbus_req_json :: "(string \<Rightarrow> 'j option) \<Rightarrow> (string \<Rightarrow> 'j) \<Rightarrow> 'j dbus_req \<Rightarrow> 'j dbus_req \<times> 'j option" where
  "dbus_req_json parse new_string r =
     (if dq_json r = None then
        (let j = parse (dq_request r); j' = (if j = None \<and> dq_request r \<noteq> ''null'' then Some (new_string (dq_request r)) else j) in (r\<lparr>dq_json := j'\<rparr>, j'))
      else (r, dq_json r))"

definition dbus_req_get :: "(string \<Rightarrow> 'j option) \<Rightarrow> (string \<Rightarrow> 'j) \<Rightarrow> ('j option \<Rightarrow> string \<Rightarrow> 'j option option)
  \<Rightarrow> ('j option \<Rightarrow> string option) \<Rightarrow> 'j dbus_req \<Rightarrow> string \<Rightarrow> 'j dbus_req \<times> afb_arg" where
  "dbus_req_get parse new_string field to_str r name =
     (case dbus_req_json parse new_string r of (r1, j) \<Rightarrow> (r1, afb_msg_json_get_arg field to_str j name))"

definition dbus_req_reply :: "'j dbus_req \<Rightarrow> 8 word \<Rightarrow> string option \<Rightarrow> string option \<Rightarrow> dbus_server \<Rightarrow> dbus_server" where
  "dbus_req_reply r type first second v =
     v\<lparr>ds_replies := ds_replies v @ [(bm_cookie (dq_message r),
         Br_return [By type, St (case first of None \<Rightarrow> [] | Some s \<Rightarrow> s), St (case second of None \<Rightarrow> [] | Some s \<Rightarrow> s), Ui (context_flags (dq_context r))])]\<rparr>"

definition dbus_req_success :: "('j option \<Rightarrow> string) \<Rightarrow> 'j dbus_req \<Rightarrow> 'j option \<Rightarrow> string option \<Rightarrow> dbus_server \<Rightarrow> dbus_server" where
  "dbus_req_success print r obj info = dbus_req_reply r DBUS_RETOK (Some (print obj)) info"

definition dbus_req_fail :: "'j dbus_req \<Rightarrow> string \<Rightarrow> string option \<Rightarrow> dbus_server \<Rightarrow> dbus_server" where
  "dbus_req_fail r status info = dbus_req_reply r DBUS_RETERR (Some status) info"

definition dbus_req_raw :: "'j dbus_req \<Rightarrow> string \<times> nat" where
  "dbus_req_raw r = (dq_request r, length (dq_request r))"

definition dbus_req_send :: "'j dbus_req \<Rightarrow> string \<Rightarrow> dbus_server \<Rightarrow> dbus_server" where
  "dbus_req_send r buffer = dbus_req_reply r DBUS_RETRAW (Some (cstr buffer)) (Some [])"

section \<open>Events of the server\<close>

definition afb_api_dbus_server_event_send :: "bus_io \<Rightarrow> addr \<Rightarrow> char \<Rightarrow> string \<Rightarrow> 32 word \<Rightarrow> string \<Rightarrow> 64 word \<Rightarrow> dbus_server \<Rightarrow> dbus_server option" where
  "afb_api_dbus_server_event_send io d order event eid data msgid v =
     do { dest \<leftarrow> find (\<lambda>e. dt_addr e = d) (ds_destinations v);
          Some (if io_new io \<and> io_append io \<and> io_send io
            then v\<lparr>ds_sent := ds_sent v @ [\<lparr>bm_destination = dt_name dest, bm_sender = [], bm_path = dn_path (ds_names v), bm_interface = dn_name (ds_names v),
                     bm_member = ''event'', bm_body = [By (word_of_nat (of_char order)), In eid, St event, St data, Ut msgid], bm_cookie = 0, bm_expect_reply = False\<rparr>]\<rparr>
            else v) }"

definition afb_api_dbus_server_event_add where
  "afb_api_dbus_server_event_add io d event eid = afb_api_dbus_server_event_send io d (CHR ''+'') event eid [] 0"

definition afb_api_dbus_server_event_remove where
  "afb_api_dbus_server_event_remove io d event eid = afb_api_dbus_server_event_send io d (CHR ''-'') event eid [] 0"

definition afb_api_dbus_server_event_push :: "('j option \<Rightarrow> string) \<Rightarrow> bus_io \<Rightarrow> addr \<Rightarrow> string \<Rightarrow> 32 word \<Rightarrow> 'j option \<Rightarrow> dbus_server \<Rightarrow> dbus_server option" where
  "afb_api_dbus_server_event_push print io d event eid obj = afb_api_dbus_server_event_send io d (CHR ''!'') event eid (print obj) 0"

text \<open>A signal to whoever listens: its body is that of the client's callback for broadcasts.\<close>

definition afb_api_dbus_server_event_broadcast :: "('j option \<Rightarrow> string) \<Rightarrow> bool \<Rightarrow> string \<Rightarrow> 'j option \<Rightarrow> dbus_server \<Rightarrow> dbus_server" where
  "afb_api_dbus_server_event_broadcast print emit_ok event obj v =
     (if emit_ok
      then v\<lparr>ds_sent := ds_sent v @ [\<lparr>bm_destination = [], bm_sender = [], bm_path = dn_path (ds_names v), bm_interface = dn_name (ds_names v), bm_member = ''broadcast'',
               bm_body = [St event, St (print obj)], bm_cookie = 0, bm_expect_reply = False\<rparr>]\<rparr>
      else v)"

text \<open>\<open>add_watch\<close> and \<open>remove_watch\<close> are the functions of the event store, which may send messages; the listener of the request is read first.\<close>

definition dbus_req_subscribe ::
  "(addr \<Rightarrow> dbus_server \<Rightarrow> dbus_server \<times> int) \<Rightarrow> bus_io \<Rightarrow> 'j dbus_req \<Rightarrow> string \<Rightarrow> 32 word \<Rightarrow> dbus_server \<Rightarrow> (dbus_server \<times> int) option" where
  "dbus_req_subscribe add_watch io r event eid v =
     do { l \<leftarrow> ds_listeners v (dq_listener r);
          let (v1, rc) = add_watch (dl_listener l) v;
          v2 \<leftarrow> afb_api_dbus_server_event_send io (dl_destination l) (CHR ''S'') event eid [] (bm_cookie (dq_message r)) v1;
          Some (v2, rc) }"

definition dbus_req_unsubscribe ::
  "(addr \<Rightarrow> dbus_server \<Rightarrow> dbus_server \<times> int) \<Rightarrow> bus_io \<Rightarrow> 'j dbus_req \<Rightarrow> string \<Rightarrow> 32 word \<Rightarrow> dbus_server \<Rightarrow> (dbus_server \<times> int) option" where
  "dbus_req_unsubscribe remove_watch io r event eid v =
     do { l \<leftarrow> ds_listeners v (dq_listener r);
          v1 \<leftarrow> afb_api_dbus_server_event_send io (dl_destination l) (CHR ''U'') event eid [] (bm_cookie (dq_message r)) v;
          Some (remove_watch (dl_listener l) v1) }"

section \<open>Calls received\<close>

definition reply_error :: "bus_message \<Rightarrow> string \<Rightarrow> dbus_server \<Rightarrow> dbus_server" where
  "reply_error m e v = v\<lparr>ds_replies := ds_replies v @ [(bm_cookie m, Br_error e)]\<rparr>"

text \<open>\<open>call\<close> is what the api does when it is called with a verb and a request. The results: the server, the request if it is kept, and the returned value.\<close>

definition api_dbus_server_on_object_called ::
  "('api \<Rightarrow> string \<Rightarrow> dbus_server \<times> 'j dbus_req \<Rightarrow> (dbus_server \<times> 'j dbus_req) option) \<Rightarrow> 'api apis \<Rightarrow> bool \<Rightarrow> int \<Rightarrow> addr option \<Rightarrow> string \<Rightarrow> listener_env
     \<Rightarrow> bus_message \<Rightarrow> dbus_server \<Rightarrow> (dbus_server \<times> 'j dbus_req option \<times> int) option" where
  "api_dbus_server_on_object_called call apis calloc_ok now calloc newuuid env m v =
     (if bm_interface m \<noteq> dn_name (ds_names v) then Some (v, None, 0)
      else if \<not> calloc_ok then Some (reply_error m ''out of memory'' v, None, 1)
      else (case bm_body m of
          St request # St uuid # Ui flags # _ \<Rightarrow>
            do { (s1, r) \<leftarrow> afb_context_connect (ds_sessions v) (Some uuid) None now calloc newuuid;
                 case r of
                   Inl _ \<Rightarrow> Some (reply_error m ''out of memory'' (v\<lparr>ds_sessions := s1\<rparr>), None, 1)
                 | Inr x \<Rightarrow> do {
                     a \<leftarrow> ac_session x;
                     (v1, l) \<leftarrow> afb_api_dbus_server_listerner_get env (bm_sender m) a (v\<lparr>ds_sessions := s1\<rparr>);
                     case l of
                       None \<Rightarrow> Some (reply_error m ''out of memory'' v1, None, 1)
                     | Some listener \<Rightarrow>
                         (let q = \<lparr>dq_context = set_context_flags flags x, dq_message = m, dq_request = request, dq_json = None, dq_listener = listener, dq_refcount = 1\<rparr> in
                          do { st \<leftarrow> (case afb_apis_call_full apis (dn_api (ds_names v)) of
                                  None \<Rightarrow> Some (dbus_req_fail q ''fail'' (Some ''api not found'') v1, q)
                                | Some (i, api) \<Rightarrow> call api (bm_member m) (v1, q\<lparr>dq_context := (dq_context q)\<lparr>ac_api_index := int i\<rparr>\<rparr>));
                               (v2, q2) \<leftarrow> dbus_req_unref now newuuid st;
                               Some (v2, q2, 1) }) } }
        | _ \<Rightarrow> Some (reply_error m ''invalid signature'' v, None, 1)))"

text \<open>The second component is the returned value, the third the bus names that are held.\<close>

definition afb_api_dbus_add_server ::
  "bool \<Rightarrow> bool \<Rightarrow> bool \<Rightarrow> bool \<Rightarrow> sessions \<Rightarrow> string \<Rightarrow> (dbus_server option \<times> int \<times> string list) option" where
  "afb_api_dbus_add_server calloc_ok bus_ok name_ok object_ok s path =
     do { r \<leftarrow> make_api_dbus calloc_ok bus_ok path;
          Some (case r of
              Inl _ \<Rightarrow> (None, -1, [])
            | Inr n \<Rightarrow>
                if \<not> name_ok then (None, -1, [])
                else if \<not> object_ok then (None, -1, remove1 (dn_name n) [dn_name n])
                else (Some \<lparr>ds_names = n, ds_sessions = s, ds_destinations = [], ds_listeners = Map.empty, ds_cookies = Map.empty, ds_sent = [], ds_replies = []\<rparr>, 0,
                      [dn_name n])) }"

section \<open>Names\<close>

declare slashes_to_dots.simps [simp del]

lemma slashes_to_dots_eq: "slashes_to_dots s = map (\<lambda>c. if c = CHR ''/'' then CHR ''.'' else c) s"
proof (induction s rule: slashes_to_dots.induct)
  case (1 s)
  show ?case
  proof (cases "first_index (\<lambda>c. c = CHR ''/'') s")
    case None
    then have "map (\<lambda>c. if c = CHR ''/'' then CHR ''.'' else c) s = s" by (intro map_idI) (auto simp: first_index_None)
    then show ?thesis using None by (simp add: slashes_to_dots.simps [of s])
  next
    case (Some i)
    from first_index_Some [OF Some] have i: "i < length s" "s ! i = CHR ''/''" "\<forall>j < i. s ! j \<noteq> CHR ''/''" by auto
    let ?f = "\<lambda>c. if c = CHR ''/'' then CHR ''.'' else c"
    have "s = take i s @ s ! i # drop (Suc i) s" by (rule id_take_nth_drop [OF i(1)])
    then have "map ?f s = map ?f (take i s @ s ! i # drop (Suc i) s)" by simp
    then have "map ?f s = map ?f (take i s) @ CHR ''.'' # map ?f (drop (i + 1) s)" using i(2) by (simp only: map_append list.map if_True Suc_eq_plus1 simp_thms)
    moreover have "CHR ''/'' \<notin> set (take i s)" using i(1,3) by (auto simp: in_set_conv_nth)
    then have "map (\<lambda>c. if c = CHR ''/'' then CHR ''.'' else c) (take i s) = take i s" by (intro map_idI) auto
    ultimately show ?thesis using Some 1(1) [OF Some] by (simp add: slashes_to_dots.simps [of s])
  qed
qed

lemma remove_memo:
  "distinct (map dm_addr ms) \<Longrightarrow> m \<in> set ms \<Longrightarrow> remove1 m ms = filter (\<lambda>n. dm_addr n \<noteq> dm_addr m) ms"
proof (induction ms)
  case (Cons n ms)
  then show ?case by (cases "n = m") (auto simp: image_iff intro!: filter_True [symmetric])
qed simp

lemma cstr_app_NUL: "is_cstring s \<Longrightarrow> cstr (s @ NUL # t) = s"
  by (induction s) (auto simp: cstr_def is_cstring_def)

lemma make_api_dbus_3_eq:
  assumes "is_cstring path" "path \<noteq> []"
  shows "make_api_dbus_3 calloc_ok bus_ok system path (length path) = Some
    (if \<not> calloc_ok then Inl ENOMEM
     else case strrchr (CHR ''/'') path of
       None \<Rightarrow> Inl EINVAL
     | Some i \<Rightarrow>
         if afb_apis_is_valid_api_name (drop (i + 1) path) \<and> bus_ok
         then Inr \<lparr>dn_system = system, dn_path = path, dn_name = map (\<lambda>c. if c = CHR ''/'' then CHR ''.'' else c) (tl path), dn_api = drop (i + 1) path\<rparr>
         else Inl EINVAL)"
proof -
  let ?n = "length path"
  have 1: "strcpy_at 0 path (replicate (1 + ?n + ?n) NUL) = Some (path @ NUL # replicate ?n NUL)" by (simp add: strcpy_at_def flip: replicate_Suc)
  have 2: "strcpy_at (?n + 1) (drop 1 path) (path @ NUL # replicate ?n NUL) = Some (path @ NUL # tl path @ [NUL])"
    using assms(2) by (cases path) (simp_all add: strcpy_at_def)
  have "is_cstring (tl path)" using assms(1) by (cases path) (auto simp: is_cstring_def)
  then have 3: "cstr (drop (?n + 1) (path @ NUL # tl path @ [NUL])) = tl path" using cstr_app_NUL [of "tl path" "[]"] by simp
  show ?thesis
    unfolding make_api_dbus_3_def 1 using cstr_app_NUL [OF assms(1)] 2 3
    by (auto simp: Let_def slashes_to_dots_eq split: option.split)
qed

text \<open>The path of the object: a name that is not absolute is below the default one.\<close>

definition object_path :: "string \<Rightarrow> string" where
  "object_path path = (if path \<noteq> [] \<and> path ! 0 = CHR ''/'' then path else DEFAULT_PATH_PREFIX @ path)"

lemma make_api_dbus_2_eq:
  assumes "is_cstring path" "path \<noteq> []"
  shows "make_api_dbus_2 calloc_ok bus_ok system path = make_api_dbus_3 calloc_ok bus_ok system (object_path path) (length (object_path path))"
  using assms by (simp add: make_api_dbus_2_def object_path_def add.commute)

text \<open>The prefix in front of the colon is compared up to its own length: any beginning of \<open>system\<close>, also the empty one, asks for the system bus, and any other beginning of
  \<open>user\<close> for that of the user.\<close>

lemma dbus_prefix_abbreviated:
  assumes "CHR '':'' \<notin> set pre"
  shows "make_api_dbus calloc_ok bus_ok (pre @ CHR '':'' # path) =
    (if pre = take (length pre) ''system'' then make_api_dbus_2 calloc_ok bus_ok True path
     else if pre = take (length pre) ''user'' then make_api_dbus_2 calloc_ok bus_ok False path
     else Some (Inl EINVAL))"
proof -
  have "first_index (\<lambda>c. c = CHR '':'') (pre @ CHR '':'' # path) = Some (length pre)" using assms by (induction pre) auto
  then show ?thesis by (simp add: make_api_dbus_def)
qed

section \<open>Calls and replies over the bus\<close>

lemma memo_new: "memo_at a (api_dbus_client_memo_make (Some a) req w) = Some \<lparr>dm_addr = a, dm_req = req, dm_msgid = 0\<rparr>"
  by (simp add: memo_at_def api_dbus_client_memo_make_def ad_emit_def)

text \<open>The message of a call, when the bus takes it.\<close>

lemma client_call_sent:
  assumes "ac_session x = Some c" "ctxClientGetUuid s c = Some uuid" "is_cstring verb" "lenverb = length verb"
    and "io_new io" "io_append io" "io_send io" "io_cookie io = Some k"
  shows "api_dbus_client_call io (Some a) s req x raw verb lenverb w = Some (w\<lparr>ad_log := ad_log w @ [Req_addref req],
      ad_memos := \<lparr>dm_addr = a, dm_req = req, dm_msgid = k\<rparr> # ad_memos w,
      ad_sent := ad_sent w @ [\<lparr>bm_destination = dn_name (ad_names w), bm_sender = [], bm_path = dn_path (ad_names w), bm_interface = dn_name (ad_names w), bm_member = verb,
        bm_body = [St raw, St uuid, Ui (context_flags x)], bm_cookie = k, bm_expect_reply = True\<rparr>]\<rparr>)"
proof -
  have "cstr verb = verb" using assms(3) by (auto simp: cstr_def is_cstring_def takeWhile_eq_all_conv)
  then show ?thesis using assms by (simp add: api_dbus_client_call_def api_dbus_client_memo_make_def ad_emit_def)
qed

text \<open>A call that cannot be sent is answered at once, and leaves no memo behind.\<close>

lemma client_call_failed:
  assumes "ac_session x = Some c" "ctxClientGetUuid s c = Some uuid" "\<not> (io_new io \<and> io_append io \<and> io_send io \<and> io_cookie io \<noteq> None)" "a \<notin> dm_addr ` set (ad_memos w)"
  shows "\<exists>w'. api_dbus_client_call io (Some a) s req x raw verb lenverb w = Some w' \<and> ad_memos w' = ad_memos w
    \<and> ad_log w' = ad_log w @ [Req_addref req, Req_fail req ''error'' (Some ''dbus error''), Req_unref req]"
  using assms
  by (auto simp: api_dbus_client_call_def api_dbus_client_memo_make_def api_dbus_client_memo_destroy_def memo_at_def ad_emit_def Let_def split: option.splits)

lemma on_reply_eq:
  assumes "memo_at a w = Some m" "distinct (map dm_addr (ad_memos w))"
  shows "\<exists>w'. api_dbus_client_on_reply parse [By t, St first, St second, Ui flags] a w = Some w' \<and> memo_at a w' = None
    \<and> ad_memos w' = filter (\<lambda>m. dm_addr m \<noteq> a) (ad_memos w)
    \<and> ad_log w' = ad_log w @ [Set_flags (dm_req m) flags,
        if t = DBUS_RETOK then Req_success (dm_req m) (parse first) (text_or_null second)
        else if t = DBUS_RETERR then Req_fail (dm_req m) first (text_or_null second)
        else if t = DBUS_RETRAW then Req_send (dm_req m) first (length first) else Req_fail (dm_req m) ''error'' (Some ''dbus link broken''), Req_unref (dm_req m)]"
proof -
  have at: "memo_at a (w\<lparr>ad_log := l\<rparr>) = Some m" for l using assms(1) by (simp add: memo_at_def)
  have m: "m \<in> set (ad_memos w)" "dm_addr m = a" using assms(1) by (auto simp: memo_at_def find_Some_iff)
  have rem: "remove1 m (ad_memos w) = filter (\<lambda>m. dm_addr m \<noteq> a) (ad_memos w)"
    using remove_memo [OF assms(2) m(1)] m(2) by simp
  show ?thesis using assms(1) at rem
    by (auto simp: api_dbus_client_on_reply_def api_dbus_client_memo_destroy_def ad_emit_def Let_def memo_at_def find_None_iff)
qed

text \<open>What it is for a request to be answered: the server has replied to the message with the cookie, and the client, when it gets the body of this reply, sets the flags,
  answers the request, and takes the memo at the address, and no other, out of its list with the reference that it held.\<close>

definition dbus_answered ::
  "(string \<Rightarrow> 'j option) \<Rightarrow> 64 word \<Rightarrow> addr \<Rightarrow> 'q \<Rightarrow> ('q, 'e, 'j) api_dbus \<Rightarrow> dbus_server \<Rightarrow> dbus_server \<Rightarrow> 32 word \<Rightarrow> ('q, 'e, 'j) aw_action \<Rightarrow> bool" where
  "dbus_answered parse k a req w v v' flags answer \<longleftrightarrow>
     (\<exists>body w2. ds_replies v' = ds_replies v @ [(k, Br_return body)] \<and> api_dbus_client_on_reply parse body a w = Some w2
        \<and> ad_log w2 = ad_log w @ [Set_flags req flags, answer, Req_unref req] \<and> ad_memos w2 = filter (\<lambda>m. dm_addr m \<noteq> a) (ad_memos w))"

lemma cstr_id: "is_cstring t \<Longrightarrow> cstr t = t"
  by (auto simp: cstr_def is_cstring_def takeWhile_eq_all_conv)

lemma info_text: "text_or_null (case info of None \<Rightarrow> [] | Some i \<Rightarrow> i) = Option.bind info text_or_null"
  by (cases info) (simp_all add: text_or_null_def)

lemma replies_answer:
  assumes "memo_at a w = Some m" "distinct (map dm_addr (ad_memos w))"
  shows "dbus_answered parse (bm_cookie (dq_message r)) a (dm_req m) w v (dbus_req_success print r obj info v) (context_flags (dq_context r))
      (Req_success (dm_req m) (parse (print obj)) (Option.bind info text_or_null))"
    and "dbus_answered parse (bm_cookie (dq_message r)) a (dm_req m) w v (dbus_req_fail r status info v) (context_flags (dq_context r))
      (Req_fail (dm_req m) status (Option.bind info text_or_null))"
    and "is_cstring t \<Longrightarrow> dbus_answered parse (bm_cookie (dq_message r)) a (dm_req m) w v (dbus_req_send r t v) (context_flags (dq_context r)) (Req_send (dm_req m) t (length t))"
  using on_reply_eq [OF assms, of parse DBUS_RETOK "print obj" "case info of None \<Rightarrow> [] | Some i \<Rightarrow> i" "context_flags (dq_context r)"]
    on_reply_eq [OF assms, of parse DBUS_RETERR status "case info of None \<Rightarrow> [] | Some i \<Rightarrow> i" "context_flags (dq_context r)"]
    on_reply_eq [OF assms, of parse DBUS_RETRAW t "[]" "context_flags (dq_context r)"]
  by (auto simp: dbus_answered_def dbus_req_success_def dbus_req_fail_def dbus_req_send_def dbus_req_reply_def info_text cstr_id)

text \<open>C37. A call forwarded over the bus arrives as it was made and is answered once: when the bus takes the message, the object of the other binder, which has the same names,
  calls the verb of its api with the text of the request, with the session that the uuid names there and with the flags of the caller's context; whatever the api then
  replies, success, failure or raw text, reaches the request that made the call, with the flags of the context of the reply, and the memo of the call, and no other, is
  gone, with the reference it held.\<close>

theorem dbus_call_roundtrip:
  assumes "ac_session x = Some c" "ctxClientGetUuid s c = Some uuid" "is_cstring verb"
    and "io_new io" "io_append io" "io_send io" "io_cookie io = Some k" "a \<notin> dm_addr ` set (ad_memos w)" "distinct (map dm_addr (ad_memos w))"
    and "ds_names v = ad_names w" "afb_apis_call_full apis (dn_api (ad_names w)) = Some (i, api)"
    and "afb_context_connect (ds_sessions v) (Some uuid) None now calloc nu = Some (s1, Inr y)" "ac_session y = Some b"
    and "afb_api_dbus_server_listerner_get env sender b (v\<lparr>ds_sessions := s1\<rparr>) = Some (v1, Some l)"
  shows "\<exists>w' msg q. api_dbus_client_call io (Some a) s req x raw verb (length verb) w = Some w' \<and> ad_sent w' = ad_sent w @ [msg] \<and> ad_log w' = ad_log w @ [Req_addref req]
    \<and> dq_request q = raw \<and> dq_refcount q = 1 \<and> dq_context q = x\<lparr>ac_session := ac_session y, ac_api_index := int i\<rparr> \<and> dq_message q = msg\<lparr>bm_sender := sender\<rparr>
    \<and> api_dbus_server_on_object_called call apis True now calloc nu env (msg\<lparr>bm_sender := sender\<rparr>) v
        = do { st \<leftarrow> call api verb (v1, q); (v2, q2) \<leftarrow> dbus_req_unref now nu st; Some (v2, q2, 1) }
    \<and> filter (\<lambda>m. dm_addr m \<noteq> a) (ad_memos w') = ad_memos w
    \<and> (\<forall>z v3 obj info status t. is_cstring t \<longrightarrow>
        dbus_answered parse k a req w' v3 (dbus_req_success print (q\<lparr>dq_context := z\<rparr>) obj info v3) (context_flags z)
          (Req_success req (parse (print obj)) (Option.bind info text_or_null))
        \<and> dbus_answered parse k a req w' v3 (dbus_req_fail (q\<lparr>dq_context := z\<rparr>) status info v3) (context_flags z) (Req_fail req status (Option.bind info text_or_null))
        \<and> dbus_answered parse k a req w' v3 (dbus_req_send (q\<lparr>dq_context := z\<rparr>) t v3) (context_flags z) (Req_send req t (length t)))"
proof -
  let ?m = "\<lparr>bm_destination = dn_name (ad_names w), bm_sender = [], bm_path = dn_path (ad_names w), bm_interface = dn_name (ad_names w), bm_member = verb,
    bm_body = [St raw, St uuid, Ui (context_flags x)], bm_cookie = k, bm_expect_reply = True\<rparr>"
  let ?w = "w\<lparr>ad_log := ad_log w @ [Req_addref req], ad_memos := \<lparr>dm_addr = a, dm_req = req, dm_msgid = k\<rparr> # ad_memos w, ad_sent := ad_sent w @ [?m]\<rparr>"
  let ?q = "\<lparr>dq_context = (set_context_flags (context_flags x) y)\<lparr>ac_api_index := int i\<rparr>, dq_message = ?m\<lparr>bm_sender := sender\<rparr>, dq_request = raw, dq_json = None,
    dq_listener = l, dq_refcount = 1\<rparr>"
  have sent: "api_dbus_client_call io (Some a) s req x raw verb (length verb) w = Some ?w" by (rule client_call_sent [OF assms(1-3) refl assms(4-7)])
  have ctx: "dq_context ?q = x\<lparr>ac_session := ac_session y, ac_api_index := int i\<rparr>" by (simp add: set_context_flags_of)
  have called: "api_dbus_server_on_object_called call apis True now calloc nu env (?m\<lparr>bm_sender := sender\<rparr>) v
      = do { st \<leftarrow> call api verb (v1, ?q); (v2, q2) \<leftarrow> dbus_req_unref now nu st; Some (v2, q2, 1) }"
    using assms(10-14) by (simp add: api_dbus_server_on_object_called_def Let_def)
  have at: "memo_at a ?w = Some \<lparr>dm_addr = a, dm_req = req, dm_msgid = k\<rparr>" "distinct (map dm_addr (ad_memos ?w))" using assms(8,9) by (simp_all add: memo_at_def)
  have filt: "filter (\<lambda>m. dm_addr m \<noteq> a) (ad_memos ?w) = ad_memos w" using assms(8) by (auto intro!: filter_True)
  have k: "bm_cookie (dq_message (?q\<lparr>dq_context := z\<rparr>)) = k" "dq_context (?q\<lparr>dq_context := z\<rparr>) = z" for z by simp_all
  note ans = replies_answer [OF at, where r = "?q\<lparr>dq_context := z\<rparr>" for z, unfolded k, simplified]
  show ?thesis
    by (intro exI [of _ ?w] exI [of _ ?m] exI [of _ ?q] conjI allI impI) (use sent ctx called filt ans in simp_all)
qed

definition demo_names :: dbus_names where
  "demo_names = \<lparr>dn_system = False, dn_path = ''/org/hello'', dn_name = ''org.hello'', dn_api = ''hello''\<rparr>"

definition demo_dbus :: "(nat, nat, nat) api_dbus" where
  "demo_dbus = \<lparr>ad_names = demo_names, ad_memos = [], ad_events = [], ad_log = [], ad_sent = []\<rparr>"

definition demo_dbus_server :: dbus_server where
  "demo_dbus_server = \<lparr>ds_names = demo_names, ds_sessions = demo_session, ds_destinations = [], ds_listeners = Map.empty, ds_cookies = Map.empty, ds_sent = [], ds_replies = []\<rparr>"

text \<open>An api that keeps the request by a second reference and tells the verb in a reply.\<close>

definition telling_call :: "unit \<Rightarrow> string \<Rightarrow> dbus_server \<times> nat dbus_req \<Rightarrow> (dbus_server \<times> nat dbus_req) option" where
  "telling_call a verb = (\<lambda>(v, r). Some (dbus_req_send r verb v, dbus_req_addref r))"

theorem dbus_call_roundtrip_witness:
  "\<exists>x w' msg v2 q2. init_context demo_session (Some 7) None 10 = Some x
    \<and> api_dbus_client_call \<lparr>io_new = True, io_append = True, io_send = True, io_cookie = Some 4\<rparr> (Some 3) demo_session 9 x ''{}'' ''ping'' 4 demo_dbus = Some w'
    \<and> ad_sent w' = [msg] \<and> api_dbus_server_on_object_called telling_call [\<lparr>ad_api = (), ad_name = ''hello'', ad_namelen = 5\<rparr>] True 10 (Some 8) (replicate 36 CHR ''c'')
        \<lparr>le_destination = Some 1, le_listener = Some 2, le_evt = Some 5, le_cookie = True\<rparr> (msg\<lparr>bm_sender := '':1''\<rparr>) demo_dbus_server = Some (v2, Some q2, 1)
    \<and> dq_request q2 = ''{}'' \<and> map snd (ds_replies v2) = [Br_return [By 3, St ''ping'', St '''', Ui (context_flags (dq_context q2))]]"
proof -
  let ?apis = "[\<lparr>ad_api = (), ad_name = ''hello'', ad_namelen = 5\<rparr>]" and ?nu = "replicate 36 CHR ''c''"
    and ?io = "\<lparr>io_new = True, io_append = True, io_send = True, io_cookie = Some 4\<rparr>"
    and ?env = "\<lparr>le_destination = Some 1, le_listener = Some 2, le_evt = Some 5, le_cookie = True\<rparr>"
  obtain x where x: "init_context demo_session (Some 7) None 10 = Some x" using init_context_total [of demo_session 7 demo_ctx] by (auto simp: demo_session_def)
  obtain t1 y where y: "afb_context_connect demo_session (Some demo_uuid) None 10 (Some 8) ?nu = Some (t1, Inr y)" using demo_connect_no_token by blast
  then obtain b where b: "ac_session y = Some b" using connect_Inr [OF y] by auto
  have env: "is_cstring ''ping''" "io_new ?io" "io_append ?io" "io_send ?io" "io_cookie ?io = Some 4" "3 \<notin> dm_addr ` set (ad_memos demo_dbus)"
    "distinct (map dm_addr (ad_memos demo_dbus))" "ds_names demo_dbus_server = ad_names demo_dbus"
    by (simp_all add: demo_dbus_def demo_dbus_server_def NUL_def is_cstring_def)
  have api: "afb_apis_call_full ?apis (dn_api (ad_names demo_dbus)) = Some (0, ())"
    by (simp add: afb_apis_call_full_def afb_apis_call_def api_matches_def demo_dbus_def demo_names_def strncasecmp_def)
  have con: "afb_context_connect (ds_sessions demo_dbus_server) (Some demo_uuid) None 10 (Some 8) ?nu = Some (t1, Inr y)" using y by (simp add: demo_dbus_server_def)
  obtain v1 l where lis: "afb_api_dbus_server_listerner_get ?env '':1'' b (demo_dbus_server\<lparr>ds_sessions := t1\<rparr>) = Some (v1, Some l)" "ds_replies v1 = []"
    by (simp add: afb_api_dbus_server_listerner_get_def afb_api_dbus_server_destination_get_def demo_dbus_server_def)
  from dbus_call_roundtrip [OF init_context_session [OF x] demo_uuid_facts(1) env api con b lis(1), of 9 "''{}''" telling_call "\<lambda>_. None" "\<lambda>_. []"]
  obtain w' msg and q :: "nat dbus_req" where
    w: "api_dbus_client_call ?io (Some 3) demo_session 9 x ''{}'' ''ping'' (length ''ping'') demo_dbus = Some w'" "ad_sent w' = ad_sent demo_dbus @ [msg]"
      "dq_request q = ''{}''" "dq_refcount q = 1"
      "api_dbus_server_on_object_called telling_call ?apis True 10 (Some 8) ?nu ?env (msg\<lparr>bm_sender := '':1''\<rparr>) demo_dbus_server
        = do { st \<leftarrow> telling_call () ''ping'' (v1, q); (v2, q2) \<leftarrow> dbus_req_unref 10 ?nu st; Some (v2, q2, 1) }" by blast
  have "telling_call () ''ping'' (v1, q) = Some (dbus_req_send q ''ping'' v1, dbus_req_addref q)"
    "dbus_req_unref 10 ?nu (dbus_req_send q ''ping'' v1, dbus_req_addref q) = Some (dbus_req_send q ''ping'' v1, Some q)"
    using w(4) by (simp_all add: telling_call_def dbus_req_unref_def dbus_req_addref_def Let_def)
  with w(5) have "api_dbus_server_on_object_called telling_call ?apis True 10 (Some 8) ?nu ?env (msg\<lparr>bm_sender := '':1''\<rparr>) demo_dbus_server
      = Some (dbus_req_send q ''ping'' v1, Some q, 1)" by simp
  moreover have "map snd (ds_replies (dbus_req_send q ''ping'' v1)) = [Br_return [By 3, St ''ping'', St '''', Ui (context_flags (dq_context q))]]"
    using lis(2) by (simp add: dbus_req_send_def dbus_req_reply_def cstr_id is_cstring_def NUL_def)
  moreover have "api_dbus_client_call ?io (Some 3) demo_session 9 x ''{}'' ''ping'' 4 demo_dbus = Some w'" "ad_sent w' = [msg]"
    using w(1,2) by (simp_all add: demo_dbus_def eval_nat_numeral)
  ultimately show ?thesis using x w(3)
    by (intro exI [of _ x] exI [of _ w'] exI [of _ msg] exI [of _ "dbus_req_send q ''ping'' v1"] exI [of _ q]) simp
qed

section \<open>Failures\<close>

text \<open>A call for whose client no listener can be made is answered with an error, but the reference of the session that the connection took is not given back.\<close>

lemma failed_listener_leaks_session:
  assumes "session_inv (ds_sessions v)" "alloc_ok (ds_sessions v) p" "uuid_ok (ds_sessions v) nu" "bm_interface m = dn_name (ds_names v)"
    and "bm_body m = [St request, St uuid, Ui flags]" "afb_context_connect (ds_sessions v) (Some uuid) None now p nu = Some (s1, Inr y)" "ac_session y = Some b"
    and "afb_api_dbus_server_listerner_get env (bm_sender m) b (v\<lparr>ds_sessions := s1\<rparr>) = Some (v1, None)" "ds_sessions v1 = s1"
  shows "\<exists>v2. api_dbus_server_on_object_called call apis True now p nu env m v = Some (v2, None, 1) \<and> session_refs (ds_sessions v2) = (session_refs (ds_sessions v))(b := session_refs (ds_sessions v) b + 1)"
proof -
  obtain created where "ctxClientGetSession (ds_sessions v) (Some uuid) now p nu = Some (s1, Inr b, created)"
    using assms(6,7) init_context_session by (fastforce simp: afb_context_connect_def split: bind_splits sum.splits if_splits)
  from get_session_refs [OF assms(1-3) this] assms(4-9) show ?thesis by (simp add: api_dbus_server_on_object_called_def reply_error_def)
qed

text \<open>A request does not hold its listener: when the session is closed, which frees its cookies, a request that is still running follows a released pointer.\<close>

lemma subscribe_after_close_faults:
  assumes "ds_cookies v (session, d) = Some (dq_listener r)" "cookie_free session d v = Some v1"
  shows "dbus_req_subscribe add_watch io r event eid v1 = None"
proof -
  have "ds_listeners v1 (dq_listener r) = None"
    using assms by (auto simp: cookie_free_def afb_api_dbus_server_listener_free_def afb_api_dbus_server_destination_unref_def Let_def split: bind_splits option.splits if_splits)
  then show ?thesis by (simp add: dbus_req_subscribe_def)
qed

text \<open>A client api that cannot listen on the bus is refused, but its structure stays in memory; when the api name is taken it is released, although the bus still has
  callbacks with its address.\<close>

lemma add_client_failure:
  assumes "make_api_dbus calloc_ok bus_ok path = Some (Inr n)" "\<not> (asprintf_ok \<and> match_ok \<and> object_ok)"
  shows "afb_api_dbus_add_client calloc_ok bus_ok asprintf_ok match_ok object_ok realloc_ok path apis self = Some (apis, None, -1, True)"
  using assms by (simp add: afb_api_dbus_add_client_def)

section \<open>Listeners are counted\<close>

text \<open>\<open>extra\<close> is the references of destinations that a running function holds.\<close>

definition listeners_to :: "dbus_server \<Rightarrow> addr \<Rightarrow> addr set" where
  "listeners_to v a = {l. \<exists>li. ds_listeners v l = Some li \<and> dl_destination li = a}"

definition dest_refs :: "(addr \<Rightarrow> nat) \<Rightarrow> dbus_server \<Rightarrow> addr \<Rightarrow> nat" where
  "dest_refs extra v a = extra a + card (listeners_to v a)"

definition dbus_inv :: "(addr \<Rightarrow> nat) \<Rightarrow> dbus_server \<Rightarrow> bool" where
  "dbus_inv extra v \<longleftrightarrow> distinct (map dt_addr (ds_destinations v)) \<and> distinct (map dt_name (ds_destinations v)) \<and> finite (dom (ds_listeners v))
     \<and> (\<forall>d \<in> set (ds_destinations v). dt_refcount d = int (dest_refs extra v (dt_addr d)) \<and> 0 < dest_refs extra v (dt_addr d))
     \<and> (\<forall>a. a \<notin> dt_addr ` set (ds_destinations v) \<longrightarrow> dest_refs extra v a = 0)
     \<and> (\<forall>s d l. ds_cookies v (s, d) = Some l \<longrightarrow> l \<in> listeners_to v d)
     \<and> (\<forall>k k' l. ds_cookies v k = Some l \<longrightarrow> ds_cookies v k' = Some l \<longrightarrow> k = k')
     \<and> (\<forall>l \<in> dom (ds_listeners v). \<exists>k. ds_cookies v k = Some l)"

lemma listeners_frame [simp]:
  "listeners_to (v\<lparr>ds_destinations := ds\<rparr>) = listeners_to v" "listeners_to (v\<lparr>ds_cookies := c\<rparr>) = listeners_to v" "listeners_to (v\<lparr>ds_sessions := s\<rparr>) = listeners_to v"
  by (simp_all add: listeners_to_def fun_eq_iff)

lemma dest_refs_frame [simp]:
  "dest_refs e (v\<lparr>ds_destinations := ds\<rparr>) = dest_refs e v" "dest_refs e (v\<lparr>ds_cookies := c\<rparr>) = dest_refs e v" "dest_refs e (v\<lparr>ds_sessions := s\<rparr>) = dest_refs e v"
  by (simp_all add: dest_refs_def fun_eq_iff)

lemma dest_refs_upd: "dest_refs (e(a := k)) v b = (if b = a then k + card (listeners_to v a) else dest_refs e v b)"
  by (simp add: dest_refs_def)

lemma finite_listeners: "dbus_inv extra v \<Longrightarrow> finite (listeners_to v a)"
  by (rule finite_subset [of _ "dom (ds_listeners v)"]) (auto simp: dbus_inv_def listeners_to_def)

lemma dests_inv:
  assumes "dbus_inv extra v" "distinct (map dt_addr ds)" "distinct (map dt_name ds)"
    and "\<And>d. d \<in> set ds \<Longrightarrow> dt_refcount d = int (dest_refs e v (dt_addr d)) \<and> 0 < dest_refs e v (dt_addr d)" "\<And>a. a \<notin> dt_addr ` set ds \<Longrightarrow> dest_refs e v a = 0"
  shows "dbus_inv e (v\<lparr>ds_destinations := ds\<rparr>)"
  using assms unfolding dbus_inv_def by simp

lemma dest_invD:
  assumes "dbus_inv extra v"
  shows "d \<in> set (ds_destinations v) \<Longrightarrow> dt_refcount d = int (dest_refs extra v (dt_addr d)) \<and> 0 < dest_refs extra v (dt_addr d)"
    and "a \<notin> dt_addr ` set (ds_destinations v) \<Longrightarrow> dest_refs extra v a = 0"
    and "distinct (map dt_addr (ds_destinations v))" "distinct (map dt_name (ds_destinations v))"
  using assms unfolding dbus_inv_def by blast+

text \<open>The reference count of one destination is set, or the destination is removed with its last reference.\<close>

lemma set_dest_inv:
  assumes "dbus_inv extra v" "i < length (ds_destinations v)" "dt_addr (ds_destinations v ! i) = a" "0 < k + card (listeners_to v a)" "n = int (k + card (listeners_to v a))"
  shows "dbus_inv (extra(a := k)) (v\<lparr>ds_destinations := (ds_destinations v)[i := (ds_destinations v ! i)\<lparr>dt_refcount := n\<rparr>]\<rparr>)"
proof -
  let ?D = "ds_destinations v" and ?d = "ds_destinations v ! i"
  have "distinct ?D" using assms(1) by (simp add: dbus_inv_def distinct_map)
  then have set: "set (?D[i := ?d\<lparr>dt_refcount := n\<rparr>]) = insert (?d\<lparr>dt_refcount := n\<rparr>) (set ?D - {?d})" using assms(2) by (simp add: set_update_distinct)
  have maps: "map dt_addr (?D[i := ?d\<lparr>dt_refcount := n\<rparr>]) = map dt_addr ?D" "map dt_name (?D[i := ?d\<lparr>dt_refcount := n\<rparr>]) = map dt_name ?D"
    using assms(2) by (simp_all add: map_update list_update_same_conv)
  then have addrs: "dt_addr ` set (?D[i := ?d\<lparr>dt_refcount := n\<rparr>]) = dt_addr ` set ?D" by (metis set_map)
  have other: "dt_addr e \<noteq> a" if "e \<in> set ?D - {?d}" for e
    using assms(1-3) that nth_mem [OF assms(2)] by (auto simp: dbus_inv_def distinct_map inj_on_def)
  show ?thesis
  proof (rule dests_inv [OF assms(1)], unfold maps addrs, goal_cases)
    case (3 d)
    then have "d = ?d\<lparr>dt_refcount := n\<rparr> \<or> d \<in> set ?D - {?d}" unfolding set by blast
    then show ?case
    proof
      assume "d = ?d\<lparr>dt_refcount := n\<rparr>"
      then show ?thesis using assms(3-5) by (simp add: dest_refs_upd)
    next
      assume "d \<in> set ?D - {?d}"
      with other [OF this] dest_invD(1) [OF assms(1)] show ?thesis by (simp add: dest_refs_upd)
    qed
  next
    case (4 b)
    then show ?case using dest_invD(2) [OF assms(1)] assms(2,3) by (auto simp: dest_refs_upd)
  qed (use dest_invD(3,4) [OF assms(1)] in simp_all)
qed

lemma destination_get_inv:
  assumes "dbus_inv extra v" "case malloc of None \<Rightarrow> True | Some a \<Rightarrow> a \<notin> dt_addr ` set (ds_destinations v)"
  shows "case afb_api_dbus_server_destination_get malloc sender v of
      (v', None) \<Rightarrow> v' = v
    | (v', Some d) \<Rightarrow> dbus_inv (extra(d := extra d + 1)) v' \<and> ds_cookies v' = ds_cookies v \<and> ds_listeners v' = ds_listeners v
        \<and> (\<exists>e \<in> set (ds_destinations v'). dt_addr e = d \<and> dt_name e = sender)"
proof (cases "first_index (\<lambda>d. dt_name d = sender) (ds_destinations v)")
  case (Some i)
  let ?d = "ds_destinations v ! i"
  have i: "i < length (ds_destinations v)" "dt_name ?d = sender" using first_index_Some [OF Some] by auto
  have r: "dt_refcount ?d = int (dest_refs extra v (dt_addr ?d))" using assms(1) i(1) by (auto simp: dbus_inv_def)
  then have "dt_refcount ?d + 1 = int (extra (dt_addr ?d) + 1 + card (listeners_to v (dt_addr ?d)))" by (simp add: dest_refs_def)
  from set_dest_inv [OF assms(1) i(1) refl _ this] i show ?thesis using Some
    by (auto simp: afb_api_dbus_server_destination_get_def Let_def set_update_memI intro!: bexI [of _ "?d\<lparr>dt_refcount := dt_refcount ?d + 1\<rparr>"])
next
  case None
  show ?thesis
  proof (cases malloc)
    case (Some a)
    have a: "a \<notin> dt_addr ` set (ds_destinations v)" using assms(2) Some by simp
    then have "dest_refs extra v a = 0" using assms(1) by (auto simp: dbus_inv_def)
    then have z: "extra a = 0" "card (listeners_to v a) = 0" by (simp_all add: dest_refs_def)
    have "sender \<notin> dt_name ` set (ds_destinations v)" using None by (auto simp: first_index_None)
    then have "dbus_inv (extra(a := extra a + 1)) (v\<lparr>ds_destinations := \<lparr>dt_addr = a, dt_refcount = 1, dt_name = sender\<rparr> # ds_destinations v\<rparr>)"
    proof (intro dests_inv [OF assms(1)], goal_cases)
      case (3 d)
      then have "d = \<lparr>dt_addr = a, dt_refcount = 1, dt_name = sender\<rparr> \<or> d \<in> set (ds_destinations v)" by simp
      then show ?case
      proof
        assume d: "d = \<lparr>dt_addr = a, dt_refcount = 1, dt_name = sender\<rparr>"
        show ?thesis unfolding d using z by (simp add: dest_refs_def)
      next
        assume d: "d \<in> set (ds_destinations v)"
        with a have "dt_addr d \<noteq> a" by blast
        with dest_invD(1) [OF assms(1) d] show ?thesis by (simp add: dest_refs_upd)
      qed
    next
      case (4 b)
      then show ?case using dest_invD(2) [OF assms(1)] by (auto simp: dest_refs_upd)
    qed (use dest_invD(3,4) [OF assms(1)] a in \<open>simp_all add: image_iff\<close>)
    then show ?thesis using None Some by (simp add: afb_api_dbus_server_destination_get_def)
  qed (use None in \<open>simp add: afb_api_dbus_server_destination_get_def\<close>)
qed

lemma destination_unref_inv:
  assumes "dbus_inv extra v" "0 < extra a"
  shows "\<exists>v'. afb_api_dbus_server_destination_unref a v = Some v' \<and> dbus_inv (extra(a := extra a - 1)) v' \<and> ds_cookies v' = ds_cookies v \<and> ds_listeners v' = ds_listeners v"
proof -
  let ?D = "ds_destinations v"
  have "a \<in> dt_addr ` set ?D" using dest_invD(2) [OF assms(1), of a] assms(2) by (auto simp: dest_refs_def)
  then obtain d where "d \<in> set ?D" "dt_addr d = a" by blast
  then obtain i where i: "first_index (\<lambda>d. dt_addr d = a) ?D = Some i" using first_index_exists [of d ?D "\<lambda>d. dt_addr d = a"] by blast
  have i': "i < length ?D" "dt_addr (?D ! i) = a" using first_index_Some [OF i] by auto
  have r: "dt_refcount (?D ! i) = int (dest_refs extra v a)" using dest_invD(1) [OF assms(1) nth_mem [OF i'(1)]] i'(2) by simp
  show ?thesis
  proof (cases "dt_refcount (?D ! i) = 1")
    case True
    have "extra a + card (listeners_to v a) = 1" using True r unfolding dest_refs_def by linarith
    then have z: "extra a = 1" "card (listeners_to v a) = 0" using assms(2) by linarith+
    have D: "?D = take i ?D @ ?D ! i # drop (Suc i) ?D" by (rule id_take_nth_drop [OF i'(1)])
    then have "distinct (map dt_addr (take i ?D @ ?D ! i # drop (Suc i) ?D))" "distinct (map dt_name (take i ?D @ ?D ! i # drop (Suc i) ?D))"
      using assms(1) by (simp_all add: dbus_inv_def)
    then have 1: "distinct (map dt_addr (take i ?D @ drop (Suc i) ?D))" "distinct (map dt_name (take i ?D @ drop (Suc i) ?D))"
      "dt_addr ` set (take i ?D @ drop (Suc i) ?D) = dt_addr ` set ?D - {a}" "set (take i ?D @ drop (Suc i) ?D) \<subseteq> set ?D"
      using i'(2) arg_cong [OF D, of set] by (auto simp: image_iff)
    have "dbus_inv (extra(a := 0)) (v\<lparr>ds_destinations := take i ?D @ drop (Suc i) ?D\<rparr>)"
    proof (rule dests_inv [OF assms(1) 1(1,2)], goal_cases)
      case (1 d)
      with \<open>dt_addr ` set (take i ?D @ drop (Suc i) ?D) = dt_addr ` set ?D - {a}\<close> \<open>set (take i ?D @ drop (Suc i) ?D) \<subseteq> set ?D\<close>
      have "dt_addr d \<noteq> a" "d \<in> set ?D" by blast+
      then show ?case using dest_invD(1) [OF assms(1)] by (simp add: dest_refs_upd)
    next
      case (2 b)
      show ?case
      proof (cases "b = a")
        case True
        then show ?thesis using z(2) by (simp add: dest_refs_def)
      next
        case False
        with 2 have "b \<notin> dt_addr ` set ?D" unfolding 1(3) by blast
        with False show ?thesis using dest_invD(2) [OF assms(1), of b] by (simp add: dest_refs_upd)
      qed
    qed
    then show ?thesis using True i z(1) by (simp add: afb_api_dbus_server_destination_unref_def Let_def)
  next
    case False
    have "dt_refcount (?D ! i) - 1 = int (extra a - 1 + card (listeners_to v a))" "0 < extra a - 1 + card (listeners_to v a)"
      using r assms(2) False by (auto simp: dest_refs_def)
    from set_dest_inv [OF assms(1) i' this(2,1)] False i show ?thesis by (simp add: afb_api_dbus_server_destination_unref_def Let_def)
  qed
qed


lemma destination_unref_frame:
  "afb_api_dbus_server_destination_unref a (v\<lparr>ds_listeners := ls\<rparr>) = map_option (\<lambda>w. w\<lparr>ds_listeners := ls\<rparr>) (afb_api_dbus_server_destination_unref a v)"
  by (auto simp: afb_api_dbus_server_destination_unref_def Let_def split: option.split)

lemma destination_unref_names:
  assumes "afb_api_dbus_server_destination_unref a v = Some v'" "d \<in> set (ds_destinations v')"
  shows "\<exists>e \<in> set (ds_destinations v). dt_addr e = dt_addr d \<and> dt_name e = dt_name d"
proof -
  let ?D = "ds_destinations v"
  from assms(1) obtain i where i: "first_index (\<lambda>d. dt_addr d = a) ?D = Some i" by (auto simp: afb_api_dbus_server_destination_unref_def split: option.splits)
  then have "i < length ?D" by (auto dest: first_index_Some)
  have "ds_destinations v' = take i ?D @ drop (i + 1) ?D \<or> ds_destinations v' = ?D[i := (?D ! i)\<lparr>dt_refcount := dt_refcount (?D ! i) - 1\<rparr>]"
    using assms(1) i by (auto simp: afb_api_dbus_server_destination_unref_def Let_def split: if_splits)
  then show ?thesis
  proof
    assume "ds_destinations v' = take i ?D @ drop (i + 1) ?D"
    with assms(2) have "d \<in> set ?D" by (auto dest: in_set_takeD in_set_dropD)
    then show ?thesis by blast
  next
    assume "ds_destinations v' = ?D[i := (?D ! i)\<lparr>dt_refcount := dt_refcount (?D ! i) - 1\<rparr>]"
    with assms(2) have "d = (?D ! i)\<lparr>dt_refcount := dt_refcount (?D ! i) - 1\<rparr> \<or> d \<in> set ?D"
      using set_update_subset_insert [of ?D i "(?D ! i)\<lparr>dt_refcount := dt_refcount (?D ! i) - 1\<rparr>"] by auto
    then show ?thesis using nth_mem [OF \<open>i < length ?D\<close>] by auto
  qed
qed

text \<open>A listener that goes leaves its reference to the function that runs, and a listener that comes takes it.\<close>

lemma cookie_invD:
  assumes "dbus_inv extra v" "ds_cookies v (s, d) = Some l"
  obtains e where "ds_listeners v l = Some \<lparr>dl_destination = d, dl_listener = e\<rparr>"
proof -
  from assms have "l \<in> listeners_to v d" by (simp add: dbus_inv_def)
  then obtain li where "ds_listeners v l = Some li" "dl_destination li = d" by (auto simp: listeners_to_def)
  with that show ?thesis by (cases li) auto
qed

lemma cookie_unique:
  assumes "dbus_inv extra v" "ds_cookies v k = Some l" "ds_cookies v k' = Some l"
  shows "k = k'"
  using assms unfolding dbus_inv_def by blast

lemma listeners_inv:
  assumes "dbus_inv e v" "ds_destinations v' = ds_destinations v" "\<And>a. dest_refs e' v' a = dest_refs e v a" "finite (dom (ds_listeners v'))"
    and "\<And>s d l. ds_cookies v' (s, d) = Some l \<Longrightarrow> l \<in> listeners_to v' d" "\<And>k k' l. ds_cookies v' k = Some l \<Longrightarrow> ds_cookies v' k' = Some l \<Longrightarrow> k = k'"
    and "\<And>l. l \<in> dom (ds_listeners v') \<Longrightarrow> \<exists>k. ds_cookies v' k = Some l"
  shows "dbus_inv e' v'"
  unfolding dbus_inv_def assms(2,3)
  using assms(4-) dest_invD [OF assms(1)] by (intro conjI ballI allI impI) blast+

lemma dbus_inv_finite: "dbus_inv e v \<Longrightarrow> finite (dom (ds_listeners v))"
  unfolding dbus_inv_def by blast

lemma listener_gone_inv:
  assumes "dbus_inv extra v" "ds_cookies v (s, d) = Some l"
  shows "dbus_inv (extra(d := extra d + 1)) (v\<lparr>ds_cookies := (ds_cookies v)((s, d) := None), ds_listeners := (ds_listeners v)(l := None)\<rparr>)" (is "dbus_inv ?e ?v")
proof -
  obtain e where l: "ds_listeners v l = Some \<lparr>dl_destination = d, dl_listener = e\<rparr>" using cookie_invD [OF assms] .
  have to: "listeners_to ?v a = listeners_to v a - {l}" for a using l by (auto simp: listeners_to_def)
  have mem: "l \<in> listeners_to v a \<longleftrightarrow> a = d" for a using l by (auto simp: listeners_to_def)
  have "0 < card (listeners_to v d)" using mem [of d] finite_listeners [OF assms(1)] by (auto simp: card_gt_0_iff)
  then have refs: "dest_refs ?e ?v a = dest_refs extra v a" for a
    using mem [of a] finite_listeners [OF assms(1), of a] by (cases "a = d") (simp_all add: dest_refs_def to card_Diff_singleton_if)
  have other: "ds_cookies v k = Some l \<Longrightarrow> k = (s, d)" for k by (rule cookie_unique [OF assms(1) _ assms(2)])
  have k3: "\<exists>k. ds_cookies ?v k = Some m" if "m \<in> dom (ds_listeners ?v)" for m
  proof -
    from that have m: "m \<noteq> l" "m \<in> dom (ds_listeners v)" by (auto split: if_splits)
    then obtain k where k: "ds_cookies v k = Some m" using assms(1) unfolding dbus_inv_def by blast
    with m(1) assms(2) have "k \<noteq> (s, d)" by auto
    with k show ?thesis by (intro exI [of _ k]) simp
  qed
  have k1: "m \<in> listeners_to ?v d'" if "ds_cookies ?v (s', d') = Some m" for s' d' m
    using that other [of "(s', d')"] assms(1) unfolding to dbus_inv_def by (auto split: if_splits)
  have k2: "k = k'" if "ds_cookies ?v k = Some m" "ds_cookies ?v k' = Some m" for k k' m
    using that by (intro cookie_unique [OF assms(1)]) (auto split: if_splits)
  show ?thesis by (rule listeners_inv [OF assms(1) _ refs _ k1 k2 k3]) (use dbus_inv_finite [OF assms(1)] in simp_all)
qed

lemma listener_new_inv:
  assumes "dbus_inv extra v" "0 < extra d" "ds_listeners v l = None" "ds_cookies v (s, d) = None"
  shows "dbus_inv (extra(d := extra d - 1)) (v\<lparr>ds_listeners := (ds_listeners v)(l \<mapsto> \<lparr>dl_destination = d, dl_listener = e\<rparr>), ds_cookies := (ds_cookies v)((s, d) \<mapsto> l)\<rparr>)"
    (is "dbus_inv ?e ?v")
proof -
  have to: "listeners_to ?v a = (if a = d then insert l (listeners_to v a) else listeners_to v a)" for a using assms(3) by (auto simp: listeners_to_def)
  have "l \<notin> listeners_to v a" for a using assms(3) by (auto simp: listeners_to_def)
  then have refs: "dest_refs ?e ?v a = dest_refs extra v a" for a
    using assms(2) finite_listeners [OF assms(1), of a] unfolding dest_refs_def to by (cases "a = d") simp_all
  have other: "ds_cookies v k \<noteq> Some l" for k
    using cookie_invD [OF assms(1), of "fst k" "snd k" l] assms(3) by fastforce
  have k3: "\<exists>k. ds_cookies ?v k = Some m" if "m \<in> dom (ds_listeners ?v)" for m
  proof (cases "m = l")
    case False
    with that have "m \<in> dom (ds_listeners v)" by simp
    then obtain k where k: "ds_cookies v k = Some m" using assms(1) unfolding dbus_inv_def by blast
    with assms(4) have "k \<noteq> (s, d)" by auto
    with k show ?thesis by (intro exI [of _ k]) simp
  qed (auto intro: exI [of _ "(s, d)"])
  have k1: "m \<in> listeners_to ?v d'" if "ds_cookies ?v (s', d') = Some m" for s' d' m
    using that assms(1) unfolding to dbus_inv_def by (auto split: if_splits)
  have k2: "k = k'" if "ds_cookies ?v k = Some m" "ds_cookies ?v k' = Some m" for k k' m
  proof (cases "m = l")
    case True
    with that other show ?thesis by (auto split: if_splits)
  next
    case False
    with that show ?thesis by (intro cookie_unique [OF assms(1)]) (auto split: if_splits)
  qed
  show ?thesis by (rule listeners_inv [OF assms(1) _ refs _ k1 k2 k3]) (use dbus_inv_finite [OF assms(1)] in simp_all)
qed

lemma no_reference [simp]: "(\<lambda>_. 0 :: nat)(d := 0) = (\<lambda>_. 0)" "(\<lambda>_. 0 :: nat)(d := Suc 0, d := 0) = (\<lambda>_. 0)"
  by auto

lemma cookie_free_inv:
  assumes "dbus_inv (\<lambda>_. 0) v"
  shows "\<exists>v'. cookie_free s d v = Some v' \<and> dbus_inv (\<lambda>_. 0) v' \<and> ds_cookies v' (s, d) = None"
proof (cases "ds_cookies v (s, d)")
  case None
  then show ?thesis using assms by (simp add: cookie_free_def)
next
  case (Some l)
  let ?w = "v\<lparr>ds_cookies := (ds_cookies v)((s, d) := None)\<rparr>" and ?L = "(ds_listeners v)(l := None)"
  obtain e where l: "ds_listeners v l = Some \<lparr>dl_destination = d, dl_listener = e\<rparr>" using cookie_invD [OF assms Some] .
  from destination_unref_inv [OF listener_gone_inv [OF assms Some], of d] obtain v' where
    v': "afb_api_dbus_server_destination_unref d (?w\<lparr>ds_listeners := ?L\<rparr>) = Some v'" "dbus_inv (\<lambda>_. 0) v'"
    "ds_cookies v' = (ds_cookies v)((s, d) := None)" "ds_listeners v' = ?L" by auto
  from v'(1) obtain w where w: "afb_api_dbus_server_destination_unref d ?w = Some w" "v' = w\<lparr>ds_listeners := ?L\<rparr>" unfolding destination_unref_frame by blast
  then have "ds_listeners w = ds_listeners v" by (auto simp: afb_api_dbus_server_destination_unref_def Let_def split: option.splits if_splits)
  then show ?thesis using Some l w v'(2,3) by (simp add: cookie_free_def afb_api_dbus_server_listener_free_def)
qed


lemma listerner_get_inv:
  assumes "dbus_inv (\<lambda>_. 0) v" "case le_destination env of None \<Rightarrow> True | Some a \<Rightarrow> a \<notin> dt_addr ` set (ds_destinations v)"
    and "case le_listener env of None \<Rightarrow> True | Some l \<Rightarrow> l \<notin> dom (ds_listeners v)"
  shows "\<exists>v' r. afb_api_dbus_server_listerner_get env sender session v = Some (v', r) \<and> dbus_inv (\<lambda>_. 0) v'
    \<and> (\<forall>l. r = Some l \<longrightarrow> (\<exists>d \<in> set (ds_destinations v'). dt_name d = sender \<and> l \<in> listeners_to v' (dt_addr d)))"
proof -
  obtain v1 r where get: "afb_api_dbus_server_destination_get (le_destination env) sender v = (v1, r)" by (cases "afb_api_dbus_server_destination_get (le_destination env) sender v")
  show ?thesis
  proof (cases r)
    case None
    then show ?thesis using get assms(1) destination_get_inv [OF assms(1,2), of sender] by (simp add: afb_api_dbus_server_listerner_get_def)
  next
    case (Some d)
    from destination_get_inv [OF assms(1,2), of sender] get Some
    have inv: "dbus_inv ((\<lambda>_. 0)(d := 1)) v1" "ds_cookies v1 = ds_cookies v" "ds_listeners v1 = ds_listeners v"
      and dest: "\<exists>e \<in> set (ds_destinations v1). dt_addr e = d \<and> dt_name e = sender" by simp_all
    from destination_unref_inv [OF inv(1), of d] obtain v2 where
      v2: "afb_api_dbus_server_destination_unref d v1 = Some v2" "dbus_inv (\<lambda>_. 0) v2" "ds_cookies v2 = ds_cookies v1" "ds_listeners v2 = ds_listeners v1" by auto
    show ?thesis
    proof (cases "ds_cookies v1 (session, d)")
      case None
      show ?thesis
      proof (cases "\<exists>l e. le_listener env = Some l \<and> le_evt env = Some e \<and> le_cookie env")
        case True
        then obtain l e where le: "le_listener env = Some l" "le_evt env = Some e" "le_cookie env" by blast
        then have "ds_listeners v1 l = None" using assms(3) inv(3) by (auto simp: domIff)
        from listener_new_inv [OF inv(1) _ this None, of e] dest show ?thesis
          using get Some None le by (fastforce simp: afb_api_dbus_server_listerner_get_def listeners_to_def)
      next
        case False
        then show ?thesis using get Some None v2 by (auto simp: afb_api_dbus_server_listerner_get_def split: option.split)
      qed
    next
      case k: (Some l)
      then obtain e where e: "ds_listeners v2 l = Some \<lparr>dl_destination = d, dl_listener = e\<rparr>" using cookie_invD [OF v2(2), of session d l] v2(3) by auto
      then have l: "l \<in> listeners_to v2 d" by (simp add: listeners_to_def)
      with finite_listeners [OF v2(2), of d] have "d \<in> dt_addr ` set (ds_destinations v2)"
        using dest_invD(2) [OF v2(2), of d] by (auto simp: dest_refs_def)
      then obtain d2 where d2: "d2 \<in> set (ds_destinations v2)" "dt_addr d2 = d" by blast
      from destination_unref_names [OF v2(1) d2(1)] obtain d1 where d1: "d1 \<in> set (ds_destinations v1)" "dt_addr d1 = d" "dt_name d1 = dt_name d2" using d2(2) by auto
      from dest obtain d0 where d0: "d0 \<in> set (ds_destinations v1)" "dt_addr d0 = d" "dt_name d0 = sender" by blast
      have "inj_on dt_addr (set (ds_destinations v1))" using dest_invD(3) [OF inv(1)] by (simp add: distinct_map)
      then have "d1 = d0" by (rule inj_onD) (simp_all add: d1 d0)
      then have "dt_name d2 = sender" using d1 d0 by simp
      then show ?thesis using get Some k v2 l d2 by (auto simp: afb_api_dbus_server_listerner_get_def)
    qed
  qed
qed


text \<open>What happens to the listeners of a server: a call of a client looks for its listener, with memory that is not in use; a session that ends frees its cookies; anything
  else leaves the tables alone.\<close>

inductive dbus_reach :: "dbus_server \<Rightarrow> bool" where
  start: "ds_destinations v = [] \<Longrightarrow> ds_listeners v = Map.empty \<Longrightarrow> ds_cookies v = Map.empty \<Longrightarrow> dbus_reach v"
| call: "dbus_reach v \<Longrightarrow> (case le_destination env of None \<Rightarrow> True | Some a \<Rightarrow> a \<notin> dt_addr ` set (ds_destinations v))
    \<Longrightarrow> (case le_listener env of None \<Rightarrow> True | Some l \<Rightarrow> l \<notin> dom (ds_listeners v))
    \<Longrightarrow> afb_api_dbus_server_listerner_get env sender session v = Some (v', r) \<Longrightarrow> dbus_reach v'"
| close: "dbus_reach v \<Longrightarrow> cookie_free session d v = Some v' \<Longrightarrow> dbus_reach v'"
| other: "dbus_reach v \<Longrightarrow> ds_destinations v' = ds_destinations v \<Longrightarrow> ds_listeners v' = ds_listeners v \<Longrightarrow> ds_cookies v' = ds_cookies v \<Longrightarrow> dbus_reach v'"

lemma dbus_reach_inv: "dbus_reach v \<Longrightarrow> dbus_inv (\<lambda>_. 0) v"
proof (induction rule: dbus_reach.induct)
  case (start v)
  then show ?case by (simp add: dbus_inv_def dest_refs_def listeners_to_def)
next
  case (call v env sender session v' r)
  then show ?case using listerner_get_inv [of v env sender session] by auto
next
  case (close v session d v')
  then show ?case using cookie_free_inv [of v session d] by auto
next
  case (other v v')
  have "listeners_to v' = listeners_to v" by (simp add: listeners_to_def fun_eq_iff other)
  then show ?case using other unfolding dbus_inv_def dest_refs_def by simp
qed

lemma dbus_reach_facts:
  assumes "dbus_reach v"
  shows "distinct (map dt_name (ds_destinations v))"
    and "d \<in> set (ds_destinations v) \<Longrightarrow> dt_refcount d = int (card {l. \<exists>li. ds_listeners v l = Some li \<and> dl_destination li = dt_addr d}) \<and> 0 < dt_refcount d"
    and "ds_listeners v l = Some li \<Longrightarrow> (\<exists>d \<in> set (ds_destinations v). dt_addr d = dl_destination li) \<and> (\<exists>!k. ds_cookies v k = Some l)"
    and "\<exists>v'. cookie_free session a v = Some v' \<and> dbus_reach v' \<and> ds_cookies v' (session, a) = None"
    and "le_destination env = None \<or> the (le_destination env) \<notin> dt_addr ` set (ds_destinations v) \<Longrightarrow> le_listener env = None \<or> the (le_listener env) \<notin> dom (ds_listeners v)
      \<Longrightarrow> \<exists>v' r. afb_api_dbus_server_listerner_get env sender session v = Some (v', r) \<and> dbus_reach v'
        \<and> (\<forall>l. r = Some l \<longrightarrow> (\<exists>li d. ds_listeners v' l = Some li \<and> d \<in> set (ds_destinations v') \<and> dt_addr d = dl_destination li \<and> dt_name d = sender))"
    and "ds_cookies v = Map.empty \<Longrightarrow> ds_destinations v = []"
proof -
  note inv = dbus_reach_inv [OF assms]
  show "distinct (map dt_name (ds_destinations v))" by (rule dest_invD(4) [OF inv])
  show *: "dt_refcount d = int (card {l. \<exists>li. ds_listeners v l = Some li \<and> dl_destination li = dt_addr d}) \<and> 0 < dt_refcount d" if "d \<in> set (ds_destinations v)" for d
    using dest_invD(1) [OF inv that] by (simp add: dest_refs_def listeners_to_def)
  show "(\<exists>d \<in> set (ds_destinations v). dt_addr d = dl_destination li) \<and> (\<exists>!k. ds_cookies v k = Some l)" if "ds_listeners v l = Some li"
  proof
    from that have "l \<in> listeners_to v (dl_destination li)" by (simp add: listeners_to_def)
    with finite_listeners [OF inv, of "dl_destination li"] have "dl_destination li \<in> dt_addr ` set (ds_destinations v)"
      using dest_invD(2) [OF inv, of "dl_destination li"] by (auto simp: dest_refs_def)
    then show "\<exists>d \<in> set (ds_destinations v). dt_addr d = dl_destination li" by auto
    from that have "l \<in> dom (ds_listeners v)" by blast
    with inv have "\<exists>k. ds_cookies v k = Some l" unfolding dbus_inv_def by blast
    then show "\<exists>!k. ds_cookies v k = Some l" using cookie_unique [OF inv] by blast
  qed
  show "\<exists>v'. cookie_free session a v = Some v' \<and> dbus_reach v' \<and> ds_cookies v' (session, a) = None"
    using cookie_free_inv [OF inv, of session a] dbus_reach.close [OF assms, of session a] by blast
  show "\<exists>v' r. afb_api_dbus_server_listerner_get env sender session v = Some (v', r) \<and> dbus_reach v'
        \<and> (\<forall>l. r = Some l \<longrightarrow> (\<exists>li d. ds_listeners v' l = Some li \<and> d \<in> set (ds_destinations v') \<and> dt_addr d = dl_destination li \<and> dt_name d = sender))"
    if "le_destination env = None \<or> the (le_destination env) \<notin> dt_addr ` set (ds_destinations v)" "le_listener env = None \<or> the (le_listener env) \<notin> dom (ds_listeners v)"
  proof -
    from that have env: "case le_destination env of None \<Rightarrow> True | Some a \<Rightarrow> a \<notin> dt_addr ` set (ds_destinations v)"
      "case le_listener env of None \<Rightarrow> True | Some l \<Rightarrow> l \<notin> dom (ds_listeners v)" by (auto split: option.split)
    from listerner_get_inv [OF inv env, of sender session] dbus_reach.call [OF assms env, of sender session] show ?thesis by (fastforce simp: listeners_to_def)
  qed
  show "ds_destinations v = []" if "ds_cookies v = Map.empty"
  proof (rule ccontr)
    assume "ds_destinations v \<noteq> []"
    then obtain d where d: "d \<in> set (ds_destinations v)" by (meson hd_in_set)
    then have "{l. \<exists>li. ds_listeners v l = Some li \<and> dl_destination li = dt_addr d} \<noteq> {}" using * [OF d] by (intro notI) auto
    then obtain l where "l \<in> dom (ds_listeners v)" by blast
    with inv that show False unfolding dbus_inv_def by auto
  qed
qed


text \<open>A server on which two sessions of one client and a session of another one have listeners.\<close>

definition three_listeners :: "dbus_server \<Rightarrow> dbus_server option" where
  "three_listeners v = do {
     (v1, l1) \<leftarrow> afb_api_dbus_server_listerner_get \<lparr>le_destination = Some 10, le_listener = Some 20, le_evt = Some 30, le_cookie = True\<rparr> '':1.1'' 1 v;
     (v2, l2) \<leftarrow> afb_api_dbus_server_listerner_get \<lparr>le_destination = Some 11, le_listener = Some 21, le_evt = Some 31, le_cookie = True\<rparr> '':1.1'' 2 v1;
     (v3, l3) \<leftarrow> afb_api_dbus_server_listerner_get \<lparr>le_destination = Some 12, le_listener = Some 22, le_evt = Some 32, le_cookie = True\<rparr> '':1.2'' 3 v2;
     Some v3 }"


section \<open>The session of a request\<close>

definition dbus_req_drop :: "dbus_server \<Rightarrow> int \<Rightarrow> string \<Rightarrow> sessions \<Rightarrow> 'j dbus_req \<Rightarrow> (sessions \<times> 'j dbus_req option) option" where
  "dbus_req_drop v now newuuid s r = map_option (\<lambda>(v', q). (ds_sessions v', q)) (dbus_req_unref now newuuid (v\<lparr>ds_sessions := s\<rparr>, r))"

interpretation dbus_req_holder: request_holder dq_refcount dq_context dbus_req_addref "dbus_req_drop v" for v
  by unfold_locales (auto simp: dbus_req_drop_def dbus_req_addref_def dbus_req_unref_def map_option_case Let_def split: option.splits)

lemma dbus_req_session_given_back_once:
  assumes "dq_refcount r = 1" "session_inv s" "ac_session (dq_context r) = Some a" "0 < session_refs s a" "length nu = 36"
  shows "\<exists>s'. dbus_req_holder.drops v (Suc n) now nu s (Some ((dbus_req_addref ^^ n) r)) = Some (s', None) \<and> session_inv s'
    \<and> session_refs s' = (session_refs s)(a := session_refs s a - 1)"
  by (rule dbus_req_holder.session_given_back_once [OF assms])

end
