(* ===== verification/Ws_Client.thy ===== *)
theory Ws_Client
  imports Upgrade Wsj1
begin

unbundle bit_operations_syntax

text \<open>
  The client side of a websocket, \<^verbatim>\<open>src/src/afb-ws-client.c\<close>: the uri, the handshake and the connection.

  What is read from the socket is a list of outcomes of reads, bytes, interruptions and errors; at its end the peer has closed and reads return nothing. The reads are
  made into a buffer that keeps what was there before. The random numbers, the addresses of a host and the answers of the system are arguments.
\<close>

section \<open>The request\<close>

definition compkeys :: "string list" where
  "compkeys = [
     ''lYKr2sn9+ILcLpkqdrE2VQ=='', ''G5J7ncQnmS/MubIYcqKWM+E6k8I='',
     ''gjN6eOU/6Yy7dBTJ+EaQSw=='', ''P5QzN7mRt4DeRWxKdG7s4/NCEwk='',
     ''ziLin6OQ0/a1+cGaI9Mupg=='', ''yvpxcFJAGam6huL77vz34CdShyU='',
     ''KMfd2bHKah0U5mk2Kg/LIg=='', ''lyYxfDP5YunhkBF+nAWb/w6K4yg='',
     ''fQ/ISF1mNCPRMyAj3ucqNg=='', ''91YY1EUelb4eMU24Z8WHhJ9cHmc='',
     ''RHlfiVVE1lM1AJnErI8dFg=='', ''UdZQc0JaihQJV5ETCZ84Av88pxQ='',
     ''NVy3L2ujXN7v3KEJwK92ww=='', ''+dE7iITxhExjBtf06VYNWChHqx8='',
     ''cCNAgttlgELfbDDIfhujww=='', ''W2JiswqbTAXx5u84EtjbtqAW2Bg='',
     ''K+oQvEDWJP+WXzRS5BJDFw=='', ''szgW10a9AuD+HtfS4ylaqWfzWAs='',
     ''nmg43S4DpVaxye+oQv9KTw=='', ''8XK74jB9xFfTzzl0wTqW04k3tPE='',
     ''LIqZ23sEppbF4YJR9LQ4/w=='', ''f8lJBQEbR8QmmvPHZpA0smlIeeA='',
     ''WY1vvvY2j/3V9DAGW3ZZcA=='', ''lROlE4vL4cjU1Vnk6rISc9gVKN0='',
     ''Ia+dgHnA9QaBrbxuqh4wgQ=='', ''GiGjxFdSaF0EGTl2cjvFsVmJnfM='',
     ''MfpIVG082jFTV7SxTNNijQ=='', ''f5I2h53hBsT5ES3EHhnxAJ2nqsw='',
     ''kFumnAw5d/WctG0yAUHPiQ=='', ''aQQmOjoABl7mrbliTPS1bOkndOs='',
     ''MHiEc+Qc8w/SJ3zMHEM8pA=='', ''FVCxLBmoil3gY0jSX3aNJ6kR/t4='']"

text \<open>\<open>rand\<close> gives a number that is not negative.\<close>

function fold_random :: "nat \<Rightarrow> nat" where
  "fold_random r = (if 15 < r then fold_random ((r AND 15) + drop_bit 4 r) else r)"
  by auto
termination
proof (relation "measure id")
  fix r :: nat
  assume "15 < r"
  moreover have "(r AND 15) + drop_bit 4 r = r mod 16 + r div 16" by (simp add: and_low drop_bit_eq_div)
  moreover have "r = 16 * (r div 16) + r mod 16" "15 < r \<Longrightarrow> 0 < r div 16" by simp_all
  ultimately have "(r AND 15) + drop_bit 4 r < r" by linarith
  then show "((r AND 15) + drop_bit 4 r, r) \<in> measure id" by simp
qed simp

definition getkeypair :: "nat \<Rightarrow> string \<times> string" where
  "getkeypair rand = (let r = push_bit 1 (fold_random rand AND 15) in (compkeys ! r, compkeys ! (r + 1)))"

text \<open>\<open>stpcpy\<close> into a block of memory: the block and the offset of the final zero; \<open>None\<close> when it is too small.\<close>

definition stpcpy :: "nat \<Rightarrow> string \<Rightarrow> string \<Rightarrow> (string \<times> nat) option" where
  "stpcpy off s mem =
     (if off + length s + 1 \<le> length mem then Some (take off mem @ s @ [NUL] @ drop (off + length s + 1) mem, off + length s) else None)"

fun join_rest :: "string \<Rightarrow> string list \<Rightarrow> string \<times> nat \<Rightarrow> (string \<times> nat) option" where
  "join_rest separ [] st = Some st"
| "join_rest separ (s # ss) (mem, iter) =
     do { (mem1, iter1) \<leftarrow> stpcpy iter separ mem; (mem2, iter2) \<leftarrow> stpcpy iter1 s mem1; join_rest separ ss (mem2, iter2) }"

text \<open>The strings are a list that a null pointer ends: a negative count is the count of all of them. \<open>garbage\<close> is what \<open>malloc\<close> gives, \<open>Inl\<close> the error.\<close>

definition strjoin :: "(nat \<Rightarrow> string) option \<Rightarrow> int \<Rightarrow> string list \<Rightarrow> string \<Rightarrow> (errno + string) option" where
  "strjoin garbage count strings separ =
     (let n = (if count < 0 then length strings else nat count);
          len = (if n = 0 then 0 else (n - 1) * length separ + sum_list (map length (take n strings)))
      in case garbage of
           None \<Rightarrow> Some (Inl ENOMEM)
         | Some g \<Rightarrow>
             (case take n strings of
                [] \<Rightarrow> Some (Inr (cstr ((g (len + 1))[len := NUL])))
              | s # ss \<Rightarrow> do { st \<leftarrow> stpcpy 0 s (g (len + 1)); (mem, iter) \<leftarrow> join_rest separ ss st; Some (Inr (cstr (mem[len := NUL]))) }))"

abbreviation "CRLF \<equiv> [CHR 0x0D, CHR 0x0A]"

definition make_request :: "bool \<Rightarrow> string \<Rightarrow> string \<Rightarrow> string \<Rightarrow> string \<Rightarrow> string option" where
  "make_request asprintf_ok path host key protocols =
     (if \<not> asprintf_ok then None
      else Some (''GET '' @ path @ '' HTTP/1.1'' @ CRLF
        @ ''Host: '' @ host @ CRLF
        @ ''Upgrade: websocket'' @ CRLF
        @ ''Connection: Upgrade'' @ CRLF
        @ ''Sec-WebSocket-Version: 13'' @ CRLF
        @ ''Sec-WebSocket-Key: '' @ key @ CRLF
        @ ''Sec-WebSocket-Protocol: '' @ protocols @ CRLF
        @ ''Content-Length: 0'' @ CRLF
        @ CRLF))"

text \<open>What the system answers to a connection: memory, the random number, whether the request can be written.\<close>

record client_env =
  ce_garbage :: "(nat \<Rightarrow> string) option"
  ce_asprintf :: bool
  ce_rand :: nat
  ce_write :: bool

text \<open>The results: what is written on the socket, and the expected accept value.\<close>

definition send_request :: "client_env \<Rightarrow> string list \<Rightarrow> string \<Rightarrow> string \<Rightarrow> (string \<times> string option) option" where
  "send_request env protocols path host =
     do { r \<leftarrow> strjoin (ce_garbage env) (-1) protocols '', '';
          case r of
            Inl _ \<Rightarrow> Some ([], None)
          | Inr protolist \<Rightarrow>
              (let (key, ack) = getkeypair (ce_rand env) in
               case make_request (ce_asprintf env) path host key protolist of
                 None \<Rightarrow> Some ([], None)
               | Some request \<Rightarrow> Some (if ce_write env then (request, Some ack) else ([], None))) }"

section \<open>Lines of the response\<close>

datatype rd = Rd char | Rintr | Rerr

text \<open>A read of one byte, repeated when it is interrupted: \<open>None\<close> is an error, \<open>Some None\<close> the end.\<close>

fun read_byte :: "rd list \<Rightarrow> rd list \<times> char option option" where
  "read_byte [] = ([], Some None)"
| "read_byte (Rintr # i) = read_byte i"
| "read_byte (Rerr # i) = (i, None)"
| "read_byte (Rd c # i) = (i, Some (Some c))"

text \<open>The size is that of the buffer. At the end of what can be read the byte that is tested is the one that was in the buffer.\<close>

function receive_line :: "string \<Rightarrow> rd list \<Rightarrow> nat \<Rightarrow> bool \<Rightarrow> string \<times> rd list \<times> nat option" where
  "receive_line line inp len cr =
     (if length line \<le> len then (line, inp, None)
      else (case read_byte inp of
          (inp1, None) \<Rightarrow> (line, inp1, None)
        | (inp1, Some b) \<Rightarrow>
            (let line1 = (case b of None \<Rightarrow> line | Some c \<Rightarrow> line[len := c]) in
             if line1 ! len = CHR 0x0D then receive_line line1 inp1 (len + 1) True
             else if cr \<and> line1 ! len = CHR 0x0A then (line1[len - 1 := NUL], inp1, Some (len - 1))
             else receive_line line1 inp1 (len + 1) False)))"
  by pat_completeness auto
termination by (relation "measure (\<lambda>(line, inp, len, cr). length line - len)") (auto split: option.splits)

declare receive_line.simps [simp del] fold_random.simps [simp del]

definition isheader :: "string \<Rightarrow> nat \<Rightarrow> string \<Rightarrow> bool" where
  "isheader head klen key \<longleftrightarrow> strncasecmp head key klen = 0 \<and> cat key klen = NUL"

definition strcspn :: "string \<Rightarrow> string \<Rightarrow> nat" where
  "strcspn s rej = length (takeWhile (\<lambda>c. c \<notin> set rej) s)"

definition strspn :: "string \<Rightarrow> string \<Rightarrow> nat" where
  "strspn s acc = length (takeWhile (\<lambda>c. c \<in> set acc) s)"


section \<open>The response\<close>

text \<open>What the scan of the headers keeps: the error, the protocol, the length of the content and the length of the last name.\<close>

record scan =
  sc_haserr :: bool
  sc_result :: int
  sc_clen :: "64 word"
  sc_len :: nat

definition find_protocol :: "string list \<Rightarrow> string \<Rightarrow> int" where
  "find_protocol protocols it = int (case first_index (\<lambda>p. p = it) protocols of Some i \<Rightarrow> i | None \<Rightarrow> length protocols)"

text \<open>A line of the header: the buffer, where the value is ended by a zero, and the scan.\<close>

definition scan_header :: "string list \<Rightarrow> string \<Rightarrow> string \<Rightarrow> scan \<Rightarrow> string \<times> scan" where
  "scan_header protocols ack buf sc =
     (let line = cstr buf; len = strcspn line '': ''; sc = sc\<lparr>sc_len := len\<rparr> in
      if len \<noteq> 0 \<and> cat line len = CHR '':'' then
        (let off = len + 1 + strspn (drop (len + 1) line) '' ,'';
             vlen = strcspn (drop off line) '' ,'';
             it = take vlen (drop off line)
         in (buf[off + vlen := NUL],
             if isheader line len ''Sec-WebSocket-Accept'' then (if it \<noteq> ack then sc\<lparr>sc_haserr := True\<rparr> else sc)
             else if isheader line len ''Sec-WebSocket-Protocol'' then sc\<lparr>sc_result := find_protocol protocols it\<rparr>
             else if isheader line len ''Upgrade'' then (if it \<noteq> ''websocket'' then sc\<lparr>sc_haserr := True\<rparr> else sc)
             else if isheader line len ''Content-Length'' then sc\<lparr>sc_clen := word_of_int (atoi it)\<rparr>
             else sc))
      else (buf, sc))"

text \<open>A line that is received ends with a carriage return that becomes a zero: with the bytes that are still to read, they go down.\<close>

definition response_rank :: "string \<Rightarrow> rd list \<Rightarrow> nat" where
  "response_rank line inp = 2 * length inp + count_list line (CHR 0x0D)"

lemma count_list_update: "i < length xs \<Longrightarrow> count_list (xs[i := x]) c + (if xs ! i = c then 1 else 0) = count_list xs c + (if x = c then 1 else 0)"
proof (induction xs arbitrary: i)
  case (Cons y ys)
  show ?case
  proof (cases i)
    case (Suc j)
    with Cons.prems have "j < length ys" by simp
    with Suc Cons.IH [OF this] show ?thesis by (cases "y = c") simp_all
  qed auto
qed simp

lemma count_list_update_le: "x \<noteq> c \<Longrightarrow> count_list (xs[i := x]) c \<le> count_list xs c"
  using count_list_update [of i xs x c] by (cases "i < length xs") (auto simp: list_update_beyond)

lemma read_byte_length: "read_byte inp = (inp1, b) \<Longrightarrow> length inp1 + (if b = Some None then 0 else 1) \<le> length inp"
  by (induction inp rule: read_byte.induct) (auto split: if_splits)

lemma receive_line_rank:
  assumes "receive_line line inp len cr = (line', inp', Some n)" "cr \<longrightarrow> 0 < len \<and> line ! (len - 1) = CHR 0x0D"
  shows "response_rank line' inp' < response_rank line inp"
  using assms
proof (induction line inp len cr rule: receive_line.induct)
  case (1 line inp len cr)
  obtain inp1 ob where rb: "read_byte inp = (inp1, ob)" by (cases "read_byte inp")
  from 1(3) rb have len: "len < length line" and ob: "ob \<noteq> None" by (auto simp: receive_line.simps [of line] split: if_splits option.splits)
  then obtain b where b: "ob = Some b" by auto
  let ?line1 = "case b of None \<Rightarrow> line | Some c \<Rightarrow> line[len := c]"
  have l1: "length ?line1 = length line" "len - 1 < length ?line1" using len by (auto split: option.split)
  have rank: "response_rank ?line1 inp1 \<le> response_rank line inp"
  proof (cases b)
    case (Some c)
    have "count_list (line[len := c]) (CHR 0x0D) \<le> count_list line (CHR 0x0D) + 1" using count_list_update [OF len, of c "CHR 0x0D"] by (auto split: if_splits)
    moreover have "length inp1 + 1 \<le> length inp" using read_byte_length [OF rb] b Some by simp
    ultimately show ?thesis unfolding response_rank_def Some option.case by linarith
  qed (use read_byte_length [OF rb] b in \<open>simp add: response_rank_def\<close>)
  have keep: "cr \<longrightarrow> ?line1 ! (len - 1) = CHR 0x0D" using 1(4) by (auto split: option.split)
  show ?case
  proof (cases "?line1 ! len = CHR 0x0D")
    case True
    then have "receive_line ?line1 inp1 (len + 1) True = (line', inp', Some n)" using 1(3) rb b len by (simp add: receive_line.simps [of line])
    then have "response_rank line' inp' < response_rank ?line1 inp1" using 1(1) [OF _ rb [symmetric] b refl True] len True by simp
    then show ?thesis using rank by simp
  next
    case False
    show ?thesis
    proof (cases "cr \<and> ?line1 ! len = CHR 0x0A")
      case True
      then have r: "line' = ?line1[len - 1 := NUL]" "inp' = inp1" using 1(3) rb b len False by (auto simp: receive_line.simps [of line])
      have "count_list (?line1[len - 1 := NUL]) (CHR 0x0D) < count_list ?line1 (CHR 0x0D)"
        using count_list_update [OF l1(2), of NUL "CHR 0x0D"] keep True by (simp add: NUL_def)
      then show ?thesis using rank unfolding r response_rank_def by simp
    next
      case no: False
      then have "receive_line ?line1 inp1 (len + 1) False = (line', inp', Some n)" using 1(3) rb b len False by (auto simp: receive_line.simps [of line])
      then have "response_rank line' inp' < response_rank ?line1 inp1" using 1(2) [OF _ rb [symmetric] b refl False no] len by simp
      then show ?thesis using rank by simp
    qed
  qed
qed

lemma scan_header_rank: "response_rank (fst (scan_header protocols ack buf sc)) inp \<le> response_rank buf inp"
  by (simp add: scan_header_def Let_def response_rank_def count_list_update_le NUL_def)

lemma headers_rank:
  assumes "receive_line buf inp 0 False = (buf1, inp1, Some rc)" "scan_header protocols ack buf1 sc = (buf2, sc2)"
  shows "response_rank buf2 inp1 < response_rank buf inp"
  using receive_line_rank [OF assms(1)] scan_header_rank [of protocols ack buf1 sc inp1] assms(2) by simp

text \<open>The headers up to an empty line: the buffer, the rest of the input and the scan, or an error.\<close>

function receive_headers :: "string list \<Rightarrow> string \<Rightarrow> string \<Rightarrow> rd list \<Rightarrow> scan \<Rightarrow> rd list \<times> scan option" where
  "receive_headers protocols ack buf inp sc =
     (case receive_line buf inp 0 False of
        (buf1, inp1, None) \<Rightarrow> (inp1, None)
      | (buf1, inp1, Some rc) \<Rightarrow>
          if rc = 0 then (inp1, Some sc)
          else (case scan_header protocols ack buf1 sc of (buf2, sc2) \<Rightarrow> receive_headers protocols ack buf2 inp1 sc2))"
  by pat_completeness auto
termination
  by (relation "measure (\<lambda>(protocols, ack, buf, inp, sc). response_rank buf inp)") (use headers_rank in \<open>auto simp: eq_commute\<close>)

declare receive_headers.simps [simp del]


text \<open>A read of a block of bytes, of which the system gives \<open>got\<close>.\<close>

fun drop_bytes :: "nat \<Rightarrow> rd list \<Rightarrow> rd list" where
  "drop_bytes (Suc k) (Rd c # i) = drop_bytes k i"
| "drop_bytes k i = i"

fun read_block :: "(nat \<Rightarrow> nat) \<Rightarrow> nat \<Rightarrow> rd list \<Rightarrow> rd list" where
  "read_block got k (Rintr # i) = read_block got k i"
| "read_block got k (Rerr # i) = i"
| "read_block got k i = drop_bytes (got k) i"

text \<open>The last block is read with the length of the last header name.\<close>

definition skip_content :: "(nat \<Rightarrow> nat) \<Rightarrow> nat \<Rightarrow> scan \<Rightarrow> rd list \<Rightarrow> rd list" where
  "skip_content got bufsize sc inp =
     (let inp1 = (read_block got bufsize ^^ (unat (sc_clen sc) div bufsize)) inp in
      if 0 < unat (sc_clen sc) mod bufsize then read_block got (sc_len sc) inp1 else inp1)"

text \<open>The result is \<open>-1\<close> on an error; \<open>buf\<close> is what the buffer has on entry.\<close>

definition receive_response :: "(nat \<Rightarrow> nat) \<Rightarrow> string \<Rightarrow> string list \<Rightarrow> string \<Rightarrow> rd list \<Rightarrow> rd list \<times> int" where
  "receive_response got buf protocols ack inp =
     (case receive_line buf inp 0 False of
        (buf1, inp1, None) \<Rightarrow> (inp1, -1)
      | (buf1, inp1, Some rc) \<Rightarrow>
          (let line = cstr buf1; len = strcspn line '' '' in
           if len \<noteq> 8 \<or> take 8 line \<noteq> ''HTTP/1.1'' then (inp1, -1)
           else let it = drop len line; len2 = strspn it '' '' in
             if len2 = 0 then (inp1, -1)
             else let it2 = drop len2 it; len3 = strcspn it2 '' '' in
               if len3 \<noteq> 3 \<or> take 3 it2 \<noteq> ''101'' then (inp1, -1)
               else (case receive_headers protocols ack buf1 inp1 \<lparr>sc_haserr = False, sc_result = -1, sc_clen = 0, sc_len = len3\<rparr> of
                   (inp2, None) \<Rightarrow> (inp2, -1)
                 | (inp2, Some sc) \<Rightarrow>
                     (skip_content got (length buf) sc inp2, if sc_haserr sc \<or> sc_result sc < 0 then -1 else sc_result sc))))"

text \<open>The results: what is written, what is left to read, and the protocol.\<close>

definition negociate :: "client_env \<Rightarrow> (nat \<Rightarrow> nat) \<Rightarrow> string \<Rightarrow> rd list \<Rightarrow> string list \<Rightarrow> string \<Rightarrow> string \<Rightarrow> (string \<times> rd list \<times> int) option" where
  "negociate env got buf inp protocols path host =
     do { (sent, ack) \<leftarrow> send_request env protocols path host;
          Some (case ack of None \<Rightarrow> (sent, inp, -1) | Some a \<Rightarrow> (sent, receive_response got buf protocols a inp)) }"

section \<open>The connection\<close>

definition parse_uri :: "bool \<Rightarrow> bool \<Rightarrow> string \<Rightarrow> errno + (string \<times> string \<times> string)" where
  "parse_uri strndup_ok strdup_ok uri =
     (let uri = (if take 5 uri = ''ws://'' then drop 5 uri else uri); hlen = strcspn uri '':/''; h = take hlen uri in
      if hlen = 0 then Inl EINVAL
      else let uri = drop hlen uri; port = (cat uri 0 = CHR '':''); p = drop 1 uri; plen = (if port then strcspn p ''/'' else 0) in
        if port \<and> plen = 0 then Inl EINVAL
        else let uri = (if port then drop plen p else uri) in
          if cat uri 0 \<noteq> CHR ''/'' then Inl EINVAL
          else if \<not> strndup_ok then Inl ENOMEM
          else if \<not> strdup_ok then Inl ENOMEM
          else Inr (h, if plen \<noteq> 0 then take plen p else ''http'', uri))"

definition proto_json1 :: "string list" where
  "proto_json1 = [''x-afb-ws-json1'']"

text \<open>An address of the host and what comes of it: the bytes of the address, the port, the descriptor, whether the connection is made, what the server sends and the
  protocol object that is created for the descriptor.\<close>

record 'w address =
  ai_ipv4 :: "nat \<times> nat \<times> nat \<times> nat"
  ai_port :: nat
  ai_socket :: "int option"
  ai_connect :: bool
  ai_input :: "rd list"
  ai_create :: "'w option"

text \<open>The name of the host for the request, in a buffer of 32 characters.\<close>

definition xhost :: "nat \<times> nat \<times> nat \<times> nat \<Rightarrow> nat \<Rightarrow> string option" where
  "xhost = (\<lambda>(a, b, c, d) port.
     let s = dec a @ ''.'' @ dec b @ ''.'' @ dec c @ ''.'' @ dec d @ '':'' @ dec (push_bit 8 (port div 256) OR port mod 256)
     in if length s + 1 \<le> 32 then Some s else None)"

text \<open>What is done to a descriptor.\<close>

datatype fd_action = Fd_sent int string | Fd_nonblock int | Fd_close int

fun try_addresses :: "client_env \<Rightarrow> (nat \<Rightarrow> nat) \<Rightarrow> string \<Rightarrow> string \<Rightarrow> 'w address list \<Rightarrow> (fd_action list \<times> 'w option) option" where
  "try_addresses env got buf path [] = Some ([], None)"
| "try_addresses env got buf path (a # as) =
     do { host \<leftarrow> xhost (ai_ipv4 a) (ai_port a);
          case ai_socket a of
            None \<Rightarrow> try_addresses env got buf path as
          | Some fd \<Rightarrow>
              do { (acts, created) \<leftarrow>
                     (if ai_connect a
                      then do { (sent, rest, rc) \<leftarrow> negociate env got buf (ai_input a) proto_json1 path host;
                                Some ([Fd_sent fd sent], if rc = 0 then ai_create a else None) }
                      else Some ([], None));
                   case created of
                     Some w \<Rightarrow> Some (acts @ [Fd_nonblock fd], Some w)
                   | None \<Rightarrow> do { (acts', r) \<leftarrow> try_addresses env got buf path as; Some (acts @ [Fd_close fd] @ acts', r) } } }"

text \<open>\<open>resolve\<close> is \<open>getaddrinfo\<close>.\<close>

definition afb_ws_client_connect_wsj1 ::
  "bool \<Rightarrow> bool \<Rightarrow> (string \<Rightarrow> string \<Rightarrow> 'w address list option) \<Rightarrow> client_env \<Rightarrow> (nat \<Rightarrow> nat) \<Rightarrow> string \<Rightarrow> string \<Rightarrow> (fd_action list \<times> 'w option) option" where
  "afb_ws_client_connect_wsj1 strndup_ok strdup_ok resolve env got buf uri =
     (case parse_uri strndup_ok strdup_ok uri of
        Inl _ \<Rightarrow> Some ([], None)
      | Inr (host, service, path) \<Rightarrow> (case resolve host service of None \<Rightarrow> Some ([], None) | Some as \<Rightarrow> try_addresses env got buf path as))"


section \<open>The request is what it must be\<close>

lemma fold_random_range: "fold_random r \<le> 15"
  by (induction r rule: fold_random.induct) (metis fold_random.simps not_le)

text \<open>Any random number chooses a pair of the table.\<close>

lemma getkeypair_pair: "\<exists>i < 16. getkeypair r = (compkeys ! (2 * i), compkeys ! (2 * i + 1))"
  using fold_random_range [of r] by (intro exI [of _ "fold_random r"]) (simp add: getkeypair_def Let_def and_low push_bit_eq_mult mult.commute)

lemma stpcpy_fits: "off = length p \<Longrightarrow> length p + length s + 1 \<le> length (p @ m) \<Longrightarrow> stpcpy off s (p @ m) = Some ((p @ s) @ NUL # drop (length s + 1) m, off + length s)"
  by (simp add: stpcpy_def)

definition join_strings :: "string \<Rightarrow> string list \<Rightarrow> string" where
  "join_strings separ ss = (case ss of [] \<Rightarrow> [] | s # r \<Rightarrow> s @ concat (map (\<lambda>t. separ @ t) r))"

lemma join_rest_fits:
  assumes "length p + length (concat (map (\<lambda>t. separ @ t) ss)) + 1 \<le> length (p @ m)"
  shows "\<exists>m'. join_rest separ ss (p @ m, length p) = Some ((p @ concat (map (\<lambda>t. separ @ t) ss)) @ m', length p + length (concat (map (\<lambda>t. separ @ t) ss)))
    \<and> length ((p @ concat (map (\<lambda>t. separ @ t) ss)) @ m') = length (p @ m)"
  using assms
proof (induction ss arbitrary: p m)
  case (Cons s ss)
  have 1: "stpcpy (length p) separ (p @ m) = Some ((p @ separ) @ NUL # drop (length separ + 1) m, length p + length separ)" using Cons.prems by (intro stpcpy_fits) auto
  have 2: "stpcpy (length p + length separ) s ((p @ separ) @ NUL # drop (length separ + 1) m) =
    Some (((p @ separ) @ s) @ NUL # drop (length s + 1) (NUL # drop (length separ + 1) m), length p + length separ + length s)"
    using Cons.prems by (intro stpcpy_fits) auto
  from Cons.IH [of "(p @ separ) @ s" "NUL # drop (length s + 1) (NUL # drop (length separ + 1) m)"] Cons.prems 1 2 show ?case by (fastforce simp: add_ac)
qed simp

text \<open>The strings are joined in a block that is large enough for them.\<close>

lemma strjoin_eq:
  assumes "\<And>n. length (g n) = n" "\<forall>s \<in> set strings. is_cstring s" "is_cstring separ"
  shows "strjoin (Some g) (-1) strings separ = Some (Inr (join_strings separ strings))"
proof (cases strings)
  case Nil
  have "cstr ((g 1)[0 := NUL]) = []" using assms(1) [of 1] by (cases "g 1") (auto simp: cstr_def)
  then show ?thesis using Nil by (simp add: strjoin_def join_strings_def)
next
  case (Cons s ss)
  let ?j = "s @ concat (map (\<lambda>t. separ @ t) ss)" and ?len = "length ss * length separ + (length s + sum_list (map length ss))"
  have len: "?len = length ?j" by (induction ss) (auto simp: add_ac)
  have 1: "stpcpy 0 s (g (?len + 1)) = Some (s @ NUL # drop (length s + 1) (g (?len + 1)), length s)"
    using stpcpy_fits [of 0 "[]" s "g (?len + 1)"] assms(1) by simp
  from join_rest_fits [of s separ ss "NUL # drop (length s + 1) (g (?len + 1))"] obtain m' where
    2: "join_rest separ ss (s @ NUL # drop (length s + 1) (g (?len + 1)), length s) = Some (?j @ m', length ?j)" and
    l: "length (?j @ m') = length (s @ NUL # drop (length s + 1) (g (?len + 1)))" using assms(1) len by auto
  have "length m' = 1" using l len assms(1) by simp
  then obtain c where "m' = [c]" by (cases m') auto
  moreover have "NUL \<notin> set ?j" using assms(2,3) Cons by (auto simp: is_cstring_def)
  ultimately have "cstr ((?j @ m')[?len := NUL]) = ?j" unfolding len by (simp add: cstr_def list_update_append takeWhile_append)
  then show ?thesis using Cons 1 2 by (simp add: strjoin_def Let_def join_strings_def del: list_update_append)
qed

text \<open>The format of a message of HTTP.\<close>

definition http_message :: "string \<Rightarrow> (string \<times> string) list \<Rightarrow> string" where
  "http_message start headers = start @ CRLF @ concat (map (\<lambda>(n, v). n @ '': '' @ v @ CRLF) headers) @ CRLF"

definition request_headers :: "string \<Rightarrow> string \<Rightarrow> string \<Rightarrow> (string \<times> string) list" where
  "request_headers host key protolist =
     [(''Host'', host), (''Upgrade'', ''websocket''), (''Connection'', ''Upgrade''), (''Sec-WebSocket-Version'', ''13''), (''Sec-WebSocket-Key'', key),
      (''Sec-WebSocket-Protocol'', protolist), (''Content-Length'', ''0'')]"

lemma make_request_message: "make_request True path host key protolist = Some (http_message (''GET '' @ path @ '' HTTP/1.1'') (request_headers host key protolist))"
  by (simp add: make_request_def http_message_def request_headers_def)

lemma dec_length: "n < 10 ^ k \<Longrightarrow> 0 < k \<Longrightarrow> length (dec n) \<le> k"
proof (induction n arbitrary: k rule: dec.induct)
  case (1 n)
  show ?case
  proof (cases "n < 10")
    case False
    with 1(2,3) obtain l where k: "k = Suc l" "0 < l" by (cases k; cases "k - 1") auto
    have "n div 10 < 10 ^ l" using 1(2) k by (simp add: less_mult_imp_div_less mult.commute)
    with 1(1) [OF False, of l] k False show ?thesis by (simp add: dec.simps [of n])
  qed (use 1(3) in \<open>simp add: dec.simps [of n]\<close>)
qed

text \<open>The name of any address fits its buffer.\<close>

lemma xhost_fits:
  assumes "a < 256" "b < 256" "c < 256" "d < 256" "port < 65536"
  shows "xhost (a, b, c, d) port = Some (dec a @ ''.'' @ dec b @ ''.'' @ dec c @ ''.'' @ dec d @ '':'' @ dec port)"
proof -
  have "push_bit 8 (drop_bit 8 port) OR take_bit 8 port = port"
    by (rule bit_eqI) (auto simp: bit_or_iff bit_push_bit_iff bit_drop_bit_eq bit_take_bit_iff)
  then have p: "push_bit 8 (port div 256) OR port mod 256 = port" by (simp add: drop_bit_eq_div take_bit_eq_mod)
  have "length (dec a) \<le> 3" "length (dec b) \<le> 3" "length (dec c) \<le> 3" "length (dec d) \<le> 3" "length (dec port) \<le> 5"
    using assms by (auto intro!: dec_length)
  then show ?thesis unfolding xhost_def prod.case p by simp
qed


section \<open>The response of the server is accepted\<close>

lemma receive_line_text:
  assumes "CHR 0x0D \<notin> set t" "CHR 0x0A \<notin> set t" "length t + 2 \<le> length m"
  shows "receive_line (p @ m) (map Rd (t @ CRLF) @ i) (length p) cr = (p @ t @ [NUL, CHR 0x0A] @ drop (length t + 2) m, i, Some (length p + length t))"
  using assms
proof (induction t arbitrary: p m cr)
  case Nil
  then obtain a b m' where m: "m = a # b # m'" by (cases m; cases "tl m") auto
  have "receive_line (p @ m) (map Rd CRLF @ i) (length p) cr = receive_line (p @ CHR 0x0D # b # m') (Rd (CHR 0x0A) # i) (Suc (length p)) True"
    by (subst receive_line.simps) (simp add: m)
  also have "\<dots> = (p @ [NUL, CHR 0x0A] @ m', i, Some (length p))"
    by (subst receive_line.simps) (simp add: nth_append list_update_append)
  finally show ?case by (simp add: m)
next
  case (Cons c t)
  then obtain a m' where m: "m = a # m'" by (cases m) auto
  have "receive_line (p @ m) (map Rd ((c # t) @ CRLF) @ i) (length p) cr = receive_line ((p @ [c]) @ m') (map Rd (t @ CRLF) @ i) (length (p @ [c])) False"
    using Cons.prems by (subst receive_line.simps) (auto simp: m Let_def)
  also have "\<dots> = ((p @ [c]) @ t @ [NUL, CHR 0x0A] @ drop (length t + 2) m', i, Some (length (p @ [c]) + length t))"
    using Cons.prems by (intro Cons.IH) (auto simp: m)
  finally show ?case by (simp add: m)
qed

text \<open>A header that the client reads as it is: a name, and a value without the characters at which the scan ends.\<close>

definition plain_header :: "string \<times> string \<Rightarrow> bool" where
  "plain_header = (\<lambda>(n, v). n \<noteq> [] \<and> (\<forall>c \<in> set n. c \<notin> {NUL, CHR '':'', CHR '' '', CHR 0x0D, CHR 0x0A})
     \<and> (\<forall>c \<in> set v. c \<notin> {NUL, CHR 0x0D, CHR 0x0A}) \<and> length n + length v + 4 \<le> 4096)"

text \<open>The value up to a space or a comma.\<close>

definition first_value :: "string \<Rightarrow> string" where
  "first_value v = takeWhile (\<lambda>c. c \<notin> {CHR '' '', CHR '',''}) (dropWhile (\<lambda>c. c \<in> {CHR '' '', CHR '',''}) v)"

definition scan_value :: "string list \<Rightarrow> string \<Rightarrow> string \<times> string \<Rightarrow> scan \<Rightarrow> scan" where
  "scan_value protocols ack = (\<lambda>(n, v) sc.
     let sc = sc\<lparr>sc_len := length n\<rparr>; it = first_value v in
     if casekey n = casekey ''Sec-WebSocket-Accept'' then (if it \<noteq> ack then sc\<lparr>sc_haserr := True\<rparr> else sc)
     else if casekey n = casekey ''Sec-WebSocket-Protocol'' then sc\<lparr>sc_result := find_protocol protocols it\<rparr>
     else if casekey n = casekey ''Upgrade'' then (if it \<noteq> ''websocket'' then sc\<lparr>sc_haserr := True\<rparr> else sc)
     else if casekey n = casekey ''Content-Length'' then sc\<lparr>sc_clen := word_of_int (atoi it)\<rparr>
     else sc)"

lemma isheader_iff:
  assumes "is_cstring n" "is_cstring key"
  shows "isheader (n @ CHR '':'' # t) (length n) key \<longleftrightarrow> casekey n = casekey key"
proof -
  have "isheader (n @ CHR '':'' # t) (length n) key \<longleftrightarrow> casekey n = casekey (take (length n) key) \<and> length key \<le> length n"
    using assms by (simp add: isheader_def strncasecmp_def strcasecmp_eq_0 is_cstring_take cat_eq_NUL)
  also have "\<dots> \<longleftrightarrow> casekey n = casekey key" using casekey_inj_length [of n key] by auto
  finally show ?thesis .
qed

lemma strcspn_name: "\<forall>c \<in> set n. c \<notin> set rej \<Longrightarrow> d \<in> set rej \<Longrightarrow> strcspn (n @ d # t) rej = length n"
  by (simp add: strcspn_def takeWhile_append)

lemma scan_header_eq:
  assumes "plain_header (n, v)"
  shows "\<exists>buf. scan_header protocols ack (n @ '': '' @ v @ NUL # r) sc = (buf, scan_value protocols ack (n, v) sc) \<and> length buf = length (n @ '': '' @ v @ NUL # r)"
proof -
  let ?line = "n @ CHR '':'' # CHR '' '' # v"
  have clean: "NUL \<notin> set n" "NUL \<notin> set v" "is_cstring n" and n: "n \<noteq> []" using assms by (auto simp: plain_header_def is_cstring_def)
  then have line: "cstr (n @ '': '' @ v @ NUL # r) = ?line" by (simp add: cstr_def takeWhile_append NUL_def)
  have len: "strcspn ?line '': '' = length n" using assms by (intro strcspn_name) (auto simp: plain_header_def)
  let ?ws = "takeWhile (\<lambda>c. c \<in> {CHR '' '', CHR '',''}) v" and ?d = "dropWhile (\<lambda>c. c \<in> {CHR '' '', CHR '',''}) v"
  have off: "strspn (CHR '' '' # v) '' ,'' = 1 + length ?ws" by (simp add: strspn_def)
  have d: "drop (length n + 1 + (1 + length ?ws)) ?line = ?d" using dropWhile_eq_drop [of _ v] by (simp add: numeral_2_eq_2)
  have vl: "strcspn ?d '' ,'' = length (first_value v)" by (simp add: strcspn_def first_value_def)
  have it: "take (length (first_value v)) ?d = first_value v" unfolding first_value_def by (metis takeWhile_eq_take)
  have heads: "isheader ?line (length n) key \<longleftrightarrow> casekey n = casekey key" if "is_cstring key" for key using isheader_iff [OF clean(3) that] by simp
  have keys: "is_cstring ''Sec-WebSocket-Accept''" "is_cstring ''Sec-WebSocket-Protocol''" "is_cstring ''Upgrade''" "is_cstring ''Content-Length''" by (simp_all add: NUL_def)
  have e: "drop (length n + 1) ?line = CHR '' '' # v" "cat ?line (length n) = CHR '':''" by (simp_all add: cat_def nth_append)
  have "scan_header protocols ack (n @ '': '' @ v @ NUL # r) sc =
      ((n @ '': '' @ v @ NUL # r)[length n + 1 + (1 + length ?ws) + length (first_value v) := NUL], scan_value protocols ack (n, v) sc)"
    unfolding scan_header_def line len Let_def e off d vl it heads [OF keys(1)] heads [OF keys(2)] heads [OF keys(3)] heads [OF keys(4)] scan_value_def prod.case
    using n by (simp only: length_0_conv simp_thms if_True if_False)
  then show ?thesis by simp
qed


lemma receive_headers_text:
  assumes "\<forall>h \<in> set hs. plain_header h" "length buf = 4096"
  shows "receive_headers protocols ack buf (map Rd (concat (map (\<lambda>(n, v). n @ '': '' @ v @ CRLF) hs) @ CRLF) @ i) sc = (i, Some (fold (scan_value protocols ack) hs sc))"
  using assms
proof (induction hs arbitrary: buf sc)
  case Nil
  have "receive_line buf (map Rd CRLF @ i) 0 False = (NUL # CHR 0x0A # drop 2 buf, i, Some 0)"
    using receive_line_text [of "[]" buf "[]" i False] Nil by (simp add: numeral_2_eq_2)
  then show ?case by (simp add: receive_headers.simps [of protocols ack buf])
next
  case (Cons h hs)
  obtain n v where h: "h = (n, v)" by (cases h)
  let ?t = "n @ '': '' @ v" and ?rest = "map Rd (concat (map (\<lambda>(n, v). n @ '': '' @ v @ CRLF) hs) @ CRLF) @ i"
  have p: "plain_header (n, v)" using Cons.prems h by simp
  have line: "receive_line buf (map Rd (?t @ CRLF) @ ?rest) 0 False = (?t @ [NUL, CHR 0x0A] @ drop (length ?t + 2) buf, ?rest, Some (length ?t))"
  proof -
    have "CHR 0x0D \<notin> set ?t" "CHR 0x0A \<notin> set ?t" "length ?t + 2 \<le> length buf" using p Cons.prems(2) unfolding plain_header_def by auto
    from receive_line_text [OF this, of "[]" ?rest False] show ?thesis by (simp only: append_Nil list.size add_0)
  qed
  from scan_header_eq [OF p, of protocols ack "CHR 0x0A # drop (length ?t + 2) buf" sc] obtain buf2 where
    buf2: "scan_header protocols ack (?t @ [NUL, CHR 0x0A] @ drop (length ?t + 2) buf) sc = (buf2, scan_value protocols ack (n, v) sc)"
    "length buf2 = length (?t @ [NUL, CHR 0x0A] @ drop (length ?t + 2) buf)" by auto
  have "length buf2 = 4096" using buf2(2) p Cons.prems(2) by (simp add: plain_header_def)
  with Cons.IH Cons.prems have "receive_headers protocols ack buf2 ?rest (scan_value protocols ack (n, v) sc) = (i, Some (fold (scan_value protocols ack) hs (scan_value protocols ack (n, v) sc)))"
    by simp
  moreover have "map Rd (concat (map (\<lambda>(n, v). n @ '': '' @ v @ CRLF) (h # hs)) @ CRLF) @ i = map Rd (?t @ CRLF) @ ?rest" by (simp add: h)
  moreover have "length ?t \<noteq> 0" by simp
  ultimately show ?case unfolding receive_headers.simps [of protocols ack buf] using line buf2(1) by (simp only: prod.case option.case if_False list.map fold_simps(2) h)
qed

text \<open>What the client makes of a response with the status 101.\<close>

lemma receive_response_text:
  assumes "\<forall>h \<in> set hs. plain_header h" "length buf = 4096" "\<forall>c \<in> set reason. c \<notin> {NUL, CHR 0x0D, CHR 0x0A}" "length reason < 4000"
    and sc: "sc = fold (scan_value protocols ack) hs \<lparr>sc_haserr = False, sc_result = -1, sc_clen = 0, sc_len = 3\<rparr>"
  shows "receive_response got buf protocols ack (map Rd (http_message (''HTTP/1.1 101 '' @ reason) hs) @ i) =
    (skip_content got 4096 sc i, if sc_haserr sc \<or> sc_result sc < 0 then -1 else sc_result sc)"
proof -
  let ?t = "''HTTP/1.1 101 '' @ reason" and ?rest = "map Rd (concat (map (\<lambda>(n, v). n @ '': '' @ v @ CRLF) hs) @ CRLF) @ i"
  have line: "receive_line buf (map Rd (?t @ CRLF) @ ?rest) 0 False = (?t @ [NUL, CHR 0x0A] @ drop (length ?t + 2) buf, ?rest, Some (length ?t))"
    using receive_line_text [of ?t buf "[]" ?rest False] assms(2-4) by auto
  have c: "cstr (?t @ [NUL, CHR 0x0A] @ drop (length ?t + 2) buf) = ?t" using assms(3) by (auto simp: cstr_def takeWhile_append NUL_def)
  have m: "map Rd (http_message ?t hs) @ i = map Rd (?t @ CRLF) @ ?rest" by (simp add: http_message_def)
  have s: "strcspn ?t '' '' = 8" "take 8 ?t = ''HTTP/1.1''" "drop 8 ?t = '' 101 '' @ reason" "strspn ('' 101 '' @ reason) '' '' = 1" "drop 1 ('' 101 '' @ reason) = ''101 '' @ reason"
    "strcspn (''101 '' @ reason) '' '' = 3" "take 3 (''101 '' @ reason) = ''101''" by (simp_all add: strcspn_def strspn_def)
  have "receive_headers protocols ack (?t @ [NUL, CHR 0x0A] @ drop (length ?t + 2) buf) ?rest \<lparr>sc_haserr = False, sc_result = -1, sc_clen = 0, sc_len = 3\<rparr> = (i, Some sc)"
    unfolding sc by (rule receive_headers_text [OF assms(1)]) (use assms(2,4) in simp)
  then show ?thesis unfolding receive_response_def m line prod.case option.case c Let_def s assms(2)
    by (simp only: simp_thms if_False prod.case option.case one_neq_zero)
qed

definition checked_names :: "string list" where
  "checked_names = [''Sec-WebSocket-Accept'', ''Sec-WebSocket-Protocol'', ''Upgrade'', ''Content-Length'']"

lemma scan_others:
  assumes "\<forall>h \<in> set hs. casekey (fst h) \<notin> casekey ` set checked_names"
  shows "\<exists>k. fold (scan_value protocols ack) hs sc = sc\<lparr>sc_len := k\<rparr>"
  using assms
proof (induction hs arbitrary: sc)
  case Nil
  show ?case by (intro exI [of _ "sc_len sc"]) simp
next
  case (Cons h hs)
  have "scan_value protocols ack h sc = sc\<lparr>sc_len := length (fst h)\<rparr>" using Cons.prems by (cases h) (auto simp: scan_value_def checked_names_def)
  moreover obtain k where "fold (scan_value protocols ack) hs (sc\<lparr>sc_len := length (fst h)\<rparr>) = sc\<lparr>sc_len := length (fst h)\<rparr>\<lparr>sc_len := k\<rparr>"
    using Cons.IH [of "sc\<lparr>sc_len := length (fst h)\<rparr>"] Cons.prems by auto
  ultimately show ?case by (intro exI [of _ k]) simp
qed

lemma scan_error_stays: "sc_haserr sc \<Longrightarrow> sc_haserr (fold (scan_value protocols ack) hs sc)"
proof (induction hs arbitrary: sc)
  case (Cons h hs)
  have "sc_haserr (scan_value protocols ack h sc)" using Cons.prems by (cases h) (simp add: scan_value_def Let_def)
  with Cons.IH show ?case by simp
qed simp

text \<open>A response with another accept value is refused.\<close>

lemma wrong_accept_refused:
  assumes "\<forall>h \<in> set hs. plain_header h" "length buf = 4096" "\<forall>c \<in> set reason. c \<notin> {NUL, CHR 0x0D, CHR 0x0A}" "length reason < 4000"
    and "(n, v) \<in> set hs" "casekey n = casekey ''Sec-WebSocket-Accept''" "first_value v \<noteq> ack"
  shows "snd (receive_response got buf protocols ack (map Rd (http_message (''HTTP/1.1 101 '' @ reason) hs) @ i)) = -1"
proof -
  from assms(5) obtain hs1 hs2 where hs: "hs = hs1 @ (n, v) # hs2" by (meson split_list)
  let ?sc = "fold (scan_value protocols ack) hs1 \<lparr>sc_haserr = False, sc_result = -1, sc_clen = 0, sc_len = 3\<rparr>"
  have "sc_haserr (scan_value protocols ack (n, v) ?sc)" using assms(6,7) by (simp add: scan_value_def Let_def)
  then have "sc_haserr (fold (scan_value protocols ack) hs \<lparr>sc_haserr = False, sc_result = -1, sc_clen = 0, sc_len = 3\<rparr>)" unfolding hs by (simp add: scan_error_stays)
  then show ?thesis unfolding receive_response_text [OF assms(1-4) refl] by simp
qed

text \<open>But a response without an accept value is taken, and so is one without the header \<open>Upgrade\<close>: only the protocol must be there.\<close>

lemma missing_accept_taken:
  assumes "length buf = 4096" "i = map Rd frames"
  shows "receive_response got buf proto_json1 ack (map Rd (http_message ''HTTP/1.1 101 OK'' [(''Sec-WebSocket-Protocol'', ''x-afb-ws-json1'')]) @ i) = (i, 0)"
proof -
  have "fold (scan_value proto_json1 ack) [(''Sec-WebSocket-Protocol'', ''x-afb-ws-json1'')] \<lparr>sc_haserr = False, sc_result = -1, sc_clen = 0, sc_len = 3\<rparr> =
    \<lparr>sc_haserr = False, sc_result = 0, sc_clen = 0, sc_len = 22\<rparr>"
    by (simp add: scan_value_def Let_def first_value_def find_protocol_def proto_json1_def casekey_def to_lower_def byte_of_def)
  from receive_response_text [OF _ assms(1) _ _ this [symmetric], of "''OK''" got i] show ?thesis by (simp add: plain_header_def NUL_def skip_content_def)
qed


section \<open>The handshake with the server\<close>

lemma send_request_sent:
  assumes "ce_garbage env = Some g" "\<And>n. length (g n) = n" "ce_asprintf env" "ce_write env" "getkeypair (ce_rand env) = (key, ack)"
  shows "send_request env proto_json1 path host = Some (http_message (''GET '' @ path @ '' HTTP/1.1'') (request_headers host key ''x-afb-ws-json1''), Some ack)"
proof -
  have "strjoin (Some g) (-1) proto_json1 '', '' = Some (Inr ''x-afb-ws-json1'')"
    using strjoin_eq [of g proto_json1 "'', ''"] assms(2) by (simp add: proto_json1_def join_strings_def NUL_def)
  then show ?thesis using assms by (simp add: send_request_def make_request_message)
qed

lemma compkeys_plain: "i < 32 \<Longrightarrow> \<forall>c \<in> set (compkeys ! i). c \<notin> {NUL, CHR 0x0D, CHR 0x0A, CHR '' '', CHR '',''}" "i < 32 \<Longrightarrow> length (compkeys ! i) \<le> 28"
proof -
  have "list_all (\<lambda>s. list_all (\<lambda>c. c \<notin> {NUL, CHR 0x0D, CHR 0x0A, CHR '' '', CHR '',''}) s \<and> length s \<le> 28) compkeys \<and> length compkeys = 32"
    by (simp add: compkeys_def NUL_def)
  then show "i < 32 \<Longrightarrow> \<forall>c \<in> set (compkeys ! i). c \<notin> {NUL, CHR 0x0D, CHR 0x0A, CHR '' '', CHR '',''}" "i < 32 \<Longrightarrow> length (compkeys ! i) \<le> 28"
    unfolding list_all_iff by (metis nth_mem)+
qed

lemma first_value_word: "\<forall>c \<in> set v. c \<notin> {CHR '' '', CHR '',''} \<Longrightarrow> first_value v = v"
  by (cases v) (auto simp: first_value_def takeWhile_eq_all_conv)

text \<open>A request that has the headers that the client writes.\<close>

lemma client_request_handshake:
  assumes "hq_method h = afb_method_get" "hq_version h = ''HTTP/1.1''" "cn_header (hq_conn h) = map_of (request_headers host key ''x-afb-ws-json1'')" "is_cstring host" "is_cstring key"
  shows "clean_headers h" "handshake h" "cn_header (hq_conn h) sec_websocket_key_s = Some key"
proof -
  have k: "sec_websocket_key_s = ''Sec-WebSocket-Key''" "sec_websocket_version_s = ''Sec-WebSocket-Version''" "sec_websocket_protocol_s = ''Sec-WebSocket-Protocol''"
    by (simp_all add: sec_websocket_key_s_def sec_websocket_version_s_def sec_websocket_protocol_s_def)
  show "clean_headers h" using assms by (simp add: clean_headers_def request_headers_def NUL_def)
  have "''Upgrade'' \<in> set (tokens ''Upgrade'')" "''x-afb-ws-json1'' \<in> set (tokens ''x-afb-ws-json1'')" by (simp_all add: tokens_def vsep_def)
  moreover have "atoi ''13'' = 13" by (simp add: atoi_def is_space_def is_digit_def byte_of_def Let_def)
  ultimately show "handshake h" using assms by (auto simp: handshake_def k websocket_s_def request_headers_def)
  show "cn_header (hq_conn h) sec_websocket_key_s = Some key" using assms(3) by (simp add: k request_headers_def)
qed

lemma server_headers_scan:
  assumes "\<forall>c \<in> set ack. c \<notin> {CHR '' '', CHR '',''}" "\<forall>h \<in> set extra. casekey (fst h) \<notin> casekey ` set checked_names"
  shows "\<exists>k. fold (scan_value proto_json1 ack) ([(sec_websocket_accept_s, ack), (sec_websocket_protocol_s, ''x-afb-ws-json1''), (''Connection'', ''Upgrade''), (''Upgrade'', websocket_s)] @ extra)
      \<lparr>sc_haserr = False, sc_result = -1, sc_clen = 0, sc_len = 3\<rparr> = \<lparr>sc_haserr = False, sc_result = 0, sc_clen = 0, sc_len = k\<rparr>"
proof -
  have "fold (scan_value proto_json1 ack) [(sec_websocket_accept_s, ack), (sec_websocket_protocol_s, ''x-afb-ws-json1''), (''Connection'', ''Upgrade''), (''Upgrade'', websocket_s)]
      \<lparr>sc_haserr = False, sc_result = -1, sc_clen = 0, sc_len = 3\<rparr> = \<lparr>sc_haserr = False, sc_result = 0, sc_clen = 0, sc_len = 7\<rparr>"
    using first_value_word [OF assms(1)]
    by (simp add: scan_value_def Let_def first_value_word find_protocol_def proto_json1_def casekey_def to_lower_def byte_of_def sec_websocket_accept_s_def sec_websocket_protocol_s_def websocket_s_def)
  with scan_others [OF assms(2), of proto_json1 ack "\<lparr>sc_haserr = False, sc_result = 0, sc_clen = 0, sc_len = 7\<rparr>"] show ?thesis
    by (simp only: fold_append o_apply scan.simps)
qed

text \<open>C8. The client and the server of the websocket protocol agree on the handshake, whatever the random key is: the request that the client writes, given to the server by the
  HTTP library with the headers that it has, is upgraded with the websocket that is created for it; and the client that reads the response of the server, in the form of HTTP and with
  any further headers of the library, finds its own accept value and its protocol, and leaves unread exactly what follows the response, the frames of the websocket. That the
  table of the client has pairs of a key and of its accept value is the hypothesis on the digest function.\<close>

theorem client_server_handshake:
  fixes h :: "'j afb_hreq"
  assumes sha: "\<forall>i < 16. make_accept_value SHA1 (compkeys ! (2 * i)) = compkeys ! (2 * i + 1)"
    and env: "ce_garbage env = Some g" "\<And>n. length (g n) = n" "ce_asprintf env" "ce_write env" "getkeypair (ce_rand env) = (key, ack)"
    and req: "hq_method h = afb_method_get" "hq_version h = ''HTTP/1.1''" "cn_header (hq_conn h) = map_of (request_headers host key ''x-afb-ws-json1'')" "is_cstring host"
    and create: "create s (hq_context h) fd = (s1, Some w)"
    and extra: "\<forall>e \<in> set extra. plain_header e \<and> casekey (fst e) \<notin> casekey ` set checked_names"
    and reason: "\<forall>c \<in> set reason. c \<notin> {NUL, CHR 0x0D, CHR 0x0A}" "length reason < 4000" and buf: "length buf = 4096"
  shows "\<exists>r. afb_websock_check_upgrade SHA1 create (Some fd) s h = (s1, h\<lparr>hq_sent := hq_sent h @ [r], hq_replied := True, hq_upgrade := True\<rparr>, True, Some w)
      \<and> rsp_status r = 101
      \<and> negociate env got buf (map Rd (http_message (''HTTP/1.1 101 '' @ reason) (rsp_headers r @ extra)) @ frames) proto_json1 path host =
          Some (http_message (''GET '' @ path @ '' HTTP/1.1'') (request_headers host key ''x-afb-ws-json1''), frames, 0)"
proof -
  obtain i where i: "i < 16" "key = compkeys ! (2 * i)" "ack = compkeys ! (2 * i + 1)" using getkeypair_pair [of "ce_rand env"] env(5) by auto
  have key: "is_cstring key" using compkeys_plain(1) [of "2 * i"] i by (auto simp: is_cstring_def)
  have ack: "\<forall>c \<in> set ack. c \<notin> {NUL, CHR 0x0D, CHR 0x0A, CHR '' '', CHR '',''}" "length ack \<le> 28" using compkeys_plain [of "2 * i + 1"] i by auto
  have accept: "make_accept_value SHA1 key = ack" using sha i by simp
  note hs = client_request_handshake [OF req key]
  let ?hs = "[(sec_websocket_accept_s, ack), (sec_websocket_protocol_s, ''x-afb-ws-json1''), (''Connection'', ''Upgrade''), (''Upgrade'', websocket_s)]"
  let ?r = "no_body MHD_HTTP_SWITCHING_PROTOCOLS ?hs :: 'j response"
  from upgrade_granted [of h create s fd s1 "Some w" SHA1, OF hs(1,2) create] hs(3) accept
  have up: "afb_websock_check_upgrade SHA1 create (Some fd) s h = (s1, h\<lparr>hq_sent := hq_sent h @ [?r], hq_replied := True, hq_upgrade := True\<rparr>, True, Some w)" by simp
  have "\<forall>e \<in> set ?hs. plain_header e"
    using ack by (simp add: plain_header_def sec_websocket_accept_s_def sec_websocket_protocol_s_def websocket_s_def NUL_def)
  then have plain: "\<forall>e \<in> set (?hs @ extra). plain_header e" using extra by (metis UnE set_append)
  from server_headers_scan [of ack extra] ack(1) extra obtain k where
    k: "fold (scan_value proto_json1 ack) (?hs @ extra) \<lparr>sc_haserr = False, sc_result = -1, sc_clen = 0, sc_len = 3\<rparr> = \<lparr>sc_haserr = False, sc_result = 0, sc_clen = 0, sc_len = k\<rparr>" by auto
  have "receive_response got buf proto_json1 ack (map Rd (http_message (''HTTP/1.1 101 '' @ reason) (?hs @ extra)) @ frames) = (frames, 0)"
    unfolding receive_response_text [OF plain buf reason k [symmetric]] by (simp add: skip_content_def)
  moreover have "rsp_headers ?r = ?hs" "rsp_status ?r = 101" by (simp_all add: no_body_def MHD_HTTP_SWITCHING_PROTOCOLS_def)
  ultimately show ?thesis using up send_request_sent [OF env, of path host] by (intro exI [of _ ?r]) (simp add: negociate_def)
qed

text \<open>The digests of the keys of the table.\<close>

definition key_digests :: "nat list list" where
  "key_digests = [
     [27, 146, 123, 157, 196, 39, 153, 47, 204, 185, 178, 24, 114, 162, 150, 51, 225, 58, 147, 194],
     [63, 148, 51, 55, 185, 145, 183, 128, 222, 69, 108, 74, 116, 110, 236, 227, 243, 66, 19, 9],
     [202, 250, 113, 112, 82, 64, 25, 169, 186, 134, 226, 251, 238, 252, 247, 224, 39, 82, 135, 37],
     [151, 38, 49, 124, 51, 249, 98, 233, 225, 144, 17, 126, 156, 5, 155, 255, 14, 138, 227, 40],
     [247, 86, 24, 212, 69, 30, 149, 190, 30, 49, 77, 184, 103, 197, 135, 132, 159, 92, 30, 103],
     [81, 214, 80, 115, 66, 90, 138, 20, 9, 87, 145, 19, 9, 159, 56, 2, 255, 60, 167, 20],
     [249, 209, 59, 136, 132, 241, 132, 76, 99, 6, 215, 244, 233, 86, 13, 88, 40, 71, 171, 31],
     [91, 98, 98, 179, 10, 155, 76, 5, 241, 230, 239, 56, 18, 216, 219, 182, 160, 22, 216, 24],
     [179, 56, 22, 215, 70, 189, 2, 224, 254, 30, 215, 210, 227, 41, 90, 169, 103, 243, 88, 11],
     [241, 114, 187, 226, 48, 125, 196, 87, 211, 207, 57, 116, 193, 58, 150, 211, 137, 55, 180, 241],
     [127, 201, 73, 5, 1, 27, 71, 196, 38, 154, 243, 199, 102, 144, 52, 178, 105, 72, 121, 224],
     [149, 19, 165, 19, 139, 203, 225, 200, 212, 213, 89, 228, 234, 178, 18, 115, 216, 21, 40, 221],
     [26, 33, 163, 196, 87, 82, 104, 93, 4, 25, 57, 118, 114, 59, 197, 177, 89, 137, 157, 243],
     [127, 146, 54, 135, 157, 225, 6, 196, 249, 17, 45, 196, 30, 25, 241, 0, 157, 167, 170, 204],
     [105, 4, 38, 58, 58, 0, 6, 94, 230, 173, 185, 98, 76, 244, 181, 108, 233, 39, 116, 235],
     [21, 80, 177, 44, 25, 168, 138, 93, 224, 99, 72, 210, 95, 118, 141, 39, 169, 17, 254, 222]]"

definition table_digest :: "string \<Rightarrow> nat list" where
  "table_digest m = (case first_index (\<lambda>i. compkeys ! (2 * i) @ websocket_guid = m) [0..<16] of Some i \<Rightarrow> key_digests ! i | None \<Rightarrow> demo_digest m)"


lemma digest_of_key: "i < 16 \<Longrightarrow> table_digest (compkeys ! (2 * i) @ websocket_guid) = key_digests ! i"
proof -
  assume i: "i < 16"
  let ?p = "\<lambda>j. compkeys ! (2 * j) @ websocket_guid = compkeys ! (2 * i) @ websocket_guid"
  obtain k where k: "first_index ?p [0..<16] = Some k" using i first_index_exists [of i "[0..<16]" ?p] by auto
  from first_index_Some [OF k] have "k < 16" "compkeys ! (2 * k) = compkeys ! (2 * i)" by auto
  moreover have "distinct (map (\<lambda>i. compkeys ! (2 * i)) [0..<16])" by code_simp
  ultimately have "k = i" using i by (auto simp: distinct_conv_nth)
  with k show ?thesis by (simp add: table_digest_def)
qed

lemma key_digests_encoded:
  "list_all2 (\<lambda>d a. length d = 20 \<and> list_all (\<lambda>b. b < 256) d \<and> base64 d = a) key_digests
     (map (\<lambda>i. compkeys ! (2 * i + 1)) [0, 1, 2, 3, 4, 5, 6, 7, 8, 9, 10, 11, 12, 13, 14, 15])"
  by (simp add: key_digests_def compkeys_def digits64_def tob64_def)


lemma table_digest_pairs: "\<forall>i < 16. make_accept_value table_digest (compkeys ! (2 * i)) = compkeys ! (2 * i + 1)"
proof (intro allI impI)
  fix i :: nat assume i: "i < 16"
  have "[0, 1, 2, 3, 4, 5, 6, 7, 8, 9, 10, 11, 12, 13, 14, 15] = [0..<16 :: nat]" by code_simp
  with key_digests_encoded have "list_all2 (\<lambda>d a. length d = 20 \<and> list_all (\<lambda>b. b < 256) d \<and> base64 d = a) key_digests (map (\<lambda>i. compkeys ! (2 * i + 1)) [0..<16])" by (simp only:)
  from list_all2_nthD2 [OF this, of i] i
  have "length (key_digests ! i) = 20" "\<forall>b \<in> set (key_digests ! i). b < 256" "base64 (key_digests ! i) = compkeys ! (2 * i + 1)" by (simp_all add: list_all_iff)
  with accept_value_base64 [of table_digest "compkeys ! (2 * i)"] digest_of_key [OF i] show "make_accept_value table_digest (compkeys ! (2 * i)) = compkeys ! (2 * i + 1)" by simp
qed

definition demo_client :: client_env where
  "demo_client = \<lparr>ce_garbage = Some (\<lambda>n. replicate n (CHR ''?'')), ce_asprintf = True, ce_rand = 1000, ce_write = True\<rparr>"

lemma demo_keypair: "getkeypair 1000 = (''LIqZ23sEppbF4YJR9LQ4/w=='', ''f8lJBQEbR8QmmvPHZpA0smlIeeA='')"
proof -
  have "fold_random 1000 = 10" by (simp add: fold_random.simps and_low drop_bit_eq_div)
  then show ?thesis by (simp add: getkeypair_def Let_def and_low push_bit_eq_mult compkeys_def)
qed

theorem client_server_handshake_witness:
  "\<exists>h r. hq_method (h :: unit afb_hreq) = afb_method_get \<and> afb_websock_check_upgrade table_digest (\<lambda>s x fd. (s, Some fd)) (Some 5) demo_session h =
      (demo_session, h\<lparr>hq_sent := [r], hq_replied := True, hq_upgrade := True\<rparr>, True, Some 5)
    \<and> negociate demo_client id (replicate 4096 (CHR ''x'')) (map Rd (http_message ''HTTP/1.1 101 Switching Protocols'' (rsp_headers r @ [(''Date'', ''today'')])) @ [Rd (CHR ''f''), Rintr]) proto_json1
        ''/api'' ''127.0.0.1:1234'' =
        Some (http_message ''GET /api HTTP/1.1'' (request_headers ''127.0.0.1:1234'' (compkeys ! 20) ''x-afb-ws-json1''), [Rd (CHR ''f''), Rintr], 0)"
proof -
  define h :: "unit afb_hreq" where "h = demo_hreq ''/api'' \<lparr>hq_conn := demo_conn\<lparr>cn_header := map_of (request_headers ''127.0.0.1:1234'' (compkeys ! 20) ''x-afb-ws-json1'')\<rparr>\<rparr>"
  have keys: "getkeypair (ce_rand demo_client) = (compkeys ! 20, compkeys ! 21)" using demo_keypair by (simp add: demo_client_def compkeys_def)
  have env: "ce_garbage demo_client = Some (\<lambda>n. replicate n (CHR ''?''))" "\<And>n. length (replicate n (CHR ''?'')) = n" "ce_asprintf demo_client" "ce_write demo_client"
    by (simp_all add: demo_client_def)
  have req: "hq_method h = afb_method_get" "hq_version h = ''HTTP/1.1''" "cn_header (hq_conn h) = map_of (request_headers ''127.0.0.1:1234'' (compkeys ! 20) ''x-afb-ws-json1'')"
    "is_cstring ''127.0.0.1:1234''" "hq_sent h = []" by (simp_all add: h_def demo_hreq_def demo_conn_def NUL_def)
  have extra: "\<forall>e \<in> set [(''Date'', ''today'')]. plain_header e \<and> casekey (fst e) \<notin> casekey ` set checked_names"
    by (simp add: plain_header_def checked_names_def casekey_def to_lower_def byte_of_def NUL_def)
  have reason: "\<forall>c \<in> set ''Switching Protocols''. c \<notin> {NUL, CHR 0x0D, CHR 0x0A}" "length ''Switching Protocols'' < 4000" by (simp_all add: NUL_def)
  from client_server_handshake [OF table_digest_pairs env keys req(1-4) _ extra reason, of "\<lambda>s x fd. (s, Some fd)" demo_session 5 demo_session 5 "replicate 4096 (CHR ''x'')" id
      "[Rd (CHR ''f''), Rintr]" "''/api''"]
  obtain r where "afb_websock_check_upgrade table_digest (\<lambda>s x fd. (s, Some fd)) (Some 5) demo_session h = (demo_session, h\<lparr>hq_sent := [r], hq_replied := True, hq_upgrade := True\<rparr>, True, Some 5)"
    "negociate demo_client id (replicate 4096 (CHR ''x'')) (map Rd (http_message ''HTTP/1.1 101 Switching Protocols'' (rsp_headers r @ [(''Date'', ''today'')])) @ [Rd (CHR ''f''), Rintr]) proto_json1
        ''/api'' ''127.0.0.1:1234'' =
        Some (http_message ''GET /api HTTP/1.1'' (request_headers ''127.0.0.1:1234'' (compkeys ! 20) ''x-afb-ws-json1''), [Rd (CHR ''f''), Rintr], 0)" using req(5) by auto
  with req(1) show ?thesis by blast
qed


section \<open>Addresses and descriptors\<close>

text \<open>The parts of an address are found again.\<close>

lemma parse_uri_parts:
  assumes "host \<noteq> []" "\<forall>c \<in> set host. c \<notin> {CHR '':'', CHR ''/''}" "CHR ''/'' \<notin> set port" "port = [] \<longrightarrow> service = ''http''" "port \<noteq> [] \<longrightarrow> service = port"
    and "scheme \<in> {[], ''ws://''}" "take 5 (host @ x) \<noteq> ''ws://''" "x = (if port = [] then [] else CHR '':'' # port) @ CHR ''/'' # path"
  shows "parse_uri True True (scheme @ host @ x) = Inr (host, service, CHR ''/'' # path)"
proof -
  have "(if take 5 (scheme @ host @ x) = ''ws://'' then drop 5 (scheme @ host @ x) else scheme @ host @ x) = host @ x" using assms(6,7) by auto
  moreover have "strcspn (host @ x) '':/'' = length host" using assms(2,8) by (auto simp: strcspn_def takeWhile_append)
  moreover have "strcspn (port @ CHR ''/'' # path) ''/'' = length port" using assms(3) by (auto simp: strcspn_def takeWhile_append)
  ultimately show ?thesis unfolding parse_uri_def Let_def using assms(1,4,5,8) by simp
qed

definition sockets :: "'w address list \<Rightarrow> int list" where
  "sockets as = List.map_filter ai_socket as"

definition closed_fds :: "fd_action list \<Rightarrow> int list" where
  "closed_fds acts = List.map_filter (\<lambda>a. case a of Fd_close fd \<Rightarrow> Some fd | _ \<Rightarrow> None) acts"

lemma closed_fds_simps [simp]: "closed_fds [] = []" "closed_fds (Fd_close fd # acts) = fd # closed_fds acts" "closed_fds (Fd_sent fd t # acts) = closed_fds acts"
  "closed_fds (Fd_nonblock fd # acts) = closed_fds acts" "closed_fds (acts @ acts') = closed_fds acts @ closed_fds acts'"
  by (simp_all add: closed_fds_def List.map_filter_def)

lemma sockets_simps [simp]: "sockets [] = []" "sockets (a # as) = (case ai_socket a of None \<Rightarrow> sockets as | Some fd \<Rightarrow> fd # sockets as)" "sockets (as @ bs) = sockets as @ sockets bs"
  by (simp_all add: sockets_def List.map_filter_def split: option.split)

lemma negociate_returns:
  assumes "\<And>g n. ce_garbage env = Some g \<Longrightarrow> length (g n) = n"
  shows "\<exists>sent rest rc. negociate env got buf inp proto_json1 path host = Some (sent, rest, rc)"
proof -
  have "\<exists>r. strjoin (ce_garbage env) (-1) proto_json1 '', '' = Some r"
  proof (cases "ce_garbage env")
    case (Some g)
    then show ?thesis using strjoin_eq [of g proto_json1 "'', ''"] assms [OF Some] by (simp add: proto_json1_def NUL_def)
  qed (simp add: strjoin_def Let_def)
  then show ?thesis by (auto simp: negociate_def send_request_def split: sum.split option.split prod.split)
qed

text \<open>The websocket is that of an address whose handshake was made, and the descriptors of those before it are closed.\<close>

definition connected :: "client_env \<Rightarrow> (nat \<Rightarrow> nat) \<Rightarrow> string \<Rightarrow> string \<Rightarrow> 'w address list \<Rightarrow> fd_action list \<Rightarrow> 'w \<Rightarrow> bool" where
  "connected env got buf path as acts w \<longleftrightarrow> (\<exists>as1 a as2 fd sent rest host. as = as1 @ a # as2 \<and> ai_socket a = Some fd \<and> ai_create a = Some w
     \<and> closed_fds acts = sockets as1 \<and> negociate env got buf (ai_input a) proto_json1 path host = Some (sent, rest, 0))"

lemma connected_here:
  assumes "ai_socket a = Some fd" "ai_create a = Some w" "closed_fds acts = []" "negociate env got buf (ai_input a) proto_json1 path host = Some (sent, rest, 0)"
  shows "connected env got buf path (a # as) acts w"
  unfolding connected_def using assms
  by (intro exI [of _ "[]"] exI [of _ a] exI [of _ as] exI [of _ fd] exI [of _ sent] exI [of _ rest] exI [of _ host]) simp

lemma connected_later:
  assumes "connected env got buf path as acts w" "closed_fds acts' = sockets [a] @ closed_fds acts"
  shows "connected env got buf path (a # as) acts' w"
proof -
  from assms(1) obtain as1 b as2 fd sent rest host where "as = as1 @ b # as2" "ai_socket b = Some fd" "ai_create b = Some w" "closed_fds acts = sockets as1"
    "negociate env got buf (ai_input b) proto_json1 path host = Some (sent, rest, 0)" unfolding connected_def by blast
  then show ?thesis unfolding connected_def using assms(2)
    by (intro exI [of _ "a # as1"] exI [of _ b] exI [of _ as2] exI [of _ fd] exI [of _ sent] exI [of _ rest] exI [of _ host]) (simp split: option.split)
qed

text \<open>The connection ends, and it closes every descriptor but that of the websocket that it returns, which was created after the handshake.\<close>

lemma connect_closes_others:
  assumes "\<And>g n. ce_garbage env = Some g \<Longrightarrow> length (g n) = n" "\<forall>a \<in> set as. xhost (ai_ipv4 a) (ai_port a) \<noteq> None"
  shows "\<exists>acts r. try_addresses env got buf path as = Some (acts, r)
    \<and> (case r of None \<Rightarrow> closed_fds acts = sockets as | Some w \<Rightarrow> connected env got buf path as acts w)"
  using assms(2)
proof (induction as)
  case (Cons a as)
  from Cons.prems obtain host where host: "xhost (ai_ipv4 a) (ai_port a) = Some host" by auto
  from Cons obtain acts r where IH: "try_addresses env got buf path as = Some (acts, r)"
    "case r of None \<Rightarrow> closed_fds acts = sockets as | Some w \<Rightarrow> connected env got buf path as acts w" by auto
  have lift: "case r of None \<Rightarrow> closed_fds acts' = sockets (a # as) | Some w \<Rightarrow> connected env got buf path (a # as) acts' w"
    if "closed_fds acts' = sockets [a] @ closed_fds acts" for acts'
    using IH(2) that connected_later [OF _ that] by (cases r) (auto split: option.split)
  show ?case
  proof (cases "ai_socket a")
    case None
    then show ?thesis using host IH(1) lift [of acts] by simp
  next
    case (Some fd)
    obtain sent rest rc where n: "negociate env got buf (ai_input a) proto_json1 path host = Some (sent, rest, rc)"
      using negociate_returns [of env got buf "ai_input a" path host] assms(1) by blast
    show ?thesis
    proof (cases "ai_connect a \<and> rc = 0 \<and> ai_create a \<noteq> None")
      case True
      then obtain w where w: "ai_create a = Some w" by blast
      have "connected env got buf path (a # as) [Fd_sent fd sent, Fd_nonblock fd] w" using True n by (intro connected_here [OF Some w]) simp_all
      then show ?thesis using True Some host n w by simp
    next
      case False
      then show ?thesis using Some host n IH(1) lift [of "[Fd_close fd] @ acts"] lift [of "[Fd_sent fd sent, Fd_close fd] @ acts"] by (auto split: option.split)
    qed
  qed
qed simp

end
