(* ===== verification/Daemon.thy ===== *)
theory Daemon
  imports Hsrv
begin

text \<open>
  The start of the daemon, \<^verbatim>\<open>src/src/main.c\<close> and \<^verbatim>\<open>src/src/afb-config.h\<close>: the options of the command line, the default values, the
  order in which the components are initialised and the handlers of the HTTP server.

  The functions of the C library are modelled as they are documented: \<open>getopt_long\<close> with abbreviations of long options and values in the same or in the next argument,
  \<open>sscanf\<close> of a number, with its result for an empty string, \<open>strsep\<close>, and the copies into blocks of 512 characters, where \<open>None\<close> is an access out of
  the block. Ints are of 32 bits. What the components answer to their initialisation is an argument.
\<close>

section \<open>Options\<close>

abbreviation (input) "SET_VERBOSE \<equiv> 1 :: nat"
abbreviation (input) "SET_BACKGROUND \<equiv> 2 :: nat"
abbreviation (input) "SET_FORGROUND \<equiv> 3 :: nat"
abbreviation (input) "SET_TCP_PORT \<equiv> 5 :: nat"
abbreviation (input) "SET_ROOT_DIR \<equiv> 6 :: nat"
abbreviation (input) "SET_ROOT_BASE \<equiv> 7 :: nat"
abbreviation (input) "SET_ROOT_API \<equiv> 8 :: nat"
abbreviation (input) "SET_ALIAS \<equiv> 9 :: nat"
abbreviation (input) "SET_CACHE_TIMEOUT \<equiv> 10 :: nat"
abbreviation (input) "SET_SESSION_DIR \<equiv> 11 :: nat"
abbreviation (input) "SET_AUTH_TOKEN \<equiv> 12 :: nat"
abbreviation (input) "SET_LDPATH \<equiv> 13 :: nat"
abbreviation (input) "SET_APITIMEOUT \<equiv> 14 :: nat"
abbreviation (input) "SET_CNTXTIMEOUT \<equiv> 15 :: nat"
abbreviation (input) "DISPLAY_VERSION \<equiv> 16 :: nat"
abbreviation (input) "DISPLAY_HELP \<equiv> 17 :: nat"
abbreviation (input) "SET_MODE \<equiv> 18 :: nat"
abbreviation (input) "SET_READYFD \<equiv> 19 :: nat"
abbreviation (input) "DBUS_CLIENT \<equiv> 20 :: nat"
abbreviation (input) "DBUS_SERVICE \<equiv> 21 :: nat"
abbreviation (input) "SO_BINDING \<equiv> 22 :: nat"
abbreviation (input) "SET_SESSIONMAX \<equiv> 23 :: nat"
abbreviation (input) "WS_CLIENT \<equiv> 24 :: nat"
abbreviation (input) "WS_SERVICE \<equiv> 25 :: nat"
abbreviation (input) "SET_ROOT_HTTP \<equiv> 26 :: nat"
abbreviation (input) "SET_TRACEREQ \<equiv> 27 :: nat"

text \<open>The directory where bindings are installed is set when the daemon is built.\<close>

record AFB_options =
  op_val :: nat
  op_has_arg :: bool
  op_name :: string
  op_help :: string

definition cliOptions :: "string \<Rightarrow> AFB_options list" where
  "cliOptions install_dir = [
     \<lparr>op_val = SET_VERBOSE, op_has_arg = False, op_name = ''verbose'', op_help = ''Verbose Mode, repeat to increase verbosity''\<rparr>,
     \<lparr>op_val = SET_FORGROUND, op_has_arg = False, op_name = ''foreground'', op_help = ''Get all in foreground mode''\<rparr>,
     \<lparr>op_val = SET_BACKGROUND, op_has_arg = False, op_name = ''daemon'', op_help = ''Get all in background mode''\<rparr>,
     \<lparr>op_val = SET_TCP_PORT, op_has_arg = True, op_name = ''port'', op_help = ''HTTP listening TCP port  [default 1234]''\<rparr>,
     \<lparr>op_val = SET_ROOT_DIR, op_has_arg = True, op_name = ''rootdir'', op_help = ''Root Directory [default $HOME/.AFB]''\<rparr>,
     \<lparr>op_val = SET_ROOT_HTTP, op_has_arg = True, op_name = ''roothttp'', op_help = ''HTTP Root Directory [default rootdir]''\<rparr>,
     \<lparr>op_val = SET_ROOT_BASE, op_has_arg = True, op_name = ''rootbase'', op_help = ''Angular Base Root URL [default /opa]''\<rparr>,
     \<lparr>op_val = SET_ROOT_API, op_has_arg = True, op_name = ''rootapi'', op_help = ''HTML Root API URL [default /api]''\<rparr>,
     \<lparr>op_val = SET_ALIAS, op_has_arg = True, op_name = ''alias'', op_help = ''Muliple url map outside of rootdir [eg: --alias=/icons:/usr/share/icons]''\<rparr>,
     \<lparr>op_val = SET_APITIMEOUT, op_has_arg = True, op_name = ''apitimeout'', op_help = ''Binding API timeout in seconds [default 10]''\<rparr>,
     \<lparr>op_val = SET_CNTXTIMEOUT, op_has_arg = True, op_name = ''cntxtimeout'', op_help = ''Client Session Context Timeout [default 900]''\<rparr>,
     \<lparr>op_val = SET_CACHE_TIMEOUT, op_has_arg = True, op_name = ''cache-eol'', op_help = ''Client cache end of live [default 3600]''\<rparr>,
     \<lparr>op_val = SET_SESSION_DIR, op_has_arg = True, op_name = ''sessiondir'', op_help = ''Sessions file path [default rootdir/sessions]''\<rparr>,
     \<lparr>op_val = SET_LDPATH, op_has_arg = True, op_name = ''ldpaths'', op_help = ''Load bindingss from dir1:dir2:... [default = '' @ install_dir @ '']''\<rparr>,
     \<lparr>op_val = SET_AUTH_TOKEN, op_has_arg = True, op_name = ''token'', op_help = ''Initial Secret [default=no-session, --token= for session without authentication]''\<rparr>,
     \<lparr>op_val = DISPLAY_VERSION, op_has_arg = False, op_name = ''version'', op_help = ''Display version and copyright''\<rparr>,
     \<lparr>op_val = DISPLAY_HELP, op_has_arg = False, op_name = ''help'', op_help = ''Display this help''\<rparr>,
     \<lparr>op_val = SET_MODE, op_has_arg = True, op_name = ''mode'', op_help = ''set the mode: either local, remote or global''\<rparr>,
     \<lparr>op_val = SET_READYFD, op_has_arg = True, op_name = ''readyfd'', op_help = ''set the #fd to signal when ready''\<rparr>,
     \<lparr>op_val = DBUS_CLIENT, op_has_arg = True, op_name = ''dbus-client'', op_help = ''bind to an afb service through dbus''\<rparr>,
     \<lparr>op_val = DBUS_SERVICE, op_has_arg = True, op_name = ''dbus-server'', op_help = ''provides an afb service through dbus''\<rparr>,
     \<lparr>op_val = WS_CLIENT, op_has_arg = True, op_name = ''ws-client'', op_help = ''bind to an afb service through websocket''\<rparr>,
     \<lparr>op_val = WS_SERVICE, op_has_arg = True, op_name = ''ws-server'', op_help = ''provides an afb service through websockets''\<rparr>,
     \<lparr>op_val = SO_BINDING, op_has_arg = True, op_name = ''binding'', op_help = ''load the binding of path''\<rparr>,
     \<lparr>op_val = SET_SESSIONMAX, op_has_arg = True, op_name = ''session-max'', op_help = ''max count of session simultaneously [default 10]''\<rparr>,
     \<lparr>op_val = SET_TRACEREQ, op_has_arg = True, op_name = ''tracereq'', op_help = ''log the requests: no, common, extra, all''\<rparr>]"


text \<open>The help: the name of an option is printed with its value in a buffer of 50 characters, and on 15 columns.\<close>

definition pad15 :: "string \<Rightarrow> string" where
  "pad15 s = s @ replicate (15 - length s) (CHR '' '')"

definition help_line :: "AFB_options \<Rightarrow> string option" where
  "help_line opt =
     (if \<not> op_has_arg opt then Some (''  --'' @ pad15 (op_name opt) @ '' '' @ op_help opt @ [CHR 0x0A])
      else let command = op_name opt @ ''=xxxx'' in
        if length command + 1 \<le> 50 then Some (''  --'' @ pad15 command @ '' '' @ op_help opt @ [CHR 0x0A]) else None)"

definition printHelp :: "string \<Rightarrow> string \<Rightarrow> string option" where
  "printHelp install_dir name =
     do { ls \<leftarrow> those (map help_line (cliOptions install_dir));
          Some (name @ '':'' @ [CHR 0x0A] @ ''allowed options'' @ [CHR 0x0A] @ concat ls @ ''Example:'' @ [CHR 0x0A] @ ''  '' @ name @ [CHR 0x5C, CHR 0x0A]
            @ ''  --verbose --port=1234 --token='' @ [CHR 0x27] @ ''azerty'' @ [CHR 0x27] @ '' --ldpaths=build/bindings:/usr/lib64/agl/bindings'' @ [CHR 0x0A]) }"

section \<open>The command line\<close>

text \<open>\<open>getopt_long\<close>: the values that it returns, with the argument of the option. An unknown, an ambiguous or an ill formed option is a question mark. Arguments that are not
  options are skipped.\<close>

definition find_option :: "AFB_options list \<Rightarrow> string \<Rightarrow> AFB_options option" where
  "find_option opts name =
     (case find (\<lambda>opt. op_name opt = name) opts of
        Some opt \<Rightarrow> Some opt
      | None \<Rightarrow> (case filter (\<lambda>opt. take (length name) (op_name opt) = name) opts of [opt] \<Rightarrow> Some opt | _ \<Rightarrow> None))"

definition question :: nat where
  "question = byte_of (CHR ''?'')"

definition short_options :: "string \<Rightarrow> (nat \<times> string option) list" where
  "short_options cs = map (\<lambda>c. (if c \<in> set ''vsp?'' then byte_of c else question, None)) cs"

fun getopt_long :: "AFB_options list \<Rightarrow> string list \<Rightarrow> (nat \<times> string option) list" where
  "getopt_long opts [] = []"
| "getopt_long opts (arg # args) =
     (if arg = ''--'' then []
      else if take 2 arg = ''--'' then
        (let name = takeWhile (\<lambda>c. c \<noteq> CHR ''='') (drop 2 arg); value = drop (length name) (drop 2 arg) in
         case find_option opts name of
           None \<Rightarrow> (question, None) # getopt_long opts args
         | Some opt \<Rightarrow>
             if \<not> op_has_arg opt then (if value = [] then (op_val opt, None) else (question, None)) # getopt_long opts args
             else if value \<noteq> [] then (op_val opt, Some (tl value)) # getopt_long opts args
             else (case args of [] \<Rightarrow> [(question, None)] | v # args' \<Rightarrow> (op_val opt, Some v) # getopt_long opts args'))
      else if take 1 arg = ''-'' \<and> arg \<noteq> ''-'' then short_options (drop 1 arg) @ getopt_long opts args
      else getopt_long opts args)"

text \<open>\<open>sscanf\<close> with the format of an integer: the end of the string, no conversion, or the number, which is stored in 32 bits.\<close>

datatype scanned = Sc_eof | Sc_none | Sc_int int

definition sscanf_d :: "string \<Rightarrow> scanned" where
  "sscanf_d s =
     (let t = dropWhile is_space s; sign = (t \<noteq> [] \<and> hd t \<in> {CHR ''-'', CHR ''+''}); d = takeWhile is_digit (if sign then tl t else t) in
      if t = [] then Sc_eof
      else if d = [] then Sc_none
      else let v = int (undec d) in Sc_int (sint (word_of_int (if hd t = CHR ''-'' then - v else v) :: 32 word)))"

section \<open>The configuration\<close>

abbreviation (input) "MAX_ALIAS \<equiv> 10 :: nat"
definition DEFLT_CNTX_TIMEOUT :: int where "DEFLT_CNTX_TIMEOUT = 3600"
definition DEFLT_API_TIMEOUT :: int where "DEFLT_API_TIMEOUT = 20"
definition DEFLT_CACHE_TIMEOUT :: int where "DEFLT_CACHE_TIMEOUT = 100000"
definition CTX_NBCLIENTS :: int where "CTX_NBCLIENTS = 10"

datatype afb_mode = AFB_MODE_LOCAL | AFB_MODE_REMOTE | AFB_MODE_GLOBAL
datatype tracereq = TRACEREQ_NO | TRACEREQ_COMMON | TRACEREQ_EXTRA | TRACEREQ_ALL

text \<open>The items are the last one first.\<close>

record afb_config =
  cf_console :: "string option"
  cf_httpdPort :: int
  cf_ldpaths :: "string option"
  cf_rootdir :: "string option"
  cf_roothttp :: "string option"
  cf_rootbase :: "string option"
  cf_rootapi :: "string option"
  cf_sessiondir :: "string option"
  cf_token :: "string option"
  cf_background :: bool
  cf_readyfd :: int
  cf_cacheTimeout :: int
  cf_apiTimeout :: int
  cf_cntxTimeout :: int
  cf_nbSessionMax :: int
  cf_mode :: afb_mode
  cf_tracereq :: tracereq
  cf_items :: "(nat \<times> string) list"
  cf_aliasdir :: "(string \<times> string) list"

definition zero_config :: afb_config where
  "zero_config = \<lparr>cf_console = None, cf_httpdPort = 0, cf_ldpaths = None, cf_rootdir = None, cf_roothttp = None, cf_rootbase = None, cf_rootapi = None, cf_sessiondir = None,
     cf_token = None, cf_background = False, cf_readyfd = 0, cf_cacheTimeout = 0, cf_apiTimeout = 0, cf_cntxTimeout = 0, cf_nbSessionMax = 0, cf_mode = AFB_MODE_LOCAL,
     cf_tracereq = TRACEREQ_NO, cf_items = [], cf_aliasdir = []\<rparr>"


text \<open>\<open>Inl\<close> is the end of the process with a status.\<close>

definition set_int :: "(int \<Rightarrow> afb_config \<Rightarrow> afb_config) \<Rightarrow> string \<Rightarrow> afb_config \<Rightarrow> int + afb_config" where
  "set_int upd optarg config = (case sscanf_d optarg of Sc_none \<Rightarrow> Inl 1 | Sc_eof \<Rightarrow> Inr config | Sc_int v \<Rightarrow> Inr (upd v config))"

definition add_item :: "bool \<Rightarrow> nat \<Rightarrow> string \<Rightarrow> afb_config \<Rightarrow> int + afb_config" where
  "add_item malloc_ok kind value config = (if \<not> malloc_ok then Inl 1 else Inr (config\<lparr>cf_items := (kind, value) # cf_items config\<rparr>))"

definition add_alias :: "string \<Rightarrow> afb_config \<Rightarrow> afb_config" where
  "add_alias optarg config =
     (if length (cf_aliasdir config) < MAX_ALIAS then
        (case first_index (\<lambda>c. c = CHR '':'') optarg of
           None \<Rightarrow> config
         | Some i \<Rightarrow> config\<lparr>cf_aliasdir := cf_aliasdir config @ [(take i optarg, drop (i + 1) optarg)]\<rparr>)
      else config)"

text \<open>The body of the loop on options; \<open>verbosity\<close> is a variable of the process.\<close>

definition parse_option :: "bool \<Rightarrow> nat \<Rightarrow> string option \<Rightarrow> afb_config \<times> nat \<Rightarrow> int + (afb_config \<times> nat)" where
  "parse_option malloc_ok optc optarg = (\<lambda>(config, verbosity).
     (let value = (\<lambda>f. case optarg of None \<Rightarrow> Inl 1 | Some a \<Rightarrow> (case f a of Inl e \<Rightarrow> Inl e | Inr c \<Rightarrow> Inr (c, verbosity)));
          novalue = (\<lambda>r. case optarg of None \<Rightarrow> r | Some _ \<Rightarrow> Inl 1) in
      if optc = SET_VERBOSE then Inr (config, verbosity + 1)
      else if optc = SET_TCP_PORT then value (\<lambda>a. set_int (\<lambda>v c. c\<lparr>cf_httpdPort := v\<rparr>) a config)
      else if optc = SET_APITIMEOUT then value (\<lambda>a. set_int (\<lambda>v c. c\<lparr>cf_apiTimeout := v\<rparr>) a config)
      else if optc = SET_CNTXTIMEOUT then value (\<lambda>a. set_int (\<lambda>v c. c\<lparr>cf_cntxTimeout := v\<rparr>) a config)
      else if optc = SET_ROOT_DIR then value (\<lambda>a. Inr (config\<lparr>cf_rootdir := Some a\<rparr>))
      else if optc = SET_ROOT_HTTP then value (\<lambda>a. Inr (config\<lparr>cf_roothttp := Some a\<rparr>))
      else if optc = SET_ROOT_BASE then value (\<lambda>a. Inr (config\<lparr>cf_rootbase := Some a\<rparr>))
      else if optc = SET_ROOT_API then value (\<lambda>a. Inr (config\<lparr>cf_rootapi := Some a\<rparr>))
      else if optc = SET_ALIAS then value (\<lambda>a. Inr (add_alias a config))
      else if optc = SET_AUTH_TOKEN then value (\<lambda>a. Inr (config\<lparr>cf_token := Some a\<rparr>))
      else if optc = SET_LDPATH then value (\<lambda>a. Inr (config\<lparr>cf_ldpaths := Some a\<rparr>))
      else if optc = SET_SESSION_DIR then value (\<lambda>a. Inr (config\<lparr>cf_sessiondir := Some a\<rparr>))
      else if optc = SET_CACHE_TIMEOUT then value (\<lambda>a. set_int (\<lambda>v c. c\<lparr>cf_cacheTimeout := v\<rparr>) a config)
      else if optc = SET_SESSIONMAX then value (\<lambda>a. set_int (\<lambda>v c. c\<lparr>cf_nbSessionMax := v\<rparr>) a config)
      else if optc = SET_FORGROUND then novalue (Inr (config\<lparr>cf_background := False\<rparr>, verbosity))
      else if optc = SET_BACKGROUND then novalue (Inr (config\<lparr>cf_background := True\<rparr>, verbosity))
      else if optc = SET_MODE then value (\<lambda>a. if a = ''local'' then Inr (config\<lparr>cf_mode := AFB_MODE_LOCAL\<rparr>)
          else if a = ''remote'' then Inr (config\<lparr>cf_mode := AFB_MODE_REMOTE\<rparr>)
          else if a = ''global'' then Inr (config\<lparr>cf_mode := AFB_MODE_GLOBAL\<rparr>)
          else Inl 1)
      else if optc = SET_READYFD then value (\<lambda>a. set_int (\<lambda>v c. c\<lparr>cf_readyfd := v\<rparr>) a config)
      else if optc = DBUS_CLIENT \<or> optc = DBUS_SERVICE \<or> optc = WS_CLIENT \<or> optc = WS_SERVICE \<or> optc = SO_BINDING then value (\<lambda>a. add_item malloc_ok optc a config)
      else if optc = SET_TRACEREQ then value (\<lambda>a. if a = ''no'' then Inr (config\<lparr>cf_tracereq := TRACEREQ_NO\<rparr>)
          else if a = ''common'' then Inr (config\<lparr>cf_tracereq := TRACEREQ_COMMON\<rparr>)
          else if a = ''extra'' then Inr (config\<lparr>cf_tracereq := TRACEREQ_EXTRA\<rparr>)
          else if a = ''all'' then Inr (config\<lparr>cf_tracereq := TRACEREQ_ALL\<rparr>)
          else Inl 1)
      else if optc = DISPLAY_VERSION then novalue (Inl 0)
      else Inl 0))"

fun parse_options :: "bool \<Rightarrow> (nat \<times> string option) list \<Rightarrow> afb_config \<times> nat \<Rightarrow> int + (afb_config \<times> nat)" where
  "parse_options malloc_ok [] st = Inr st"
| "parse_options malloc_ok ((optc, optarg) # os) st = (case parse_option malloc_ok optc optarg st of Inl e \<Rightarrow> Inl e | Inr st1 \<Rightarrow> parse_options malloc_ok os st1)"

text \<open>Copies into a block: \<open>strncpy\<close> fills it up with zeros, \<open>strncat\<close> looks for the first zero of it.\<close>

definition strncpy_block :: "string \<Rightarrow> nat \<Rightarrow> string" where
  "strncpy_block s n = take n (s @ replicate n NUL)"

definition strncat_block :: "string \<Rightarrow> string \<Rightarrow> nat \<Rightarrow> string option" where
  "strncat_block mem s n =
     do { i \<leftarrow> first_index (\<lambda>c. c = NUL) mem;
          if i + length (take n s) + 1 \<le> length mem then Some (take i mem @ take n s @ [NUL] @ drop (i + length (take n s) + 1) mem) else None }"

definition joined_path :: "bool \<Rightarrow> string \<Rightarrow> string \<Rightarrow> string option" where
  "joined_path malloc_ok dir suffix =
     (if \<not> malloc_ok then None else do { mem \<leftarrow> strncat_block (strncpy_block dir 512) suffix 512; Some (takeWhile (\<lambda>c. c \<noteq> NUL) mem) })"

text \<open>\<open>getenv\<close> is the environment; the second component of the result is the directories that are made.\<close>

definition or_default :: "string option \<Rightarrow> string \<Rightarrow> string option" where
  "or_default v d = (case v of None \<Rightarrow> Some d | Some s \<Rightarrow> Some s)"

definition default_numbers :: "afb_config \<Rightarrow> afb_config" where
  "default_numbers config =
     config\<lparr>cf_httpdPort := (if cf_httpdPort config = 0 then 1234 else cf_httpdPort config),
       cf_apiTimeout := (if cf_apiTimeout config = 0 then DEFLT_API_TIMEOUT else cf_apiTimeout config),
       cf_cacheTimeout := (if cf_cacheTimeout config = 0 then DEFLT_CACHE_TIMEOUT else cf_cacheTimeout config),
       cf_cntxTimeout := (if cf_cntxTimeout config = 0 then DEFLT_CNTX_TIMEOUT else cf_cntxTimeout config),
       cf_nbSessionMax := (if cf_nbSessionMax config = 0 then CTX_NBCLIENTS else cf_nbSessionMax config)\<rparr>"

definition config_set_default :: "string \<Rightarrow> bool \<Rightarrow> (string \<Rightarrow> string option) \<Rightarrow> afb_config \<Rightarrow> (afb_config \<times> string list) option" where
  "config_set_default install_dir malloc_ok getenv config =
     do { (rootdir, made) \<leftarrow> (case cf_rootdir config of
            Some d \<Rightarrow> Some (d, [])
          | None \<Rightarrow> do { d \<leftarrow> (case getenv ''AFBDIR'' of Some d \<Rightarrow> Some d | None \<Rightarrow> do { home \<leftarrow> getenv ''HOME''; joined_path malloc_ok home ''/.AFB'' });
                         Some (d, [d]) });
          sessiondir \<leftarrow> (case cf_sessiondir config of Some d \<Rightarrow> Some d | None \<Rightarrow> joined_path malloc_ok rootdir ''/sessions'');
          console \<leftarrow> (case cf_console config of Some d \<Rightarrow> Some d | None \<Rightarrow> joined_path malloc_ok sessiondir ''/AFB-console.out'');
          Some ((default_numbers config)\<lparr>cf_rootdir := Some rootdir, cf_roothttp := or_default (cf_roothttp config) ''.'', cf_rootbase := or_default (cf_rootbase config) ''/opa'',
                  cf_rootapi := or_default (cf_rootapi config) ''/api'', cf_ldpaths := or_default (cf_ldpaths config) install_dir, cf_sessiondir := Some sessiondir,
                  cf_console := Some console\<rparr>, made) }"

definition parse_arguments :: "string \<Rightarrow> bool \<Rightarrow> (string \<Rightarrow> string option) \<Rightarrow> string list \<Rightarrow> (int + (afb_config \<times> nat)) option" where
  "parse_arguments install_dir malloc_ok getenv argv =
     (if length argv < 2 then Some (Inl 1)
      else case parse_options malloc_ok (getopt_long (cliOptions install_dir) (tl argv)) (zero_config, 1) of
        Inl e \<Rightarrow> Some (Inl e)
      | Inr (config, verbosity) \<Rightarrow> do { (config', made) \<leftarrow> config_set_default install_dir malloc_ok getenv config; Some (Inr (config', verbosity)) })"


section \<open>The handlers of the HTTP server\<close>

text \<open>A handler of \<^verbatim>\<open>afb-hswitch.c\<close> in the environment of the server, for what the library and the system give to it.\<close>

record ('j, 'w, 'api) switch_env =
  sw_globals :: hreq_globals
  sw_SHA1 :: "string \<Rightarrow> nat list"
  sw_create :: "sessions \<Rightarrow> afb_context \<Rightarrow> int \<Rightarrow> sessions \<times> 'w option"
  sw_info :: "int option"
  sw_now :: int
  sw_calloc :: "addr option"
  sw_newuuid :: string
  sw_call :: "'api \<Rightarrow> string \<Rightarrow> nat \<Rightarrow> sessions \<times> 'j afb_hreq \<Rightarrow> (sessions \<times> 'j afb_hreq) option"
  sw_apis :: "'api apis"
  sw_ok :: "nat \<Rightarrow> bool"

definition on_sessions :: "(sessions \<Rightarrow> 'j afb_hreq \<Rightarrow> (sessions \<times> 'j afb_hreq \<times> bool) option) \<Rightarrow> 'j handler" where
  "on_sessions f = (\<lambda>(e, h). map_option (\<lambda>(s, h', rc). (e\<lparr>he_sessions := s\<rparr>, h', rc)) (f (he_sessions e) h))"

definition websocket_handler :: "('j, 'w, 'api) switch_env \<Rightarrow> 'j handler" where
  "websocket_handler sw = on_sessions (\<lambda>s h. map_option (\<lambda>(s', h', rc, w). (s', h', rc))
     (afb_hswitch_websocket_switch (sw_SHA1 sw) (sw_create sw) (sw_info sw) (sw_globals sw) (sw_now sw) (sw_calloc sw) (sw_newuuid sw) s h))"

definition apis_handler :: "('j, 'w, 'api) switch_env \<Rightarrow> 'j handler" where
  "apis_handler sw = on_sessions (afb_hswitch_apis (sw_call sw) (sw_apis sw) (sw_globals sw) (sw_now sw) (sw_calloc sw) (sw_newuuid sw))"

definition one_page_handler :: "('j, 'w, 'api) switch_env \<Rightarrow> 'j handler" where
  "one_page_handler sw = on_sessions (\<lambda>s h. map_option (\<lambda>(h', rc). (s, h', rc)) (afb_hswitch_one_page_api_redirect (sw_ok sw) (sw_globals sw) s h))"

text \<open>What an alias gets: its answers of the system, the address of its root and the root, if it can be made, and memory for its data and its link.\<close>

record alias_answer =
  aa_io :: alias_io
  aa_root :: addr
  aa_created :: "locale_root option"
  aa_malloc :: bool
  aa_link :: bool

definition add_alias_answer :: "hreq_globals \<Rightarrow> string \<Rightarrow> alias_answer \<Rightarrow> int \<Rightarrow> bool \<Rightarrow> 'j afb_hsrv \<times> hsrv_env \<Rightarrow> ('j afb_hsrv \<times> hsrv_env \<times> bool) option" where
  "add_alias_answer g url aa priority relax = (\<lambda>(sv, e).
     afb_hsrv_add_alias g (aa_io aa) (aa_malloc aa) (aa_link aa) url (aa_root aa) (aa_created aa) priority relax sv e)"

text \<open>The loop on the aliases: \<open>answer\<close> is for the path of an alias below the root directory and its index.\<close>

fun init_aliases ::
  "hreq_globals \<Rightarrow> (nat \<Rightarrow> string \<Rightarrow> alias_answer) \<Rightarrow> nat \<Rightarrow> (string \<times> string) list \<Rightarrow> 'j afb_hsrv \<times> hsrv_env \<Rightarrow> ('j afb_hsrv \<times> hsrv_env \<times> bool) option" where
  "init_aliases g answer idx [] (sv, e) = Some (sv, e, True)"
| "init_aliases g answer idx ((url, path) # as) st =
     do { (sv1, e1, rc) \<leftarrow> add_alias_answer g url (answer idx path) 0 False st;
          if rc then init_aliases g answer (idx + 1) as (sv1, e1) else Some (sv1, e1, False) }"

definition init_http_server ::
  "('j, 'w, 'api) switch_env \<Rightarrow> bool \<Rightarrow> bool \<Rightarrow> bool \<Rightarrow> (nat \<Rightarrow> string \<Rightarrow> alias_answer) \<Rightarrow> afb_config \<Rightarrow> 'j afb_hsrv \<times> hsrv_env \<Rightarrow> ('j afb_hsrv \<times> hsrv_env \<times> bool) option" where
  "init_http_server sw ws_ok apis_ok page_ok answer config = (\<lambda>(sv, e).
     do { rootapi \<leftarrow> cf_rootapi config; roothttp \<leftarrow> cf_roothttp config; rootbase \<leftarrow> cf_rootbase config;
          case afb_hsrv_add_handler ws_ok rootapi (websocket_handler sw) 20 sv of
            (sv1, False) \<Rightarrow> Some (sv1, e, False)
          | (sv1, True) \<Rightarrow>
              (case afb_hsrv_add_handler apis_ok rootapi (apis_handler sw) 10 sv1 of
                 (sv2, False) \<Rightarrow> Some (sv2, e, False)
               | (sv2, True) \<Rightarrow>
                   do { (sv3, e3, rc) \<leftarrow> init_aliases (sw_globals sw) answer 0 (cf_aliasdir config) (sv2, e);
                        if \<not> rc then Some (sv3, e3, False)
                        else do {
                          (sv4, e4, rc) \<leftarrow> add_alias_answer (sw_globals sw) '''' (answer (length (cf_aliasdir config)) roothttp) (-10) True (sv3, e3);
                          if \<not> rc then Some (sv4, e4, False)
                          else (case afb_hsrv_add_handler page_ok rootbase (one_page_handler sw) (-20) sv4 of (sv5, rc) \<Rightarrow> Some (sv5, e4, rc)) } }) })"

text \<open>What the system answers when the server starts; the second component of the result is the port.\<close>

record ('j, 'w, 'api) http_env =
  ht_switch :: "('j, 'w, 'api) switch_env"
  ht_tmp_ok :: bool
  ht_calloc :: bool
  ht_cache :: bool
  ht_ws :: bool
  ht_apis :: bool
  ht_page :: bool
  ht_answer :: "nat \<Rightarrow> string \<Rightarrow> alias_answer"
  ht_daemon :: bool
  ht_info :: bool
  ht_io :: bool

definition start_http_server :: "('j, 'w, 'api) http_env \<Rightarrow> afb_config \<Rightarrow> hsrv_env \<Rightarrow> ('j afb_hsrv option \<times> hsrv_env \<times> 16 word) option" where
  "start_http_server t config e =
     (if \<not> ht_tmp_ok t then Some (None, e, 0)
      else (case afb_hsrv_create (ht_calloc t) of
          None \<Rightarrow> Some (None, e, 0)
        | Some sv \<Rightarrow>
            do { (sv2, e2, ok) \<leftarrow> (case afb_hsrv_set_cache_timeout (ht_cache t) (cf_cacheTimeout config) sv of
                   (sv1, False) \<Rightarrow> Some (sv1, e, False)
                 | (sv1, True) \<Rightarrow> init_http_server (ht_switch t) (ht_ws t) (ht_apis t) (ht_page t) (ht_answer t) config (sv1, e));
                 if \<not> ok then do { sv3 \<leftarrow> afb_hsrv_put sv2; Some (None, e2, 0) }
                 else (case afb_hsrv_start (ht_daemon t) (ht_info t) (ht_io t) sv2 of
                     (sv3, False) \<Rightarrow> do { sv4 \<leftarrow> afb_hsrv_put sv3; Some (None, e2, 0) }
                   | (sv3, True) \<Rightarrow> Some (Some sv3, e2, word_of_int (cf_httpdPort config))) }))"

section \<open>The start\<close>

text \<open>What \<open>main\<close> asks of the components, in the order in which it does.\<close>

datatype start_step =
    Set_api_timeout int
  | Add_pathset string
  | Start_item nat string
  | Store_init int int "string option"
  | Init_cookie int string int
  | Init_signals
  | Set_rootdir string
  | Init_threads nat nat nat
  | Open_console string
  | Fork
  | Trace_requests tracereq
  | Start_http
  | Start_services
  | Write_ready int string

text \<open>How the process ends its start: with a status, or in the loop of events.\<close>

datatype start_end = Exited int | Running

text \<open>\<open>ok\<close> is what a component answers; the fork has three outcomes, of which the parent leaves.\<close>

record start_env =
  st_ok :: "start_step \<Rightarrow> bool"
  st_parent :: bool
  st_apicount :: nat
  st_uuid :: string

text \<open>The recursion starts the oldest item first; the status is set when one fails.\<close>

fun start_items :: "start_env \<Rightarrow> (nat \<times> string) list \<Rightarrow> start_step list \<Rightarrow> start_step list \<times> bool" where
  "start_items env [] log = (log, True)"
| "start_items env ((kind, value) # previous) log =
     (case start_items env previous log of
        (log1, False) \<Rightarrow> (log1, False)
      | (log1, True) \<Rightarrow> (log1 @ [Start_item kind value],
          kind \<in> {DBUS_CLIENT, DBUS_SERVICE, WS_CLIENT, WS_SERVICE, SO_BINDING} \<and> st_ok env (Start_item kind value)))"

definition daemonize :: "start_env \<Rightarrow> string \<Rightarrow> start_step list \<Rightarrow> start_step list \<times> int option" where
  "daemonize env console log =
     (let log1 = log @ [Open_console console] in
      if \<not> st_ok env (Open_console console) then (log1, Some 1)
      else let log2 = log1 @ [Fork] in
        if \<not> st_ok env Fork then (log2, Some 1)
        else if st_parent env then (log2, Some 0)
        else (log2, None))"


text \<open>The part of the start in which a step that fails ends the process with the status 1.\<close>

definition one_step :: "start_env \<Rightarrow> start_step \<Rightarrow> start_step list \<times> bool \<Rightarrow> start_step list \<times> bool" where
  "one_step env s = (\<lambda>(log, go). if go then (log @ [s], st_ok env s) else (log, False))"

definition main_run :: "start_env \<Rightarrow> afb_config \<Rightarrow> (start_step list \<times> start_end) option" where
  "main_run env config =
     do { ldpaths \<leftarrow> cf_ldpaths config; rootapi \<leftarrow> cf_rootapi config; rootdir \<leftarrow> cf_rootdir config; console \<leftarrow> cf_console config;
          Some (
            if cf_httpdPort config \<le> 0 then ([], Exited 1)
            else case one_step env (Add_pathset ldpaths) ([Set_api_timeout (cf_apiTimeout config)], True) of
              (log, False) \<Rightarrow> (log, Exited 1)
            | (log, True) \<Rightarrow>
            (case start_items env (cf_items config) log of
              (log, False) \<Rightarrow> (log, Exited 1)
            | (log, True) \<Rightarrow>
            (case ctxStoreInit (nat (cf_nbSessionMax config)) (cf_cntxTimeout config) (cf_token config) (st_apicount env) (st_uuid env) of
              None \<Rightarrow> (log @ [Store_init (cf_nbSessionMax config) (cf_cntxTimeout config) (cf_token config)], Exited 1)
            | Some sessions \<Rightarrow>
            (case one_step env (Init_cookie (cf_httpdPort config) rootapi DEFLT_CNTX_TIMEOUT)
                   (log @ [Store_init (cf_nbSessionMax config) (cf_cntxTimeout config) (cf_token config)], True) of
              (log, False) \<Rightarrow> (log, Exited 1)
            | (log, True) \<Rightarrow>
            (case one_step env (Init_threads 3 1 20) (one_step env (Set_rootdir rootdir) (one_step env Init_signals (log, True))) of
              (log, False) \<Rightarrow> (log, Exited 1)
            | (log, True) \<Rightarrow>
            (case (if cf_background config then daemonize env console log else (log, None)) of
              (log, Some status) \<Rightarrow> (log, Exited status)
            | (log, None) \<Rightarrow>
              (let log = (if cf_tracereq config = TRACEREQ_NO then log else log @ [Trace_requests (cf_tracereq config)]) in
               case one_step env Start_services (one_step env Start_http (log, True)) of
                 (log, False) \<Rightarrow> (log, Exited 1)
               | (log, True) \<Rightarrow>
                   (if cf_readyfd config \<noteq> 0 then log @ [Write_ready (cf_readyfd config) ''READY=1''] else log, Running)))))))) }"

definition main :: "string \<Rightarrow> bool \<Rightarrow> (string \<Rightarrow> string option) \<Rightarrow> start_env \<Rightarrow> string list \<Rightarrow> (start_step list \<times> start_end) option" where
  "main install_dir malloc_ok getenv env argv =
     do { r \<leftarrow> parse_arguments install_dir malloc_ok getenv argv;
          case r of Inl status \<Rightarrow> Some ([], Exited status) | Inr (config, verbosity) \<Rightarrow> main_run env config }"


section \<open>The order of the start\<close>

text \<open>The start as it is planned by a configuration, and a plan up to the first step that fails.\<close>

definition start_plan :: "afb_config \<Rightarrow> (nat \<times> string) list \<Rightarrow> start_step list" where
  "start_plan config items =
     [Set_api_timeout (cf_apiTimeout config), Add_pathset (the (cf_ldpaths config))] @ map (\<lambda>(kind, value). Start_item kind value) items
     @ [Store_init (cf_nbSessionMax config) (cf_cntxTimeout config) (cf_token config), Init_cookie (cf_httpdPort config) (the (cf_rootapi config)) 3600, Init_signals,
        Set_rootdir (the (cf_rootdir config)), Init_threads 3 1 20]
     @ (if cf_background config then [Open_console (the (cf_console config)), Fork] else [])
     @ (if cf_tracereq config = TRACEREQ_NO then [] else [Trace_requests (cf_tracereq config)]) @ [Start_http, Start_services]
     @ (if cf_readyfd config \<noteq> 0 then [Write_ready (cf_readyfd config) ''READY=1''] else [])"

text \<open>Which steps can fail: the token must fit its place, and what else depends on the component.\<close>

definition step_done :: "start_env \<Rightarrow> start_step \<Rightarrow> bool" where
  "step_done env s = (case s of
       Set_api_timeout _ \<Rightarrow> True
     | Store_init _ _ token \<Rightarrow> (case token of None \<Rightarrow> True | Some t \<Rightarrow> length t < token_size)
     | Trace_requests _ \<Rightarrow> True
     | Write_ready _ _ \<Rightarrow> True
     | _ \<Rightarrow> st_ok env s)"

lemma step_done_simps [simp]:
  "step_done env (Set_api_timeout t)" "step_done env (Trace_requests r)" "step_done env (Write_ready fd m)"
  "step_done env (Add_pathset p) = st_ok env (Add_pathset p)" "step_done env (Start_item k v) = st_ok env (Start_item k v)"
  "step_done env (Init_cookie i a n) = st_ok env (Init_cookie i a n)" "step_done env Init_signals = st_ok env Init_signals"
  "step_done env (Set_rootdir d) = st_ok env (Set_rootdir d)" "step_done env (Init_threads m1 m2 m3) = st_ok env (Init_threads m1 m2 m3)"
  "step_done env (Open_console c) = st_ok env (Open_console c)" "step_done env Fork = st_ok env Fork"
  "step_done env Start_http = st_ok env Start_http" "step_done env Start_services = st_ok env Start_services"
  by (simp_all add: step_done_def)

fun up_to_failure :: "('s \<Rightarrow> bool) \<Rightarrow> 's list \<Rightarrow> 's list \<times> bool" where
  "up_to_failure f [] = ([], True)"
| "up_to_failure f (s # ss) = (if f s then (case up_to_failure f ss of (l, b) \<Rightarrow> (s # l, b)) else ([s], False))"

lemma up_to_failure_append:
  "up_to_failure f (xs @ ys) = (case up_to_failure f xs of (l, False) \<Rightarrow> (l, False) | (l, True) \<Rightarrow> (case up_to_failure f ys of (l', b) \<Rightarrow> (l @ l', b)))"
  by (induction xs) (auto split: prod.splits bool.splits)

lemma up_to_failure_prefix: "set (fst (up_to_failure f xs)) \<subseteq> set xs"
  by (induction xs) (auto split: prod.splits)

lemma up_to_failure_all: "snd (up_to_failure f xs) \<longleftrightarrow> (\<forall>s \<in> set xs. f s)" "snd (up_to_failure f xs) \<Longrightarrow> fst (up_to_failure f xs) = xs"
  by (induction xs) (auto split: prod.splits)

lemma start_items_eq:
  assumes "\<forall>(kind, value) \<in> set items. kind \<in> {DBUS_CLIENT, DBUS_SERVICE, WS_CLIENT, WS_SERVICE, SO_BINDING}"
  shows "start_items env items log = (case up_to_failure (step_done env) (map (\<lambda>(kind, value). Start_item kind value) (rev items)) of (l, b) \<Rightarrow> (log @ l, b))"
  using assms
proof (induction env items log rule: start_items.induct)
  case (2 env kind v previous log)
  then have "start_items env previous log = (case up_to_failure (step_done env) (map (\<lambda>(kind, value). Start_item kind value) (rev previous)) of (l, b) \<Rightarrow> (log @ l, b))"
    "kind \<in> {DBUS_CLIENT, DBUS_SERVICE, WS_CLIENT, WS_SERVICE, SO_BINDING}" by auto
  then show ?case unfolding start_items.simps(2) by (simp add: up_to_failure_append split: prod.split bool.split)
qed simp

lemma one_step_log: "one_step env s (log, go) = (if go then (log @ [s], st_ok env s) else (log, False))"
  by (simp add: one_step_def)

lemma store_init_done: "ctxStoreInit n t token k u = None \<longleftrightarrow> \<not> step_done env (Store_init m t token)"
  by (auto simp: ctxStoreInit_def step_done_def Let_def split: option.splits)


text \<open>What is left of the plan after the steps that are done; the parent of a fork leaves after it.\<close>

definition planned_end :: "start_env \<Rightarrow> start_step list \<Rightarrow> start_step list \<times> start_end" where
  "planned_end env plan =
     (let (log, all_done) = up_to_failure (step_done env) plan in
      if Fork \<in> set log \<and> step_done env Fork \<and> st_parent env then (takeWhile (\<lambda>s. s \<noteq> Fork) log @ [Fork], Exited 0)
      else (log, if all_done then Running else Exited 1))"

lemma main_run_plan:
  assumes "cf_ldpaths config \<noteq> None" "cf_rootapi config \<noteq> None" "cf_rootdir config \<noteq> None" "cf_console config \<noteq> None"
    and "\<forall>(kind, v) \<in> set (cf_items config). kind \<in> {DBUS_CLIENT, DBUS_SERVICE, WS_CLIENT, WS_SERVICE, SO_BINDING}"
  shows "main_run env config = Some (if cf_httpdPort config \<le> 0 then ([], Exited 1) else planned_end env (start_plan config (rev (cf_items config))))"
proof -
  from assms(1-4) obtain ldpaths rootapi rootdir console where
    s: "cf_ldpaths config = Some ldpaths" "cf_rootapi config = Some rootapi" "cf_rootdir config = Some rootdir" "cf_console config = Some console" by auto
  let ?items = "map (\<lambda>(kind, v). Start_item kind v) (rev (cf_items config))"
  obtain l b where l: "up_to_failure (step_done env) ?items = (l, b)" by (cases "up_to_failure (step_done env) ?items")
  have "Fork \<notin> set ?items" by auto
  moreover have "set l \<subseteq> set ?items" using up_to_failure_prefix [of "step_done env" ?items] l by simp
  ultimately have nofork: "Fork \<notin> set l" by blast
  then have tw: "takeWhile (\<lambda>s. s \<noteq> Fork) (l @ ys) = l @ takeWhile (\<lambda>s. s \<noteq> Fork) ys" for ys by (intro takeWhile_append2) auto
  note items = start_items_eq [OF assms(5), of env, unfolded l prod.case]
  let ?ok = "st_ok env" and ?store = "Store_init (cf_nbSessionMax config) (cf_cntxTimeout config) (cf_token config)"
    and ?cookie = "Init_cookie (cf_httpdPort config) rootapi 3600"
  have store: "ctxStoreInit (nat (cf_nbSessionMax config)) (cf_cntxTimeout config) (cf_token config) (st_apicount env) (st_uuid env) = None \<longleftrightarrow> \<not> step_done env ?store"
    by (rule store_init_done)
  note defs = main_run_def s planned_end_def start_plan_def one_step_log up_to_failure_append l items tw nofork daemonize_def Let_def DEFLT_CNTX_TIMEOUT_def
  show ?thesis
  proof (cases "cf_httpdPort config \<le> 0 \<or> \<not> ?ok (Add_pathset ldpaths) \<or> \<not> b")
    case True
    then consider "cf_httpdPort config \<le> 0" | "0 < cf_httpdPort config" "\<not> ?ok (Add_pathset ldpaths)" | "0 < cf_httpdPort config" "?ok (Add_pathset ldpaths)" "\<not> b"
      by linarith
    then show ?thesis by cases (simp_all add: defs)
  next
    case 1: False
    show ?thesis
    proof (cases "step_done env ?store")
      case False
      then show ?thesis using 1 store by (simp add: defs)
    next
      case 2: True
      then obtain ses where ses: "ctxStoreInit (nat (cf_nbSessionMax config)) (cf_cntxTimeout config) (cf_token config) (st_apicount env) (st_uuid env) = Some ses" using store by blast
      show ?thesis
      proof (cases "?ok ?cookie \<and> ?ok Init_signals \<and> ?ok (Set_rootdir rootdir) \<and> ?ok (Init_threads 3 1 20)")
        case False
        then show ?thesis using 1 2 ses by (auto simp: defs)
      next
        case 3: True
        show ?thesis
        proof (cases "cf_background config")
          case True
          then show ?thesis using 1 2 3 ses
            by (cases "?ok (Open_console console)"; cases "?ok Fork"; cases "st_parent env"; cases "?ok Start_http"; cases "?ok Start_services") (simp_all add: defs)
        next
          case False
          then show ?thesis using 1 2 3 ses by (cases "?ok Start_http"; cases "?ok Start_services") (simp_all add: defs)
        qed
      qed
    qed
  qed
qed

text \<open>The items among the options of the command line.\<close>

abbreviation (input) "item_kind k \<equiv> k \<in> {DBUS_CLIENT, DBUS_SERVICE, WS_CLIENT, WS_SERVICE, SO_BINDING}"

definition item_options :: "(nat \<times> string option) list \<Rightarrow> (nat \<times> string) list" where
  "item_options os = map (\<lambda>(k, a). (k, the a)) (filter (\<lambda>(k, a). item_kind k) os)"

lemma set_int_items: "set_int f a c = Inr c' \<Longrightarrow> (\<And>v c. cf_items (f v c) = cf_items c) \<Longrightarrow> cf_items c' = cf_items c"
  by (auto simp: set_int_def split: scanned.splits)

lemma add_alias_items: "cf_items (add_alias a c) = cf_items c"
  by (auto simp: add_alias_def split: option.split)

lemma parse_option_items:
  assumes "parse_option malloc_ok k a (c, n) = Inr (c', n')"
  shows "cf_items c' = (if item_kind k then (k, the a) # cf_items c else cf_items c)"
proof (cases a)
  case None
  then show ?thesis using assms unfolding parse_option_def Let_def prod.case by (auto split: if_splits)
next
  case (Some v)
  show ?thesis
  proof (cases "item_kind k")
    case True
    then show ?thesis using assms Some unfolding parse_option_def Let_def prod.case by (auto simp: add_item_def split: if_splits)
  next
    case False
    then show ?thesis using assms Some unfolding parse_option_def Let_def prod.case
      by (auto simp: add_alias_items split: if_splits sum.splits dest: set_int_items)
  qed
qed


lemma parse_options_items: "parse_options malloc_ok os (c, n) = Inr (c', n') \<Longrightarrow> rev (cf_items c') = rev (cf_items c) @ item_options os"
proof (induction os arbitrary: c n)
  case (Cons o' os)
  obtain k a where o': "o' = (k, a)" by (cases o')
  with Cons.prems obtain c1 n1 where 1: "parse_option malloc_ok k a (c, n) = Inr (c1, n1)" "parse_options malloc_ok os (c1, n1) = Inr (c', n')"
    by (auto split: sum.splits)
  from Cons.IH [OF 1(2)] parse_option_items [OF 1(1)] show ?case by (auto simp: item_options_def o')
qed (simp add: item_options_def)

lemma default_config_form:
  assumes "config_set_default dir malloc_ok getenv c = Some (config, made)"
  obtains rootdir sessiondir console where
    "config = (default_numbers c)\<lparr>cf_rootdir := Some rootdir, cf_roothttp := or_default (cf_roothttp c) ''.'', cf_rootbase := or_default (cf_rootbase c) ''/opa'',
       cf_rootapi := or_default (cf_rootapi c) ''/api'', cf_ldpaths := or_default (cf_ldpaths c) dir, cf_sessiondir := Some sessiondir, cf_console := Some console\<rparr>"
  using assms unfolding config_set_default_def Option.bind_eq_Some_conv by (auto simp: Option.bind_eq_Some_conv)

lemma default_config_complete:
  assumes "config_set_default dir malloc_ok getenv c = Some (config, made)"
  shows "cf_ldpaths config \<noteq> None" "cf_rootapi config \<noteq> None" "cf_rootdir config \<noteq> None" "cf_console config \<noteq> None" "cf_roothttp config \<noteq> None" "cf_rootbase config \<noteq> None"
    "cf_items config = cf_items c" "cf_aliasdir config = cf_aliasdir c" "cf_token config = cf_token c" "cf_httpdPort config \<noteq> 0"
  by (rule default_config_form [OF assms]; simp add: default_numbers_def or_default_def split: option.split)+

lemma joined_path_iff:
  assumes "is_cstring dir" "is_cstring suffix" "length suffix \<le> 512"
  shows "joined_path True dir suffix = (if length dir + length suffix + 1 \<le> 512 then Some (dir @ suffix) else None)"
proof (cases "length dir < 512")
  case True
  have "first_index (\<lambda>c. c = NUL) (dir @ NUL # m) = Some (length dir)" for m using assms(1) by (induction dir) (auto simp: is_cstring_def)
  moreover have "strncpy_block dir 512 = dir @ NUL # replicate (511 - length dir) NUL"
    using True unfolding strncpy_block_def by (simp add: take_append min_def flip: replicate_Suc)
  moreover have "NUL \<notin> set suffix" "NUL \<notin> set dir" using assms by (auto simp: is_cstring_def)
  ultimately show ?thesis using True assms(3) by (simp add: joined_path_def strncat_block_def takeWhile_append)
next
  case False
  then have "strncpy_block dir 512 = take 512 dir" by (simp add: strncpy_block_def)
  moreover have "first_index (\<lambda>c. c = NUL) (take 512 dir) = None" using assms(1) by (auto simp: first_index_None is_cstring_def dest: in_set_takeD)
  ultimately show ?thesis using False by (simp add: joined_path_def strncat_block_def)
qed

text \<open>C39. The daemon starts its components in the order of its plan: the bindings of the search path, then the clients, servers and bindings of the command line in the order in which
  they were given, then the store of sessions, the cookies, the signals, the root directory and the threads, then in the background mode the console and the fork, and at last the HTTP
  server and the services, before it tells that it is ready. The first step that fails ends the process with the status 1 and is the last one that is tried, a token that is too
  long included; the parent of the fork leaves with the status 0; and the daemon runs exactly when every step of the plan succeeds.\<close>

theorem daemon_starts_in_order:
  assumes "2 \<le> length argv" "parse_options malloc_ok (getopt_long (cliOptions dir) (tl argv)) (zero_config, 1) = Inr (c, n)"
    and "config_set_default dir malloc_ok getenv c = Some (config, made)"
  shows "main dir malloc_ok getenv env argv = Some (if cf_httpdPort config \<le> 0 then ([], Exited 1)
    else planned_end env (start_plan config (item_options (getopt_long (cliOptions dir) (tl argv)))))"
proof -
  let ?os = "getopt_long (cliOptions dir) (tl argv)"
  have items: "rev (cf_items config) = item_options ?os"
    using parse_options_items [OF assms(2)] default_config_complete(7) [OF assms(3)] by (simp add: zero_config_def)
  have "\<forall>(k, v) \<in> set (item_options ?os). item_kind k" by (auto simp: item_options_def)
  then have "\<forall>(k, v) \<in> set (cf_items config). item_kind k" unfolding items [symmetric] set_rev .
  from main_run_plan [OF default_config_complete(1-4) [OF assms(3)] this, of env] show ?thesis
    unfolding items main_def parse_arguments_def using assms by simp
qed

definition demo_argv :: "string list" where
  "demo_argv = [''afb-daemon'', ''--port=8080'', ''--ws-client'', ''unix:/tmp/a'', ''--bind=/b.so'', ''--daemon'']"

definition demo_getenv :: "string \<Rightarrow> string option" where
  "demo_getenv v = (if v = ''HOME'' then Some ''/home/u'' else None)"

lemma demo_options: "getopt_long (cliOptions ''/lib'') (tl demo_argv) = [(SET_TCP_PORT, Some ''8080''), (WS_CLIENT, Some ''unix:/tmp/a''), (SO_BINDING, Some ''/b.so''), (SET_BACKGROUND, None)]"
  by code_simp

definition demo_config :: afb_config where
  "demo_config = zero_config\<lparr>cf_httpdPort := 8080, cf_items := [(SO_BINDING, ''/b.so''), (WS_CLIENT, ''unix:/tmp/a'')], cf_background := True\<rparr>"

lemma demo_parsed: "parse_options True [(SET_TCP_PORT, Some ''8080''), (WS_CLIENT, Some ''unix:/tmp/a''), (SO_BINDING, Some ''/b.so''), (SET_BACKGROUND, None)] (zero_config, 1) = Inr (demo_config, 1)"
  by (simp add: parse_option_def set_int_def sscanf_d_def is_space_def is_digit_def byte_of_def add_item_def demo_config_def zero_config_def Let_def)

lemma demo_paths:
  "joined_path True ''/home/u'' ''/.AFB'' = Some ''/home/u/.AFB''" "joined_path True ''/home/u/.AFB'' ''/sessions'' = Some ''/home/u/.AFB/sessions''"
  "joined_path True ''/home/u/.AFB/sessions'' ''/AFB-console.out'' = Some ''/home/u/.AFB/sessions/AFB-console.out''"
  by (simp_all add: joined_path_iff NUL_def)

theorem daemon_starts_in_order_witness:
  "main ''/lib'' True demo_getenv \<lparr>st_ok = (\<lambda>s. s \<noteq> Start_services), st_parent = False, st_apicount = 2, st_uuid = []\<rparr> demo_argv =
      Some ([Set_api_timeout 20, Add_pathset ''/lib'', Start_item WS_CLIENT ''unix:/tmp/a'', Start_item SO_BINDING ''/b.so'', Store_init 10 3600 None, Init_cookie 8080 ''/api'' 3600,
        Init_signals, Set_rootdir ''/home/u/.AFB'', Init_threads 3 1 20, Open_console ''/home/u/.AFB/sessions/AFB-console.out'', Fork, Start_http, Start_services], Exited 1)"
proof -
  let ?env = "\<lparr>st_ok = (\<lambda>s. s \<noteq> Start_services), st_parent = False, st_apicount = 2, st_uuid = []\<rparr>"
  let ?config = "(default_numbers demo_config)\<lparr>cf_rootdir := Some ''/home/u/.AFB'', cf_roothttp := Some ''.'', cf_rootbase := Some ''/opa'', cf_rootapi := Some ''/api'',
    cf_ldpaths := Some ''/lib'', cf_sessiondir := Some ''/home/u/.AFB/sessions'', cf_console := Some ''/home/u/.AFB/sessions/AFB-console.out''\<rparr>"
  have d: "config_set_default ''/lib'' True demo_getenv demo_config = Some (?config, [''/home/u/.AFB''])"
    using demo_paths by (simp add: config_set_default_def demo_getenv_def demo_config_def zero_config_def or_default_def)
  have n: "2 \<le> length demo_argv" by (simp add: demo_argv_def)
  from daemon_starts_in_order [OF n demo_parsed [folded demo_options] d, of ?env] show ?thesis
    unfolding demo_options
    by (simp add: item_options_def planned_end_def start_plan_def demo_config_def zero_config_def default_numbers_def DEFLT_API_TIMEOUT_def DEFLT_CACHE_TIMEOUT_def
        DEFLT_CNTX_TIMEOUT_def CTX_NBCLIENTS_def step_done_def Let_def)
qed


section \<open>Paths of the configuration\<close>



text \<open>A value that lacks prints the help and ends with the status 0, like the help itself; an empty one is taken for the default.\<close>

lemma missing_value_is_help: "parse_arguments dir malloc_ok getenv [''afb-daemon'', ''--port''] = Some (Inl 0)"
  by (simp add: parse_arguments_def cliOptions_def find_option_def question_def byte_of_def parse_option_def Let_def)

lemma empty_port_is_default:
  "parse_options malloc_ok (getopt_long (cliOptions dir) [''--port='']) (zero_config, 1) = Inr (zero_config, 1)" "cf_httpdPort (default_numbers zero_config) = 1234"
  by (simp_all add: cliOptions_def find_option_def parse_option_def set_int_def sscanf_d_def default_numbers_def zero_config_def Let_def)


section \<open>Which handler gets a request\<close>

lemma locale_file_url:
  "afb_hreq_reply_locale_file_if_exist fuel ok fs g s open_at filename h = Some (h', False) \<Longrightarrow> hq_url h' = hq_url h"
proof (induction fuel arbitrary: filename h h')
  case (Suc fuel)
  have served: "serve_fd fs g s fd st filename h1 \<noteq> Some (h2, False)" for fd st h1 h2 by (auto simp: serve_fd_def Let_def split: option.splits if_splits)
  from Suc.prems show ?case using served
    by (auto simp: Let_def afb_hreq_redirect_to_ending_slash_if_needed_def split: option.splits sum.splits if_splits dest!: Suc.IH)
qed simp


lemma alias_keeps_url: "keeps_url (handler_of (p, handle_alias g io root relax, n))"
  unfolding keeps_url_def handler_of_def
  by (auto simp: handle_alias_def Let_def Option.bind_eq_Some_conv split: if_splits prod.splits dest!: locale_file_url)

lemma context_keeps_url: "hq_url (h\<lparr>hq_context := x\<rparr>) = hq_url h"
  by simp

lemma init_context_url: "afb_hreq_init_context g s now calloc newuuid h = Some (s1, h1, rc) \<Longrightarrow> hq_url h1 = hq_url h"
  by (auto simp: afb_hreq_init_context_def Let_def Option.bind_eq_Some_conv split: if_splits sum.split_asm) (metis sum.exhaust context_keeps_url)

lemma upgrade_url: "afb_websock_check_upgrade SHA1 create info s h = (s', h', rc, w) \<Longrightarrow> hq_url h' = hq_url h"
  by (auto simp: afb_websock_check_upgrade_def split: if_splits prod.splits)

lemma switches_keep_url:
  "keeps_url (handler_of (p, websocket_handler sw, n))" "keeps_url (handler_of (p, apis_handler sw, n))" "keeps_url (handler_of (p, one_page_handler sw, n))"
proof -
  have "hq_url h2 = hq_url h" if "afb_hswitch_websocket_switch SHA1 create info g now calloc newuuid s h = Some (s2, h2, False, w)"
    for SHA1 create info g now calloc newuuid s s2 w and h h2 :: "'j afb_hreq"
    using that by (auto simp: afb_hswitch_websocket_switch_def Option.bind_eq_Some_conv split: if_splits dest!: init_context_url dest: upgrade_url)
  then show "keeps_url (handler_of (p, websocket_handler sw, n))" unfolding keeps_url_def handler_of_def websocket_handler_def on_sessions_def by fastforce
  show "keeps_url (handler_of (p, apis_handler sw, n))"
    unfolding keeps_url_def handler_of_def apis_handler_def on_sessions_def by (auto simp: afb_hswitch_apis_def Let_def Option.bind_eq_Some_conv split: if_splits)
  show "keeps_url (handler_of (p, one_page_handler sw, n))"
    unfolding keeps_url_def handler_of_def one_page_handler_def on_sessions_def by (auto simp: afb_hswitch_one_page_api_redirect_def Option.bind_eq_Some_conv split: if_splits)
qed

text \<open>An alias that gets its memory and its root.\<close>

definition alias_ok :: "alias_answer \<Rightarrow> bool" where
  "alias_ok aa \<longleftrightarrow> aa_malloc aa \<and> aa_link aa \<and> (case aa_created aa of None \<Rightarrow> False | Some r \<Rightarrow> lr_live r \<and> 0 < lr_refcount r)"

definition alias_registration :: "hreq_globals \<Rightarrow> string \<Rightarrow> alias_answer \<Rightarrow> int \<Rightarrow> bool \<Rightarrow> string \<times> 'j handler \<times> int" where
  "alias_registration g url aa priority relax = (url, handle_alias g (aa_io aa) (aa_root aa) relax, priority)"

lemma add_all_append: "add_all (rs @ rs') sv = add_all rs' (add_all rs sv)"
  by (simp add: add_all_def)

lemma add_all_one: "add_all [(p, f, n)] sv = fst (afb_hsrv_add_handler True p f n sv)" "add_all [] sv = sv"
  by (simp_all add: add_all_def)

lemma add_handler_ok: "afb_hsrv_add_handler True p f n sv = (add_all [(p, f, n)] sv, True)"
  by (simp add: add_all_def afb_hsrv_add_handler_def new_handler_def)

lemma alias_added:
  assumes "alias_ok aa"
  shows "\<exists>e'. add_alias_answer g url aa priority relax (sv, e) = Some (add_all [alias_registration g url aa priority relax] sv, e', True) \<and> he_sessions e' = he_sessions e"
proof -
  from assms obtain r where r: "aa_malloc aa" "aa_link aa" "aa_created aa = Some r" "lr_live r" "0 < lr_refcount r" by (auto simp: alias_ok_def split: option.splits)
  have "locale_root_addref r = Some (r\<lparr>lr_refcount := lr_refcount r + 1\<rparr>)" "locale_root_unref (r\<lparr>lr_refcount := lr_refcount r + 1\<rparr>) = Some r"
    using r(4,5) by (simp_all add: locale_root_addref_def locale_root_unref_def Let_def)
  then show ?thesis using r
    by (simp add: add_alias_answer_def afb_hsrv_add_alias_def afb_hsrv_add_alias_root_def add_handler_ok alias_registration_def)
qed


lemma aliases_added:
  assumes "\<forall>i < length as. alias_ok (answer (idx + i) (snd (as ! i)))"
  shows "\<exists>e'. init_aliases g answer idx as (sv, e) = Some (add_all (map (\<lambda>i. alias_registration g (fst (as ! i)) (answer (idx + i) (snd (as ! i))) 0 False) [0..<length as]) sv, e', True)
    \<and> he_sessions e' = he_sessions e"
  using assms
proof (induction as arbitrary: idx sv e)
  case Nil
  then show ?case by (simp add: add_all_one)
next
  case (Cons a as)
  obtain url path where a: "a = (url, path)" by (cases a)
  let ?reg = "\<lambda>i. alias_registration g (fst ((a # as) ! i)) (answer (idx + i) (snd ((a # as) ! i))) 0 False"
  have "alias_ok (answer idx path)" using Cons.prems a by (auto dest: spec [of _ 0])
  from alias_added [OF this, of g url 0 False sv e] obtain e1 where
    e1: "add_alias_answer g url (answer idx path) 0 False (sv, e) = Some (add_all [?reg 0] sv, e1, True)" "he_sessions e1 = he_sessions e" by (auto simp: a)
  have "\<forall>i < length as. alias_ok (answer (idx + 1 + i) (snd (as ! i)))" using Cons.prems by (auto dest: spec [of _ "Suc i" for i])
  from Cons.IH [OF this, of "add_all [?reg 0] sv" e1] obtain e2 where
    e2: "init_aliases g answer (idx + 1) as (add_all [?reg 0] sv, e1) =
      Some (add_all (map (\<lambda>i. alias_registration g (fst (as ! i)) (answer (idx + 1 + i) (snd (as ! i))) 0 False) [0..<length as]) (add_all [?reg 0] sv), e2, True)"
      "he_sessions e2 = he_sessions e1" by auto
  have m: "map ?reg [0..<length (a # as)] = [?reg 0] @ map (\<lambda>i. alias_registration g (fst (as ! i)) (answer (idx + 1 + i) (snd (as ! i))) 0 False) [0..<length as]"
    by (simp add: map_upt_Suc del: upt_Suc)
  have "init_aliases g answer idx (a # as) (sv, e) =
      Some (add_all (map (\<lambda>i. alias_registration g (fst (as ! i)) (answer (idx + 1 + i) (snd (as ! i))) 0 False) [0..<length as]) (add_all [?reg 0] sv), e2, True)"
    using e1 e2 by (simp add: a)
  then show ?case unfolding m add_all_append using e1(2) e2(2) by (intro exI [of _ e2] conjI) (assumption, simp only:)
qed

text \<open>What the server registers, in the order of the source.\<close>

definition registrations :: "('j, 'w, 'api) switch_env \<Rightarrow> (nat \<Rightarrow> string \<Rightarrow> alias_answer) \<Rightarrow> string \<Rightarrow> string \<Rightarrow> string \<Rightarrow> (string \<times> string) list \<Rightarrow> (string \<times> 'j handler \<times> int) list" where
  "registrations sw answer rootapi roothttp rootbase as =
     [(rootapi, websocket_handler sw, 20), (rootapi, apis_handler sw, 10)]
     @ map (\<lambda>i. alias_registration (sw_globals sw) (fst (as ! i)) (answer i (snd (as ! i))) 0 False) [0..<length as]
     @ [alias_registration (sw_globals sw) '''' (answer (length as) roothttp) (-10) True, (rootbase, one_page_handler sw, -20)]"

lemma init_http_server_ok:
  assumes "cf_rootapi config = Some rootapi" "cf_roothttp config = Some roothttp" "cf_rootbase config = Some rootbase" "cf_aliasdir config = as"
    and "\<forall>i < length as. alias_ok (answer i (snd (as ! i)))" "alias_ok (answer (length as) roothttp)"
  shows "\<exists>e'. init_http_server sw True True True answer config (sv, e) = Some (add_all (registrations sw answer rootapi roothttp rootbase as) sv, e', True) \<and> he_sessions e' = he_sessions e"
proof -
  let ?g = "sw_globals sw" let ?sv2 = "add_all [(rootapi, websocket_handler sw, 20), (rootapi, apis_handler sw, 10)] sv"
  let ?regs = "map (\<lambda>i. alias_registration ?g (fst (as ! i)) (answer i (snd (as ! i))) 0 False) [0..<length as]"
  from aliases_added [of as answer 0 ?g ?sv2 e] assms(5) obtain e1 where
    e1: "init_aliases ?g answer 0 as (?sv2, e) = Some (add_all ?regs ?sv2, e1, True)" "he_sessions e1 = he_sessions e" by auto
  from alias_added [OF assms(6), of ?g "''''" "-10" True "add_all ?regs ?sv2" e1] obtain e2 where
    e2: "add_alias_answer ?g '''' (answer (length as) roothttp) (-10) True (add_all ?regs ?sv2, e1) =
      Some (add_all [alias_registration ?g '''' (answer (length as) roothttp) (-10) True] (add_all ?regs ?sv2), e2, True)" "he_sessions e2 = he_sessions e1" by auto
  have two: "add_all [(rootapi, apis_handler sw, 10)] (add_all [(rootapi, websocket_handler sw, 20)] sv) = ?sv2" by (simp add: add_all_def)
  have last: "add_all [alias_registration ?g '''' (answer (length as) roothttp) (-10) True, (rootbase, one_page_handler sw, -20)] sv' =
    add_all [(rootbase, one_page_handler sw, -20)] (add_all [alias_registration ?g '''' (answer (length as) roothttp) (-10) True] sv')" for sv' by (simp add: add_all_def)
  have "init_http_server sw True True True answer config (sv, e) =
      Some (add_all [(rootbase, one_page_handler sw, -20)] (add_all [alias_registration ?g '''' (answer (length as) roothttp) (-10) True] (add_all ?regs ?sv2)), e2, True)"
    using e1(1) e2(1) assms(1-4) by (simp add: init_http_server_def add_handler_ok two)
  then show ?thesis unfolding registrations_def add_all_append last using e1(2) e2(2) by (intro exI [of _ e2] conjI) (assumption, simp only:)
qed

text \<open>The order of the handlers: the groups of different priorities one after the other.\<close>

lemma handler_key_of: "handler_key (handler_of (p, f, n)) = (- n, - int (trimmed_length p))"
  by (simp add: handler_key_def handler_of_def)

lemma sort_groups:
  assumes "\<forall>x \<in> set xs. \<forall>y \<in> set ys. key x < (key y :: 'k :: linorder)"
  shows "sort_key key (xs @ ys) = sort_key key xs @ sort_key key ys"
proof (rule properties_for_sort_key)
  show "mset (sort_key key xs @ sort_key key ys) = mset (xs @ ys)" by simp
  show "sorted (map key (sort_key key xs @ sort_key key ys))" using assms by (auto simp: sorted_append less_imp_le)
  show "filter (\<lambda>x. key k = key x) (sort_key key xs @ sort_key key ys) = filter (\<lambda>x. key k = key x) (xs @ ys)" if "k \<in> set (sort_key key xs @ sort_key key ys)" for k
    using sort_key_stable [of key "key k" xs] sort_key_stable [of key "key k" ys] by (simp add: eq_commute)
qed

lemma registrations_sorted:
  "sort_key handler_key (map handler_of (registrations sw answer rootapi roothttp rootbase as)) =
    [handler_of (rootapi, websocket_handler sw, 20), handler_of (rootapi, apis_handler sw, 10)]
    @ sort_key handler_key (map (\<lambda>i. handler_of (alias_registration (sw_globals sw) (fst (as ! i)) (answer i (snd (as ! i))) 0 False)) [0..<length as])
    @ [handler_of (alias_registration (sw_globals sw) '''' (answer (length as) roothttp) (-10) True), handler_of (rootbase, one_page_handler sw, -20)]"
proof -
  let ?first = "[handler_of (rootapi, websocket_handler sw, 20), handler_of (rootapi, apis_handler sw, 10)]"
    and ?last = "[handler_of (alias_registration (sw_globals sw) '''' (answer (length as) roothttp) (-10) True), handler_of (rootbase, one_page_handler sw, -20)]"
    and ?mid = "map (\<lambda>i. handler_of (alias_registration (sw_globals sw) (fst (as ! i)) (answer i (snd (as ! i))) 0 False)) [0..<length as]"
  have "map handler_of (registrations sw answer rootapi roothttp rootbase as) = ?first @ ?mid @ ?last" by (simp add: registrations_def)
  moreover have "sort_key handler_key (?first @ ?mid @ ?last) = sort_key handler_key ?first @ sort_key handler_key (?mid @ ?last)"
    by (rule sort_groups) (auto simp: alias_registration_def handler_key_of)
  moreover have "sort_key handler_key (?mid @ ?last) = sort_key handler_key ?mid @ sort_key handler_key ?last"
    by (rule sort_groups) (auto simp: alias_registration_def handler_key_of)
  moreover have "sort_key handler_key ?first = ?first" "sort_key handler_key ?last = ?last"
    by (simp_all add: alias_registration_def handler_key_of)
  ultimately show ?thesis by simp
qed


lemma add_all_flags: "(add_all rs sv)\<lparr>sv_httpd := a, sv_evsrc := b, sv_events := c\<rparr> = add_all rs (sv\<lparr>sv_httpd := a, sv_evsrc := b, sv_events := c\<rparr>)"
proof (induction rs arbitrary: sv)
  case (Cons r rs)
  obtain p f n where r: "r = (p, f, n)" by (rule prod_cases3)
  have "(add_all [(p, f, n)] sv)\<lparr>sv_httpd := a, sv_evsrc := b, sv_events := c\<rparr> = add_all [(p, f, n)] (sv\<lparr>sv_httpd := a, sv_evsrc := b, sv_events := c\<rparr>)"
    by (simp add: add_all_def afb_hsrv_add_handler_def new_handler_def)
  with Cons.IH [of "add_all [(p, f, n)] sv"] show ?case unfolding r using add_all_append [of "[(p, f, n)]" rs] by simp
qed (simp add: add_all_one)

definition http_all_ok :: "('j, 'w, 'api) http_env \<Rightarrow> bool" where
  "http_all_ok t \<longleftrightarrow> ht_tmp_ok t \<and> ht_calloc t \<and> ht_cache t \<and> ht_ws t \<and> ht_apis t \<and> ht_page t \<and> ht_daemon t \<and> ht_info t \<and> ht_io t"

lemma http_server_started:
  assumes "http_all_ok t" "cf_rootapi config = Some rootapi" "cf_roothttp config = Some roothttp" "cf_rootbase config = Some rootbase" "cf_aliasdir config = as"
    and "\<forall>i < length as. alias_ok (ht_answer t i (snd (as ! i)))" "alias_ok (ht_answer t (length as) roothttp)"
  shows "\<exists>sv0 e'. sv_handlers sv0 = [] \<and> start_http_server t config e =
      Some (Some (add_all (registrations (ht_switch t) (ht_answer t) rootapi roothttp rootbase as) sv0), e', word_of_int (cf_httpdPort config)) \<and> he_sessions e' = he_sessions e"
proof -
  let ?sv1 = "\<lparr>sv_refcount = 1, sv_handlers = [], sv_httpd = False, sv_evsrc = False, sv_events = False, sv_in_run = 0, sv_cache_to = Some (dec_int (cf_cacheTimeout config)), sv_freed = False\<rparr> :: 'a afb_hsrv"
  from init_http_server_ok [OF assms(2-7), of "ht_switch t" ?sv1 e] obtain e' where
    e': "init_http_server (ht_switch t) True True True (ht_answer t) config (?sv1, e) =
      Some (add_all (registrations (ht_switch t) (ht_answer t) rootapi roothttp rootbase as) ?sv1, e', True)" "he_sessions e' = he_sessions e" by auto
  have "start_http_server t config e =
      Some (Some (add_all (registrations (ht_switch t) (ht_answer t) rootapi roothttp rootbase as) (?sv1\<lparr>sv_httpd := True, sv_evsrc := True, sv_events := True\<rparr>)), e', word_of_int (cf_httpdPort config))"
    using assms(1) e'(1) by (simp add: add_all_flags start_http_server_def http_all_ok_def afb_hsrv_create_def afb_hsrv_set_cache_timeout_def afb_hsrv_start_def)
  with e'(2) show ?thesis by (intro exI [of _ "?sv1\<lparr>sv_httpd := True, sv_evsrc := True, sv_events := True\<rparr>"] exI [of _ e']) simp
qed

text \<open>C7. The HTTP server of the daemon gives a request to its handlers in a fixed order, whatever the options are: below the root of the APIs first the switch to websockets and then the
  calls of APIs, then the aliases of the command line whose url is a prefix of that of the request, the longest first, then the files of the HTTP root, and at last the page of the
  application; each gets what is left of the url, until one of them takes the request, and it is answered by the status 404 when none does.\<close>

theorem http_requests_routed:
  assumes "http_all_ok t" "cf_rootapi config = Some rootapi" "cf_roothttp config = Some roothttp" "cf_rootbase config = Some rootbase" "cf_aliasdir config = as"
    and "\<forall>i < length as. alias_ok (ht_answer t i (snd (as ! i)))" "alias_ok (ht_answer t (length as) roothttp)"
    and "is_cstring rootapi" "is_cstring rootbase" "\<forall>i < length as. is_cstring (fst (as ! i))"
    and "get_method (al_method al) = afb_method_get" "al_calloc al" "al_upload al = []" "is_cstring (al_url al)"
  shows "\<exists>sv e'. start_http_server t config e = Some (Some sv, e', word_of_int (cf_httpdPort config)) \<and> he_sessions e' = he_sessions e
    \<and> access_handler g sv al e' n None =
      (case try_handlers (filter (handler_matches (al_url al))
             ([handler_of (rootapi, websocket_handler (ht_switch t), 20), handler_of (rootapi, apis_handler (ht_switch t), 10)]
              @ sort_key handler_key (map (\<lambda>i. handler_of (alias_registration (sw_globals (ht_switch t)) (fst (as ! i)) (ht_answer t i (snd (as ! i))) 0 False)) [0..<length as])
              @ [handler_of (alias_registration (sw_globals (ht_switch t)) '''' (ht_answer t (length as) roothttp) (-10) True), handler_of (rootbase, one_page_handler (ht_switch t), -20)]))
             e' ((new_request sv al afb_method_get (n + 1))\<lparr>hq_scanned := True\<rparr>) of
         None \<Rightarrow> None
       | Some (e2, h2, rc) \<Rightarrow> map_option (\<lambda>h'. (e2, n + 1, Some h', None))
           (if rc then Some h2 else afb_hreq_reply_error g (he_sessions e2) MHD_HTTP_NOT_FOUND h2))"
proof -
  let ?rs = "registrations (ht_switch t) (ht_answer t) rootapi roothttp rootbase as"
  from http_server_started [OF assms(1-7), of e] obtain sv0 e' where
    sv0: "sv_handlers sv0 = []" "start_http_server t config e = Some (Some (add_all ?rs sv0), e', word_of_int (cf_httpdPort config))" "he_sessions e' = he_sessions e" by blast
  have "\<forall>r \<in> set ?rs. is_cstring (fst r) \<and> keeps_url (handler_of r)"
    using assms(8-10) by (auto simp: registrations_def alias_registration_def switches_keep_url alias_keeps_url)
  from requests_dispatched_by_priority [OF sv0(1) assms(11-14) this, of g e' n] sv0(2,3) show ?thesis unfolding registrations_sorted by blast
qed


definition demo_answer :: "nat \<Rightarrow> string \<Rightarrow> alias_answer" where
  "demo_answer i path = \<lparr>aa_io = demo_alias_io, aa_root = 10 + i, aa_created = Some demo_root, aa_malloc = True, aa_link = True\<rparr>"

definition demo_switch :: "(unit, unit, unit) switch_env" where
  "demo_switch = \<lparr>sw_globals = demo_globals, sw_SHA1 = demo_digest, sw_create = (\<lambda>s x fd. (s, None)), sw_info = None, sw_now = 10, sw_calloc = None, sw_newuuid = [],
     sw_call = (\<lambda>a v n st. Some st), sw_apis = [], sw_ok = (\<lambda>_. True)\<rparr>"

definition demo_http :: "(unit, unit, unit) http_env" where
  "demo_http = \<lparr>ht_switch = demo_switch, ht_tmp_ok = True, ht_calloc = True, ht_cache = True, ht_ws = True, ht_apis = True, ht_page = True, ht_answer = demo_answer,
     ht_daemon = True, ht_info = True, ht_io = True\<rparr>"

definition demo_http_config :: afb_config where
  "demo_http_config = zero_config\<lparr>cf_httpdPort := 65616, cf_rootapi := Some ''/api'', cf_roothttp := Some ''.'', cf_rootbase := Some ''/opa'',
     cf_aliasdir := [(''/icons'', ''/usr/share/icons'')]\<rparr>"

theorem http_requests_routed_witness:
  "\<exists>sv e'. start_http_server demo_http demo_http_config (demo_env_http demo_root) = Some (Some sv, e', 80)
    \<and> access_handler demo_globals sv (demo_call ''GET'' ''/api/hello/ping'') e' 1 None =
      (case try_handlers [handler_of (''/api'', websocket_handler demo_switch, 20), handler_of (''/api'', apis_handler demo_switch, 10),
             handler_of ('''', handle_alias demo_globals demo_alias_io 11 True, -10)] e' ((new_request sv (demo_call ''GET'' ''/api/hello/ping'') afb_method_get 2)\<lparr>hq_scanned := True\<rparr>) of
         None \<Rightarrow> None
       | Some (e2, h2, rc) \<Rightarrow> map_option (\<lambda>h'. (e2, 2, Some h', None)) (if rc then Some h2 else afb_hreq_reply_error demo_globals (he_sessions e2) MHD_HTTP_NOT_FOUND h2))"
proof -
  have ok: "http_all_ok demo_http" by (simp add: http_all_ok_def demo_http_def)
  have cf: "cf_rootapi demo_http_config = Some ''/api''" "cf_roothttp demo_http_config = Some ''.''" "cf_rootbase demo_http_config = Some ''/opa''"
    "cf_aliasdir demo_http_config = [(''/icons'', ''/usr/share/icons'')]" "cf_httpdPort demo_http_config = 65616" by (simp_all add: demo_http_config_def)
  have al: "alias_ok (ht_answer demo_http i p)" for i p by (simp add: alias_ok_def demo_http_def demo_answer_def demo_root_def)
  have cs: "is_cstring ''/api''" "is_cstring ''/opa''" "is_cstring ''/icons''" "is_cstring ''/api/hello/ping''" by (simp_all add: NUL_def)
  have call: "get_method (al_method (demo_call ''GET'' ''/api/hello/ping'')) = afb_method_get" "al_calloc (demo_call ''GET'' ''/api/hello/ping'')"
    "al_upload (demo_call ''GET'' ''/api/hello/ping'') = []" "al_url (demo_call ''GET'' ''/api/hello/ping'') = ''/api/hello/ping''" by (simp_all add: demo_call_def get_method_values)
  have m: "handler_matches ''/api/hello/ping'' (handler_of (''/api'', f, n))" "handler_matches ''/api/hello/ping'' (handler_of ('''', f, n))"
    "\<not> handler_matches ''/api/hello/ping'' (handler_of (''/opa'', f, n))" "\<not> handler_matches ''/api/hello/ping'' (handler_of (''/icons'', f, n))" for f :: "unit handler" and n
    by (simp_all add: handler_matches_def handler_of_def trimmed_length_def casekey_def to_lower_def byte_of_def)
  have env: "ht_switch demo_http = demo_switch" "ht_answer demo_http = demo_answer" "sw_globals demo_switch = demo_globals" by (simp_all add: demo_http_def demo_switch_def)
  have regs: "alias_registration g u (demo_answer i p) n relax = (u, handle_alias g demo_alias_io (10 + i) relax, n)" for g u i p n relax by (simp add: alias_registration_def demo_answer_def)
  have f: "filter (handler_matches ''/api/hello/ping'') ([handler_of (''/api'', websocket_handler demo_switch, 20), handler_of (''/api'', apis_handler demo_switch, 10)]
      @ sort_key handler_key (map (\<lambda>i. handler_of (alias_registration demo_globals (fst ([(''/icons'', ''/usr/share/icons'')] ! i)) (demo_answer i (snd ([(''/icons'', ''/usr/share/icons'')] ! i))) 0 False))
          [0..<length [(''/icons'', ''/usr/share/icons'')]])
      @ [handler_of (alias_registration demo_globals '''' (demo_answer (length [(''/icons'', ''/usr/share/icons'')]) ''.'') (-10) True), handler_of (''/opa'', one_page_handler demo_switch, -20)]) =
    [handler_of (''/api'', websocket_handler demo_switch, 20), handler_of (''/api'', apis_handler demo_switch, 10), handler_of ('''', handle_alias demo_globals demo_alias_io 11 True, -10)]"
    by (simp add: m regs)
  have port: "(word_of_int 65616 :: 16 word) = 80" by simp
  have ics: "\<forall>i < length [(''/icons'', ''/usr/share/icons'')]. is_cstring (fst ([(''/icons'', ''/usr/share/icons'')] ! i))" using cs(3) by simp
  have ial: "\<forall>i < length [(''/icons'', ''/usr/share/icons'')]. alias_ok (ht_answer demo_http i (snd ([(''/icons'', ''/usr/share/icons'')] ! i)))" using al by blast
  have two: "(1 :: int) + 1 = 2" by simp
  from http_requests_routed [OF ok cf(1-4) ial al cs(1,2) ics call(1-3), unfolded call(4) cf(5) env port f, OF cs(4), of "demo_env_http demo_root" demo_globals 1] show ?thesis
    unfolding two by blast
qed

end
