(* ===== verification/Spec2Isabelle.thy ===== *)
theory Spec2Isabelle
  imports Context Apis Locale_Root Evt Wsj1 Hsrv Jobs Api_So Api_Ws Subcall Tictactoe Api_Dbus Ws_Client Daemon
begin

text \<open>
  Verification of the application framework binder, the daemon that gives applications access to the APIs of bindings over HTTP and
  websockets (\<^verbatim>\<open>src/src/\<close>).

  \<^bold>\<open>Parts and how they interact.\<close> The HTTP server takes requests from the HTTP library and gives them to handlers ordered by
  priority: the switch of APIs, the switch to a websocket, the redirection of one page applications, aliases of directories. A handler
  connects the request to a session, calls the API that the path names, or serves a localized file. After a switch the websocket carries
  frames, the frames carry messages, the messages carry calls, replies and events of a JSON protocol. Events are pushed to listeners that
  watch them. The order of the theories follows these calls:

  \<^item> \<open>Afb_Prelude\<close>: folds that may fail, searches of tables, bounded copies, and the interfaces shared by several components as locales
    (a store with the law that the last write is read, counted references).
  \<^item> \<open>C_Strings\<close>: strings of C, comparisons without case, decimal numbers.
  \<^item> \<open>Session\<close> (\<^verbatim>\<open>session.c\<close>): the table of sessions as a heap of records, expiry, references, tokens, values and cookies. The store is safe
    in every reachable state, the sweep closes exactly what has expired, a new token is the only one accepted.
  \<^item> \<open>Context\<close> (\<^verbatim>\<open>afb-context.c\<close>): the link of a request to its session; references are balanced, and a level of assurance only changes with a
    validated token. The interface of counted requests that hold a session is a locale here, which the requests of \<open>Hreq\<close>, \<open>Api_Ws\<close> and \<open>Api_Dbus\<close>
    are instances of: their session is given back once, with the last reference.
  \<^item> \<open>Apis\<close> (\<^verbatim>\<open>afb-apis.c\<close>): the table of APIs; names are unique without case and a registered API keeps its index.
  \<^item> \<open>Locale_Path\<close>, \<open>Locale_Container\<close>, \<open>Locale_Root\<close> (\<^verbatim>\<open>locale-root.c\<close>): relative paths that stay inside of their root, the sorted table of
    language folders with its binary search, searches with their cache and reference counts, opening and resolving of files.
  \<^item> \<open>Evt\<close> (\<^verbatim>\<open>afb-evt.c\<close>): events, listeners and watches, which are in two lists each; the store is safe in every reachable state and refines
    a matrix of subscription counts.
  \<^item> \<open>Websock\<close> (\<^verbatim>\<open>websock.c\<close>): frames, masks and the receiving state machine; what is sent is received.
  \<^item> \<open>Ws\<close> (\<^verbatim>\<open>afb-ws.c\<close>): messages put together from fragments, with every write inside of the buffer.
  \<^item> \<open>Wsj1\<close> (\<^verbatim>\<open>afb-wsj1.c\<close>): calls, replies and events; identifiers of pending calls are unique, a reply ends its call, the list of messages
    refines a list.
  \<^item> \<open>Hquery\<close>, \<open>Msg_Json\<close>, \<open>Hreq\<close> (\<^verbatim>\<open>afb-hreq.c\<close>, \<^verbatim>\<open>afb-msg-json.c\<close>, \<^verbatim>\<open>afb-method.c\<close>): queries of redirections, reply messages, requests:
    replies, files, posted data, arguments, sessions.
  \<^item> \<open>Upgrade\<close> (\<^verbatim>\<open>afb-websock.c\<close>) and \<open>Hswitch\<close> (\<^verbatim>\<open>afb-hswitch.c\<close>): the handshake of websockets and the handlers.
  \<^item> \<open>Hsrv\<close> (\<^verbatim>\<open>afb-hsrv.c\<close>): the server: handlers in the order of their priority, the life of a request, aliases. A request is given to the matching
    handlers by priority and is never left alone, an alias serves the localized file.
  \<^item> \<open>Jobs\<close> (\<^verbatim>\<open>afb-thread.c\<close>): the queue of jobs and the worker threads as a step relation over all interleavings of their critical sections.
    Every queued job runs, no thread is blocked for ever while there is work, and the jobs that are left at the end are aborted.
  \<^item> \<open>Api_So\<close> (\<^verbatim>\<open>afb-api-so.c\<close>, \<^verbatim>\<open>afb-binding.h\<close>): bindings, the loading of their files and the rules of sessions that a verb is declared with:
    a verb runs if and only if the request has the session, the token and the level that it asks for.
  \<^item> \<open>Ws_Proto\<close>, \<open>Api_Ws\<close> (\<^verbatim>\<open>afb-api-ws.c\<close>): the binary protocol of a remote API, its client and its server. What is written is read back, no
    message makes the reader leave its block, a remote call gives the answer of the server, and events are counted per client.
  \<^item> \<open>Ws_Json1\<close> (\<^verbatim>\<open>afb-ws-json1.c\<close>): the connections of JSON clients and their requests; references are safe in every reachable state.
  \<^item> \<open>Subcall\<close> (\<^verbatim>\<open>afb-subcall.c\<close>, \<^verbatim>\<open>afb-svc.c\<close>): calls between APIs and the requests of services; the tree of requests is safe to any depth.
  \<^item> \<open>Tictactoe\<close> (\<^verbatim>\<open>bindings/samples/tic-tac-toe.c\<close>): the sample binding with state, its boards, analysis and verbs; boards stay consistent.
  \<^item> \<open>Api_Dbus\<close> (\<^verbatim>\<open>afb-api-dbus.c\<close>): APIs over D-Bus: a call gives the answer of the server, and the listeners count the destinations they use.
  \<^item> \<open>Ws_Client\<close> (\<^verbatim>\<open>afb-ws-client.c\<close>): the client of websockets; its handshake is the one that the server of \<open>Upgrade\<close> accepts, with the digest
    of the key that was sent.
  \<^item> \<open>Daemon\<close> (\<^verbatim>\<open>main.c\<close>, \<^verbatim>\<open>afb-config.h\<close>): the command line, the defaults and the start. The steps are made in their order and the first that
    fails ends the program, and the requests are routed to the handlers of websockets, APIs, aliases and one page applications.
  \<^item> this theory: a call that goes through the JSON protocol, the messages and the frames of both peers.

  \<^bold>\<open>How the code is modelled.\<close> A structure is a record with the fields of the source; pointers to shared objects are addresses of a heap,
  a map from addresses to records, and \<open>None\<close> is the access to an object that was freed, a null pointer or a failed assertion, so that a
  theorem that gives \<open>Some\<close> shows the absence of these faults. Errors that the code reports are values (\<open>Inl\<close> of an error, a boolean, a negative number as in
  the source). System calls, allocation, the clock, random identifiers, the JSON, HTTP and digest libraries and the callbacks of bindings are
  arguments of the definitions.

  \<^bold>\<open>Bounds and fuel.\<close> Loops with a fixed bound in the state take it: the search of a free event identifier one more than the number
  of events, the identifiers of calls one more than the number of pending calls, the search of parent folders one more than the number of
  folders, the removal of watches the length of the list. These are shown to be enough. The loops that depend on the outside
  (the dispatch and the reading of websockets, the indexes of nested directories) take a fuel, with theorems that tell how much is
  enough: one more than the bytes and polls for a payload, the depth of the indexes for a file.

  \<^bold>\<open>Not modelled.\<close> The hooks for tracing, the messages of the log, the handler of signals, the glue to the loop of events of the
  D-Bus library and that loop itself, the demonstration client, the bindings of devices (audio, radio, media) and the raw D-Bus binding, and the samples other
  than the game: they are output, or calls of libraries with no state of the daemon. The locks of the other parts than the threads are
  not modelled: each operation is one step.
\<close>

section \<open>A call over the network\<close>

text \<open>A client of the JSON protocol that only notes what it is told.\<close>

definition noting :: "(wsj1_event \<Rightarrow> 'j afb_wsj1 \<Rightarrow> 'u \<Rightarrow> 'u) \<Rightarrow> ('j, 'u) wsj1_user" where
  "noting g ev conf = (case conf of (ws, io, a, w, u) \<Rightarrow> (ws, io, a, w, g ev w u))"

lemma noting_call_text:
  assumes "msgs_ok (w :: 'j afb_wsj1) ps" "\<not> w_oom w" "1 \<le> w_refcount w" "has_on_call itf"
    and "plain i" "plain api" "CHR ''/'' \<notin> set api" "plain verb" "item_ok obj"
  shows "\<exists>w2 w' m. msgs_ok w' ps \<and> w_refcount w' = w_refcount w \<and> w_calls w' = w_calls w
    \<and> w_heap w2 (w_fresh w) = Some m \<and> msg_strings m = (Some i, Some api, Some verb, None, Some obj, None)
    \<and> (\<forall>ws io a. wsj1_cb itf (noting g) (Cli_text (bytes_of (concat (issot_texts CALL i (api @ ''/'' @ verb) (Some obj) None)))) (ws, io, a, w, u :: 'u) =
        (ws, io, a, w', g (W_call api verb (w_fresh w)) w2 u))"
proof -
  let ?t = "concat (issot_texts CALL i (api @ ''/'' @ verb) (Some obj) None)" and ?p = "w_fresh w"
  from parse_call_text [OF assms(5-9), of "w_calls w"] obtain m :: "'j afb_wsj1_msg" where
    m: "parse_msg (?t @ [NUL]) (w_calls w) = (w_calls w, Parsed m None)" "m_code m = CALL"
      "msg_strings m = (Some i, Some api, Some verb, None, Some obj, None)" by blast
  have g: "m_api m \<noteq> None" "m_verb m \<noteq> None" "the (afb_wsj1_msg_api m) = api" "the (afb_wsj1_msg_verb m) = verb"
    using m(3) by (auto simp: msg_getters)
  have ev: "W_call api verb ?p = (case None of Some c \<Rightarrow> W_reply (call_callback c) ?p
      | None \<Rightarrow> if m_code m = CALL then W_call (the (afb_wsj1_msg_api m)) (the (afb_wsj1_msg_verb m)) ?p else W_event (the (afb_wsj1_msg_event m)) ?p)"
    using g m(2) by simp
  from wsj1_on_text_parsed [OF assms(1,2) m(1) parse_msg_previous [OF m(1)] ev, of itf "noting g"] g assms(4) m(2) obtain w2 where
    w2: "\<And>ws io a u. wsj1_on_text itf (noting g) ?t (ws, io, a, w, u :: 'u) = afb_wsj1_msg_unref ?p (noting g (W_call api verb ?p) (ws, io, a, w2, u))"
      "msgs_ok w2 (?p # ps)" "w_heap w2 ?p = Some (m\<lparr>m_refcount := 1, m_next := w_messages w\<rparr>)"
      "w_calls w2 = w_calls w" "w_refcount w2 = w_refcount w + 1" by auto
  let ?m = "m\<lparr>m_refcount := 1, m_next := w_messages w\<rparr>"
  from msg_unref_last [OF w2(2,3)] obtain w3 where
    w3: "\<And>ws io a u. afb_wsj1_msg_unref ?p (ws, io, a, w2, u :: 'u) = Some (afb_wsj1_unref (ws, io, a, w3, u))" "msgs_ok w3 (remove1 ?p (?p # ps))"
      "w3 = w2\<lparr>w_heap := w_heap w3, w_messages := w_messages w3\<rparr>" by auto
  have r3: "w_refcount w3 = w_refcount w + 1" "w_calls w3 = w_calls w" by (subst w3(3); simp add: w2)+
  let ?w4 = "w3\<lparr>w_refcount := w_refcount w\<rparr>"
  have un: "afb_wsj1_unref (ws, io, a, w3, u') = (ws, io, a, ?w4, u')" for ws io a u'
    using assms(3) r3 by (simp add: afb_wsj1_unref_def Let_def)
  have "msgs_ok ?w4 ps" using w3(2) by (simp add: msgs_ok_def)
  moreover have "msg_strings ?m = (Some i, Some api, Some verb, None, Some obj, None)" using m(3) by (simp add: msg_getters)
  moreover have "wsj1_cb itf (noting g) (Cli_text (bytes_of ?t)) (ws, io, a, w, u) = (ws, io, a, ?w4, g (W_call api verb ?p) w2 u)" for ws io a
    unfolding wsj1_cb_def cli_event.case chars_of_bytes_of w2(1) noting_def prod.case w3(1) un option.case ..
  ultimately show ?thesis using w2(3) r3 by (intro exI [of _ w2] exI [of _ ?w4] exI [of _ ?m]) simp
qed

lemma call_sent:
  assumes "calls_ok w" "length (w_calls w) < 999999" "\<not> w_oom w" "aws_ws a" "\<not> io_wfail io"
  shows "\<exists>w' call. afb_wsj1_call_s api verb (Some obj) cb (ws, io, a, w, u) =
      Some ((ws, io\<lparr>io_out := io_out io @ frame_bytes 1 OPCODE_TEXT (bytes_of (concat (issot_texts CALL (call_id call) (api @ ''/'' @ verb) (Some obj) None)))\<rparr>, a, w', u), Inr 0)
    \<and> plain (call_id call) \<and> length (call_id call) \<le> 6 \<and> call_callback call = cb \<and> w_calls w' = call # w_calls w"
proof -
  from call_create_ok [OF assms(1-3), of cb] obtain w' call where
    c: "wsj1_call_create cb w = Some (w', Some call)" "call_callback call = cb" "w_calls w' = call # w_calls w" "plain (call_id call)"
    "length (call_id call) \<le> 6" by blast
  let ?args = "map bytes_of (issot_texts CALL (call_id call) (api @ ''/'' @ verb) (Some obj) None)"
  have "length ?args \<le> 31" by (simp add: issot_texts_def end_token_def)
  from afb_ws_texts_out [OF assms(4,5) this, of ws "(w', u)"]
  have "wsj1_send_issot CALL (call_id call) (api @ ''/'' @ verb) (Some obj) None (ws, io, a, w', u) =
      ((ws, io\<lparr>io_out := io_out io @ frame_bytes 1 OPCODE_TEXT (concat ?args)\<rparr>, a, w', u), Inr 0)"
    by (simp add: wsj1_send_issot_def)
  with c show ?thesis by (simp add: afb_wsj1_call_s_def is_failure_def bytes_of_concat)
qed

lemma wsj1_create_ok:
  assumes "afb_wsj1_create fd True True True True True = Inr (Some (ws, a, w))"
  shows "ws = websock_create_v13" "msgs_ok w []" "\<not> w_oom w" "w_refcount w = 1" "w_fresh w = 1" "w_calls w = []"
    "aws_state a = waiting" "aws_buffer a = no_buf" "aws_ws a"
    "io_closed io \<Longrightarrow> io_chunks io = chunk_list s \<Longrightarrow> at_frame s (ws, io, a, k)"
  using assms
  by (auto simp: afb_wsj1_create_def afb_ws_create_def msgs_ok_def at_frame_def ws_ok_def websock_create_v13_def split: if_splits)



end
